(* ===== verification/OF_Prelude.thy ===== *)
theory OF_Prelude
  imports Main "HOL-Library.Word"
begin

text \<open>
  The shared vocabulary of the development: the machine integer types of the C code, the
  byte-order functions of \<^verbatim>\<open>arpa/inet.h\<close> and \<^verbatim>\<open>lib/xtoxll.h\<close> on the little-endian hosts the
  agent runs on, loads and stores of integers in byte arrays, and the generic facts about
  words and lists that the component theories use through the collections
  \<open>byte_order\<close> and \<open>mem_simps\<close>.
\<close>

unbundle bit_operations_syntax

named_theorems byte_order \<open>rewriting of htons, htonl, htonll and their inverses\<close>
named_theorems mem_simps \<open>loads and stores of integers in byte arrays\<close>

section \<open>Machine integers\<close>

type_synonym u8 = "8 word"
type_synonym u16 = "16 word"
type_synonym u32 = "32 word"
type_synonym u64 = "64 word"

text \<open>A C \<open>int\<close> is kept as a 32-bit word and compared through \<open>sint\<close>.\<close>

type_synonym c_int = "32 word"

abbreviation flag_set :: "'a::len word \<Rightarrow> 'a word \<Rightarrow> bool" where
  "flag_set w m \<equiv> w AND m \<noteq> 0"

section \<open>Byte order\<close>

text \<open>
  \<^verbatim>\<open>htons\<close>, \<^verbatim>\<open>htonl\<close>, \<^verbatim>\<open>htonll\<close> reverse the bytes of their argument on a little-endian host,
  and \<^verbatim>\<open>ntohs\<close>, \<^verbatim>\<open>ntohl\<close>, \<^verbatim>\<open>ntohll\<close> are the same functions.
\<close>

definition htons :: "u16 \<Rightarrow> u16" where
  "htons x = push_bit 8 x OR drop_bit 8 x"

definition htonl :: "u32 \<Rightarrow> u32" where
  "htonl x = push_bit 24 x OR push_bit 16 (take_bit 8 (drop_bit 8 x))
     OR push_bit 8 (take_bit 8 (drop_bit 16 x)) OR drop_bit 24 x"

definition htonll :: "u64 \<Rightarrow> u64" where
  "htonll x = push_bit 32 (ucast (htonl (ucast x))) OR ucast (htonl (ucast (drop_bit 32 x)))"

abbreviation ntohs :: "u16 \<Rightarrow> u16" where "ntohs \<equiv> htons"
abbreviation ntohl :: "u32 \<Rightarrow> u32" where "ntohl \<equiv> htonl"
abbreviation ntohll :: "u64 \<Rightarrow> u64" where "ntohll \<equiv> htonll"

lemma bit_htons: "n < 16 \<Longrightarrow> bit (htons x) n = bit x (if n < 8 then n + 8 else n - 8)"
  by (auto simp: htons_def bit_simps add.commute dest: bit_imp_le_length)

lemma bit_htonl:
  "n < 32 \<Longrightarrow> bit (htonl x) n =
     bit x (if n < 8 then n + 24 else if n < 16 then n + 8 else if n < 24 then n - 8 else n - 24)"
  by (auto simp: htonl_def bit_simps add.commute dest: bit_imp_le_length)

lemma htons_htons [simp, byte_order]: "htons (htons x) = x"
  by (rule bit_word_eqI) (auto simp: bit_htons)

lemma htonl_htonl [simp, byte_order]: "htonl (htonl x) = x"
  by (rule bit_word_eqI) (auto simp add: bit_htonl)

lemma bit_htonll:
  "n < 64 \<Longrightarrow> bit (htonll x) n =
     bit x (if n < 32 then (if n < 8 then n + 56 else if n < 16 then n + 40
                            else if n < 24 then n + 24 else n + 8)
            else (if n < 40 then n - 8 else if n < 48 then n - 24
                  else if n < 56 then n - 40 else n - 56))"
  by (auto simp: htonll_def bit_simps bit_htonl add.commute dest: bit_imp_le_length)

lemma htonll_htonll [simp, byte_order]: "htonll (htonll x) = x"
  by (rule bit_word_eqI) (auto simp add: bit_htonll)

lemma htons_eq_iff [simp, byte_order]: "htons x = htons y \<longleftrightarrow> x = y"
  by (metis htons_htons)

lemma htonl_eq_iff [simp, byte_order]: "htonl x = htonl y \<longleftrightarrow> x = y"
  by (metis htonl_htonl)

lemma htons_0 [simp, byte_order]: "htons 0 = 0"
  by (simp add: htons_def)

lemma htonl_0 [simp, byte_order]: "htonl 0 = 0"
  by (simp add: htonl_def)

lemma htonl_and: "htonl (x AND y) = htonl x AND htonl y"
  by (rule bit_word_eqI) (simp add: bit_htonl bit_and_iff)

lemma htonl_xor: "htonl (x XOR y) = htonl x XOR htonl y"
  by (rule bit_word_eqI) (simp add: bit_htonl bit_xor_iff)

lemma htonl_eq_0_iff: "htonl x = 0 \<longleftrightarrow> x = 0"
  using htonl_eq_iff [of x 0] by simp

section \<open>Words and natural numbers\<close>

lemma unat_not: "unat (NOT (x :: 'a::len word)) = 2 ^ LENGTH('a) - 1 - unat x"
proof -
  have "unat (NOT x) = unat (- 1 - x)"
    by (simp only: not_eq_complement minus_diff_commute)
  also have "\<dots> = unat (- 1 :: 'a word) - unat x"
    by (rule unat_sub) simp
  finally show ?thesis
    by (simp add: unsigned_minus_1_eq_mask mask_eq_exp_minus_1)
qed

lemma unat_u8_bound: "unat (x :: u8) \<le> 255"
  using unsigned_less [of x, where ?'a = nat] by simp

lemma unat_u16_bound: "unat (x :: u16) \<le> 65535"
  using unsigned_less [of x, where ?'a = nat] by simp

lemma unat_u32_bound: "unat (x :: u32) \<le> 4294967295"
  using unsigned_less [of x, where ?'a = nat] by simp

lemma unat_ucast_up: "LENGTH('a) \<le> LENGTH('b) \<Longrightarrow> unat (ucast (x :: 'a::len word) :: 'b::len word) = unat x"
  by (simp add: unsigned_ucast_eq take_bit_nat_eq_self unsigned_less [THEN less_le_trans])

section \<open>Byte arrays\<close>

text \<open>
  Loads and stores of the integers that a C struct overlays on a byte array, at a byte offset,
  in host (little-endian) order. A load outside the array gives 0 and a store outside it does
  nothing; the guards of the code that uses them keep both inside.
\<close>

definition ld8 :: "u8 list \<Rightarrow> nat \<Rightarrow> u8" where
  "ld8 bs i = (if i < length bs then bs ! i else 0)"

definition ld16 :: "u8 list \<Rightarrow> nat \<Rightarrow> u16" where
  "ld16 bs i = ucast (ld8 bs i) OR push_bit 8 (ucast (ld8 bs (i + 1)))"

definition ld32 :: "u8 list \<Rightarrow> nat \<Rightarrow> u32" where
  "ld32 bs i = ucast (ld16 bs i) OR push_bit 16 (ucast (ld16 bs (i + 2)))"

definition st8 :: "u8 list \<Rightarrow> nat \<Rightarrow> u8 \<Rightarrow> u8 list" where
  "st8 bs i v = bs[i := v]"

definition st16 :: "u8 list \<Rightarrow> nat \<Rightarrow> u16 \<Rightarrow> u8 list" where
  "st16 bs i v = st8 (st8 bs i (ucast v)) (i + 1) (ucast (drop_bit 8 v))"

definition st32 :: "u8 list \<Rightarrow> nat \<Rightarrow> u32 \<Rightarrow> u8 list" where
  "st32 bs i v = st16 (st16 bs i (ucast v)) (i + 2) (ucast (drop_bit 16 v))"

text \<open>\<^verbatim>\<open>memcpy (array + i, src, length src)\<close>.\<close>

fun stn :: "u8 list \<Rightarrow> nat \<Rightarrow> u8 list \<Rightarrow> u8 list" where
  "stn bs i [] = bs"
| "stn bs i (v # vs) = stn (st8 bs i v) (i + 1) vs"

definition ldn :: "u8 list \<Rightarrow> nat \<Rightarrow> nat \<Rightarrow> u8 list" where
  "ldn bs i n = map (\<lambda>k. ld8 bs (i + k)) [0..<n]"

lemma length_st8 [simp, mem_simps]: "length (st8 bs i v) = length bs"
  by (simp add: st8_def)

lemma length_st16 [simp, mem_simps]: "length (st16 bs i v) = length bs"
  by (simp add: st16_def)

lemma length_st32 [simp, mem_simps]: "length (st32 bs i v) = length bs"
  by (simp add: st32_def)

lemma length_stn [simp, mem_simps]: "length (stn bs i vs) = length bs"
  by (induction vs arbitrary: bs i) simp_all

lemma length_ldn [simp, mem_simps]: "length (ldn bs i n) = n"
  by (simp add: ldn_def)

lemma ld8_st8 [mem_simps]: "ld8 (st8 bs i v) j = (if i = j \<and> i < length bs then v else ld8 bs j)"
  by (auto simp: ld8_def st8_def)

lemma ld8_st16 [mem_simps]:
  "i + 1 < length bs \<Longrightarrow> ld8 (st16 bs i v) j =
     (if j = i then ucast v else if j = i + 1 then ucast (drop_bit 8 v) else ld8 bs j)"
  by (auto simp: st16_def ld8_st8)

lemma ld8_stn [mem_simps]:
  "i + length vs \<le> length bs \<Longrightarrow>
     ld8 (stn bs i vs) j = (if i \<le> j \<and> j < i + length vs then vs ! (j - i) else ld8 bs j)"
proof (induction vs arbitrary: bs i)
  case (Cons v vs)
  then show ?case
    by (auto simp: ld8_st8 nth_Cons')
qed auto

lemma u16_of_bytes [mem_simps]: "ucast (ucast v :: u8) OR push_bit 8 (ucast (ucast (drop_bit 8 v) :: u8)) = (v :: u16)"
  by (rule bit_word_eqI) (auto simp: bit_simps)

lemma u32_of_halves [mem_simps]: "ucast (ucast v :: u16) OR push_bit 16 (ucast (ucast (drop_bit 16 v) :: u16)) = (v :: u32)"
  by (rule bit_word_eqI) (auto simp: bit_simps)

lemma ld16_st16_same [mem_simps]: "i + 1 < length bs \<Longrightarrow> ld16 (st16 bs i v) i = v"
  by (simp add: ld16_def ld8_st16 u16_of_bytes)

lemma ld16_st16_other [mem_simps]:
  "i + 1 < length bs \<Longrightarrow> j + 1 < i \<or> i + 1 < j \<Longrightarrow> ld16 (st16 bs i v) j = ld16 bs j"
  by (auto simp: ld16_def ld8_st16)

lemma ld32_st32_same [mem_simps]: "i + 3 < length bs \<Longrightarrow> ld32 (st32 bs i v) i = v"
  by (simp add: ld32_def st32_def ld16_st16_same ld16_st16_other u32_of_halves)

lemma ld16_st32_other [mem_simps]:
  "i + 3 < length bs \<Longrightarrow> j + 1 < i \<or> i + 3 < j \<Longrightarrow> ld16 (st32 bs i v) j = ld16 bs j"
  by (auto simp: st32_def ld16_st16_other)

section \<open>Lists\<close>

lemma find_upt_Some:
  "find P [a..<b] = Some i \<longleftrightarrow> a \<le> i \<and> i < b \<and> P i \<and> (\<forall>j. a \<le> j \<and> j < i \<longrightarrow> \<not> P j)"
proof
  assume "find P [a..<b] = Some i"
  then obtain k where k: "k < b - a" "P (a + k)" "i = a + k" "\<forall>j<k. \<not> P (a + j)"
    by (auto simp: find_Some_iff)
  then have "\<not> P j" if "a \<le> j" "j < i" for j
    using that k(4) [rule_format, of "j - a"] by auto
  then show "a \<le> i \<and> i < b \<and> P i \<and> (\<forall>j. a \<le> j \<and> j < i \<longrightarrow> \<not> P j)" using k by auto
qed (auto simp: find_Some_iff intro!: exI [of _ "i - a"])

lemma length_filter_update:
  assumes "i < length xs"
  shows "length (filter P (xs[i := v])) + (if P (xs ! i) then 1 else 0)
    = length (filter P xs) + (if P v then 1 else 0)"
proof -
  have "xs = take i xs @ xs ! i # drop (Suc i) xs" using assms by (rule id_take_nth_drop)
  then have "filter P xs = filter P (take i xs) @ filter P [xs ! i] @ filter P (drop (Suc i) xs)"
    by (metis append_Cons append_Nil filter_append)
  then show ?thesis using assms by (simp add: upd_conv_take_nth_drop)
qed

section \<open>Integers as bytes\<close>

text \<open>The bytes of an integer in memory, in host order, and the load of a 64-bit integer.\<close>

definition le16 :: "u16 \<Rightarrow> u8 list" where
  "le16 v = [ucast v, ucast (drop_bit 8 v)]"

definition le32 :: "u32 \<Rightarrow> u8 list" where
  "le32 v = le16 (ucast v) @ le16 (ucast (drop_bit 16 v))"

definition le64 :: "u64 \<Rightarrow> u8 list" where
  "le64 v = le32 (ucast v) @ le32 (ucast (drop_bit 32 v))"

definition ld64 :: "u8 list \<Rightarrow> nat \<Rightarrow> u64" where
  "ld64 bs i = ucast (ld32 bs i) OR push_bit 32 (ucast (ld32 bs (i + 4)))"

lemma u64_of_halves: "ucast (ucast v :: u32) OR push_bit 32 (ucast (ucast (drop_bit 32 v) :: u32)) = (v :: u64)"
  by (rule bit_word_eqI) (auto simp: bit_simps)

lemma ld16_le16: "i = length xs \<Longrightarrow> ld16 (xs @ le16 v @ ys) i = v"
  by (simp add: ld16_def ld8_def le16_def nth_append u16_of_bytes)

lemma ld32_le32: "i = length xs \<Longrightarrow> ld32 (xs @ le32 v @ ys) i = v"
  using ld16_le16 [of i xs "ucast v" "le16 (ucast (drop_bit 16 v)) @ ys"]
    ld16_le16 [of "i + 2" "xs @ le16 (ucast v)" "ucast (drop_bit 16 v)" ys]
  by (simp add: ld32_def le32_def u32_of_halves) (simp add: le16_def u32_of_halves)

lemma ld64_le64: "i = length xs \<Longrightarrow> ld64 (xs @ le64 v @ ys) i = v"
  using ld32_le32 [of i xs "ucast v" "le32 (ucast (drop_bit 32 v)) @ ys"]
    ld32_le32 [of "i + 4" "xs @ le32 (ucast v)" "ucast (drop_bit 32 v)" ys]
  by (simp add: ld64_def le64_def u64_of_halves) (simp add: le32_def le16_def u64_of_halves)

lemma le_lengths [simp]: "length (le16 a) = 2" "length (le32 b) = 4" "length (le64 c) = 8"
  by (simp_all add: le16_def le32_def le64_def)

section \<open>Results of calls\<close>

text \<open>
  The value of a call that may not return is an option: \<open>None\<close> means that it does not return (or that
  the fuel of the model is used up). A call that returns may have stopped the process by an access
  outside its memory or a failed assertion (\<open>Fault\<close>).
\<close>

datatype 'a run = Fault | Done 'a

definition bind_run :: "'a run option \<Rightarrow> ('a \<Rightarrow> 'b run option) \<Rightarrow> 'b run option" where
  "bind_run m f = (case m of None \<Rightarrow> None | Some Fault \<Rightarrow> Some Fault | Some (Done x) \<Rightarrow> f x)"

lemma bind_run_simps [simp]:
  "bind_run None f = None" "bind_run (Some Fault) f = Some Fault" "bind_run (Some (Done x)) f = f x"
  by (simp_all add: bind_run_def)

lemma bind_run_eq_Some:
  "bind_run m f = Some (Done y) \<longleftrightarrow> (\<exists>x. m = Some (Done x) \<and> f x = Some (Done y))"
  by (auto simp: bind_run_def split: option.splits run.splits)

text \<open>A call for each element of a list, in order.\<close>

fun each_run :: "('a \<Rightarrow> 's \<Rightarrow> 's run option) \<Rightarrow> 'a list \<Rightarrow> 's \<Rightarrow> 's run option" where
  "each_run f [] s = Some (Done s)"
| "each_run f (x # xs) s = bind_run (f x s) (each_run f xs)"

lemma each_run_append: "each_run f (xs @ ys) s = bind_run (each_run f xs s) (each_run f ys)"
proof (induction xs arbitrary: s)
  case (Cons x xs)
  show ?case
  proof (cases "f x s")
    case (Some r)
    then show ?thesis by (cases r) (simp_all add: Cons)
  qed simp
qed simp

lemma each_run_returns:
  assumes "\<And>x s. x \<in> set xs \<Longrightarrow> P s \<Longrightarrow> \<exists>r. f x s = Some r \<and> (\<forall>s'. r = Done s' \<longrightarrow> P s')" and "P s"
  shows "\<exists>r. each_run f xs s = Some r \<and> (\<forall>s'. r = Done s' \<longrightarrow> P s')"
  using assms
proof (induction xs arbitrary: s)
  case (Cons x xs)
  obtain r where r: "f x s = Some r" "\<forall>s'. r = Done s' \<longrightarrow> P s'" using Cons.prems(1) [of x s] Cons.prems(2) by auto
  show ?case
  proof (cases r)
    case (Done s')
    then show ?thesis using r Cons.IH [of s'] Cons.prems(1) by simp
  qed (simp add: r)
qed simp

end
