(* ===== verification/Checksum.thy ===== *)
theory Checksum
  imports OF_Prelude
begin

text \<open>
  \<^verbatim>\<open>src/openflow/lib/csum.c\<close>: the Internet checksum and its incremental update (RFC 1624), which
  the action code uses when it rewrites a header field. A \<^verbatim>\<open>const void *data, size_t n\<close> argument
  is the list of the \<open>n\<close> bytes. The specification is ones-complement arithmetic, that is
  arithmetic modulo 65535; both C functions fold the carry only once, and the theorems say
  exactly for which inputs one fold is enough.
\<close>

section \<open>The C functions\<close>

definition csum_add16 :: "u32 \<Rightarrow> u16 \<Rightarrow> u32" where
  "csum_add16 partial new = partial + ucast new"

definition csum_add32 :: "u32 \<Rightarrow> u32 \<Rightarrow> u32" where
  "csum_add32 partial new = partial + drop_bit 16 new + (new AND 0xffff)"

text \<open>The loop reads 16-bit words in host order (little-endian), then an odd last byte.\<close>

fun csum_continue :: "u32 \<Rightarrow> u8 list \<Rightarrow> u32" where
  "csum_continue partial [] = partial"
| "csum_continue partial [b] = partial + ucast b"
| "csum_continue partial (b0 # b1 # bs) =
     csum_continue (csum_add16 partial (ucast b0 OR push_bit 8 (ucast b1))) bs"

definition csum_finish :: "u32 \<Rightarrow> u16" where
  "csum_finish partial = ucast (NOT ((partial AND 0xffff) + drop_bit 16 partial))"

definition csum :: "u8 list \<Rightarrow> u16" where
  "csum data = csum_finish (csum_continue 0 data)"

definition recalc_csum16 :: "u16 \<Rightarrow> u16 \<Rightarrow> u16 \<Rightarrow> u16" where
  "recalc_csum16 old_csum old_u16 new_u16 =
     (let hc_complement = NOT old_csum;
          m_complement = NOT old_u16;
          m_prime = new_u16;
          sum = ucast hc_complement + ucast m_complement + ucast m_prime :: u32;
          hc_prime_complement = ucast (sum + drop_bit 16 sum) :: u16
      in NOT hc_prime_complement)"

definition recalc_csum32 :: "u16 \<Rightarrow> u32 \<Rightarrow> u32 \<Rightarrow> u16" where
  "recalc_csum32 old_csum old_u32 new_u32 =
     recalc_csum16 (recalc_csum16 old_csum (ucast old_u32) (ucast new_u32))
       (ucast (drop_bit 16 old_u32)) (ucast (drop_bit 16 new_u32))"

section \<open>Ones-complement specification\<close>

text \<open>The sum of the 16-bit words of a byte sequence, as the wire checksum defines it.\<close>

fun word_sum :: "u8 list \<Rightarrow> nat" where
  "word_sum [] = 0"
| "word_sum [b] = unat b"
| "word_sum (b0 # b1 # bs) = unat b0 + 256 * unat b1 + word_sum bs"

text \<open>The sum \<open>~HC + ~m + m'\<close> of RFC 1624, before any carry is folded.\<close>

definition csum_sum :: "u16 \<Rightarrow> u16 \<Rightarrow> u16 \<Rightarrow> nat" where
  "csum_sum c m m' = (65535 - unat c) + (65535 - unat m) + unat m'"

section \<open>One fold of the carry\<close>

lemma csum_sum_bound: "csum_sum c m m' \<le> 196605"
  unfolding csum_sum_def using unat_u16_bound [of m'] by simp

lemma unat_recalc: "unat (recalc_csum16 c m m') = 65535 - (csum_sum c m m' + csum_sum c m m' div 65536) mod 65536"
proof -
  let ?s = "ucast (NOT c) + ucast (NOT m) + ucast m' :: u32"
  have s: "unat ?s = csum_sum c m m'"
    using csum_sum_bound [of c m m']
    by (simp add: unat_word_ariths unat_not csum_sum_def unsigned_ucast_eq take_bit_eq_mod) 
  have "unat (?s + drop_bit 16 ?s) = csum_sum c m m' + csum_sum c m m' div 65536"
    using csum_sum_bound [of c m m']
    unfolding unat_word_ariths(1) [of ?s] unat_drop_bit_eq s by (simp add: drop_bit_eq_div)
  then show ?thesis
    by (simp add: recalc_csum16_def Let_def unat_not unsigned_ucast_eq take_bit_eq_mod)
qed

lemma one_fold_correct:
  fixes s :: nat
  assumes "s \<le> 196605"
  shows "(s + s div 65536) mod 65536 mod 65535 = s mod 65535 \<longleftrightarrow> s \<noteq> 131071"
proof -
  consider (a) "s < 65536" | (b) "65536 \<le> s" "s \<le> 131070" | (c) "s = 131071" | (d) "131072 \<le> s"
    by linarith
  then show ?thesis
  proof cases
    case b
    define t where "t = s - 65535"
    have t: "s = 65535 + t" "t < 65536" "s div 65536 = 1"
      using b by (simp_all add: t_def)
    have "s + s div 65536 = 65536 + t"
      using t(1,3) by linarith
    then have "(s + s div 65536) mod 65536 = (65536 + t) mod 65536"
      by simp
    also have "\<dots> = t"
      using t(2) by simp
    finally show ?thesis
      using b by (simp add: t(1))
  next
    case d
    define t where "t = s - 131070"
    have t: "s = 2 * 65535 + t" "t < 65536" "s div 65536 = 2"
      using d assms by (simp_all add: t_def)
    have "s + s div 65536 = 2 * 65536 + t"
      using t(1,3) by linarith
    then have "(s + s div 65536) mod 65536 = (2 * 65536 + t) mod 65536"
      by simp
    also have "\<dots> = t"
      using t(2) by (simp only: mod_mult_self3 mod_less)
    finally have "(s + s div 65536) mod 65536 = t" .
    moreover have "s mod 65535 = t mod 65535"
      unfolding t(1) by (simp only: mod_mult_self3)
    ultimately show ?thesis
      using d by simp
  qed auto
qed

lemma recalc_fold_iff:
  "(65535 - unat (recalc_csum16 c m m')) mod 65535 = csum_sum c m m' mod 65535
     \<longleftrightarrow> csum_sum c m m' \<noteq> 131071"
proof -
  have "65535 - unat (recalc_csum16 c m m') = (csum_sum c m m' + csum_sum c m m' div 65536) mod 65536"
    unfolding unat_recalc using mod_less_divisor [of 65536 "csum_sum c m m' + csum_sum c m m' div 65536"]
    by linarith
  then show ?thesis
    using one_fold_correct [OF csum_sum_bound [of c m m']] by simp
qed
lemma recalc_csum16_valid:
  assumes "(unat c + unat m + rest) mod 65535 = 0" and "csum_sum c m m' \<noteq> 131071"
  shows "(unat (recalc_csum16 c m m') + unat m' + rest) mod 65535 = 0"
proof -
  let ?r = "recalc_csum16 c m m'"
  have "(65535 - unat ?r) mod 65535 = csum_sum c m m' mod 65535"
    using recalc_fold_iff [of c m m'] assms(2) by blast
  then have "int (65535 - unat ?r) mod 65535 = int (csum_sum c m m') mod 65535"
    unfolding zmod_int [symmetric, of _ 65535, simplified] by (simp only:)
  then have "65535 dvd int (65535 - unat ?r) - int (csum_sum c m m')"
    by (simp only: mod_eq_dvd_iff)
  moreover have "int (65535 - unat ?r) - int (csum_sum c m m')
      = int (unat c) + int (unat m) - int (unat ?r) - int (unat m') - 65535"
    using unat_u16_bound [of ?r] unat_u16_bound [of c] unat_u16_bound [of m]
    by (simp add: csum_sum_def)
  moreover have "65535 dvd int (unat c) + int (unat m) + int rest"
    using assms(1) by (metis mod_0_imp_dvd of_nat_add of_nat_dvd_iff of_nat_numeral)
  ultimately have "65535 dvd int (unat c) + int (unat m) + int rest
      - (int (unat c) + int (unat m) - int (unat ?r) - int (unat m') - 65535) - 65535"
    by (metis dvd_diff dvd_refl)
  then have "65535 dvd int (unat ?r + unat m' + rest)"
    by (simp add: algebra_simps)
  then have "65535 dvd unat ?r + unat m' + rest"
    by (metis of_nat_dvd_iff of_nat_numeral)
  then show ?thesis by simp
qed

section \<open>Whole checksums\<close>

lemma unat_le16: "unat (ucast b0 OR push_bit 8 (ucast b1) :: u16) = unat (b0 :: u8) + 256 * unat (b1 :: u8)"
proof -
  have "(ucast b0 OR push_bit 8 (ucast b1) :: u16) = ucast b0 + push_bit 8 (ucast b1)"
    by (rule disjunctive_add [symmetric]) (auto simp: bit_simps dest: bit_imp_le_length)
  then show ?thesis
    using unat_u8_bound [of b0] unat_u8_bound [of b1]
    by (simp add: push_bit_eq_mult unat_word_ariths unat_ucast_up)
qed

lemma word_sum_bound: "word_sum bs \<le> 65535 * ((length bs + 1) div 2)"
proof (induction bs rule: word_sum.induct)
  case (2 b) then show ?case using unat_u8_bound [of b] by simp
next
  case (3 b0 b1 bs)
  then show ?case using unat_u8_bound [of b0] unat_u8_bound [of b1] by simp
qed simp

lemma unat_csum_continue:
  "unat p + word_sum bs < 2 ^ 32 \<Longrightarrow> unat (csum_continue p bs) = unat p + word_sum bs"
proof (induction p bs rule: csum_continue.induct)
  case (2 p b)
  then show ?case by (simp add: unat_word_ariths unat_ucast_up)
next
  case (3 p b0 b1 bs)
  then have "unat (csum_add16 p (ucast b0 OR push_bit 8 (ucast b1))) = unat p + unat b0 + 256 * unat b1"
    by (simp add: csum_add16_def unat_word_ariths unat_ucast_up unat_le16)
  with 3 show ?case by simp
qed simp

lemma unat_csum_finish:
  "unat (csum_finish p) = 65535 - (unat p mod 65536 + unat p div 65536) mod 65536"
proof -
  have "p AND 0xffff = take_bit 16 p"
    by (simp add: take_bit_eq_mask mask_eq_exp_minus_1)
  then have "unat (p AND 0xffff) = unat p mod 65536"
    by (simp only: unsigned_take_bit_eq) (simp add: take_bit_eq_mod)
  moreover have "unat (drop_bit 16 p) = unat p div 65536"
    by (simp only: unat_drop_bit_eq) (simp add: drop_bit_eq_div)
  moreover have "unat p div 65536 < 65536"
    using unsigned_less [of p, where ?'a = nat] by simp
  ultimately have sum: "unat ((p AND 0xffff) + drop_bit 16 p) = unat p mod 65536 + unat p div 65536"
    by (subst unat_word_ariths(1)) simp
  have "csum_finish p = NOT (ucast ((p AND 0xffff) + drop_bit 16 p))"
    unfolding csum_finish_def by (rule bit_word_eqI) (simp add: bit_simps)
  then show ?thesis
    by (simp only: unat_not unsigned_ucast_eq sum take_bit_eq_mod) simp
qed

lemma csum_fold_iff:
  fixes P :: nat
  assumes "P div 65536 < 65536"
  shows "(65535 - (P mod 65536 + P div 65536) mod 65536 + P) mod 65535 = 0
    \<longleftrightarrow> P mod 65536 + P div 65536 < 65536"
proof -
  define l h where "l = P mod 65536" and "h = P div 65536"
  have P: "P = 65535 * h + (l + h)" and l: "l < 65536" and h: "h < 65536"
    using assms by (simp_all add: l_def h_def)
  show ?thesis
  proof (cases "l + h < 65536")
    case True
    then have "65535 - (l + h) mod 65536 + P = 65535 * (h + 1)"
      by (simp add: P)
    with True show ?thesis
      unfolding l_def [symmetric] h_def [symmetric] by simp
  next
    case False
    define k where "k = l + h - 65536"
    have "(l + h) mod 65536 = k" "k < 65535"
      using False l h by (simp_all add: k_def mod_if)
    moreover have "l + h = k + 65536" using False by (simp add: k_def)
    ultimately have "65535 - (l + h) mod 65536 + P = 65535 * (h + 2) + 1"
      by (simp add: P)
    then have "(65535 - (l + h) mod 65536 + P) mod 65535 = 1"
      by (simp only: mod_mult_self4) simp
    with False show ?thesis
      unfolding l_def [symmetric] h_def [symmetric] by simp
  qed
qed

section \<open>Properties\<close>

text \<open>the incremental update of a checksum for a changed 16-bit field agrees with RFC 1624
  (ones-complement arithmetic, modulo 65535) for exactly those inputs whose sum
  \<open>~HC + ~m + m'\<close> is not \<open>0x1ffff\<close>; there the second carry is lost.\<close>

theorem recalc_csum16_exact:
  "(65535 - unat (recalc_csum16 c m m')) mod 65535 = csum_sum c m m' mod 65535
     \<longleftrightarrow> csum_sum c m m' \<noteq> 131071"
  by (rule recalc_fold_iff)

text \<open>a valid checksum stays valid: if the words of a packet, with its checksum field \<open>c\<close> and
  a field \<open>m\<close>, sum to zero in ones-complement arithmetic, they still do after \<open>m\<close> is replaced by
  \<open>m'\<close> and the checksum by \<open>recalc_csum16 c m m'\<close>, outside the lost-carry case.\<close>

theorem recalc_csum16_keeps_valid:
  assumes "(unat c + unat m + rest) mod 65535 = 0" and "csum_sum c m m' \<noteq> 131071"
  shows "(unat (recalc_csum16 c m m') + unat m' + rest) mod 65535 = 0"
  using assms by (rule recalc_csum16_valid)

theorem recalc_csum16_keeps_valid_witness:
  "(unat (0xb1e6 :: u16) + unat (0x0a00 :: u16) + 17433) mod 65535 = 0
   \<and> (unat (recalc_csum16 0xb1e6 0x0a00 0xc0a8) + unat (0xc0a8 :: u16) + 17433) mod 65535 = 0"
proof -
  have v: "(unat (0xb1e6 :: u16) + unat (0x0a00 :: u16) + 17433) mod 65535 = 0" by simp
  show ?thesis
    using v recalc_csum16_keeps_valid [OF v, of "0xc0a8"] by (simp add: csum_sum_def)
qed

text \<open>the checksum of a packet of at most 131072 bytes verifies (packet and checksum sum to zero
  in ones-complement arithmetic) exactly when one fold absorbs all carries; otherwise
  \<^verbatim>\<open>csum_finish\<close> returns a checksum that is off by one.\<close>

theorem csum_exact:
  assumes "length data \<le> 131072"
  shows "(unat (csum data) + word_sum data) mod 65535 = 0
    \<longleftrightarrow> word_sum data mod 65536 + word_sum data div 65536 < 65536"
proof -
  have "word_sum data \<le> 65535 * 65536"
    using assms by (intro order_trans [OF word_sum_bound] mult_le_mono) auto
  then have "unat (csum_continue 0 data) = word_sum data" "word_sum data div 65536 < 65536"
    by (simp_all add: unat_csum_continue)
  then show ?thesis
    by (simp only: csum_def unat_csum_finish csum_fold_iff)
qed

theorem csum_exact_witness:
  "length [0x45, 0, 0, 0x14 :: u8] \<le> 131072
   \<and> (unat (csum [0x45, 0, 0, 0x14]) + word_sum [0x45, 0, 0, 0x14]) mod 65535 = 0"
  using csum_exact [of "[0x45, 0, 0, 0x14]"] by simp

end
