(* ===== verification/Crc32.thy ===== *)
theory Crc32
  imports OF_Prelude
begin

text \<open>
  \<^verbatim>\<open>src/openflow/udatapath/crc32.c\<close>: the table-driven CRC that the hash tables of the datapath use
  to pick a bucket. \<^verbatim>\<open>struct crc32\<close> is its table, a list of \<open>CRC32_TABLE_SIZE\<close> words. The main
  result is that the table-driven routine computes the bit-serial CRC, for every polynomial.
\<close>

section \<open>The C functions\<close>

abbreviation CRC32_TABLE_BITS :: nat where "CRC32_TABLE_BITS \<equiv> 8"
abbreviation CRC32_TABLE_SIZE :: nat where "CRC32_TABLE_SIZE \<equiv> 256"

text \<open>The body of the inner loop of \<^verbatim>\<open>crc32_init\<close>: one bit of polynomial division.\<close>

definition crc32_bit :: "u32 \<Rightarrow> u32 \<Rightarrow> u32" where
  "crc32_bit polynomial reg =
     (let topBit = flag_set reg 0x80000000;
          reg = push_bit 1 reg
      in if topBit then reg XOR polynomial else reg)"

definition crc32_init :: "u32 \<Rightarrow> u32 list" where
  "crc32_init polynomial =
     map (\<lambda>i. (crc32_bit polynomial ^^ CRC32_TABLE_BITS) (push_bit 24 (word_of_nat i)))
       [0..<CRC32_TABLE_SIZE]"

fun crc32_loop :: "u32 list \<Rightarrow> u32 \<Rightarrow> u8 list \<Rightarrow> u32" where
  "crc32_loop table result [] = result"
| "crc32_loop table result (d # data) =
     (let top = drop_bit 24 result XOR ucast d
      in crc32_loop table (push_bit 8 result XOR table ! unat top) data)"

definition crc32_calculate :: "u32 list \<Rightarrow> u8 list \<Rightarrow> u32" where
  "crc32_calculate table data = crc32_loop table 0 data"

section \<open>Bit-serial reference\<close>

definition crc_byte :: "u32 \<Rightarrow> u32 \<Rightarrow> u8 \<Rightarrow> u32" where
  "crc_byte polynomial r d = (crc32_bit polynomial ^^ 8) (r XOR push_bit 24 (ucast d))"

definition crc_serial :: "u32 \<Rightarrow> u8 list \<Rightarrow> u32" where
  "crc_serial polynomial data = foldl (crc_byte polynomial) 0 data"

section \<open>Linearity of the bit step\<close>

lemma top_bit: "flag_set reg (0x80000000 :: u32) \<longleftrightarrow> bit reg 31"
  using and_exp_eq_0_iff_not_bit [of reg 31] by simp

lemma crc32_bit_alt: "crc32_bit p r = push_bit 1 r XOR (if bit r 31 then p else 0)"
  by (simp add: crc32_bit_def top_bit)

lemma crc32_bit_xor: "crc32_bit p (a XOR b) = crc32_bit p a XOR crc32_bit p b"
  by (auto simp: crc32_bit_alt push_bit_xor bit_xor_iff ac_simps)

lemma crc32_bit_pow_xor: "(crc32_bit p ^^ n) (a XOR b) = (crc32_bit p ^^ n) a XOR (crc32_bit p ^^ n) b"
  by (induction n arbitrary: a b) (simp_all add: crc32_bit_xor)

lemma crc32_bit_pow_low:
  "n \<le> 32 \<Longrightarrow> (\<And>i. 32 - n \<le> i \<Longrightarrow> i < 32 \<Longrightarrow> \<not> bit x i) \<Longrightarrow> (crc32_bit p ^^ n) x = push_bit n x"
proof (induction n arbitrary: x)
  case (Suc n)
  then have "crc32_bit p x = push_bit 1 x"
    by (simp add: crc32_bit_alt)
  moreover have "(crc32_bit p ^^ n) (push_bit 1 x) = push_bit n (push_bit 1 x)"
  proof (rule Suc.IH)
    fix i assume "32 - n \<le> i" "i < 32"
    with Suc.prems have "\<not> bit x (i - 1)" by (simp add: Suc.prems(2))
    then show "\<not> bit (push_bit 1 x) i" by (simp only: bit_push_bit_iff) simp
  qed (use Suc.prems in simp)
  ultimately show ?case
    by (simp add: funpow_Suc_right del: funpow.simps)
qed simp

lemma top_index: "unat (drop_bit 24 r XOR ucast (d :: u8) :: u32) < CRC32_TABLE_SIZE"
proof -
  have "drop_bit 24 r XOR ucast d = take_bit 8 (drop_bit 24 r XOR ucast d :: u32)"
    by (rule bit_word_eqI) (auto simp: bit_simps dest: bit_imp_le_length)
  then have "unat (drop_bit 24 r XOR ucast d :: u32) = take_bit 8 (unat (drop_bit 24 r XOR ucast d :: u32))"
    by (metis unsigned_take_bit_eq)
  moreover have "take_bit 8 (unat (drop_bit 24 r XOR ucast d :: u32)) < 2 ^ 8"
    by (rule take_bit_nat_less_exp)
  ultimately show ?thesis by simp
qed

lemma crc_split:
  "r XOR push_bit 24 (ucast (d :: u8)) = push_bit 24 (drop_bit 24 r XOR ucast d) XOR take_bit 24 (r :: u32)"
  by (rule bit_word_eqI) (auto simp: bit_simps)

lemma crc_byte_table:
  "crc_byte p r d = push_bit 8 r XOR crc32_init p ! unat (drop_bit 24 r XOR ucast d :: u32)"
proof -
  let ?top = "drop_bit 24 r XOR ucast d :: u32"
  have "(crc32_bit p ^^ 8) (take_bit 24 r) = push_bit 8 (take_bit 24 r)"
    by (rule crc32_bit_pow_low) (auto simp: bit_take_bit_iff)
  also have "\<dots> = push_bit 8 r"
    by (rule bit_word_eqI) (auto simp: bit_simps)
  finally have low: "(crc32_bit p ^^ 8) (take_bit 24 r) = push_bit 8 r" .
  have "crc32_init p ! unat ?top = (crc32_bit p ^^ 8) (push_bit 24 ?top)"
    using top_index [of r d] by (simp add: crc32_init_def del: funpow.simps)
  then show ?thesis
    unfolding crc_byte_def crc_split crc32_bit_pow_xor low by (simp add: xor.commute)
qed

lemma crc32_loop_serial: "crc32_loop (crc32_init p) r data = foldl (crc_byte p) r data"
  by (induction data arbitrary: r) (simp_all add: Let_def crc_byte_table)

section \<open>Properties\<close>

text \<open>for every polynomial and every input, the table-driven CRC of \<^verbatim>\<open>crc32.c\<close> is the bit-serial
  polynomial division of the input.\<close>

theorem crc32_table_driven_correct:
  "crc32_calculate (crc32_init polynomial) data = crc_serial polynomial data"
  by (simp add: crc32_calculate_def crc_serial_def crc32_loop_serial)

end
