(* ===== verification/Flow_Key.thy ===== *)
theory Flow_Key
  imports OF_Prelude
begin

text \<open>
  The data and the matching functions of \<^verbatim>\<open>src/openflow/udatapath/switch-flow.c\<close>, with
  \<^verbatim>\<open>struct flow\<close>, \<^verbatim>\<open>flow_compare\<close> and \<^verbatim>\<open>flow_fill_match\<close> of \<^verbatim>\<open>src/openflow/lib/flow.h\<close> and
  \<^verbatim>\<open>flow.c\<close>, and the constants of \<^verbatim>\<open>openflow.h\<close> they use. Fields of \<^verbatim>\<open>struct flow\<close> have the
  prefix \<open>fl_\<close>, of \<^verbatim>\<open>struct sw_flow_key\<close> \<open>k_\<close>, of \<^verbatim>\<open>struct sw_flow\<close> \<open>sf_\<close> and of
  \<^verbatim>\<open>struct ofp_match\<close> \<open>om_\<close>; they hold what the C fields hold (network byte order where the
  C field has it).
\<close>

section \<open>Constants of the protocol\<close>

abbreviation OFPFW_IN_PORT :: u32 where "OFPFW_IN_PORT \<equiv> 0x1"
abbreviation OFPFW_DL_VLAN :: u32 where "OFPFW_DL_VLAN \<equiv> 0x2"
abbreviation OFPFW_DL_SRC :: u32 where "OFPFW_DL_SRC \<equiv> 0x4"
abbreviation OFPFW_DL_DST :: u32 where "OFPFW_DL_DST \<equiv> 0x8"
abbreviation OFPFW_DL_TYPE :: u32 where "OFPFW_DL_TYPE \<equiv> 0x10"
abbreviation OFPFW_NW_PROTO :: u32 where "OFPFW_NW_PROTO \<equiv> 0x20"
abbreviation OFPFW_TP_SRC :: u32 where "OFPFW_TP_SRC \<equiv> 0x40"
abbreviation OFPFW_TP_DST :: u32 where "OFPFW_TP_DST \<equiv> 0x80"
abbreviation OFPFW_NW_SRC_SHIFT :: nat where "OFPFW_NW_SRC_SHIFT \<equiv> 8"
abbreviation OFPFW_NW_SRC_MASK :: u32 where "OFPFW_NW_SRC_MASK \<equiv> 0x3f00"
abbreviation OFPFW_NW_DST_SHIFT :: nat where "OFPFW_NW_DST_SHIFT \<equiv> 14"
abbreviation OFPFW_NW_DST_MASK :: u32 where "OFPFW_NW_DST_MASK \<equiv> 0xfc000"
abbreviation OFPFW_DL_VLAN_PCP :: u32 where "OFPFW_DL_VLAN_PCP \<equiv> 0x100000"
abbreviation OFPFW_NW_TOS :: u32 where "OFPFW_NW_TOS \<equiv> 0x200000"
abbreviation OFPFW_ALL :: u32 where "OFPFW_ALL \<equiv> 0x3fffff"
abbreviation OFPFW_TP :: u32 where "OFPFW_TP \<equiv> 0xc0"
abbreviation OFPFW_NW :: u32 where "OFPFW_NW \<equiv> 0x2fff20"

abbreviation ETH_TYPE_IP :: u16 where "ETH_TYPE_IP \<equiv> 0x0800"
abbreviation ETH_TYPE_ARP :: u16 where "ETH_TYPE_ARP \<equiv> 0x0806"
abbreviation ETH_TYPE_VLAN :: u16 where "ETH_TYPE_VLAN \<equiv> 0x8100"
abbreviation IP_TYPE_ICMP :: u8 where "IP_TYPE_ICMP \<equiv> 1"
abbreviation IP_TYPE_TCP :: u8 where "IP_TYPE_TCP \<equiv> 6"
abbreviation IP_TYPE_UDP :: u8 where "IP_TYPE_UDP \<equiv> 17"

abbreviation OFPP_NONE :: u16 where "OFPP_NONE \<equiv> 0xffff"
abbreviation OFP_VLAN_NONE :: u16 where "OFP_VLAN_NONE \<equiv> 0xffff"
abbreviation OFP_FLOW_PERMANENT :: u16 where "OFP_FLOW_PERMANENT \<equiv> 0"
abbreviation OFPRR_IDLE_TIMEOUT :: u8 where "OFPRR_IDLE_TIMEOUT \<equiv> 0"
abbreviation OFPRR_HARD_TIMEOUT :: u8 where "OFPRR_HARD_TIMEOUT \<equiv> 1"
abbreviation OFPRR_DELETE :: u8 where "OFPRR_DELETE \<equiv> 2"

section \<open>Data\<close>

text \<open>An Ethernet address \<^verbatim>\<open>uint8_t[6]\<close> is a 48-bit word, its first byte on top.\<close>

type_synonym eth_addr = "48 word"

record flow =
  fl_nw_src :: u32
  fl_nw_dst :: u32
  fl_in_port :: u16
  fl_dl_vlan :: u16
  fl_dl_type :: u16
  fl_tp_src :: u16
  fl_tp_dst :: u16
  fl_dl_src :: eth_addr
  fl_dl_dst :: eth_addr
  fl_dl_vlan_pcp :: u8
  fl_nw_tos :: u8
  fl_nw_proto :: u8
  fl_pad :: "24 word"

record sw_flow_key =
  k_flow :: flow
  k_wildcards :: u32
  k_nw_src_mask :: u32
  k_nw_dst_mask :: u32

text \<open>
  A flow entry. \<open>sf_addr\<close> is the address of the object, so that a pointer to a flow is its
  \<open>sf_addr\<close>; \<open>sf_acts\<close> holds the bytes of \<^verbatim>\<open>sf_acts->actions\<close>, whose length is
  \<^verbatim>\<open>sf_acts->actions_len\<close>. The embedded list nodes are modelled by the lists that link them.
\<close>

record sw_flow =
  sf_addr :: nat
  sf_key :: sw_flow_key
  sf_cookie :: u64
  sf_priority :: u16
  sf_idle_timeout :: u16
  sf_hard_timeout :: u16
  sf_used :: u64
  sf_created :: u64
  sf_packet_count :: u64
  sf_byte_count :: u64
  sf_reason :: u8
  sf_send_flow_rem :: u8
  sf_emerg_flow :: u8
  sf_acts :: "u8 list"
  sf_serial :: u64

record ofp_match =
  om_wildcards :: u32
  om_in_port :: u16
  om_dl_src :: eth_addr
  om_dl_dst :: eth_addr
  om_dl_vlan :: u16
  om_dl_vlan_pcp :: u8
  om_pad1 :: u8
  om_dl_type :: u16
  om_nw_tos :: u8
  om_nw_proto :: u8
  om_pad2 :: u16
  om_nw_src :: u32
  om_nw_dst :: u32
  om_tp_src :: u16
  om_tp_dst :: u16

section \<open>Comparison of flows (flow.h)\<close>

definition bytes16 :: "u16 \<Rightarrow> u8 list" where
  "bytes16 w = [ucast w, ucast (drop_bit 8 w)]"

definition bytes32 :: "u32 \<Rightarrow> u8 list" where
  "bytes32 w = [ucast w, ucast (drop_bit 8 w), ucast (drop_bit 16 w), ucast (drop_bit 24 w)]"

definition bytes_eth :: "eth_addr \<Rightarrow> u8 list" where
  "bytes_eth w = [ucast (drop_bit 40 w), ucast (drop_bit 32 w), ucast (drop_bit 24 w),
     ucast (drop_bit 16 w), ucast (drop_bit 8 w), ucast w]"

definition bytes24 :: "24 word \<Rightarrow> u8 list" where
  "bytes24 w = [ucast (drop_bit 16 w), ucast (drop_bit 8 w), ucast w]"

text \<open>The 36 bytes of a \<^verbatim>\<open>struct flow\<close> in memory, in the order of its fields.\<close>

definition flow_bytes :: "flow \<Rightarrow> u8 list" where
  "flow_bytes f = bytes32 (fl_nw_src f) @ bytes32 (fl_nw_dst f) @ bytes16 (fl_in_port f)
     @ bytes16 (fl_dl_vlan f) @ bytes16 (fl_dl_type f) @ bytes16 (fl_tp_src f)
     @ bytes16 (fl_tp_dst f) @ bytes_eth (fl_dl_src f) @ bytes_eth (fl_dl_dst f)
     @ [fl_dl_vlan_pcp f, fl_nw_tos f, fl_nw_proto f] @ bytes24 (fl_pad f)"

text \<open>\<^verbatim>\<open>flow_compare\<close> is \<^verbatim>\<open>memcmp\<close> of the 36 bytes; its callers only test the result for zero.\<close>

definition flow_compare :: "flow \<Rightarrow> flow \<Rightarrow> bool" where
  "flow_compare a b \<longleftrightarrow> flow_bytes a \<noteq> flow_bytes b"

section \<open>Matching (switch-flow.c)\<close>

definition eth_addr_equals :: "eth_addr \<Rightarrow> eth_addr \<Rightarrow> bool" where
  "eth_addr_equals a b \<longleftrightarrow> bytes_eth a = bytes_eth b"

definition flow_fields_match :: "flow \<Rightarrow> flow \<Rightarrow> u32 \<Rightarrow> u32 \<Rightarrow> u32 \<Rightarrow> bool" where
  "flow_fields_match a b w src_mask dst_mask \<longleftrightarrow>
     (flag_set w OFPFW_IN_PORT \<or> fl_in_port a = fl_in_port b)
     \<and> (flag_set w OFPFW_DL_VLAN \<or> fl_dl_vlan a = fl_dl_vlan b)
     \<and> (flag_set w OFPFW_DL_VLAN_PCP \<or> fl_dl_vlan_pcp a = fl_dl_vlan_pcp b)
     \<and> (flag_set w OFPFW_DL_SRC \<or> eth_addr_equals (fl_dl_src a) (fl_dl_src b))
     \<and> (flag_set w OFPFW_DL_DST \<or> eth_addr_equals (fl_dl_dst a) (fl_dl_dst b))
     \<and> (flag_set w OFPFW_DL_TYPE \<or> fl_dl_type a = fl_dl_type b)
     \<and> (flag_set w OFPFW_NW_TOS \<or> fl_nw_tos a = fl_nw_tos b)
     \<and> (flag_set w OFPFW_NW_PROTO \<or> fl_nw_proto a = fl_nw_proto b)
     \<and> (fl_nw_src a XOR fl_nw_src b) AND src_mask = 0
     \<and> (fl_nw_dst a XOR fl_nw_dst b) AND dst_mask = 0
     \<and> (flag_set w OFPFW_TP_SRC \<or> fl_tp_src a = fl_tp_src b)
     \<and> (flag_set w OFPFW_TP_DST \<or> fl_tp_dst a = fl_tp_dst b)"

definition make_nw_mask :: "u32 \<Rightarrow> u32" where
  "make_nw_mask n_wild_bits =
     (let n_wild_bits = n_wild_bits AND 63
      in if n_wild_bits < 32 then htonl (NOT (push_bit (unat n_wild_bits) 1 - 1)) else 0)"

definition flow_matches_1wild :: "sw_flow_key \<Rightarrow> sw_flow_key \<Rightarrow> bool" where
  "flow_matches_1wild a b \<longleftrightarrow>
     flow_fields_match (k_flow a) (k_flow b) (k_wildcards b) (k_nw_src_mask b) (k_nw_dst_mask b)"

definition flow_matches_2wild :: "sw_flow_key \<Rightarrow> sw_flow_key \<Rightarrow> bool" where
  "flow_matches_2wild a b \<longleftrightarrow>
     flow_fields_match (k_flow a) (k_flow b) (k_wildcards a OR k_wildcards b)
       (k_nw_src_mask a AND k_nw_src_mask b) (k_nw_dst_mask a AND k_nw_dst_mask b)"

definition flow_matches_desc :: "sw_flow_key \<Rightarrow> sw_flow_key \<Rightarrow> bool \<Rightarrow> bool" where
  "flow_matches_desc t d strict \<longleftrightarrow>
     (if strict \<and> k_wildcards d \<noteq> k_wildcards t then False else flow_matches_1wild t d)"

definition flow_matches_2desc :: "sw_flow_key \<Rightarrow> sw_flow_key \<Rightarrow> bool \<Rightarrow> bool" where
  "flow_matches_2desc t d strict \<longleftrightarrow>
     (if strict \<and> k_wildcards d \<noteq> k_wildcards t then False else flow_matches_2wild t d)"

text \<open>\<^verbatim>\<open>flow_extract_match\<close> writes every field of \<^verbatim>\<open>*to\<close>, so it is a function of the match.\<close>

definition flow_extract_match :: "ofp_match \<Rightarrow> sw_flow_key" where
  "flow_extract_match from =
     (let w = ntohl (om_wildcards from) AND OFPFW_ALL;
          f = \<lparr>fl_nw_src = 0, fl_nw_dst = 0, fl_in_port = om_in_port from,
               fl_dl_vlan = om_dl_vlan from, fl_dl_type = om_dl_type from,
               fl_tp_src = 0, fl_tp_dst = 0, fl_dl_src = om_dl_src from,
               fl_dl_dst = om_dl_dst from, fl_dl_vlan_pcp = om_dl_vlan_pcp from,
               fl_nw_tos = 0, fl_nw_proto = 0, fl_pad = 0\<rparr>;
          (w, f) =
            (if flag_set w OFPFW_DL_TYPE then (w OR (OFPFW_NW OR OFPFW_TP), f)
             else if om_dl_type from = htons ETH_TYPE_IP then
               (let f = f\<lparr>fl_nw_tos := om_nw_tos from AND 0xfc, fl_nw_proto := om_nw_proto from,
                         fl_nw_src := om_nw_src from, fl_nw_dst := om_nw_dst from\<rparr>
                in if flag_set w OFPFW_NW_PROTO then (w OR OFPFW_TP, f)
                   else if om_nw_proto from = IP_TYPE_TCP \<or> om_nw_proto from = IP_TYPE_UDP
                           \<or> om_nw_proto from = IP_TYPE_ICMP
                   then (w, f\<lparr>fl_tp_src := om_tp_src from, fl_tp_dst := om_tp_dst from\<rparr>)
                   else (w AND NOT OFPFW_TP, f))
             else if om_dl_type from = htons ETH_TYPE_ARP then
               (w AND NOT OFPFW_TP,
                f\<lparr>fl_nw_src := om_nw_src from, fl_nw_dst := om_nw_dst from,
                  fl_nw_proto := om_nw_proto from\<rparr>)
             else (w, f))
      in \<lparr>k_flow = f, k_wildcards = w,
          k_nw_src_mask = make_nw_mask (drop_bit OFPFW_NW_SRC_SHIFT w),
          k_nw_dst_mask = make_nw_mask (drop_bit OFPFW_NW_DST_SHIFT w)\<rparr>)"

definition flow_fill_match :: "ofp_match \<Rightarrow> flow \<Rightarrow> u32 \<Rightarrow> ofp_match" where
  "flow_fill_match to from wildcards =
     to\<lparr>om_wildcards := htonl wildcards, om_in_port := fl_in_port from,
       om_dl_vlan := fl_dl_vlan from, om_dl_src := fl_dl_src from, om_dl_dst := fl_dl_dst from,
       om_dl_type := fl_dl_type from, om_nw_tos := fl_nw_tos from,
       om_nw_proto := fl_nw_proto from, om_nw_src := fl_nw_src from,
       om_nw_dst := fl_nw_dst from, om_tp_src := fl_tp_src from, om_tp_dst := fl_tp_dst from,
       om_dl_vlan_pcp := fl_dl_vlan_pcp from\<rparr>"

section \<open>Facts about the byte representation\<close>

lemma byte_eq_bit:
  assumes "(ucast (drop_bit k x) :: u8) = ucast (drop_bit k (y :: 'a::len word))"
    and "k \<le> n" and "n < k + 8" and "n < LENGTH('a)"
  shows "bit x n = bit y n"
proof -
  have "bit (ucast (drop_bit k x) :: u8) (n - k) = bit (ucast (drop_bit k y) :: u8) (n - k)"
    using assms(1) by simp
  with assms(2-4) show ?thesis
    by (simp add: bit_simps less_diff_conv2)
qed

lemma byte_eq_bit0:
  "(ucast x :: u8) = ucast (y :: 'a::len word) \<Longrightarrow> n < 8 \<Longrightarrow> n < LENGTH('a) \<Longrightarrow> bit x n = bit y n"
  using byte_eq_bit [of 0 x y n] by simp

lemma bytes16_inj [simp]: "bytes16 x = bytes16 y \<longleftrightarrow> x = y"
proof
  assume "bytes16 x = bytes16 y"
  then show "x = y"
    unfolding bytes16_def by (metis list.inject u16_of_bytes)
qed simp

lemma bytes32_inj [simp]: "bytes32 x = bytes32 y \<longleftrightarrow> x = y"
proof
  assume "bytes32 x = bytes32 y"
  then have b: "(ucast x :: u8) = ucast y" "(ucast (drop_bit 8 x) :: u8) = ucast (drop_bit 8 y)"
    "(ucast (drop_bit 16 x) :: u8) = ucast (drop_bit 16 y)"
    "(ucast (drop_bit 24 x) :: u8) = ucast (drop_bit 24 y)"
    by (simp_all add: bytes32_def)
  show "x = y"
  proof (rule bit_word_eqI)
    fix n assume n: "n < LENGTH(32)"
    then consider "n < 8" | "8 \<le> n" "n < 16" | "16 \<le> n" "n < 24" | "24 \<le> n" "n < 32"
      by (simp, linarith)
    then show "bit x n = bit y n"
      by cases (simp_all add: byte_eq_bit0 [OF b(1)] byte_eq_bit [OF b(2)] byte_eq_bit [OF b(3)]
          byte_eq_bit [OF b(4)])
  qed
qed simp

lemma bytes24_inj [simp]: "bytes24 x = bytes24 y \<longleftrightarrow> x = y"
proof
  assume "bytes24 x = bytes24 y"
  then have b: "(ucast x :: u8) = ucast y" "(ucast (drop_bit 8 x) :: u8) = ucast (drop_bit 8 y)"
    "(ucast (drop_bit 16 x) :: u8) = ucast (drop_bit 16 y)"
    by (simp_all add: bytes24_def)
  show "x = y"
  proof (rule bit_word_eqI)
    fix n assume "n < LENGTH(24)"
    then consider "n < 8" | "8 \<le> n" "n < 16" | "16 \<le> n" "n < 24"
      by (simp, linarith)
    then show "bit x n = bit y n"
      by cases (simp_all add: byte_eq_bit0 [OF b(1)] byte_eq_bit [OF b(2)] byte_eq_bit [OF b(3)])
  qed
qed simp

lemma bytes_eth_inj [simp]: "bytes_eth x = bytes_eth y \<longleftrightarrow> x = y"
proof
  assume "bytes_eth x = bytes_eth y"
  then have b: "(ucast x :: u8) = ucast y" "(ucast (drop_bit 8 x) :: u8) = ucast (drop_bit 8 y)"
    "(ucast (drop_bit 16 x) :: u8) = ucast (drop_bit 16 y)"
    "(ucast (drop_bit 24 x) :: u8) = ucast (drop_bit 24 y)"
    "(ucast (drop_bit 32 x) :: u8) = ucast (drop_bit 32 y)"
    "(ucast (drop_bit 40 x) :: u8) = ucast (drop_bit 40 y)"
    by (simp_all add: bytes_eth_def)
  show "x = y"
  proof (rule bit_word_eqI)
    fix n assume "n < LENGTH(48)"
    then consider "n < 8" | "8 \<le> n" "n < 16" | "16 \<le> n" "n < 24" | "24 \<le> n" "n < 32"
      | "32 \<le> n" "n < 40" | "40 \<le> n" "n < 48"
      by (simp, linarith)
    then show "bit x n = bit y n"
      by cases (simp_all add: byte_eq_bit0 [OF b(1)] byte_eq_bit [OF b(2)] byte_eq_bit [OF b(3)]
          byte_eq_bit [OF b(4)] byte_eq_bit [OF b(5)] byte_eq_bit [OF b(6)])
  qed
qed simp

lemma length_bytes [simp]:
  "length (bytes16 a) = 2" "length (bytes32 b) = 4" "length (bytes24 c) = 3" "length (bytes_eth d) = 6"
  by (simp_all add: bytes16_def bytes32_def bytes24_def bytes_eth_def)

lemma length_flow_bytes [simp]: "length (flow_bytes f) = 36"
  by (simp add: flow_bytes_def)

lemma flow_bytes_inj: "flow_bytes a = flow_bytes b \<longleftrightarrow> a = b"
  unfolding flow_bytes_def by (cases a, cases b) auto

lemma flow_compare_iff [simp]: "flow_compare a b \<longleftrightarrow> a \<noteq> b"
  by (simp add: flow_compare_def flow_bytes_inj)

lemma eth_addr_equals_iff [simp]: "eth_addr_equals a b \<longleftrightarrow> a = b"
  by (simp add: eth_addr_equals_def)

section \<open>Address masks\<close>

lemma xor_eq_0_iff: "(x :: 'a::len word) XOR y = 0 \<longleftrightarrow> x = y"
  by (metis xor.assoc xor.right_neutral xor_self_eq)

lemma and_not_mask_eq_0: "(x :: 'a::len word) AND NOT (mask n) = 0 \<longleftrightarrow> drop_bit n x = 0"
proof
  assume h: "x AND NOT (mask n) = 0"
  show "drop_bit n x = 0"
  proof (rule bit_word_eqI)
    fix m assume "m < LENGTH('a)"
    have "\<not> bit (x AND NOT (mask n)) (n + m)" by (simp add: h)
    then show "bit (drop_bit n x) m = bit 0 m"
      by (auto simp: bit_simps dest: bit_imp_le_length)
  qed
next
  assume h: "drop_bit n x = 0"
  show "x AND NOT (mask n) = 0"
  proof (rule bit_word_eqI)
    fix m assume "m < LENGTH('a)"
    have "\<not> bit (drop_bit n x) (m - n)" by (simp add: h)
    then show "bit (x AND NOT (mask n)) m = bit 0 m"
      by (cases "m < n") (auto simp: bit_simps)
  qed
qed

lemma wild_bits_small: "unat ((n :: u32) AND 63) < 64"
proof -
  have "n AND 63 \<le> 63" by (rule word_and_le1)
  then show ?thesis by (simp add: word_le_nat_alt)
qed

lemma nw_mask_prefix:
  "(a XOR b) AND make_nw_mask n = 0 \<longleftrightarrow>
     32 \<le> unat (n AND 63) \<or>
     drop_bit (unat (n AND 63)) (ntohl a) = drop_bit (unat (n AND 63)) (ntohl b)"
proof (cases "n AND 63 < 32")
  case True
  let ?k = "unat (n AND 63)"
  have "make_nw_mask n = htonl (NOT (mask ?k))"
    using True by (simp add: make_nw_mask_def Let_def mask_eq_exp_minus_1)
  moreover have "(a XOR b) AND htonl (NOT (mask ?k)) = htonl (htonl (a XOR b) AND NOT (mask ?k))"
    by (simp add: htonl_and)
  ultimately have "(a XOR b) AND make_nw_mask n = 0 \<longleftrightarrow> drop_bit ?k (ntohl a XOR ntohl b) = 0"
    by (simp only: htonl_eq_0_iff and_not_mask_eq_0 htonl_xor)
  also have "\<dots> \<longleftrightarrow> drop_bit ?k (ntohl a) = drop_bit ?k (ntohl b)"
    by (simp add: drop_bit_xor xor_eq_0_iff)
  finally show ?thesis
    using True by (simp add: word_less_nat_alt)
next
  case False
  then show ?thesis
    by (simp add: make_nw_mask_def word_less_nat_alt)
qed

section \<open>Wildcard arithmetic\<close>

lemma flag_set_and: "flag_set (w AND c) m \<longleftrightarrow> flag_set w (c AND m)"
  by (simp add: and.assoc)

lemma wild_and_and: "((w :: u32) AND c) AND m = w AND (c AND m)"
  by (simp add: and.assoc)

lemma wild_or_and: "((w :: u32) OR c) AND m = (w AND m) OR (c AND m)"
  by (simp add: bit.conj_disj_distrib2)

lemmas wild_simps = wild_and_and wild_or_and drop_bit_and drop_bit_or

lemma or_eq_0_iff: "(x :: 'a::len word) OR y = 0 \<longleftrightarrow> x = 0 \<and> y = 0"
  by (auto simp: or_eq_0_iff)

lemma make_nw_mask_63 [simp]: "n AND 63 = 63 \<Longrightarrow> make_nw_mask n = 0"
  by (simp add: make_nw_mask_def)

lemma make_nw_mask_exact [simp]: "make_nw_mask 0 = - 1"
proof (rule bit_word_eqI)
  fix n assume "n < LENGTH(32)"
  then show "bit (make_nw_mask 0) n = bit (- 1 :: u32) n"
    by (auto simp: make_nw_mask_def bit_htonl)
qed

lemma make_nw_mask_cong: "n AND 63 = m AND 63 \<Longrightarrow> make_nw_mask n = make_nw_mask m"
  by (simp add: make_nw_mask_def)

lemma make_nw_mask_and [simp]: "c AND 63 = 63 \<Longrightarrow> make_nw_mask (n AND c) = make_nw_mask n"
  by (rule make_nw_mask_cong) (simp add: wild_and_and)

lemma make_nw_mask_or [simp]:
  "c AND 63 = 0 \<Longrightarrow> make_nw_mask (n OR c) = make_nw_mask n"
  "c AND 63 = 63 \<Longrightarrow> make_nw_mask (n OR c) = 0"
  by (rule make_nw_mask_cong, simp add: wild_or_and) (simp add: wild_or_and)

section \<open>OpenFlow 1.0 matching\<close>

text \<open>
  The match semantics of OpenFlow 1.0, on the host-order reading of a match \<open>m\<close> and for the
  header fields \<open>p\<close> of a packet: a field is compared unless it is wildcarded; IP addresses are
  compared on the prefix that the 6-bit wildcard count leaves; network fields count only for
  IP (and, but for the ToS, ARP) entries, transport fields only for TCP, UDP and ICMP entries.
\<close>

definition nw_prefix_match :: "u32 \<Rightarrow> nat \<Rightarrow> u32 \<Rightarrow> u32 \<Rightarrow> bool" where
  "nw_prefix_match w shift a b \<longleftrightarrow>
     (let n = unat (drop_bit shift w AND 63)
      in 32 \<le> n \<or> drop_bit n (ntohl a) = drop_bit n (ntohl b))"

definition has_ports :: "u8 \<Rightarrow> bool" where
  "has_ports proto \<longleftrightarrow> proto = IP_TYPE_TCP \<or> proto = IP_TYPE_UDP \<or> proto = IP_TYPE_ICMP"

definition of10_matches :: "flow \<Rightarrow> ofp_match \<Rightarrow> bool" where
  "of10_matches p m \<longleftrightarrow>
     (let w = ntohl (om_wildcards m);
          ip = (\<not> flag_set w OFPFW_DL_TYPE \<and> om_dl_type m = htons ETH_TYPE_IP);
          arp = (\<not> flag_set w OFPFW_DL_TYPE \<and> om_dl_type m = htons ETH_TYPE_ARP)
      in (flag_set w OFPFW_IN_PORT \<or> fl_in_port p = om_in_port m)
       \<and> (flag_set w OFPFW_DL_VLAN \<or> fl_dl_vlan p = om_dl_vlan m)
       \<and> (flag_set w OFPFW_DL_VLAN_PCP \<or> fl_dl_vlan_pcp p = om_dl_vlan_pcp m)
       \<and> (flag_set w OFPFW_DL_SRC \<or> fl_dl_src p = om_dl_src m)
       \<and> (flag_set w OFPFW_DL_DST \<or> fl_dl_dst p = om_dl_dst m)
       \<and> (flag_set w OFPFW_DL_TYPE \<or> fl_dl_type p = om_dl_type m)
       \<and> (ip \<longrightarrow> flag_set w OFPFW_NW_TOS \<or> fl_nw_tos p = om_nw_tos m AND 0xfc)
       \<and> (ip \<or> arp \<longrightarrow> (flag_set w OFPFW_NW_PROTO \<or> fl_nw_proto p = om_nw_proto m)
            \<and> nw_prefix_match w OFPFW_NW_SRC_SHIFT (fl_nw_src p) (om_nw_src m)
            \<and> nw_prefix_match w OFPFW_NW_DST_SHIFT (fl_nw_dst p) (om_nw_dst m))
       \<and> (ip \<and> \<not> flag_set w OFPFW_NW_PROTO \<and> has_ports (om_nw_proto m) \<longrightarrow>
            (flag_set w OFPFW_TP_SRC \<or> fl_tp_src p = om_tp_src m)
            \<and> (flag_set w OFPFW_TP_DST \<or> fl_tp_dst p = om_tp_dst m)))"

text \<open>What \<^verbatim>\<open>flow_extract\<close> leaves of a packet: fields of absent headers are zero.\<close>

definition flow_normal :: "flow \<Rightarrow> bool" where
  "flow_normal p \<longleftrightarrow>
     (fl_dl_type p \<noteq> htons ETH_TYPE_IP \<longrightarrow>
        fl_nw_tos p = 0 \<and> fl_tp_src p = 0 \<and> fl_tp_dst p = 0)
     \<and> (fl_dl_type p \<noteq> htons ETH_TYPE_IP \<and> fl_dl_type p \<noteq> htons ETH_TYPE_ARP \<longrightarrow>
        fl_nw_src p = 0 \<and> fl_nw_dst p = 0 \<and> fl_nw_proto p = 0)
     \<and> (\<not> has_ports (fl_nw_proto p) \<longrightarrow> fl_tp_src p = 0 \<and> fl_tp_dst p = 0)
     \<and> fl_pad p = 0"

lemma extract_nw_masks:
  "(fl_nw_src p XOR a) AND make_nw_mask (drop_bit s w) = 0 \<longleftrightarrow> nw_prefix_match w s (fl_nw_src p) a"
  "(fl_nw_dst p XOR a) AND make_nw_mask (drop_bit s w) = 0 \<longleftrightarrow> nw_prefix_match w s (fl_nw_dst p) a"
  by (simp_all add: nw_mask_prefix nw_prefix_match_def Let_def)

lemma nw_prefix_match_refl [simp]: "nw_prefix_match w s a a"
  by (simp add: nw_prefix_match_def)

lemma nw_prefix_match_wild:
  "nw_prefix_match (w AND OFPFW_ALL) OFPFW_NW_SRC_SHIFT a b = nw_prefix_match w OFPFW_NW_SRC_SHIFT a b"
  "nw_prefix_match (w AND OFPFW_ALL) OFPFW_NW_DST_SHIFT a b = nw_prefix_match w OFPFW_NW_DST_SHIFT a b"
  "nw_prefix_match (w AND 0x3fff3f) OFPFW_NW_SRC_SHIFT a b = nw_prefix_match w OFPFW_NW_SRC_SHIFT a b"
  "nw_prefix_match (w AND 0x3fff3f) OFPFW_NW_DST_SHIFT a b = nw_prefix_match w OFPFW_NW_DST_SHIFT a b"
  "nw_prefix_match (w OR OFPFW_TP) OFPFW_NW_SRC_SHIFT a b = nw_prefix_match w OFPFW_NW_SRC_SHIFT a b"
  "nw_prefix_match (w OR OFPFW_TP) OFPFW_NW_DST_SHIFT a b = nw_prefix_match w OFPFW_NW_DST_SHIFT a b"
  "nw_prefix_match (w OR 0x2fffe0) OFPFW_NW_SRC_SHIFT a b"
  "nw_prefix_match (w OR 0x2fffe0) OFPFW_NW_DST_SHIFT a b"
  by (simp_all add: nw_prefix_match_def wild_simps Let_def)

lemma and_not_tp: "(w :: u32) AND OFPFW_ALL AND NOT OFPFW_TP = w AND 0x3fff3f"
  by (simp add: and.assoc)

lemma match_cases [case_names wild ip_any ip_tp ip_other arp other]:
  fixes m :: ofp_match
  defines "w \<equiv> ntohl (om_wildcards m)"
  obtains "flag_set w OFPFW_DL_TYPE"
    | "\<not> flag_set w OFPFW_DL_TYPE" "om_dl_type m = htons ETH_TYPE_IP" "flag_set w OFPFW_NW_PROTO"
    | "\<not> flag_set w OFPFW_DL_TYPE" "om_dl_type m = htons ETH_TYPE_IP"
        "\<not> flag_set w OFPFW_NW_PROTO" "has_ports (om_nw_proto m)"
    | "\<not> flag_set w OFPFW_DL_TYPE" "om_dl_type m = htons ETH_TYPE_IP"
        "\<not> flag_set w OFPFW_NW_PROTO" "\<not> has_ports (om_nw_proto m)"
    | "\<not> flag_set w OFPFW_DL_TYPE" "om_dl_type m = htons ETH_TYPE_ARP"
    | "\<not> flag_set w OFPFW_DL_TYPE" "om_dl_type m \<noteq> htons ETH_TYPE_IP"
        "om_dl_type m \<noteq> htons ETH_TYPE_ARP"
  by blast

lemma extract_match_of10:
  assumes p: "flow_normal p" and k: "k_flow a = p"
  shows "flow_matches_1wild a (flow_extract_match m) \<longleftrightarrow> of10_matches p m"
proof -
  show ?thesis
  proof (cases m rule: match_cases)
    case wild
    then show ?thesis
      by (simp add: flow_matches_1wild_def flow_fields_match_def flow_extract_match_def of10_matches_def
          Let_def k wild_and_and wild_or_and or_eq_0_iff extract_nw_masks nw_prefix_match_wild)
  next
    case ip_any
    then show ?thesis
      by (simp add: flow_matches_1wild_def flow_fields_match_def flow_extract_match_def of10_matches_def
          Let_def k wild_and_and wild_or_and or_eq_0_iff extract_nw_masks nw_prefix_match_wild)
  next
    case ip_tp
    then show ?thesis
      by (simp add: flow_matches_1wild_def flow_fields_match_def flow_extract_match_def of10_matches_def
          Let_def k wild_and_and wild_or_and or_eq_0_iff extract_nw_masks nw_prefix_match_wild has_ports_def)
  next
    case ip_other
    then show ?thesis using p
      by (cases "fl_nw_proto p = om_nw_proto m") (simp_all add: flow_matches_1wild_def flow_fields_match_def flow_extract_match_def of10_matches_def
          Let_def k and_not_tp wild_and_and wild_or_and or_eq_0_iff extract_nw_masks nw_prefix_match_wild has_ports_def flow_normal_def)
  next
    case arp
    then show ?thesis using p
      by (cases "fl_dl_type p = om_dl_type m") (simp_all add: flow_matches_1wild_def flow_fields_match_def flow_extract_match_def of10_matches_def
          Let_def k and_not_tp wild_and_and wild_or_and or_eq_0_iff extract_nw_masks nw_prefix_match_wild flow_normal_def)
  next
    case other
    then show ?thesis using p
      by (cases "fl_dl_type p = om_dl_type m") (simp_all add: flow_matches_1wild_def flow_fields_match_def flow_extract_match_def of10_matches_def
          Let_def k wild_and_and wild_or_and or_eq_0_iff extract_nw_masks nw_prefix_match_wild flow_normal_def)
  qed
qed


section \<open>Keys and matches\<close>

lemma tos_and_and [simp]: "((x :: u8) AND 252) AND 252 = x AND 252"
  by (simp add: and.assoc)

lemma extract_fill_flow:
  "flow_extract_match (flow_fill_match to (k_flow (flow_extract_match m))
     (k_wildcards (flow_extract_match m))) = flow_extract_match m"
  by (cases m rule: match_cases) (simp_all add: flow_extract_match_def flow_fill_match_def Let_def wild_and_and wild_or_and
        or_eq_0_iff has_ports_def)

section \<open>Overlap of two keys\<close>

text \<open>The flow that agrees with \<open>a\<close> where \<open>a\<close> is exact and with \<open>b\<close> elsewhere.\<close>

definition merge_nw :: "u32 \<Rightarrow> u32 \<Rightarrow> u32 \<Rightarrow> u32" where
  "merge_nw m x y = (x AND m) OR (y AND NOT m)"

definition merge_keys :: "sw_flow_key \<Rightarrow> sw_flow_key \<Rightarrow> sw_flow_key" where
  "merge_keys a b =
     (let w = k_wildcards a; f = k_flow a; g = k_flow b;
          pick = (\<lambda>flag. if flag_set w flag then g else f)
      in a\<lparr>k_flow :=
        \<lparr>fl_nw_src = merge_nw (k_nw_src_mask a) (fl_nw_src f) (fl_nw_src g),
         fl_nw_dst = merge_nw (k_nw_dst_mask a) (fl_nw_dst f) (fl_nw_dst g),
         fl_in_port = fl_in_port (pick OFPFW_IN_PORT),
         fl_dl_vlan = fl_dl_vlan (pick OFPFW_DL_VLAN),
         fl_dl_type = fl_dl_type (pick OFPFW_DL_TYPE),
         fl_tp_src = fl_tp_src (pick OFPFW_TP_SRC), fl_tp_dst = fl_tp_dst (pick OFPFW_TP_DST),
         fl_dl_src = fl_dl_src (pick OFPFW_DL_SRC), fl_dl_dst = fl_dl_dst (pick OFPFW_DL_DST),
         fl_dl_vlan_pcp = fl_dl_vlan_pcp (pick OFPFW_DL_VLAN_PCP),
         fl_nw_tos = fl_nw_tos (pick OFPFW_NW_TOS),
         fl_nw_proto = fl_nw_proto (pick OFPFW_NW_PROTO), fl_pad = 0\<rparr>\<rparr>)"

lemma xor_and_eq_0_iff:
  "((x :: 'a::len word) XOR y) AND m = 0 \<longleftrightarrow> (\<forall>n. bit m n \<longrightarrow> bit x n = bit y n)"
proof
  assume h: "(x XOR y) AND m = 0"
  show "\<forall>n. bit m n \<longrightarrow> bit x n = bit y n"
  proof (intro allI impI)
    fix n assume "bit m n"
    moreover have "\<not> bit ((x XOR y) AND m) n" by (simp add: h)
    ultimately show "bit x n = bit y n" by (simp add: bit_simps)
  qed
next
  assume "\<forall>n. bit m n \<longrightarrow> bit x n = bit y n"
  then show "(x XOR y) AND m = 0"
    by (intro bit_word_eqI) (auto simp: bit_simps)
qed

lemma bit_merge_nw: "bit (merge_nw m x y) n = (if bit m n then bit x n else bit y n)"
  by (auto simp: merge_nw_def bit_simps dest: bit_imp_le_length)

lemma merge_nw_left: "(merge_nw m x y XOR x) AND m = 0"
  by (simp add: xor_and_eq_0_iff bit_merge_nw)

lemma merge_nw_right: "(x XOR y) AND (m AND m') = 0 \<Longrightarrow> (merge_nw m x y XOR y) AND m' = 0"
  by (auto simp: xor_and_eq_0_iff bit_merge_nw bit_simps)

lemma merge_keys_matches:
  assumes "flow_matches_2wild a b"
  shows "flow_matches_1wild (merge_keys a b) a" "flow_matches_1wild (merge_keys a b) b"
  using assms
  by (simp_all add: flow_matches_1wild_def flow_matches_2wild_def flow_fields_match_def merge_keys_def
      Let_def wild_or_and or_eq_0_iff merge_nw_left merge_nw_right)

lemma xor_and_common:
  "((p :: u32) XOR x) AND m = 0 \<Longrightarrow> (p XOR y) AND m' = 0 \<Longrightarrow> (x XOR y) AND (m AND m') = 0"
  by (simp add: xor_and_eq_0_iff bit_simps) blast

lemma common_field:
  "flag_set (v :: u32) c \<or> p = x \<Longrightarrow> flag_set w c \<or> p = y \<Longrightarrow> flag_set (v OR w) c \<or> x = y"
  by (auto simp: wild_or_and or_eq_0_iff)

lemma common_flow_2wild:
  assumes "flow_matches_1wild p a" "flow_matches_1wild p b"
  shows "flow_matches_2wild a b"
  using assms unfolding flow_matches_1wild_def flow_matches_2wild_def flow_fields_match_def
    eth_addr_equals_iff
  by (elim conjE) (intro conjI; (erule (1) common_field | erule (1) xor_and_common))

lemma flow_matches_2wild_sym: "flow_matches_2wild a b \<Longrightarrow> flow_matches_2wild b a"
  using merge_keys_matches common_flow_2wild by blast

text \<open>A key with no wildcard matches exactly the flows equal to it but for the padding.\<close>

lemma exact_key_matches:
  assumes "k_wildcards b = 0" "k_nw_src_mask b = - 1" "k_nw_dst_mask b = - 1"
    and "fl_pad (k_flow a) = fl_pad (k_flow b)"
  shows "flow_matches_1wild a b \<longleftrightarrow> k_flow a = k_flow b"
  using assms
  by (cases "k_flow a", cases "k_flow b")
     (auto simp: flow_matches_1wild_def flow_fields_match_def xor_eq_0_iff)

section \<open>Properties\<close>

text \<open>
  C1. Matching is OpenFlow 1.0 matching: for the header fields \<open>p\<close> of a packet (absent fields
  are zero, as \<^verbatim>\<open>flow_extract\<close> leaves them), comparing with the key that \<^verbatim>\<open>flow_extract_match\<close>
  makes of a controller's match decides exactly the protocol's match relation, with its
  dependencies between layers and its prefix wildcards for IP addresses.
\<close>

theorem matching_is_openflow10:
  assumes "flow_normal (k_flow a)"
  shows "flow_matches_1wild a (flow_extract_match m) \<longleftrightarrow> of10_matches (k_flow a) m"
  using extract_match_of10 [OF assms] by simp

text \<open>
  The match that the switch reports for an entry (\<^verbatim>\<open>flow_fill_match\<close>, in flow statistics and
  flow-removed messages) denotes the same entry: extracting a key from it gives back the key.
\<close>

theorem extract_fill_roundtrip:
  "flow_extract_match (flow_fill_match to (k_flow (flow_extract_match m))
     (k_wildcards (flow_extract_match m))) = flow_extract_match m"
  by (rule extract_fill_flow)

text \<open>
  C38. The overlap test \<^verbatim>\<open>flow_matches_2wild\<close> is exact: it holds of two keys if and only if there
  are header fields that match both.
\<close>

theorem overlap_exact:
  "flow_matches_2wild a b \<longleftrightarrow> (\<exists>p. flow_matches_1wild p a \<and> flow_matches_1wild p b)"
  using merge_keys_matches common_flow_2wild by blast

section \<open>Witnesses\<close>

definition sample_flow :: flow where
  "sample_flow = \<lparr>fl_nw_src = htonl 0x0a000001, fl_nw_dst = htonl 0x0a0000fe, fl_in_port = htons 1,
     fl_dl_vlan = 0xffff, fl_dl_type = htons ETH_TYPE_IP, fl_tp_src = htons 1234,
     fl_tp_dst = htons 80, fl_dl_src = 0x0200deadbeef, fl_dl_dst = 0x020000000001,
     fl_dl_vlan_pcp = 0, fl_nw_tos = 0, fl_nw_proto = IP_TYPE_TCP, fl_pad = 0\<rparr>"

definition sample_match :: ofp_match where
  "sample_match = \<lparr>om_wildcards = htonl (OFPFW_ALL AND NOT (OFPFW_DL_TYPE OR OFPFW_NW_DST_MASK) OR 0x20000),
     om_in_port = 0, om_dl_src = 0, om_dl_dst = 0, om_dl_vlan = 0, om_dl_vlan_pcp = 0, om_pad1 = 0,
     om_dl_type = htons ETH_TYPE_IP, om_nw_tos = 0, om_nw_proto = 0, om_pad2 = 0,
     om_nw_src = 0, om_nw_dst = htonl 0x0a000000, om_tp_src = 0, om_tp_dst = 0\<rparr>"

lemma sample_flow_normal: "flow_normal sample_flow"
  by (simp add: flow_normal_def sample_flow_def has_ports_def)

theorem matching_is_openflow10_witness:
  "flow_matches_1wild \<lparr>k_flow = sample_flow, k_wildcards = 0, k_nw_src_mask = - 1, k_nw_dst_mask = - 1\<rparr>
     (flow_extract_match sample_match)
   \<longleftrightarrow> of10_matches sample_flow sample_match"
  using matching_is_openflow10 [of "\<lparr>k_flow = sample_flow, k_wildcards = 0, k_nw_src_mask = - 1,
      k_nw_dst_mask = - 1\<rparr>" sample_match] sample_flow_normal by simp

end
