(* ===== verification/Flow_Entry.thy ===== *)
theory Flow_Entry
  imports Flow_Key
begin

text \<open>
  The operations of \<^verbatim>\<open>src/openflow/udatapath/switch-flow.c\<close> on flow entries: allocation,
  the action list, counters and time-outs. The clock \<^verbatim>\<open>time_msec\<close> is the argument \<open>now\<close>;
  whether an allocation succeeds is a Boolean argument. A call that reads outside the action
  bytes, or that does not return, has the value \<open>None\<close>.
\<close>

section \<open>Action lists\<close>

abbreviation OFPAT_OUTPUT :: u16 where "OFPAT_OUTPUT \<equiv> 0"

text \<open>The fields of the \<^verbatim>\<open>struct ofp_action_header\<close> (and of \<^verbatim>\<open>ofp_action_output\<close>) at the front.\<close>

definition ah_type :: "u8 list \<Rightarrow> u16" where
  "ah_type p = ld16 p 0"

definition ah_len :: "u8 list \<Rightarrow> nat" where
  "ah_len p = unat (ntohs (ld16 p 2))"

definition oa_port :: "u8 list \<Rightarrow> u16" where
  "oa_port p = ld16 p 4"

text \<open>
  A well-formed action list is a sequence of actions of at least eight bytes whose lengths
  add up to the length of the list.
\<close>

function wf_acts :: "u8 list \<Rightarrow> bool" where
  "wf_acts p =
     (if p = [] then True
      else if length p < 8 \<or> ah_len p < 8 \<or> length p < ah_len p then False
      else wf_acts (drop (ah_len p) p))"
  by pat_completeness auto
termination
  by (relation "measure length") auto

declare wf_acts.simps [simp del]

function split_acts :: "u8 list \<Rightarrow> u8 list list" where
  "split_acts p =
     (if p = [] \<or> ah_len p = 0 then [] else take (ah_len p) p # split_acts (drop (ah_len p) p))"
  by pat_completeness auto
termination
  by (relation "measure length") auto

declare split_acts.simps [simp del]

section \<open>Operations\<close>

text \<open>\<open>addr\<close> is the address \<^verbatim>\<open>calloc\<close> returns for the entry.\<close>

definition flow_alloc :: "bool \<Rightarrow> bool \<Rightarrow> nat \<Rightarrow> nat \<Rightarrow> sw_flow option" where
  "flow_alloc flow_ok sfa_ok addr actions_len =
     (if \<not> flow_ok then None
      else if \<not> sfa_ok then None
      else Some \<lparr>sf_addr = addr,
        sf_key = \<lparr>k_flow = \<lparr>fl_nw_src = 0, fl_nw_dst = 0, fl_in_port = 0, fl_dl_vlan = 0,
            fl_dl_type = 0, fl_tp_src = 0, fl_tp_dst = 0, fl_dl_src = 0, fl_dl_dst = 0,
            fl_dl_vlan_pcp = 0, fl_nw_tos = 0, fl_nw_proto = 0, fl_pad = 0\<rparr>,
          k_wildcards = 0, k_nw_src_mask = 0, k_nw_dst_mask = 0\<rparr>,
        sf_cookie = 0, sf_priority = 0, sf_idle_timeout = 0, sf_hard_timeout = 0, sf_used = 0,
        sf_created = 0, sf_packet_count = 0, sf_byte_count = 0, sf_reason = 0,
        sf_send_flow_rem = 0, sf_emerg_flow = 0, sf_acts = replicate actions_len 0,
        sf_serial = 0\<rparr>)"

text \<open>\<open>None\<close> is the exit of the process by \<^verbatim>\<open>ofp_fatal\<close>.\<close>

definition flow_setup_actions :: "u64 \<Rightarrow> sw_flow \<Rightarrow> u8 list \<Rightarrow> sw_flow option" where
  "flow_setup_actions now flow actions =
     (if length actions > length (sf_acts flow) then None
      else Some (flow\<lparr>sf_used := now, sf_created := now, sf_byte_count := 0,
                      sf_packet_count := 0, sf_acts := actions\<rparr>))"

definition flow_replace_acts :: "bool \<Rightarrow> sw_flow \<Rightarrow> u8 list \<Rightarrow> sw_flow" where
  "flow_replace_acts ok flow actions = (if \<not> ok then flow else flow\<lparr>sf_acts := actions\<rparr>)"

definition flow_timeout :: "u64 \<Rightarrow> sw_flow \<Rightarrow> bool \<times> sw_flow" where
  "flow_timeout now flow =
     (if sf_idle_timeout flow \<noteq> OFP_FLOW_PERMANENT
         \<and> now > sf_used flow + ucast (sf_idle_timeout flow) * 1000
      then (True, flow\<lparr>sf_reason := OFPRR_IDLE_TIMEOUT\<rparr>)
      else if sf_hard_timeout flow \<noteq> OFP_FLOW_PERMANENT
         \<and> now > sf_created flow + ucast (sf_hard_timeout flow) * 1000
      then (True, flow\<lparr>sf_reason := OFPRR_HARD_TIMEOUT\<rparr>)
      else (False, flow))"

partial_function (option) has_output_loop :: "u8 list \<Rightarrow> u16 \<Rightarrow> bool option" where
  "has_output_loop p out_port =
     (if p = [] then Some False
      else if length p < 4 then None
      else if ah_type p = htons OFPAT_OUTPUT \<and> length p < 6 then None
      else if ah_type p = htons OFPAT_OUTPUT \<and> oa_port p = out_port then Some True
      else if ah_len p > length p then None
      else has_output_loop (drop (ah_len p) p) out_port)"

declare has_output_loop.simps [code]

definition flow_has_out_port :: "sw_flow \<Rightarrow> u16 \<Rightarrow> bool option" where
  "flow_has_out_port flow out_port =
     (if out_port = htons OFPP_NONE then Some True
      else has_output_loop (sf_acts flow) out_port)"

definition flow_used :: "u64 \<Rightarrow> sw_flow \<Rightarrow> nat \<Rightarrow> sw_flow" where
  "flow_used now flow n =
     flow\<lparr>sf_used := now, sf_packet_count := sf_packet_count flow + 1,
          sf_byte_count := sf_byte_count flow + of_nat n\<rparr>"

section \<open>Facts\<close>

lemma wf_acts_Nil [simp]: "wf_acts []"
  by (simp add: wf_acts.simps)

lemma wf_acts_step:
  assumes "wf_acts p" "p \<noteq> []"
  shows "8 \<le> length p" "8 \<le> ah_len p" "ah_len p \<le> length p" "wf_acts (drop (ah_len p) p)"
  using assms by (simp_all add: wf_acts.simps [of p] split: if_splits)

lemma split_acts_Nil [simp]: "split_acts [] = []"
  by (simp add: split_acts.simps)

lemma split_acts_step:
  "wf_acts p \<Longrightarrow> p \<noteq> [] \<Longrightarrow> split_acts p = take (ah_len p) p # split_acts (drop (ah_len p) p)"
  using wf_acts_step(2) [of p] by (simp add: split_acts.simps [of p])

lemma wf_acts_induct [consumes 1, case_names Nil act]:
  assumes "wf_acts p" and "P []"
    and "\<And>p. wf_acts p \<Longrightarrow> p \<noteq> [] \<Longrightarrow> P (drop (ah_len p) p) \<Longrightarrow> P p"
  shows "P p"
  using assms(1)
proof (induction p rule: measure_induct_rule [of length])
  case (less p)
  show ?case
  proof (cases "p = []")
    case False
    then have "length (drop (ah_len p) p) < length p"
      using wf_acts_step [OF less.prems] by simp
    then show ?thesis
      using False less assms(3) wf_acts_step(4) by blast
  qed (simp add: assms(2))
qed

lemma concat_split_acts: "wf_acts p \<Longrightarrow> concat (split_acts p) = p"
  by (induction p rule: wf_acts_induct) (simp_all add: split_acts_step)

lemma ld8_take: "i < n \<Longrightarrow> ld8 (take n p) i = ld8 p i"
  by (simp add: ld8_def)

lemma ld16_take: "i + 1 < n \<Longrightarrow> ld16 (take n p) i = ld16 p i"
  by (simp add: ld16_def ld8_take)

lemma ah_take [simp]:
  "8 \<le> n \<Longrightarrow> ah_type (take n p) = ah_type p"
  "8 \<le> n \<Longrightarrow> ah_len (take n p) = ah_len p"
  "8 \<le> n \<Longrightarrow> oa_port (take n p) = oa_port p"
  by (simp_all add: ah_type_def ah_len_def oa_port_def ld16_take)

text \<open>Every piece is an action whose header has its length.\<close>

lemma split_acts_actions:
  "wf_acts p \<Longrightarrow> a \<in> set (split_acts p) \<Longrightarrow> 8 \<le> length a \<and> ah_len a = length a"
  by (induction p rule: wf_acts_induct) (auto simp: split_acts_step wf_acts_step)

lemma has_output_loop_wf:
  "wf_acts p \<Longrightarrow> has_output_loop p out_port =
     Some (\<exists>a\<in>set (split_acts p). ah_type a = htons OFPAT_OUTPUT \<and> oa_port a = out_port)"
proof (induction p rule: wf_acts_induct)
  case Nil
  then show ?case by (simp add: has_output_loop.simps)
next
  case (act p)
  then show ?case
    using wf_acts_step [of p] has_output_loop.simps [of p out_port]
    by (cases "ah_type p = htons OFPAT_OUTPUT \<and> oa_port p = out_port") (auto simp: split_acts_step)
qed

lemma flow_has_out_port_wf:
  "wf_acts (sf_acts f) \<Longrightarrow> flow_has_out_port f out_port =
     Some (out_port = htons OFPP_NONE \<or>
       (\<exists>a\<in>set (split_acts (sf_acts f)). ah_type a = htons OFPAT_OUTPUT \<and> oa_port a = out_port))"
  by (simp add: flow_has_out_port_def has_output_loop_wf)

lemma flow_has_out_port_total: "wf_acts (sf_acts f) \<Longrightarrow> flow_has_out_port f port \<noteq> None"
  by (simp add: flow_has_out_port_wf)

text \<open>The time-out test changes nothing but the reason.\<close>

lemma flow_timeout_snd:
  "snd (flow_timeout now f) = f \<or> (\<exists>r. snd (flow_timeout now f) = f\<lparr>sf_reason := r\<rparr>)"
  by (auto simp: flow_timeout_def)

lemma flow_timeout_sel [simp]:
  "sf_addr (snd (flow_timeout now f)) = sf_addr f" "sf_key (snd (flow_timeout now f)) = sf_key f"
  "sf_priority (snd (flow_timeout now f)) = sf_priority f"
  "sf_serial (snd (flow_timeout now f)) = sf_serial f"
  "sf_acts (snd (flow_timeout now f)) = sf_acts f"
  by (simp_all add: flow_timeout_def)

lemma flow_timeout_False: "\<not> fst (flow_timeout now f) \<Longrightarrow> snd (flow_timeout now f) = f"
  by (auto simp: flow_timeout_def)

lemma ucast_mult_1000: "unat (ucast (w :: u16) * 1000 :: u64) = unat w * 1000"
proof -
  have "unat (ucast w :: u64) = unat w" by (simp add: unat_ucast_up)
  moreover have "unat w \<le> 65535" by (rule unat_u16_bound)
  ultimately show ?thesis by (simp add: unat_word_ariths(2))
qed

lemma deadline_unat:
  assumes "unat (t :: u64) + unat (w :: u16) * 1000 < 2 ^ 64"
  shows "t + ucast w * 1000 < now \<longleftrightarrow> unat t + unat w * 1000 < unat now"
proof -
  have "unat (t + ucast w * 1000) = unat t + unat w * 1000"
    using assms by (simp add: unat_word_ariths(1) ucast_mult_1000)
  then show ?thesis by (simp add: word_less_nat_alt)
qed

section \<open>Properties\<close>

text \<open>
  On a well-formed action list \<^verbatim>\<open>flow_has_out_port\<close> returns without reading outside the
  list, and says whether the port is \<^verbatim>\<open>OFPP_NONE\<close> or one of the actions outputs to it.
\<close>

theorem flow_has_out_port_correct:
  assumes "wf_acts (sf_acts f)"
  shows "flow_has_out_port f out_port =
     Some (out_port = htons OFPP_NONE \<or>
       (\<exists>a\<in>set (split_acts (sf_acts f)). ah_type a = htons OFPAT_OUTPUT \<and> oa_port a = out_port))"
  using assms by (rule flow_has_out_port_wf)

definition sample_entry :: sw_flow where
  "sample_entry = \<lparr>sf_addr = 1, sf_key = flow_extract_match sample_match, sf_cookie = 7,
     sf_priority = 100, sf_idle_timeout = 60, sf_hard_timeout = 0, sf_used = 5000,
     sf_created = 1000, sf_packet_count = 0, sf_byte_count = 0, sf_reason = 0,
     sf_send_flow_rem = 1, sf_emerg_flow = 0, sf_acts = [0, 0, 0, 8, 0, 3, 0, 0],
     sf_serial = 0\<rparr>"

lemma sample_entry_wf: "wf_acts (sf_acts sample_entry)"
  by code_simp

theorem flow_has_out_port_correct_witness:
  "flow_has_out_port sample_entry (htons 3) = Some True"
proof -
  have "split_acts (sf_acts sample_entry) = [[0, 0, 0, 8, 0, 3, 0, 0]]"
    by code_simp
  moreover have "ah_type [0, 0, 0, 8, 0, 3, 0, 0] = htons OFPAT_OUTPUT"
    "oa_port [0, 0, 0, 8, 0, 3, 0, 0] = htons 3"
    by code_simp+
  ultimately show ?thesis
    using flow_has_out_port_correct [OF sample_entry_wf, of "htons 3"] by simp
qed

text \<open>
  An entry times out exactly when one of its non-zero time-outs has passed, as long as its
  deadlines do not wrap around; the idle time-out takes precedence in the reason that is
  recorded, and an entry with no time-out never expires.
\<close>

theorem flow_timeout_exact:
  assumes "unat (sf_used f) + unat (sf_idle_timeout f) * 1000 < 2 ^ 64"
    and "unat (sf_created f) + unat (sf_hard_timeout f) * 1000 < 2 ^ 64"
  shows "flow_timeout now f =
    (if sf_idle_timeout f \<noteq> 0 \<and> unat (sf_used f) + unat (sf_idle_timeout f) * 1000 < unat now
     then (True, f\<lparr>sf_reason := OFPRR_IDLE_TIMEOUT\<rparr>)
     else if sf_hard_timeout f \<noteq> 0
       \<and> unat (sf_created f) + unat (sf_hard_timeout f) * 1000 < unat now
     then (True, f\<lparr>sf_reason := OFPRR_HARD_TIMEOUT\<rparr>)
     else (False, f))"
  using assms by (simp add: flow_timeout_def deadline_unat)

theorem flow_timeout_exact_witness:
  "flow_timeout 65001 sample_entry = (True, sample_entry\<lparr>sf_reason := OFPRR_IDLE_TIMEOUT\<rparr>)
   \<and> flow_timeout 65000 sample_entry = (False, sample_entry)"
  using flow_timeout_exact [of sample_entry 65001] flow_timeout_exact [of sample_entry 65000]
  by (simp add: sample_entry_def)

end
