(* ===== verification/Table_Spec.thy ===== *)
theory Table_Spec
  imports Flow_Entry "HOL-Library.Multiset"
begin

text \<open>
  What the tables of \<^verbatim>\<open>src/openflow/udatapath/table.h\<close> share: statistics, positions, callbacks,
  and the contract of a flow table as a locale. The operations of the contract are the
  function pointers of \<^verbatim>\<open>struct sw_table\<close> that the chain calls; its laws relate them to the
  multiset of entries of a table.
\<close>

section \<open>What tables share (table.h)\<close>

text \<open>
  \<^verbatim>\<open>unsigned long\<close> has 64 bits. A callback is a function of the entry and of its private data,
  which returns an error code and the new private data.
\<close>

record sw_table_stats =
  st_name :: string
  st_wildcards :: u32
  st_n_flows :: u32
  st_max_flows :: u32
  st_n_lookup :: u64
  st_n_matched :: u64

record sw_table_position =
  pos0 :: u64
  pos1 :: u64
  pos2 :: u64
  pos3 :: u64

type_synonym 's callback = "sw_flow \<Rightarrow> 's \<Rightarrow> int \<times> 's"

text \<open>Calls of the callback until it returns an error, with the entry of that call.\<close>

fun run_callback :: "'s callback \<Rightarrow> sw_flow list \<Rightarrow> 's \<Rightarrow> int \<times> sw_flow option \<times> 's" where
  "run_callback cb [] s = (0, None, s)"
| "run_callback cb (f # fs) s =
     (let (e, s') = cb f s in if e \<noteq> 0 then (e, Some f, s') else run_callback cb fs s')"

section \<open>Keys\<close>

text \<open>
  A key made from a match by \<^verbatim>\<open>flow_extract_match\<close> has its address masks determined by its
  wildcards. The key of a packet has no wildcard.
\<close>

definition key_ok :: "sw_flow_key \<Rightarrow> bool" where
  "key_ok k \<longleftrightarrow> k_nw_src_mask k = make_nw_mask (drop_bit OFPFW_NW_SRC_SHIFT (k_wildcards k))
     \<and> k_nw_dst_mask k = make_nw_mask (drop_bit OFPFW_NW_DST_SHIFT (k_wildcards k))
     \<and> fl_pad (k_flow k) = 0"

definition packet_key :: "sw_flow_key \<Rightarrow> bool" where
  "packet_key k \<longleftrightarrow> k_wildcards k = 0 \<and> fl_pad (k_flow k) = 0"

text \<open>An entry as the datapath makes it: its key comes from a match, its actions are validated.\<close>

definition entry_ok :: "sw_flow \<Rightarrow> bool" where
  "entry_ok f \<longleftrightarrow> key_ok (sf_key f) \<and> wf_acts (sf_acts f)"

abbreviation entry_matches :: "sw_flow_key \<Rightarrow> sw_flow \<Rightarrow> bool" where
  "entry_matches key f \<equiv> flow_matches_1wild key (sf_key f)"

lemma key_ok_extract [simp]: "key_ok (flow_extract_match m)"
  by (simp add: key_ok_def flow_extract_match_def Let_def)

lemma key_ok_exact:
  "key_ok k \<Longrightarrow> k_wildcards k = 0 \<Longrightarrow> k_nw_src_mask k = - 1 \<and> k_nw_dst_mask k = - 1"
  by (simp add: key_ok_def)

lemma packet_matches_exact:
  assumes "packet_key p" and k: "key_ok k" and w: "k_wildcards k = 0"
  shows "flow_matches_1wild p k \<longleftrightarrow> k_flow p = k_flow k"
proof (rule exact_key_matches [OF w])
  show "k_nw_src_mask k = - 1" "k_nw_dst_mask k = - 1"
    using key_ok_exact [OF k w] by blast+
  show "fl_pad (k_flow p) = fl_pad (k_flow k)"
    using assms by (simp add: packet_key_def key_ok_def)
qed

text \<open>Keys with the same wildcards that overlap match the same packets.\<close>

lemma field_trans: "c \<or> x = y \<Longrightarrow> (c \<or> q = x) = (c \<or> q = y)"
  by auto

lemma nw_trans:
  "((x :: u32) XOR y) AND n = 0 \<Longrightarrow> ((q XOR x) AND n = 0) = ((q XOR y) AND n = 0)"
  by (simp add: xor_and_eq_0_iff)

lemma same_wildcards_overlap:
  assumes ok: "key_ok a" "key_ok b" and w: "k_wildcards a = k_wildcards b"
    and m: "flow_matches_2wild a b"
  shows "flow_matches_1wild p a \<longleftrightarrow> flow_matches_1wild p b"
proof -
  have masks: "k_nw_src_mask a = k_nw_src_mask b" "k_nw_dst_mask a = k_nw_dst_mask b"
    using ok w by (simp_all add: key_ok_def)
  show ?thesis
    using m unfolding flow_matches_1wild_def flow_matches_2wild_def flow_fields_match_def
      eth_addr_equals_iff w masks or.idem and.idem
    by (elim conjE) (intro arg_cong2 [of _ _ _ _ "(\<and>)"]; (erule field_trans | erule nw_trans))
qed

text \<open>Exact keys overlap only if they are the same.\<close>

lemma exact_overlap:
  assumes "key_ok a" "key_ok b" "k_wildcards a = 0" "k_wildcards b = 0" "flow_matches_2wild a b"
  shows "k_flow a = k_flow b"
proof -
  let ?p = "a\<lparr>k_nw_src_mask := 0, k_nw_dst_mask := 0\<rparr>"
  have p: "packet_key ?p" using assms by (simp add: packet_key_def key_ok_def)
  have "flow_matches_1wild ?p a" using packet_matches_exact [OF p assms(1,3)] by simp
  then have "flow_matches_1wild ?p b"
    using same_wildcards_overlap [OF assms(1,2) _ assms(5)] assms(3,4) by simp
  then show ?thesis using packet_matches_exact [OF p assms(2,4)] by simp
qed

lemma run_callback_error:
  "run_callback cb fs s = (e, st, s') \<Longrightarrow> e \<noteq> 0 \<Longrightarrow> \<exists>us f vs. fs = us @ f # vs \<and> st = Some f"
proof (induction fs arbitrary: s)
  case (Cons f fs)
  obtain e1 s1 where cb: "cb f s = (e1, s1)" by fastforce
  show ?case
  proof (cases "e1 = 0")
    case True
    with Cons cb obtain us g vs where "fs = us @ g # vs" "st = Some g" by fastforce
    then show ?thesis by (intro exI [of _ "f # us"] exI [of _ g] exI [of _ vs]) simp
  next
    case False
    with Cons.prems cb show ?thesis by (intro exI [of _ "[]"] exI [of _ f] exI [of _ fs]) simp
  qed
qed simp

section \<open>The contract\<close>

locale flow_table =
  fixes inv :: "'t \<Rightarrow> bool"
    and addable :: "'t \<Rightarrow> sw_flow \<Rightarrow> bool"
    and entries :: "'t \<Rightarrow> sw_flow list"
    and lookup :: "'t \<Rightarrow> sw_flow_key \<Rightarrow> sw_flow option"
    and add :: "'t \<Rightarrow> sw_flow \<Rightarrow> bool \<times> 't"
    and delete :: "'t \<Rightarrow> sw_flow_key \<Rightarrow> u16 \<Rightarrow> u16 \<Rightarrow> bool \<Rightarrow> (u32 \<times> 't \<times> sw_flow list) option"
    and timeout :: "u64 \<Rightarrow> 't \<Rightarrow> sw_flow list \<Rightarrow> 't \<times> sw_flow list"
  assumes entries_ok: "inv t \<Longrightarrow> f \<in> set (entries t) \<Longrightarrow> entry_ok f"
    and lookup_Some: "inv t \<Longrightarrow> packet_key p \<Longrightarrow> lookup t p = Some f
      \<Longrightarrow> f \<in> set (entries t) \<and> entry_matches p f"
    and lookup_None: "inv t \<Longrightarrow> packet_key p \<Longrightarrow> lookup t p = None \<Longrightarrow> f \<in> set (entries t)
      \<Longrightarrow> \<not> entry_matches p f"
    and add_inv: "inv t \<Longrightarrow> addable t f \<Longrightarrow> inv (snd (add t f))"
    and add_fail: "inv t \<Longrightarrow> addable t f \<Longrightarrow> \<not> fst (add t f) \<Longrightarrow> snd (add t f) = t"
    and add_entries: "inv t \<Longrightarrow> addable t f \<Longrightarrow> fst (add t f) \<Longrightarrow>
      \<exists>s old. f\<lparr>sf_serial := s\<rparr> \<in> set (entries (snd (add t f)))
        \<and> mset (entries (snd (add t f))) + mset old = mset (entries t) + {#f\<lparr>sf_serial := s\<rparr>#}
        \<and> length old \<le> 1
        \<and> (\<forall>g\<in>set old. \<forall>p. packet_key p \<longrightarrow> entry_matches p g = entry_matches p f)"
    and add_frame: "inv t \<Longrightarrow> addable t f \<Longrightarrow> packet_key p \<Longrightarrow> \<not> entry_matches p f
      \<Longrightarrow> lookup (snd (add t f)) p = lookup t p"
    and delete_inv: "inv t \<Longrightarrow> delete t k op pr st = Some (c, t', ended) \<Longrightarrow> inv t'"
    and delete_total: "inv t \<Longrightarrow> delete t k op pr st \<noteq> None"
    and delete_entries: "inv t \<Longrightarrow> delete t k op pr st = Some (c, t', ended)
      \<Longrightarrow> mset (entries t') + mset ended = mset (entries t) \<and> unat c = length ended"
    and timeout_inv: "inv t \<Longrightarrow> inv (fst (timeout now t d))"
    and timeout_entries: "inv t \<Longrightarrow>
      entries (fst (timeout now t d)) = filter (\<lambda>f. \<not> fst (flow_timeout now f)) (entries t)
      \<and> snd (timeout now t d) = d @ map (snd \<circ> flow_timeout now)
           (filter (\<lambda>f. fst (flow_timeout now f)) (entries t))"
begin

lemma lookup_iff:
  assumes "inv t" "packet_key p"
  shows "(\<exists>f. lookup t p = Some f) \<longleftrightarrow> (\<exists>f\<in>set (entries t). entry_matches p f)"
  using assms lookup_Some lookup_None by (metis not_None_eq)

lemma add_lookup:
  assumes "inv t" "addable t f" "fst (add t f)" "packet_key p" "entry_matches p f"
  shows "\<exists>g. lookup (snd (add t f)) p = Some g \<and> entry_matches p g"
proof -
  have inv: "inv (snd (add t f))" using assms(1,2) by (rule add_inv)
  obtain s where "f\<lparr>sf_serial := s\<rparr> \<in> set (entries (snd (add t f)))"
    using add_entries [OF assms(1-3)] by blast
  moreover have "entry_matches p (f\<lparr>sf_serial := s\<rparr>)" using assms(5) by simp
  ultimately show ?thesis
    using lookup_iff [OF inv assms(4)] lookup_Some [OF inv assms(4)] by blast
qed

lemma add_member:
  assumes "inv t" "addable t f" "fst (add t f)"
  shows "\<exists>s. f\<lparr>sf_serial := s\<rparr> \<in> set (entries (snd (add t f)))
    \<and> set (entries (snd (add t f))) \<subseteq> insert (f\<lparr>sf_serial := s\<rparr>) (set (entries t))"
proof -
  obtain s old where s: "f\<lparr>sf_serial := s\<rparr> \<in> set (entries (snd (add t f)))"
    and m: "mset (entries (snd (add t f))) + mset old = mset (entries t) + {#f\<lparr>sf_serial := s\<rparr>#}"
    using add_entries [OF assms] by blast
  have "set_mset (mset (entries (snd (add t f))) + mset old) = insert (f\<lparr>sf_serial := s\<rparr>) (set (entries t))"
    by (simp only: m) simp
  then show ?thesis
    using s by auto
qed

lemma delete_subset:
  assumes "inv t" "delete t k op pr st = Some (c, t', ended)"
  shows "set (entries t') \<union> set ended = set (entries t)"
  using delete_entries [OF assms] by (metis set_mset_mset set_mset_union)

end

end
