(* ===== verification/Table_Linear.thy ===== *)
theory Table_Linear
  imports Table_Spec
begin

text \<open>
  The linear flow table of \<^verbatim>\<open>src/openflow/udatapath/table-linear.c\<close>: a list of entries in the
  order of their priorities, searched from the front, and a second list of the same entries
  in the order of their serial numbers, used to iterate over them. The list \<open>tl_flows\<close> owns the
  entries that the nodes \<^verbatim>\<open>node\<close> link; \<open>tl_iter_flows\<close> holds the addresses that the nodes
  \<^verbatim>\<open>iter_node\<close> link.
\<close>

section \<open>State and operations\<close>

record sw_table_linear =
  tl_n_lookup :: u64
  tl_n_matched :: u64
  tl_max_flows :: u32
  tl_n_flows :: u32
  tl_flows :: "sw_flow list"
  tl_iter_flows :: "nat list"
  tl_next_serial :: u64

fun first_match :: "sw_flow_key \<Rightarrow> sw_flow list \<Rightarrow> sw_flow option" where
  "first_match key [] = None"
| "first_match key (flow # flows) =
     (if flow_matches_1wild key (sf_key flow) then Some flow else first_match key flows)"

definition table_linear_lookup :: "sw_table_linear \<Rightarrow> sw_flow_key \<Rightarrow> sw_flow option" where
  "table_linear_lookup tbl key = first_match key (tl_flows tbl)"

text \<open>
  The loop of \<^verbatim>\<open>table_linear_insert\<close>: the entries it has passed, the entry to replace if it
  found one, and the entries from the one it stopped at (excluding the entry to replace).
\<close>

definition replaces :: "sw_flow \<Rightarrow> sw_flow \<Rightarrow> bool" where
  "replaces flow f \<longleftrightarrow> sf_priority f = sf_priority flow
     \<and> k_wildcards (sf_key f) = k_wildcards (sf_key flow)
     \<and> flow_matches_2wild (sf_key f) (sf_key flow)"

fun insert_scan ::
  "sw_flow \<Rightarrow> sw_flow list \<Rightarrow> sw_flow list \<Rightarrow> sw_flow list \<times> sw_flow option \<times> sw_flow list" where
  "insert_scan flow passed [] = (passed, None, [])"
| "insert_scan flow passed (f # fs) =
     (if replaces flow f then (passed, Some f, fs)
      else if sf_priority f < sf_priority flow then (passed, None, f # fs)
      else insert_scan flow (passed @ [f]) fs)"

definition table_linear_insert :: "sw_table_linear \<Rightarrow> sw_flow \<Rightarrow> bool \<times> sw_table_linear" where
  "table_linear_insert tbl flow =
     (case insert_scan flow [] (tl_flows tbl) of
        (passed, Some f, rest) \<Rightarrow>
          (True, tbl\<lparr>tl_flows := passed @ flow\<lparr>sf_serial := sf_serial f\<rparr> # rest,
                    tl_iter_flows := map (\<lambda>a. if a = sf_addr f then sf_addr flow else a)
                                       (tl_iter_flows tbl)\<rparr>)
      | (passed, None, rest) \<Rightarrow>
          if tl_n_flows tbl \<ge> tl_max_flows tbl then (False, tbl)
          else (True, tbl\<lparr>tl_n_flows := tl_n_flows tbl + 1,
                         tl_flows := passed @ flow\<lparr>sf_serial := tl_next_serial tbl\<rparr> # rest,
                         tl_iter_flows := sf_addr flow # tl_iter_flows tbl,
                         tl_next_serial := tl_next_serial tbl + 1\<rparr>))"

text \<open>\<open>alloc\<close> says for which entries the allocation of the new actions succeeds.\<close>

fun modify_loop :: "(sw_flow \<Rightarrow> bool) \<Rightarrow> (nat \<Rightarrow> bool) \<Rightarrow> u8 list \<Rightarrow> sw_flow list \<Rightarrow> u32
    \<Rightarrow> u32 \<times> sw_flow list" where
  "modify_loop sel alloc actions [] cnt = (cnt, [])"
| "modify_loop sel alloc actions (flow # flows) cnt =
     (if sel flow then
        (let (cnt', flows') = modify_loop sel alloc actions flows (cnt + 1)
         in (cnt', flow_replace_acts (alloc (sf_addr flow)) flow actions # flows'))
      else
        (let (cnt', flows') = modify_loop sel alloc actions flows cnt
         in (cnt', flow # flows')))"

definition linear_modifies :: "sw_flow_key \<Rightarrow> u16 \<Rightarrow> bool \<Rightarrow> sw_flow \<Rightarrow> bool" where
  "linear_modifies key priority strict flow \<longleftrightarrow>
     flow_matches_desc (sf_key flow) key strict \<and> (\<not> strict \<or> sf_priority flow = priority)"

definition table_linear_modify ::
  "(nat \<Rightarrow> bool) \<Rightarrow> sw_table_linear \<Rightarrow> sw_flow_key \<Rightarrow> u16 \<Rightarrow> bool \<Rightarrow> u8 list \<Rightarrow> u32 \<times> sw_table_linear" where
  "table_linear_modify alloc tbl key priority strict actions =
     (let (cnt, flows) = modify_loop (linear_modifies key priority strict) alloc actions
                             (tl_flows tbl) 0
      in (cnt, tbl\<lparr>tl_flows := flows\<rparr>))"

definition table_linear_has_conflict :: "sw_table_linear \<Rightarrow> sw_flow_key \<Rightarrow> u16 \<Rightarrow> bool \<Rightarrow> bool" where
  "table_linear_has_conflict tbl key priority strict =
     list_ex (\<lambda>flow. flow_matches_2desc (sf_key flow) key strict \<and> sf_priority flow = priority)
       (tl_flows tbl)"

text \<open>\<open>do_delete\<close> unlinks the entry from both lists; the argument is the iteration list.\<close>

definition linear_do_delete :: "sw_flow \<Rightarrow> nat list \<Rightarrow> nat list" where
  "linear_do_delete flow iter = filter (\<lambda>a. a \<noteq> sf_addr flow) iter"

text \<open>
  The loop of \<^verbatim>\<open>table_linear_delete\<close>. It returns the count, the entries that stay, the
  iteration list, and the entries passed to \<^verbatim>\<open>dp_send_flow_end\<close> in the order of the calls.
\<close>

fun linear_delete_loop :: "sw_flow_key \<Rightarrow> u16 \<Rightarrow> u16 \<Rightarrow> bool \<Rightarrow> sw_flow list \<Rightarrow> nat list \<Rightarrow> u32
    \<Rightarrow> (u32 \<times> sw_flow list \<times> nat list \<times> sw_flow list) option" where
  "linear_delete_loop key out_port priority strict [] iter cnt = Some (cnt, [], iter, [])"
| "linear_delete_loop key out_port priority strict (flow # flows) iter cnt =
     (if \<not> flow_matches_desc (sf_key flow) key strict then
        map_option (\<lambda>(c, fs, it, ended). (c, flow # fs, it, ended))
          (linear_delete_loop key out_port priority strict flows iter cnt)
      else case flow_has_out_port flow out_port of
        None \<Rightarrow> None
      | Some has \<Rightarrow>
          if has \<and> (\<not> strict \<or> sf_priority flow = priority) then
            map_option (\<lambda>(c, fs, it, ended). (c, fs, it, flow # ended))
              (linear_delete_loop key out_port priority strict flows
                 (linear_do_delete flow iter) (cnt + 1))
          else
            map_option (\<lambda>(c, fs, it, ended). (c, flow # fs, it, ended))
              (linear_delete_loop key out_port priority strict flows iter cnt))"

definition table_linear_delete :: "sw_table_linear \<Rightarrow> sw_flow_key \<Rightarrow> u16 \<Rightarrow> u16 \<Rightarrow> bool
    \<Rightarrow> (u32 \<times> sw_table_linear \<times> sw_flow list) option" where
  "table_linear_delete tbl key out_port priority strict =
     map_option (\<lambda>(cnt, flows, iter, ended).
         (cnt, tbl\<lparr>tl_flows := flows, tl_iter_flows := iter,
                    tl_n_flows := tl_n_flows tbl - cnt\<rparr>, ended))
       (linear_delete_loop key out_port priority strict (tl_flows tbl) (tl_iter_flows tbl) 0)"

fun linear_timeout_loop :: "u64 \<Rightarrow> sw_flow list \<Rightarrow> nat list \<Rightarrow> u32 \<Rightarrow> sw_flow list
    \<Rightarrow> sw_flow list \<times> nat list \<times> u32 \<times> sw_flow list" where
  "linear_timeout_loop now [] iter n deleted = ([], iter, n, deleted)"
| "linear_timeout_loop now (flow # flows) iter n deleted =
     (case flow_timeout now flow of
        (True, flow') \<Rightarrow>
          linear_timeout_loop now flows (filter (\<lambda>a. a \<noteq> sf_addr flow) iter) (n - 1)
            (deleted @ [flow'])
      | (False, flow') \<Rightarrow>
          (let (fs, it, n', d) = linear_timeout_loop now flows iter n deleted
           in (flow' # fs, it, n', d)))"

definition table_linear_timeout ::
  "u64 \<Rightarrow> sw_table_linear \<Rightarrow> sw_flow list \<Rightarrow> sw_table_linear \<times> sw_flow list" where
  "table_linear_timeout now tbl deleted =
     (let (flows, iter, n, deleted) =
        linear_timeout_loop now (tl_flows tbl) (tl_iter_flows tbl) (tl_n_flows tbl) deleted
      in (tbl\<lparr>tl_flows := flows, tl_iter_flows := iter, tl_n_flows := n\<rparr>, deleted))"

text \<open>The entries freed, in the order in which the loop frees them.\<close>

fun linear_destroy_loop :: "sw_flow list \<Rightarrow> nat list" where
  "linear_destroy_loop [] = []"
| "linear_destroy_loop (flow # flows) = sf_addr flow # linear_destroy_loop flows"

definition table_linear_destroy :: "sw_table_linear \<Rightarrow> nat list" where
  "table_linear_destroy tbl = linear_destroy_loop (tl_flows tbl)"

text \<open>
  The loop of \<^verbatim>\<open>table_linear_iterate\<close> over the iteration list; the address of a node gives the
  entry. It returns the error code, the new \<^verbatim>\<open>position->private[0]\<close> if it is set, and the
  private data of the callback.
\<close>

definition flow_at :: "sw_flow list \<Rightarrow> nat \<Rightarrow> sw_flow option" where
  "flow_at flows a = find (\<lambda>f. sf_addr f = a) flows"

fun linear_iterate_loop :: "sw_flow list \<Rightarrow> sw_flow_key \<Rightarrow> u16 \<Rightarrow> u64 \<Rightarrow> 's callback \<Rightarrow> nat list \<Rightarrow> 's
    \<Rightarrow> (int \<times> u64 option \<times> 's) option" where
  "linear_iterate_loop flows key out_port start callback [] s = Some (0, None, s)"
| "linear_iterate_loop flows key out_port start callback (a # as) s =
     (case flow_at flows a of
        None \<Rightarrow> None
      | Some flow \<Rightarrow>
          if sf_serial flow \<le> start \<and> flow_matches_2wild key (sf_key flow) then
            (case flow_has_out_port flow out_port of
               None \<Rightarrow> None
             | Some True \<Rightarrow>
                 (let (error, s') = callback flow s
                  in if error \<noteq> 0 then Some (error, Some (NOT (sf_serial flow - 1)), s')
                     else linear_iterate_loop flows key out_port start callback as s')
             | Some False \<Rightarrow> linear_iterate_loop flows key out_port start callback as s)
          else linear_iterate_loop flows key out_port start callback as s)"

definition table_linear_iterate ::
  "sw_table_linear \<Rightarrow> sw_flow_key \<Rightarrow> u16 \<Rightarrow> sw_table_position \<Rightarrow> 's callback \<Rightarrow> 's
    \<Rightarrow> (int \<times> sw_table_position \<times> 's) option" where
  "table_linear_iterate tbl key out_port position callback s =
     map_option (\<lambda>(error, p, s').
         (error, (case p of None \<Rightarrow> position | Some v \<Rightarrow> position\<lparr>pos0 := v\<rparr>), s'))
       (linear_iterate_loop (tl_flows tbl) key out_port (NOT (pos0 position)) callback
          (tl_iter_flows tbl) s)"

definition table_linear_stats :: "sw_table_linear \<Rightarrow> sw_table_stats" where
  "table_linear_stats tbl =
     \<lparr>st_name = ''linear'', st_wildcards = OFPFW_ALL, st_n_flows = tl_n_flows tbl,
      st_max_flows = tl_max_flows tbl, st_n_lookup = tl_n_lookup tbl,
      st_n_matched = tl_n_matched tbl\<rparr>"

definition table_linear_create :: "bool \<Rightarrow> u32 \<Rightarrow> sw_table_linear option" where
  "table_linear_create ok max_flows =
     (if \<not> ok then None
      else Some \<lparr>tl_n_lookup = 0, tl_n_matched = 0, tl_max_flows = max_flows, tl_n_flows = 0,
                 tl_flows = [], tl_iter_flows = [], tl_next_serial = 0\<rparr>)"

section \<open>Invariant\<close>

definition serial_desc :: "sw_flow list \<Rightarrow> nat \<Rightarrow> nat \<Rightarrow> bool" where
  "serial_desc flows a b \<longleftrightarrow> (\<forall>f\<in>set flows. \<forall>g\<in>set flows.
     sf_addr f = a \<longrightarrow> sf_addr g = b \<longrightarrow> sf_serial g < sf_serial f)"

definition linear_inv :: "sw_table_linear \<Rightarrow> bool" where
  "linear_inv tbl \<longleftrightarrow>
     sorted_wrt (\<lambda>f g. sf_priority g \<le> sf_priority f) (tl_flows tbl)
     \<and> (\<forall>f\<in>set (tl_flows tbl). entry_ok f)
     \<and> distinct (map sf_addr (tl_flows tbl)) \<and> distinct (tl_iter_flows tbl)
     \<and> set (tl_iter_flows tbl) = sf_addr ` set (tl_flows tbl)
     \<and> unat (tl_n_flows tbl) = length (tl_flows tbl) \<and> tl_n_flows tbl \<le> tl_max_flows tbl
     \<and> (\<forall>f\<in>set (tl_flows tbl). sf_serial f < tl_next_serial tbl)
     \<and> sorted_wrt (serial_desc (tl_flows tbl)) (tl_iter_flows tbl)"

text \<open>An entry that may be added: a new object, and the serial numbers are not used up.\<close>

definition linear_addable :: "sw_table_linear \<Rightarrow> sw_flow \<Rightarrow> bool" where
  "linear_addable tbl f \<longleftrightarrow> entry_ok f \<and> sf_addr f \<notin> sf_addr ` set (tl_flows tbl)
     \<and> tl_next_serial tbl \<noteq> - 1"

lemma linear_invI:
  assumes "sorted_wrt (\<lambda>f g. sf_priority g \<le> sf_priority f) (tl_flows tbl)"
    and "\<And>f. f \<in> set (tl_flows tbl) \<Longrightarrow> entry_ok f"
    and "distinct (map sf_addr (tl_flows tbl))" "distinct (tl_iter_flows tbl)"
    and "set (tl_iter_flows tbl) = sf_addr ` set (tl_flows tbl)"
    and "unat (tl_n_flows tbl) = length (tl_flows tbl)" "tl_n_flows tbl \<le> tl_max_flows tbl"
    and "\<And>f. f \<in> set (tl_flows tbl) \<Longrightarrow> sf_serial f < tl_next_serial tbl"
    and "sorted_wrt (serial_desc (tl_flows tbl)) (tl_iter_flows tbl)"
  shows "linear_inv tbl"
  using assms by (simp add: linear_inv_def)

lemma linear_invD:
  assumes "linear_inv tbl"
  shows "sorted_wrt (\<lambda>f g. sf_priority g \<le> sf_priority f) (tl_flows tbl)"
    and "\<And>f. f \<in> set (tl_flows tbl) \<Longrightarrow> entry_ok f"
    and "distinct (map sf_addr (tl_flows tbl))" "distinct (tl_iter_flows tbl)"
    and "set (tl_iter_flows tbl) = sf_addr ` set (tl_flows tbl)"
    and "unat (tl_n_flows tbl) = length (tl_flows tbl)" "tl_n_flows tbl \<le> tl_max_flows tbl"
    and "\<And>f. f \<in> set (tl_flows tbl) \<Longrightarrow> sf_serial f < tl_next_serial tbl"
    and "sorted_wrt (serial_desc (tl_flows tbl)) (tl_iter_flows tbl)"
  using assms by (simp_all add: linear_inv_def)

lemma linear_create_inv: "table_linear_create ok m = Some tbl \<Longrightarrow> linear_inv tbl"
  by (auto simp: table_linear_create_def linear_inv_def split: if_splits)

lemma flow_at_eq:
  assumes "distinct (map sf_addr flows)"
  shows "flow_at flows a = Some f \<longleftrightarrow> f \<in> set flows \<and> sf_addr f = a"
  using assms by (induction flows) (auto simp: flow_at_def)

section \<open>Lookup\<close>

lemma first_match_split:
  "first_match key flows = Some f \<Longrightarrow> \<exists>us vs. flows = us @ f # vs \<and> entry_matches key f
     \<and> (\<forall>g\<in>set us. \<not> entry_matches key g)"
proof (induction flows)
  case (Cons g flows)
  show ?case
  proof (cases "entry_matches key g")
    case True
    with Cons.prems show ?thesis by (intro exI [of _ "[]"] exI [of _ flows]) simp
  next
    case False
    with Cons obtain us vs where "flows = us @ f # vs" "entry_matches key f"
      "\<forall>g\<in>set us. \<not> entry_matches key g" by auto
    with False show ?thesis by (intro exI [of _ "g # us"] exI [of _ vs]) simp
  qed
qed simp

lemma first_match_None: "first_match key flows = None \<longleftrightarrow> (\<forall>f\<in>set flows. \<not> entry_matches key f)"
  by (induction flows) auto

lemma first_match_append:
  "first_match key (us @ vs) = (case first_match key us of None \<Rightarrow> first_match key vs | Some f \<Rightarrow> Some f)"
  by (induction us) auto

lemma lookup_highest_priority:
  assumes inv: "linear_inv tbl" and l: "table_linear_lookup tbl key = Some f"
    and g: "g \<in> set (tl_flows tbl)" "entry_matches key g"
  shows "sf_priority g \<le> sf_priority f"
proof -
  obtain us vs where s: "tl_flows tbl = us @ f # vs" "\<forall>h\<in>set us. \<not> entry_matches key h"
    using first_match_split l unfolding table_linear_lookup_def by blast
  then have "g = f \<or> g \<in> set vs" using g by auto
  then show ?thesis
    using linear_invD(1) [OF inv] s(1) by (auto simp: sorted_wrt_append)
qed

section \<open>Insertion\<close>

lemma insert_scan_split:
  assumes "insert_scan flow passed fs = (ps, old, rs)"
  shows "\<exists>ms. ps = passed @ ms \<and> fs = ms @ (case old of None \<Rightarrow> rs | Some f \<Rightarrow> f # rs)
    \<and> (\<forall>g\<in>set ms. \<not> replaces flow g \<and> sf_priority flow \<le> sf_priority g)
    \<and> (case old of None \<Rightarrow> rs = [] \<or> sf_priority (hd rs) < sf_priority flow
        | Some f \<Rightarrow> replaces flow f)"
  using assms
proof (induction fs arbitrary: passed)
  case (Cons f fs)
  show ?case
  proof (cases "replaces flow f \<or> sf_priority f < sf_priority flow")
    case True
    then show ?thesis using Cons.prems by (auto split: if_splits)
  next
    case False
    then have "insert_scan flow (passed @ [f]) fs = (ps, old, rs)" using Cons.prems by simp
    from Cons.IH [OF this] obtain ms where "ps = (passed @ [f]) @ ms"
      "fs = ms @ (case old of None \<Rightarrow> rs | Some f \<Rightarrow> f # rs)"
      "\<forall>g\<in>set ms. \<not> replaces flow g \<and> sf_priority flow \<le> sf_priority g"
      "case old of None \<Rightarrow> rs = [] \<or> sf_priority (hd rs) < sf_priority flow | Some f \<Rightarrow> replaces flow f"
      by blast
    with False show ?thesis
      by (intro exI [of _ "f # ms"]) auto
  qed
qed simp

text \<open>The three outcomes of an insertion.\<close>

lemma linear_insert_cases [consumes 1, case_names replaced full added]:
  assumes "table_linear_insert tbl flow = (ok, tbl')"
  obtains us f vs where "tl_flows tbl = us @ f # vs" "replaces flow f"
      "\<forall>g\<in>set us. \<not> replaces flow g \<and> sf_priority flow \<le> sf_priority g" "ok"
      "tbl' = tbl\<lparr>tl_flows := us @ flow\<lparr>sf_serial := sf_serial f\<rparr> # vs,
         tl_iter_flows := map (\<lambda>a. if a = sf_addr f then sf_addr flow else a) (tl_iter_flows tbl)\<rparr>"
    | "tl_max_flows tbl \<le> tl_n_flows tbl" "\<not> ok" "tbl' = tbl"
    | us vs where "tl_flows tbl = us @ vs" "tl_n_flows tbl < tl_max_flows tbl" "ok"
      "\<forall>g\<in>set us. \<not> replaces flow g \<and> sf_priority flow \<le> sf_priority g"
      "vs = [] \<or> sf_priority (hd vs) < sf_priority flow"
      "tbl' = tbl\<lparr>tl_n_flows := tl_n_flows tbl + 1,
         tl_flows := us @ flow\<lparr>sf_serial := tl_next_serial tbl\<rparr> # vs,
         tl_iter_flows := sf_addr flow # tl_iter_flows tbl,
         tl_next_serial := tl_next_serial tbl + 1\<rparr>"
proof -
  obtain ps old rs where scan: "insert_scan flow [] (tl_flows tbl) = (ps, old, rs)"
    by (metis prod_cases3)
  note sp = insert_scan_split [OF scan]
  show thesis
  proof (cases old)
    case None
    then have f: "tl_flows tbl = ps @ rs" "rs = [] \<or> sf_priority (hd rs) < sf_priority flow"
      "\<forall>g\<in>set ps. \<not> replaces flow g \<and> sf_priority flow \<le> sf_priority g"
      using sp by auto
    show ?thesis
    proof (cases "tl_max_flows tbl \<le> tl_n_flows tbl")
      case True
      then show ?thesis using assms scan None by (intro that(2)) (simp_all add: table_linear_insert_def)
    next
      case False
      then show ?thesis
        using assms scan None by (intro that(3) [OF f(1) _ _ f(3,2)]) (simp_all add: table_linear_insert_def)
    qed
  next
    case (Some f)
    then have f: "tl_flows tbl = ps @ f # rs" "replaces flow f"
      "\<forall>g\<in>set ps. \<not> replaces flow g \<and> sf_priority flow \<le> sf_priority g"
      using sp by auto
    show ?thesis
      using assms scan Some by (intro that(1) [OF f]) (simp_all add: table_linear_insert_def)
  qed
qed

lemma serial_desc_subset:
  "set flows' \<subseteq> set flows \<Longrightarrow> serial_desc flows a b \<Longrightarrow> serial_desc flows' a b"
  by (auto simp: serial_desc_def)

lemma less_add_1: "(x :: u64) \<noteq> - 1 \<Longrightarrow> y < x \<Longrightarrow> y < x + 1" "(x :: u64) \<noteq> - 1 \<Longrightarrow> x < x + 1"
proof -
  assume "x \<noteq> - 1"
  then have "unat x \<noteq> unat (- 1 :: u64)" by (simp only: word_unat_eq_iff) simp
  moreover have "unat x < 2 ^ 64"
    using unsigned_less [of x, where ?'a = nat] by simp
  ultimately have "unat x < 2 ^ 64 - 1"
    by (simp add: unsigned_minus_1_eq_mask mask_eq_exp_minus_1)
  then have "unat (x + 1) = unat x + 1"
    by (simp add: unat_word_ariths(1))
  then show "x < x + 1" "y < x \<Longrightarrow> y < x + 1"
    by (simp_all add: word_less_nat_alt)
qed

lemma entry_ok_serial [simp]: "entry_ok (f\<lparr>sf_serial := s\<rparr>) = entry_ok f"
  by (simp add: entry_ok_def)

lemma replaced_serials:
  assumes d: "distinct (map sf_addr (us @ f # vs))" and fresh: "sf_addr flow \<notin> sf_addr ` set (us @ f # vs)"
    and s: "serial_desc (us @ f # vs) x y" and xy: "x \<in> sf_addr ` set (us @ f # vs)" "y \<in> sf_addr ` set (us @ f # vs)"
  shows "serial_desc (us @ flow\<lparr>sf_serial := sf_serial f\<rparr> # vs)
    (if x = sf_addr f then sf_addr flow else x) (if y = sf_addr f then sf_addr flow else y)"
proof -
  define orig where "orig h = (if h = flow\<lparr>sf_serial := sf_serial f\<rparr> then f else h)" for h
  have orig: "orig h \<in> set (us @ f # vs) \<and> sf_serial (orig h) = sf_serial h \<and> sf_addr (orig h) = z"
    if "h \<in> set (us @ flow\<lparr>sf_serial := sf_serial f\<rparr> # vs)"
      "sf_addr h = (if z = sf_addr f then sf_addr flow else z)" "z \<in> sf_addr ` set (us @ f # vs)" for h z
  proof (cases "h = flow\<lparr>sf_serial := sf_serial f\<rparr>")
    case True
    then show ?thesis using that fresh by (auto simp: orig_def split: if_splits)
  next
    case False
    then have h: "h \<in> set us \<union> set vs" using that(1) by auto
    then have "z \<noteq> sf_addr f" using that(2) fresh by (metis UnE Un_iff image_eqI list.set_intros(2) set_append)
    then show ?thesis using False h that(2) by (auto simp: orig_def)
  qed
  show ?thesis
    unfolding serial_desc_def
  proof (intro ballI impI)
    fix g h
    assume "g \<in> set (us @ flow\<lparr>sf_serial := sf_serial f\<rparr> # vs)" "h \<in> set (us @ flow\<lparr>sf_serial := sf_serial f\<rparr> # vs)"
      "sf_addr g = (if x = sf_addr f then sf_addr flow else x)"
      "sf_addr h = (if y = sf_addr f then sf_addr flow else y)"
    then have "orig g \<in> set (us @ f # vs)" "sf_serial (orig g) = sf_serial g" "sf_addr (orig g) = x"
      "orig h \<in> set (us @ f # vs)" "sf_serial (orig h) = sf_serial h" "sf_addr (orig h) = y"
      using orig [of g x] orig [of h y] xy by blast+
    then show "sf_serial h < sf_serial g"
      using s unfolding serial_desc_def by metis
  qed
qed

lemma serial_desc_insert:
  "serial_desc (us @ vs) a b \<Longrightarrow> a \<noteq> sf_addr x \<Longrightarrow> b \<noteq> sf_addr x \<Longrightarrow> serial_desc (us @ x # vs) a b"
  by (auto simp: serial_desc_def)

lemma linear_insert_inv:
  assumes inv: "linear_inv tbl" and add: "linear_addable tbl flow"
  shows "linear_inv (snd (table_linear_insert tbl flow))"
proof -
  note I = linear_invD [OF inv]
  obtain ok tbl' where r: "table_linear_insert tbl flow = (ok, tbl')" by fastforce
  from r have "linear_inv tbl'"
  proof (cases rule: linear_insert_cases)
    case (replaced us f vs)
    have serials: "sorted_wrt (serial_desc (tl_flows tbl')) (tl_iter_flows tbl')"
    proof -
      have "sorted_wrt (\<lambda>x y. serial_desc (tl_flows tbl') (if x = sf_addr f then sf_addr flow else x)
          (if y = sf_addr f then sf_addr flow else y)) (tl_iter_flows tbl)"
        by (rule sorted_wrt_mono_rel [OF _ I(9)])
           (use I(3,5) add replaced(1,5) in \<open>simp add: replaced_serials linear_addable_def\<close>)
      then show ?thesis using replaced(5) by (simp add: sorted_wrt_map)
    qed
    have pr: "sf_priority flow = sf_priority f" using replaced(2) by (simp add: replaces_def)
    have it: "set (tl_iter_flows tbl') = sf_addr ` set (tl_flows tbl')"
      using I(3,5) replaced(1,5) by (auto simp: image_iff)
    show ?thesis
    proof (rule linear_invI)
      show "sorted_wrt (\<lambda>f g. sf_priority g \<le> sf_priority f) (tl_flows tbl')"
        using I(1) replaced(1,5) pr by (simp add: sorted_wrt_append)
      show "distinct (map sf_addr (tl_flows tbl'))"
        using I(3) add replaced(1,5) by (auto simp: linear_addable_def)
      show "distinct (tl_iter_flows tbl')"
      proof -
        have "sf_addr flow \<notin> set (tl_iter_flows tbl)"
          using add I(5) by (simp add: linear_addable_def)
        then show ?thesis
          using I(4) replaced(5) by (auto simp: distinct_map inj_on_def)
      qed
    qed (use I add replaced(1,5) serials it in \<open>auto simp: linear_addable_def entry_ok_def\<close>)
  next
    case full
    then show ?thesis using inv by simp
  next
    case (added us vs)
    have n: "unat (tl_n_flows tbl + 1) = unat (tl_n_flows tbl) + 1" "tl_n_flows tbl + 1 \<le> tl_max_flows tbl"
      using added(2) unat_u32_bound [of "tl_max_flows tbl"]
      by (simp_all add: unat_word_ariths word_less_nat_alt word_le_nat_alt)
    have low: "g \<in> set vs \<Longrightarrow> sf_priority g \<le> sf_priority flow" for g
      using I(1) added(1,5) by (cases vs) (auto simp: sorted_wrt_append)
    have fresh: "sf_addr flow \<notin> sf_addr ` set (us @ vs)" "tl_next_serial tbl \<noteq> - 1" "entry_ok flow"
      using add added(1) by (simp_all add: linear_addable_def)
    have ne: "sf_addr f \<noteq> sf_addr flow" if "f \<in> set us \<union> set vs" for f
      using fresh(1) that by (metis imageI set_append)
    have old: "f \<in> set us \<union> set vs \<Longrightarrow> sf_serial f < tl_next_serial tbl" for f
      using I(8) added(1) by auto
    show ?thesis
    proof (rule linear_invI)
      show "sorted_wrt (\<lambda>f g. sf_priority g \<le> sf_priority f) (tl_flows tbl')"
        using I(1) added(1,4,6) low by (auto simp: sorted_wrt_append)
      show "sorted_wrt (serial_desc (tl_flows tbl')) (tl_iter_flows tbl')"
      proof -
        have it: "y \<noteq> sf_addr flow" if "y \<in> set (tl_iter_flows tbl)" for y
          using that I(5) added(1) ne by fastforce
        then have "serial_desc (tl_flows tbl') (sf_addr flow) y" if "y \<in> set (tl_iter_flows tbl)" for y
          using that added(6) ne old by (auto simp: serial_desc_def)
        moreover have "sorted_wrt (serial_desc (tl_flows tbl')) (tl_iter_flows tbl)"
          by (rule sorted_wrt_mono_rel [OF _ I(9)])
             (use added(1,6) it in \<open>simp add: serial_desc_insert\<close>)
        ultimately show ?thesis using added(6) by simp
      qed
      show "sf_serial f < tl_next_serial tbl'" if "f \<in> set (tl_flows tbl')" for f
        using that added(6) fresh(2) old by (auto simp: less_add_1)
    qed (use I added(1,6) n fresh in auto)
  qed
  with r show ?thesis by simp
qed

lemma linear_insert_fail: "\<not> fst (table_linear_insert tbl flow) \<Longrightarrow> snd (table_linear_insert tbl flow) = tbl"
  by (auto simp: table_linear_insert_def split: prod.splits option.splits if_splits)

lemma linear_insert_entries:
  assumes inv: "linear_inv tbl" and add: "linear_addable tbl flow"
    and ok: "fst (table_linear_insert tbl flow)"
  shows "\<exists>s old. flow\<lparr>sf_serial := s\<rparr> \<in> set (tl_flows (snd (table_linear_insert tbl flow)))
    \<and> mset (tl_flows (snd (table_linear_insert tbl flow))) + mset old
        = mset (tl_flows tbl) + {#flow\<lparr>sf_serial := s\<rparr>#}
    \<and> length old \<le> 1 \<and> (\<forall>g\<in>set old. \<forall>p. packet_key p \<longrightarrow> entry_matches p g = entry_matches p flow)"
proof -
  obtain tbl' where r: "table_linear_insert tbl flow = (True, tbl')"
    using ok by (metis prod.collapse eq_True)
  from r show ?thesis
  proof (cases rule: linear_insert_cases)
    case (replaced us f vs)
    have "key_ok (sf_key f)" "key_ok (sf_key flow)"
      using linear_invD(2) [OF inv, of f] add replaced(1)
      by (simp_all add: entry_ok_def linear_addable_def)
    then have "entry_matches p f = entry_matches p flow" for p
      using replaced(2) same_wildcards_overlap [of "sf_key f" "sf_key flow"] by (simp add: replaces_def)
    then show ?thesis
      using r replaced(1,5)
      by (intro exI [of _ "sf_serial f"] exI [of _ "[f]"]) simp
  next
    case (added us vs)
    then show ?thesis
      using r by (intro exI [of _ "tl_next_serial tbl"] exI [of _ "[]"]) simp
  qed simp
qed

lemma linear_insert_frame:
  assumes inv: "linear_inv tbl" and add: "linear_addable tbl flow"
    and p: "\<not> entry_matches p flow"
  shows "table_linear_lookup (snd (table_linear_insert tbl flow)) p = table_linear_lookup tbl p"
proof -
  obtain ok tbl' where r: "table_linear_insert tbl flow = (ok, tbl')" by fastforce
  from r have "table_linear_lookup tbl' p = table_linear_lookup tbl p"
  proof (cases rule: linear_insert_cases)
    case (replaced us f vs)
    have "key_ok (sf_key f)" "key_ok (sf_key flow)"
      using linear_invD(2) [OF inv, of f] add replaced(1)
      by (simp_all add: entry_ok_def linear_addable_def)
    then have "\<not> entry_matches p f"
      using p replaced(2) same_wildcards_overlap [of "sf_key f" "sf_key flow"] by (simp add: replaces_def)
    then show ?thesis
      using p replaced(1,5) by (simp add: table_linear_lookup_def first_match_append split: option.split)
  next
    case (added us vs)
    then show ?thesis
      using p by (simp add: table_linear_lookup_def first_match_append split: option.split)
  qed simp
  with r show ?thesis by simp
qed

text \<open>A new entry goes behind those of its priority.\<close>

lemma insert_behind_equals:
  assumes inv: "linear_inv tbl" and r: "table_linear_insert tbl flow = (True, tbl')"
    and new: "\<forall>f\<in>set (tl_flows tbl). \<not> replaces flow f"
  shows "filter (\<lambda>f. sf_priority f = q) (tl_flows tbl') =
     filter (\<lambda>f. sf_priority f = q) (tl_flows tbl) @
     (if q = sf_priority flow then [flow\<lparr>sf_serial := tl_next_serial tbl\<rparr>] else [])"
  using r
proof (cases rule: linear_insert_cases)
  case (added us vs)
  have "sf_priority g < sf_priority flow" if "g \<in> set vs" for g
    using linear_invD(1) [OF inv] added(1,5) that by (cases vs) (auto simp: sorted_wrt_append)
  then have "\<forall>g\<in>set vs. sf_priority g \<noteq> sf_priority flow"
    using less_irrefl by fastforce
  then have "filter (\<lambda>f. sf_priority f = sf_priority flow) vs = []"
    by simp
  then show ?thesis using added(1,6) by auto
next
  case (replaced us f vs)
  then show ?thesis using new by simp
qed simp

section \<open>Modification, deletion, time-out\<close>

lemma modify_loop_eq:
  "modify_loop sel alloc actions flows c =
     (c + of_nat (length (filter sel flows)),
      map (\<lambda>f. if sel f then flow_replace_acts (alloc (sf_addr f)) f actions else f) flows)"
  by (induction flows arbitrary: c) (simp_all add: add.assoc)

lemma table_linear_modify_eq:
  "table_linear_modify alloc tbl key priority strict actions =
     (of_nat (length (filter (linear_modifies key priority strict) (tl_flows tbl))),
      tbl\<lparr>tl_flows := map (\<lambda>f. if linear_modifies key priority strict f
          then flow_replace_acts (alloc (sf_addr f)) f actions else f) (tl_flows tbl)\<rparr>)"
  by (simp add: table_linear_modify_def modify_loop_eq)

lemma replace_acts_sel [simp]:
  "sf_addr (flow_replace_acts ok f acts) = sf_addr f" "sf_key (flow_replace_acts ok f acts) = sf_key f"
  "sf_priority (flow_replace_acts ok f acts) = sf_priority f"
  "sf_serial (flow_replace_acts ok f acts) = sf_serial f"
  by (simp_all add: flow_replace_acts_def)

lemma linear_inv_map:
  assumes inv: "linear_inv tbl"
    and r: "\<And>f. sf_addr (r f) = sf_addr f" "\<And>f. sf_priority (r f) = sf_priority f"
      "\<And>f. sf_serial (r f) = sf_serial f" "\<And>f. f \<in> set (tl_flows tbl) \<Longrightarrow> entry_ok (r f)"
  shows "linear_inv (tbl\<lparr>tl_flows := map r (tl_flows tbl)\<rparr>)"
proof -
  note I = linear_invD [OF inv]
  have "serial_desc (map r (tl_flows tbl)) = serial_desc (tl_flows tbl)"
    by (intro ext) (simp add: serial_desc_def r)
  then show ?thesis
    using I r by (intro linear_invI) (auto simp: sorted_wrt_map image_image comp_def)
qed

lemma linear_modify_inv:
  assumes inv: "linear_inv tbl" and acts: "wf_acts actions"
  shows "linear_inv (snd (table_linear_modify alloc tbl key priority strict actions))"
  unfolding table_linear_modify_eq snd_conv
  by (rule linear_inv_map [OF inv])
     (use linear_invD(2) [OF inv] acts in \<open>auto simp: entry_ok_def flow_replace_acts_def\<close>)

text \<open>The entries that a deletion selects.\<close>

definition linear_deletes :: "sw_flow_key \<Rightarrow> u16 \<Rightarrow> u16 \<Rightarrow> bool \<Rightarrow> sw_flow \<Rightarrow> bool" where
  "linear_deletes key out_port priority strict f \<longleftrightarrow> flow_matches_desc (sf_key f) key strict
     \<and> flow_has_out_port f out_port = Some True \<and> (\<not> strict \<or> sf_priority f = priority)"

lemma linear_delete_loop_eq:
  assumes "\<forall>f\<in>set flows. wf_acts (sf_acts f)"
  shows "linear_delete_loop key out_port priority strict flows iter c =
    Some (c + of_nat (length (filter (linear_deletes key out_port priority strict) flows)),
      filter (\<lambda>f. \<not> linear_deletes key out_port priority strict f) flows,
      filter (\<lambda>a. a \<notin> sf_addr ` set (filter (linear_deletes key out_port priority strict) flows)) iter,
      filter (linear_deletes key out_port priority strict) flows)"
  using assms
proof (induction flows arbitrary: iter c)
  case (Cons f flows)
  obtain has where h: "flow_has_out_port f out_port = Some has"
    using flow_has_out_port_total Cons.prems by fastforce
  show ?case
    using Cons h by (auto simp: linear_deletes_def linear_do_delete_def conj_commute)
qed simp

lemma table_linear_delete_eq:
  fixes key out_port priority strict
  assumes "linear_inv tbl"
  defines "sel \<equiv> linear_deletes key out_port priority strict"
  shows "table_linear_delete tbl key out_port priority strict =
    Some (of_nat (length (filter sel (tl_flows tbl))),
      tbl\<lparr>tl_flows := filter (\<lambda>f. \<not> sel f) (tl_flows tbl),
         tl_iter_flows := filter (\<lambda>a. a \<notin> sf_addr ` set (filter sel (tl_flows tbl))) (tl_iter_flows tbl),
         tl_n_flows := tl_n_flows tbl - of_nat (length (filter sel (tl_flows tbl)))\<rparr>,
      filter sel (tl_flows tbl))"
proof -
  have "\<forall>f\<in>set (tl_flows tbl). wf_acts (sf_acts f)"
    using linear_invD(2) [OF assms(1)] by (simp add: entry_ok_def)
  then show ?thesis
    by (simp add: table_linear_delete_def linear_delete_loop_eq sel_def)
qed

text \<open>Removing the selected entries from both lists and from the count keeps the invariant.\<close>

lemma linear_inv_filter:
  assumes inv: "linear_inv tbl"
  shows "linear_inv (tbl\<lparr>tl_flows := filter (\<lambda>f. \<not> sel f) (tl_flows tbl),
     tl_iter_flows := filter (\<lambda>a. a \<notin> sf_addr ` set (filter sel (tl_flows tbl))) (tl_iter_flows tbl),
     tl_n_flows := tl_n_flows tbl - of_nat (length (filter sel (tl_flows tbl)))\<rparr>)"
proof -
  note I = linear_invD [OF inv]
  let ?n = "length (filter sel (tl_flows tbl))"
  have len: "length (filter (\<lambda>f. \<not> sel f) (tl_flows tbl)) + ?n = length (tl_flows tbl)"
    using sum_length_filter_compl [of sel "tl_flows tbl"] by simp
  have u: "unat (of_nat ?n :: u32) = ?n"
    using len I(6) unat_u32_bound [of "tl_n_flows tbl"] by (simp add: unat_of_nat)
  then have n: "unat (tl_n_flows tbl - of_nat ?n) = unat (tl_n_flows tbl) - ?n"
    using len I(6) by (simp add: unat_sub word_le_nat_alt)
  have inj: "inj_on sf_addr (set (tl_flows tbl))" using I(3) by (simp add: distinct_map)
  let ?t = "tbl\<lparr>tl_flows := filter (\<lambda>f. \<not> sel f) (tl_flows tbl),
     tl_iter_flows := filter (\<lambda>a. a \<notin> sf_addr ` set (filter sel (tl_flows tbl))) (tl_iter_flows tbl),
     tl_n_flows := tl_n_flows tbl - of_nat ?n\<rparr>"
  show ?thesis
  proof (rule linear_invI)
    show "sorted_wrt (\<lambda>f g. sf_priority g \<le> sf_priority f) (tl_flows ?t)"
      using I(1) by (simp add: sorted_wrt_filter)
    show "distinct (map sf_addr (tl_flows ?t))" "distinct (tl_iter_flows ?t)"
      using I(3,4) by (simp_all add: distinct_map_filter)
    show "set (tl_iter_flows ?t) = sf_addr ` set (tl_flows ?t)"
      using I(5) inj by (auto simp: inj_on_def)
    show "unat (tl_n_flows ?t) = length (tl_flows ?t)"
      using n len I(6) by simp
    show "tl_n_flows ?t \<le> tl_max_flows ?t"
      using n I(7) by (simp add: word_le_nat_alt)
    have "sorted_wrt (serial_desc (tl_flows ?t)) (tl_iter_flows tbl)"
      by (rule sorted_wrt_mono_rel [OF _ I(9)]) (auto intro: serial_desc_subset)
    then show "sorted_wrt (serial_desc (tl_flows ?t)) (tl_iter_flows ?t)"
      by (simp add: sorted_wrt_filter)
  qed (use I(2,8) in auto)
qed

lemma linear_timeout_loop_eq:
  fixes now :: u64
  defines "out \<equiv> \<lambda>f. fst (flow_timeout now f)"
  shows "linear_timeout_loop now flows iter n d =
    (filter (\<lambda>f. \<not> out f) flows, filter (\<lambda>a. a \<notin> sf_addr ` set (filter out flows)) iter,
     n - of_nat (length (filter out flows)), d @ map (snd \<circ> flow_timeout now) (filter out flows))"
proof (induction flows arbitrary: iter n d)
  case (Cons f flows)
  obtain b f' where t: "flow_timeout now f = (b, f')" by fastforce
  then have "\<not> b \<Longrightarrow> f' = f" using flow_timeout_False [of now f] by simp
  with t Cons show ?case
    by (cases b) (auto simp: out_def conj_commute diff_diff_eq)
qed simp

lemma table_linear_timeout_eq:
  fixes now :: u64
  defines "out \<equiv> \<lambda>f. fst (flow_timeout now f)"
  shows "table_linear_timeout now tbl d =
    (tbl\<lparr>tl_flows := filter (\<lambda>f. \<not> out f) (tl_flows tbl),
        tl_iter_flows := filter (\<lambda>a. a \<notin> sf_addr ` set (filter out (tl_flows tbl))) (tl_iter_flows tbl),
        tl_n_flows := tl_n_flows tbl - of_nat (length (filter out (tl_flows tbl)))\<rparr>,
     d @ map (snd \<circ> flow_timeout now) (filter out (tl_flows tbl)))"
  by (simp add: table_linear_timeout_def linear_timeout_loop_eq out_def)

lemma length_filter_u32:
  assumes "linear_inv tbl"
  shows "unat (of_nat (length (filter P (tl_flows tbl))) :: u32) = length (filter P (tl_flows tbl))"
proof -
  have "length (filter P (tl_flows tbl)) < 4294967296"
    using linear_invD(6) [OF assms] unat_u32_bound [of "tl_n_flows tbl"]
      length_filter_le [of P "tl_flows tbl"] by linarith
  then show ?thesis by (simp add: unat_of_nat)
qed

section \<open>The linear table is a flow table\<close>

interpretation linear: flow_table linear_inv linear_addable tl_flows table_linear_lookup
  table_linear_insert table_linear_delete table_linear_timeout
proof
  fix t f assume "linear_inv t" "f \<in> set (tl_flows t)"
  then show "entry_ok f" by (rule linear_invD(2))
next
  fix t p f assume "table_linear_lookup t p = Some f"
  then show "f \<in> set (tl_flows t) \<and> entry_matches p f"
    using first_match_split [of p "tl_flows t" f] by (auto simp: table_linear_lookup_def)
next
  fix t p f assume "table_linear_lookup t p = None" "f \<in> set (tl_flows t)"
  then show "\<not> entry_matches p f" by (simp add: table_linear_lookup_def first_match_None)
next
  fix t k op pr st c t' ended
  assume "linear_inv t" "table_linear_delete t k op pr st = Some (c, t', ended)"
  then show "linear_inv t'"
    using linear_inv_filter [of t "linear_deletes k op pr st"] by (auto simp: table_linear_delete_eq)
next
  fix t k op pr st assume "linear_inv t"
  then show "table_linear_delete t k op pr st \<noteq> None" by (simp add: table_linear_delete_eq)
next
  fix t k op pr st c t' ended
  assume "linear_inv t" "table_linear_delete t k op pr st = Some (c, t', ended)"
  then show "mset (tl_flows t') + mset ended = mset (tl_flows t) \<and> unat c = length ended"
    by (auto simp: table_linear_delete_eq length_filter_u32)
next
  fix t now d assume "linear_inv t"
  then show "linear_inv (fst (table_linear_timeout now t d))"
    unfolding table_linear_timeout_eq fst_conv by (rule linear_inv_filter)
next
  fix t f assume "linear_inv t" "linear_addable t f" "fst (table_linear_insert t f)"
  then show "\<exists>s old. f\<lparr>sf_serial := s\<rparr> \<in> set (tl_flows (snd (table_linear_insert t f)))
    \<and> mset (tl_flows (snd (table_linear_insert t f))) + mset old = mset (tl_flows t) + {#f\<lparr>sf_serial := s\<rparr>#}
    \<and> length old \<le> 1 \<and> (\<forall>g\<in>set old. \<forall>p. packet_key p \<longrightarrow> entry_matches p g = entry_matches p f)"
    by (rule linear_insert_entries)
qed (simp_all add: linear_insert_inv linear_insert_fail linear_insert_frame table_linear_timeout_eq)

section \<open>Iteration\<close>

definition linear_selected :: "sw_table_linear \<Rightarrow> sw_flow_key \<Rightarrow> u16 \<Rightarrow> u64 \<Rightarrow> sw_flow list" where
  "linear_selected tbl key out_port start =
     filter (\<lambda>f. sf_serial f \<le> start \<and> flow_matches_2wild key (sf_key f)
         \<and> flow_has_out_port f out_port = Some True)
       (map (the \<circ> flow_at (tl_flows tbl)) (tl_iter_flows tbl))"

lemma linear_iterate_loop_eq:
  assumes d: "distinct (map sf_addr flows)" and wf: "\<forall>f\<in>set flows. wf_acts (sf_acts f)"
    and a: "set as \<subseteq> sf_addr ` set flows"
  shows "linear_iterate_loop flows key out_port start cb as s =
    (case run_callback cb (filter (\<lambda>f. sf_serial f \<le> start \<and> flow_matches_2wild key (sf_key f)
         \<and> flow_has_out_port f out_port = Some True) (map (the \<circ> flow_at flows) as)) s of
       (e, f, s') \<Rightarrow> Some (e, map_option (\<lambda>f. NOT (sf_serial f - 1)) f, s'))"
  using a
proof (induction as arbitrary: s)
  case (Cons a as)
  then obtain f where f: "flow_at flows a = Some f" "f \<in> set flows"
    using flow_at_eq [OF d] by auto
  then obtain has where "flow_has_out_port f out_port = Some has"
    using flow_has_out_port_total wf by fastforce
  with f Cons show ?case
    by (cases has) (auto split: prod.splits)
qed simp

lemma table_linear_iterate_eq:
  assumes "linear_inv tbl"
  shows "table_linear_iterate tbl key out_port position cb s =
    (case run_callback cb (linear_selected tbl key out_port (NOT (pos0 position))) s of
       (e, f, s') \<Rightarrow> Some (e, (case f of None \<Rightarrow> position
           | Some f \<Rightarrow> position\<lparr>pos0 := NOT (sf_serial f - 1)\<rparr>), s'))"
proof -
  note I = linear_invD [OF assms]
  have "\<forall>f\<in>set (tl_flows tbl). wf_acts (sf_acts f)" using I(2) by (simp add: entry_ok_def)
  from linear_iterate_loop_eq [OF I(3) this, of "tl_iter_flows tbl" key out_port "NOT (pos0 position)" cb s]
  show ?thesis
    using I(5) by (simp add: table_linear_iterate_def linear_selected_def split: prod.split option.split)
qed

lemma linear_iter_serials:
  assumes "linear_inv tbl"
  shows "sorted_wrt (\<lambda>f g. sf_serial g < sf_serial f) (map (the \<circ> flow_at (tl_flows tbl)) (tl_iter_flows tbl))"
proof -
  note I = linear_invD [OF assms]
  have at: "\<exists>f. flow_at (tl_flows tbl) a = Some f \<and> f \<in> set (tl_flows tbl) \<and> sf_addr f = a"
    if "a \<in> set (tl_iter_flows tbl)" for a
    using that I(5) flow_at_eq [OF I(3)] by auto
  show ?thesis
    unfolding sorted_wrt_map
    by (rule sorted_wrt_mono_rel [OF _ I(9)]) (metis at comp_apply option.sel serial_desc_def)
qed

lemma le_pred_iff: "(y :: u64) \<noteq> 0 \<Longrightarrow> x \<le> y - 1 \<longleftrightarrow> x < y"
proof -
  assume "y \<noteq> 0"
  then have nz: "unat y \<noteq> 0" by (simp add: unat_eq_zero)
  then have "1 \<le> y" by (simp add: word_le_nat_alt)
  then have "unat (y - 1) = unat y - 1" by (simp add: unat_sub)
  then show ?thesis using nz by (simp add: word_le_nat_alt word_less_nat_alt) linarith
qed

lemma linear_selected_resume:
  assumes inv: "linear_inv tbl" and sel: "linear_selected tbl key out_port start = us @ f # vs"
    and f: "sf_serial f \<noteq> 0"
  shows "linear_selected tbl key out_port (sf_serial f - 1) = vs"
proof -
  define L where "L = filter (\<lambda>f. flow_matches_2wild key (sf_key f) \<and> flow_has_out_port f out_port = Some True)
    (map (the \<circ> flow_at (tl_flows tbl)) (tl_iter_flows tbl))"
  have split: "linear_selected tbl key out_port n = filter (\<lambda>f. sf_serial f \<le> n) L" for n
    by (simp add: linear_selected_def L_def conj_commute)
  have sorted: "sorted_wrt (\<lambda>f g. sf_serial g < sf_serial f) (us @ f # vs)"
    using linear_iter_serials [OF inv] unfolding sel [symmetric] linear_selected_def
    by (rule sorted_wrt_filter)
  have "f \<in> set (filter (\<lambda>f. sf_serial f \<le> start) L)"
    using sel split by simp
  then have "filter (\<lambda>g. sf_serial g < sf_serial f) L
      = filter (\<lambda>g. sf_serial g < sf_serial f) (filter (\<lambda>f. sf_serial f \<le> start) L)"
    by (auto intro!: filter_cong)
  also have "\<dots> = filter (\<lambda>g. sf_serial g < sf_serial f) (us @ f # vs)"
    using sel split by simp
  also have "\<dots> = vs"
    using sorted by (auto simp: sorted_wrt_append filter_empty_conv filter_id_conv not_less less_imp_le)
  finally show ?thesis by (simp add: split le_pred_iff [OF f])
qed

section \<open>Properties\<close>

text \<open>
  C4. A lookup in the linear table returns an entry that matches, of the highest priority among
  all entries that match, and fails only if no entry matches.
\<close>

theorem linear_lookup_best:
  assumes "linear_inv tbl"
  shows "case table_linear_lookup tbl key of
      None \<Rightarrow> \<forall>f\<in>set (tl_flows tbl). \<not> entry_matches key f
    | Some f \<Rightarrow> f \<in> set (tl_flows tbl) \<and> entry_matches key f
        \<and> (\<forall>g\<in>set (tl_flows tbl). entry_matches key g \<longrightarrow> sf_priority g \<le> sf_priority f)"
proof (cases "table_linear_lookup tbl key")
  case None
  then have "\<forall>f\<in>set (tl_flows tbl). \<not> entry_matches key f"
    by (simp add: table_linear_lookup_def first_match_None)
  with None show ?thesis by simp
next
  case (Some f)
  then show ?thesis
    using first_match_split [of key "tl_flows tbl" f] lookup_highest_priority [OF assms Some]
    by (auto simp: table_linear_lookup_def)
qed

text \<open>
  C6. Every operation keeps the invariant of the linear table: the entries in the order of their
  priorities, both lists linking the same objects, \<^verbatim>\<open>n_flows\<close> their number and within
  \<^verbatim>\<open>max_flows\<close>, and the serial numbers falling along the iteration list. A deletion returns.
\<close>

theorem linear_operations_keep_invariant:
  assumes "linear_inv tbl"
  shows "(linear_addable tbl flow \<longrightarrow> linear_inv (snd (table_linear_insert tbl flow)))
    \<and> (wf_acts actions \<longrightarrow> linear_inv (snd (table_linear_modify alloc tbl key priority strict actions)))
    \<and> (\<exists>c tbl' ended. table_linear_delete tbl key out_port priority strict = Some (c, tbl', ended)
         \<and> linear_inv tbl')
    \<and> linear_inv (fst (table_linear_timeout now tbl deleted))"
  using assms linear.delete_total [OF assms, of key out_port priority strict]
    linear.delete_inv [OF assms, of key out_port priority strict]
  by (auto simp: linear_insert_inv linear_modify_inv linear.timeout_inv)

text \<open>
  A deletion removes exactly the entries that match the description (and, if it is strict, have
  its wildcards and priority) and output to the port, keeps the others in their order, reports
  each removed entry to the datapath in table order, and returns their number.
\<close>

theorem linear_delete_exact:
  fixes key out_port priority strict
  assumes "linear_inv tbl"
  defines "sel \<equiv> \<lambda>f. flow_matches_desc (sf_key f) key strict
    \<and> flow_has_out_port f out_port = Some True \<and> (\<not> strict \<or> sf_priority f = priority)"
  shows "\<exists>c tbl'. table_linear_delete tbl key out_port priority strict
        = Some (c, tbl', filter sel (tl_flows tbl))
      \<and> unat c = length (filter sel (tl_flows tbl))
      \<and> tl_flows tbl' = filter (\<lambda>f. \<not> sel f) (tl_flows tbl)
      \<and> unat (tl_n_flows tbl') = length (tl_flows tbl')"
proof -
  have "sel = linear_deletes key out_port priority strict"
    by (intro ext) (simp add: sel_def linear_deletes_def)
  then show ?thesis
    using assms(1) linear_invD(6) [OF linear_inv_filter [OF assms(1)], of sel]
    by (simp add: table_linear_delete_eq length_filter_u32)
qed

text \<open>
  Iteration can be resumed: when the callback stops an iteration at an entry whose serial number
  is not zero, the position it leaves selects exactly the entries that follow.
\<close>

theorem linear_iterate_resumes:
  assumes "linear_inv tbl"
    and "table_linear_iterate tbl key out_port position cb s = Some (e, position', s')" and "e \<noteq> 0"
  shows "\<exists>us f vs. linear_selected tbl key out_port (NOT (pos0 position)) = us @ f # vs
    \<and> run_callback cb (us @ f # vs) s = (e, Some f, s')
    \<and> (sf_serial f \<noteq> 0 \<longrightarrow> linear_selected tbl key out_port (NOT (pos0 position')) = vs)"
proof -
  obtain st where run: "run_callback cb (linear_selected tbl key out_port (NOT (pos0 position))) s = (e, st, s')"
    and p: "position' = (case st of None \<Rightarrow> position | Some f \<Rightarrow> position\<lparr>pos0 := NOT (sf_serial f - 1)\<rparr>)"
    using assms(2) by (auto simp: table_linear_iterate_eq [OF assms(1)] split: prod.splits)
  obtain us f vs where "linear_selected tbl key out_port (NOT (pos0 position)) = us @ f # vs" "st = Some f"
    using run_callback_error [OF run assms(3)] by blast
  then show ?thesis
    using run p linear_selected_resume [OF assms(1)]
    by (intro exI [of _ us] exI [of _ f] exI [of _ vs]) auto
qed

text \<open>
  Iteration stopped at the entry with serial number zero, the first ever inserted, is not
  resumed but starts again: the position it leaves is the initial one.
\<close>

theorem linear_iterate_restarts:
  assumes "linear_inv tbl" and "pos0 position = 0"
    and "run_callback cb (linear_selected tbl key out_port (- 1)) s = (e, Some f, s')" and "sf_serial f = 0"
  shows "table_linear_iterate tbl key out_port position cb s = Some (e, position, s')"
  using assms by (simp add: table_linear_iterate_eq)

section \<open>Witnesses\<close>

definition sample_table :: sw_table_linear where
  "sample_table = snd (table_linear_insert
     \<lparr>tl_n_lookup = 0, tl_n_matched = 0, tl_max_flows = 100, tl_n_flows = 0, tl_flows = [],
      tl_iter_flows = [], tl_next_serial = 0\<rparr> sample_entry)"

lemma sample_table_eq:
  "sample_table = \<lparr>tl_n_lookup = 0, tl_n_matched = 0, tl_max_flows = 100, tl_n_flows = 1,
     tl_flows = [sample_entry], tl_iter_flows = [1], tl_next_serial = 1\<rparr>"
  by (simp add: sample_table_def table_linear_insert_def sample_entry_def)

lemma sample_table_inv: "linear_inv sample_table"
  using sample_entry_wf
  by (simp add: sample_table_eq linear_inv_def entry_ok_def) (simp add: sample_entry_def)

theorem linear_lookup_best_witness:
  "case table_linear_lookup sample_table (flow_extract_match sample_match) of
      None \<Rightarrow> \<forall>f\<in>set (tl_flows sample_table). \<not> entry_matches (flow_extract_match sample_match) f
    | Some f \<Rightarrow> f \<in> set (tl_flows sample_table) \<and> entry_matches (flow_extract_match sample_match) f
        \<and> (\<forall>g\<in>set (tl_flows sample_table). entry_matches (flow_extract_match sample_match) g
              \<longrightarrow> sf_priority g \<le> sf_priority f)"
  using linear_lookup_best [OF sample_table_inv] .

theorem linear_operations_keep_invariant_witness:
  "linear_inv (snd (table_linear_insert sample_table (sample_entry\<lparr>sf_addr := 2, sf_priority := 5\<rparr>)))
   \<and> linear_inv (fst (table_linear_timeout 100000 sample_table []))"
proof -
  have "linear_addable sample_table (sample_entry\<lparr>sf_addr := 2, sf_priority := 5\<rparr>)"
    using sample_entry_wf
    by (simp add: linear_addable_def sample_table_eq entry_ok_def) (simp add: sample_entry_def)
  then show ?thesis
    using linear_operations_keep_invariant [OF sample_table_inv] by blast
qed

theorem linear_delete_exact_witness:
  "\<exists>c tbl'. table_linear_delete sample_table (flow_extract_match sample_match) (htons 3) 100 True
      = Some (c, tbl', [sample_entry]) \<and> unat c = 1 \<and> tl_flows tbl' = []"
proof -
  have "flow_matches_desc (sf_key sample_entry) (flow_extract_match sample_match) True"
    "flow_has_out_port sample_entry (htons 3) = Some True" "sf_priority sample_entry = 100"
    by code_simp+
  then show ?thesis
    using linear_delete_exact [OF sample_table_inv, where key = "flow_extract_match sample_match"
        and strict = True and out_port = "htons 3" and priority = 100]
    by (auto simp: sample_table_eq)
qed

definition stop_callback :: "nat callback" where
  "stop_callback f n = (if n = 0 then (- 1, 0) else (0, n - 1))"

definition sample_key :: sw_flow_key where
  "sample_key = flow_extract_match (sample_match\<lparr>om_wildcards := htonl OFPFW_ALL\<rparr>)"

lemma sample_table_selected: "linear_selected sample_table sample_key (htons OFPP_NONE) (- 1) = [sample_entry]"
  by code_simp

theorem linear_iterate_resumes_witness:
  "\<exists>us f vs. linear_selected sample_table sample_key (htons OFPP_NONE) (- 1) = us @ f # vs"
proof -
  have "table_linear_iterate sample_table sample_key (htons OFPP_NONE) \<lparr>pos0 = 0, pos1 = 0, pos2 = 0, pos3 = 0\<rparr>
      stop_callback 0 = Some (- 1, \<lparr>pos0 = 0, pos1 = 0, pos2 = 0, pos3 = 0\<rparr>, 0)"
    by code_simp
  from linear_iterate_resumes [OF sample_table_inv this] show ?thesis by auto
qed

theorem linear_iterate_restarts_witness:
  "table_linear_iterate sample_table sample_key (htons OFPP_NONE) \<lparr>pos0 = 0, pos1 = 0, pos2 = 0, pos3 = 0\<rparr>
     stop_callback 0 = Some (- 1, \<lparr>pos0 = 0, pos1 = 0, pos2 = 0, pos3 = 0\<rparr>, 0)"
  by (rule linear_iterate_restarts [OF sample_table_inv, where f = sample_entry])
     (simp_all add: sample_table_selected stop_callback_def, simp add: sample_entry_def)

end
