(* ===== verification/Table_Hash.thy ===== *)
theory Table_Hash
  imports Table_Spec Crc32
begin

text \<open>
  The hash tables of \<^verbatim>\<open>src/openflow/udatapath/table-hash.c\<close>: an array of buckets with at most one
  entry each, indexed by the CRC of the 36 bytes of the flow, for entries without wildcards;
  and the table of two such tables with different polynomials.
\<close>

section \<open>One hash table\<close>

record sw_table_hash =
  th_n_lookup :: u64
  th_n_matched :: u64
  th_crc32 :: "u32 list"
  th_n_flows :: u32
  th_bucket_mask :: u32
  th_buckets :: "sw_flow option list"

text \<open>
  \<^verbatim>\<open>find_bucket\<close> returns a pointer into the array; here its index. The bytes up to the member
  \<^verbatim>\<open>wildcards\<close> of a key are those of its flow.
\<close>

definition find_bucket :: "sw_table_hash \<Rightarrow> sw_flow_key \<Rightarrow> nat" where
  "find_bucket th key =
     (let crc = crc32_calculate (th_crc32 th) (flow_bytes (k_flow key))
      in unat (crc AND th_bucket_mask th))"

definition bucket :: "sw_table_hash \<Rightarrow> sw_flow_key \<Rightarrow> sw_flow option" where
  "bucket th key = th_buckets th ! find_bucket th key"

definition table_hash_lookup :: "sw_table_hash \<Rightarrow> sw_flow_key \<Rightarrow> sw_flow option" where
  "table_hash_lookup th key =
     (case bucket th key of
        None \<Rightarrow> None
      | Some flow \<Rightarrow> if \<not> flow_compare (k_flow (sf_key flow)) (k_flow key) then Some flow else None)"

definition table_hash_insert :: "sw_table_hash \<Rightarrow> sw_flow \<Rightarrow> bool \<times> sw_table_hash" where
  "table_hash_insert th flow =
     (if k_wildcards (sf_key flow) \<noteq> 0 then (False, th)
      else
        (let b = find_bucket th (sf_key flow)
         in case th_buckets th ! b of
              None \<Rightarrow> (True, th\<lparr>th_n_flows := th_n_flows th + 1,
                               th_buckets := (th_buckets th)[b := Some flow]\<rparr>)
            | Some old_flow \<Rightarrow>
                if \<not> flow_compare (k_flow (sf_key old_flow)) (k_flow (sf_key flow))
                then (True, th\<lparr>th_buckets := (th_buckets th)[b := Some flow]\<rparr>)
                else (False, th)))"

definition hash_modifies :: "sw_flow_key \<Rightarrow> u16 \<Rightarrow> bool \<Rightarrow> sw_flow \<Rightarrow> bool" where
  "hash_modifies key priority strict flow \<longleftrightarrow>
     flow_matches_desc (sf_key flow) key strict \<and> (\<not> strict \<or> sf_priority flow = priority)"

text \<open>The loop over all buckets, which are \<^verbatim>\<open>bucket_mask + 1\<close>.\<close>

fun hash_modify_loop :: "(sw_flow \<Rightarrow> bool) \<Rightarrow> (nat \<Rightarrow> bool) \<Rightarrow> u8 list \<Rightarrow> sw_flow option list \<Rightarrow> u32
    \<Rightarrow> u32 \<times> sw_flow option list" where
  "hash_modify_loop sel alloc actions [] cnt = (cnt, [])"
| "hash_modify_loop sel alloc actions (b # bs) cnt =
     (case b of
        Some flow \<Rightarrow>
          if sel flow then
            (let (cnt', bs') = hash_modify_loop sel alloc actions bs (cnt + 1)
             in (cnt', Some (flow_replace_acts (alloc (sf_addr flow)) flow actions) # bs'))
          else (let (cnt', bs') = hash_modify_loop sel alloc actions bs cnt in (cnt', b # bs'))
      | None \<Rightarrow> (let (cnt', bs') = hash_modify_loop sel alloc actions bs cnt in (cnt', b # bs')))"

definition table_hash_modify ::
  "(nat \<Rightarrow> bool) \<Rightarrow> sw_table_hash \<Rightarrow> sw_flow_key \<Rightarrow> u16 \<Rightarrow> bool \<Rightarrow> u8 list \<Rightarrow> u32 \<times> sw_table_hash" where
  "table_hash_modify alloc th key priority strict actions =
     (if k_wildcards key = 0 then
        (case bucket th key of
           Some flow \<Rightarrow>
             if hash_modifies key priority strict flow
             then (1, th\<lparr>th_buckets := (th_buckets th)[find_bucket th key :=
                       Some (flow_replace_acts (alloc (sf_addr flow)) flow actions)]\<rparr>)
             else (0, th)
         | None \<Rightarrow> (0, th))
      else
        (let (cnt, bs) = hash_modify_loop (hash_modifies key priority strict) alloc actions
                           (th_buckets th) 0
         in (cnt, th\<lparr>th_buckets := bs\<rparr>)))"

definition hash_conflicts :: "sw_flow_key \<Rightarrow> u16 \<Rightarrow> bool \<Rightarrow> sw_flow option \<Rightarrow> bool" where
  "hash_conflicts key priority strict b =
     (case b of
        None \<Rightarrow> False
      | Some flow \<Rightarrow> flow_matches_2desc (sf_key flow) key strict \<and> sf_priority flow = priority)"

definition table_hash_has_conflict :: "sw_table_hash \<Rightarrow> sw_flow_key \<Rightarrow> u16 \<Rightarrow> bool \<Rightarrow> bool" where
  "table_hash_has_conflict th key priority strict =
     (if k_wildcards key = 0 then hash_conflicts key priority strict (bucket th key)
      else list_ex (hash_conflicts key priority strict) (th_buckets th))"

text \<open>
  Deletion returns the count, the table and the entries passed to \<^verbatim>\<open>dp_send_flow_end\<close>;
  \<^verbatim>\<open>do_delete\<close> empties the bucket.
\<close>

fun hash_delete_loop :: "sw_flow_key \<Rightarrow> u16 \<Rightarrow> bool \<Rightarrow> sw_flow option list \<Rightarrow> u32
    \<Rightarrow> (u32 \<times> sw_flow option list \<times> sw_flow list) option" where
  "hash_delete_loop key out_port strict [] cnt = Some (cnt, [], [])"
| "hash_delete_loop key out_port strict (b # bs) cnt =
     (case b of
        None \<Rightarrow> map_option (\<lambda>(c, bs', ended). (c, b # bs', ended))
                  (hash_delete_loop key out_port strict bs cnt)
      | Some flow \<Rightarrow>
          if \<not> flow_matches_desc (sf_key flow) key strict then
            map_option (\<lambda>(c, bs', ended). (c, b # bs', ended))
              (hash_delete_loop key out_port strict bs cnt)
          else case flow_has_out_port flow out_port of
            None \<Rightarrow> None
          | Some has \<Rightarrow>
              if has then
                map_option (\<lambda>(c, bs', ended). (c, None # bs', flow # ended))
                  (hash_delete_loop key out_port strict bs (cnt + 1))
              else
                map_option (\<lambda>(c, bs', ended). (c, b # bs', ended))
                  (hash_delete_loop key out_port strict bs cnt))"

definition table_hash_delete :: "sw_table_hash \<Rightarrow> sw_flow_key \<Rightarrow> u16 \<Rightarrow> u16 \<Rightarrow> bool
    \<Rightarrow> (u32 \<times> sw_table_hash \<times> sw_flow list) option" where
  "table_hash_delete th key out_port priority strict =
     (if k_wildcards key = 0 then
        (case bucket th key of
           None \<Rightarrow> Some (0, th, [])
         | Some flow \<Rightarrow>
             if flow_compare (k_flow (sf_key flow)) (k_flow key) then Some (0, th, [])
             else case flow_has_out_port flow out_port of
               None \<Rightarrow> None
             | Some has \<Rightarrow>
                 if has then Some (1, th\<lparr>th_buckets := (th_buckets th)[find_bucket th key := None],
                                        th_n_flows := th_n_flows th - 1\<rparr>, [flow])
                 else Some (0, th, []))
      else
        map_option (\<lambda>(cnt, bs, ended).
            (cnt, th\<lparr>th_buckets := bs, th_n_flows := th_n_flows th - cnt\<rparr>, ended))
          (hash_delete_loop key out_port strict (th_buckets th) 0))"

fun hash_timeout_loop :: "u64 \<Rightarrow> sw_flow option list \<Rightarrow> u32 \<Rightarrow> sw_flow list
    \<Rightarrow> sw_flow option list \<times> u32 \<times> sw_flow list" where
  "hash_timeout_loop now [] n deleted = ([], n, deleted)"
| "hash_timeout_loop now (b # bs) n deleted =
     (case b of
        None \<Rightarrow> (let (bs', n', d) = hash_timeout_loop now bs n deleted in (None # bs', n', d))
      | Some flow \<Rightarrow>
          (case flow_timeout now flow of
             (True, flow') \<Rightarrow>
               (let (bs', n', d) = hash_timeout_loop now bs (n - 1) (deleted @ [flow'])
                in (None # bs', n', d))
           | (False, flow') \<Rightarrow>
               (let (bs', n', d) = hash_timeout_loop now bs n deleted
                in (Some flow' # bs', n', d))))"

definition table_hash_timeout ::
  "u64 \<Rightarrow> sw_table_hash \<Rightarrow> sw_flow list \<Rightarrow> sw_table_hash \<times> sw_flow list" where
  "table_hash_timeout now th deleted =
     (let (bs, n, d) = hash_timeout_loop now (th_buckets th) (th_n_flows th) deleted
      in (th\<lparr>th_buckets := bs, th_n_flows := n\<rparr>, d))"

text \<open>The entries freed.\<close>

fun hash_destroy_loop :: "sw_flow option list \<Rightarrow> nat list" where
  "hash_destroy_loop [] = []"
| "hash_destroy_loop (b # bs) =
     (case b of None \<Rightarrow> hash_destroy_loop bs | Some flow \<Rightarrow> sf_addr flow # hash_destroy_loop bs)"

definition table_hash_destroy :: "sw_table_hash \<Rightarrow> nat list" where
  "table_hash_destroy th = hash_destroy_loop (th_buckets th)"

text \<open>The loop of \<^verbatim>\<open>table_hash_iterate\<close> from bucket \<open>i\<close>, whose remaining buckets are the list.\<close>

fun hash_iterate_loop :: "sw_flow_key \<Rightarrow> u16 \<Rightarrow> 's callback \<Rightarrow> sw_flow option list \<Rightarrow> u64 \<Rightarrow> 's
    \<Rightarrow> (int \<times> u64 option \<times> 's) option" where
  "hash_iterate_loop key out_port callback [] i s = Some (0, None, s)"
| "hash_iterate_loop key out_port callback (b # bs) i s =
     (case b of
        None \<Rightarrow> hash_iterate_loop key out_port callback bs (i + 1) s
      | Some flow \<Rightarrow>
          if flow_matches_1wild (sf_key flow) key then
            (case flow_has_out_port flow out_port of
               None \<Rightarrow> None
             | Some True \<Rightarrow>
                 (let (error, s') = callback flow s
                  in if error \<noteq> 0 then Some (error, Some (i + 1), s')
                     else hash_iterate_loop key out_port callback bs (i + 1) s')
             | Some False \<Rightarrow> hash_iterate_loop key out_port callback bs (i + 1) s)
          else hash_iterate_loop key out_port callback bs (i + 1) s)"

definition table_hash_iterate ::
  "sw_table_hash \<Rightarrow> sw_flow_key \<Rightarrow> u16 \<Rightarrow> sw_table_position \<Rightarrow> 's callback \<Rightarrow> 's
    \<Rightarrow> (int \<times> sw_table_position \<times> 's) option" where
  "table_hash_iterate th key out_port position callback s =
     (if pos0 position > ucast (th_bucket_mask th) then Some (0, position, s)
      else if k_wildcards key = 0 then
        (let position' = position\<lparr>pos0 := - 1\<rparr>
         in case table_hash_lookup th key of
              None \<Rightarrow> Some (0, position', s)
            | Some flow \<Rightarrow>
                (case flow_has_out_port flow out_port of
                   None \<Rightarrow> None
                 | Some False \<Rightarrow> Some (0, position', s)
                 | Some True \<Rightarrow> (let (error, s') = callback flow s in Some (error, position', s'))))
      else
        map_option (\<lambda>(error, p, s').
            (error, (case p of None \<Rightarrow> position | Some v \<Rightarrow> position\<lparr>pos0 := v\<rparr>), s'))
          (hash_iterate_loop key out_port callback (drop (unat (pos0 position)) (th_buckets th))
             (pos0 position) s))"

definition table_hash_stats :: "sw_table_hash \<Rightarrow> sw_table_stats" where
  "table_hash_stats th =
     \<lparr>st_name = ''hash'', st_wildcards = 0, st_n_flows = th_n_flows th,
      st_max_flows = th_bucket_mask th + 1, st_n_lookup = th_n_lookup th,
      st_n_matched = th_n_matched th\<rparr>"

text \<open>
  The two allocations succeed or not; \<open>None\<close> also stands for the failure of the assertion that
  the number of buckets is a power of two, as opposed to \<open>Some None\<close>, a null pointer.
\<close>

definition table_hash_create :: "bool \<Rightarrow> bool \<Rightarrow> u32 \<Rightarrow> u32 \<Rightarrow> sw_table_hash option option" where
  "table_hash_create ok buckets_ok polynomial n_buckets =
     (if \<not> ok then Some None
      else if n_buckets AND (n_buckets - 1) \<noteq> 0 then None
      else if \<not> buckets_ok then Some None
      else Some (Some \<lparr>th_n_lookup = 0, th_n_matched = 0, th_crc32 = crc32_init polynomial,
             th_n_flows = 0, th_bucket_mask = n_buckets - 1,
             th_buckets = replicate (unat n_buckets) None\<rparr>))"

section \<open>The double-hashing table\<close>

record sw_table_hash2 =
  t2_n_lookup :: u64
  t2_n_matched :: u64
  t2_subtable0 :: sw_table_hash
  t2_subtable1 :: sw_table_hash

definition table_hash2_lookup :: "sw_table_hash2 \<Rightarrow> sw_flow_key \<Rightarrow> sw_flow option" where
  "table_hash2_lookup t2 key =
     (case bucket (t2_subtable0 t2) key of
        Some flow \<Rightarrow>
          if \<not> flow_compare (k_flow (sf_key flow)) (k_flow key) then Some flow
          else (case bucket (t2_subtable1 t2) key of
                  Some flow \<Rightarrow> if \<not> flow_compare (k_flow (sf_key flow)) (k_flow key) then Some flow else None
                | None \<Rightarrow> None)
      | None \<Rightarrow>
          (case bucket (t2_subtable1 t2) key of
             Some flow \<Rightarrow> if \<not> flow_compare (k_flow (sf_key flow)) (k_flow key) then Some flow else None
           | None \<Rightarrow> None))"

definition table_hash2_insert :: "sw_table_hash2 \<Rightarrow> sw_flow \<Rightarrow> bool \<times> sw_table_hash2" where
  "table_hash2_insert t2 flow =
     (case table_hash_insert (t2_subtable0 t2) flow of
        (True, th) \<Rightarrow> (True, t2\<lparr>t2_subtable0 := th\<rparr>)
      | (False, th) \<Rightarrow>
          (case table_hash_insert (t2_subtable1 t2) flow of
             (ok, th1) \<Rightarrow> (ok, t2\<lparr>t2_subtable0 := th, t2_subtable1 := th1\<rparr>)))"

definition table_hash2_modify ::
  "(nat \<Rightarrow> bool) \<Rightarrow> sw_table_hash2 \<Rightarrow> sw_flow_key \<Rightarrow> u16 \<Rightarrow> bool \<Rightarrow> u8 list \<Rightarrow> u32 \<times> sw_table_hash2" where
  "table_hash2_modify alloc t2 key priority strict actions =
     (let (c0, th0) = table_hash_modify alloc (t2_subtable0 t2) key priority strict actions;
          (c1, th1) = table_hash_modify alloc (t2_subtable1 t2) key priority strict actions
      in (c0 + c1, t2\<lparr>t2_subtable0 := th0, t2_subtable1 := th1\<rparr>))"

definition table_hash2_has_conflict :: "sw_table_hash2 \<Rightarrow> sw_flow_key \<Rightarrow> u16 \<Rightarrow> bool \<Rightarrow> bool" where
  "table_hash2_has_conflict t2 key priority strict \<longleftrightarrow>
     table_hash_has_conflict (t2_subtable0 t2) key priority strict
     \<or> table_hash_has_conflict (t2_subtable1 t2) key priority strict"

definition table_hash2_delete :: "sw_table_hash2 \<Rightarrow> sw_flow_key \<Rightarrow> u16 \<Rightarrow> u16 \<Rightarrow> bool
    \<Rightarrow> (u32 \<times> sw_table_hash2 \<times> sw_flow list) option" where
  "table_hash2_delete t2 key out_port priority strict =
     (case table_hash_delete (t2_subtable0 t2) key out_port priority strict of
        None \<Rightarrow> None
      | Some (c0, th0, e0) \<Rightarrow>
          (case table_hash_delete (t2_subtable1 t2) key out_port priority strict of
             None \<Rightarrow> None
           | Some (c1, th1, e1) \<Rightarrow>
               Some (c0 + c1, t2\<lparr>t2_subtable0 := th0, t2_subtable1 := th1\<rparr>, e0 @ e1)))"

definition table_hash2_timeout ::
  "u64 \<Rightarrow> sw_table_hash2 \<Rightarrow> sw_flow list \<Rightarrow> sw_table_hash2 \<times> sw_flow list" where
  "table_hash2_timeout now t2 deleted =
     (let (th0, d0) = table_hash_timeout now (t2_subtable0 t2) deleted;
          (th1, d1) = table_hash_timeout now (t2_subtable1 t2) d0
      in (t2\<lparr>t2_subtable0 := th0, t2_subtable1 := th1\<rparr>, d1))"

definition table_hash2_destroy :: "sw_table_hash2 \<Rightarrow> nat list" where
  "table_hash2_destroy t2 = table_hash_destroy (t2_subtable0 t2) @ table_hash_destroy (t2_subtable1 t2)"

text \<open>The iterations of the loop from \<^verbatim>\<open>position->private[1]\<close>, which is 0, 1 or 2.\<close>

function hash2_iterate_loop ::
  "sw_table_hash2 \<Rightarrow> sw_flow_key \<Rightarrow> u16 \<Rightarrow> 's callback \<Rightarrow> nat \<Rightarrow> sw_table_position \<Rightarrow> 's
    \<Rightarrow> (int \<times> sw_table_position \<times> 's) option" where
  "hash2_iterate_loop t2 key out_port callback i position s =
     (if i < 2 then
        (case table_hash_iterate (if i = 0 then t2_subtable0 t2 else t2_subtable1 t2) key out_port
                position callback s of
           None \<Rightarrow> None
         | Some (error, position', s') \<Rightarrow>
             if error \<noteq> 0 then Some (error, position', s')
             else hash2_iterate_loop t2 key out_port callback (i + 1)
                    (position'\<lparr>pos0 := 0, pos1 := pos1 position' + 1\<rparr>) s')
      else Some (0, position, s))"
  by pat_completeness auto
termination
  by (relation "measure (\<lambda>(t2, key, out_port, callback, i, position, s). 2 - i)") auto

declare hash2_iterate_loop.simps [simp del]

definition table_hash2_iterate ::
  "sw_table_hash2 \<Rightarrow> sw_flow_key \<Rightarrow> u16 \<Rightarrow> sw_table_position \<Rightarrow> 's callback \<Rightarrow> 's
    \<Rightarrow> (int \<times> sw_table_position \<times> 's) option" where
  "table_hash2_iterate t2 key out_port position callback s =
     hash2_iterate_loop t2 key out_port callback (unat (pos1 position)) position s"

definition table_hash2_stats :: "sw_table_hash2 \<Rightarrow> sw_table_stats" where
  "table_hash2_stats t2 =
     (let s0 = table_hash_stats (t2_subtable0 t2); s1 = table_hash_stats (t2_subtable1 t2)
      in \<lparr>st_name = ''hash2'', st_wildcards = 0, st_n_flows = st_n_flows s0 + st_n_flows s1,
          st_max_flows = st_max_flows s0 + st_max_flows s1, st_n_lookup = t2_n_lookup t2,
          st_n_matched = t2_n_matched t2\<rparr>)"

definition table_hash2_create ::
  "bool \<Rightarrow> bool \<times> bool \<Rightarrow> bool \<times> bool \<Rightarrow> u32 \<Rightarrow> u32 \<Rightarrow> u32 \<Rightarrow> u32 \<Rightarrow> sw_table_hash2 option option" where
  "table_hash2_create ok ok0 ok1 poly0 buckets0 poly1 buckets1 =
     (if \<not> ok then Some None
      else case table_hash_create (fst ok0) (snd ok0) poly0 buckets0 of
        None \<Rightarrow> None
      | Some None \<Rightarrow> Some None
      | Some (Some th0) \<Rightarrow>
          (case table_hash_create (fst ok1) (snd ok1) poly1 buckets1 of
             None \<Rightarrow> None
           | Some None \<Rightarrow> Some None
           | Some (Some th1) \<Rightarrow>
               Some (Some \<lparr>t2_n_lookup = 0, t2_n_matched = 0, t2_subtable0 = th0,
                          t2_subtable1 = th1\<rparr>)))"

section \<open>Invariant\<close>

fun occupants :: "sw_flow option list \<Rightarrow> sw_flow list" where
  "occupants [] = []"
| "occupants (None # bs) = occupants bs"
| "occupants (Some f # bs) = f # occupants bs"

definition hash_entries :: "sw_table_hash \<Rightarrow> sw_flow list" where
  "hash_entries th = occupants (th_buckets th)"

text \<open>Every entry is exact, and lies in the bucket that its flow hashes to.\<close>

definition hash_inv :: "sw_table_hash \<Rightarrow> bool" where
  "hash_inv th \<longleftrightarrow>
     length (th_buckets th) = unat (th_bucket_mask th) + 1 \<and> th_bucket_mask th < 0x40000000
     \<and> unat (th_n_flows th) = length (hash_entries th)
     \<and> (\<forall>i<length (th_buckets th). \<forall>f. th_buckets th ! i = Some f \<longrightarrow>
          entry_ok f \<and> k_wildcards (sf_key f) = 0 \<and> find_bucket th (sf_key f) = i)"

lemma hash_invI:
  assumes "length (th_buckets th) = unat (th_bucket_mask th) + 1" "th_bucket_mask th < 0x40000000"
    and "unat (th_n_flows th) = length (hash_entries th)"
    and "\<And>i f. i < length (th_buckets th) \<Longrightarrow> th_buckets th ! i = Some f \<Longrightarrow>
      entry_ok f \<and> k_wildcards (sf_key f) = 0 \<and> find_bucket th (sf_key f) = i"
  shows "hash_inv th"
  using assms by (simp add: hash_inv_def)

lemma hash_invD:
  assumes "hash_inv th"
  shows "length (th_buckets th) = unat (th_bucket_mask th) + 1" "th_bucket_mask th < 0x40000000"
    and "unat (th_n_flows th) = length (hash_entries th)"
    and "\<And>i f. i < length (th_buckets th) \<Longrightarrow> th_buckets th ! i = Some f \<Longrightarrow>
      entry_ok f \<and> k_wildcards (sf_key f) = 0 \<and> find_bucket th (sf_key f) = i"
  using assms by (simp_all add: hash_inv_def)

lemma find_bucket_less:
  assumes "hash_inv th"
  shows "find_bucket th key < length (th_buckets th)"
proof -
  have "x AND th_bucket_mask th \<le> th_bucket_mask th" for x
    by (rule word_and_le1)
  then show ?thesis
    using hash_invD(1) [OF assms] by (simp add: find_bucket_def Let_def word_le_nat_alt less_Suc_eq_le)
qed

lemma find_bucket_flow: "k_flow k = k_flow k' \<Longrightarrow> find_bucket th k = find_bucket th k'"
  by (simp add: find_bucket_def)

lemma find_bucket_cong:
  "find_bucket (th\<lparr>th_buckets := bs\<rparr>) k = find_bucket th k"
  "find_bucket (th\<lparr>th_n_flows := n\<rparr>) k = find_bucket th k"
  "find_bucket (th\<lparr>th_n_flows := n, th_buckets := bs\<rparr>) k = find_bucket th k"
  "find_bucket (th\<lparr>th_buckets := bs, th_n_flows := n\<rparr>) k = find_bucket th k"
  by (simp_all add: find_bucket_def)

lemma set_occupants: "f \<in> set (occupants bs) \<longleftrightarrow> (\<exists>i<length bs. bs ! i = Some f)"
proof -
  have "f \<in> set (occupants bs) \<longleftrightarrow> Some f \<in> set bs"
    by (induction bs rule: occupants.induct) auto
  then show ?thesis by (auto simp: in_set_conv_nth)
qed

lemma occupants_append [simp]: "occupants (as @ bs) = occupants as @ occupants bs"
  by (induction as rule: occupants.induct) simp_all

lemma length_occupants: "length (occupants bs) \<le> length bs"
  by (induction bs rule: occupants.induct) simp_all

lemma hash_entries_iff:
  assumes "hash_inv th"
  shows "f \<in> set (hash_entries th) \<longleftrightarrow> bucket th (sf_key f) = Some f"
  using hash_invD(4) [OF assms] find_bucket_less [OF assms]
  by (auto simp: hash_entries_def set_occupants bucket_def)

lemma hash_entry_ok:
  assumes "hash_inv th" "f \<in> set (hash_entries th)"
  shows "entry_ok f" "k_wildcards (sf_key f) = 0"
  using assms hash_invD(4) [OF assms(1)] by (auto simp: hash_entries_def set_occupants)

lemma bucket_entry:
  assumes "hash_inv th" "bucket th key = Some f"
  shows "f \<in> set (hash_entries th)" "entry_ok f" "k_wildcards (sf_key f) = 0"
    "find_bucket th (sf_key f) = find_bucket th key"
  using assms hash_invD(4) [OF assms(1)] find_bucket_less [OF assms(1)]
  by (auto simp: hash_entries_def set_occupants bucket_def)

lemma occupants_update:
  assumes "i < length bs"
  shows "mset (occupants (bs[i := b])) + mset (occupants [bs ! i]) = mset (occupants bs) + mset (occupants [b])"
proof -
  have "bs = take i bs @ bs ! i # drop (Suc i) bs"
    using assms by (rule id_take_nth_drop)
  then have "occupants bs = occupants (take i bs) @ occupants [bs ! i] @ occupants (drop (Suc i) bs)"
    by (metis append_Cons append_Nil occupants_append)
  moreover have "occupants (bs[i := b]) = occupants (take i bs) @ occupants [b] @ occupants (drop (Suc i) bs)"
    using assms by (metis append_Cons append_Nil occupants_append upd_conv_take_nth_drop)
  ultimately show ?thesis by simp
qed

lemma length_occupants_update:
  assumes "i < length bs"
  shows "length (occupants (bs[i := b])) + length (occupants [bs ! i]) = length (occupants bs) + length (occupants [b])"
  using arg_cong [OF occupants_update [OF assms, of b], of size] by simp

section \<open>Lookup and insertion\<close>

lemma table_hash_lookup_Some:
  "table_hash_lookup th key = Some f \<longleftrightarrow> bucket th key = Some f \<and> k_flow (sf_key f) = k_flow key"
  by (auto simp: table_hash_lookup_def split: option.splits)

lemma table_hash_lookup_iff:
  assumes "hash_inv th"
  shows "table_hash_lookup th key = Some f \<longleftrightarrow> f \<in> set (hash_entries th) \<and> k_flow (sf_key f) = k_flow key"
proof -
  have "k_flow (sf_key f) = k_flow key \<Longrightarrow> bucket th (sf_key f) = bucket th key"
    by (simp add: bucket_def find_bucket_def)
  then show ?thesis
    unfolding table_hash_lookup_Some hash_entries_iff [OF assms] by auto
qed

text \<open>The outcomes of an insertion.\<close>

lemma hash_insert_cases [consumes 1, case_names wild fresh replaced full]:
  assumes "table_hash_insert th flow = (ok, th')"
  obtains "k_wildcards (sf_key flow) \<noteq> 0" "\<not> ok" "th' = th"
    | "k_wildcards (sf_key flow) = 0" "bucket th (sf_key flow) = None" "ok"
      "th' = th\<lparr>th_n_flows := th_n_flows th + 1,
        th_buckets := (th_buckets th)[find_bucket th (sf_key flow) := Some flow]\<rparr>"
    | old where "k_wildcards (sf_key flow) = 0" "bucket th (sf_key flow) = Some old" "ok"
      "k_flow (sf_key old) = k_flow (sf_key flow)"
      "th' = th\<lparr>th_buckets := (th_buckets th)[find_bucket th (sf_key flow) := Some flow]\<rparr>"
    | old where "k_wildcards (sf_key flow) = 0" "bucket th (sf_key flow) = Some old" "\<not> ok"
      "k_flow (sf_key old) \<noteq> k_flow (sf_key flow)" "th' = th"
proof (cases "k_wildcards (sf_key flow) = 0")
  case False
  then show ?thesis using assms by (intro that(1)) (simp_all add: table_hash_insert_def)
next
  case w: True
  show ?thesis
  proof (cases "bucket th (sf_key flow)")
    case None
    then show ?thesis
      using assms w by (intro that(2)) (simp_all add: table_hash_insert_def bucket_def Let_def)
  next
    case (Some old)
    show ?thesis
    proof (cases "k_flow (sf_key old) = k_flow (sf_key flow)")
      case True
      then show ?thesis
        using assms w Some by (intro that(3) [OF w Some]) (simp_all add: table_hash_insert_def bucket_def Let_def)
    next
      case False
      then show ?thesis
        using assms w Some by (intro that(4) [OF w Some]) (simp_all add: table_hash_insert_def bucket_def Let_def)
    qed
  qed
qed

lemma hash_inv_update:
  assumes inv: "hash_inv th" and th': "th_crc32 th' = th_crc32 th" "th_bucket_mask th' = th_bucket_mask th"
      "th_buckets th' = (th_buckets th)[i := b]" "unat (th_n_flows th') = length (hash_entries th')"
    and b: "\<And>f. b = Some f \<Longrightarrow> entry_ok f \<and> k_wildcards (sf_key f) = 0 \<and> find_bucket th (sf_key f) = i"
  shows "hash_inv th'"
proof (rule hash_invI)
  show "length (th_buckets th') = unat (th_bucket_mask th') + 1"
    using hash_invD(1) [OF inv] th' by simp
  show "th_bucket_mask th' < 0x40000000"
    using hash_invD(2) [OF inv] th' by simp
  fix j f assume "j < length (th_buckets th')" "th_buckets th' ! j = Some f"
  then show "entry_ok f \<and> k_wildcards (sf_key f) = 0 \<and> find_bucket th' (sf_key f) = j"
    using hash_invD(4) [OF inv, of j f] b [of f] th' by (cases "j = i") (auto simp: find_bucket_def)
qed (rule th'(4))

lemma hash_insert_inv:
  assumes inv: "hash_inv th" and ok: "entry_ok flow"
  shows "hash_inv (snd (table_hash_insert th flow))"
proof -
  obtain r th' where e: "table_hash_insert th flow = (r, th')" by fastforce
  let ?i = "find_bucket th (sf_key flow)"
  have i: "?i < length (th_buckets th)" by (rule find_bucket_less [OF inv])
  from e have "hash_inv th'"
  proof (cases rule: hash_insert_cases)
    case fresh
    have len: "length (occupants ((th_buckets th)[?i := Some flow])) = length (occupants (th_buckets th)) + 1"
      using length_occupants_update [OF i, of "Some flow"] fresh(2) by (simp add: bucket_def)
    have "length (occupants ((th_buckets th)[?i := Some flow])) \<le> unat (th_bucket_mask th) + 1"
      using length_occupants [of "(th_buckets th)[?i := Some flow]"] hash_invD(1) [OF inv] by simp
    then have "unat (th_n_flows th + 1) = unat (th_n_flows th) + 1"
      using len hash_invD(2,3) [OF inv] by (simp add: unat_word_ariths hash_entries_def word_less_nat_alt)
    then show ?thesis
      using fresh ok len hash_invD(3) [OF inv]
      by (intro hash_inv_update [OF inv, of th' ?i "Some flow"]) (auto simp: hash_entries_def)
  next
    case (replaced old)
    then show ?thesis
      using ok hash_invD(3) [OF inv] length_occupants_update [OF i, of "Some flow"]
      by (intro hash_inv_update [OF inv, of th' ?i "Some flow"]) (auto simp: hash_entries_def bucket_def)
  qed (use inv in simp_all)
  then show ?thesis by (simp add: e)
qed

lemma hash_insert_fail: "\<not> fst (table_hash_insert th flow) \<Longrightarrow> snd (table_hash_insert th flow) = th"
  by (auto simp: table_hash_insert_def Let_def split: option.splits if_splits)

lemma hash_insert_entries:
  assumes inv: "hash_inv th" and ins: "table_hash_insert th flow = (True, th')"
  shows "flow \<in> set (hash_entries th') \<and> (\<exists>old. mset (hash_entries th') + mset old = mset (hash_entries th) + {#flow#}
    \<and> length old \<le> 1 \<and> (\<forall>g\<in>set old. g \<in> set (hash_entries th) \<and> k_flow (sf_key g) = k_flow (sf_key flow)))"
proof -
  let ?i = "find_bucket th (sf_key flow)"
  have i: "?i < length (th_buckets th)" by (rule find_bucket_less [OF inv])
  note u = occupants_update [OF i, of "Some flow"]
  have m: "flow \<in> set (occupants ((th_buckets th)[?i := Some flow]))"
    using i by (auto simp: set_occupants intro!: exI [of _ ?i])
  from ins show ?thesis
  proof (cases rule: hash_insert_cases)
    case fresh
    then show ?thesis using u m by (intro conjI exI [of _ "[]"]) (simp_all add: hash_entries_def bucket_def)
  next
    case (replaced old)
    then show ?thesis using u m bucket_entry(1) [OF inv replaced(2)]
      by (intro conjI exI [of _ "[old]"]) (simp_all add: hash_entries_def bucket_def)
  qed simp_all
qed

lemma hash_insert_lookup:
  assumes inv: "hash_inv th" and ins: "table_hash_insert th flow = (True, th')"
  shows "bucket th' key = (if find_bucket th key = find_bucket th (sf_key flow) then Some flow else bucket th key)"
  using ins
proof (cases rule: hash_insert_cases)
  case fresh
  then show ?thesis
    using find_bucket_less [OF inv] by (auto simp: bucket_def find_bucket_cong)
next
  case (replaced old)
  then show ?thesis
    using find_bucket_less [OF inv] by (auto simp: bucket_def find_bucket_cong)
qed simp_all

text \<open>An insertion fails for an entry with wildcards and when another flow has the bucket.\<close>

definition bucket_accepts :: "sw_table_hash \<Rightarrow> sw_flow \<Rightarrow> bool" where
  "bucket_accepts th flow =
     (case bucket th (sf_key flow) of
        None \<Rightarrow> True | Some old \<Rightarrow> k_flow (sf_key old) = k_flow (sf_key flow))"

lemma hash_insert_accepts:
  "fst (table_hash_insert th flow) \<longleftrightarrow> k_wildcards (sf_key flow) = 0 \<and> bucket_accepts th flow"
  by (simp add: table_hash_insert_def bucket_accepts_def bucket_def Let_def split: option.split)

lemma hash_insert_ok_iff:
  "fst (table_hash_insert th flow) \<longleftrightarrow> k_wildcards (sf_key flow) = 0 \<and>
     (\<forall>old. bucket th (sf_key flow) = Some old \<longrightarrow> k_flow (sf_key old) = k_flow (sf_key flow))"
  by (simp add: table_hash_insert_def bucket_def Let_def split: option.split)

section \<open>Deletion, time-out, modification\<close>

definition clear :: "(sw_flow \<Rightarrow> bool) \<Rightarrow> sw_flow option \<Rightarrow> sw_flow option" where
  "clear sel b = (case b of None \<Rightarrow> None | Some f \<Rightarrow> if sel f then None else Some f)"

lemma occupants_clear: "occupants (map (clear sel) bs) = filter (\<lambda>f. \<not> sel f) (occupants bs)"
  by (induction bs rule: occupants.induct) (simp_all add: clear_def)

lemma filter_occupants_u32:
  assumes "hash_inv th"
  shows "unat (of_nat (length (filter P (hash_entries th))) :: u32) = length (filter P (hash_entries th))"
    "length (filter P (hash_entries th)) < 0x80000000"
proof -
  have "length (hash_entries th) \<le> unat (th_bucket_mask th) + 1"
    using length_occupants [of "th_buckets th"] hash_invD(1) [OF assms] by (simp add: hash_entries_def)
  moreover have "unat (th_bucket_mask th) < 0x40000000"
    using hash_invD(2) [OF assms] by (simp add: word_less_nat_alt)
  ultimately show "length (filter P (hash_entries th)) < 0x80000000"
    using length_filter_le [of P "hash_entries th"] by linarith
  then show "unat (of_nat (length (filter P (hash_entries th))) :: u32) = length (filter P (hash_entries th))"
    by (simp add: unat_of_nat)
qed

lemma hash_inv_clear:
  assumes inv: "hash_inv th"
  shows "hash_inv (th\<lparr>th_buckets := map (clear sel) (th_buckets th),
    th_n_flows := th_n_flows th - of_nat (length (filter sel (hash_entries th)))\<rparr>)"
    (is "hash_inv ?th")
proof (rule hash_invI)
  let ?n = "length (filter sel (hash_entries th))"
  have len: "?n + length (filter (\<lambda>f. \<not> sel f) (hash_entries th)) = unat (th_n_flows th)"
    using sum_length_filter_compl [of sel "hash_entries th"] hash_invD(3) [OF inv] by simp
  then have "unat (th_n_flows th - of_nat ?n) = unat (th_n_flows th) - ?n"
    using filter_occupants_u32(1) [OF inv, of sel] by (simp add: unat_sub word_le_nat_alt)
  then show "unat (th_n_flows ?th) = length (hash_entries ?th)"
    using len by (simp add: hash_entries_def occupants_clear)
  fix j f assume j: "j < length (th_buckets ?th)" "th_buckets ?th ! j = Some f"
  then have "th_buckets th ! j = Some f"
    by (auto simp: clear_def split: option.splits if_splits)
  then show "entry_ok f \<and> k_wildcards (sf_key f) = 0 \<and> find_bucket ?th (sf_key f) = j"
    using hash_invD(4) [OF inv, of j f] j(1) by (simp add: find_bucket_cong)
qed (use hash_invD(1,2) [OF inv] in simp_all)

definition hash_deletes :: "sw_flow_key \<Rightarrow> u16 \<Rightarrow> bool \<Rightarrow> sw_flow \<Rightarrow> bool" where
  "hash_deletes key out_port strict f \<longleftrightarrow>
     (if k_wildcards key = 0 then k_flow (sf_key f) = k_flow key
      else flow_matches_desc (sf_key f) key strict)
     \<and> flow_has_out_port f out_port = Some True"

lemma hash_delete_loop_eq:
  assumes "\<forall>f\<in>set (occupants bs). wf_acts (sf_acts f)" "k_wildcards key \<noteq> 0"
  shows "hash_delete_loop key out_port strict bs c =
    Some (c + of_nat (length (filter (hash_deletes key out_port strict) (occupants bs))),
      map (clear (hash_deletes key out_port strict)) bs,
      filter (hash_deletes key out_port strict) (occupants bs))"
  using assms(1)
proof (induction bs arbitrary: c rule: occupants.induct)
  case (3 f bs)
  obtain has where h: "flow_has_out_port f out_port = Some has"
    using flow_has_out_port_total 3(2) by fastforce
  show ?case
    using 3 h assms(2) by (simp add: hash_deletes_def clear_def)
qed (simp_all add: clear_def)

text \<open>In the bucket array of a table, the entry of a flow is in its bucket only.\<close>

lemma clear_flow:
  assumes inv: "hash_inv th" and b: "bucket th key = Some f" "k_flow (sf_key f) = k_flow key"
    and sel: "sel f" "\<And>g. sel g \<Longrightarrow> k_flow (sf_key g) = k_flow key"
  shows "map (clear sel) (th_buckets th) = (th_buckets th)[find_bucket th key := None]"
    and "filter sel (hash_entries th) = [f]"
proof -
  let ?i = "find_bucket th key" and ?bs = "th_buckets th"
  have i: "?i < length ?bs" by (rule find_bucket_less [OF inv])
  have at: "?bs ! ?i = Some f" using b(1) by (simp add: bucket_def)
  have only: "j = ?i" if "j < length ?bs" "?bs ! j = Some g" "sel g" for j g
    using hash_invD(4) [OF inv that(1,2)] find_bucket_flow [OF sel(2) [OF that(3)], of th] by simp
  have "map (clear sel) ?bs ! j = ?bs[?i := None] ! j" if j: "j < length ?bs" for j
  proof (cases "j = ?i")
    case True
    then show ?thesis using j at sel(1) by (simp add: clear_def)
  next
    case False
    then have "clear sel (?bs ! j) = ?bs ! j"
      using only [OF j] by (auto simp: clear_def split: option.split)
    then show ?thesis using False j by simp
  qed
  then show "map (clear sel) ?bs = ?bs[?i := None]"
    by (intro nth_equalityI) simp_all
  have none: "filter sel (occupants cs) = []" if "\<And>g. Some g \<in> set cs \<Longrightarrow> \<not> sel g" for cs
    using that by (induction cs rule: occupants.induct) auto
  have "filter sel (occupants (take ?i ?bs)) = []"
  proof (rule none)
    fix g assume "Some g \<in> set (take ?i ?bs)"
    then obtain j where "j < ?i" "?bs ! j = Some g" using i by (auto simp: in_set_conv_nth)
    then show "\<not> sel g" using only [of j g] i by auto
  qed
  moreover have "filter sel (occupants (drop (Suc ?i) ?bs)) = []"
  proof (rule none)
    fix g assume "Some g \<in> set (drop (Suc ?i) ?bs)"
    then obtain n where "n < length (drop (Suc ?i) ?bs)" "drop (Suc ?i) ?bs ! n = Some g"
      by (auto simp only: in_set_conv_nth)
    then have "Suc ?i + n < length ?bs" "?bs ! (Suc ?i + n) = Some g" by auto
    then show "\<not> sel g" using only [of "Suc ?i + n" g] by auto
  qed
  moreover have "occupants ?bs = occupants (take ?i ?bs) @ f # occupants (drop (Suc ?i) ?bs)"
    using arg_cong [OF id_take_nth_drop [OF i], of occupants] by (simp add: at)
  ultimately show "filter sel (hash_entries th) = [f]"
    using sel(1) by (simp add: hash_entries_def)
qed

lemma bucket_no_match:
  assumes inv: "hash_inv th" and b: "\<And>f. bucket th key = Some f \<Longrightarrow> \<not> sel f"
    and sel: "\<And>g. sel g \<Longrightarrow> k_flow (sf_key g) = k_flow key"
  shows "filter sel (hash_entries th) = []" "map (clear sel) (th_buckets th) = th_buckets th"
proof -
  have no: "\<not> sel g" if "g \<in> set (hash_entries th)" for g
    using that b [of g] sel [of g] hash_entries_iff [OF inv, of g] find_bucket_flow [of "sf_key g" key th]
    by (auto simp: bucket_def)
  then show "filter sel (hash_entries th) = []" by (simp add: filter_empty_conv)
  have "clear sel b = b" if "b \<in> set (th_buckets th)" for b
  proof (cases b)
    case (Some g)
    with that have "g \<in> set (hash_entries th)"
      by (metis hash_entries_def in_set_conv_nth set_occupants)
    with Some no show ?thesis by (simp add: clear_def)
  qed (simp add: clear_def)
  then show "map (clear sel) (th_buckets th) = th_buckets th"
    by (simp add: map_idI)
qed

text \<open>Deletion, for exact keys and for keys with wildcards.\<close>

lemma table_hash_delete_eq:
  fixes key out_port strict
  assumes inv: "hash_inv th"
  defines "sel \<equiv> hash_deletes key out_port strict"
  shows "table_hash_delete th key out_port priority strict =
    Some (of_nat (length (filter sel (hash_entries th))),
      th\<lparr>th_buckets := map (clear sel) (th_buckets th),
         th_n_flows := th_n_flows th - of_nat (length (filter sel (hash_entries th)))\<rparr>,
      filter sel (hash_entries th))"
proof (cases "k_wildcards key = 0")
  case False
  have "\<forall>f\<in>set (occupants (th_buckets th)). wf_acts (sf_acts f)"
    using hash_entry_ok(1) [OF inv] by (simp add: hash_entries_def entry_ok_def)
  then show ?thesis
    using False by (simp add: table_hash_delete_def hash_delete_loop_eq sel_def hash_entries_def)
next
  case True
  have sel: "\<And>g. sel g \<Longrightarrow> k_flow (sf_key g) = k_flow key"
    using True by (simp add: sel_def hash_deletes_def)
  show ?thesis
  proof (cases "\<exists>f. bucket th key = Some f \<and> sel f")
    case True
    then obtain f where f: "bucket th key = Some f" "sel f" by blast
    note c = clear_flow [where sel = sel, OF inv f(1) sel [OF f(2)] f(2) sel]
    have "k_flow (sf_key f) = k_flow key" "flow_has_out_port f out_port = Some True"
      using f(2) sel by (simp_all add: sel_def hash_deletes_def)
    then show ?thesis
      using f(1) \<open>k_wildcards key = 0\<close> by (simp add: table_hash_delete_def c)
  next
    case no: False
    then have n: "\<And>f. bucket th key = Some f \<Longrightarrow> \<not> sel f" by blast
    note c = bucket_no_match [where sel = sel, OF inv n sel]
    have "table_hash_delete th key out_port priority strict = Some (0, th, [])"
    proof (cases "bucket th key")
      case None
      then show ?thesis using True by (simp add: table_hash_delete_def)
    next
      case (Some f)
      obtain has where h: "flow_has_out_port f out_port = Some has"
        using flow_has_out_port_total [of f out_port] bucket_entry(2) [OF inv Some] by (auto simp: entry_ok_def)
      then show ?thesis
        using n [OF Some] Some True by (auto simp: table_hash_delete_def sel_def hash_deletes_def)
    qed
    then show ?thesis by (simp add: c)
  qed
qed

lemma hash_timeout_loop_eq:
  fixes now :: u64
  defines "out \<equiv> \<lambda>f. fst (flow_timeout now f)"
  shows "hash_timeout_loop now bs n d =
    (map (clear out) bs, n - of_nat (length (filter out (occupants bs))),
     d @ map (snd \<circ> flow_timeout now) (filter out (occupants bs)))"
proof (induction bs arbitrary: n d rule: occupants.induct)
  case (3 f bs)
  obtain b f' where t: "flow_timeout now f = (b, f')" by fastforce
  then have "\<not> b \<Longrightarrow> f' = f" using flow_timeout_False [of now f] by simp
  with t 3 show ?case
    by (cases b) (simp_all add: out_def clear_def diff_diff_eq)
qed (simp_all add: clear_def)

lemma table_hash_timeout_eq:
  fixes now :: u64
  defines "out \<equiv> \<lambda>f. fst (flow_timeout now f)"
  shows "table_hash_timeout now th d =
    (th\<lparr>th_buckets := map (clear out) (th_buckets th),
       th_n_flows := th_n_flows th - of_nat (length (filter out (hash_entries th)))\<rparr>,
     d @ map (snd \<circ> flow_timeout now) (filter out (hash_entries th)))"
  by (simp add: table_hash_timeout_def hash_timeout_loop_eq out_def hash_entries_def)

lemma hash_modify_loop_eq:
  "hash_modify_loop sel alloc actions bs c =
    (c + of_nat (length (filter sel (occupants bs))),
     map (map_option (\<lambda>f. if sel f then flow_replace_acts (alloc (sf_addr f)) f actions else f)) bs)"
  by (induction bs arbitrary: c rule: occupants.induct) (simp_all add: add.assoc)

lemma flow_replace_acts_key [simp]: "sf_key (flow_replace_acts ok f acts) = sf_key f"
  by (simp add: flow_replace_acts_def)

lemma flow_replace_acts_ok: "entry_ok f \<Longrightarrow> wf_acts acts \<Longrightarrow> entry_ok (flow_replace_acts ok f acts)"
  by (simp add: flow_replace_acts_def entry_ok_def)

lemma length_occupants_map [simp]: "length (occupants (map (map_option r) bs)) = length (occupants bs)"
  by (induction bs rule: occupants.induct) simp_all

lemma hash_modify_inv:
  assumes inv: "hash_inv th" and acts: "wf_acts actions"
  shows "hash_inv (snd (table_hash_modify alloc th key priority strict actions))"
proof (cases "k_wildcards key = 0")
  case True
  show ?thesis
  proof (cases "bucket th key")
    case (Some f)
    let ?i = "find_bucket th key" and ?f = "flow_replace_acts (alloc (sf_addr f)) f actions"
    have len: "length (occupants ((th_buckets th)[?i := Some ?f])) = length (occupants (th_buckets th))"
      using length_occupants_update [OF find_bucket_less [OF inv, of key], of "Some ?f"] Some
      by (simp add: bucket_def)
    have "hash_inv (th\<lparr>th_buckets := (th_buckets th)[?i := Some ?f]\<rparr>)"
      by (rule hash_inv_update [OF inv, of _ ?i "Some ?f"])
         (use len hash_invD(3) [OF inv] bucket_entry [OF inv Some] acts in
           \<open>auto simp: hash_entries_def flow_replace_acts_ok\<close>)
    then show ?thesis using Some True inv by (simp add: table_hash_modify_def)
  qed (use True inv in \<open>simp add: table_hash_modify_def\<close>)
next
  case False
  let ?r = "\<lambda>f. if hash_modifies key priority strict f
    then flow_replace_acts (alloc (sf_addr f)) f actions else f"
  have "hash_inv (th\<lparr>th_buckets := map (map_option ?r) (th_buckets th)\<rparr>)"
    using hash_invD [OF inv] acts
    by (intro hash_invI) (auto simp: hash_entries_def find_bucket_cong flow_replace_acts_ok)
  then show ?thesis using False by (simp add: table_hash_modify_def hash_modify_loop_eq)
qed

section \<open>The double-hashing table is a flow table\<close>

definition hash2_inv :: "sw_table_hash2 \<Rightarrow> bool" where
  "hash2_inv t2 \<longleftrightarrow> hash_inv (t2_subtable0 t2) \<and> hash_inv (t2_subtable1 t2)"

definition hash2_addable :: "sw_table_hash2 \<Rightarrow> sw_flow \<Rightarrow> bool" where
  "hash2_addable t2 f \<longleftrightarrow> entry_ok f"

definition hash2_entries :: "sw_table_hash2 \<Rightarrow> sw_flow list" where
  "hash2_entries t2 = hash_entries (t2_subtable0 t2) @ hash_entries (t2_subtable1 t2)"

lemma table_hash2_lookup_eq:
  "table_hash2_lookup t2 key =
     (case table_hash_lookup (t2_subtable0 t2) key of
        Some f \<Rightarrow> Some f | None \<Rightarrow> table_hash_lookup (t2_subtable1 t2) key)"
  by (simp add: table_hash2_lookup_def table_hash_lookup_def split: option.split)

lemma hash2_insert_cases [consumes 1, case_names sub0 sub1 fail]:
  assumes "table_hash2_insert t2 flow = (ok, t2')"
  obtains th where "table_hash_insert (t2_subtable0 t2) flow = (True, th)" "ok"
      "t2' = t2\<lparr>t2_subtable0 := th\<rparr>"
    | th where "\<not> fst (table_hash_insert (t2_subtable0 t2) flow)"
      "table_hash_insert (t2_subtable1 t2) flow = (True, th)" "ok" "t2' = t2\<lparr>t2_subtable1 := th\<rparr>"
    | "\<not> fst (table_hash_insert (t2_subtable0 t2) flow)"
      "\<not> fst (table_hash_insert (t2_subtable1 t2) flow)" "\<not> ok" "t2' = t2"
proof -
  obtain b0 th0 b1 th1 where t: "table_hash_insert (t2_subtable0 t2) flow = (b0, th0)"
    "table_hash_insert (t2_subtable1 t2) flow = (b1, th1)"
    by fastforce
  have f: "\<not> b0 \<Longrightarrow> th0 = t2_subtable0 t2" "\<not> b1 \<Longrightarrow> th1 = t2_subtable1 t2"
    using hash_insert_fail [of "t2_subtable0 t2" flow] hash_insert_fail [of "t2_subtable1 t2" flow] t by simp_all
  show thesis
  proof (cases b0)
    case True
    then show ?thesis using assms t by (intro that(1) [of th0]) (simp_all add: table_hash2_insert_def)
  next
    case b0: False
    show ?thesis
    proof (cases b1)
      case True
      then show ?thesis
        using assms t b0 f by (intro that(2) [of th1]) (simp_all add: table_hash2_insert_def)
    next
      case False
      then show ?thesis using assms t b0 f by (intro that(3)) (simp_all add: table_hash2_insert_def)
    qed
  qed
qed

lemma exact_matches:
  assumes "packet_key p" "entry_ok f" "k_wildcards (sf_key f) = 0"
  shows "entry_matches p f \<longleftrightarrow> k_flow (sf_key f) = k_flow p"
  using packet_matches_exact [OF assms(1) _ assms(3)] assms(2) by (auto simp: entry_ok_def)

lemma hash_insert_wild: "table_hash_insert th flow = (True, th') \<Longrightarrow> k_wildcards (sf_key flow) = 0"
  by (auto simp: table_hash_insert_def split: if_splits)

lemma hash_lookup_insert:
  assumes inv: "hash_inv th" and ins: "table_hash_insert th flow = (True, th')"
  shows "table_hash_lookup th' p =
    (if k_flow p = k_flow (sf_key flow) then Some flow else table_hash_lookup th p)"
proof -
  have eq: "k_flow p = k_flow (sf_key flow) \<Longrightarrow> find_bucket th p = find_bucket th (sf_key flow)"
    by (rule find_bucket_flow)
  have old: "k_flow p \<noteq> k_flow (sf_key flow) \<Longrightarrow> find_bucket th p = find_bucket th (sf_key flow) \<Longrightarrow>
      table_hash_lookup th p = None"
  proof -
    assume a: "k_flow p \<noteq> k_flow (sf_key flow)" "find_bucket th p = find_bucket th (sf_key flow)"
    have "\<forall>f. bucket th (sf_key flow) = Some f \<longrightarrow> k_flow (sf_key f) = k_flow (sf_key flow)"
      using hash_insert_ok_iff [of th flow] ins by simp
    then show ?thesis using a by (auto simp: table_hash_lookup_def bucket_def split: option.split)
  qed
  show ?thesis
    using eq old hash_insert_lookup [OF inv ins, of p]
    by (cases "find_bucket th p = find_bucket th (sf_key flow)") (auto simp: table_hash_lookup_def)
qed

lemma hash2_lookup_insert:
  assumes inv: "hash2_inv t2" and ins: "table_hash2_insert t2 flow = (True, t2')"
  shows "table_hash2_lookup t2' p =
    (if k_flow p = k_flow (sf_key flow) then Some flow else table_hash2_lookup t2 p)"
  using ins
proof (cases rule: hash2_insert_cases)
  case (sub0 th)
  then show ?thesis
    using inv by (simp add: table_hash2_lookup_eq hash2_inv_def hash_lookup_insert [OF _ sub0(1)]
        split: option.split)
next
  case (sub1 th)
  have w: "k_wildcards (sf_key flow) = 0" using sub1(2) by (rule hash_insert_wild)
  obtain old where old: "bucket (t2_subtable0 t2) (sf_key flow) = Some old"
      "k_flow (sf_key old) \<noteq> k_flow (sf_key flow)"
    using sub1(1) w by (auto simp: hash_insert_ok_iff)
  have "table_hash_lookup (t2_subtable0 t2) p = None" if "k_flow p = k_flow (sf_key flow)"
    using old that find_bucket_flow [OF that, of "t2_subtable0 t2"]
    by (simp add: table_hash_lookup_def bucket_def)
  then show ?thesis
    using inv sub1 by (auto simp: table_hash2_lookup_eq hash2_inv_def hash_lookup_insert [OF _ sub1(2)]
        split: option.split)
qed simp

lemma hash2_insert_inv: "hash2_inv t2 \<Longrightarrow> entry_ok f \<Longrightarrow> hash2_inv (snd (table_hash2_insert t2 f))"
  using hash_insert_inv [of "t2_subtable0 t2" f] hash_insert_inv [of "t2_subtable1 t2" f]
  by (auto simp: table_hash2_insert_def hash2_inv_def split: prod.split bool.split)

lemma hash2_insert_entries:
  assumes inv: "hash2_inv t2" and f: "entry_ok f" and ins: "table_hash2_insert t2 f = (True, t2')"
  shows "f \<in> set (hash2_entries t2') \<and> (\<exists>old. mset (hash2_entries t2') + mset old = mset (hash2_entries t2) + {#f#}
    \<and> length old \<le> 1 \<and> (\<forall>g\<in>set old. \<forall>p. packet_key p \<longrightarrow> entry_matches p g = entry_matches p f))"
proof -
  have I: "hash_inv (t2_subtable0 t2)" "hash_inv (t2_subtable1 t2)" using inv by (simp_all add: hash2_inv_def)
  have same: "\<forall>p. packet_key p \<longrightarrow> entry_matches p g = entry_matches p f"
    if "hash_inv th" "g \<in> set (hash_entries th)" "k_flow (sf_key g) = k_flow (sf_key f)"
      "k_wildcards (sf_key f) = 0" for g th
    using that exact_matches f hash_entry_ok [OF that(1,2)] by simp
  from ins show ?thesis
  proof (cases rule: hash2_insert_cases)
    case (sub0 th)
    then obtain old where o: "mset (hash_entries th) + mset old = mset (hash_entries (t2_subtable0 t2)) + {#f#}"
      "length old \<le> 1" "\<forall>g\<in>set old. g \<in> set (hash_entries (t2_subtable0 t2)) \<and> k_flow (sf_key g) = k_flow (sf_key f)"
      and "f \<in> set (hash_entries th)"
      using hash_insert_entries [OF I(1) sub0(1)] by blast
    then show ?thesis
      using sub0 same [OF I(1)] hash_insert_wild [OF sub0(1)]
      by (intro conjI exI [of _ old]) (simp_all add: hash2_entries_def)
  next
    case (sub1 th)
    then obtain old where o: "mset (hash_entries th) + mset old = mset (hash_entries (t2_subtable1 t2)) + {#f#}"
      "length old \<le> 1" "\<forall>g\<in>set old. g \<in> set (hash_entries (t2_subtable1 t2)) \<and> k_flow (sf_key g) = k_flow (sf_key f)"
      and "f \<in> set (hash_entries th)"
      using hash_insert_entries [OF I(2) sub1(2)] by blast
    then show ?thesis
      using sub1 same [OF I(2)] hash_insert_wild [OF sub1(2)]
      by (intro conjI exI [of _ old]) (simp_all add: hash2_entries_def)
  qed simp
qed

lemma length_u32_sum:
  "length xs < 0x80000000 \<Longrightarrow> length ys < 0x80000000 \<Longrightarrow>
     unat (of_nat (length xs) + of_nat (length ys) :: u32) = length xs + length ys"
  by (simp add: unat_word_ariths unat_of_nat)

lemma table_hash2_delete_eq:
  fixes key out_port strict
  assumes inv: "hash2_inv t2"
  defines "sel \<equiv> hash_deletes key out_port strict"
  shows "\<exists>c t2'. table_hash2_delete t2 key out_port priority strict = Some (c, t2', filter sel (hash2_entries t2))
    \<and> unat c = length (filter sel (hash2_entries t2))
    \<and> hash2_entries t2' = filter (\<lambda>f. \<not> sel f) (hash2_entries t2) \<and> hash2_inv t2'"
proof -
  have I: "hash_inv (t2_subtable0 t2)" "hash_inv (t2_subtable1 t2)" using inv by (simp_all add: hash2_inv_def)
  show ?thesis
    using table_hash_delete_eq [OF I(1), of key out_port priority strict]
      table_hash_delete_eq [OF I(2), of key out_port priority strict]
      hash_inv_clear [OF I(1), of sel] hash_inv_clear [OF I(2), of sel]
      length_u32_sum [OF filter_occupants_u32(2) [OF I(1), of sel] filter_occupants_u32(2) [OF I(2), of sel]]
    by (simp add: table_hash2_delete_def hash2_inv_def hash2_entries_def hash_entries_def occupants_clear sel_def)
qed

interpretation hash2: flow_table hash2_inv hash2_addable hash2_entries table_hash2_lookup
  table_hash2_insert table_hash2_delete table_hash2_timeout
proof
  fix t f assume "hash2_inv t" "f \<in> set (hash2_entries t)"
  then show "entry_ok f" by (auto simp: hash2_inv_def hash2_entries_def hash_entry_ok)
next
  fix t p f assume i: "hash2_inv t" and p: "packet_key p" and l: "table_hash2_lookup t p = Some f"
  obtain th where th: "hash_inv th" "f \<in> set (hash_entries th)" "k_flow (sf_key f) = k_flow p"
      "set (hash_entries th) \<subseteq> set (hash2_entries t)"
    using i l by (auto simp: table_hash2_lookup_eq hash2_inv_def hash2_entries_def table_hash_lookup_iff
        split: option.splits)
  then show "f \<in> set (hash2_entries t) \<and> entry_matches p f"
    using exact_matches [OF p] hash_entry_ok [OF th(1,2)] by blast
next
  fix t p f assume i: "hash2_inv t" and p: "packet_key p" and l: "table_hash2_lookup t p = None"
    and f: "f \<in> set (hash2_entries t)"
  have "table_hash_lookup (t2_subtable0 t) p \<noteq> Some f" "table_hash_lookup (t2_subtable1 t) p \<noteq> Some f"
    using l by (auto simp: table_hash2_lookup_eq split: option.splits)
  then have "k_flow (sf_key f) \<noteq> k_flow p"
    using f i by (auto simp: table_hash_lookup_iff hash2_inv_def hash2_entries_def)
  moreover have "entry_ok f" "k_wildcards (sf_key f) = 0"
    using f i by (auto simp: hash2_inv_def hash2_entries_def hash_entry_ok)
  ultimately show "\<not> entry_matches p f" using exact_matches [OF p] by blast
next
  fix t f assume i: "hash2_inv t" and a: "hash2_addable t f"
  then show "hash2_inv (snd (table_hash2_insert t f))"
    by (simp add: hash2_insert_inv hash2_addable_def)
next
  fix t f assume n: "\<not> fst (table_hash2_insert t f)"
  obtain b t' where t': "table_hash2_insert t f = (b, t')" by fastforce
  have "\<not> b" using n t' by simp
  with t' have "t' = t" by (cases rule: hash2_insert_cases) simp_all
  then show "snd (table_hash2_insert t f) = t" by (simp add: t')
next
  fix t f assume i: "hash2_inv t" and a: "hash2_addable t f" and ok: "fst (table_hash2_insert t f)"
  obtain t' where t': "table_hash2_insert t f = (True, t')" using ok by (metis (full_types) prod.collapse)
  obtain old where o: "f \<in> set (hash2_entries t')" "mset (hash2_entries t') + mset old = mset (hash2_entries t) + {#f#}"
      "length old \<le> 1" "\<forall>g\<in>set old. \<forall>p. packet_key p \<longrightarrow> entry_matches p g = entry_matches p f"
    using hash2_insert_entries [OF i _ t'] a by (auto simp: hash2_addable_def)
  moreover have "f\<lparr>sf_serial := sf_serial f\<rparr> = f" by simp
  ultimately show "\<exists>s old. f\<lparr>sf_serial := s\<rparr> \<in> set (hash2_entries (snd (table_hash2_insert t f)))
    \<and> mset (hash2_entries (snd (table_hash2_insert t f))) + mset old
       = mset (hash2_entries t) + {#f\<lparr>sf_serial := s\<rparr>#}
    \<and> length old \<le> 1 \<and> (\<forall>g\<in>set old. \<forall>p. packet_key p \<longrightarrow> entry_matches p g = entry_matches p f)"
    unfolding t' snd_conv by metis
next
  fix t f p assume i: "hash2_inv t" and a: "hash2_addable t f" and p: "packet_key p" "\<not> entry_matches p f"
  obtain b t' where t': "table_hash2_insert t f = (b, t')" by fastforce
  show "table_hash2_lookup (snd (table_hash2_insert t f)) p = table_hash2_lookup t p"
  proof (cases b)
    case True
    have "k_wildcards (sf_key f) = 0"
      using t' True by (auto elim!: hash2_insert_cases dest: hash_insert_wild)
    then have "k_flow p \<noteq> k_flow (sf_key f)"
      using exact_matches [OF p(1), of f] p(2) a by (auto simp: hash2_addable_def)
    then show ?thesis using hash2_lookup_insert [OF i] t' True by simp
  next
    case False
    with t' have "t' = t" by (cases rule: hash2_insert_cases) simp_all
    then show ?thesis by (simp add: t')
  qed
next
  fix t k op pr st c t' ended
  assume "hash2_inv t" "table_hash2_delete t k op pr st = Some (c, t', ended)"
  then show "hash2_inv t'" using table_hash2_delete_eq [of t k op pr st] by auto
next
  fix t k op pr st assume "hash2_inv t"
  then show "table_hash2_delete t k op pr st \<noteq> None" using table_hash2_delete_eq [of t k op pr st] by auto
next
  fix t k op pr st c t' ended
  assume "hash2_inv t" "table_hash2_delete t k op pr st = Some (c, t', ended)"
  then show "mset (hash2_entries t') + mset ended = mset (hash2_entries t) \<and> unat c = length ended"
    using table_hash2_delete_eq [of t k op pr st] by auto
next
  fix t now d assume "hash2_inv t"
  then show "hash2_inv (fst (table_hash2_timeout now t d))"
    by (simp add: table_hash2_timeout_def table_hash_timeout_eq hash2_inv_def hash_inv_clear)
next
  fix t now d
  show "hash2_entries (fst (table_hash2_timeout now t d))
      = filter (\<lambda>f. \<not> fst (flow_timeout now f)) (hash2_entries t)
    \<and> snd (table_hash2_timeout now t d) = d @ map (snd \<circ> flow_timeout now)
         (filter (\<lambda>f. fst (flow_timeout now f)) (hash2_entries t))"
    by (simp add: table_hash2_timeout_def table_hash_timeout_eq hash2_entries_def hash_entries_def occupants_clear)
qed

section \<open>Iteration\<close>

definition hash_selects :: "sw_flow_key \<Rightarrow> u16 \<Rightarrow> sw_flow \<Rightarrow> bool" where
  "hash_selects key out_port f \<longleftrightarrow> flow_matches_1wild (sf_key f) key
     \<and> flow_has_out_port f out_port = Some True"

text \<open>The entries an iteration from bucket \<open>n\<close> visits.\<close>

definition hash_selected :: "sw_table_hash \<Rightarrow> sw_flow_key \<Rightarrow> u16 \<Rightarrow> nat \<Rightarrow> sw_flow list" where
  "hash_selected th key out_port n = filter (hash_selects key out_port) (occupants (drop n (th_buckets th)))"

lemma hash_iterate_loop_eq:
  assumes "\<forall>f\<in>set (occupants bs). wf_acts (sf_acts f)"
  shows "\<exists>p. hash_iterate_loop key out_port cb bs i s =
    (case run_callback cb (filter (hash_selects key out_port) (occupants bs)) s of
       (e, st, s') \<Rightarrow> Some (e, p, s'))
    \<and> (case run_callback cb (filter (hash_selects key out_port) (occupants bs)) s of
       (e, st, s') \<Rightarrow> if e = 0 then p = None else
         \<exists>n<length bs. p = Some (i + of_nat (n + 1)) \<and> (\<exists>us f. st = Some f \<and>
           filter (hash_selects key out_port) (occupants bs)
             = us @ f # filter (hash_selects key out_port) (occupants (drop (n + 1) bs))))"
  using assms
proof (induction bs arbitrary: i s)
  case Nil
  then show ?case by simp
next
  case (Cons b bs)
  have skip: ?case if eq: "hash_iterate_loop key out_port cb (b # bs) i s = hash_iterate_loop key out_port cb bs (i + 1) s1"
    and sel: "filter (hash_selects key out_port) (occupants (b # bs)) = pre @ filter (hash_selects key out_port) (occupants bs)"
    and run: "run_callback cb (pre @ filter (hash_selects key out_port) (occupants bs)) s
      = run_callback cb (filter (hash_selects key out_port) (occupants bs)) s1" for pre s1
  proof -
    obtain e st s' where r: "run_callback cb (filter (hash_selects key out_port) (occupants bs)) s1 = (e, st, s')"
      by (metis prod_cases3)
    have "\<forall>f\<in>set (occupants bs). wf_acts (sf_acts f)" using Cons.prems by (cases b) auto
    from Cons.IH [OF this, of "i + 1" s1] obtain p where
      p: "hash_iterate_loop key out_port cb bs (i + 1) s1 = Some (e, p, s')"
      and q: "if e = 0 then p = None else
         \<exists>n<length bs. p = Some (i + 1 + of_nat (n + 1)) \<and> (\<exists>us f. st = Some f \<and>
           filter (hash_selects key out_port) (occupants bs)
             = us @ f # filter (hash_selects key out_port) (occupants (drop (n + 1) bs)))"
      unfolding r by auto
    show ?thesis
    proof (cases "e = 0")
      case True
      then show ?thesis using eq sel run r p q by auto
    next
      case False
      then obtain n us f where n: "n < length bs" "p = Some (i + 1 + of_nat (n + 1))" "st = Some f"
        "filter (hash_selects key out_port) (occupants bs)
           = us @ f # filter (hash_selects key out_port) (occupants (drop (n + 1) bs))"
        using q by auto
      have "p = Some (i + of_nat (Suc n + 1))" using n(2) by (simp add: algebra_simps)
      then show ?thesis
        unfolding eq sel run r p
        using False n by (auto intro!: exI [of _ "Suc n"] exI [of _ "pre @ us"])
    qed
  qed
  show ?case
  proof (cases b)
    case None
    then show ?thesis by (intro skip [of s "[]"]) simp_all
  next
    case (Some f)
    obtain has where h: "flow_has_out_port f out_port = Some has"
      using flow_has_out_port_total Cons.prems Some by fastforce
    obtain e1 s1 where cb: "cb f s = (e1, s1)" by fastforce
    show ?thesis
    proof (cases "hash_selects key out_port f")
      case False
      then show ?thesis using Some h by (intro skip [of s "[]"]) (auto simp: hash_selects_def)
    next
      case sel: True
      show ?thesis
      proof (cases "e1 = 0")
        case True
        then show ?thesis
          using Some sel cb by (intro skip [of s1 "[f]"]) (auto simp: hash_selects_def)
      next
        case False
        then show ?thesis
          using Some sel cb by (auto simp: hash_selects_def intro!: exI [of _ 0] exI [of _ "[]"])
      qed
    qed
  qed
qed

lemma hash_iterate_resume:
  assumes inv: "hash_inv th" and w: "k_wildcards key \<noteq> 0" and pos: "pos0 position \<le> ucast (th_bucket_mask th)"
    and it: "table_hash_iterate th key out_port position cb s = Some (e, position', s')" and e: "e \<noteq> 0"
  shows "\<exists>us f vs. hash_selected th key out_port (unat (pos0 position)) = us @ f # vs
    \<and> run_callback cb (us @ f # vs) s = (e, Some f, s')
    \<and> hash_selected th key out_port (unat (pos0 position')) = vs"
proof -
  let ?bs = "drop (unat (pos0 position)) (th_buckets th)"
  let ?sel = "filter (hash_selects key out_port) (occupants ?bs)"
  have "set (occupants ?bs) \<subseteq> set (hash_entries th)"
    unfolding hash_entries_def by (metis append_take_drop_id occupants_append set_append sup_ge2)
  then have "\<forall>f\<in>set (occupants ?bs). wf_acts (sf_acts f)"
    using hash_entry_ok(1) [OF inv] by (auto simp: entry_ok_def)
  note loop = hash_iterate_loop_eq [OF this, of key out_port cb "pos0 position" s]
  have np: "\<not> ucast (th_bucket_mask th) < pos0 position" using pos by simp
  obtain p where l: "hash_iterate_loop key out_port cb ?bs (pos0 position) s = Some (e, p, s')"
    and p: "position' = (case p of None \<Rightarrow> position | Some v \<Rightarrow> position\<lparr>pos0 := v\<rparr>)"
    using it w np by (auto simp: table_hash_iterate_def)
  obtain st where r: "run_callback cb ?sel s = (e, st, s')"
    and q: "\<exists>n<length ?bs. p = Some (pos0 position + of_nat (n + 1)) \<and> (\<exists>us f. st = Some f \<and>
       ?sel = us @ f # filter (hash_selects key out_port) (occupants (drop (n + 1) ?bs)))"
    using loop l e by (auto split: prod.splits)
  then obtain n us f where n: "n < length ?bs" "p = Some (pos0 position + of_nat (n + 1))" "st = Some f"
    "?sel = us @ f # filter (hash_selects key out_port) (occupants (drop (n + 1) ?bs))" by blast
  have len: "length (th_buckets th) \<le> 0x40000000"
    using hash_invD(1,2) [OF inv] by (simp add: word_less_nat_alt)
  have sum: "unat (pos0 position) + (n + 1) \<le> 0x40000000" using n(1) len by simp
  then have "unat (pos0 position + of_nat (n + 1)) = unat (pos0 position) + (n + 1)"
    by (simp add: unat_word_ariths unat_of_nat)
  then have "hash_selected th key out_port (unat (pos0 position'))
      = filter (hash_selects key out_port) (occupants (drop (n + 1) ?bs))"
    using p n(2) by (simp add: hash_selected_def add.commute)
  then show ?thesis
    using n(3,4) r by (auto simp: hash_selected_def)
qed

section \<open>Properties\<close>

text \<open>
  C7. After a successful insertion into the double-hashing table a lookup of the flow returns the
  new entry, and the lookup of every other flow returns what it did before.
\<close>

theorem hash2_lookup_after_insert:
  assumes "hash2_inv t2" and "table_hash2_insert t2 flow = (True, t2')"
  shows "table_hash2_lookup t2' key =
    (if k_flow key = k_flow (sf_key flow) then Some flow else table_hash2_lookup t2 key)"
  using assms by (rule hash2_lookup_insert)

text \<open>
  An insertion into the double-hashing table fails only for an entry with wildcards or when both
  buckets of the flow hold other flows, and then changes nothing.
\<close>

theorem hash2_insert_fails_iff:
  "(fst (table_hash2_insert t2 flow) = (k_wildcards (sf_key flow) = 0 \<and>
     (bucket_accepts (t2_subtable0 t2) flow \<or> bucket_accepts (t2_subtable1 t2) flow)))
   \<and> (if fst (table_hash2_insert t2 flow) then True else snd (table_hash2_insert t2 flow) = t2)"
proof -
  obtain ok t2' where "table_hash2_insert t2 flow = (ok, t2')" by fastforce
  then show ?thesis
  proof (cases rule: hash2_insert_cases)
    case (sub0 th)
    then have "fst (table_hash_insert (t2_subtable0 t2) flow)" by simp
    with sub0 \<open>table_hash2_insert t2 flow = (ok, t2')\<close> show ?thesis
      unfolding hash_insert_accepts by auto
  next
    case (sub1 th)
    then have "fst (table_hash_insert (t2_subtable1 t2) flow)" by simp
    with sub1(3) \<open>table_hash2_insert t2 flow = (ok, t2')\<close> show ?thesis
      unfolding hash_insert_accepts by auto
  next
    case fail
    with \<open>table_hash2_insert t2 flow = (ok, t2')\<close> show ?thesis
      unfolding hash_insert_accepts by auto
  qed
qed

text \<open>
  Deletion from the double-hashing table removes exactly the selected entries of both subtables
  (the entry of that very flow for a key without wildcards, whatever its priority), reports
  them, counts them and keeps every other entry; the table stays well-formed.
\<close>

theorem hash2_delete_exact:
  fixes key out_port strict
  assumes "hash2_inv t2"
  defines "sel \<equiv> \<lambda>f. (if k_wildcards key = 0 then k_flow (sf_key f) = k_flow key
      else flow_matches_desc (sf_key f) key strict) \<and> flow_has_out_port f out_port = Some True"
  shows "\<exists>c t2'. table_hash2_delete t2 key out_port priority strict = Some (c, t2', filter sel (hash2_entries t2))
    \<and> unat c = length (filter sel (hash2_entries t2))
    \<and> hash2_entries t2' = filter (\<lambda>f. \<not> sel f) (hash2_entries t2) \<and> hash2_inv t2'"
proof -
  have "sel = hash_deletes key out_port strict"
    by (intro ext) (simp add: sel_def hash_deletes_def)
  then show ?thesis using table_hash2_delete_eq [OF assms(1)] by simp
qed

text \<open>
  An iteration over a hash table stopped by the callback leaves the position of the next bucket,
  so that resuming it visits exactly the remaining selected entries.
\<close>

theorem hash_iterate_resumes:
  assumes "hash_inv th" and "k_wildcards key \<noteq> 0" and "pos0 position \<le> ucast (th_bucket_mask th)"
    and "table_hash_iterate th key out_port position cb s = Some (e, position', s')" and "e \<noteq> 0"
  shows "\<exists>us f vs. hash_selected th key out_port (unat (pos0 position)) = us @ f # vs
    \<and> run_callback cb (us @ f # vs) s = (e, Some f, s')
    \<and> hash_selected th key out_port (unat (pos0 position')) = vs"
  using assms by (rule hash_iterate_resume)

text \<open>
  Insertion does not replace every duplicate: when the bucket of the first subtable is free and
  the second subtable holds an entry of the same flow, both entries are in the table afterwards.
\<close>

theorem hash2_insert_keeps_duplicate:
  assumes "hash2_inv t2" and "k_wildcards (sf_key flow) = 0"
    and "bucket (t2_subtable0 t2) (sf_key flow) = None"
    and "bucket (t2_subtable1 t2) (sf_key flow) = Some old" and "k_flow (sf_key old) = k_flow (sf_key flow)"
  shows "\<exists>t2'. table_hash2_insert t2 flow = (True, t2')
    \<and> flow \<in> set (hash_entries (t2_subtable0 t2')) \<and> old \<in> set (hash_entries (t2_subtable1 t2'))"
proof -
  have "fst (table_hash_insert (t2_subtable0 t2) flow)"
    using assms by (simp add: hash_insert_ok_iff)
  then obtain th where th: "table_hash_insert (t2_subtable0 t2) flow = (True, th)"
    by (metis (full_types) prod.collapse)
  have I: "hash_inv (t2_subtable0 t2)" "hash_inv (t2_subtable1 t2)"
    using assms(1) by (simp_all add: hash2_inv_def)
  show ?thesis
    using th hash_insert_entries [OF I(1) th] bucket_entry(1) [OF I(2) assms(4)]
    by (simp add: table_hash2_insert_def)
qed

section \<open>Witnesses\<close>

definition sample_hash :: "sw_flow option \<Rightarrow> sw_table_hash" where
  "sample_hash b = \<lparr>th_n_lookup = 0, th_n_matched = 0, th_crc32 = [],
     th_n_flows = (case b of None \<Rightarrow> 0 | Some _ \<Rightarrow> 1), th_bucket_mask = 0, th_buckets = [b]\<rparr>"

definition exact_entry :: "nat \<Rightarrow> flow \<Rightarrow> sw_flow" where
  "exact_entry a f = sample_entry\<lparr>sf_addr := a, sf_key := \<lparr>k_flow = f, k_wildcards = 0,
     k_nw_src_mask = - 1, k_nw_dst_mask = - 1\<rparr>\<rparr>"

definition sample_hash2 :: sw_table_hash2 where
  "sample_hash2 = \<lparr>t2_n_lookup = 0, t2_n_matched = 0, t2_subtable0 = sample_hash None,
     t2_subtable1 = sample_hash (Some (exact_entry 1 sample_flow))\<rparr>"

lemma exact_entry_sel [simp]:
  "k_wildcards (sf_key (exact_entry a f)) = 0" "k_flow (sf_key (exact_entry a f)) = f"
  by (simp_all add: exact_entry_def)

lemma exact_entry_ok: "fl_pad f = 0 \<Longrightarrow> entry_ok (exact_entry a f)"
  using sample_entry_wf by (simp add: entry_ok_def key_ok_def exact_entry_def)

lemma sample_hash_bucket [simp]: "find_bucket (sample_hash b) k = 0" "bucket (sample_hash b) k = b"
  by (simp_all add: find_bucket_def bucket_def sample_hash_def)

lemma sample_hash_inv:
  assumes "\<And>f. b = Some f \<Longrightarrow> entry_ok f \<and> k_wildcards (sf_key f) = 0"
  shows "hash_inv (sample_hash b)"
proof (rule hash_invI)
  fix i f assume "i < length (th_buckets (sample_hash b))" "th_buckets (sample_hash b) ! i = Some f"
  then show "entry_ok f \<and> k_wildcards (sf_key f) = 0 \<and> find_bucket (sample_hash b) (sf_key f) = i"
    using assms [of f] by (simp add: sample_hash_def [of b])
qed (simp_all add: sample_hash_def hash_entries_def split: option.split)

lemma sample_flow_pad: "fl_pad sample_flow = 0"
  by (simp add: sample_flow_def)

lemma sample_hash2_inv: "hash2_inv sample_hash2"
  by (auto simp: hash2_inv_def sample_hash2_def exact_entry_ok sample_flow_pad intro!: sample_hash_inv)

theorem hash2_lookup_after_insert_witness:
  "table_hash2_lookup (snd (table_hash2_insert sample_hash2 (exact_entry 2 sample_flow)))
     (sf_key (exact_entry 3 sample_flow)) = Some (exact_entry 2 sample_flow)"
proof -
  obtain t2' where "table_hash2_insert sample_hash2 (exact_entry 2 sample_flow) = (True, t2')"
    by (simp add: table_hash2_insert_def table_hash_insert_def sample_hash2_def Let_def sample_hash_def
        find_bucket_def)
  with hash2_lookup_after_insert [OF sample_hash2_inv this] show ?thesis by simp
qed

theorem hash2_delete_exact_witness:
  "\<exists>c t2'. table_hash2_delete sample_hash2 (sf_key (exact_entry 9 sample_flow)) (htons OFPP_NONE) 0 True
    = Some (c, t2', [exact_entry 1 sample_flow]) \<and> hash2_entries t2' = []"
  using hash2_delete_exact [OF sample_hash2_inv, where key = "sf_key (exact_entry 9 sample_flow)"
      and out_port = "htons OFPP_NONE" and strict = True and priority = 0]
  by (auto simp: sample_hash2_def hash2_entries_def hash_entries_def sample_hash_def flow_has_out_port_def)

theorem hash2_insert_keeps_duplicate_witness:
  "\<exists>t2'. table_hash2_insert sample_hash2 (exact_entry 2 sample_flow) = (True, t2')
    \<and> exact_entry 2 sample_flow \<in> set (hash_entries (t2_subtable0 t2'))
    \<and> exact_entry 1 sample_flow \<in> set (hash_entries (t2_subtable1 t2'))"
  by (rule hash2_insert_keeps_duplicate [OF sample_hash2_inv]) (simp_all add: sample_hash2_def)

definition any_key :: sw_flow_key where
  "any_key = \<lparr>k_flow = sample_flow, k_wildcards = OFPFW_ALL, k_nw_src_mask = 0, k_nw_dst_mask = 0\<rparr>"

theorem hash_iterate_resumes_witness:
  "\<exists>us f vs. hash_selected (t2_subtable1 sample_hash2) any_key (htons OFPP_NONE) 0 = us @ f # vs
    \<and> hash_selected (t2_subtable1 sample_hash2) any_key (htons OFPP_NONE) 1 = vs"
proof -
  have it: "table_hash_iterate (t2_subtable1 sample_hash2) any_key (htons OFPP_NONE)
      \<lparr>pos0 = 0, pos1 = 0, pos2 = 0, pos3 = 0\<rparr> (\<lambda>f s. (- 1, s)) ()
      = Some (- 1, \<lparr>pos0 = 1, pos1 = 0, pos2 = 0, pos3 = 0\<rparr>, ())"
    by code_simp
  have "hash_inv (t2_subtable1 sample_hash2)" "k_wildcards any_key \<noteq> 0"
    using sample_hash2_inv by (simp_all add: hash2_inv_def any_key_def)
  from hash_iterate_resumes [OF this _ it] show ?thesis by auto
qed

end
