(* ===== verification/Ofpbuf.thy ===== *)
theory Ofpbuf
  imports OF_Prelude
begin

text \<open>
  The packet buffers of \<^verbatim>\<open>src/openflow/lib/ofpbuf.c\<close>. The memory at \<^verbatim>\<open>base\<close> is the byte list
  \<open>ob_base\<close>, whose length is \<^verbatim>\<open>allocated\<close>; pointers into it are offsets, a null header pointer
  is \<open>None\<close>. What \<^verbatim>\<open>malloc\<close> leaves in new memory is the argument \<open>m\<close>. A function whose
  assertion fails has the value \<open>None\<close>. Sizes are natural numbers: the lengths of buffers are
  far below the range of \<^verbatim>\<open>size_t\<close>.
\<close>

record ofpbuf =
  ob_base :: "u8 list"
  ob_data :: nat
  ob_size :: nat
  ob_l2 :: "nat option"
  ob_l3 :: "nat option"
  ob_l4 :: "nat option"
  ob_l7 :: "nat option"

type_synonym junk = "nat \<Rightarrow> u8"

definition ofpbuf_use :: "u8 list \<Rightarrow> ofpbuf" where
  "ofpbuf_use base = \<lparr>ob_base = base, ob_data = 0, ob_size = 0, ob_l2 = None, ob_l3 = None,
     ob_l4 = None, ob_l7 = None\<rparr>"

definition xmalloc :: "junk \<Rightarrow> nat \<Rightarrow> u8 list" where
  "xmalloc m n = map m [0..<n]"

definition ofpbuf_init :: "junk \<Rightarrow> nat \<Rightarrow> ofpbuf" where
  "ofpbuf_init m n = ofpbuf_use (if n \<noteq> 0 then xmalloc m n else [])"

definition ofpbuf_new :: "junk \<Rightarrow> nat \<Rightarrow> ofpbuf" where
  "ofpbuf_new m n = ofpbuf_init m n"

definition ofpbuf_tail :: "ofpbuf \<Rightarrow> nat" where
  "ofpbuf_tail b = ob_data b + ob_size b"

definition ofpbuf_end :: "ofpbuf \<Rightarrow> nat" where
  "ofpbuf_end b = length (ob_base b)"

definition ofpbuf_headroom :: "ofpbuf \<Rightarrow> nat" where
  "ofpbuf_headroom b = ob_data b"

definition ofpbuf_tailroom :: "ofpbuf \<Rightarrow> nat" where
  "ofpbuf_tailroom b = ofpbuf_end b - ofpbuf_tail b"

text \<open>The pointers are moved with the memory, so their offsets stay.\<close>

definition ofpbuf_prealloc_tailroom :: "junk \<Rightarrow> ofpbuf \<Rightarrow> nat \<Rightarrow> ofpbuf" where
  "ofpbuf_prealloc_tailroom m b n =
     (if n > ofpbuf_tailroom b then
        (let new_allocated = length (ob_base b) + max n 64;
             new_base = xmalloc m new_allocated
         in b\<lparr>ob_base := stn new_base 0 (ob_base b)\<rparr>)
      else b)"

definition ofpbuf_prealloc_headroom :: "ofpbuf \<Rightarrow> nat \<Rightarrow> ofpbuf option" where
  "ofpbuf_prealloc_headroom b n = (if n \<le> ofpbuf_headroom b then Some b else None)"

text \<open>Functions that return a pointer return its offset, with the new buffer.\<close>

definition ofpbuf_put_uninit :: "junk \<Rightarrow> ofpbuf \<Rightarrow> nat \<Rightarrow> nat \<times> ofpbuf" where
  "ofpbuf_put_uninit m b n =
     (let b = ofpbuf_prealloc_tailroom m b n; p = ofpbuf_tail b
      in (p, b\<lparr>ob_size := ob_size b + n\<rparr>))"

definition ofpbuf_put_zeros :: "junk \<Rightarrow> ofpbuf \<Rightarrow> nat \<Rightarrow> nat \<times> ofpbuf" where
  "ofpbuf_put_zeros m b n =
     (let (dst, b) = ofpbuf_put_uninit m b n
      in (dst, b\<lparr>ob_base := stn (ob_base b) dst (replicate n 0)\<rparr>))"

definition ofpbuf_put :: "junk \<Rightarrow> ofpbuf \<Rightarrow> u8 list \<Rightarrow> nat \<times> ofpbuf" where
  "ofpbuf_put m b p =
     (let (dst, b) = ofpbuf_put_uninit m b (length p)
      in (dst, b\<lparr>ob_base := stn (ob_base b) dst p\<rparr>))"

definition ofpbuf_reserve :: "junk \<Rightarrow> ofpbuf \<Rightarrow> nat \<Rightarrow> ofpbuf option" where
  "ofpbuf_reserve m b n =
     (if ob_size b \<noteq> 0 then None
      else let b = ofpbuf_prealloc_tailroom m b n in Some (b\<lparr>ob_data := ob_data b + n\<rparr>))"

definition ofpbuf_push_uninit :: "ofpbuf \<Rightarrow> nat \<Rightarrow> (nat \<times> ofpbuf) option" where
  "ofpbuf_push_uninit b n =
     (case ofpbuf_prealloc_headroom b n of
        None \<Rightarrow> None
      | Some b \<Rightarrow> Some (ob_data b - n, b\<lparr>ob_data := ob_data b - n, ob_size := ob_size b + n\<rparr>))"

definition ofpbuf_push :: "ofpbuf \<Rightarrow> u8 list \<Rightarrow> (nat \<times> ofpbuf) option" where
  "ofpbuf_push b p =
     (case ofpbuf_push_uninit b (length p) of
        None \<Rightarrow> None
      | Some (dst, b) \<Rightarrow> Some (dst, b\<lparr>ob_base := stn (ob_base b) dst p\<rparr>))"

definition ofpbuf_at :: "ofpbuf \<Rightarrow> nat \<Rightarrow> nat \<Rightarrow> nat option" where
  "ofpbuf_at b offset n = (if offset + n \<le> ob_size b then Some (ob_data b + offset) else None)"

definition ofpbuf_at_assert :: "ofpbuf \<Rightarrow> nat \<Rightarrow> nat \<Rightarrow> nat option" where
  "ofpbuf_at_assert b offset n =
     (if offset + n \<le> ob_size b then Some (ob_data b + offset) else None)"

definition ofpbuf_clear :: "ofpbuf \<Rightarrow> ofpbuf" where
  "ofpbuf_clear b = b\<lparr>ob_data := 0, ob_size := 0\<rparr>"

definition ofpbuf_pull :: "ofpbuf \<Rightarrow> nat \<Rightarrow> (nat \<times> ofpbuf) option" where
  "ofpbuf_pull b n =
     (if ob_size b \<ge> n
      then Some (ob_data b, b\<lparr>ob_data := ob_data b + n, ob_size := ob_size b - n\<rparr>) else None)"

text \<open>A null result leaves the buffer as it is.\<close>

definition ofpbuf_try_pull :: "ofpbuf \<Rightarrow> nat \<Rightarrow> nat option \<times> ofpbuf" where
  "ofpbuf_try_pull b n =
     (if ob_size b \<ge> n then
        (case ofpbuf_pull b n of None \<Rightarrow> (None, b) | Some (p, b') \<Rightarrow> (Some p, b'))
      else (None, b))"

definition ofpbuf_clone_data :: "junk \<Rightarrow> u8 list \<Rightarrow> ofpbuf" where
  "ofpbuf_clone_data m data = snd (ofpbuf_put m (ofpbuf_new m (length data)) data)"

definition ofpbuf_clone :: "junk \<Rightarrow> ofpbuf \<Rightarrow> ofpbuf" where
  "ofpbuf_clone m buffer =
     ofpbuf_clone_data m (take (ob_size buffer) (drop (ob_data buffer) (ob_base buffer)))"

section \<open>The contents of a buffer\<close>

definition ofpbuf_wf :: "ofpbuf \<Rightarrow> bool" where
  "ofpbuf_wf b \<longleftrightarrow> ob_data b + ob_size b \<le> length (ob_base b)"

definition contents :: "ofpbuf \<Rightarrow> u8 list" where
  "contents b = take (ob_size b) (drop (ob_data b) (ob_base b))"

lemma length_contents: "ofpbuf_wf b \<Longrightarrow> length (contents b) = ob_size b"
  by (simp add: ofpbuf_wf_def contents_def)

lemma length_xmalloc [simp]: "length (xmalloc m n) = n"
  by (simp add: xmalloc_def)

lemma stn_eq: "i + length vs \<le> length bs \<Longrightarrow> stn bs i vs = take i bs @ vs @ drop (i + length vs) bs"
proof (induction vs arbitrary: bs i)
  case Nil
  then show ?case by simp
next
  case (Cons v vs)
  have "stn bs i (v # vs) = take (i + 1) (bs[i := v]) @ vs @ drop (i + 1 + length vs) (bs[i := v])"
    using Cons.IH [of "i + 1" "bs[i := v]"] Cons.prems by (simp add: st8_def)
  moreover have "take (i + 1) (bs[i := v]) = take i bs @ [v]"
    using Cons.prems by (simp add: take_Suc_conv_app_nth)
  ultimately show ?case using Cons.prems by simp
qed

lemma prealloc_tailroom:
  fixes m n
  assumes "ofpbuf_wf b"
  defines "b' \<equiv> ofpbuf_prealloc_tailroom m b n"
  shows "ofpbuf_wf b'" "contents b' = contents b" "n \<le> ofpbuf_tailroom b'"
    "ob_data b' = ob_data b" "ob_size b' = ob_size b"
    "take (length (ob_base b)) (ob_base b') = ob_base b"
  using assms
  by (auto simp: ofpbuf_prealloc_tailroom_def ofpbuf_wf_def contents_def ofpbuf_tailroom_def ofpbuf_end_def
      ofpbuf_tail_def Let_def stn_eq)


lemma put_contents:
  assumes "ofpbuf_wf b"
  shows "contents (snd (ofpbuf_put m b p)) = contents b @ p" "ofpbuf_wf (snd (ofpbuf_put m b p))"
    "fst (ofpbuf_put m b p) = ob_data b + ob_size b"
proof -
  note P = prealloc_tailroom [OF assms, where m = m and n = "length p"]
  let ?b = "ofpbuf_prealloc_tailroom m b (length p)"
  have room: "ob_data b + ob_size b + length p \<le> length (ob_base ?b)"
    using P(1,3,4,5) by (simp add: ofpbuf_tailroom_def ofpbuf_end_def ofpbuf_tail_def ofpbuf_wf_def)
  have put: "ofpbuf_put m b p = (ob_data b + ob_size b,
      ?b\<lparr>ob_size := ob_size b + length p, ob_base := stn (ob_base ?b) (ob_data b + ob_size b) p\<rparr>)"
    by (simp add: ofpbuf_put_def ofpbuf_put_uninit_def Let_def ofpbuf_tail_def P(4,5))
  then show "fst (ofpbuf_put m b p) = ob_data b + ob_size b" by simp
  show "ofpbuf_wf (snd (ofpbuf_put m b p))"
    using room P(4) by (simp add: put ofpbuf_wf_def)
  have "contents (snd (ofpbuf_put m b p)) = contents ?b @ p"
    using room P(4,5) by (simp add: put contents_def stn_eq min_absorb2 drop_take add.commute)
  then show "contents (snd (ofpbuf_put m b p)) = contents b @ p" by (simp add: P(2))
qed

lemma push_contents:
  assumes "ofpbuf_wf b" "ofpbuf_push b p = Some (dst, b')"
  shows "contents b' = p @ contents b" "ofpbuf_wf b'" "dst = ob_data b'"
proof -
  have h: "length p \<le> ob_data b"
    and b': "b' = b\<lparr>ob_data := ob_data b - length p, ob_size := ob_size b + length p,
      ob_base := stn (ob_base b) (ob_data b - length p) p\<rparr>" and "dst = ob_data b - length p"
    using assms(2) by (auto simp: ofpbuf_push_def ofpbuf_push_uninit_def ofpbuf_prealloc_headroom_def
        ofpbuf_headroom_def split: if_splits)
  then show "dst = ob_data b'" by simp
  show "ofpbuf_wf b'" using assms(1) h by (simp add: b' ofpbuf_wf_def)
  show "contents b' = p @ contents b"
    using assms(1) h by (simp add: b' contents_def stn_eq ofpbuf_wf_def)
qed

lemma pull_contents:
  assumes "ofpbuf_wf b" "ofpbuf_pull b n = Some (p, b')"
  shows "contents b = take n (contents b) @ contents b'" "length (take n (contents b)) = n"
    "ofpbuf_wf b'" "p = ob_data b" "ob_base b' = ob_base b"
proof -
  have n: "n \<le> ob_size b" and b': "b' = b\<lparr>ob_data := ob_data b + n, ob_size := ob_size b - n\<rparr>" "p = ob_data b"
    using assms(2) by (auto simp: ofpbuf_pull_def split: if_splits)
  then show "ofpbuf_wf b'" "p = ob_data b" "ob_base b' = ob_base b"
    using assms(1) by (auto simp: ofpbuf_wf_def)
  show "length (take n (contents b)) = n"
    using n length_contents [OF assms(1)] by simp
  have "contents b' = drop n (contents b)"
    using n by (simp add: b' contents_def drop_take add.commute)
  then show "contents b = take n (contents b) @ contents b'" by simp
qed

lemma init_wf: "ofpbuf_wf (ofpbuf_init m n)" "contents (ofpbuf_init m n) = []"
  by (simp_all add: ofpbuf_init_def ofpbuf_use_def ofpbuf_wf_def contents_def)

lemma clone_contents: "contents (ofpbuf_clone m b) = contents b" "ofpbuf_wf (ofpbuf_clone m b)"
  using put_contents [OF init_wf(1)] init_wf(2)
  by (simp_all add: ofpbuf_clone_def ofpbuf_clone_data_def ofpbuf_new_def contents_def [of b])

section \<open>Properties\<close>

text \<open>
  On a well-formed buffer the buffer operations act on its contents as on a list of bytes:
  putting appends, pushing prepends, pulling removes a prefix and returns a pointer to it,
  cloning copies; all results are well-formed.
\<close>

theorem ofpbuf_operations_on_contents:
  assumes "ofpbuf_wf b"
  shows "(case ofpbuf_put m b p of (dst, b') \<Rightarrow> contents b' = contents b @ p \<and> ofpbuf_wf b')
    \<and> (case ofpbuf_push b p of
         None \<Rightarrow> ofpbuf_headroom b < length p
       | Some (dst, b') \<Rightarrow> contents b' = p @ contents b \<and> ofpbuf_wf b' \<and> dst = ob_data b')
    \<and> (case ofpbuf_pull b n of
         None \<Rightarrow> length (contents b) < n
       | Some (q, b') \<Rightarrow> contents b = take n (contents b) @ contents b' \<and> ofpbuf_wf b' \<and> q = ob_data b)
    \<and> contents (ofpbuf_clone m b) = contents b \<and> ofpbuf_wf (ofpbuf_clone m b)"
proof -
  have "case ofpbuf_push b p of None \<Rightarrow> ofpbuf_headroom b < length p
       | Some (dst, b') \<Rightarrow> contents b' = p @ contents b \<and> ofpbuf_wf b' \<and> dst = ob_data b'"
  proof (cases "ofpbuf_push b p")
    case None
    then show ?thesis
      by (auto simp: ofpbuf_push_def ofpbuf_push_uninit_def ofpbuf_prealloc_headroom_def split: if_splits)
  next
    case (Some r)
    then show ?thesis using push_contents [OF assms, of p "fst r" "snd r"] by auto
  qed
  moreover have "case ofpbuf_pull b n of None \<Rightarrow> length (contents b) < n
       | Some (q, b') \<Rightarrow> contents b = take n (contents b) @ contents b' \<and> ofpbuf_wf b' \<and> q = ob_data b"
  proof (cases "ofpbuf_pull b n")
    case None
    then show ?thesis using length_contents [OF assms] by (auto simp: ofpbuf_pull_def split: if_splits)
  next
    case (Some r)
    then show ?thesis using pull_contents [OF assms, of n "fst r" "snd r"] by auto
  qed
  ultimately show ?thesis
    using put_contents [OF assms, of m p] clone_contents [of m b] by (auto split: prod.split)
qed

theorem ofpbuf_operations_on_contents_witness:
  "contents (snd (ofpbuf_put (\<lambda>_. 0) (ofpbuf_init (\<lambda>_. 0) 2) [1, 2, 3])) = [1, 2, 3]"
  using ofpbuf_operations_on_contents [OF init_wf(1) [of "\<lambda>_. 0" 2],
      where m = "\<lambda>_. 0" and p = "[1, 2, 3]" and n = 0, THEN conjunct1]
  by (simp add: init_wf(2) split: prod.splits)

end
