(* ===== verification/Flow_Extract.thy ===== *)
theory Flow_Extract
  imports Flow_Key Ofpbuf
begin

text \<open>
  The parsing of packets by \<^verbatim>\<open>flow_extract\<close> of \<^verbatim>\<open>src/openflow/lib/flow.c\<close>: the header fields of a
  packet and the pointers to its headers. The C function is cut into the steps of its body; the
  local copy \<^verbatim>\<open>b\<close> of the buffer is the second component of the results of the steps.
\<close>

section \<open>Headers (packets.h)\<close>

abbreviation ETH_HEADER_LEN :: nat where "ETH_HEADER_LEN \<equiv> 14"
abbreviation VLAN_HEADER_LEN :: nat where "VLAN_HEADER_LEN \<equiv> 4"
abbreviation IP_HEADER_LEN :: nat where "IP_HEADER_LEN \<equiv> 20"
abbreviation TCP_HEADER_LEN :: nat where "TCP_HEADER_LEN \<equiv> 20"
abbreviation UDP_HEADER_LEN :: nat where "UDP_HEADER_LEN \<equiv> 8"
abbreviation ICMP_HEADER_LEN :: nat where "ICMP_HEADER_LEN \<equiv> 4"
abbreviation ARP_ETH_HEADER_LEN :: nat where "ARP_ETH_HEADER_LEN \<equiv> 28"
abbreviation VLAN_VID_MASK :: u16 where "VLAN_VID_MASK \<equiv> 0x0fff"
abbreviation VLAN_PCP_MASK :: u16 where "VLAN_PCP_MASK \<equiv> 0xe000"
abbreviation OFP_DL_TYPE_ETH2_CUTOFF :: u16 where "OFP_DL_TYPE_ETH2_CUTOFF \<equiv> 0x0600"
abbreviation OFP_DL_TYPE_NOT_ETH_TYPE :: u16 where "OFP_DL_TYPE_NOT_ETH_TYPE \<equiv> 0x05ff"

definition ld_eth :: "u8 list \<Rightarrow> nat \<Rightarrow> eth_addr" where
  "ld_eth bs i = push_bit 40 (ucast (ld8 bs i)) OR push_bit 32 (ucast (ld8 bs (i + 1)))
     OR push_bit 24 (ucast (ld8 bs (i + 2))) OR push_bit 16 (ucast (ld8 bs (i + 3)))
     OR push_bit 8 (ucast (ld8 bs (i + 4))) OR ucast (ld8 bs (i + 5))"

section \<open>Pulling headers\<close>

definition pull_arp :: "ofpbuf \<Rightarrow> nat option \<times> ofpbuf" where
  "pull_arp packet =
     (if ob_size packet \<ge> ARP_ETH_HEADER_LEN then
        (case ofpbuf_pull packet ARP_ETH_HEADER_LEN of
           None \<Rightarrow> (None, packet) | Some (p, b) \<Rightarrow> (Some p, b))
      else (None, packet))"

definition pull_ip :: "ofpbuf \<Rightarrow> nat option \<times> ofpbuf" where
  "pull_ip packet =
     (if ob_size packet \<ge> IP_HEADER_LEN then
        (let ip_len = unat (ld8 (ob_base packet) (ob_data packet) AND 15) * 4
         in if ip_len \<ge> IP_HEADER_LEN \<and> ob_size packet \<ge> ip_len then
              (case ofpbuf_pull packet ip_len of
                 None \<Rightarrow> (None, packet) | Some (p, b) \<Rightarrow> (Some p, b))
            else (None, packet))
      else (None, packet))"

definition pull_tcp :: "ofpbuf \<Rightarrow> nat option \<times> ofpbuf" where
  "pull_tcp packet =
     (if ob_size packet \<ge> TCP_HEADER_LEN then
        (let tcp_len = unat (drop_bit 12 (htons (ld16 (ob_base packet) (ob_data packet + 12)))) * 4
         in if tcp_len \<ge> TCP_HEADER_LEN \<and> ob_size packet \<ge> tcp_len then
              (case ofpbuf_pull packet tcp_len of
                 None \<Rightarrow> (None, packet) | Some (p, b) \<Rightarrow> (Some p, b))
            else (None, packet))
      else (None, packet))"

definition pull_udp :: "ofpbuf \<Rightarrow> nat option \<times> ofpbuf" where
  "pull_udp packet = ofpbuf_try_pull packet UDP_HEADER_LEN"

definition pull_icmp :: "ofpbuf \<Rightarrow> nat option \<times> ofpbuf" where
  "pull_icmp packet = ofpbuf_try_pull packet ICMP_HEADER_LEN"

definition pull_eth :: "ofpbuf \<Rightarrow> nat option \<times> ofpbuf" where
  "pull_eth packet = ofpbuf_try_pull packet ETH_HEADER_LEN"

definition pull_vlan :: "ofpbuf \<Rightarrow> nat option \<times> ofpbuf" where
  "pull_vlan packet = ofpbuf_try_pull packet VLAN_HEADER_LEN"

section \<open>flow_extract\<close>

text \<open>
  The data link type of a frame whose Ethernet header is at \<open>eth\<close>: \<open>None\<close> is the early return
  for an 802.2 frame too short for its header.
\<close>

definition fe_dl_type :: "nat \<Rightarrow> ofpbuf \<Rightarrow> (u16 \<times> ofpbuf) option" where
  "fe_dl_type eth b =
     (let m = ob_base b; eth_type = ld16 m (eth + 12)
      in if ntohs eth_type \<ge> OFP_DL_TYPE_ETH2_CUTOFF then Some (eth_type, b)
         else case ofpbuf_at b 0 3 of
           None \<Rightarrow> None
         | Some llc \<Rightarrow>
             (case ofpbuf_at b 3 5 of
                Some snap \<Rightarrow>
                  if ld8 m llc = 0xaa \<and> ld8 m (llc + 1) = 0xaa \<and> ld8 m (llc + 2) = 3
                     \<and> ldn m snap 3 = [0, 0, 0]
                  then map_option (\<lambda>(_, b'). (ld16 m (snap + 3), b')) (ofpbuf_pull b 8)
                  else map_option (\<lambda>(_, b'). (htons OFP_DL_TYPE_NOT_ETH_TYPE, b')) (ofpbuf_pull b 3)
              | None \<Rightarrow> map_option (\<lambda>(_, b'). (htons OFP_DL_TYPE_NOT_ETH_TYPE, b')) (ofpbuf_pull b 3)))"

definition fe_vlan :: "flow \<Rightarrow> ofpbuf \<Rightarrow> flow \<times> ofpbuf" where
  "fe_vlan flow b =
     (if fl_dl_type flow = htons ETH_TYPE_VLAN then
        (case pull_vlan b of
           (None, b) \<Rightarrow> (flow, b)
         | (Some vh, b) \<Rightarrow>
             (let tci = ld16 (ob_base b) vh
              in (flow\<lparr>fl_dl_type := ld16 (ob_base b) (vh + 2),
                       fl_dl_vlan := tci AND htons VLAN_VID_MASK,
                       fl_dl_vlan_pcp := ucast (drop_bit 13 (ntohs tci) AND 7)\<rparr>, b)))
      else (flow, b))"

text \<open>
  The transport header, of a packet that is not a fragment; the result is the flow and the
  pointer \<^verbatim>\<open>l7\<close>. The ICMP type and code share the fields of the ports.
\<close>

definition fe_transport :: "flow \<Rightarrow> ofpbuf \<Rightarrow> flow \<times> nat option" where
  "fe_transport flow b =
     (let m = ob_base b
      in if fl_nw_proto flow = IP_TYPE_TCP then
           (case pull_tcp b of
              (Some tcp, b') \<Rightarrow>
                (flow\<lparr>fl_tp_src := ld16 m tcp, fl_tp_dst := ld16 m (tcp + 2)\<rparr>, Some (ob_data b'))
            | (None, _) \<Rightarrow> (flow\<lparr>fl_nw_proto := 0\<rparr>, None))
         else if fl_nw_proto flow = IP_TYPE_UDP then
           (case pull_udp b of
              (Some udp, b') \<Rightarrow>
                (flow\<lparr>fl_tp_src := ld16 m udp, fl_tp_dst := ld16 m (udp + 2)\<rparr>, Some (ob_data b'))
            | (None, _) \<Rightarrow> (flow\<lparr>fl_nw_proto := 0\<rparr>, None))
         else if fl_nw_proto flow = IP_TYPE_ICMP then
           (case pull_icmp b of
              (Some icmp, b') \<Rightarrow>
                (flow\<lparr>fl_tp_src := htons (ucast (ld8 m icmp)),
                      fl_tp_dst := htons (ucast (ld8 m (icmp + 1)))\<rparr>, Some (ob_data b'))
            | (None, _) \<Rightarrow> (flow\<lparr>fl_nw_proto := 0\<rparr>, None))
         else (flow, None))"

definition IP_IS_FRAGMENT :: "u16 \<Rightarrow> bool" where
  "IP_IS_FRAGMENT ip_frag_off \<longleftrightarrow> ip_frag_off AND htons 0x3fff \<noteq> 0"

text \<open>The IP header and what follows: retval, the flow, \<^verbatim>\<open>l4\<close> and \<^verbatim>\<open>l7\<close>.\<close>

definition fe_ip :: "flow \<Rightarrow> ofpbuf \<Rightarrow> bool \<times> flow \<times> nat option \<times> nat option" where
  "fe_ip flow b =
     (case pull_ip b of
        (None, b) \<Rightarrow> (False, flow, None, None)
      | (Some nh, b) \<Rightarrow>
          (let m = ob_base b;
               flow = flow\<lparr>fl_nw_tos := ld8 m (nh + 1) AND 0xfc, fl_nw_proto := ld8 m (nh + 9),
                           fl_nw_src := ld32 m (nh + 12), fl_nw_dst := ld32 m (nh + 16)\<rparr>;
               l4 = Some (ob_data b)
           in if \<not> IP_IS_FRAGMENT (ld16 m (nh + 6)) then
                (let (flow, l7) = fe_transport flow b in (False, flow, l4, l7))
              else (True, flow, l4, None)))"

definition fe_arp :: "flow \<Rightarrow> ofpbuf \<Rightarrow> flow" where
  "fe_arp flow b =
     (case pull_arp b of
        (None, _) \<Rightarrow> flow
      | (Some arp, b) \<Rightarrow>
          (let m = ob_base b;
               flow = (if ld16 m (arp + 2) = htons ETH_TYPE_IP \<and> ld8 m (arp + 5) = 4
                       then flow\<lparr>fl_nw_src := ld32 m (arp + 14), fl_nw_dst := ld32 m (arp + 24)\<rparr>
                       else flow)
           in flow\<lparr>fl_nw_proto := ucast (ntohs (ld16 m (arp + 6)) AND 0xff)\<rparr>))"

definition flow_extract :: "ofpbuf \<Rightarrow> u16 \<Rightarrow> bool \<times> ofpbuf \<times> flow" where
  "flow_extract packet in_port =
     (let b = packet;
          flow = \<lparr>fl_nw_src = 0, fl_nw_dst = 0, fl_in_port = htons in_port,
                  fl_dl_vlan = htons OFP_VLAN_NONE, fl_dl_type = 0, fl_tp_src = 0, fl_tp_dst = 0,
                  fl_dl_src = 0, fl_dl_dst = 0, fl_dl_vlan_pcp = 0, fl_nw_tos = 0,
                  fl_nw_proto = 0, fl_pad = 0\<rparr>;
          packet = packet\<lparr>ob_l2 := Some (ob_data b), ob_l3 := None, ob_l4 := None, ob_l7 := None\<rparr>
      in case pull_eth b of
           (None, _) \<Rightarrow> (False, packet, flow)
         | (Some eth, b) \<Rightarrow>
             (case fe_dl_type eth b of
                None \<Rightarrow> (False, packet, flow)
              | Some (dl_type, b) \<Rightarrow>
                  (let (flow, b) = fe_vlan (flow\<lparr>fl_dl_type := dl_type\<rparr>) b;
                       flow = flow\<lparr>fl_dl_src := ld_eth (ob_base b) (eth + 6),
                                   fl_dl_dst := ld_eth (ob_base b) eth\<rparr>;
                       packet = packet\<lparr>ob_l3 := Some (ob_data b)\<rparr>
                   in if fl_dl_type flow = htons ETH_TYPE_IP then
                        (let (retval, flow, l4, l7) = fe_ip flow b
                         in (retval, packet\<lparr>ob_l4 := l4, ob_l7 := l7\<rparr>, flow))
                      else if fl_dl_type flow = htons ETH_TYPE_ARP then
                        (False, packet, fe_arp flow b)
                      else (False, packet, flow))))"

section \<open>Facts\<close>

text \<open>The parts of the flow that the steps leave alone.\<close>

definition blank :: "flow \<Rightarrow> bool" where
  "blank f \<longleftrightarrow> fl_nw_src f = 0 \<and> fl_nw_dst f = 0 \<and> fl_tp_src f = 0 \<and> fl_tp_dst f = 0
     \<and> fl_nw_tos f = 0 \<and> fl_nw_proto f = 0 \<and> fl_pad f = 0"

lemma blank_normal: "blank f \<Longrightarrow> flow_normal f"
  by (simp add: blank_def flow_normal_def)

lemma fe_vlan_blank: "blank f \<Longrightarrow> blank (fst (fe_vlan f b))"
  by (auto simp: fe_vlan_def blank_def Let_def split: prod.split option.split)

lemma fe_transport_normal:
  "fl_dl_type f = htons ETH_TYPE_IP \<Longrightarrow> fl_tp_src f = 0 \<Longrightarrow> fl_tp_dst f = 0 \<Longrightarrow> fl_pad f = 0
    \<Longrightarrow> flow_normal (fst (fe_transport f b))"
  by (auto simp: fe_transport_def flow_normal_def has_ports_def Let_def split: prod.split option.split)

lemma fe_ip_normal:
  assumes "blank f" "fl_dl_type f = htons ETH_TYPE_IP"
  shows "flow_normal (fst (snd (fe_ip f b)))"
proof -
  have "flow_normal (fst (fe_transport (f\<lparr>fl_nw_tos := t, fl_nw_proto := p, fl_nw_src := s, fl_nw_dst := d\<rparr>) b'))"
    for t p s d b'
    using assms by (intro fe_transport_normal) (simp_all add: blank_def)
  moreover have "flow_normal (f\<lparr>fl_nw_tos := t, fl_nw_proto := p, fl_nw_src := s, fl_nw_dst := d\<rparr>)" for t p s d
    using assms by (simp add: flow_normal_def blank_def)
  ultimately show ?thesis
    using blank_normal [OF assms(1)] by (simp add: fe_ip_def Let_def case_prod_beta split: option.split)
qed

lemma fe_arp_normal:
  "blank f \<Longrightarrow> fl_dl_type f = htons ETH_TYPE_ARP \<Longrightarrow> flow_normal (fe_arp f b)"
  by (auto simp: fe_arp_def blank_normal flow_normal_def blank_def Let_def split: prod.split option.split)


lemma flow_extract_is_normal: "flow_normal (snd (snd (flow_extract packet in_port)))"
proof -
  have b: "blank (fst (fe_vlan f b)\<lparr>fl_dl_src := x, fl_dl_dst := y\<rparr>)" if "blank f" for f b x y
    using fe_vlan_blank [OF that, of b] by (simp add: blank_def)
  have e: "blank \<lparr>fl_nw_src = 0, fl_nw_dst = 0, fl_in_port = i, fl_dl_vlan = v, fl_dl_type = t, fl_tp_src = 0,
      fl_tp_dst = 0, fl_dl_src = x, fl_dl_dst = y, fl_dl_vlan_pcp = c, fl_nw_tos = 0, fl_nw_proto = 0,
      fl_pad = 0\<rparr>" for i v t x y c
    by (simp add: blank_def)
  show ?thesis
    by (simp add: flow_extract_def Let_def case_prod_beta b e fe_ip_normal fe_arp_normal blank_normal
        split: option.split)
qed

text \<open>Pulling moves the start of the buffer only.\<close>

definition pulled :: "ofpbuf \<Rightarrow> ofpbuf \<Rightarrow> bool" where
  "pulled b b' \<longleftrightarrow> ob_base b' = ob_base b \<and> ob_data b \<le> ob_data b'
     \<and> ob_data b' + ob_size b' = ob_data b + ob_size b"

lemma pulled_refl [simp]: "pulled b b"
  by (simp add: pulled_def)

lemma pulled_trans: "pulled a b \<Longrightarrow> pulled b c \<Longrightarrow> pulled a c"
  by (auto simp: pulled_def)

lemma pull_pulled: "ofpbuf_pull b n = Some (p, b') \<Longrightarrow> pulled b b' \<and> p = ob_data b \<and> ob_data b' = p + n"
  by (auto simp: ofpbuf_pull_def pulled_def split: if_splits)

lemma try_pull_pulled:
  "ofpbuf_try_pull b n = (r, b') \<Longrightarrow>
     pulled b b' \<and> (case r of None \<Rightarrow> b' = b | Some p \<Rightarrow> p = ob_data b \<and> ob_data b' = p + n)"
  by (auto simp: ofpbuf_try_pull_def ofpbuf_pull_def pulled_def split: if_splits)

lemma fe_dl_type_pulled: "fe_dl_type eth b = Some (t, b') \<Longrightarrow> pulled b b'"
  by (auto simp: fe_dl_type_def Let_def dest: pull_pulled split: if_splits option.splits)

lemma fe_vlan_pulled: "fe_vlan f b = (f', b') \<Longrightarrow> pulled b b'"
  by (auto simp: fe_vlan_def pull_vlan_def Let_def dest: try_pull_pulled split: if_splits option.splits prod.splits)

lemma pull_ip_bounds:
  assumes "pull_ip b = (r, b')"
  shows "pulled b b' \<and> (case r of None \<Rightarrow> b' = b | Some p \<Rightarrow> p = ob_data b \<and> p + IP_HEADER_LEN \<le> ob_data b')"
  using assms
  by (auto simp: pull_ip_def Let_def ofpbuf_pull_def pulled_def split: if_splits)

lemma pull_tcp_bounds:
  "pull_tcp b = (Some p, b') \<Longrightarrow> ob_data b + TCP_HEADER_LEN \<le> ob_data b + ob_size b"
  by (auto simp: pull_tcp_def split: if_splits)

lemma pull_udp_bounds:
  "pull_udp b = (Some p, b') \<Longrightarrow> ob_data b + UDP_HEADER_LEN \<le> ob_data b + ob_size b"
  by (auto simp: pull_udp_def ofpbuf_try_pull_def split: if_splits)

lemma fe_transport_bounds:
  assumes "fe_transport f b = (f', l7)"
  shows "(fl_nw_proto f' = IP_TYPE_TCP \<longrightarrow> ob_data b + TCP_HEADER_LEN \<le> ob_data b + ob_size b)
    \<and> (fl_nw_proto f' = IP_TYPE_UDP \<longrightarrow> ob_data b + UDP_HEADER_LEN \<le> ob_data b + ob_size b)"
  using assms pull_tcp_bounds [of b] pull_udp_bounds [of b]
  by (auto simp: fe_transport_def Let_def split: if_splits prod.splits option.splits)

text \<open>The pointers that \<open>fe_ip\<close> returns, against the end of the packet.\<close>

lemma fe_ip_bounds:
  assumes "fe_ip f b = (frag, f', l4, l7)" "fl_nw_proto f = 0"
  shows "(\<forall>n4. l4 = Some n4 \<longrightarrow> ob_data b + IP_HEADER_LEN \<le> n4 \<and> n4 \<le> ob_data b + ob_size b)
    \<and> (\<not> frag \<and> fl_nw_proto f' = IP_TYPE_TCP \<longrightarrow>
         (\<exists>n4. l4 = Some n4 \<and> n4 + TCP_HEADER_LEN \<le> ob_data b + ob_size b))
    \<and> (\<not> frag \<and> fl_nw_proto f' = IP_TYPE_UDP \<longrightarrow>
         (\<exists>n4. l4 = Some n4 \<and> n4 + UDP_HEADER_LEN \<le> ob_data b + ob_size b))"
proof -
  obtain r b' where p: "pull_ip b = (r, b')" by fastforce
  show ?thesis
  proof (cases r)
    case None
    then show ?thesis using assms p by (auto simp: fe_ip_def)
  next
    case (Some nh)
    note pb = pull_ip_bounds [OF p, unfolded Some option.case pulled_def]
    show ?thesis
      using assms(1) p Some pb
      by (auto simp: fe_ip_def Let_def split: if_splits prod.splits dest!: fe_transport_bounds)
  qed
qed


text \<open>The packet as \<^verbatim>\<open>flow_extract\<close> leaves it: where its headers are, and how much of them there is.\<close>

definition headers_ok :: "ofpbuf \<Rightarrow> bool \<Rightarrow> flow \<Rightarrow> bool" where
  "headers_ok p frag f \<longleftrightarrow>
     (let last = ob_data p + ob_size p in
      ob_l2 p = Some (ob_data p)
      \<and> (case ob_l3 p of None \<Rightarrow> ob_l4 p = None
          | Some n3 \<Rightarrow> ob_data p + ETH_HEADER_LEN \<le> n3 \<and> n3 \<le> last
              \<and> (case ob_l4 p of None \<Rightarrow> True | Some n4 \<Rightarrow> n3 + IP_HEADER_LEN \<le> n4 \<and> n4 \<le> last))
      \<and> (ob_l4 p \<noteq> None \<longrightarrow> fl_dl_type f = htons ETH_TYPE_IP)
      \<and> (fl_dl_type f = htons ETH_TYPE_IP \<and> \<not> frag \<and> fl_nw_proto f = IP_TYPE_TCP \<longrightarrow>
           (\<exists>n4. ob_l4 p = Some n4 \<and> n4 + TCP_HEADER_LEN \<le> last))
      \<and> (fl_dl_type f = htons ETH_TYPE_IP \<and> \<not> frag \<and> fl_nw_proto f = IP_TYPE_UDP \<longrightarrow>
           (\<exists>n4. ob_l4 p = Some n4 \<and> n4 + UDP_HEADER_LEN \<le> last)))"

lemma fe_transport_dl_type: "fl_dl_type (fst (fe_transport f b)) = fl_dl_type f"
  by (simp add: fe_transport_def Let_def case_prod_beta split: option.split)

lemma fe_ip_dl_type: "fl_dl_type (fst (snd (fe_ip f b))) = fl_dl_type f"
  by (simp add: fe_ip_def Let_def case_prod_beta fe_transport_dl_type split: option.split)

lemma fe_arp_dl_type: "fl_dl_type (fe_arp f b) = fl_dl_type f"
  by (simp add: fe_arp_def Let_def case_prod_beta split: option.split)

lemma fe_vlan_proto: "fe_vlan f b = (f', b') \<Longrightarrow> fl_nw_proto f' = fl_nw_proto f"
  by (auto simp: fe_vlan_def Let_def split: if_splits prod.splits option.splits)

lemma flow_extract_headers_ok:
  assumes "flow_extract packet in_port = (frag, packet', f)"
  shows "headers_ok packet' frag f \<and> ob_base packet' = ob_base packet \<and> ob_data packet' = ob_data packet
    \<and> ob_size packet' = ob_size packet"
proof -
  obtain r b where e: "pull_eth packet = (r, b)" by fastforce
  have eb: "pulled packet b \<and> (case r of None \<Rightarrow> b = packet | Some p \<Rightarrow> p = ob_data packet \<and> ob_data b = p + 14)"
    using try_pull_pulled e unfolding pull_eth_def .
  show ?thesis
  proof (cases r)
    case None
    then show ?thesis using assms e by (auto simp: flow_extract_def Let_def headers_ok_def)
  next
    case (Some eth)
    show ?thesis
    proof (cases "fe_dl_type eth b")
      case None
      then show ?thesis using assms e Some by (auto simp: flow_extract_def Let_def headers_ok_def)
    next
      case (Some tb)
      obtain t b1 where tb: "tb = (t, b1)" by fastforce
      let ?f = "\<lparr>fl_nw_src = 0, fl_nw_dst = 0, fl_in_port = htons in_port, fl_dl_vlan = htons OFP_VLAN_NONE,
        fl_dl_type = t, fl_tp_src = 0, fl_tp_dst = 0, fl_dl_src = 0, fl_dl_dst = 0, fl_dl_vlan_pcp = 0,
        fl_nw_tos = 0, fl_nw_proto = 0, fl_pad = 0\<rparr>"
      obtain f1 b2 where v: "fe_vlan ?f b1 = (f1, b2)" by fastforce
      define f2 where "f2 = f1\<lparr>fl_dl_src := ld_eth (ob_base b2) (eth + 6), fl_dl_dst := ld_eth (ob_base b2) eth\<rparr>"
      obtain fr f3 l4 l7 where ip: "fe_ip f2 b2 = (fr, f3, l4, l7)" by (metis prod_cases4)
      have f3: "fl_dl_type f3 = fl_dl_type f2" using fe_ip_dl_type [of f2 b2] ip by simp
      have pr: "fl_nw_proto f2 = 0" using fe_vlan_proto [OF v] by (simp add: f2_def)
      note bounds = fe_ip_bounds [OF ip pr]
      have p2: "pulled b b2"
        using fe_dl_type_pulled fe_vlan_pulled [OF v] Some tb pulled_trans by blast
      have pos: "ob_data packet + 14 \<le> ob_data b2" "ob_data b2 \<le> ob_data packet + ob_size packet"
        "ob_data b2 + ob_size b2 = ob_data packet + ob_size packet"
        using p2 eb \<open>r = Some eth\<close> by (auto simp: pulled_def)
      have res: "flow_extract packet in_port =
        (if fl_dl_type f2 = htons ETH_TYPE_IP
         then (fr, packet\<lparr>ob_l2 := Some (ob_data packet), ob_l3 := Some (ob_data b2), ob_l4 := l4, ob_l7 := l7\<rparr>, f3)
         else if fl_dl_type f2 = htons ETH_TYPE_ARP
         then (False, packet\<lparr>ob_l2 := Some (ob_data packet), ob_l3 := Some (ob_data b2), ob_l4 := None,
           ob_l7 := None\<rparr>, fe_arp f2 b2)
         else (False, packet\<lparr>ob_l2 := Some (ob_data packet), ob_l3 := Some (ob_data b2), ob_l4 := None,
           ob_l7 := None\<rparr>, f2))"
        using e \<open>r = Some eth\<close> Some tb v ip by (simp add: flow_extract_def f2_def)
      show ?thesis
        using assms f3 bounds pos unfolding res
        by (auto simp: headers_ok_def fe_arp_dl_type split: if_splits option.split)
    qed
  qed
qed

section \<open>Properties\<close>

text \<open>
  The header fields that \<^verbatim>\<open>flow_extract\<close> finds in any packet are normal: the fields of headers
  that are absent, unknown or truncated are zero, and so is the padding.
\<close>

theorem flow_extract_normal: "flow_normal (snd (snd (flow_extract packet in_port)))"
  by (rule flow_extract_is_normal)

text \<open>
  \<^verbatim>\<open>flow_extract\<close> changes nothing in the buffer but the header pointers, and these stay inside
  the packet: \<^verbatim>\<open>l2\<close> at its start, \<^verbatim>\<open>l3\<close> behind the Ethernet header, \<^verbatim>\<open>l4\<close> only behind a complete
  IP header, and for an unfragmented TCP or UDP packet with the whole transport header behind it.
\<close>

theorem flow_extract_headers:
  assumes "flow_extract packet in_port = (frag, packet', f)"
  shows "headers_ok packet' frag f \<and> ob_base packet' = ob_base packet \<and> ob_data packet' = ob_data packet
    \<and> ob_size packet' = ob_size packet"
  using assms by (rule flow_extract_headers_ok)

section \<open>Witnesses\<close>

text \<open>A UDP packet in an Ethernet II frame.\<close>

definition udp_frame :: "u8 list" where
  "udp_frame = [2, 0, 0, 0, 0, 1, 2, 0, 0, 0, 0, 2, 8, 0,
     0x45, 0, 0, 28, 0, 1, 0, 0, 64, 17, 0x66, 0xce, 10, 0, 0, 1, 10, 0, 0, 2,
     0x04, 0xd2, 0, 53, 0, 8, 0, 0]"

definition udp_packet :: ofpbuf where
  "udp_packet = \<lparr>ob_base = udp_frame, ob_data = 0, ob_size = 42, ob_l2 = None, ob_l3 = None,
     ob_l4 = None, ob_l7 = None\<rparr>"

lemma udp_packet_extract:
  "flow_extract udp_packet 1 = (False, udp_packet\<lparr>ob_l2 := Some 0, ob_l3 := Some 14, ob_l4 := Some 34, ob_l7 := Some 42\<rparr>,
     \<lparr>fl_nw_src = 0x0100000a, fl_nw_dst = 0x0200000a, fl_in_port = htons 1, fl_dl_vlan = 0xffff,
      fl_dl_type = htons 0x800, fl_tp_src = htons 1234, fl_tp_dst = htons 53,
      fl_dl_src = 0x020000000002, fl_dl_dst = 0x020000000001, fl_dl_vlan_pcp = 0, fl_nw_tos = 0,
      fl_nw_proto = 17, fl_pad = 0\<rparr>)"
  by code_simp

theorem flow_extract_headers_witness:
  "headers_ok (fst (snd (flow_extract udp_packet 1))) False (snd (snd (flow_extract udp_packet 1)))"
  using flow_extract_headers [OF udp_packet_extract] by (simp add: udp_packet_extract)

end
