(* ===== verification/Actions.thy ===== *)
theory Actions
  imports Flow_Entry Flow_Extract Checksum
begin

text \<open>
  The actions of OpenFlow 1.0, \<^verbatim>\<open>src/openflow/udatapath/dp_act.c\<close>: validation of action lists, and
  their execution on a packet buffer and its key. An action is the list of its bytes. Reading or
  writing outside the memory of the buffer, a null header pointer and a failing assertion make a
  result \<open>None\<close>; so does an action list on which the loop of \<^verbatim>\<open>execute_actions\<close> does not end. The
  calls of \<^verbatim>\<open>do_output\<close> do not change the buffer or the key, so execution returns the requests it
  makes, in their order.
\<close>

section \<open>Constants\<close>

abbreviation OFPAT_SET_VLAN_VID :: u16 where "OFPAT_SET_VLAN_VID \<equiv> 1"
abbreviation OFPAT_SET_VLAN_PCP :: u16 where "OFPAT_SET_VLAN_PCP \<equiv> 2"
abbreviation OFPAT_STRIP_VLAN :: u16 where "OFPAT_STRIP_VLAN \<equiv> 3"
abbreviation OFPAT_SET_DL_SRC :: u16 where "OFPAT_SET_DL_SRC \<equiv> 4"
abbreviation OFPAT_SET_DL_DST :: u16 where "OFPAT_SET_DL_DST \<equiv> 5"
abbreviation OFPAT_SET_NW_SRC :: u16 where "OFPAT_SET_NW_SRC \<equiv> 6"
abbreviation OFPAT_SET_NW_DST :: u16 where "OFPAT_SET_NW_DST \<equiv> 7"
abbreviation OFPAT_SET_NW_TOS :: u16 where "OFPAT_SET_NW_TOS \<equiv> 8"
abbreviation OFPAT_SET_TP_SRC :: u16 where "OFPAT_SET_TP_SRC \<equiv> 9"
abbreviation OFPAT_SET_TP_DST :: u16 where "OFPAT_SET_TP_DST \<equiv> 10"
abbreviation OFPAT_ENQUEUE :: u16 where "OFPAT_ENQUEUE \<equiv> 11"
abbreviation OFPAT_VENDOR :: u16 where "OFPAT_VENDOR \<equiv> 0xffff"

abbreviation OFPBAC_BAD_TYPE :: u16 where "OFPBAC_BAD_TYPE \<equiv> 0"
abbreviation OFPBAC_BAD_LEN :: u16 where "OFPBAC_BAD_LEN \<equiv> 1"
abbreviation OFPBAC_BAD_VENDOR :: u16 where "OFPBAC_BAD_VENDOR \<equiv> 2"
abbreviation OFPBAC_BAD_OUT_PORT :: u16 where "OFPBAC_BAD_OUT_PORT \<equiv> 4"
abbreviation ACT_VALIDATION_OK :: u16 where "ACT_VALIDATION_OK \<equiv> 0xffff"

abbreviation OFPP_MAX :: u16 where "OFPP_MAX \<equiv> 0xff00"
abbreviation OFPP_IN_PORT :: u16 where "OFPP_IN_PORT \<equiv> 0xfff8"
abbreviation OFPP_TABLE :: u16 where "OFPP_TABLE \<equiv> 0xfff9"
abbreviation OFPP_CONTROLLER :: u16 where "OFPP_CONTROLLER \<equiv> 0xfffd"
abbreviation OFPR_ACTION :: u8 where "OFPR_ACTION \<equiv> 1"

section \<open>Validation of single actions\<close>

definition validate_output :: "sw_flow_key \<Rightarrow> u8 list \<Rightarrow> u16" where
  "validate_output key ah =
     (if oa_port ah = htons OFPP_NONE
         \<or> (\<not> flag_set (k_wildcards key) OFPFW_IN_PORT \<and> oa_port ah = fl_in_port (k_flow key))
      then OFPBAC_BAD_OUT_PORT else ACT_VALIDATION_OK)"

definition validate_queue :: "sw_flow_key \<Rightarrow> u8 list \<Rightarrow> u16" where
  "validate_queue key ah =
     (if ntohs (ld16 ah 4) > OFPP_MAX \<and> ntohs (ld16 ah 4) \<noteq> OFPP_IN_PORT
      then OFPBAC_BAD_OUT_PORT else ACT_VALIDATION_OK)"

section \<open>Output requests\<close>

text \<open>The two calls that \<^verbatim>\<open>do_output\<close> makes into the datapath.\<close>

datatype dp_call =
    Dp_output_port ofpbuf u16 u16 u32 bool
  | Dp_output_control ofpbuf u16 u16 u8

definition do_output :: "ofpbuf \<Rightarrow> u16 \<Rightarrow> u16 \<Rightarrow> u16 \<Rightarrow> u32 \<Rightarrow> bool \<Rightarrow> dp_call" where
  "do_output buffer in_port max_len out_port queue_id ignore_no_fwd =
     (if out_port \<noteq> OFPP_CONTROLLER
      then Dp_output_port buffer in_port out_port queue_id ignore_no_fwd
      else Dp_output_control buffer in_port max_len OFPR_ACTION)"

section \<open>Changes to the packet\<close>

text \<open>\<open>readable b p n\<close>: the \<open>n\<close> bytes at \<open>p\<close> are memory of the buffer.\<close>

definition readable :: "ofpbuf \<Rightarrow> nat \<Rightarrow> nat \<Rightarrow> bool" where
  "readable b p n \<longleftrightarrow> p + n \<le> length (ob_base b)"

definition modify_vlan_tci ::
  "ofpbuf \<Rightarrow> sw_flow_key \<Rightarrow> u16 \<Rightarrow> u16 \<Rightarrow> (ofpbuf \<times> sw_flow_key) option" where
  "modify_vlan_tci buffer key tci msk =
     (case ob_l2 buffer of
        None \<Rightarrow> None
      | Some l2 \<Rightarrow>
          (let r =
             (if fl_dl_vlan (k_flow key) \<noteq> htons OFP_VLAN_NONE then
                (if \<not> readable buffer l2 16 then None
                 else
                   (let t = ld16 (ob_base buffer) (l2 + 14);
                        t = t AND NOT (htons msk);
                        t = t OR htons tci
                    in Some (l2, buffer\<lparr>ob_base := st16 (ob_base buffer) (l2 + 14) t\<rparr>)))
              else
                (if \<not> readable buffer l2 14 then None
                 else
                   (let m = ob_base buffer;
                        tmp = ldn m l2 12 @ bytes16 (htons ETH_TYPE_VLAN) @ bytes16 (htons tci)
                                @ ldn m (l2 + 12) 2
                    in case ofpbuf_push_uninit buffer VLAN_HEADER_LEN of
                         None \<Rightarrow> None
                       | Some (veh, b) \<Rightarrow>
                           if \<not> readable b veh 18 \<or> l2 < VLAN_HEADER_LEN then None
                           else Some (veh, b\<lparr>ob_base := stn (ob_base b) veh tmp,
                                             ob_l2 := Some (l2 - VLAN_HEADER_LEN)\<rparr>))))
           in case r of
                None \<Rightarrow> None
              | Some (veh, b) \<Rightarrow>
                  (let t = ld16 (ob_base b) (veh + 14);
                       f = (k_flow key)\<lparr>fl_dl_vlan := t AND htons VLAN_VID_MASK,
                              fl_dl_vlan_pcp := ucast (drop_bit 13 (ntohs t) AND 7)\<rparr>
                   in Some (b, key\<lparr>k_flow := f\<rparr>))))"

definition vlan_pull_tag :: "ofpbuf \<Rightarrow> ofpbuf option" where
  "vlan_pull_tag buffer =
     (case ob_l2 buffer of
        None \<Rightarrow> None
      | Some veh \<Rightarrow>
          if \<not> readable buffer veh 14 then None
          else if ld16 (ob_base buffer) (veh + 12) = htons ETH_TYPE_VLAN then
            (if \<not> readable buffer veh 18 \<or> ob_size buffer < VLAN_HEADER_LEN
                \<or> \<not> readable buffer (ob_data buffer + VLAN_HEADER_LEN) 14 then None
             else
               (let m = ob_base buffer;
                    tmp = ldn m veh 12 @ ldn m (veh + 16) 2;
                    data = ob_data buffer + VLAN_HEADER_LEN
                in Some (buffer\<lparr>ob_size := ob_size buffer - VLAN_HEADER_LEN, ob_data := data,
                                ob_l2 := Some (veh + VLAN_HEADER_LEN), ob_base := stn m data tmp\<rparr>)))
          else Some buffer)"

definition set_vlan_vid :: "ofpbuf \<Rightarrow> sw_flow_key \<Rightarrow> u8 list \<Rightarrow> (ofpbuf \<times> sw_flow_key) option" where
  "set_vlan_vid buffer key ah =
     (let tci = ntohs (ld16 ah 4) in modify_vlan_tci buffer key tci VLAN_VID_MASK)"

definition set_vlan_pcp :: "ofpbuf \<Rightarrow> sw_flow_key \<Rightarrow> u8 list \<Rightarrow> (ofpbuf \<times> sw_flow_key) option" where
  "set_vlan_pcp buffer key ah =
     (let tci = push_bit 13 (ucast (ld8 ah 4)) in modify_vlan_tci buffer key tci VLAN_PCP_MASK)"

definition strip_vlan :: "ofpbuf \<Rightarrow> sw_flow_key \<Rightarrow> u8 list \<Rightarrow> (ofpbuf \<times> sw_flow_key) option" where
  "strip_vlan buffer key ah =
     (case vlan_pull_tag buffer of
        None \<Rightarrow> None
      | Some b \<Rightarrow> Some (b, key\<lparr>k_flow := (k_flow key)\<lparr>fl_dl_vlan := htons OFP_VLAN_NONE\<rparr>\<rparr>))"

definition set_dl_addr :: "ofpbuf \<Rightarrow> sw_flow_key \<Rightarrow> u8 list \<Rightarrow> (ofpbuf \<times> sw_flow_key) option" where
  "set_dl_addr buffer key ah =
     (case ob_l2 buffer of
        None \<Rightarrow> None
      | Some eh \<Rightarrow>
          if \<not> readable buffer eh 14 \<or> length ah < 10 then None
          else if ah_type ah = htons OFPAT_SET_DL_SRC
          then Some (buffer\<lparr>ob_base := stn (ob_base buffer) (eh + 6) (ldn ah 4 6)\<rparr>, key)
          else Some (buffer\<lparr>ob_base := stn (ob_base buffer) eh (ldn ah 4 6)\<rparr>, key))"

text \<open>
  \<^verbatim>\<open>set_nw_addr\<close>: the TCP or UDP checksum first, then that of the IP header, then the address.
\<close>

definition nw_addr_transport :: "ofpbuf \<Rightarrow> u8 \<Rightarrow> u32 \<Rightarrow> u32 \<Rightarrow> ofpbuf option" where
  "nw_addr_transport buffer nw_proto old new =
     (if nw_proto = IP_TYPE_TCP then
        (case ob_l4 buffer of
           None \<Rightarrow> None
         | Some th \<Rightarrow>
             if \<not> readable buffer th TCP_HEADER_LEN then None
             else
               (let m = ob_base buffer
                in Some (buffer\<lparr>ob_base := st16 m (th + 16) (recalc_csum32 (ld16 m (th + 16)) old new)\<rparr>)))
      else if nw_proto = IP_TYPE_UDP then
        (case ob_l4 buffer of
           None \<Rightarrow> None
         | Some th \<Rightarrow>
             if \<not> readable buffer th UDP_HEADER_LEN then None
             else
               (let m = ob_base buffer; c = ld16 m (th + 6)
                in if c \<noteq> 0 then
                     (let c = recalc_csum32 c old new; c = (if c = 0 then 0xffff else c)
                      in Some (buffer\<lparr>ob_base := st16 m (th + 6) c\<rparr>))
                   else Some buffer))
      else Some buffer)"

definition set_nw_addr :: "ofpbuf \<Rightarrow> sw_flow_key \<Rightarrow> u8 list \<Rightarrow> (ofpbuf \<times> sw_flow_key) option" where
  "set_nw_addr buffer key ah =
     (if ntohs (fl_dl_type (k_flow key)) = ETH_TYPE_IP then
        (case ob_l3 buffer of
           None \<Rightarrow> None
         | Some nh \<Rightarrow>
             if \<not> readable buffer nh IP_HEADER_LEN then None
             else
               (let new = ld32 ah 4;
                    field = (if ah_type ah = htons OFPAT_SET_NW_SRC then nh + 12 else nh + 16);
                    old = ld32 (ob_base buffer) field
                in case nw_addr_transport buffer (fl_nw_proto (k_flow key)) old new of
                     None \<Rightarrow> None
                   | Some b \<Rightarrow>
                       (let m = ob_base b; old = ld32 m field;
                            m = st16 m (nh + 10) (recalc_csum32 (ld16 m (nh + 10)) old new)
                        in Some (b\<lparr>ob_base := st32 m field new\<rparr>, key))))
      else Some (buffer, key))"

definition set_nw_tos :: "ofpbuf \<Rightarrow> sw_flow_key \<Rightarrow> u8 list \<Rightarrow> (ofpbuf \<times> sw_flow_key) option" where
  "set_nw_tos buffer key ah =
     (if ntohs (fl_dl_type (k_flow key)) = ETH_TYPE_IP then
        (case ob_l3 buffer of
           None \<Rightarrow> None
         | Some nh \<Rightarrow>
             if \<not> readable buffer nh IP_HEADER_LEN then None
             else
               (let m = ob_base buffer; old = ld8 m (nh + 1);
                    new = (ld8 ah 4 AND 0xfc) OR (old AND 0x03);
                    m = st16 m (nh + 10) (recalc_csum32 (ld16 m (nh + 10))
                          (ucast (htons (ucast old))) (ucast (htons (ucast new))))
                in Some (buffer\<lparr>ob_base := st8 m (nh + 1) new\<rparr>, key)))
      else Some (buffer, key))"

definition set_tp_port :: "ofpbuf \<Rightarrow> sw_flow_key \<Rightarrow> u8 list \<Rightarrow> (ofpbuf \<times> sw_flow_key) option" where
  "set_tp_port buffer key ah =
     (if ntohs (fl_dl_type (k_flow key)) = ETH_TYPE_IP then
        (let nw_proto = fl_nw_proto (k_flow key); new = ld16 ah 4;
             src = (ah_type ah = htons OFPAT_SET_TP_SRC)
         in if nw_proto = IP_TYPE_TCP then
              (case ob_l4 buffer of
                 None \<Rightarrow> None
               | Some th \<Rightarrow>
                   if \<not> readable buffer th TCP_HEADER_LEN then None
                   else
                     (let m = ob_base buffer; field = (if src then th else th + 2);
                          m = st16 m (th + 16) (recalc_csum16 (ld16 m (th + 16)) (ld16 m field) new)
                      in Some (buffer\<lparr>ob_base := st16 m field new\<rparr>, key)))
            else if nw_proto = IP_TYPE_UDP then
              (case ob_l4 buffer of
                 None \<Rightarrow> None
               | Some th \<Rightarrow>
                   if \<not> readable buffer th UDP_HEADER_LEN then None
                   else
                     (let m = ob_base buffer; field = (if src then th else th + 2);
                          m = st16 m (th + 6) (recalc_csum16 (ld16 m (th + 6)) (ld16 m field) new)
                      in Some (buffer\<lparr>ob_base := st16 m field new\<rparr>, key)))
            else Some (buffer, key))
      else Some (buffer, key))"

section \<open>The table of actions\<close>

record openflow_action =
  oa_min_size :: nat
  oa_max_size :: nat
  oa_validate :: "(sw_flow_key \<Rightarrow> u8 list \<Rightarrow> u16) option"
  oa_execute :: "(ofpbuf \<Rightarrow> sw_flow_key \<Rightarrow> u8 list \<Rightarrow> (ofpbuf \<times> sw_flow_key) option) option"

definition of_actions :: "openflow_action list" where
  "of_actions =
    [\<lparr>oa_min_size = 8, oa_max_size = 8, oa_validate = Some validate_output, oa_execute = None\<rparr>,
     \<lparr>oa_min_size = 8, oa_max_size = 8, oa_validate = None, oa_execute = Some set_vlan_vid\<rparr>,
     \<lparr>oa_min_size = 8, oa_max_size = 8, oa_validate = None, oa_execute = Some set_vlan_pcp\<rparr>,
     \<lparr>oa_min_size = 8, oa_max_size = 8, oa_validate = None, oa_execute = Some strip_vlan\<rparr>,
     \<lparr>oa_min_size = 16, oa_max_size = 16, oa_validate = None, oa_execute = Some set_dl_addr\<rparr>,
     \<lparr>oa_min_size = 16, oa_max_size = 16, oa_validate = None, oa_execute = Some set_dl_addr\<rparr>,
     \<lparr>oa_min_size = 8, oa_max_size = 8, oa_validate = None, oa_execute = Some set_nw_addr\<rparr>,
     \<lparr>oa_min_size = 8, oa_max_size = 8, oa_validate = None, oa_execute = Some set_nw_addr\<rparr>,
     \<lparr>oa_min_size = 8, oa_max_size = 8, oa_validate = None, oa_execute = Some set_nw_tos\<rparr>,
     \<lparr>oa_min_size = 8, oa_max_size = 8, oa_validate = None, oa_execute = Some set_tp_port\<rparr>,
     \<lparr>oa_min_size = 8, oa_max_size = 8, oa_validate = None, oa_execute = Some set_tp_port\<rparr>,
     \<lparr>oa_min_size = 16, oa_max_size = 16, oa_validate = Some validate_queue, oa_execute = None\<rparr>]"

definition validate_ofpat :: "sw_flow_key \<Rightarrow> u8 list \<Rightarrow> u16 \<Rightarrow> nat \<Rightarrow> u16" where
  "validate_ofpat key ah type len =
     (let act = of_actions ! unat type
      in if len < oa_min_size act \<or> len > oa_max_size act then OFPBAC_BAD_LEN
         else case oa_validate act of None \<Rightarrow> ACT_VALIDATION_OK | Some v \<Rightarrow> v key ah)"

definition validate_vendor :: "u8 list \<Rightarrow> nat \<Rightarrow> u16" where
  "validate_vendor ah len = (if len < 8 then OFPBAC_BAD_LEN else OFPBAC_BAD_VENDOR)"

lemma length_of_actions [simp]: "length of_actions = 12"
  by (simp add: of_actions_def)

lemma validate_ofpat_size:
  assumes "validate_ofpat key ah type len = ACT_VALIDATION_OK" "unat type < 12"
  shows "8 \<le> len"
proof -
  have "8 \<le> oa_min_size act" if "act \<in> set of_actions" for act
    using that by (auto simp: of_actions_def)
  then have "8 \<le> oa_min_size (of_actions ! unat type)" using assms(2) by simp
  then show ?thesis using assms(1) by (auto simp: validate_ofpat_def Let_def split: if_splits)
qed

text \<open>
  \<^verbatim>\<open>validate_actions\<close>: its loop ends because an action that passes has at least eight bytes.
\<close>

function validate_actions :: "sw_flow_key \<Rightarrow> u8 list \<Rightarrow> u16" where
  "validate_actions key p =
     (if length p \<ge> 8 then
        (let len = ah_len p
         in if length p < len \<or> len mod 8 \<noteq> 0 then OFPBAC_BAD_LEN
            else
              (let type = ntohs (ah_type p)
               in if unat type < 12 then
                    (let err = validate_ofpat key p type len
                     in if err \<noteq> ACT_VALIDATION_OK then err else validate_actions key (drop len p))
                  else if type = OFPAT_VENDOR then
                    (let err = validate_vendor p len
                     in if err \<noteq> ACT_VALIDATION_OK then err else validate_actions key (drop len p))
                  else OFPBAC_BAD_TYPE))
      else if p \<noteq> [] then OFPBAC_BAD_LEN
      else ACT_VALIDATION_OK)"
  by pat_completeness auto
termination
proof (relation "measure (\<lambda>(key, p). length p)", goal_cases)
  case (2 key p len type err)
  then show ?case using validate_ofpat_size [of key p "ntohs (ah_type p)" "ah_len p"] by auto
next
  case (3 key p len type err)
  then show ?case by (auto simp: validate_vendor_def split: if_splits)
qed simp

declare validate_actions.simps [simp del]

section \<open>Execution\<close>

definition execute_ofpat :: "ofpbuf \<Rightarrow> sw_flow_key \<Rightarrow> u8 list \<Rightarrow> u16 \<Rightarrow> (ofpbuf \<times> sw_flow_key) option" where
  "execute_ofpat buffer key ah type =
     (case oa_execute (of_actions ! unat type) of
        None \<Rightarrow> Some (buffer, key) | Some ex \<Rightarrow> ex buffer key ah)"

text \<open>\<^verbatim>\<open>execute_vendor\<close> only prints.\<close>

definition execute_vendor :: "ofpbuf \<Rightarrow> sw_flow_key \<Rightarrow> u8 list \<Rightarrow> ofpbuf \<times> sw_flow_key" where
  "execute_vendor buffer key ah = (buffer, key)"

text \<open>One action other than output and enqueue.\<close>

definition execute_one :: "ofpbuf \<Rightarrow> sw_flow_key \<Rightarrow> u8 list \<Rightarrow> (ofpbuf \<times> sw_flow_key) option" where
  "execute_one buffer key p =
     (let type = ntohs (ah_type p)
      in if unat type < 12 then execute_ofpat buffer key p type
         else if type = OFPAT_VENDOR then Some (execute_vendor buffer key p)
         else Some (buffer, key))"

text \<open>
  The loop of \<^verbatim>\<open>execute_actions\<close>. \<open>prev\<close> holds \<^verbatim>\<open>prev_port\<close> and \<^verbatim>\<open>prev_queue\<close>, \<open>None\<close> standing for
  \<^verbatim>\<open>prev_port == -1\<close>; \<open>reqs\<close> the output requests made so far.
\<close>

partial_function (option) execute_loop ::
  "junk \<Rightarrow> u16 \<Rightarrow> bool \<Rightarrow> u8 list \<Rightarrow> ofpbuf \<Rightarrow> sw_flow_key \<Rightarrow> (u16 \<times> u32) option \<Rightarrow> u16 \<Rightarrow> dp_call list
    \<Rightarrow> (ofpbuf \<times> sw_flow_key \<times> (u16 \<times> u32) option \<times> u16 \<times> dp_call list) option" where
  "execute_loop m in_port ignore p buffer key prev max_len reqs =
     (if p = [] then Some (buffer, key, prev, max_len, reqs)
      else if length p < 8 \<or> length p < ah_len p then None
      else
        (let reqs = (case prev of
                None \<Rightarrow> reqs
              | Some (port, queue) \<Rightarrow>
                  reqs @ [do_output (ofpbuf_clone m buffer) in_port max_len port queue ignore])
         in if ah_type p = htons OFPAT_OUTPUT then
              execute_loop m in_port ignore (drop (ah_len p) p) buffer key
                (Some (ntohs (oa_port p), 0)) (ntohs (ld16 p 6)) reqs
            else if ah_type p = htons OFPAT_ENQUEUE then
              (if length p < 16 then None
               else execute_loop m in_port ignore (drop (ah_len p) p) buffer key
                 (Some (ntohs (ld16 p 4), ntohl (ld32 p 12))) 0 reqs)
            else
              (case execute_one buffer key p of
                 None \<Rightarrow> None
               | Some (b, k) \<Rightarrow>
                   execute_loop m in_port ignore (drop (ah_len p) p) b k None max_len reqs)))"

declare execute_loop.simps [code]

definition execute_actions ::
  "junk \<Rightarrow> ofpbuf \<Rightarrow> sw_flow_key \<Rightarrow> u8 list \<Rightarrow> bool \<Rightarrow> (dp_call list \<times> sw_flow_key) option" where
  "execute_actions m buffer key actions ignore_no_fwd =
     (let in_port = ntohs (fl_in_port (k_flow key))
      in case execute_loop m in_port ignore_no_fwd actions buffer key None 0xffff [] of
           None \<Rightarrow> None
         | Some (b, k, Some (port, queue), max_len, reqs) \<Rightarrow>
             Some (reqs @ [do_output b in_port max_len port queue ignore_no_fwd], k)
         | Some (b, k, None, max_len, reqs) \<Rightarrow> Some (reqs, k))"

section \<open>Validated lists\<close>

text \<open>What validation promises of one action.\<close>

definition act_ok :: "sw_flow_key \<Rightarrow> u8 list \<Rightarrow> bool" where
  "act_ok key a \<longleftrightarrow>
     (let t = unat (ntohs (ah_type a))
      in t < 12 \<and> length a = oa_min_size (of_actions ! t)
       \<and> (t = 0 \<longrightarrow> validate_output key a = ACT_VALIDATION_OK)
       \<and> (t = 11 \<longrightarrow> validate_queue key a = ACT_VALIDATION_OK))"

lemma less_12: "(t :: nat) < 12 \<Longrightarrow> t \<in> {0, 1, 2, 3, 4, 5, 6, 7, 8, 9, 10, 11}"
  unfolding insert_iff empty_iff by arith

lemma of_actions_sizes:
  "t < 12 \<Longrightarrow> oa_max_size (of_actions ! t) = oa_min_size (of_actions ! t)"
  "t < 12 \<Longrightarrow> oa_min_size (of_actions ! t) = 8 \<or> oa_min_size (of_actions ! t) = 16"
  "t < 12 \<Longrightarrow> oa_validate (of_actions ! t) =
     (if t = 0 then Some validate_output else if t = 11 then Some validate_queue else None)"
proof -
  assume "t < 12"
  then have "t \<in> {0, 1, 2, 3, 4, 5, 6, 7, 8, 9, 10, 11}" by (rule less_12)
  then show "oa_max_size (of_actions ! t) = oa_min_size (of_actions ! t)"
    "oa_min_size (of_actions ! t) = 8 \<or> oa_min_size (of_actions ! t) = 16"
    "oa_validate (of_actions ! t) =
     (if t = 0 then Some validate_output else if t = 11 then Some validate_queue else None)"
    by (auto simp: of_actions_def)
qed

lemma validate_take [simp]:
  "8 \<le> n \<Longrightarrow> validate_output key (take n p) = validate_output key p"
  "8 \<le> n \<Longrightarrow> validate_queue key (take n p) = validate_queue key p"
  by (simp_all add: validate_output_def validate_queue_def ld16_take)

lemma validate_ofpat_iff:
  assumes "unat (ntohs (ah_type p)) < 12" "ah_len p \<le> length p"
  shows "validate_ofpat key p (ntohs (ah_type p)) (ah_len p) = ACT_VALIDATION_OK
    \<longleftrightarrow> act_ok key (take (ah_len p) p)"
proof -
  let ?t = "unat (ntohs (ah_type p))"
  note s = of_actions_sizes [OF assms(1)]
  show ?thesis
  proof (cases "ah_len p = oa_min_size (of_actions ! ?t)")
    case True
    then have "8 \<le> ah_len p" using s(2) by auto
    then show ?thesis
      using assms s True by (auto simp: validate_ofpat_def act_ok_def Let_def)
  next
    case False
    moreover have "\<not> act_ok key (take (ah_len p) p)"
    proof (cases "8 \<le> ah_len p")
      case True
      then show ?thesis using False assms by (auto simp: act_ok_def Let_def)
    next
      case False
      then have "length (take (ah_len p) p) < 8" using assms(2) by simp
      then show ?thesis using of_actions_sizes(2) by (fastforce simp: act_ok_def Let_def)
    qed
    ultimately show ?thesis using s(1) by (auto simp: validate_ofpat_def Let_def)
  qed
qed

lemma act_ok_size: "act_ok key a \<Longrightarrow> length a = 8 \<or> length a = 16"
  using of_actions_sizes(2) by (auto simp: act_ok_def Let_def)

lemma validate_actions_step:
  assumes "p \<noteq> []"
  shows "validate_actions key p = ACT_VALIDATION_OK \<longleftrightarrow>
    8 \<le> length p \<and> ah_len p \<le> length p \<and> act_ok key (take (ah_len p) p)
    \<and> validate_actions key (drop (ah_len p) p) = ACT_VALIDATION_OK"
proof (cases "8 \<le> length p \<and> ah_len p \<le> length p \<and> unat (ntohs (ah_type p)) < 12")
  case True
  then show ?thesis
    using validate_ofpat_iff [of p key] act_ok_size [of key "take (ah_len p) p"]
    by (subst validate_actions.simps) (auto simp: Let_def)
next
  case False
  have "8 \<le> length p \<Longrightarrow> ah_len p \<le> length p \<Longrightarrow> act_ok key (take (ah_len p) p) \<Longrightarrow> unat (ntohs (ah_type p)) < 12"
    using act_ok_size [of key "take (ah_len p) p"] by (auto simp: act_ok_def Let_def)
  then show ?thesis
    using False assms by (subst validate_actions.simps) (auto simp: Let_def validate_vendor_def)
qed

lemma validate_actions_ok_iff:
  "validate_actions key p = ACT_VALIDATION_OK \<longleftrightarrow> wf_acts p \<and> (\<forall>a\<in>set (split_acts p). act_ok key a)"
proof (induction p rule: measure_induct_rule [of length])
  case (less p)
  show ?case
  proof (cases "p = []")
    case True
    then show ?thesis by (simp add: validate_actions.simps)
  next
    case False
    show ?thesis
    proof (cases "8 \<le> length p \<and> ah_len p \<le> length p \<and> 8 \<le> ah_len p")
      case True
      then have "length (drop (ah_len p) p) < length p" by auto
      note IH = less.IH [OF this]
      have wf: "wf_acts p \<longleftrightarrow> wf_acts (drop (ah_len p) p)"
        using True False by (simp add: wf_acts.simps [of p])
      have "split_acts p = take (ah_len p) p # split_acts (drop (ah_len p) p)"
        using True False by (simp add: split_acts.simps [of p])
      then show ?thesis
        using True IH wf by (auto simp: validate_actions_step [OF False])
    next
      case no: False
      then have "\<not> wf_acts p" using False wf_acts_step by blast
      moreover have "\<not> (8 \<le> length p \<and> ah_len p \<le> length p \<and> act_ok key (take (ah_len p) p))"
        using no act_ok_size [of key "take (ah_len p) p"] by auto
      ultimately show ?thesis
        by (auto simp: validate_actions_step [OF False])
    qed
  qed
qed

section \<open>Execution of validated actions\<close>

definition is_strip :: "u8 list \<Rightarrow> bool" where
  "is_strip a \<longleftrightarrow> ntohs (ah_type a) = OFPAT_STRIP_VLAN"

definition is_vlan :: "u8 list \<Rightarrow> bool" where
  "is_vlan a \<longleftrightarrow> ntohs (ah_type a) = OFPAT_SET_VLAN_VID \<or> ntohs (ah_type a) = OFPAT_SET_VLAN_PCP"

definition is_output :: "u8 list \<Rightarrow> bool" where
  "is_output a \<longleftrightarrow> ntohs (ah_type a) = OFPAT_OUTPUT \<or> ntohs (ah_type a) = OFPAT_ENQUEUE"

definition count_acts :: "(u8 list \<Rightarrow> bool) \<Rightarrow> u8 list \<Rightarrow> nat" where
  "count_acts P p = length (filter P (split_acts p))"

text \<open>
  A packet with its key on which \<open>r\<close> tags can be stripped and \<open>v\<close> tags pushed: room in the packet
  and before it, and the headers that the key tells of inside the memory of the buffer.
\<close>

definition exec_ok :: "nat \<Rightarrow> nat \<Rightarrow> ofpbuf \<Rightarrow> sw_flow_key \<Rightarrow> bool" where
  "exec_ok r v b k \<longleftrightarrow>
     ofpbuf_wf b \<and> ob_l2 b = Some (ob_data b) \<and> 14 + 4 * r \<le> ob_size b \<and> 4 * v \<le> ob_data b
     \<and> (fl_dl_vlan (k_flow k) \<noteq> htons OFP_VLAN_NONE \<longrightarrow> 18 \<le> ob_size b)
     \<and> (fl_dl_type (k_flow k) = htons ETH_TYPE_IP \<longrightarrow>
          (\<exists>n. ob_l3 b = Some n \<and> readable b n IP_HEADER_LEN)
          \<and> (fl_nw_proto (k_flow k) = IP_TYPE_TCP \<longrightarrow> (\<exists>n. ob_l4 b = Some n \<and> readable b n TCP_HEADER_LEN))
          \<and> (fl_nw_proto (k_flow k) = IP_TYPE_UDP \<longrightarrow> (\<exists>n. ob_l4 b = Some n \<and> readable b n UDP_HEADER_LEN)))"

text \<open>A change of bytes in place keeps it.\<close>

lemma exec_ok_bytes:
  "exec_ok r v b k \<Longrightarrow> length bs = length (ob_base b) \<Longrightarrow> exec_ok r v (b\<lparr>ob_base := bs\<rparr>) k"
  by (simp add: exec_ok_def ofpbuf_wf_def readable_def)

lemma exec_ok_mono: "exec_ok r v b k \<Longrightarrow> r' \<le> r \<Longrightarrow> v' \<le> v \<Longrightarrow> exec_ok r' v' b k"
  by (auto simp: exec_ok_def)

lemma exec_ok_ip:
  assumes "exec_ok r v b k" "ntohs (fl_dl_type (k_flow k)) = ETH_TYPE_IP"
  shows "\<exists>n. ob_l3 b = Some n \<and> readable b n IP_HEADER_LEN"
    "fl_nw_proto (k_flow k) = IP_TYPE_TCP \<Longrightarrow> \<exists>n. ob_l4 b = Some n \<and> readable b n TCP_HEADER_LEN"
    "fl_nw_proto (k_flow k) = IP_TYPE_UDP \<Longrightarrow> \<exists>n. ob_l4 b = Some n \<and> readable b n UDP_HEADER_LEN"
proof -
  have "fl_dl_type (k_flow k) = htons ETH_TYPE_IP"
    using assms(2) by (metis htons_htons)
  then show "\<exists>n. ob_l3 b = Some n \<and> readable b n IP_HEADER_LEN"
    "fl_nw_proto (k_flow k) = IP_TYPE_TCP \<Longrightarrow> \<exists>n. ob_l4 b = Some n \<and> readable b n TCP_HEADER_LEN"
    "fl_nw_proto (k_flow k) = IP_TYPE_UDP \<Longrightarrow> \<exists>n. ob_l4 b = Some n \<and> readable b n UDP_HEADER_LEN"
    using assms(1) by (auto simp: exec_ok_def)
qed

definition same_port :: "sw_flow_key \<Rightarrow> sw_flow_key \<Rightarrow> bool" where
  "same_port k k' \<longleftrightarrow> fl_in_port (k_flow k') = fl_in_port (k_flow k)"

lemma set_dl_addr_ok:
  "exec_ok r v b k \<Longrightarrow> 16 \<le> length a \<Longrightarrow> \<exists>b'. set_dl_addr b k a = Some (b', k) \<and> exec_ok r v b' k"
  by (auto simp: set_dl_addr_def exec_ok_bytes exec_ok_def [of r v b k] ofpbuf_wf_def readable_def)

lemma nw_addr_transport_ok:
  assumes "exec_ok r v b k" "ntohs (fl_dl_type (k_flow k)) = ETH_TYPE_IP"
  shows "\<exists>b'. nw_addr_transport b (fl_nw_proto (k_flow k)) old new = Some b' \<and> exec_ok r v b' k
    \<and> ob_l3 b' = ob_l3 b \<and> length (ob_base b') = length (ob_base b)"
proof -
  consider (tcp) "fl_nw_proto (k_flow k) = IP_TYPE_TCP" | (udp) "fl_nw_proto (k_flow k) = IP_TYPE_UDP"
    | (other) "fl_nw_proto (k_flow k) \<noteq> IP_TYPE_TCP" "fl_nw_proto (k_flow k) \<noteq> IP_TYPE_UDP" by blast
  then show ?thesis
  proof cases
    case tcp
    then show ?thesis
      using exec_ok_ip(2) [OF assms tcp] exec_ok_bytes [OF assms(1)] by (auto simp: nw_addr_transport_def Let_def)
  next
    case udp
    then show ?thesis
      using exec_ok_ip(3) [OF assms udp] exec_ok_bytes [OF assms(1)] assms(1)
      by (auto simp: nw_addr_transport_def Let_def)
  next
    case other
    then show ?thesis using assms(1) by (simp add: nw_addr_transport_def)
  qed
qed

lemma set_nw_addr_ok:
  assumes "exec_ok r v b k"
  shows "\<exists>b'. set_nw_addr b k a = Some (b', k) \<and> exec_ok r v b' k"
proof (cases "ntohs (fl_dl_type (k_flow k)) = ETH_TYPE_IP")
  case True
  obtain n where n: "ob_l3 b = Some n" "readable b n IP_HEADER_LEN"
    using exec_ok_ip(1) [OF assms True] by blast
  let ?f = "if ah_type a = htons OFPAT_SET_NW_SRC then n + 12 else n + 16"
  obtain b' where b': "nw_addr_transport b (fl_nw_proto (k_flow k)) (ld32 (ob_base b) ?f) (ld32 a 4) = Some b'"
      "exec_ok r v b' k"
    using nw_addr_transport_ok [OF assms True] by blast
  then show ?thesis
    using n True exec_ok_bytes [OF b'(2)] by (simp add: set_nw_addr_def Let_def)
next
  case False
  then show ?thesis using assms by (simp add: set_nw_addr_def)
qed

lemma set_nw_tos_ok:
  assumes "exec_ok r v b k"
  shows "\<exists>b'. set_nw_tos b k a = Some (b', k) \<and> exec_ok r v b' k"
  using assms exec_ok_ip(1) [OF assms] exec_ok_bytes [OF assms] by (auto simp: set_nw_tos_def Let_def)

lemma set_tp_port_ok:
  assumes "exec_ok r v b k"
  shows "\<exists>b'. set_tp_port b k a = Some (b', k) \<and> exec_ok r v b' k"
proof (cases "ntohs (fl_dl_type (k_flow k)) = ETH_TYPE_IP")
  case True
  then show ?thesis
    using assms exec_ok_ip(2,3) [OF assms True] exec_ok_bytes [OF assms] by (auto simp: set_tp_port_def Let_def)
next
  case False
  then show ?thesis using assms by (simp add: set_tp_port_def)
qed

lemma vlan_vid_not_none: "t AND htons VLAN_VID_MASK \<noteq> htons OFP_VLAN_NONE"
proof
  assume h: "t AND htons VLAN_VID_MASK = htons OFP_VLAN_NONE"
  have "bit (t AND htons VLAN_VID_MASK) 4 = bit (htons OFP_VLAN_NONE) 4" by (simp only: h)
  then show False by (simp add: bit_simps bit_htons)
qed

lemma modify_vlan_tci_ok:
  assumes ok: "exec_ok r (Suc v) b k"
  shows "\<exists>b' k'. modify_vlan_tci b k tci msk = Some (b', k') \<and> exec_ok r v b' k' \<and> same_port k k'"
proof (cases "fl_dl_vlan (k_flow k) = htons OFP_VLAN_NONE")
  case True
  define b' where "b' = b\<lparr>ob_data := ob_data b - 4, ob_size := ob_size b + 4,
     ob_base := stn (ob_base b) (ob_data b - 4) (ldn (ob_base b) (ob_data b) 12
       @ bytes16 (htons ETH_TYPE_VLAN) @ bytes16 (htons tci) @ ldn (ob_base b) (ob_data b + 12) 2),
     ob_l2 := Some (ob_data b - 4)\<rparr>"
  have "modify_vlan_tci b k tci msk =
    (let t = ld16 (ob_base b') (ob_data b - 4 + 14)
     in Some (b', k\<lparr>k_flow := (k_flow k)\<lparr>fl_dl_vlan := t AND htons VLAN_VID_MASK,
          fl_dl_vlan_pcp := ucast (drop_bit 13 (ntohs t) AND 7)\<rparr>\<rparr>))"
    using ok True
    by (simp add: modify_vlan_tci_def exec_ok_def readable_def ofpbuf_wf_def ofpbuf_push_uninit_def
        ofpbuf_prealloc_headroom_def ofpbuf_headroom_def Let_def b'_def)
  moreover have "exec_ok r v b' (k\<lparr>k_flow := (k_flow k)\<lparr>fl_dl_vlan := x, fl_dl_vlan_pcp := y\<rparr>\<rparr>)" for x y
    using ok by (auto simp: exec_ok_def b'_def ofpbuf_wf_def readable_def)
  ultimately show ?thesis by (simp add: Let_def same_port_def)
next
  case False
  define b' where "b' = b\<lparr>ob_base := st16 (ob_base b) (ob_data b + 14)
    (ld16 (ob_base b) (ob_data b + 14) AND NOT (htons msk) OR htons tci)\<rparr>"
  have "modify_vlan_tci b k tci msk =
    (let t = ld16 (ob_base b') (ob_data b + 14)
     in Some (b', k\<lparr>k_flow := (k_flow k)\<lparr>fl_dl_vlan := t AND htons VLAN_VID_MASK,
          fl_dl_vlan_pcp := ucast (drop_bit 13 (ntohs t) AND 7)\<rparr>\<rparr>))"
    using ok False by (simp add: modify_vlan_tci_def exec_ok_def readable_def ofpbuf_wf_def Let_def b'_def)
  moreover have "exec_ok r v b' (k\<lparr>k_flow := (k_flow k)\<lparr>fl_dl_vlan := x, fl_dl_vlan_pcp := y\<rparr>\<rparr>)" for x y
    using ok False by (auto simp: exec_ok_def b'_def ofpbuf_wf_def readable_def)
  ultimately show ?thesis by (simp add: Let_def same_port_def)
qed

lemma strip_vlan_ok:
  assumes "exec_ok (Suc r) v b k"
  shows "\<exists>b' k'. strip_vlan b k a = Some (b', k') \<and> exec_ok r v b' k' \<and> same_port k k'"
  using assms
  by (auto simp: strip_vlan_def vlan_pull_tag_def exec_ok_def readable_def ofpbuf_wf_def Let_def same_port_def)

lemma of_actions_execute:
  "t < 12 \<Longrightarrow> oa_execute (of_actions ! t) =
     (if t = 0 \<or> t = 11 then None else if t = 1 then Some set_vlan_vid else if t = 2 then Some set_vlan_pcp
      else if t = 3 then Some strip_vlan else if t = 4 \<or> t = 5 then Some set_dl_addr
      else if t = 6 \<or> t = 7 then Some set_nw_addr else if t = 8 then Some set_nw_tos else Some set_tp_port)"
proof -
  assume "t < 12"
  then have "t \<in> {0, 1, 2, 3, 4, 5, 6, 7, 8, 9, 10, 11}" by (rule less_12)
  then show ?thesis by (auto simp: of_actions_def)
qed

lemma type_unat:
  "is_strip a \<longleftrightarrow> unat (ntohs (ah_type a)) = 3"
  "is_vlan a \<longleftrightarrow> unat (ntohs (ah_type a)) = 1 \<or> unat (ntohs (ah_type a)) = 2"
  "is_output a \<longleftrightarrow> unat (ntohs (ah_type a)) = 0 \<or> unat (ntohs (ah_type a)) = 11"
  by (simp_all add: is_strip_def is_vlan_def is_output_def word_unat_eq_iff)

lemma execute_one_ok:
  assumes ok: "exec_ok (r + (if is_strip a then 1 else 0)) (v + (if is_vlan a then 1 else 0)) b k"
    and t: "unat (ntohs (ah_type a)) < 12"
    and a: "unat (ntohs (ah_type a)) = 4 \<or> unat (ntohs (ah_type a)) = 5 \<Longrightarrow> 16 \<le> length a"
  shows "\<exists>b' k'. execute_one b k a = Some (b', k') \<and> exec_ok r v b' k' \<and> same_port k k'"
proof -
  let ?t = "unat (ntohs (ah_type a))"
  have ok': "exec_ok r v b k" by (rule exec_ok_mono [OF ok]) simp_all
  have self: "same_port k k" by (simp add: same_port_def)
  consider "?t = 0 \<or> ?t = 11" | "?t = 1" | "?t = 2" | "?t = 3" | "?t = 4 \<or> ?t = 5" | "?t = 6 \<or> ?t = 7"
    | "?t = 8" | "?t = 9 \<or> ?t = 10"
    using less_12 [OF t] by auto
  then show ?thesis
  proof cases
    case 1
    then show ?thesis using t ok' self by (auto simp: execute_one_def execute_ofpat_def of_actions_execute)
  next
    case 2
    then show ?thesis using t ok modify_vlan_tci_ok [of r v b k]
      by (simp add: execute_one_def execute_ofpat_def of_actions_execute type_unat set_vlan_vid_def)
  next
    case 3
    then show ?thesis using t ok modify_vlan_tci_ok [of r v b k]
      by (simp add: execute_one_def execute_ofpat_def of_actions_execute type_unat set_vlan_pcp_def)
  next
    case 4
    then show ?thesis using t ok strip_vlan_ok [of r v b k a]
      by (simp add: execute_one_def execute_ofpat_def of_actions_execute type_unat)
  next
    case 5
    then show ?thesis using t set_dl_addr_ok [OF ok' a [OF 5]] self
      by (auto simp: execute_one_def execute_ofpat_def of_actions_execute)
  next
    case 6
    then show ?thesis using t set_nw_addr_ok [OF ok', of a] self
      by (auto simp: execute_one_def execute_ofpat_def of_actions_execute)
  next
    case 7
    then show ?thesis using t set_nw_tos_ok [OF ok', of a] self
      by (auto simp: execute_one_def execute_ofpat_def of_actions_execute)
  next
    case 8
    then show ?thesis using t set_tp_port_ok [OF ok', of a] self
      by (auto simp: execute_one_def execute_ofpat_def of_actions_execute)
  qed
qed

text \<open>The ports of the output requests, and of the output actions.\<close>

fun call_port :: "dp_call \<Rightarrow> u16" where
  "call_port (Dp_output_port b in_port out_port queue ignore) = out_port"
| "call_port (Dp_output_control b in_port max_len reason) = OFPP_CONTROLLER"

lemma call_port_do_output [simp]: "call_port (do_output b i m p q g) = p"
  by (simp add: do_output_def)

definition act_port :: "u8 list \<Rightarrow> u16" where
  "act_port a = ntohs (ld16 a 4)"

lemma type_take: "8 \<le> n \<Longrightarrow> is_strip (take n p) = is_strip p" "8 \<le> n \<Longrightarrow> is_vlan (take n p) = is_vlan p"
  "8 \<le> n \<Longrightarrow> is_output (take n p) = is_output p" "8 \<le> n \<Longrightarrow> act_port (take n p) = act_port p"
  by (simp_all add: is_strip_def is_vlan_def is_output_def act_port_def ld16_take)

lemma htons_eq: "htons x = y \<longleftrightarrow> x = ntohs y"
  by (metis htons_htons)

lemma execute_loop_ok:
  assumes "wf_acts p" "\<forall>a\<in>set (split_acts p). act_ok key0 a"
    and "exec_ok (count_acts is_strip p) (count_acts is_vlan p) b k"
  shows "\<exists>b' k' prev' ml' reqs'. execute_loop m ip ig p b k prev ml reqs = Some (b', k', prev', ml', reqs')
    \<and> map call_port reqs' @ map fst (case prev' of None \<Rightarrow> [] | Some x \<Rightarrow> [x])
      = map call_port reqs @ map fst (case prev of None \<Rightarrow> [] | Some x \<Rightarrow> [x])
        @ map act_port (filter is_output (split_acts p))"
  using assms
proof (induction p arbitrary: b k prev ml reqs rule: wf_acts_induct)
  case Nil
  then show ?case by (simp add: execute_loop.simps)
next
  case (act p)
  note w = wf_acts_step [OF act.hyps(1,2)] and sp = split_acts_step [OF act.hyps(1,2)]
  let ?a = "take (ah_len p) p" and ?rest = "drop (ah_len p) p"
  let ?reqs = "case prev of None \<Rightarrow> reqs
    | Some (port, queue) \<Rightarrow> reqs @ [do_output (ofpbuf_clone m b) ip ml port queue ig]"
  have a: "act_ok key0 ?a" and rest: "\<forall>a\<in>set (split_acts ?rest). act_ok key0 a"
    using act.prems(1) sp by simp_all
  have t: "unat (ntohs (ah_type p)) < 12" "length ?a = oa_min_size (of_actions ! unat (ntohs (ah_type p)))"
    using a w(2) by (auto simp: act_ok_def Let_def)
  have len: "ah_len p = oa_min_size (of_actions ! unat (ntohs (ah_type p)))" using t(2) w(3) by simp
  have ok: "exec_ok (count_acts is_strip ?rest + (if is_strip p then 1 else 0))
      (count_acts is_vlan ?rest + (if is_vlan p then 1 else 0)) b k"
    using act.prems(2) w(2)
    by (cases "is_strip p"; cases "is_vlan p") (simp_all add: count_acts_def sp type_take)
  have okr: "exec_ok (count_acts is_strip ?rest) (count_acts is_vlan ?rest) b k"
    by (rule exec_ok_mono [OF ok]) simp_all
  have reqs: "map call_port ?reqs = map call_port reqs @ map fst (case prev of None \<Rightarrow> [] | Some x \<Rightarrow> [x])"
    by (auto split: option.split prod.split)
  have outs: "filter is_output (split_acts p) = (if is_output p then [?a] else []) @ filter is_output (split_acts ?rest)"
    using w(2) by (simp add: sp type_take)
  consider (out) "ah_type p = htons OFPAT_OUTPUT" | (enq) "ah_type p = htons OFPAT_ENQUEUE"
    | (other) "ah_type p \<noteq> htons OFPAT_OUTPUT" "ah_type p \<noteq> htons OFPAT_ENQUEUE" by blast
  then show ?case
  proof cases
    case out
    then have "is_output p" by (simp add: is_output_def)
    then show ?thesis
      using out w act.hyps(2) act.IH [OF rest okr, of "Some (ntohs (oa_port p), 0)" "ntohs (ld16 p 6)" ?reqs] reqs outs
      by (subst execute_loop.simps) (simp add: type_take act_port_def [symmetric] oa_port_def Let_def)
  next
    case enq
    then have "is_output p" by (simp add: is_output_def)
    moreover have "htons OFPAT_ENQUEUE \<noteq> 0" by code_simp
    moreover have "16 \<le> length p" using len w(3) enq by (simp add: of_actions_def)
    ultimately show ?thesis
      using enq w act.hyps(2) act.IH [OF rest okr, of "Some (ntohs (ld16 p 4), ntohl (ld32 p 12))" 0 ?reqs] reqs outs
      by (subst execute_loop.simps) (simp add: type_take act_port_def [symmetric] Let_def)
  next
    case other
    then have no: "\<not> is_output p" by (auto simp: is_output_def htons_eq)
    have "16 \<le> length p" if "unat (ntohs (ah_type p)) = 4 \<or> unat (ntohs (ah_type p)) = 5"
      using len w(3) that by (auto simp: of_actions_def)
    then obtain b' k' where ex: "execute_one b k p = Some (b', k')"
        "exec_ok (count_acts is_strip ?rest) (count_acts is_vlan ?rest) b' k'"
      using execute_one_ok [OF ok t(1)] by blast
    then show ?thesis
      using other w no act.hyps(2) act.IH [OF rest ex(2), of None ml ?reqs] reqs outs
      by (subst execute_loop.simps) simp
  qed
qed

lemma execute_actions_ok:
  assumes "validate_actions key0 acts = ACT_VALIDATION_OK"
    and "exec_ok (count_acts is_strip acts) (count_acts is_vlan acts) b k"
  shows "\<exists>reqs k'. execute_actions m b k acts ig = Some (reqs, k')
    \<and> map call_port reqs = map act_port (filter is_output (split_acts acts))"
proof -
  have v: "wf_acts acts" "\<forall>a\<in>set (split_acts acts). act_ok key0 a"
    using assms(1) by (simp_all add: validate_actions_ok_iff)
  from execute_loop_ok [OF v assms(2), where m = m and ip = "ntohs (fl_in_port (k_flow k))" and ig = ig
      and prev = None and ml = "0xffff" and reqs = "[]"]
  obtain b' k' prev' ml' reqs' where
    "execute_loop m (ntohs (fl_in_port (k_flow k))) ig acts b k None 0xffff [] = Some (b', k', prev', ml', reqs')"
    "map call_port reqs' @ map fst (case prev' of None \<Rightarrow> [] | Some x \<Rightarrow> [x])
       = map act_port (filter is_output (split_acts acts))"
    by auto
  then show ?thesis
    by (cases prev') (auto simp: execute_actions_def Let_def)
qed

text \<open>Packets that \<^verbatim>\<open>flow_extract\<close> has parsed.\<close>

lemma extract_exec_ok:
  assumes ex: "flow_extract packet port = (False, b, f)" and wf: "ofpbuf_wf packet"
    and ip: "fl_dl_type f = htons ETH_TYPE_IP \<Longrightarrow> ob_l4 b \<noteq> None"
    and vlan: "fl_dl_vlan f \<noteq> htons OFP_VLAN_NONE \<Longrightarrow> 18 \<le> ob_size b"
    and room: "14 + 4 * r \<le> ob_size packet" "4 * v \<le> ofpbuf_headroom packet"
    and k: "k_flow k = f"
  shows "exec_ok r v b k"
proof -
  have h: "headers_ok b False f" "ob_base b = ob_base packet" "ob_data b = ob_data packet" "ob_size b = ob_size packet"
    using flow_extract_headers_ok [OF ex] by simp_all
  have last: "ob_data b + ob_size b \<le> length (ob_base b)" using wf h by (simp add: ofpbuf_wf_def)
  have l3: "\<exists>n. ob_l3 b = Some n \<and> readable b n IP_HEADER_LEN" if "fl_dl_type f = htons ETH_TYPE_IP"
    using h(1) ip [OF that] last by (auto simp: headers_ok_def Let_def readable_def split: option.splits)
  have l4: "fl_dl_type f = htons ETH_TYPE_IP \<Longrightarrow> fl_nw_proto f = IP_TYPE_TCP \<Longrightarrow>
      \<exists>n. ob_l4 b = Some n \<and> readable b n TCP_HEADER_LEN"
    "fl_dl_type f = htons ETH_TYPE_IP \<Longrightarrow> fl_nw_proto f = IP_TYPE_UDP \<Longrightarrow>
      \<exists>n. ob_l4 b = Some n \<and> readable b n UDP_HEADER_LEN"
    using h(1) last by (auto simp: headers_ok_def Let_def readable_def)
  show ?thesis
    using h wf room vlan l3 l4
    by (simp add: exec_ok_def k ofpbuf_wf_def ofpbuf_headroom_def headers_ok_def Let_def)
qed

section \<open>Effects on the packet\<close>

lemma ldn_eq: "i + n \<le> length bs \<Longrightarrow> ldn bs i n = take n (drop i bs)"
  by (rule nth_equalityI) (simp_all add: ldn_def ld8_def)

text \<open>Adding a tag to an untagged frame.\<close>

lemma push_tag_contents:
  assumes ok: "exec_ok r (Suc v) b k" and none: "fl_dl_vlan (k_flow k) = htons OFP_VLAN_NONE"
    and m: "modify_vlan_tci b k tci msk = Some (b', k')"
  shows "contents b' = take 12 (contents b) @ bytes16 (htons ETH_TYPE_VLAN) @ bytes16 (htons tci) @ drop 12 (contents b)"
    and "ob_l2 b' = Some (ob_data b')" "ofpbuf_wf b'" "ob_size b' = ob_size b + 4"
proof -
  let ?tmp = "ldn (ob_base b) (ob_data b) 12
       @ bytes16 (htons ETH_TYPE_VLAN) @ bytes16 (htons tci) @ ldn (ob_base b) (ob_data b + 12) 2"
  have E: "ob_data b + ob_size b \<le> length (ob_base b)" "4 \<le> ob_data b" "14 \<le> ob_size b" "ob_l2 b = Some (ob_data b)"
    using ok by (auto simp: exec_ok_def ofpbuf_wf_def)
  have b': "b' = b\<lparr>ob_data := ob_data b - 4, ob_size := ob_size b + 4,
     ob_base := stn (ob_base b) (ob_data b - 4) ?tmp, ob_l2 := Some (ob_data b - 4)\<rparr>"
    using m E none
    by (simp add: modify_vlan_tci_def readable_def ofpbuf_push_uninit_def ofpbuf_prealloc_headroom_def
        ofpbuf_headroom_def Let_def)
  then show "ob_l2 b' = Some (ob_data b')" "ob_size b' = ob_size b + 4" by simp_all
  show "ofpbuf_wf b'" using E by (simp add: b' ofpbuf_wf_def)
  have tmp: "length ?tmp = 18" "?tmp = take 12 (contents b) @ bytes16 (htons ETH_TYPE_VLAN) @ bytes16 (htons tci)
      @ take 2 (drop 12 (contents b))"
    using E by (simp_all add: ldn_eq contents_def drop_take min_absorb1 add.commute)
  have "contents b' = ?tmp @ drop 14 (contents b)"
    using E tmp(1) by (simp add: b' contents_def stn_eq drop_take add.commute)
  also have "\<dots> = take 12 (contents b) @ bytes16 (htons ETH_TYPE_VLAN) @ bytes16 (htons tci)
      @ (take 2 (drop 12 (contents b)) @ drop 2 (drop 12 (contents b)))"
    unfolding tmp(2) by simp
  finally show "contents b' = take 12 (contents b) @ bytes16 (htons ETH_TYPE_VLAN) @ bytes16 (htons tci)
      @ drop 12 (contents b)"
    by (simp only: append_take_drop_id)
qed

lemma pull_tag_contents:
  assumes wf: "ofpbuf_wf b" and l2: "ob_l2 b = Some (ob_data b)" and n: "18 \<le> ob_size b"
    and t: "ld16 (ob_base b) (ob_data b + 12) = htons ETH_TYPE_VLAN"
  shows "\<exists>b'. vlan_pull_tag b = Some b' \<and> contents b' = take 12 (contents b) @ drop 16 (contents b)"
proof -
  let ?tmp = "ldn (ob_base b) (ob_data b) 12 @ ldn (ob_base b) (ob_data b + 16) 2"
  define b' where "b' = b\<lparr>ob_size := ob_size b - 4, ob_data := ob_data b + 4, ob_l2 := Some (ob_data b + 4),
    ob_base := stn (ob_base b) (ob_data b + 4) ?tmp\<rparr>"
  have E: "ob_data b + ob_size b \<le> length (ob_base b)" using wf by (simp add: ofpbuf_wf_def)
  have "vlan_pull_tag b = Some b'"
    using E n l2 t by (simp add: vlan_pull_tag_def readable_def Let_def b'_def)
  moreover have tmp: "?tmp = take 12 (contents b) @ take 2 (drop 16 (contents b))" "length ?tmp = 14"
    using E n by (simp_all add: ldn_eq contents_def drop_take min_absorb1 add.commute)
  have "contents b' = ?tmp @ drop 18 (contents b)"
    using E n tmp(2) by (simp add: b'_def contents_def stn_eq drop_take add.commute)
  moreover have "\<dots> = take 12 (contents b) @ (take 2 (drop 16 (contents b)) @ drop 2 (drop 16 (contents b)))"
    unfolding tmp(1) by simp
  ultimately show ?thesis by (simp only: append_take_drop_id) simp
qed

section \<open>The checksum of the IP header\<close>

text \<open>The ten words of the header without options at \<open>n\<close>, and what a valid header has.\<close>

definition ip_words :: "u8 list \<Rightarrow> nat \<Rightarrow> nat" where
  "ip_words m n = unat (ld16 m n) + unat (ld16 m (n + 2)) + unat (ld16 m (n + 4)) + unat (ld16 m (n + 6))
     + unat (ld16 m (n + 8)) + unat (ld16 m (n + 10)) + unat (ld16 m (n + 12)) + unat (ld16 m (n + 14))
     + unat (ld16 m (n + 16)) + unat (ld16 m (n + 18))"

definition ip_csum_ok :: "u8 list \<Rightarrow> nat \<Rightarrow> bool" where
  "ip_csum_ok m n \<longleftrightarrow> ip_words m n mod 65535 = 0"

lemma ld16_st32_low: "i + 3 < length bs \<Longrightarrow> ld16 (st32 bs i v) i = ucast v"
  by (simp add: st32_def ld16_st16_other ld16_st16_same)

lemma ld16_st32_high: "i + 3 < length bs \<Longrightarrow> ld16 (st32 bs i v) (i + 2) = ucast (drop_bit 16 v)"
  by (simp add: st32_def ld16_st16_same)

lemma ld32_low: "ucast (ld32 bs i) = ld16 bs i"
  by (rule bit_word_eqI) (auto simp: ld32_def bit_simps dest: bit_imp_le_length)

lemma ld32_high: "ucast (drop_bit 16 (ld32 bs i)) = ld16 bs (i + 2)"
  by (rule bit_word_eqI) (auto simp: ld32_def bit_simps dest: bit_imp_le_length)

text \<open>The two steps of \<^verbatim>\<open>recalc_csum32\<close> do not meet the sum whose carry is lost.\<close>

definition recalc32_exact :: "u16 \<Rightarrow> u32 \<Rightarrow> u32 \<Rightarrow> bool" where
  "recalc32_exact c old new \<longleftrightarrow> csum_sum c (ucast old) (ucast new) \<noteq> 131071
     \<and> csum_sum (recalc_csum16 c (ucast old) (ucast new)) (ucast (drop_bit 16 old)) (ucast (drop_bit 16 new)) \<noteq> 131071"

lemma recalc_csum32_valid:
  assumes "(unat c + unat (ucast old :: u16) + unat (ucast (drop_bit 16 old) :: u16) + rest) mod 65535 = 0"
    and "recalc32_exact c old new"
  shows "(unat (recalc_csum32 c old new) + unat (ucast new :: u16) + unat (ucast (drop_bit 16 new) :: u16) + rest)
    mod 65535 = 0"
proof -
  let ?c1 = "recalc_csum16 c (ucast old) (ucast new)"
  have "(unat c + unat (ucast old :: u16) + (unat (ucast (drop_bit 16 old) :: u16) + rest)) mod 65535 = 0"
    using assms(1) by (simp only: add.assoc)
  then have "(unat ?c1 + unat (ucast new :: u16) + (unat (ucast (drop_bit 16 old) :: u16) + rest)) mod 65535 = 0"
    using assms(2) unfolding recalc32_exact_def by (intro recalc_csum16_valid) auto
  then have "(unat ?c1 + unat (ucast (drop_bit 16 old) :: u16) + (unat (ucast new :: u16) + rest)) mod 65535 = 0"
    by (simp only: add.assoc add.left_commute)
  then have "(unat (recalc_csum16 ?c1 (ucast (drop_bit 16 old)) (ucast (drop_bit 16 new)))
      + unat (ucast (drop_bit 16 new) :: u16) + (unat (ucast new :: u16) + rest)) mod 65535 = 0"
    using assms(2) unfolding recalc32_exact_def by (intro recalc_csum16_valid) auto
  then show ?thesis
    unfolding recalc_csum32_def by (simp only: add.assoc add.left_commute)
qed

text \<open>Replacing an address and correcting the checksum in an IP header.\<close>

lemma ip_address_csum:
  fixes m n field new
  assumes ok: "ip_csum_ok m n" and len: "n + 20 \<le> length m" and field: "field = n + 12 \<or> field = n + 16"
    and ex: "recalc32_exact (ld16 m (n + 10)) (ld32 m field) new"
  defines "m' \<equiv> st32 (st16 m (n + 10) (recalc_csum32 (ld16 m (n + 10)) (ld32 m field) new)) field new"
  shows "ip_csum_ok m' n"
proof -
  let ?c = "ld16 m (n + 10)" and ?old = "ld32 m field"
  have o: "ld16 m field = ucast ?old" "ld16 m (field + 2) = ucast (drop_bit 16 ?old)"
    by (simp_all only: ld32_low ld32_high)
  from field consider "field = n + 12" "field + 2 = n + 14" | "field = n + 16" "field + 2 = n + 18"
    by auto
  note f2 = this
  define rest where "rest = ip_words m n - (unat ?c + unat (ld16 m field) + unat (ld16 m (field + 2)))"
  have old: "ip_words m n = unat ?c + unat (ld16 m field) + unat (ld16 m (field + 2)) + rest"
    using f2
  proof cases
    case 1
    show ?thesis unfolding rest_def 1(2) unfolding 1(1) ip_words_def by linarith
  next
    case 2
    show ?thesis unfolding rest_def 2(2) unfolding 2(1) ip_words_def by linarith
  qed
  have new: "ip_words m' n = unat (recalc_csum32 ?c ?old new) + unat (ucast new :: u16)
      + unat (ucast (drop_bit 16 new) :: u16) + rest"
  proof -
    have c: "ld16 m' (n + 10) = recalc_csum32 ?c ?old new"
      using field len by (auto simp: m'_def ld16_st32_other ld16_st16_same)
    have f: "ld16 m' field = ucast new" "ld16 m' (field + 2) = ucast (drop_bit 16 new)"
    proof -
      have "field + 3 < length (st16 m (n + 10) (recalc_csum32 ?c ?old new))" using field len by auto
      then show "ld16 m' field = ucast new" "ld16 m' (field + 2) = ucast (drop_bit 16 new)"
        unfolding m'_def by (rule ld16_st32_low, rule ld16_st32_high)
    qed
    have other: "ld16 m' i = ld16 m i" if "i + 1 < n + 10 \<or> n + 11 < i" "i + 1 < field \<or> field + 3 < i" for i
      using that field len by (auto simp: m'_def ld16_st32_other ld16_st16_other)
    from f2 show ?thesis
    proof cases
      case 1
      have "ld16 m' (n + 12) = ucast new" "ld16 m' (n + 14) = ucast (drop_bit 16 new)"
        using f unfolding 1(2) unfolding 1(1) by simp_all
      then show ?thesis
        unfolding rest_def 1(2) unfolding 1(1) ip_words_def using c other 1(1) by simp
    next
      case 2
      have "ld16 m' (n + 16) = ucast new" "ld16 m' (n + 18) = ucast (drop_bit 16 new)"
        using f unfolding 2(2) unfolding 2(1) by simp_all
      then show ?thesis
        unfolding rest_def 2(2) unfolding 2(1) ip_words_def using c other 2(1) by simp
    qed
  qed
  show ?thesis
    using recalc_csum32_valid [OF _ ex, of rest] ok
    unfolding ip_csum_ok_def old new o by blast
qed

lemma ld16_st16_far: "i + 1 < length bs \<Longrightarrow> j + 1 < i \<Longrightarrow> ld16 (st16 bs i v) j = ld16 bs j"
  by (simp add: ld16_st16_other)

lemma ip_words_st16: "i + 1 < length m \<Longrightarrow> n + 20 \<le> i \<Longrightarrow> ip_words (st16 m i x) n = ip_words m n"
  by (simp add: ip_words_def ld16_st16_far)

lemma ld32_st16_far: "i + 1 < length m \<Longrightarrow> j + 4 \<le> i \<Longrightarrow> ld32 (st16 m i x) j = ld32 m j"
  by (simp add: ld32_def ld16_st16_far)

text \<open>The transport checksum lies behind the IP header.\<close>

lemma nw_addr_transport_far:
  assumes "nw_addr_transport b proto old new = Some b'" and "\<And>n4. ob_l4 b = Some n4 \<Longrightarrow> n + 20 \<le> n4"
  shows "ip_words (ob_base b') n = ip_words (ob_base b) n"
    "ld16 (ob_base b') (n + 10) = ld16 (ob_base b) (n + 10)"
    "j \<le> n + 16 \<Longrightarrow> ld32 (ob_base b') j = ld32 (ob_base b) j"
    "length (ob_base b') = length (ob_base b)"
proof -
  show "ip_words (ob_base b') n = ip_words (ob_base b) n"
    "ld16 (ob_base b') (n + 10) = ld16 (ob_base b) (n + 10)"
    "j \<le> n + 16 \<Longrightarrow> ld32 (ob_base b') j = ld32 (ob_base b) j"
    "length (ob_base b') = length (ob_base b)"
    using assms
    by (auto simp: nw_addr_transport_def Let_def readable_def ip_words_st16 ld16_st16_far ld32_st16_far
        split: if_splits option.splits)
qed

lemma set_nw_addr_csum:
  assumes set: "set_nw_addr b k a = Some (b', k')" and ip: "ntohs (fl_dl_type (k_flow k)) = ETH_TYPE_IP"
    and l3: "ob_l3 b = Some n" and l4: "\<And>n4. ob_l4 b = Some n4 \<Longrightarrow> n + 20 \<le> n4"
    and ok: "ip_csum_ok (ob_base b) n"
    and ex: "recalc32_exact (ld16 (ob_base b) (n + 10))
      (ld32 (ob_base b) (if ah_type a = htons OFPAT_SET_NW_SRC then n + 12 else n + 16)) (ld32 a 4)"
  shows "ip_csum_ok (ob_base b') n
    \<and> ld32 (ob_base b') (if ah_type a = htons OFPAT_SET_NW_SRC then n + 12 else n + 16) = ld32 a 4"
proof -
  define f where "f = (if ah_type a = htons OFPAT_SET_NW_SRC then n + 12 else n + 16)"
  have f: "f = n + 12 \<or> f = n + 16" by (simp add: f_def)
  have r: "readable b n IP_HEADER_LEN" using set ip l3 by (auto simp: set_nw_addr_def split: if_splits)
  obtain b1 where b1: "nw_addr_transport b (fl_nw_proto (k_flow k)) (ld32 (ob_base b) f) (ld32 a 4) = Some b1"
    and b': "b' = b1\<lparr>ob_base := st32 (st16 (ob_base b1) (n + 10)
       (recalc_csum32 (ld16 (ob_base b1) (n + 10)) (ld32 (ob_base b1) f) (ld32 a 4))) f (ld32 a 4)\<rparr>"
    using set ip l3 r by (auto simp: set_nw_addr_def Let_def f_def split: option.splits)
  note far = nw_addr_transport_far [where n = n, OF b1 l4]
  have eq: "ld32 (ob_base b1) f = ld32 (ob_base b) f" using f far(3) by auto
  have len: "n + 20 \<le> length (ob_base b1)" using r far(4) by (simp add: readable_def)
  have "ip_csum_ok (ob_base b') n"
    using ip_address_csum [of "ob_base b1" n f "ld32 a 4"] ok f ex far(1,2) eq len
    by (simp add: b' ip_csum_ok_def f_def [symmetric])
  moreover have "ld32 (ob_base b') f = ld32 a 4"
    using f len by (auto simp: b' ld32_st32_same)
  ultimately show ?thesis by (simp add: f_def)
qed

section \<open>Properties\<close>

text \<open>
  OpenFlow 1.0: the sizes of the twelve actions, by type, and what is demanded of the port of an output and
  of an enqueue action in a flow with this key. Fields are in network byte order.
\<close>

definition acceptable_act :: "sw_flow_key \<Rightarrow> u8 list \<Rightarrow> bool" where
  "acceptable_act key a \<longleftrightarrow>
     (ntohs (ah_type a), length a) \<in> {(OFPAT_OUTPUT, 8), (OFPAT_SET_VLAN_VID, 8), (OFPAT_SET_VLAN_PCP, 8),
        (OFPAT_STRIP_VLAN, 8), (OFPAT_SET_DL_SRC, 16), (OFPAT_SET_DL_DST, 16), (OFPAT_SET_NW_SRC, 8),
        (OFPAT_SET_NW_DST, 8), (OFPAT_SET_NW_TOS, 8), (OFPAT_SET_TP_SRC, 8), (OFPAT_SET_TP_DST, 8), (OFPAT_ENQUEUE, 16)}
     \<and> (ntohs (ah_type a) = OFPAT_OUTPUT \<longrightarrow> ntohs (ld16 a 4) \<noteq> OFPP_NONE
          \<and> (flag_set (k_wildcards key) OFPFW_IN_PORT \<or> ld16 a 4 \<noteq> fl_in_port (k_flow key)))
     \<and> (ntohs (ah_type a) = OFPAT_ENQUEUE \<longrightarrow> ntohs (ld16 a 4) \<le> OFPP_MAX \<or> ntohs (ld16 a 4) = OFPP_IN_PORT)"

lemma type_cases: "unat (x :: u16) < 12 \<Longrightarrow> x \<in> {0, 1, 2, 3, 4, 5, 6, 7, 8, 9, 10, 11}"
proof -
  assume "unat x < 12"
  then have "word_of_nat (unat x) \<in> (word_of_nat ` {0, 1, 2, 3, 4, 5, 6, 7, 8, 9, 10, 11 :: nat} :: u16 set)"
    using less_12 by blast
  then show ?thesis by simp
qed

lemma act_ok_acceptable: "act_ok key a = acceptable_act key a"
proof (cases "unat (ntohs (ah_type a)) < 12")
  case True
  have p: "(ld16 a 4 = htons OFPP_NONE) = (ntohs (ld16 a 4) = OFPP_NONE)" by (metis htons_htons)
  from type_cases [OF True] show ?thesis
    unfolding act_ok_def acceptable_act_def
    by (elim insertE emptyE)
      (auto simp: Let_def of_actions_def validate_output_def validate_queue_def oa_port_def p not_le)
next
  case False
  then have "\<not> acceptable_act key a" by (auto simp: acceptable_act_def)
  then show ?thesis using False by (simp add: act_ok_def Let_def)
qed

lemma validate_ofpat_codes:
  "unat type < 12 \<Longrightarrow> validate_ofpat key p type len \<in> {OFPBAC_BAD_LEN, OFPBAC_BAD_OUT_PORT, ACT_VALIDATION_OK}"
  by (simp add: validate_ofpat_def of_actions_sizes(3) validate_output_def validate_queue_def Let_def)

lemma validate_actions_codes:
  "validate_actions key p \<in> {OFPBAC_BAD_TYPE, OFPBAC_BAD_LEN, OFPBAC_BAD_VENDOR, OFPBAC_BAD_OUT_PORT, ACT_VALIDATION_OK}"
proof (induction key p rule: validate_actions.induct)
  case (1 key p)
  show ?case
    using 1 validate_ofpat_codes [of "ntohs (ah_type p)" key p "ah_len p"]
    by (subst validate_actions.simps) (auto simp: Let_def validate_vendor_def)
qed


text \<open>
  C8. Executing validated actions on an unfragmented packet with complete headers ends and stays inside
  the memory of the buffer, when the packet is long enough for the tags that are stripped and has
  headroom for those that are pushed; there is one output request for each output or enqueue
  action, to its port and in the order of the actions.
\<close>

theorem execute_actions_safe:
  assumes "flow_extract packet port = (False, b, f)" and "ofpbuf_wf packet"
    and "fl_dl_type f = htons ETH_TYPE_IP \<Longrightarrow> ob_l4 b \<noteq> None"
    and "fl_dl_vlan f \<noteq> htons OFP_VLAN_NONE \<Longrightarrow> 18 \<le> ob_size b"
    and "validate_actions key acts = ACT_VALIDATION_OK"
    and "14 + 4 * count_acts is_strip acts \<le> ob_size packet"
    and "4 * count_acts is_vlan acts \<le> ofpbuf_headroom packet" and "k_flow k = f"
  shows "\<exists>reqs k'. execute_actions m b k acts ig = Some (reqs, k')
    \<and> map call_port reqs = map act_port (filter is_output (split_acts acts))"
  using execute_actions_ok [OF assms(5) extract_exec_ok [OF assms(1-4,6-8)]] .

text \<open>
  Rewriting an IP address stores the new address and keeps a valid IP header checksum valid
  (but for the sums on which the incremental update loses a carry).
\<close>

theorem set_nw_addr_keeps_checksum:
  assumes "set_nw_addr b k a = Some (b', k')" and "ntohs (fl_dl_type (k_flow k)) = ETH_TYPE_IP"
    and "ob_l3 b = Some n" and "\<And>n4. ob_l4 b = Some n4 \<Longrightarrow> n + 20 \<le> n4"
    and "ip_csum_ok (ob_base b) n"
    and "recalc32_exact (ld16 (ob_base b) (n + 10))
      (ld32 (ob_base b) (if ah_type a = htons OFPAT_SET_NW_SRC then n + 12 else n + 16)) (ld32 a 4)"
  shows "ip_csum_ok (ob_base b') n
    \<and> ld32 (ob_base b') (if ah_type a = htons OFPAT_SET_NW_SRC then n + 12 else n + 16) = ld32 a 4"
  using assms by (rule set_nw_addr_csum)

text \<open>
  Setting a VLAN tag on an untagged frame inserts the four bytes of the tag behind the Ethernet
  addresses, and stripping it gives back the frame.
\<close>

theorem vlan_push_strip_roundtrip:
  assumes "exec_ok r (Suc v) b k" and "fl_dl_vlan (k_flow k) = htons OFP_VLAN_NONE"
    and "modify_vlan_tci b k tci msk = Some (b1, k1)"
  shows "contents b1 = take 12 (contents b) @ bytes16 (htons ETH_TYPE_VLAN) @ bytes16 (htons tci) @ drop 12 (contents b)
    \<and> (\<exists>b2. vlan_pull_tag b1 = Some b2 \<and> contents b2 = contents b)"
proof -
  note P = push_tag_contents [OF assms]
  have n: "14 \<le> ob_size b" "length (contents b) = ob_size b"
    using assms(1) length_contents [of b] by (auto simp: exec_ok_def)
  have c: "ld8 (contents b1) i = ld8 (ob_base b1) (ob_data b1 + i)" if "i < ob_size b1" for i
    using that P(3) by (simp add: contents_def ld8_def ofpbuf_wf_def add.commute)
  have "ld16 (ob_base b1) (ob_data b1 + 12) = ld16 (contents b1) 12"
    using c [of 12] c [of 13] n P(4) by (simp add: ld16_def add.commute)
  also have "\<dots> = htons ETH_TYPE_VLAN"
    unfolding P(1) using n by (simp add: ld16_def ld8_def nth_append bytes16_def u16_of_bytes)
  finally have t: "ld16 (ob_base b1) (ob_data b1 + 12) = htons ETH_TYPE_VLAN" .
  have "18 \<le> ob_size b1" using n P(4) by simp
  from pull_tag_contents [OF P(3,2) this t] obtain b2 where
    "vlan_pull_tag b1 = Some b2" "contents b2 = take 12 (contents b1) @ drop 16 (contents b1)" by blast
  moreover have "take 12 (contents b1) @ drop 16 (contents b1) = contents b"
    unfolding P(1) using n by (simp add: bytes16_def)
  ultimately show ?thesis using P(1) by simp
qed

text \<open>
  \<^verbatim>\<open>modify_vlan_tci\<close> does not confine itself to the bits of its mask: on a tagged frame every bit of
  the new value is set, so that \<^verbatim>\<open>SET_VLAN_VID\<close> with a value above 4095 changes the priority.
\<close>

theorem modify_vlan_tci_ignores_mask:
  assumes "ob_l2 b = Some p" and "readable b p 16" and "fl_dl_vlan (k_flow k) \<noteq> htons OFP_VLAN_NONE"
  shows "\<exists>b' k'. modify_vlan_tci b k tci msk = Some (b', k')
    \<and> ld16 (ob_base b') (p + 14) = ld16 (ob_base b) (p + 14) AND NOT (htons msk) OR htons tci"
  using assms by (simp add: modify_vlan_tci_def Let_def readable_def ld16_st16_same)

text \<open>
  \<^verbatim>\<open>set_tp_port\<close> on a UDP packet without checksum (the field is zero) writes a checksum computed
  from the zero, where \<^verbatim>\<open>set_nw_addr\<close> leaves the packet without one.
\<close>

theorem set_tp_port_udp_zero_checksum:
  assumes "ntohs (fl_dl_type (k_flow k)) = ETH_TYPE_IP" and "fl_nw_proto (k_flow k) = IP_TYPE_UDP"
    and "ob_l4 b = Some n" and "readable b n UDP_HEADER_LEN" and "ld16 (ob_base b) (n + 6) = 0"
    and "ah_type a = htons OFPAT_SET_TP_SRC"
  shows "\<exists>b'. set_tp_port b k a = Some (b', k)
    \<and> ld16 (ob_base b') (n + 6) = recalc_csum16 0 (ld16 (ob_base b) n) (ld16 a 4)"
  using assms
  by (simp add: set_tp_port_def Let_def readable_def ld16_st16_other ld16_st16_same)

section \<open>Witnesses\<close>

text \<open>The UDP packet with eight bytes of headroom, and a list of actions: set the VLAN, output.\<close>

definition room_packet :: ofpbuf where
  "room_packet = \<lparr>ob_base = replicate 8 0 @ udp_frame, ob_data = 8, ob_size = 42, ob_l2 = None,
     ob_l3 = None, ob_l4 = None, ob_l7 = None\<rparr>"

definition parsed_packet :: ofpbuf where
  "parsed_packet = room_packet\<lparr>ob_l2 := Some 8, ob_l3 := Some 22, ob_l4 := Some 42, ob_l7 := Some 50\<rparr>"

definition parsed_key :: sw_flow_key where
  "parsed_key = \<lparr>k_flow = \<lparr>fl_nw_src = 0x0100000a, fl_nw_dst = 0x0200000a, fl_in_port = htons 1, fl_dl_vlan = 0xffff,
      fl_dl_type = htons 0x800, fl_tp_src = htons 1234, fl_tp_dst = htons 53,
      fl_dl_src = 0x020000000002, fl_dl_dst = 0x020000000001, fl_dl_vlan_pcp = 0, fl_nw_tos = 0,
      fl_nw_proto = 17, fl_pad = 0\<rparr>, k_wildcards = 0, k_nw_src_mask = - 1, k_nw_dst_mask = - 1\<rparr>"

definition vlan_acts :: "u8 list" where
  "vlan_acts = [0, 1, 0, 8, 0, 5, 0, 0, 0, 0, 0, 8, 0, 2, 0, 0]"

lemma parsed_extract: "flow_extract room_packet 1 = (False, parsed_packet, k_flow parsed_key)"
  by code_simp

lemma vlan_acts_valid: "validate_actions parsed_key vlan_acts = ACT_VALIDATION_OK"
  by code_simp

lemma vlan_acts_counts:
  "count_acts is_strip vlan_acts = 0" "count_acts is_vlan vlan_acts = 1"
  "map act_port (filter is_output (split_acts vlan_acts)) = [2]"
  by code_simp+

theorem execute_actions_safe_witness:
  "\<exists>reqs k'. execute_actions (\<lambda>_. 0) parsed_packet parsed_key vlan_acts False = Some (reqs, k')
    \<and> map call_port reqs = [2]"
proof -
  have "\<exists>reqs k'. execute_actions (\<lambda>_. 0) parsed_packet parsed_key vlan_acts False = Some (reqs, k')
    \<and> map call_port reqs = map act_port (filter is_output (split_acts vlan_acts))"
    by (rule execute_actions_safe [OF parsed_extract _ _ _ vlan_acts_valid])
       (simp_all add: ofpbuf_wf_def room_packet_def parsed_packet_def parsed_key_def udp_frame_def
         ofpbuf_headroom_def vlan_acts_counts)
  then show ?thesis by (simp only: vlan_acts_counts)
qed

definition nw_src_act :: "u8 list" where
  "nw_src_act = [0, 6, 0, 8, 192, 168, 0, 1]"

theorem set_nw_addr_keeps_checksum_witness:
  "\<exists>b'. set_nw_addr parsed_packet parsed_key nw_src_act = Some (b', parsed_key) \<and> ip_csum_ok (ob_base b') 22"
proof -
  have d: "ntohs (fl_dl_type (k_flow parsed_key)) = ETH_TYPE_IP" "ob_l3 parsed_packet = Some 22"
    "ob_l4 parsed_packet = Some 42"
    by code_simp+
  have "ld16 (ob_base parsed_packet) 22 = 0x0045" "ld16 (ob_base parsed_packet) 24 = 0x1c00"
    "ld16 (ob_base parsed_packet) 26 = 0x0100" "ld16 (ob_base parsed_packet) 28 = 0"
    "ld16 (ob_base parsed_packet) 30 = 0x1140" "ld16 (ob_base parsed_packet) 32 = 0xce66"
    "ld16 (ob_base parsed_packet) 34 = 0x000a" "ld16 (ob_base parsed_packet) 36 = 0x0100"
    "ld16 (ob_base parsed_packet) 38 = 0x000a" "ld16 (ob_base parsed_packet) 40 = 0x0200"
    by code_simp+
  then have c: "ip_csum_ok (ob_base parsed_packet) 22"
    by (simp add: ip_csum_ok_def ip_words_def)
  have "ah_type nw_src_act = htons OFPAT_SET_NW_SRC" "ld16 (ob_base parsed_packet) 32 = 0xce66"
    "ld32 (ob_base parsed_packet) 34 = 0x0100000a" "ld32 nw_src_act 4 = 0x0100a8c0"
    "recalc_csum16 0xce66 0x000a 0xa8c0 = 0x25b0"
    by code_simp+
  then have e: "recalc32_exact (ld16 (ob_base parsed_packet) (22 + 10))
      (ld32 (ob_base parsed_packet) (if ah_type nw_src_act = htons OFPAT_SET_NW_SRC then 22 + 12 else 22 + 16))
      (ld32 nw_src_act 4)"
    by (simp add: recalc32_exact_def csum_sum_def)
  have "exec_ok 0 0 parsed_packet parsed_key"
    by (rule extract_exec_ok [OF parsed_extract])
       (simp_all add: ofpbuf_wf_def room_packet_def parsed_packet_def parsed_key_def udp_frame_def)
  then obtain b' where b': "set_nw_addr parsed_packet parsed_key nw_src_act = Some (b', parsed_key)"
    using set_nw_addr_ok by blast
  from set_nw_addr_keeps_checksum [OF b' d(1,2) _ c e] d(3) b' show ?thesis by auto
qed

theorem vlan_push_strip_roundtrip_witness:
  "\<exists>b1 k1 b2. modify_vlan_tci parsed_packet parsed_key 5 VLAN_VID_MASK = Some (b1, k1)
    \<and> vlan_pull_tag b1 = Some b2 \<and> contents b2 = contents parsed_packet"
proof -
  have ok: "exec_ok 0 (Suc 0) parsed_packet parsed_key"
    by (rule extract_exec_ok [OF parsed_extract])
       (simp_all add: ofpbuf_wf_def room_packet_def parsed_packet_def parsed_key_def udp_frame_def
         ofpbuf_headroom_def)
  obtain b1 k1 where m: "modify_vlan_tci parsed_packet parsed_key 5 VLAN_VID_MASK = Some (b1, k1)"
    using modify_vlan_tci_ok [OF ok] by blast
  have "fl_dl_vlan (k_flow parsed_key) = htons OFP_VLAN_NONE" by code_simp
  from vlan_push_strip_roundtrip [OF ok this m] m show ?thesis by blast
qed

definition tagged_key :: sw_flow_key where
  "tagged_key = parsed_key\<lparr>k_flow := (k_flow parsed_key)\<lparr>fl_dl_vlan := 0\<rparr>\<rparr>"

theorem modify_vlan_tci_ignores_mask_witness:
  "\<exists>b' k'. modify_vlan_tci parsed_packet tagged_key 0xe005 VLAN_VID_MASK = Some (b', k')
    \<and> ld16 (ob_base b') (8 + 14) = ld16 (ob_base parsed_packet) (8 + 14) AND NOT (htons VLAN_VID_MASK) OR htons 0xe005"
proof -
  have "ob_l2 parsed_packet = Some 8" "readable parsed_packet 8 16"
    "fl_dl_vlan (k_flow tagged_key) \<noteq> htons OFP_VLAN_NONE"
    by code_simp+
  then show ?thesis by (rule modify_vlan_tci_ignores_mask)
qed

theorem set_tp_port_udp_zero_checksum_witness:
  "\<exists>b'. set_tp_port parsed_packet parsed_key [0, 9, 0, 8, 0, 80, 0, 0] = Some (b', parsed_key)
    \<and> ld16 (ob_base b') 48 \<noteq> 0"
proof -
  have d: "ntohs (fl_dl_type (k_flow parsed_key)) = ETH_TYPE_IP" "fl_nw_proto (k_flow parsed_key) = IP_TYPE_UDP"
    "ob_l4 parsed_packet = Some 42" "readable parsed_packet 42 UDP_HEADER_LEN"
    "ld16 (ob_base parsed_packet) (42 + 6) = 0" "ah_type [0, 9, 0, 8, 0, 80, 0, 0] = htons OFPAT_SET_TP_SRC"
    by code_simp+
  have "recalc_csum16 0 (ld16 (ob_base parsed_packet) 42) (ld16 [0, 9, 0, 8, 0, 80, 0, 0] 4) \<noteq> 0"
    by code_simp
  with set_tp_port_udp_zero_checksum [OF d] show ?thesis by auto
qed

end
