(* ===== verification/Chain.thy ===== *)
theory Chain
  imports Table_Linear Table_Hash
begin

text \<open>
  The chain of flow tables, \<^verbatim>\<open>src/openflow/udatapath/chain.c\<close>, without the hardware tables of
  \<^verbatim>\<open>OF_HW_PLAT\<close>. A \<^verbatim>\<open>struct sw_table *\<close> is a linear or a double-hashing table, and a call through
  one of its function pointers a case distinction. The list \<open>ch_tables\<close> holds the first
  \<^verbatim>\<open>n_tables\<close> elements of \<^verbatim>\<open>tables\<close>; \<open>ch_emerg_table\<close> is \<open>None\<close> while the pointer is null.
\<close>

abbreviation ENOMEM :: int where "ENOMEM \<equiv> 12"
abbreviation ENOBUFS :: int where "ENOBUFS \<equiv> 105"
abbreviation CHAIN_MAX_TABLES :: nat where "CHAIN_MAX_TABLES \<equiv> 4"
abbreviation TABLE_LINEAR_MAX_FLOWS :: u32 where "TABLE_LINEAR_MAX_FLOWS \<equiv> 100"
abbreviation TABLE_HASH_MAX_FLOWS :: u32 where "TABLE_HASH_MAX_FLOWS \<equiv> 65536"

section \<open>Calls through a table\<close>

datatype sw_table = Linear sw_table_linear | Hash2 sw_table_hash2

fun table_lookup :: "sw_table \<Rightarrow> sw_flow_key \<Rightarrow> sw_flow option" where
  "table_lookup (Linear t) key = table_linear_lookup t key"
| "table_lookup (Hash2 t) key = table_hash2_lookup t key"

fun table_insert :: "sw_table \<Rightarrow> sw_flow \<Rightarrow> bool \<times> sw_table" where
  "table_insert (Linear t) flow = (let (ok, t') = table_linear_insert t flow in (ok, Linear t'))"
| "table_insert (Hash2 t) flow = (let (ok, t') = table_hash2_insert t flow in (ok, Hash2 t'))"

fun table_modify ::
  "(nat \<Rightarrow> bool) \<Rightarrow> sw_table \<Rightarrow> sw_flow_key \<Rightarrow> u16 \<Rightarrow> bool \<Rightarrow> u8 list \<Rightarrow> u32 \<times> sw_table" where
  "table_modify alloc (Linear t) key priority strict actions =
     (let (n, t') = table_linear_modify alloc t key priority strict actions in (n, Linear t'))"
| "table_modify alloc (Hash2 t) key priority strict actions =
     (let (n, t') = table_hash2_modify alloc t key priority strict actions in (n, Hash2 t'))"

fun table_has_conflict :: "sw_table \<Rightarrow> sw_flow_key \<Rightarrow> u16 \<Rightarrow> bool \<Rightarrow> bool" where
  "table_has_conflict (Linear t) key priority strict = table_linear_has_conflict t key priority strict"
| "table_has_conflict (Hash2 t) key priority strict = table_hash2_has_conflict t key priority strict"

fun table_delete :: "sw_table \<Rightarrow> sw_flow_key \<Rightarrow> u16 \<Rightarrow> u16 \<Rightarrow> bool
    \<Rightarrow> (u32 \<times> sw_table \<times> sw_flow list) option" where
  "table_delete (Linear t) key out_port priority strict =
     map_option (\<lambda>(n, t', ended). (n, Linear t', ended))
       (table_linear_delete t key out_port priority strict)"
| "table_delete (Hash2 t) key out_port priority strict =
     map_option (\<lambda>(n, t', ended). (n, Hash2 t', ended))
       (table_hash2_delete t key out_port priority strict)"

fun table_timeout :: "u64 \<Rightarrow> sw_table \<Rightarrow> sw_flow list \<Rightarrow> sw_table \<times> sw_flow list" where
  "table_timeout now (Linear t) deleted =
     (let (t', d) = table_linear_timeout now t deleted in (Linear t', d))"
| "table_timeout now (Hash2 t) deleted =
     (let (t', d) = table_hash2_timeout now t deleted in (Hash2 t', d))"

fun table_destroy :: "sw_table \<Rightarrow> nat list" where
  "table_destroy (Linear t) = table_linear_destroy t"
| "table_destroy (Hash2 t) = table_hash2_destroy t"

fun table_stats :: "sw_table \<Rightarrow> sw_table_stats" where
  "table_stats (Linear t) = table_linear_stats t"
| "table_stats (Hash2 t) = table_hash2_stats t"

fun table_iterate :: "sw_table \<Rightarrow> sw_flow_key \<Rightarrow> u16 \<Rightarrow> sw_table_position \<Rightarrow> 's callback \<Rightarrow> 's
    \<Rightarrow> (int \<times> sw_table_position \<times> 's) option" where
  "table_iterate (Linear t) key out_port position callback s =
     table_linear_iterate t key out_port position callback s"
| "table_iterate (Hash2 t) key out_port position callback s =
     table_hash2_iterate t key out_port position callback s"

text \<open>\<^verbatim>\<open>t->n_lookup++\<close>, and \<^verbatim>\<open>t->n_matched++\<close> if the lookup found a flow.\<close>

fun table_count :: "bool \<Rightarrow> sw_table \<Rightarrow> sw_table" where
  "table_count found (Linear t) =
     Linear (t\<lparr>tl_n_lookup := tl_n_lookup t + 1,
               tl_n_matched := (if found then tl_n_matched t + 1 else tl_n_matched t)\<rparr>)"
| "table_count found (Hash2 t) =
     Hash2 (t\<lparr>t2_n_lookup := t2_n_lookup t + 1,
              t2_n_matched := (if found then t2_n_matched t + 1 else t2_n_matched t)\<rparr>)"

section \<open>The chain\<close>

record sw_chain =
  ch_tables :: "sw_table list"
  ch_emerg_table :: "sw_table option"

text \<open>The table that does not fit is destroyed.\<close>

definition add_table :: "sw_chain \<Rightarrow> sw_table option \<Rightarrow> bool \<Rightarrow> int \<times> sw_chain" where
  "add_table chain table emerg =
     (case table of
        None \<Rightarrow> (- ENOMEM, chain)
      | Some t \<Rightarrow>
          if length (ch_tables chain) \<ge> CHAIN_MAX_TABLES then (- ENOBUFS, chain)
          else if emerg then (0, chain\<lparr>ch_emerg_table := Some t\<rparr>)
          else (0, chain\<lparr>ch_tables := ch_tables chain @ [t]\<rparr>))"

text \<open>
  The flows freed; \<open>None\<close> is the call through the null pointer when there is no emergency table.
\<close>

definition chain_destroy :: "sw_chain \<Rightarrow> nat list option" where
  "chain_destroy chain =
     (case ch_emerg_table chain of
        None \<Rightarrow> None
      | Some t \<Rightarrow> Some (concat (map table_destroy (ch_tables chain)) @ table_destroy t))"

text \<open>
  \<open>hash\<close>, \<open>linear\<close> and \<open>emerg\<close> are what the three calls that create tables return. \<open>None\<close>: the
  process crashes; \<open>Some None\<close>: the null pointer is returned.
\<close>

definition chain_create_with ::
  "bool \<Rightarrow> sw_table option \<Rightarrow> sw_table option \<Rightarrow> sw_table option \<Rightarrow> sw_chain option option" where
  "chain_create_with ok hash linear emerg =
     (if \<not> ok then Some None
      else
        (let chain = \<lparr>ch_tables = [], ch_emerg_table = None\<rparr>;
             (e1, chain) = add_table chain hash False;
             (e2, chain) = (if e1 \<noteq> 0 then (e1, chain) else add_table chain linear False);
             (e3, chain) = (if e2 \<noteq> 0 then (e2, chain) else add_table chain emerg True)
         in if e3 \<noteq> 0 then (case chain_destroy chain of None \<Rightarrow> None | Some _ \<Rightarrow> Some None)
            else Some (Some chain)))"

definition chain_create ::
  "bool \<Rightarrow> bool \<Rightarrow> bool \<times> bool \<Rightarrow> bool \<times> bool \<Rightarrow> bool \<Rightarrow> bool \<Rightarrow> sw_chain option option" where
  "chain_create ok ok2 ok_sub0 ok_sub1 ok_linear ok_emerg =
     (case table_hash2_create ok2 ok_sub0 ok_sub1 0x1EDC6F41 TABLE_HASH_MAX_FLOWS
             0x741B8CD7 TABLE_HASH_MAX_FLOWS of
        None \<Rightarrow> None
      | Some hash \<Rightarrow>
          chain_create_with ok (map_option Hash2 hash)
            (map_option Linear (table_linear_create ok_linear TABLE_LINEAR_MAX_FLOWS))
            (map_option Linear (table_linear_create ok_emerg TABLE_LINEAR_MAX_FLOWS)))"

fun lookup_tables :: "sw_table list \<Rightarrow> sw_flow_key \<Rightarrow> sw_flow option \<times> sw_table list" where
  "lookup_tables [] key = (None, [])"
| "lookup_tables (t # ts) key =
     (case table_lookup t key of
        Some flow \<Rightarrow> (Some flow, table_count True t # ts)
      | None \<Rightarrow> (let (r, ts') = lookup_tables ts key in (r, table_count False t # ts')))"

text \<open>\<open>None\<close>: the assertion on the key fails, or the emergency table is missing.\<close>

definition chain_lookup :: "sw_chain \<Rightarrow> sw_flow_key \<Rightarrow> bool \<Rightarrow> (sw_flow option \<times> sw_chain) option" where
  "chain_lookup chain key emerg =
     (if k_wildcards key \<noteq> 0 then None
      else if emerg then
        (case ch_emerg_table chain of
           None \<Rightarrow> None
         | Some t \<Rightarrow>
             (let flow = table_lookup t key
              in Some (flow, chain\<lparr>ch_emerg_table := Some (table_count (flow \<noteq> None) t)\<rparr>)))
      else
        (let (flow, ts) = lookup_tables (ch_tables chain) key
         in Some (flow, chain\<lparr>ch_tables := ts\<rparr>)))"

fun insert_tables :: "sw_table list \<Rightarrow> sw_flow \<Rightarrow> bool \<times> sw_table list" where
  "insert_tables [] flow = (False, [])"
| "insert_tables (t # ts) flow =
     (case table_insert t flow of
        (True, t') \<Rightarrow> (True, t' # ts)
      | (False, t') \<Rightarrow> (let (ok, ts') = insert_tables ts flow in (ok, t' # ts')))"

definition chain_insert :: "sw_chain \<Rightarrow> sw_flow \<Rightarrow> bool \<Rightarrow> (int \<times> sw_chain) option" where
  "chain_insert chain flow emerg =
     (if emerg then
        (case ch_emerg_table chain of
           None \<Rightarrow> None
         | Some t \<Rightarrow>
             (case table_insert t flow of
                (ok, t') \<Rightarrow> Some (if ok then 0 else - ENOBUFS, chain\<lparr>ch_emerg_table := Some t'\<rparr>)))
      else
        (case insert_tables (ch_tables chain) flow of
           (ok, ts) \<Rightarrow> Some (if ok then 0 else - ENOBUFS, chain\<lparr>ch_tables := ts\<rparr>)))"

fun modify_tables ::
  "(nat \<Rightarrow> bool) \<Rightarrow> sw_table list \<Rightarrow> sw_flow_key \<Rightarrow> u16 \<Rightarrow> bool \<Rightarrow> u8 list \<Rightarrow> u32 \<times> sw_table list" where
  "modify_tables alloc [] key priority strict actions = (0, [])"
| "modify_tables alloc (t # ts) key priority strict actions =
     (let (n, t') = table_modify alloc t key priority strict actions;
          (n', ts') = modify_tables alloc ts key priority strict actions
      in (n + n', t' # ts'))"

definition chain_modify :: "(nat \<Rightarrow> bool) \<Rightarrow> sw_chain \<Rightarrow> sw_flow_key \<Rightarrow> u16 \<Rightarrow> bool \<Rightarrow> u8 list \<Rightarrow> bool
    \<Rightarrow> (u32 \<times> sw_chain) option" where
  "chain_modify alloc chain key priority strict actions emerg =
     (if emerg then
        (case ch_emerg_table chain of
           None \<Rightarrow> None
         | Some t \<Rightarrow>
             (case table_modify alloc t key priority strict actions of
                (n, t') \<Rightarrow> Some (n, chain\<lparr>ch_emerg_table := Some t'\<rparr>)))
      else
        (case modify_tables alloc (ch_tables chain) key priority strict actions of
           (n, ts) \<Rightarrow> Some (n, chain\<lparr>ch_tables := ts\<rparr>)))"

definition chain_has_conflict :: "sw_chain \<Rightarrow> sw_flow_key \<Rightarrow> u16 \<Rightarrow> bool \<Rightarrow> bool" where
  "chain_has_conflict chain key priority strict =
     list_ex (\<lambda>t. table_has_conflict t key priority strict) (ch_tables chain)"

fun delete_tables :: "sw_table list \<Rightarrow> sw_flow_key \<Rightarrow> u16 \<Rightarrow> u16 \<Rightarrow> bool
    \<Rightarrow> (u32 \<times> sw_table list \<times> sw_flow list) option" where
  "delete_tables [] key out_port priority strict = Some (0, [], [])"
| "delete_tables (t # ts) key out_port priority strict =
     (case table_delete t key out_port priority strict of
        None \<Rightarrow> None
      | Some (n, t', ended) \<Rightarrow>
          (case delete_tables ts key out_port priority strict of
             None \<Rightarrow> None
           | Some (n', ts', ended') \<Rightarrow> Some (n + n', t' # ts', ended @ ended')))"

definition chain_delete :: "sw_chain \<Rightarrow> sw_flow_key \<Rightarrow> u16 \<Rightarrow> u16 \<Rightarrow> bool \<Rightarrow> bool
    \<Rightarrow> (u32 \<times> sw_chain \<times> sw_flow list) option" where
  "chain_delete chain key out_port priority strict emerg =
     (if emerg then
        (case ch_emerg_table chain of
           None \<Rightarrow> None
         | Some t \<Rightarrow>
             map_option (\<lambda>(n, t', ended). (n, chain\<lparr>ch_emerg_table := Some t'\<rparr>, ended))
               (table_delete t key out_port priority strict))
      else
        map_option (\<lambda>(n, ts, ended). (n, chain\<lparr>ch_tables := ts\<rparr>, ended))
          (delete_tables (ch_tables chain) key out_port priority strict))"

fun timeout_tables :: "u64 \<Rightarrow> sw_table list \<Rightarrow> sw_flow list \<Rightarrow> sw_table list \<times> sw_flow list" where
  "timeout_tables now [] deleted = ([], deleted)"
| "timeout_tables now (t # ts) deleted =
     (let (t', d) = table_timeout now t deleted; (ts', d') = timeout_tables now ts d
      in (t' # ts', d'))"

definition chain_timeout :: "u64 \<Rightarrow> sw_chain \<Rightarrow> sw_flow list \<Rightarrow> sw_chain \<times> sw_flow list" where
  "chain_timeout now chain deleted =
     (case timeout_tables now (ch_tables chain) deleted of
        (ts, d) \<Rightarrow> (chain\<lparr>ch_tables := ts\<rparr>, d))"

section \<open>Every table of a chain is a flow table\<close>

fun table_inv :: "sw_table \<Rightarrow> bool" where
  "table_inv (Linear t) = linear_inv t"
| "table_inv (Hash2 t) = hash2_inv t"

fun table_addable :: "sw_table \<Rightarrow> sw_flow \<Rightarrow> bool" where
  "table_addable (Linear t) f = linear_addable t f"
| "table_addable (Hash2 t) f = hash2_addable t f"

fun table_entries :: "sw_table \<Rightarrow> sw_flow list" where
  "table_entries (Linear t) = tl_flows t"
| "table_entries (Hash2 t) = hash2_entries t"

lemma table_insert_sel:
  "fst (table_insert (Linear t) f) = fst (table_linear_insert t f)"
  "snd (table_insert (Linear t) f) = Linear (snd (table_linear_insert t f))"
  "fst (table_insert (Hash2 u) f) = fst (table_hash2_insert u f)"
  "snd (table_insert (Hash2 u) f) = Hash2 (snd (table_hash2_insert u f))"
  by (simp_all add: case_prod_beta)

lemma table_timeout_sel:
  "fst (table_timeout now (Linear t) d) = Linear (fst (table_linear_timeout now t d))"
  "snd (table_timeout now (Linear t) d) = snd (table_linear_timeout now t d)"
  "fst (table_timeout now (Hash2 u) d) = Hash2 (fst (table_hash2_timeout now u d))"
  "snd (table_timeout now (Hash2 u) d) = snd (table_hash2_timeout now u d)"
  by (simp_all add: case_prod_beta)

lemmas table_sel = table_insert_sel table_timeout_sel

declare table_insert.simps [simp del] table_timeout.simps [simp del]

interpretation table: flow_table table_inv table_addable table_entries table_lookup table_insert
  table_delete table_timeout
proof
  fix t f assume "table_inv t" "f \<in> set (table_entries t)"
  then show "entry_ok f"
    by (cases t) (simp_all add: linear.entries_ok hash2.entries_ok)
next
  fix t p f assume "table_inv t" "packet_key p" "table_lookup t p = Some f"
  then show "f \<in> set (table_entries t) \<and> entry_matches p f"
    by (cases t) (simp_all add: linear.lookup_Some hash2.lookup_Some)
next
  fix t p f assume "table_inv t" "packet_key p" "table_lookup t p = None" "f \<in> set (table_entries t)"
  then show "\<not> entry_matches p f"
    by (cases t) (auto dest: linear.lookup_None hash2.lookup_None)
next
  fix t f assume "table_inv t" "table_addable t f"
  then show "table_inv (snd (table_insert t f))"
    by (cases t) (simp_all add: table_sel linear.add_inv hash2.add_inv)
next
  fix t f assume "table_inv t" "table_addable t f" "\<not> fst (table_insert t f)"
  then show "snd (table_insert t f) = t"
    by (cases t) (simp_all add: table_sel linear.add_fail hash2.add_fail)
next
  fix t f assume a: "table_inv t" "table_addable t f" "fst (table_insert t f)"
  show "\<exists>s old. f\<lparr>sf_serial := s\<rparr> \<in> set (table_entries (snd (table_insert t f)))
    \<and> mset (table_entries (snd (table_insert t f))) + mset old = mset (table_entries t) + {#f\<lparr>sf_serial := s\<rparr>#}
    \<and> length old \<le> 1 \<and> (\<forall>g\<in>set old. \<forall>p. packet_key p \<longrightarrow> entry_matches p g = entry_matches p f)"
  proof (cases t)
    case (Linear u)
    then show ?thesis using a linear.add_entries [of u f] by (simp only: table_sel table_entries.simps
      table_inv.simps table_addable.simps)
  next
    case (Hash2 u)
    then show ?thesis using a hash2.add_entries [of u f] by (simp only: table_sel table_entries.simps
      table_inv.simps table_addable.simps)
  qed
next
  fix t f p assume "table_inv t" "table_addable t f" "packet_key p" "\<not> entry_matches p f"
  then show "table_lookup (snd (table_insert t f)) p = table_lookup t p"
    by (cases t) (simp_all add: table_sel linear.add_frame hash2.add_frame)
next
  fix t k op pr st c t' ended
  assume "table_inv t" "table_delete t k op pr st = Some (c, t', ended)"
  then show "table_inv t'"
    by (cases t) (auto dest: linear.delete_inv hash2.delete_inv)
next
  fix t k op pr st assume "table_inv t"
  then show "table_delete t k op pr st \<noteq> None"
    by (cases t) (simp_all add: linear.delete_total hash2.delete_total)
next
  fix t k op pr st c t' ended
  assume a: "table_inv t" "table_delete t k op pr st = Some (c, t', ended)"
  show "mset (table_entries t') + mset ended = mset (table_entries t) \<and> unat c = length ended"
  proof (cases t)
    case (Linear u)
    then obtain u' where "table_linear_delete u k op pr st = Some (c, u', ended)" "t' = Linear u'"
      using a(2) by auto
    then show ?thesis using a(1) Linear linear.delete_entries [of u k op pr st c u' ended] by simp
  next
    case (Hash2 u)
    then obtain u' where "table_hash2_delete u k op pr st = Some (c, u', ended)" "t' = Hash2 u'"
      using a(2) by auto
    then show ?thesis using a(1) Hash2 hash2.delete_entries [of u k op pr st c u' ended] by simp
  qed
next
  fix t now d assume "table_inv t"
  then show "table_inv (fst (table_timeout now t d))"
    by (cases t) (simp_all add: table_sel linear.timeout_inv hash2.timeout_inv)
next
  fix t now d assume a: "table_inv t"
  show "table_entries (fst (table_timeout now t d))
      = filter (\<lambda>f. \<not> fst (flow_timeout now f)) (table_entries t)
    \<and> snd (table_timeout now t d) = d @ map (snd \<circ> flow_timeout now)
         (filter (\<lambda>f. fst (flow_timeout now f)) (table_entries t))"
  proof (cases t)
    case (Linear u)
    then show ?thesis using a linear.timeout_entries [of u now d] by (simp add: table_sel)
  next
    case (Hash2 u)
    then show ?thesis using a hash2.timeout_entries [of u now d] by (simp add: table_sel)
  qed
qed

lemma table_count_inv [simp]: "table_inv (table_count b t) = table_inv t"
proof (cases t)
  case (Linear u) then show ?thesis by (simp add: linear_inv_def del: if_split)
next
  case (Hash2 u) then show ?thesis by (simp add: hash2_inv_def del: if_split)
qed

lemma table_count_entries [simp]: "table_entries (table_count b t) = table_entries t"
  by (cases t) (simp_all add: hash2_entries_def)

lemma table_count_addable [simp]: "table_addable (table_count b t) f = table_addable t f"
  by (cases t) (simp_all add: linear_addable_def hash2_addable_def)

lemma table_count_lookup [simp]: "table_lookup (table_count b t) p = table_lookup t p"
proof (cases t)
  case (Linear u) then show ?thesis by (simp add: table_linear_lookup_def)
next
  case (Hash2 u) then show ?thesis by (simp add: table_hash2_lookup_eq split: option.split)
qed

section \<open>Invariant of the chain\<close>

definition chain_inv :: "sw_chain \<Rightarrow> bool" where
  "chain_inv chain \<longleftrightarrow> length (ch_tables chain) \<le> CHAIN_MAX_TABLES
     \<and> (\<forall>t\<in>set (ch_tables chain). table_inv t)
     \<and> (\<exists>t. ch_emerg_table chain = Some t \<and> table_inv t)"

definition tables_entries :: "sw_table list \<Rightarrow> sw_flow list" where
  "tables_entries ts = concat (map table_entries ts)"

abbreviation chain_entries :: "sw_chain \<Rightarrow> sw_flow list" where
  "chain_entries chain \<equiv> tables_entries (ch_tables chain)"

definition chain_addable :: "sw_chain \<Rightarrow> sw_flow \<Rightarrow> bool" where
  "chain_addable chain f \<longleftrightarrow> (\<forall>t\<in>set (ch_tables chain). table_addable t f)"

lemma tables_entries_simps [simp]:
  "tables_entries [] = []" "tables_entries (t # ts) = table_entries t @ tables_entries ts"
  by (simp_all add: tables_entries_def)

lemma lookup_tables_correct:
  assumes "\<forall>t\<in>set ts. table_inv t" "packet_key p" "lookup_tables ts p = (r, ts')"
  shows "(\<forall>t\<in>set ts'. table_inv t) \<and> map table_entries ts' = map table_entries ts
    \<and> (case r of None \<Rightarrow> \<forall>f\<in>set (tables_entries ts). \<not> entry_matches p f
       | Some f \<Rightarrow> \<exists>us t vs. ts = us @ t # vs \<and> table_lookup t p = Some f
           \<and> (\<forall>g\<in>set (tables_entries us). \<not> entry_matches p g))"
  using assms(1,3)
proof (induction ts arbitrary: r ts')
  case (Cons t ts)
  show ?case
  proof (cases "table_lookup t p")
    case None
    obtain r1 ts1 where l: "lookup_tables ts p = (r1, ts1)" by fastforce
    then have eq: "r = r1" "ts' = table_count False t # ts1" using Cons.prems None by auto
    have no: "\<forall>g\<in>set (table_entries t). \<not> entry_matches p g"
      using table.lookup_None [OF _ assms(2) None] Cons.prems(1) by auto
    have IH: "(\<forall>t\<in>set ts1. table_inv t) \<and> map table_entries ts1 = map table_entries ts
      \<and> (case r1 of None \<Rightarrow> \<forall>f\<in>set (tables_entries ts). \<not> entry_matches p f
         | Some f \<Rightarrow> \<exists>us t vs. ts = us @ t # vs \<and> table_lookup t p = Some f
             \<and> (\<forall>g\<in>set (tables_entries us). \<not> entry_matches p g))"
      using Cons.IH [OF _ l] Cons.prems(1) by simp
    show ?thesis
    proof (cases r1)
      case None
      then show ?thesis using IH no eq Cons.prems(1) by auto
    next
      case (Some f)
      then obtain us u vs where "ts = us @ u # vs" "table_lookup u p = Some f"
        "\<forall>g\<in>set (tables_entries us). \<not> entry_matches p g" using IH by auto
      then have "t # ts = (t # us) @ u # vs \<and> table_lookup u p = Some f
          \<and> (\<forall>g\<in>set (tables_entries (t # us)). \<not> entry_matches p g)" using no by auto
      then have ex: "\<exists>us u vs. t # ts = us @ u # vs \<and> table_lookup u p = Some f
          \<and> (\<forall>g\<in>set (tables_entries us). \<not> entry_matches p g)" by blast
      have r: "r = Some f" using eq Some by simp
      show ?thesis using IH eq(2) Cons.prems(1) unfolding r option.case
        by (intro conjI ex) simp_all
    qed
  next
    case (Some f)
    then have "r = Some f" "ts' = table_count True t # ts" using Cons.prems(2) by auto
    then show ?thesis
      using Cons.prems(1) Some by (auto intro!: exI [of _ "[]"])
  qed
qed simp

lemma insert_tables_correct:
  assumes "\<forall>t\<in>set ts. table_inv t \<and> table_addable t f" "insert_tables ts f = (ok, ts')"
  shows "(\<forall>t\<in>set ts'. table_inv t) \<and> length ts' = length ts
    \<and> (if ok then \<exists>us t vs. ts = us @ t # vs \<and> ts' = us @ snd (table_insert t f) # vs \<and> fst (table_insert t f)
        \<and> (\<forall>u\<in>set us. \<not> fst (table_insert u f))
       else ts' = ts \<and> (\<forall>u\<in>set ts. \<not> fst (table_insert u f)))"
  using assms
proof (induction ts arbitrary: ok ts')
  case (Cons t ts)
  have t: "table_inv t" "table_addable t f" using Cons.prems(1) by auto
  obtain b t1 where i: "table_insert t f = (b, t1)" by fastforce
  show ?case
  proof (cases b)
    case True
    then show ?thesis
      using Cons.prems i table.add_inv [OF t] by (auto intro!: exI [of _ "[]"])
  next
    case False
    then have t1: "t1 = t" using table.add_fail [OF t] i by simp
    obtain ok1 ts1 where l: "insert_tables ts f = (ok1, ts1)" by fastforce
    have eq: "ok = ok1" "ts' = t # ts1" using Cons.prems(2) i False t1 l by auto
    note IH = Cons.IH [OF _ l]
    show ?thesis
    proof (cases ok1)
      case True
      then obtain us u vs where u: "ts = us @ u # vs" "ts1 = us @ snd (table_insert u f) # vs"
        "fst (table_insert u f)" "\<forall>u\<in>set us. \<not> fst (table_insert u f)"
        using IH Cons.prems(1) by auto
      have inv: "\<forall>t\<in>set ts1. table_inv t" using IH Cons.prems(1) by auto
      have "t # ts = (t # us) @ u # vs \<and> t # ts1 = (t # us) @ snd (table_insert u f) # vs
          \<and> fst (table_insert u f) \<and> (\<forall>u\<in>set (t # us). \<not> fst (table_insert u f))"
        using u i False by simp
      then have ex: "\<exists>us u vs. t # ts = us @ u # vs \<and> t # ts1 = us @ snd (table_insert u f) # vs
          \<and> fst (table_insert u f) \<and> (\<forall>u\<in>set us. \<not> fst (table_insert u f))" by blast
      have ok: "ok = True" using eq True by simp
      show ?thesis using inv t(1) u(1,2) unfolding ok if_True eq(2)
        by (intro conjI ex) simp_all
    next
      case no: False
      then show ?thesis using IH eq Cons.prems(1) i False t by auto
    qed
  qed
qed simp

lemma delete_tables_correct:
  assumes "\<forall>t\<in>set ts. table_inv t"
  shows "\<exists>c ts' ended. delete_tables ts key out_port priority strict = Some (c, ts', ended)
    \<and> (\<forall>t\<in>set ts'. table_inv t) \<and> length ts' = length ts
    \<and> mset (tables_entries ts') + mset ended = mset (tables_entries ts)
    \<and> c = of_nat (length ended)"
  using assms
proof (induction ts)
  case (Cons t ts)
  obtain c t' e where d: "table_delete t key out_port priority strict = Some (c, t', e)"
    using table.delete_total [of t key out_port priority strict] Cons.prems by auto
  have t: "table_inv t'" "mset (table_entries t') + mset e = mset (table_entries t)" "unat c = length e"
    using table.delete_inv [OF _ d] table.delete_entries [OF _ d] Cons.prems by auto
  have c: "c = of_nat (length e)" using t(3) [symmetric] by simp
  obtain c1 ts1 e1 where r: "delete_tables ts key out_port priority strict = Some (c1, ts1, e1)"
    "\<forall>t\<in>set ts1. table_inv t" "length ts1 = length ts"
    "mset (tables_entries ts1) + mset e1 = mset (tables_entries ts)" "c1 = of_nat (length e1)"
    using Cons.IH Cons.prems by auto
  show ?case
  proof (intro exI conjI)
    show "delete_tables (t # ts) key out_port priority strict = Some (c + c1, t' # ts1, e @ e1)"
      using d r(1) by simp
    show "mset (tables_entries (t' # ts1)) + mset (e @ e1) = mset (tables_entries (t # ts))"
      unfolding tables_entries_simps mset_append t(2) [symmetric] r(4) [symmetric] by (simp add: ac_simps)
  qed (use t(1) r c in simp_all)
qed simp

lemma timeout_tables_correct:
  assumes "\<forall>t\<in>set ts. table_inv t"
  shows "(\<forall>t\<in>set (fst (timeout_tables now ts d)). table_inv t)
    \<and> length (fst (timeout_tables now ts d)) = length ts
    \<and> tables_entries (fst (timeout_tables now ts d)) = filter (\<lambda>f. \<not> fst (flow_timeout now f)) (tables_entries ts)
    \<and> snd (timeout_tables now ts d) = d @ map (snd \<circ> flow_timeout now)
         (filter (\<lambda>f. fst (flow_timeout now f)) (tables_entries ts))"
  using assms
proof (induction ts arbitrary: d)
  case (Cons t ts)
  then have t: "table_inv t" by simp
  show ?case
    using Cons table.timeout_inv [OF t, of now d] table.timeout_entries [OF t, of now d]
    by (simp add: case_prod_beta)
qed simp

lemma lookup_tables_map:
  assumes "\<forall>t\<in>set ts. table_inv t" "packet_key p"
  shows "(\<exists>f. fst (lookup_tables ts p) = Some f \<and> entry_matches p f)
    \<or> fst (lookup_tables ts p) = None \<and> (\<forall>f\<in>set (tables_entries ts). \<not> entry_matches p f)"
proof -
  obtain r ts' where l: "lookup_tables ts p = (r, ts')" by fastforce
  note c = lookup_tables_correct [OF assms l]
  show ?thesis
  proof (cases r)
    case None
    then show ?thesis using c l by simp
  next
    case (Some f)
    then obtain us t vs where "ts = us @ t # vs" "table_lookup t p = Some f" using c by auto
    then show ?thesis using l Some table.lookup_Some [of t p f] assms by simp
  qed
qed

lemma fst_lookup_tables_append:
  "fst (lookup_tables (us @ vs) p)
     = (case fst (lookup_tables us p) of None \<Rightarrow> fst (lookup_tables vs p) | Some f \<Rightarrow> Some f)"
  by (induction us) (auto simp: case_prod_beta split: option.split)

lemma insert_tables_lookup:
  assumes ok: "\<forall>t\<in>set ts. table_inv t \<and> table_addable t f" and i: "insert_tables ts f = (True, ts')"
    and p: "packet_key p"
  shows "if entry_matches p f then \<exists>g. fst (lookup_tables ts' p) = Some g \<and> entry_matches p g
    else fst (lookup_tables ts' p) = fst (lookup_tables ts p)"
proof -
  obtain us t vs where s: "ts = us @ t # vs" "ts' = us @ snd (table_insert t f) # vs" "fst (table_insert t f)"
    using insert_tables_correct [OF ok i] by auto
  have t: "table_inv t" "table_addable t f" using ok s(1) by auto
  have inv: "\<forall>t\<in>set ts'. table_inv t" using insert_tables_correct [OF ok i] by simp
  show ?thesis
  proof (cases "entry_matches p f")
    case True
    obtain sr where "f\<lparr>sf_serial := sr\<rparr> \<in> set (table_entries (snd (table_insert t f)))"
      using table.add_member [OF t s(3)] by auto
    then have "f\<lparr>sf_serial := sr\<rparr> \<in> set (tables_entries ts')"
      by (simp add: s(2) tables_entries_def)
    moreover have "entry_matches p (f\<lparr>sf_serial := sr\<rparr>)" using True by simp
    ultimately have "\<exists>g\<in>set (tables_entries ts'). entry_matches p g" by blast
    then show ?thesis using True lookup_tables_map [OF inv p] by auto
  next
    case False
    then have "table_lookup (snd (table_insert t f)) p = table_lookup t p"
      using table.add_frame [OF t p] by simp
    then show ?thesis
      using False by (simp add: s fst_lookup_tables_append case_prod_beta split: option.split)
  qed
qed

lemma fst_chain_lookup:
  "k_wildcards p = 0 \<Longrightarrow> map_option fst (chain_lookup chain p False) = Some (fst (lookup_tables (ch_tables chain) p))"
  by (simp add: chain_lookup_def case_prod_beta)

lemma packet_key_wildcards: "packet_key p \<Longrightarrow> k_wildcards p = 0"
  by (simp add: packet_key_def)

section \<open>A new chain\<close>

lemma hash_create_inv:
  assumes "table_hash_create ok okb poly n = Some (Some th)" "0 < n" "n \<le> 0x40000000"
  shows "hash_inv th \<and> hash_entries th = []"
proof -
  have th: "th = \<lparr>th_n_lookup = 0, th_n_matched = 0, th_crc32 = crc32_init poly,
             th_n_flows = 0, th_bucket_mask = n - 1, th_buckets = replicate (unat n) None\<rparr>"
    using assms(1) by (auto simp: table_hash_create_def split: if_splits)
  have [simp]: "occupants (replicate m None) = []" for m by (induction m) auto
  have n: "unat (n - 1) = unat n - 1" "0 < unat n"
    using assms(2) unat_sub [of 1 n] by (simp_all add: word_le_nat_alt word_less_nat_alt)
  have "n - 1 < 0x40000000"
    using assms(3) n by (simp add: word_less_nat_alt word_le_nat_alt)
  then show ?thesis using n by (simp add: th hash_inv_def hash_entries_def)
qed

definition new_hash :: "u32 \<Rightarrow> sw_table_hash" where
  "new_hash poly = \<lparr>th_n_lookup = 0, th_n_matched = 0, th_crc32 = crc32_init poly,
     th_n_flows = 0, th_bucket_mask = 0xFFFF, th_buckets = replicate 65536 None\<rparr>"

definition new_chain :: sw_chain where
  "new_chain = \<lparr>ch_tables =
       [Hash2 \<lparr>t2_n_lookup = 0, t2_n_matched = 0, t2_subtable0 = new_hash 0x1EDC6F41,
               t2_subtable1 = new_hash 0x741B8CD7\<rparr>,
        Linear \<lparr>tl_n_lookup = 0, tl_n_matched = 0, tl_max_flows = 100, tl_n_flows = 0,
                tl_flows = [], tl_iter_flows = [], tl_next_serial = 0\<rparr>],
     ch_emerg_table =
       Some (Linear \<lparr>tl_n_lookup = 0, tl_n_matched = 0, tl_max_flows = 100, tl_n_flows = 0,
                tl_flows = [], tl_iter_flows = [], tl_next_serial = 0\<rparr>)\<rparr>"

lemma hash_create_new: "table_hash_create True True poly 0x10000 = Some (Some (new_hash poly))"
  by (simp add: table_hash_create_def new_hash_def)

lemma new_hash_inv: "hash_inv (new_hash poly) \<and> hash_entries (new_hash poly) = []"
  by (rule hash_create_inv [OF hash_create_new]) simp_all

lemma new_chain_inv: "chain_inv new_chain"
  using new_hash_inv
  by (simp add: chain_inv_def new_chain_def hash2_inv_def linear_inv_def)

lemma new_chain_entries: "chain_entries new_chain = []"
  using new_hash_inv by (simp add: new_chain_def hash2_entries_def)

section \<open>Properties\<close>

text \<open>
  \<^verbatim>\<open>chain_create\<close> makes a chain of a double-hashing table, searched first, and a linear table,
  with a linear emergency table; all three are empty and satisfy their invariants. If the
  allocation of the chain fails it returns the null pointer, but if that of any table fails,
  its call of \<^verbatim>\<open>chain_destroy\<close> goes through the null emergency table.
\<close>

theorem chain_create_result:
  "chain_create ok ok2 ok_sub0 ok_sub1 ok_linear ok_emerg =
     (if \<not> ok then Some None
      else if ok2 \<and> ok_sub0 = (True, True) \<and> ok_sub1 = (True, True) \<and> ok_linear \<and> ok_emerg
      then Some (Some new_chain) else None)
   \<and> chain_inv new_chain \<and> chain_entries new_chain = []"
proof -
  obtain a0 b0 a1 b1 where s: "ok_sub0 = (a0, b0)" "ok_sub1 = (a1, b1)" by fastforce
  have h: "table_hash_create a b poly 0x10000 = (if a \<and> b then Some (Some (new_hash poly)) else Some None)"
    for a b poly
    using hash_create_new [of poly] by (simp add: table_hash_create_def)
  show ?thesis
    using new_chain_inv new_chain_entries
    unfolding chain_create_def table_hash2_create_def s fst_conv snd_conv h
    by (cases ok; cases ok2; cases a0; cases b0; cases a1; cases b1; cases ok_linear; cases ok_emerg)
      (simp_all add: chain_create_with_def add_table_def chain_destroy_def table_linear_create_def new_chain_def)
qed

text \<open>
  C5. For a packet, \<^verbatim>\<open>chain_lookup\<close> returns an entry of the first table of the chain that has a
  matching entry: one of its matching entries, of the highest priority if that table is linear.
  It returns no entry only if no table has a matching one. No entry changes, and the emergency
  table is not consulted.
\<close>

theorem chain_lookup_first_table:
  assumes "chain_inv chain" "packet_key p"
  shows "\<exists>r chain'. chain_lookup chain p False = Some (r, chain') \<and> chain_inv chain'
    \<and> map table_entries (ch_tables chain') = map table_entries (ch_tables chain)
    \<and> ch_emerg_table chain' = ch_emerg_table chain
    \<and> (case r of
         None \<Rightarrow> \<forall>f\<in>set (chain_entries chain). \<not> entry_matches p f
       | Some f \<Rightarrow> \<exists>us t vs. ch_tables chain = us @ t # vs
           \<and> (\<forall>g\<in>set (tables_entries us). \<not> entry_matches p g)
           \<and> f \<in> set (table_entries t) \<and> entry_matches p f
           \<and> (\<forall>l. t = Linear l \<longrightarrow>
                (\<forall>g\<in>set (tl_flows l). entry_matches p g \<longrightarrow> sf_priority g \<le> sf_priority f)))"
proof -
  obtain r ts where l: "lookup_tables (ch_tables chain) p = (r, ts)" by fastforce
  have inv: "\<forall>t\<in>set (ch_tables chain). table_inv t" using assms(1) by (simp add: chain_inv_def)
  note c = lookup_tables_correct [OF inv assms(2) l]
  have "length ts = length (ch_tables chain)" using c by (metis length_map)
  then have inv': "chain_inv (chain\<lparr>ch_tables := ts\<rparr>)" using assms(1) c by (simp add: chain_inv_def)
  have found: "case r of
         None \<Rightarrow> \<forall>f\<in>set (chain_entries chain). \<not> entry_matches p f
       | Some f \<Rightarrow> \<exists>us t vs. ch_tables chain = us @ t # vs
           \<and> (\<forall>g\<in>set (tables_entries us). \<not> entry_matches p g)
           \<and> f \<in> set (table_entries t) \<and> entry_matches p f
           \<and> (\<forall>l. t = Linear l \<longrightarrow>
                (\<forall>g\<in>set (tl_flows l). entry_matches p g \<longrightarrow> sf_priority g \<le> sf_priority f))"
  proof (cases r)
    case None
    then show ?thesis using c by simp
  next
    case (Some f)
    then obtain us t vs where t: "ch_tables chain = us @ t # vs" "table_lookup t p = Some f"
      "\<forall>g\<in>set (tables_entries us). \<not> entry_matches p g" using c by auto
    have "table_inv t" using inv t(1) by simp
    then have "f \<in> set (table_entries t) \<and> entry_matches p f"
      using table.lookup_Some assms(2) t(2) by blast
    moreover have "\<forall>l. t = Linear l \<longrightarrow>
                (\<forall>g\<in>set (tl_flows l). entry_matches p g \<longrightarrow> sf_priority g \<le> sf_priority f)"
      using lookup_highest_priority \<open>table_inv t\<close> t(2) by auto
    ultimately show ?thesis using t(1,3) unfolding Some option.case by blast
  qed
  show ?thesis
    using l inv' c found packet_key_wildcards [OF assms(2)]
    by (intro exI [of _ r] exI [of _ "chain\<lparr>ch_tables := ts\<rparr>"]) (simp add: chain_lookup_def)
qed


text \<open>
  \<^verbatim>\<open>chain_delete\<close> returns the number of entries it removed and reports each of them once, the
  other entries staying, and \<^verbatim>\<open>chain_timeout\<close> removes and reports exactly the entries that have
  timed out. Both keep the invariant of the chain.
\<close>

theorem chain_removal_accounts:
  assumes "chain_inv chain"
  shows "(\<exists>c chain' ended. chain_delete chain key out_port priority strict False = Some (c, chain', ended)
      \<and> chain_inv chain' \<and> c = of_nat (length ended)
      \<and> mset (chain_entries chain') + mset ended = mset (chain_entries chain))
    \<and> (\<exists>chain' d. chain_timeout now chain deleted = (chain', d) \<and> chain_inv chain'
      \<and> chain_entries chain' = filter (\<lambda>f. \<not> fst (flow_timeout now f)) (chain_entries chain)
      \<and> d = deleted @ map (snd \<circ> flow_timeout now)
           (filter (\<lambda>f. fst (flow_timeout now f)) (chain_entries chain)))"
proof
  have inv: "\<forall>t\<in>set (ch_tables chain). table_inv t" using assms by (simp add: chain_inv_def)
  obtain c ts ended where d: "delete_tables (ch_tables chain) key out_port priority strict = Some (c, ts, ended)"
      "\<forall>t\<in>set ts. table_inv t" "length ts = length (ch_tables chain)"
      "mset (tables_entries ts) + mset ended = mset (chain_entries chain)" "c = of_nat (length ended)"
    using delete_tables_correct [OF inv, of key out_port priority strict] by (elim exE conjE)
  have "chain_inv (chain\<lparr>ch_tables := ts\<rparr>)" using assms d(2,3) by (simp add: chain_inv_def)
  then show "\<exists>c chain' ended. chain_delete chain key out_port priority strict False = Some (c, chain', ended)
      \<and> chain_inv chain' \<and> c = of_nat (length ended)
      \<and> mset (chain_entries chain') + mset ended = mset (chain_entries chain)"
    using d by (intro exI [of _ c] exI [of _ "chain\<lparr>ch_tables := ts\<rparr>"] exI [of _ ended])
      (simp add: chain_delete_def)
  note t = timeout_tables_correct [OF inv, of now deleted]
  have "chain_inv (chain\<lparr>ch_tables := fst (timeout_tables now (ch_tables chain) deleted)\<rparr>)"
    using assms t by (simp add: chain_inv_def)
  then show "\<exists>chain' d. chain_timeout now chain deleted = (chain', d) \<and> chain_inv chain'
      \<and> chain_entries chain' = filter (\<lambda>f. \<not> fst (flow_timeout now f)) (chain_entries chain)
      \<and> d = deleted @ map (snd \<circ> flow_timeout now)
           (filter (\<lambda>f. fst (flow_timeout now f)) (chain_entries chain))"
    using t by (intro exI [of _ "chain\<lparr>ch_tables := fst (timeout_tables now (ch_tables chain) deleted)\<rparr>"]
        exI [of _ "snd (timeout_tables now (ch_tables chain) deleted)"])
      (simp add: chain_timeout_def case_prod_beta)
qed

section \<open>Witnesses\<close>

definition sample_packet_key :: sw_flow_key where
  "sample_packet_key = \<lparr>k_flow = sample_flow, k_wildcards = 0, k_nw_src_mask = 0, k_nw_dst_mask = 0\<rparr>"

definition sample_chain :: sw_chain where
  "sample_chain = \<lparr>ch_tables = [Hash2 sample_hash2, Linear sample_table],
     ch_emerg_table = Some (Linear sample_table)\<rparr>"

lemma sample_chain_inv: "chain_inv sample_chain"
  using sample_hash2_inv sample_table_inv by (simp add: sample_chain_def chain_inv_def)

theorem chain_lookup_first_table_witness:
  "\<exists>r chain'. chain_lookup sample_chain sample_packet_key False = Some (r, chain') \<and> chain_inv chain'"
  using chain_lookup_first_table [OF sample_chain_inv, of sample_packet_key] sample_flow_pad
  by (auto simp: packet_key_def sample_packet_key_def)


theorem chain_removal_accounts_witness:
  "chain_inv sample_chain \<and> (\<exists>c chain' ended.
     chain_delete sample_chain sample_key (htons OFPP_NONE) 0 False False = Some (c, chain', ended)
      \<and> c = of_nat (length ended)
      \<and> mset (chain_entries chain') + mset ended = mset (chain_entries sample_chain))"
  using chain_removal_accounts [OF sample_chain_inv] sample_chain_inv by blast

end
