(* ===== verification/Stp.thy ===== *)
theory Stp
  imports OF_Prelude "HOL-Library.Signed_Division" "HOL-Library.Product_Lexorder"
begin

text \<open>
  The Spanning Tree Protocol, \<^verbatim>\<open>src/openflow/lib/stp.c\<close>. A \<^verbatim>\<open>struct stp_port *\<close> is an index into
  the array of ports, a null pointer \<open>None\<close>. An \<^verbatim>\<open>int\<close> is a 32-bit word whose arithmetic wraps;
  signed comparisons go through \<open>sint\<close>. The states of a port are the bits of the source's
  enumeration, since a port is zero-filled before its state is set. Calls of the client's
  \<^verbatim>\<open>send_bpdu\<close> are recorded, with the frame and the port number, in \<open>stp_sent\<close>.
\<close>

section \<open>Data\<close>

type_synonym stp_identifier = u64
type_synonym stp_state = u32

abbreviation STP_DISABLED :: stp_state where "STP_DISABLED \<equiv> 1"
abbreviation STP_LISTENING :: stp_state where "STP_LISTENING \<equiv> 2"
abbreviation STP_LEARNING :: stp_state where "STP_LEARNING \<equiv> 4"
abbreviation STP_FORWARDING :: stp_state where "STP_FORWARDING \<equiv> 8"
abbreviation STP_BLOCKING :: stp_state where "STP_BLOCKING \<equiv> 16"

abbreviation STP_MAX_PORTS :: nat where "STP_MAX_PORTS \<equiv> 255"
abbreviation STP_DEFAULT_BRIDGE_PRIORITY :: u64 where "STP_DEFAULT_BRIDGE_PRIORITY \<equiv> 32768"
abbreviation STP_DEFAULT_PORT_PRIORITY :: c_int where "STP_DEFAULT_PORT_PRIORITY \<equiv> 128"
abbreviation STP_PROTOCOL_ID :: u16 where "STP_PROTOCOL_ID \<equiv> 0"
abbreviation STP_PROTOCOL_VERSION :: u8 where "STP_PROTOCOL_VERSION \<equiv> 0"
abbreviation STP_TYPE_CONFIG :: u8 where "STP_TYPE_CONFIG \<equiv> 0"
abbreviation STP_TYPE_TCN :: u8 where "STP_TYPE_TCN \<equiv> 0x80"
abbreviation STP_CONFIG_TOPOLOGY_CHANGE_ACK :: u16 where "STP_CONFIG_TOPOLOGY_CHANGE_ACK \<equiv> 0x80"
abbreviation STP_CONFIG_TOPOLOGY_CHANGE :: u16 where "STP_CONFIG_TOPOLOGY_CHANGE \<equiv> 0x01"
abbreviation MESSAGE_AGE_INCREMENT :: c_int where "MESSAGE_AGE_INCREMENT \<equiv> 1"

text \<open>The fields of a configuration message are in network byte order.\<close>

record stp_config_bpdu =
  cb_protocol_id :: u16
  cb_protocol_version :: u8
  cb_bpdu_type :: u8
  cb_flags :: u8
  cb_root_id :: u64
  cb_root_path_cost :: u32
  cb_bridge_id :: u64
  cb_port_id :: u16
  cb_message_age :: u16
  cb_max_age :: u16
  cb_hello_time :: u16
  cb_forward_delay :: u16

record stp_timer =
  tm_active :: bool
  tm_value :: c_int

record stp_port =
  sp_port_id :: c_int
  sp_state :: stp_state
  sp_path_cost :: c_int
  sp_designated_root :: stp_identifier
  sp_designated_cost :: c_int
  sp_designated_bridge :: stp_identifier
  sp_designated_port :: c_int
  sp_topology_change_ack :: bool
  sp_config_pending :: bool
  sp_change_detection_enabled :: bool
  sp_message_age_timer :: stp_timer
  sp_forward_delay_timer :: stp_timer
  sp_hold_timer :: stp_timer
  sp_state_changed :: bool

record stp =
  stp_name :: string
  stp_bridge_id :: stp_identifier
  stp_max_age :: c_int
  stp_hello_time :: c_int
  stp_forward_delay :: c_int
  stp_bridge_max_age :: c_int
  stp_bridge_hello_time :: c_int
  stp_bridge_forward_delay :: c_int
  stp_rq_max_age :: c_int
  stp_rq_hello_time :: c_int
  stp_rq_forward_delay :: c_int
  stp_elapsed_remainder :: c_int
  stp_designated_root :: stp_identifier
  stp_root_path_cost :: u32
  stp_root_port :: "nat option"
  stp_topology_change_detected :: bool
  stp_topology_change :: bool
  stp_hello_timer :: stp_timer
  stp_tcn_timer :: stp_timer
  stp_topology_change_timer :: stp_timer
  stp_ports :: "stp_port list"
  stp_first_changed_port :: nat
  stp_sent :: "(u8 list \<times> nat) list"

abbreviation port :: "stp \<Rightarrow> nat \<Rightarrow> stp_port" where
  "port s i \<equiv> stp_ports s ! i"

text \<open>An assignment to fields of port \<open>i\<close>.\<close>

definition upd :: "stp \<Rightarrow> nat \<Rightarrow> (stp_port \<Rightarrow> stp_port) \<Rightarrow> stp" where
  "upd s i f = s\<lparr>stp_ports := (stp_ports s)[i := f (port s i)]\<rparr>"

section \<open>Timers and arithmetic\<close>

text \<open>Signed division and remainder of C, on words.\<close>

definition c_div :: "c_int \<Rightarrow> c_int \<Rightarrow> c_int" where
  "c_div x y = word_of_int (sint x sdiv sint y)"

definition c_mod :: "c_int \<Rightarrow> c_int \<Rightarrow> c_int" where
  "c_mod x y = word_of_int (sint x smod sint y)"

definition ms_to_timer :: "c_int \<Rightarrow> c_int" where
  "ms_to_timer ms = c_div (ms * 0x100) 1000"

definition ms_to_timer_remainder :: "c_int \<Rightarrow> c_int" where
  "ms_to_timer_remainder ms = c_mod (ms * 0x100) 1000"

definition timer_to_ms :: "c_int \<Rightarrow> c_int" where
  "timer_to_ms timer = c_div (timer * 1000) 0x100"

definition clamp :: "c_int \<Rightarrow> c_int \<Rightarrow> c_int \<Rightarrow> c_int" where
  "clamp x lo hi = (if sint x < sint lo then lo else if sint x > sint hi then hi else x)"

definition stp_start_timer :: "c_int \<Rightarrow> stp_timer \<Rightarrow> stp_timer" where
  "stp_start_timer value timer = \<lparr>tm_active = True, tm_value = value\<rparr>"

definition stp_stop_timer :: "stp_timer \<Rightarrow> stp_timer" where
  "stp_stop_timer timer = timer\<lparr>tm_active := False\<rparr>"

definition stp_timer_expired :: "stp_timer \<Rightarrow> c_int \<Rightarrow> c_int \<Rightarrow> bool \<times> stp_timer" where
  "stp_timer_expired timer elapsed timeout =
     (if tm_active timer then
        (let timer = timer\<lparr>tm_value := tm_value timer + elapsed\<rparr>
         in if sint (tm_value timer) \<ge> sint timeout then (True, timer\<lparr>tm_active := False\<rparr>)
            else (False, timer))
      else (False, timer))"

section \<open>Enabled ports\<close>

definition stp_next_enabled_port :: "stp \<Rightarrow> nat \<Rightarrow> nat option" where
  "stp_next_enabled_port s i = find (\<lambda>j. sp_state (port s j) \<noteq> STP_DISABLED) [i..<STP_MAX_PORTS]"

lemma next_enabled_bounds:
  "stp_next_enabled_port s i = Some j \<Longrightarrow> i \<le> j \<and> j < STP_MAX_PORTS \<and> sp_state (port s j) \<noteq> STP_DISABLED"
  by (auto simp: stp_next_enabled_port_def find_Some_iff nth_upt)

text \<open>
  \<^verbatim>\<open>FOR_EACH_ENABLED_PORT\<close> from port \<open>i\<close> on: \<open>x\<close> is what the loop changes, \<open>get\<close> the bridge in it.
\<close>

function for_each_enabled :: "('a \<Rightarrow> stp) \<Rightarrow> (nat \<Rightarrow> 'a \<Rightarrow> 'a) \<Rightarrow> nat \<Rightarrow> 'a \<Rightarrow> 'a" where
  "for_each_enabled get body i x =
     (case stp_next_enabled_port (get x) i of
        None \<Rightarrow> x
      | Some j \<Rightarrow> for_each_enabled get body (j + 1) (body j x))"
  by pat_completeness auto
termination
  by (relation "measure (\<lambda>(get, body, i, x). STP_MAX_PORTS - i)") (auto dest: next_enabled_bounds)

declare for_each_enabled.simps [simp del]

section \<open>Messages\<close>

text \<open>The bytes of the packed structure, and the structure that overlays the bytes.\<close>

definition config_bytes :: "stp_config_bpdu \<Rightarrow> u8 list" where
  "config_bytes c = le16 (cb_protocol_id c) @ [cb_protocol_version c, cb_bpdu_type c, cb_flags c]
     @ le64 (cb_root_id c) @ le32 (cb_root_path_cost c) @ le64 (cb_bridge_id c) @ le16 (cb_port_id c)
     @ le16 (cb_message_age c) @ le16 (cb_max_age c) @ le16 (cb_hello_time c) @ le16 (cb_forward_delay c)"

definition config_of_bytes :: "u8 list \<Rightarrow> stp_config_bpdu" where
  "config_of_bytes bs = \<lparr>cb_protocol_id = ld16 bs 0, cb_protocol_version = ld8 bs 2,
     cb_bpdu_type = ld8 bs 3, cb_flags = ld8 bs 4, cb_root_id = ld64 bs 5,
     cb_root_path_cost = ld32 bs 13, cb_bridge_id = ld64 bs 17, cb_port_id = ld16 bs 25,
     cb_message_age = ld16 bs 27, cb_max_age = ld16 bs 29, cb_hello_time = ld16 bs 31,
     cb_forward_delay = ld16 bs 33\<rparr>"

text \<open>The Ethernet and 802.2 headers of a frame; the client fills in the source address.\<close>

definition stp_send_bpdu :: "stp \<Rightarrow> nat \<Rightarrow> u8 list \<Rightarrow> stp" where
  "stp_send_bpdu s i bpdu =
     (let eth = [0x01, 0x80, 0xC2, 0x00, 0x00, 0x01] @ [0, 0, 0, 0, 0, 0]
            @ le16 (htons (of_nat (3 + length bpdu)));
          llc = [0x42, 0x42, 0x03]
      in s\<lparr>stp_sent := stp_sent s @ [(eth @ llc @ bpdu, i)]\<rparr>)"

section \<open>Roles\<close>

definition stp_is_root_bridge :: "stp \<Rightarrow> bool" where
  "stp_is_root_bridge s = (stp_bridge_id s = stp_designated_root s)"

definition stp_is_designated_port :: "stp \<Rightarrow> nat \<Rightarrow> bool" where
  "stp_is_designated_port s i =
     (sp_designated_bridge (port s i) = stp_bridge_id s
      \<and> sp_designated_port (port s i) = sp_port_id (port s i))"

definition stp_update_bridge_timers :: "stp \<Rightarrow> stp" where
  "stp_update_bridge_timers s =
     (let ht = clamp (stp_rq_hello_time s) 1000 10000;
          lo = 2 * (ht + 1000);
          ma = clamp (stp_rq_max_age s) (if sint lo > sint (6000 :: c_int) then lo else 6000) 40000;
          fd = clamp (stp_rq_forward_delay s) (c_div ma 2 + 1000) 30000;
          s = s\<lparr>stp_bridge_hello_time := ms_to_timer ht, stp_bridge_max_age := ms_to_timer ma,
                stp_bridge_forward_delay := ms_to_timer fd\<rparr>
      in if stp_is_root_bridge s
         then s\<lparr>stp_max_age := stp_bridge_max_age s, stp_hello_time := stp_bridge_hello_time s,
                stp_forward_delay := stp_bridge_forward_delay s\<rparr>
         else s)"

definition stp_set_port_state :: "stp \<Rightarrow> nat \<Rightarrow> stp_state \<Rightarrow> stp" where
  "stp_set_port_state s i state =
     (let s = (if state \<noteq> sp_state (port s i) \<and> \<not> sp_state_changed (port s i) then
                 (let s = upd s i (\<lambda>p. p\<lparr>sp_state_changed := True\<rparr>)
                  in if i < stp_first_changed_port s then s\<lparr>stp_first_changed_port := i\<rparr> else s)
               else s)
      in upd s i (\<lambda>p. p\<lparr>sp_state := state\<rparr>))"

definition stp_become_designated_port :: "stp \<Rightarrow> nat \<Rightarrow> stp" where
  "stp_become_designated_port s i =
     upd s i (\<lambda>p. p\<lparr>sp_designated_root := stp_designated_root s,
                    sp_designated_cost := stp_root_path_cost s,
                    sp_designated_bridge := stp_bridge_id s,
                    sp_designated_port := sp_port_id p\<rparr>)"

text \<open>The callers pass \<^verbatim>\<open>STP_DISABLED\<close> or \<^verbatim>\<open>STP_BLOCKING\<close>; otherwise the assertion fails.\<close>

definition stp_initialize_port :: "stp \<Rightarrow> nat \<Rightarrow> stp_state \<Rightarrow> stp option" where
  "stp_initialize_port s i state =
     (if state AND (STP_DISABLED OR STP_BLOCKING) = 0 then None
      else Some (upd (stp_set_port_state (stp_become_designated_port s i) i state) i
             (\<lambda>p. p\<lparr>sp_topology_change_ack := False, sp_config_pending := False,
                    sp_change_detection_enabled := True,
                    sp_message_age_timer := stp_stop_timer (sp_message_age_timer p),
                    sp_forward_delay_timer := stp_stop_timer (sp_forward_delay_timer p),
                    sp_hold_timer := stp_stop_timer (sp_hold_timer p)\<rparr>)))"

definition zero_timer :: stp_timer where "zero_timer = \<lparr>tm_active = False, tm_value = 0\<rparr>"

definition zero_port :: stp_port where
  "zero_port = \<lparr>sp_port_id = 0, sp_state = 0, sp_path_cost = 0, sp_designated_root = 0,
     sp_designated_cost = 0, sp_designated_bridge = 0, sp_designated_port = 0,
     sp_topology_change_ack = False, sp_config_pending = False, sp_change_detection_enabled = False,
     sp_message_age_timer = zero_timer, sp_forward_delay_timer = zero_timer,
     sp_hold_timer = zero_timer, sp_state_changed = False\<rparr>"

text \<open>The loop over the ports of \<^verbatim>\<open>stp_create\<close>.\<close>

definition create_port :: "nat \<Rightarrow> stp \<Rightarrow> stp" where
  "create_port i s =
     (let s = upd s i (\<lambda>p. p\<lparr>sp_port_id := (of_nat i + 1) OR push_bit 8 STP_DEFAULT_PORT_PRIORITY,
                             sp_path_cost := 19\<rparr>)
      in case stp_initialize_port s i STP_DISABLED of None \<Rightarrow> s | Some s \<Rightarrow> s)"

definition stp_create :: "string \<Rightarrow> stp_identifier \<Rightarrow> stp" where
  "stp_create name bridge_id =
     (let bid = (if drop_bit 48 bridge_id = 0 then bridge_id OR push_bit 48 STP_DEFAULT_BRIDGE_PRIORITY
                 else bridge_id);
          s = \<lparr>stp_name = name, stp_bridge_id = bid, stp_max_age = 0, stp_hello_time = 0,
               stp_forward_delay = 0, stp_bridge_max_age = 0, stp_bridge_hello_time = 0,
               stp_bridge_forward_delay = 0, stp_rq_max_age = 6000, stp_rq_hello_time = 2000,
               stp_rq_forward_delay = 4000, stp_elapsed_remainder = 0, stp_designated_root = 0,
               stp_root_path_cost = 0, stp_root_port = None, stp_topology_change_detected = False,
               stp_topology_change = False, stp_hello_timer = zero_timer, stp_tcn_timer = zero_timer,
               stp_topology_change_timer = zero_timer,
               stp_ports = replicate STP_MAX_PORTS zero_port, stp_first_changed_port = 0,
               stp_sent = []\<rparr>;
          s = stp_update_bridge_timers s;
          s = s\<lparr>stp_max_age := stp_bridge_max_age s, stp_hello_time := stp_bridge_hello_time s,
                stp_forward_delay := stp_bridge_forward_delay s,
                stp_designated_root := stp_bridge_id s, stp_root_path_cost := 0,
                stp_root_port := None, stp_topology_change_detected := False,
                stp_topology_change := False,
                stp_tcn_timer := stp_stop_timer (stp_tcn_timer s),
                stp_topology_change_timer := stp_stop_timer (stp_topology_change_timer s),
                stp_hello_timer := stp_start_timer 0 (stp_hello_timer s),
                stp_first_changed_port := STP_MAX_PORTS\<rparr>
      in fold create_port [0..<STP_MAX_PORTS] s)"

section \<open>Transmission\<close>

definition stp_transmit_config :: "stp \<Rightarrow> nat \<Rightarrow> stp" where
  "stp_transmit_config s i =
     (let root = stp_is_root_bridge s in
      if \<not> root \<and> stp_root_port s = None then s
      else if tm_active (sp_hold_timer (port s i)) then upd s i (\<lambda>p. p\<lparr>sp_config_pending := True\<rparr>)
      else
        (let flags = 0 :: u8;
             flags = (if sp_topology_change_ack (port s i)
                      then ucast (ucast flags OR htons STP_CONFIG_TOPOLOGY_CHANGE_ACK) else flags);
             flags = (if stp_topology_change s
                      then ucast (ucast flags OR htons STP_CONFIG_TOPOLOGY_CHANGE) else flags);
             age = (case stp_root_port s of
                      Some r \<Rightarrow> if root then 0
                        else tm_value (sp_message_age_timer (port s r)) + MESSAGE_AGE_INCREMENT
                    | None \<Rightarrow> 0);
             config = \<lparr>cb_protocol_id = htons STP_PROTOCOL_ID,
               cb_protocol_version = STP_PROTOCOL_VERSION, cb_bpdu_type = STP_TYPE_CONFIG,
               cb_flags = flags, cb_root_id = htonll (stp_designated_root s),
               cb_root_path_cost = htonl (stp_root_path_cost s),
               cb_bridge_id = htonll (stp_bridge_id s),
               cb_port_id = htons (ucast (sp_port_id (port s i))),
               cb_message_age = htons (ucast age),
               cb_max_age = htons (ucast (stp_max_age s)),
               cb_hello_time = htons (ucast (stp_hello_time s)),
               cb_forward_delay = htons (ucast (stp_forward_delay s))\<rparr>
         in if uint (ntohs (cb_message_age config)) < sint (stp_max_age s) then
              (let s = upd s i (\<lambda>p. p\<lparr>sp_topology_change_ack := False, sp_config_pending := False\<rparr>);
                   s = stp_send_bpdu s i (config_bytes config)
               in upd s i (\<lambda>p. p\<lparr>sp_hold_timer := stp_start_timer 0 (sp_hold_timer p)\<rparr>))
            else s))"

definition stp_transmit_tcn :: "stp \<Rightarrow> stp" where
  "stp_transmit_tcn s =
     (case stp_root_port s of
        None \<Rightarrow> s
      | Some r \<Rightarrow> stp_send_bpdu s r (le16 (htons STP_PROTOCOL_ID) @ [STP_PROTOCOL_VERSION, STP_TYPE_TCN]))"

definition stp_config_bpdu_generation :: "stp \<Rightarrow> stp" where
  "stp_config_bpdu_generation s =
     for_each_enabled id
       (\<lambda>i s. if stp_is_designated_port s i then stp_transmit_config s i else s) 0 s"

definition stp_topology_change_detection :: "stp \<Rightarrow> stp" where
  "stp_topology_change_detection s =
     (let s = (if stp_is_root_bridge s then
                 s\<lparr>stp_topology_change := True,
                   stp_topology_change_timer := stp_start_timer 0 (stp_topology_change_timer s)\<rparr>
               else if \<not> stp_topology_change_detected s then
                 (let s = stp_transmit_tcn s
                  in s\<lparr>stp_tcn_timer := stp_start_timer 0 (stp_tcn_timer s)\<rparr>)
               else s)
      in s\<lparr>stp_topology_change_detected := True\<rparr>)"

definition stp_topology_change_acknowledged :: "stp \<Rightarrow> stp" where
  "stp_topology_change_acknowledged s =
     s\<lparr>stp_topology_change_detected := False, stp_tcn_timer := stp_stop_timer (stp_tcn_timer s)\<rparr>"

definition stp_acknowledge_topology_change :: "stp \<Rightarrow> nat \<Rightarrow> stp" where
  "stp_acknowledge_topology_change s i =
     stp_transmit_config (upd s i (\<lambda>p. p\<lparr>sp_topology_change_ack := True\<rparr>)) i"

section \<open>Selection of the root and of the roles of ports\<close>

definition stp_supersedes_root :: "stp_port \<Rightarrow> stp_port \<Rightarrow> bool" where
  "stp_supersedes_root root p =
     (let p_cost = sp_designated_cost p + sp_path_cost p;
          root_cost = sp_designated_cost root + sp_path_cost root
      in if sp_designated_root p \<noteq> sp_designated_root root
         then sp_designated_root p < sp_designated_root root
         else if p_cost \<noteq> root_cost then sint p_cost < sint root_cost
         else if sp_designated_bridge p \<noteq> sp_designated_bridge root
         then sp_designated_bridge p < sp_designated_bridge root
         else if sp_designated_port p \<noteq> sp_designated_port root
         then sint (sp_designated_port p) < sint (sp_designated_port root)
         else sint (sp_port_id p) < sint (sp_port_id root))"

definition select_root :: "stp \<Rightarrow> nat \<Rightarrow> nat option \<Rightarrow> nat option" where
  "select_root s i root =
     (if stp_is_designated_port s i \<or> sp_designated_root (port s i) \<ge> stp_bridge_id s then root
      else case root of
             Some r \<Rightarrow> if \<not> stp_supersedes_root (port s r) (port s i) then root else Some i
           | None \<Rightarrow> Some i)"

definition stp_root_selection :: "stp \<Rightarrow> stp" where
  "stp_root_selection s =
     (let root = for_each_enabled (\<lambda>_. s) (select_root s) 0 None;
          s = s\<lparr>stp_root_port := root\<rparr>
      in case root of
           None \<Rightarrow> s\<lparr>stp_designated_root := stp_bridge_id s, stp_root_path_cost := 0\<rparr>
         | Some r \<Rightarrow> s\<lparr>stp_designated_root := sp_designated_root (port s r),
                       stp_root_path_cost := sp_designated_cost (port s r) + sp_path_cost (port s r)\<rparr>)"

text \<open>The comparisons of \<^verbatim>\<open>root_path_cost\<close> with \<^verbatim>\<open>designated_cost\<close> are unsigned.\<close>

definition select_designated :: "nat \<Rightarrow> stp \<Rightarrow> stp" where
  "select_designated i s =
     (let p = port s i in
      if stp_is_designated_port s i
         \<or> sp_designated_root p \<noteq> stp_designated_root s
         \<or> stp_root_path_cost s < sp_designated_cost p
         \<or> (stp_root_path_cost s = sp_designated_cost p
            \<and> (stp_bridge_id s < sp_designated_bridge p
               \<or> (stp_bridge_id s = sp_designated_bridge p
                  \<and> sint (sp_port_id p) \<le> sint (sp_designated_port p))))
      then stp_become_designated_port s i else s)"

definition stp_designated_port_selection :: "stp \<Rightarrow> stp" where
  "stp_designated_port_selection s = for_each_enabled id select_designated 0 s"

definition stp_configuration_update :: "stp \<Rightarrow> stp" where
  "stp_configuration_update s = stp_designated_port_selection (stp_root_selection s)"

definition stp_make_forwarding :: "stp \<Rightarrow> nat \<Rightarrow> stp" where
  "stp_make_forwarding s i =
     (if sp_state (port s i) = STP_BLOCKING then
        upd (stp_set_port_state s i STP_LISTENING) i
          (\<lambda>p. p\<lparr>sp_forward_delay_timer := stp_start_timer 0 (sp_forward_delay_timer p)\<rparr>)
      else s)"

definition stp_make_blocking :: "stp \<Rightarrow> nat \<Rightarrow> stp" where
  "stp_make_blocking s i =
     (if sp_state (port s i) AND (STP_DISABLED OR STP_BLOCKING) = 0 then
        (let s = (if sp_state (port s i) AND (STP_FORWARDING OR STP_LEARNING) \<noteq> 0
                     \<and> sp_change_detection_enabled (port s i)
                  then stp_topology_change_detection s else s);
             s = stp_set_port_state s i STP_BLOCKING
         in upd s i (\<lambda>p. p\<lparr>sp_forward_delay_timer := stp_stop_timer (sp_forward_delay_timer p)\<rparr>))
      else s)"

definition select_state :: "nat \<Rightarrow> stp \<Rightarrow> stp" where
  "select_state i s =
     (if stp_root_port s = Some i then
        stp_make_forwarding
          (upd s i (\<lambda>p. p\<lparr>sp_config_pending := False, sp_topology_change_ack := False\<rparr>)) i
      else if stp_is_designated_port s i then
        stp_make_forwarding
          (upd s i (\<lambda>p. p\<lparr>sp_message_age_timer := stp_stop_timer (sp_message_age_timer p)\<rparr>)) i
      else
        stp_make_blocking
          (upd s i (\<lambda>p. p\<lparr>sp_config_pending := False, sp_topology_change_ack := False\<rparr>)) i)"

definition stp_port_state_selection :: "stp \<Rightarrow> stp" where
  "stp_port_state_selection s = for_each_enabled id select_state 0 s"

definition stp_become_root_bridge :: "stp \<Rightarrow> stp" where
  "stp_become_root_bridge s =
     (let s = s\<lparr>stp_max_age := stp_bridge_max_age s, stp_hello_time := stp_bridge_hello_time s,
                stp_forward_delay := stp_bridge_forward_delay s\<rparr>;
          s = stp_topology_change_detection s;
          s = s\<lparr>stp_tcn_timer := stp_stop_timer (stp_tcn_timer s)\<rparr>;
          s = stp_config_bpdu_generation s
      in s\<lparr>stp_hello_timer := stp_start_timer 0 (stp_hello_timer s)\<rparr>)"

text \<open>\<^verbatim>\<open>if (stp_is_root_bridge(stp) && !root) stp_become_root_bridge(stp)\<close>\<close>

definition become_root_if_new :: "bool \<Rightarrow> stp \<Rightarrow> stp" where
  "become_root_if_new root s = (if stp_is_root_bridge s \<and> \<not> root then stp_become_root_bridge s else s)"

section \<open>Management\<close>

definition set_bridge_id :: "stp \<Rightarrow> stp_identifier \<Rightarrow> stp" where
  "set_bridge_id s new_bridge_id =
     (if new_bridge_id \<noteq> stp_bridge_id s then
        (let root = stp_is_root_bridge s;
             s = for_each_enabled id
                   (\<lambda>i s. if stp_is_designated_port s i
                          then upd s i (\<lambda>p. p\<lparr>sp_designated_bridge := new_bridge_id\<rparr>) else s) 0 s;
             s = s\<lparr>stp_bridge_id := new_bridge_id\<rparr>;
             s = stp_configuration_update s;
             s = stp_port_state_selection s
         in become_root_if_new root s)
      else s)"

definition stp_set_bridge_id :: "stp \<Rightarrow> stp_identifier \<Rightarrow> stp" where
  "stp_set_bridge_id s bridge_id =
     (let mac_bits = push_bit 48 1 - 1; pri_bits = NOT mac_bits
      in set_bridge_id s ((stp_bridge_id s AND pri_bits) OR (bridge_id AND mac_bits)))"

definition stp_set_bridge_priority :: "stp \<Rightarrow> u16 \<Rightarrow> stp" where
  "stp_set_bridge_priority s new_priority =
     (let mac_bits = push_bit 48 1 - 1
      in set_bridge_id s ((stp_bridge_id s AND mac_bits) OR push_bit 48 (ucast new_priority)))"

definition stp_set_hello_time :: "stp \<Rightarrow> c_int \<Rightarrow> stp" where
  "stp_set_hello_time s ms = stp_update_bridge_timers (s\<lparr>stp_rq_hello_time := ms\<rparr>)"

definition stp_set_max_age :: "stp \<Rightarrow> c_int \<Rightarrow> stp" where
  "stp_set_max_age s ms = stp_update_bridge_timers (s\<lparr>stp_rq_max_age := ms\<rparr>)"

definition stp_set_forward_delay :: "stp \<Rightarrow> c_int \<Rightarrow> stp" where
  "stp_set_forward_delay s ms = stp_update_bridge_timers (s\<lparr>stp_rq_forward_delay := ms\<rparr>)"

definition stp_get_hello_time :: "stp \<Rightarrow> c_int" where
  "stp_get_hello_time s = timer_to_ms (stp_bridge_hello_time s)"

definition stp_get_max_age :: "stp \<Rightarrow> c_int" where
  "stp_get_max_age s = timer_to_ms (stp_bridge_max_age s)"

definition stp_get_forward_delay :: "stp \<Rightarrow> c_int" where
  "stp_get_forward_delay s = timer_to_ms (stp_bridge_forward_delay s)"

text \<open>\<^verbatim>\<open>port_no < ARRAY_SIZE(stp->ports)\<close> is unsigned, after \<^verbatim>\<open>port_no >= 0\<close>.\<close>

definition stp_get_port :: "stp \<Rightarrow> c_int \<Rightarrow> nat option" where
  "stp_get_port s port_no =
     (if 0 \<le> sint port_no \<and> unat port_no < STP_MAX_PORTS then Some (unat port_no) else None)"

definition stp_get_changed_port :: "stp \<Rightarrow> nat option \<times> stp" where
  "stp_get_changed_port s =
     (case find (\<lambda>i. sp_state_changed (port s i)) [stp_first_changed_port s..<STP_MAX_PORTS] of
        Some i \<Rightarrow> (Some i, (upd s i (\<lambda>p. p\<lparr>sp_state_changed := False\<rparr>))\<lparr>stp_first_changed_port := i + 1\<rparr>)
      | None \<Rightarrow> (None, s\<lparr>stp_first_changed_port := STP_MAX_PORTS\<rparr>))"

definition stp_state_name :: "stp_state \<Rightarrow> string option" where
  "stp_state_name state =
     (if state = STP_DISABLED then Some ''disabled''
      else if state = STP_LISTENING then Some ''listening''
      else if state = STP_LEARNING then Some ''learning''
      else if state = STP_FORWARDING then Some ''forwarding''
      else if state = STP_BLOCKING then Some ''blocking''
      else None)"

definition stp_forward_in_state :: "stp_state \<Rightarrow> bool" where
  "stp_forward_in_state state = (state AND (STP_DISABLED OR STP_FORWARDING) \<noteq> 0)"

definition stp_learn_in_state :: "stp_state \<Rightarrow> bool" where
  "stp_learn_in_state state = (state AND (STP_DISABLED OR STP_LEARNING OR STP_FORWARDING) \<noteq> 0)"

definition stp_port_disable :: "stp \<Rightarrow> nat \<Rightarrow> stp" where
  "stp_port_disable s i =
     (if sp_state (port s i) \<noteq> STP_DISABLED then
        (let root = stp_is_root_bridge s;
             s = stp_set_port_state (stp_become_designated_port s i) i STP_DISABLED;
             s = upd s i (\<lambda>p. p\<lparr>sp_topology_change_ack := False, sp_config_pending := False,
                    sp_message_age_timer := stp_stop_timer (sp_message_age_timer p),
                    sp_forward_delay_timer := stp_stop_timer (sp_forward_delay_timer p)\<rparr>);
             s = stp_port_state_selection (stp_configuration_update s)
         in become_root_if_new root s)
      else s)"

definition stp_port_enable :: "stp \<Rightarrow> nat \<Rightarrow> stp option" where
  "stp_port_enable s i =
     (if sp_state (port s i) = STP_DISABLED
      then map_option stp_port_state_selection (stp_initialize_port s i STP_BLOCKING)
      else Some s)"

definition stp_port_set_priority :: "stp \<Rightarrow> nat \<Rightarrow> u8 \<Rightarrow> stp" where
  "stp_port_set_priority s i new_priority =
     (let new_port_id = ucast (ucast ((sp_port_id (port s i) AND 0xff) OR push_bit 8 (ucast new_priority)) :: u16)
      in if sp_port_id (port s i) \<noteq> new_port_id then
           (let s = (if stp_is_designated_port s i
                     then upd s i (\<lambda>p. p\<lparr>sp_designated_port := new_port_id\<rparr>) else s);
                s = upd s i (\<lambda>p. p\<lparr>sp_port_id := new_port_id\<rparr>)
            in if stp_bridge_id s = sp_designated_bridge (port s i)
                  \<and> sint (sp_port_id (port s i)) < sint (sp_designated_port (port s i))
               then stp_port_state_selection (stp_become_designated_port s i)
               else s)
         else s)"

definition stp_port_set_path_cost :: "stp \<Rightarrow> nat \<Rightarrow> u16 \<Rightarrow> stp" where
  "stp_port_set_path_cost s i path_cost =
     (if sp_path_cost (port s i) \<noteq> ucast path_cost then
        stp_port_state_selection (stp_configuration_update
          (upd s i (\<lambda>p. p\<lparr>sp_path_cost := ucast path_cost\<rparr>)))
      else s)"

definition stp_port_set_speed :: "stp \<Rightarrow> nat \<Rightarrow> u32 \<Rightarrow> stp" where
  "stp_port_set_speed s i speed =
     stp_port_set_path_cost s i
       (if speed \<ge> 10000 then 2 else if speed \<ge> 1000 then 4 else if speed \<ge> 100 then 19
        else if speed \<ge> 16 then 62 else if speed \<ge> 10 then 100 else if speed \<ge> 4 then 250 else 19)"

definition stp_port_enable_change_detection :: "stp \<Rightarrow> nat \<Rightarrow> stp" where
  "stp_port_enable_change_detection s i = upd s i (\<lambda>p. p\<lparr>sp_change_detection_enabled := True\<rparr>)"

definition stp_port_disable_change_detection :: "stp \<Rightarrow> nat \<Rightarrow> stp" where
  "stp_port_disable_change_detection s i = upd s i (\<lambda>p. p\<lparr>sp_change_detection_enabled := False\<rparr>)"

section \<open>Received messages\<close>

text \<open>The root path cost of a message is compared unsigned, its port identifier signed.\<close>

definition stp_supersedes_port_info :: "stp \<Rightarrow> nat \<Rightarrow> stp_config_bpdu \<Rightarrow> bool" where
  "stp_supersedes_port_info s i config =
     (let p = port s i in
      if ntohll (cb_root_id config) \<noteq> sp_designated_root p
      then ntohll (cb_root_id config) < sp_designated_root p
      else if ntohl (cb_root_path_cost config) \<noteq> sp_designated_cost p
      then ntohl (cb_root_path_cost config) < sp_designated_cost p
      else if ntohll (cb_bridge_id config) \<noteq> sp_designated_bridge p
      then ntohll (cb_bridge_id config) < sp_designated_bridge p
      else ntohll (cb_bridge_id config) \<noteq> stp_bridge_id s
           \<or> uint (ntohs (cb_port_id config)) \<le> sint (sp_designated_port p))"

definition stp_record_config_information :: "stp \<Rightarrow> nat \<Rightarrow> stp_config_bpdu \<Rightarrow> stp" where
  "stp_record_config_information s i config =
     upd s i (\<lambda>p. p\<lparr>sp_designated_root := ntohll (cb_root_id config),
                    sp_designated_cost := ntohl (cb_root_path_cost config),
                    sp_designated_bridge := ntohll (cb_bridge_id config),
                    sp_designated_port := ucast (ntohs (cb_port_id config)),
                    sp_message_age_timer :=
                      stp_start_timer (ucast (ntohs (cb_message_age config))) (sp_message_age_timer p)\<rparr>)"

definition stp_record_config_timeout_values :: "stp \<Rightarrow> stp_config_bpdu \<Rightarrow> stp" where
  "stp_record_config_timeout_values s config =
     s\<lparr>stp_max_age := ucast (ntohs (cb_max_age config)),
       stp_hello_time := ucast (ntohs (cb_hello_time config)),
       stp_forward_delay := ucast (ntohs (cb_forward_delay config)),
       stp_topology_change := (ucast (cb_flags config) AND htons STP_CONFIG_TOPOLOGY_CHANGE \<noteq> 0)\<rparr>"

definition lost_root :: "stp \<Rightarrow> stp" where
  "lost_root s =
     (let s = s\<lparr>stp_hello_timer := stp_stop_timer (stp_hello_timer s)\<rparr>
      in if stp_topology_change_detected s then
           (let s = s\<lparr>stp_topology_change_timer := stp_stop_timer (stp_topology_change_timer s)\<rparr>;
                s = stp_transmit_tcn s
            in s\<lparr>stp_tcn_timer := stp_start_timer 0 (stp_tcn_timer s)\<rparr>)
         else s)"

definition stp_received_config_bpdu :: "stp \<Rightarrow> nat \<Rightarrow> stp_config_bpdu \<Rightarrow> stp" where
  "stp_received_config_bpdu s i config =
     (if ntohs (cb_message_age config) \<ge> ntohs (cb_max_age config) then s
      else if sp_state (port s i) \<noteq> STP_DISABLED then
        (let root = stp_is_root_bridge s in
         if stp_supersedes_port_info s i config then
           (let s = stp_record_config_information s i config;
                s = stp_port_state_selection (stp_configuration_update s);
                s = (if \<not> stp_is_root_bridge s \<and> root then lost_root s else s)
            in if stp_root_port s = Some i then
                 (let s = stp_config_bpdu_generation (stp_record_config_timeout_values s config)
                  in if ucast (cb_flags config) AND htons STP_CONFIG_TOPOLOGY_CHANGE_ACK \<noteq> 0
                     then stp_topology_change_acknowledged s else s)
               else s)
         else if stp_is_designated_port s i then stp_transmit_config s i
         else s)
      else s)"

definition stp_received_tcn_bpdu :: "stp \<Rightarrow> nat \<Rightarrow> stp" where
  "stp_received_tcn_bpdu s i =
     (if sp_state (port s i) \<noteq> STP_DISABLED then
        (if stp_is_designated_port s i
         then stp_acknowledge_topology_change (stp_topology_change_detection s) i else s)
      else s)"

definition stp_received_bpdu :: "stp \<Rightarrow> nat \<Rightarrow> u8 list \<Rightarrow> stp" where
  "stp_received_bpdu s i bpdu =
     (if sp_state (port s i) = STP_DISABLED then s
      else if length bpdu < 4 then s
      else if ld16 bpdu 0 \<noteq> htons STP_PROTOCOL_ID then s
      else if ld8 bpdu 3 = STP_TYPE_CONFIG then
        (if length bpdu < 35 then s else stp_received_config_bpdu s i (config_of_bytes bpdu))
      else if ld8 bpdu 3 = STP_TYPE_TCN then
        (if length bpdu \<noteq> 4 then s else stp_received_tcn_bpdu s i)
      else s)"

section \<open>Timers that expire\<close>

definition stp_hello_timer_expiry :: "stp \<Rightarrow> stp" where
  "stp_hello_timer_expiry s =
     (let s = stp_config_bpdu_generation s
      in s\<lparr>stp_hello_timer := stp_start_timer 0 (stp_hello_timer s)\<rparr>)"

definition stp_message_age_timer_expiry :: "stp \<Rightarrow> nat \<Rightarrow> stp" where
  "stp_message_age_timer_expiry s i =
     (let root = stp_is_root_bridge s;
          s = stp_become_designated_port s i;
          s = stp_port_state_selection (stp_configuration_update s)
      in if stp_is_root_bridge s \<and> \<not> root then
           (let s = s\<lparr>stp_max_age := stp_bridge_max_age s, stp_hello_time := stp_bridge_hello_time s,
                      stp_forward_delay := stp_bridge_forward_delay s\<rparr>;
                s = stp_topology_change_detection s;
                s = s\<lparr>stp_tcn_timer := stp_stop_timer (stp_tcn_timer s)\<rparr>;
                s = stp_config_bpdu_generation s
            in s\<lparr>stp_hello_timer := stp_start_timer 0 (stp_hello_timer s)\<rparr>)
         else s)"

definition stp_is_designated_for_some_port :: "stp \<Rightarrow> bool" where
  "stp_is_designated_for_some_port s =
     list_ex (\<lambda>i. sp_state (port s i) \<noteq> STP_DISABLED
                \<and> sp_designated_bridge (port s i) = stp_bridge_id s) [0..<STP_MAX_PORTS]"

definition stp_forward_delay_timer_expiry :: "stp \<Rightarrow> nat \<Rightarrow> stp" where
  "stp_forward_delay_timer_expiry s i =
     (if sp_state (port s i) = STP_LISTENING then
        upd (stp_set_port_state s i STP_LEARNING) i
          (\<lambda>p. p\<lparr>sp_forward_delay_timer := stp_start_timer 0 (sp_forward_delay_timer p)\<rparr>)
      else if sp_state (port s i) = STP_LEARNING then
        (let s = stp_set_port_state s i STP_FORWARDING
         in if stp_is_designated_for_some_port s \<and> sp_change_detection_enabled (port s i)
            then stp_topology_change_detection s else s)
      else s)"

definition stp_tcn_timer_expiry :: "stp \<Rightarrow> stp" where
  "stp_tcn_timer_expiry s =
     (let s = stp_transmit_tcn s in s\<lparr>stp_tcn_timer := stp_start_timer 0 (stp_tcn_timer s)\<rparr>)"

definition stp_topology_change_timer_expiry :: "stp \<Rightarrow> stp" where
  "stp_topology_change_timer_expiry s =
     s\<lparr>stp_topology_change_detected := False, stp_topology_change := False\<rparr>"

definition stp_hold_timer_expiry :: "stp \<Rightarrow> nat \<Rightarrow> stp" where
  "stp_hold_timer_expiry s i =
     (if sp_config_pending (port s i) then stp_transmit_config s i else s)"

text \<open>The parts of \<^verbatim>\<open>stp_tick\<close>: the timers of the bridge, and those of a port in its two loops.\<close>

definition tick_hello :: "c_int \<Rightarrow> stp \<Rightarrow> stp" where
  "tick_hello elapsed s =
     (let (e, t) = stp_timer_expired (stp_hello_timer s) elapsed (stp_hello_time s);
          s = s\<lparr>stp_hello_timer := t\<rparr>
      in if e then stp_hello_timer_expiry s else s)"

definition tick_tcn :: "c_int \<Rightarrow> stp \<Rightarrow> stp" where
  "tick_tcn elapsed s =
     (let (e, t) = stp_timer_expired (stp_tcn_timer s) elapsed (stp_bridge_hello_time s);
          s = s\<lparr>stp_tcn_timer := t\<rparr>
      in if e then stp_tcn_timer_expiry s else s)"

definition tick_topology_change :: "c_int \<Rightarrow> stp \<Rightarrow> stp" where
  "tick_topology_change elapsed s =
     (let (e, t) = stp_timer_expired (stp_topology_change_timer s) elapsed
                     (stp_max_age s + stp_forward_delay s);
          s = s\<lparr>stp_topology_change_timer := t\<rparr>
      in if e then stp_topology_change_timer_expiry s else s)"

definition tick_message_age :: "c_int \<Rightarrow> nat \<Rightarrow> stp \<Rightarrow> stp" where
  "tick_message_age elapsed i s =
     (let (e, t) = stp_timer_expired (sp_message_age_timer (port s i)) elapsed (stp_max_age s);
          s = upd s i (\<lambda>p. p\<lparr>sp_message_age_timer := t\<rparr>)
      in if e then stp_message_age_timer_expiry s i else s)"

definition tick_forward_delay :: "c_int \<Rightarrow> nat \<Rightarrow> stp \<Rightarrow> stp" where
  "tick_forward_delay elapsed i s =
     (let (e, t) = stp_timer_expired (sp_forward_delay_timer (port s i)) elapsed (stp_forward_delay s);
          s = upd s i (\<lambda>p. p\<lparr>sp_forward_delay_timer := t\<rparr>)
      in if e then stp_forward_delay_timer_expiry s i else s)"

definition tick_hold :: "c_int \<Rightarrow> nat \<Rightarrow> stp \<Rightarrow> stp" where
  "tick_hold elapsed i s =
     (let (e, t) = stp_timer_expired (sp_hold_timer (port s i)) elapsed (ms_to_timer 1000);
          s = upd s i (\<lambda>p. p\<lparr>sp_hold_timer := t\<rparr>)
      in if e then stp_hold_timer_expiry s i else s)"

definition stp_tick :: "stp \<Rightarrow> c_int \<Rightarrow> stp" where
  "stp_tick s ms =
     (let ms = clamp ms 0 (0x7FFFFFFF - 1000) + stp_elapsed_remainder s;
          elapsed = ms_to_timer ms;
          s = s\<lparr>stp_elapsed_remainder := ms_to_timer_remainder ms\<rparr>
      in if elapsed = 0 then s
         else
           (let s = tick_topology_change elapsed (tick_tcn elapsed (tick_hello elapsed s));
                s = for_each_enabled id (tick_message_age elapsed) 0 s
            in for_each_enabled id (\<lambda>i s. tick_hold elapsed i (tick_forward_delay elapsed i s)) 0 s))"

section \<open>Loops over the enabled ports\<close>

definition enabled :: "stp \<Rightarrow> nat \<Rightarrow> bool" where
  "enabled s i \<longleftrightarrow> sp_state (port s i) \<noteq> STP_DISABLED"

definition visit :: "('a \<Rightarrow> stp) \<Rightarrow> (nat \<Rightarrow> 'a \<Rightarrow> 'a) \<Rightarrow> nat \<Rightarrow> 'a \<Rightarrow> 'a" where
  "visit get body j x = (if enabled (get x) j then body j x else x)"

lemma find_upt_None: "find P [i..<n] = None \<Longrightarrow> fold (\<lambda>j x. if P j then f j x else x) [i..<n] x = x"
  by (rule fold_invariant [where Q = "\<lambda>j. \<not> P j" and P = "\<lambda>y. y = x"]) (auto simp: find_None_iff)

text \<open>The loop visits every port once, in order, and skips those that are then disabled.\<close>

lemma for_each_fold:
  "i \<le> STP_MAX_PORTS \<Longrightarrow> for_each_enabled get body i x = fold (visit get body) [i..<STP_MAX_PORTS] x"
proof (induction "STP_MAX_PORTS - i" arbitrary: i x rule: less_induct)
  case less
  show ?case
  proof (cases "i = STP_MAX_PORTS")
    case True
    then show ?thesis by (simp add: for_each_enabled.simps stp_next_enabled_port_def)
  next
    case False
    with less.prems have i: "i < STP_MAX_PORTS" by simp
    then have u: "[i..<STP_MAX_PORTS] = i # [i + 1..<STP_MAX_PORTS]" by (simp add: upt_conv_Cons)
    have IH: "for_each_enabled get body (i + 1) y = fold (visit get body) [i + 1..<STP_MAX_PORTS] y" for y
      using i by (intro less.hyps) auto
    show ?thesis
    proof (cases "enabled (get x) i")
      case True
      then have "stp_next_enabled_port (get x) i = Some i"
        by (simp add: stp_next_enabled_port_def u enabled_def)
      then show ?thesis using True by (subst for_each_enabled.simps) (simp only: option.case IH u fold_Cons comp_def visit_def if_True)
    next
      case off: False
      then have "stp_next_enabled_port (get x) i = stp_next_enabled_port (get x) (i + 1)"
        by (simp add: stp_next_enabled_port_def u enabled_def)
      then have "for_each_enabled get body i x = for_each_enabled get body (i + 1) x"
        by (subst (1 2) for_each_enabled.simps) simp
      then show ?thesis using off by (simp only: IH u fold_Cons comp_def visit_def if_False)
    qed
  qed
qed

lemma for_each_invariant:
  assumes "P x" "\<And>j x. P x \<Longrightarrow> j < STP_MAX_PORTS \<Longrightarrow> enabled (get x) j \<Longrightarrow> P (body j x)"
  shows "P (for_each_enabled get body 0 x)"
  unfolding for_each_fold [OF le0]
  by (rule fold_invariant [where Q = "\<lambda>j. j < STP_MAX_PORTS" and P = P]) (auto simp: visit_def assms)

lemma fold_upt_post:
  assumes "P x" "\<And>j x. P x \<Longrightarrow> j < n \<Longrightarrow> P (f j x) \<and> Q j (f j x)"
    "\<And>j k x. P x \<Longrightarrow> j < n \<Longrightarrow> k < j \<Longrightarrow> Q k x \<Longrightarrow> Q k (f j x)"
  shows "m \<le> n \<Longrightarrow> P (fold f [0..<m] x) \<and> (\<forall>k<m. Q k (fold f [0..<m] x))"
proof (induction m)
  case (Suc m)
  then have "P (fold f [0..<m] x)" "\<forall>k<m. Q k (fold f [0..<m] x)" "m < n" by auto
  then show ?case using assms(2,3) by (auto simp: less_Suc_eq)
qed (simp add: assms(1))

lemma for_each_post:
  assumes "P x" "\<And>j x. P x \<Longrightarrow> j < STP_MAX_PORTS \<Longrightarrow> enabled (get x) j \<Longrightarrow> P (body j x) \<and> Q j (body j x)"
    "\<And>j x. P x \<Longrightarrow> j < STP_MAX_PORTS \<Longrightarrow> \<not> enabled (get x) j \<Longrightarrow> Q j x"
    "\<And>j k x. P x \<Longrightarrow> j < STP_MAX_PORTS \<Longrightarrow> k < j \<Longrightarrow> enabled (get x) j \<Longrightarrow> Q k x \<Longrightarrow> Q k (body j x)"
  shows "P (for_each_enabled get body 0 x) \<and> (\<forall>k<STP_MAX_PORTS. Q k (for_each_enabled get body 0 x))"
  unfolding for_each_fold [OF le0]
proof (rule fold_upt_post [where n = STP_MAX_PORTS and P = P and Q = Q, OF assms(1)])
  fix j x assume "P x" "j < STP_MAX_PORTS"
  then show "P (visit get body j x) \<and> Q j (visit get body j x)"
    using assms(2,3) by (auto simp: visit_def)
next
  fix j k x assume "P x" "j < STP_MAX_PORTS" "k < j" "Q k x"
  then show "Q k (visit get body j x)" using assms(4) by (auto simp: visit_def)
qed simp

section \<open>What the operations change\<close>

text \<open>
  \<open>vec\<close> is the part of a bridge that determines the roles of its ports; \<open>states\<close> their states,
  with what \<^verbatim>\<open>stp_get_changed_port\<close> reads. Most operations change neither.
\<close>

definition port_vec :: "stp_port \<Rightarrow> c_int \<times> c_int \<times> u64 \<times> c_int \<times> u64 \<times> c_int" where
  "port_vec p = (sp_port_id p, sp_path_cost p, sp_designated_root p, sp_designated_cost p,
     sp_designated_bridge p, sp_designated_port p)"

definition vec where
  "vec s = (stp_bridge_id s, stp_designated_root s, stp_root_path_cost s, stp_root_port s,
     map port_vec (stp_ports s))"

definition states :: "stp \<Rightarrow> nat \<times> (stp_state \<times> bool) list" where
  "states s = (stp_first_changed_port s, map (\<lambda>p. (sp_state p, sp_state_changed p)) (stp_ports s))"

definition core where "core s = (vec s, states s)"

named_theorems core_simps \<open>operations that keep roles and states\<close>

lemma map_upd: "(\<And>p. g (f p) = g p) \<Longrightarrow> map g (xs[i := f (xs ! i)]) = map g xs"
  by (cases "i < length xs") (auto simp: map_update list_update_same_conv list_update_beyond)

lemma upd_sel [simp]:
  "stp_name (upd s i f) = stp_name s" "stp_bridge_id (upd s i f) = stp_bridge_id s"
  "stp_max_age (upd s i f) = stp_max_age s" "stp_hello_time (upd s i f) = stp_hello_time s"
  "stp_forward_delay (upd s i f) = stp_forward_delay s" "stp_designated_root (upd s i f) = stp_designated_root s"
  "stp_root_path_cost (upd s i f) = stp_root_path_cost s" "stp_root_port (upd s i f) = stp_root_port s"
  "stp_topology_change_detected (upd s i f) = stp_topology_change_detected s"
  "stp_topology_change (upd s i f) = stp_topology_change s" "stp_hello_timer (upd s i f) = stp_hello_timer s"
  "stp_tcn_timer (upd s i f) = stp_tcn_timer s"
  "stp_topology_change_timer (upd s i f) = stp_topology_change_timer s"
  "stp_first_changed_port (upd s i f) = stp_first_changed_port s" "stp_sent (upd s i f) = stp_sent s"
  "stp_ports (upd s i f) = (stp_ports s)[i := f (port s i)]"
  by (simp_all add: upd_def)

lemma core_upd:
  "(\<And>p. port_vec (f p) = port_vec p) \<Longrightarrow> (\<And>p. sp_state (f p) = sp_state p) \<Longrightarrow>
   (\<And>p. sp_state_changed (f p) = sp_state_changed p) \<Longrightarrow> core (upd s i f) = core s"
  by (simp add: core_def vec_def states_def map_upd)

lemma core_upd_simps [core_simps]:
  "(\<And>p. port_vec (f p) = port_vec p \<and> sp_state (f p) = sp_state p \<and> sp_state_changed (f p) = sp_state_changed p)
     \<Longrightarrow> core (upd s i f) = core s"
  by (rule core_upd) auto

lemma port_vec_simps [core_simps]:
  "port_vec (p\<lparr>sp_config_pending := a\<rparr>) = port_vec p" "port_vec (p\<lparr>sp_topology_change_ack := a\<rparr>) = port_vec p"
  "port_vec (p\<lparr>sp_change_detection_enabled := a\<rparr>) = port_vec p" "port_vec (p\<lparr>sp_message_age_timer := t\<rparr>) = port_vec p"
  "port_vec (p\<lparr>sp_forward_delay_timer := t\<rparr>) = port_vec p" "port_vec (p\<lparr>sp_hold_timer := t\<rparr>) = port_vec p"
  "port_vec (p\<lparr>sp_state := x\<rparr>) = port_vec p" "port_vec (p\<lparr>sp_state_changed := a\<rparr>) = port_vec p"
  by (simp_all add: port_vec_def)

lemma core_send [core_simps]: "core (stp_send_bpdu s i b) = core s"
  by (simp add: stp_send_bpdu_def core_def vec_def states_def)

lemma core_bridge [core_simps]:
  "core (s\<lparr>stp_hello_timer := t\<rparr>) = core s" "core (s\<lparr>stp_tcn_timer := t\<rparr>) = core s"
  "core (s\<lparr>stp_topology_change_timer := t\<rparr>) = core s" "core (s\<lparr>stp_topology_change_detected := b\<rparr>) = core s"
  "core (s\<lparr>stp_topology_change := b\<rparr>) = core s" "core (s\<lparr>stp_max_age := v\<rparr>) = core s"
  "core (s\<lparr>stp_hello_time := v\<rparr>) = core s" "core (s\<lparr>stp_forward_delay := v\<rparr>) = core s"
  "core (s\<lparr>stp_bridge_max_age := v\<rparr>) = core s" "core (s\<lparr>stp_bridge_hello_time := v\<rparr>) = core s"
  "core (s\<lparr>stp_bridge_forward_delay := v\<rparr>) = core s" "core (s\<lparr>stp_rq_max_age := v\<rparr>) = core s"
  "core (s\<lparr>stp_rq_hello_time := v\<rparr>) = core s" "core (s\<lparr>stp_rq_forward_delay := v\<rparr>) = core s"
  "core (s\<lparr>stp_elapsed_remainder := v\<rparr>) = core s"
  by (simp_all add: core_def vec_def states_def)

lemma core_transmit_config [core_simps]: "core (stp_transmit_config s i) = core s"
  unfolding stp_transmit_config_def Let_def if_distrib [of core]
  by (simp add: core_simps del: htons_0)

lemma core_transmit_tcn [core_simps]: "core (stp_transmit_tcn s) = core s"
  by (simp add: stp_transmit_tcn_def core_simps split: option.split)

lemma core_topology_change_detection [core_simps]: "core (stp_topology_change_detection s) = core s"
  by (simp add: stp_topology_change_detection_def Let_def core_simps)

lemma core_config_bpdu_generation [core_simps]: "core (stp_config_bpdu_generation s) = core s"
  unfolding stp_config_bpdu_generation_def
  by (rule for_each_invariant [where P = "\<lambda>x. core x = core s"]) (simp_all add: core_simps)

lemma core_become_root_bridge [core_simps]: "core (stp_become_root_bridge s) = core s"
  by (simp add: stp_become_root_bridge_def Let_def core_simps)

lemma core_become_root_if_new [core_simps]: "core (become_root_if_new b s) = core s"
  by (simp add: become_root_if_new_def core_simps)

lemma core_lost_root [core_simps]: "core (lost_root s) = core s"
  by (simp add: lost_root_def Let_def core_simps)

lemma core_timeout_values [core_simps]: "core (stp_record_config_timeout_values s c) = core s"
  by (simp add: stp_record_config_timeout_values_def core_simps)

lemma core_acknowledged [core_simps]: "core (stp_topology_change_acknowledged s) = core s"
  by (simp add: stp_topology_change_acknowledged_def core_simps)

lemma core_acknowledge [core_simps]: "core (stp_acknowledge_topology_change s i) = core s"
  by (simp add: stp_acknowledge_topology_change_def core_simps)

lemma core_update_bridge_timers [core_simps]: "core (stp_update_bridge_timers s) = core s"
  by (simp add: stp_update_bridge_timers_def Let_def core_simps)

lemma core_tick [core_simps]:
  "core (tick_hello e s) = core s" "core (tick_tcn e s) = core s" "core (tick_topology_change e s) = core s"
  "core (tick_hold e i s) = core s"
  by (simp_all add: tick_hello_def tick_tcn_def tick_topology_change_def tick_hold_def case_prod_beta Let_def
      stp_hello_timer_expiry_def stp_tcn_timer_expiry_def stp_topology_change_timer_expiry_def
      stp_hold_timer_expiry_def core_simps)

end
