(* ===== verification/Stp_Invariant.thy ===== *)
theory Stp_Invariant
  imports Stp
begin

text \<open>
  Correctness of the Spanning Tree Protocol: the invariant of a bridge, kept by every operation,
  and the properties of its reachable states, of root selection, of its timers and of its
  messages.
\<close>

section \<open>Invariant\<close>

abbreviation state_of :: "stp \<Rightarrow> nat \<Rightarrow> stp_state" where
  "state_of s i \<equiv> sp_state (port s i)"

definition valid_state :: "stp_state \<Rightarrow> bool" where
  "valid_state x \<longleftrightarrow> x \<in> {STP_DISABLED, STP_LISTENING, STP_LEARNING, STP_FORWARDING, STP_BLOCKING}"

definition live_state :: "stp_state \<Rightarrow> bool" where
  "live_state x \<longleftrightarrow> x \<in> {STP_LISTENING, STP_LEARNING, STP_FORWARDING}"

text \<open>A port takes part in the active topology as root port or as designated port.\<close>

definition has_role :: "stp \<Rightarrow> nat \<Rightarrow> bool" where
  "has_role s i \<longleftrightarrow> stp_root_port s = Some i \<or> stp_is_designated_port s i"

definition states_ok :: "stp \<Rightarrow> bool" where
  "states_ok s \<longleftrightarrow> length (stp_ports s) = STP_MAX_PORTS \<and> stp_first_changed_port s \<le> STP_MAX_PORTS
     \<and> (\<forall>i<STP_MAX_PORTS. valid_state (state_of s i)
          \<and> (sp_state_changed (port s i) \<longrightarrow> stp_first_changed_port s \<le> i))"

definition root_ok :: "stp \<Rightarrow> bool" where
  "root_ok s \<longleftrightarrow> (\<forall>r. stp_root_port s = Some r \<longrightarrow> r < STP_MAX_PORTS \<and> enabled s r)"

definition roles_ok :: "stp \<Rightarrow> bool" where
  "roles_ok s \<longleftrightarrow> (\<forall>i<STP_MAX_PORTS. live_state (state_of s i) \<longrightarrow> has_role s i)"

definition stp_inv :: "stp \<Rightarrow> bool" where
  "stp_inv s \<longleftrightarrow> states_ok s \<and> root_ok s \<and> roles_ok s"

lemma states_eqD:
  assumes "states s' = states s"
  shows "length (stp_ports s') = length (stp_ports s)" "stp_first_changed_port s' = stp_first_changed_port s"
    "i < length (stp_ports s) \<Longrightarrow> state_of s' i = state_of s i"
    "i < length (stp_ports s) \<Longrightarrow> sp_state_changed (port s' i) = sp_state_changed (port s i)"
proof -
  have m: "map (\<lambda>p. (sp_state p, sp_state_changed p)) (stp_ports s')
      = map (\<lambda>p. (sp_state p, sp_state_changed p)) (stp_ports s)"
    using assms by (simp add: states_def)
  show l: "length (stp_ports s') = length (stp_ports s)" using m by (metis length_map)
  show "stp_first_changed_port s' = stp_first_changed_port s" using assms by (simp add: states_def)
  show "i < length (stp_ports s) \<Longrightarrow> state_of s' i = state_of s i"
    "i < length (stp_ports s) \<Longrightarrow> sp_state_changed (port s' i) = sp_state_changed (port s i)"
    using arg_cong [OF m, of "\<lambda>xs. xs ! i"] l by simp_all
qed

lemma vec_eqD:
  assumes "vec s' = vec s"
  shows "length (stp_ports s') = length (stp_ports s)" "stp_root_port s' = stp_root_port s"
    "i < length (stp_ports s) \<Longrightarrow> stp_is_designated_port s' i = stp_is_designated_port s i"
    "i < length (stp_ports s) \<Longrightarrow> has_role s' i = has_role s i"
proof -
  have v: "stp_bridge_id s' = stp_bridge_id s" "map port_vec (stp_ports s') = map port_vec (stp_ports s)"
    using assms by (simp_all add: vec_def)
  show r: "stp_root_port s' = stp_root_port s" using assms by (simp add: vec_def)
  show l: "length (stp_ports s') = length (stp_ports s)" using v(2) by (metis length_map)
  show d: "i < length (stp_ports s) \<Longrightarrow> stp_is_designated_port s' i = stp_is_designated_port s i"
    using arg_cong [OF v(2), of "\<lambda>xs. xs ! i"] l v(1) by (simp add: stp_is_designated_port_def port_vec_def)
  show "i < length (stp_ports s) \<Longrightarrow> has_role s' i = has_role s i" using d r by (simp add: has_role_def)
qed

lemma core_eqD: "core s' = core s \<Longrightarrow> vec s' = vec s" "core s' = core s \<Longrightarrow> states s' = states s"
  by (simp_all add: core_def)

lemma states_ok_cong: "states s' = states s \<Longrightarrow> states_ok s' = states_ok s"
  using states_eqD [of s' s] by (auto simp: states_ok_def)

lemma stp_inv_cong:
  assumes "core s' = core s" shows "stp_inv s' = stp_inv s"
proof -
  note v = vec_eqD [OF core_eqD(1) [OF assms]] and st = states_eqD [OF core_eqD(2) [OF assms]]
  have "states_ok s' = states_ok s" by (rule states_ok_cong [OF core_eqD(2) [OF assms]])
  moreover have "root_ok s' = root_ok s" "roles_ok s' = roles_ok s" if "states_ok s"
    using that v st by (auto simp: states_ok_def root_ok_def roles_ok_def enabled_def)
  ultimately show ?thesis by (auto simp: stp_inv_def)
qed

lemma core_inv: "stp_inv s \<Longrightarrow> core s' = core s \<Longrightarrow> stp_inv s'"
  using stp_inv_cong by blast

section \<open>Changes of state\<close>

lemma state_updates:
  "p\<lparr>sp_state_changed := a, sp_state := x\<rparr> = p\<lparr>sp_state := x, sp_state_changed := a\<rparr>"
  "sp_state_changed p \<Longrightarrow> p\<lparr>sp_state := x, sp_state_changed := True\<rparr> = p\<lparr>sp_state := x\<rparr>"
  "\<not> sp_state_changed p \<Longrightarrow> p\<lparr>sp_state := x, sp_state_changed := False\<rparr> = p\<lparr>sp_state := x\<rparr>"
  by (cases p; simp)+

lemma set_port_state_ports:
  assumes "i < length (stp_ports s)"
  shows "stp_ports (stp_set_port_state s i x) = (stp_ports s)[i := (port s i)\<lparr>sp_state := x,
      sp_state_changed := sp_state_changed (port s i) \<or> x \<noteq> state_of s i\<rparr>]"
  using assms by (auto simp: stp_set_port_state_def Let_def state_updates)

lemma set_port_state_sel [simp]:
  "stp_root_port (stp_set_port_state s i x) = stp_root_port s"
  "stp_first_changed_port (stp_set_port_state s i x) =
     (if x \<noteq> state_of s i \<and> \<not> sp_state_changed (port s i) then min i (stp_first_changed_port s)
      else stp_first_changed_port s)"
  by (auto simp: stp_set_port_state_def Let_def)

lemma set_port_state_state:
  "i < length (stp_ports s) \<Longrightarrow> state_of (stp_set_port_state s i x) k = (if k = i then x else state_of s k)"
  by (simp add: set_port_state_ports nth_list_update)

lemma set_port_state_vec: "i < length (stp_ports s) \<Longrightarrow> vec (stp_set_port_state s i x) = vec s"
proof -
  assume i: "i < length (stp_ports s)"
  have "map port_vec (stp_ports (stp_set_port_state s i x)) = map port_vec (stp_ports s)"
    by (simp add: set_port_state_ports [OF i] map_update port_vec_simps) (metis i list_update_id map_update)
  then show ?thesis by (simp add: vec_def) (simp add: stp_set_port_state_def Let_def)
qed

lemma set_port_state_ok:
  assumes "states_ok s" "i < STP_MAX_PORTS" "valid_state x"
  shows "states_ok (stp_set_port_state s i x)"
proof -
  have i: "i < length (stp_ports s)" using assms by (simp add: states_ok_def)
  show ?thesis
    using assms unfolding states_ok_def set_port_state_ports [OF i]
    by (auto simp: nth_list_update)
qed

text \<open>
  An operation on port \<open>i\<close> leaves the roles alone; it may change the state of port \<open>i\<close> only.
\<close>

definition local_change :: "nat \<Rightarrow> stp \<Rightarrow> stp \<Rightarrow> bool" where
  "local_change i s s' \<longleftrightarrow> vec s' = vec s \<and> states_ok s'
     \<and> (\<forall>k<STP_MAX_PORTS. k \<noteq> i \<longrightarrow> state_of s' k = state_of s k)"

lemma local_change_core: "core s' = core s \<Longrightarrow> states_ok s \<Longrightarrow> local_change i s s'"
  using states_eqD(3) [of s' s] states_ok_cong [of s' s]
  by (auto simp: local_change_def core_def states_ok_def)

lemma local_change_trans: "local_change i s s' \<Longrightarrow> local_change i s' s'' \<Longrightarrow> local_change i s s''"
  by (simp add: local_change_def)

lemma local_change_set:
  "states_ok s \<Longrightarrow> i < STP_MAX_PORTS \<Longrightarrow> valid_state x \<Longrightarrow> local_change i s (stp_set_port_state s i x)"
  using set_port_state_ok [of s i x]
  by (simp add: local_change_def set_port_state_vec set_port_state_state) (simp add: states_ok_def set_port_state_vec set_port_state_state)

lemma core_state: "core s' = core s \<Longrightarrow> i < length (stp_ports s) \<Longrightarrow> state_of s' i = state_of s i"
  using states_eqD(3) [of s' s i] by (simp add: core_def)

lemma valid_states [simp]: "valid_state STP_DISABLED" "valid_state STP_LISTENING" "valid_state STP_LEARNING"
  "valid_state STP_FORWARDING" "valid_state STP_BLOCKING"
  by (simp_all add: valid_state_def)

lemma make_forwarding_effect:
  assumes "states_ok s" "i < STP_MAX_PORTS"
  shows "local_change i s (stp_make_forwarding s i)"
    "state_of (stp_make_forwarding s i) i = (if state_of s i = STP_BLOCKING then STP_LISTENING else state_of s i)"
proof -
  have l: "length (stp_ports s) = STP_MAX_PORTS" using assms by (simp add: states_ok_def)
  define t where "t = stp_set_port_state s i STP_LISTENING"
  define u where "u = upd t i (\<lambda>p. p\<lparr>sp_forward_delay_timer := stp_start_timer 0 (sp_forward_delay_timer p)\<rparr>)"
  have t: "local_change i s t" unfolding t_def by (rule local_change_set) (use assms in simp_all)
  have c: "core u = core t" unfolding u_def by (simp add: core_simps)
  have "local_change i s u"
    using t c local_change_core local_change_trans unfolding local_change_def by metis
  then show "local_change i s (stp_make_forwarding s i)"
    using local_change_core [of s s i] assms by (simp add: stp_make_forwarding_def u_def t_def)
  have "state_of u i = STP_LISTENING"
    using core_state [OF c, of i] l assms
    by (simp add: t_def set_port_state_ports set_port_state_state)
  then show "state_of (stp_make_forwarding s i) i =
      (if state_of s i = STP_BLOCKING then STP_LISTENING else state_of s i)"
    by (simp add: stp_make_forwarding_def u_def t_def)
qed

lemma valid_state_bits:
  "valid_state x \<Longrightarrow> (x AND (STP_DISABLED OR STP_BLOCKING) = 0) = live_state x"
  by (auto simp: valid_state_def live_state_def)

lemma live_not: "live_state x \<Longrightarrow> x \<noteq> STP_DISABLED \<and> x \<noteq> STP_BLOCKING" "\<not> live_state STP_BLOCKING"
  "\<not> live_state STP_DISABLED"
  by (auto simp: live_state_def)

lemma make_blocking_effect:
  assumes "states_ok s" "i < STP_MAX_PORTS"
  shows "local_change i s (stp_make_blocking s i)"
    "state_of (stp_make_blocking s i) i = (if live_state (state_of s i) then STP_BLOCKING else state_of s i)"
proof -
  have l: "length (stp_ports s) = STP_MAX_PORTS" and v: "valid_state (state_of s i)"
    using assms by (simp_all add: states_ok_def)
  define r where "r = (if state_of s i AND (STP_FORWARDING OR STP_LEARNING) \<noteq> 0
                     \<and> sp_change_detection_enabled (port s i)
                  then stp_topology_change_detection s else s)"
  define t where "t = stp_set_port_state r i STP_BLOCKING"
  define u where "u = upd t i (\<lambda>p. p\<lparr>sp_forward_delay_timer := stp_stop_timer (sp_forward_delay_timer p)\<rparr>)"
  have r: "core r = core s" by (simp add: r_def core_simps)
  have rok: "states_ok r" using states_ok_cong [OF core_eqD(2) [OF r]] assms by simp
  have t: "local_change i r t" unfolding t_def by (rule local_change_set) (use assms rok in simp_all)
  have c: "core u = core t" unfolding u_def by (simp add: core_simps)
  have u: "local_change i s u"
    using local_change_core [OF r assms(1), of i] t local_change_core [OF c, of i]
    unfolding local_change_def by simp
  have eq: "stp_make_blocking s i = (if live_state (state_of s i) then u else s)"
    unfolding stp_make_blocking_def valid_state_bits [OF v] Let_def u_def t_def r_def ..
  show "local_change i s (stp_make_blocking s i)"
    using u local_change_core [of s s i] assms by (simp add: eq)
  have "state_of u i = STP_BLOCKING"
    using core_state [OF c, of i] vec_eqD(1) [OF core_eqD(1) [OF r]] l assms
    by (simp add: t_def set_port_state_ports set_port_state_state)
  then show "state_of (stp_make_blocking s i) i =
      (if live_state (state_of s i) then STP_BLOCKING else state_of s i)" by (simp add: eq)
qed

lemma select_state_effect:
  assumes "states_ok s" "i < STP_MAX_PORTS" "enabled s i"
  shows "local_change i s (select_state i s)"
    "state_of (select_state i s) i =
       (if has_role s i then (if state_of s i = STP_BLOCKING then STP_LISTENING else state_of s i)
        else STP_BLOCKING)"
proof -
  have l: "length (stp_ports s) = STP_MAX_PORTS" and v: "valid_state (state_of s i)"
    using assms by (simp_all add: states_ok_def)
  have nl: "\<not> live_state (state_of s i) \<Longrightarrow> state_of s i = STP_BLOCKING"
    using v assms(3) by (auto simp: valid_state_def live_state_def enabled_def)
  have step: "local_change i s (f u i) \<and> state_of (f u i) i = g (state_of s i)"
    if c: "core u = core s" and f: "\<And>s. states_ok s \<Longrightarrow> local_change i s (f s i)"
      "\<And>s. states_ok s \<Longrightarrow> state_of (f s i) i = g (state_of s i)" for u f g
  proof -
    have "states_ok u" using states_ok_cong [OF core_eqD(2) [OF c]] assms by simp
    then show ?thesis
      using local_change_core [OF c assms(1)] f local_change_trans core_state [OF c] l assms(2) by metis
  qed
  note F = step [of _ stp_make_forwarding "\<lambda>x. if x = STP_BLOCKING then STP_LISTENING else x",
      OF _ make_forwarding_effect(1) [OF _ assms(2)] make_forwarding_effect(2) [OF _ assms(2)]]
  note B = step [of _ stp_make_blocking "\<lambda>x. if live_state x then STP_BLOCKING else x",
      OF _ make_blocking_effect(1) [OF _ assms(2)] make_blocking_effect(2) [OF _ assms(2)]]
  have "local_change i s (select_state i s) \<and> state_of (select_state i s) i =
       (if has_role s i then (if state_of s i = STP_BLOCKING then STP_LISTENING else state_of s i)
        else STP_BLOCKING)"
  proof (cases "has_role s i")
    case True
    then show ?thesis using F by (auto simp: select_state_def has_role_def core_simps)
  next
    case False
    then show ?thesis using B nl by (auto simp: select_state_def has_role_def core_simps)
  qed
  then show "local_change i s (select_state i s)"
    "state_of (select_state i s) i =
       (if has_role s i then (if state_of s i = STP_BLOCKING then STP_LISTENING else state_of s i)
        else STP_BLOCKING)" by blast+
qed

section \<open>Selection of states\<close>

definition selected_state :: "bool \<Rightarrow> stp_state \<Rightarrow> stp_state" where
  "selected_state role x =
     (if x = STP_DISABLED then x
      else if role then (if x = STP_BLOCKING then STP_LISTENING else x)
      else STP_BLOCKING)"

lemma selected_state_idem: "selected_state r (selected_state r x) = selected_state r x"
  by (simp add: selected_state_def)

lemma state_selection_effect:
  assumes "states_ok s"
  shows "vec (stp_port_state_selection s) = vec s" "states_ok (stp_port_state_selection s)"
    "k < STP_MAX_PORTS \<Longrightarrow> state_of (stp_port_state_selection s) k = selected_state (has_role s k) (state_of s k)"
proof -
  let ?sel = "\<lambda>k. selected_state (has_role s k) (state_of s k)"
  let ?P = "\<lambda>x. vec x = vec s \<and> states_ok x \<and> (\<forall>k<STP_MAX_PORTS. state_of x k \<in> {state_of s k, ?sel k})"
  have l: "length (stp_ports s) = STP_MAX_PORTS" using assms by (simp add: states_ok_def)
  have "?P (stp_port_state_selection s)
    \<and> (\<forall>k<STP_MAX_PORTS. state_of (stp_port_state_selection s) k = ?sel k)"
    unfolding stp_port_state_selection_def
  proof (rule for_each_post [where P = ?P and Q = "\<lambda>k x. state_of x k = ?sel k" and get = id])
    fix j x assume x: "?P x" and j: "j < STP_MAX_PORTS" and e: "enabled (id x) j"
    note se = select_state_effect [of x j]
    have role: "has_role x j = has_role s j" using vec_eqD(4) [of x s j] x j l by simp
    have st: "state_of (select_state j x) j = selected_state (has_role s j) (state_of x j)"
      using se(2) x j e role by (simp add: selected_state_def enabled_def)
    have q: "state_of (select_state j x) j = ?sel j"
      using st x j selected_state_idem by (metis insert_iff empty_iff)
    moreover have "local_change j x (select_state j x)" using se(1) x j e by simp
    ultimately have "state_of (select_state j x) k \<in> {state_of s k, ?sel k}" if "k < STP_MAX_PORTS" for k
      using x that unfolding local_change_def by (cases "k = j") auto
    with q show "?P (select_state j x) \<and> state_of (select_state j x) j = ?sel j"
      using x \<open>local_change j x (select_state j x)\<close> unfolding local_change_def by auto
  next
    fix j x assume x: "?P x" and j: "j < STP_MAX_PORTS" and e: "\<not> enabled (id x) j"
    have "state_of x j = state_of s j \<or> state_of x j = ?sel j" using x j by blast
    then show "state_of x j = ?sel j" using e by (auto simp: enabled_def selected_state_def split: if_splits)
  next
    fix j k x assume x: "?P x" and j: "j < STP_MAX_PORTS" "k < j" "enabled (id x) j" and q: "state_of x k = ?sel k"
    then have "local_change j x (select_state j x)" using select_state_effect(1) by simp
    then show "state_of (select_state j x) k = ?sel k" using j q by (simp add: local_change_def)
  qed (use assms in simp)
  then show "vec (stp_port_state_selection s) = vec s" "states_ok (stp_port_state_selection s)"
    "k < STP_MAX_PORTS \<Longrightarrow> state_of (stp_port_state_selection s) k = ?sel k" by blast+
qed

text \<open>Nothing but the forward delay timer puts a port into the learning or forwarding state.\<close>

definition calm :: "stp \<Rightarrow> stp \<Rightarrow> bool" where
  "calm s s' \<longleftrightarrow> (\<forall>i<STP_MAX_PORTS. state_of s' i \<in> {STP_LEARNING, STP_FORWARDING}
     \<longrightarrow> state_of s i = state_of s' i)"

lemma calm_trans: "calm s s' \<Longrightarrow> calm s' s'' \<Longrightarrow> calm s s''"
  by (simp add: calm_def)

lemma calm_states: "states s' = states s \<Longrightarrow> states_ok s \<Longrightarrow> calm s s'"
  using states_eqD(3) [of s' s] by (simp add: calm_def states_ok_def)

lemma calm_core: "core s' = core s \<Longrightarrow> states_ok s \<Longrightarrow> calm s s'"
  by (simp add: calm_states core_def)

lemma state_selection_inv:
  assumes "states_ok s" "root_ok s"
  shows "stp_inv (stp_port_state_selection s)" "calm s (stp_port_state_selection s)"
proof -
  note e = state_selection_effect [OF assms(1)]
  have l: "length (stp_ports s) = STP_MAX_PORTS" using assms(1) by (simp add: states_ok_def)
  have role: "has_role (stp_port_state_selection s) k = has_role s k" if "k < STP_MAX_PORTS" for k
    using vec_eqD(4) [OF e(1)] that l by simp
  have "roles_ok (stp_port_state_selection s)"
    using e(3) role by (auto simp: roles_ok_def selected_state_def live_state_def split: if_splits)
  moreover have "root_ok (stp_port_state_selection s)"
    using assms(2) e(3) vec_eqD(2) [OF e(1)] by (simp add: root_ok_def enabled_def selected_state_def)
  ultimately show "stp_inv (stp_port_state_selection s)" using e(2) by (simp add: stp_inv_def)
  show "calm s (stp_port_state_selection s)"
    using e(3) by (auto simp: calm_def selected_state_def split: if_splits)
qed

section \<open>Selection of the root\<close>

lemma root_selection_ports [simp]: "stp_ports (stp_root_selection s) = stp_ports s"
  "stp_bridge_id (stp_root_selection s) = stp_bridge_id s" "states (stp_root_selection s) = states s"
  by (simp_all add: stp_root_selection_def Let_def states_def split: option.split)

lemma root_selection_ok: "root_ok (stp_root_selection s)"
proof -
  let ?r = "for_each_enabled (\<lambda>_. s) (select_root s) 0 None"
  have "case ?r of None \<Rightarrow> True | Some r \<Rightarrow> r < STP_MAX_PORTS \<and> enabled s r"
    by (rule for_each_invariant [where P = "\<lambda>x. case x of None \<Rightarrow> True | Some r \<Rightarrow> r < STP_MAX_PORTS \<and> enabled s r"])
      (auto simp: select_root_def split: option.splits)
  then show ?thesis
    by (auto simp: root_ok_def stp_root_selection_def Let_def enabled_def split: option.splits)
qed

lemma states_upd:
  "(\<And>p. sp_state (f p) = sp_state p \<and> sp_state_changed (f p) = sp_state_changed p) \<Longrightarrow> states (upd s i f) = states s"
  by (simp add: states_def map_upd)

lemma become_designated_states: "states (stp_become_designated_port s i) = states s"
  unfolding stp_become_designated_port_def by (rule states_upd) simp

lemma become_designated_root: "stp_root_port (stp_become_designated_port s i) = stp_root_port s"
  by (simp add: stp_become_designated_port_def)

lemma designated_selection_states:
  "states (stp_designated_port_selection s) = states s
     \<and> stp_root_port (stp_designated_port_selection s) = stp_root_port s"
  unfolding stp_designated_port_selection_def
  by (rule for_each_invariant [where P = "\<lambda>x. states x = states s \<and> stp_root_port x = stp_root_port s"])
    (auto simp: select_designated_def Let_def become_designated_states become_designated_root)

lemma root_ok_states:
  "states s' = states s \<Longrightarrow> stp_root_port s' = stp_root_port s \<Longrightarrow> states_ok s \<Longrightarrow> root_ok s' = root_ok s"
  using states_eqD(3) [of s' s] by (auto simp: root_ok_def enabled_def states_ok_def)

lemma configuration_update_ok:
  assumes "states_ok s"
  shows "states (stp_configuration_update s) = states s" "root_ok (stp_configuration_update s)"
    "states_ok (stp_configuration_update s)"
proof -
  let ?r = "stp_root_selection s"
  have d: "states (stp_configuration_update s) = states ?r"
    "stp_root_port (stp_configuration_update s) = stp_root_port ?r"
    using designated_selection_states [of ?r] by (simp_all add: stp_configuration_update_def)
  show st: "states (stp_configuration_update s) = states s" using d(1) by simp
  show "states_ok (stp_configuration_update s)" using states_ok_cong [OF st] assms by simp
  have "states_ok ?r" using states_ok_cong [of ?r s] assms by simp
  then show "root_ok (stp_configuration_update s)"
    using root_ok_states [OF d] root_selection_ok by simp
qed

text \<open>Whatever was recorded before, a new selection of roles and states restores the invariant.\<close>

lemma reselect:
  assumes "states_ok s"
  shows "stp_inv (stp_port_state_selection (stp_configuration_update s))"
    "calm s (stp_port_state_selection (stp_configuration_update s))"
proof -
  note c = configuration_update_ok [OF assms]
  show "stp_inv (stp_port_state_selection (stp_configuration_update s))"
    by (rule state_selection_inv(1) [OF c(3,2)])
  show "calm s (stp_port_state_selection (stp_configuration_update s))"
    using calm_states [OF c(1) assms] state_selection_inv(2) [OF c(3,2)] by (rule calm_trans)
qed

section \<open>Every operation keeps the invariant\<close>

definition keeps :: "stp \<Rightarrow> stp \<Rightarrow> bool" where
  "keeps s s' \<longleftrightarrow> stp_inv s' \<and> calm s s'"

lemma inv_states: "stp_inv s \<Longrightarrow> states_ok s"
  by (simp add: stp_inv_def)

lemma keeps_core: "stp_inv s \<Longrightarrow> core s' = core s \<Longrightarrow> keeps s s'"
  using calm_core core_inv inv_states by (auto simp: keeps_def)

lemma keeps_then_core: "keeps s s' \<Longrightarrow> core s'' = core s' \<Longrightarrow> keeps s s''"
  using calm_core calm_trans core_inv inv_states unfolding keeps_def by blast

lemma keeps_trans: "keeps s s' \<Longrightarrow> keeps s' s'' \<Longrightarrow> keeps s s''"
  using calm_trans unfolding keeps_def by blast

lemma keeps_reselect:
  assumes "stp_inv s" "states t = states s"
  shows "keeps s (stp_port_state_selection (stp_configuration_update t))"
proof -
  have ok: "states_ok s" "states_ok t" using assms(1) states_ok_cong [OF assms(2)] by (simp_all add: stp_inv_def)
  show ?thesis
    using reselect [OF ok(2)] calm_trans [OF calm_states [OF assms(2) ok(1)]] by (simp add: keeps_def)
qed

lemma states_core: "core s' = core s \<Longrightarrow> states s' = states s"
  by (simp add: core_def)

lemma keeps_set_bridge_id:
  assumes "stp_inv s" shows "keeps s (set_bridge_id s b)"
proof -
  let ?t = "for_each_enabled id (\<lambda>i s. if stp_is_designated_port s i
        then upd s i (\<lambda>p. p\<lparr>sp_designated_bridge := b\<rparr>) else s) 0 s"
  have "states ?t = states s"
    by (rule for_each_invariant [where P = "\<lambda>x. states x = states s"]) (auto simp: states_upd)
  then have st: "states (?t\<lparr>stp_bridge_id := b\<rparr>) = states s" by (simp add: states_def)
  have "keeps s (become_root_if_new (stp_is_root_bridge s)
      (stp_port_state_selection (stp_configuration_update (?t\<lparr>stp_bridge_id := b\<rparr>))))"
    by (rule keeps_then_core [OF keeps_reselect [OF assms st]]) (simp only: core_simps)
  then show ?thesis
    using keeps_core [OF assms refl] by (simp only: set_bridge_id_def Let_def split: if_split) simp
qed

lemma keeps_message_age_expiry:
  assumes "stp_inv s" "i < STP_MAX_PORTS" shows "keeps s (stp_message_age_timer_expiry s i)"
  using keeps_reselect [OF assms(1) become_designated_states, of i]
  by (auto simp: stp_message_age_timer_expiry_def Let_def core_simps elim!: keeps_then_core)

lemma keeps_received_config:
  assumes "stp_inv s" shows "keeps s (stp_received_config_bpdu s i c)"
proof -
  have "states (stp_record_config_information s i c) = states s"
    unfolding stp_record_config_information_def by (rule states_upd) simp
  note k = keeps_reselect [OF assms this] and r = keeps_core [OF assms refl]
  have "keeps s (stp_transmit_config s i)" by (rule keeps_core [OF assms]) (simp add: core_simps)
  then show ?thesis
    using r by (auto simp: stp_received_config_bpdu_def Let_def core_simps intro: keeps_then_core [OF k])
qed

lemma keeps_received:
  assumes "stp_inv s" shows "keeps s (stp_received_bpdu s i b)"
proof -
  have "keeps s (stp_received_tcn_bpdu s i)"
    by (rule keeps_core [OF assms]) (simp add: stp_received_tcn_bpdu_def core_simps)
  then show ?thesis
    using keeps_received_config [OF assms] keeps_core [OF assms refl] by (simp add: stp_received_bpdu_def)
qed

lemma keeps_path_cost:
  assumes "stp_inv s" shows "keeps s (stp_port_set_path_cost s i c)"
proof -
  have "states (upd s i (\<lambda>p. p\<lparr>sp_path_cost := ucast c\<rparr>)) = states s" by (rule states_upd) simp
  from keeps_reselect [OF assms this] show ?thesis
    using keeps_core [OF assms refl] by (simp add: stp_port_set_path_cost_def)
qed

lemma keeps_priority:
  assumes inv: "stp_inv s" and i: "i < STP_MAX_PORTS" shows "keeps s (stp_port_set_priority s i pr)"
proof -
  define id' :: c_int where "id' = ucast (ucast ((sp_port_id (port s i) AND 0xff) OR push_bit 8 (ucast pr)) :: u16)"
  define t where "t = (if stp_is_designated_port s i
                       then upd s i (\<lambda>p. p\<lparr>sp_designated_port := id'\<rparr>) else s)"
  define u where "u = upd t i (\<lambda>p. p\<lparr>sp_port_id := id'\<rparr>)"
  have ok: "states_ok s" "root_ok s" "roles_ok s" and l: "length (stp_ports s) = STP_MAX_PORTS"
    using inv by (auto simp: stp_inv_def states_ok_def)
  have t: "states t = states s" by (simp add: t_def states_upd)
  have u: "states u = states s" using t by (simp add: u_def states_upd)
  have r: "stp_root_port u = stp_root_port s" by (simp add: u_def t_def)
  have uok: "states_ok u" "root_ok u"
    using states_ok_cong [OF u] root_ok_states [OF u r] ok by simp_all
  have role: "has_role u k" if "has_role s k" "k < STP_MAX_PORTS" for k
    using that l i by (auto simp: has_role_def stp_is_designated_port_def u_def t_def nth_list_update)
  have "roles_ok u"
    using ok(3) role states_eqD(3) [OF u] l by (simp add: roles_ok_def)
  then have ku: "keeps s u"
    using uok calm_states [OF u ok(1)] by (simp add: keeps_def stp_inv_def)
  have d: "states (stp_become_designated_port u i) = states u"
    "stp_root_port (stp_become_designated_port u i) = stp_root_port u"
    by (rule become_designated_states, rule become_designated_root)
  then have dok: "states_ok (stp_become_designated_port u i)" "root_ok (stp_become_designated_port u i)"
    using states_ok_cong [OF d(1)] root_ok_states [OF d] uok by simp_all
  have "calm u (stp_become_designated_port u i)" by (rule calm_states [OF d(1) uok(1)])
  then have "keeps u (stp_port_state_selection (stp_become_designated_port u i))"
    using state_selection_inv [OF dok] calm_trans by (auto simp: keeps_def)
  note kd = keeps_trans [OF ku this]
  show ?thesis
    using kd ku keeps_core [OF inv refl]
    unfolding stp_port_set_priority_def id'_def [symmetric] Let_def t_def [symmetric] u_def [symmetric] by simp
qed

lemma become_designated_ok: "states_ok s \<Longrightarrow> states_ok (stp_become_designated_port s i)"
  using states_ok_cong [OF become_designated_states [of s i]] by simp

lemma nth_upd: "(\<And>p. g (f p) = g p) \<Longrightarrow> g (xs[i := f (xs ! i)] ! k) = g (xs ! k)"
  by (cases "i < length xs"; cases "i = k") (simp_all add: list_update_beyond)

lemma keeps_disable:
  assumes inv: "stp_inv s" and i: "i < STP_MAX_PORTS" shows "keeps s (stp_port_disable s i)"
proof -
  have ok: "states_ok s" and l: "length (stp_ports s) = STP_MAX_PORTS"
    using inv by (auto simp: stp_inv_def states_ok_def)
  define t where "t = stp_become_designated_port s i"
  define u where "u = stp_set_port_state t i STP_DISABLED"
  define v where "v = upd u i (\<lambda>p. p\<lparr>sp_topology_change_ack := False, sp_config_pending := False,
                    sp_message_age_timer := stp_stop_timer (sp_message_age_timer p),
                    sp_forward_delay_timer := stp_stop_timer (sp_forward_delay_timer p)\<rparr>)"
  have t: "states t = states s" "states_ok t"
    using ok by (simp_all add: t_def become_designated_states become_designated_ok)
  have u: "local_change i t u" unfolding u_def by (rule local_change_set) (use t i in simp_all)
  have v: "core v = core u" by (simp add: v_def core_simps)
  have vok: "states_ok v" using states_ok_cong [OF states_core [OF v]] u by (simp add: local_change_def)
  have "calm t u" using u i t(2)
    by (auto simp: calm_def local_change_def u_def set_port_state_state states_ok_def)
  then have "calm s v"
    using calm_states [OF t(1) ok] calm_core [OF v] u calm_trans by (metis local_change_def)
  then have "keeps s (stp_port_state_selection (stp_configuration_update v))"
    using reselect [OF vok] calm_trans by (auto simp: keeps_def)
  then have "keeps s (become_root_if_new (stp_is_root_bridge s) (stp_port_state_selection (stp_configuration_update v)))"
    by (rule keeps_then_core) (simp only: core_simps)
  then show ?thesis
    using keeps_core [OF inv refl]
    unfolding stp_port_disable_def Let_def t_def [symmetric] u_def [symmetric] v_def [symmetric] by simp
qed

lemma initialize_port_effect:
  assumes ok: "states_ok s" and i: "i < STP_MAX_PORTS" and x: "x \<in> {STP_DISABLED, STP_BLOCKING}"
    and r: "stp_initialize_port s i x = Some s'"
  shows "states_ok s' \<and> stp_root_port s' = stp_root_port s
    \<and> (\<forall>k<STP_MAX_PORTS. state_of s' k = (if k = i then x else state_of s k))"
proof -
  define t where "t = stp_become_designated_port s i"
  define u where "u = stp_set_port_state t i x"
  have t: "states t = states s" "states_ok t"
    using ok by (simp_all add: t_def become_designated_states become_designated_ok)
  have u: "local_change i t u" unfolding u_def by (rule local_change_set) (use t i x in auto)
  have s': "core s' = core u"
    using r x by (auto simp: stp_initialize_port_def u_def t_def core_simps)
  have l: "length (stp_ports t) = STP_MAX_PORTS" "length (stp_ports u) = STP_MAX_PORTS"
    "length (stp_ports s) = STP_MAX_PORTS"
    using t u ok by (simp_all add: states_ok_def local_change_def)
  have "stp_root_port s' = stp_root_port u" by (rule vec_eqD(2) [OF core_eqD(1) [OF s']])
  moreover have "states_ok s'" using states_ok_cong [OF states_core [OF s']] u by (simp add: local_change_def)
  moreover have "state_of s' k = (if k = i then x else state_of s k)" if "k < STP_MAX_PORTS" for k
    using core_state [OF s', of k] that l i states_eqD(3) [OF t(1), of k]
    by (simp add: u_def set_port_state_state)
  ultimately show ?thesis by (simp add: u_def t_def become_designated_root)
qed

lemma keeps_enable:
  assumes inv: "stp_inv s" and i: "i < STP_MAX_PORTS"
  shows "\<exists>s'. stp_port_enable s i = Some s' \<and> keeps s s'"
proof (cases "state_of s i = STP_DISABLED")
  case True
  obtain u where u: "stp_initialize_port s i STP_BLOCKING = Some u"
    by (simp add: stp_initialize_port_def)
  have ok: "states_ok s" "root_ok s" using inv by (simp_all add: stp_inv_def)
  note e = initialize_port_effect [OF ok(1) i _ u]
  have "root_ok u" using e ok(2) by (auto simp: root_ok_def enabled_def)
  moreover have "calm s u" using e by (auto simp: calm_def)
  ultimately have "keeps s (stp_port_state_selection u)"
    using state_selection_inv [of u] e calm_trans by (auto simp: keeps_def)
  then show ?thesis using True u by (simp add: stp_port_enable_def)
qed (use keeps_core [OF inv refl] in \<open>simp add: stp_port_enable_def\<close>)

lemma keeps_changed_port:
  assumes inv: "stp_inv s" shows "keeps s (snd (stp_get_changed_port s))"
proof -
  define s' where "s' = snd (stp_get_changed_port s)"
  have ok: "states_ok s" "root_ok s" "roles_ok s" and l: "length (stp_ports s) = STP_MAX_PORTS"
    using inv by (auto simp: stp_inv_def states_ok_def)
  have v: "vec s' = vec s"
    by (simp add: s'_def stp_get_changed_port_def vec_def map_upd port_vec_simps split: option.split)
  have st: "state_of s' k = state_of s k" for k
    by (simp add: s'_def stp_get_changed_port_def nth_upd split: option.split)
  have "states_ok s'"
  proof (cases "find (\<lambda>i. sp_state_changed (port s i)) [stp_first_changed_port s..<STP_MAX_PORTS]")
    case None
    then have s': "s' = s\<lparr>stp_first_changed_port := STP_MAX_PORTS\<rparr>"
      by (simp add: s'_def stp_get_changed_port_def)
    show ?thesis
      using ok(1) None by (auto simp: s' states_ok_def find_None_iff)
  next
    case (Some i)
    note f = Some [unfolded find_upt_Some]
    have le: "i + 1 \<le> k" if "k < STP_MAX_PORTS" "k \<noteq> i" "sp_state_changed (port s k)" for k
    proof -
      have "stp_first_changed_port s \<le> k" using ok(1) that by (simp add: states_ok_def)
      then have "\<not> k < i" using f that(3) by blast
      then show ?thesis using that(2) by simp
    qed
    have s': "s' = (upd s i (\<lambda>p. p\<lparr>sp_state_changed := False\<rparr>))\<lparr>stp_first_changed_port := i + 1\<rparr>"
      by (simp add: s'_def stp_get_changed_port_def Some)
    have i: "i < STP_MAX_PORTS" using f by simp
    have "valid_state (state_of s' k) \<and> (sp_state_changed (port s' k) \<longrightarrow> i + 1 \<le> k)" if "k < STP_MAX_PORTS" for k
    proof (cases "k = i")
      case True
      have "port s' i = (port s i)\<lparr>sp_state_changed := False\<rparr>" using i l by (simp add: s')
      then show ?thesis using True ok(1) i by (simp add: states_ok_def)
    next
      case False
      then have "port s' k = port s k" by (simp add: s')
      then show ?thesis using le [OF that False] ok(1) that by (simp add: states_ok_def)
    qed
    then show ?thesis using i l by (simp add: s' states_ok_def)
  qed
  moreover have "root_ok s'" "roles_ok s'" "calm s s'"
    using ok st vec_eqD(2,4) [OF v] l by (simp_all add: root_ok_def roles_ok_def calm_def enabled_def)
  ultimately show ?thesis by (simp add: keeps_def stp_inv_def s'_def)
qed

section \<open>Time\<close>

lemma forward_delay_expiry_effect:
  assumes ok: "states_ok s" and i: "i < STP_MAX_PORTS"
  shows "local_change i s (stp_forward_delay_timer_expiry s i)"
    "state_of (stp_forward_delay_timer_expiry s i) i =
       (if state_of s i = STP_LISTENING then STP_LEARNING
        else if state_of s i = STP_LEARNING then STP_FORWARDING else state_of s i)"
proof -
  have l: "length (stp_ports s) = STP_MAX_PORTS" using ok by (simp add: states_ok_def)
  have set: "local_change i s t \<and> state_of t i = x"
    if "core t = core (stp_set_port_state s i x)" "valid_state x" for t x
  proof -
    have c: "local_change i s (stp_set_port_state s i x)" by (rule local_change_set [OF ok i that(2)])
    then have "local_change i s t"
      using local_change_core [OF that(1)] local_change_trans by (auto simp: local_change_def)
    moreover have "state_of t i = state_of (stp_set_port_state s i x) i"
      using core_state [OF that(1), of i] l i by (simp add: set_port_state_ports)
    ultimately show ?thesis using l i by (simp add: set_port_state_state)
  qed
  have "local_change i s (stp_forward_delay_timer_expiry s i)
    \<and> state_of (stp_forward_delay_timer_expiry s i) i =
       (if state_of s i = STP_LISTENING then STP_LEARNING
        else if state_of s i = STP_LEARNING then STP_FORWARDING else state_of s i)"
  proof (cases "state_of s i = STP_LISTENING \<or> state_of s i = STP_LEARNING")
    case True
    then show ?thesis
      using set [of "stp_forward_delay_timer_expiry s i" STP_LEARNING]
        set [of "stp_forward_delay_timer_expiry s i" STP_FORWARDING]
      by (auto simp: stp_forward_delay_timer_expiry_def Let_def core_simps)
  next
    case False
    then show ?thesis
      using local_change_core [OF refl ok, of i] by (simp add: stp_forward_delay_timer_expiry_def)
  qed
  then show "local_change i s (stp_forward_delay_timer_expiry s i)"
    "state_of (stp_forward_delay_timer_expiry s i) i =
       (if state_of s i = STP_LISTENING then STP_LEARNING
        else if state_of s i = STP_LEARNING then STP_FORWARDING else state_of s i)" by blast+
qed

lemma local_change_inv:
  assumes "stp_inv s" "local_change i s s'" "i < STP_MAX_PORTS" "enabled s i = enabled s' i"
    "live_state (state_of s' i) \<Longrightarrow> live_state (state_of s i)"
  shows "stp_inv s'"
proof -
  have l: "length (stp_ports s) = STP_MAX_PORTS" using assms(1) by (simp add: stp_inv_def states_ok_def)
  have v: "stp_root_port s' = stp_root_port s" "\<And>k. k < STP_MAX_PORTS \<Longrightarrow> has_role s' k = has_role s k"
    using vec_eqD(2,4) [of s' s] assms(2) l by (auto simp: local_change_def)
  have st: "\<And>k. k < STP_MAX_PORTS \<Longrightarrow> k \<noteq> i \<Longrightarrow> state_of s' k = state_of s k" "states_ok s'"
    using assms(2) by (simp_all add: local_change_def)
  have "root_ok s'"
    unfolding root_ok_def
  proof (intro allI impI)
    fix r assume "stp_root_port s' = Some r"
    then have "r < STP_MAX_PORTS" "enabled s r" using assms(1) v(1) by (auto simp: stp_inv_def root_ok_def)
    then show "r < STP_MAX_PORTS \<and> enabled s' r" using assms(4) st(1) [of r] by (cases "r = i") (auto simp: enabled_def)
  qed
  moreover have "roles_ok s'"
    unfolding roles_ok_def
  proof (intro allI impI)
    fix k assume k: "k < STP_MAX_PORTS" "live_state (state_of s' k)"
    then have "live_state (state_of s k)" using assms(5) st(1) [of k] by (cases "k = i") auto
    then show "has_role s' k" using v(2) k(1) assms(1) by (simp add: stp_inv_def roles_ok_def)
  qed
  ultimately show ?thesis using st(2) by (simp add: stp_inv_def)
qed

text \<open>What the two timers of a port do in \<^verbatim>\<open>stp_tick\<close>: at most one step towards forwarding.\<close>

lemma tick_port_effect:
  fixes e :: c_int
  assumes inv: "stp_inv s" and i: "i < STP_MAX_PORTS"
  defines "t \<equiv> tick_hold e i (tick_forward_delay e i s)"
  shows "stp_inv t" "local_change i s t"
    "state_of t i = STP_FORWARDING \<Longrightarrow> state_of s i \<in> {STP_LEARNING, STP_FORWARDING}"
proof -
  define a where "a = upd s i (\<lambda>p. p\<lparr>sp_forward_delay_timer :=
     snd (stp_timer_expired (sp_forward_delay_timer (port s i)) e (stp_forward_delay s))\<rparr>)"
  have ca: "core a = core s" by (simp add: a_def core_simps)
  have ok: "states_ok s" "states_ok a"
    using inv states_ok_cong [OF states_core [OF ca]] by (simp_all add: stp_inv_def)
  then have l: "length (stp_ports s) = STP_MAX_PORTS" by (simp add: states_ok_def)
  have sa: "state_of a i = state_of s i" using core_state [OF ca] l i by simp
  have f: "tick_forward_delay e i s = a \<or> tick_forward_delay e i s = stp_forward_delay_timer_expiry a i"
    by (simp add: tick_forward_delay_def case_prod_beta Let_def a_def)
  define b where "b = tick_forward_delay e i s"
  have b: "local_change i s b \<and> state_of b i \<in> {state_of s i,
       (if state_of s i = STP_LISTENING then STP_LEARNING
        else if state_of s i = STP_LEARNING then STP_FORWARDING else state_of s i)}"
  proof (cases "b = a")
    case True
    then show ?thesis using local_change_core [OF ca ok(1), of i] sa by simp
  next
    case False
    then have "b = stp_forward_delay_timer_expiry a i" using f unfolding b_def by blast
    then show ?thesis
      using local_change_trans [OF local_change_core [OF ca ok(1)] forward_delay_expiry_effect(1) [OF ok(2) i]]
        forward_delay_expiry_effect(2) [OF ok(2) i] sa by simp
  qed
  have ct: "core t = core b" by (simp add: t_def b_def core_simps)
  have lb: "length (stp_ports b) = STP_MAX_PORTS" using b by (simp add: local_change_def states_ok_def)
  have st: "state_of t i = state_of b i" using core_state [OF ct] lb i by simp
  have "states_ok b" using b by (simp add: local_change_def)
  with b show lt: "local_change i s t"
    using local_change_trans [OF _ local_change_core [OF ct]] by blast
  have "enabled s i = enabled t i" "live_state (state_of t i) \<Longrightarrow> live_state (state_of s i)"
    using b st by (auto simp: enabled_def live_state_def split: if_splits)
  then show "stp_inv t" by (rule local_change_inv [OF inv lt i])
  show "state_of t i = STP_FORWARDING \<Longrightarrow> state_of s i \<in> {STP_LEARNING, STP_FORWARDING}"
    using b st by (auto split: if_splits)
qed

lemma tick_second_loop:
  assumes inv: "stp_inv c"
  shows "stp_inv (for_each_enabled id (\<lambda>i s. tick_hold e i (tick_forward_delay e i s)) 0 c)
    \<and> (\<forall>k<STP_MAX_PORTS.
         state_of (for_each_enabled id (\<lambda>i s. tick_hold e i (tick_forward_delay e i s)) 0 c) k = STP_FORWARDING
         \<longrightarrow> state_of c k \<in> {STP_LEARNING, STP_FORWARDING})"
proof -
  let ?v = "visit id (\<lambda>i s. tick_hold e i (tick_forward_delay e i s))"
  have "stp_inv (fold ?v [0..<m] c)
    \<and> (\<forall>k<m. state_of (fold ?v [0..<m] c) k = STP_FORWARDING
         \<longrightarrow> state_of c k \<in> {STP_LEARNING, STP_FORWARDING})
    \<and> (\<forall>k<STP_MAX_PORTS. m \<le> k \<longrightarrow> state_of (fold ?v [0..<m] c) k = state_of c k)" if "m \<le> STP_MAX_PORTS" for m
    using that
  proof (induction m)
    case (Suc m)
    define x where "x = fold ?v [0..<m] c"
    have m: "m < STP_MAX_PORTS" using Suc.prems by simp
    have IH: "stp_inv x" "\<forall>k<m. state_of x k = STP_FORWARDING \<longrightarrow> state_of c k \<in> {STP_LEARNING, STP_FORWARDING}"
      "\<forall>k<STP_MAX_PORTS. m \<le> k \<longrightarrow> state_of x k = state_of c k"
      using Suc.IH [OF less_imp_le_nat [OF m]] unfolding x_def by blast+
    note e = tick_port_effect [OF IH(1) m, of e]
    have v: "stp_inv (?v m x)" "\<forall>k<STP_MAX_PORTS. k \<noteq> m \<longrightarrow> state_of (?v m x) k = state_of x k"
      "state_of (?v m x) m = STP_FORWARDING \<Longrightarrow> state_of x m \<in> {STP_LEARNING, STP_FORWARDING}"
      using e IH(1) by (auto simp: visit_def local_change_def split: if_splits)
    have f: "fold ?v [0..<Suc m] c = ?v m x" by (simp add: x_def)
    show ?case
      unfolding f using v IH m by (auto simp: less_Suc_eq)
  qed (use inv in simp)
  from this [of STP_MAX_PORTS] show ?thesis unfolding for_each_fold [OF le0] by simp
qed

lemma tick_message_age_keeps:
  assumes "stp_inv s" "i < STP_MAX_PORTS" shows "keeps s (tick_message_age e i s)"
proof -
  define a where "a = upd s i (\<lambda>p. p\<lparr>sp_message_age_timer :=
     snd (stp_timer_expired (sp_message_age_timer (port s i)) e (stp_max_age s))\<rparr>)"
  have "keeps s a" by (rule keeps_core [OF assms(1)]) (simp add: a_def core_simps)
  moreover have "keeps s (stp_message_age_timer_expiry a i)"
    using calculation keeps_message_age_expiry [OF _ assms(2), of a] keeps_trans by (auto simp: keeps_def)
  ultimately show ?thesis
    by (simp add: tick_message_age_def case_prod_beta Let_def a_def)
qed

lemma tick_effect:
  assumes inv: "stp_inv s"
  shows "stp_inv (stp_tick s ms)"
    "k < STP_MAX_PORTS \<Longrightarrow> state_of (stp_tick s ms) k = STP_FORWARDING
      \<Longrightarrow> state_of s k \<in> {STP_LEARNING, STP_FORWARDING}"
proof -
  define m where "m = clamp ms 0 (0x7FFFFFFF - 1000) + stp_elapsed_remainder s"
  define a where "a = s\<lparr>stp_elapsed_remainder := ms_to_timer_remainder m\<rparr>"
  define e where "e = ms_to_timer m"
  define b where "b = tick_topology_change e (tick_tcn e (tick_hello e a))"
  define c where "c = for_each_enabled id (tick_message_age e) 0 b"
  let ?body = "\<lambda>i s. tick_hold e i (tick_forward_delay e i s)"
  have eq: "stp_tick s ms = (if e = 0 then a else for_each_enabled id ?body 0 c)"
    by (simp add: stp_tick_def Let_def m_def a_def e_def b_def c_def)
  have a: "keeps s a" by (rule keeps_core [OF inv]) (simp add: a_def core_simps)
  then have b: "keeps s b" by (rule keeps_then_core) (simp add: b_def core_simps)
  have "keeps b c" unfolding c_def
    by (rule for_each_invariant [where P = "keeps b"])
      (use b keeps_core [OF _ refl, of b] tick_message_age_keeps keeps_trans in \<open>auto simp: keeps_def\<close>)
  with b have c: "keeps s c" by (rule keeps_trans)
  let ?P = "\<lambda>x. stp_inv x \<and> (\<forall>k<STP_MAX_PORTS. state_of x k = STP_FORWARDING
      \<longrightarrow> state_of c k \<in> {STP_LEARNING, STP_FORWARDING})"
  have d: "?P (for_each_enabled id ?body 0 c)" if "stp_inv c"
    using tick_second_loop [OF that, of e] .
  show "stp_inv (stp_tick s ms)" using a c d by (simp add: eq keeps_def)
  show "k < STP_MAX_PORTS \<Longrightarrow> state_of (stp_tick s ms) k = STP_FORWARDING
      \<Longrightarrow> state_of s k \<in> {STP_LEARNING, STP_FORWARDING}"
  proof (cases "e = 0")
    case True
    then show "k < STP_MAX_PORTS \<Longrightarrow> state_of (stp_tick s ms) k = STP_FORWARDING
      \<Longrightarrow> state_of s k \<in> {STP_LEARNING, STP_FORWARDING}"
      using a by (auto simp: eq keeps_def calm_def)
  next
    case False
    then show "k < STP_MAX_PORTS \<Longrightarrow> state_of (stp_tick s ms) k = STP_FORWARDING
      \<Longrightarrow> state_of s k \<in> {STP_LEARNING, STP_FORWARDING}"
      using c d by (auto simp: eq keeps_def calm_def)
  qed
qed

section \<open>Reachable states\<close>

lemma create_port_effect:
  assumes i: "i < length (stp_ports s)" and f: "stp_first_changed_port s \<le> STP_MAX_PORTS" "i < STP_MAX_PORTS"
  shows "length (stp_ports (create_port i s)) = length (stp_ports s)"
    "stp_root_port (create_port i s) = stp_root_port s"
    "k \<noteq> i \<Longrightarrow> port (create_port i s) k = port s k"
    "state_of (create_port i s) i = STP_DISABLED"
    "stp_first_changed_port (create_port i s) \<le> stp_first_changed_port s"
    "(sp_state_changed (port s i) \<longrightarrow> stp_first_changed_port s \<le> i) \<Longrightarrow> stp_first_changed_port (create_port i s) \<le> i
       \<or> \<not> sp_state_changed (port (create_port i s) i)"
proof -
  define t where "t = upd s i (\<lambda>p. p\<lparr>sp_port_id := (of_nat i + 1) OR push_bit 8 STP_DEFAULT_PORT_PRIORITY,
                             sp_path_cost := 19\<rparr>)"
  define u where "u = stp_become_designated_port t i"
  define v where "v = stp_set_port_state u i STP_DISABLED"
  define w where "w = create_port i s"
  have w: "w = upd v i (\<lambda>p. p\<lparr>sp_topology_change_ack := False, sp_config_pending := False,
                    sp_change_detection_enabled := True,
                    sp_message_age_timer := stp_stop_timer (sp_message_age_timer p),
                    sp_forward_delay_timer := stp_stop_timer (sp_forward_delay_timer p),
                    sp_hold_timer := stp_stop_timer (sp_hold_timer p)\<rparr>)"
    unfolding w_def create_port_def Let_def t_def [symmetric] stp_initialize_port_def u_def [symmetric] v_def [symmetric]
    by simp
  have u: "length (stp_ports u) = length (stp_ports s)" "k \<noteq> i \<Longrightarrow> port u k = port s k"
    "stp_root_port u = stp_root_port s" "stp_first_changed_port u = stp_first_changed_port s"
    "sp_state_changed (port u i) = sp_state_changed (port s i)" for k
    using i by (simp_all add: u_def t_def stp_become_designated_port_def)
  have v: "stp_ports v = (stp_ports u)[i := (port u i)\<lparr>sp_state := STP_DISABLED,
      sp_state_changed := sp_state_changed (port u i) \<or> STP_DISABLED \<noteq> state_of u i\<rparr>]"
    unfolding v_def by (rule set_port_state_ports) (simp add: u i)
  show "length (stp_ports (create_port i s)) = length (stp_ports s)"
    "stp_root_port (create_port i s) = stp_root_port s"
    unfolding w_def [symmetric] w by (simp_all add: v u) (simp add: v_def u)
  show "k \<noteq> i \<Longrightarrow> port (create_port i s) k = port s k" "state_of (create_port i s) i = STP_DISABLED"
    unfolding w_def [symmetric] w using i by (simp_all add: v u)
  show "stp_first_changed_port (create_port i s) \<le> stp_first_changed_port s"
    "(sp_state_changed (port s i) \<longrightarrow> stp_first_changed_port s \<le> i) \<Longrightarrow> stp_first_changed_port (create_port i s) \<le> i
       \<or> \<not> sp_state_changed (port (create_port i s) i)"
    unfolding w_def [symmetric] w using i by (auto simp: v_def u set_port_state_ports nth_list_update)
qed

lemma create_loop:
  assumes "length (stp_ports s) = STP_MAX_PORTS" "stp_root_port s = None" "stp_first_changed_port s = STP_MAX_PORTS"
    "\<forall>k<STP_MAX_PORTS. \<not> sp_state_changed (port s k)"
  shows "m \<le> STP_MAX_PORTS \<Longrightarrow> length (stp_ports (fold create_port [0..<m] s)) = STP_MAX_PORTS
    \<and> stp_root_port (fold create_port [0..<m] s) = None
    \<and> stp_first_changed_port (fold create_port [0..<m] s) \<le> STP_MAX_PORTS
    \<and> (\<forall>k<STP_MAX_PORTS. sp_state_changed (port (fold create_port [0..<m] s) k)
         \<longrightarrow> stp_first_changed_port (fold create_port [0..<m] s) \<le> k)
    \<and> (\<forall>k<m. state_of (fold create_port [0..<m] s) k = STP_DISABLED)"
proof (induction m)
  case 0
  then show ?case using assms by simp
next
  case (Suc m)
  define x where "x = fold create_port [0..<m] s"
  have IH: "length (stp_ports x) = STP_MAX_PORTS" "stp_root_port x = None" "stp_first_changed_port x \<le> STP_MAX_PORTS"
    "\<forall>k<STP_MAX_PORTS. sp_state_changed (port x k) \<longrightarrow> stp_first_changed_port x \<le> k"
    "\<forall>k<m. state_of x k = STP_DISABLED" and m: "m < STP_MAX_PORTS"
    using Suc unfolding x_def by auto
  note e = create_port_effect [of m x, unfolded IH(1), OF m IH(3) m]
  have f: "fold create_port [0..<Suc m] s = create_port m x" by (simp add: x_def)
  have "stp_first_changed_port (create_port m x) \<le> k"
    if "k < STP_MAX_PORTS" "sp_state_changed (port (create_port m x) k)" for k
    using that e(3) [of k] e(5,6) IH(4) m by (cases "k = m") auto
  moreover have "state_of (create_port m x) k = STP_DISABLED" if "k < Suc m" for k
    using that e(3) [of k] e(4) IH(5) by (cases "k = m") auto
  ultimately show ?case unfolding f using e(1,2,5) IH(2,3) by simp
qed

definition stp_initial :: "string \<Rightarrow> stp_identifier \<Rightarrow> stp" where
  "stp_initial name b =
     (let s = stp_update_bridge_timers
            \<lparr>stp_name = name, stp_bridge_id = b, stp_max_age = 0, stp_hello_time = 0,
               stp_forward_delay = 0, stp_bridge_max_age = 0, stp_bridge_hello_time = 0,
               stp_bridge_forward_delay = 0, stp_rq_max_age = 6000, stp_rq_hello_time = 2000,
               stp_rq_forward_delay = 4000, stp_elapsed_remainder = 0, stp_designated_root = 0,
               stp_root_path_cost = 0, stp_root_port = None, stp_topology_change_detected = False,
               stp_topology_change = False, stp_hello_timer = zero_timer, stp_tcn_timer = zero_timer,
               stp_topology_change_timer = zero_timer,
               stp_ports = replicate STP_MAX_PORTS zero_port, stp_first_changed_port = 0,
               stp_sent = []\<rparr>
      in s\<lparr>stp_max_age := stp_bridge_max_age s, stp_hello_time := stp_bridge_hello_time s,
                stp_forward_delay := stp_bridge_forward_delay s,
                stp_designated_root := stp_bridge_id s, stp_root_path_cost := 0,
                stp_root_port := None, stp_topology_change_detected := False,
                stp_topology_change := False,
                stp_tcn_timer := stp_stop_timer (stp_tcn_timer s),
                stp_topology_change_timer := stp_stop_timer (stp_topology_change_timer s),
                stp_hello_timer := stp_start_timer 0 (stp_hello_timer s),
                stp_first_changed_port := STP_MAX_PORTS\<rparr>)"

lemma stp_create_eq:
  "stp_create name b = fold create_port [0..<STP_MAX_PORTS]
     (stp_initial name (if drop_bit 48 b = 0 then b OR push_bit 48 STP_DEFAULT_BRIDGE_PRIORITY else b))"
  by (simp only: stp_create_def stp_initial_def Let_def)

lemma update_bridge_timers_ports [simp]:
  "stp_ports (stp_update_bridge_timers s) = stp_ports s"
  "stp_elapsed_remainder (stp_update_bridge_timers s) = stp_elapsed_remainder s"
  by (simp_all add: stp_update_bridge_timers_def Let_def)

lemma create_effect:
  "stp_inv (stp_create name b)" "k < STP_MAX_PORTS \<Longrightarrow> state_of (stp_create name b) k = STP_DISABLED"
proof -
  let ?b = "if drop_bit 48 b = 0 then b OR push_bit 48 STP_DEFAULT_BRIDGE_PRIORITY else b"
  have i: "length (stp_ports (stp_initial name ?b)) = STP_MAX_PORTS" "stp_root_port (stp_initial name ?b) = None"
    "stp_first_changed_port (stp_initial name ?b) = STP_MAX_PORTS"
    "\<forall>k<STP_MAX_PORTS. \<not> sp_state_changed (port (stp_initial name ?b) k)"
    by (simp_all add: stp_initial_def Let_def zero_port_def)
  note l = create_loop [OF i order_refl, folded stp_create_eq]
  then show "k < STP_MAX_PORTS \<Longrightarrow> state_of (stp_create name b) k = STP_DISABLED" by blast
  from l show "stp_inv (stp_create name b)"
    by (simp add: stp_inv_def states_ok_def root_ok_def roles_ok_def live_not)
qed

text \<open>The operations of the client, on ports of the bridge.\<close>

inductive stp_step :: "stp \<Rightarrow> stp \<Rightarrow> bool" where
  tick: "stp_step s (stp_tick s ms)"
| received: "i < STP_MAX_PORTS \<Longrightarrow> stp_step s (stp_received_bpdu s i bpdu)"
| enable: "i < STP_MAX_PORTS \<Longrightarrow> stp_port_enable s i = Some s' \<Longrightarrow> stp_step s s'"
| disable: "i < STP_MAX_PORTS \<Longrightarrow> stp_step s (stp_port_disable s i)"
| priority: "i < STP_MAX_PORTS \<Longrightarrow> stp_step s (stp_port_set_priority s i pr)"
| path_cost: "i < STP_MAX_PORTS \<Longrightarrow> stp_step s (stp_port_set_path_cost s i c)"
| speed: "i < STP_MAX_PORTS \<Longrightarrow> stp_step s (stp_port_set_speed s i v)"
| detection_on: "i < STP_MAX_PORTS \<Longrightarrow> stp_step s (stp_port_enable_change_detection s i)"
| detection_off: "i < STP_MAX_PORTS \<Longrightarrow> stp_step s (stp_port_disable_change_detection s i)"
| bridge_id: "stp_step s (stp_set_bridge_id s b)"
| bridge_priority: "stp_step s (stp_set_bridge_priority s bp)"
| hello_time: "stp_step s (stp_set_hello_time s ms)"
| max_age: "stp_step s (stp_set_max_age s ms)"
| forward_delay: "stp_step s (stp_set_forward_delay s ms)"
| changed_port: "stp_step s (snd (stp_get_changed_port s))"

inductive stp_reachable :: "stp \<Rightarrow> bool" where
  created: "stp_reachable (stp_create name b)"
| step: "stp_reachable s \<Longrightarrow> stp_step s s' \<Longrightarrow> stp_reachable s'"

lemma step_keeps:
  assumes "stp_step s s'" "stp_inv s"
  shows "keeps s s' \<or> (\<exists>ms. s' = stp_tick s ms)"
  using assms
proof cases
  case (enable i)
  then show ?thesis using keeps_enable [OF assms(2) enable(1)] by auto
qed (use assms(2) in \<open>auto simp: keeps_received keeps_disable keeps_priority keeps_path_cost keeps_changed_port
    stp_port_set_speed_def stp_set_bridge_id_def stp_set_bridge_priority_def keeps_set_bridge_id Let_def
    stp_port_enable_change_detection_def stp_port_disable_change_detection_def
    stp_set_hello_time_def stp_set_max_age_def stp_set_forward_delay_def core_simps intro!: keeps_core\<close>)

section \<open>The root port is the best\<close>

text \<open>The port that offers the least vector of root, cost, bridge, port and own identifier wins.\<close>

definition root_key :: "stp_port \<Rightarrow> u64 \<times> int \<times> u64 \<times> int \<times> int" where
  "root_key p = (sp_designated_root p, sint (sp_designated_cost p + sp_path_cost p), sp_designated_bridge p,
     sint (sp_designated_port p), sint (sp_port_id p))"

definition offers_root :: "stp \<Rightarrow> nat \<Rightarrow> bool" where
  "offers_root s i \<longleftrightarrow> enabled s i \<and> \<not> stp_is_designated_port s i
     \<and> sp_designated_root (port s i) < stp_bridge_id s"

lemma sint_eq: "sint (x :: c_int) = sint y \<longleftrightarrow> x = y"
  by (metis signed_word_eqI)

lemma supersedes_root_key: "stp_supersedes_root r p \<longleftrightarrow> root_key p < root_key r"
  by (auto simp: stp_supersedes_root_def root_key_def Let_def sint_eq [symmetric])

lemma root_scan:
  "m \<le> STP_MAX_PORTS \<Longrightarrow>
     (case fold (visit (\<lambda>_. s) (select_root s)) [0..<m] None of
        None \<Rightarrow> \<forall>i<m. \<not> offers_root s i
      | Some r \<Rightarrow> r < m \<and> offers_root s r
          \<and> (\<forall>i<m. offers_root s i \<longrightarrow> root_key (port s r) \<le> root_key (port s i)))"
proof (induction m)
  case (Suc m)
  define x where "x = fold (visit (\<lambda>_. s) (select_root s)) [0..<m] None"
  have IH: "case x of None \<Rightarrow> \<forall>i<m. \<not> offers_root s i
      | Some r \<Rightarrow> r < m \<and> offers_root s r
          \<and> (\<forall>i<m. offers_root s i \<longrightarrow> root_key (port s r) \<le> root_key (port s i))"
    using Suc by (simp add: x_def)
  have v: "visit (\<lambda>_. s) (select_root s) m x =
     (if offers_root s m then
        (case x of None \<Rightarrow> Some m
         | Some r \<Rightarrow> if root_key (port s m) < root_key (port s r) then Some m else Some r)
      else x)"
    by (auto simp: visit_def select_root_def offers_root_def supersedes_root_key split: option.split)
  have f: "fold (visit (\<lambda>_. s) (select_root s)) [0..<Suc m] None = visit (\<lambda>_. s) (select_root s) m x"
    by (simp add: x_def)
  show ?case
  proof (cases x)
    case None
    then show ?thesis using IH unfolding f v by (auto simp: less_Suc_eq)
  next
    case (Some r)
    then have r: "r < m" "offers_root s r" "\<forall>i<m. offers_root s i \<longrightarrow> root_key (port s r) \<le> root_key (port s i)"
      using IH by auto
    show ?thesis
    proof (cases "offers_root s m \<and> root_key (port s m) < root_key (port s r)")
      case True
      then have "root_key (port s m) \<le> root_key (port s i)" if "i < m" "offers_root s i" for i
        using r(3) that by (meson less_imp_le order_trans)
      then show ?thesis using True Some unfolding f v by (auto simp: less_Suc_eq)
    next
      case False
      then have "visit (\<lambda>_. s) (select_root s) m x = Some r" using Some unfolding v by auto
      then show ?thesis using r False unfolding f by (auto simp: less_Suc_eq not_less)
    qed
  qed
qed simp

section \<open>Timer parameters\<close>

lemma clamp_bounds: "sint lo \<le> sint hi \<Longrightarrow> sint lo \<le> sint (clamp x lo hi) \<and> sint (clamp x lo hi) \<le> sint hi"
  by (auto simp: clamp_def)

lemma sint_mult_small:
  "- 0x80000000 \<le> sint (x :: c_int) * sint y \<Longrightarrow> sint x * sint y < 0x80000000 \<Longrightarrow> sint (x * y) = sint x * sint y"
  by (simp add: sint_word_ariths signed_take_bit_int_eq_self)

lemma sint_add_small:
  "- 0x80000000 \<le> sint (x :: c_int) + sint y \<Longrightarrow> sint x + sint y < 0x80000000 \<Longrightarrow> sint (x + y) = sint x + sint y"
  by (simp add: sint_word_ariths signed_take_bit_int_eq_self)

lemma sint_c_div:
  assumes "0 \<le> sint x" "0 < sint y" shows "sint (c_div x y) = sint x div sint y"
proof -
  have "0 \<le> sint x div sint y" using assms by (simp add: pos_imp_zdiv_nonneg_iff)
  moreover have "sint x div sint y \<le> sint x" using assms zdiv_mono2 [of "sint x" 1 "sint y"] by simp
  moreover have "sint x < 0x80000000" using sint_lt [of x] by simp
  ultimately have "signed_take_bit 31 (sint x div sint y) = sint x div sint y"
    by (simp add: signed_take_bit_int_eq_self)
  moreover have "sint x sdiv sint y = sint x div sint y"
    using assms by (cases "sint x = 0") (simp_all add: signed_divide_int_def)
  ultimately show ?thesis by (simp add: c_div_def signed_of_int)
qed

lemma ms_to_timer_small:
  assumes "0 \<le> sint ms" "sint ms \<le> 40000" shows "sint (ms_to_timer ms) = sint ms * 256 div 1000"
proof -
  have "sint (ms * 0x100) = sint ms * 256" using sint_mult_small [of ms "0x100"] assms by simp
  then show ?thesis using sint_c_div [of "ms * 0x100" 1000] assms by (simp add: ms_to_timer_def)
qed

lemma timer_arith:
  fixes h m f qh qm qf m2 :: int
  assumes "1000 \<le> h" "h \<le> 10000" "6000 \<le> m" "2 * h + 2000 \<le> m" "m \<le> 40000" "m2 + 1000 \<le> f" "f \<le> 30000"
    "2 * m2 \<le> m" "m \<le> 2 * m2 + 1" "1000 * qh \<le> 256 * h" "256 * h < 1000 * qh + 1000"
    "1000 * qm \<le> 256 * m" "256 * m < 1000 * qm + 1000" "1000 * qf \<le> 256 * f" "256 * f < 1000 * qf + 1000"
  shows "256 \<le> qh" "qh \<le> 2560" "1536 \<le> qm" "qm \<le> 10240" "1024 \<le> qf" "qf \<le> 7680"
    "2 * qh + 512 \<le> qm" "qm \<le> 2 * qf - 510"
proof -
  have "3000 \<le> m2" using assms(3,9) by linarith
  then have "4000 \<le> f" using assms(6) by linarith
  then show "1024 \<le> qf" using assms(15) by linarith
  show "2 * qh + 512 \<le> qm" 
  proof -
    have "2000 * qh + 512000 \<le> 256 * m" using assms(4,10) by linarith
    then have "2000 * qh + 511000 < 1000 * qm" using assms(13) by linarith
    then show ?thesis by linarith
  qed
  show "qm \<le> 2 * qf - 510" 
  proof -
    have "1000 * qm \<le> 512 * m2 + 256" using assms(9,12) by linarith
    moreover have "512 * m2 + 512000 < 2000 * qf + 2000" using assms(6,15) by linarith
    ultimately have "1000 * qm < 2000 * qf - 509000" by linarith
    then show ?thesis by linarith
  qed
qed (use assms in linarith)+

lemma div_1000: "1000 * (a div 1000) \<le> a \<and> a < 1000 * (a div 1000) + 1000" for a :: int
  using mult_div_mod_eq [of 1000 a] pos_mod_sign [of 1000 a] pos_mod_bound [of 1000 a] by linarith

lemma reachable_inv: "stp_reachable s \<Longrightarrow> stp_inv s"
proof (induction rule: stp_reachable.induct)
  case (created name b)
  show ?case by (rule create_effect)
next
  case (step s s')
  then show ?case using step_keeps [OF step(2) step(3)] tick_effect(1) [OF step(3)] by (auto simp: keeps_def)
qed

section \<open>Messages\<close>

lemma flags_lost: "ucast (ucast (f :: u8) OR htons STP_CONFIG_TOPOLOGY_CHANGE_ACK) = f"
  "ucast (ucast (f :: u8) OR htons STP_CONFIG_TOPOLOGY_CHANGE) = f"
  "ucast (f :: u8) AND htons STP_CONFIG_TOPOLOGY_CHANGE_ACK = 0"
  "ucast (f :: u8) AND htons STP_CONFIG_TOPOLOGY_CHANGE = 0"
proof -
  have h: "htons STP_CONFIG_TOPOLOGY_CHANGE_ACK = 0x8000" "htons STP_CONFIG_TOPOLOGY_CHANGE = 0x0100"
    by (simp_all add: htons_def)
  have c: "ucast (0x8000 :: u16) = (0 :: u8)" "ucast (0x0100 :: u16) = (0 :: u8)" by code_simp+
  have u: "ucast (ucast f :: u16) = f" by (rule bit_word_eqI) (simp add: bit_simps)
  show "ucast (ucast f OR htons STP_CONFIG_TOPOLOGY_CHANGE_ACK) = f"
    "ucast (ucast f OR htons STP_CONFIG_TOPOLOGY_CHANGE) = f"
    unfolding h unsigned_or_eq c u by simp_all
  have m: "ucast f = (ucast f :: u16) AND mask 8"
    by (rule bit_word_eqI) (auto simp: bit_simps dest: bit_imp_le_length)
  show "ucast f AND htons STP_CONFIG_TOPOLOGY_CHANGE_ACK = 0" "ucast f AND htons STP_CONFIG_TOPOLOGY_CHANGE = 0"
    unfolding h by (subst m, simp add: and.assoc mask_numeral)+
qed

section \<open>Properties\<close>



text \<open>
  C37. \<^verbatim>\<open>stp_root_selection\<close> makes the enabled port with the least vector of root identifier, root path
  cost, bridge identifier, port identifier and own port identifier the root port, among the
  ports that are not designated and offer a better root than this bridge; if there is none,
  the bridge takes itself for the root.
\<close>

theorem stp_root_selection_best:
  "case stp_root_port (stp_root_selection s) of
     None \<Rightarrow> (\<forall>i<STP_MAX_PORTS. \<not> offers_root s i) \<and> stp_is_root_bridge (stp_root_selection s)
       \<and> stp_root_path_cost (stp_root_selection s) = 0
   | Some r \<Rightarrow> r < STP_MAX_PORTS \<and> offers_root s r
       \<and> (\<forall>i<STP_MAX_PORTS. offers_root s i \<longrightarrow> root_key (port s r) \<le> root_key (port s i))
       \<and> stp_designated_root (stp_root_selection s) = sp_designated_root (port s r)
       \<and> stp_root_path_cost (stp_root_selection s) = sp_designated_cost (port s r) + sp_path_cost (port s r)"
  using root_scan [of STP_MAX_PORTS s]
  by (auto simp: stp_root_selection_def Let_def for_each_fold stp_is_root_bridge_def split: option.splits)

text \<open>
  C39. Whatever times are requested, the bridge times are in their ranges, in ticks of 1/256 s, and
  \<^verbatim>\<open>bridge_max_age >= 2 * (bridge_hello_time + 1 s)\<close>. The other documented relation,
  \<^verbatim>\<open>2 * (bridge_forward_delay - 1 s) >= bridge_max_age\<close>, holds up to two ticks.
\<close>

theorem stp_bridge_timers_bounds:
  fixes s :: stp
  defines "s' \<equiv> stp_update_bridge_timers s"
  shows "sint (stp_bridge_hello_time s') \<in> {256..2560} \<and> sint (stp_bridge_max_age s') \<in> {1536..10240}
    \<and> sint (stp_bridge_forward_delay s') \<in> {1024..7680}
    \<and> 2 * (sint (stp_bridge_hello_time s') + 256) \<le> sint (stp_bridge_max_age s')
    \<and> sint (stp_bridge_max_age s') \<le> 2 * (sint (stp_bridge_forward_delay s') - 256) + 2"
proof -
  define ht where "ht = clamp (stp_rq_hello_time s) 1000 10000"
  define lo where "lo = 2 * (ht + 1000)"
  define lo' where "lo' = (if sint lo > sint (6000 :: c_int) then lo else 6000)"
  define ma where "ma = clamp (stp_rq_max_age s) lo' 40000"
  define fd where "fd = clamp (stp_rq_forward_delay s) (c_div ma 2 + 1000) 30000"
  have ht: "1000 \<le> sint ht" "sint ht \<le> 10000" using clamp_bounds [of 1000 10000] by (simp_all add: ht_def)
  have lo: "sint lo = 2 * (sint ht + 1000)"
    using sint_add_small [of ht 1000] sint_mult_small [of 2 "ht + 1000"] ht by (simp add: lo_def)
  have lo': "6000 \<le> sint lo'" "sint lo \<le> sint lo'" "sint lo' \<le> 22000" using lo ht by (auto simp: lo'_def)
  have ma: "sint lo' \<le> sint ma" "sint ma \<le> 40000" using clamp_bounds [of lo' 40000] lo' by (simp_all add: ma_def)
  have h: "sint (c_div ma 2) = sint ma div 2" using sint_c_div [of ma 2] ma lo' by simp
  then have h': "sint (c_div ma 2 + 1000) = sint ma div 2 + 1000"
    using sint_add_small [of "c_div ma 2" 1000] ma lo' by simp
  have fd: "sint ma div 2 + 1000 \<le> sint fd" "sint fd \<le> 30000"
    using clamp_bounds [of "c_div ma 2 + 1000" 30000] ma h' by (simp_all add: fd_def)
  have s': "stp_bridge_hello_time s' = ms_to_timer ht" "stp_bridge_max_age s' = ms_to_timer ma"
    "stp_bridge_forward_delay s' = ms_to_timer fd"
    by (simp_all add: s'_def stp_update_bridge_timers_def Let_def ht_def ma_def fd_def lo_def lo'_def)
  have t: "sint (ms_to_timer ht) = sint ht * 256 div 1000" "sint (ms_to_timer ma) = sint ma * 256 div 1000"
    "sint (ms_to_timer fd) = sint fd * 256 div 1000"
    using ht ma lo' fd by (simp_all add: ms_to_timer_small)
  have d: "1000 * (x * 256 div 1000) \<le> 256 * x \<and> 256 * x < 1000 * (x * 256 div 1000) + 1000" for x :: int
    using div_1000 [of "x * 256"] unfolding mult.commute [of 256 x] .
  have d2: "2 * (sint ma div 2) \<le> sint ma \<and> sint ma \<le> 2 * (sint ma div 2) + 1" by linarith
  have m: "2 * sint ht + 2000 \<le> sint ma" "6000 \<le> sint ma" using ma lo lo' by simp_all
  define qh where "qh = sint ht * 256 div 1000"
  define qm where "qm = sint ma * 256 div 1000"
  define qf where "qf = sint fd * 256 div 1000"
  note q = qh_def [symmetric] qm_def [symmetric] qf_def [symmetric]
  have b: "1000 * qh \<le> 256 * sint ht" "256 * sint ht < 1000 * qh + 1000" "1000 * qm \<le> 256 * sint ma"
    "256 * sint ma < 1000 * qm + 1000" "1000 * qf \<le> 256 * sint fd" "256 * sint fd < 1000 * qf + 1000"
    using d [of "sint ht"] d [of "sint ma"] d [of "sint fd"] unfolding q by blast+
  note r = timer_arith [OF ht m(2,1) ma(2) fd d2 [THEN conjunct1] d2 [THEN conjunct2] b]
  show ?thesis unfolding s' t q atLeastAtMost_iff using r by simp
qed

text \<open>
  \<^verbatim>\<open>stp_get_changed_port\<close> returns the first port whose change of state has not been reported and
  marks it as reported, and returns none only if every change has been reported.
\<close>

theorem stp_changed_ports_reported:
  assumes "stp_reachable s"
  shows "case stp_get_changed_port s of
      (None, s') \<Rightarrow> \<forall>i<STP_MAX_PORTS. \<not> sp_state_changed (port s i)
    | (Some i, s') \<Rightarrow> i < STP_MAX_PORTS \<and> sp_state_changed (port s i) \<and> (\<forall>j<i. \<not> sp_state_changed (port s j))
        \<and> (\<forall>j<STP_MAX_PORTS. sp_state_changed (port s' j) = (j \<noteq> i \<and> sp_state_changed (port s j))
              \<and> state_of s' j = state_of s j)"
proof -
  have ok: "length (stp_ports s) = STP_MAX_PORTS"
    "\<And>i. i < STP_MAX_PORTS \<Longrightarrow> sp_state_changed (port s i) \<Longrightarrow> stp_first_changed_port s \<le> i"
    using reachable_inv [OF assms] by (auto simp: stp_inv_def states_ok_def)
  show ?thesis
  proof (cases "find (\<lambda>i. sp_state_changed (port s i)) [stp_first_changed_port s..<STP_MAX_PORTS]")
    case None
    then have "stp_get_changed_port s = (None, s\<lparr>stp_first_changed_port := STP_MAX_PORTS\<rparr>)"
      by (simp add: stp_get_changed_port_def)
    then show ?thesis using None ok by (auto simp: find_None_iff)
  next
    case (Some i)
    then have eq: "stp_get_changed_port s =
        (Some i, (upd s i (\<lambda>p. p\<lparr>sp_state_changed := False\<rparr>))\<lparr>stp_first_changed_port := i + 1\<rparr>)"
      by (simp add: stp_get_changed_port_def)
    note f = Some [unfolded find_upt_Some]
    have "\<not> sp_state_changed (port s j)" if "j < i" for j
      using f ok(2) [of j] that by (meson less_trans)
    then show ?thesis using f ok(1) unfolding eq by (auto simp: nth_list_update)
  qed
qed

text \<open>A configuration message is read back from its bytes as it was sent.\<close>

theorem config_bytes_roundtrip: "config_of_bytes (config_bytes c) = c \<and> length (config_bytes c) = 35"
proof -
  have l8: "ld8 (xs @ v # ys) i = v" if "i = length xs" for xs v ys and i :: nat
    using that by (simp add: ld8_def)
  obtain a b d e f g h i j k l m where c: "c = \<lparr>cb_protocol_id = a, cb_protocol_version = b, cb_bpdu_type = d,
     cb_flags = e, cb_root_id = f, cb_root_path_cost = g, cb_bridge_id = h, cb_port_id = i,
     cb_message_age = j, cb_max_age = k, cb_hello_time = l, cb_forward_delay = m\<rparr>" by (cases c)
  note r = ld16_le16 [of 0 "[]"] l8 [of 2 "le16 a"] l8 [of 3 "le16 a @ [b]"] l8 [of 4 "le16 a @ [b, d]"]
    ld64_le64 [of 5 "le16 a @ [b, d, e]"] ld32_le32 [of 13 "le16 a @ [b, d, e] @ le64 f"]
    ld64_le64 [of 17 "le16 a @ [b, d, e] @ le64 f @ le32 g"]
    ld16_le16 [of 25 "le16 a @ [b, d, e] @ le64 f @ le32 g @ le64 h"]
    ld16_le16 [of 27 "le16 a @ [b, d, e] @ le64 f @ le32 g @ le64 h @ le16 i"]
    ld16_le16 [of 29 "le16 a @ [b, d, e] @ le64 f @ le32 g @ le64 h @ le16 i @ le16 j"]
    ld16_le16 [of 31 "le16 a @ [b, d, e] @ le64 f @ le32 g @ le64 h @ le16 i @ le16 j @ le16 k"]
    ld16_le16 [of 33 "le16 a @ [b, d, e] @ le64 f @ le32 g @ le64 h @ le16 i @ le16 j @ le16 k @ le16 l" m "[]"]
  show ?thesis
    using r by (simp add: config_of_bytes_def config_bytes_def c)
qed

text \<open>
  The topology change flags are neither sent nor recognised: the flags byte of every
  configuration message sent is zero, and every message received clears \<^verbatim>\<open>topology_change\<close>.
\<close>

theorem stp_flags_never_sent_nor_seen:
  "(stp_sent (stp_transmit_config s i) = stp_sent s
     \<or> (\<exists>frame. stp_sent (stp_transmit_config s i) = stp_sent s @ [(frame, i)] \<and> ld8 frame 21 = 0))
   \<and> \<not> stp_topology_change (stp_record_config_timeout_values s config)"
proof
  have "ld8 (e6 @ e6' @ le16 t @ llc @ config_bytes c) 21 = cb_flags c"
    if "length e6 = 6" "length e6' = 6" "length llc = 3" for e6 e6' llc t c
    using that by (simp add: config_bytes_def ld8_def nth_append)
  note ld = this [of "[0x01, 0x80, 0xC2, 0x00, 0x00, 0x01]" "[0, 0, 0, 0, 0, 0]" "[0x42, 0x42, 0x03]", simplified]
  show "stp_sent (stp_transmit_config s i) = stp_sent s
     \<or> (\<exists>frame. stp_sent (stp_transmit_config s i) = stp_sent s @ [(frame, i)] \<and> ld8 frame 21 = 0)"
    unfolding stp_transmit_config_def Let_def flags_lost if_cancel
    by (simp add: stp_send_bpdu_def Let_def ld del: htons_0)
  show "\<not> stp_topology_change (stp_record_config_timeout_values s config)"
    by (simp add: stp_record_config_timeout_values_def flags_lost)
qed

lemma create_port_frame:
  "stp_hello_timer (create_port i s) = stp_hello_timer s" "stp_hello_time (create_port i s) = stp_hello_time s"
  "stp_tcn_timer (create_port i s) = stp_tcn_timer s"
  "stp_topology_change_timer (create_port i s) = stp_topology_change_timer s"
  "stp_elapsed_remainder (create_port i s) = stp_elapsed_remainder s"
  by (simp_all add: create_port_def stp_initialize_port_def stp_set_port_state_def stp_become_designated_port_def
      upd_def Let_def)

lemma create_frame:
  "stp_hello_timer (stp_create name b) = \<lparr>tm_active = True, tm_value = 0\<rparr>"
  "stp_hello_time (stp_create name b) = 512" "\<not> tm_active (stp_tcn_timer (stp_create name b))"
  "\<not> tm_active (stp_topology_change_timer (stp_create name b))"
  "stp_elapsed_remainder (stp_create name b) = 0"
proof -
  define b' where "b' = (if drop_bit 48 b = 0 then b OR push_bit 48 STP_DEFAULT_BRIDGE_PRIORITY else b)"
  let ?P = "\<lambda>x. stp_hello_timer x = stp_hello_timer (stp_initial name b')
    \<and> stp_hello_time x = stp_hello_time (stp_initial name b') \<and> stp_tcn_timer x = stp_tcn_timer (stp_initial name b')
    \<and> stp_topology_change_timer x = stp_topology_change_timer (stp_initial name b')
    \<and> stp_elapsed_remainder x = stp_elapsed_remainder (stp_initial name b')"
  have "?P (fold create_port [0..<STP_MAX_PORTS] (stp_initial name b'))"
    by (rule fold_invariant [where Q = "\<lambda>_. True" and P = ?P]) (simp_all add: create_port_frame)
  then have p: "?P (stp_create name b)" by (simp add: stp_create_eq b'_def)
  have t: "ms_to_timer (clamp 2000 1000 10000) = 512" by code_simp
  have i: "stp_hello_timer (stp_initial name b') = \<lparr>tm_active = True, tm_value = 0\<rparr>"
    "stp_hello_time (stp_initial name b') = 512" "\<not> tm_active (stp_tcn_timer (stp_initial name b'))"
    "\<not> tm_active (stp_topology_change_timer (stp_initial name b'))" "stp_elapsed_remainder (stp_initial name b') = 0"
    using t by (simp_all add: stp_initial_def stp_update_bridge_timers_def Let_def zero_timer_def
        stp_start_timer_def stp_stop_timer_def)
  show "stp_hello_timer (stp_create name b) = \<lparr>tm_active = True, tm_value = 0\<rparr>"
    "stp_hello_time (stp_create name b) = 512" "\<not> tm_active (stp_tcn_timer (stp_create name b))"
    "\<not> tm_active (stp_topology_change_timer (stp_create name b))" "stp_elapsed_remainder (stp_create name b) = 0"
    using p i by auto
qed

lemma for_each_none:
  assumes "\<forall>k<STP_MAX_PORTS. \<not> enabled s k" shows "for_each_enabled id body 0 s = s"
  by (rule for_each_invariant [where P = "\<lambda>x. x = s"]) (use assms in auto)

text \<open>
  \<^verbatim>\<open>stp_tick\<close> runs too fast when it is called often: the remainder it keeps is in units of
  1/256 ms but is added as milliseconds, so that after two calls of 1 ms each the hello timer
  of a new bridge has advanced by 65 ticks, which is 254 ms; and a period of more than
  8388607 ms overflows to a negative number of ticks.
\<close>

theorem stp_tick_time_drift:
  "tm_value (stp_hello_timer (stp_tick (stp_tick (stp_create name b) 1) 1)) = 65
   \<and> sint (ms_to_timer 8388608) < 0"
proof
  define s where "s = stp_create name b"
  define s1 where "s1 = s\<lparr>stp_elapsed_remainder := 256\<rparr>"
  note f = create_frame [of name b, folded s_def]
  have c1: "ms_to_timer (clamp 1 0 (0x7FFFFFFF - 1000) + 0) = 0"
    "ms_to_timer_remainder (clamp 1 0 (0x7FFFFFFF - 1000) + 0) = 256"
    "ms_to_timer (clamp 1 0 (0x7FFFFFFF - 1000) + 256) = 65" by code_simp+
  have t1: "stp_tick s 1 = s1"
    unfolding stp_tick_def Let_def f(5) c1 s1_def by simp
  define r where "r = ms_to_timer_remainder (clamp 1 0 (0x7FFFFFFF - 1000) + 256)"
  define s2 where "s2 = s1\<lparr>stp_elapsed_remainder := r\<rparr>"
  define s3 where "s3 = s2\<lparr>stp_hello_timer := \<lparr>tm_active = True, tm_value = 65\<rparr>\<rparr>"
  have h: "tick_topology_change 65 (tick_tcn 65 (tick_hello 65 s2)) = s3"
    using f by (simp add: s3_def s2_def s1_def tick_hello_def tick_tcn_def tick_topology_change_def
        stp_timer_expired_def)
  have "stp_ports s3 = stp_ports s" by (simp add: s3_def s2_def s1_def)
  then have off: "\<forall>k<STP_MAX_PORTS. \<not> enabled s3 k"
    using create_effect(2) [of _ name b] by (simp add: enabled_def s_def)
  have rem: "stp_elapsed_remainder s1 = 256" by (simp add: s1_def)
  have "stp_tick s1 1 = s3"
    unfolding stp_tick_def Let_def rem c1(3) r_def [symmetric] s2_def [symmetric] h for_each_none [OF off]
    by simp
  then show "tm_value (stp_hello_timer (stp_tick (stp_tick (stp_create name b) 1) 1)) = 65"
    using t1 unfolding s_def [symmetric] by (simp add: s3_def)
  show "sint (ms_to_timer 8388608) < 0" by code_simp
qed

text \<open>With 6006 ms requested as maximum age, the documented relation fails by one tick.\<close>

theorem stp_forward_delay_relation_fails:
  "2 * (sint (stp_bridge_forward_delay (stp_update_bridge_timers
       (s\<lparr>stp_rq_hello_time := 2000, stp_rq_max_age := 6006, stp_rq_forward_delay := 4000\<rparr>))) - 256)
   < sint (stp_bridge_max_age (stp_update_bridge_timers
       (s\<lparr>stp_rq_hello_time := 2000, stp_rq_max_age := 6006, stp_rq_forward_delay := 4000\<rparr>)))"
proof -
  have "ms_to_timer (clamp 4000 (c_div (clamp 6006 6000 40000) 2 + 1000) 30000) = 1024"
    "ms_to_timer (clamp 6006 6000 40000) = 1537" "clamp 2000 1000 10000 = 2000" by code_simp+
  then show ?thesis by (simp add: stp_update_bridge_timers_def Let_def)
qed

section \<open>Witnesses\<close>

definition sample_stp :: stp where "sample_stp = stp_create ''bridge'' 1"

lemma sample_stp_reachable: "stp_reachable sample_stp"
  unfolding sample_stp_def by (rule created)



theorem stp_root_selection_best_witness:
  "stp_is_root_bridge (stp_root_selection sample_stp)"
proof -
  have "\<not> offers_root sample_stp i" if "i < STP_MAX_PORTS" for i
    using create_effect(2) [OF that, of "''bridge''" 1] by (simp add: sample_stp_def offers_root_def enabled_def)
  then show ?thesis
    using stp_root_selection_best [of sample_stp] by (auto split: option.splits)
qed

theorem stp_changed_ports_reported_witness:
  "stp_reachable sample_stp \<and> (case stp_get_changed_port sample_stp of
      (None, s') \<Rightarrow> \<forall>i<STP_MAX_PORTS. \<not> sp_state_changed (port sample_stp i)
    | (Some i, s') \<Rightarrow> i < STP_MAX_PORTS \<and> sp_state_changed (port sample_stp i))"
  using stp_changed_ports_reported [OF sample_stp_reachable] sample_stp_reachable by (auto split: option.splits prod.splits)

end
