(* ===== verification/OF_Msg.thy ===== *)
theory OF_Msg
  imports Flow_Entry Flow_Extract
begin

text \<open>
  Layouts of the OpenFlow 1.0 messages of \<^verbatim>\<open>src/openflow/include/openflow/openflow.h\<close> that the agent
  and the datapath read and write. A message is the list of its bytes; a structure that the code
  overlays on a message is read from it field by field, in network byte order as in the source.
\<close>

section \<open>Headers\<close>

record ofp_header =
  oh_version :: u8
  oh_type :: u8
  oh_length :: u16
  oh_xid :: u32

definition ofp_header_of :: "u8 list \<Rightarrow> ofp_header" where
  "ofp_header_of m = \<lparr>oh_version = ld8 m 0, oh_type = ld8 m 1, oh_length = ld16 m 2, oh_xid = ld32 m 4\<rparr>"

definition ofp_header_bytes :: "ofp_header \<Rightarrow> u8 list" where
  "ofp_header_bytes h = [oh_version h, oh_type h] @ le16 (oh_length h) @ le32 (oh_xid h)"

text \<open>\<^verbatim>\<open>ntohs(header.length)\<close>.\<close>

definition msg_length :: "u8 list \<Rightarrow> nat" where
  "msg_length m = unat (ntohs (ld16 m 2))"

section \<open>Matches\<close>

definition ofp_match_at :: "u8 list \<Rightarrow> nat \<Rightarrow> ofp_match" where
  "ofp_match_at m i =
     \<lparr>om_wildcards = ld32 m i, om_in_port = ld16 m (i + 4), om_dl_src = ld_eth m (i + 6),
      om_dl_dst = ld_eth m (i + 12), om_dl_vlan = ld16 m (i + 18), om_dl_vlan_pcp = ld8 m (i + 20),
      om_pad1 = ld8 m (i + 21), om_dl_type = ld16 m (i + 22), om_nw_tos = ld8 m (i + 24),
      om_nw_proto = ld8 m (i + 25), om_pad2 = ld16 m (i + 26), om_nw_src = ld32 m (i + 28),
      om_nw_dst = ld32 m (i + 32), om_tp_src = ld16 m (i + 36), om_tp_dst = ld16 m (i + 38)\<rparr>"

definition eth_bytes :: "eth_addr \<Rightarrow> u8 list" where
  "eth_bytes a = [ucast (drop_bit 40 a), ucast (drop_bit 32 a), ucast (drop_bit 24 a),
     ucast (drop_bit 16 a), ucast (drop_bit 8 a), ucast a]"

definition ofp_match_bytes :: "ofp_match \<Rightarrow> u8 list" where
  "ofp_match_bytes m = le32 (om_wildcards m) @ le16 (om_in_port m) @ eth_bytes (om_dl_src m)
     @ eth_bytes (om_dl_dst m) @ le16 (om_dl_vlan m) @ [om_dl_vlan_pcp m, om_pad1 m]
     @ le16 (om_dl_type m) @ [om_nw_tos m, om_nw_proto m] @ le16 (om_pad2 m) @ le32 (om_nw_src m)
     @ le32 (om_nw_dst m) @ le16 (om_tp_src m) @ le16 (om_tp_dst m)"

section \<open>Flow modifications\<close>

record ofp_flow_mod =
  ofm_length :: nat
  ofm_match :: ofp_match
  ofm_cookie :: u64
  ofm_command :: u16
  ofm_idle_timeout :: u16
  ofm_hard_timeout :: u16
  ofm_priority :: u16
  ofm_buffer_id :: u32
  ofm_out_port :: u16
  ofm_flags :: u16
  ofm_actions :: "u8 list"

abbreviation OFPFC_ADD :: u16 where "OFPFC_ADD \<equiv> 0"
abbreviation OFPFC_MODIFY :: u16 where "OFPFC_MODIFY \<equiv> 1"
abbreviation OFPFC_MODIFY_STRICT :: u16 where "OFPFC_MODIFY_STRICT \<equiv> 2"
abbreviation OFPFC_DELETE :: u16 where "OFPFC_DELETE \<equiv> 3"
abbreviation OFPFC_DELETE_STRICT :: u16 where "OFPFC_DELETE_STRICT \<equiv> 4"

text \<open>
  \<open>ofm_length\<close> is \<^verbatim>\<open>ntohs(ofm->header.length)\<close> and \<open>ofm_actions\<close> the bytes from \<^verbatim>\<open>ofm->actions\<close> to that
  length; the other fields are in network byte order. \<open>None\<close>: the length is less than that of the
  structure, for which the code computes a wrapped length of the actions.
\<close>

definition ofp_flow_mod_of :: "u8 list \<Rightarrow> ofp_flow_mod option" where
  "ofp_flow_mod_of m =
     (if msg_length m < 72 then None
      else Some \<lparr>ofm_length = msg_length m, ofm_match = ofp_match_at m 8, ofm_cookie = ld64 m 48,
        ofm_command = ld16 m 56, ofm_idle_timeout = ld16 m 58, ofm_hard_timeout = ld16 m 60,
        ofm_priority = ld16 m 62, ofm_buffer_id = ld32 m 64, ofm_out_port = ld16 m 68,
        ofm_flags = ld16 m 70, ofm_actions = take (msg_length m - 72) (drop 72 m)\<rparr>)"

section \<open>Round trips\<close>

lemma ld8_append: "i = length xs \<Longrightarrow> ld8 (xs @ v # ys) i = v"
  by (simp add: ld8_def)

lemma ofp_header_roundtrip: "ofp_header_of (ofp_header_bytes h @ rest) = h"
proof -
  obtain v t l x where h: "h = \<lparr>oh_version = v, oh_type = t, oh_length = l, oh_xid = x\<rparr>" by (cases h)
  show ?thesis
    using ld8_append [of 0 "[]" v] ld8_append [of 1 "[v]" t] ld16_le16 [of 2 "[v, t]" l]
      ld32_le32 [of 4 "[v, t] @ le16 l" x rest]
    by (simp add: h ofp_header_of_def ofp_header_bytes_def)
qed

lemma length_eth_bytes [simp]: "length (eth_bytes a) = 6"
  by (simp add: eth_bytes_def)

lemma eth_of_bytes:
  fixes a :: eth_addr
  shows "push_bit 40 (ucast (ucast (drop_bit 40 a) :: u8)) OR push_bit 32 (ucast (ucast (drop_bit 32 a) :: u8))
    OR push_bit 24 (ucast (ucast (drop_bit 24 a) :: u8)) OR push_bit 16 (ucast (ucast (drop_bit 16 a) :: u8))
    OR push_bit 8 (ucast (ucast (drop_bit 8 a) :: u8)) OR ucast (ucast a :: u8) = a" (is "?l = a")
proof (rule bit_word_eqI)
  fix n assume n: "n < LENGTH(48)"
  then consider "n < 8" | "8 \<le> n" "n < 16" | "16 \<le> n" "n < 24" | "24 \<le> n" "n < 32" | "32 \<le> n" "n < 40" | "40 \<le> n"
    by linarith
  then show "bit ?l n = bit a n"
    using n by cases (simp_all add: bit_simps, auto)
qed

lemma ld_eth_bytes:
  assumes "i = length xs" shows "ld_eth (xs @ eth_bytes a @ ys) i = a"
proof -
  have n: "ld8 (xs @ eth_bytes a @ ys) (i + k) = eth_bytes a ! k" if "k < 6" for k
    using that assms by (simp add: ld8_def nth_append)
  have "ld8 (xs @ eth_bytes a @ ys) i = eth_bytes a ! 0" using n [of 0] by simp
  then show ?thesis
    using n [of 1] n [of 2] n [of 3] n [of 4] n [of 5] eth_of_bytes [of a]
    by (simp add: ld_eth_def) (simp add: eth_bytes_def)
qed

lemma length_ofp_match_bytes [simp]: "length (ofp_match_bytes m) = 40"
  by (simp add: ofp_match_bytes_def)

text \<open>A match written into a message is read back.\<close>

lemma ofp_match_roundtrip:
  assumes "i = length xs" shows "ofp_match_at (xs @ ofp_match_bytes m @ ys) i = m"
proof -
  obtain w p s d v c q t o' n r ns nd ts td where m: "m = \<lparr>om_wildcards = w, om_in_port = p, om_dl_src = s,
      om_dl_dst = d, om_dl_vlan = v, om_dl_vlan_pcp = c, om_pad1 = q, om_dl_type = t, om_nw_tos = o',
      om_nw_proto = n, om_pad2 = r, om_nw_src = ns, om_nw_dst = nd, om_tp_src = ts, om_tp_dst = td\<rparr>"
    by (cases m)
  let ?a = "xs @ le32 w" let ?b = "?a @ le16 p" let ?c = "?b @ eth_bytes s" let ?d = "?c @ eth_bytes d"
  let ?e = "?d @ le16 v" let ?f = "?e @ [c, q]" let ?g = "?f @ le16 t" let ?h = "?g @ [o', n]"
  let ?i = "?h @ le16 r" let ?j = "?i @ le32 ns" let ?k = "?j @ le32 nd" let ?l = "?k @ le16 ts"
  note f = ld32_le32 [of i xs w] ld16_le16 [of "i + 4" ?a p] ld_eth_bytes [of "i + 6" ?b s]
    ld_eth_bytes [of "i + 12" ?c d] ld16_le16 [of "i + 18" ?d v] ld8_append [of "i + 20" ?e c]
    ld8_append [of "i + 21" "?e @ [c]" q] ld16_le16 [of "i + 22" ?f t] ld8_append [of "i + 24" ?g o']
    ld8_append [of "i + 25" "?g @ [o']" n] ld16_le16 [of "i + 26" ?h r] ld32_le32 [of "i + 28" ?i ns]
    ld32_le32 [of "i + 32" ?j nd] ld16_le16 [of "i + 36" ?k ts] ld16_le16 [of "i + 38" ?l td]
  show ?thesis
    using f assms by (simp add: m ofp_match_at_def ofp_match_bytes_def)
qed

section \<open>Reading what was written\<close>

lemma ld8_plus: "ld8 (xs @ ys) (length xs + k) = ld8 ys k"
  by (simp add: ld8_def)

lemma ld16_plus: "ld16 (xs @ ys) (length xs + k) = ld16 ys k"
  using ld8_plus [of xs ys "k + 1"] by (simp add: ld16_def ld8_plus)

lemma ld32_plus: "ld32 (xs @ ys) (length xs + k) = ld32 ys k"
  using ld16_plus [of xs ys "k + 2"] by (simp add: ld32_def ld16_plus add.assoc)

lemma ld64_plus: "ld64 (xs @ ys) (length xs + k) = ld64 ys k"
  using ld32_plus [of xs ys "k + 4"] by (simp add: ld64_def ld32_plus add.assoc)

lemma ld_eth_plus: "ld_eth (xs @ ys) (length xs + k) = ld_eth ys k"
  using ld8_plus [of xs ys "Suc k"] ld8_plus [of xs ys "Suc (Suc k)"] by (simp add: ld_eth_def add.assoc ld8_plus)

lemma ld8_right: "length xs \<le> i \<Longrightarrow> ld8 (xs @ ys) i = ld8 ys (i - length xs)"
  using ld8_plus [of xs ys "i - length xs"] by simp

lemma ld16_right: "length xs \<le> i \<Longrightarrow> ld16 (xs @ ys) i = ld16 ys (i - length xs)"
  using ld16_plus [of xs ys "i - length xs"] by simp

lemma ld32_right: "length xs \<le> i \<Longrightarrow> ld32 (xs @ ys) i = ld32 ys (i - length xs)"
  using ld32_plus [of xs ys "i - length xs"] by simp

lemma ld64_right: "length xs \<le> i \<Longrightarrow> ld64 (xs @ ys) i = ld64 ys (i - length xs)"
  using ld64_plus [of xs ys "i - length xs"] by simp

lemmas ld_right = ld8_right ld16_right ld32_right ld64_right

lemma ld_first: "ld16 (le16 v @ ys) 0 = v" "ld32 (le32 w @ ys) 0 = w" "ld64 (le64 x @ ys) 0 = x" "ld16 (le16 v) 0 = v"
  using ld16_le16 [of 0 "[]" v ys] ld16_le16 [of 0 "[]" v "[]"] ld32_le32 [of 0 "[]" w ys] ld64_le64 [of 0 "[]" x ys] by simp_all

lemma match_first: "ofp_match_at (ofp_match_bytes m @ ys) 0 = m"
  using ofp_match_roundtrip [of 0 "[]" m ys] by simp

lemma match_plus: "ofp_match_at (xs @ ys) (length xs + k) = ofp_match_at ys k"
  by (simp add: ofp_match_at_def add.assoc ld8_plus ld16_plus ld32_plus ld_eth_plus)

lemma match_right: "length xs \<le> i \<Longrightarrow> ofp_match_at (xs @ ys) i = ofp_match_at ys (i - length xs)"
  using match_plus [of xs ys "i - length xs"] by simp

lemma header_fields:
  "ld8 (ofp_header_bytes h @ ys) 0 = oh_version h" "ld8 (ofp_header_bytes h @ ys) 1 = oh_type h"
  "ld16 (ofp_header_bytes h @ ys) 2 = oh_length h" "ld32 (ofp_header_bytes h @ ys) 4 = oh_xid h"
  using ofp_header_roundtrip [of h ys, THEN arg_cong, of oh_version] ofp_header_roundtrip [of h ys, THEN arg_cong, of oh_type]
    ofp_header_roundtrip [of h ys, THEN arg_cong, of oh_length] ofp_header_roundtrip [of h ys, THEN arg_cong, of oh_xid]
  by (simp_all add: ofp_header_of_def)

lemma st16_at: "i = length xs \<Longrightarrow> st16 (xs @ a # b # ys) i v = xs @ le16 v @ ys"
  by (simp add: st16_def st8_def le16_def list_update_append)

lemma st32_at: "i = length xs \<Longrightarrow> st32 (xs @ a # b # c # d # ys) i v = xs @ le32 v @ ys"
  using st16_at [of i xs a b "c # d # ys" "ucast v"] st16_at [of "i + 2" "xs @ le16 (ucast v)" c d ys "ucast (drop_bit 16 v)"]
  by (simp add: st32_def le32_def)

lemma le_zero: "le16 0 = [0, 0]" "le32 0 = [0, 0, 0, 0]" "le64 0 = [0, 0, 0, 0, 0, 0, 0, 0]"
  by (simp_all add: le16_def le32_def le64_def)

lemma length_header [simp]: "length (ofp_header_bytes h) = 8"
  by (simp add: ofp_header_bytes_def)

end
