(* ===== verification/Zyxel.thy ===== *)
theory Zyxel
  imports OF_Msg Actions
begin

text \<open>
  The driver of the Zyxel FSG2200HNU, \<^verbatim>\<open>src/openflow/udatapath/zyxel.c\<close>, with the structures of
  \<^verbatim>\<open>ofagent.h\<close> that it uses. \<^verbatim>\<open>short\<close> is a 16-bit word, compared through \<open>sint\<close>. The result of
  \<^verbatim>\<open>system\<close> is the parameter \<open>sys\<close>, a function of the command; the commands run are recorded.
  The result \<open>None\<close> is a read outside the memory of the actions.
\<close>

section \<open>Data\<close>

text \<open>\<open>in_actions\<close> is \<open>None\<close> once the actions have been freed.\<close>

record inserted_flow =
  in_match :: ofp_match
  in_actions :: "u8 list option"
  in_actions_len :: nat
  in_actions_num :: nat
  in_auxInd :: nat

record zyxel_service_params =
  zs_in_port :: u16
  zs_wan_address :: u32
  zs_wan_mask :: u32
  zs_vlan_tag :: u16
  zs_vlan_pcp :: u16
  zs_flow_counter :: u16

abbreviation MAX_SERVICES :: nat where "MAX_SERVICES \<equiv> 7"
abbreviation MAX_PORTS_NAMES :: nat where "MAX_PORTS_NAMES \<equiv> 50"

record zyxel_properties =
  zp_wildcards :: u32
  zp_supported_actions :: "u16 list"
  zp_created_services :: "zyxel_service_params list"
  zp_srv_counter :: u16
  zp_service_allocator_index :: u16
  zp_ports_cnt :: nat
  zp_hardware_ip :: string
  zp_port_number :: string
  zp_desc :: "string list"
  zp_commands :: "string list"

section \<open>Initialisation\<close>

text \<open>The next token of \<^verbatim>\<open>strtok_r(_, ":", _)\<close> and what is left after its delimiter.\<close>

definition strtok_colon :: "string \<Rightarrow> (string \<times> string) option" where
  "strtok_colon s =
     (let s = dropWhile (\<lambda>c. c = CHR '':'') s
      in if s = [] then None
         else Some (takeWhile (\<lambda>c. c \<noteq> CHR '':'') s, drop 1 (dropWhile (\<lambda>c. c \<noteq> CHR '':'') s)))"

text \<open>
  \<open>names\<close> is the table \<^verbatim>\<open>ports_names\<close>. The created services are left as they are. When the first
  call finds no token, the second continues at the end of the string and finds none either.
  \<open>zp_desc\<close> holds the descriptions \<^verbatim>\<open>mfr_desc\<close>, \<^verbatim>\<open>hw_desc\<close>, \<^verbatim>\<open>sw_desc\<close>, \<^verbatim>\<open>dp_desc\<close> and \<^verbatim>\<open>serial_num\<close>.
\<close>

definition zyxel_init :: "string list \<Rightarrow> zyxel_properties \<Rightarrow> zyxel_properties" where
  "zyxel_init names z =
     (let z = z\<lparr>zp_wildcards := 4294967292, zp_supported_actions := [OFPAT_OUTPUT, OFPAT_ENQUEUE],
                zp_desc := [''Zyxel'', ''FSG2200HNU'', ''Release X'', ''Active Ethernet Multiservice IAD'', []],
                zp_ports_cnt := (case find (\<lambda>i. names ! i = []) [1..<MAX_PORTS_NAMES] of
                                   Some i \<Rightarrow> i | None \<Rightarrow> MAX_PORTS_NAMES)\<rparr>
      in case strtok_colon (zp_hardware_ip z) of
           None \<Rightarrow> z
         | Some (ip, rest) \<Rightarrow>
             (let z = z\<lparr>zp_hardware_ip := ip\<rparr>
              in case strtok_colon rest of
                   None \<Rightarrow> z
                 | Some (num, _) \<Rightarrow> z\<lparr>zp_port_number := take 10 num\<rparr>))"

section \<open>Commands\<close>

definition digit_char :: "nat \<Rightarrow> char" where
  "digit_char d = ''0123456789'' ! (d mod 10)"

fun dec :: "nat \<Rightarrow> string" where
  "dec n = (if n < 10 then [digit_char n] else dec (n div 10) @ [digit_char n])"

declare dec.simps [simp del]

definition dec_int :: "int \<Rightarrow> string" where
  "dec_int i = (if i < 0 then ''-'' @ dec (nat (- i)) else dec (nat i))"

definition convert_ip_to_string :: "u32 \<Rightarrow> string" where
  "convert_ip_to_string ip =
     (let b = (\<lambda>k. dec (unat (drop_bit k ip AND 0xff)))
      in b 24 @ ''.'' @ b 16 @ ''.'' @ b 8 @ ''.'' @ b 0)"

text \<open>
  Both addresses of a command are the contents of the one buffer of \<^verbatim>\<open>inet_ntoa\<close> after both have
  been converted: \<open>mask_last\<close> says which conversion the compiler evaluates last.
\<close>

definition zyxel_command :: "bool \<Rightarrow> string \<Rightarrow> string \<Rightarrow> u32 \<Rightarrow> u32 \<Rightarrow> u16 \<Rightarrow> u16 \<Rightarrow> string" where
  "zyxel_command mask_last verb hardware_ip wan_address wan_mask vlan_tag vlan_pcp =
     (let buffer = convert_ip_to_string (if mask_last then wan_mask else wan_address)
      in take 99 (''./openflow/udatapath/zyxel_client.py '' @ verb @ '' -i '' @ buffer @ '' -m '' @ buffer
           @ '' -v '' @ dec_int (sint vlan_tag) @ '' -p '' @ dec_int (sint vlan_pcp)
           @ '' -s '' @ hardware_ip))"

definition zyxel_configure_service :: "bool \<Rightarrow> (string \<Rightarrow> int) \<Rightarrow> u32 \<Rightarrow> u32 \<Rightarrow> u16 \<Rightarrow> u16
    \<Rightarrow> zyxel_properties \<Rightarrow> int \<times> zyxel_properties" where
  "zyxel_configure_service ml sys wan_address wan_mask vlan_tag vlan_pcp z =
     (let c = zyxel_command ml ''setwan'' (zp_hardware_ip z) wan_address wan_mask vlan_tag vlan_pcp
      in (sys c, z\<lparr>zp_commands := zp_commands z @ [c]\<rparr>))"

definition zyxel_unconfigure_service :: "bool \<Rightarrow> (string \<Rightarrow> int) \<Rightarrow> u32 \<Rightarrow> u32 \<Rightarrow> u16 \<Rightarrow> u16
    \<Rightarrow> zyxel_properties \<Rightarrow> int \<times> zyxel_properties" where
  "zyxel_unconfigure_service ml sys wan_address wan_mask vlan_tag vlan_pcp z =
     (let c = zyxel_command ml ''delwan'' (zp_hardware_ip z) wan_address wan_mask vlan_tag vlan_pcp
      in (sys c, z\<lparr>zp_commands := zp_commands z @ [c]\<rparr>))"

section \<open>Services\<close>

text \<open>
  The loop of \<^verbatim>\<open>output_conf_zyxel\<close> over \<^verbatim>\<open>infl->actions[i]\<close>, elements of eight bytes whatever the lengths
  of the actions: the output port, VLAN tag and priority after the elements \<open>i\<close> to \<open>auxInd\<close>.
\<close>

fun scan_actions :: "u8 list \<Rightarrow> nat \<Rightarrow> nat \<Rightarrow> u16 \<times> u16 \<times> u16 \<Rightarrow> (u16 \<times> u16 \<times> u16) option" where
  "scan_actions acts i 0 r = Some r"
| "scan_actions acts i (Suc n) (out_port, vlan_tag, vlan_pcp) =
     (if length acts < 8 * i + 8 then None
      else
        (let type = ntohs (ld16 acts (8 * i))
         in scan_actions acts (i + 1) n
              (if type = OFPAT_OUTPUT then (ntohs (ld16 acts (8 * i + 4)), vlan_tag, vlan_pcp)
               else if type = OFPAT_SET_VLAN_VID then (out_port, ntohs (ld16 acts (8 * i + 4)), vlan_pcp)
               else if type = OFPAT_SET_VLAN_PCP then (out_port, vlan_tag, ucast (ld8 acts (8 * i + 4)))
               else (out_port, vlan_tag, vlan_pcp))))"

definition wan_address_of :: "inserted_flow \<Rightarrow> u32" where
  "wan_address_of infl =
     (let a = ntohl (om_nw_src (in_match infl))
      in if a = 0 then ntohl (om_nw_dst (in_match infl)) else a)"

text \<open>The comparison of the unsigned \<^verbatim>\<open>vlan_tag\<close> with the \<^verbatim>\<open>short\<close> of a service is one of \<^verbatim>\<open>int\<close>s.\<close>

definition same_service :: "u32 \<Rightarrow> u16 \<Rightarrow> zyxel_service_params \<Rightarrow> bool" where
  "same_service wan_address vlan_tag s \<longleftrightarrow>
     wan_address = zs_wan_address s \<and> uint vlan_tag = sint (zs_vlan_tag s)"

definition output_conf_zyxel :: "bool \<Rightarrow> (string \<Rightarrow> int) \<Rightarrow> inserted_flow \<Rightarrow> zyxel_properties
    \<Rightarrow> (int \<times> zyxel_properties) option" where
  "output_conf_zyxel ml sys infl z =
     (case in_actions infl of
        None \<Rightarrow> None
      | Some acts \<Rightarrow>
          (case scan_actions acts 0 (in_auxInd infl + 1)
                  (0, ntohs (om_dl_vlan (in_match infl)), ucast (om_dl_vlan_pcp (in_match infl))) of
             None \<Rightarrow> None
           | Some (out_port, vlan_tag, vlan_pcp) \<Rightarrow>
               (let in_port = ntohs (om_in_port (in_match infl));
                    wan_address = wan_address_of infl; wan_mask = 0;
                    n = zp_service_allocator_index z
                in if om_dl_type (in_match infl) = ntohs ETH_TYPE_ARP then Some (- 1, z)
                   else if in_port = 0 \<or> out_port = 0 then Some (- 1, z)
                   else if vlan_tag = 0 then Some (- 1, z)
                   else if sint n > int MAX_SERVICES - 1 then Some (- 1, z)
                   else
                     (case find (\<lambda>i. same_service wan_address vlan_tag (zp_created_services z ! i)) [0..<unat n] of
                        None \<Rightarrow>
                          (let (ret, z) = zyxel_configure_service ml sys wan_address wan_mask vlan_tag vlan_pcp z
                           in if ret < 0 then Some (- 1, z)
                              else
                                (let s = zp_created_services z ! unat n;
                                     s = s\<lparr>zs_in_port := in_port, zs_flow_counter := zs_flow_counter s + 1,
                                           zs_wan_address := wan_address, zs_wan_mask := wan_mask,
                                           zs_vlan_tag := vlan_tag, zs_vlan_pcp := vlan_pcp\<rparr>
                                 in Some (0, z\<lparr>zp_created_services := (zp_created_services z)[unat n := s],
                                              zp_srv_counter := zp_srv_counter z + 1,
                                              zp_service_allocator_index := n + 1\<rparr>)))
                      | Some i \<Rightarrow>
                          (let s = zp_created_services z ! i
                           in Some (0, z\<lparr>zp_created_services := (zp_created_services z)
                                          [i := s\<lparr>zs_flow_counter := zs_flow_counter s + 1\<rparr>]\<rparr>))))))"

text \<open>The value returned is not used; the function ends without returning one when it gets that far.\<close>

definition output_unconf_zyxel :: "bool \<Rightarrow> (string \<Rightarrow> int) \<Rightarrow> inserted_flow \<Rightarrow> zyxel_properties
    \<Rightarrow> zyxel_properties" where
  "output_unconf_zyxel ml sys infl z =
     (let wan_address = wan_address_of infl; wan_mask = 0
      in if om_dl_type (in_match infl) = ntohs ETH_TYPE_ARP then z
         else
           (case find (\<lambda>i. wan_address = zs_wan_address (zp_created_services z ! i)
                          \<and> wan_mask = zs_wan_mask (zp_created_services z ! i)) [0..<MAX_SERVICES] of
              None \<Rightarrow> z
            | Some i \<Rightarrow>
                (let s = zp_created_services z ! i
                 in if sint (zs_flow_counter s) > 1 then
                      z\<lparr>zp_created_services := (zp_created_services z)
                          [i := s\<lparr>zs_flow_counter := zs_flow_counter s - 1\<rparr>]\<rparr>
                    else
                      (let z = snd (zyxel_unconfigure_service ml sys wan_address wan_mask
                                      (zs_vlan_tag s) (zs_vlan_pcp s) z)
                       in z\<lparr>zp_created_services := (zp_created_services z)
                              [i := s\<lparr>zs_wan_address := 0, zs_wan_mask := 0, zs_in_port := 0,
                                      zs_vlan_tag := 0, zs_flow_counter := 0\<rparr>],
                            zp_srv_counter := zp_srv_counter z - 1\<rparr>))))"

section \<open>Invariant\<close>

text \<open>
  The slots behind the allocator index are blank, a slot in use has a VLAN tag, a slot that is not in
  use no address, and the counter of services is the number of slots in use.
\<close>

definition slot_used :: "zyxel_service_params \<Rightarrow> bool" where
  "slot_used s \<longleftrightarrow> zs_in_port s \<noteq> 0"

definition slot_ok :: "zyxel_service_params \<Rightarrow> bool" where
  "slot_ok s \<longleftrightarrow> zs_wan_mask s = 0 \<and> (slot_used s \<longrightarrow> zs_vlan_tag s \<noteq> 0)
     \<and> (\<not> slot_used s \<longrightarrow> zs_wan_address s = 0 \<and> zs_vlan_tag s = 0 \<and> zs_flow_counter s = 0)"

definition zyxel_inv :: "zyxel_properties \<Rightarrow> bool" where
  "zyxel_inv z \<longleftrightarrow> length (zp_created_services z) = MAX_SERVICES
     \<and> unat (zp_service_allocator_index z) \<le> MAX_SERVICES
     \<and> (\<forall>s\<in>set (zp_created_services z). slot_ok s)
     \<and> (\<forall>i<MAX_SERVICES. unat (zp_service_allocator_index z) \<le> i \<longrightarrow> \<not> slot_used (zp_created_services z ! i))
     \<and> unat (zp_srv_counter z) = length (filter slot_used (zp_created_services z))"

lemma zyxel_invD:
  assumes "zyxel_inv z"
  shows "length (zp_created_services z) = MAX_SERVICES" "unat (zp_service_allocator_index z) \<le> MAX_SERVICES"
    "\<And>i. i < MAX_SERVICES \<Longrightarrow> slot_ok (zp_created_services z ! i)"
    "\<And>i. i < MAX_SERVICES \<Longrightarrow> unat (zp_service_allocator_index z) \<le> i \<Longrightarrow> \<not> slot_used (zp_created_services z ! i)"
    "unat (zp_srv_counter z) = length (filter slot_used (zp_created_services z))"
  using assms by (auto simp: zyxel_inv_def)

lemma zyxel_inv_commands [simp]: "zyxel_inv (z\<lparr>zp_commands := c\<rparr>) = zyxel_inv z"
  by (simp add: zyxel_inv_def)

lemma small_u16:
  assumes "unat (n :: u16) \<le> 7" "sint n \<le> 6" shows "unat n < 7"
proof (rule ccontr)
  assume "\<not> unat n < 7"
  then have "unat n = 7" using assms(1) by simp
  then have "n = 7" using word_unat_eq_iff [of n 7] by simp
  then show False using assms(2) by simp
qed

text \<open>An update of one slot that is in use if and only if the counter says so.\<close>

lemma zyxel_inv_slot:
  assumes inv: "zyxel_inv z" and i: "i < unat n" "unat n \<le> MAX_SERVICES"
    and n: "unat (zp_service_allocator_index z) \<le> unat n" and s: "slot_ok s"
    and c: "unat c + (if slot_used (zp_created_services z ! i) then 1 else 0)
      = unat (zp_srv_counter z) + (if slot_used s then 1 else 0)"
  shows "zyxel_inv (z\<lparr>zp_created_services := (zp_created_services z)[i := s], zp_srv_counter := c,
    zp_service_allocator_index := n\<rparr>)"
proof -
  note d = zyxel_invD [OF inv]
  have "\<forall>x\<in>set ((zp_created_services z)[i := s]). slot_ok x"
    using s inv set_update_subset_insert [of "zp_created_services z" i s] by (auto simp: zyxel_inv_def)
  moreover have "\<not> slot_used ((zp_created_services z)[i := s] ! k)" if "k < MAX_SERVICES" "unat n \<le> k" for k
    using that(1) d(4) [of k] le_trans [OF n that(2)] less_le_trans [OF i(1) that(2)] by simp
  moreover have "unat c = length (filter slot_used ((zp_created_services z)[i := s]))"
    using length_filter_update [of i "zp_created_services z" slot_used s] less_le_trans [OF i] c
    unfolding d(1,5) by simp
  ultimately show ?thesis using d(1) i(2) by (simp add: zyxel_inv_def)
qed

text \<open>The cases of \<^verbatim>\<open>output_conf_zyxel\<close>.\<close>

lemma conf_cases [consumes 1, case_names skipped failed created counted]:
  assumes "output_conf_zyxel ml sys infl z = Some (r, z')"
  obtains "r = - 1" "z' = z"
  | c where "r = - 1" "z' = z\<lparr>zp_commands := c\<rparr>"
  | c p v q where "r = 0" "p \<noteq> 0" "v \<noteq> 0" "sint (zp_service_allocator_index z) \<le> int MAX_SERVICES - 1"
      "\<forall>i<unat (zp_service_allocator_index z). \<not> same_service (wan_address_of infl) v (zp_created_services z ! i)"
      "z' = z\<lparr>zp_commands := c, zp_created_services := (zp_created_services z)[unat (zp_service_allocator_index z) :=
           (zp_created_services z ! unat (zp_service_allocator_index z))\<lparr>zs_in_port := p,
              zs_flow_counter := zs_flow_counter (zp_created_services z ! unat (zp_service_allocator_index z)) + 1,
              zs_wan_address := wan_address_of infl, zs_wan_mask := 0, zs_vlan_tag := v, zs_vlan_pcp := q\<rparr>],
         zp_srv_counter := zp_srv_counter z + 1, zp_service_allocator_index := zp_service_allocator_index z + 1\<rparr>"
  | i v where "r = 0" "v \<noteq> 0" "i < unat (zp_service_allocator_index z)"
      "sint (zp_service_allocator_index z) \<le> int MAX_SERVICES - 1"
      "same_service (wan_address_of infl) v (zp_created_services z ! i)"
      "z' = z\<lparr>zp_created_services := (zp_created_services z)[i := (zp_created_services z ! i)
          \<lparr>zs_flow_counter := zs_flow_counter (zp_created_services z ! i) + 1\<rparr>]\<rparr>"
proof -
  from assms obtain acts where a: "in_actions infl = Some acts"
    by (auto simp: output_conf_zyxel_def split: option.splits)
  obtain out_port v q where sc: "scan_actions acts 0 (in_auxInd infl + 1)
      (0, ntohs (om_dl_vlan (in_match infl)), ucast (om_dl_vlan_pcp (in_match infl))) = Some (out_port, v, q)"
    using assms a by (auto simp: output_conf_zyxel_def simp del: scan_actions.simps split: option.splits)
  let ?n = "zp_service_allocator_index z"
  let ?p = "ntohs (om_in_port (in_match infl))"
  define bad where "bad \<longleftrightarrow> om_dl_type (in_match infl) = ntohs ETH_TYPE_ARP \<or> ?p = 0 \<or> out_port = 0 \<or> v = 0
    \<or> sint ?n > int MAX_SERVICES - 1"
  show thesis
  proof (cases bad)
    case True
    then have "r = - 1" "z' = z"
      using assms a sc by (auto simp: output_conf_zyxel_def Let_def bad_def simp del: scan_actions.simps split: if_splits)
    then show thesis by (rule that(1))
  next
    case False
    then have g: "om_dl_type (in_match infl) \<noteq> ntohs ETH_TYPE_ARP" "?p \<noteq> 0" "out_port \<noteq> 0" "v \<noteq> 0"
      "\<not> sint ?n > int MAX_SERVICES - 1" by (auto simp: bad_def)
    show thesis
    proof (cases "find (\<lambda>i. same_service (wan_address_of infl) v (zp_created_services z ! i)) [0..<unat ?n]")
      case None
      define c where "c = zyxel_command ml ''setwan'' (zp_hardware_ip z) (wan_address_of infl) 0 v q"
      show thesis
      proof (cases "sys c < 0")
        case True
        then have "r = - 1" "z' = z\<lparr>zp_commands := zp_commands z @ [c]\<rparr>"
          using assms a sc g None
          by (simp_all add: output_conf_zyxel_def Let_def zyxel_configure_service_def c_def del: scan_actions.simps)
        then show thesis by (rule that(2))
      next
        case False
        have "\<forall>i<unat ?n. \<not> same_service (wan_address_of infl) v (zp_created_services z ! i)"
          using None by (auto simp: find_None_iff)
        then show thesis
          using assms a sc g None False
          by (intro that(3) [where p = ?p and v = v and q = q and c = "zp_commands z @ [c]"])
            (simp_all add: output_conf_zyxel_def Let_def zyxel_configure_service_def c_def del: scan_actions.simps)
      qed
    next
      case (Some i)
      then show thesis
        using assms a sc g Some [unfolded find_upt_Some]
        by (intro that(4) [where i = i and v = v])
          (simp_all add: output_conf_zyxel_def Let_def del: scan_actions.simps)
    qed
  qed
qed

lemma same_service_tag: "same_service a v s \<Longrightarrow> v \<noteq> 0 \<Longrightarrow> zs_vlan_tag s \<noteq> 0"
  by (auto simp: same_service_def unsigned_eq_0_iff)

lemma conf_inv:
  assumes inv: "zyxel_inv z" and c: "output_conf_zyxel ml sys infl z = Some (r, z')"
  shows "zyxel_inv z'"
  using c
proof (cases rule: conf_cases)
  case (created c p v q)
  note d = zyxel_invD [OF inv]
  let ?n = "zp_service_allocator_index z"
  have n: "unat ?n < MAX_SERVICES" using created(4) by (intro small_u16 [OF d(2)]) simp
  then have n1: "unat (?n + 1) = unat ?n + 1" by (simp add: unat_word_ariths)
  have "unat (zp_srv_counter z) \<le> MAX_SERVICES"
    using d(1,5) length_filter_le [of slot_used "zp_created_services z"] by simp
  then have c1: "unat (zp_srv_counter z + 1) = unat (zp_srv_counter z) + 1" by (simp add: unat_word_ariths)
  have off: "\<not> slot_used (zp_created_services z ! unat ?n)" using d(4) n by simp
  have "zyxel_inv (z\<lparr>zp_created_services := (zp_created_services z)[unat ?n :=
       (zp_created_services z ! unat ?n)\<lparr>zs_in_port := p, zs_flow_counter := zs_flow_counter (zp_created_services z ! unat ?n) + 1,
        zs_wan_address := wan_address_of infl, zs_wan_mask := 0, zs_vlan_tag := v, zs_vlan_pcp := q\<rparr>],
     zp_srv_counter := zp_srv_counter z + 1, zp_service_allocator_index := ?n + 1\<rparr>)"
    using n n1 c1 off created(2,3) by (intro zyxel_inv_slot [OF inv]) (auto simp: slot_ok_def slot_used_def)
  then show ?thesis unfolding created(6) by (simp add: zyxel_inv_def)
next
  case (counted i v)
  note d = zyxel_invD [OF inv]
  have i: "i < MAX_SERVICES" using counted(3) d(2) by simp
  have sl: "slot_ok (zp_created_services z ! i)" by (rule d(3) [OF i])
  have "zs_vlan_tag (zp_created_services z ! i) \<noteq> 0" by (rule same_service_tag [OF counted(5,2)])
  then have u: "slot_used (zp_created_services z ! i)" using sl by (auto simp: slot_ok_def)
  have "zyxel_inv (z\<lparr>zp_created_services := (zp_created_services z)[i := (zp_created_services z ! i)
      \<lparr>zs_flow_counter := zs_flow_counter (zp_created_services z ! i) + 1\<rparr>],
     zp_srv_counter := zp_srv_counter z, zp_service_allocator_index := zp_service_allocator_index z\<rparr>)"
    using counted(3) d(2) sl u by (intro zyxel_inv_slot [OF inv]) (auto simp: slot_ok_def slot_used_def)
  then show ?thesis unfolding counted(6) by (simp add: zyxel_inv_def)
qed (use inv in simp_all)

lemma unconf_inv:
  assumes inv: "zyxel_inv z" and a: "wan_address_of infl \<noteq> 0"
  shows "zyxel_inv (output_unconf_zyxel ml sys infl z)"
proof (cases "om_dl_type (in_match infl) = ntohs ETH_TYPE_ARP
    \<or> find (\<lambda>i. wan_address_of infl = zs_wan_address (zp_created_services z ! i)
          \<and> 0 = zs_wan_mask (zp_created_services z ! i)) [0..<MAX_SERVICES] = None")
  case True
  then show ?thesis using inv by (auto simp: output_unconf_zyxel_def Let_def)
next
  case False
  then obtain i where arp: "om_dl_type (in_match infl) \<noteq> ntohs ETH_TYPE_ARP"
    and f: "find (\<lambda>i. wan_address_of infl = zs_wan_address (zp_created_services z ! i)
          \<and> 0 = zs_wan_mask (zp_created_services z ! i)) [0..<MAX_SERVICES] = Some i" by auto
  note d = zyxel_invD [OF inv]
  let ?s = "zp_created_services z ! i" and ?n = "zp_service_allocator_index z"
  have i: "i < MAX_SERVICES" "wan_address_of infl = zs_wan_address ?s" using f unfolding find_upt_Some by auto
  have sl: "slot_ok ?s" by (rule d(3) [OF i(1)])
  then have u: "slot_used ?s" using a i(2) by (auto simp: slot_ok_def)
  then have n: "i < unat ?n" using d(4) i(1) not_le by blast
  show ?thesis
  proof (cases "sint (zs_flow_counter ?s) > 1")
    case True
    have "zyxel_inv (z\<lparr>zp_created_services := (zp_created_services z)[i := ?s\<lparr>zs_flow_counter := zs_flow_counter ?s - 1\<rparr>],
        zp_srv_counter := zp_srv_counter z, zp_service_allocator_index := ?n\<rparr>)"
      using n d(2) sl u by (intro zyxel_inv_slot [OF inv]) (auto simp: slot_ok_def slot_used_def)
    then show ?thesis using True arp f by (simp add: output_unconf_zyxel_def Let_def zyxel_inv_def)
  next
    case False
    have m: "?s \<in> set (filter slot_used (zp_created_services z))" using u i(1) d(1) by simp
    have "0 < unat (zp_srv_counter z)" unfolding d(5) by (rule length_pos_if_in_set [OF m])
    then have c: "unat (zp_srv_counter z - 1) = unat (zp_srv_counter z) - 1" "0 < unat (zp_srv_counter z)"
      using unat_sub [of 1 "zp_srv_counter z"] by (simp_all add: word_le_nat_alt)
    let ?v = "?s\<lparr>zs_wan_address := 0, zs_wan_mask := 0, zs_in_port := 0, zs_vlan_tag := 0, zs_flow_counter := 0\<rparr>"
    have "zyxel_inv (z\<lparr>zp_created_services := (zp_created_services z)[i := ?v],
        zp_srv_counter := zp_srv_counter z - 1, zp_service_allocator_index := ?n\<rparr>)"
      using n d(2) u c by (intro zyxel_inv_slot [OF inv]) (auto simp: slot_ok_def slot_used_def)
    then show ?thesis
      using False arp f by (simp add: output_unconf_zyxel_def zyxel_unconfigure_service_def Let_def zyxel_inv_def)
  qed
qed

section \<open>Properties\<close>

text \<open>
  \<^verbatim>\<open>output_conf_zyxel\<close> and, for a flow with an address, \<^verbatim>\<open>output_unconf_zyxel\<close> keep the table of
  services consistent: its counter is the number of slots in use, slots that are not in use are
  blank, and no slot behind the allocator index is in use.
\<close>

theorem zyxel_services_consistent:
  assumes "zyxel_inv z"
  shows "(output_conf_zyxel ml sys infl z = Some (r, z') \<longrightarrow> zyxel_inv z')
    \<and> (wan_address_of infl \<noteq> 0 \<longrightarrow> zyxel_inv (output_unconf_zyxel ml sys infl z))"
  using assms conf_inv unconf_inv by blast

text \<open>
  \<^verbatim>\<open>output_conf_zyxel\<close> either returns 0, having added one to the number of flows of exactly one
  service, that of the address of the flow, which it creates if there was none; or returns -1,
  having changed no service.
\<close>

theorem zyxel_conf_all_or_nothing:
  assumes "zyxel_inv z" "output_conf_zyxel ml sys infl z = Some (r, z')"
  shows "r = - 1 \<and> zp_created_services z' = zp_created_services z \<and> zp_srv_counter z' = zp_srv_counter z
      \<and> zp_service_allocator_index z' = zp_service_allocator_index z
    \<or> r = 0 \<and> (\<exists>i<MAX_SERVICES.
        slot_used (zp_created_services z' ! i) \<and> zs_wan_address (zp_created_services z' ! i) = wan_address_of infl
        \<and> zs_flow_counter (zp_created_services z' ! i) = zs_flow_counter (zp_created_services z ! i) + 1
        \<and> (\<forall>k<MAX_SERVICES. k \<noteq> i \<longrightarrow> zp_created_services z' ! k = zp_created_services z ! k)
        \<and> (if slot_used (zp_created_services z ! i) then zp_srv_counter z' = zp_srv_counter z
           else zp_srv_counter z' = zp_srv_counter z + 1))"
  using assms(2)
proof (cases rule: conf_cases)
  case (created c p v q)
  note d = zyxel_invD [OF assms(1)]
  let ?n = "zp_service_allocator_index z"
  have n: "unat ?n < MAX_SERVICES" using created(4) by (intro small_u16 [OF d(2)]) simp
  then show ?thesis
    using created(1,2) d(1) d(4) [OF n order_refl] unfolding created(6)
    by (intro disjI2 conjI exI [of _ "unat ?n"]) (simp_all add: slot_used_def)
next
  case (counted i v)
  note d = zyxel_invD [OF assms(1)]
  have i: "i < MAX_SERVICES" using counted(3) d(2) by simp
  have "zs_vlan_tag (zp_created_services z ! i) \<noteq> 0" by (rule same_service_tag [OF counted(5,2)])
  then have "slot_used (zp_created_services z ! i)" using d(3) [OF i] by (auto simp: slot_ok_def)
  then show ?thesis
    using counted(1,5) d(1) i unfolding counted(6)
    by (intro disjI2 conjI exI [of _ i]) (simp_all add: slot_used_def same_service_def)
qed simp_all

text \<open>
  A service created for a flow and removed with it leaves the services in use as they were, but its
  slot is not used again: the allocator index has advanced for good.
\<close>

theorem zyxel_unconf_undoes_conf:
  assumes inv: "zyxel_inv z" and a: "wan_address_of infl \<noteq> 0"
    and new: "\<forall>i<MAX_SERVICES. zs_wan_address (zp_created_services z ! i) \<noteq> wan_address_of infl"
    and c: "output_conf_zyxel ml sys infl z = Some (0, z')"
    and t: "om_dl_type (in_match infl) \<noteq> ntohs ETH_TYPE_ARP"
  shows "zp_srv_counter (output_unconf_zyxel ml sys infl z') = zp_srv_counter z
    \<and> filter slot_used (zp_created_services (output_unconf_zyxel ml sys infl z')) = filter slot_used (zp_created_services z)
    \<and> zp_service_allocator_index (output_unconf_zyxel ml sys infl z') = zp_service_allocator_index z + 1"
  using c
proof (cases rule: conf_cases)
  case (created cs p v q)
  note d = zyxel_invD [OF inv]
  let ?n = "unat (zp_service_allocator_index z)" and ?S = "zp_created_services z"
  have n: "?n < MAX_SERVICES" using created(4) by (intro small_u16 [OF d(2)]) simp
  have off: "\<not> slot_used (?S ! ?n)" using d(4) n by simp
  then have fc: "zs_flow_counter (?S ! ?n) = 0" using d(3) [OF n] by (auto simp: slot_ok_def)
  let ?s = "(?S ! ?n)\<lparr>zs_in_port := p, zs_flow_counter := zs_flow_counter (?S ! ?n) + 1,
      zs_wan_address := wan_address_of infl, zs_wan_mask := 0, zs_vlan_tag := v, zs_vlan_pcp := q\<rparr>"
  have S': "zp_created_services z' = ?S[?n := ?s]" unfolding created(6) by simp
  have f: "find (\<lambda>i. wan_address_of infl = zs_wan_address (zp_created_services z' ! i)
          \<and> 0 = zs_wan_mask (zp_created_services z' ! i)) [0..<MAX_SERVICES] = Some ?n"
  proof -
    have lt: "\<not> (wan_address_of infl = zs_wan_address (zp_created_services z' ! j)
        \<and> 0 = zs_wan_mask (zp_created_services z' ! j))" if "j < ?n" for j
    proof -
      have "zs_wan_address (?S ! j) \<noteq> wan_address_of infl" using new n that by simp
      then show ?thesis using that by (simp add: S')
    qed
    have "zp_created_services z' ! ?n = ?s" using n d(1) by (simp add: S')
    then show ?thesis unfolding find_upt_Some using n lt by simp
  qed
  let ?w = "?s\<lparr>zs_wan_address := 0, zs_wan_mask := 0, zs_in_port := 0, zs_vlan_tag := 0, zs_flow_counter := 0\<rparr>"
  have sl: "zp_created_services z' ! ?n = ?s" using n d(1) by (simp add: S')
  have U: "zp_created_services (output_unconf_zyxel ml sys infl z') = ?S[?n := ?w]"
    "zp_srv_counter (output_unconf_zyxel ml sys infl z') = zp_srv_counter z' - 1"
    "zp_service_allocator_index (output_unconf_zyxel ml sys infl z') = zp_service_allocator_index z'"
    using t f sl fc by (simp_all add: output_unconf_zyxel_def Let_def zyxel_unconfigure_service_def S')
  have sp: "?S = take ?n ?S @ ?S ! ?n # drop (Suc ?n) ?S" using n d(1) by (intro id_take_nth_drop) simp
  have "filter slot_used (?S[?n := ?w]) = filter slot_used (take ?n ?S) @ filter slot_used (drop (Suc ?n) ?S)"
    using n d(1) by (simp add: upd_conv_take_nth_drop slot_used_def)
  also have "\<dots> = filter slot_used ?S" using off by (subst (3) sp) simp
  finally show ?thesis unfolding U using created(6) by simp
next
  case (counted i v)
  then have "i < MAX_SERVICES" using zyxel_invD(2) [OF inv] by simp
  then have False using new counted(5) by (auto simp: same_service_def)
  then show ?thesis ..
qed simp_all

text \<open>
  Both addresses in a command are the same, since \<^verbatim>\<open>inet_ntoa\<close> returns its one static buffer: the
  mask is never passed.
\<close>

theorem zyxel_command_one_address:
  "\<exists>a. zyxel_command ml verb ip wan_address wan_mask tag pcp =
     take 99 (''./openflow/udatapath/zyxel_client.py '' @ verb @ '' -i '' @ convert_ip_to_string a @ '' -m ''
       @ convert_ip_to_string a @ '' -v '' @ dec_int (sint tag) @ '' -p '' @ dec_int (sint pcp) @ '' -s '' @ ip)
   \<and> a \<in> {wan_address, wan_mask}"
  unfolding zyxel_command_def Let_def by (cases ml) auto

text \<open>
  Removing a flow without addresses matches a blank slot: the counter of services of an empty
  table becomes -1.
\<close>

theorem zyxel_unconf_blank_slot:
  assumes "zyxel_inv z" "\<forall>i<MAX_SERVICES. \<not> slot_used (zp_created_services z ! i)"
    and "wan_address_of infl = 0" "om_dl_type (in_match infl) \<noteq> ntohs ETH_TYPE_ARP"
  shows "sint (zp_srv_counter (output_unconf_zyxel ml sys infl z)) = - 1"
proof -
  note d = zyxel_invD [OF assms(1)]
  have s: "zs_wan_address (zp_created_services z ! 0) = 0" "zs_wan_mask (zp_created_services z ! 0) = 0"
    "zs_flow_counter (zp_created_services z ! 0) = 0"
    using d(3) [of 0] assms(2) by (auto simp: slot_ok_def)
  have f: "find (\<lambda>i. wan_address_of infl = zs_wan_address (zp_created_services z ! i)
          \<and> 0 = zs_wan_mask (zp_created_services z ! i)) [0..<MAX_SERVICES] = Some 0"
    unfolding find_upt_Some using s assms(3) by simp
  have "filter slot_used (zp_created_services z) = []"
    using assms(2) d(1) by (auto simp: filter_empty_conv in_set_conv_nth)
  then have "unat (zp_srv_counter z) = 0" using d(5) by simp
  then have "zp_srv_counter z = 0" by (simp add: unat_eq_zero)
  then show ?thesis using assms(4) f s by (simp add: output_unconf_zyxel_def Let_def zyxel_unconfigure_service_def)
qed

text \<open>A flow without VLAN (tag 0xffff) never finds its service: the comparison with a negative short fails.\<close>

theorem zyxel_untagged_service_not_found:
  "sint (zs_vlan_tag s) < 0 \<Longrightarrow> \<not> same_service a v s"
  unfolding same_service_def using uint_ge_0 [of v] by linarith

section \<open>Witnesses\<close>

definition blank_slot :: zyxel_service_params where
  "blank_slot = \<lparr>zs_in_port = 0, zs_wan_address = 0, zs_wan_mask = 0, zs_vlan_tag = 0, zs_vlan_pcp = 0, zs_flow_counter = 0\<rparr>"

definition sample_zyxel :: zyxel_properties where
  "sample_zyxel = \<lparr>zp_wildcards = 4294967292, zp_supported_actions = [0, 11],
     zp_created_services = replicate 7 blank_slot, zp_srv_counter = 0, zp_service_allocator_index = 0,
     zp_ports_cnt = 5, zp_hardware_ip = ''10.0.0.1'', zp_port_number = '''', zp_desc = [], zp_commands = []\<rparr>"

definition sample_infl :: inserted_flow where
  "sample_infl = \<lparr>in_match = \<lparr>om_wildcards = 0, om_in_port = htons 1, om_dl_src = 0, om_dl_dst = 0,
     om_dl_vlan = htons 100, om_dl_vlan_pcp = 0, om_pad1 = 0, om_dl_type = htons 0x800, om_nw_tos = 0,
     om_nw_proto = 0, om_pad2 = 0, om_nw_src = htonl 0x0a000001, om_nw_dst = 0, om_tp_src = 0, om_tp_dst = 0\<rparr>,
     in_actions = Some [0, 0, 0, 8, 0, 3, 0, 0], in_actions_len = 8, in_actions_num = 1, in_auxInd = 0\<rparr>"

lemma sample_zyxel_inv: "zyxel_inv sample_zyxel"
  by (simp add: zyxel_inv_def sample_zyxel_def blank_slot_def slot_ok_def slot_used_def)

lemma sample_conf: "\<exists>z'. output_conf_zyxel False (\<lambda>_. 0) sample_infl sample_zyxel = Some (0, z')"
proof -
  have "htons 100 \<noteq> (0 :: u16)" "htons 1 \<noteq> (0 :: u16)" "htons 0x800 \<noteq> htons ETH_TYPE_ARP"
    using htons_eq_iff [of 100 0] htons_eq_iff [of 1 0] by simp_all
  moreover have "ntohs (ld16 [0, 0, 0, 8, 0, 3, 0, 0] 4) = 3" "ntohs (ld16 [0, 0, 0, 8, 0, 3, 0, 0] 0) = 0" by code_simp+
  ultimately show ?thesis
    by (simp add: output_conf_zyxel_def sample_infl_def sample_zyxel_def zyxel_configure_service_def Let_def)
qed

theorem zyxel_services_consistent_witness:
  "zyxel_inv sample_zyxel \<and> wan_address_of sample_infl \<noteq> 0
   \<and> zyxel_inv (output_unconf_zyxel False (\<lambda>_. 0) sample_infl sample_zyxel)"
proof -
  have "wan_address_of sample_infl \<noteq> 0" by (simp add: wan_address_of_def sample_infl_def)
  then show ?thesis using zyxel_services_consistent [OF sample_zyxel_inv] sample_zyxel_inv by blast
qed

theorem zyxel_conf_all_or_nothing_witness:
  "\<exists>z'. output_conf_zyxel False (\<lambda>_. 0) sample_infl sample_zyxel = Some (0, z')
     \<and> (\<exists>i<MAX_SERVICES. zs_flow_counter (zp_created_services z' ! i)
          = zs_flow_counter (zp_created_services sample_zyxel ! i) + 1)"
proof -
  obtain z' where "output_conf_zyxel False (\<lambda>_. 0) sample_infl sample_zyxel = Some (0, z')" using sample_conf by blast
  with zyxel_conf_all_or_nothing [OF sample_zyxel_inv this] show ?thesis by auto
qed

theorem zyxel_unconf_undoes_conf_witness:
  "\<exists>z'. output_conf_zyxel False (\<lambda>_. 0) sample_infl sample_zyxel = Some (0, z')
     \<and> zp_srv_counter (output_unconf_zyxel False (\<lambda>_. 0) sample_infl z') = zp_srv_counter sample_zyxel"
proof -
  obtain z' where c: "output_conf_zyxel False (\<lambda>_. 0) sample_infl sample_zyxel = Some (0, z')" using sample_conf by blast
  have a: "wan_address_of sample_infl = 0x0a000001" by (simp add: wan_address_of_def sample_infl_def)
  have "om_dl_type (in_match sample_infl) \<noteq> ntohs ETH_TYPE_ARP" by (simp add: sample_infl_def)
  moreover have "\<forall>i<MAX_SERVICES. zs_wan_address (zp_created_services sample_zyxel ! i) \<noteq> wan_address_of sample_infl"
    by (simp add: a sample_zyxel_def blank_slot_def nth_replicate del: replicate.simps replicate_Suc)
  ultimately show ?thesis
    using zyxel_unconf_undoes_conf [OF sample_zyxel_inv _ _ c] a c by auto
qed

theorem zyxel_unconf_blank_slot_witness:
  "sint (zp_srv_counter (output_unconf_zyxel False (\<lambda>_. 0)
     (sample_infl\<lparr>in_match := (in_match sample_infl)\<lparr>om_nw_src := 0\<rparr>\<rparr>) sample_zyxel)) = - 1"
  by (rule zyxel_unconf_blank_slot [OF sample_zyxel_inv])
    (simp_all add: sample_zyxel_def blank_slot_def slot_used_def wan_address_of_def sample_infl_def nth_replicate
      del: replicate.simps replicate_Suc)

end
