(* ===== verification/Ofagent.thy ===== *)
theory Ofagent
  imports Zyxel
begin

text \<open>
  The agent of \<^verbatim>\<open>src/openflow/udatapath/ofagent.c\<close>: the flows it has configured on the device and its
  handling of flow modifications, which \<^verbatim>\<open>recv_flow\<close> passes to it before anything else. A platform is a
  parameter with its state type; \<open>zyxel_platform\<close> is the one of \<^verbatim>\<open>zyxel.c\<close>. The pointer to an action is the
  list of the bytes from it to the end of the allocation. A loop over actions that does not end is the
  value \<open>None\<close>, an access outside the allocation or to freed memory is \<open>Fault\<close>. The queue
  configuration, read from a file and not used by this platform, is left out.
\<close>

section \<open>Platforms\<close>

record 'd dev_action =
  da_type :: u16
  da_conf :: "inserted_flow \<Rightarrow> 'd \<Rightarrow> (int \<times> 'd) option"
  da_unconf :: "(inserted_flow \<Rightarrow> 'd \<Rightarrow> 'd option) option"

text \<open>The initialisation function of a platform and what its \<^verbatim>\<open>dev_properties\<close> hold in a state.\<close>

record 'd platform =
  pl_init :: "'d \<Rightarrow> 'd"
  pl_wildcards :: "'d \<Rightarrow> u32"
  pl_supported_actions :: "'d \<Rightarrow> 'd dev_action list"

definition zyxel_platform :: "string list \<Rightarrow> bool \<Rightarrow> (string \<Rightarrow> int) \<Rightarrow> zyxel_properties platform" where
  "zyxel_platform names ml sys =
     \<lparr>pl_init = zyxel_init names, pl_wildcards = zp_wildcards,
      pl_supported_actions = (\<lambda>z. map (\<lambda>t. \<lparr>da_type = t, da_conf = output_conf_zyxel ml sys,
         da_unconf = Some (\<lambda>infl z. Some (output_unconf_zyxel ml sys infl z))\<rparr>) (zp_supported_actions z))\<rparr>"

section \<open>Port names\<close>

abbreviation MAX_PORT_NAME_LEN :: nat where "MAX_PORT_NAME_LEN \<equiv> 200"

definition init_port_list :: "string list" where
  "init_port_list = replicate MAX_PORTS_NAMES []"

text \<open>\<open>None\<close>: the name is written outside its row of the array.\<close>

definition add_port :: "string \<Rightarrow> int \<Rightarrow> string list \<Rightarrow> string list option" where
  "add_port port_name index names =
     (if index < int MAX_PORTS_NAMES then
        (if index < 0 \<or> MAX_PORT_NAME_LEN \<le> length port_name then None
         else Some (names[nat index := port_name]))
      else Some names)"

section \<open>Inserted flows\<close>

definition my_flow_fields_match :: "ofp_match \<Rightarrow> ofp_match \<Rightarrow> bool" where
  "my_flow_fields_match a b \<longleftrightarrow>
     om_in_port a = om_in_port b \<and> om_dl_vlan a = om_dl_vlan b \<and> om_dl_vlan_pcp a = om_dl_vlan_pcp b
   \<and> eth_addr_equals (om_dl_src a) (om_dl_src b) \<and> eth_addr_equals (om_dl_dst a) (om_dl_dst b)
   \<and> om_dl_type a = om_dl_type b \<and> om_nw_tos a = om_nw_tos b \<and> om_nw_proto a = om_nw_proto b
   \<and> om_nw_src a = om_nw_src b \<and> om_nw_dst a = om_nw_dst b
   \<and> om_tp_src a = om_tp_src b \<and> om_tp_dst a = om_tp_dst b"

definition zero_match :: ofp_match where
  "zero_match = \<lparr>om_wildcards = 0, om_in_port = 0, om_dl_src = 0, om_dl_dst = 0, om_dl_vlan = 0,
     om_dl_vlan_pcp = 0, om_pad1 = 0, om_dl_type = 0, om_nw_tos = 0, om_nw_proto = 0, om_pad2 = 0,
     om_nw_src = 0, om_nw_dst = 0, om_tp_src = 0, om_tp_dst = 0\<rparr>"

text \<open>
  \<^verbatim>\<open>print_action\<close> only logs; what matters is how far it reads: the number of bytes from the start of
  the action.
\<close>

definition print_action :: "u8 list \<Rightarrow> nat" where
  "print_action ah =
     (let type = ntohs (ah_type ah)
      in if type = OFPAT_OUTPUT then 6
         else if type = OFPAT_ENQUEUE then 16
         else if type = OFPAT_SET_VLAN_VID then 6
         else if type = OFPAT_SET_VLAN_PCP then 5
         else if type = OFPAT_STRIP_VLAN then 4
         else if type = OFPAT_SET_DL_SRC \<or> type = OFPAT_SET_DL_DST then 10
         else if type = OFPAT_SET_NW_SRC \<or> type = OFPAT_SET_NW_DST then 8
         else if type = OFPAT_SET_NW_TOS then 5
         else if type = OFPAT_SET_TP_SRC \<or> type = OFPAT_SET_TP_DST then 6
         else if type = OFPAT_VENDOR then (if ah_len ah < 8 then 4 else 8)
         else 4)"

text \<open>
  The loops of \<^verbatim>\<open>apply_actions\<close> and \<^verbatim>\<open>unapply_actions\<close>. \<^verbatim>\<open>actions_len\<close> is a \<^verbatim>\<open>size_t\<close>: an action longer than
  what is left wraps it.
\<close>

partial_function (option) apply_loop :: "'d dev_action list \<Rightarrow> u8 list \<Rightarrow> u64 \<Rightarrow> inserted_flow \<Rightarrow> 'd
    \<Rightarrow> (inserted_flow \<times> 'd) run option" where
  "apply_loop supported p actions_len infl d =
     (if actions_len = 0 then Some (Done (infl, d))
      else if length p < 4 \<or> length p < print_action p then Some Fault
      else
        (case (case find (\<lambda>sa. ah_type p = htons (da_type sa)) supported of
                 None \<Rightarrow> Some d
               | Some sa \<Rightarrow> map_option snd (da_conf sa infl d)) of
           None \<Rightarrow> Some Fault
         | Some d \<Rightarrow>
             apply_loop supported (drop (ah_len p) p) (actions_len - of_nat (ah_len p))
               (infl\<lparr>in_auxInd := in_auxInd infl + 1\<rparr>) d))"

partial_function (option) unapply_loop :: "'d dev_action list \<Rightarrow> u8 list \<Rightarrow> u64 \<Rightarrow> inserted_flow \<Rightarrow> 'd
    \<Rightarrow> (inserted_flow \<times> 'd) run option" where
  "unapply_loop supported p actions_len infl d =
     (if actions_len = 0 then Some (Done (infl, d))
      else if length p < 4 then Some Fault
      else
        (case (case find (\<lambda>sa. ah_type p = htons (da_type sa)) supported of
                 None \<Rightarrow> Some d
               | Some sa \<Rightarrow> (case da_unconf sa of None \<Rightarrow> Some d | Some unconf \<Rightarrow> unconf infl d)) of
           None \<Rightarrow> Some Fault
         | Some d \<Rightarrow>
             unapply_loop supported (drop (ah_len p) p) (actions_len - of_nat (ah_len p))
               (infl\<lparr>in_auxInd := in_auxInd infl + 1\<rparr>) d))"

text \<open>Reading actions that have been freed is a fault unless their length is zero.\<close>

definition apply_actions :: "'d dev_action list \<Rightarrow> inserted_flow \<Rightarrow> 'd \<Rightarrow> (inserted_flow \<times> 'd) run option" where
  "apply_actions supported infl d =
     apply_loop supported (case in_actions infl of Some acts \<Rightarrow> acts | None \<Rightarrow> [])
       (of_nat (in_actions_len infl)) infl d"

definition unapply_actions :: "'d dev_action list \<Rightarrow> inserted_flow \<Rightarrow> 'd \<Rightarrow> (inserted_flow \<times> 'd) run option" where
  "unapply_actions supported infl d =
     (let infl = infl\<lparr>in_auxInd := 0\<rparr>
      in unapply_loop supported (case in_actions infl of Some acts \<Rightarrow> acts | None \<Rightarrow> [])
           (of_nat (in_actions_len infl)) infl d)"

section \<open>Flow modifications\<close>

abbreviation MAX_NUMBER_OF_FLOWS :: nat where "MAX_NUMBER_OF_FLOWS \<equiv> 10000"

record agent =
  ag_inserted_flows :: "inserted_flow list"
  ag_flow_counter :: nat

text \<open>The branches of \<^verbatim>\<open>handleFlowMod\<close> for \<^verbatim>\<open>OFPFC_ADD\<close> and \<^verbatim>\<open>OFPFC_DELETE\<close>.\<close>

definition flow_mod_add :: "'d dev_action list \<Rightarrow> ofp_flow_mod \<Rightarrow> agent \<Rightarrow> 'd \<Rightarrow> (agent \<times> 'd) run option" where
  "flow_mod_add supported ofm a d =
     (let n = ag_flow_counter a; actions_len = ofm_length ofm - 72
      in if length (ofm_actions ofm) < actions_len then Some Fault
         else
           (case apply_actions supported
                   \<lparr>in_match = ofm_match ofm, in_actions = Some (take actions_len (ofm_actions ofm)),
                    in_actions_len = actions_len, in_actions_num = actions_len div 8, in_auxInd = 0\<rparr> d of
              None \<Rightarrow> None
            | Some Fault \<Rightarrow> Some Fault
            | Some (Done (infl, d)) \<Rightarrow>
                Some (Done (a\<lparr>ag_inserted_flows := (ag_inserted_flows a)[n := infl], ag_flow_counter := n + 1\<rparr>, d))))"

fun flow_mod_delete :: "'d dev_action list \<Rightarrow> ofp_match \<Rightarrow> nat list \<Rightarrow> agent \<Rightarrow> 'd \<Rightarrow> (agent \<times> 'd) run option" where
  "flow_mod_delete supported m [] a d = Some (Done (a, d))"
| "flow_mod_delete supported m (i # is) a d =
     (if my_flow_fields_match (in_match (ag_inserted_flows a ! i)) m then
        (case unapply_actions supported (ag_inserted_flows a ! i) d of
           None \<Rightarrow> None
         | Some Fault \<Rightarrow> Some Fault
         | Some (Done (infl, d)) \<Rightarrow>
             (if in_actions infl = None then Some Fault
              else flow_mod_delete supported m is
                     (a\<lparr>ag_inserted_flows := (ag_inserted_flows a)
                          [i := infl\<lparr>in_match := zero_match, in_actions := None\<rparr>]\<rparr>) d))
      else flow_mod_delete supported m is a d)"

text \<open>
  The test of the wildcards is read as C reads it: \<^verbatim>\<open>!=\<close> binds closer than \<^verbatim>\<open>&\<close>. Memory that is freed
  twice is a fault too. \<open>milegate\<close>, \<open>intune\<close> and \<open>zyxel\<close> are the platforms.
\<close>

definition handleFlowMod :: "string \<Rightarrow> 'd platform \<Rightarrow> 'd platform \<Rightarrow> 'd platform \<Rightarrow> ofp_flow_mod \<Rightarrow> agent \<Rightarrow> 'd
    \<Rightarrow> (agent \<times> 'd) run option" where
  "handleFlowMod hardware_name milegate intune zyxel ofm a d =
     (case (if hardware_name = ''milegate'' then Some milegate
            else if hardware_name = ''intune'' then Some intune
            else if hardware_name = ''zyxel'' then Some zyxel
            else None) of
        None \<Rightarrow> Some (Done (a, d))
      | Some pl \<Rightarrow>
          (let d = pl_init pl d
           in if ag_flow_counter a > MAX_NUMBER_OF_FLOWS - 1 then Some (Done (a, d))
              else if NOT (om_wildcards (ofm_match ofm))
                     AND (if NOT (pl_wildcards pl d) \<noteq> NOT (pl_wildcards pl d) then 1 else 0) \<noteq> 0 then
                Some (Done (a, d))
              else
                (let command = ntohs (ofm_command ofm)
                 in if command = OFPFC_ADD then flow_mod_add (pl_supported_actions pl d) ofm a d
                    else if command = OFPFC_DELETE then
                      flow_mod_delete (pl_supported_actions pl d) (ofm_match ofm) [0..<ag_flow_counter a] a d
                    else Some (Done (a, d)))))"

section \<open>Invariant\<close>

text \<open>
  The actions of a flow are well formed until they are freed; then its match is zero. A flow whose
  actions have been freed is matched by a flow modification without any field only.
\<close>

definition inserted_ok :: "inserted_flow \<Rightarrow> bool" where
  "inserted_ok infl \<longleftrightarrow>
     (case in_actions infl of
        None \<Rightarrow> in_match infl = zero_match
      | Some acts \<Rightarrow> wf_acts acts \<and> length acts = in_actions_len infl \<and> length acts < 2 ^ 64)"

definition agent_inv :: "agent \<Rightarrow> bool" where
  "agent_inv a \<longleftrightarrow> length (ag_inserted_flows a) = MAX_NUMBER_OF_FLOWS \<and> ag_flow_counter a \<le> MAX_NUMBER_OF_FLOWS
     \<and> (\<forall>i<ag_flow_counter a. inserted_ok (ag_inserted_flows a ! i))"

definition flow_mod_ok :: "ofp_flow_mod \<Rightarrow> bool" where
  "flow_mod_ok ofm \<longleftrightarrow> wf_acts (ofm_actions ofm) \<and> length (ofm_actions ofm) = ofm_length ofm - 72
     \<and> ofm_length ofm < 2 ^ 16 \<and> (\<forall>a\<in>set (split_acts (ofm_actions ofm)). print_action a \<le> length a)"

section \<open>Drivers\<close>

text \<open>
  What the loops need of a driver: in a good state (\<open>inv\<close>) configuring the action at the index of a
  flow, and removing a flow whose match is \<open>removable\<close>, do not fault and give a good state.
\<close>

locale driver =
  fixes supported :: "'d dev_action list" and inv :: "'d \<Rightarrow> bool" and removable :: "ofp_match \<Rightarrow> bool"
  assumes conf_ok: "sa \<in> set supported \<Longrightarrow> inv d \<Longrightarrow> in_actions infl = Some acts
      \<Longrightarrow> 8 * in_auxInd infl + 8 \<le> length acts \<Longrightarrow> \<exists>r d'. da_conf sa infl d = Some (r, d') \<and> inv d'"
    and unconf_ok: "sa \<in> set supported \<Longrightarrow> inv d \<Longrightarrow> removable (in_match infl) \<Longrightarrow> da_unconf sa = Some u
      \<Longrightarrow> \<exists>d'. u infl d = Some d' \<and> inv d'"
begin

lemma apply_loop_returns:
  assumes "wf_acts p" "\<forall>a\<in>set (split_acts p). print_action a \<le> length a" "length p < 2 ^ 64"
    "in_actions infl = Some (pre @ p)" "8 * in_auxInd infl \<le> length pre" "inv d"
  shows "\<exists>d'. apply_loop supported p (of_nat (length p)) infl d
      = Some (Done (infl\<lparr>in_auxInd := in_auxInd infl + length (split_acts p)\<rparr>, d')) \<and> inv d'"
  using assms
proof (induction p arbitrary: pre infl d rule: wf_acts_induct)
  case Nil
  then show ?case by (simp add: apply_loop.simps)
next
  case (act p)
  note w = wf_acts_step [OF act(1,2)]
  let ?infl = "infl\<lparr>in_auxInd := in_auxInd infl + 1\<rparr>"
  have pr: "\<not> length p < print_action p"
  proof -
    have "print_action (take (ah_len p) p) \<le> ah_len p"
      using act.prems(1) w(3) by (simp add: split_acts_step [OF act(1,2)])
    moreover have "print_action (take (ah_len p) p) = print_action p" using w(2) by (simp add: print_action_def)
    ultimately show ?thesis using w(3) by simp
  qed
  have len: "of_nat (length p) \<noteq> (0 :: u64)"
    using act.prems(2) act(2) by (simp add: word_unat_eq_iff unat_of_nat)
  have rest: "of_nat (length p) - of_nat (ah_len p) = (of_nat (length (drop (ah_len p) p)) :: u64)"
    using w(3) by (simp add: of_nat_diff)
  obtain d1 where d1: "(case find (\<lambda>sa. ah_type p = htons (da_type sa)) supported of
                 None \<Rightarrow> Some d | Some sa \<Rightarrow> map_option snd (da_conf sa infl d)) = Some d1" "inv d1"
  proof (cases "find (\<lambda>sa. ah_type p = htons (da_type sa)) supported")
    case (Some sa)
    then have "sa \<in> set supported" by (auto simp: find_Some_iff)
    then obtain r d' where "da_conf sa infl d = Some (r, d')" "inv d'"
      using conf_ok [OF _ act.prems(5,3)] act.prems(4) w(1) by fastforce
    then show thesis using that Some by simp
  qed (use that act.prems in simp)
  have "\<exists>d'. apply_loop supported (drop (ah_len p) p) (of_nat (length (drop (ah_len p) p))) ?infl d1
      = Some (Done (?infl\<lparr>in_auxInd := in_auxInd ?infl + length (split_acts (drop (ah_len p) p))\<rparr>, d')) \<and> inv d'"
    using act.prems w d1(2)
    by (intro act(3) [of ?infl "pre @ take (ah_len p) p"]) (simp_all add: split_acts_step [OF act(1,2)])
  moreover have "apply_loop supported p (of_nat (length p)) infl d
      = apply_loop supported (drop (ah_len p) p) (of_nat (length p) - of_nat (ah_len p)) ?infl d1"
    by (subst apply_loop.simps) (use len w(1) pr d1(1) in simp)
  ultimately show ?case
    unfolding rest by (simp add: split_acts_step [OF act(1,2)] add.assoc)
qed

lemma unapply_loop_returns:
  assumes "wf_acts p" "length p < 2 ^ 64" "removable (in_match infl)" "inv d"
  shows "\<exists>d'. unapply_loop supported p (of_nat (length p)) infl d
      = Some (Done (infl\<lparr>in_auxInd := in_auxInd infl + length (split_acts p)\<rparr>, d')) \<and> inv d'"
  using assms
proof (induction p arbitrary: infl d rule: wf_acts_induct)
  case Nil
  then show ?case by (simp add: unapply_loop.simps)
next
  case (act p)
  note w = wf_acts_step [OF act(1,2)]
  let ?infl = "infl\<lparr>in_auxInd := in_auxInd infl + 1\<rparr>"
  have len: "of_nat (length p) \<noteq> (0 :: u64)"
    using act.prems(1) act(2) by (simp add: word_unat_eq_iff unat_of_nat)
  have rest: "of_nat (length p) - of_nat (ah_len p) = (of_nat (length (drop (ah_len p) p)) :: u64)"
    using w(3) by (simp add: of_nat_diff)
  obtain d1 where d1: "(case find (\<lambda>sa. ah_type p = htons (da_type sa)) supported of
                 None \<Rightarrow> Some d
               | Some sa \<Rightarrow> (case da_unconf sa of None \<Rightarrow> Some d | Some unconf \<Rightarrow> unconf infl d)) = Some d1" "inv d1"
  proof (cases "find (\<lambda>sa. ah_type p = htons (da_type sa)) supported")
    case (Some sa)
    then have "sa \<in> set supported" by (auto simp: find_Some_iff)
    then show thesis
    proof (cases "da_unconf sa")
      case None
      then show thesis using that Some act.prems(3) by simp
    next
      case (Some u)
      then obtain d' where "u infl d = Some d'" "inv d'"
        using unconf_ok [OF \<open>sa \<in> set supported\<close> act.prems(3,2)] by blast
      then show thesis using that Some \<open>find _ _ = Some sa\<close> by simp
    qed
  qed (use that act.prems in simp)
  have "\<exists>d'. unapply_loop supported (drop (ah_len p) p) (of_nat (length (drop (ah_len p) p))) ?infl d1
      = Some (Done (?infl\<lparr>in_auxInd := in_auxInd ?infl + length (split_acts (drop (ah_len p) p))\<rparr>, d')) \<and> inv d'"
    using act.prems w d1(2) by (intro act(3)) simp_all
  moreover have "unapply_loop supported p (of_nat (length p)) infl d
      = unapply_loop supported (drop (ah_len p) p) (of_nat (length p) - of_nat (ah_len p)) ?infl d1"
    by (subst unapply_loop.simps) (use len w(1) d1(1) in simp)
  ultimately show ?case
    unfolding rest by (simp add: split_acts_step [OF act(1,2)] add.assoc)
qed

lemma flow_mod_add_returns:
  assumes inv: "agent_inv a" "inv d" and ok: "flow_mod_ok ofm" and n: "ag_flow_counter a < MAX_NUMBER_OF_FLOWS"
  shows "\<exists>a' d'. flow_mod_add supported ofm a d = Some (Done (a', d')) \<and> agent_inv a' \<and> inv d'
    \<and> ag_flow_counter a' = ag_flow_counter a + 1
    \<and> in_match (ag_inserted_flows a' ! ag_flow_counter a) = ofm_match ofm
    \<and> in_actions (ag_inserted_flows a' ! ag_flow_counter a) = Some (ofm_actions ofm)
    \<and> (\<forall>i<ag_flow_counter a. ag_inserted_flows a' ! i = ag_inserted_flows a ! i)"
proof -
  let ?acts = "ofm_actions ofm" and ?n = "ag_flow_counter a"
  let ?infl = "\<lparr>in_match = ofm_match ofm, in_actions = Some ?acts, in_actions_len = length ?acts,
    in_actions_num = length ?acts div 8, in_auxInd = 0\<rparr>"
  have len: "length ?acts = ofm_length ofm - 72" "length ?acts < 2 ^ 64"
    using ok by (auto simp: flow_mod_ok_def)
  obtain d' where d': "apply_loop supported ?acts (of_nat (length ?acts)) ?infl d
      = Some (Done (?infl\<lparr>in_auxInd := length (split_acts ?acts)\<rparr>, d'))" "inv d'"
    using apply_loop_returns [of ?acts ?infl "[]" d] ok len(2) inv(2) by (auto simp: flow_mod_ok_def)
  let ?a = "a\<lparr>ag_inserted_flows := (ag_inserted_flows a)[?n := ?infl\<lparr>in_auxInd := length (split_acts ?acts)\<rparr>],
    ag_flow_counter := ?n + 1\<rparr>"
  have "flow_mod_add supported ofm a d = Some (Done (?a, d'))"
    using d'(1) len(1) by (simp add: flow_mod_add_def apply_actions_def Let_def)
  moreover have "agent_inv ?a"
    using inv(1) n ok len(2) by (auto simp: agent_inv_def inserted_ok_def flow_mod_ok_def nth_list_update less_Suc_eq)
  moreover have "length (ag_inserted_flows a) = MAX_NUMBER_OF_FLOWS" using inv(1) by (simp add: agent_inv_def)
  ultimately show ?thesis using d'(2) n by (intro exI [of _ ?a] exI [of _ d']) simp
qed

lemma flow_mod_delete_returns:
  assumes "agent_inv a" "inv d" "\<not> my_flow_fields_match zero_match m"
    "\<And>m'. my_flow_fields_match m' m \<Longrightarrow> removable m'" "distinct is" "set is \<subseteq> {..<ag_flow_counter a}"
  shows "\<exists>a' d'. flow_mod_delete supported m is a d = Some (Done (a', d')) \<and> agent_inv a' \<and> inv d'
    \<and> ag_flow_counter a' = ag_flow_counter a
    \<and> (\<forall>i<ag_flow_counter a. if i \<in> set is \<and> my_flow_fields_match (in_match (ag_inserted_flows a ! i)) m
         then in_match (ag_inserted_flows a' ! i) = zero_match \<and> in_actions (ag_inserted_flows a' ! i) = None
         else ag_inserted_flows a' ! i = ag_inserted_flows a ! i)"
  using assms(1,2,5,6)
proof (induction "is" arbitrary: a d)
  case Nil
  then show ?case by simp
next
  case (Cons i "is")
  let ?infl = "ag_inserted_flows a ! i"
  have i: "i < ag_flow_counter a" "inserted_ok ?infl" "i < length (ag_inserted_flows a)"
    using Cons.prems by (auto simp: agent_inv_def)
  show ?case
  proof (cases "my_flow_fields_match (in_match ?infl) m")
    case False
    then show ?thesis using Cons.IH [of a d] Cons.prems by auto
  next
    case True
    then obtain acts where acts: "in_actions ?infl = Some acts" "wf_acts acts" "length acts = in_actions_len ?infl"
      "length acts < 2 ^ 64"
      using i(2) assms(3) by (auto simp: inserted_ok_def split: option.splits)
    let ?infl' = "?infl\<lparr>in_auxInd := length (split_acts acts)\<rparr>"
    obtain d1 where d1: "unapply_actions supported ?infl d = Some (Done (?infl', d1))" "inv d1"
      using unapply_loop_returns [of acts "?infl\<lparr>in_auxInd := 0\<rparr>" d] acts assms(4) [OF True] Cons.prems(2)
      by (auto simp: unapply_actions_def)
    let ?a = "a\<lparr>ag_inserted_flows := (ag_inserted_flows a)[i := ?infl'\<lparr>in_match := zero_match, in_actions := None\<rparr>]\<rparr>"
    have "inserted_ok (?infl'\<lparr>in_match := zero_match, in_actions := None\<rparr>)" by (simp add: inserted_ok_def)
    then have "agent_inv ?a" using Cons.prems(1) i(3) by (auto simp: agent_inv_def nth_list_update)
    from Cons.IH [OF this d1(2)] Cons.prems(3,4) obtain a' d' where a':
      "flow_mod_delete supported m is ?a d1 = Some (Done (a', d'))" "agent_inv a'" "inv d'"
      "ag_flow_counter a' = ag_flow_counter a"
      "\<forall>j<ag_flow_counter a. if j \<in> set is \<and> my_flow_fields_match (in_match (ag_inserted_flows ?a ! j)) m
         then in_match (ag_inserted_flows a' ! j) = zero_match \<and> in_actions (ag_inserted_flows a' ! j) = None
         else ag_inserted_flows a' ! j = ag_inserted_flows ?a ! j" by auto
    have "flow_mod_delete supported m (i # is) a d = Some (Done (a', d'))"
      using True d1(1) acts(1) a'(1) by simp
    moreover have "if j \<in> set (i # is) \<and> my_flow_fields_match (in_match (ag_inserted_flows a ! j)) m
         then in_match (ag_inserted_flows a' ! j) = zero_match \<and> in_actions (ag_inserted_flows a' ! j) = None
         else ag_inserted_flows a' ! j = ag_inserted_flows a ! j" if "j < ag_flow_counter a" for j
    proof (cases "j = i")
      case True
      then show ?thesis
        using a'(5) [rule_format, OF that] Cons.prems(3) i(3) \<open>my_flow_fields_match (in_match ?infl) m\<close> by simp
    next
      case False
      then show ?thesis using a'(5) [rule_format, OF that] by auto
    qed
    ultimately show ?thesis using a'(2-4) by blast
  qed
qed

end

section \<open>The Zyxel driver as a driver\<close>

definition has_address :: "ofp_match \<Rightarrow> bool" where
  "has_address m \<longleftrightarrow> om_nw_src m \<noteq> 0 \<or> om_nw_dst m \<noteq> 0"

definition zyxel_actions :: "bool \<Rightarrow> (string \<Rightarrow> int) \<Rightarrow> zyxel_properties dev_action list" where
  "zyxel_actions ml sys = map (\<lambda>t. \<lparr>da_type = t, da_conf = output_conf_zyxel ml sys,
     da_unconf = Some (\<lambda>infl z. Some (output_unconf_zyxel ml sys infl z))\<rparr>) [OFPAT_OUTPUT, OFPAT_ENQUEUE]"

lemma scan_actions_in_bounds:
  "8 * (i + n) \<le> length acts \<Longrightarrow> \<exists>p v q. scan_actions acts i n r = Some (p, v, q)"
proof (induction n arbitrary: i r)
  case 0
  then show ?case by (cases r) simp
next
  case (Suc n)
  obtain p v q where "r = (p, v, q)" by (cases r)
  then show ?case using Suc.IH [of "i + 1"] Suc.prems by (simp add: Let_def)
qed

lemma output_conf_returns:
  assumes "in_actions infl = Some acts" "8 * in_auxInd infl + 8 \<le> length acts"
  shows "\<exists>r z'. output_conf_zyxel ml sys infl z = Some (r, z')"
proof -
  obtain p v q where "scan_actions acts 0 (in_auxInd infl + 1)
      (0, ntohs (om_dl_vlan (in_match infl)), ucast (om_dl_vlan_pcp (in_match infl))) = Some (p, v, q)"
    using scan_actions_in_bounds [of 0 "in_auxInd infl + 1"] assms(2) by fastforce
  then show ?thesis
    unfolding output_conf_zyxel_def assms(1) by (simp add: Let_def split: option.split prod.split del: scan_actions.simps)
qed

lemma zyxel_init_inv [simp]: "zyxel_inv (zyxel_init names z) = zyxel_inv z"
  by (simp add: zyxel_init_def zyxel_inv_def Let_def split: option.splits prod.splits)

lemma zyxel_init_supported: "zp_supported_actions (zyxel_init names z) = [OFPAT_OUTPUT, OFPAT_ENQUEUE]"
  by (simp add: zyxel_init_def Let_def split: option.splits prod.splits)

lemma wan_address_nonzero: "has_address (in_match infl) \<Longrightarrow> wan_address_of infl \<noteq> 0"
  by (auto simp: has_address_def wan_address_of_def Let_def htonl_eq_0_iff)

interpretation zyxel_driver: driver "zyxel_actions ml sys" zyxel_inv has_address for ml sys
proof
  fix sa :: "zyxel_properties dev_action" and z and infl :: inserted_flow and acts
  assume sa: "sa \<in> set (zyxel_actions ml sys)" and z: "zyxel_inv z"
  { assume "in_actions infl = Some acts" "8 * in_auxInd infl + 8 \<le> length acts"
    then obtain r z' where "output_conf_zyxel ml sys infl z = Some (r, z')" using output_conf_returns by blast
    then show "\<exists>r z'. da_conf sa infl z = Some (r, z') \<and> zyxel_inv z'"
      using sa conf_inv [OF z] by (auto simp: zyxel_actions_def) }
  { fix u assume "has_address (in_match infl)" "da_unconf sa = Some u"
    then show "\<exists>z'. u infl z = Some z' \<and> zyxel_inv z'"
      using sa unconf_inv [OF z wan_address_nonzero] by (auto simp: zyxel_actions_def) }
qed

section \<open>Properties\<close>

lemma handleFlowMod_zyxel:
  assumes "ag_flow_counter a < MAX_NUMBER_OF_FLOWS"
  shows "handleFlowMod ''zyxel'' mg it (zyxel_platform names ml sys) ofm a z =
    (if ntohs (ofm_command ofm) = OFPFC_ADD then flow_mod_add (zyxel_actions ml sys) ofm a (zyxel_init names z)
     else if ntohs (ofm_command ofm) = OFPFC_DELETE then
       flow_mod_delete (zyxel_actions ml sys) (ofm_match ofm) [0..<ag_flow_counter a] a (zyxel_init names z)
     else Some (Done (a, zyxel_init names z)))"
  using assms
  by (simp add: handleFlowMod_def zyxel_platform_def zyxel_actions_def zyxel_init_supported Let_def)


text \<open>
  On an \<^verbatim>\<open>OFPFC_DELETE\<close> whose match has an IP address the agent returns without a fault: it has cleared
  and freed every recorded flow with exactly these fields, whatever the wildcards, and no other.
\<close>

theorem handleFlowMod_delete:
  assumes "agent_inv a" "zyxel_inv z" "has_address (ofm_match ofm)" "ntohs (ofm_command ofm) = OFPFC_DELETE"
    "ag_flow_counter a < MAX_NUMBER_OF_FLOWS"
  shows "\<exists>a' z'. handleFlowMod ''zyxel'' mg it (zyxel_platform names ml sys) ofm a z = Some (Done (a', z'))
    \<and> agent_inv a' \<and> zyxel_inv z' \<and> ag_flow_counter a' = ag_flow_counter a
    \<and> (\<forall>i<ag_flow_counter a. if my_flow_fields_match (in_match (ag_inserted_flows a ! i)) (ofm_match ofm)
         then in_match (ag_inserted_flows a' ! i) = zero_match \<and> in_actions (ag_inserted_flows a' ! i) = None
         else ag_inserted_flows a' ! i = ag_inserted_flows a ! i)"
proof -
  have z: "\<not> my_flow_fields_match zero_match (ofm_match ofm)"
    using assms(3) by (auto simp: my_flow_fields_match_def zero_match_def has_address_def)
  have r: "has_address m'" if "my_flow_fields_match m' (ofm_match ofm)" for m'
    using that assms(3) by (simp add: my_flow_fields_match_def has_address_def)
  have "zyxel_inv (zyxel_init names z)" using assms(2) by simp
  from zyxel_driver.flow_mod_delete_returns [OF assms(1) this z r, of "[0..<ag_flow_counter a]" ml sys]
  show ?thesis
    unfolding handleFlowMod_zyxel [OF assms(5)] using assms(4) by (auto simp: lessThan_atLeast0)
qed

text \<open>An action of length zero: the loop goes on at the same action.\<close>

lemma apply_loop_stuck:
  assumes "apply_loop supported p actions_len infl d = Some y"
  shows "ah_len p = 0 \<longrightarrow> actions_len \<noteq> 0 \<longrightarrow>
    y = Fault \<and> (length p < 4 \<or> length p < print_action p \<or> (\<exists>sa\<in>set supported. ah_type p = htons (da_type sa)))"
proof (rule apply_loop.raw_induct [OF _ assms], intro impI)
  fix loop and supported :: "'d dev_action list" and p :: "u8 list" and actions_len :: u64 and infl d y
  let ?R = "\<lambda>supported p y. y = Fault \<and> (length p < 4 \<or> length p < print_action p
    \<or> (\<exists>sa\<in>set supported. ah_type p = htons (da_type sa)))"
  let ?found = "find (\<lambda>sa. ah_type p = htons (da_type sa)) supported"
  assume IH: "\<And>supported p actions_len infl d y. loop supported p actions_len infl d = Some y
      \<Longrightarrow> ah_len p = 0 \<longrightarrow> actions_len \<noteq> (0 :: u64) \<longrightarrow> ?R supported p y"
    and step: "(if actions_len = 0 then Some (Done (infl, d))
      else if length p < 4 \<or> length p < print_action p then Some Fault
      else case case ?found of None \<Rightarrow> Some d | Some sa \<Rightarrow> map_option snd (da_conf sa infl d) of
             None \<Rightarrow> Some Fault
           | Some d \<Rightarrow> loop supported (drop (ah_len p) p) (actions_len - of_nat (ah_len p))
               (infl\<lparr>in_auxInd := in_auxInd infl + 1\<rparr>) d) = Some y"
    and z: "ah_len p = 0" "actions_len \<noteq> 0"
  consider "length p < 4 \<or> length p < print_action p" | "\<not> (length p < 4 \<or> length p < print_action p)" "?found = None"
    | sa where "\<not> (length p < 4 \<or> length p < print_action p)" "?found = Some sa" by blast
  then show "?R supported p y"
  proof cases
    case 1
    then show ?thesis using step z by auto
  next
    case 2
    then have "loop supported p actions_len (infl\<lparr>in_auxInd := in_auxInd infl + 1\<rparr>) d = Some y" using step z by simp
    then show ?thesis using IH z by blast
  next
    case 3
    then have "\<exists>sa\<in>set supported. ah_type p = htons (da_type sa)" by (auto simp: find_Some_iff)
    moreover have "y = Fault" using step z 3 IH by (auto split: option.splits)
    ultimately show ?thesis by blast
  qed
qed

text \<open>
  An \<^verbatim>\<open>OFPFC_ADD\<close> whose first action has length zero never gets past the agent: it does not return
  normally on any platform, and if the platform has no driver for this action, it loops for ever.
  The datapath validates the actions only afterwards.
\<close>

theorem handleFlowMod_zero_length_action:
  assumes "ntohs (ofm_command ofm) = OFPFC_ADD" "ag_flow_counter a < MAX_NUMBER_OF_FLOWS"
    "length (ofm_actions ofm) = ofm_length ofm - 72" "72 < ofm_length ofm" "ofm_length ofm < 2 ^ 16"
    "ah_len (ofm_actions ofm) = 0"
  shows "handleFlowMod ''zyxel'' mg it pl ofm a d \<noteq> Some (Done r)
    \<and> (4 \<le> length (ofm_actions ofm) \<and> print_action (ofm_actions ofm) \<le> length (ofm_actions ofm)
        \<and> (\<forall>sa\<in>set (pl_supported_actions pl (pl_init pl d)). ah_type (ofm_actions ofm) \<noteq> htons (da_type sa))
       \<longrightarrow> handleFlowMod ''zyxel'' mg it pl ofm a d = None)"
proof -
  let ?acts = "ofm_actions ofm" and ?S = "pl_supported_actions pl (pl_init pl d)"
  let ?infl = "\<lparr>in_match = ofm_match ofm, in_actions = Some ?acts, in_actions_len = ofm_length ofm - 72,
    in_actions_num = (ofm_length ofm - 72) div 8, in_auxInd = 0\<rparr>"
  have n: "of_nat (ofm_length ofm - 72) \<noteq> (0 :: u64)"
  proof -
    have "unat (of_nat (ofm_length ofm - 72) :: u64) = ofm_length ofm - 72"
      unfolding unat_of_nat using assms(5) by simp
    then show ?thesis using assms(4) by (metis unsigned_0 zero_less_diff less_irrefl)
  qed
  have h: "handleFlowMod ''zyxel'' mg it pl ofm a d =
    (case apply_loop ?S ?acts (of_nat (ofm_length ofm - 72)) ?infl (pl_init pl d) of
       None \<Rightarrow> None | Some Fault \<Rightarrow> Some Fault
     | Some (Done (infl, d)) \<Rightarrow> Some (Done (a\<lparr>ag_inserted_flows := (ag_inserted_flows a)[ag_flow_counter a := infl],
         ag_flow_counter := ag_flow_counter a + 1\<rparr>, d)))"
    using assms(1-3) by (simp add: handleFlowMod_def Let_def flow_mod_add_def apply_actions_def)
  show ?thesis
  proof (cases "apply_loop ?S ?acts (of_nat (ofm_length ofm - 72)) ?infl (pl_init pl d)")
    case None
    then show ?thesis by (simp add: h)
  next
    case (Some y)
    then show ?thesis unfolding h using apply_loop_stuck [OF Some] assms(6) n by auto
  qed
qed

text \<open>
  Once the first flow has been deleted, an \<^verbatim>\<open>OFPFC_DELETE\<close> without any field, as a controller sends it to
  delete every flow, matches its blank record: the agent uses and frees the freed actions again.
\<close>

theorem handleFlowMod_delete_all_faults:
  assumes "0 < ag_flow_counter a" "ag_flow_counter a < MAX_NUMBER_OF_FLOWS"
    "in_actions (ag_inserted_flows a ! 0) = None" "in_match (ag_inserted_flows a ! 0) = zero_match"
    "ntohs (ofm_command ofm) = OFPFC_DELETE" "my_flow_fields_match zero_match (ofm_match ofm)"
  shows "handleFlowMod ''zyxel'' mg it pl ofm a d = Some Fault"
proof -
  have "[0..<ag_flow_counter a] = 0 # [1..<ag_flow_counter a]" using assms(1) by (simp add: upt_conv_Cons)
  then show ?thesis
    using assms(2-)
    by (auto simp: handleFlowMod_def Let_def unapply_actions_def unapply_loop.simps split: option.splits run.splits)
qed

text \<open>The test of the wildcards against those the device supports never rejects anything.\<close>

theorem handleFlowMod_ignores_device_wildcards:
  "handleFlowMod hw (mg\<lparr>pl_wildcards := w1\<rparr>) (it\<lparr>pl_wildcards := w2\<rparr>) (zy\<lparr>pl_wildcards := w3\<rparr>) ofm a d
   = handleFlowMod hw mg it zy ofm a d"
  by (simp add: handleFlowMod_def Let_def)

section \<open>Witnesses\<close>

definition sample_agent :: agent where
  "sample_agent = \<lparr>ag_inserted_flows = replicate MAX_NUMBER_OF_FLOWS
     \<lparr>in_match = zero_match, in_actions = None, in_actions_len = 0, in_actions_num = 0, in_auxInd = 0\<rparr>,
     ag_flow_counter = 0\<rparr>"

definition sample_flow_mod :: "u16 \<Rightarrow> ofp_match \<Rightarrow> u8 list \<Rightarrow> ofp_flow_mod" where
  "sample_flow_mod command m acts = \<lparr>ofm_length = 72 + length acts, ofm_match = m, ofm_cookie = 0,
     ofm_command = htons command, ofm_idle_timeout = 0, ofm_hard_timeout = 0, ofm_priority = 0,
     ofm_buffer_id = 0xffffffff, ofm_out_port = 0xffff, ofm_flags = 0, ofm_actions = acts\<rparr>"

lemma sample_agent_inv: "agent_inv sample_agent"
  by (simp add: agent_inv_def sample_agent_def)

lemma sample_flow_mod_ok: "flow_mod_ok (sample_flow_mod OFPFC_ADD (in_match sample_infl) [0, 0, 0, 8, 0, 3, 0, 0])"
proof -
  have "wf_acts [0, 0, 0, 8, 0, 3, 0, 0]" "split_acts [0, 0, 0, 8, 0, 3, 0, 0] = [[0, 0, 0, 8, 0, 3, 0, 0]]"
    "print_action [0, 0, 0, 8, 0, 3, 0, 0] = 6" by code_simp+
  then show ?thesis by (simp add: flow_mod_ok_def sample_flow_mod_def)
qed


definition sample_agent1 :: agent where
  "sample_agent1 = sample_agent\<lparr>ag_inserted_flows := (ag_inserted_flows sample_agent)[0 := sample_infl],
     ag_flow_counter := 1\<rparr>"

lemma sample_agent1_inv: "agent_inv sample_agent1"
proof -
  have "wf_acts [0, 0, 0, 8, 0, 3, 0, 0]" by code_simp
  moreover have "length (ag_inserted_flows sample_agent) = MAX_NUMBER_OF_FLOWS" by (simp add: sample_agent_def)
  ultimately show ?thesis by (simp add: agent_inv_def sample_agent1_def inserted_ok_def sample_infl_def)
qed

theorem handleFlowMod_delete_witness:
  "\<exists>a' z'. handleFlowMod ''zyxel'' (zyxel_platform [] True (\<lambda>_. 1)) (zyxel_platform [] True (\<lambda>_. 1))
       (zyxel_platform init_port_list False (\<lambda>_. 0))
       (sample_flow_mod OFPFC_DELETE (in_match sample_infl) []) sample_agent1 sample_zyxel
     = Some (Done (a', z')) \<and> in_actions (ag_inserted_flows a' ! 0) = None"
proof -
  let ?m = "sample_flow_mod OFPFC_DELETE (in_match sample_infl) []"
  have c: "ntohs (ofm_command ?m) = OFPFC_DELETE" "ofm_match ?m = in_match sample_infl" by (simp_all add: sample_flow_mod_def)
  have h: "has_address (ofm_match ?m)" unfolding c has_address_def by (simp add: sample_infl_def htonl_eq_0_iff)
  have f: "ag_flow_counter sample_agent1 = 1" "ag_inserted_flows sample_agent1 ! 0 = sample_infl"
    by (simp_all add: sample_agent1_def sample_agent_def)
  have "my_flow_fields_match (in_match sample_infl) (in_match sample_infl)"
    by (simp add: my_flow_fields_match_def eth_addr_equals_def)
  then show ?thesis
    using handleFlowMod_delete [OF sample_agent1_inv sample_zyxel_inv h c(1),
        of "zyxel_platform [] True (\<lambda>_. 1)" "zyxel_platform [] True (\<lambda>_. 1)" init_port_list False "\<lambda>_. 0"] f c(2)
    by fastforce
qed

theorem handleFlowMod_zero_length_action_witness:
  "handleFlowMod ''zyxel'' (zyxel_platform [] True (\<lambda>_. 1)) (zyxel_platform [] True (\<lambda>_. 1))
     (zyxel_platform init_port_list False (\<lambda>_. 0))
     (sample_flow_mod OFPFC_ADD (in_match sample_infl) [0, 3, 0, 0, 0, 0, 0, 0]) sample_agent sample_zyxel = None"
proof -
  let ?m = "sample_flow_mod OFPFC_ADD (in_match sample_infl) [0, 3, 0, 0, 0, 0, 0, 0]"
  have a: "ofm_actions ?m = [0, 3, 0, 0, 0, 0, 0, 0]" "ofm_length ?m = 80" "ntohs (ofm_command ?m) = OFPFC_ADD"
    by (simp_all add: sample_flow_mod_def)
  have e: "ah_len [0, 3, 0, 0, 0, 0, 0, 0] = 0" "print_action [0, 3, 0, 0, 0, 0, 0, 0] = 4"
    "ah_type [0, 3, 0, 0, 0, 0, 0, 0] \<noteq> htons OFPAT_OUTPUT" "ah_type [0, 3, 0, 0, 0, 0, 0, 0] \<noteq> htons OFPAT_ENQUEUE"
    by code_simp+
  have s: "\<forall>sa\<in>set (pl_supported_actions (zyxel_platform init_port_list False (\<lambda>_. 0))
      (pl_init (zyxel_platform init_port_list False (\<lambda>_. 0)) sample_zyxel)). ah_type (ofm_actions ?m) \<noteq> htons (da_type sa)"
    using e(3,4) by (simp add: a zyxel_platform_def zyxel_init_supported)
  have c: "ag_flow_counter sample_agent < MAX_NUMBER_OF_FLOWS" by (simp add: sample_agent_def)
  show ?thesis
    by (rule handleFlowMod_zero_length_action [OF a(3) c, THEN conjunct2, THEN mp])
      (use a e s in simp_all)
qed

theorem handleFlowMod_delete_all_faults_witness:
  "handleFlowMod ''zyxel'' (zyxel_platform [] True (\<lambda>_. 1)) (zyxel_platform [] True (\<lambda>_. 1))
     (zyxel_platform init_port_list False (\<lambda>_. 0)) (sample_flow_mod OFPFC_DELETE zero_match [])
     (sample_agent\<lparr>ag_flow_counter := 1\<rparr>) sample_zyxel = Some Fault"
  by (rule handleFlowMod_delete_all_faults)
    (simp_all add: sample_agent_def sample_flow_mod_def my_flow_fields_match_def eth_addr_equals_def)

end
