(* ===== verification/Pkt_Buffer.thy ===== *)
theory Pkt_Buffer
  imports Ofpbuf
begin

text \<open>
  The packet buffers at the end of \<^verbatim>\<open>src/openflow/udatapath/datapath.c\<close>: an array of 256 slots used in turn.
  The identifier of a saved packet is the number of its slot with a cookie that changes at every use
  of the slot. \<open>now\<close> is \<^verbatim>\<open>time_now ()\<close> in seconds.
\<close>

section \<open>Operations\<close>

abbreviation PKT_BUFFER_BITS :: nat where "PKT_BUFFER_BITS \<equiv> 8"
abbreviation N_PKT_BUFFERS :: nat where "N_PKT_BUFFERS \<equiv> 256"
abbreviation PKT_BUFFER_MASK :: u32 where "PKT_BUFFER_MASK \<equiv> 0xff"
abbreviation PKT_COOKIE_BITS :: nat where "PKT_COOKIE_BITS \<equiv> 24"
abbreviation OVERWRITE_SECS :: int where "OVERWRITE_SECS \<equiv> 1"
abbreviation NO_BUFFER :: u32 where "NO_BUFFER \<equiv> 0xffffffff"

record packet_buffer =
  pb_buffer :: "ofpbuf option"
  pb_cookie :: u32
  pb_timeout :: int

record pkt_buffers =
  pk_buffers :: "packet_buffer list"
  pk_buffer_idx :: u32

definition save_buffer :: "junk \<Rightarrow> int \<Rightarrow> ofpbuf \<Rightarrow> pkt_buffers \<Rightarrow> u32 \<times> pkt_buffers" where
  "save_buffer m now buffer s =
     (let idx = (pk_buffer_idx s + 1) AND PKT_BUFFER_MASK;
          s = s\<lparr>pk_buffer_idx := idx\<rparr>;
          p = pk_buffers s ! unat idx
      in if pb_buffer p \<noteq> None \<and> now < pb_timeout p then (- 1, s)
         else
           (let cookie = pb_cookie p + 1;
                cookie = (if cookie \<ge> push_bit PKT_COOKIE_BITS 1 - 1 then 0 else cookie);
                p = p\<lparr>pb_cookie := cookie, pb_buffer := Some (ofpbuf_clone m buffer),
                      pb_timeout := now + OVERWRITE_SECS\<rparr>
            in (idx OR push_bit PKT_BUFFER_BITS cookie,
                s\<lparr>pk_buffers := (pk_buffers s)[unat idx := p]\<rparr>)))"

definition retrieve_buffer :: "u32 \<Rightarrow> pkt_buffers \<Rightarrow> ofpbuf option \<times> pkt_buffers" where
  "retrieve_buffer ident s =
     (let i = unat (ident AND PKT_BUFFER_MASK); p = pk_buffers s ! i
      in if pb_cookie p = drop_bit PKT_BUFFER_BITS ident
         then (pb_buffer p, s\<lparr>pk_buffers := (pk_buffers s)[i := p\<lparr>pb_buffer := None\<rparr>]\<rparr>)
         else (None, s))"

definition discard_buffer :: "u32 \<Rightarrow> pkt_buffers \<Rightarrow> pkt_buffers" where
  "discard_buffer ident s =
     (let i = unat (ident AND PKT_BUFFER_MASK); p = pk_buffers s ! i
      in if pb_cookie p = drop_bit PKT_BUFFER_BITS ident
         then s\<lparr>pk_buffers := (pk_buffers s)[i := p\<lparr>pb_buffer := None\<rparr>]\<rparr>
         else s)"

section \<open>Invariant\<close>

definition buffers_inv :: "pkt_buffers \<Rightarrow> bool" where
  "buffers_inv s \<longleftrightarrow> length (pk_buffers s) = N_PKT_BUFFERS
     \<and> (\<forall>p\<in>set (pk_buffers s). pb_cookie p < 0xffffff \<and> (\<forall>b. pb_buffer p = Some b \<longrightarrow> ofpbuf_wf b))"

lemma unat_idx: "unat ((x :: u32) AND PKT_BUFFER_MASK) < N_PKT_BUFFERS"
proof -
  have "x AND 0xff \<le> 0xff" by (rule word_and_le1)
  then show ?thesis by (simp add: word_le_nat_alt)
qed

lemma and_buffer_mask: "(x :: u32) AND PKT_BUFFER_MASK = take_bit PKT_BUFFER_BITS x"
  by (simp add: take_bit_eq_mask mask_eq_exp_minus_1)

text \<open>The slot and the cookie of an identifier.\<close>

lemma ident_parts:
  fixes i c :: u32
  assumes "take_bit 8 i = i" "c < 0xffffff"
  shows "(i OR push_bit 8 c) AND PKT_BUFFER_MASK = i" "drop_bit 8 (i OR push_bit 8 c) = c"
proof -
  have i: "\<not> bit i n" if "8 \<le> n" for n using assms(1) that by (metis bit_take_bit_iff not_le)
  have "c < 2 ^ 24" using assms(2) by (rule less_trans) simp
  then have "unat c < 2 ^ 24" by (simp add: word_less_nat_alt)
  then have "take_bit 24 c = c" by (simp add: word_unat_eq_iff unsigned_take_bit_eq take_bit_nat_eq_self)
  then have c: "\<not> bit c n" if "24 \<le> n" for n using that by (metis bit_take_bit_iff not_le)
  show "(i OR push_bit 8 c) AND PKT_BUFFER_MASK = i"
    unfolding and_buffer_mask by (rule bit_word_eqI) (use i in \<open>auto simp: bit_simps\<close>)
  show "drop_bit 8 (i OR push_bit 8 c) = c"
    by (rule bit_word_eqI) (use i c not_le in \<open>auto simp: bit_simps\<close>)
qed

lemma ident_not_special:
  fixes i c :: u32
  assumes "take_bit 8 i = i" "c < 0xffffff"
  shows "i OR push_bit 8 c \<noteq> NO_BUFFER"
proof
  assume "i OR push_bit 8 c = NO_BUFFER"
  then have "c = drop_bit 8 NO_BUFFER" using ident_parts(2) [OF assms] by simp
  then show False using assms(2) by simp
qed

text \<open>What \<^verbatim>\<open>save_buffer\<close> does when it finds its slot free or old.\<close>

lemma save_buffer_cases [consumes 2, case_names full saved]:
  assumes inv: "buffers_inv s" and sv: "save_buffer m now b s = (ident, s')"
  obtains "ident = NO_BUFFER" "pk_buffers s' = pk_buffers s"
  | c i t where "ident = i OR push_bit 8 c" "take_bit 8 i = i" "c < 0xffffff" "unat i < N_PKT_BUFFERS"
      "pk_buffers s' = (pk_buffers s)[unat i := \<lparr>pb_buffer = Some (ofpbuf_clone m b), pb_cookie = c, pb_timeout = t\<rparr>]"
      "c = pb_cookie (pk_buffers s ! unat i) + 1 \<or> c = 0"
proof -
  define i where "i = (pk_buffer_idx s + 1) AND PKT_BUFFER_MASK"
  let ?p = "pk_buffers s ! unat i"
  define c where "c = (if pb_cookie ?p + 1 \<ge> 0xffffff then 0 else pb_cookie ?p + 1)"
  have i: "take_bit 8 i = i" "unat i < N_PKT_BUFFERS"
    using unat_idx by (simp_all add: i_def and_buffer_mask)
  have c: "c < 0xffffff" "c = pb_cookie ?p + 1 \<or> c = 0" by (auto simp: c_def)
  show thesis
  proof (cases "pb_buffer ?p \<noteq> None \<and> now < pb_timeout ?p")
    case True
    then show thesis using sv that(1) by (auto simp: save_buffer_def Let_def i_def)
  next
    case False
    obtain pb pc pt where p: "?p = \<lparr>pb_buffer = pb, pb_cookie = pc, pb_timeout = pt\<rparr>" by (cases ?p)
    have "ident = i OR push_bit 8 c" "pk_buffers s' = (pk_buffers s)[unat i :=
        \<lparr>pb_buffer = Some (ofpbuf_clone m b), pb_cookie = c, pb_timeout = now + 1\<rparr>]"
      using sv False p by (auto simp: save_buffer_def Let_def i_def [symmetric] c_def)
    then show thesis using that(2) i c by blast
  qed
qed

lemma save_buffer_inv:
  assumes "buffers_inv s" shows "buffers_inv (snd (save_buffer m now b s))"
proof -
  obtain ident s' where sv: "save_buffer m now b s = (ident, s')" by (cases "save_buffer m now b s")
  from assms sv have "buffers_inv s'"
  proof (cases rule: save_buffer_cases)
    case (saved c i t)
    let ?p = "\<lparr>pb_buffer = Some (ofpbuf_clone m b), pb_cookie = c, pb_timeout = t\<rparr>"
    have sub: "set (pk_buffers s') \<subseteq> insert ?p (set (pk_buffers s))"
      unfolding saved(5) by (rule set_update_subset_insert)
    have "pb_cookie ?p < 0xffffff \<and> (\<forall>b. pb_buffer ?p = Some b \<longrightarrow> ofpbuf_wf b)"
      using saved(3) clone_contents(2) by simp
    then have "\<forall>p\<in>insert ?p (set (pk_buffers s)). pb_cookie p < 0xffffff \<and> (\<forall>b. pb_buffer p = Some b \<longrightarrow> ofpbuf_wf b)"
      using assms unfolding buffers_inv_def by blast
    moreover have "length (pk_buffers s') = N_PKT_BUFFERS" using assms saved(5) by (simp add: buffers_inv_def)
    ultimately show ?thesis unfolding buffers_inv_def using sub by blast
  qed (use assms in \<open>simp add: buffers_inv_def\<close>)
  then show ?thesis by (simp add: sv)
qed

lemma buffers_inv_clear:
  assumes "buffers_inv s" "i < N_PKT_BUFFERS"
  shows "buffers_inv (s\<lparr>pk_buffers := (pk_buffers s)[i := (pk_buffers s ! i)\<lparr>pb_buffer := None\<rparr>]\<rparr>)"
proof -
  have "pk_buffers s ! i \<in> set (pk_buffers s)" using assms by (simp add: buffers_inv_def)
  then show ?thesis
    using assms set_update_subset_insert [of "pk_buffers s" i "(pk_buffers s ! i)\<lparr>pb_buffer := None\<rparr>"]
    by (auto simp: buffers_inv_def)
qed

lemma retrieve_buffer_inv: "buffers_inv s \<Longrightarrow> buffers_inv (snd (retrieve_buffer ident s))"
  using buffers_inv_clear unat_idx by (simp add: retrieve_buffer_def Let_def)

lemma discard_buffer_inv: "buffers_inv s \<Longrightarrow> buffers_inv (discard_buffer ident s)"
  using buffers_inv_clear unat_idx by (simp add: discard_buffer_def Let_def)

lemma retrieve_buffer_wf:
  "buffers_inv s \<Longrightarrow> fst (retrieve_buffer ident s) = Some b \<Longrightarrow> ofpbuf_wf b"
  using unat_idx [of ident] by (auto simp: retrieve_buffer_def Let_def buffers_inv_def split: if_splits)

lemma saved_retrieved:
  assumes "buffers_inv s" "save_buffer m now b s = (ident, s')" "ident \<noteq> NO_BUFFER"
  shows "retrieve_buffer ident s' = (Some (ofpbuf_clone m b), discard_buffer ident s')
    \<and> fst (retrieve_buffer ident (discard_buffer ident s')) = None"
  using assms(1,2)
proof (cases rule: save_buffer_cases)
  case full
  then show ?thesis using assms(3) by simp
next
  case (saved c i t)
  note parts = ident_parts [OF saved(2,3)]
  have len: "length (pk_buffers s) = N_PKT_BUFFERS" using assms(1) by (simp add: buffers_inv_def)
  show ?thesis using saved len parts by (simp add: retrieve_buffer_def discard_buffer_def Let_def)
qed

section \<open>Properties\<close>

text \<open>
  C12. The identifier of a saved packet gives back a packet with its contents, once: after it has
  been retrieved or discarded it gives nothing, and it is never the identifier for "not buffered".
\<close>

theorem saved_packet_retrieved_once:
  assumes "buffers_inv s" "save_buffer m now b s = (ident, s')" "ident \<noteq> NO_BUFFER"
  shows "\<exists>b' s''. retrieve_buffer ident s' = (Some b', s'') \<and> contents b' = contents b \<and> buffers_inv s''
    \<and> fst (retrieve_buffer ident s'') = None \<and> fst (retrieve_buffer ident (discard_buffer ident s')) = None"
proof -
  have inv: "buffers_inv s'" using save_buffer_inv [OF assms(1), of m now b] assms(2) by simp
  show ?thesis using saved_retrieved [OF assms] clone_contents(1) discard_buffer_inv [OF inv] by auto
qed

text \<open>
  A later packet saved in the same slot gets another identifier, until the cookie of the slot has
  gone through all its values: a stale identifier does not give back the new packet.
\<close>

theorem stale_identifier_not_retrieved:
  assumes "buffers_inv s" "save_buffer m now b s = (ident, s')" "ident \<noteq> NO_BUFFER"
    "old AND PKT_BUFFER_MASK = ident AND PKT_BUFFER_MASK"
    "drop_bit PKT_BUFFER_BITS old = pb_cookie (pk_buffers s ! unat (old AND PKT_BUFFER_MASK))"
    "pb_cookie (pk_buffers s ! unat (old AND PKT_BUFFER_MASK)) \<noteq> 0"
  shows "fst (retrieve_buffer old s') = None"
  using assms(1,2)
proof (cases rule: save_buffer_cases)
  case full
  then show ?thesis using assms(3) by simp
next
  case (saved c i t)
  have i: "old AND PKT_BUFFER_MASK = i" using assms(4) saved(1) ident_parts(1) [OF saved(2,3)] by simp
  have "length (pk_buffers s) = N_PKT_BUFFERS" using assms(1) by (simp add: buffers_inv_def)
  then have "pb_cookie (pk_buffers s' ! unat i) = c" using saved(4,5) by simp
  moreover have "c \<noteq> drop_bit PKT_BUFFER_BITS old" using saved(6) assms(5,6) i by auto
  ultimately show ?thesis using i by (simp add: retrieve_buffer_def Let_def)
qed

section \<open>Witnesses\<close>

definition sample_buffers :: pkt_buffers where
  "sample_buffers = \<lparr>pk_buffers = replicate N_PKT_BUFFERS \<lparr>pb_buffer = None, pb_cookie = 0, pb_timeout = 0\<rparr>,
     pk_buffer_idx = 0\<rparr>"

lemma sample_buffers_inv: "buffers_inv sample_buffers"
  by (simp add: buffers_inv_def sample_buffers_def)

theorem saved_packet_retrieved_once_witness:
  "\<exists>ident s' b' s''. save_buffer (\<lambda>_. 0) 5 (ofpbuf_use [1, 2]) sample_buffers = (ident, s')
     \<and> ident = 0x101 \<and> retrieve_buffer ident s' = (Some b', s'') \<and> fst (retrieve_buffer ident s'') = None"
proof -
  have "unat ((0 + 1 :: u32) AND PKT_BUFFER_MASK) < 256" by (rule unat_idx)
  then have "fst (save_buffer (\<lambda>_. 0) 5 (ofpbuf_use [1, 2]) sample_buffers) = 0x101"
    by (simp add: save_buffer_def sample_buffers_def Let_def nth_replicate word_le_nat_alt del: replicate.simps replicate_Suc)
  then obtain s' where s: "save_buffer (\<lambda>_. 0) 5 (ofpbuf_use [1, 2]) sample_buffers = (0x101, s')"
    by (cases "save_buffer (\<lambda>_. 0) 5 (ofpbuf_use [1, 2]) sample_buffers") auto
  have "(0x101 :: u32) \<noteq> NO_BUFFER" by simp
  from saved_packet_retrieved_once [OF sample_buffers_inv s this] s show ?thesis by blast
qed

end
