(* ===== verification/Datapath.thy ===== *)
theory Datapath
  imports Chain Pkt_Buffer Ofagent
begin

text \<open>
  The data plane of \<^verbatim>\<open>src/openflow/udatapath/datapath.c\<close>: ports, connections to controllers, output to
  ports and to controllers, and the processing of packets by the flow tables. Ports are referred to
  by their index in \<^verbatim>\<open>dp->ports\<close>, the local port by \<open>OFPP_LOCAL\<close>; connections by their place in the list
  \<^verbatim>\<open>dp->remotes\<close>. What comes from outside the program is in \<open>dp_env\<close>: the clock, what \<^verbatim>\<open>malloc\<close> leaves in
  memory, whether a network device takes a packet, what it says of itself, and whether a connection
  passes a message on at once. The build is the one without \<^verbatim>\<open>OF_HW_PLAT\<close>.
\<close>

section \<open>Constants\<close>

abbreviation OFPP_NORMAL :: u16 where "OFPP_NORMAL \<equiv> 0xfffa"
abbreviation OFPP_FLOOD :: u16 where "OFPP_FLOOD \<equiv> 0xfffb"
abbreviation OFPP_ALL :: u16 where "OFPP_ALL \<equiv> 0xfffc"
abbreviation OFPP_LOCAL :: u16 where "OFPP_LOCAL \<equiv> 0xfffe"
abbreviation DP_MAX_PORTS :: u16 where "DP_MAX_PORTS \<equiv> 255"

abbreviation OFPT_ERROR :: u8 where "OFPT_ERROR \<equiv> 1"
abbreviation OFPT_PACKET_IN :: u8 where "OFPT_PACKET_IN \<equiv> 10"
abbreviation OFPT_FLOW_REMOVED :: u8 where "OFPT_FLOW_REMOVED \<equiv> 11"
abbreviation OFPT_PORT_STATUS :: u8 where "OFPT_PORT_STATUS \<equiv> 12"

abbreviation OFPPC_PORT_DOWN :: u32 where "OFPPC_PORT_DOWN \<equiv> 1"
abbreviation OFPPC_NO_RECV :: u32 where "OFPPC_NO_RECV \<equiv> 4"
abbreviation OFPPC_NO_RECV_STP :: u32 where "OFPPC_NO_RECV_STP \<equiv> 8"
abbreviation OFPPC_NO_FLOOD :: u32 where "OFPPC_NO_FLOOD \<equiv> 16"
abbreviation OFPPS_LINK_DOWN :: u32 where "OFPPS_LINK_DOWN \<equiv> 1"
abbreviation SWP_USED :: u32 where "SWP_USED \<equiv> 1"
abbreviation SWP_HW_DRV_PORT :: u32 where "SWP_HW_DRV_PORT \<equiv> 2"
abbreviation OFPC_FRAG_DROP :: u16 where "OFPC_FRAG_DROP \<equiv> 1"
abbreviation OFPC_FRAG_MASK :: u16 where "OFPC_FRAG_MASK \<equiv> 3"
abbreviation OFPR_NO_MATCH :: u8 where "OFPR_NO_MATCH \<equiv> 0"
abbreviation OFPPR_ADD :: u8 where "OFPPR_ADD \<equiv> 0"

abbreviation TXQ_LIMIT :: nat where "TXQ_LIMIT \<equiv> 128"
abbreviation ESRCH :: int where "ESRCH \<equiv> 3"
abbreviation EAGAIN :: int where "EAGAIN \<equiv> 11"
abbreviation EXFULL :: int where "EXFULL \<equiv> 54"
abbreviation ENOTCONN :: int where "ENOTCONN \<equiv> 107"
abbreviation stp_eth_addr :: eth_addr where "stp_eth_addr \<equiv> 0x0180c2000000"

section \<open>State\<close>

record netdev_info =
  ni_name :: string
  ni_etheraddr :: eth_addr
  ni_current :: u32
  ni_supported :: u32
  ni_advertised :: u32
  ni_peer :: u32

text \<open>
  \<open>ev_send d n\<close>: device \<open>d\<close> takes the packet that is the \<open>n\<close>-th that the datapath sends;
  \<open>ev_tx n\<close>: a connection passes on at once the message that is its \<open>n\<close>-th.
\<close>

record dp_env =
  ev_junk :: junk
  ev_now :: int
  ev_msec :: u64
  ev_send :: "nat \<Rightarrow> nat \<Rightarrow> bool"
  ev_tx :: "nat \<Rightarrow> bool"
  ev_netdev :: "nat \<Rightarrow> netdev_info"

record sw_queue =
  sq_tx_packets :: u64
  sq_tx_bytes :: u64
  sq_tx_errors :: u64
  sq_queue_id :: u32
  sq_class_id :: u16
  sq_property :: u16
  sq_min_rate :: u16

record sw_port =
  pt_config :: u32
  pt_state :: u32
  pt_flags :: u32
  pt_netdev :: "nat option"
  pt_rx_packets :: u64
  pt_tx_packets :: u64
  pt_rx_bytes :: u64
  pt_tx_bytes :: u64
  pt_tx_dropped :: u64
  pt_port_no :: u16
  pt_netdev_name :: string
  pt_num_queues :: u16
  pt_queue_list :: "sw_queue list"

text \<open>The states of the statistics that are sent in several messages, and the pending reply.\<close>

datatype stats_state =
    No_state
  | Flow_stats_state u8 ofp_match u16 nat sw_table_position
  | Aggregate_stats_state u8 ofp_match u16
  | Port_stats_state nat u16
  | Queue_stats_state u16 u32

record stats_dump_cb =
  cb_done :: bool
  cb_xid :: u32
  cb_type :: u16
  cb_state :: stats_state

text \<open>\<open>rm_txq\<close> holds every message the connection has accepted.\<close>

record remote =
  rm_connected :: bool
  rm_n_txq :: nat
  rm_txq :: "u8 list list"
  rm_cb_dump :: "stats_dump_cb option"

text \<open>\<open>dp_net\<close> records the packets passed to network devices: device, contents, class and success.\<close>

record datapath =
  dp_remotes :: "remote list"
  dp_last_timeout :: int
  dp_id :: u64
  dp_desc :: string
  dp_chain :: sw_chain
  dp_flags :: u16
  dp_miss_send_len :: u16
  dp_ports :: "sw_port list"
  dp_local_port :: "sw_port option"
  dp_port_list :: "u16 list"
  dp_buffers :: pkt_buffers
  dp_net :: "(nat \<times> u8 list \<times> u16 \<times> bool) list"

record sender =
  sd_remote :: nat
  sd_xid :: u32

section \<open>Ports\<close>

definition dp_lookup_port :: "datapath \<Rightarrow> u16 \<Rightarrow> u16 option" where
  "dp_lookup_port dp port_no =
     (if port_no < DP_MAX_PORTS then Some port_no
      else if port_no = OFPP_LOCAL \<and> dp_local_port dp \<noteq> None then Some port_no
      else None)"

text \<open>The port a reference stands for, and its update.\<close>

definition port_at :: "datapath \<Rightarrow> u16 \<Rightarrow> sw_port" where
  "port_at dp p = (if p < DP_MAX_PORTS then dp_ports dp ! unat p else the (dp_local_port dp))"

definition port_upd :: "u16 \<Rightarrow> (sw_port \<Rightarrow> sw_port) \<Rightarrow> datapath \<Rightarrow> datapath" where
  "port_upd p f dp =
     (if p < DP_MAX_PORTS then dp\<lparr>dp_ports := (dp_ports dp)[unat p := f (dp_ports dp ! unat p)]\<rparr>
      else dp\<lparr>dp_local_port := map_option f (dp_local_port dp)\<rparr>)"

definition dp_lookup_queue :: "sw_port \<Rightarrow> u32 \<Rightarrow> sw_queue option" where
  "dp_lookup_queue p queue_id = find (\<lambda>q. sq_queue_id q = queue_id) (pt_queue_list p)"

text \<open>The counters of the first queue with that number.\<close>

fun queue_sent :: "u32 \<Rightarrow> nat \<Rightarrow> sw_queue list \<Rightarrow> sw_queue list" where
  "queue_sent queue_id n [] = []"
| "queue_sent queue_id n (q # qs) =
     (if sq_queue_id q = queue_id
      then q\<lparr>sq_tx_packets := sq_tx_packets q + 1, sq_tx_bytes := sq_tx_bytes q + of_nat n\<rparr> # qs
      else q # queue_sent queue_id n qs)"

section \<open>Messages to controllers\<close>

text \<open>
  \<^verbatim>\<open>make_openflow_xid\<close> of \<^verbatim>\<open>vconn.c\<close>; \<open>None\<close>: the assertion on the length fails. \<open>put_at\<close> writes the fields
  behind the header.
\<close>

definition make_openflow_xid :: "nat \<Rightarrow> u8 \<Rightarrow> u32 \<Rightarrow> u8 list option" where
  "make_openflow_xid openflow_len type xid =
     (if openflow_len < 8 \<or> openflow_len > 65535 then None
      else Some (ofp_header_bytes \<lparr>oh_version = 1, oh_type = type, oh_length = htons (of_nat openflow_len), oh_xid = xid\<rparr>
             @ replicate (openflow_len - 8) 0))"

definition make_openflow_reply :: "nat \<Rightarrow> u8 \<Rightarrow> sender option \<Rightarrow> u8 list option" where
  "make_openflow_reply openflow_len type sender =
     make_openflow_xid openflow_len type (case sender of Some s \<Rightarrow> sd_xid s | None \<Rightarrow> 0)"

text \<open>\<open>None\<close>: the assertion of \<^verbatim>\<open>ofpbuf_at_assert\<close> fails.\<close>

definition update_openflow_length :: "u8 list \<Rightarrow> u8 list option" where
  "update_openflow_length msg =
     (if length msg < 8 then None else Some (st16 msg 2 (htons (of_nat (length msg)))))"

text \<open>\<^verbatim>\<open>rconn_send_with_limit\<close> of \<^verbatim>\<open>rconn.c\<close>: a connection that breaks is noticed when it is next run.\<close>

definition rconn_send_with_limit :: "dp_env \<Rightarrow> u8 list \<Rightarrow> remote \<Rightarrow> int \<times> remote" where
  "rconn_send_with_limit env b r =
     (if rm_n_txq r \<ge> TXQ_LIMIT then (EAGAIN, r)
      else if \<not> rm_connected r then (ENOTCONN, r)
      else (0, r\<lparr>rm_n_txq := (if ev_tx env (length (rm_txq r)) then rm_n_txq r else rm_n_txq r + 1),
                 rm_txq := rm_txq r @ [b]\<rparr>))"

definition send_openflow_buffer_to_remote :: "dp_env \<Rightarrow> u8 list \<Rightarrow> nat \<Rightarrow> datapath \<Rightarrow> int \<times> datapath" where
  "send_openflow_buffer_to_remote env buffer i dp =
     (let (retval, r) = rconn_send_with_limit env buffer (dp_remotes dp ! i)
      in (retval, dp\<lparr>dp_remotes := (dp_remotes dp)[i := r]\<rparr>))"

text \<open>A message without a sender to reply to goes to every connection, copies first.\<close>

definition send_openflow_buffer :: "dp_env \<Rightarrow> u8 list \<Rightarrow> sender option \<Rightarrow> datapath \<Rightarrow> (int \<times> datapath) run" where
  "send_openflow_buffer env buffer sender dp =
     (case update_openflow_length buffer of
        None \<Rightarrow> Fault
      | Some buffer \<Rightarrow>
          Done (case sender of
                  Some s \<Rightarrow> send_openflow_buffer_to_remote env buffer (sd_remote s) dp
                | None \<Rightarrow> (0, fold (\<lambda>i dp. snd (send_openflow_buffer_to_remote env buffer i dp))
                                 [0..<length (dp_remotes dp)] dp)))"

text \<open>As \<open>send_openflow_buffer\<close>, for the calls that ignore what it returns.\<close>

definition send_msg :: "dp_env \<Rightarrow> u8 list option \<Rightarrow> sender option \<Rightarrow> datapath \<Rightarrow> datapath run" where
  "send_msg env msg sender dp =
     (case msg of
        None \<Rightarrow> Fault
      | Some buffer \<Rightarrow> (case send_openflow_buffer env buffer sender dp of
                          Fault \<Rightarrow> Fault | Done (_, dp) \<Rightarrow> Done dp))"

definition dp_send_error_msg :: "dp_env \<Rightarrow> sender option \<Rightarrow> u16 \<Rightarrow> u16 \<Rightarrow> u8 list \<Rightarrow> datapath \<Rightarrow> datapath run" where
  "dp_send_error_msg env sender type code data dp =
     send_msg env
       (map_option (\<lambda>oem. stn (st16 (st16 oem 8 (htons type)) 10 (htons code)) 12 data)
          (make_openflow_reply (12 + length data) OFPT_ERROR sender)) sender dp"

text \<open>The time since \<open>created\<close> in seconds and the rest in nanoseconds, in network byte order.\<close>

definition duration_sec :: "u64 \<Rightarrow> u64 \<Rightarrow> u32" where
  "duration_sec now created = ucast ((now - created) div 1000)"

definition duration_nsec :: "u64 \<Rightarrow> u64 \<Rightarrow> u32" where
  "duration_nsec now created =
     ucast ((now - created - ucast (duration_sec now created * 1000)) * 1000000)"

definition flow_removed_msg :: "u64 \<Rightarrow> sw_flow \<Rightarrow> u8 \<Rightarrow> u8 list" where
  "flow_removed_msg now flow reason =
     ofp_header_bytes \<lparr>oh_version = 1, oh_type = OFPT_FLOW_REMOVED, oh_length = htons 88, oh_xid = 0\<rparr>
     @ ofp_match_bytes (flow_fill_match zero_match (k_flow (sf_key flow)) (k_wildcards (sf_key flow)))
     @ le64 (htonll (sf_cookie flow)) @ le16 (htons (sf_priority flow)) @ [reason, 0]
     @ le32 (htonl (duration_sec now (sf_created flow))) @ le32 (htonl (duration_nsec now (sf_created flow)))
     @ le16 (htons (sf_idle_timeout flow)) @ [0, 0]
     @ le64 (htonll (sf_packet_count flow)) @ le64 (htonll (sf_byte_count flow))"

definition dp_send_flow_end :: "dp_env \<Rightarrow> sw_flow \<Rightarrow> u8 \<Rightarrow> datapath \<Rightarrow> datapath run" where
  "dp_send_flow_end env flow reason dp =
     (if sf_send_flow_rem flow = 0 then Done dp
      else if sf_emerg_flow flow \<noteq> 0 then Done dp
      else send_msg env (Some (flow_removed_msg (ev_msec env) flow reason)) None dp)"

section \<open>Descriptions of ports\<close>

definition strncpy :: "string \<Rightarrow> nat \<Rightarrow> u8 list" where
  "strncpy s n = map of_char (take n s) @ replicate (n - length s) 0"

text \<open>
  The port is changed too. Without a network device the code writes the port number to
  \<^verbatim>\<open>desc->hw_addr[15]\<close>, which is the tenth character of the name.
\<close>

definition fill_port_desc :: "dp_env \<Rightarrow> sw_port \<Rightarrow> u8 list \<times> sw_port" where
  "fill_port_desc env p =
     (let desc = st16 (replicate 48 0) 0 (htons (pt_port_no p));
          (desc, p) =
            (case pt_netdev p of
               Some d \<Rightarrow>
                 (let i = ev_netdev env d;
                      desc = st8 (stn desc 8 (strncpy (ni_name i) 16)) 23 0;
                      desc = stn desc 2 (eth_bytes (ni_etheraddr i));
                      desc = st32 desc 32 (htonl (ni_current i));
                      desc = st32 desc 40 (htonl (ni_supported i));
                      desc = st32 desc 36 (htonl (ni_advertised i));
                      desc = st32 desc 44 (htonl (ni_peer i))
                  in (desc, p))
             | None \<Rightarrow>
                 (let desc = stn desc 8 (strncpy (pt_netdev_name p) 16);
                      desc = stn desc 2 (replicate 6 0x30);
                      desc = st8 desc (2 + 15) (ucast (pt_port_no p))
                  in (desc, p\<lparr>pt_state := pt_state p AND NOT OFPPS_LINK_DOWN,
                             pt_config := pt_config p AND NOT OFPPC_PORT_DOWN\<rparr>)))
      in (st32 (st32 desc 24 (htonl (pt_config p))) 28 (htonl (pt_state p)), p))"

definition send_port_status :: "dp_env \<Rightarrow> u16 \<Rightarrow> u8 \<Rightarrow> datapath \<Rightarrow> datapath run" where
  "send_port_status env p status dp =
     (let (desc, port) = fill_port_desc env (port_at dp p)
      in send_msg env (map_option (\<lambda>ops. stn (st8 ops 8 status) 16 desc) (make_openflow_xid 64 OFPT_PORT_STATUS 0))
           None (port_upd p (\<lambda>_. port) dp))"

section \<open>Creation\<close>

definition zero_sw_port :: sw_port where
  "zero_sw_port = \<lparr>pt_config = 0, pt_state = 0, pt_flags = 0, pt_netdev = None, pt_rx_packets = 0, pt_tx_packets = 0,
     pt_rx_bytes = 0, pt_tx_bytes = 0, pt_tx_dropped = 0, pt_port_no = 0, pt_netdev_name = [],
     pt_num_queues = 0, pt_queue_list = []\<rparr>"

text \<open>
  \<open>random_id\<close> is what \<^verbatim>\<open>gen_datapath_id\<close> gives, \<open>desc\<close> the description; \<open>chain\<close> is what \<^verbatim>\<open>chain_create\<close> returns.
  The packet buffers are a static array that is not changed.
\<close>

definition dp_new :: "dp_env \<Rightarrow> bool \<Rightarrow> u64 \<Rightarrow> string \<Rightarrow> sw_chain option \<Rightarrow> pkt_buffers \<Rightarrow> u64
    \<Rightarrow> int \<times> datapath option \<times> string list option" where
  "dp_new env ok random_id desc chain buffers dpid =
     (if \<not> ok then (ENOMEM, None, None)
      else
        (case chain of
           None \<Rightarrow> (ENOMEM, None, Some init_port_list)
         | Some chain \<Rightarrow>
             (0, Some \<lparr>dp_remotes = [], dp_last_timeout = ev_now env,
                dp_id = (if dpid \<le> 0xffffffffffff then dpid else random_id),
                dp_desc = take 256 desc, dp_chain = chain, dp_flags = 0, dp_miss_send_len = 128,
                dp_ports = replicate 255 zero_sw_port, dp_local_port = None, dp_port_list = [],
                dp_buffers = buffers, dp_net = []\<rparr>, Some init_port_list)))"

text \<open>
  \<open>uninit\<close> is the value of the local variable \<^verbatim>\<open>netdev\<close>, which is never set. \<open>Fault\<close>: the name does not fit,
  or the port is already a node of the list of ports, which is then linked anew.
\<close>

definition new_port :: "dp_env \<Rightarrow> nat option \<Rightarrow> u16 \<Rightarrow> string \<Rightarrow> u16 \<Rightarrow> datapath \<Rightarrow> (int \<times> datapath) run" where
  "new_port env uninit port_no netdev_name num_queues dp =
     (if length netdev_name \<ge> 200 \<or> port_no \<in> set (dp_port_list dp) then Fault
      else
        (let port = zero_sw_port\<lparr>pt_flags := SWP_USED OR SWP_HW_DRV_PORT,
               pt_netdev := (if port_no = OFPP_LOCAL then uninit else None), pt_port_no := port_no,
               pt_netdev_name := netdev_name, pt_num_queues := num_queues\<rparr>;
             dp = port_upd port_no (\<lambda>_. port) dp;
             dp = dp\<lparr>dp_port_list := dp_port_list dp @ [port_no]\<rparr>
         in case send_port_status env port_no OFPPR_ADD dp of Fault \<Rightarrow> Fault | Done dp \<Rightarrow> Done (0, dp)))"

definition dp_add_port :: "dp_env \<Rightarrow> string \<Rightarrow> u16 \<Rightarrow> u16 \<Rightarrow> string list \<Rightarrow> datapath
    \<Rightarrow> (int \<times> string list \<times> datapath) run" where
  "dp_add_port env netdev num_queues port_no names dp =
     (if \<not> port_no < DP_MAX_PORTS then Fault
      else if pt_netdev (port_at dp port_no) = None then
        (case add_port netdev (uint port_no) names of
           None \<Rightarrow> Fault
         | Some names \<Rightarrow>
             (case new_port env None port_no netdev num_queues dp of
                Fault \<Rightarrow> Fault | Done (e, dp) \<Rightarrow> Done (e, names, dp)))
      else Done (EXFULL, names, dp))"

definition dp_add_local_port :: "dp_env \<Rightarrow> nat option \<Rightarrow> string \<Rightarrow> u16 \<Rightarrow> datapath \<Rightarrow> (int \<times> datapath) run" where
  "dp_add_local_port env uninit netdev num_queues dp =
     (if dp_local_port dp = None then
        new_port env uninit OFPP_LOCAL netdev num_queues (dp\<lparr>dp_local_port := Some zero_sw_port\<rparr>)
      else Done (EXFULL, dp))"

section \<open>Output\<close>

definition output_packet :: "dp_env \<Rightarrow> ofpbuf \<Rightarrow> u16 \<Rightarrow> u32 \<Rightarrow> datapath \<Rightarrow> datapath" where
  "output_packet env buffer out_port queue_id dp =
     (case dp_lookup_port dp out_port of
        None \<Rightarrow> dp
      | Some p \<Rightarrow>
          (case pt_netdev (port_at dp p) of
             None \<Rightarrow> dp
           | Some netdev \<Rightarrow>
               (if flag_set (pt_config (port_at dp p)) OFPPC_PORT_DOWN then dp
                else
                  (let q = (if queue_id = 0 then None else dp_lookup_queue (port_at dp p) queue_id)
                   in if queue_id \<noteq> 0 \<and> q = None then dp
                      else
                        (let class_id = (case q of None \<Rightarrow> 0 | Some q \<Rightarrow> sq_class_id q);
                             ok = ev_send env netdev (length (dp_net dp));
                             dp = dp\<lparr>dp_net := dp_net dp @ [(netdev, contents buffer, class_id, ok)]\<rparr>
                         in port_upd p (\<lambda>port.
                              if ok then
                                port\<lparr>pt_tx_packets := pt_tx_packets port + 1,
                                     pt_tx_bytes := pt_tx_bytes port + of_nat (ob_size buffer),
                                     pt_queue_list := (if q = None then pt_queue_list port
                                        else queue_sent queue_id (ob_size buffer) (pt_queue_list port))\<rparr>
                              else port\<lparr>pt_tx_dropped := pt_tx_dropped port + 1\<rparr>) dp)))))"

text \<open>\<open>Fault\<close>: there is no headroom for the header of the message.\<close>

definition dp_output_control :: "dp_env \<Rightarrow> ofpbuf \<Rightarrow> u16 \<Rightarrow> nat \<Rightarrow> u8 \<Rightarrow> datapath \<Rightarrow> datapath run" where
  "dp_output_control env buffer in_port max_len reason dp =
     (let (buffer_id, bufs) = save_buffer (ev_junk env) (ev_now env) buffer (dp_buffers dp);
          dp = dp\<lparr>dp_buffers := bufs\<rparr>;
          total_len = ob_size buffer;
          buffer = (if buffer_id \<noteq> NO_BUFFER \<and> ob_size buffer > max_len then buffer\<lparr>ob_size := max_len\<rparr> else buffer);
          opi = ofp_header_bytes \<lparr>oh_version = 1, oh_type = OFPT_PACKET_IN,
                    oh_length = htons (of_nat (18 + ob_size buffer)), oh_xid = htonl 0\<rparr>
                @ le32 (htonl buffer_id) @ le16 (htons (of_nat total_len)) @ le16 (htons in_port) @ [reason, 0]
      in case ofpbuf_push buffer opi of
           None \<Rightarrow> Fault
         | Some (_, buffer) \<Rightarrow> send_msg env (Some (contents buffer)) None dp)"

text \<open>
  The output ports of \<^verbatim>\<open>output_all\<close>, in the order of the list of ports, with the buffer for each: a clone
  for all but the last.
\<close>

definition all_ports :: "datapath \<Rightarrow> u16 \<Rightarrow> bool \<Rightarrow> u16 list" where
  "all_ports dp in_port flood =
     map (\<lambda>p. pt_port_no (port_at dp p))
       (filter (\<lambda>p. pt_port_no (port_at dp p) \<noteq> in_port
                  \<and> \<not> (flood \<and> flag_set (pt_config (port_at dp p)) OFPPC_NO_FLOOD)) (dp_port_list dp))"

fun share_buffer :: "junk \<Rightarrow> ofpbuf \<Rightarrow> u16 list \<Rightarrow> (ofpbuf \<times> u16) list" where
  "share_buffer m buffer [] = []"
| "share_buffer m buffer [p] = [(buffer, p)]"
| "share_buffer m buffer (p # ps) = (ofpbuf_clone m buffer, p) # share_buffer m buffer ps"

text \<open>
  The counters of the entry that a lookup has found. The entry is the object with the address
  \<open>addr\<close>.
\<close>

fun table_entry_upd :: "nat \<Rightarrow> (sw_flow \<Rightarrow> sw_flow) \<Rightarrow> sw_table \<Rightarrow> sw_table" where
  "table_entry_upd addr f (Linear t) =
     Linear (t\<lparr>tl_flows := map (\<lambda>g. if sf_addr g = addr then f g else g) (tl_flows t)\<rparr>)"
| "table_entry_upd addr f (Hash2 t) =
     (let h = (\<lambda>th. th\<lparr>th_buckets := map (map_option (\<lambda>g. if sf_addr g = addr then f g else g)) (th_buckets th)\<rparr>)
      in Hash2 (t\<lparr>t2_subtable0 := h (t2_subtable0 t), t2_subtable1 := h (t2_subtable1 t)\<rparr>))"

definition chain_entry_upd :: "nat \<Rightarrow> (sw_flow \<Rightarrow> sw_flow) \<Rightarrow> sw_chain \<Rightarrow> sw_chain" where
  "chain_entry_upd addr f chain =
     chain\<lparr>ch_tables := map (table_entry_upd addr f) (ch_tables chain),
           ch_emerg_table := map_option (table_entry_upd addr f) (ch_emerg_table chain)\<rparr>"

text \<open>
  \<open>output\<close> is \<^verbatim>\<open>dp_output_port\<close>, which the actions of the flow call. \<^verbatim>\<open>execute_actions\<close> and what it calls work on
  the requests of \<open>Actions.execute_actions\<close> in order.
\<close>

definition do_dp_call :: "dp_env \<Rightarrow> (ofpbuf \<Rightarrow> u16 \<Rightarrow> u16 \<Rightarrow> u32 \<Rightarrow> datapath \<Rightarrow> datapath run option)
    \<Rightarrow> dp_call \<Rightarrow> datapath \<Rightarrow> datapath run option" where
  "do_dp_call env output c dp =
     (case c of
        Dp_output_port buffer in_port out_port queue_id _ \<Rightarrow> output buffer in_port out_port queue_id dp
      | Dp_output_control buffer in_port max_len reason \<Rightarrow>
          Some (dp_output_control env buffer in_port (unat max_len) reason dp))"

definition dp_execute_actions :: "dp_env \<Rightarrow> (ofpbuf \<Rightarrow> u16 \<Rightarrow> u16 \<Rightarrow> u32 \<Rightarrow> datapath \<Rightarrow> datapath run option)
    \<Rightarrow> ofpbuf \<Rightarrow> sw_flow_key \<Rightarrow> u8 list \<Rightarrow> datapath \<Rightarrow> datapath run option" where
  "dp_execute_actions env output buffer key actions dp =
     (case execute_actions (ev_junk env) buffer key actions False of
        None \<Rightarrow> Some Fault
      | Some (calls, _) \<Rightarrow> each_run (do_dp_call env output) calls dp)"

text \<open>The result \<^verbatim>\<open>-ESRCH\<close> leaves the buffer, with its header pointers set, to the caller.\<close>

definition run_flow_with :: "dp_env \<Rightarrow> (ofpbuf \<Rightarrow> u16 \<Rightarrow> u16 \<Rightarrow> u32 \<Rightarrow> datapath \<Rightarrow> datapath run option)
    \<Rightarrow> ofpbuf \<Rightarrow> u16 option \<Rightarrow> datapath \<Rightarrow> (int \<times> ofpbuf \<times> datapath) run option" where
  "run_flow_with env output buffer p dp =
     (let (frag, buffer, flow) =
            flow_extract buffer (case p of Some p \<Rightarrow> pt_port_no (port_at dp p) | None \<Rightarrow> OFPP_NONE);
          key = \<lparr>k_flow = flow, k_wildcards = 0, k_nw_src_mask = 0, k_nw_dst_mask = 0\<rparr>;
          config = (case p of Some p \<Rightarrow> pt_config (port_at dp p) | None \<Rightarrow> 0)
      in if frag \<and> dp_flags dp AND OFPC_FRAG_MASK = OFPC_FRAG_DROP then Some (Done (0, buffer, dp))
         else if flag_set config (OFPPC_NO_RECV OR OFPPC_NO_RECV_STP)
             \<and> flag_set config (if \<not> eth_addr_equals (fl_dl_dst flow) stp_eth_addr then OFPPC_NO_RECV
                               else OFPPC_NO_RECV_STP) then
           Some (Done (0, buffer, dp))
         else
           (case chain_lookup (dp_chain dp) key False of
              None \<Rightarrow> Some Fault
            | Some (None, chain) \<Rightarrow> Some (Done (- ESRCH, buffer, dp\<lparr>dp_chain := chain\<rparr>))
            | Some (Some f, chain) \<Rightarrow>
                bind_run
                  (dp_execute_actions env output buffer key (sf_acts f)
                     (dp\<lparr>dp_chain := chain_entry_upd (sf_addr f)
                           (\<lambda>f. flow_used (ev_msec env) f (ob_size buffer)) chain\<rparr>))
                  (\<lambda>dp. Some (Done (0, buffer, dp)))))"

text \<open>
  \<^verbatim>\<open>dp_output_port\<close>, with the depth of its recursion as fuel: the output to \<^verbatim>\<open>OFPP_TABLE\<close> runs the packet through
  the tables, whose actions output again.
\<close>

primrec dp_output_port :: "nat \<Rightarrow> dp_env \<Rightarrow> ofpbuf \<Rightarrow> u16 \<Rightarrow> u16 \<Rightarrow> u32 \<Rightarrow> datapath \<Rightarrow> datapath run option" where
  "dp_output_port 0 = (\<lambda>env buffer in_port out_port queue_id dp. None)"
| "dp_output_port (Suc n) = (\<lambda>env buffer in_port out_port queue_id dp.
     if out_port = OFPP_IN_PORT then Some (Done (output_packet env buffer in_port queue_id dp))
     else if out_port = OFPP_TABLE then
       bind_run (run_flow_with env (dp_output_port n env) buffer (dp_lookup_port dp in_port) dp)
         (\<lambda>(_, _, dp). Some (Done dp))
     else if out_port = OFPP_FLOOD \<or> out_port = OFPP_ALL then
       each_run (\<lambda>(b, p). dp_output_port n env b in_port p 0)
         (share_buffer (ev_junk env) buffer (all_ports dp in_port (out_port = OFPP_FLOOD))) dp
     else if out_port = OFPP_CONTROLLER then
       Some (dp_output_control env buffer in_port 0xffff OFPR_ACTION dp)
     else if in_port = out_port then Some (Done dp)
     else Some (Done (output_packet env buffer out_port queue_id dp)))"

definition run_flow_through_tables :: "nat \<Rightarrow> dp_env \<Rightarrow> ofpbuf \<Rightarrow> u16 option \<Rightarrow> datapath
    \<Rightarrow> (int \<times> ofpbuf \<times> datapath) run option" where
  "run_flow_through_tables n env = run_flow_with env (dp_output_port n env)"

text \<open>A null port is dereferenced when no flow matches.\<close>

definition fwd_port_input :: "nat \<Rightarrow> dp_env \<Rightarrow> ofpbuf \<Rightarrow> u16 option \<Rightarrow> datapath \<Rightarrow> datapath run option" where
  "fwd_port_input n env buffer p dp =
     bind_run (run_flow_through_tables n env buffer p dp)
       (\<lambda>(r, buffer, dp).
          if r \<noteq> 0 then
            (case p of
               None \<Rightarrow> Some Fault
             | Some p \<Rightarrow> Some (dp_output_control env buffer (pt_port_no (port_at dp p))
                                (unat (dp_miss_send_len dp)) OFPR_NO_MATCH dp))
          else Some (Done dp))"

text \<open>The part of \<^verbatim>\<open>dp_run\<close> that times flows out.\<close>

definition dp_run_timeout :: "dp_env \<Rightarrow> datapath \<Rightarrow> datapath run option" where
  "dp_run_timeout env dp =
     (if ev_now env \<noteq> dp_last_timeout dp then
        (let (chain, deleted) = chain_timeout (ev_msec env) (dp_chain dp) []
         in bind_run (each_run (\<lambda>f dp. Some (dp_send_flow_end env f (sf_reason f) dp)) deleted
                        (dp\<lparr>dp_chain := chain\<rparr>))
              (\<lambda>dp. Some (Done (dp\<lparr>dp_last_timeout := ev_now env\<rparr>))))
      else Some (Done dp))"

section \<open>Invariant\<close>

text \<open>The list of ports refers to each port once, by its number; every part of the state is well formed.\<close>

definition port_valid :: "datapath \<Rightarrow> u16 \<Rightarrow> bool" where
  "port_valid dp p \<longleftrightarrow> p < DP_MAX_PORTS \<or> p = OFPP_LOCAL \<and> dp_local_port dp \<noteq> None"

definition ports_inv :: "datapath \<Rightarrow> bool" where
  "ports_inv dp \<longleftrightarrow> length (dp_ports dp) = 255 \<and> distinct (dp_port_list dp)
     \<and> (\<forall>p\<in>set (dp_port_list dp). port_valid dp p \<and> pt_port_no (port_at dp p) = p)"

definition dp_inv :: "datapath \<Rightarrow> bool" where
  "dp_inv dp \<longleftrightarrow> chain_inv (dp_chain dp) \<and> buffers_inv (dp_buffers dp) \<and> ports_inv dp"

text \<open>What outputs leave as it is: the ports but for their counters, the flow tables and the buffers.\<close>

definition port_view :: "datapath \<Rightarrow> u16 \<Rightarrow> nat option \<times> u32 \<times> u16" where
  "port_view dp p = (let port = port_at dp p in (pt_netdev port, pt_config port, pt_port_no port))"

definition same_ports :: "datapath \<Rightarrow> datapath \<Rightarrow> bool" where
  "same_ports dp dp' \<longleftrightarrow> (\<forall>p. port_valid dp p \<longrightarrow> port_view dp' p = port_view dp p)
     \<and> dp_port_list dp' = dp_port_list dp \<and> (dp_local_port dp' = None) = (dp_local_port dp = None)
     \<and> length (dp_ports dp') = length (dp_ports dp)"

lemma same_ports_refl [simp]: "same_ports dp dp"
  by (simp add: same_ports_def)

lemma same_ports_valid: "same_ports dp dp' \<Longrightarrow> port_valid dp' p = port_valid dp p"
  by (simp add: same_ports_def port_valid_def)

lemma same_ports_trans: "same_ports a b \<Longrightarrow> same_ports b c \<Longrightarrow> same_ports a c"
  using same_ports_valid [of a b] by (simp add: same_ports_def)

lemma same_ports_inv: "same_ports dp dp' \<Longrightarrow> ports_inv dp \<Longrightarrow> ports_inv dp'"
  using same_ports_valid [of dp dp'] by (auto simp: same_ports_def ports_inv_def port_view_def Let_def)

lemma port_at_upd:
  assumes "port_valid dp p" "length (dp_ports dp) = 255" "port_valid dp q"
  shows "port_at (port_upd p f dp) q = (if q = p then f (port_at dp p) else port_at dp q)"
proof -
  have "unat r < 255" if "r < DP_MAX_PORTS" for r :: u16 using that by (simp add: word_less_nat_alt)
  moreover have "unat q \<noteq> unat p" if "q \<noteq> p" using that word_unat_eq_iff by blast
  ultimately show ?thesis using assms by (auto simp: port_upd_def port_at_def port_valid_def)
qed

lemma port_upd_same:
  assumes "port_valid dp p" "length (dp_ports dp) = 255"
    "\<And>x. pt_netdev (f x) = pt_netdev x" "\<And>x. pt_config (f x) = pt_config x" "\<And>x. pt_port_no (f x) = pt_port_no x"
  shows "same_ports dp (port_upd p f dp)"
proof -
  have "port_view (port_upd p f dp) q = port_view dp q" if "port_valid dp q" for q
    using port_at_upd [OF assms(1,2) that, of f] assms(3-5) by (simp add: port_view_def Let_def)
  then show ?thesis by (simp add: same_ports_def port_upd_def)
qed

lemma port_upd_other [simp]:
  "dp_chain (port_upd p f dp) = dp_chain dp" "dp_buffers (port_upd p f dp) = dp_buffers dp"
  "dp_net (port_upd p f dp) = dp_net dp" "dp_remotes (port_upd p f dp) = dp_remotes dp"
  "dp_port_list (port_upd p f dp) = dp_port_list dp" "dp_flags (port_upd p f dp) = dp_flags dp"
  "dp_miss_send_len (port_upd p f dp) = dp_miss_send_len dp" "dp_id (port_upd p f dp) = dp_id dp"
  "dp_desc (port_upd p f dp) = dp_desc dp" "dp_last_timeout (port_upd p f dp) = dp_last_timeout dp"
  by (simp_all add: port_upd_def)

text \<open>Which port an entry of the record of transmissions is for, without its result.\<close>

definition sent :: "nat \<times> u8 list \<times> u16 \<times> bool \<Rightarrow> nat \<times> u8 list \<times> u16" where
  "sent e = (case e of (d, b, c, ok) \<Rightarrow> (d, b, c))"

text \<open>A port that takes packets: it has a device and is not down.\<close>

definition port_up :: "datapath \<Rightarrow> u16 \<Rightarrow> bool" where
  "port_up dp p \<longleftrightarrow> pt_netdev (port_at dp p) \<noteq> None \<and> \<not> flag_set (pt_config (port_at dp p)) OFPPC_PORT_DOWN"

lemma lookup_port_valid: "dp_lookup_port dp p = (if port_valid dp p then Some p else None)"
  by (auto simp: dp_lookup_port_def port_valid_def)

lemma output_packet_none: "\<not> port_valid dp p \<Longrightarrow> output_packet env b p q dp = dp"
  by (simp add: output_packet_def lookup_port_valid)

lemma output_packet_frame:
  assumes "length (dp_ports dp) = 255"
  shows "same_ports dp (output_packet env b p q dp)" "dp_chain (output_packet env b p q dp) = dp_chain dp"
    "dp_buffers (output_packet env b p q dp) = dp_buffers dp" "dp_remotes (output_packet env b p q dp) = dp_remotes dp"
    "dp_flags (output_packet env b p q dp) = dp_flags dp"
    "dp_miss_send_len (output_packet env b p q dp) = dp_miss_send_len dp"
proof -
  have u: "same_ports dp (port_upd p f (dp\<lparr>dp_net := e\<rparr>))" if "port_valid dp p"
    "\<And>x. pt_netdev (f x) = pt_netdev x" "\<And>x. pt_config (f x) = pt_config x" "\<And>x. pt_port_no (f x) = pt_port_no x" for f e
  proof -
    have "same_ports dp (dp\<lparr>dp_net := e\<rparr>)" by (simp add: same_ports_def port_view_def port_at_def)
    moreover have "same_ports (dp\<lparr>dp_net := e\<rparr>) (port_upd p f (dp\<lparr>dp_net := e\<rparr>))"
      using that assms by (intro port_upd_same) (simp_all add: port_valid_def)
    ultimately show ?thesis by (rule same_ports_trans)
  qed
  show "same_ports dp (output_packet env b p q dp)"
  proof (cases "port_valid dp p")
    case True
    then have l: "dp_lookup_port dp p = Some p" by (simp add: lookup_port_valid)
    show ?thesis unfolding output_packet_def l using True
      by (auto simp: Let_def intro!: u split: option.split)
  qed (simp add: output_packet_none)
qed (simp_all add: output_packet_def Let_def split: option.split)

lemma output_packet_net:
  assumes "port_valid dp p"
  shows "map sent (dp_net (output_packet env b p 0 dp)) = map sent (dp_net dp)
    @ (if port_up dp p then [(the (pt_netdev (port_at dp p)), contents b, 0)] else [])"
proof -
  have l: "dp_lookup_port dp p = Some p" using assms by (simp add: lookup_port_valid)
  show ?thesis by (auto simp: output_packet_def l Let_def sent_def port_up_def split: option.split)
qed

lemma clone_share: "(c, p) \<in> set (share_buffer m b ps) \<Longrightarrow> contents c = contents b \<and> p \<in> set ps"
  by (induction m b ps rule: share_buffer.induct) (auto simp: clone_contents)

lemma share_ports: "map snd (share_buffer m b ps) = ps"
  by (induction m b ps rule: share_buffer.induct) simp_all

lemma share_contents: "map (\<lambda>(c, p). (contents c, p)) (share_buffer m b ps) = map (Pair (contents b)) ps"
  by (induction m b ps rule: share_buffer.induct) (simp_all add: clone_contents)

lemma output_physical:
  assumes "port_valid dp p" "p \<noteq> in_port"
  shows "dp_output_port (Suc n) env b in_port p q dp = Some (Done (output_packet env b p q dp))"
  using assms by (auto simp: port_valid_def)

lemma same_ports_up: "same_ports dp dp' \<Longrightarrow> port_valid dp p
  \<Longrightarrow> port_up dp' p = port_up dp p \<and> pt_netdev (port_at dp' p) = pt_netdev (port_at dp p)"
  by (simp add: same_ports_def port_view_def port_up_def Let_def)

lemma output_each:
  assumes "length (dp_ports dp) = 255" "\<forall>(c, p)\<in>set bs. port_valid dp p \<and> p \<noteq> in_port \<and> contents c = d"
  shows "\<exists>dp'. each_run (\<lambda>(b, p). dp_output_port (Suc n) env b in_port p 0) bs dp = Some (Done dp')
    \<and> same_ports dp dp' \<and> dp_chain dp' = dp_chain dp \<and> dp_buffers dp' = dp_buffers dp
    \<and> dp_remotes dp' = dp_remotes dp
    \<and> map sent (dp_net dp') = map sent (dp_net dp)
        @ map (\<lambda>p. (the (pt_netdev (port_at dp p)), d, 0)) (filter (port_up dp) (map snd bs))"
  using assms
proof (induction bs arbitrary: dp)
  case (Cons x bs)
  obtain c p where x: "x = (c, p)" by (cases x)
  have p: "port_valid dp p" "p \<noteq> in_port" "contents c = d" using Cons.prems(2) x by auto
  let ?dp = "output_packet env c p 0 dp"
  note fr = output_packet_frame [OF Cons.prems(1), of env c p 0]
  have l: "length (dp_ports ?dp) = 255" using fr(1) Cons.prems(1) by (simp add: same_ports_def)
  have "\<forall>(c, q)\<in>set bs. port_valid ?dp q \<and> q \<noteq> in_port \<and> contents c = d"
    using Cons.prems(2) same_ports_valid [OF fr(1)] by auto
  from Cons.IH [OF l this] obtain dp' where dp': "each_run (\<lambda>(b, p). dp_output_port (Suc n) env b in_port p 0) bs ?dp = Some (Done dp')"
    "same_ports ?dp dp'" "dp_chain dp' = dp_chain ?dp" "dp_buffers dp' = dp_buffers ?dp" "dp_remotes dp' = dp_remotes ?dp"
    "map sent (dp_net dp') = map sent (dp_net ?dp)
        @ map (\<lambda>p. (the (pt_netdev (port_at ?dp p)), d, 0)) (filter (port_up ?dp) (map snd bs))" by blast
  have v: "\<forall>q\<in>set (map snd bs). port_valid dp q" using Cons.prems(2) by auto
  have "map (\<lambda>p. (the (pt_netdev (port_at ?dp p)), d, 0 :: u16)) (filter (port_up ?dp) (map snd bs))
      = map (\<lambda>p. (the (pt_netdev (port_at dp p)), d, 0)) (filter (port_up dp) (map snd bs))"
    using v same_ports_up [OF fr(1)] by (induction bs) auto
  then have "map sent (dp_net dp') = map sent (dp_net dp)
        @ map (\<lambda>p. (the (pt_netdev (port_at dp p)), d, 0)) (filter (port_up dp) (map snd (x # bs)))"
    unfolding dp'(6) output_packet_net [OF p(1)] using x p(3) by simp
  moreover have "each_run (\<lambda>(b, p). dp_output_port (Suc n) env b in_port p 0) (x # bs) dp = Some (Done dp')"
    using output_physical [OF p(1,2), of n env c 0] dp'(1) by (simp add: x del: dp_output_port.simps)
  ultimately show ?case using dp'(2-5) fr same_ports_trans [OF fr(1) dp'(2)] by auto
qed simp

section \<open>The flow tables\<close>

text \<open>Updates of an entry that leave all but its counters.\<close>

definition counts_only :: "(sw_flow \<Rightarrow> sw_flow) \<Rightarrow> bool" where
  "counts_only f \<longleftrightarrow> (\<forall>x. sf_addr (f x) = sf_addr x \<and> sf_key (f x) = sf_key x \<and> sf_acts (f x) = sf_acts x
     \<and> sf_priority (f x) = sf_priority x \<and> sf_serial (f x) = sf_serial x)"

lemma flow_used_counts [simp]: "counts_only (\<lambda>f. flow_used now f n)"
  by (simp add: counts_only_def flow_used_def)

text \<open>The parts of the entries of a table that the actions on packets depend on.\<close>

definition rules :: "sw_flow list \<Rightarrow> (sw_flow_key \<times> u8 list) set" where
  "rules fs = (\<lambda>f. (sf_key f, sf_acts f)) ` set fs"

lemma rules_append [simp]: "rules (fs @ gs) = rules fs \<union> rules gs"
  by (auto simp: rules_def)

lemma occupants_map: "occupants (map (map_option r) bs) = map r (occupants bs)"
  by (induction bs rule: occupants.induct) simp_all

lemma hash_inv_map:
  assumes inv: "hash_inv th" and r: "\<And>f. sf_key (r f) = sf_key f" "\<And>f. sf_acts (r f) = sf_acts f"
  shows "hash_inv (th\<lparr>th_buckets := map (map_option r) (th_buckets th)\<rparr>)"
  using hash_invD [OF inv]
  by (intro hash_invI) (auto simp: hash_entries_def find_bucket_cong r entry_ok_def)

lemma table_entry_upd_inv:
  assumes "counts_only f" "table_inv t"
  shows "table_inv (table_entry_upd addr f t) \<and> rules (table_entries (table_entry_upd addr f t)) = rules (table_entries t)"
proof (cases t)
  case (Linear u)
  let ?r = "\<lambda>g. if sf_addr g = addr then f g else g"
  have "linear_inv (u\<lparr>tl_flows := map ?r (tl_flows u)\<rparr>)"
    using assms(2) Linear linear_invD(2) [of u]
    by (intro linear_inv_map) (use assms(1) in \<open>auto simp: counts_only_def entry_ok_def\<close>)
  moreover have "rules (map ?r (tl_flows u)) = rules (tl_flows u)"
    unfolding rules_def set_map image_image using assms(1) by (intro image_cong) (auto simp: counts_only_def)
  ultimately show ?thesis using Linear by simp
next
  case (Hash2 u)
  let ?r = "\<lambda>g. if sf_addr g = addr then f g else g"
  have h: "hash_inv (th\<lparr>th_buckets := map (map_option ?r) (th_buckets th)\<rparr>)" if "hash_inv th" for th
    using that assms(1) by (intro hash_inv_map) (auto simp: counts_only_def)
  have "rules (occupants (map (map_option ?r) bs)) = rules (occupants bs)" for bs
    unfolding occupants_map rules_def set_map image_image
    using assms(1) by (intro image_cong) (auto simp: counts_only_def)
  then show ?thesis
    using Hash2 h assms(2) by (simp add: hash2_inv_def hash2_entries_def hash_entries_def Let_def)
qed

definition chain_rules :: "sw_chain \<Rightarrow> (sw_flow_key \<times> u8 list) set" where
  "chain_rules chain = rules (chain_entries chain)"

lemma tables_upd_rules:
  assumes "counts_only f" "\<forall>t\<in>set ts. table_inv t"
  shows "rules (tables_entries (map (table_entry_upd addr f) ts)) = rules (tables_entries ts)"
  using assms(2) table_entry_upd_inv [OF assms(1)] by (induction ts) simp_all

lemma chain_entry_upd_inv:
  assumes "counts_only f" "chain_inv chain"
  shows "chain_inv (chain_entry_upd addr f chain)" "chain_rules (chain_entry_upd addr f chain) = chain_rules chain"
proof -
  have ts: "\<forall>t\<in>set (ch_tables chain). table_inv t" using assms(2) by (simp add: chain_inv_def)
  obtain e where "ch_emerg_table chain = Some e" "table_inv e" using assms(2) by (auto simp: chain_inv_def)
  then show "chain_inv (chain_entry_upd addr f chain)"
    using assms ts table_entry_upd_inv [OF assms(1)] by (auto simp: chain_inv_def chain_entry_upd_def)
  show "chain_rules (chain_entry_upd addr f chain) = chain_rules chain"
    using tables_upd_rules [OF assms(1) ts, of addr] by (simp add: chain_rules_def chain_entry_upd_def)
qed

text \<open>A lookup: the chain keeps its invariant and its rules; what is found is a rule that matches.\<close>

lemma chain_lookup_result:
  assumes "chain_inv chain" "packet_key p"
  shows "\<exists>r chain'. chain_lookup chain p False = Some (r, chain') \<and> chain_inv chain' \<and> chain_rules chain' = chain_rules chain
    \<and> (case r of
         None \<Rightarrow> \<forall>(k, acts)\<in>chain_rules chain. \<not> flow_matches_1wild p k
       | Some f \<Rightarrow> (sf_key f, sf_acts f) \<in> chain_rules chain \<and> entry_matches p f \<and> entry_ok f)"
proof -
  obtain r ts where l: "lookup_tables (ch_tables chain) p = (r, ts)" by fastforce
  have inv: "\<forall>t\<in>set (ch_tables chain). table_inv t" using assms(1) by (simp add: chain_inv_def)
  note c = lookup_tables_correct [OF inv assms(2) l]
  let ?chain = "chain\<lparr>ch_tables := ts\<rparr>"
  have "chain_lookup chain p False = Some (r, ?chain)"
    using l packet_key_wildcards [OF assms(2)] by (simp add: chain_lookup_def)
  moreover have "chain_inv ?chain" using assms(1) c map_eq_imp_length_eq by (fastforce simp: chain_inv_def)
  moreover have "chain_rules ?chain = chain_rules chain" using c by (simp add: chain_rules_def tables_entries_def)
  moreover have "case r of None \<Rightarrow> \<forall>(k, acts)\<in>chain_rules chain. \<not> flow_matches_1wild p k
    | Some f \<Rightarrow> (sf_key f, sf_acts f) \<in> chain_rules chain \<and> entry_matches p f \<and> entry_ok f"
  proof (cases r)
    case None
    then show ?thesis using c by (auto simp: chain_rules_def rules_def)
  next
    case (Some f)
    then obtain us t vs where t: "ch_tables chain = us @ t # vs" "table_lookup t p = Some f" using c by auto
    then have "table_inv t" using inv by simp
    then have "f \<in> set (table_entries t) \<and> entry_matches p f" "f \<in> set (table_entries t) \<Longrightarrow> entry_ok f"
      using table.lookup_Some [OF _ assms(2) t(2)] table.entries_ok by auto
    then show ?thesis using t Some by (auto simp: chain_rules_def rules_def tables_entries_def)
  qed
  ultimately show ?thesis by blast
qed

section \<open>Frames\<close>

lemma ports_inv_other [simp]:
  "ports_inv (dp\<lparr>dp_remotes := rs\<rparr>) = ports_inv dp" "ports_inv (dp\<lparr>dp_buffers := bs\<rparr>) = ports_inv dp"
  "ports_inv (dp\<lparr>dp_chain := c\<rparr>) = ports_inv dp" "ports_inv (dp\<lparr>dp_net := e\<rparr>) = ports_inv dp"
  "ports_inv (dp\<lparr>dp_flags := fl\<rparr>) = ports_inv dp" "ports_inv (dp\<lparr>dp_miss_send_len := n\<rparr>) = ports_inv dp"
  "ports_inv (dp\<lparr>dp_last_timeout := now\<rparr>) = ports_inv dp" "ports_inv (dp\<lparr>dp_desc := ds\<rparr>) = ports_inv dp"
  by (simp_all add: ports_inv_def port_valid_def port_at_def)

lemma dp_inv_remotes [simp]: "dp_inv (dp\<lparr>dp_remotes := rs\<rparr>) = dp_inv dp"
  by (simp add: dp_inv_def)

lemma send_to_remotes_frame:
  "\<exists>rs. fold (\<lambda>i dp. snd (send_openflow_buffer_to_remote env b i dp)) is dp = dp\<lparr>dp_remotes := rs\<rparr>
     \<and> length rs = length (dp_remotes dp)"
proof (induction "is" arbitrary: dp)
  case Nil
  show ?case by (intro exI [of _ "dp_remotes dp"]) simp
next
  case (Cons i "is")
  obtain r where "snd (send_openflow_buffer_to_remote env b i dp) = dp\<lparr>dp_remotes := (dp_remotes dp)[i := r]\<rparr>"
    by (simp add: send_openflow_buffer_to_remote_def case_prod_beta)
  then show ?case using Cons.IH [of "dp\<lparr>dp_remotes := (dp_remotes dp)[i := r]\<rparr>"] by auto
qed

lemma send_openflow_buffer_frame:
  assumes "send_openflow_buffer env b s dp = Done (e, dp')"
  shows "\<exists>rs. dp' = dp\<lparr>dp_remotes := rs\<rparr> \<and> length rs = length (dp_remotes dp)"
proof -
  from assms obtain b' where b': "update_openflow_length b = Some b'"
    by (auto simp: send_openflow_buffer_def split: option.splits)
  show ?thesis
  proof (cases s)
    case None
    then show ?thesis using assms b' send_to_remotes_frame [of env b' "[0..<length (dp_remotes dp)]" dp]
      by (auto simp: send_openflow_buffer_def)
  next
    case (Some sd)
    then show ?thesis using assms b'
      by (auto simp: send_openflow_buffer_def send_openflow_buffer_to_remote_def split: prod.splits)
  qed
qed

lemma send_msg_frame:
  assumes "send_msg env m s dp = Done dp'"
  shows "\<exists>rs. dp' = dp\<lparr>dp_remotes := rs\<rparr> \<and> length rs = length (dp_remotes dp)"
  using assms send_openflow_buffer_frame
  by (fastforce simp: send_msg_def split: option.splits run.splits prod.splits)

lemma send_msg_inv: "send_msg env m s dp = Done dp' \<Longrightarrow> dp_inv dp \<Longrightarrow> dp_inv dp' \<and> dp_chain dp' = dp_chain dp"
  using send_msg_frame by fastforce

lemma dp_output_control_inv:
  assumes "dp_output_control env b in_port n r dp = Done dp'" "dp_inv dp"
  shows "dp_inv dp' \<and> dp_chain dp' = dp_chain dp"
proof -
  obtain buffer_id bufs where s: "save_buffer (ev_junk env) (ev_now env) b (dp_buffers dp) = (buffer_id, bufs)" by fastforce
  have "buffers_inv bufs" using save_buffer_inv [of "dp_buffers dp" "ev_junk env" "ev_now env" b] assms(2) s
    by (simp add: dp_inv_def)
  then have i: "dp_inv (dp\<lparr>dp_buffers := bufs\<rparr>)" using assms(2) by (simp add: dp_inv_def)
  from assms(1) obtain m where "send_msg env (Some m) None (dp\<lparr>dp_buffers := bufs\<rparr>) = Done dp'"
    unfolding dp_output_control_def s Let_def by (auto split: option.splits)
  from send_msg_inv [OF this i] show ?thesis by simp
qed

section \<open>Packets through the tables\<close>

text \<open>Every request comes from an output or enqueue action, whether or not the packet suits the actions.\<close>

lemma execute_loop_ports:
  assumes "wf_acts p" "execute_loop m ip ig p b k prev ml reqs = Some (b', k', prev', ml', reqs')"
  shows "set (map call_port reqs' @ map fst (case prev' of None \<Rightarrow> [] | Some x \<Rightarrow> [x]))
    \<subseteq> set (map call_port reqs @ map fst (case prev of None \<Rightarrow> [] | Some x \<Rightarrow> [x]))
      \<union> act_port ` {a \<in> set (split_acts p). is_output a}"
  using assms
proof (induction p arbitrary: b k prev ml reqs rule: wf_acts_induct)
  case Nil
  then show ?case by (simp add: execute_loop.simps)
next
  case (act p)
  note w = wf_acts_step [OF act.hyps(1,2)] and sp = split_acts_step [OF act.hyps(1,2)]
  let ?reqs = "case prev of None \<Rightarrow> reqs
    | Some (port, queue) \<Rightarrow> reqs @ [do_output (ofpbuf_clone m b) ip ml port queue ig]"
  let ?old = "set (map call_port reqs @ map fst (case prev of None \<Rightarrow> [] | Some x \<Rightarrow> [x]))"
  let ?rest = "act_port ` {a \<in> set (split_acts (drop (ah_len p) p)). is_output a}"
  have reqs: "set (map call_port ?reqs) = ?old"
  proof (cases prev)
    case (Some x)
    then show ?thesis by (cases x) simp
  qed simp
  have new: "act_port p \<in> act_port ` {a \<in> set (split_acts p). is_output a}" if "is_output p"
    using that w(2) by (auto simp: sp type_take image_iff intro: exI [of _ "take (ah_len p) p"])
  have rest: "?rest \<subseteq> act_port ` {a \<in> set (split_acts p). is_output a}" by (auto simp: sp)
  from act.prems obtain b1 k1 prev1 ml1 where
    l: "execute_loop m ip ig (drop (ah_len p) p) b1 k1 prev1 ml1 ?reqs = Some (b', k', prev', ml', reqs')"
    and p1: "prev1 = None \<or> is_output p \<and> (\<exists>q. prev1 = Some (act_port p, q))"
    by (subst (asm) execute_loop.simps)
      (auto simp: Let_def act.hyps(2) is_output_def act_port_def oa_port_def split: if_splits option.splits)
  let ?p1 = "set (map fst (case prev1 of None \<Rightarrow> [] | Some x \<Rightarrow> [x]))"
  have new1: "?p1 \<subseteq> act_port ` {a \<in> set (split_acts p). is_output a}" using p1 new by auto
  have "set (map call_port reqs' @ map fst (case prev' of None \<Rightarrow> [] | Some x \<Rightarrow> [x]))
      \<subseteq> (set (map call_port ?reqs) \<union> ?p1) \<union> ?rest"
    using act.IH [OF l] unfolding set_append .
  also have "\<dots> \<subseteq> ?old \<union> act_port ` {a \<in> set (split_acts p). is_output a}"
    unfolding reqs using new1 rest by blast
  finally show ?case .
qed

lemma execute_actions_ports:
  assumes "wf_acts acts" "execute_actions m b k acts ig = Some (calls, k')"
  shows "set (map call_port calls) \<subseteq> act_port ` {a \<in> set (split_acts acts). is_output a}"
proof -
  from assms(2) obtain b' k1 prev' ml' reqs' where
    l: "execute_loop m (ntohs (fl_in_port (k_flow k))) ig acts b k None 0xffff [] = Some (b', k1, prev', ml', reqs')"
    and c: "map call_port calls = map call_port reqs' @ map fst (case prev' of None \<Rightarrow> [] | Some x \<Rightarrow> [x])"
    by (auto simp: execute_actions_def Let_def split: option.splits)
  show ?thesis unfolding c using execute_loop_ports [OF assms(1) l] by simp
qed

text \<open>An output to anything but the tables returns with two levels of recursion.\<close>

lemma dp_output_port_returns:
  assumes "dp_inv dp" "out_port \<noteq> OFPP_TABLE"
  shows "\<exists>r. dp_output_port (Suc (Suc n)) env b in_port out_port q dp = Some r
    \<and> (\<forall>dp'. r = Done dp' \<longrightarrow> dp_inv dp' \<and> dp_chain dp' = dp_chain dp)"
proof -
  have p: "ports_inv dp" "length (dp_ports dp) = 255" using assms(1) by (simp_all add: dp_inv_def ports_inv_def)
  have o: "dp_inv (output_packet env b p q dp)" for p
    using output_packet_frame [OF p(2), of env b p q] assms(1) same_ports_inv [OF _ p(1)] by (simp add: dp_inv_def)
  note oc = output_packet_frame(2) [OF p(2), of env b _ q]
  show ?thesis
  proof (cases "out_port = OFPP_FLOOD \<or> out_port = OFPP_ALL")
    case True
    let ?bs = "share_buffer (ev_junk env) b (all_ports dp in_port (out_port = OFPP_FLOOD))"
    have "\<forall>(c, p)\<in>set ?bs. port_valid dp p \<and> p \<noteq> in_port \<and> contents c = contents b"
      using clone_share [of _ _ "ev_junk env" b] p(1) by (fastforce simp: all_ports_def ports_inv_def)
    from output_each [OF p(2) this, of n env] obtain dp' where
      "each_run (\<lambda>(b, p). dp_output_port (Suc n) env b in_port p 0) ?bs dp = Some (Done dp')"
      "same_ports dp dp'" "dp_chain dp' = dp_chain dp" "dp_buffers dp' = dp_buffers dp" by blast
    moreover from this have "dp_inv dp'" using assms(1) same_ports_inv p(1) by (simp add: dp_inv_def)
    moreover have "out_port \<noteq> OFPP_IN_PORT" using True by auto
    ultimately show ?thesis using True assms(2) by (subst dp_output_port.simps) auto
  next
    case False
    then show ?thesis
      using assms o oc dp_output_control_inv [where env = env and b = b and in_port = in_port and n = "0xffff" and r = OFPR_ACTION and dp = dp]
      by (subst dp_output_port.simps) auto
  qed
qed

text \<open>The rules of the flow tables do not send packets back to the tables.\<close>

definition no_table_output :: "sw_chain \<Rightarrow> bool" where
  "no_table_output chain \<longleftrightarrow>
     (\<forall>(k, acts)\<in>chain_rules chain. \<forall>a\<in>set (split_acts acts). is_output a \<longrightarrow> act_port a \<noteq> OFPP_TABLE)"

lemma dp_execute_actions_returns:
  assumes "dp_inv dp" "wf_acts acts" "\<forall>a\<in>set (split_acts acts). is_output a \<longrightarrow> act_port a \<noteq> OFPP_TABLE"
  shows "\<exists>r. dp_execute_actions env (dp_output_port (Suc (Suc n)) env) b k acts dp = Some r
    \<and> (\<forall>dp'. r = Done dp' \<longrightarrow> dp_inv dp' \<and> dp_chain dp' = dp_chain dp)"
proof (cases "execute_actions (ev_junk env) b k acts False")
  case None
  then show ?thesis by (simp add: dp_execute_actions_def)
next
  case (Some x)
  obtain calls k' where x: "x = (calls, k')" by (cases x)
  have c: "\<forall>c\<in>set calls. call_port c \<noteq> OFPP_TABLE"
    using execute_actions_ports [OF assms(2) Some [unfolded x]] assms(3) by force
  let ?f = "do_dp_call env (dp_output_port (Suc (Suc n)) env)"
  have "\<exists>r. ?f c dp1 = Some r \<and> (\<forall>dp'. r = Done dp' \<longrightarrow> dp_inv dp' \<and> dp_chain dp' = dp_chain dp)"
    if "c \<in> set calls" "dp_inv dp1 \<and> dp_chain dp1 = dp_chain dp" for c dp1
  proof (cases c)
    case (Dp_output_port b i p q g)
    then show ?thesis using c that dp_output_port_returns [of dp1 p n env b i q]
      by (auto simp: do_dp_call_def simp del: dp_output_port.simps)
  next
    case (Dp_output_control b i ml r)
    then show ?thesis using that dp_output_control_inv [of env b i "unat ml" r dp1] by (auto simp: do_dp_call_def)
  qed
  from each_run_returns [of calls "\<lambda>dp1. dp_inv dp1 \<and> dp_chain dp1 = dp_chain dp" ?f dp, OF this]
  show ?thesis using assms(1) Some x by (simp add: dp_execute_actions_def)
qed

lemma run_flow_returns:
  assumes "dp_inv dp" "no_table_output (dp_chain dp)"
  shows "\<exists>r. run_flow_through_tables (Suc (Suc n)) env b p dp = Some r
    \<and> (\<forall>e b' dp'. r = Done (e, b', dp') \<longrightarrow> dp_inv dp' \<and> chain_rules (dp_chain dp') = chain_rules (dp_chain dp))"
proof -
  obtain frag b1 fl where fe: "flow_extract b (case p of Some p \<Rightarrow> pt_port_no (port_at dp p) | None \<Rightarrow> OFPP_NONE) = (frag, b1, fl)"
    by (metis prod_cases3)
  let ?key = "\<lparr>k_flow = fl, k_wildcards = 0, k_nw_src_mask = 0, k_nw_dst_mask = 0\<rparr>"
  have k: "packet_key ?key"
    using flow_extract_is_normal [of b "case p of Some p \<Rightarrow> pt_port_no (port_at dp p) | None \<Rightarrow> OFPP_NONE"] fe
    by (simp add: packet_key_def flow_normal_def)
  have "chain_inv (dp_chain dp)" using assms(1) by (simp add: dp_inv_def)
  from chain_lookup_result [OF this k] obtain r chain where l: "chain_lookup (dp_chain dp) ?key False = Some (r, chain)"
    "chain_inv chain" "chain_rules chain = chain_rules (dp_chain dp)"
    "\<And>f. r = Some f \<Longrightarrow> (sf_key f, sf_acts f) \<in> chain_rules (dp_chain dp) \<and> entry_ok f" by (auto split: option.splits)
  let ?out = "dp_output_port (Suc (Suc n)) env"
  have f: "\<exists>r. dp_execute_actions env ?out b1 ?key (sf_acts f)
        (dp\<lparr>dp_chain := chain_entry_upd (sf_addr f) (\<lambda>f. flow_used (ev_msec env) f (ob_size b1)) chain\<rparr>) = Some r
      \<and> (\<forall>dp'. r = Done dp' \<longrightarrow> dp_inv dp' \<and> chain_rules (dp_chain dp') = chain_rules (dp_chain dp))"
    if "r = Some f" for f
  proof -
    let ?chain = "chain_entry_upd (sf_addr f) (\<lambda>f. flow_used (ev_msec env) f (ob_size b1)) chain"
    have "dp_inv (dp\<lparr>dp_chain := ?chain\<rparr>)" using assms(1) chain_entry_upd_inv(1) [OF _ l(2)] by (simp add: dp_inv_def)
    moreover have "wf_acts (sf_acts f)" "\<forall>a\<in>set (split_acts (sf_acts f)). is_output a \<longrightarrow> act_port a \<noteq> OFPP_TABLE"
      using l(4) [OF that] assms(2) by (auto simp: entry_ok_def no_table_output_def)
    ultimately show ?thesis
      using dp_execute_actions_returns [of "dp\<lparr>dp_chain := ?chain\<rparr>" "sf_acts f" env n b1 ?key]
        chain_entry_upd_inv(2) [OF _ l(2)] l(3) by auto
  qed
  have m: "dp_inv (dp\<lparr>dp_chain := chain\<rparr>)" using assms(1) l(2) by (simp add: dp_inv_def)
  show ?thesis
  proof (cases r)
    case None
    then show ?thesis using assms(1) l m unfolding run_flow_through_tables_def run_flow_with_def fe
      by (auto simp: Let_def)
  next
    case (Some g)
    obtain res where res: "dp_execute_actions env ?out b1 ?key (sf_acts g)
        (dp\<lparr>dp_chain := chain_entry_upd (sf_addr g) (\<lambda>f. flow_used (ev_msec env) f (ob_size b1)) chain\<rparr>) = Some res"
      "\<forall>dp'. res = Done dp' \<longrightarrow> dp_inv dp' \<and> chain_rules (dp_chain dp') = chain_rules (dp_chain dp)"
      using f [OF Some] by blast
    show ?thesis using assms(1) l Some res unfolding run_flow_through_tables_def run_flow_with_def fe
      by (cases res) (auto simp: Let_def)
  qed
qed

section \<open>Messages that are sent\<close>

lemma st16_same: "st16 (xs @ le16 v @ ys) (length xs) v = xs @ le16 v @ ys"
  by (simp add: st16_def st8_def le16_def list_update_append)

text \<open>A message without a receiver is offered once to every connection.\<close>

lemma send_to_all:
  "k \<le> length (dp_remotes dp) \<Longrightarrow>
    fold (\<lambda>i dp. snd (send_openflow_buffer_to_remote env b i dp)) [0..<k] dp
      = dp\<lparr>dp_remotes := map (\<lambda>r. snd (rconn_send_with_limit env b r)) (take k (dp_remotes dp)) @ drop k (dp_remotes dp)\<rparr>"
proof (induction k)
  case (Suc k)
  let ?f = "\<lambda>r. snd (rconn_send_with_limit env b r)" and ?rs = "dp_remotes dp"
  have "drop k ?rs = ?rs ! k # drop (Suc k) ?rs" using Suc.prems by (simp add: Cons_nth_drop_Suc)
  moreover have "take (Suc k) ?rs = take k ?rs @ [?rs ! k]" using Suc.prems by (simp add: take_Suc_conv_app_nth)
  ultimately show ?case
    using Suc by (simp add: send_openflow_buffer_to_remote_def case_prod_beta nth_append list_update_append min_def)
qed simp

definition accepts :: "remote \<Rightarrow> bool" where
  "accepts r \<longleftrightarrow> rm_connected r \<and> rm_n_txq r < TXQ_LIMIT"

lemma rconn_send_txq: "rm_txq (snd (rconn_send_with_limit env b r)) = rm_txq r @ (if accepts r then [b] else [])"
  by (auto simp: rconn_send_with_limit_def accepts_def)

lemma push_some: "length h \<le> ofpbuf_headroom b \<Longrightarrow> \<exists>p b'. ofpbuf_push b h = Some (p, b')"
  by (simp add: ofpbuf_push_def ofpbuf_push_uninit_def ofpbuf_prealloc_headroom_def)

text \<open>The bytes of a packet-in message.\<close>

definition packet_in_msg :: "u32 \<Rightarrow> nat \<Rightarrow> u16 \<Rightarrow> u8 \<Rightarrow> u8 list \<Rightarrow> u8 list" where
  "packet_in_msg buffer_id total_len in_port reason data =
     ofp_header_bytes \<lparr>oh_version = 1, oh_type = OFPT_PACKET_IN, oh_length = htons (of_nat (18 + length data)), oh_xid = 0\<rparr>
     @ le32 (htonl buffer_id) @ le16 (htons (of_nat total_len)) @ le16 (htons in_port) @ [reason, 0] @ data"

lemma packet_in_length: "update_openflow_length (packet_in_msg i t p r data) = Some (packet_in_msg i t p r data)"
proof -
  have l: "length (packet_in_msg i t p r data) = 18 + length data"
    by (simp add: packet_in_msg_def ofp_header_bytes_def)
  have "packet_in_msg i t p r data = [1, OFPT_PACKET_IN] @ le16 (htons (of_nat (18 + length data)))
      @ (le32 0 @ le32 (htonl i) @ le16 (htons (of_nat t)) @ le16 (htons p) @ [r, 0] @ data)"
    by (simp add: packet_in_msg_def ofp_header_bytes_def)
  then have "st16 (packet_in_msg i t p r data) 2 (htons (of_nat (18 + length data))) = packet_in_msg i t p r data"
    using st16_same [of "[1, OFPT_PACKET_IN]"] by (simp only: length_Cons list.size One_nat_def Suc_1 numeral_2_eq_2)
  then show ?thesis by (simp add: update_openflow_length_def l)
qed


text \<open>A clone has no headroom: a packet that is sent to the controller before another output stops the switch.\<close>

lemma clone_data: "ob_data (ofpbuf_clone m b) = 0"
  by (simp add: ofpbuf_clone_def ofpbuf_clone_data_def ofpbuf_put_def ofpbuf_put_uninit_def ofpbuf_new_def
      ofpbuf_init_def ofpbuf_use_def ofpbuf_prealloc_tailroom_def Let_def case_prod_beta)

theorem clone_to_controller_faults:
  "dp_output_control env (ofpbuf_clone m b) in_port n reason dp = Fault"
  by (simp add: dp_output_control_def Let_def ofpbuf_push_def ofpbuf_push_uninit_def ofpbuf_prealloc_headroom_def
      ofpbuf_headroom_def clone_data ofp_header_bytes_def split: prod.split)


text \<open>
  Processing a received packet returns, whatever the packet, unless a rule sends it back to the
  tables: two levels of recursion are enough. If no assertion fails, the invariant and the rules
  of the flow tables are kept.
\<close>

theorem fwd_port_input_returns:
  assumes "dp_inv dp" "no_table_output (dp_chain dp)"
  shows "\<exists>r. fwd_port_input (Suc (Suc n)) env b p dp = Some r
    \<and> (\<forall>dp'. r = Done dp' \<longrightarrow> dp_inv dp' \<and> chain_rules (dp_chain dp') = chain_rules (dp_chain dp))"
proof -
  obtain r where r: "run_flow_through_tables (Suc (Suc n)) env b p dp = Some r"
    "\<forall>e b' dp'. r = Done (e, b', dp') \<longrightarrow> dp_inv dp' \<and> chain_rules (dp_chain dp') = chain_rules (dp_chain dp)"
    using run_flow_returns [OF assms] by blast
  show ?thesis
  proof (cases r)
    case (Done x)
    obtain e b1 dp1 where x: "x = (e, b1, dp1)" by (cases x)
    have i: "dp_inv dp1" "chain_rules (dp_chain dp1) = chain_rules (dp_chain dp)" using r(2) Done x by auto
    show ?thesis using r(1) Done x i dp_output_control_inv [OF _ i(1)]
      by (auto simp: fwd_port_input_def split: option.split)
  qed (simp add: fwd_port_input_def r(1))
qed

lemma bind_run_assoc: "bind_run (bind_run m f) g = bind_run m (\<lambda>x. bind_run (f x) g)"
  by (auto simp: bind_run_def split: option.split run.split)

text \<open>A rule that sends every packet back to the tables.\<close>

definition table_action :: "u8 list" where
  "table_action = [0, 0, 0, 8, 0xff, 0xf9, 0, 0]"

lemma execute_table_action:
  "execute_actions m b k table_action ig
     = Some ([Dp_output_port b (ntohs (fl_in_port (k_flow k))) OFPP_TABLE 0 ig], k)"
proof -
  have t: "ah_len table_action = 8" "ah_type table_action = htons OFPAT_OUTPUT" "ntohs (oa_port table_action) = OFPP_TABLE"
    "length table_action = 8" by code_simp+
  have "execute_loop m ip ig [] b k prev ml reqs = Some (b, k, prev, ml, reqs)" for ip prev ml reqs
    by (simp add: execute_loop.simps)
  then have "execute_loop m ip ig table_action b k None 0xffff []
      = Some (b, k, Some (OFPP_TABLE, 0), ntohs (ld16 table_action 6), [])" for ip
    using t by (subst execute_loop.simps) auto
  then show ?thesis by (simp add: execute_actions_def Let_def do_output_def)
qed

definition loops :: "datapath \<Rightarrow> bool" where
  "loops dp \<longleftrightarrow> dp_inv dp \<and> (\<forall>(k, acts)\<in>chain_rules (dp_chain dp). acts = table_action)
     \<and> (\<forall>p. packet_key p \<longrightarrow> (\<exists>(k, acts)\<in>chain_rules (dp_chain dp). flow_matches_1wild p k))
     \<and> dp_flags dp AND OFPC_FRAG_MASK \<noteq> OFPC_FRAG_DROP
     \<and> (\<forall>p. port_valid dp p \<longrightarrow> \<not> flag_set (pt_config (port_at dp p)) (OFPPC_NO_RECV OR OFPPC_NO_RECV_STP))"

lemma run_flow_loops:
  assumes "loops dp" "\<forall>i. p = Some i \<longrightarrow> port_valid dp i"
  shows "\<exists>b' in_port dp'. loops dp' \<and>
    run_flow_through_tables n env b p dp = bind_run (dp_output_port n env b' in_port OFPP_TABLE 0 dp') (\<lambda>dp. Some (Done (0, b', dp)))"
proof -
  obtain frag b1 fl where fe: "flow_extract b (case p of Some p \<Rightarrow> pt_port_no (port_at dp p) | None \<Rightarrow> OFPP_NONE) = (frag, b1, fl)"
    by (metis prod_cases3)
  let ?key = "\<lparr>k_flow = fl, k_wildcards = 0, k_nw_src_mask = 0, k_nw_dst_mask = 0\<rparr>"
  have k: "packet_key ?key"
    using flow_extract_is_normal [of b "case p of Some p \<Rightarrow> pt_port_no (port_at dp p) | None \<Rightarrow> OFPP_NONE"] fe
    by (simp add: packet_key_def flow_normal_def)
  have "chain_inv (dp_chain dp)" using assms(1) by (simp add: loops_def dp_inv_def)
  from chain_lookup_result [OF this k] obtain r chain where l: "chain_lookup (dp_chain dp) ?key False = Some (r, chain)"
    "chain_inv chain" "chain_rules chain = chain_rules (dp_chain dp)"
    "case r of None \<Rightarrow> \<forall>(k, acts)\<in>chain_rules (dp_chain dp). \<not> flow_matches_1wild ?key k
      | Some f \<Rightarrow> (sf_key f, sf_acts f) \<in> chain_rules (dp_chain dp) \<and> entry_matches ?key f \<and> entry_ok f" by blast
  have "r \<noteq> None" using l(4) assms(1) k by (auto simp: loops_def split: option.splits)
  then obtain f where r: "r = Some f" and f: "sf_acts f = table_action"
    using l(4) assms(1) by (fastforce simp: loops_def)
  let ?chain = "chain_entry_upd (sf_addr f) (\<lambda>f. flow_used (ev_msec env) f (ob_size b1)) chain"
  let ?dp = "dp\<lparr>dp_chain := ?chain\<rparr>"
  have c: "chain_inv ?chain" "chain_rules ?chain = chain_rules (dp_chain dp)"
    using chain_entry_upd_inv [OF _ l(2)] l(3) by simp_all
  have "loops ?dp" using assms(1) c unfolding loops_def dp_inv_def by (simp add: port_valid_def port_at_def)
  moreover have "\<not> flag_set (case p of Some p \<Rightarrow> pt_config (port_at dp p) | None \<Rightarrow> 0) (OFPPC_NO_RECV OR OFPPC_NO_RECV_STP)"
    using assms by (auto simp: loops_def split: option.split)
  moreover have "dp_flags dp AND OFPC_FRAG_MASK \<noteq> OFPC_FRAG_DROP" using assms(1) by (simp add: loops_def)
  ultimately have "run_flow_through_tables n env b p dp
      = bind_run (dp_output_port n env b1 (ntohs (fl_in_port fl)) OFPP_TABLE 0 ?dp) (\<lambda>dp. Some (Done (0, b1, dp)))"
    unfolding run_flow_through_tables_def run_flow_with_def fe
    by (simp add: l(1) r f Let_def dp_execute_actions_def execute_table_action do_dp_call_def bind_run_assoc
        del: dp_output_port.simps)
  then show ?thesis using \<open>loops ?dp\<close> by blast
qed

lemma output_table_loops: "loops dp \<Longrightarrow> dp_output_port n env b in_port OFPP_TABLE q dp = None"
proof (induction n arbitrary: b in_port q dp)
  case (Suc n)
  have "\<forall>i. dp_lookup_port dp in_port = Some i \<longrightarrow> port_valid dp i" by (simp add: lookup_port_valid)
  from run_flow_loops [OF Suc.prems this, of n env b] obtain b' i dp' where "loops dp'"
    "run_flow_with env (dp_output_port n env) b (dp_lookup_port dp in_port) dp
      = bind_run (dp_output_port n env b' i OFPP_TABLE 0 dp') (\<lambda>dp. Some (Done (0, b', dp)))"
    unfolding run_flow_through_tables_def by blast
  then show ?case using Suc.IH [of dp' b' i 0] by simp
qed simp

lemma table_action_valid:
  assumes "fl_in_port (k_flow key) \<noteq> htons OFPP_TABLE" shows "validate_actions key table_action = ACT_VALIDATION_OK"
proof -
  have t: "wf_acts table_action" "split_acts table_action = [table_action]" "unat (ntohs (ah_type table_action)) = 0"
    "length table_action = 8" "oa_port table_action = htons OFPP_TABLE" "htons OFPP_TABLE \<noteq> htons OFPP_NONE" by code_simp+
  have "validate_output key table_action = ACT_VALIDATION_OK" using assms t(5,6) by (auto simp: validate_output_def)
  then show ?thesis using t by (simp add: validate_actions_ok_iff act_ok_def Let_def of_actions_def)
qed

text \<open>
  When every packet matches a rule that outputs to \<^verbatim>\<open>OFPP_TABLE\<close>, which validation accepts, the processing of a packet
  never returns: no depth of recursion is enough.
\<close>

theorem table_output_never_returns:
  assumes "loops dp" "\<forall>i. p = Some i \<longrightarrow> port_valid dp i" "fl_in_port (k_flow key) \<noteq> htons OFPP_TABLE"
  shows "validate_actions key table_action = ACT_VALIDATION_OK \<and> fwd_port_input n env b p dp = None"
proof -
  obtain b' i dp' where "loops dp'" "run_flow_through_tables n env b p dp
      = bind_run (dp_output_port n env b' i OFPP_TABLE 0 dp') (\<lambda>dp. Some (Done (0, b', dp)))"
    using run_flow_loops [OF assms(1,2)] by blast
  then have "run_flow_through_tables n env b p dp = None" using output_table_loops [of dp' n env b' i 0] by simp
  then show ?thesis using table_action_valid [OF assms(3)] by (simp add: fwd_port_input_def)
qed

text \<open>
  Adding a port that is not yet in use keeps the invariant; adding it again links its node of the list
  of ports twice, since the device that the check looks for is never set.
\<close>

theorem new_port_effect:
  assumes "dp_inv dp" "port_no < DP_MAX_PORTS" "length name < 200"
  shows "if port_no \<in> set (dp_port_list dp) then new_port env uninit port_no name n dp = Fault
    else \<exists>dp'. new_port env uninit port_no name n dp = Done (0, dp') \<and> dp_inv dp'
      \<and> dp_port_list dp' = dp_port_list dp @ [port_no] \<and> pt_netdev (port_at dp' port_no) = None
      \<and> pt_netdev_name (port_at dp' port_no) = name"
proof (cases "port_no \<in> set (dp_port_list dp)")
  case False
  define port where "port = zero_sw_port\<lparr>pt_flags := SWP_USED OR SWP_HW_DRV_PORT,
    pt_netdev := (if port_no = OFPP_LOCAL then uninit else None), pt_port_no := port_no,
    pt_netdev_name := name, pt_num_queues := n\<rparr>"
  let ?dp = "port_upd port_no (\<lambda>_. port) dp\<lparr>dp_port_list := dp_port_list dp @ [port_no]\<rparr>"
  define port' where "port' = snd (fill_port_desc env port)"
  let ?dp1 = "port_upd port_no (\<lambda>_. port') ?dp"
  have nl: "port_no \<noteq> OFPP_LOCAL" using assms(2) by auto
  have p: "length (dp_ports dp) = 255" "port_valid dp port_no" "ports_inv dp"
    using assms(1,2) by (simp_all add: dp_inv_def ports_inv_def port_valid_def)
  have u: "unat port_no < 255" using assms(2) by (simp add: word_less_nat_alt)
  have at: "port_at ?dp port_no = port" using assms(2) p(1) u by (simp add: port_at_def port_upd_def)
  have pf: "pt_netdev port' = None" "pt_port_no port' = port_no" "pt_netdev_name port' = name"
    using nl by (simp_all add: port'_def fill_port_desc_def port_def zero_sw_port_def Let_def)
  have v: "port_valid ?dp1 q = port_valid dp q" for q by (simp add: port_valid_def port_upd_def)
  have at1: "port_at ?dp1 q = (if q = port_no then port' else port_at dp q)" if "port_valid dp q" for q
  proof -
    have "unat q \<noteq> unat port_no" if "q \<noteq> port_no" using that word_unat_eq_iff by blast
    then show ?thesis using assms(2) p(1) u that nl by (auto simp: port_at_def port_upd_def port_valid_def)
  qed
  have "port_valid dp q \<and> pt_port_no (port_at ?dp1 q) = q" if "q \<in> set (dp_port_list dp @ [port_no])" for q
  proof -
    have "port_valid dp q" using that p(2,3) by (auto simp: ports_inv_def)
    then show ?thesis using that at1 [of q] p(3) pf(2) by (auto simp: ports_inv_def)
  qed
  moreover have "length (dp_ports ?dp1) = 255" "dp_port_list ?dp1 = dp_port_list dp @ [port_no]"
    using p(1) by (simp_all add: port_upd_def)
  ultimately have "ports_inv ?dp1" using False p(3) unfolding ports_inv_def v by simp
  then have inv: "dp_inv ?dp1" using assms(1) by (simp add: dp_inv_def)
  obtain msg where m: "make_openflow_xid 64 OFPT_PORT_STATUS 0 = Some msg" "length msg = 64"
    by (simp add: make_openflow_xid_def ofp_header_bytes_def)
  let ?m = "stn (st8 msg 8 OFPPR_ADD) 16 (fst (fill_port_desc env port))"
  have "send_port_status env port_no OFPPR_ADD ?dp = send_msg env (Some ?m) None ?dp1"
    unfolding send_port_status_def at m(1) port'_def by (simp add: case_prod_beta)
  moreover obtain dp' where dp': "send_msg env (Some ?m) None ?dp1 = Done dp'"
    using m(2) by (simp add: send_msg_def send_openflow_buffer_def update_openflow_length_def)
  moreover obtain rs where "dp' = ?dp1\<lparr>dp_remotes := rs\<rparr>" using send_msg_frame [OF dp'] by blast
  ultimately have "new_port env uninit port_no name n dp = Done (0, ?dp1\<lparr>dp_remotes := rs\<rparr>)"
    unfolding new_port_def Let_def port_def [symmetric] using False assms(3) by simp
  moreover have "port_at (?dp1\<lparr>dp_remotes := rs\<rparr>) port_no = port'"
    using at1 [OF p(2)] by (simp add: port_at_def split: if_splits)
  ultimately show ?thesis using False inv pf by simp
qed (simp add: new_port_def)

section \<open>Witnesses\<close>

definition sample_remote :: remote where
  "sample_remote = \<lparr>rm_connected = True, rm_n_txq = 0, rm_txq = [], rm_cb_dump = None\<rparr>"

definition sample_port :: "u16 \<Rightarrow> nat \<Rightarrow> sw_port" where
  "sample_port no dev = zero_sw_port\<lparr>pt_flags := 3, pt_netdev := Some dev, pt_port_no := no\<rparr>"

definition sample_dp :: "sw_chain \<Rightarrow> datapath" where
  "sample_dp chain = \<lparr>dp_remotes = [sample_remote], dp_last_timeout = 0, dp_id = 1, dp_desc = [], dp_chain = chain,
     dp_flags = 0, dp_miss_send_len = 128,
     dp_ports = (replicate 255 zero_sw_port)[1 := sample_port 1 10, 2 := sample_port 2 20, 3 := sample_port 3 30],
     dp_local_port = None, dp_port_list = [1, 2, 3], dp_buffers = sample_buffers, dp_net = []\<rparr>"

definition sample_env :: dp_env where
  "sample_env = \<lparr>ev_junk = (\<lambda>_. 0), ev_now = 5, ev_msec = 5000, ev_send = (\<lambda>_ _. True), ev_tx = (\<lambda>_. True),
     ev_netdev = (\<lambda>_. \<lparr>ni_name = [], ni_etheraddr = 0, ni_current = 0, ni_supported = 0, ni_advertised = 0, ni_peer = 0\<rparr>)\<rparr>"

lemma sample_ports:
  "port_at (sample_dp chain) 1 = sample_port 1 10" "port_at (sample_dp chain) 2 = sample_port 2 20"
  "port_at (sample_dp chain) 3 = sample_port 3 30" "dp_port_list (sample_dp chain) = [1, 2, 3]"
  "length (dp_ports (sample_dp chain)) = 255" "dp_net (sample_dp chain) = []" "dp_buffers (sample_dp chain) = sample_buffers"
  "dp_chain (sample_dp chain) = chain" "dp_flags (sample_dp chain) = 0" "dp_local_port (sample_dp chain) = None"
  "dp_remotes (sample_dp chain) = [sample_remote]"
  by (simp_all add: sample_dp_def port_at_def del: replicate.simps replicate_Suc)

lemma sample_port_sel [simp]:
  "pt_port_no (sample_port no dev) = no" "pt_netdev (sample_port no dev) = Some dev" "pt_config (sample_port no dev) = 0"
  by (simp_all add: sample_port_def zero_sw_port_def)

lemma sample_dp_inv: "chain_inv chain \<Longrightarrow> dp_inv (sample_dp chain)"
  using sample_buffers_inv by (auto simp: dp_inv_def ports_inv_def sample_ports port_valid_def)



theorem fwd_port_input_returns_witness:
  "\<exists>r. fwd_port_input 2 sample_env (ofpbuf_use []) (Some 1) (sample_dp new_chain) = Some r"
proof -
  have "no_table_output (dp_chain (sample_dp new_chain))"
    using new_chain_entries by (simp add: no_table_output_def chain_rules_def rules_def sample_ports)
  from fwd_port_input_returns [OF sample_dp_inv [OF new_chain_inv] this, of 0 sample_env "ofpbuf_use []" "Some 1"]
  show ?thesis by (auto simp: numeral_2_eq_2)
qed

text \<open>A flow table with one entry, for all packets.\<close>

definition any_match :: ofp_match where
  "any_match = zero_match\<lparr>om_wildcards := htonl OFPFW_ALL\<rparr>"

definition loop_flow :: sw_flow where
  "loop_flow = sample_entry\<lparr>sf_key := flow_extract_match any_match, sf_acts := table_action\<rparr>"

definition loop_chain :: sw_chain where
  "loop_chain = new_chain\<lparr>ch_tables := [Linear (sample_table\<lparr>tl_flows := [loop_flow]\<rparr>)]\<rparr>"

lemma any_match_key: "flow_matches_1wild p (flow_extract_match any_match)"
proof -
  have k: "k_wildcards (flow_extract_match any_match) = OFPFW_ALL" "k_nw_src_mask (flow_extract_match any_match) = 0"
    "k_nw_dst_mask (flow_extract_match any_match) = 0" by code_simp+
  show ?thesis unfolding flow_matches_1wild_def flow_fields_match_def k by simp
qed

lemma loop_chain_inv: "chain_inv loop_chain"
proof -
  have "wf_acts table_action" by code_simp
  then have "linear_inv (sample_table\<lparr>tl_flows := map (\<lambda>_. loop_flow) (tl_flows sample_table)\<rparr>)"
    using linear_invD [OF sample_table_inv]
    by (intro linear_invI) (auto simp: sample_table_eq loop_flow_def entry_ok_def serial_desc_def)
  then have "linear_inv (sample_table\<lparr>tl_flows := [loop_flow]\<rparr>)" by (simp add: sample_table_eq)
  then show ?thesis using new_chain_inv by (simp add: chain_inv_def loop_chain_def)
qed

theorem table_output_never_returns_witness:
  "\<forall>n. fwd_port_input n sample_env (ofpbuf_use []) (Some 1) (sample_dp loop_chain) = None"
proof
  fix n
  have r: "chain_rules loop_chain = {(flow_extract_match any_match, table_action)}"
    by (simp add: chain_rules_def loop_chain_def rules_def loop_flow_def)
  have p: "pt_config (port_at (sample_dp loop_chain) p) = 0" if "port_valid (sample_dp loop_chain) p" for p
  proof -
    have "unat p < 255" using that by (auto simp: port_valid_def sample_ports word_less_nat_alt)
    then show ?thesis using that by (auto simp: port_at_def port_valid_def sample_dp_def nth_list_update zero_sw_port_def
        simp del: replicate.simps replicate_Suc)
  qed
  have "loops (sample_dp loop_chain)"
    using sample_dp_inv [OF loop_chain_inv] p any_match_key by (simp add: loops_def sample_ports r)
  moreover have "fl_in_port (k_flow (flow_extract_match any_match)) \<noteq> htons OFPP_TABLE" by code_simp
  ultimately show "fwd_port_input n sample_env (ofpbuf_use []) (Some 1) (sample_dp loop_chain) = None"
    using table_output_never_returns [of "sample_dp loop_chain" "Some 1" "flow_extract_match any_match" n sample_env "ofpbuf_use []"]
    by (simp add: port_valid_def)
qed

end
