(* ===== verification/Dp_Flow_Mod.thy ===== *)
theory Dp_Flow_Mod
  imports Datapath
begin

text \<open>
  Flow modifications in \<^verbatim>\<open>src/openflow/udatapath/datapath.c\<close>: \<^verbatim>\<open>add_flow\<close>, \<^verbatim>\<open>mod_flow\<close> and \<^verbatim>\<open>recv_flow\<close>, which passes the message
  to the agent first. The results of the memory allocator are in \<open>dp_alloc\<close>: whether the two
  allocations of \<^verbatim>\<open>flow_alloc\<close> succeed, the address of the new entry, and for which entries
  \<^verbatim>\<open>flow_replace_acts\<close> gets memory. \<open>n\<close> is the depth of recursion for the outputs of a buffered packet.
\<close>

section \<open>Operations\<close>

abbreviation OFPET_BAD_REQUEST :: u16 where "OFPET_BAD_REQUEST \<equiv> 1"
abbreviation OFPET_BAD_ACTION :: u16 where "OFPET_BAD_ACTION \<equiv> 2"
abbreviation OFPET_FLOW_MOD_FAILED :: u16 where "OFPET_FLOW_MOD_FAILED \<equiv> 3"
abbreviation OFPFMFC_ALL_TABLES_FULL :: u16 where "OFPFMFC_ALL_TABLES_FULL \<equiv> 0"
abbreviation OFPFMFC_OVERLAP :: u16 where "OFPFMFC_OVERLAP \<equiv> 1"
abbreviation OFPFMFC_BAD_EMERG_TIMEOUT :: u16 where "OFPFMFC_BAD_EMERG_TIMEOUT \<equiv> 3"
abbreviation OFPFF_SEND_FLOW_REM :: u16 where "OFPFF_SEND_FLOW_REM \<equiv> 1"
abbreviation OFPFF_CHECK_OVERLAP :: u16 where "OFPFF_CHECK_OVERLAP \<equiv> 2"
abbreviation OFPFF_EMERG :: u16 where "OFPFF_EMERG \<equiv> 4"
abbreviation ENODEV :: int where "ENODEV \<equiv> 19"

record dp_alloc =
  al_flow :: bool
  al_sfa :: bool
  al_addr :: nat
  al_replace :: "nat \<Rightarrow> bool"

text \<open>The label \<^verbatim>\<open>error\<close>: the buffered packet, if any, is discarded.\<close>

definition flow_mod_error :: "ofp_flow_mod \<Rightarrow> int \<Rightarrow> datapath \<Rightarrow> (int \<times> datapath) run option" where
  "flow_mod_error ofm error dp =
     Some (Done (error, if ntohl (ofm_buffer_id ofm) \<noteq> - 1
       then dp\<lparr>dp_buffers := discard_buffer (ntohl (ofm_buffer_id ofm)) (dp_buffers dp)\<rparr> else dp))"

text \<open>An error message with the request, then the label \<^verbatim>\<open>error_free_flow\<close>.\<close>

definition flow_mod_refuse :: "dp_env \<Rightarrow> sender \<Rightarrow> u8 list \<Rightarrow> ofp_flow_mod \<Rightarrow> u16 \<Rightarrow> u16 \<Rightarrow> int \<Rightarrow> datapath
    \<Rightarrow> (int \<times> datapath) run option" where
  "flow_mod_refuse env sender msg ofm type code error dp =
     bind_run (Some (dp_send_error_msg env (Some sender) type code (take (ofm_length ofm) msg) dp))
       (flow_mod_error ofm error)"

text \<open>The fields of a new entry: \<open>Fill out flow\<close>.\<close>

definition fill_flow :: "u64 \<Rightarrow> ofp_flow_mod \<Rightarrow> sw_flow \<Rightarrow> sw_flow option" where
  "fill_flow now ofm flow =
     flow_setup_actions now
       (flow\<lparr>sf_cookie := ntohll (ofm_cookie ofm), sf_idle_timeout := ntohs (ofm_idle_timeout ofm),
             sf_hard_timeout := ntohs (ofm_hard_timeout ofm),
             sf_send_flow_rem := (if flag_set (ntohs (ofm_flags ofm)) OFPFF_SEND_FLOW_REM then 1 else 0),
             sf_emerg_flow := (if flag_set (ntohs (ofm_flags ofm)) OFPFF_EMERG then 1 else 0)\<rparr>)
       (ofm_actions ofm)"

text \<open>
  The buffered packet that the message names is executed with the new actions; \<open>count_used\<close> is what is done to the
  entry before.
\<close>

definition flow_mod_buffer :: "nat \<Rightarrow> dp_env \<Rightarrow> (ofpbuf \<Rightarrow> datapath \<Rightarrow> datapath) \<Rightarrow> ofp_flow_mod \<Rightarrow> datapath
    \<Rightarrow> (int \<times> datapath) run option" where
  "flow_mod_buffer n env count_used ofm dp =
     (if ntohl (ofm_buffer_id ofm) \<noteq> NO_BUFFER then
        (case retrieve_buffer (ntohl (ofm_buffer_id ofm)) (dp_buffers dp) of
           (None, bufs) \<Rightarrow> Some (Done (- ESRCH, dp\<lparr>dp_buffers := bufs\<rparr>))
         | (Some buffer, bufs) \<Rightarrow>
             (let dp = dp\<lparr>dp_buffers := bufs\<rparr>;
                  (_, buffer, flow) = flow_extract buffer (ntohs (om_in_port (ofm_match ofm)));
                  key = \<lparr>k_flow = flow, k_wildcards = 0, k_nw_src_mask = 0, k_nw_dst_mask = 0\<rparr>
              in bind_run (dp_execute_actions env (dp_output_port n env) buffer key (ofm_actions ofm) (count_used buffer dp))
                   (\<lambda>dp. Some (Done (0, dp)))))
      else Some (Done (0, dp)))"

definition add_flow :: "nat \<Rightarrow> dp_env \<Rightarrow> dp_alloc \<Rightarrow> sender \<Rightarrow> u8 list \<Rightarrow> ofp_flow_mod \<Rightarrow> datapath
    \<Rightarrow> (int \<times> datapath) run option" where
  "add_flow n env al sender msg ofm dp =
     (case flow_alloc (al_flow al) (al_sfa al) (al_addr al) (length (ofm_actions ofm)) of
        None \<Rightarrow> flow_mod_error ofm (- ENOMEM) dp
      | Some flow \<Rightarrow>
          (let flow = flow\<lparr>sf_key := flow_extract_match (ofm_match ofm)\<rparr>;
               v_code = validate_actions (sf_key flow) (ofm_actions ofm);
               flags = ntohs (ofm_flags ofm); emerg = flag_set flags OFPFF_EMERG
           in if v_code \<noteq> ACT_VALIDATION_OK then
                flow_mod_refuse env sender msg ofm OFPET_BAD_ACTION v_code (- ENOMEM) dp
              else
                (let flow = flow\<lparr>sf_priority :=
                       (if k_wildcards (sf_key flow) \<noteq> 0 then ntohs (ofm_priority ofm) else - 1)\<rparr>
                 in if flag_set flags OFPFF_CHECK_OVERLAP
                        \<and> chain_has_conflict (dp_chain dp) (sf_key flow) (sf_priority flow) False then
                      flow_mod_refuse env sender msg ofm OFPET_FLOW_MOD_FAILED OFPFMFC_OVERLAP (- ENOMEM) dp
                    else if emerg \<and> (ntohs (ofm_idle_timeout ofm) \<noteq> OFP_FLOW_PERMANENT
                                   \<or> ntohs (ofm_hard_timeout ofm) \<noteq> OFP_FLOW_PERMANENT) then
                      flow_mod_refuse env sender msg ofm OFPET_FLOW_MOD_FAILED OFPFMFC_BAD_EMERG_TIMEOUT (- ENOMEM) dp
                    else
                      (case fill_flow (ev_msec env) ofm flow of
                         None \<Rightarrow> Some Fault
                       | Some flow \<Rightarrow>
                           (case chain_insert (dp_chain dp) flow emerg of
                              None \<Rightarrow> Some Fault
                            | Some (error, chain) \<Rightarrow>
                                (let dp = dp\<lparr>dp_chain := chain\<rparr>
                                 in if error = - ENOBUFS then
                                      flow_mod_refuse env sender msg ofm OFPET_FLOW_MOD_FAILED OFPFMFC_ALL_TABLES_FULL error dp
                                    else if error \<noteq> 0 then flow_mod_error ofm error dp
                                    else
                                      flow_mod_buffer n env
                                        (\<lambda>buffer dp. dp\<lparr>dp_chain := chain_entry_upd (sf_addr flow)
                                           (\<lambda>f. flow_used (ev_msec env) f (ob_size buffer)) (dp_chain dp)\<rparr>)
                                        ofm dp))))))"

definition mod_flow :: "nat \<Rightarrow> dp_env \<Rightarrow> dp_alloc \<Rightarrow> sender \<Rightarrow> u8 list \<Rightarrow> ofp_flow_mod \<Rightarrow> datapath
    \<Rightarrow> (int \<times> datapath) run option" where
  "mod_flow n env al sender msg ofm dp =
     (case flow_alloc (al_flow al) (al_sfa al) (al_addr al) (length (ofm_actions ofm)) of
        None \<Rightarrow> flow_mod_error ofm (- ENOMEM) dp
      | Some flow \<Rightarrow>
          (let flow = flow\<lparr>sf_key := flow_extract_match (ofm_match ofm)\<rparr>;
               v_code = validate_actions (sf_key flow) (ofm_actions ofm);
               emerg = flag_set (ntohs (ofm_flags ofm)) OFPFF_EMERG
           in if v_code \<noteq> ACT_VALIDATION_OK then
                flow_mod_refuse env sender msg ofm OFPET_BAD_ACTION v_code (- ENOMEM) dp
              else
                (let flow = flow\<lparr>sf_priority :=
                       (if k_wildcards (sf_key flow) \<noteq> 0 then ntohs (ofm_priority ofm) else - 1)\<rparr>;
                     strict = (ofm_command ofm = htons OFPFC_MODIFY_STRICT)
                 in case chain_modify (al_replace al) (dp_chain dp) (sf_key flow) (sf_priority flow) strict
                           (ofm_actions ofm) emerg of
                      None \<Rightarrow> Some Fault
                    | Some (modified, chain) \<Rightarrow>
                        (let dp = dp\<lparr>dp_chain := chain\<rparr>
                         in if modified \<noteq> 0 then flow_mod_buffer n env (\<lambda>_ dp. dp) ofm dp
                            else
                              (case fill_flow (ev_msec env) ofm flow of
                                 None \<Rightarrow> Some Fault
                               | Some flow \<Rightarrow>
                                   (case chain_insert (dp_chain dp) flow emerg of
                                      None \<Rightarrow> Some Fault
                                    | Some (error, chain) \<Rightarrow>
                                        (let dp = dp\<lparr>dp_chain := chain\<rparr>
                                         in if error = - ENOBUFS then
                                              flow_mod_refuse env sender msg ofm OFPET_FLOW_MOD_FAILED
                                                OFPFMFC_ALL_TABLES_FULL error dp
                                            else if error \<noteq> 0 then flow_mod_error ofm error dp
                                            else flow_mod_buffer n env (\<lambda>_ dp. dp) ofm dp)))))))"

text \<open>The entries that a deletion removes are reported in order.\<close>

definition delete_flows :: "dp_env \<Rightarrow> ofp_flow_mod \<Rightarrow> bool \<Rightarrow> datapath \<Rightarrow> (int \<times> datapath) run option" where
  "delete_flows env ofm strict dp =
     (let key = flow_extract_match (ofm_match ofm);
          priority = (if strict then (if k_wildcards key \<noteq> 0 then ntohs (ofm_priority ofm) else - 1) else 0)
      in case chain_delete (dp_chain dp) key (ofm_out_port ofm) priority strict
                (flag_set (ntohs (ofm_flags ofm)) OFPFF_EMERG) of
           None \<Rightarrow> Some Fault
         | Some (cnt, chain, ended) \<Rightarrow>
             bind_run (each_run (\<lambda>f dp. Some (dp_send_flow_end env f OFPRR_DELETE dp)) ended (dp\<lparr>dp_chain := chain\<rparr>))
               (\<lambda>dp. Some (Done (if cnt \<noteq> 0 then 0 else - ESRCH, dp))))"

text \<open>
  \<open>handle\<close> is \<open>handleFlowMod\<close> for the configured platform, which works on the state \<open>(a, d)\<close> of the agent and the
  device. A message whose length field is too small is a fault: the agent computes with a wrapped
  length.
\<close>

definition recv_flow :: "nat \<Rightarrow> dp_env \<Rightarrow> dp_alloc \<Rightarrow> (ofp_flow_mod \<Rightarrow> agent \<Rightarrow> 'd \<Rightarrow> (agent \<times> 'd) run option)
    \<Rightarrow> sender \<Rightarrow> u8 list \<Rightarrow> agent \<times> 'd \<Rightarrow> datapath \<Rightarrow> (int \<times> (agent \<times> 'd) \<times> datapath) run option" where
  "recv_flow n env al handle sender msg ad dp =
     (case ofp_flow_mod_of msg of
        None \<Rightarrow> Some Fault
      | Some ofm \<Rightarrow>
          (let command = ntohs (ofm_command ofm)
           in bind_run (handle ofm (fst ad) (snd ad)) (\<lambda>ad.
                bind_run
                  (if command = OFPFC_ADD then add_flow n env al sender msg ofm dp
                   else if command = OFPFC_MODIFY \<or> command = OFPFC_MODIFY_STRICT then mod_flow n env al sender msg ofm dp
                   else if command = OFPFC_DELETE then delete_flows env ofm False dp
                   else if command = OFPFC_DELETE_STRICT then delete_flows env ofm True dp
                   else Some (Done (- ENODEV, dp)))
                  (\<lambda>(error, dp). Some (Done (error, ad, dp))))))"

section \<open>Operations on the chain\<close>

text \<open>No entry has the address of the new one, and a linear table has a serial number left.\<close>

fun table_fresh :: "nat \<Rightarrow> sw_table \<Rightarrow> bool" where
  "table_fresh a (Linear t) \<longleftrightarrow> a \<notin> sf_addr ` set (tl_flows t) \<and> tl_next_serial t \<noteq> - 1"
| "table_fresh a (Hash2 t) \<longleftrightarrow> True"

definition all_tables :: "sw_chain \<Rightarrow> sw_table list" where
  "all_tables chain = ch_tables chain @ (case ch_emerg_table chain of None \<Rightarrow> [] | Some t \<Rightarrow> [t])"

definition chain_fresh :: "nat \<Rightarrow> sw_chain \<Rightarrow> bool" where
  "chain_fresh a chain \<longleftrightarrow> list_all (table_fresh a) (all_tables chain)"

lemma fresh_addable: "table_fresh (sf_addr f) t \<Longrightarrow> entry_ok f \<Longrightarrow> table_addable t f"
  by (cases t) (simp_all add: linear_addable_def hash2_addable_def)

lemma chain_inv_all:
  "chain_inv chain \<longleftrightarrow> length (ch_tables chain) \<le> CHAIN_MAX_TABLES \<and> ch_emerg_table chain \<noteq> None
     \<and> list_all table_inv (all_tables chain)"
  by (auto simp: chain_inv_def all_tables_def list_all_iff split: option.splits)

lemma table_modify_keeps:
  assumes "table_inv t" "wf_acts actions"
  shows "table_inv (snd (table_modify alloc t key priority strict actions))
    \<and> table_fresh a (snd (table_modify alloc t key priority strict actions)) = table_fresh a t"
proof (cases t)
  case (Linear u)
  have "map sf_addr (tl_flows (snd (table_linear_modify alloc u key priority strict actions))) = map sf_addr (tl_flows u)"
    by (simp add: table_linear_modify_eq flow_replace_acts_def)
  then have "sf_addr ` set (tl_flows (snd (table_linear_modify alloc u key priority strict actions))) = sf_addr ` set (tl_flows u)"
    by (metis set_map)
  moreover have "tl_next_serial (snd (table_linear_modify alloc u key priority strict actions)) = tl_next_serial u"
    by (simp add: table_linear_modify_eq)
  ultimately show ?thesis
    using Linear assms linear_modify_inv [of u actions alloc key priority strict] by (simp add: case_prod_beta)
next
  case (Hash2 u)
  then show ?thesis
    using assms hash_modify_inv [of _ actions alloc key priority strict]
    by (simp add: case_prod_beta table_hash2_modify_def hash2_inv_def Let_def)
qed

lemma modify_tables_keeps:
  assumes "\<forall>t\<in>set ts. table_inv t" "wf_acts actions"
  shows "length (snd (modify_tables alloc ts key priority strict actions)) = length ts
    \<and> (\<forall>t\<in>set (snd (modify_tables alloc ts key priority strict actions)). table_inv t)
    \<and> list_all (table_fresh a) (snd (modify_tables alloc ts key priority strict actions)) = list_all (table_fresh a) ts"
  using assms(1) table_modify_keeps [OF _ assms(2)] by (induction ts) (simp_all add: case_prod_beta)

lemma chain_modify_keeps:
  assumes "chain_inv chain" "wf_acts actions"
  shows "\<exists>m chain'. chain_modify alloc chain key priority strict actions emerg = Some (m, chain')
    \<and> chain_inv chain' \<and> chain_fresh a chain' = chain_fresh a chain"
proof -
  obtain e where e: "ch_emerg_table chain = Some e" "table_inv e" using assms(1) by (auto simp: chain_inv_def)
  have ts: "\<forall>t\<in>set (ch_tables chain). table_inv t" using assms(1) by (simp add: chain_inv_def)
  show ?thesis
    using assms(1) e table_modify_keeps [OF e(2) assms(2), of alloc key priority strict a]
      modify_tables_keeps [OF ts assms(2), of alloc key priority strict a]
    by (auto simp: chain_modify_def chain_inv_def chain_fresh_def all_tables_def case_prod_beta)
qed

lemma chain_delete_keeps:
  assumes "chain_inv chain"
  shows "\<exists>c chain' ended. chain_delete chain key out_port priority strict emerg = Some (c, chain', ended) \<and> chain_inv chain'"
proof -
  obtain e where e: "ch_emerg_table chain = Some e" "table_inv e" using assms by (auto simp: chain_inv_def)
  have ts: "\<forall>t\<in>set (ch_tables chain). table_inv t" using assms by (simp add: chain_inv_def)
  show ?thesis
  proof (cases emerg)
    case True
    obtain c t ended where "table_delete e key out_port priority strict = Some (c, t, ended)"
      using table.delete_total [OF e(2), of key out_port priority strict] by auto
    then show ?thesis using True assms e table.delete_inv [OF e(2)] by (auto simp: chain_delete_def chain_inv_def)
  next
    case False
    then show ?thesis using assms delete_tables_correct [OF ts, of key out_port priority strict]
      by (auto simp: chain_delete_def chain_inv_def)
  qed
qed

text \<open>The table that takes a new entry, and the entries of the others as they were.\<close>

definition inserted_in :: "sw_chain \<Rightarrow> bool \<Rightarrow> sw_flow \<Rightarrow> sw_chain \<Rightarrow> bool" where
  "inserted_in chain emerg f chain' \<longleftrightarrow>
     (\<exists>us t vs t'. all_tables chain = us @ t # vs \<and> all_tables chain' = us @ t' # vs
        \<and> (if emerg then vs = [] \<and> length us = length (ch_tables chain) else length us < length (ch_tables chain))
        \<and> table_insert t f = (True, t') \<and> f \<in> (\<lambda>g. g\<lparr>sf_serial := sf_serial f\<rparr>) ` set (table_entries t'))"

lemma inserted_inI:
  assumes "all_tables chain = us @ t # vs" "all_tables chain' = us @ t' # vs"
    "if emerg then vs = [] \<and> length us = length (ch_tables chain) else length us < length (ch_tables chain)"
    "table_insert t f = (True, t')" "f \<in> (\<lambda>g. g\<lparr>sf_serial := sf_serial f\<rparr>) ` set (table_entries t')"
  shows "inserted_in chain emerg f chain'"
  unfolding inserted_in_def using assms by blast

lemma chain_insert_keeps:
  assumes "chain_inv chain" "chain_fresh (sf_addr f) chain" "entry_ok f"
  shows "\<exists>e chain'. chain_insert chain f emerg = Some (e, chain') \<and> chain_inv chain'
    \<and> (if e = 0 then inserted_in chain emerg f chain'
       else e = - ENOBUFS \<and> chain' = chain
         \<and> (\<forall>t\<in>(if emerg then set_option (ch_emerg_table chain) else set (ch_tables chain)). \<not> fst (table_insert t f)))"
proof -
  obtain em where em: "ch_emerg_table chain = Some em" "table_inv em" using assms(1) by (auto simp: chain_inv_def)
  have all: "all_tables chain = ch_tables chain @ [em]" by (simp add: all_tables_def em)
  have a: "table_inv t \<and> table_addable t f" if "t \<in> set (all_tables chain)" for t
    using that assms fresh_addable chain_inv_all [of chain] by (auto simp: chain_fresh_def list_all_iff)
  have mem: "f \<in> (\<lambda>g. g\<lparr>sf_serial := sf_serial f\<rparr>) ` set (table_entries (snd (table_insert t f)))"
    if t: "t \<in> set (all_tables chain)" "fst (table_insert t f)" for t
  proof -
    obtain s where "f\<lparr>sf_serial := s\<rparr> \<in> set (table_entries (snd (table_insert t f)))"
      using table.add_member [OF _ _ t(2)] a [OF t(1)] by blast
    then show ?thesis by (intro image_eqI [where x = "f\<lparr>sf_serial := s\<rparr>"]) simp_all
  qed
  show ?thesis
  proof (cases emerg)
    case True
    obtain ok t' where i: "table_insert em f = (ok, t')" by fastforce
    have t': "table_inv t'" using table.add_inv [of em f] a [of em] i all by auto
    show ?thesis
    proof (cases ok)
      case yes: True
      have "inserted_in chain True f (chain\<lparr>ch_emerg_table := Some t'\<rparr>)"
        using yes i mem [of em] all em
        by (intro inserted_inI [where us = "ch_tables chain" and t = em and vs = "[]" and t' = t']) (auto simp: all_tables_def)
      then show ?thesis using True yes i em t' assms(1) by (simp add: chain_insert_def chain_inv_def)
    next
      case no: False
      then have "t' = em" using table.add_fail [of em f] a [of em] i all by auto
      then have "chain\<lparr>ch_emerg_table := Some t'\<rparr> = chain" using em by simp
      then show ?thesis using True no i em assms(1) by (simp add: chain_insert_def)
    qed
  next
    case False
    obtain ok ts where i: "insert_tables (ch_tables chain) f = (ok, ts)" by fastforce
    have ti: "\<forall>t\<in>set (ch_tables chain). table_inv t \<and> table_addable t f" using a all by simp
    note c = insert_tables_correct [OF ti i]
    show ?thesis
    proof (cases ok)
      case yes: True
      then obtain us t vs where s: "ch_tables chain = us @ t # vs" "ts = us @ snd (table_insert t f) # vs" "fst (table_insert t f)"
        using c by auto
      have "inserted_in chain False f (chain\<lparr>ch_tables := ts\<rparr>)"
        using s mem [of t] all em
        by (intro inserted_inI [where us = us and t = t and vs = "vs @ [em]" and t' = "snd (table_insert t f)"])
          (auto simp: all_tables_def prod_eq_iff)
      moreover have "chain_inv (chain\<lparr>ch_tables := ts\<rparr>)" using c assms(1) by (simp add: chain_inv_def)
      ultimately show ?thesis using False yes i by (simp add: chain_insert_def)
    next
      case no: False
      then show ?thesis using False i c assms(1) by (simp add: chain_insert_def)
    qed
  qed
qed

section \<open>Error messages\<close>

definition error_msg :: "u32 \<Rightarrow> u16 \<Rightarrow> u16 \<Rightarrow> u8 list \<Rightarrow> u8 list" where
  "error_msg xid type code data =
     ofp_header_bytes \<lparr>oh_version = 1, oh_type = OFPT_ERROR, oh_length = htons (of_nat (12 + length data)), oh_xid = xid\<rparr>
     @ le16 (htons type) @ le16 (htons code) @ data"

text \<open>The message is offered to the connection of the sender of the request.\<close>

definition reply_to :: "dp_env \<Rightarrow> sender \<Rightarrow> u8 list \<Rightarrow> datapath \<Rightarrow> datapath" where
  "reply_to env sender msg dp =
     dp\<lparr>dp_remotes := (dp_remotes dp)[sd_remote sender := snd (rconn_send_with_limit env msg (dp_remotes dp ! sd_remote sender))]\<rparr>"

lemma reply_to_inv [simp]: "dp_inv (reply_to env sender msg dp) = dp_inv dp"
  by (simp add: reply_to_def)

lemma reply_to_sel [simp]: "dp_chain (reply_to env sender msg dp) = dp_chain dp"
  "dp_buffers (reply_to env sender msg dp) = dp_buffers dp"
  by (simp_all add: reply_to_def)

lemma error_msg_length: "update_openflow_length (error_msg xid type code data) = Some (error_msg xid type code data)"
proof -
  have l: "length (error_msg xid type code data) = 12 + length data"
    by (simp add: error_msg_def ofp_header_bytes_def)
  have "error_msg xid type code data = [1, OFPT_ERROR] @ le16 (htons (of_nat (12 + length data)))
      @ (le32 xid @ le16 (htons type) @ le16 (htons code) @ data)"
    by (simp add: error_msg_def ofp_header_bytes_def)
  then have "st16 (error_msg xid type code data) 2 (htons (of_nat (12 + length data))) = error_msg xid type code data"
    using st16_same [of "[1, OFPT_ERROR]"] by (simp only: length_Cons list.size One_nat_def Suc_1 numeral_2_eq_2)
  then show ?thesis unfolding update_openflow_length_def l by simp
qed

lemma dp_send_error_msg_result:
  assumes "length data \<le> 65523"
  shows "dp_send_error_msg env (Some sender) type code data dp
    = Done (reply_to env sender (error_msg (sd_xid sender) type code data) dp)"
proof -
  let ?h = "ofp_header_bytes \<lparr>oh_version = 1, oh_type = OFPT_ERROR, oh_length = htons (of_nat (12 + length data)), oh_xid = sd_xid sender\<rparr>"
  have "12 + length data - 8 = 4 + length data" by simp
  then have r: "replicate (12 + length data - 8) (0 :: u8) = [0, 0, 0, 0] @ replicate (length data) 0"
    by (simp only: replicate_add) (simp add: numeral_eq_Suc)
  have m: "make_openflow_reply (12 + length data) OFPT_ERROR (Some sender)
      = Some (?h @ [0, 0, 0, 0] @ replicate (length data) 0)"
    using assms unfolding make_openflow_reply_def make_openflow_xid_def r by simp
  have "st16 (st16 (?h @ [0, 0, 0, 0] @ replicate (length data) 0) 8 (htons type)) 10 (htons code)
      = (?h @ le16 (htons type) @ le16 (htons code)) @ replicate (length data) 0"
    by (simp add: st16_def st8_def ofp_header_bytes_def le16_def le32_def numeral_eq_Suc)
  then have "stn (st16 (st16 (?h @ [0, 0, 0, 0] @ replicate (length data) 0) 8 (htons type)) 10 (htons code)) 12 data
      = error_msg (sd_xid sender) type code data"
    by (simp add: stn_eq error_msg_def ofp_header_bytes_def)
  then show ?thesis
    unfolding dp_send_error_msg_def m
    by (simp add: send_msg_def send_openflow_buffer_def error_msg_length send_openflow_buffer_to_remote_def reply_to_def
        case_prod_beta)
qed

section \<open>Overlapping entries\<close>

text \<open>Exact keys overlap only if they are the same, so the bucket that the hash table looks at is enough.\<close>

definition overlaps :: "sw_flow_key \<Rightarrow> u16 \<Rightarrow> sw_flow \<Rightarrow> bool" where
  "overlaps key priority g \<longleftrightarrow> flow_matches_2wild (sf_key g) key \<and> sf_priority g = priority"

lemma in_occupants: "g \<in> set (occupants bs) \<longleftrightarrow> Some g \<in> set bs"
  by (induction bs rule: occupants.induct) auto

lemma hash_conflict_iff:
  assumes inv: "hash_inv th" and key: "key_ok key"
  shows "table_hash_has_conflict th key priority False \<longleftrightarrow> (\<exists>g\<in>set (hash_entries th). overlaps key priority g)"
proof -
  have c: "hash_conflicts key priority False b \<longleftrightarrow> (\<exists>g. b = Some g \<and> overlaps key priority g)" for b
    by (auto simp: hash_conflicts_def flow_matches_2desc_def overlaps_def split: option.split)
  show ?thesis
  proof (cases "k_wildcards key = 0")
    case True
    have i: "find_bucket th key < length (th_buckets th)" using find_bucket_less [OF inv] .
    have "th_buckets th ! find_bucket th key = Some g"
      if g: "i < length (th_buckets th)" "th_buckets th ! i = Some g" "overlaps key priority g" for i g
    proof -
      note h = hash_invD(4) [OF inv g(1,2)]
      have "k_flow (sf_key g) = k_flow key"
        using exact_overlap [of "sf_key g" key] h key True g(3) by (simp add: entry_ok_def overlaps_def)
      then have "find_bucket th key = i" using h by (simp add: find_bucket_def)
      then show ?thesis using g(2) by simp
    qed
    then have "(\<exists>g\<in>set (hash_entries th). overlaps key priority g) \<longleftrightarrow> (\<exists>g. bucket th key = Some g \<and> overlaps key priority g)"
      using i unfolding bucket_def hash_entries_def Bex_def set_occupants by blast
    then show ?thesis using True by (simp add: table_hash_has_conflict_def c)
  next
    case False
    have "(\<exists>b\<in>set (th_buckets th). \<exists>g. b = Some g \<and> overlaps key priority g)
        \<longleftrightarrow> (\<exists>g\<in>set (hash_entries th). overlaps key priority g)"
      using in_occupants [of _ "th_buckets th"] by (auto simp: hash_entries_def)
    then show ?thesis using False by (simp add: table_hash_has_conflict_def c list_ex_iff)
  qed
qed

lemma table_conflict_iff:
  assumes "table_inv t" "key_ok key"
  shows "table_has_conflict t key priority False \<longleftrightarrow> (\<exists>g\<in>set (table_entries t). overlaps key priority g)"
proof (cases t)
  case (Linear u)
  then show ?thesis by (auto simp: table_linear_has_conflict_def list_ex_iff overlaps_def flow_matches_2desc_def)
next
  case (Hash2 u)
  then show ?thesis using assms hash_conflict_iff [OF _ assms(2), of _ priority]
    by (auto simp: table_hash2_has_conflict_def hash2_inv_def hash2_entries_def)
qed

lemma chain_conflict_iff:
  assumes "chain_inv chain" "key_ok key"
  shows "chain_has_conflict chain key priority False \<longleftrightarrow> (\<exists>g\<in>set (chain_entries chain). overlaps key priority g)"
  using assms table_conflict_iff [OF _ assms(2)]
  by (auto simp: chain_has_conflict_def list_ex_iff chain_inv_def tables_entries_def)

section \<open>Results of the handlers\<close>

text \<open>The handler returns, and keeps the invariant unless a fault stops the switch.\<close>

definition safe_result :: "(int \<times> datapath) run option \<Rightarrow> bool" where
  "safe_result r \<longleftrightarrow> (\<exists>x. r = Some x \<and> (\<forall>e dp'. x = Done (e, dp') \<longrightarrow> dp_inv dp'))"

lemma safe_simps [simp]:
  "safe_result (Some Fault)" "safe_result (Some (Done (e, dp))) = dp_inv dp" "\<not> safe_result None"
  by (simp_all add: safe_result_def)

lemma flow_mod_error_safe: "dp_inv dp \<Longrightarrow> safe_result (flow_mod_error ofm e dp)"
  by (simp add: flow_mod_error_def dp_inv_def discard_buffer_inv)

lemma flow_mod_refuse_safe: "dp_inv dp \<Longrightarrow> safe_result (flow_mod_refuse env sender msg ofm type code e dp)"
proof -
  assume inv: "dp_inv dp"
  show ?thesis
  proof (cases "dp_send_error_msg env (Some sender) type code (take (ofm_length ofm) msg) dp")
    case (Done dp')
    then have "dp_inv dp'" using inv send_msg_inv unfolding dp_send_error_msg_def by blast
    then show ?thesis using Done flow_mod_error_safe by (simp add: flow_mod_refuse_def)
  qed (simp add: flow_mod_refuse_def)
qed

definition no_table_acts :: "u8 list \<Rightarrow> bool" where
  "no_table_acts acts \<longleftrightarrow> list_all (\<lambda>a. is_output a \<longrightarrow> act_port a \<noteq> OFPP_TABLE) (split_acts acts)"

lemma flow_mod_buffer_safe:
  assumes "dp_inv dp" "wf_acts (ofm_actions ofm)" "no_table_acts (ofm_actions ofm)"
    "\<And>b dp. dp_inv dp \<Longrightarrow> dp_inv (count_used b dp)"
  shows "safe_result (flow_mod_buffer (Suc (Suc n)) env count_used ofm dp)"
proof (cases "ntohl (ofm_buffer_id ofm) = NO_BUFFER")
  case True
  then show ?thesis using assms(1) by (simp add: flow_mod_buffer_def)
next
  case False
  obtain r bufs where rb: "retrieve_buffer (ntohl (ofm_buffer_id ofm)) (dp_buffers dp) = (r, bufs)" by fastforce
  have inv: "dp_inv (dp\<lparr>dp_buffers := bufs\<rparr>)"
    using assms(1) retrieve_buffer_inv [of "dp_buffers dp" "ntohl (ofm_buffer_id ofm)"] rb by (simp add: dp_inv_def)
  show ?thesis
  proof (cases r)
    case None
    then show ?thesis using False rb inv by (simp add: flow_mod_buffer_def)
  next
    case (Some b)
    obtain frag b1 fl where fe: "flow_extract b (ntohs (om_in_port (ofm_match ofm))) = (frag, b1, fl)" by (metis prod_cases3)
    let ?key = "\<lparr>k_flow = fl, k_wildcards = 0, k_nw_src_mask = 0, k_nw_dst_mask = 0\<rparr>"
    let ?dp = "count_used b1 (dp\<lparr>dp_buffers := bufs\<rparr>)"
    have "\<exists>x. dp_execute_actions env (dp_output_port (Suc (Suc n)) env) b1 ?key (ofm_actions ofm) ?dp = Some x
        \<and> (\<forall>dp'. x = Done dp' \<longrightarrow> dp_inv dp' \<and> dp_chain dp' = dp_chain ?dp)"
      using assms(2,3) by (intro dp_execute_actions_returns assms(4) inv) (auto simp: no_table_acts_def list_all_iff)
    then obtain x where x: "dp_execute_actions env (dp_output_port (Suc (Suc n)) env) b1 ?key (ofm_actions ofm) ?dp = Some x"
      "\<forall>dp'. x = Done dp' \<longrightarrow> dp_inv dp'" by blast
    then show ?thesis using False rb Some fe
      by (cases x) (simp_all add: flow_mod_buffer_def Let_def del: dp_output_port.simps)
  qed
qed

text \<open>The entry that a flow modification describes.\<close>

definition new_entry :: "u64 \<Rightarrow> nat \<Rightarrow> ofp_flow_mod \<Rightarrow> sw_flow" where
  "new_entry now addr ofm = \<lparr>sf_addr = addr, sf_key = flow_extract_match (ofm_match ofm), sf_cookie = ntohll (ofm_cookie ofm),
     sf_priority = (if k_wildcards (flow_extract_match (ofm_match ofm)) \<noteq> 0 then ntohs (ofm_priority ofm) else - 1),
     sf_idle_timeout = ntohs (ofm_idle_timeout ofm), sf_hard_timeout = ntohs (ofm_hard_timeout ofm),
     sf_used = now, sf_created = now, sf_packet_count = 0, sf_byte_count = 0, sf_reason = 0,
     sf_send_flow_rem = (if flag_set (ntohs (ofm_flags ofm)) OFPFF_SEND_FLOW_REM then 1 else 0),
     sf_emerg_flow = (if flag_set (ntohs (ofm_flags ofm)) OFPFF_EMERG then 1 else 0),
     sf_acts = ofm_actions ofm, sf_serial = 0\<rparr>"

lemma new_entry_ok: "wf_acts (ofm_actions ofm) \<Longrightarrow> entry_ok (new_entry now addr ofm)"
  by (simp add: entry_ok_def new_entry_def)

text \<open>The tables that are tried for a new entry.\<close>

definition candidates :: "sw_chain \<Rightarrow> bool \<Rightarrow> sw_table list" where
  "candidates chain emerg = (if emerg then (case ch_emerg_table chain of None \<Rightarrow> [] | Some t \<Rightarrow> [t]) else ch_tables chain)"

lemma inserted_candidate:
  assumes "inserted_in chain emerg f chain'" shows "\<exists>t\<in>set (candidates chain emerg). fst (table_insert t f)"
proof -
  from assms obtain us t vs t' where t: "all_tables chain = us @ t # vs" "table_insert t f = (True, t')"
    "if emerg then vs = [] \<and> length us = length (ch_tables chain) else length us < length (ch_tables chain)"
    unfolding inserted_in_def by blast
  have n: "all_tables chain ! length us = t" "length us < length (all_tables chain)" using t(1) by simp_all
  have "t \<in> set (candidates chain emerg)"
    using n t(3) by (auto simp: candidates_def all_tables_def nth_append split: option.splits if_splits)
  then show ?thesis using t(2) by (intro bexI [of _ t]) simp_all
qed

text \<open>Why an addition is refused, if it is: the type and code of the error message.\<close>

definition add_refused :: "sw_chain \<Rightarrow> ofp_flow_mod \<Rightarrow> sw_flow \<Rightarrow> (u16 \<times> u16) option" where
  "add_refused chain ofm f =
     (let flags = ntohs (ofm_flags ofm); emerg = flag_set flags OFPFF_EMERG
      in if \<not> (wf_acts (sf_acts f) \<and> list_all (acceptable_act (sf_key f)) (split_acts (sf_acts f)))
         then Some (OFPET_BAD_ACTION, validate_actions (sf_key f) (sf_acts f))
         else if flag_set flags OFPFF_CHECK_OVERLAP \<and> list_ex (overlaps (sf_key f) (sf_priority f)) (chain_entries chain)
         then Some (OFPET_FLOW_MOD_FAILED, OFPFMFC_OVERLAP)
         else if emerg \<and> (sf_idle_timeout f \<noteq> 0 \<or> sf_hard_timeout f \<noteq> 0)
         then Some (OFPET_FLOW_MOD_FAILED, OFPFMFC_BAD_EMERG_TIMEOUT)
         else if list_all (\<lambda>t. \<not> fst (table_insert t f)) (candidates chain emerg)
         then Some (OFPET_FLOW_MOD_FAILED, OFPFMFC_ALL_TABLES_FULL)
         else None)"

lemma validated: "validate_actions key p = ACT_VALIDATION_OK \<longleftrightarrow> wf_acts p \<and> list_all (acceptable_act key) (split_acts p)"
  by (simp add: validate_actions_ok_iff list_all_iff act_ok_acceptable)

lemma alloc_new:
  assumes "al_flow al" "al_sfa al"
  shows "\<exists>flow. flow_alloc (al_flow al) (al_sfa al) (al_addr al) (length (ofm_actions ofm)) = Some flow
    \<and> fill_flow now ofm (flow\<lparr>sf_key := flow_extract_match (ofm_match ofm),
        sf_priority := (if k_wildcards (flow_extract_match (ofm_match ofm)) \<noteq> 0 then ntohs (ofm_priority ofm) else - 1)\<rparr>)
      = Some (new_entry now (al_addr al) ofm)"
  using assms by (simp add: flow_alloc_def fill_flow_def flow_setup_actions_def new_entry_def)

lemma refuse_result:
  assumes "length (take (ofm_length ofm) msg) \<le> 65523" "ntohl (ofm_buffer_id ofm) = NO_BUFFER"
  shows "flow_mod_refuse env sender msg ofm type code e dp
    = Some (Done (e, reply_to env sender (error_msg (sd_xid sender) type code (take (ofm_length ofm) msg)) dp))"
proof -
  have "dp_send_error_msg env (Some sender) type code (take (ofm_length ofm) msg) dp
      = Done (reply_to env sender (error_msg (sd_xid sender) type code (take (ofm_length ofm) msg)) dp)"
    using assms(1) by (rule dp_send_error_msg_result)
  then show ?thesis using assms(2) by (simp add: flow_mod_refuse_def flow_mod_error_def)
qed

lemma add_flow_result:
  assumes "dp_inv dp" "chain_fresh (al_addr al) (dp_chain dp)" "al_flow al" "al_sfa al"
    "ntohl (ofm_buffer_id ofm) = NO_BUFFER" "length (take (ofm_length ofm) msg) \<le> 65523"
    "f = new_entry (ev_msec env) (al_addr al) ofm" "emerg = flag_set (ntohs (ofm_flags ofm)) OFPFF_EMERG"
  shows "\<exists>e dp'. add_flow n env al sender msg ofm dp = Some (Done (e, dp'))
    \<and> (case add_refused (dp_chain dp) ofm f of
         None \<Rightarrow> e = 0 \<and> inserted_in (dp_chain dp) emerg f (dp_chain dp') \<and> dp' = dp\<lparr>dp_chain := dp_chain dp'\<rparr> \<and> dp_inv dp'
       | Some (type, code) \<Rightarrow>
           e = (if (type, code) = (OFPET_FLOW_MOD_FAILED, OFPFMFC_ALL_TABLES_FULL) then - ENOBUFS else - ENOMEM)
           \<and> dp' = reply_to env sender (error_msg (sd_xid sender) type code (take (ofm_length ofm) msg)) dp)"
proof -
  define K where "K = flow_extract_match (ofm_match ofm)"
  define pr where "pr = (if k_wildcards K \<noteq> 0 then ntohs (ofm_priority ofm) else - 1)"
  obtain flow where fl: "flow_alloc (al_flow al) (al_sfa al) (al_addr al) (length (ofm_actions ofm)) = Some flow"
    "fill_flow (ev_msec env) ofm (flow\<lparr>sf_key := K, sf_priority := pr\<rparr>) = Some f"
    using alloc_new [OF assms(3,4), of ofm "ev_msec env"] unfolding assms(7) K_def pr_def by blast
  have f: "sf_key f = K" "sf_acts f = ofm_actions ofm" "sf_addr f = al_addr al" "sf_priority f = pr"
    "sf_idle_timeout f = ntohs (ofm_idle_timeout ofm)" "sf_hard_timeout f = ntohs (ofm_hard_timeout ofm)"
    by (simp_all add: assms(7) new_entry_def K_def pr_def)
  have inv: "chain_inv (dp_chain dp)" using assms(1) by (simp add: dp_inv_def)
  have conf: "chain_has_conflict (dp_chain dp) K pr False = list_ex (overlaps K pr) (chain_entries (dp_chain dp))"
    using chain_conflict_iff [OF inv, of K pr] by (simp add: K_def list_ex_iff)
  note ref = refuse_result [OF assms(6,5), of env sender]
  let ?v = "validate_actions K (ofm_actions ofm)"
  let ?ov = "flag_set (ntohs (ofm_flags ofm)) OFPFF_CHECK_OVERLAP \<and> list_ex (overlaps K pr) (chain_entries (dp_chain dp))"
  let ?tm = "emerg \<and> (ntohs (ofm_idle_timeout ofm) \<noteq> 0 \<or> ntohs (ofm_hard_timeout ofm) \<noteq> 0)"
  let ?reply = "\<lambda>type code. reply_to env sender (error_msg (sd_xid sender) type code (take (ofm_length ofm) msg)) dp"
  have E: "add_flow n env al sender msg ofm dp =
    (if ?v \<noteq> ACT_VALIDATION_OK then Some (Done (- ENOMEM, ?reply OFPET_BAD_ACTION ?v))
     else if ?ov then Some (Done (- ENOMEM, ?reply OFPET_FLOW_MOD_FAILED OFPFMFC_OVERLAP))
     else if ?tm then Some (Done (- ENOMEM, ?reply OFPET_FLOW_MOD_FAILED OFPFMFC_BAD_EMERG_TIMEOUT))
     else (case chain_insert (dp_chain dp) f emerg of
             None \<Rightarrow> Some Fault
           | Some (e, chain) \<Rightarrow>
               if e = - ENOBUFS then flow_mod_refuse env sender msg ofm OFPET_FLOW_MOD_FAILED OFPFMFC_ALL_TABLES_FULL e (dp\<lparr>dp_chain := chain\<rparr>)
               else if e \<noteq> 0 then flow_mod_error ofm e (dp\<lparr>dp_chain := chain\<rparr>)
               else Some (Done (0, dp\<lparr>dp_chain := chain\<rparr>))))"
    using fl assms(5)
    by (simp add: add_flow_def Let_def K_def [symmetric] pr_def [symmetric] assms(8) [symmetric] conf ref flow_mod_buffer_def split del: if_split
        cong: if_cong option.case_cong)
  have A: "add_refused (dp_chain dp) ofm f =
    (if ?v \<noteq> ACT_VALIDATION_OK then Some (OFPET_BAD_ACTION, ?v)
     else if ?ov then Some (OFPET_FLOW_MOD_FAILED, OFPFMFC_OVERLAP)
     else if ?tm then Some (OFPET_FLOW_MOD_FAILED, OFPFMFC_BAD_EMERG_TIMEOUT)
     else if list_all (\<lambda>t. \<not> fst (table_insert t f)) (candidates (dp_chain dp) emerg)
     then Some (OFPET_FLOW_MOD_FAILED, OFPFMFC_ALL_TABLES_FULL) else None)"
    by (simp add: add_refused_def Let_def f validated [symmetric] assms(8))
  show ?thesis
  proof (cases "?v \<noteq> ACT_VALIDATION_OK \<or> ?ov \<or> ?tm")
    case True
    then show ?thesis unfolding E A by (elim disjE) auto
  next
    case False
    then have "wf_acts (ofm_actions ofm)" by (simp add: validated)
    then have "entry_ok f" using assms(7) new_entry_ok by simp
    then obtain e chain where i: "chain_insert (dp_chain dp) f emerg = Some (e, chain)" "chain_inv chain"
      "if e = 0 then inserted_in (dp_chain dp) emerg f chain else e = - ENOBUFS \<and> chain = dp_chain dp
         \<and> (\<forall>t\<in>(if emerg then set_option (ch_emerg_table (dp_chain dp)) else set (ch_tables (dp_chain dp))). \<not> fst (table_insert t f))"
      using chain_insert_keeps [OF inv, of f emerg] assms(2) f(3) by auto
    show ?thesis
    proof (cases "e = 0")
      case True
      then have "inserted_in (dp_chain dp) emerg f chain" using i(3) by simp
      moreover from inserted_candidate [OF this] have "add_refused (dp_chain dp) ofm f = None"
        unfolding A using False by (auto simp: list_all_iff)
      moreover have "add_flow n env al sender msg ofm dp = Some (Done (0, dp\<lparr>dp_chain := chain\<rparr>))"
        unfolding E using False i(1) True by auto
      moreover have "dp_inv (dp\<lparr>dp_chain := chain\<rparr>)" using assms(1) i(2) by (simp add: dp_inv_def)
      ultimately show ?thesis by simp
    next
      case no: False
      then have n: "e = - ENOBUFS" "chain = dp_chain dp" "list_all (\<lambda>t. \<not> fst (table_insert t f)) (candidates (dp_chain dp) emerg)"
        using i(3) by (auto simp: candidates_def list_all_iff split: option.splits if_splits)
      have "add_refused (dp_chain dp) ofm f = Some (OFPET_FLOW_MOD_FAILED, OFPFMFC_ALL_TABLES_FULL)"
        unfolding A using False n(3) by auto
      moreover have "add_flow n env al sender msg ofm dp = Some (Done (- ENOBUFS, ?reply OFPET_FLOW_MOD_FAILED OFPFMFC_ALL_TABLES_FULL))"
        unfolding E using False i(1) n(1,2) ref by auto
      ultimately show ?thesis by simp
    qed
  qed
qed

lemma entry_count_inv:
  "dp_inv dp \<Longrightarrow> dp_inv (dp\<lparr>dp_chain := chain_entry_upd a (\<lambda>f. flow_used now f k) (dp_chain dp)\<rparr>)"
  using chain_entry_upd_inv(1) [OF flow_used_counts] by (simp add: dp_inv_def)

text \<open>The insertion of the new entry, as \<^verbatim>\<open>add_flow\<close> and \<^verbatim>\<open>mod_flow\<close> end.\<close>

lemma insert_safe:
  assumes "dp_inv dp" "chain_fresh (sf_addr f) (dp_chain dp)" "entry_ok f"
    "\<And>chain. chain_inv chain \<Longrightarrow> safe_result (done (dp\<lparr>dp_chain := chain\<rparr>))"
  shows "safe_result (case chain_insert (dp_chain dp) f emerg of
      None \<Rightarrow> Some Fault
    | Some (error, chain) \<Rightarrow>
        if error = - ENOBUFS then flow_mod_refuse env sender msg ofm type code error (dp\<lparr>dp_chain := chain\<rparr>)
        else if error \<noteq> 0 then flow_mod_error ofm error (dp\<lparr>dp_chain := chain\<rparr>)
        else done (dp\<lparr>dp_chain := chain\<rparr>))"
proof -
  have "chain_inv (dp_chain dp)" using assms(1) by (simp add: dp_inv_def)
  from chain_insert_keeps [OF this assms(2,3), of emerg] obtain e chain
    where i: "chain_insert (dp_chain dp) f emerg = Some (e, chain)" "chain_inv chain" by blast
  have "dp_inv (dp\<lparr>dp_chain := chain\<rparr>)" using assms(1) i(2) by (simp add: dp_inv_def)
  then show ?thesis using i assms(4) flow_mod_refuse_safe flow_mod_error_safe by auto
qed

lemma add_flow_safe:
  assumes "dp_inv dp" "chain_fresh (al_addr al) (dp_chain dp)" "no_table_acts (ofm_actions ofm)"
  shows "safe_result (add_flow (Suc (Suc n)) env al sender msg ofm dp)"
proof (cases "al_flow al \<and> al_sfa al")
  case False
  then have "flow_alloc (al_flow al) (al_sfa al) (al_addr al) (length (ofm_actions ofm)) = None"
    by (auto simp: flow_alloc_def)
  then show ?thesis using assms(1) flow_mod_error_safe by (simp add: add_flow_def)
next
  case True
  define f where "f = new_entry (ev_msec env) (al_addr al) ofm"
  obtain flow where fl: "flow_alloc (al_flow al) (al_sfa al) (al_addr al) (length (ofm_actions ofm)) = Some flow"
    "fill_flow (ev_msec env) ofm (flow\<lparr>sf_key := flow_extract_match (ofm_match ofm),
        sf_priority := (if k_wildcards (flow_extract_match (ofm_match ofm)) \<noteq> 0 then ntohs (ofm_priority ofm) else - 1)\<rparr>)
      = Some f"
    using alloc_new [of al ofm "ev_msec env"] True unfolding f_def by blast
  have a: "sf_addr f = al_addr al" by (simp add: f_def new_entry_def)
  show ?thesis
  proof (cases "validate_actions (flow_extract_match (ofm_match ofm)) (ofm_actions ofm) = ACT_VALIDATION_OK")
    case v: True
    then have wf: "wf_acts (ofm_actions ofm)" by (simp add: validated)
    have i: "safe_result (case chain_insert (dp_chain dp) f emerg of
        None \<Rightarrow> Some Fault
      | Some (error, chain) \<Rightarrow>
          if error = - ENOBUFS then flow_mod_refuse env sender msg ofm type code error (dp\<lparr>dp_chain := chain\<rparr>)
          else if error \<noteq> 0 then flow_mod_error ofm error (dp\<lparr>dp_chain := chain\<rparr>)
          else flow_mod_buffer (Suc (Suc n)) env
                (\<lambda>buffer dp. dp\<lparr>dp_chain := chain_entry_upd (sf_addr f)
                   (\<lambda>f. flow_used (ev_msec env) f (ob_size buffer)) (dp_chain dp)\<rparr>) ofm (dp\<lparr>dp_chain := chain\<rparr>))" for emerg type code
      using assms wf a new_entry_ok [OF wf, of "ev_msec env" "al_addr al"]
      by (intro insert_safe flow_mod_buffer_safe entry_count_inv) (simp_all add: f_def dp_inv_def)
    show ?thesis using assms(1) v fl i flow_mod_refuse_safe
      by (simp add: add_flow_def Let_def cong: if_cong option.case_cong)
  qed (use assms(1) fl flow_mod_refuse_safe in \<open>simp add: add_flow_def Let_def\<close>)
qed

lemma mod_flow_safe:
  assumes "dp_inv dp" "chain_fresh (al_addr al) (dp_chain dp)" "no_table_acts (ofm_actions ofm)"
  shows "safe_result (mod_flow (Suc (Suc n)) env al sender msg ofm dp)"
proof (cases "al_flow al \<and> al_sfa al")
  case False
  then have "flow_alloc (al_flow al) (al_sfa al) (al_addr al) (length (ofm_actions ofm)) = None"
    by (auto simp: flow_alloc_def)
  then show ?thesis using assms(1) flow_mod_error_safe by (simp add: mod_flow_def)
next
  case True
  define f where "f = new_entry (ev_msec env) (al_addr al) ofm"
  define K where "K = flow_extract_match (ofm_match ofm)"
  define pr where "pr = (if k_wildcards K \<noteq> 0 then ntohs (ofm_priority ofm) else - 1)"
  obtain flow where fl: "flow_alloc (al_flow al) (al_sfa al) (al_addr al) (length (ofm_actions ofm)) = Some flow"
    "fill_flow (ev_msec env) ofm (flow\<lparr>sf_key := K, sf_priority := pr\<rparr>) = Some f"
    using alloc_new [of al ofm "ev_msec env"] True unfolding f_def K_def pr_def by blast
  have a: "sf_addr f = al_addr al" by (simp add: f_def new_entry_def)
  show ?thesis
  proof (cases "validate_actions K (ofm_actions ofm) = ACT_VALIDATION_OK")
    case v: True
    then have wf: "wf_acts (ofm_actions ofm)" by (simp add: validated)
    let ?emerg = "flag_set (ntohs (ofm_flags ofm)) OFPFF_EMERG"
    have "chain_inv (dp_chain dp)" using assms(1) by (simp add: dp_inv_def)
    from chain_modify_keeps [OF this wf, of "al_replace al" K pr "ofm_command ofm = htons OFPFC_MODIFY_STRICT" ?emerg "al_addr al"]
    obtain m chain where c: "chain_modify (al_replace al) (dp_chain dp) K pr (ofm_command ofm = htons OFPFC_MODIFY_STRICT)
        (ofm_actions ofm) ?emerg = Some (m, chain)" "chain_inv chain" "chain_fresh (al_addr al) chain"
      using assms(2) by blast
    let ?dp = "dp\<lparr>dp_chain := chain\<rparr>"
    have inv: "dp_inv ?dp" using assms(1) c(2) by (simp add: dp_inv_def)
    have b: "safe_result (flow_mod_buffer (Suc (Suc n)) env (\<lambda>_ dp. dp) ofm (dp\<lparr>dp_chain := ch\<rparr>))" if "chain_inv ch" for ch
      using that assms(1,3) wf by (intro flow_mod_buffer_safe) (simp_all add: dp_inv_def)
    have i: "safe_result (case chain_insert (dp_chain ?dp) f emerg of
        None \<Rightarrow> Some Fault
      | Some (error, ch) \<Rightarrow>
          if error = - ENOBUFS then flow_mod_refuse env sender msg ofm type code error (?dp\<lparr>dp_chain := ch\<rparr>)
          else if error \<noteq> 0 then flow_mod_error ofm error (?dp\<lparr>dp_chain := ch\<rparr>)
          else flow_mod_buffer (Suc (Suc n)) env (\<lambda>_ dp. dp) ofm (?dp\<lparr>dp_chain := ch\<rparr>))" for emerg type code
      using inv c(3) a b new_entry_ok [OF wf, of "ev_msec env" "al_addr al"]
      by (intro insert_safe) (simp_all add: f_def)
    show ?thesis using v fl c(1) b [OF c(2)] i
      by (simp add: mod_flow_def Let_def K_def [symmetric] pr_def [symmetric] cong: if_cong option.case_cong)
  qed (use assms(1) fl flow_mod_refuse_safe in \<open>simp add: mod_flow_def Let_def K_def\<close>)
qed

lemma delete_flows_safe:
  assumes "dp_inv dp" shows "safe_result (delete_flows env ofm strict dp)"
proof -
  define key where "key = flow_extract_match (ofm_match ofm)"
  define priority where "priority = (if strict then (if k_wildcards key \<noteq> 0 then ntohs (ofm_priority ofm) else - 1) else 0)"
  have "chain_inv (dp_chain dp)" using assms by (simp add: dp_inv_def)
  from chain_delete_keeps [OF this] obtain c chain ended where
    d: "chain_delete (dp_chain dp) key (ofm_out_port ofm) priority strict (flag_set (ntohs (ofm_flags ofm)) OFPFF_EMERG)
      = Some (c, chain, ended)" "chain_inv chain" by blast
  have inv: "dp_inv (dp\<lparr>dp_chain := chain\<rparr>)" using assms d(2) by (simp add: dp_inv_def)
  have e: "\<exists>r. Some (dp_send_flow_end env f OFPRR_DELETE dp1) = Some r \<and> (\<forall>dp'. r = Done dp' \<longrightarrow> dp_inv dp')"
    if "dp_inv dp1" for f dp1
    using that send_msg_inv by (auto simp: dp_send_flow_end_def)
  obtain r where r: "each_run (\<lambda>f dp. Some (dp_send_flow_end env f OFPRR_DELETE dp)) ended (dp\<lparr>dp_chain := chain\<rparr>) = Some r"
    "\<forall>dp'. r = Done dp' \<longrightarrow> dp_inv dp'"
    using each_run_returns [of ended dp_inv "\<lambda>f dp. Some (dp_send_flow_end env f OFPRR_DELETE dp)", OF e inv] by blast
  show ?thesis
    unfolding delete_flows_def Let_def key_def [symmetric] priority_def [symmetric] d(1)
    using r by (cases r) simp_all
qed

lemma recv_flow_safe:
  assumes "dp_inv dp" "chain_fresh (al_addr al) (dp_chain dp)" "ofp_flow_mod_of msg = Some ofm"
    "no_table_acts (ofm_actions ofm)" "handle ofm (fst ad) (snd ad) \<noteq> None"
  shows "\<exists>r. recv_flow (Suc (Suc n)) env al handle sender msg ad dp = Some r
    \<and> (\<forall>e ad' dp'. r = Done (e, ad', dp') \<longrightarrow> dp_inv dp')"
proof -
  define h where "h = (let command = ntohs (ofm_command ofm) in
      if command = OFPFC_ADD then add_flow (Suc (Suc n)) env al sender msg ofm dp
      else if command = OFPFC_MODIFY \<or> command = OFPFC_MODIFY_STRICT then mod_flow (Suc (Suc n)) env al sender msg ofm dp
      else if command = OFPFC_DELETE then delete_flows env ofm False dp
      else if command = OFPFC_DELETE_STRICT then delete_flows env ofm True dp
      else Some (Done (- ENODEV, dp)))"
  have "safe_result h"
    using assms add_flow_safe mod_flow_safe delete_flows_safe by (simp add: h_def Let_def)
  then obtain x where x: "h = Some x" "\<forall>e dp'. x = Done (e, dp') \<longrightarrow> dp_inv dp'" by (auto simp: safe_result_def)
  obtain y where y: "handle ofm (fst ad) (snd ad) = Some y" using assms(5) by blast
  have "recv_flow (Suc (Suc n)) env al handle sender msg ad dp
      = bind_run (Some y) (\<lambda>ad. bind_run h (\<lambda>(error, dp). Some (Done (error, ad, dp))))"
    unfolding recv_flow_def assms(3) option.case h_def y Let_def ..
  then show ?thesis using x by (cases y; cases x) auto
qed

section \<open>Properties\<close>

text \<open>
  A flow modification, whatever its command, fields and actions and whatever memory the allocator grants, is handled in
  bounded time and leaves the flow tables, the buffers and the ports of the datapath well formed, when the agent returns
  and no action of the message outputs to the tables.
\<close>

theorem recv_flow_keeps_invariant:
  assumes "dp_inv dp" "chain_fresh (al_addr al) (dp_chain dp)" "ofp_flow_mod_of msg = Some ofm"
    "no_table_acts (ofm_actions ofm)" "handle ofm (fst ad) (snd ad) \<noteq> None"
  shows "\<exists>r. recv_flow (Suc (Suc n)) env al handle sender msg ad dp = Some r
    \<and> (\<forall>e ad' dp'. r = Done (e, ad', dp') \<longrightarrow> dp_inv dp')"
  using assms by (rule recv_flow_safe)

text \<open>
  C13. The addition of a flow that names no buffered packet: if the actions are acceptable, no overlap is forbidden, an
  emergency flow has no timeout and a table takes the entry, then the entry as the message describes it is
  in the tables and nothing else changes; otherwise the tables stay, and the sender gets the error message with
  the first reason that applies and the request.
\<close>

theorem add_flow_effect:
  assumes "dp_inv dp" "chain_fresh (al_addr al) (dp_chain dp)" "al_flow al" "al_sfa al"
    "ntohl (ofm_buffer_id ofm) = NO_BUFFER" "length (take (ofm_length ofm) msg) \<le> 65523"
  shows "\<exists>e dp'. add_flow n env al sender msg ofm dp = Some (Done (e, dp'))
    \<and> (case add_refused (dp_chain dp) ofm (new_entry (ev_msec env) (al_addr al) ofm) of
         None \<Rightarrow> e = 0 \<and> dp_inv dp' \<and> dp' = dp\<lparr>dp_chain := dp_chain dp'\<rparr>
           \<and> inserted_in (dp_chain dp) (flag_set (ntohs (ofm_flags ofm)) OFPFF_EMERG)
               (new_entry (ev_msec env) (al_addr al) ofm) (dp_chain dp')
       | Some (type, code) \<Rightarrow>
           e = (if (type, code) = (OFPET_FLOW_MOD_FAILED, OFPFMFC_ALL_TABLES_FULL) then - ENOBUFS else - ENOMEM)
           \<and> dp' = reply_to env sender (error_msg (sd_xid sender) type code (take (ofm_length ofm) msg)) dp)"
proof -
  from add_flow_result [OF assms refl refl, where env = env and n = n and sender = sender] obtain e dp' where
    r: "add_flow n env al sender msg ofm dp = Some (Done (e, dp'))"
    "case add_refused (dp_chain dp) ofm (new_entry (ev_msec env) (al_addr al) ofm) of
         None \<Rightarrow> e = 0 \<and> inserted_in (dp_chain dp) (flag_set (ntohs (ofm_flags ofm)) OFPFF_EMERG)
               (new_entry (ev_msec env) (al_addr al) ofm) (dp_chain dp') \<and> dp' = dp\<lparr>dp_chain := dp_chain dp'\<rparr> \<and> dp_inv dp'
       | Some (type, code) \<Rightarrow>
           e = (if (type, code) = (OFPET_FLOW_MOD_FAILED, OFPFMFC_ALL_TABLES_FULL) then - ENOBUFS else - ENOMEM)
           \<and> dp' = reply_to env sender (error_msg (sd_xid sender) type code (take (ofm_length ofm) msg)) dp" by blast
  then show ?thesis
    by (intro exI [of _ e] exI [of _ dp'])
      (cases "add_refused (dp_chain dp) ofm (new_entry (ev_msec env) (al_addr al) ofm)", auto)
qed

section \<open>Witnesses\<close>

definition sample_alloc :: dp_alloc where
  "sample_alloc = \<lparr>al_flow = True, al_sfa = True, al_addr = 77, al_replace = (\<lambda>_. True)\<rparr>"

text \<open>An addition for packets of port 1, with output to port 2.\<close>

definition sample_add :: ofp_flow_mod where
  "sample_add = \<lparr>ofm_length = 80, ofm_match = any_match\<lparr>om_wildcards := htonl (OFPFW_ALL AND NOT OFPFW_IN_PORT), om_in_port := htons 1\<rparr>,
     ofm_cookie = 0, ofm_command = 0, ofm_idle_timeout = 0, ofm_hard_timeout = 0, ofm_priority = htons 9,
     ofm_buffer_id = 0xffffffff, ofm_out_port = 0, ofm_flags = htons OFPFF_CHECK_OVERLAP,
     ofm_actions = le16 (htons OFPAT_OUTPUT) @ le16 (htons 8) @ le16 (htons 2) @ le16 0\<rparr>"

definition one_chain :: sw_chain where
  "one_chain = \<lparr>ch_tables = [Linear sample_table], ch_emerg_table = Some (Linear sample_table)\<rparr>"

lemma one_chain_inv: "chain_inv one_chain"
  using sample_table_inv by (simp add: one_chain_def chain_inv_def)

lemma one_chain_fresh: "chain_fresh 77 one_chain"
  by (simp add: chain_fresh_def all_tables_def one_chain_def sample_table_eq sample_entry_def)

theorem add_flow_effect_witness:
  "\<exists>dp'. add_flow 0 sample_env sample_alloc \<lparr>sd_remote = 0, sd_xid = 7\<rparr> [] sample_add (sample_dp one_chain) = Some (Done (0, dp'))
    \<and> inserted_in one_chain False (new_entry 5000 77 sample_add) (dp_chain dp')"
proof -
  have r: "add_refused one_chain sample_add (new_entry 5000 77 sample_add) = None" by code_simp
  have a: "al_addr sample_alloc = 77" "al_flow sample_alloc" "al_sfa sample_alloc" "ev_msec sample_env = 5000"
    by (simp_all add: sample_alloc_def sample_env_def)
  have m: "ntohl (ofm_buffer_id sample_add) = NO_BUFFER" "\<not> flag_set (ntohs (ofm_flags sample_add)) OFPFF_EMERG" by code_simp+
  have inv: "dp_inv (sample_dp one_chain)" "chain_fresh (al_addr sample_alloc) (dp_chain (sample_dp one_chain))"
    using sample_dp_inv [OF one_chain_inv] one_chain_fresh by (simp_all add: sample_ports a)
  from add_flow_effect [OF inv a(2,3) m(1), of "[]" 0 sample_env "\<lparr>sd_remote = 0, sd_xid = 7\<rparr>"]
  show ?thesis using m(2) r by (auto simp: a sample_ports)
qed

definition sample_pl :: "zyxel_properties platform" where
  "sample_pl = zyxel_platform [] True (\<lambda>_. 0)"

theorem recv_flow_keeps_invariant_witness:
  "\<exists>r. recv_flow 2 sample_env sample_alloc (handleFlowMod ''none'' sample_pl sample_pl sample_pl) \<lparr>sd_remote = 0, sd_xid = 7\<rparr>
     ([1, 14, 0, 72] @ replicate 68 0) (sample_agent, sample_zyxel) (sample_dp one_chain) = Some r"
proof -
  have inv: "dp_inv (sample_dp one_chain)" "chain_fresh (al_addr sample_alloc) (dp_chain (sample_dp one_chain))"
    using sample_dp_inv [OF one_chain_inv] one_chain_fresh by (simp_all add: sample_ports sample_alloc_def)
  let ?m = "[1, 14, 0, 72] @ replicate 68 0 :: u8 list"
  have l: "msg_length ?m = 72" by code_simp
  then obtain ofm where ofm: "ofp_flow_mod_of ?m = Some ofm" "ofm_actions ofm = []" by (simp add: ofp_flow_mod_of_def)
  have "no_table_acts (ofm_actions ofm)" using ofm(2) by (simp add: no_table_acts_def split_acts.simps)
  from recv_flow_keeps_invariant [OF inv ofm(1) this, of "handleFlowMod ''none'' sample_pl sample_pl sample_pl" "(sample_agent, sample_zyxel)" 0 sample_env "\<lparr>sd_remote = 0, sd_xid = 7\<rparr>"]
  show ?thesis by (auto simp: numeral_2_eq_2 handleFlowMod_def)
qed

end
