(* ===== verification/Dp_Config.thy ===== *)
theory Dp_Config
  imports Dp_Flow_Mod
begin

text \<open>
  The messages that configure the datapath or ask for its configuration, in \<^verbatim>\<open>src/openflow/udatapath/datapath.c\<close>
  (switch and port configuration, features, queues, echo and barrier), and the extension messages
  of \<^verbatim>\<open>src/openflow/udatapath/of_ext_msg.c\<close>. A message is the list of its bytes; reading a field beyond it is a fault.
  The array of queues of a port is represented by \<open>pt_queue_list\<close>: a slot is in use if a queue of the list has its
  index as class. The list of queues of a port that was never added is not initialised: walking it
  is a fault.
\<close>

section \<open>Constants\<close>

abbreviation OFPT_ECHO_REQUEST :: u8 where "OFPT_ECHO_REQUEST \<equiv> 2"
abbreviation OFPT_ECHO_REPLY :: u8 where "OFPT_ECHO_REPLY \<equiv> 3"
abbreviation OFPT_FEATURES_REPLY :: u8 where "OFPT_FEATURES_REPLY \<equiv> 6"
abbreviation OFPT_GET_CONFIG_REPLY :: u8 where "OFPT_GET_CONFIG_REPLY \<equiv> 8"
abbreviation OFPT_BARRIER_REPLY :: u8 where "OFPT_BARRIER_REPLY \<equiv> 19"
abbreviation OFPT_QUEUE_GET_CONFIG_REPLY :: u8 where "OFPT_QUEUE_GET_CONFIG_REPLY \<equiv> 21"
abbreviation OFPET_QUEUE_OP_FAILED :: u16 where "OFPET_QUEUE_OP_FAILED \<equiv> 5"
abbreviation OFPQOFC_BAD_PORT :: u16 where "OFPQOFC_BAD_PORT \<equiv> 0"
abbreviation OFPQOFC_BAD_QUEUE :: u16 where "OFPQOFC_BAD_QUEUE \<equiv> 1"
abbreviation OFPQOFC_EPERM :: u16 where "OFPQOFC_EPERM \<equiv> 2"
abbreviation OFQ_ERR_DISCIPLINE :: u16 where "OFQ_ERR_DISCIPLINE \<equiv> 3"
abbreviation OFPQT_MIN_RATE :: u16 where "OFPQT_MIN_RATE \<equiv> 1"
abbreviation OFPC_FRAG_NORMAL :: u16 where "OFPC_FRAG_NORMAL \<equiv> 0"
abbreviation OFP_SUPPORTED_CAPABILITIES :: u32 where "OFP_SUPPORTED_CAPABILITIES \<equiv> 0xC7"
abbreviation OFP_SUPPORTED_ACTIONS :: u32 where "OFP_SUPPORTED_ACTIONS \<equiv> 0xEFF"
abbreviation OFP_EXT_QUEUE_MODIFY :: u32 where "OFP_EXT_QUEUE_MODIFY \<equiv> 0"
abbreviation OFP_EXT_QUEUE_DELETE :: u32 where "OFP_EXT_QUEUE_DELETE \<equiv> 1"
abbreviation OFP_EXT_SET_DESC :: u32 where "OFP_EXT_SET_DESC \<equiv> 2"
abbreviation DESC_STR_LEN :: nat where "DESC_STR_LEN \<equiv> 256"
abbreviation EINVAL :: int where "EINVAL \<equiv> 22"

text \<open>A handler returns an error code and changes the datapath, or stops it.\<close>

type_synonym handled = "(int \<times> datapath) run"

text \<open>A call whose result is not used, before the handler returns 0.\<close>

definition then_zero :: "datapath run \<Rightarrow> handled" where
  "then_zero r = (case r of Fault \<Rightarrow> Fault | Done dp \<Rightarrow> Done (0, dp))"

section \<open>Ports and switch configuration\<close>

text \<open>\<^verbatim>\<open>struct ofp_port_mod\<close>: the port at 8, the configuration at 16, its mask at 20. The test for a null pointer is commented out.\<close>

definition update_port_flags :: "u8 list \<Rightarrow> datapath \<Rightarrow> datapath run" where
  "update_port_flags opm dp =
     (let p = dp_lookup_port dp (ntohs (ld16 opm 8)); config_mask = ntohl (ld32 opm 20)
      in if ld32 opm 20 \<noteq> 0 then
           (case p of
              None \<Rightarrow> Fault
            | Some p \<Rightarrow> Done (port_upd p (\<lambda>port. port\<lparr>pt_config :=
                (pt_config port AND NOT config_mask) OR (ntohl (ld32 opm 16) AND config_mask)\<rparr>) dp))
         else Done dp)"

definition recv_port_mod :: "u8 list \<Rightarrow> datapath \<Rightarrow> handled" where
  "recv_port_mod msg dp = then_zero (update_port_flags msg dp)"

text \<open>\<^verbatim>\<open>struct ofp_switch_config\<close>: flags at 8, \<^verbatim>\<open>miss_send_len\<close> at 10.\<close>

definition recv_set_config :: "u8 list \<Rightarrow> datapath \<Rightarrow> handled" where
  "recv_set_config osc dp =
     (let flags = ntohs (ld16 osc 8) AND OFPC_FRAG_MASK;
          flags = (if flags AND OFPC_FRAG_MASK \<noteq> OFPC_FRAG_NORMAL \<and> flags AND OFPC_FRAG_MASK \<noteq> OFPC_FRAG_DROP
                   then (flags AND NOT OFPC_FRAG_MASK) OR OFPC_FRAG_DROP else flags)
      in Done (0, dp\<lparr>dp_flags := flags, dp_miss_send_len := ntohs (ld16 osc 10)\<rparr>))"

text \<open>A message that is built and sent to the sender, with the result of the call.\<close>

definition send_reply :: "dp_env \<Rightarrow> sender \<Rightarrow> u8 list option \<Rightarrow> datapath \<Rightarrow> handled" where
  "send_reply env sender msg dp =
     (case msg of None \<Rightarrow> Fault | Some buffer \<Rightarrow> send_openflow_buffer env buffer (Some sender) dp)"

definition recv_get_config_request :: "dp_env \<Rightarrow> sender \<Rightarrow> datapath \<Rightarrow> handled" where
  "recv_get_config_request env sender dp =
     send_reply env sender
       (map_option (\<lambda>osc. st16 (st16 osc 8 (htons (dp_flags dp))) 10 (htons (dp_miss_send_len dp)))
          (make_openflow_reply 12 OFPT_GET_CONFIG_REPLY (Some sender))) dp"

text \<open>The descriptions of the ports; each is also brought up to date.\<close>

fun ports_desc :: "dp_env \<Rightarrow> u16 list \<Rightarrow> datapath \<Rightarrow> u8 list \<times> datapath" where
  "ports_desc env [] dp = ([], dp)"
| "ports_desc env (p # ps) dp =
     (let (desc, port) = fill_port_desc env (port_at dp p);
          (descs, dp) = ports_desc env ps (port_upd p (\<lambda>_. port) dp)
      in (desc @ descs, dp))"

definition dp_send_features_reply :: "dp_env \<Rightarrow> sender \<Rightarrow> datapath \<Rightarrow> datapath run" where
  "dp_send_features_reply env sender dp =
     (case make_openflow_reply 32 OFPT_FEATURES_REPLY (Some sender) of
        None \<Rightarrow> Fault
      | Some ofr \<Rightarrow>
          (let ofr = stn ofr 8 (le64 (htonll (dp_id dp)));
               ofr = st8 ofr 20 (of_nat (length (ch_tables (dp_chain dp))));
               ofr = st32 ofr 16 (htonl (of_nat N_PKT_BUFFERS));
               ofr = st32 ofr 24 (htonl OFP_SUPPORTED_CAPABILITIES);
               ofr = st32 ofr 28 (htonl OFP_SUPPORTED_ACTIONS);
               (descs, dp) = ports_desc env (dp_port_list dp) dp
           in send_msg env (Some (ofr @ descs)) (Some sender) dp))"

definition recv_features_request :: "dp_env \<Rightarrow> sender \<Rightarrow> datapath \<Rightarrow> handled" where
  "recv_features_request env sender dp = then_zero (dp_send_features_reply env sender dp)"

section \<open>Echo, barrier and packet-out\<close>

text \<open>The request is copied and its type replaced; a length field below 8 makes the send assert.\<close>

definition make_barrier_reply :: "u8 list \<Rightarrow> u8 list" where
  "make_barrier_reply req = st8 (take (msg_length req) req) 1 OFPT_BARRIER_REPLY"

definition make_echo_reply :: "u8 list \<Rightarrow> u8 list" where
  "make_echo_reply rq = st8 (take (msg_length rq) rq) 1 OFPT_ECHO_REPLY"

definition recv_barrier_request :: "dp_env \<Rightarrow> sender \<Rightarrow> u8 list \<Rightarrow> datapath \<Rightarrow> handled" where
  "recv_barrier_request env sender msg dp = send_reply env sender (Some (make_barrier_reply msg)) dp"

definition recv_echo_request :: "dp_env \<Rightarrow> sender \<Rightarrow> u8 list \<Rightarrow> datapath \<Rightarrow> handled" where
  "recv_echo_request env sender msg dp = send_reply env sender (Some (make_echo_reply msg)) dp"

definition recv_echo_reply :: "datapath \<Rightarrow> handled" where
  "recv_echo_reply dp = Done (0, dp)"

text \<open>The body of \<^verbatim>\<open>recv_packet_out\<close> is commented out.\<close>

definition recv_packet_out :: "datapath \<Rightarrow> handled" where
  "recv_packet_out dp = Done (0, dp)"

section \<open>Queues\<close>

definition port_in_use :: "sw_port \<Rightarrow> bool" where
  "port_in_use p \<longleftrightarrow> flag_set (pt_flags p) SWP_USED"

text \<open>The list of queues of a port, if it was initialised.\<close>

definition port_queues :: "sw_port \<Rightarrow> sw_queue list option" where
  "port_queues p = (if port_in_use p then Some (pt_queue_list p) else None)"

definition fill_queue_desc :: "sw_queue \<Rightarrow> u8 list" where
  "fill_queue_desc q =
     le32 (htonl (sq_queue_id q)) @ le16 (htons 24) @ [0, 0]
     @ le16 (htons OFPQT_MIN_RATE) @ le16 (htons 16) @ replicate 4 0 @ le16 (htons (sq_min_rate q)) @ replicate 6 0"

text \<open>The request about the message, sent as an error.\<close>

definition queue_error :: "dp_env \<Rightarrow> sender \<Rightarrow> u16 \<Rightarrow> u8 list \<Rightarrow> datapath \<Rightarrow> datapath run" where
  "queue_error env sender code msg dp =
     dp_send_error_msg env (Some sender) OFPET_QUEUE_OP_FAILED code (take (msg_length msg) msg) dp"

definition recv_queue_get_config_request :: "dp_env \<Rightarrow> sender \<Rightarrow> u8 list \<Rightarrow> datapath \<Rightarrow> handled" where
  "recv_queue_get_config_request env sender msg dp =
     (if length msg < 10 then Fault
      else
        (let port_no = ntohs (ld16 msg 8)
         in then_zero
           (if port_no < OFPP_MAX then
              (case dp_lookup_port dp port_no of
                 None \<Rightarrow> queue_error env sender OFPQOFC_BAD_PORT msg dp
               | Some p \<Rightarrow>
                   (if pt_port_no (port_at dp p) \<noteq> port_no then queue_error env sender OFPQOFC_BAD_PORT msg dp
                    else
                      (case (make_openflow_reply 16 OFPT_QUEUE_GET_CONFIG_REPLY (Some sender), port_queues (port_at dp p)) of
                         (Some reply, Some qs) \<Rightarrow>
                           send_msg env (Some (st16 reply 8 (htons port_no) @ concat (map fill_queue_desc qs))) (Some sender) dp
                       | _ \<Rightarrow> Fault)))
            else queue_error env sender OFPQOFC_BAD_PORT msg dp)))"

section \<open>Extension messages (of\_ext\_msg.c)\<close>

definition new_queue :: "u32 \<Rightarrow> u16 \<Rightarrow> u16 \<Rightarrow> u16 \<Rightarrow> sw_port \<Rightarrow> sw_port" where
  "new_queue queue_id class_id property rate port =
     port\<lparr>pt_queue_list := pt_queue_list port @
       [\<lparr>sq_tx_packets = 0, sq_tx_bytes = 0, sq_tx_errors = 0, sq_queue_id = queue_id, sq_class_id = class_id,
         sq_property = property, sq_min_rate = rate\<rparr>]\<rparr>"

text \<open>The first free slot of the array of queues; slot 0 is not used.\<close>

definition port_add_queue :: "u32 \<Rightarrow> u16 \<Rightarrow> u16 \<Rightarrow> sw_port \<Rightarrow> int \<times> sw_port" where
  "port_add_queue queue_id property rate p =
     (case find (\<lambda>i. \<forall>q\<in>set (pt_queue_list p). unat (sq_class_id q) \<noteq> i) [1..<unat (pt_num_queues p)] of
        Some queue_no \<Rightarrow> (0, new_queue queue_id (of_nat queue_no) property rate p)
      | None \<Rightarrow> (EXFULL, p))"

definition port_delete_queue :: "u16 \<Rightarrow> sw_port \<Rightarrow> sw_port" where
  "port_delete_queue class_id p = p\<lparr>pt_queue_list := filter (\<lambda>q. sq_class_id q \<noteq> class_id) (pt_queue_list p)\<rparr>"

text \<open>\<^verbatim>\<open>struct openflow_queue_command_header\<close>: the port at 16, the queue at 24 with its properties at 32.\<close>

definition recv_of_exp_queue_delete :: "dp_env \<Rightarrow> sender \<Rightarrow> u8 list \<Rightarrow> datapath \<Rightarrow> datapath run" where
  "recv_of_exp_queue_delete env sender msg dp =
     (if length msg < 28 then Fault
      else
        (let port_no = ntohs (ld16 msg 16); queue_id = ntohl (ld32 msg 24)
         in case dp_lookup_port dp port_no of
              None \<Rightarrow> Fault
            | Some p \<Rightarrow>
                (if pt_netdev (port_at dp p) \<noteq> None then
                   (case port_queues (port_at dp p) of
                      None \<Rightarrow> Fault
                    | Some _ \<Rightarrow>
                        (case dp_lookup_queue (port_at dp p) queue_id of
                           Some q \<Rightarrow> Done (port_upd p (port_delete_queue (sq_class_id q)) dp)
                         | None \<Rightarrow> queue_error env sender OFPQOFC_BAD_PORT msg dp))
                 else queue_error env sender OFPQOFC_BAD_PORT msg dp)))"

text \<open>
  \<open>cls d c r\<close>: device \<open>d\<close> accepts rate \<open>r\<close> for class \<open>c\<close>, the result of \<^verbatim>\<open>netdev_change_class\<close> and \<^verbatim>\<open>netdev_setup_class\<close>, which
  dereference the device.
\<close>

definition recv_of_exp_queue_modify :: "dp_env \<Rightarrow> (nat \<Rightarrow> u16 \<Rightarrow> u16 \<Rightarrow> bool) \<Rightarrow> sender \<Rightarrow> u8 list \<Rightarrow> datapath \<Rightarrow> datapath run" where
  "recv_of_exp_queue_modify env cls sender msg dp =
     (if length msg < 42 then Fault
      else
        (let port_no = ntohs (ld16 msg 16); queue_id = ntohl (ld32 msg 24);
             property = ntohs (ld16 msg 32); rate = ntohs (ld16 msg 40)
         in if ntohs (ld16 msg 28) \<noteq> 24 \<or> property \<noteq> OFPQT_MIN_RATE then queue_error env sender OFQ_ERR_DISCIPLINE msg dp
            else
              (case dp_lookup_port dp port_no of
                 None \<Rightarrow> queue_error env sender OFPQOFC_BAD_PORT msg dp
               | Some p \<Rightarrow>
                   (if \<not> port_in_use (port_at dp p) then queue_error env sender OFPQOFC_BAD_PORT msg dp
                    else
                      (case dp_lookup_queue (port_at dp p) queue_id of
                         Some q \<Rightarrow>
                           (case pt_netdev (port_at dp p) of
                              None \<Rightarrow> Fault
                            | Some netdev \<Rightarrow>
                                (if \<not> cls netdev (sq_class_id q) rate then queue_error env sender OFPQOFC_EPERM msg dp
                                 else Done (port_upd p (\<lambda>port. port\<lparr>pt_queue_list :=
                                   map (\<lambda>g. if sq_class_id g = sq_class_id q
                                            then g\<lparr>sq_property := property, sq_min_rate := rate\<rparr> else g) (pt_queue_list port)\<rparr>) dp)))
                       | None \<Rightarrow>
                           (let (error, port) = port_add_queue queue_id property rate (port_at dp p)
                            in if error = EXFULL then queue_error env sender OFPQOFC_EPERM msg dp
                               else
                                 (let dp = port_upd p (\<lambda>_. port) dp
                                  in case (pt_netdev port, dp_lookup_queue port queue_id) of
                                       (Some netdev, Some q) \<Rightarrow>
                                         (if \<not> cls netdev (sq_class_id q) rate
                                          then queue_error env sender OFPQOFC_BAD_QUEUE msg dp else Done dp)
                                     | _ \<Rightarrow> Fault)))))))"

text \<open>\<^verbatim>\<open>strncpy\<close> up to a null character; of 256 characters without one the last is overwritten.\<close>

definition recv_of_set_dp_desc :: "u8 list \<Rightarrow> datapath \<Rightarrow> datapath run" where
  "recv_of_set_dp_desc msg dp =
     (let s = takeWhile (\<lambda>c. c \<noteq> 0) (take DESC_STR_LEN (drop 16 msg))
      in if length s < DESC_STR_LEN \<and> length msg = 16 + length s then Fault
         else Done (dp\<lparr>dp_desc := map (\<lambda>c. char_of (unat c)) (take (DESC_STR_LEN - 1) s)\<rparr>))"

definition of_ext_recv_msg :: "dp_env \<Rightarrow> (nat \<Rightarrow> u16 \<Rightarrow> u16 \<Rightarrow> bool) \<Rightarrow> sender \<Rightarrow> u8 list \<Rightarrow> datapath \<Rightarrow> handled" where
  "of_ext_recv_msg env cls sender msg dp =
     (if length msg < 16 then Fault
      else
        (let subtype = ntohl (ld32 msg 12)
         in if subtype = OFP_EXT_QUEUE_MODIFY then then_zero (recv_of_exp_queue_modify env cls sender msg dp)
            else if subtype = OFP_EXT_QUEUE_DELETE then then_zero (recv_of_exp_queue_delete env sender msg dp)
            else if subtype = OFP_EXT_SET_DESC then then_zero (recv_of_set_dp_desc msg dp)
            else Done (- EINVAL, dp)))"

section \<open>Invariant\<close>

text \<open>Changes of a port that keep its number.\<close>

lemma port_upd_ports_inv:
  assumes "ports_inv dp" "port_valid dp p" "\<And>x. x = port_at dp p \<Longrightarrow> pt_port_no (f x) = pt_port_no x"
  shows "ports_inv (port_upd p f dp)"
proof -
  have l: "length (dp_ports dp) = 255" using assms(1) by (simp add: ports_inv_def)
  have v: "port_valid (port_upd p f dp) q = port_valid dp q" for q by (simp add: port_valid_def port_upd_def)
  have "pt_port_no (port_at (port_upd p f dp) q) = q" if "q \<in> set (dp_port_list dp)" for q
  proof -
    have "port_valid dp q" "pt_port_no (port_at dp q) = q" using assms(1) that by (auto simp: ports_inv_def)
    then show ?thesis using port_at_upd [OF assms(2) l, of q f] assms(3) by (cases "q = p") auto
  qed
  moreover have "length (dp_ports (port_upd p f dp)) = 255" using l by (simp add: port_upd_def)
  ultimately show ?thesis using assms(1) unfolding ports_inv_def v by simp
qed

lemma port_upd_inv:
  assumes "dp_inv dp" "port_valid dp p" "\<And>x. x = port_at dp p \<Longrightarrow> pt_port_no (f x) = pt_port_no x"
  shows "dp_inv (port_upd p f dp)"
  using assms port_upd_ports_inv [of dp p f] by (simp add: dp_inv_def)

text \<open>A handler keeps the invariant, unless it stops the datapath.\<close>

definition keeps_inv :: "handled \<Rightarrow> bool" where
  "keeps_inv r \<longleftrightarrow> (\<forall>e dp. r = Done (e, dp) \<longrightarrow> dp_inv dp)"

lemma keeps_inv_simps [simp]: "keeps_inv Fault" "keeps_inv (Done (e, dp)) = dp_inv dp"
  by (simp_all add: keeps_inv_def)

lemma keeps_then_zero: "(\<And>dp. r = Done dp \<Longrightarrow> dp_inv dp) \<Longrightarrow> keeps_inv (then_zero r)"
  by (cases r) (simp_all add: then_zero_def)

lemma queue_error_inv: "queue_error env sender code msg dp = Done dp' \<Longrightarrow> dp_inv dp \<Longrightarrow> dp_inv dp'"
  unfolding queue_error_def dp_send_error_msg_def using send_msg_inv by blast

lemma send_reply_keeps: "dp_inv dp \<Longrightarrow> keeps_inv (send_reply env sender m dp)"
  using send_openflow_buffer_frame unfolding keeps_inv_def send_reply_def
  by (fastforce split: option.splits)

lemma recv_port_mod_keeps: "dp_inv dp \<Longrightarrow> keeps_inv (recv_port_mod msg dp)"
proof -
  assume inv: "dp_inv dp"
  show ?thesis unfolding recv_port_mod_def
  proof (rule keeps_then_zero)
    fix dp' assume "update_port_flags msg dp = Done dp'"
    then show "dp_inv dp'" using inv
      by (auto simp: update_port_flags_def Let_def lookup_port_valid intro!: port_upd_inv split: if_splits option.splits)
  qed
qed

lemma fill_port_desc_no: "pt_port_no (snd (fill_port_desc env p)) = pt_port_no p"
  by (simp add: fill_port_desc_def Let_def split: option.split)

lemma ports_desc_inv:
  assumes "dp_inv dp" "\<forall>p\<in>set ps. port_valid dp p"
  shows "dp_inv (snd (ports_desc env ps dp))"
  using assms
proof (induction ps arbitrary: dp)
  case (Cons p ps)
  let ?dp = "port_upd p (\<lambda>_. snd (fill_port_desc env (port_at dp p))) dp"
  have "dp_inv ?dp" using Cons.prems by (intro port_upd_inv) (simp_all add: fill_port_desc_no)
  moreover have "\<forall>q\<in>set ps. port_valid ?dp q" using Cons.prems by (simp add: port_valid_def port_upd_def)
  ultimately show ?case using Cons.IH [of ?dp] by (simp add: case_prod_beta Let_def)
qed simp

lemma recv_features_request_keeps: "dp_inv dp \<Longrightarrow> keeps_inv (recv_features_request env sender dp)"
proof -
  assume inv: "dp_inv dp"
  have "dp_inv (snd (ports_desc env (dp_port_list dp) dp))"
    using inv by (intro ports_desc_inv) (auto simp: dp_inv_def ports_inv_def)
  then show ?thesis unfolding recv_features_request_def dp_send_features_reply_def Let_def
    using send_msg_inv by (intro keeps_then_zero) (auto simp: case_prod_beta split: option.splits)
qed

lemma recv_queue_get_config_keeps: "dp_inv dp \<Longrightarrow> keeps_inv (recv_queue_get_config_request env sender msg dp)"
  unfolding recv_queue_get_config_request_def Let_def
  by (auto intro!: keeps_then_zero dest: queue_error_inv send_msg_inv split: if_splits option.splits)

lemma port_add_queue_no: "pt_port_no (snd (port_add_queue i pr r p)) = pt_port_no p"
  by (simp add: port_add_queue_def new_queue_def split: option.split)

lemma recv_of_exp_queue_delete_inv:
  "recv_of_exp_queue_delete env sender msg dp = Done dp' \<Longrightarrow> dp_inv dp \<Longrightarrow> dp_inv dp'"
  by (auto simp: recv_of_exp_queue_delete_def Let_def lookup_port_valid port_delete_queue_def intro!: port_upd_inv
      dest: queue_error_inv split: if_splits option.splits)

lemma recv_of_exp_queue_modify_inv:
  assumes "recv_of_exp_queue_modify env cls sender msg dp = Done dp'" "dp_inv dp"
  shows "dp_inv dp'"
proof -
  have a: "dp_inv (port_upd p (\<lambda>_. snd (port_add_queue i pr r (port_at dp p))) dp)" if "port_valid dp p" for p i pr r
    using assms(2) that by (intro port_upd_inv) (simp_all add: port_add_queue_no)
  have m: "dp_inv (port_upd p (\<lambda>port. port\<lparr>pt_queue_list := h (pt_queue_list port)\<rparr>) dp)" if "port_valid dp p" for p h
    using assms(2) that by (intro port_upd_inv) simp_all
  show ?thesis
    using assms a m unfolding recv_of_exp_queue_modify_def Let_def lookup_port_valid case_prod_beta
    by (auto dest: queue_error_inv split: if_splits option.splits)
qed

lemma dp_inv_desc [simp]: "dp_inv (dp\<lparr>dp_desc := d\<rparr>) = dp_inv dp"
  by (simp add: dp_inv_def)

lemma recv_of_set_dp_desc_inv: "recv_of_set_dp_desc msg dp = Done dp' \<Longrightarrow> dp_inv dp \<Longrightarrow> dp_inv dp'"
  unfolding recv_of_set_dp_desc_def Let_def by (auto simp only: dp_inv_desc run.inject run.distinct split: if_split_asm)

lemma of_ext_recv_msg_keeps:
  assumes "dp_inv dp" shows "keeps_inv (of_ext_recv_msg env cls sender msg dp)"
proof -
  have "keeps_inv (then_zero (recv_of_exp_queue_modify env cls sender msg dp))"
    "keeps_inv (then_zero (recv_of_exp_queue_delete env sender msg dp))" "keeps_inv (then_zero (recv_of_set_dp_desc msg dp))"
    using assms by (auto intro: keeps_then_zero recv_of_exp_queue_modify_inv recv_of_exp_queue_delete_inv recv_of_set_dp_desc_inv)
  then show ?thesis using assms by (simp add: of_ext_recv_msg_def Let_def)
qed

section \<open>Properties\<close>

text \<open>The bytes of a configuration message behind its header.\<close>

definition config_msg :: "u8 \<Rightarrow> u32 \<Rightarrow> u16 \<Rightarrow> u16 \<Rightarrow> u8 list" where
  "config_msg type xid flags miss_send_len =
     ofp_header_bytes \<lparr>oh_version = 1, oh_type = type, oh_length = htons 12, oh_xid = xid\<rparr>
     @ le16 (htons flags) @ le16 (htons miss_send_len)"

lemma length_config_msg: "length (config_msg type xid flags miss) = 12"
  by (simp add: config_msg_def ofp_header_bytes_def)

lemma config_msg_reply:
  assumes "make_openflow_reply 12 type (Some sender) = Some osc"
  shows "st16 (st16 osc 8 (htons flags)) 10 (htons miss) = config_msg type (sd_xid sender) flags miss"
proof -
  let ?h = "ofp_header_bytes \<lparr>oh_version = 1, oh_type = type, oh_length = htons 12, oh_xid = sd_xid sender\<rparr>"
  have "osc = ?h @ replicate 4 0"
    using assms by (simp add: make_openflow_reply_def make_openflow_xid_def)
  moreover have "replicate 4 0 = [0, 0, 0, 0 :: u8]" by (simp add: numeral_eq_Suc)
  ultimately have o: "osc = ?h @ [0, 0, 0, 0]" by simp
  show ?thesis unfolding o by (simp add: config_msg_def st16_def st8_def ofp_header_bytes_def le16_def le32_def numeral_eq_Suc)
qed

lemma config_msg_fields:
  "ntohs (ld16 (config_msg type xid flags miss) 8) = flags" "ntohs (ld16 (config_msg type xid flags miss) 10) = miss"
proof -
  let ?h = "ofp_header_bytes \<lparr>oh_version = 1, oh_type = type, oh_length = htons 12, oh_xid = xid\<rparr>"
  have "ld16 (?h @ le16 (htons flags) @ le16 (htons miss)) 8 = htons flags"
    by (rule ld16_le16) (simp add: ofp_header_bytes_def)
  moreover have "ld16 ((?h @ le16 (htons flags)) @ le16 (htons miss) @ []) 10 = htons miss"
    by (rule ld16_le16) (simp add: ofp_header_bytes_def)
  ultimately show "ntohs (ld16 (config_msg type xid flags miss) 8) = flags"
    "ntohs (ld16 (config_msg type xid flags miss) 10) = miss" by (simp_all add: config_msg_def)
qed

lemma update_length_config: "update_openflow_length (config_msg type xid flags miss) = Some (config_msg type xid flags miss)"
  by (simp add: update_openflow_length_def length_config_msg) 
    (simp add: config_msg_def ofp_header_bytes_def st16_def st8_def le16_def)

lemma send_to_sender:
  "update_openflow_length m = Some m \<Longrightarrow> \<exists>e. send_openflow_buffer env m (Some sender) dp = Done (e, reply_to env sender m dp)"
  by (simp add: send_openflow_buffer_def send_openflow_buffer_to_remote_def reply_to_def case_prod_beta)

text \<open>
  What a controller sets is what it gets, but that a request to reassemble fragments becomes one to
  drop them, and that bits outside the mask are cleared.
\<close>

theorem set_get_config:
  assumes "msg = config_msg type xid flags miss"
  shows "\<exists>dp' e. recv_set_config msg dp = Done (0, dp')
    \<and> recv_get_config_request env sender dp'
      = Done (e, reply_to env sender (config_msg OFPT_GET_CONFIG_REPLY (sd_xid sender)
          (if flags AND OFPC_FRAG_MASK = OFPC_FRAG_NORMAL then OFPC_FRAG_NORMAL else OFPC_FRAG_DROP) miss) dp')"
proof -
  define fl where "fl = (if flags AND OFPC_FRAG_MASK = OFPC_FRAG_NORMAL then OFPC_FRAG_NORMAL else OFPC_FRAG_DROP)"
  let ?dp = "dp\<lparr>dp_flags := fl, dp_miss_send_len := miss\<rparr>"
  have z: "flags AND 3 AND NOT 3 = 0" by (rule bit_word_eqI) (simp add: bit_simps)
  have s: "recv_set_config msg dp = Done (0, ?dp)"
    using z by (auto simp: recv_set_config_def Let_def assms config_msg_fields fl_def and.assoc)
  obtain osc where o: "make_openflow_reply 12 OFPT_GET_CONFIG_REPLY (Some sender) = Some osc"
    by (simp add: make_openflow_reply_def make_openflow_xid_def)
  let ?m = "config_msg OFPT_GET_CONFIG_REPLY (sd_xid sender) fl miss"
  obtain e where e: "send_openflow_buffer env ?m (Some sender) ?dp = Done (e, reply_to env sender ?m ?dp)"
    using send_to_sender [OF update_length_config] by blast
  have "recv_get_config_request env sender ?dp = Done (e, reply_to env sender ?m ?dp)"
    using e config_msg_reply [OF o, of fl miss] by (simp add: recv_get_config_request_def send_reply_def o)
  then show ?thesis using s unfolding fl_def by blast
qed

text \<open>A port modification changes exactly the bits of its mask; for an unknown port it stops the datapath.\<close>

theorem port_mod_effect:
  assumes "length (dp_ports dp) = 255" "p = ntohs (ld16 msg 8)" "msk = ntohl (ld32 msg 20)" "msk \<noteq> 0"
  shows "if port_valid dp p
    then \<exists>dp'. recv_port_mod msg dp = Done (0, dp')
      \<and> (\<forall>n. bit (pt_config (port_at dp' p)) n = (if bit msk n then bit (ntohl (ld32 msg 16)) n else bit (pt_config (port_at dp p)) n))
      \<and> (\<forall>q. port_valid dp q \<and> q \<noteq> p \<longrightarrow> port_at dp' q = port_at dp q)
    else recv_port_mod msg dp = Fault"
proof (cases "port_valid dp p")
  case True
  let ?f = "\<lambda>port. port\<lparr>pt_config := (pt_config port AND NOT msk) OR (ntohl (ld32 msg 16) AND msk)\<rparr>"
  have m: "ld32 msg 20 \<noteq> 0" using assms(3,4) by auto
  have "recv_port_mod msg dp = Done (0, port_upd p ?f dp)"
    using True m assms(2,3) by (simp add: recv_port_mod_def update_port_flags_def then_zero_def lookup_port_valid Let_def)
  moreover have "bit (pt_config (port_at (port_upd p ?f dp) p)) n
      = (if bit msk n then bit (ntohl (ld32 msg 16)) n else bit (pt_config (port_at dp p)) n)" for n
    using port_at_upd [OF True assms(1) True, of ?f]
    by (cases "n < 32") (auto simp: bit_simps dest: bit_imp_le_length)
  moreover have "port_at (port_upd p ?f dp) q = port_at dp q" if "port_valid dp q" "q \<noteq> p" for q
    using port_at_upd [OF True assms(1) that(1), of ?f] that(2) by simp
  ultimately show ?thesis using True by auto
next
  case False
  have "ld32 msg 20 \<noteq> 0" using assms(3,4) by auto
  then show ?thesis using False assms(2)
    by (simp add: recv_port_mod_def update_port_flags_def then_zero_def lookup_port_valid Let_def)
qed

lemma bytes_of_u16:
  "ucast (ucast a OR push_bit 8 (ucast b) :: u16) = (a :: u8)"
  "ucast (drop_bit 8 (ucast a OR push_bit 8 (ucast b) :: u16)) = (b :: u8)" for a b :: u8
  by (rule bit_word_eqI; auto simp: bit_simps dest: bit_imp_le_length)+

text \<open>An echo request comes back with its type changed, and nothing else; one whose length field is below 8 stops the datapath.\<close>

theorem echo_effect:
  assumes "msg_length msg \<le> length msg"
  shows "if 8 \<le> msg_length msg
    then \<exists>e. recv_echo_request env sender msg dp
      = Done (e, reply_to env sender (take 1 msg @ [OFPT_ECHO_REPLY] @ drop 2 (take (msg_length msg) msg)) dp)
    else recv_echo_request env sender msg dp = Fault"
proof (cases "8 \<le> msg_length msg")
  case True
  let ?r = "make_echo_reply msg"
  have len: "length ?r = msg_length msg" using assms by (simp add: make_echo_reply_def)
  have r: "?r = take 1 msg @ [OFPT_ECHO_REPLY] @ drop 2 (take (msg_length msg) msg)"
    using True assms by (simp add: make_echo_reply_def st8_def upd_conv_take_nth_drop min_def numeral_2_eq_2)
  have l: "ld16 msg 2 = htons (of_nat (msg_length msg))" by (simp add: msg_length_def)
  have "st16 ?r 2 (htons (of_nat (msg_length msg))) = ?r"
  proof (rule nth_equalityI)
    fix i assume "i < length (st16 ?r 2 (htons (of_nat (msg_length msg))))"
    then have i: "i < msg_length msg" using len by simp
    have b: "ld8 msg 2 = msg ! 2" "ld8 msg (2 + 1) = msg ! 3" using True assms by (simp_all add: ld8_def)
    have "ucast (ld16 msg 2) = msg ! 2" "ucast (drop_bit 8 (ld16 msg 2)) = msg ! 3"
      unfolding ld16_def b by (simp_all only: bytes_of_u16)
    then show "st16 ?r 2 (htons (of_nat (msg_length msg))) ! i = ?r ! i"
      unfolding l [symmetric] using i len True by (auto simp: st16_def st8_def nth_list_update make_echo_reply_def)
  qed simp
  then have "update_openflow_length ?r = Some ?r" using True len by (simp add: update_openflow_length_def)
  from send_to_sender [OF this] show ?thesis using True unfolding r [symmetric]
    by (simp add: recv_echo_request_def send_reply_def)
next
  case False
  have "length (make_echo_reply msg) = msg_length msg" using assms by (simp add: make_echo_reply_def)
  then show ?thesis using False
    by (simp add: recv_echo_request_def send_reply_def send_openflow_buffer_def update_openflow_length_def)
qed

text \<open>The queues of a port occupy different slots of its array, but not slot 0.\<close>

definition queues_inv :: "sw_port \<Rightarrow> bool" where
  "queues_inv p \<longleftrightarrow> distinct (map sq_class_id (pt_queue_list p))
     \<and> (\<forall>q\<in>set (pt_queue_list p). 0 < sq_class_id q \<and> sq_class_id q < pt_num_queues p)"

lemma queues_all_used:
  assumes "queues_inv p" "\<forall>i\<in>{1..<unat (pt_num_queues p)}. \<exists>q\<in>set (pt_queue_list p). unat (sq_class_id q) = i"
  shows "length (pt_queue_list p) = unat (pt_num_queues p) - 1"
proof -
  let ?c = "unat \<circ> sq_class_id"
  have "?c ` set (pt_queue_list p) = {1..<unat (pt_num_queues p)}"
    using assms by (force simp: queues_inv_def word_less_nat_alt)
  moreover have "distinct (map ?c (pt_queue_list p))"
    using assms(1) unfolding queues_inv_def distinct_map by (auto simp: inj_on_def word_unat_eq_iff [symmetric])
  ultimately have "length (pt_queue_list p) = card {1..<unat (pt_num_queues p)}"
    using distinct_card [of "map ?c (pt_queue_list p)"] by simp
  then show ?thesis by simp
qed

text \<open>
  Adding a queue takes a free slot, so that the queues stay in different slots and the new one is found by its
  number; it fails exactly when every slot but the first is taken.
\<close>

theorem port_add_queue_effect:
  assumes "queues_inv p" "dp_lookup_queue p queue_id = None"
  shows "case port_add_queue queue_id property rate p of (e, p') \<Rightarrow>
    if length (pt_queue_list p) < unat (pt_num_queues p) - 1
    then e = 0 \<and> queues_inv p' \<and> (\<exists>q. pt_queue_list p' = pt_queue_list p @ [q] \<and> dp_lookup_queue p' queue_id = Some q
           \<and> sq_min_rate q = rate \<and> sq_tx_packets q = 0)
    else e = EXFULL \<and> p' = p"
proof (cases "find (\<lambda>i. \<forall>q\<in>set (pt_queue_list p). unat (sq_class_id q) \<noteq> i) [1..<unat (pt_num_queues p)]")
  case None
  then have "\<forall>i\<in>{1..<unat (pt_num_queues p)}. \<exists>q\<in>set (pt_queue_list p). unat (sq_class_id q) = i"
    by (auto simp: find_None_iff)
  then show ?thesis using None queues_all_used [OF assms(1)] by (simp add: port_add_queue_def)
next
  case (Some i)
  then have i: "1 \<le> i" "i < unat (pt_num_queues p)" "\<forall>q\<in>set (pt_queue_list p). unat (sq_class_id q) \<noteq> i"
    by (auto simp: find_Some_iff)
  have u: "unat (of_nat i :: u16) = i" using i(2) unsigned_less [of "pt_num_queues p", where ?'a = nat] by (simp add: unat_of_nat)
  let ?q = "\<lparr>sq_tx_packets = 0, sq_tx_bytes = 0, sq_tx_errors = 0, sq_queue_id = queue_id, sq_class_id = of_nat i,
      sq_property = property, sq_min_rate = rate\<rparr>"
  have p': "port_add_queue queue_id property rate p = (0, p\<lparr>pt_queue_list := pt_queue_list p @ [?q]\<rparr>)"
    using Some by (simp add: port_add_queue_def new_queue_def)
  have inv: "queues_inv (p\<lparr>pt_queue_list := pt_queue_list p @ [?q]\<rparr>)"
    using assms(1) i u unfolding queues_inv_def by (auto simp: word_less_nat_alt)
  have "\<forall>q\<in>set (pt_queue_list p). sq_queue_id q \<noteq> queue_id"
    using assms(2) by (simp add: dp_lookup_queue_def find_None_iff)
  then have l: "dp_lookup_queue (p\<lparr>pt_queue_list := pt_queue_list p @ [?q]\<rparr>) queue_id = Some ?q"
    by (auto simp: dp_lookup_queue_def find_Some_iff nth_append intro!: exI [of _ "length (pt_queue_list p)"])
  have "length (pt_queue_list p) < unat (pt_num_queues p) - 1"
  proof -
    have "unat ` set (map sq_class_id (pt_queue_list p)) \<subseteq> {1..<unat (pt_num_queues p)} - {i}"
      using assms(1) i(3) by (force simp: queues_inv_def word_less_nat_alt)
    then have "card (unat ` set (map sq_class_id (pt_queue_list p))) \<le> card ({1..<unat (pt_num_queues p)} - {i})"
      by (intro card_mono) simp_all
    moreover have "card (unat ` set (map sq_class_id (pt_queue_list p))) = length (pt_queue_list p)"
      using assms(1) distinct_card [of "map sq_class_id (pt_queue_list p)"] unfolding queues_inv_def
      by (subst card_image) (auto simp: inj_on_def word_unat_eq_iff)
    moreover have "card ({1..<unat (pt_num_queues p)} - {i}) = unat (pt_num_queues p) - 2"
      using i(1,2) by simp
    ultimately show ?thesis using i(1,2) by linarith
  qed
  then show ?thesis using p' inv l by simp
qed

text \<open>
  Configuring a queue on a port without a network device, which is every port that \<^verbatim>\<open>dp_add_port\<close> adds, stops the datapath, as does
  the question for the queues of a port that was never added but has number 0.
\<close>

theorem queue_modify_without_device_faults:
  assumes "42 \<le> length msg" "ntohs (ld16 msg 28) = 24" "ntohs (ld16 msg 32) = OFPQT_MIN_RATE"
    "port_valid dp (ntohs (ld16 msg 16))" "port_in_use (port_at dp (ntohs (ld16 msg 16)))"
    "pt_netdev (port_at dp (ntohs (ld16 msg 16))) = None"
    "fst (port_add_queue (ntohl (ld32 msg 24)) OFPQT_MIN_RATE (ntohs (ld16 msg 40)) (port_at dp (ntohs (ld16 msg 16)))) = 0"
  shows "recv_of_exp_queue_modify env cls sender msg dp = Fault"
proof -
  let ?p = "port_at dp (ntohs (ld16 msg 16))"
  have n: "pt_netdev (snd (port_add_queue i pr r ?p)) = None" for i pr r
    using assms(6) by (simp add: port_add_queue_def new_queue_def split: option.split)
  show ?thesis using assms n
    by (simp add: recv_of_exp_queue_modify_def lookup_port_valid Let_def case_prod_beta split: option.split)
qed

theorem queue_config_port_0_faults:
  assumes "10 \<le> length msg" "ld16 msg 8 = 0" "pt_port_no (port_at dp 0) = 0" "\<not> port_in_use (port_at dp 0)"
  shows "recv_queue_get_config_request env sender msg dp = Fault"
  using assms by (simp add: recv_queue_get_config_request_def Let_def dp_lookup_port_def port_queues_def then_zero_def
      split: option.split)

end
