(* ===== verification/Table_Iter.thy ===== *)
theory Table_Iter
  imports Chain
begin

text \<open>
  Iteration over the flow tables as a contract. \<open>todo t key out_port position\<close> is the list of entries that an
  iteration from a position will visit; the callback may stop it, and the position left then selects
  what follows. The locale extends that of flow tables; it is interpreted for the tables of
  the chain. Statistics and the protection of emergency flows rest on it.
\<close>

section \<open>The contract\<close>

text \<open>What remains after the entry at which the callback fails.\<close>

fun callback_rest :: "'s callback \<Rightarrow> sw_flow list \<Rightarrow> 's \<Rightarrow> sw_flow list" where
  "callback_rest cb [] s = []"
| "callback_rest cb (f # fs) s = (let (e, s') = cb f s in if e \<noteq> 0 then fs else callback_rest cb fs s')"

text \<open>The entries that a request with this key and output port is about.\<close>

definition selects :: "sw_flow_key \<Rightarrow> u16 \<Rightarrow> sw_flow \<Rightarrow> bool" where
  "selects key out_port f \<longleftrightarrow> flow_matches_2wild key (sf_key f) \<and> flow_has_out_port f out_port = Some True"

definition start_position :: sw_table_position where
  "start_position = \<lparr>pos0 = 0, pos1 = 0, pos2 = 0, pos3 = 0\<rparr>"

locale iterable_table = flow_table inv addable entries lookup add delete timeout
  for inv :: "'t \<Rightarrow> bool" and addable entries lookup add delete timeout +
  fixes iterate :: "'t \<Rightarrow> sw_flow_key \<Rightarrow> u16 \<Rightarrow> sw_table_position \<Rightarrow> 's callback \<Rightarrow> 's
      \<Rightarrow> (int \<times> sw_table_position \<times> 's) option"
    and todo :: "'t \<Rightarrow> sw_flow_key \<Rightarrow> u16 \<Rightarrow> sw_table_position \<Rightarrow> sw_flow list"
    and resumable :: "'t \<Rightarrow> sw_flow \<Rightarrow> bool"
  assumes iterate_todo: "inv t \<Longrightarrow> run_callback cb (todo t key op p) s = (e, st, s')
      \<Longrightarrow> \<exists>p'. iterate t key op p cb s = Some (e, p', s')
        \<and> (\<forall>f. e \<noteq> 0 \<longrightarrow> st = Some f \<longrightarrow> resumable t f \<longrightarrow> todo t key op p' = callback_rest cb (todo t key op p) s)"
    and todo_start: "inv t \<Longrightarrow> key_ok key
      \<Longrightarrow> mset (todo t key op start_position) = mset (filter (selects key op) (entries t))"
begin

text \<open>A callback that never fails sees every selected entry once.\<close>

lemma run_callback_total:
  assumes "\<And>f s. fst (cb f s) = 0"
  shows "run_callback cb fs s = (0, None, fold (\<lambda>f s. snd (cb f s)) fs s)"
  by (induction fs arbitrary: s) (auto simp: case_prod_beta assms)

lemma iterate_all:
  assumes "inv t" "\<And>f s. fst (cb f s) = 0"
  shows "\<exists>p'. iterate t key op p cb s = Some (0, p', fold (\<lambda>f s. snd (cb f s)) (todo t key op p) s)"
  using iterate_todo [OF assms(1) run_callback_total [where cb = cb, OF assms(2)]] by blast

lemma iterate_returns: "inv t \<Longrightarrow> iterate t key op p cb s \<noteq> None"
  using iterate_todo [of t cb key op p s] by (metis option.distinct(1) prod_cases3)

lemma todo_entries: "inv t \<Longrightarrow> key_ok key \<Longrightarrow> f \<in> set (todo t key op start_position)
    \<longleftrightarrow> f \<in> set (entries t) \<and> selects key op f"
  using mset_eq_setD [OF todo_start] by (metis (mono_tags, lifting) mem_Collect_eq set_filter)

end

lemma run_callback_rest:
  "run_callback cb fs s = (e, st, s') \<Longrightarrow> e \<noteq> 0 \<Longrightarrow> \<exists>us f. fs = us @ f # callback_rest cb fs s \<and> st = Some f"
proof (induction fs arbitrary: s)
  case (Cons f fs)
  obtain e1 s1 where cb: "cb f s = (e1, s1)" by fastforce
  show ?case
  proof (cases "e1 = 0")
    case True
    with Cons cb obtain us g where "fs = us @ g # callback_rest cb fs s1" "st = Some g" by fastforce
    then show ?thesis using cb True by (intro exI [of _ "f # us"] exI [of _ g]) simp
  next
    case False
    with Cons.prems cb show ?thesis by (intro exI [of _ "[]"] exI [of _ f]) simp
  qed
qed simp

section \<open>The linear table\<close>

definition linear_todo :: "sw_table_linear \<Rightarrow> sw_flow_key \<Rightarrow> u16 \<Rightarrow> sw_table_position \<Rightarrow> sw_flow list" where
  "linear_todo tbl key out_port p = linear_selected tbl key out_port (NOT (pos0 p))"

lemma linear_iterate_todo:
  assumes inv: "linear_inv t" and run: "run_callback cb (linear_todo t key op p) s = (e, st, s')"
  shows "\<exists>p'. table_linear_iterate t key op p cb s = Some (e, p', s')
    \<and> (\<forall>f. e \<noteq> 0 \<longrightarrow> st = Some f \<longrightarrow> sf_serial f \<noteq> 0 \<longrightarrow> linear_todo t key op p' = callback_rest cb (linear_todo t key op p) s)"
proof -
  let ?p = "case st of None \<Rightarrow> p | Some f \<Rightarrow> p\<lparr>pos0 := NOT (sf_serial f - 1)\<rparr>"
  have "table_linear_iterate t key op p cb s = Some (e, ?p, s')"
    using run by (simp add: table_linear_iterate_eq [OF inv] linear_todo_def)
  moreover have "linear_todo t key op ?p = callback_rest cb (linear_todo t key op p) s"
    if e: "e \<noteq> 0" and st: "st = Some f" and f: "sf_serial f \<noteq> 0" for f
  proof -
    obtain us where "linear_selected t key op (NOT (pos0 p)) = us @ f # callback_rest cb (linear_todo t key op p) s"
      using run_callback_rest [OF run e] st by (auto simp: linear_todo_def)
    from linear_selected_resume [OF inv this f] show ?thesis using st by (simp add: linear_todo_def)
  qed
  ultimately show ?thesis by blast
qed

lemma linear_todo_start:
  assumes "linear_inv t"
  shows "mset (linear_todo t key op start_position) = mset (filter (selects key op) (tl_flows t))"
proof -
  note I = linear_invD [OF assms]
  let ?at = "the \<circ> flow_at (tl_flows t)"
  have "map sf_addr (map ?at (tl_iter_flows t)) = tl_iter_flows t"
    using I(5) flow_at_eq [OF I(3)] by (intro nth_equalityI) (force dest: nth_mem)+
  then have d: "distinct (map ?at (tl_iter_flows t))" using I(4) by (metis distinct_map)
  have "set (map ?at (tl_iter_flows t)) = set (tl_flows t)"
  proof -
    have "?at (sf_addr f) = f" if "f \<in> set (tl_flows t)" for f
      using that flow_at_eq [OF I(3), of "sf_addr f" f] by simp
    then have "(?at \<circ> sf_addr) ` set (tl_flows t) = set (tl_flows t)" by simp
    then show ?thesis using I(5) by (simp add: image_comp)
  qed
  then have "mset (map ?at (tl_iter_flows t)) = mset (tl_flows t)"
    using d I(3) by (metis distinct_map set_eq_iff_mset_eq_distinct)
  moreover have "linear_todo t key op start_position = filter (selects key op) (map ?at (tl_iter_flows t))"
    by (simp add: linear_todo_def linear_selected_def start_position_def selects_def [abs_def])
  ultimately show ?thesis by (simp only: mset_filter)
qed

section \<open>The hash tables\<close>

lemma unat_ucast_u64 [simp]: "unat (ucast (x :: u32) :: u64) = unat x"
  by (simp add: unsigned_ucast_eq take_bit_nat_eq_self unsigned_less [THEN less_le_trans])

lemma exact_selects:
  assumes "entry_ok f" "k_wildcards (sf_key f) = 0"
  shows "flow_matches_1wild (sf_key f) key = flow_matches_2wild key (sf_key f)"
proof -
  have "k_nw_src_mask (sf_key f) = - 1" "k_nw_dst_mask (sf_key f) = - 1"
    using key_ok_exact [OF _ assms(2)] assms(1) by (auto simp: entry_ok_def)
  then have "flow_matches_1wild (sf_key f) key = flow_matches_2wild (sf_key f) key"
    using assms(2) by (simp add: flow_matches_1wild_def flow_matches_2wild_def)
  then show ?thesis using flow_matches_2wild_sym by blast
qed

lemma hash_selects_iff: "hash_inv th \<Longrightarrow> f \<in> set (hash_entries th) \<Longrightarrow> hash_selects key op f = selects key op f"
  using hash_entry_ok exact_selects by (simp add: hash_selects_def selects_def)

definition hash_todo :: "sw_table_hash \<Rightarrow> sw_flow_key \<Rightarrow> u16 \<Rightarrow> sw_table_position \<Rightarrow> sw_flow list" where
  "hash_todo th key out_port p =
     (if pos0 p > ucast (th_bucket_mask th) then []
      else if k_wildcards key = 0 then
        (case table_hash_lookup th key of
           None \<Rightarrow> [] | Some f \<Rightarrow> if flow_has_out_port f out_port = Some True then [f] else [])
      else hash_selected th key out_port (unat (pos0 p)))"

lemma hash_iterate_loop_rest:
  assumes "\<forall>f\<in>set (occupants bs). wf_acts (sf_acts f)"
    and "run_callback cb (filter (hash_selects key op) (occupants bs)) s = (e, st, s')"
  shows "\<exists>p. hash_iterate_loop key op cb bs i s = Some (e, p, s')
    \<and> (if e = 0 then p = None else \<exists>n<length bs. p = Some (i + of_nat (n + 1))
        \<and> filter (hash_selects key op) (occupants (drop (n + 1) bs))
          = callback_rest cb (filter (hash_selects key op) (occupants bs)) s)"
  using assms
proof (induction bs arbitrary: i s)
  case (Cons b bs)
  have wf: "\<forall>f\<in>set (occupants bs). wf_acts (sf_acts f)" using Cons.prems(1) by (cases b) auto
  have skip: ?case if eq: "hash_iterate_loop key op cb (b # bs) i s = hash_iterate_loop key op cb bs (i + 1) s1"
    and run: "run_callback cb (filter (hash_selects key op) (occupants bs)) s1 = (e, st, s')"
    and rest: "callback_rest cb (filter (hash_selects key op) (occupants (b # bs))) s
      = callback_rest cb (filter (hash_selects key op) (occupants bs)) s1" for s1
  proof -
    obtain p where p: "hash_iterate_loop key op cb bs (i + 1) s1 = Some (e, p, s')"
      "if e = 0 then p = None else \<exists>n<length bs. p = Some (i + 1 + of_nat (n + 1))
        \<and> filter (hash_selects key op) (occupants (drop (n + 1) bs))
          = callback_rest cb (filter (hash_selects key op) (occupants bs)) s1"
      using Cons.IH [OF wf run] by blast
    show ?thesis
    proof (cases "e = 0")
      case True
      then show ?thesis using p eq by simp
    next
      case False
      then obtain n where n: "n < length bs" "p = Some (i + 1 + of_nat (n + 1))"
        "filter (hash_selects key op) (occupants (drop (n + 1) bs))
          = callback_rest cb (filter (hash_selects key op) (occupants bs)) s1" using p(2) by auto
      have "p = Some (i + of_nat (Suc n + 1))" using n(2) by (simp add: algebra_simps)
      then show ?thesis using False eq p(1) n rest by (intro exI [of _ p]) (auto intro!: exI [of _ "Suc n"])
    qed
  qed
  show ?case
  proof (cases b)
    case None
    then show ?thesis using Cons.prems(2) by (intro skip [of s]) simp_all
  next
    case (Some f)
    obtain has where h: "flow_has_out_port f op = Some has"
      using flow_has_out_port_total Cons.prems(1) Some by fastforce
    obtain e1 s1 where cb: "cb f s = (e1, s1)" by fastforce
    show ?thesis
    proof (cases "hash_selects key op f")
      case False
      then have eq: "filter (hash_selects key op) (occupants (b # bs)) = filter (hash_selects key op) (occupants bs)"
        using Some by simp
      show ?thesis
      proof (rule skip)
        show "hash_iterate_loop key op cb (b # bs) i s = hash_iterate_loop key op cb bs (i + 1) s"
          using False Some h by (auto simp: hash_selects_def)
      qed (use Cons.prems(2) eq in simp_all)
    next
      case sel: True
      show ?thesis
      proof (cases "e1 = 0")
        case True
        show ?thesis
        proof (rule skip)
          show "hash_iterate_loop key op cb (b # bs) i s = hash_iterate_loop key op cb bs (i + 1) s1"
            using True Some sel cb by (auto simp: hash_selects_def)
        qed (use True Some sel cb Cons.prems(2) in simp_all)
      next
        case False
        then show ?thesis using Some sel cb Cons.prems(2) by (auto simp: hash_selects_def intro!: exI [of _ 0])
      qed
    qed
  qed
qed simp

lemma hash_iterate_todo:
  assumes inv: "hash_inv th" and run: "run_callback cb (hash_todo th key op p) s = (e, st, s')"
  shows "\<exists>p'. table_hash_iterate th key op p cb s = Some (e, p', s') \<and> pos1 p' = pos1 p
    \<and> (e \<noteq> 0 \<longrightarrow> hash_todo th key op p' = callback_rest cb (hash_todo th key op p) s)"
proof -
  have wf: "wf_acts (sf_acts f)" if "f \<in> set (hash_entries th)" for f
    using hash_entry_ok(1) [OF inv that] by (simp add: entry_ok_def)
  consider "pos0 p > ucast (th_bucket_mask th)" | "\<not> pos0 p > ucast (th_bucket_mask th)" "k_wildcards key = 0"
    | "\<not> pos0 p > ucast (th_bucket_mask th)" "k_wildcards key \<noteq> 0" by blast
  then show ?thesis
  proof cases
    case 1
    then show ?thesis using run by (simp add: table_hash_iterate_def hash_todo_def)
  next
    case 2
    have top: "ucast (th_bucket_mask th) < (- 1 :: u64)"
    proof -
      have "th_bucket_mask th < 0x40000000" by (rule hash_invD(2) [OF inv])
      then have "ucast (th_bucket_mask th) < (0x40000000 :: u64)" by (simp add: word_less_nat_alt)
      also have "\<dots> \<le> - 1" by (rule word_n1_ge)
      finally show ?thesis .
    qed
    show ?thesis
    proof (cases "table_hash_lookup th key")
      case None
      then show ?thesis using 2 run by (simp add: table_hash_iterate_def hash_todo_def)
    next
      case (Some f)
      then have "f \<in> set (hash_entries th)" using table_hash_lookup_iff [OF inv] by blast
      then obtain has where h: "flow_has_out_port f op = Some has" using wf flow_has_out_port_total by blast
      then show ?thesis using 2 run Some top
        by (cases has) (auto simp: table_hash_iterate_def hash_todo_def split: prod.splits if_splits)
    qed
  next
    case 3
    let ?bs = "drop (unat (pos0 p)) (th_buckets th)"
    have "set (occupants ?bs) \<subseteq> set (hash_entries th)"
      unfolding hash_entries_def by (metis append_take_drop_id occupants_append set_append sup_ge2)
    then have w: "\<forall>f\<in>set (occupants ?bs). wf_acts (sf_acts f)" using wf by blast
    have "run_callback cb (filter (hash_selects key op) (occupants ?bs)) s = (e, st, s')"
      using run 3 by (simp add: hash_todo_def hash_selected_def)
    from hash_iterate_loop_rest [OF w this, of "pos0 p"] obtain q where
      q: "hash_iterate_loop key op cb ?bs (pos0 p) s = Some (e, q, s')"
      "if e = 0 then q = None else \<exists>n<length ?bs. q = Some (pos0 p + of_nat (n + 1))
        \<and> filter (hash_selects key op) (occupants (drop (n + 1) ?bs))
          = callback_rest cb (filter (hash_selects key op) (occupants ?bs)) s" by blast
    let ?p = "case q of None \<Rightarrow> p | Some v \<Rightarrow> p\<lparr>pos0 := v\<rparr>"
    have it: "table_hash_iterate th key op p cb s = Some (e, ?p, s')"
      using 3 q(1) by (simp add: table_hash_iterate_def)
    have "hash_todo th key op ?p = callback_rest cb (hash_todo th key op p) s" if e: "e \<noteq> 0"
    proof -
      obtain n where n: "n < length ?bs" "q = Some (pos0 p + of_nat (n + 1))"
        "filter (hash_selects key op) (occupants (drop (n + 1) ?bs))
          = callback_rest cb (filter (hash_selects key op) (occupants ?bs)) s" using q(2) e by auto
      have len: "length (th_buckets th) = unat (th_bucket_mask th) + 1" "length (th_buckets th) \<le> 0x40000000"
        using hash_invD(1,2) [OF inv] by (simp_all add: word_less_nat_alt)
      have "unat (pos0 p) + (n + 1) \<le> 0x40000000" using n(1) len by simp
      then have u: "unat (pos0 p + of_nat (n + 1)) = unat (pos0 p) + (n + 1)"
        by (simp add: unat_word_ariths unat_of_nat)
      have "hash_selected th key op (unat (pos0 p) + (n + 1)) = callback_rest cb (hash_todo th key op p) s"
        using n(3) 3 by (simp add: hash_selected_def hash_todo_def add.commute)
      moreover have "hash_selected th key op (unat (pos0 p) + (n + 1)) = []"
        if "ucast (th_bucket_mask th) < pos0 p + of_nat (n + 1)"
      proof -
        have "unat (th_bucket_mask th) < unat (pos0 p) + (n + 1)"
          using that u by (simp add: word_less_nat_alt)
        then show ?thesis using len(1) by (simp add: hash_selected_def)
      qed
      ultimately show ?thesis using 3(2) n(2) u by (auto simp: hash_todo_def)
    qed
    then show ?thesis using it by (intro exI [of _ ?p]) (simp split: option.split)
  qed
qed

lemma filter_occupants:
  assumes "i < length bs" "\<And>j f. j < length bs \<Longrightarrow> bs ! j = Some f \<Longrightarrow> P f \<Longrightarrow> j = i"
  shows "filter P (occupants bs) = (case bs ! i of Some f \<Rightarrow> if P f then [f] else [] | None \<Rightarrow> [])"
proof -
  have "bs = take i bs @ [bs ! i] @ drop (Suc i) bs" using id_take_nth_drop [OF assms(1)] by simp
  then have o: "occupants bs = occupants (take i bs) @ occupants [bs ! i] @ occupants (drop (Suc i) bs)"
    by (metis occupants_append)
  have "filter P (occupants (take i bs)) = []"
    using assms(2) by (fastforce simp: filter_empty_conv set_occupants)
  moreover have "\<not> P f" if f: "f \<in> set (occupants (drop (Suc i) bs))" for f
  proof
    assume "P f"
    obtain k where k: "k < length bs - Suc i" "bs ! (Suc i + k) = Some f"
      using f assms(1) by (auto simp: set_occupants)
    then have "Suc i + k < length bs" by simp
    then show False using assms(2) [OF _ k(2) \<open>P f\<close>] by simp
  qed
  ultimately have "filter P (occupants (take i bs)) = []" "filter P (occupants (drop (Suc i) bs)) = []"
    by (auto simp: filter_empty_conv)
  then show ?thesis unfolding o by (auto split: option.split)
qed

lemma flow_fields_match_refl: "flow_fields_match a a w s d"
  unfolding flow_fields_match_def eth_addr_equals_iff by (intro conjI disjI2 refl; simp)

lemma hash_todo_start:
  assumes inv: "hash_inv th" and key: "key_ok key"
  shows "hash_todo th key op start_position = filter (selects key op) (hash_entries th)"
proof (cases "k_wildcards key = 0")
  case True
  let ?P = "\<lambda>f. k_flow (sf_key f) = k_flow key \<and> flow_has_out_port f op = Some True"
  have p: "packet_key (key\<lparr>k_nw_src_mask := 0, k_nw_dst_mask := 0\<rparr>)"
    using key True by (simp add: packet_key_def key_ok_def)
  have sel: "selects key op f = ?P f" if f: "f \<in> set (hash_entries th)" for f
  proof -
    have e: "key_ok (sf_key f)" "k_wildcards (sf_key f) = 0" using hash_entry_ok [OF inv f] by (simp_all add: entry_ok_def)
    have "flow_matches_2wild key (sf_key f)" if eq: "k_flow (sf_key f) = k_flow key"
      unfolding flow_matches_2wild_def eq by (rule flow_fields_match_refl)
    moreover have "k_flow (sf_key f) = k_flow key" if m: "flow_matches_2wild key (sf_key f)"
      by (rule exact_overlap [OF key e(1) True e(2) m, symmetric])
    ultimately have "flow_matches_2wild key (sf_key f) = (k_flow (sf_key f) = k_flow key)" by (rule iffI [rotated])
    then show ?thesis unfolding selects_def by (rule arg_cong)
  qed
  have "filter (selects key op) (hash_entries th) = filter ?P (occupants (th_buckets th))"
    unfolding hash_entries_def [symmetric] using sel by (intro filter_cong refl)
  also have "\<dots> = (case th_buckets th ! find_bucket th key of Some f \<Rightarrow> if ?P f then [f] else [] | None \<Rightarrow> [])"
  proof (rule filter_occupants [OF find_bucket_less [OF inv]])
    fix j f assume j: "j < length (th_buckets th)" "th_buckets th ! j = Some f" "?P f"
    then have "find_bucket th key = find_bucket th (sf_key f)" by (simp add: find_bucket_def)
    then show "j = find_bucket th key" using hash_invD(4) [OF inv j(1,2)] by simp
  qed
  also have "\<dots> = hash_todo th key op start_position"
    using True by (auto simp: hash_todo_def start_position_def table_hash_lookup_def bucket_def split: option.split)
  finally show ?thesis by simp
next
  case False
  then show ?thesis using hash_selects_iff [OF inv]
    by (auto simp: hash_todo_def start_position_def hash_selected_def hash_entries_def intro!: filter_cong)
qed

lemma run_callback_append:
  "run_callback cb (xs @ ys) s = (case run_callback cb xs s of (e, st, s') \<Rightarrow>
     if e \<noteq> 0 then (e, st, s') else run_callback cb ys s')"
  by (induction xs arbitrary: s) (auto simp: case_prod_beta)

lemma callback_rest_append:
  "callback_rest cb (xs @ ys) s = (case run_callback cb xs s of (e, st, s') \<Rightarrow>
     if e \<noteq> 0 then callback_rest cb xs s @ ys else callback_rest cb ys s')"
  by (induction xs arbitrary: s) (auto simp: case_prod_beta)

definition hash2_todo :: "sw_table_hash2 \<Rightarrow> sw_flow_key \<Rightarrow> u16 \<Rightarrow> sw_table_position \<Rightarrow> sw_flow list" where
  "hash2_todo t key out_port p =
     (if pos1 p = 0 then hash_todo (t2_subtable0 t) key out_port p @ hash_todo (t2_subtable1 t) key out_port start_position
      else if pos1 p = 1 then hash_todo (t2_subtable1 t) key out_port p else [])"

lemma hash_todo_pos0: "pos0 p = 0 \<Longrightarrow> hash_todo th key op p = hash_todo th key op start_position"
  by (simp add: hash_todo_def start_position_def)

lemma hash2_iterate_1:
  assumes inv: "hash2_inv t" and p: "pos1 p = 1" and run: "run_callback cb (hash_todo (t2_subtable1 t) key op p) s = (e, st, s')"
  shows "\<exists>p'. hash2_iterate_loop t key op cb 1 p s = Some (e, p', s')
    \<and> (e \<noteq> 0 \<longrightarrow> hash2_todo t key op p' = callback_rest cb (hash2_todo t key op p) s)"
proof -
  have "hash_inv (t2_subtable1 t)" using inv by (simp add: hash2_inv_def)
  from hash_iterate_todo [OF this run] obtain p' where
    "table_hash_iterate (t2_subtable1 t) key op p cb s = Some (e, p', s')" "pos1 p' = pos1 p"
    "e \<noteq> 0 \<longrightarrow> hash_todo (t2_subtable1 t) key op p' = callback_rest cb (hash_todo (t2_subtable1 t) key op p) s" by blast
  then show ?thesis using p
    by (subst hash2_iterate_loop.simps) (auto simp: hash2_todo_def hash2_iterate_loop.simps [of _ _ _ _ "Suc (Suc 0)"] numeral_2_eq_2)
qed

lemma hash2_iterate_todo:
  assumes inv: "hash2_inv t" and run: "run_callback cb (hash2_todo t key op p) s = (e, st, s')"
  shows "\<exists>p'. table_hash2_iterate t key op p cb s = Some (e, p', s')
    \<and> (e \<noteq> 0 \<longrightarrow> hash2_todo t key op p' = callback_rest cb (hash2_todo t key op p) s)"
proof -
  consider "pos1 p = 0" | "pos1 p = 1" | "2 \<le> unat (pos1 p)" "pos1 p \<noteq> 0" "pos1 p \<noteq> 1"
  proof (cases "unat (pos1 p) < 2")
    case True
    then have "unat (pos1 p) = unat (0 :: u64) \<or> unat (pos1 p) = unat (1 :: u64)" by auto
    then show thesis using that word_unat_eq_iff by blast
  qed (use that in auto)
  then show ?thesis
  proof cases
    case 1
    obtain e1 st1 s1 where r0: "run_callback cb (hash_todo (t2_subtable0 t) key op p) s = (e1, st1, s1)" by (metis prod_cases3)
    have h0: "hash_inv (t2_subtable0 t)" using inv by (simp add: hash2_inv_def)
    obtain q where q: "table_hash_iterate (t2_subtable0 t) key op p cb s = Some (e1, q, s1)" "pos1 q = pos1 p"
      "e1 \<noteq> 0 \<longrightarrow> hash_todo (t2_subtable0 t) key op q = callback_rest cb (hash_todo (t2_subtable0 t) key op p) s"
      using hash_iterate_todo [OF h0 r0] by blast
    show ?thesis
    proof (cases "e1 = 0")
      case False
      then show ?thesis using 1 q r0 run
        by (auto simp: table_hash2_iterate_def hash2_iterate_loop.simps [of _ _ _ _ 0] hash2_todo_def run_callback_append
            callback_rest_append)
    next
      case True
      let ?p = "q\<lparr>pos0 := 0, pos1 := pos1 q + 1\<rparr>"
      have p1: "pos1 ?p = 1" "hash_todo (t2_subtable1 t) key op ?p = hash_todo (t2_subtable1 t) key op start_position"
        using q(2) 1 by (simp_all add: hash_todo_pos0)
      have "run_callback cb (hash_todo (t2_subtable1 t) key op ?p) s1 = (e, st, s')"
        using run 1 r0 True p1(2) by (simp add: hash2_todo_def run_callback_append)
      from hash2_iterate_1 [OF inv p1(1) this] obtain p' where
        p': "hash2_iterate_loop t key op cb 1 ?p s1 = Some (e, p', s')"
        "e \<noteq> 0 \<longrightarrow> hash2_todo t key op p' = callback_rest cb (hash2_todo t key op ?p) s1" by blast
      have "hash2_todo t key op ?p = hash_todo (t2_subtable1 t) key op start_position"
        using p1 by (simp add: hash2_todo_def)
      then have "e \<noteq> 0 \<longrightarrow> hash2_todo t key op p' = callback_rest cb (hash2_todo t key op p) s"
        using p'(2) 1 r0 True by (simp add: hash2_todo_def callback_rest_append)
      moreover have "table_hash2_iterate t key op p cb s = Some (e, p', s')"
        using 1 q(1) True p'(1) by (simp add: table_hash2_iterate_def hash2_iterate_loop.simps [of _ _ _ _ 0])
      ultimately show ?thesis by blast
    qed
  next
    case 2
    then show ?thesis using hash2_iterate_1 [OF inv 2, of cb key op s e st s'] run
      by (simp add: table_hash2_iterate_def hash2_todo_def)
  next
    case 3
    then show ?thesis using run by (simp add: table_hash2_iterate_def hash2_iterate_loop.simps hash2_todo_def)
  qed
qed

lemma hash2_todo_start:
  "hash2_inv t \<Longrightarrow> key_ok key \<Longrightarrow> hash2_todo t key op start_position = filter (selects key op) (hash2_entries t)"
  using hash_todo_start by (simp add: hash2_todo_def hash2_inv_def hash2_entries_def start_position_def)

section \<open>The tables of the chain\<close>

fun table_todo :: "sw_table \<Rightarrow> sw_flow_key \<Rightarrow> u16 \<Rightarrow> sw_table_position \<Rightarrow> sw_flow list" where
  "table_todo (Linear t) key out_port p = linear_todo t key out_port p"
| "table_todo (Hash2 t) key out_port p = hash2_todo t key out_port p"

text \<open>The linear table does not resume after the entry with serial number 0.\<close>

fun table_resumable :: "sw_table \<Rightarrow> sw_flow \<Rightarrow> bool" where
  "table_resumable (Linear t) f \<longleftrightarrow> sf_serial f \<noteq> 0"
| "table_resumable (Hash2 t) f \<longleftrightarrow> True"

interpretation table_iter: iterable_table table_inv table_addable table_entries table_lookup table_insert
  table_delete table_timeout table_iterate table_todo table_resumable
proof
  fix t cb key op p and s :: 's and e st s'
  assume t: "table_inv t" and run: "run_callback cb (table_todo t key op p) s = (e, st, s')"
  show "\<exists>p'. table_iterate t key op p cb s = Some (e, p', s')
    \<and> (\<forall>f. e \<noteq> 0 \<longrightarrow> st = Some f \<longrightarrow> table_resumable t f \<longrightarrow> table_todo t key op p' = callback_rest cb (table_todo t key op p) s)"
  proof (cases t)
    case (Linear u)
    then show ?thesis using t run linear_iterate_todo [of u cb key op p s e st s'] by simp
  next
    case (Hash2 u)
    then obtain p' where "table_hash2_iterate u key op p cb s = Some (e, p', s')"
      "e \<noteq> 0 \<longrightarrow> hash2_todo u key op p' = callback_rest cb (hash2_todo u key op p) s"
      using t run hash2_iterate_todo [of u cb key op p s e st s'] by auto
    then show ?thesis using Hash2 by (intro exI [of _ p']) simp
  qed
next
  fix t key op assume "table_inv t" "key_ok key"
  then show "mset (table_todo t key op start_position) = mset (filter (selects key op) (table_entries t))"
    by (cases t) (simp_all only: table_todo.simps table_inv.simps table_entries.simps linear_todo_start hash2_todo_start)
qed

end
