(* ===== verification/Dp_Stats.thy ===== *)
theory Dp_Stats
  imports Dp_Config Table_Iter
begin

text \<open>
  Statistics, in \<^verbatim>\<open>src/openflow/udatapath/datapath.c\<close>. A request is recorded in the connection it came from
  (\<open>rm_cb_dump\<close>); its replies are composed one at a time, each from the state that the one before has left.
  A reply is the list of its bytes. What the code does not write in a structure that it appends is
  what the memory holds there, \<open>ev_junk\<close> at the offset in the message. An iteration over a table that
  does not return is a fault.
\<close>

section \<open>Constants\<close>

abbreviation OFPT_STATS_REPLY :: u8 where "OFPT_STATS_REPLY \<equiv> 17"
abbreviation OFPST_DESC :: u16 where "OFPST_DESC \<equiv> 0"
abbreviation OFPST_FLOW :: u16 where "OFPST_FLOW \<equiv> 1"
abbreviation OFPST_AGGREGATE :: u16 where "OFPST_AGGREGATE \<equiv> 2"
abbreviation OFPST_TABLE :: u16 where "OFPST_TABLE \<equiv> 3"
abbreviation OFPST_PORT :: u16 where "OFPST_PORT \<equiv> 4"
abbreviation OFPST_QUEUE :: u16 where "OFPST_QUEUE \<equiv> 5"
abbreviation OFPST_VENDOR :: u16 where "OFPST_VENDOR \<equiv> 0xffff"
abbreviation OFPSF_REPLY_MORE :: u16 where "OFPSF_REPLY_MORE \<equiv> 1"
abbreviation OFPQ_ALL :: u32 where "OFPQ_ALL \<equiv> 0xffffffff"
abbreviation SERIAL_NUM_LEN :: nat where "SERIAL_NUM_LEN \<equiv> 32"
abbreviation OFP_MAX_TABLE_NAME_LEN :: nat where "OFP_MAX_TABLE_NAME_LEN \<equiv> 32"
abbreviation MAX_FLOW_STATS_BYTES :: nat where "MAX_FLOW_STATS_BYTES \<equiv> 4096"
abbreviation EMERG_TABLE_ID_FOR_STATS :: u8 where "EMERG_TABLE_ID_FOR_STATS \<equiv> 0xfe"

text \<open>The global descriptions that the driver or the command line sets.\<close>

record switch_desc =
  gd_mfr_desc :: string
  gd_hw_desc :: string
  gd_sw_desc :: string
  gd_serial_num :: string

text \<open>The result of a dump: what it returns, the state and the message.\<close>

type_synonym dumped = "(int \<times> stats_state \<times> u8 list) run"

section \<open>Descriptions\<close>

definition desc_stats_dump :: "switch_desc \<Rightarrow> datapath \<Rightarrow> stats_state \<Rightarrow> u8 list \<Rightarrow> dumped" where
  "desc_stats_dump gd dp state buffer =
     Done (0, state, buffer @ strncpy (gd_mfr_desc gd) DESC_STR_LEN @ strncpy (gd_hw_desc gd) DESC_STR_LEN
       @ strncpy (gd_sw_desc gd) DESC_STR_LEN @ strncpy (gd_serial_num gd) SERIAL_NUM_LEN
       @ strncpy (dp_desc dp) DESC_STR_LEN)"

section \<open>Flows\<close>

definition fill_flow_stats :: "dp_env \<Rightarrow> u8 list \<Rightarrow> sw_flow \<Rightarrow> nat \<Rightarrow> u8 list" where
  "fill_flow_stats env buffer flow table_idx =
     (let n = 88 + length (sf_acts flow);
          junk = (\<lambda>i. ev_junk env (length buffer + i));
          fl = k_flow (sf_key flow);
          match = \<lparr>om_wildcards = htonl (k_wildcards (sf_key flow)), om_in_port = fl_in_port fl,
            om_dl_src = fl_dl_src fl, om_dl_dst = fl_dl_dst fl, om_dl_vlan = fl_dl_vlan fl,
            om_dl_vlan_pcp = fl_dl_vlan_pcp fl, om_pad1 = junk 25, om_dl_type = fl_dl_type fl,
            om_nw_tos = fl_nw_tos fl, om_nw_proto = fl_nw_proto fl,
            om_pad2 = ucast (junk 30) OR push_bit 8 (ucast (junk 31)), om_nw_src = fl_nw_src fl,
            om_nw_dst = fl_nw_dst fl, om_tp_src = fl_tp_src fl, om_tp_dst = fl_tp_dst fl\<rparr>
      in buffer @ le16 (htons (of_nat n)) @ [of_nat table_idx, 0] @ ofp_match_bytes match
         @ le32 (htonl (duration_sec (ev_msec env) (sf_created flow)))
         @ le32 (htonl (duration_nsec (ev_msec env) (sf_created flow)))
         @ le16 (htons (sf_priority flow)) @ le16 (htons (sf_idle_timeout flow)) @ le16 (htons (sf_hard_timeout flow))
         @ replicate 6 0 @ le64 (htonll (sf_cookie flow)) @ le64 (htonll (sf_packet_count flow))
         @ le64 (htonll (sf_byte_count flow)) @ sf_acts flow)"

text \<open>\<^verbatim>\<open>struct ofp_flow_stats_request\<close>: the match at 0, the table at 40 and the output port at 42 of the body.\<close>

definition flow_stats_init :: "u8 list \<Rightarrow> int \<times> stats_state" where
  "flow_stats_init body =
     (0, Flow_stats_state (ld8 body 40) (ofp_match_at body 0) (ld16 body 42)
           (if ld8 body 40 = 0xff then 0 else unat (ld8 body 40)) start_position)"

definition flow_stats_dump_callback :: "dp_env \<Rightarrow> nat \<Rightarrow> u8 list callback" where
  "flow_stats_dump_callback env table_idx flow buffer =
     (let buffer = fill_flow_stats env buffer flow table_idx
      in (if length buffer \<ge> MAX_FLOW_STATS_BYTES then 1 else 0, buffer))"

text \<open>The loop over the tables; the result is the table and the position at which it stops, and the message.\<close>

function flow_stats_loop :: "dp_env \<Rightarrow> sw_table list \<Rightarrow> sw_flow_key \<Rightarrow> u8 \<Rightarrow> u16 \<Rightarrow> nat \<Rightarrow> sw_table_position \<Rightarrow> u8 list
    \<Rightarrow> (nat \<times> sw_table_position \<times> u8 list) run" where
  "flow_stats_loop env tables match_key table_id out_port table_idx position buffer =
     (if table_idx < length tables \<and> (table_id = 0xff \<or> unat table_id = table_idx) then
        (case table_iterate (tables ! table_idx) match_key out_port position (flow_stats_dump_callback env table_idx) buffer of
           None \<Rightarrow> Fault
         | Some (error, position, buffer) \<Rightarrow>
             (if error \<noteq> 0 then Done (table_idx, position, buffer)
              else flow_stats_loop env tables match_key table_id out_port (table_idx + 1) start_position buffer))
      else Done (table_idx, position, buffer))"
  by pat_completeness auto
termination by (relation "measure (\<lambda>(_, tables, _, _, _, table_idx, _, _). length tables - table_idx)") auto

declare flow_stats_loop.simps [simp del]

definition flow_stats_dump :: "dp_env \<Rightarrow> datapath \<Rightarrow> stats_state \<Rightarrow> u8 list \<Rightarrow> dumped" where
  "flow_stats_dump env dp state buffer =
     (case state of
        Flow_stats_state table_id match out_port table_idx position \<Rightarrow>
          (let match_key = flow_extract_match match;
               finish = (\<lambda>table_idx position buffer. Done (if length buffer \<ge> MAX_FLOW_STATS_BYTES then 1 else 0,
                  Flow_stats_state table_id match out_port table_idx position, buffer))
           in if table_id = EMERG_TABLE_ID_FOR_STATS then
                (case ch_emerg_table (dp_chain dp) of
                   None \<Rightarrow> Fault
                 | Some table \<Rightarrow>
                     (case table_iterate table match_key out_port position (flow_stats_dump_callback env table_idx) buffer of
                        None \<Rightarrow> Fault
                      | Some (_, position, buffer) \<Rightarrow> finish table_idx position buffer))
              else
                (case flow_stats_loop env (ch_tables (dp_chain dp)) match_key table_id out_port table_idx position buffer of
                   Fault \<Rightarrow> Fault
                 | Done (table_idx, position, buffer) \<Rightarrow> finish table_idx position buffer))
      | _ \<Rightarrow> Fault)"

section \<open>Aggregate statistics\<close>

definition aggregate_stats_init :: "u8 list \<Rightarrow> int \<times> stats_state" where
  "aggregate_stats_init body = (0, Aggregate_stats_state (ld8 body 40) (ofp_match_at body 0) (ld16 body 42))"

text \<open>The counters of the reply, while they are in host byte order.\<close>

type_synonym totals = "u64 \<times> u64 \<times> u32"

definition aggregate_stats_dump_callback :: "totals callback" where
  "aggregate_stats_dump_callback flow rpy =
     (case rpy of (packets, bytes, flows) \<Rightarrow>
        (0, packets + sf_packet_count flow, bytes + sf_byte_count flow, flows + 1))"

function aggregate_stats_loop :: "sw_table list \<Rightarrow> sw_flow_key \<Rightarrow> u8 \<Rightarrow> u16 \<Rightarrow> nat \<Rightarrow> sw_table_position \<Rightarrow> totals
    \<Rightarrow> (int \<times> totals) run" where
  "aggregate_stats_loop tables match_key table_id out_port table_idx position rpy =
     (if table_idx < length tables \<and> (table_id = 0xff \<or> unat table_id = table_idx) then
        (case table_iterate (tables ! table_idx) match_key out_port position aggregate_stats_dump_callback rpy of
           None \<Rightarrow> Fault
         | Some (error, position, rpy) \<Rightarrow>
             (if error \<noteq> 0 then Done (error, rpy)
              else aggregate_stats_loop tables match_key table_id out_port (table_idx + 1) start_position rpy))
      else Done (0, rpy))"
  by pat_completeness auto
termination by (relation "measure (\<lambda>(tables, _, _, _, table_idx, _, _). length tables - table_idx)") auto

declare aggregate_stats_loop.simps [simp del]

text \<open>If the iteration fails the counters stay in host byte order.\<close>

definition aggregate_stats_dump :: "datapath \<Rightarrow> stats_state \<Rightarrow> u8 list \<Rightarrow> dumped" where
  "aggregate_stats_dump dp state buffer =
     (case state of
        Aggregate_stats_state table_id match out_port \<Rightarrow>
          (let match_key = flow_extract_match match;
               table_idx = (if table_id = 0xff then 0 else unat table_id);
               result =
                 (if table_id = EMERG_TABLE_ID_FOR_STATS then
                    (case ch_emerg_table (dp_chain dp) of
                       None \<Rightarrow> Fault
                     | Some table \<Rightarrow>
                         (case table_iterate table match_key out_port start_position aggregate_stats_dump_callback (0, 0, 0) of
                            None \<Rightarrow> Fault | Some (error, _, rpy) \<Rightarrow> Done (error, rpy)))
                  else aggregate_stats_loop (ch_tables (dp_chain dp)) match_key table_id out_port table_idx start_position (0, 0, 0))
           in case result of
                Fault \<Rightarrow> Fault
              | Done (error, packets, bytes, flows) \<Rightarrow>
                  (if error \<noteq> 0 then Done (error, state, buffer @ le64 packets @ le64 bytes @ le32 flows @ replicate 4 0)
                   else Done (0, state, buffer @ le64 (htonll packets) @ le64 (htonll bytes) @ le32 (htonl flows) @ replicate 4 0)))
      | _ \<Rightarrow> Fault)"

section \<open>Tables, ports and queues\<close>

definition table_stats_entry :: "nat \<Rightarrow> sw_table_stats \<Rightarrow> u8 list" where
  "table_stats_entry i st =
     [of_nat i, 0, 0, 0] @ strncpy (st_name st) OFP_MAX_TABLE_NAME_LEN @ le32 (htonl (st_wildcards st))
     @ le32 (htonl (st_max_flows st)) @ le32 (htonl (st_n_flows st))
     @ le64 (htonll (st_n_lookup st)) @ le64 (htonll (st_n_matched st))"

definition table_stats_dump :: "datapath \<Rightarrow> stats_state \<Rightarrow> u8 list \<Rightarrow> dumped" where
  "table_stats_dump dp state buffer =
     (let tables = ch_tables (dp_chain dp)
      in Done (0, state, buffer @ concat (map (\<lambda>i. table_stats_entry i (table_stats (tables ! i))) [0..<length tables])))"

definition port_stats_init :: "u8 list \<Rightarrow> int \<times> stats_state" where
  "port_stats_init body = (0, Port_stats_state 1 (ntohs (ld16 body 0)))"

text \<open>The counters of the port are not reported.\<close>

definition dump_port_stats :: "sw_port \<Rightarrow> u8 list" where
  "dump_port_stats port =
     le16 (htons (pt_port_no port)) @ replicate 6 0 @ concat (replicate 6 (le64 0)) @ concat (replicate 6 (le64 (htonll (- 1))))"

definition port_stats_dump :: "datapath \<Rightarrow> stats_state \<Rightarrow> u8 list \<Rightarrow> dumped" where
  "port_stats_dump dp state buffer =
     (case state of
        Port_stats_state start_port port_no \<Rightarrow>
          (let dump = (\<lambda>i. case dp_lookup_port dp i of
                 None \<Rightarrow> []
               | Some p \<Rightarrow> if port_in_use (port_at dp p) then dump_port_stats (port_at dp p) else [])
           in Done (0, state, buffer @
                (if port_no = OFPP_NONE then
                   concat (map (\<lambda>i. dump (of_nat i)) [start_port..<unat DP_MAX_PORTS])
                   @ (case dp_local_port dp of None \<Rightarrow> [] | Some port \<Rightarrow> dump_port_stats port)
                 else dump port_no)))
      | _ \<Rightarrow> Fault)"

definition queue_stats_init :: "u8 list \<Rightarrow> int \<times> stats_state" where
  "queue_stats_init body = (0, Queue_stats_state (ntohs (ld16 body 0)) (ntohl (ld32 body 4)))"

definition dump_queue_stats :: "dp_env \<Rightarrow> sw_port \<Rightarrow> sw_queue \<Rightarrow> u8 list \<Rightarrow> u8 list" where
  "dump_queue_stats env port q buffer =
     buffer @ le16 (htons (pt_port_no port)) @ [ev_junk env (length buffer + 2), ev_junk env (length buffer + 3)]
     @ le32 (htonl (sq_queue_id q)) @ le64 (htonll (sq_tx_bytes q)) @ le64 (htonll (sq_tx_packets q))
     @ le64 (htonll (sq_tx_errors q))"

text \<open>The queues of a port that are asked for.\<close>

definition queue_stats_port :: "dp_env \<Rightarrow> u32 \<Rightarrow> sw_port \<Rightarrow> u8 list \<Rightarrow> u8 list run" where
  "queue_stats_port env queue_id port buffer =
     (case port_queues port of
        None \<Rightarrow> Fault
      | Some queues \<Rightarrow>
          (if queue_id = OFPQ_ALL then Done (fold (dump_queue_stats env port) queues buffer)
           else
             (case dp_lookup_queue port queue_id of
                Some q \<Rightarrow> Done (dump_queue_stats env port q buffer)
              | None \<Rightarrow> Done buffer)))"

fun queue_stats_ports :: "dp_env \<Rightarrow> u32 \<Rightarrow> sw_port list \<Rightarrow> u8 list \<Rightarrow> u8 list run" where
  "queue_stats_ports env queue_id [] buffer = Done buffer"
| "queue_stats_ports env queue_id (p # ps) buffer =
     (if pt_port_no p < OFPP_MAX then
        (case queue_stats_port env queue_id p buffer of
           Fault \<Rightarrow> Fault | Done buffer \<Rightarrow> queue_stats_ports env queue_id ps buffer)
      else queue_stats_ports env queue_id ps buffer)"

definition queue_stats_dump :: "dp_env \<Rightarrow> datapath \<Rightarrow> stats_state \<Rightarrow> u8 list \<Rightarrow> dumped" where
  "queue_stats_dump env dp state buffer =
     (case state of
        Queue_stats_state port queue_id \<Rightarrow>
          (let result =
             (if port = OFPP_ALL then queue_stats_ports env queue_id (map (port_at dp) (dp_port_list dp)) buffer
              else
                (case dp_lookup_port dp port of
                   None \<Rightarrow> Done buffer
                 | Some p \<Rightarrow> queue_stats_port env queue_id (port_at dp p) buffer))
           in case result of Fault \<Rightarrow> Fault | Done buffer \<Rightarrow> Done (0, state, buffer))
      | _ \<Rightarrow> Fault)"

text \<open>No vendor is known.\<close>

definition vendor_stats_init :: "u8 list \<Rightarrow> int \<times> stats_state" where
  "vendor_stats_init body = (- EINVAL, No_state)"

definition vendor_stats_dump :: "stats_state \<Rightarrow> u8 list \<Rightarrow> dumped" where
  "vendor_stats_dump state buffer = Done (0, state, buffer)"

section \<open>Requests and replies\<close>

record stats_type =
  sy_type :: u16
  sy_min_body :: nat
  sy_max_body :: nat
  sy_init :: "(u8 list \<Rightarrow> int \<times> stats_state) option"
  sy_dump :: "dp_env \<Rightarrow> switch_desc \<Rightarrow> datapath \<Rightarrow> stats_state \<Rightarrow> u8 list \<Rightarrow> dumped"

definition stats :: "stats_type list" where
  "stats =
     [\<lparr>sy_type = OFPST_DESC, sy_min_body = 0, sy_max_body = 0, sy_init = None,
       sy_dump = (\<lambda>env gd. desc_stats_dump gd)\<rparr>,
      \<lparr>sy_type = OFPST_FLOW, sy_min_body = 44, sy_max_body = 44, sy_init = Some flow_stats_init,
       sy_dump = (\<lambda>env gd. flow_stats_dump env)\<rparr>,
      \<lparr>sy_type = OFPST_AGGREGATE, sy_min_body = 44, sy_max_body = 44, sy_init = Some aggregate_stats_init,
       sy_dump = (\<lambda>env gd. aggregate_stats_dump)\<rparr>,
      \<lparr>sy_type = OFPST_TABLE, sy_min_body = 0, sy_max_body = 0, sy_init = None,
       sy_dump = (\<lambda>env gd. table_stats_dump)\<rparr>,
      \<lparr>sy_type = OFPST_PORT, sy_min_body = 8, sy_max_body = 8, sy_init = Some port_stats_init,
       sy_dump = (\<lambda>env gd. port_stats_dump)\<rparr>,
      \<lparr>sy_type = OFPST_QUEUE, sy_min_body = 8, sy_max_body = 8, sy_init = Some queue_stats_init,
       sy_dump = (\<lambda>env gd. queue_stats_dump env)\<rparr>,
      \<lparr>sy_type = OFPST_VENDOR, sy_min_body = 8, sy_max_body = 32, sy_init = Some vendor_stats_init,
       sy_dump = (\<lambda>env gd dp. vendor_stats_dump)\<rparr>]"

definition find_stats :: "u16 \<Rightarrow> stats_type option" where
  "find_stats type = find (\<lambda>st. sy_type st = type) stats"

text \<open>The assertion of \<^verbatim>\<open>remote_start_dump\<close> is that the connection has no reply pending.\<close>

definition remote_start_dump :: "nat \<Rightarrow> stats_dump_cb \<Rightarrow> datapath \<Rightarrow> datapath run" where
  "remote_start_dump i cb dp =
     (if rm_cb_dump (dp_remotes dp ! i) \<noteq> None then Fault
      else Done (dp\<lparr>dp_remotes := (dp_remotes dp)[i := (dp_remotes dp ! i)\<lparr>rm_cb_dump := Some cb\<rparr>]\<rparr>))"

text \<open>The length of the body is an \<^verbatim>\<open>int\<close>, compared as a \<^verbatim>\<open>size_t\<close>: a negative one is above every maximum.\<close>

definition recv_stats_request :: "sender \<Rightarrow> u8 list \<Rightarrow> datapath \<Rightarrow> handled" where
  "recv_stats_request sender msg dp =
     (case find_stats (ntohs (ld16 msg 8)) of
        None \<Rightarrow> Done (- EINVAL, dp)
      | Some st \<Rightarrow>
          (if msg_length msg < 12 + sy_min_body st \<or> msg_length msg > 12 + sy_max_body st then Done (- EINVAL, dp)
           else
             (let (err, state) = (case sy_init st of None \<Rightarrow> (0, No_state) | Some init \<Rightarrow> init (take (msg_length msg - 12) (drop 12 msg)))
              in if err \<noteq> 0 then Done (err, dp)
                 else then_zero (remote_start_dump (sd_remote sender)
                        \<lparr>cb_done = False, cb_xid = sd_xid sender, cb_type = sy_type st, cb_state = state\<rparr> dp))))"

definition stats_dump :: "dp_env \<Rightarrow> switch_desc \<Rightarrow> nat \<Rightarrow> stats_dump_cb \<Rightarrow> datapath \<Rightarrow> (int \<times> stats_dump_cb \<times> datapath) run" where
  "stats_dump env gd i cb dp =
     (if cb_done cb then Done (0, cb, dp)
      else
        (let sender = \<lparr>sd_remote = i, sd_xid = cb_xid cb\<rparr>
         in case (find_stats (cb_type cb), make_openflow_reply 12 OFPT_STATS_REPLY (Some sender)) of
              (Some st, Some osr) \<Rightarrow>
                (case sy_dump st env gd dp (cb_state cb) (st16 (st16 osr 8 (htons (sy_type st))) 10 0) of
                   Fault \<Rightarrow> Fault
                 | Done (err, state, buffer) \<Rightarrow>
                     (let cb = cb\<lparr>cb_state := state\<rparr>
                      in if err \<ge> 0 then
                           (let cb = (if err = 0 then cb\<lparr>cb_done := True\<rparr> else cb);
                                buffer = (if err = 0 then buffer else st16 buffer 10 (ntohs OFPSF_REPLY_MORE))
                            in case send_openflow_buffer env buffer (Some sender) dp of
                                 Fault \<Rightarrow> Fault
                               | Done (err2, dp) \<Rightarrow> Done (if err2 \<noteq> 0 then err2 else err, cb, dp))
                         else Done (err, cb, dp)))
            | _ \<Rightarrow> Fault))"

section \<open>The entries a request is about\<close>

text \<open>The tables that are still to be visited from \<open>table_idx\<close> on.\<close>

definition asked_from :: "nat \<Rightarrow> u8 \<Rightarrow> nat \<Rightarrow> nat list" where
  "asked_from n table_id table_idx =
     (if table_id = 0xff then [table_idx..<n] else if table_idx < n \<and> unat table_id = table_idx then [table_idx] else [])"

definition first_table :: "u8 \<Rightarrow> nat" where
  "first_table table_id = (if table_id = 0xff then 0 else unat table_id)"

text \<open>The selected entries of the emergency table or of one table or all, each with the number of its table.\<close>

definition asked_entries :: "sw_chain \<Rightarrow> u8 \<Rightarrow> sw_flow_key \<Rightarrow> u16 \<Rightarrow> (nat \<times> sw_flow) list" where
  "asked_entries chain table_id key out_port =
     (if table_id = EMERG_TABLE_ID_FOR_STATS then
        map (Pair (unat table_id)) (filter (selects key out_port) (table_entries (the (ch_emerg_table chain))))
      else concat (map (\<lambda>i. map (Pair i) (filter (selects key out_port) (table_entries (ch_tables chain ! i))))
             (asked_from (length (ch_tables chain)) table_id (first_table table_id))))"

lemma asked_from_step:
  "asked_from n table_id i = (if i < n \<and> (table_id = 0xff \<or> unat table_id = i) then i # asked_from n table_id (i + 1) else [])"
  by (auto simp: asked_from_def upt_conv_Cons)

lemma asked_from_less: "j \<in> set (asked_from n table_id i) \<Longrightarrow> j < n"
  by (auto simp: asked_from_def split: if_splits)

lemma dp_inv_table: "dp_inv dp \<Longrightarrow> i < length (ch_tables (dp_chain dp)) \<Longrightarrow> table_inv (ch_tables (dp_chain dp) ! i)"
  by (simp add: dp_inv_def chain_inv_def)

lemma dp_inv_emerg: "dp_inv dp \<Longrightarrow> \<exists>t. ch_emerg_table (dp_chain dp) = Some t \<and> table_inv t"
  by (simp add: dp_inv_def chain_inv_def)

section \<open>Aggregate statistics are sums\<close>

lemma aggregate_fold:
  "fold (\<lambda>f s. snd (aggregate_stats_dump_callback f s)) fs (p, b, n)
    = (p + sum_list (map sf_packet_count fs), b + sum_list (map sf_byte_count fs), n + of_nat (length fs))"
  by (induction fs arbitrary: p b n) (simp_all add: aggregate_stats_dump_callback_def algebra_simps)

lemma aggregate_cb_ok: "fst (aggregate_stats_dump_callback f s) = 0"
  by (simp add: aggregate_stats_dump_callback_def split: prod.split)

lemma aggregate_loop_eq:
  assumes "\<forall>t\<in>set tables. table_inv t"
  shows "aggregate_stats_loop tables key table_id op i start_position rpy
    = Done (0, fold (\<lambda>f s. snd (aggregate_stats_dump_callback f s))
        (concat (map (\<lambda>j. table_todo (tables ! j) key op start_position) (asked_from (length tables) table_id i))) rpy)"
proof (induction "length tables - i" arbitrary: i rpy)
  case 0
  then show ?case by (subst aggregate_stats_loop.simps, subst asked_from_step) simp
next
  case (Suc k)
  have i: "i < length tables" using Suc.hyps(2) by simp
  then have t: "table_inv (tables ! i)" using assms by simp
  obtain p where p: "table_iterate (tables ! i) key op start_position aggregate_stats_dump_callback rpy
    = Some (0, p, fold (\<lambda>f s. snd (aggregate_stats_dump_callback f s)) (table_todo (tables ! i) key op start_position) rpy)"
    using table_iter.iterate_all [where cb = aggregate_stats_dump_callback, OF t aggregate_cb_ok] by blast
  have "k = length tables - (i + 1)" using Suc.hyps(2) by simp
  note IH = Suc.hyps(1) [OF this]
  show ?case
    by (subst aggregate_stats_loop.simps, subst asked_from_step) (auto simp: p IH [simplified])
qed

lemma mset_concat_cong: "(\<And>x. x \<in> set xs \<Longrightarrow> mset (f x) = mset (g x)) \<Longrightarrow> mset (concat (map f xs)) = mset (concat (map g xs))"
  by (induction xs) simp_all

lemma sum_list_mset_cong: "mset xs = mset ys \<Longrightarrow> sum_list (map f xs) = sum_list (map f ys)" for f :: "'a \<Rightarrow> 'b::comm_monoid_add"
  by (metis mset_map sum_mset_sum_list)

text \<open>
  The aggregate statistics are the number of the selected entries and the sums of their counters, modulo the
  width of the fields.
\<close>

theorem aggregate_stats_sums:
  assumes inv: "dp_inv dp" and fs: "fs = map snd (asked_entries (dp_chain dp) table_id (flow_extract_match m) op)"
  shows "aggregate_stats_dump dp (Aggregate_stats_state table_id m op) buffer
    = Done (0, Aggregate_stats_state table_id m op, buffer @ le64 (htonll (sum_list (map sf_packet_count fs)))
        @ le64 (htonll (sum_list (map sf_byte_count fs))) @ le32 (htonl (of_nat (length fs))) @ replicate 4 0)"
proof -
  let ?key = "flow_extract_match m" let ?ts = "ch_tables (dp_chain dp)"
  have sums: "(0 + sum_list (map sf_packet_count gs), 0 + sum_list (map sf_byte_count gs), 0 + of_nat (length gs) :: u32)
      = (sum_list (map sf_packet_count fs), sum_list (map sf_byte_count fs), of_nat (length fs))" if "mset gs = mset fs" for gs
    using sum_list_mset_cong [OF that, of sf_packet_count] sum_list_mset_cong [OF that, of sf_byte_count]
      mset_eq_length [OF that] by simp
  show ?thesis
  proof (cases "table_id = EMERG_TABLE_ID_FOR_STATS")
    case True
    obtain t where t: "ch_emerg_table (dp_chain dp) = Some t" "table_inv t" using dp_inv_emerg [OF inv] by blast
    obtain p where p: "table_iterate t ?key op start_position aggregate_stats_dump_callback (0, 0, 0)
      = Some (0, p, fold (\<lambda>f s. snd (aggregate_stats_dump_callback f s)) (table_todo t ?key op start_position) (0, 0, 0))"
      using table_iter.iterate_all [where cb = aggregate_stats_dump_callback, OF t(2) aggregate_cb_ok] by blast
    have "mset (table_todo t ?key op start_position) = mset fs"
      using table_iter.todo_start [OF t(2) key_ok_extract] t(1) True by (simp add: fs asked_entries_def comp_def)
    from sums [OF this] show ?thesis using True t p
      by (simp add: aggregate_stats_dump_def aggregate_fold)
  next
    case False
    let ?gs = "concat (map (\<lambda>j. table_todo (?ts ! j) ?key op start_position) (asked_from (length ?ts) table_id (first_table table_id)))"
    have "mset ?gs = mset (concat (map (\<lambda>i. filter (selects ?key op) (table_entries (?ts ! i)))
        (asked_from (length ?ts) table_id (first_table table_id))))"
      using table_iter.todo_start [OF dp_inv_table [OF inv asked_from_less] key_ok_extract]
      by (intro mset_concat_cong) blast
    also have "\<dots> = mset fs" using False by (simp add: fs asked_entries_def map_concat comp_def)
    finally have g: "mset ?gs = mset fs" .
    have ts: "\<forall>t\<in>set ?ts. table_inv t" using inv by (simp add: dp_inv_def chain_inv_def)
    show ?thesis using False sums [OF g]
      by (simp add: aggregate_stats_dump_def aggregate_loop_eq [OF ts] aggregate_fold first_table_def [symmetric] Let_def
          del: map_concat)
  qed
qed

section \<open>Flow statistics are complete\<close>

text \<open>
  What a dump makes of the entries that remain: it appends them until the message is full. The result is
  whether it is full, what remains then and the message.
\<close>

fun stats_fill :: "dp_env \<Rightarrow> (nat \<times> sw_flow) list \<Rightarrow> u8 list \<Rightarrow> bool \<times> (nat \<times> sw_flow) list \<times> u8 list" where
  "stats_fill env [] b = (False, [], b)"
| "stats_fill env ((i, f) # xs) b =
     (let b = fill_flow_stats env b f i in if length b \<ge> MAX_FLOW_STATS_BYTES then (True, xs, b) else stats_fill env xs b)"

text \<open>The message with the statistics of some entries.\<close>

definition put_flow_stats :: "dp_env \<Rightarrow> u8 list \<Rightarrow> (nat \<times> sw_flow) list \<Rightarrow> u8 list" where
  "put_flow_stats env b xs = fold (\<lambda>(i, f) b. fill_flow_stats env b f i) xs b"

lemma length_fill_flow_stats: "length (fill_flow_stats env b f i) = length b + 88 + length (sf_acts f)"
  by (simp add: fill_flow_stats_def Let_def)

lemma stats_fill_parts:
  "stats_fill env xs b = (stop, rest, b') \<Longrightarrow> length b < MAX_FLOW_STATS_BYTES \<Longrightarrow>
     \<exists>ys. xs = ys @ rest \<and> b' = put_flow_stats env b ys \<and> (stop \<longleftrightarrow> MAX_FLOW_STATS_BYTES \<le> length b')
       \<and> (stop \<longrightarrow> ys \<noteq> []) \<and> (\<not> stop \<longrightarrow> rest = [])"
proof (induction xs arbitrary: b)
  case (Cons x xs)
  obtain i f where x: "x = (i, f)" by fastforce
  let ?b = "fill_flow_stats env b f i"
  show ?case
  proof (cases "MAX_FLOW_STATS_BYTES \<le> length ?b")
    case True
    then show ?thesis using Cons.prems x by (intro exI [of _ "[x]"]) (auto simp: put_flow_stats_def)
  next
    case False
    then obtain ys where "xs = ys @ rest" "b' = put_flow_stats env ?b ys" "stop \<longleftrightarrow> MAX_FLOW_STATS_BYTES \<le> length b'"
      "stop \<longrightarrow> ys \<noteq> []" "\<not> stop \<longrightarrow> rest = []" using Cons.IH [of ?b] Cons.prems x by auto
    then show ?thesis using x by (intro exI [of _ "x # ys"]) (auto simp: put_flow_stats_def)
  qed
qed (simp add: put_flow_stats_def)

lemma stats_fill_append:
  "stats_fill env (xs @ ys) b = (case stats_fill env xs b of (stop, rest, b') \<Rightarrow>
     if stop then (True, rest @ ys, b') else stats_fill env ys b')"
  by (induction env xs b rule: stats_fill.induct) (simp_all add: Let_def)

lemma run_flow_stats_callback:
  "stats_fill env (map (Pair i) fs) b = (stop, rest, b') \<Longrightarrow>
     \<exists>st. run_callback (flow_stats_dump_callback env i) fs b = (if stop then 1 else 0, st, b')
       \<and> (stop \<longrightarrow> rest = map (Pair i) (callback_rest (flow_stats_dump_callback env i) fs b)
           \<and> (\<exists>f\<in>set fs. st = Some f))"
  by (induction fs arbitrary: b) (fastforce simp: flow_stats_dump_callback_def Let_def split: if_splits)+

text \<open>The entries that a state still has to report, and the table of each.\<close>

definition tables_todo :: "sw_table list \<Rightarrow> sw_flow_key \<Rightarrow> u8 \<Rightarrow> u16 \<Rightarrow> nat \<Rightarrow> sw_table_position \<Rightarrow> (nat \<times> sw_flow) list" where
  "tables_todo tables key table_id out_port table_idx position =
     (case asked_from (length tables) table_id table_idx of
        [] \<Rightarrow> []
      | i # is \<Rightarrow> map (Pair i) (table_todo (tables ! i) key out_port position)
          @ concat (map (\<lambda>i. map (Pair i) (table_todo (tables ! i) key out_port start_position)) is))"

fun flow_todo :: "sw_chain \<Rightarrow> stats_state \<Rightarrow> (nat \<times> sw_flow) list" where
  "flow_todo chain (Flow_stats_state table_id m out_port table_idx position) =
     (if table_id = EMERG_TABLE_ID_FOR_STATS
      then map (Pair table_idx) (table_todo (the (ch_emerg_table chain)) (flow_extract_match m) out_port position)
      else tables_todo (ch_tables chain) (flow_extract_match m) table_id out_port table_idx position)"
| "flow_todo chain _ = []"

fun stats_table :: "sw_chain \<Rightarrow> stats_state \<Rightarrow> nat \<Rightarrow> sw_table" where
  "stats_table chain (Flow_stats_state table_id m out_port table_idx position) i =
     (if table_id = EMERG_TABLE_ID_FOR_STATS then the (ch_emerg_table chain) else ch_tables chain ! i)"
| "stats_table chain _ i = ch_tables chain ! i"

lemma tables_todo_next:
  "tables_todo tables key table_id op i p =
     (if i < length tables \<and> (table_id = 0xff \<or> unat table_id = i)
      then map (Pair i) (table_todo (tables ! i) key op p) @ tables_todo tables key table_id op (i + 1) start_position else [])"
proof (cases "i < length tables \<and> (table_id = 0xff \<or> unat table_id = i)")
  case True
  then have "asked_from (length tables) table_id i = i # asked_from (length tables) table_id (i + 1)"
    using asked_from_step by auto
  then show ?thesis using True
    by (auto simp: tables_todo_def split: list.split)
next
  case False
  then have "asked_from (length tables) table_id i = []" using asked_from_step by auto
  then show ?thesis using False by (auto simp: tables_todo_def)
qed

lemma iterate_flow_stats:
  assumes t: "table_inv t" and fill: "stats_fill env (map (Pair i) (table_todo t key op p)) b = (stop, rest, b')"
    and r: "\<forall>f\<in>set (table_todo t key op p). table_resumable t f"
  shows "\<exists>p'. table_iterate t key op p (flow_stats_dump_callback env i) b = Some (if stop then 1 else 0, p', b')
    \<and> (stop \<longrightarrow> map (Pair i) (table_todo t key op p') = rest)"
proof -
  let ?cb = "flow_stats_dump_callback env i"
  obtain st where st: "run_callback ?cb (table_todo t key op p) b = (if stop then 1 else 0, st, b')"
    "stop \<longrightarrow> rest = map (Pair i) (callback_rest ?cb (table_todo t key op p) b)
      \<and> (\<exists>f\<in>set (table_todo t key op p). st = Some f)" using run_flow_stats_callback [OF fill] by blast
  obtain p' where p': "table_iterate t key op p ?cb b = Some (if stop then 1 else 0, p', b')"
    "\<forall>f. (if stop then 1 else 0) \<noteq> (0 :: int) \<longrightarrow> st = Some f \<longrightarrow> table_resumable t f
      \<longrightarrow> table_todo t key op p' = callback_rest ?cb (table_todo t key op p) b"
    using table_iter.iterate_todo [OF t st(1)] by blast
  have "map (Pair i) (table_todo t key op p') = rest" if stop
  proof -
    obtain f where "f \<in> set (table_todo t key op p)" "st = Some f" using st(2) \<open>stop\<close> by blast
    then have "table_todo t key op p' = callback_rest ?cb (table_todo t key op p) b" using p'(2) \<open>stop\<close> r by simp
    then show ?thesis using st(2) \<open>stop\<close> by simp
  qed
  then show ?thesis using p'(1) by blast
qed

lemma flow_stats_loop_result:
  assumes ts: "\<forall>t\<in>set tables. table_inv t"
    and fill: "stats_fill env (tables_todo tables key table_id op i p) b = (stop, rest, b')"
    and r: "\<forall>(j, f)\<in>set (tables_todo tables key table_id op i p). table_resumable (tables ! j) f"
  shows "\<exists>i' p'. flow_stats_loop env tables key table_id op i p b = Done (i', p', b')
    \<and> (stop \<longrightarrow> tables_todo tables key table_id op i' p' = rest)"
  using fill r
proof (induction "length tables - i" arbitrary: i p b)
  case 0
  then have "tables_todo tables key table_id op i p = []" using tables_todo_next by auto
  then show ?case using 0 by (subst flow_stats_loop.simps) simp
next
  case (Suc k)
  have i: "i < length tables" and k: "k = length tables - (i + 1)" using Suc.hyps(2) by simp_all
  have t: "table_inv (tables ! i)" using ts i by simp
  show ?case
  proof (cases "table_id = 0xff \<or> unat table_id = i")
    case False
    then show ?thesis using Suc.prems(1) tables_todo_next [of tables key table_id op i p] i
      by (subst flow_stats_loop.simps) simp
  next
    case True
    let ?xs = "map (Pair i) (table_todo (tables ! i) key op p)"
    let ?ys = "tables_todo tables key table_id op (i + 1) start_position"
    have todo: "tables_todo tables key table_id op i p = ?xs @ ?ys" using True i tables_todo_next by simp
    obtain stop1 rest1 b1 where x: "stats_fill env ?xs b = (stop1, rest1, b1)" using prod_cases3 by blast
    have "\<forall>f\<in>set (table_todo (tables ! i) key op p). table_resumable (tables ! i) f"
      using Suc.prems(2) todo by auto
    from iterate_flow_stats [OF t x this] obtain p1 where
      p1: "table_iterate (tables ! i) key op p (flow_stats_dump_callback env i) b = Some (if stop1 then 1 else 0, p1, b1)"
      "stop1 \<longrightarrow> map (Pair i) (table_todo (tables ! i) key op p1) = rest1" by blast
    show ?thesis
    proof (cases stop1)
      case stop1: True
      then have "stop" "rest = rest1 @ ?ys" "b' = b1" using Suc.prems(1) x todo by (simp_all add: stats_fill_append)
      moreover have "tables_todo tables key table_id op i p1 = rest1 @ ?ys"
        using p1(2) stop1 True i tables_todo_next by simp
      ultimately show ?thesis using True i p1(1) stop1 by (subst flow_stats_loop.simps) simp
    next
      case False
      then have "stats_fill env ?ys b1 = (stop, rest, b')" using Suc.prems(1) x todo by (simp add: stats_fill_append)
      from Suc.hyps(1) [OF k this] show ?thesis using True i p1(1) False Suc.prems(2) todo
        by (subst flow_stats_loop.simps) auto
    qed
  qed
qed

lemma flow_stats_dump_result:
  assumes inv: "dp_inv dp" and st: "state = Flow_stats_state table_id m op i p"
    and b: "length b < MAX_FLOW_STATS_BYTES"
    and fill: "stats_fill env (flow_todo (dp_chain dp) state) b = (stop, rest, b')"
    and r: "\<forall>(j, f)\<in>set (flow_todo (dp_chain dp) state). table_resumable (stats_table (dp_chain dp) state j) f"
  shows "\<exists>i' p'. flow_stats_dump env dp state b = Done (if stop then 1 else 0, Flow_stats_state table_id m op i' p', b')
    \<and> (stop \<longrightarrow> flow_todo (dp_chain dp) (Flow_stats_state table_id m op i' p') = rest)"
proof -
  have len: "MAX_FLOW_STATS_BYTES \<le> length b' \<longleftrightarrow> stop" using stats_fill_parts [OF fill b] by blast
  show ?thesis
  proof (cases "table_id = EMERG_TABLE_ID_FOR_STATS")
    case True
    obtain t where t: "ch_emerg_table (dp_chain dp) = Some t" "table_inv t" using dp_inv_emerg [OF inv] by blast
    have "stats_fill env (map (Pair i) (table_todo t (flow_extract_match m) op p)) b = (stop, rest, b')"
      "\<forall>f\<in>set (table_todo t (flow_extract_match m) op p). table_resumable t f" using fill r st True t(1) by auto
    from iterate_flow_stats [OF t(2) this] obtain p' where
      "table_iterate t (flow_extract_match m) op p (flow_stats_dump_callback env i) b = Some (if stop then 1 else 0, p', b')"
      "stop \<longrightarrow> map (Pair i) (table_todo t (flow_extract_match m) op p') = rest" by blast
    then show ?thesis using True t(1) len st
      by (intro exI [of _ i] exI [of _ p']) (simp add: flow_stats_dump_def Let_def)
  next
    case False
    have ts: "\<forall>t\<in>set (ch_tables (dp_chain dp)). table_inv t" using inv by (simp add: dp_inv_def chain_inv_def)
    obtain i' p' where
      "flow_stats_loop env (ch_tables (dp_chain dp)) (flow_extract_match m) table_id op i p b = Done (i', p', b')"
      "stop \<longrightarrow> tables_todo (ch_tables (dp_chain dp)) (flow_extract_match m) table_id op i' p' = rest"
      using flow_stats_loop_result [OF ts, of env "flow_extract_match m" table_id op i p b stop rest b'] fill r st False by auto
    then show ?thesis using False len st
      by (intro exI [of _ i'] exI [of _ p']) (simp add: flow_stats_dump_def Let_def)
  qed
qed

text \<open>The replies to a request, each started with the bytes \<open>h\<close>, until a dump reports that it is the last.\<close>

primrec flow_stats_replies :: "nat \<Rightarrow> dp_env \<Rightarrow> datapath \<Rightarrow> u8 list \<Rightarrow> stats_state \<Rightarrow> u8 list list option" where
  "flow_stats_replies 0 env dp h state = None"
| "flow_stats_replies (Suc n) env dp h state =
     (case flow_stats_dump env dp state h of
        Fault \<Rightarrow> None
      | Done (err, state, buffer) \<Rightarrow>
          (if err = 0 then Some [buffer] else map_option (Cons buffer) (flow_stats_replies n env dp h state)))"

lemma flow_stats_replies_result:
  assumes inv: "dp_inv dp" and h: "length h < MAX_FLOW_STATS_BYTES"
    and todo: "flow_todo (dp_chain dp) state = xs" "length xs < n" and st: "state = Flow_stats_state table_id m op i p"
    and r: "\<forall>(j, f)\<in>set xs. table_resumable (stats_table (dp_chain dp) state j) f"
  shows "\<exists>parts. flow_stats_replies n env dp h state = Some (map (put_flow_stats env h) parts) \<and> concat parts = xs
    \<and> (\<forall>part\<in>set (butlast parts). MAX_FLOW_STATS_BYTES \<le> length (put_flow_stats env h part))
    \<and> parts \<noteq> [] \<and> length (put_flow_stats env h (last parts)) < MAX_FLOW_STATS_BYTES"
  using todo st r
proof (induction n arbitrary: xs state i p)
  case (Suc n)
  obtain stop rest b' where fill: "stats_fill env xs h = (stop, rest, b')" using prod_cases3 by blast
  obtain ys where ys: "xs = ys @ rest" "b' = put_flow_stats env h ys" "stop \<longleftrightarrow> MAX_FLOW_STATS_BYTES \<le> length b'"
    "stop \<longrightarrow> ys \<noteq> []" "\<not> stop \<longrightarrow> rest = []" using stats_fill_parts [OF fill h] by blast
  obtain i' p' where d: "flow_stats_dump env dp state h = Done (if stop then 1 else 0, Flow_stats_state table_id m op i' p', b')"
    "stop \<longrightarrow> flow_todo (dp_chain dp) (Flow_stats_state table_id m op i' p') = rest"
    using flow_stats_dump_result [OF inv Suc.prems(3) h] fill Suc.prems by blast
  show ?case
  proof (cases stop)
    case False
    then show ?thesis using d ys by (intro exI [of _ "[ys]"]) simp
  next
    case True
    let ?st = "Flow_stats_state table_id m op i' p'"
    have "length rest < n" using ys True Suc.prems(2) by (cases ys) auto
    moreover have "\<forall>(j, f)\<in>set rest. table_resumable (stats_table (dp_chain dp) ?st j) f"
      using Suc.prems(3,4) ys(1) by auto
    ultimately obtain parts where parts: "flow_stats_replies n env dp h ?st = Some (map (put_flow_stats env h) parts)"
      "concat parts = rest" "\<forall>part\<in>set (butlast parts). MAX_FLOW_STATS_BYTES \<le> length (put_flow_stats env h part)"
      "parts \<noteq> []" "length (put_flow_stats env h (last parts)) < MAX_FLOW_STATS_BYTES"
      using Suc.IH [of ?st rest i' p'] d(2) True by blast
    then show ?thesis using d(1) True ys by (intro exI [of _ "ys # parts"]) simp
  qed
qed simp

lemma flow_todo_start:
  assumes inv: "dp_inv dp"
  shows "mset (flow_todo (dp_chain dp) (Flow_stats_state table_id m op (first_table table_id) start_position))
    = mset (asked_entries (dp_chain dp) table_id (flow_extract_match m) op)"
proof (cases "table_id = EMERG_TABLE_ID_FOR_STATS")
  case True
  obtain t where t: "ch_emerg_table (dp_chain dp) = Some t" "table_inv t" using dp_inv_emerg [OF inv] by blast
  then show ?thesis using True table_iter.todo_start [OF t(2) key_ok_extract]
    by (simp add: asked_entries_def first_table_def)
next
  case False
  let ?ts = "ch_tables (dp_chain dp)" let ?key = "flow_extract_match m"
  let ?is = "asked_from (length ?ts) table_id (first_table table_id)"
  have "tables_todo ?ts ?key table_id op (first_table table_id) start_position
    = concat (map (\<lambda>i. map (Pair i) (table_todo (?ts ! i) ?key op start_position)) ?is)"
    by (simp add: tables_todo_def split: list.split)
  moreover have "mset (map (Pair i) (table_todo (?ts ! i) ?key op start_position))
      = mset (map (Pair i) (filter (selects ?key op) (table_entries (?ts ! i))))" if "i \<in> set ?is" for i
    using table_iter.todo_start [OF dp_inv_table [OF inv asked_from_less [OF that]] key_ok_extract] by (simp only: mset_map)
  then have "mset (concat (map (\<lambda>i. map (Pair i) (table_todo (?ts ! i) ?key op start_position)) ?is))
    = mset (concat (map (\<lambda>i. map (Pair i) (filter (selects ?key op) (table_entries (?ts ! i)))) ?is))"
    by (rule mset_concat_cong)
  ultimately show ?thesis using False by (simp add: asked_entries_def del: mset_concat mset_map)
qed

text \<open>
  The replies to a request for flow statistics, taken together, report every selected entry once, with the number of its table; every
  reply but the last is full and the last is not, so that the last is the first without the flag for more. The entry with serial
  number 0 of a linear table, after which an iteration starts again, is excluded.
\<close>

theorem flow_stats_complete:
  assumes "dp_inv dp" "length h < MAX_FLOW_STATS_BYTES"
    and "state = snd (flow_stats_init body)" "xs = asked_entries (dp_chain dp) (ld8 body 40) (flow_extract_match (ofp_match_at body 0)) (ld16 body 42)"
    and "\<forall>(j, f)\<in>set xs. table_resumable (stats_table (dp_chain dp) state j) f"
  shows "\<exists>parts. flow_stats_replies (length xs + 1) env dp h state = Some (map (put_flow_stats env h) parts)
    \<and> mset (concat parts) = mset xs
    \<and> (\<forall>part\<in>set (butlast parts). MAX_FLOW_STATS_BYTES \<le> length (put_flow_stats env h part))
    \<and> length (put_flow_stats env h (last parts)) < MAX_FLOW_STATS_BYTES"
proof -
  have st: "state = Flow_stats_state (ld8 body 40) (ofp_match_at body 0) (ld16 body 42) (first_table (ld8 body 40)) start_position"
    using assms(3) by (simp add: flow_stats_init_def first_table_def)
  let ?ys = "flow_todo (dp_chain dp) state"
  have m: "mset ?ys = mset xs" using flow_todo_start [OF assms(1)] st assms(4) by simp
  then have r: "\<forall>(j, f)\<in>set ?ys. table_resumable (stats_table (dp_chain dp) state j) f"
    using assms(5) mset_eq_setD by metis
  have "length ?ys < length xs + 1" using mset_eq_length [OF m] by simp
  from flow_stats_replies_result [OF assms(1,2) refl this st r, of env] obtain parts where
    "flow_stats_replies (length xs + 1) env dp h state = Some (map (put_flow_stats env h) parts)" "concat parts = ?ys"
    "\<forall>part\<in>set (butlast parts). MAX_FLOW_STATS_BYTES \<le> length (put_flow_stats env h part)"
    "length (put_flow_stats env h (last parts)) < MAX_FLOW_STATS_BYTES" by blast
  then show ?thesis using m by (intro exI [of _ parts]) simp
qed

section \<open>Requests\<close>

lemma dp_inv_cb [simp]: "remote_start_dump i cb dp = Done dp' \<Longrightarrow> dp_inv dp' = dp_inv dp"
  by (auto simp: remote_start_dump_def split: if_splits)

lemma recv_stats_request_keeps:
  assumes "dp_inv dp" shows "keeps_inv (recv_stats_request sender msg dp)"
proof -
  have "keeps_inv (then_zero (remote_start_dump i cb dp))" for i cb using assms by (intro keeps_then_zero) simp
  then show ?thesis using assms by (simp add: recv_stats_request_def case_prod_beta Let_def split: option.split)
qed

lemma find_stats_cases:
  "find_stats t = Some st \<Longrightarrow> sy_type st = t \<and> t \<in> {OFPST_DESC, OFPST_FLOW, OFPST_AGGREGATE, OFPST_TABLE, OFPST_PORT, OFPST_QUEUE, OFPST_VENDOR}"
  by (auto simp: find_stats_def stats_def split: if_splits)

lemma find_stats_None:
  "find_stats t = None \<Longrightarrow> t \<notin> {OFPST_DESC, OFPST_FLOW, OFPST_AGGREGATE, OFPST_TABLE, OFPST_PORT, OFPST_QUEUE, OFPST_VENDOR}"
  by (auto simp: find_stats_def stats_def find_None_iff)

lemma stats_dump_keeps:
  assumes inv: "dp_inv dp" and d: "stats_dump env gd i cb dp = Done (e, cb', dp')"
  shows "dp_inv dp' \<and> dp_chain dp' = dp_chain dp"
proof -
  have "dp_inv dp' \<and> dp_chain dp' = dp_chain dp" if "send_openflow_buffer env b s dp = Done (e2, dp')" for b s e2
    using send_openflow_buffer_frame [OF that] inv by auto
  note sent = this
  show ?thesis
  proof (cases "cb_done cb")
    case False
    let ?s = "\<lparr>sd_remote = i, sd_xid = cb_xid cb\<rparr>"
    obtain st osr where so: "find_stats (cb_type cb) = Some st" "make_openflow_reply 12 OFPT_STATS_REPLY (Some ?s) = Some osr"
      using d False by (cases "find_stats (cb_type cb)"; cases "make_openflow_reply 12 OFPT_STATS_REPLY (Some ?s)") (simp_all add: stats_dump_def)
    obtain err state b where b: "sy_dump st env gd dp (cb_state cb) (st16 (st16 osr 8 (htons (sy_type st))) 10 0) = Done (err, state, b)"
      using d False so by (cases "sy_dump st env gd dp (cb_state cb) (st16 (st16 osr 8 (htons (sy_type st))) 10 0)")
        (auto simp: stats_dump_def)
    show ?thesis
    proof (cases "err \<ge> 0")
      case True
      let ?b = "if err = 0 then b else st16 b 10 (ntohs OFPSF_REPLY_MORE)"
      show ?thesis using d False so b True sent [of ?b "Some ?s"]
        by (cases "send_openflow_buffer env ?b (Some ?s) dp") (auto simp: stats_dump_def Let_def split del: if_split)
    qed (use d False so b inv in \<open>simp add: stats_dump_def Let_def\<close>)
  qed (use d inv in \<open>simp add: stats_dump_def\<close>)
qed

text \<open>The body of a request of each type.\<close>

definition stats_body_ok :: "u16 \<Rightarrow> nat \<Rightarrow> bool" where
  "stats_body_ok type n \<longleftrightarrow> (type \<in> {OFPST_DESC, OFPST_TABLE} \<and> n = 0) \<or> (type \<in> {OFPST_FLOW, OFPST_AGGREGATE} \<and> n = 44)
     \<or> (type \<in> {OFPST_PORT, OFPST_QUEUE} \<and> n = 8)"

text \<open>
  A request of a known type with a body of the right length is recorded as the pending reply of its connection, to be
  sent from the beginning; every other request, those of vendors too, is refused and changes nothing.
\<close>

theorem recv_stats_request_result:
  assumes "rm_cb_dump (dp_remotes dp ! sd_remote sender) = None" "type = ntohs (ld16 msg 8)"
  shows "if 12 \<le> msg_length msg \<and> stats_body_ok type (msg_length msg - 12)
    then \<exists>state. recv_stats_request sender msg dp
      = Done (0, dp\<lparr>dp_remotes := (dp_remotes dp)[sd_remote sender := (dp_remotes dp ! sd_remote sender)
          \<lparr>rm_cb_dump := Some \<lparr>cb_done = False, cb_xid = sd_xid sender, cb_type = type, cb_state = state\<rparr>\<rparr>]\<rparr>)
    else recv_stats_request sender msg dp = Done (- EINVAL, dp)"
proof -
  let ?body = "take (msg_length msg - 12) (drop 12 msg)"
  have s: "remote_start_dump (sd_remote sender) cb dp = Done (dp\<lparr>dp_remotes := (dp_remotes dp)[sd_remote sender :=
      (dp_remotes dp ! sd_remote sender)\<lparr>rm_cb_dump := Some cb\<rparr>]\<rparr>)" for cb
    using assms(1) by (simp add: remote_start_dump_def)
  consider (none) "find_stats type = None" "\<not> stats_body_ok type (msg_length msg - 12)"
    | (vendor) "type = OFPST_VENDOR" | (zero) "type = OFPST_DESC \<or> type = OFPST_TABLE"
    | (flow) "type = OFPST_FLOW \<or> type = OFPST_AGGREGATE" | (port) "type = OFPST_PORT \<or> type = OFPST_QUEUE"
    using find_stats_cases find_stats_None unfolding stats_body_ok_def by (cases "find_stats type") blast+
  then show ?thesis
  proof cases
    case none
    then show ?thesis using assms(2) by (simp add: recv_stats_request_def)
  next
    case vendor
    then show ?thesis using assms(2) by (simp add: recv_stats_request_def find_stats_def stats_def stats_body_ok_def vendor_stats_init_def)
  next
    case zero
    then show ?thesis using assms(2) s
      by (auto simp: recv_stats_request_def find_stats_def stats_def stats_body_ok_def then_zero_def)
  next
    case flow
    then show ?thesis using assms(2) s
      by (auto simp: recv_stats_request_def find_stats_def stats_def stats_body_ok_def flow_stats_init_def
          aggregate_stats_init_def then_zero_def)
  next
    case port
    then show ?thesis using assms(2) s
      by (auto simp: recv_stats_request_def find_stats_def stats_def stats_body_ok_def port_stats_init_def
          queue_stats_init_def then_zero_def)
  qed
qed

text \<open>Asking for the queues of a port that was never added stops the datapath.\<close>

theorem queue_stats_unused_port_faults:
  assumes "p < DP_MAX_PORTS" "\<not> port_in_use (port_at dp p)"
  shows "queue_stats_dump env dp (Queue_stats_state p queue_id) buffer = Fault"
proof -
  have "p \<noteq> OFPP_ALL" using assms(1) by auto
  then show ?thesis using assms by (simp add: queue_stats_dump_def dp_lookup_port_def queue_stats_port_def port_queues_def)
qed

section \<open>Witnesses\<close>

definition sample_body :: "u8 \<Rightarrow> u8 list" where
  "sample_body table_id = [0, 0x3f, 0xff, 0xff] @ replicate 36 0 @ [table_id, 0, 0xff, 0xff]"

theorem aggregate_stats_sums_witness:
  "aggregate_stats_dump (sample_dp one_chain) (Aggregate_stats_state 0xff any_match 0xffff) []
    = Done (0, Aggregate_stats_state 0xff any_match 0xffff, le64 (htonll (sf_packet_count sample_entry))
        @ le64 (htonll (sf_byte_count sample_entry)) @ [0, 0, 0, 1] @ replicate 4 0)"
proof -
  have k: "k_wildcards (flow_extract_match any_match) = OFPFW_ALL" "k_nw_src_mask (flow_extract_match any_match) = 0"
    "k_nw_dst_mask (flow_extract_match any_match) = 0" "le32 (htonl 1) = [0, 0, 0, 1]" "htons OFPP_NONE = 0xffff" by code_simp+
  have "OFPFW_ALL OR w \<noteq> 0" for w :: u32 by (simp add: or_eq_0_iff)
  then have "selects (flow_extract_match any_match) 0xffff sample_entry"
    using any_match_key by (simp add: selects_def flow_has_out_port_def flow_matches_2wild_def flow_matches_1wild_def k
      flow_fields_match_def wild_or_and)
  then have "asked_entries one_chain 0xff (flow_extract_match any_match) 0xffff = [(0, sample_entry)]"
    by (simp add: asked_entries_def asked_from_def first_table_def one_chain_def sample_table_eq)
  then show ?thesis
    using aggregate_stats_sums [OF sample_dp_inv [OF one_chain_inv] refl, where table_id = "0xff" and m = any_match and op = "0xffff" and buffer = "[]"]
    by (simp add: sample_ports k)
qed

theorem flow_stats_complete_witness:
  "\<exists>parts. flow_stats_replies (length (asked_entries sample_chain 0 (flow_extract_match (ofp_match_at (sample_body 0) 0)) 0xffff) + 1)
       sample_env (sample_dp sample_chain) (replicate 12 0) (snd (flow_stats_init (sample_body 0)))
     = Some (map (put_flow_stats sample_env (replicate 12 0)) parts)
   \<and> mset (concat parts) = mset (asked_entries sample_chain 0 (flow_extract_match (ofp_match_at (sample_body 0) 0)) 0xffff)"
proof -
  have b: "ld8 (sample_body 0) 40 = 0" "ld16 (sample_body 0) 42 = 0xffff" by code_simp+
  have "\<forall>(j, f)\<in>set (asked_entries (dp_chain (sample_dp sample_chain)) (ld8 (sample_body 0) 40)
      (flow_extract_match (ofp_match_at (sample_body 0) 0)) (ld16 (sample_body 0) 42)).
      table_resumable (stats_table (dp_chain (sample_dp sample_chain)) (snd (flow_stats_init (sample_body 0))) j) f"
    by (auto simp: b asked_entries_def asked_from_def first_table_def sample_ports sample_chain_def flow_stats_init_def split: if_splits)
  from flow_stats_complete [OF sample_dp_inv [OF sample_chain_inv] _ refl refl this, of "replicate 12 0" sample_env]
  show ?thesis by (auto simp: b sample_ports)
qed

theorem recv_stats_request_result_witness:
  "recv_stats_request \<lparr>sd_remote = 0, sd_xid = 7\<rparr> ([1, 16, 0, 12, 0, 0, 0, 7, 0, 9, 0, 0]) (sample_dp one_chain)
    = Done (- EINVAL, sample_dp one_chain)"
proof -
  have "ntohs (ld16 [1, 16, 0, 12, 0, 0, 0, 7, 0, 9, 0, 0] 8) = 9" by code_simp
  then have "\<not> stats_body_ok (ntohs (ld16 [1, 16, 0, 12, 0, 0, 0, 7, 0, 9, 0, 0] 8)) n" for n
    by (simp add: stats_body_ok_def)
  then show ?thesis
    using recv_stats_request_result [of "sample_dp one_chain" "\<lparr>sd_remote = 0, sd_xid = 7\<rparr>", OF _ refl, of "[1, 16, 0, 12, 0, 0, 0, 7, 0, 9, 0, 0]"]
    by (simp add: sample_ports sample_remote_def)
qed
end
