(* ===== verification/Private_Msg.thy ===== *)
theory Private_Msg
  imports Dp_Stats
begin

text \<open>
  The private extension of \<^verbatim>\<open>src/openflow/udatapath/private-msg.c\<close>: a message of the vendor makes the datapath replace its
  flow tables by copies of the emergency flows. \<open>al k\<close> is what the memory allocator does for the \<open>k\<close>-th copy.
\<close>

abbreviation PRIVATEOPT_PROTOCOL_STATS_REQUEST :: u16 where "PRIVATEOPT_PROTOCOL_STATS_REQUEST \<equiv> 1"
abbreviation PRIVATEOPT_PROTOCOL_STATS_REPLY :: u16 where "PRIVATEOPT_PROTOCOL_STATS_REPLY \<equiv> 2"
abbreviation PRIVATEOPT_EMERG_FLOW_PROTECTION :: u16 where "PRIVATEOPT_EMERG_FLOW_PROTECTION \<equiv> 3"
abbreviation PRIVATEOPT_EMERG_FLOW_RESTORATION :: u16 where "PRIVATEOPT_EMERG_FLOW_RESTORATION \<equiv> 4"

section \<open>Operations\<close>

text \<open>A key of zeros but for the wildcards.\<close>

definition all_key :: sw_flow_key where
  "all_key = \<lparr>k_flow = \<lparr>fl_nw_src = 0, fl_nw_dst = 0, fl_in_port = 0, fl_dl_vlan = 0,
      fl_dl_type = 0, fl_tp_src = 0, fl_tp_dst = 0, fl_dl_src = 0, fl_dl_dst = 0,
      fl_dl_vlan_pcp = 0, fl_nw_tos = 0, fl_nw_proto = 0, fl_pad = 0\<rparr>,
    k_wildcards = OFPFW_ALL, k_nw_src_mask = 0, k_nw_dst_mask = 0\<rparr>"

definition flush_working :: "dp_env \<Rightarrow> datapath \<Rightarrow> datapath run option" where
  "flush_working env dp =
     (case chain_delete (dp_chain dp) all_key OFPP_NONE 0 False False of
        None \<Rightarrow> Some Fault
      | Some (num_deleted, chain, ended) \<Rightarrow>
          each_run (\<lambda>f dp. Some (dp_send_flow_end env f OFPRR_DELETE dp)) ended (dp\<lparr>dp_chain := chain\<rparr>))"

text \<open>
  The state of the callback is the number of the copy and the chain; a fault stops the iteration with
  the code 1.
\<close>

definition protection_callback :: "(nat \<Rightarrow> dp_alloc) \<Rightarrow> u64 \<Rightarrow> (nat \<times> sw_chain) run callback" where
  "protection_callback al now flow s =
     (case s of
        Fault \<Rightarrow> (1, Fault)
      | Done (k, chain) \<Rightarrow>
          (case flow_alloc (al_flow (al k)) (al_sfa (al k)) (al_addr (al k)) (length (sf_acts flow)) of
             None \<Rightarrow> (- ENOBUFS, Done (k + 1, chain))
           | Some tgtflow \<Rightarrow>
               (let match = flow_fill_match zero_match (k_flow (sf_key flow)) (k_wildcards (sf_key flow));
                    tgtflow = tgtflow\<lparr>sf_key := flow_extract_match match, sf_priority := sf_priority flow,
                      sf_idle_timeout := OFP_FLOW_PERMANENT, sf_hard_timeout := OFP_FLOW_PERMANENT,
                      sf_send_flow_rem := sf_send_flow_rem flow, sf_emerg_flow := 0\<rparr>
                in case flow_setup_actions now tgtflow (sf_acts flow) of
                     None \<Rightarrow> (1, Fault)
                   | Some tgtflow \<Rightarrow>
                       (case chain_insert chain tgtflow False of
                          None \<Rightarrow> (1, Fault)
                        | Some (error, chain) \<Rightarrow> (error, Done (k + 1, chain))))))"

definition do_protection :: "dp_env \<Rightarrow> (nat \<Rightarrow> dp_alloc) \<Rightarrow> datapath \<Rightarrow> datapath run" where
  "do_protection env al dp =
     (case ch_emerg_table (dp_chain dp) of
        None \<Rightarrow> Fault
      | Some table \<Rightarrow>
          (case table_iterate table all_key OFPP_NONE start_position (protection_callback al (ev_msec env)) (Done (0, dp_chain dp)) of
             None \<Rightarrow> Fault
           | Some (error, _, Fault) \<Rightarrow> Fault
           | Some (error, _, Done (k, chain)) \<Rightarrow> Done (dp\<lparr>dp_chain := chain\<rparr>)))"

text \<open>The option type is read behind the vendor header, at 12.\<close>

definition private_recv_msg :: "dp_env \<Rightarrow> (nat \<Rightarrow> dp_alloc) \<Rightarrow> u8 list \<Rightarrow> datapath \<Rightarrow> (int \<times> datapath) run option" where
  "private_recv_msg env al msg dp =
     (if length msg < 14 then Some Fault
      else
        (let type = ntohs (ld16 msg 12)
         in if type = PRIVATEOPT_PROTOCOL_STATS_REQUEST \<or> type = PRIVATEOPT_PROTOCOL_STATS_REPLY then Some (Done (0, dp))
            else if type = PRIVATEOPT_EMERG_FLOW_PROTECTION then
              bind_run (flush_working env dp) (\<lambda>dp. Some (then_zero (do_protection env al dp)))
            else if type = PRIVATEOPT_EMERG_FLOW_RESTORATION then Some (Done (0, dp))
            else Some (Done (- EINVAL, dp))))"

section \<open>Flushing\<close>

lemma all_key_matches: "flow_matches_1wild k all_key" "flow_matches_2wild all_key k"
proof -
  have a: "k_wildcards all_key = OFPFW_ALL" "k_nw_src_mask all_key = 0" "k_nw_dst_mask all_key = 0" by (simp_all add: all_key_def)
  show "flow_matches_1wild k all_key" unfolding flow_matches_1wild_def flow_fields_match_def a by simp
  show "flow_matches_2wild all_key k" unfolding flow_matches_2wild_def flow_fields_match_def a by (simp add: wild_or_and)
qed

lemma all_key_ok: "key_ok all_key"
proof -
  have "make_nw_mask (drop_bit OFPFW_NW_SRC_SHIFT OFPFW_ALL) = 0" "make_nw_mask (drop_bit OFPFW_NW_DST_SHIFT OFPFW_ALL) = 0" by code_simp+
  then show ?thesis by (simp add: key_ok_def all_key_def)
qed

lemma none_port: "OFPP_NONE = htons OFPP_NONE" by code_simp

lemma all_key_selects: "selects all_key OFPP_NONE f"
  using all_key_matches(2) by (simp add: selects_def flow_has_out_port_def none_port [symmetric])

text \<open>What is left of the serial numbers of a linear table, and the room for entries.\<close>

fun table_serials :: "nat \<Rightarrow> sw_table \<Rightarrow> bool" where
  "table_serials n (Linear t) \<longleftrightarrow> unat (tl_next_serial t) + n < 2 ^ 64"
| "table_serials n (Hash2 t) \<longleftrightarrow> True"

fun table_room :: "nat \<Rightarrow> sw_table \<Rightarrow> bool" where
  "table_room n (Linear t) \<longleftrightarrow> length (tl_flows t) + n \<le> unat (tl_max_flows t)"
| "table_room n (Hash2 t) \<longleftrightarrow> False"

text \<open>A linear table that could hold that many entries if it were empty.\<close>

fun table_capacity :: "nat \<Rightarrow> sw_table \<Rightarrow> bool" where
  "table_capacity n (Linear t) \<longleftrightarrow> n \<le> unat (tl_max_flows t)"
| "table_capacity n (Hash2 t) \<longleftrightarrow> False"

lemma table_flush:
  assumes t: "table_inv t"
  shows "\<exists>c t' ended. table_delete t all_key OFPP_NONE 0 False = Some (c, t', ended) \<and> table_entries t' = []
    \<and> table_inv t' \<and> table_serials n t' = table_serials n t \<and> table_room n t' = table_capacity n t"
proof -
  obtain c t' ended where d: "table_delete t all_key OFPP_NONE 0 False = Some (c, t', ended)"
    using table.delete_total [OF t, of all_key OFPP_NONE 0 False] by auto
  have h: "flow_has_out_port f OFPP_NONE = Some True" for f by (simp add: flow_has_out_port_def none_port [symmetric])
  have "table_entries t' = [] \<and> table_serials n t' = table_serials n t \<and> table_room n t' = table_capacity n t"
  proof (cases t)
    case (Linear u)
    have "linear_deletes all_key OFPP_NONE 0 False f" for f
      using all_key_matches(1) h by (simp add: linear_deletes_def flow_matches_desc_def)
    then show ?thesis using Linear d t table_linear_delete_eq [of u all_key OFPP_NONE 0 False] by auto
  next
    case (Hash2 u)
    have sel: "hash_deletes all_key OFPP_NONE False f" for f
      using all_key_matches(1) h by (simp add: hash_deletes_def flow_matches_desc_def) (simp add: all_key_def)
    have "occupants (map (clear (hash_deletes all_key OFPP_NONE False)) bs) = []" for bs
      using sel by (induction bs rule: occupants.induct) (auto simp: clear_def)
    then show ?thesis using Hash2 d t table_hash_delete_eq [of _ all_key OFPP_NONE 0 False]
      by (auto simp: table_hash2_delete_def hash2_inv_def hash2_entries_def hash_entries_def split: option.splits)
  qed
  then show ?thesis using d table.delete_inv [OF t d] by blast
qed

lemma flush_tables:
  assumes "\<forall>t\<in>set ts. table_inv t"
  shows "\<exists>c ts' ended. delete_tables ts all_key OFPP_NONE 0 False = Some (c, ts', ended) \<and> length ts' = length ts
    \<and> (\<forall>t\<in>set ts'. table_inv t) \<and> tables_entries ts' = []
    \<and> list_all (table_serials n) ts' = list_all (table_serials n) ts
    \<and> list_ex (table_room n) ts' = list_ex (table_capacity n) ts"
  using assms
proof (induction ts)
  case (Cons t ts)
  then obtain c ts' ended where r: "delete_tables ts all_key OFPP_NONE 0 False = Some (c, ts', ended)" "length ts' = length ts"
    "\<forall>t\<in>set ts'. table_inv t" "tables_entries ts' = []" "list_all (table_serials n) ts' = list_all (table_serials n) ts"
    "list_ex (table_room n) ts' = list_ex (table_capacity n) ts" by auto
  from table_flush [of t n] Cons.prems obtain c1 t' e1 where
    "table_delete t all_key OFPP_NONE 0 False = Some (c1, t', e1)" "table_entries t' = []" "table_inv t'"
    "table_serials n t' = table_serials n t" "table_room n t' = table_capacity n t" by auto
  then show ?case using r by simp
qed simp

lemma flush_chain:
  assumes inv: "chain_inv chain"
  shows "\<exists>c chain' ended. chain_delete chain all_key OFPP_NONE 0 False False = Some (c, chain', ended)
    \<and> chain_inv chain' \<and> chain_entries chain' = [] \<and> ch_emerg_table chain' = ch_emerg_table chain
    \<and> list_all (table_serials n) (ch_tables chain') = list_all (table_serials n) (ch_tables chain)
    \<and> list_ex (table_room n) (ch_tables chain') = list_ex (table_capacity n) (ch_tables chain)"
proof -
  have "\<forall>t\<in>set (ch_tables chain). table_inv t" using inv by (simp add: chain_inv_def)
  from flush_tables [OF this, of n] show ?thesis using inv by (auto simp: chain_delete_def chain_inv_def)
qed

section \<open>Copying\<close>

text \<open>The entry \<open>g\<close> of the tables is a copy of the emergency entry \<open>f\<close>.\<close>

definition emerg_copy :: "u64 \<Rightarrow> sw_flow \<Rightarrow> sw_flow \<Rightarrow> bool" where
  "emerg_copy now f g \<longleftrightarrow> sf_key g = sf_key f \<and> sf_priority g = sf_priority f \<and> sf_acts g = sf_acts f
     \<and> sf_idle_timeout g = OFP_FLOW_PERMANENT \<and> sf_hard_timeout g = OFP_FLOW_PERMANENT
     \<and> sf_send_flow_rem g = sf_send_flow_rem f \<and> sf_emerg_flow g = 0
     \<and> sf_packet_count g = 0 \<and> sf_byte_count g = 0 \<and> sf_created g = now"

lemma table_insert_room:
  assumes t: "table_inv t" and i: "table_insert t f = (ok, t')"
  shows "table_serials (Suc n) t \<Longrightarrow> table_serials n t'" and "table_room (Suc n) t \<Longrightarrow> ok \<and> table_room n t'"
proof -
  have "(table_serials (Suc n) t \<longrightarrow> table_serials n t') \<and> (table_room (Suc n) t \<longrightarrow> ok \<and> table_room n t')"
  proof (cases t)
    case (Linear u)
    obtain u' where u': "t' = Linear u'" "table_linear_insert u f = (ok, u')"
      using i Linear by (cases "table_linear_insert u f") (simp add: table_insert.simps)
    have "unat (tl_n_flows u) = length (tl_flows u)" using t Linear linear_invD(6) by simp
    with u'(2) show ?thesis unfolding Linear u'(1)
      by (cases rule: linear_insert_cases) (auto simp: unat_word_ariths word_less_nat_alt word_le_nat_alt)
  next
    case (Hash2 u)
    then show ?thesis using i by (cases "table_hash2_insert u f") (auto simp: table_insert.simps)
  qed
  then show "table_serials (Suc n) t \<Longrightarrow> table_serials n t'" "table_room (Suc n) t \<Longrightarrow> ok \<and> table_room n t'" by blast+
qed

lemma room_mono: "table_room (Suc n) t \<Longrightarrow> table_room n t" "table_serials (Suc n) t \<Longrightarrow> table_serials n t"
  by (cases t; simp)+

lemma chain_copy:
  assumes inv: "chain_inv chain" and add: "\<forall>t\<in>set (ch_tables chain). table_addable t f"
    and ser: "list_all (table_serials (Suc n)) (ch_tables chain)"
  shows "\<exists>e chain' s old. chain_insert chain f False = Some (e, chain') \<and> chain_inv chain' \<and> ch_emerg_table chain' = ch_emerg_table chain
    \<and> (list_ex (table_room (Suc n)) (ch_tables chain) \<longrightarrow> e = 0 \<and> list_ex (table_room n) (ch_tables chain'))
    \<and> (e = 0 \<longrightarrow> list_all (table_serials n) (ch_tables chain')
      \<and> mset (chain_entries chain') + mset old = mset (chain_entries chain) + {#f\<lparr>sf_serial := s\<rparr>#}
      \<and> f\<lparr>sf_serial := s\<rparr> \<in> set (chain_entries chain')
      \<and> (\<forall>g\<in>set old. \<forall>p. packet_key p \<longrightarrow> entry_matches p g = entry_matches p f))"
proof -
  let ?ts = "ch_tables chain"
  obtain ok ts where i: "insert_tables ?ts f = (ok, ts)" by fastforce
  have a: "\<forall>t\<in>set ?ts. table_inv t \<and> table_addable t f" using inv add by (simp add: chain_inv_def)
  note c = insert_tables_correct [OF a i]
  show ?thesis
  proof (cases ok)
    case False
    have "\<not> table_room (Suc n) t" if t: "t \<in> set ?ts" for t
    proof -
      obtain b t' where "table_insert t f = (b, t')" by fastforce
      then show ?thesis using False c a t table_insert_room(2) [of t f b t' n] by auto
    qed
    then have "\<not> list_ex (table_room (Suc n)) ?ts" by (simp add: list_ex_iff)
    then show ?thesis using i False c inv by (simp add: chain_insert_def)
  next
    case True
    then obtain us t vs where s: "?ts = us @ t # vs" "ts = us @ snd (table_insert t f) # vs" "fst (table_insert t f)" using c by auto
    let ?t = "snd (table_insert t f)"
    have t: "table_inv t" "table_addable t f" using a s(1) by auto
    have it: "table_insert t f = (True, ?t)" using s(3) by (simp add: prod_eq_iff)
    obtain x old where mem: "f\<lparr>sf_serial := x\<rparr> \<in> set (table_entries ?t)"
      and old: "mset (table_entries ?t) + mset old = mset (table_entries t) + {#f\<lparr>sf_serial := x\<rparr>#}"
      "\<forall>g\<in>set old. \<forall>p. packet_key p \<longrightarrow> entry_matches p g = entry_matches p f"
      using table.add_entries [OF t s(3)] by blast
    let ?c = "chain\<lparr>ch_tables := ts\<rparr>"
    show ?thesis
    proof (intro exI conjI impI)
      show "chain_insert chain f False = Some (0, ?c)" using i True by (simp add: chain_insert_def)
      show "chain_inv ?c" using c inv by (simp add: chain_inv_def)
      show "list_all (table_serials n) (ch_tables ?c)"
        using ser s(1,2) table_insert_room(1) [OF t(1) it, of n] room_mono(2) by (auto simp: list_all_iff)
      show "list_ex (table_room n) (ch_tables ?c)" if "list_ex (table_room (Suc n)) ?ts"
        using that s(1,2) table_insert_room(2) [OF t(1) it, of n] room_mono(1) by (auto simp: list_ex_iff)
      show "mset (chain_entries ?c) + mset old = mset (chain_entries chain) + {#f\<lparr>sf_serial := x\<rparr>#}"
        using old(1) s(1,2) by (simp add: tables_entries_def ac_simps)
      show "f\<lparr>sf_serial := x\<rparr> \<in> set (chain_entries ?c)" using mem s(2) by (simp add: tables_entries_def)
      show "\<forall>g\<in>set old. \<forall>p. packet_key p \<longrightarrow> entry_matches p g = entry_matches p f" by (rule old(2))
    qed simp_all
  qed
qed

lemma protection_step:
  assumes "entry_ok f"
  shows "protection_callback al now f (Done (k, chain)) = (- ENOBUFS, Done (k + 1, chain)) \<and> \<not> (al_flow (al k) \<and> al_sfa (al k))
    \<or> (\<exists>g. (\<forall>m. sf_key f = flow_extract_match m \<longrightarrow> emerg_copy now f g) \<and> entry_ok g \<and> sf_addr g = al_addr (al k)
         \<and> protection_callback al now f (Done (k, chain)) = (case chain_insert chain g False of
              None \<Rightarrow> (1, Fault) | Some (error, chain) \<Rightarrow> (error, Done (k + 1, chain))))"
proof (cases "al_flow (al k) \<and> al_sfa (al k)")
  case False
  then have "flow_alloc (al_flow (al k)) (al_sfa (al k)) (al_addr (al k)) (length (sf_acts f)) = None" by (auto simp: flow_alloc_def)
  then show ?thesis using False by (simp add: protection_callback_def)
next
  case True
  then obtain a where a: "flow_alloc (al_flow (al k)) (al_sfa (al k)) (al_addr (al k)) (length (sf_acts f)) = Some a"
    "sf_addr a = al_addr (al k)" "length (sf_acts a) = length (sf_acts f)" by (simp add: flow_alloc_def)
  let ?K = "flow_extract_match (flow_fill_match zero_match (k_flow (sf_key f)) (k_wildcards (sf_key f)))"
  let ?g = "a\<lparr>sf_key := ?K, sf_priority := sf_priority f, sf_idle_timeout := OFP_FLOW_PERMANENT,
    sf_hard_timeout := OFP_FLOW_PERMANENT, sf_send_flow_rem := sf_send_flow_rem f, sf_emerg_flow := 0,
    sf_used := now, sf_created := now, sf_byte_count := 0, sf_packet_count := 0, sf_acts := sf_acts f\<rparr>"
  have "entry_ok ?g" using assms by (simp add: entry_ok_def)
  moreover have "emerg_copy now f ?g" if m: "sf_key f = flow_extract_match m" for m
    unfolding emerg_copy_def using extract_fill_flow [of zero_match m] by (simp add: m)
  ultimately show ?thesis using a
    by (intro disjI2 exI [of _ ?g]) (simp add: protection_callback_def Let_def flow_setup_actions_def)
qed

text \<open>The entries of the tables of a chain have addresses of the first \<open>k\<close> copies only.\<close>

definition copies_only :: "(nat \<Rightarrow> dp_alloc) \<Rightarrow> nat \<Rightarrow> sw_chain \<Rightarrow> bool" where
  "copies_only al k chain \<longleftrightarrow> (\<forall>g\<in>set (chain_entries chain). \<exists>j<k. sf_addr g = al_addr (al j))"

lemma copies_addable:
  assumes "copies_only al k chain" "inj (\<lambda>k. al_addr (al k))" "entry_ok g" "sf_addr g = al_addr (al k)"
    "list_all (table_serials (Suc n)) (ch_tables chain)"
  shows "\<forall>t\<in>set (ch_tables chain). table_addable t g"
proof
  fix t assume t: "t \<in> set (ch_tables chain)"
  have "table_serials (Suc n) t" using assms(5) t by (simp add: list_all_iff)
  moreover have "sf_addr g \<notin> sf_addr ` set (table_entries t)"
  proof
    assume "sf_addr g \<in> sf_addr ` set (table_entries t)"
    then obtain h where h: "h \<in> set (table_entries t)" "sf_addr h = al_addr (al k)" using assms(4) by auto
    then have "h \<in> set (chain_entries chain)" using t by (auto simp: tables_entries_def)
    then obtain j where "j < k" "al_addr (al j) = al_addr (al k)" using assms(1) h(2) by (auto simp: copies_only_def)
    then show False using assms(2) by (auto dest: injD)
  qed
  moreover have "unat (- 1 :: u64) = 18446744073709551615" by (simp add: unsigned_minus_1_eq_mask mask_eq_exp_minus_1)
  ultimately show "table_addable t g" using assms(3)
    by (cases t) (auto simp: linear_addable_def hash2_addable_def)
qed

lemma copies_insert:
  assumes "copies_only al k chain" "mset (chain_entries chain') + mset old = mset (chain_entries chain) + {#g\<lparr>sf_serial := s\<rparr>#}"
    "sf_addr g = al_addr (al k)"
  shows "copies_only al (k + 1) chain'"
proof -
  have "set_mset (mset (chain_entries chain')) \<subseteq> set_mset (mset (chain_entries chain) + {#g\<lparr>sf_serial := s\<rparr>#})"
    unfolding assms(2) [symmetric] by simp
  then have "h \<in> set (chain_entries chain) \<or> h = g\<lparr>sf_serial := s\<rparr>" if "h \<in> set (chain_entries chain')" for h
    using that by auto
  note mem = this
  show ?thesis unfolding copies_only_def
  proof
    fix h assume "h \<in> set (chain_entries chain')"
    from mem [OF this] show "\<exists>j<k + 1. sf_addr h = al_addr (al j)"
    proof
      assume "h \<in> set (chain_entries chain)"
      then obtain j where "j < k" "sf_addr h = al_addr (al j)" using assms(1) by (auto simp: copies_only_def)
      then show ?thesis by (intro exI [of _ j]) simp
    next
      assume "h = g\<lparr>sf_serial := s\<rparr>"
      then show ?thesis using assms(3) by (intro exI [of _ k]) simp
    qed
  qed
qed

text \<open>What the copies of the entries \<open>us\<close> make of the tables.\<close>

definition copied :: "u64 \<Rightarrow> sw_flow set \<Rightarrow> sw_chain \<Rightarrow> bool" where
  "copied now us chain \<longleftrightarrow> (\<forall>g\<in>set (chain_entries chain). \<exists>f\<in>us. emerg_copy now f g)
     \<and> (\<forall>p. packet_key p \<longrightarrow> (\<exists>g\<in>set (chain_entries chain). entry_matches p g) = (\<exists>f\<in>us. entry_matches p f))"

lemma copied_insert:
  assumes c: "copied now us chain" and g: "emerg_copy now f g"
    and m: "mset (chain_entries chain') + mset old = mset (chain_entries chain) + {#g\<lparr>sf_serial := s\<rparr>#}"
    and mem: "g\<lparr>sf_serial := s\<rparr> \<in> set (chain_entries chain')"
    and old: "\<forall>h\<in>set old. \<forall>p. packet_key p \<longrightarrow> entry_matches p h = entry_matches p g"
  shows "copied now (insert f us) chain'"
proof -
  have key: "sf_key g = sf_key f" and gs: "emerg_copy now f (g\<lparr>sf_serial := s\<rparr>)" using g by (simp_all add: emerg_copy_def)
  have "set_mset (mset (chain_entries chain') + mset old) = set_mset (mset (chain_entries chain) + {#g\<lparr>sf_serial := s\<rparr>#})"
    by (simp only: m)
  then have un: "set (chain_entries chain') \<union> set old = insert (g\<lparr>sf_serial := s\<rparr>) (set (chain_entries chain))" by simp
  have "\<exists>f'\<in>insert f us. emerg_copy now f' h" if "h \<in> set (chain_entries chain')" for h
  proof (cases "h = g\<lparr>sf_serial := s\<rparr>")
    case False
    then have "h \<in> set (chain_entries chain)" using that un by blast
    then show ?thesis using c by (auto simp: copied_def)
  qed (use gs in simp)
  moreover have "(\<exists>h\<in>set (chain_entries chain'). entry_matches p h) = (\<exists>f'\<in>insert f us. entry_matches p f')"
    if p: "packet_key p" for p
  proof -
    have "(\<exists>h\<in>set (chain_entries chain'). entry_matches p h)
        = (\<exists>h\<in>insert (g\<lparr>sf_serial := s\<rparr>) (set (chain_entries chain)). entry_matches p h)"
    proof
      assume "\<exists>h\<in>insert (g\<lparr>sf_serial := s\<rparr>) (set (chain_entries chain)). entry_matches p h"
      then obtain h where h: "h \<in> set (chain_entries chain') \<union> set old" "entry_matches p h" using un by blast
      show "\<exists>h\<in>set (chain_entries chain'). entry_matches p h"
      proof (cases "h \<in> set old")
        case True
        then have "entry_matches p (g\<lparr>sf_serial := s\<rparr>)" using old h(2) p by simp
        then show ?thesis using mem by blast
      qed (use h in blast)
    qed (use un in blast)
    also have "\<dots> = (entry_matches p f \<or> (\<exists>h\<in>set (chain_entries chain). entry_matches p h))" using key by simp
    finally show ?thesis using c p by (simp add: copied_def)
  qed
  ultimately show ?thesis by (simp add: copied_def)
qed

lemma protection_run:
  assumes al: "\<And>k. al_flow (al k) \<and> al_sfa (al k)" "inj (\<lambda>k. al_addr (al k))"
    and fs: "\<forall>f\<in>set fs. entry_ok f \<and> sf_key f \<in> range flow_extract_match"
    and chain: "chain_inv chain" "copies_only al k chain" "copied now us chain"
    and room: "list_all (table_serials (length fs)) (ch_tables chain)" "list_ex (table_room (length fs)) (ch_tables chain)"
  shows "\<exists>k' chain'. run_callback (protection_callback al now) fs (Done (k, chain)) = (0, None, Done (k', chain'))
    \<and> chain_inv chain' \<and> ch_emerg_table chain' = ch_emerg_table chain \<and> copied now (us \<union> set fs) chain'"
  using fs chain room
proof (induction fs arbitrary: k us chain)
  case (Cons f fs)
  obtain m where m: "sf_key f = flow_extract_match m" "entry_ok f" using Cons.prems(1) by auto
  obtain g where g: "emerg_copy now f g" "entry_ok g" "sf_addr g = al_addr (al k)"
    "protection_callback al now f (Done (k, chain)) = (case chain_insert chain g False of
       None \<Rightarrow> (1, Fault) | Some (error, chain) \<Rightarrow> (error, Done (k + 1, chain)))"
    using protection_step [OF m(2), of al now k chain] al(1) m(1) by blast
  have add: "\<forall>t\<in>set (ch_tables chain). table_addable t g"
    using copies_addable [OF Cons.prems(3) al(2) g(2,3), of "length fs"] Cons.prems(5) by simp
  obtain chain1 s old where c: "chain_insert chain g False = Some (0, chain1)" "chain_inv chain1"
    "ch_emerg_table chain1 = ch_emerg_table chain" "list_all (table_serials (length fs)) (ch_tables chain1)"
    "list_ex (table_room (length fs)) (ch_tables chain1)"
    "mset (chain_entries chain1) + mset old = mset (chain_entries chain) + {#g\<lparr>sf_serial := s\<rparr>#}"
    "g\<lparr>sf_serial := s\<rparr> \<in> set (chain_entries chain1)"
    "\<forall>h\<in>set old. \<forall>p. packet_key p \<longrightarrow> entry_matches p h = entry_matches p g"
    using chain_copy [OF Cons.prems(2) add, of "length fs"] Cons.prems(5,6) by auto
  have "copied now (insert f us) chain1" "copies_only al (k + 1) chain1"
    using copied_insert [OF Cons.prems(4) g(1) c(6,7,8)] copies_insert [OF Cons.prems(3) c(6) g(3)] by blast+
  with Cons.IH [of chain1 "k + 1" "insert f us"] Cons.prems(1) c obtain k' chain' where
    r: "run_callback (protection_callback al now) fs (Done (k + 1, chain1)) = (0, None, Done (k', chain'))"
    "chain_inv chain'" "ch_emerg_table chain' = ch_emerg_table chain1" "copied now (insert f us \<union> set fs) chain'" by auto
  then show ?case using g(4) c(1,3) by (intro exI [of _ k'] exI [of _ chain']) simp
qed simp

text \<open>Whatever the allocator does, the callback keeps the chain well formed.\<close>

lemma protection_run_keeps:
  assumes al: "inj (\<lambda>k. al_addr (al k))" and fs: "\<forall>f\<in>set fs. entry_ok f"
    and chain: "chain_inv chain" "copies_only al k chain" "list_all (table_serials (length fs)) (ch_tables chain)"
  shows "\<exists>e st k' chain'. run_callback (protection_callback al now) fs (Done (k, chain)) = (e, st, Done (k', chain'))
    \<and> chain_inv chain'"
  using fs chain
proof (induction fs arbitrary: k chain)
  case (Cons f fs)
  have f: "entry_ok f" using Cons.prems(1) by simp
  from protection_step [OF f, of al now k chain] show ?case
  proof (elim disjE exE conjE)
    assume "protection_callback al now f (Done (k, chain)) = (- ENOBUFS, Done (k + 1, chain))"
    then show ?thesis using Cons.prems(2) by simp
  next
    fix g assume g: "entry_ok g" "sf_addr g = al_addr (al k)" "protection_callback al now f (Done (k, chain))
      = (case chain_insert chain g False of None \<Rightarrow> (1, Fault) | Some (error, chain) \<Rightarrow> (error, Done (k + 1, chain)))"
    have add: "\<forall>t\<in>set (ch_tables chain). table_addable t g"
      using copies_addable [OF Cons.prems(3) al g(1,2), of "length fs"] Cons.prems(4) by simp
    have ser: "list_all (table_serials (Suc (length fs))) (ch_tables chain)" using Cons.prems(4) by simp
    from chain_copy [OF Cons.prems(2) add ser] obtain e chain1 s old where
      c: "chain_insert chain g False = Some (e, chain1)" "chain_inv chain1"
      "e = 0 \<longrightarrow> list_all (table_serials (length fs)) (ch_tables chain1)
        \<and> mset (chain_entries chain1) + mset old = mset (chain_entries chain) + {#g\<lparr>sf_serial := s\<rparr>#}" by blast
    show ?thesis
    proof (cases "e = 0")
      case True
      then have "copies_only al (k + 1) chain1" using copies_insert [OF Cons.prems(3) _ g(2)] c(3) by blast
      then show ?thesis using Cons.IH [of chain1 "k + 1"] True c g(3) Cons.prems(1) by simp
    qed (use c g(3) in simp)
  qed
qed simp

lemma send_flow_ends:
  assumes "dp_inv dp"
  shows "\<exists>dp'. each_run (\<lambda>f dp. Some (dp_send_flow_end env f OFPRR_DELETE dp)) fs dp = Some (Done dp') \<and> dp_inv dp'
    \<and> dp_chain dp' = dp_chain dp"
  using assms
proof (induction fs arbitrary: dp)
  case (Cons f fs)
  have l: "8 \<le> length (flow_removed_msg (ev_msec env) f OFPRR_DELETE)" by (simp add: flow_removed_msg_def ofp_header_bytes_def)
  then obtain dp2 where "send_msg env (Some (flow_removed_msg (ev_msec env) f OFPRR_DELETE)) None dp = Done dp2"
    by (simp add: send_msg_def send_openflow_buffer_def update_openflow_length_def)
  then have "\<exists>dp1. dp_send_flow_end env f OFPRR_DELETE dp = Done dp1" by (simp add: dp_send_flow_end_def)
  then obtain dp1 where s: "dp_send_flow_end env f OFPRR_DELETE dp = Done dp1" by blast
  have "dp_inv dp1" "dp_chain dp1 = dp_chain dp"
    using s Cons.prems send_msg_inv by (auto simp: dp_send_flow_end_def split: if_splits)
  with Cons.IH [of dp1] s show ?case by simp
qed simp

lemma private_recv_msg_safe:
  assumes inv: "dp_inv dp" and al: "inj (\<lambda>k. al_addr (al k))"
    and ser: "\<And>t. ch_emerg_table (dp_chain dp) = Some t
      \<Longrightarrow> list_all (table_serials (length (table_entries t))) (ch_tables (dp_chain dp))"
  shows "safe_result (private_recv_msg env al msg dp)"
proof -
  have ci: "chain_inv (dp_chain dp)" using inv by (simp add: dp_inv_def)
  then obtain t where t: "ch_emerg_table (dp_chain dp) = Some t" "table_inv t" by (auto simp: chain_inv_def)
  let ?n = "length (table_entries t)"
  obtain c chain ended where d: "chain_delete (dp_chain dp) all_key OFPP_NONE 0 False False = Some (c, chain, ended)"
    "chain_inv chain" "chain_entries chain = []" "ch_emerg_table chain = Some t" "list_all (table_serials ?n) (ch_tables chain)"
    using flush_chain [OF ci, of ?n] ser [OF t(1)] t(1) by auto
  have "dp_inv (dp\<lparr>dp_chain := chain\<rparr>)" using inv d(2) by (simp add: dp_inv_def)
  from send_flow_ends [OF this] obtain dp1 where
    f: "flush_working env dp = Some (Done dp1)" "dp_inv dp1" "dp_chain dp1 = chain" by (auto simp: flush_working_def d(1))
  let ?fs = "table_todo t all_key OFPP_NONE start_position"
  have todo: "mset ?fs = mset (table_entries t)"
    using table_iter.todo_start [OF t(2) all_key_ok, of OFPP_NONE] all_key_selects by simp
  have "\<forall>f\<in>set ?fs. entry_ok f" using table.entries_ok [OF t(2)] mset_eq_setD [OF todo] by blast
  moreover have "copies_only al 0 chain" using d(3) by (simp add: copies_only_def)
  ultimately obtain e st k chain' where
    r: "run_callback (protection_callback al (ev_msec env)) ?fs (Done (0, chain)) = (e, st, Done (k, chain'))" "chain_inv chain'"
    using protection_run_keeps [OF al, of ?fs chain 0 "ev_msec env"] d(2,5) mset_eq_length [OF todo] by auto
  obtain p' where "table_iterate t all_key OFPP_NONE start_position (protection_callback al (ev_msec env)) (Done (0, chain))
      = Some (e, p', Done (k, chain'))" using table_iter.iterate_todo [OF t(2) r(1)] by blast
  then have "do_protection env al dp1 = Done (dp1\<lparr>dp_chain := chain'\<rparr>)" using f(3) d(4) by (simp add: do_protection_def)
  moreover have "dp_inv (dp1\<lparr>dp_chain := chain'\<rparr>)" using f(2) r(2) by (simp add: dp_inv_def)
  ultimately show ?thesis using inv f(1) by (simp add: private_recv_msg_def then_zero_def Let_def)
qed

section \<open>Properties\<close>

text \<open>
  C16. The protection message replaces the flow tables by copies of the emergency flows: every entry is then a copy of one of them,
  with the same key, priority and actions but without timeouts, and a packet has a matching entry exactly if an
  emergency flow matches it. This holds if memory is available, and if a linear table can hold the emergency flows.
\<close>

theorem protection_installs_emergency_flows:
  assumes inv: "dp_inv dp" and t: "ch_emerg_table (dp_chain dp) = Some t"
    and keys: "\<forall>f\<in>set (table_entries t). sf_key f \<in> range flow_extract_match"
    and al: "\<And>k. al_flow (al k) \<and> al_sfa (al k)" "inj (\<lambda>k. al_addr (al k))"
    and room: "list_all (table_serials (length (table_entries t))) (ch_tables (dp_chain dp))"
      "list_ex (table_capacity (length (table_entries t))) (ch_tables (dp_chain dp))"
    and msg: "14 \<le> length msg" "ntohs (ld16 msg 12) = PRIVATEOPT_EMERG_FLOW_PROTECTION"
  shows "\<exists>dp'. private_recv_msg env al msg dp = Some (Done (0, dp')) \<and> dp_inv dp'
    \<and> ch_emerg_table (dp_chain dp') = Some t
    \<and> (\<forall>g\<in>set (chain_entries (dp_chain dp')). \<exists>f\<in>set (table_entries t). emerg_copy (ev_msec env) f g)
    \<and> (\<forall>p. packet_key p \<longrightarrow> (\<exists>g\<in>set (chain_entries (dp_chain dp')). entry_matches p g)
         = (\<exists>f\<in>set (table_entries t). entry_matches p f))"
proof -
  let ?n = "length (table_entries t)"
  have ci: "chain_inv (dp_chain dp)" using inv by (simp add: dp_inv_def)
  then have ti: "table_inv t" using t by (auto simp: chain_inv_def)
  obtain c chain ended where d: "chain_delete (dp_chain dp) all_key OFPP_NONE 0 False False = Some (c, chain, ended)"
    "chain_inv chain" "chain_entries chain = []" "ch_emerg_table chain = Some t"
    "list_all (table_serials ?n) (ch_tables chain)" "list_ex (table_room ?n) (ch_tables chain)"
    using flush_chain [OF ci, of ?n] room t by auto
  have "dp_inv (dp\<lparr>dp_chain := chain\<rparr>)" using inv d(2) by (simp add: dp_inv_def)
  from send_flow_ends [OF this] obtain dp1 where
    f: "flush_working env dp = Some (Done dp1)" "dp_inv dp1" "dp_chain dp1 = chain" by (auto simp: flush_working_def d(1))
  let ?fs = "table_todo t all_key OFPP_NONE start_position"
  have todo: "mset ?fs = mset (table_entries t)"
    using table_iter.todo_start [OF ti all_key_ok, of OFPP_NONE] all_key_selects by simp
  then have s: "set ?fs = set (table_entries t)" "length ?fs = ?n" by (auto dest: mset_eq_setD mset_eq_length)
  have "\<forall>f\<in>set ?fs. entry_ok f \<and> sf_key f \<in> range flow_extract_match"
    using keys table.entries_ok [OF ti] s(1) by blast
  moreover have "copies_only al 0 chain" "copied (ev_msec env) {} chain" using d(3) by (simp_all add: copies_only_def copied_def)
  ultimately obtain k chain' where r: "run_callback (protection_callback al (ev_msec env)) ?fs (Done (0, chain)) = (0, None, Done (k, chain'))"
    "chain_inv chain'" "ch_emerg_table chain' = Some t" "copied (ev_msec env) (set (table_entries t)) chain'"
    using protection_run [OF al, of ?fs chain 0 "ev_msec env" "{}"] d s by auto
  obtain p' where "table_iterate t all_key OFPP_NONE start_position (protection_callback al (ev_msec env)) (Done (0, chain))
      = Some (0, p', Done (k, chain'))" using table_iter.iterate_todo [OF ti r(1)] by blast
  then have "do_protection env al dp1 = Done (dp1\<lparr>dp_chain := chain'\<rparr>)" using f(3) d(4) by (simp add: do_protection_def)
  moreover have "dp_inv (dp1\<lparr>dp_chain := chain'\<rparr>)" using f(2) r(2) by (simp add: dp_inv_def)
  ultimately show ?thesis using msg f(1) r(3,4)
    by (intro exI [of _ "dp1\<lparr>dp_chain := chain'\<rparr>"]) (simp add: private_recv_msg_def then_zero_def copied_def)
qed

section \<open>Witness\<close>

definition sample_copies :: "nat \<Rightarrow> dp_alloc" where
  "sample_copies k = \<lparr>al_flow = True, al_sfa = True, al_addr = 100 + k, al_replace = (\<lambda>_. True)\<rparr>"

theorem protection_installs_emergency_flows_witness:
  "\<exists>dp'. private_recv_msg sample_env sample_copies [1, 4, 0, 16, 0, 0, 0, 7, 0, 0xac, 0xde, 0x48, 0, 3, 0, 0] (sample_dp one_chain)
      = Some (Done (0, dp'))
    \<and> (\<forall>g\<in>set (chain_entries (dp_chain dp')). emerg_copy 5000 sample_entry g)"
proof -
  let ?m = "[1, 4, 0, 16, 0, 0, 0, 7, 0, 0xac, 0xde, 0x48, 0, 3, 0, 0] :: u8 list"
  have t: "ch_emerg_table (dp_chain (sample_dp one_chain)) = Some (Linear sample_table)" by (simp add: sample_ports one_chain_def)
  have e: "table_entries (Linear sample_table) = [sample_entry]" by (simp add: sample_table_eq)
  have "sf_key sample_entry = flow_extract_match sample_match" by (simp add: sample_entry_def)
  then have k: "\<forall>f\<in>set (table_entries (Linear sample_table)). sf_key f \<in> range flow_extract_match" unfolding e by simp
  have al: "al_flow (sample_copies k) \<and> al_sfa (sample_copies k)" for k by (simp add: sample_copies_def)
  have inj: "inj (\<lambda>k. al_addr (sample_copies k))" by (simp add: inj_def sample_copies_def)
  have room: "list_all (table_serials (length (table_entries (Linear sample_table)))) (ch_tables (dp_chain (sample_dp one_chain)))"
    "list_ex (table_capacity (length (table_entries (Linear sample_table)))) (ch_tables (dp_chain (sample_dp one_chain)))"
    unfolding e by (simp_all add: sample_ports one_chain_def sample_table_eq)
  have m: "14 \<le> length ?m" "ntohs (ld16 ?m 12) = PRIVATEOPT_EMERG_FLOW_PROTECTION" by (simp, code_simp)
  from protection_installs_emergency_flows [OF sample_dp_inv [OF one_chain_inv] t k al inj room m, of sample_env]
  show ?thesis unfolding e by (auto simp: sample_env_def)
qed
end
