(* ===== verification/Dp_Control.thy ===== *)
theory Dp_Control
  imports Private_Msg
begin

text \<open>
  The control path of \<^verbatim>\<open>src/openflow/udatapath/datapath.c\<close>: the dispatch of the messages from controllers (\<^verbatim>\<open>recv_vendor\<close>,
  \<^verbatim>\<open>fwd_control_input\<close>) and the loop of \<^verbatim>\<open>remote_run\<close>, which takes messages from a connection and sends the
  replies to requests for statistics. What comes from outside is in \<open>control_env\<close>; the messages that the connection delivers
  are a list.
\<close>

section \<open>Constants and parameters\<close>

abbreviation OFP_VERSION :: u8 where "OFP_VERSION \<equiv> 1"
abbreviation OFPT_VENDOR :: u8 where "OFPT_VENDOR \<equiv> 4"
abbreviation OFPT_FEATURES_REQUEST :: u8 where "OFPT_FEATURES_REQUEST \<equiv> 5"
abbreviation OFPT_GET_CONFIG_REQUEST :: u8 where "OFPT_GET_CONFIG_REQUEST \<equiv> 7"
abbreviation OFPT_SET_CONFIG :: u8 where "OFPT_SET_CONFIG \<equiv> 9"
abbreviation OFPT_PACKET_OUT :: u8 where "OFPT_PACKET_OUT \<equiv> 13"
abbreviation OFPT_FLOW_MOD :: u8 where "OFPT_FLOW_MOD \<equiv> 14"
abbreviation OFPT_PORT_MOD :: u8 where "OFPT_PORT_MOD \<equiv> 15"
abbreviation OFPT_STATS_REQUEST :: u8 where "OFPT_STATS_REQUEST \<equiv> 16"
abbreviation OFPT_BARRIER_REQUEST :: u8 where "OFPT_BARRIER_REQUEST \<equiv> 18"
abbreviation OFPT_QUEUE_GET_CONFIG_REQUEST :: u8 where "OFPT_QUEUE_GET_CONFIG_REQUEST \<equiv> 20"
abbreviation OFPBRC_BAD_TYPE :: u16 where "OFPBRC_BAD_TYPE \<equiv> 1"
abbreviation OFPBRC_BAD_VENDOR :: u16 where "OFPBRC_BAD_VENDOR \<equiv> 3"
abbreviation PRIVATE_VENDOR_ID :: u32 where "PRIVATE_VENDOR_ID \<equiv> 0x00acde48"
abbreviation OPENFLOW_VENDOR_ID :: u32 where "OPENFLOW_VENDOR_ID \<equiv> 0x26e1"
abbreviation EFAULT :: int where "EFAULT \<equiv> 14"

text \<open>
  \<open>ce_depth\<close> is the depth of recursion for outputs, \<open>ce_alloc\<close> the allocator for an added flow and \<open>ce_copies\<close> for copies
  of emergency flows, \<open>ce_class\<close> what the network devices make of queues, \<open>ce_handle\<close> the agent.
\<close>

record 'd control_env =
  ce_env :: dp_env
  ce_desc :: switch_desc
  ce_depth :: nat
  ce_alloc :: dp_alloc
  ce_copies :: "nat \<Rightarrow> dp_alloc"
  ce_class :: "nat \<Rightarrow> u16 \<Rightarrow> u16 \<Rightarrow> bool"
  ce_handle :: "ofp_flow_mod \<Rightarrow> agent \<Rightarrow> 'd \<Rightarrow> (agent \<times> 'd) run option"

section \<open>Operations\<close>

definition recv_vendor :: "'d control_env \<Rightarrow> sender \<Rightarrow> u8 list \<Rightarrow> datapath \<Rightarrow> handled option" where
  "recv_vendor ce sender msg dp =
     (let vendor = ntohl (ld32 msg 8)
      in if vendor = PRIVATE_VENDOR_ID then private_recv_msg (ce_env ce) (ce_copies ce) msg dp
         else if vendor = OPENFLOW_VENDOR_ID then Some (of_ext_recv_msg (ce_env ce) (ce_class ce) sender msg dp)
         else bind_run (Some (dp_send_error_msg (ce_env ce) (Some sender) OFPET_BAD_REQUEST OFPBRC_BAD_VENDOR
                               (take (msg_length msg) msg) dp))
                (\<lambda>dp. Some (Done (- EINVAL, dp))))"

text \<open>A handler other than \<^verbatim>\<open>recv_flow\<close>: the smallest size of the structure, and the function.\<close>

definition control_handler :: "'d control_env \<Rightarrow> u8 \<Rightarrow> (nat \<times> (sender \<Rightarrow> u8 list \<Rightarrow> datapath \<Rightarrow> handled option)) option" where
  "control_handler ce type =
     (let env = ce_env ce
      in if type = OFPT_BARRIER_REQUEST then Some (8, \<lambda>sender msg dp. Some (recv_barrier_request env sender msg dp))
         else if type = OFPT_FEATURES_REQUEST then Some (8, \<lambda>sender msg dp. Some (recv_features_request env sender dp))
         else if type = OFPT_GET_CONFIG_REQUEST then Some (8, \<lambda>sender msg dp. Some (recv_get_config_request env sender dp))
         else if type = OFPT_SET_CONFIG then Some (12, \<lambda>sender msg dp. Some (recv_set_config msg dp))
         else if type = OFPT_PACKET_OUT then Some (16, \<lambda>sender msg dp. Some (recv_packet_out dp))
         else if type = OFPT_PORT_MOD then Some (32, \<lambda>sender msg dp. Some (recv_port_mod msg dp))
         else if type = OFPT_STATS_REQUEST then Some (12, \<lambda>sender msg dp. Some (recv_stats_request sender msg dp))
         else if type = OFPT_ECHO_REQUEST then Some (8, \<lambda>sender msg dp. Some (recv_echo_request env sender msg dp))
         else if type = OFPT_ECHO_REPLY then Some (8, \<lambda>sender msg dp. Some (recv_echo_reply dp))
         else if type = OFPT_QUEUE_GET_CONFIG_REQUEST then Some (8, \<lambda>sender msg dp. Some (recv_queue_get_config_request env sender msg dp))
         else if type = OFPT_VENDOR then Some (12, recv_vendor ce)
         else None)"

text \<open>\<open>Fault\<close> is also the failure of the assertion on the version.\<close>

definition fwd_control_input :: "'d control_env \<Rightarrow> sender \<Rightarrow> u8 list \<Rightarrow> agent \<times> 'd \<Rightarrow> datapath
    \<Rightarrow> (int \<times> (agent \<times> 'd) \<times> datapath) run option" where
  "fwd_control_input ce sender msg ad dp =
     (let oh = ofp_header_of msg;
          lift = (\<lambda>r. bind_run r (\<lambda>(error, dp). Some (Done (error, ad, dp))))
      in if unat (ntohs (oh_length oh)) > length msg then Some (Done (- EINVAL, ad, dp))
         else if oh_version oh \<noteq> OFP_VERSION then Some Fault
         else if oh_type oh = OFPT_FLOW_MOD then
           (if length msg < 72 then Some (Done (- EFAULT, ad, dp))
            else recv_flow (ce_depth ce) (ce_env ce) (ce_alloc ce) (ce_handle ce) sender msg ad dp)
         else
           (case control_handler ce (oh_type oh) of
              None \<Rightarrow>
                bind_run (Some (dp_send_error_msg (ce_env ce) (Some sender) OFPET_BAD_REQUEST OFPBRC_BAD_TYPE msg dp))
                  (\<lambda>dp. Some (Done (- EINVAL, ad, dp)))
            | Some (min_size, handler) \<Rightarrow>
                (if length msg < min_size then Some (Done (- EFAULT, ad, dp)) else lift (handler sender msg dp))))"

section \<open>Connections\<close>

definition remote_create :: "bool \<Rightarrow> datapath \<Rightarrow> datapath" where
  "remote_create connected dp =
     dp\<lparr>dp_remotes := dp_remotes dp @ [\<lparr>rm_connected = connected, rm_n_txq = 0, rm_txq = [], rm_cb_dump = None\<rparr>]\<rparr>"

definition remote_destroy :: "nat \<Rightarrow> datapath \<Rightarrow> datapath" where
  "remote_destroy i dp = dp\<lparr>dp_remotes := take i (dp_remotes dp) @ drop (Suc i) (dp_remotes dp)\<rparr>"

definition set_cb_dump :: "nat \<Rightarrow> stats_dump_cb option \<Rightarrow> datapath \<Rightarrow> datapath" where
  "set_cb_dump i cb dp = dp\<lparr>dp_remotes := (dp_remotes dp)[i := (dp_remotes dp ! i)\<lparr>rm_cb_dump := cb\<rparr>]\<rparr>"

text \<open>
  The loop of \<^verbatim>\<open>remote_run\<close> with \<open>n\<close> rounds left; the messages not taken remain. The code has 50 rounds and then looks
  whether the connection is alive.
\<close>

primrec remote_loop :: "nat \<Rightarrow> 'd control_env \<Rightarrow> nat \<Rightarrow> u8 list list \<Rightarrow> agent \<times> 'd \<Rightarrow> datapath
    \<Rightarrow> (u8 list list \<times> (agent \<times> 'd) \<times> datapath) run option" where
  "remote_loop 0 ce r msgs ad dp = Some (Done (msgs, ad, dp))"
| "remote_loop (Suc n) ce r msgs ad dp =
     (case rm_cb_dump (dp_remotes dp ! r) of
        None \<Rightarrow>
          (case msgs of
             [] \<Rightarrow> Some (Done (msgs, ad, dp))
           | buffer # msgs \<Rightarrow>
               (if length buffer \<ge> 8 then
                  bind_run (fwd_control_input ce \<lparr>sd_remote = r, sd_xid = oh_xid (ofp_header_of buffer)\<rparr> buffer ad dp)
                    (\<lambda>(error, ad, dp). remote_loop n ce r msgs ad dp)
                else remote_loop n ce r msgs ad dp))
      | Some cb \<Rightarrow>
          (if rm_n_txq (dp_remotes dp ! r) < TXQ_LIMIT then
             bind_run (Some (stats_dump (ce_env ce) (ce_desc ce) r cb dp))
               (\<lambda>(error, cb, dp). remote_loop n ce r msgs ad (set_cb_dump r (if error \<le> 0 then None else Some cb) dp))
           else Some (Done (msgs, ad, dp))))"

definition remote_run :: "'d control_env \<Rightarrow> nat \<Rightarrow> bool \<Rightarrow> u8 list list \<Rightarrow> agent \<times> 'd \<Rightarrow> datapath
    \<Rightarrow> (u8 list list \<times> (agent \<times> 'd) \<times> datapath) run option" where
  "remote_run ce r alive msgs ad dp =
     bind_run (remote_loop 50 ce r msgs ad dp)
       (\<lambda>(msgs, ad, dp). Some (Done (msgs, ad, if alive then dp else remote_destroy r dp)))"

section \<open>Messages that are sent\<close>

text \<open>A message has a header, and its length field is its length, as far as 16 bits can say.\<close>

definition wf_message :: "u8 list \<Rightarrow> bool" where
  "wf_message m \<longleftrightarrow> 8 \<le> length m \<and> msg_length m = length m mod 65536"

definition txq_wf :: "datapath \<Rightarrow> bool" where
  "txq_wf dp \<longleftrightarrow> (\<forall>r\<in>set (dp_remotes dp). \<forall>m\<in>set (rm_txq r). wf_message m)"

lemma update_length_wf: "update_openflow_length b = Some m \<Longrightarrow> wf_message m"
  by (auto simp: update_openflow_length_def wf_message_def msg_length_def mem_simps unat_of_nat split: if_splits)

lemma send_to_remote_wf:
  assumes "txq_wf dp" "wf_message m" shows "txq_wf (snd (send_openflow_buffer_to_remote env m i dp))"
proof (cases "i < length (dp_remotes dp)")
  case True
  have "wf_message x" if "x \<in> set (rm_txq (snd (rconn_send_with_limit env m (dp_remotes dp ! i))))" for x
    using that assms True by (auto simp: rconn_send_txq txq_wf_def split: if_splits)
  then show ?thesis using assms(1)
    by (auto simp: txq_wf_def send_openflow_buffer_to_remote_def case_prod_beta dest!: subsetD [OF set_update_subset_insert])
qed (use assms in \<open>simp add: send_openflow_buffer_to_remote_def case_prod_beta txq_wf_def list_update_beyond\<close>)


section \<open>Every message is handled\<close>

lemma keeps_safe: "keeps_inv r \<Longrightarrow> safe_result (Some r)"
  by (simp add: keeps_inv_def safe_result_def)

lemma error_then_safe:
  assumes "dp_inv dp"
  shows "safe_result (bind_run (Some (dp_send_error_msg env s type code data dp)) (\<lambda>dp. Some (Done (e, dp))))"
proof (cases "dp_send_error_msg env s type code data dp")
  case (Done dp')
  then show ?thesis using send_msg_inv [of env _ s dp dp'] assms unfolding dp_send_error_msg_def by simp
qed simp

text \<open>What the allocator must provide for copies of the emergency flows.\<close>

definition copies_ok :: "(nat \<Rightarrow> dp_alloc) \<Rightarrow> sw_chain \<Rightarrow> bool" where
  "copies_ok al chain \<longleftrightarrow> inj (\<lambda>k. al_addr (al k))
     \<and> (\<forall>t. ch_emerg_table chain = Some t \<longrightarrow> list_all (table_serials (length (table_entries t))) (ch_tables chain))"

lemma recv_vendor_safe:
  assumes "dp_inv dp" "copies_ok (ce_copies ce) (dp_chain dp)"
  shows "safe_result (recv_vendor ce sender msg dp)"
proof -
  have "safe_result (private_recv_msg (ce_env ce) (ce_copies ce) msg dp)"
    using assms by (intro private_recv_msg_safe) (auto simp: copies_ok_def)
  then show ?thesis using assms(1) keeps_safe [OF of_ext_recv_msg_keeps] error_then_safe
    by (simp only: recv_vendor_def Let_def) (simp split: if_split)
qed

lemma control_handler_safe:
  assumes inv: "dp_inv dp" and c: "copies_ok (ce_copies ce) (dp_chain dp)" and h: "control_handler ce type = Some (m, handler)"
  shows "safe_result (handler sender msg dp)"
proof -
  note k = recv_features_request_keeps [OF inv] recv_port_mod_keeps [OF inv] recv_stats_request_keeps [OF inv]
    recv_queue_get_config_keeps [OF inv] send_reply_keeps [OF inv]
  have "safe_result (Some (recv_set_config msg dp))" 
    using inv by (auto simp: recv_set_config_def Let_def dp_inv_def ports_inv_def port_valid_def port_at_def split: if_splits)
  moreover have "safe_result (Some (recv_echo_reply dp))" "safe_result (Some (recv_packet_out dp))"
    using inv by (simp_all add: recv_echo_reply_def recv_packet_out_def)
  moreover have "safe_result (Some (recv_barrier_request env sender msg dp))" "safe_result (Some (recv_echo_request env sender msg dp))"
    "safe_result (Some (recv_get_config_request env sender dp))" "safe_result (Some (recv_features_request env sender dp))"
    "safe_result (Some (recv_port_mod msg dp))" "safe_result (Some (recv_stats_request sender msg dp))"
    "safe_result (Some (recv_queue_get_config_request env sender msg dp))" for env
    unfolding recv_barrier_request_def recv_echo_request_def recv_get_config_request_def using k by (auto intro: keeps_safe)
  ultimately show ?thesis using h recv_vendor_safe [OF inv c] unfolding control_handler_def Let_def
    by (auto split: if_split_asm)
qed

lemma lift_safe: "safe_result r \<Longrightarrow> \<exists>x. bind_run r (\<lambda>(error, dp). Some (Done (error, ad, dp))) = Some x
    \<and> (\<forall>e ad' dp'. x = Done (e, ad', dp') \<longrightarrow> dp_inv dp')"
  unfolding safe_result_def by (auto simp: bind_run_def split: run.split)


text \<open>The smallest size of the messages of each type that the switch knows.\<close>

definition control_min_size :: "u8 \<Rightarrow> nat option" where
  "control_min_size = map_of [(2, 8), (3, 8), (4, 12), (5, 8), (7, 8), (9, 12), (13, 16), (14, 72), (15, 32), (16, 12), (18, 8), (20, 8)]"


section \<open>Statistics from the request to the replies\<close>

text \<open>A reply to a request for flow statistics.\<close>

definition flow_stats_header :: "u32 \<Rightarrow> u8 list" where
  "flow_stats_header xid = st16 (st16 (ofp_header_bytes \<lparr>oh_version = 1, oh_type = OFPT_STATS_REPLY, oh_length = htons 12, oh_xid = xid\<rparr>
     @ replicate 4 0) 8 (htons OFPST_FLOW)) 10 0"

definition flow_stats_reply :: "dp_env \<Rightarrow> u32 \<Rightarrow> bool \<Rightarrow> (nat \<times> sw_flow) list \<Rightarrow> u8 list" where
  "flow_stats_reply env xid flag part =
     (let b = put_flow_stats env (flow_stats_header xid) part;
          b = (if flag then st16 b 10 (ntohs OFPSF_REPLY_MORE) else b)
      in st16 b 2 (htons (of_nat (length b))))"

lemma length_flow_stats_header: "length (flow_stats_header xid) = 12"
  by (simp add: flow_stats_header_def ofp_header_bytes_def)

lemma length_put_flow_stats: "length b \<le> length (put_flow_stats env b xs)"
  unfolding put_flow_stats_def
proof (induction xs arbitrary: b)
  case (Cons x xs)
  obtain i f where x: "x = (i, f)" by fastforce
  show ?case using Cons [of "fill_flow_stats env b f i"] by (simp add: x length_fill_flow_stats)
qed simp

lemma stats_dump_flow:
  assumes d: "flow_stats_dump env dp state (flow_stats_header xid) = Done (if flag then 1 else 0, state', put_flow_stats env (flow_stats_header xid) part)"
    and r: "accepts (dp_remotes dp ! r)"
  shows "stats_dump env gd r \<lparr>cb_done = False, cb_xid = xid, cb_type = OFPST_FLOW, cb_state = state\<rparr> dp
    = Done (if flag then 1 else 0, \<lparr>cb_done = \<not> flag, cb_xid = xid, cb_type = OFPST_FLOW, cb_state = state'\<rparr>,
        reply_to env \<lparr>sd_remote = r, sd_xid = xid\<rparr> (flow_stats_reply env xid flag part) dp)"
proof -
  let ?s = "\<lparr>sd_remote = r, sd_xid = xid\<rparr>" let ?b = "put_flow_stats env (flow_stats_header xid) part"
  have st: "find_stats OFPST_FLOW = Some \<lparr>sy_type = OFPST_FLOW, sy_min_body = 44, sy_max_body = 44, sy_init = Some flow_stats_init,
       sy_dump = (\<lambda>env gd. flow_stats_dump env)\<rparr>" by (simp add: find_stats_def stats_def)
  have osr: "make_openflow_reply 12 OFPT_STATS_REPLY (Some ?s) = Some (ofp_header_bytes \<lparr>oh_version = 1, oh_type = OFPT_STATS_REPLY,
      oh_length = htons 12, oh_xid = xid\<rparr> @ replicate 4 0)" by (simp add: make_openflow_reply_def make_openflow_xid_def)
  have "8 \<le> length ?b" using length_put_flow_stats [of "flow_stats_header xid" env part] length_flow_stats_header by simp
  moreover have "fst (rconn_send_with_limit env m (dp_remotes dp ! r)) = 0" for m
    using r by (simp add: rconn_send_with_limit_def accepts_def)
  ultimately have snd: "send_openflow_buffer env (if flag then st16 ?b 10 (ntohs OFPSF_REPLY_MORE) else ?b) (Some ?s) dp
    = Done (0, reply_to env ?s (flow_stats_reply env xid flag part) dp)"
    by (simp add: send_openflow_buffer_def update_openflow_length_def send_openflow_buffer_to_remote_def reply_to_def
        flow_stats_reply_def Let_def case_prod_beta)
  show ?thesis using d snd unfolding stats_dump_def Let_def
    by (cases flag) (simp_all add: st osr flow_stats_header_def)
qed

lemma reply_then_cb:
  assumes "r < length (dp_remotes dp)" "accepts (dp_remotes dp ! r)" "\<And>n. ev_tx env n"
    and dp': "dp' = set_cb_dump r cb (reply_to env \<lparr>sd_remote = r, sd_xid = xid\<rparr> m dp)"
  shows "r < length (dp_remotes dp')" "accepts (dp_remotes dp' ! r)" "rm_cb_dump (dp_remotes dp' ! r) = cb"
    "rm_txq (dp_remotes dp' ! r) = rm_txq (dp_remotes dp ! r) @ [m]" "dp_chain dp' = dp_chain dp" "dp_inv dp' = dp_inv dp"
  using assms(1-3) by (simp_all add: dp' set_cb_dump_def reply_to_def rconn_send_with_limit_def accepts_def)

lemma remote_loop_flow_stats:
  assumes tx: "\<And>k. ev_tx (ce_env ce) k" and inv: "dp_inv dp" and r: "r < length (dp_remotes dp)" "accepts (dp_remotes dp ! r)"
    and cb: "rm_cb_dump (dp_remotes dp ! r) = Some \<lparr>cb_done = False, cb_xid = xid, cb_type = OFPST_FLOW, cb_state = state\<rparr>"
    and st: "state = Flow_stats_state table_id m op i p" and todo: "flow_todo (dp_chain dp) state = xs" "length xs < n"
    and res: "\<forall>(j, f)\<in>set xs. table_resumable (stats_table (dp_chain dp) state j) f"
  shows "\<exists>parts dp'. remote_loop n ce r [] ad dp = Some (Done ([], ad, dp')) \<and> concat parts = xs \<and> parts \<noteq> []
    \<and> rm_txq (dp_remotes dp' ! r) = rm_txq (dp_remotes dp ! r)
        @ map (flow_stats_reply (ce_env ce) xid True) (butlast parts) @ [flow_stats_reply (ce_env ce) xid False (last parts)]
    \<and> rm_cb_dump (dp_remotes dp' ! r) = None \<and> dp_inv dp' \<and> dp_chain dp' = dp_chain dp"
  using inv r cb st todo res
proof (induction n arbitrary: dp state i p xs)
  case (Suc n)
  let ?env = "ce_env ce" let ?h = "flow_stats_header xid"
  have h: "length ?h < MAX_FLOW_STATS_BYTES" by (simp add: length_flow_stats_header)
  obtain stop rest b' where fill: "stats_fill ?env xs ?h = (stop, rest, b')" using prod_cases3 by blast
  obtain ys where ys: "xs = ys @ rest" "b' = put_flow_stats ?env ?h ys" "stop \<longrightarrow> ys \<noteq> []" "\<not> stop \<longrightarrow> rest = []"
    using stats_fill_parts [OF fill h] by blast
  obtain i' p' where d: "flow_stats_dump ?env dp state ?h = Done (if stop then 1 else 0, Flow_stats_state table_id m op i' p', b')"
    "stop \<longrightarrow> flow_todo (dp_chain dp) (Flow_stats_state table_id m op i' p') = rest"
    using flow_stats_dump_result [OF Suc.prems(1,5) h] fill Suc.prems(6,8) by blast
  let ?st = "Flow_stats_state table_id m op i' p'"
  let ?cb = "\<lparr>cb_done = \<not> stop, cb_xid = xid, cb_type = OFPST_FLOW, cb_state = ?st\<rparr>"
  define dp1 where "dp1 = set_cb_dump r (if stop then Some ?cb else None)
    (reply_to ?env \<lparr>sd_remote = r, sd_xid = xid\<rparr> (flow_stats_reply ?env xid stop ys) dp)"
  note f = reply_then_cb [OF Suc.prems(2,3) tx dp1_def]
  have "rm_n_txq (dp_remotes dp ! r) < TXQ_LIMIT" using Suc.prems(3) by (simp add: accepts_def)
  moreover note stats_dump_flow [OF d(1) [unfolded ys(2)] Suc.prems(3), of "ce_desc ce"]
  ultimately have step: "remote_loop (Suc n) ce r [] ad dp = remote_loop n ce r [] ad dp1"
    using Suc.prems(4) by (simp add: dp1_def)
  show ?case
  proof (cases stop)
    case False
    have "remote_loop n ce r [] ad dp1 = Some (Done ([], ad, dp1))" using f(3) False by (cases n) simp_all
    then show ?thesis using step f False ys Suc.prems(1) by (intro exI [of _ "[ys]"] exI [of _ dp1]) simp
  next
    case True
    have "length rest < n" using ys True Suc.prems(7) by (cases ys) auto
    moreover have "\<forall>(j, f)\<in>set rest. table_resumable (stats_table (dp_chain dp1) ?st j) f"
      using Suc.prems(5,8) ys(1) f(5) by auto
    ultimately obtain parts dp' where parts: "remote_loop n ce r [] ad dp1 = Some (Done ([], ad, dp'))" "concat parts = rest" "parts \<noteq> []"
      "rm_txq (dp_remotes dp' ! r) = rm_txq (dp_remotes dp1 ! r)
        @ map (flow_stats_reply ?env xid True) (butlast parts) @ [flow_stats_reply ?env xid False (last parts)]"
      "rm_cb_dump (dp_remotes dp' ! r) = None" "dp_inv dp'" "dp_chain dp' = dp_chain dp1"
      using Suc.IH [of dp1 ?st i' p' rest] f Suc.prems(1) True d(2) by (simp split: if_splits)
    show ?thesis using step parts f ys True
      by (intro exI [of _ "ys # parts"] exI [of _ dp']) simp
  qed
qed (simp only: not_less_zero)


section \<open>Witnesses\<close>

definition sample_control :: "zyxel_properties control_env" where
  "sample_control = \<lparr>ce_env = sample_env, ce_desc = \<lparr>gd_mfr_desc = [], gd_hw_desc = [], gd_sw_desc = [], gd_serial_num = []\<rparr>,
     ce_depth = 2, ce_alloc = sample_alloc, ce_copies = sample_copies, ce_class = (\<lambda>_ _ _. True),
     ce_handle = handleFlowMod ''none'' sample_pl sample_pl sample_pl\<rparr>"




end
