(* ===== verification/Vconn_Stream.thy ===== *)
theory Vconn_Stream
  imports Datapath "HOL-Library.Sublist"
begin

text \<open>
  Connections over stream sockets, \<^verbatim>\<open>src/openflow/lib/vconn-stream.c\<close>: messages are cut out of the bytes that arrive, and written as far as
  the socket takes them. The socket is outside the program: \<open>sk_in\<close> holds the bytes that the peer has sent and that were not
  read yet, \<open>sk_out\<close> the bytes written, and two scripts say how the calls of \<^verbatim>\<open>read\<close> and \<^verbatim>\<open>write\<close> end. The contents of the receive and transmit
  buffers are lists of bytes; no buffer is \<open>None\<close>.
\<close>

section \<open>Sockets\<close>

abbreviation EPROTO :: int where "EPROTO \<equiv> 71"
abbreviation EOF :: int where "EOF \<equiv> - 1"

text \<open>A call transfers at most so many bytes and one, reports the end of the stream, or fails.\<close>

datatype sock_event = Transfer nat | Closed | Failed int

record sock =
  sk_in :: "u8 list"
  sk_rd :: "sock_event list"
  sk_out :: "u8 list"
  sk_wr :: "sock_event list"

datatype 'a io_result = Ok 'a | Errno int

definition sock_read :: "nat \<Rightarrow> sock \<Rightarrow> u8 list io_result \<times> sock" where
  "sock_read n k =
     (case sk_rd k of
        [] \<Rightarrow> (Errno EAGAIN, k)
      | Transfer c # es \<Rightarrow>
          (if sk_in k = [] then (Errno EAGAIN, k\<lparr>sk_rd := es\<rparr>)
           else (let m = min n (Suc c) in (Ok (take m (sk_in k)), k\<lparr>sk_rd := es, sk_in := drop m (sk_in k)\<rparr>)))
      | Closed # es \<Rightarrow> (Ok [], k\<lparr>sk_rd := es\<rparr>)
      | Failed e # es \<Rightarrow> (Errno e, k\<lparr>sk_rd := es\<rparr>))"

definition sock_write :: "u8 list \<Rightarrow> sock \<Rightarrow> nat io_result \<times> sock" where
  "sock_write bs k =
     (case sk_wr k of
        [] \<Rightarrow> (Errno EAGAIN, k)
      | Transfer c # es \<Rightarrow>
          (let m = min (length bs) (Suc c) in (Ok m, k\<lparr>sk_wr := es, sk_out := sk_out k @ take m bs\<rparr>))
      | Closed # es \<Rightarrow> (Ok 0, k\<lparr>sk_wr := es\<rparr>)
      | Failed e # es \<Rightarrow> (Errno e, k\<lparr>sk_wr := es\<rparr>))"

lemma sock_read_Ok: "sock_read n k = (Ok bs, k') \<Longrightarrow> length bs \<le> n \<and> sk_in k = bs @ sk_in k'"
  by (auto simp: sock_read_def Let_def split: list.splits sock_event.splits if_splits)

lemma sock_read_Errno: "sock_read n k = (Errno e, k') \<Longrightarrow> sk_in k' = sk_in k"
  by (auto simp: sock_read_def Let_def split: list.splits sock_event.splits if_splits)

lemma sock_write_Ok: "sock_write bs k = (Ok n, k') \<Longrightarrow> n \<le> length bs \<and> sk_out k' = sk_out k @ take n bs \<and> sk_in k' = sk_in k"
  by (auto simp: sock_write_def Let_def split: list.splits sock_event.splits)

lemma sock_write_Errno: "sock_write bs k = (Errno e, k') \<Longrightarrow> sk_out k' = sk_out k \<and> sk_in k' = sk_in k"
  by (auto simp: sock_write_def Let_def split: list.splits sock_event.splits)

section \<open>Receiving\<close>

record stream_vconn =
  sv_rxbuf :: "u8 list option"
  sv_txbuf :: "u8 list option"

text \<open>
  The bytes wanted next, as a \<^verbatim>\<open>size_t\<close>. The loop returns the code, the message and what is left in the receive buffer.
\<close>

definition want_bytes :: "u8 list \<Rightarrow> nat" where
  "want_bytes rx =
     (if length rx < 8 then 8 - length rx else unat (of_nat (msg_length rx) - of_nat (length rx) :: u64))"

function stream_recv_loop :: "u8 list \<Rightarrow> sock \<Rightarrow> (int \<times> u8 list option \<times> u8 list option) \<times> sock" where
  "stream_recv_loop rx k =
     (if 8 \<le> length rx \<and> msg_length rx < 8 then ((EPROTO, None, Some rx), k)
      else if 8 \<le> length rx \<and> want_bytes rx = 0 then ((0, Some rx, None), k)
      else
        (case sock_read (want_bytes rx) k of
           (Ok bs, k) \<Rightarrow>
             (if bs \<noteq> [] then
                (if length bs = want_bytes rx then
                   (if length (rx @ bs) > 8 then ((0, Some (rx @ bs), None), k) else stream_recv_loop (rx @ bs) k)
                 else ((EAGAIN, None, Some (rx @ bs)), k))
              else ((if rx \<noteq> [] then EPROTO else EOF, None, Some rx), k))
         | (Errno e, k) \<Rightarrow> ((e, None, Some rx), k)))"
  by pat_completeness auto
termination by (relation "measure (\<lambda>(rx, _). 8 - length rx)") (auto simp: want_bytes_def length_greater_0_conv [symmetric] simp del: length_greater_0_conv)

declare stream_recv_loop.simps [simp del]

definition stream_recv :: "stream_vconn \<Rightarrow> sock \<Rightarrow> (int \<times> u8 list option \<times> stream_vconn) \<times> sock" where
  "stream_recv s k =
     (let rx = (case sv_rxbuf s of None \<Rightarrow> [] | Some rx \<Rightarrow> rx);
          ((retval, msg, rxbuf), k) = stream_recv_loop rx k
      in ((retval, msg, s\<lparr>sv_rxbuf := rxbuf\<rparr>), k))"

section \<open>Sending\<close>

definition stream_clear_txbuf :: "stream_vconn \<Rightarrow> stream_vconn" where
  "stream_clear_txbuf s = s\<lparr>sv_txbuf := None\<rparr>"

definition stream_send :: "u8 list \<Rightarrow> stream_vconn \<Rightarrow> sock \<Rightarrow> (int \<times> stream_vconn) \<times> sock" where
  "stream_send buffer s k =
     (if sv_txbuf s \<noteq> None then ((EAGAIN, s), k)
      else
        (case sock_write buffer k of
           (Ok n, k) \<Rightarrow>
             (if n = length buffer then ((0, s), k) else ((0, s\<lparr>sv_txbuf := Some (drop n buffer)\<rparr>), k))
         | (Errno e, k) \<Rightarrow>
             (if e = EAGAIN then ((0, s\<lparr>sv_txbuf := Some buffer\<rparr>), k) else ((e, s), k))))"

text \<open>Called when the socket can be written again; without a transmit buffer it follows a null pointer.\<close>

definition stream_do_tx :: "stream_vconn \<Rightarrow> sock \<Rightarrow> (stream_vconn \<times> sock) run" where
  "stream_do_tx s k =
     (case sv_txbuf s of
        None \<Rightarrow> Fault
      | Some buffer \<Rightarrow>
          (case sock_write buffer k of
             (Ok n, k) \<Rightarrow>
               (if n > 0 \<and> drop n buffer = [] then Done (stream_clear_txbuf s, k)
                else Done (s\<lparr>sv_txbuf := Some (drop n buffer)\<rparr>, k))
           | (Errno e, k) \<Rightarrow> (if e \<noteq> EAGAIN then Done (stream_clear_txbuf s, k) else Done (s, k))))"

section \<open>Runs of calls\<close>

text \<open>
  The client calls \<open>stream_recv\<close> again and again; the results of \<open>n\<close> calls, in order. On the other side it sends messages while the poll loop calls
  \<open>stream_do_tx\<close> back whenever a transmit buffer waits; the messages that \<open>stream_send\<close> took, in order.
\<close>

fun recv_calls :: "nat \<Rightarrow> stream_vconn \<Rightarrow> sock \<Rightarrow> u8 list list \<times> stream_vconn \<times> sock" where
  "recv_calls 0 s k = ([], s, k)"
| "recv_calls (Suc n) s k =
     (let ((_, msg, s), k) = stream_recv s k; (ms, s, k) = recv_calls n s k
      in (case msg of None \<Rightarrow> ms | Some m \<Rightarrow> m # ms, s, k))"

datatype tx_call = Send "u8 list" | Writable

fun tx_calls :: "tx_call list \<Rightarrow> stream_vconn \<Rightarrow> sock \<Rightarrow> (u8 list list \<times> stream_vconn \<times> sock) run" where
  "tx_calls [] s k = Done ([], s, k)"
| "tx_calls (Send m # cs) s k =
     (let ((retval, s), k) = stream_send m s k
      in (case tx_calls cs s k of
            Fault \<Rightarrow> Fault
          | Done (ms, s, k) \<Rightarrow> Done (if retval = 0 then m # ms else ms, s, k)))"
| "tx_calls (Writable # cs) s k =
     (if sv_txbuf s = None then tx_calls cs s k
      else (case stream_do_tx s k of Fault \<Rightarrow> Fault | Done (s, k) \<Rightarrow> tx_calls cs s k))"

text \<open>
  A framed message is as long as its header says. No write of a steady socket fails for good; every read of a ready one finds bytes while there are any.
\<close>

definition framed :: "u8 list \<Rightarrow> bool" where
  "framed m \<longleftrightarrow> 8 \<le> length m \<and> msg_length m = length m"

definition steady :: "sock \<Rightarrow> bool" where
  "steady k \<longleftrightarrow> (\<forall>e. Failed e \<in> set (sk_wr k) \<longrightarrow> e = EAGAIN)"

definition ready :: "sock \<Rightarrow> bool" where
  "ready k \<longleftrightarrow> length (sk_in k) \<le> length (sk_rd k) \<and> (\<forall>e\<in>set (sk_rd k). \<exists>c. e = Transfer c)"

abbreviation rx_of :: "stream_vconn \<Rightarrow> u8 list" where
  "rx_of s \<equiv> (case sv_rxbuf s of None \<Rightarrow> [] | Some rx \<Rightarrow> rx)"

abbreviation tx_of :: "stream_vconn \<Rightarrow> u8 list" where
  "tx_of s \<equiv> (case sv_txbuf s of None \<Rightarrow> [] | Some tx \<Rightarrow> tx)"

section \<open>Receiving frames\<close>

lemma msg_length_append: "4 \<le> length m \<Longrightarrow> msg_length (m @ xs) = msg_length m"
  by (simp add: msg_length_def ld16_def ld8_def nth_append)

lemma msg_length_bound: "msg_length m < 65536"
  using unsigned_less [of "ntohs (ld16 m 2)"] by (simp add: msg_length_def)

lemma want_bytes_header: "length rx < 8 \<Longrightarrow> want_bytes rx = 8 - length rx"
  by (simp add: want_bytes_def)

lemma want_bytes_body:
  assumes "8 \<le> length rx" "length rx \<le> msg_length rx" shows "want_bytes rx = msg_length rx - length rx"
proof -
  have l: "(of_nat (msg_length rx) :: u64) - of_nat (length rx) = of_nat (msg_length rx - length rx)"
    using assms(2) by (simp add: of_nat_diff)
  have "msg_length rx - length rx < 2 ^ 64" using msg_length_bound [of rx] by simp
  then show ?thesis using assms(1) by (simp add: want_bytes_def l unat_of_nat)
qed

lemma prefix_msg_length:
  assumes "prefix rx m" "framed m" "8 \<le> length rx" shows "msg_length rx = length m"
  using assms by (auto simp: prefix_def framed_def msg_length_append)

lemma wanted_bytes:
  assumes "prefix rx m" "framed m"
  shows "want_bytes rx = (if length rx < 8 then 8 - length rx else length m - length rx)"
  using assms prefix_msg_length [OF assms] prefix_length_le [OF assms(1)]
  by (cases "length rx < 8") (auto simp: want_bytes_header want_bytes_body)

lemma prefix_of_stream:
  assumes "rx @ sk = m @ rest" "length rx \<le> length m" shows "prefix rx m \<and> m = rx @ take (length m - length rx) sk \<and> rest = drop (length m - length rx) sk"
proof -
  have "m = take (length m) (rx @ sk)" "rest = drop (length m) (rx @ sk)" using assms by simp_all
  then have "m = rx @ take (length m - length rx) sk" "rest = drop (length m - length rx) sk" using assms(2) by simp_all
  then show ?thesis by (metis prefixI)
qed

text \<open>A call in front of a framed message takes it, or leaves a proper part of it in the receive buffer; the peer may
  not have sent the last bytes \<open>fut\<close> yet.\<close>

lemma recv_loop_frame:
  assumes "rx @ sk_in k @ fut = m @ rest" "length rx \<le> length m" "framed m"
    and "stream_recv_loop rx k = ((r, msg, b), k')"
  shows "(msg = Some m \<and> b = None \<and> r = 0 \<and> sk_in k' @ fut = rest)
       \<or> (\<exists>rx'. msg = None \<and> b = Some rx' \<and> rx' @ sk_in k' @ fut = m @ rest \<and> length rx' < length m)"
  using assms
proof (induction rx k arbitrary: r msg b k' rule: stream_recv_loop.induct)
  case (1 rx k)
  note st = prefix_of_stream [OF "1.prems"(1,2)]
  have p: "prefix rx m" and w: "want_bytes rx = (if length rx < 8 then 8 - length rx else length m - length rx)"
    using st wanted_bytes "1.prems"(3) by auto
  have m8: "8 \<le> length m" using "1.prems"(3) by (simp add: framed_def)
  have ml: "8 \<le> length rx \<Longrightarrow> msg_length rx = length m" using prefix_msg_length [OF p "1.prems"(3)] .
  show ?case
  proof (cases "8 \<le> length rx \<and> want_bytes rx = 0")
    case True
    then have "length rx = length m" using w "1.prems"(2) by (simp split: if_splits)
    moreover have "stream_recv_loop rx k = ((0, Some rx, None), k)"
      using True ml m8 by (subst stream_recv_loop.simps) simp
    ultimately show ?thesis using "1.prems"(1,4) by simp
  next
    case more_wanted: False
    then have lt: "length rx < length m" using w m8 by (auto split: if_splits)
    obtain res k1 where rd: "sock_read (want_bytes rx) k = (res, k1)" by (cases "sock_read (want_bytes rx) k") auto
    have nshort: "\<not> (8 \<le> length rx \<and> msg_length rx < 8)" using ml m8 by auto
    note un = stream_recv_loop.simps [of rx k]
    show ?thesis
    proof (cases res)
      case (Errno e)
      then have "stream_recv_loop rx k = ((e, None, Some rx), k1)" using un nshort more_wanted rd by auto
      then show ?thesis using "1.prems"(1,4) sock_read_Errno [of "want_bytes rx" k e k1] rd Errno lt by auto
    next
      case (Ok bs)
      have bs: "length bs \<le> want_bytes rx" "sk_in k = bs @ sk_in k1" using sock_read_Ok rd Ok by blast+
      have eq: "(rx @ bs) @ sk_in k1 @ fut = m @ rest" using "1.prems"(1) bs(2) by simp
      have le: "length (rx @ bs) \<le> length m" using bs(1) w m8 "1.prems"(2) by (auto split: if_splits)
      consider (end_of_stream) "bs = []" | (part) "bs \<noteq> []" "length bs \<noteq> want_bytes rx"
        | (whole) "bs \<noteq> []" "length bs = want_bytes rx" "8 < length (rx @ bs)"
        | (header) "bs \<noteq> []" "length bs = want_bytes rx" "\<not> 8 < length (rx @ bs)" by blast
      then show ?thesis
      proof cases
        case end_of_stream
        then have "\<exists>e. stream_recv_loop rx k = ((e, None, Some rx), k1)" using un nshort more_wanted rd Ok by auto
        then show ?thesis using "1.prems"(1,4) bs(2) end_of_stream lt by auto
      next
        case part
        then have "stream_recv_loop rx k = ((EAGAIN, None, Some (rx @ bs)), k1)" using un nshort more_wanted rd Ok by auto
        moreover have "length (rx @ bs) < length m" using part(2) bs(1) w m8 lt by (auto split: if_splits)
        ultimately show ?thesis using "1.prems"(4) eq by auto
      next
        case whole
        then have "stream_recv_loop rx k = ((0, Some (rx @ bs), None), k1)" using un nshort more_wanted rd Ok by auto
        moreover have "length (rx @ bs) = length m" using whole w lt by (auto split: if_splits)
        then have "rx @ bs = m \<and> sk_in k1 @ fut = rest" using eq by (metis append_eq_append_conv)
        ultimately show ?thesis using "1.prems"(4) by auto
      next
        case header
        have l: "stream_recv_loop rx k = stream_recv_loop (rx @ bs) k1" using header un nshort more_wanted rd Ok by auto
        show ?thesis
          by (rule "1.IH" [OF _ _ _ _ header(1,2)]) (use nshort more_wanted rd Ok header eq le "1.prems"(3,4) l in auto)
      qed
    qed
  qed
qed

lemma stream_recv_frame:
  assumes "rx_of s @ sk_in k @ fut = concat ms" "\<forall>m\<in>set ms. framed m" "ms \<noteq> [] \<longrightarrow> length (rx_of s) < length (hd ms)"
    and "stream_recv s k = ((r, msg, s'), k')"
  obtains (taken) m ms' where "ms = m # ms'" "msg = Some m" "r = 0" "sv_rxbuf s' = None" "sk_in k' @ fut = concat ms'"
  | (waiting) "msg = None" "rx_of s' @ sk_in k' @ fut = concat ms" "ms \<noteq> [] \<Longrightarrow> length (rx_of s') < length (hd ms)"
proof -
  obtain b where l: "stream_recv_loop (rx_of s) k = ((r, msg, b), k')" and s': "s' = s\<lparr>sv_rxbuf := b\<rparr>"
    using assms(4) by (auto simp: stream_recv_def Let_def split: prod.splits)
  show thesis
  proof (cases ms)
    case Nil
    then have e: "rx_of s = []" "sk_in k = []" "fut = []" using assms(1) by auto
    obtain res k1 where rd: "sock_read 8 k = (res, k1)" by (cases "sock_read 8 k") auto
    have k1: "sk_in k1 = []" "res = Ok bs \<Longrightarrow> bs = []" for bs
      using rd e(2) sock_read_Ok [of 8 k _ k1] sock_read_Errno [of 8 k _ k1] by (cases res; fastforce)+
    have "stream_recv_loop [] k = (case res of Ok bs \<Rightarrow> ((EOF, None, Some []), k1) | Errno e \<Rightarrow> ((e, None, Some []), k1))"
      using k1(2) by (subst stream_recv_loop.simps) (auto simp: want_bytes_def rd split: io_result.split)
    then have "msg = None" "b = Some []" "k' = k1" using l e by (auto split: io_result.splits)
    then show thesis using waiting s' k1 Nil e by simp
  next
    case (Cons m ms')
    from recv_loop_frame [OF _ _ _ l, of fut m "concat ms'"] assms(1-3) Cons
    show thesis using taken waiting s' by auto
  qed
qed

lemma recv_calls_frames:
  assumes "rx_of s @ sk_in k @ fut = concat ms" "\<forall>m\<in>set ms. framed m" "ms \<noteq> [] \<longrightarrow> length (rx_of s) < length (hd ms)"
    and "recv_calls n s k = (got, s', k')"
  shows "\<exists>ms'. ms = got @ ms' \<and> rx_of s' @ sk_in k' @ fut = concat ms' \<and> (ms' \<noteq> [] \<longrightarrow> length (rx_of s') < length (hd ms'))"
  using assms
proof (induction n arbitrary: s k ms got)
  case 0
  then show ?case by auto
next
  case (Suc n)
  obtain r msg s1 k1 where rc: "stream_recv s k = ((r, msg, s1), k1)" by (metis surj_pair)
  obtain got1 where rest: "recv_calls n s1 k1 = (got1, s', k')" and
    got: "got = (case msg of None \<Rightarrow> got1 | Some m \<Rightarrow> m # got1)"
    using Suc.prems(4) rc by (auto simp: Let_def split: prod.splits)
  show ?case
    using Suc.prems(1,2,3) rc
  proof (cases rule: stream_recv_frame)
    case (taken m ms')
    have "framed (hd ms')" if "ms' \<noteq> []" using that Suc.prems(2) taken(1) by (cases ms') auto
    then have "ms' \<noteq> [] \<Longrightarrow> length (rx_of s1) < length (hd ms')" using taken(4) by (auto simp: framed_def)
    then show ?thesis using Suc.IH [OF _ _ _ rest, of ms'] taken got Suc.prems(2) by auto
  next
    case waiting
    then show ?thesis using Suc.IH [OF _ _ _ rest, of ms] got Suc.prems(2) by auto
  qed
qed

section \<open>Progress\<close>

lemma ready_read:
  assumes "ready k" "sk_in k \<noteq> []" "0 < n"
  obtains bs k' where "sock_read n k = (Ok bs, k')" "bs \<noteq> []" "ready k'" "sk_in k = bs @ sk_in k'"
proof -
  obtain c es where "sk_rd k = Transfer c # es" using assms by (cases "sk_rd k") (auto simp: ready_def)
  then show thesis using assms that by (fastforce simp: sock_read_def Let_def ready_def)
qed

lemma ready_recv_loop:
  assumes "ready k" "stream_recv_loop rx k = (res, k')"
  shows "ready k' \<and> length (sk_in k') \<le> length (sk_in k)
    \<and> (sk_in k \<noteq> [] \<and> (8 \<le> length rx \<longrightarrow> length rx < msg_length rx) \<and> (8 \<le> length rx \<longrightarrow> 8 \<le> msg_length rx) \<longrightarrow> length (sk_in k') < length (sk_in k))"
  using assms
proof (induction rx k rule: stream_recv_loop.induct)
  case (1 rx k)
  show ?case
  proof (cases "8 \<le> length rx \<and> (msg_length rx < 8 \<or> want_bytes rx = 0)")
    case True
    then have "k' = k" using "1.prems"(2) by (subst (asm) stream_recv_loop.simps) (auto split: if_splits)
    moreover have "want_bytes rx \<noteq> 0" if "8 \<le> length rx" "length rx < msg_length rx" using that want_bytes_body by simp
    ultimately show ?thesis using "1.prems"(1) True by auto
  next
    case False
    then have w: "0 < want_bytes rx" by (auto simp: want_bytes_def)
    have un: "stream_recv_loop rx k = (case sock_read (want_bytes rx) k of
           (Ok bs, k) \<Rightarrow>
             (if bs \<noteq> [] then
                (if length bs = want_bytes rx then
                   (if length (rx @ bs) > 8 then ((0, Some (rx @ bs), None), k) else stream_recv_loop (rx @ bs) k)
                 else ((EAGAIN, None, Some (rx @ bs)), k))
              else ((if rx \<noteq> [] then EPROTO else EOF, None, Some rx), k))
         | (Errno e, k) \<Rightarrow> ((e, None, Some rx), k))"
      using False by (subst stream_recv_loop.simps) auto
    show ?thesis
    proof (cases "sk_in k = []")
      case True
      obtain r k1 where rd: "sock_read (want_bytes rx) k = (r, k1)" by (metis surj_pair)
      have "\<exists>e. r = Errno e" and k1: "sk_in k1 = []" "ready k1"
        using rd True "1.prems"(1) by (auto simp: sock_read_def ready_def split: list.splits sock_event.splits)
      then show ?thesis using "1.prems"(2) un rd True by auto
    next
      case nonempty: False
      obtain bs k1 where rd: "sock_read (want_bytes rx) k = (Ok bs, k1)" "bs \<noteq> []" "ready k1" "sk_in k = bs @ sk_in k1"
        using ready_read [OF "1.prems"(1) nonempty w] by blast
      have lt: "length (sk_in k1) < length (sk_in k)" using rd(2,4) by simp
      show ?thesis
      proof (cases "length bs = want_bytes rx \<and> \<not> length (rx @ bs) > 8")
        case True
        have "ready k' \<and> length (sk_in k') \<le> length (sk_in k1)"
          using "1.IH" [of "Ok bs" k1 bs] False rd True "1.prems"(2) un by simp
        then show ?thesis using lt by simp
      next
        case step: False
        then have "k' = k1" using un rd(1,2) "1.prems"(2) by (auto split: if_splits)
        then show ?thesis using rd(3) lt by simp
      qed
    qed
  qed
qed

lemma ready_recv:
  assumes "ready k" "rx_of s @ sk_in k = concat ms" "\<forall>m\<in>set ms. framed m" "ms \<noteq> [] \<longrightarrow> length (rx_of s) < length (hd ms)"
    and "stream_recv s k = ((r, msg, s'), k')"
  shows "ready k' \<and> length (sk_in k') \<le> length (sk_in k) - 1"
proof -
  obtain b where l: "stream_recv_loop (rx_of s) k = ((r, msg, b), k')"
    using assms(5) by (auto simp: stream_recv_def Let_def split: prod.splits)
  have "length (rx_of s) < msg_length (rx_of s) \<and> 8 \<le> msg_length (rx_of s)" if "8 \<le> length (rx_of s)"
  proof (cases ms)
    case Nil
    then show ?thesis using assms(2) that by simp
  next
    case (Cons m ms')
    then have "prefix (rx_of s) m" "length (rx_of s) < length m" "framed m"
      using prefix_of_stream [of "rx_of s" "sk_in k" m "concat ms'"] assms(2-4) by auto
    then show ?thesis using prefix_msg_length [of "rx_of s" m] that by (auto simp: framed_def)
  qed
  then show ?thesis using ready_recv_loop [OF assms(1) l] by (cases "sk_in k = []") auto
qed

lemma ready_recv_calls:
  assumes "ready k" "rx_of s @ sk_in k = concat ms" "\<forall>m\<in>set ms. framed m" "ms \<noteq> [] \<longrightarrow> length (rx_of s) < length (hd ms)"
    and "length (sk_in k) \<le> n" "recv_calls n s k = (got, s', k')"
  shows "sk_in k' = []"
  using assms
proof (induction n arbitrary: s k ms got)
  case 0
  then show ?case by auto
next
  case (Suc n)
  obtain r msg s1 k1 where rc: "stream_recv s k = ((r, msg, s1), k1)" by (metis surj_pair)
  obtain got1 where rest: "recv_calls n s1 k1 = (got1, s', k')" using Suc.prems(6) rc by (auto simp: Let_def split: prod.splits)
  have k1: "ready k1" "length (sk_in k1) \<le> n" using ready_recv [OF Suc.prems(1-4) rc] Suc.prems(5) by auto
  have "rx_of s @ sk_in k @ [] = concat ms" using Suc.prems(2) by simp
  then show ?case
    using Suc.prems(3,4) rc
  proof (cases rule: stream_recv_frame)
    case (taken m ms')
    have "framed (hd ms')" if "ms' \<noteq> []" using that Suc.prems(3) taken(1) by (cases ms') auto
    then have "ms' \<noteq> [] \<longrightarrow> length (rx_of s1) < length (hd ms')" using taken(4) by (auto simp: framed_def)
    then show ?thesis using Suc.IH [OF k1(1) _ _ _ k1(2) rest, of ms'] taken Suc.prems(3) by auto
  next
    case waiting
    then show ?thesis using Suc.IH [OF k1(1) _ _ _ k1(2) rest, of ms] Suc.prems(3) by auto
  qed
qed

section \<open>Sending frames\<close>

lemma steady_write:
  assumes "steady k" "sock_write bs k = (res, k')"
  shows "steady k' \<and> (\<forall>e. res = Errno e \<longrightarrow> e = EAGAIN)"
proof (cases "sk_wr k")
  case Nil
  then show ?thesis using assms by (auto simp: sock_write_def)
next
  case (Cons ev es)
  have "steady (x\<lparr>sk_wr := es\<rparr>)" for x using assms(1) Cons by (simp add: steady_def)
  moreover have "steady (x\<lparr>sk_wr := es, sk_out := ys\<rparr>)" for x ys using assms(1) Cons by (simp add: steady_def)
  moreover have "ev = Failed e \<Longrightarrow> e = EAGAIN" for e using assms(1) Cons by (simp add: steady_def)
  ultimately show ?thesis using assms(2) Cons by (cases ev) (auto simp: sock_write_def Let_def)
qed

lemma stream_send_out:
  assumes "steady k" "stream_send m s k = ((r, s'), k')"
  shows "steady k' \<and> sk_out k' @ tx_of s' = sk_out k @ tx_of s @ (if r = 0 then m else [])"
proof (cases "sv_txbuf s")
  case (Some tx)
  then show ?thesis using assms by (auto simp: stream_send_def)
next
  case None
  obtain res k1 where w: "sock_write m k = (res, k1)" by (metis surj_pair)
  note st = steady_write [OF assms(1) w]
  show ?thesis
  proof (cases res)
    case (Ok n)
    then show ?thesis using assms(2) None w st sock_write_Ok [of m k n k1] by (auto simp: stream_send_def split: if_splits)
  next
    case (Errno e)
    then show ?thesis using assms(2) None w st sock_write_Errno [of m k e k1] by (auto simp: stream_send_def)
  qed
qed

lemma stream_do_tx_out:
  assumes "steady k" "sv_txbuf s \<noteq> None"
  shows "\<exists>s' k'. stream_do_tx s k = Done (s', k') \<and> steady k' \<and> sk_out k' @ tx_of s' = sk_out k @ tx_of s"
proof -
  obtain tx where tx: "sv_txbuf s = Some tx" using assms(2) by auto
  obtain res k1 where w: "sock_write tx k = (res, k1)" by (metis surj_pair)
  note st = steady_write [OF assms(1) w]
  show ?thesis
  proof (cases res)
    case (Ok n)
    then show ?thesis using tx w st sock_write_Ok [of tx k n k1] by (auto simp: stream_do_tx_def stream_clear_txbuf_def)
  next
    case (Errno e)
    then show ?thesis using tx w st sock_write_Errno [of tx k e k1] by (auto simp: stream_do_tx_def)
  qed
qed

lemma tx_calls_out:
  assumes "steady k"
  shows "\<exists>ms s' k'. tx_calls cs s k = Done (ms, s', k') \<and> sk_out k' @ tx_of s' = sk_out k @ tx_of s @ concat ms"
  using assms
proof (induction cs s k rule: tx_calls.induct)
  case (1 s k)
  then show ?case by simp
next
  case (2 m cs s k)
  obtain r s1 k1 where sd: "stream_send m s k = ((r, s1), k1)" by (metis surj_pair)
  note out = stream_send_out [OF "2.prems" sd]
  from "2.IH" [OF sd [symmetric] refl refl] out
  obtain ms s' k' where "tx_calls cs s1 k1 = Done (ms, s', k')" "sk_out k' @ tx_of s' = sk_out k1 @ tx_of s1 @ concat ms" by blast
  then show ?case using sd out by (simp flip: append_assoc)
next
  case (3 cs s k)
  show ?case
  proof (cases "sv_txbuf s = None")
    case True
    then show ?thesis using "3.IH"(1) "3.prems" by simp
  next
    case False
    from stream_do_tx_out [OF "3.prems" False] obtain s1 k1 where
      d: "stream_do_tx s k = Done (s1, k1)" "steady k1" "sk_out k1 @ tx_of s1 = sk_out k @ tx_of s" by auto
    from "3.IH"(2) [OF False d(1) refl d(2)] show ?thesis using False d by (auto simp flip: append_assoc)
  qed
qed

lemma tx_calls_sent: "tx_calls cs s k = Done (ms, s', k') \<Longrightarrow> m \<in> set ms \<Longrightarrow> Send m \<in> set cs"
  by (induction cs s k arbitrary: ms rule: tx_calls.induct)
    (fastforce simp: Let_def split: prod.splits run.splits if_splits)+

section \<open>Delivery\<close>

text \<open>
  C21. Messages cross a connection whole and in order, however the two sockets split the bytes: when a client sends messages over a
  fresh connection whose socket does not fail for good, while the poll loop writes the rest of what a socket did not take, and the peer reads from a fresh connection the bytes
  that went out, then \<open>n\<close> calls of \<open>stream_recv\<close> give the first of the messages that \<open>stream_send\<close> took, none cut, merged, lost or out of
  turn. They give all of them once the transmit buffer is empty, the bytes have arrived and there were as many calls as bytes.
\<close>

theorem stream_delivers_in_order:
  assumes "sv_txbuf s = None" "sk_out k = []" "steady k" "sv_rxbuf r = None"
    and "\<forall>m. Send m \<in> set cs \<longrightarrow> framed m"
  shows "\<exists>ms s' k'. tx_calls cs s k = Done (ms, s', k')
    \<and> prefix (fst (recv_calls n r (q\<lparr>sk_in := sk_out k'\<rparr>))) ms
    \<and> (sv_txbuf s' = None \<and> ready (q\<lparr>sk_in := sk_out k'\<rparr>) \<and> length (sk_out k') \<le> n
       \<longrightarrow> fst (recv_calls n r (q\<lparr>sk_in := sk_out k'\<rparr>)) = ms)"
proof -
  have fr: "\<forall>m\<in>set ms. framed m" if "tx_calls cs s k = Done (ms, s', k')" for ms s' k'
    using assms(5) tx_calls_sent [OF that] by blast
  from tx_calls_out [OF assms(3), of cs s] obtain ms s' k' where
    tx: "tx_calls cs s k = Done (ms, s', k')" and out: "sk_out k' @ tx_of s' = concat ms" using assms(1,2) by auto
  let ?q = "q\<lparr>sk_in := sk_out k'\<rparr>"
  obtain got r' q' where rx: "recv_calls n r ?q = (got, r', q')" by (metis surj_pair)
  have st: "rx_of r @ sk_in ?q @ tx_of s' = concat ms" "ms \<noteq> [] \<longrightarrow> length (rx_of r) < length (hd ms)"
    using assms(4) out fr [OF tx] by (cases ms; auto simp: framed_def)+
  from recv_calls_frames [OF st(1) fr [OF tx] st(2) rx] obtain ms' where
    got: "ms = got @ ms'" "rx_of r' @ sk_in q' @ tx_of s' = concat ms'" "ms' \<noteq> [] \<longrightarrow> length (rx_of r') < length (hd ms')" by auto
  have "got = ms" if "sv_txbuf s' = None" "ready ?q" "length (sk_out k') \<le> n"
  proof -
    have "sk_in q' = []" using ready_recv_calls [OF that(2) _ fr [OF tx] st(2) _ rx] st(1) that by simp
    then have "rx_of r' = concat ms'" using got(2) that(1) by simp
    then have "ms' = []" using got(3) by (cases ms') auto
    then show ?thesis using got(1) by simp
  qed
  then show ?thesis using tx rx got(1) by auto
qed

text \<open>A long and a short message over a socket that takes and gives the bytes in pieces.\<close>

theorem stream_delivers_in_order_witness:
  "let a = [1, 0, 0, 12, 0, 0, 0, 1, 9, 8, 7, 6]; b = [1, 2, 0, 8, 0, 0, 0, 2];
       s = \<lparr>sv_rxbuf = None, sv_txbuf = None\<rparr>;
       k = \<lparr>sk_in = [], sk_rd = [], sk_out = [], sk_wr = [Transfer 4, Failed EAGAIN, Transfer 20, Transfer 20]\<rparr>;
       q = \<lparr>sk_in = [], sk_rd = replicate 20 (Transfer 2), sk_out = [], sk_wr = []\<rparr>
   in \<exists>s' k'. tx_calls [Send a, Send b, Writable, Writable, Send b] s k = Done ([a, b], s', k')
     \<and> fst (recv_calls 20 s (q\<lparr>sk_in := sk_out k'\<rparr>)) = [a, b]"
proof -
  let ?a = "[1, 0, 0, 12, 0, 0, 0, 1, 9, 8, 7, 6] :: u8 list"
  let ?b = "[1, 2, 0, 8, 0, 0, 0, 2] :: u8 list"
  let ?s = "\<lparr>sv_rxbuf = None, sv_txbuf = None\<rparr>"
  let ?k = "\<lparr>sk_in = [], sk_rd = [], sk_out = [], sk_wr = [Transfer 4, Failed EAGAIN, Transfer 20, Transfer 20]\<rparr>"
  let ?q = "\<lparr>sk_in = [], sk_rd = replicate 20 (Transfer 2), sk_out = [], sk_wr = []\<rparr>"
  let ?cs = "[Send ?a, Send ?b, Writable, Writable, Send ?b]"
  have tx: "tx_calls ?cs ?s ?k = Done ([?a, ?b], ?s, ?k\<lparr>sk_out := ?a @ ?b, sk_wr := []\<rparr>)" by code_simp
  have fr: "\<forall>m. Send m \<in> set ?cs \<longrightarrow> framed m" proof -
    have "framed ?a" "framed ?b" by code_simp+
    then show ?thesis by auto
  qed
  show ?thesis
    using stream_delivers_in_order [of ?s ?k ?s ?cs 20 ?q] fr tx by (simp add: steady_def ready_def)
qed
end
