(* ===== verification/Vconn.thy ===== *)
theory Vconn
  imports Dp_Control Vconn_Stream
begin

text \<open>
  OpenFlow connections, \<^verbatim>\<open>src/openflow/lib/vconn.c\<close>, over stream sockets: the state machine that connects, exchanges hello messages and settles
  on a version (\<open>vcs_connecting\<close>, \<open>vcs_send_hello\<close>, \<open>vcs_recv_hello\<close>, \<open>vcs_send_error\<close>, \<open>vconn_connect\<close>), and the sending and receiving of messages
  on top of it (\<open>do_send\<close>, \<open>do_recv\<close>, \<open>vconn_send\<close>, \<open>vconn_recv\<close>). The state is the pair of the connection and of the net: its socket, what
  \<^verbatim>\<open>check_connection_completion\<close> reports call by call, and the random numbers that become transaction ids.
\<close>

section \<open>State\<close>

abbreviation OFPT_HELLO :: u8 where "OFPT_HELLO \<equiv> 0"
abbreviation EINPROGRESS :: int where "EINPROGRESS \<equiv> 115"
abbreviation OFPET_HELLO_FAILED :: u16 where "OFPET_HELLO_FAILED \<equiv> 0"
abbreviation OFPHFC_INCOMPATIBLE :: u16 where "OFPHFC_INCOMPATIBLE \<equiv> 0"

datatype vconn_state = VCS_CONNECTING | VCS_SEND_HELLO | VCS_RECV_HELLO | VCS_CONNECTED | VCS_SEND_ERROR | VCS_DISCONNECTED

text \<open>The counters that the connection changes.\<close>

record ofpstat =
  ofps_total :: u64
  ofps_hello :: u64
  ofps_error :: u64
  ofps_hello_fail :: u64
  ofps_hf_incompat :: u64

record vconn =
  vc_state :: vconn_state
  vc_error :: int
  vc_min_version :: int
  vc_version :: int
  vc_rcvd :: ofpstat
  vc_sent :: ofpstat
  vc_stream :: stream_vconn

record net =
  nt_sock :: sock
  nt_connect :: "int list"
  nt_xid :: "u32 list"

definition zero_stat :: ofpstat where
  "zero_stat = \<lparr>ofps_total = 0, ofps_hello = 0, ofps_error = 0, ofps_hello_fail = 0, ofps_hf_incompat = 0\<rparr>"

text \<open>\<open>vconn_init\<close> as \<^verbatim>\<open>new_stream_vconn\<close> calls it.\<close>

definition vconn_init :: "int \<Rightarrow> vconn" where
  "vconn_init connect_status =
     \<lparr>vc_state = (if connect_status = EAGAIN then VCS_CONNECTING else if connect_status = 0 then VCS_SEND_HELLO else VCS_DISCONNECTED),
      vc_error = connect_status, vc_min_version = - 1, vc_version = - 1, vc_rcvd = zero_stat, vc_sent = zero_stat,
      vc_stream = \<lparr>sv_rxbuf = None, sv_txbuf = None\<rparr>\<rparr>"

definition stream_connect :: "net \<Rightarrow> int \<times> net" where
  "stream_connect w = (case nt_connect w of [] \<Rightarrow> (EAGAIN, w) | r # rs \<Rightarrow> (r, w\<lparr>nt_connect := rs\<rparr>))"

definition alloc_xid :: "net \<Rightarrow> u32 \<times> net" where
  "alloc_xid w = (case nt_xid w of [] \<Rightarrow> (0, w) | x # xs \<Rightarrow> (x, w\<lparr>nt_xid := xs\<rparr>))"

definition make_openflow :: "nat \<Rightarrow> u8 \<Rightarrow> net \<Rightarrow> u8 list option \<times> net" where
  "make_openflow openflow_len type w = (let (xid, w) = alloc_xid w in (make_openflow_xid openflow_len type xid, w))"

section \<open>Messages over a stream\<close>

lemma recv_loop_conserves:
  "stream_recv_loop rx k = ((r, Some m, b), k') \<Longrightarrow> b = None \<and> r = 0 \<and> rx @ sk_in k = m @ sk_in k' \<and> 8 \<le> length m"
proof (induction rx k arbitrary: r b k' rule: stream_recv_loop.induct)
  case (1 rx k)
  show ?case
  proof (cases "8 \<le> length rx \<and> (msg_length rx < 8 \<or> want_bytes rx = 0)")
    case True
    then show ?thesis using "1.prems" by (subst (asm) stream_recv_loop.simps) (auto split: if_splits)
  next
    case False
    obtain res k1 where rd: "sock_read (want_bytes rx) k = (res, k1)" by (metis surj_pair)
    have ok: "sk_in k = bs @ sk_in k1" if "res = Ok bs" for bs using sock_read_Ok rd that by blast
    have c1: "\<not> (8 \<le> length rx \<and> msg_length rx < 8)" and c2: "\<not> (8 \<le> length rx \<and> want_bytes rx = 0)" using False by auto
    from "1.prems" c1 c2 rd obtain bs where bs: "res = Ok bs" "bs \<noteq> []" "length bs = want_bytes rx"
      and tail: "if length (rx @ bs) > 8 then ((r, Some m, b), k') = ((0, Some (rx @ bs), None), k1)
                 else stream_recv_loop (rx @ bs) k1 = ((r, Some m, b), k')"
      by (subst (asm) stream_recv_loop.simps) (auto split: io_result.splits if_splits)
    show ?thesis
    proof (cases "length (rx @ bs) > 8")
      case True
      then show ?thesis using tail ok [OF bs(1)] by auto
    next
      case short: False
      show ?thesis
        using "1.IH" [OF c1 c2 rd [symmetric] bs(1,2,3) short] tail short ok [OF bs(1)] by simp
    qed
  qed
qed

lemma stream_recv_conserves:
  "stream_recv s k = ((r, Some m, s'), k') \<Longrightarrow> sv_rxbuf s' = None \<and> r = 0 \<and> rx_of s @ sk_in k = m @ sk_in k' \<and> 8 \<le> length m"
  by (auto simp: stream_recv_def Let_def dest: recv_loop_conserves split: prod.splits)

text \<open>The types of messages that are received in any version.\<close>

definition any_version :: "u8 \<Rightarrow> bool" where
  "any_version type \<longleftrightarrow> type = OFPT_HELLO \<or> type = OFPT_ERROR \<or> type = OFPT_ECHO_REQUEST \<or> type = OFPT_ECHO_REPLY \<or> type = OFPT_VENDOR"

function do_recv :: "int \<Rightarrow> stream_vconn \<Rightarrow> sock \<Rightarrow> (int \<times> u8 list option \<times> stream_vconn \<times> sock) run" where
  "do_recv version s k =
     (case stream_recv s k of
        ((retval, msg, s), k) \<Rightarrow>
          (if retval \<noteq> 0 then Done (retval, None, s, k)
           else
             (case msg of
                None \<Rightarrow> Fault
              | Some m \<Rightarrow>
                  (if length m < 8 then Fault
                   else if uint (ld8 m 0) \<noteq> version \<and> \<not> any_version (ld8 m 1) then
                     (if version < 0 \<and> (ld8 m 1 = OFPT_PACKET_IN \<or> ld8 m 1 = OFPT_FLOW_REMOVED \<or> ld8 m 1 = OFPT_PORT_STATUS)
                      then do_recv version s k
                      else Done (EPROTO, None, s, k))
                   else Done (0, Some m, s, k)))))"
  by pat_completeness auto
termination
proof (relation "measure (\<lambda>(_, s, k). length (rx_of s) + length (sk_in k))")
  fix version s k retval s' k' msg m x1 x2 y
  assume "(x1, k') = stream_recv s k" "(retval, x2) = x1" "(msg, s') = x2" "msg = Some m"
  then have "stream_recv s k = ((retval, Some m, s'), k')" by simp
  from stream_recv_conserves [OF this] have "length (rx_of s) + length (sk_in k) = length m + length (sk_in k')"
    "sv_rxbuf s' = None" "8 \<le> length m" by (metis length_append, simp_all)
  then show "((version, s', k'), (version, s, k)) \<in> measure (\<lambda>(_, s, k). length (rx_of s) + length (sk_in k))" by auto
qed simp

declare do_recv.simps [simp del]

definition do_send :: "u8 list \<Rightarrow> stream_vconn \<Rightarrow> sock \<Rightarrow> (int \<times> stream_vconn \<times> sock) run" where
  "do_send msg s k =
     (if length msg < 8 then Fault
      else if ld16 msg 2 \<noteq> htons (of_nat (length msg)) then Fault
      else (case stream_send msg s k of ((retval, s), k) \<Rightarrow> Done (retval, s, k)))"

text \<open>The bound of \<open>make_openflow_xid\<close> as an integer, which evaluates faster.\<close>

lemma make_openflow_xid_int [code]:
  "make_openflow_xid openflow_len type xid =
     (if openflow_len < 8 \<or> int openflow_len > 65535 then None
      else Some (ofp_header_bytes \<lparr>oh_version = 1, oh_type = type, oh_length = htons (of_nat openflow_len), oh_xid = xid\<rparr>
             @ replicate (openflow_len - 8) 0))"
  by (simp add: make_openflow_xid_def)

section \<open>Version negotiation\<close>

text \<open>\<^verbatim>\<open>%02x\<close>.\<close>

definition hex_digit :: "nat \<Rightarrow> char" where
  "hex_digit n = ''0123456789abcdef'' ! n"

fun hex_string :: "nat \<Rightarrow> string" where
  "hex_string n = (if n < 16 then [hex_digit n] else hex_string (n div 16) @ [hex_digit (n mod 16)])"

declare hex_string.simps [simp del]

definition hex02 :: "nat \<Rightarrow> string" where
  "hex02 n = (if n < 16 then ''0'' @ hex_string n else hex_string n)"

text \<open>The text that \<open>vcs_send_error\<close> formats into a buffer of 128 bytes; the last number is printed as a byte.\<close>

definition version_text :: "int \<Rightarrow> int \<Rightarrow> u8 list" where
  "version_text min_version version =
     take 127 (map of_char
       (''We support versions 0x'' @ hex02 (nat (min_version mod 2 ^ 32)) @ '' to 0x'' @ hex02 1 @ '' inclusive but ''
        @ ''you support no later than version 0x'' @ hex02 (nat (version mod 256)) @ ''.''))"

definition vcs_connecting :: "vconn \<Rightarrow> net \<Rightarrow> (vconn \<times> net) run" where
  "vcs_connecting vconn w =
     (let (retval, w) = stream_connect w
      in if retval = EINPROGRESS then Fault
         else if retval = 0 then Done (vconn\<lparr>vc_state := VCS_SEND_HELLO\<rparr>, w)
         else if retval \<noteq> EAGAIN then Done (vconn\<lparr>vc_state := VCS_DISCONNECTED, vc_error := retval\<rparr>, w)
         else Done (vconn, w))"

definition vcs_send_hello :: "vconn \<Rightarrow> net \<Rightarrow> (vconn \<times> net) run" where
  "vcs_send_hello vconn w =
     (case make_openflow 8 OFPT_HELLO w of
        (None, w) \<Rightarrow> Fault
      | (Some b, w) \<Rightarrow>
          (case do_send b (vc_stream vconn) (nt_sock w) of
             Fault \<Rightarrow> Fault
           | Done (retval, s, k) \<Rightarrow>
               (let vconn = vconn\<lparr>vc_stream := s\<rparr>; w = w\<lparr>nt_sock := k\<rparr>; st = vc_sent vconn
                in if retval = 0 then
                     Done (vconn\<lparr>vc_sent := st\<lparr>ofps_total := ofps_total st + 1, ofps_hello := ofps_hello st + 1\<rparr>,
                                 vc_state := VCS_RECV_HELLO\<rparr>, w)
                   else if retval \<noteq> EAGAIN then Done (vconn\<lparr>vc_state := VCS_DISCONNECTED, vc_error := retval\<rparr>, w)
                   else Done (vconn, w))))"

definition vcs_recv_hello :: "vconn \<Rightarrow> net \<Rightarrow> (vconn \<times> net) run" where
  "vcs_recv_hello vconn w =
     (case do_recv (vc_version vconn) (vc_stream vconn) (nt_sock w) of
        Fault \<Rightarrow> Fault
      | Done (retval, msg, s, k) \<Rightarrow>
          (let vconn = vconn\<lparr>vc_stream := s\<rparr>; w = w\<lparr>nt_sock := k\<rparr>;
               failed = (\<lambda>retval. if retval \<noteq> EAGAIN then Done (vconn\<lparr>vc_state := VCS_DISCONNECTED, vc_error := retval\<rparr>, w)
                                  else Done (vconn, w))
           in (case msg of
                 Some b \<Rightarrow>
                   (if ld8 b 1 = OFPT_HELLO then
                      (let version = min 1 (uint (ld8 b 0)); st = vc_rcvd vconn
                       in Done (vconn\<lparr>vc_version := version,
                                  vc_state := (if version < vc_min_version vconn then VCS_SEND_ERROR else VCS_CONNECTED),
                                  vc_rcvd := st\<lparr>ofps_total := ofps_total st + 1, ofps_hello := ofps_hello st + 1\<rparr>\<rparr>, w))
                    else failed EPROTO)
               | None \<Rightarrow> failed retval)))"

definition vcs_send_error :: "vconn \<Rightarrow> net \<Rightarrow> (vconn \<times> net) run" where
  "vcs_send_error vconn w =
     (case make_openflow 12 OFPT_ERROR w of
        (None, w) \<Rightarrow> Fault
      | (Some b, w) \<Rightarrow>
          (let b = stn b 8 (le16 (htons OFPET_HELLO_FAILED) @ le16 (htons OFPHFC_INCOMPATIBLE))
                   @ version_text (vc_min_version vconn) (vc_version vconn)
           in (case update_openflow_length b of
                 None \<Rightarrow> Fault
               | Some b \<Rightarrow>
                   (case do_send b (vc_stream vconn) (nt_sock w) of
                      Fault \<Rightarrow> Fault
                    | Done (retval, s, k) \<Rightarrow>
                        (let w = w\<lparr>nt_sock := k\<rparr>; st = vc_sent vconn;
                             vconn = (if retval \<noteq> 0 then
                                        vconn\<lparr>vc_stream := s, vc_sent := st\<lparr>ofps_total := ofps_total st + 1,
                                          ofps_error := ofps_error st + 1, ofps_hello_fail := ofps_hello_fail st + 1,
                                          ofps_hf_incompat := ofps_hf_incompat st + 1\<rparr>\<rparr>
                                      else vconn\<lparr>vc_stream := s\<rparr>)
                         in if retval \<noteq> EAGAIN then
                              Done (vconn\<lparr>vc_state := VCS_DISCONNECTED, vc_error := (if retval \<noteq> 0 then retval else EPROTO)\<rparr>, w)
                            else Done (vconn, w))))))"

definition vcs_step :: "vconn \<Rightarrow> net \<Rightarrow> (vconn \<times> net) run" where
  "vcs_step vconn w =
     (case vc_state vconn of
        VCS_CONNECTING \<Rightarrow> vcs_connecting vconn w
      | VCS_SEND_HELLO \<Rightarrow> vcs_send_hello vconn w
      | VCS_RECV_HELLO \<Rightarrow> vcs_recv_hello vconn w
      | VCS_SEND_ERROR \<Rightarrow> vcs_send_error vconn w
      | _ \<Rightarrow> Done (vconn, w))"

text \<open>Each step stays or comes closer to the end.\<close>

definition state_rank :: "vconn_state \<Rightarrow> nat" where
  "state_rank st = (case st of VCS_CONNECTING \<Rightarrow> 4 | VCS_SEND_HELLO \<Rightarrow> 3 | VCS_RECV_HELLO \<Rightarrow> 2 | VCS_SEND_ERROR \<Rightarrow> 1
     | VCS_CONNECTED \<Rightarrow> 0 | VCS_DISCONNECTED \<Rightarrow> 0)"

lemmas vcs_defs = vcs_step_def vcs_connecting_def vcs_send_hello_def vcs_recv_hello_def vcs_send_error_def

lemma vcs_step_rank:
  assumes "vcs_step vconn w = Done (vconn', w')"
  shows "vc_state vconn' = vc_state vconn \<or> state_rank (vc_state vconn') < state_rank (vc_state vconn)"
proof (cases "vc_state vconn")
  case VCS_CONNECTING
  then show ?thesis using assms by (auto simp: vcs_step_def vcs_connecting_def state_rank_def Let_def split: prod.splits if_splits)
next
  case VCS_SEND_HELLO
  then show ?thesis using assms
    by (auto simp: vcs_step_def vcs_send_hello_def state_rank_def Let_def split: prod.splits option.splits run.splits if_splits)
next
  case VCS_RECV_HELLO
  then show ?thesis using assms
    by (auto simp: vcs_step_def vcs_recv_hello_def state_rank_def Let_def split: prod.splits option.splits run.splits if_splits)
next
  case VCS_SEND_ERROR
  then show ?thesis using assms
    by (auto simp: vcs_step_def vcs_send_error_def state_rank_def Let_def split: prod.splits option.splits run.splits if_splits)
qed (use assms in \<open>auto simp: vcs_step_def\<close>)

function vconn_connect_loop :: "vconn \<Rightarrow> net \<Rightarrow> (int \<times> vconn \<times> net) run" where
  "vconn_connect_loop vconn w =
     (if vc_state vconn = VCS_CONNECTED then Done (0, vconn, w)
      else if vc_state vconn = VCS_DISCONNECTED then Done (vc_error vconn, vconn, w)
      else
        (case vcs_step vconn w of
           Fault \<Rightarrow> Fault
         | Done (vconn', w') \<Rightarrow>
             (if vc_state vconn' \<noteq> vc_state vconn then vconn_connect_loop vconn' w' else Done (EAGAIN, vconn', w'))))"
  by pat_completeness auto
termination by (relation "measure (\<lambda>(vconn, _). state_rank (vc_state vconn))") (auto dest: vcs_step_rank)

declare vconn_connect_loop.simps [simp del]

definition vconn_connect :: "vconn \<Rightarrow> net \<Rightarrow> (int \<times> vconn \<times> net) run" where
  "vconn_connect vconn w = (if vc_min_version vconn < 0 then Fault else vconn_connect_loop vconn w)"

section \<open>Sending and receiving\<close>

definition vconn_recv :: "vconn \<Rightarrow> net \<Rightarrow> (int \<times> u8 list option \<times> vconn \<times> net) run" where
  "vconn_recv vconn w =
     (case vconn_connect vconn w of
        Fault \<Rightarrow> Fault
      | Done (retval, vconn, w) \<Rightarrow>
          (if retval = 0 then
             (case do_recv (vc_version vconn) (vc_stream vconn) (nt_sock w) of
                Fault \<Rightarrow> Fault
              | Done (retval, msg, s, k) \<Rightarrow> Done (retval, msg, vconn\<lparr>vc_stream := s\<rparr>, w\<lparr>nt_sock := k\<rparr>))
           else Done (retval, None, vconn, w)))"

definition vconn_send :: "u8 list \<Rightarrow> vconn \<Rightarrow> net \<Rightarrow> (int \<times> vconn \<times> net) run" where
  "vconn_send msg vconn w =
     (case vconn_connect vconn w of
        Fault \<Rightarrow> Fault
      | Done (retval, vconn, w) \<Rightarrow>
          (if retval = 0 then
             (case do_send msg (vc_stream vconn) (nt_sock w) of
                Fault \<Rightarrow> Fault
              | Done (retval, s, k) \<Rightarrow> Done (retval, vconn\<lparr>vc_stream := s\<rparr>, w\<lparr>nt_sock := k\<rparr>))
           else Done (retval, vconn, w)))"

text \<open>Calls of a client, in any order, and of the poll loop; the messages received and the messages taken, in order.\<close>

datatype vconn_call = Recv_msg | Send_msg "u8 list" | Flush

fun vconn_calls :: "vconn_call list \<Rightarrow> vconn \<Rightarrow> net \<Rightarrow> (u8 list list \<times> u8 list list \<times> vconn \<times> net) run" where
  "vconn_calls [] vconn w = Done ([], [], vconn, w)"
| "vconn_calls (Recv_msg # cs) vconn w =
     (case vconn_recv vconn w of
        Fault \<Rightarrow> Fault
      | Done (retval, msg, vconn, w) \<Rightarrow>
          (case vconn_calls cs vconn w of
             Fault \<Rightarrow> Fault
           | Done (rs, ss, vconn, w) \<Rightarrow> Done (case msg of None \<Rightarrow> rs | Some m \<Rightarrow> m # rs, ss, vconn, w)))"
| "vconn_calls (Send_msg m # cs) vconn w =
     (case vconn_send m vconn w of
        Fault \<Rightarrow> Fault
      | Done (retval, vconn, w) \<Rightarrow>
          (case vconn_calls cs vconn w of
             Fault \<Rightarrow> Fault
           | Done (rs, ss, vconn, w) \<Rightarrow> Done (rs, if retval = 0 then m # ss else ss, vconn, w)))"
| "vconn_calls (Flush # cs) vconn w =
     (if sv_txbuf (vc_stream vconn) = None then vconn_calls cs vconn w
      else (case stream_do_tx (vc_stream vconn) (nt_sock w) of
              Fault \<Rightarrow> Fault
            | Done (s, k) \<Rightarrow> vconn_calls cs (vconn\<lparr>vc_stream := s\<rparr>) (w\<lparr>nt_sock := k\<rparr>)))"

section \<open>The protocol\<close>

definition hello :: "u32 \<Rightarrow> u8 list" where
  "hello xid = ofp_header_bytes \<lparr>oh_version = 1, oh_type = OFPT_HELLO, oh_length = htons 8, oh_xid = xid\<rparr>"

definition hello_failed :: "u32 \<Rightarrow> int \<Rightarrow> int \<Rightarrow> u8 list" where
  "hello_failed xid min_version version =
     (let t = version_text min_version version
      in ofp_header_bytes \<lparr>oh_version = 1, oh_type = OFPT_ERROR, oh_length = htons (of_nat (12 + length t)), oh_xid = xid\<rparr>
         @ [0, 0, 0, 0] @ t)"

text \<open>
  A net that behaves as POSIX says: no call fails with error number 0, a pending connection is reported as \<open>EAGAIN\<close>, and no write fails for good.
\<close>

definition net_ok :: "net \<Rightarrow> bool" where
  "net_ok w \<longleftrightarrow> steady (nt_sock w) \<and> Failed 0 \<notin> set (sk_rd (nt_sock w)) \<and> EINPROGRESS \<notin> set (nt_connect w)"

abbreviation output_of :: "vconn \<Rightarrow> net \<Rightarrow> u8 list" where
  "output_of vconn w \<equiv> sk_out (nt_sock w) @ tx_of (vc_stream vconn)"

text \<open>
  What the peer has been sent in each state, when the client has sent the messages \<open>ss\<close>: nothing before the connection stands, then a hello, then the client's
  messages if the versions agree, else an error.
\<close>

definition protocol :: "u8 list list \<Rightarrow> vconn \<Rightarrow> net \<Rightarrow> bool" where
  "protocol ss vconn w \<longleftrightarrow>
     0 \<le> vc_min_version vconn \<and>
     (case vc_state vconn of
        VCS_CONNECTING \<Rightarrow> vc_version vconn = - 1 \<and> ss = [] \<and> output_of vconn w = []
      | VCS_SEND_HELLO \<Rightarrow> vc_version vconn = - 1 \<and> ss = [] \<and> output_of vconn w = []
      | VCS_RECV_HELLO \<Rightarrow> vc_version vconn = - 1 \<and> ss = [] \<and> (\<exists>xid. output_of vconn w = hello xid)
      | VCS_CONNECTED \<Rightarrow> vc_min_version vconn \<le> vc_version vconn \<and> vc_version vconn \<le> 1
          \<and> (\<exists>xid. output_of vconn w = hello xid @ concat ss)
      | VCS_SEND_ERROR \<Rightarrow> 0 \<le> vc_version vconn \<and> vc_version vconn < vc_min_version vconn
          \<and> ss = [] \<and> (\<exists>xid. output_of vconn w = hello xid)
      | VCS_DISCONNECTED \<Rightarrow> ss = [] \<and> vc_error vconn \<noteq> 0
          \<and> (output_of vconn w = [] \<or> (\<exists>xid. output_of vconn w = hello xid)
             \<or> vc_version vconn < vc_min_version vconn \<and> (\<exists>xid xid'. output_of vconn w =
                 hello xid @ hello_failed xid' (vc_min_version vconn) (vc_version vconn))))"

lemma sock_read_frame:
  "sock_read n k = (r, k') \<Longrightarrow> sk_out k' = sk_out k \<and> sk_wr k' = sk_wr k \<and> set (sk_rd k') \<subseteq> set (sk_rd k)
     \<and> (r = Errno e \<longrightarrow> e = EAGAIN \<or> Failed e \<in> set (sk_rd k))"
  by (auto simp: sock_read_def Let_def split: list.splits sock_event.splits if_splits)

definition same_out :: "sock \<Rightarrow> sock \<Rightarrow> bool" where
  "same_out k' k \<longleftrightarrow> sk_out k' = sk_out k \<and> sk_wr k' = sk_wr k \<and> set (sk_rd k') \<subseteq> set (sk_rd k)"

lemma same_out_simps: "same_out k k" "same_out k'' k' \<Longrightarrow> same_out k' k \<Longrightarrow> same_out k'' k"
  by (auto simp: same_out_def)

lemma recv_loop_result:
  assumes "stream_recv_loop rx k = ((r, msg, b), k')"
  shows "same_out k' k \<and> (msg = None \<and> Failed 0 \<notin> set (sk_rd k) \<longrightarrow> r \<noteq> 0) \<and> (msg \<noteq> None \<longrightarrow> r = 0)"
  using assms
proof (induction rx k arbitrary: r msg b k' rule: stream_recv_loop.induct)
  case (1 rx k)
  obtain res k1 where rd: "sock_read (want_bytes rx) k = (res, k1)" by (metis surj_pair)
  have so: "same_out k1 k" "\<And>e. res = Errno e \<Longrightarrow> e = EAGAIN \<or> Failed e \<in> set (sk_rd k)"
    using sock_read_frame [OF rd] by (auto simp: same_out_def)
  note un = stream_recv_loop.simps [of rx k]
  show ?case
  proof (cases "8 \<le> length rx \<and> (msg_length rx < 8 \<or> want_bytes rx = 0)")
    case True
    then show ?thesis using "1.prems" un by (auto simp: same_out_simps split: if_splits)
  next
    case False
    then have c: "\<not> (8 \<le> length rx \<and> msg_length rx < 8)" "\<not> (8 \<le> length rx \<and> want_bytes rx = 0)" by auto
    show ?thesis
    proof (cases "\<exists>bs. res = Ok bs \<and> bs \<noteq> [] \<and> length bs = want_bytes rx \<and> \<not> length (rx @ bs) > 8")
      case True
      then obtain bs where bs: "res = Ok bs" "bs \<noteq> []" "length bs = want_bytes rx" "\<not> length (rx @ bs) > 8" by auto
      have "stream_recv_loop (rx @ bs) k1 = ((r, msg, b), k')" using "1.prems" un c rd bs by auto
      from "1.IH" [OF c rd [symmetric] bs this] so(1) show ?thesis by (auto simp: same_out_def)
    next
      case nloop: False
      then show ?thesis using "1.prems" un c rd so by (auto split: io_result.splits if_splits)
    qed
  qed
qed

lemma stream_recv_result:
  assumes "stream_recv s k = ((r, msg, s'), k')"
  shows "same_out k' k \<and> sv_txbuf s' = sv_txbuf s \<and> (msg = None \<and> Failed 0 \<notin> set (sk_rd k) \<longrightarrow> r \<noteq> 0)"
proof -
  obtain b where "stream_recv_loop (rx_of s) k = ((r, msg, b), k')" "s' = s\<lparr>sv_rxbuf := b\<rparr>"
    using assms by (auto simp: stream_recv_def Let_def split: prod.splits)
  then show ?thesis using recv_loop_result [of "rx_of s" k r msg b k'] by simp
qed

lemma do_recv_result:
  assumes "Failed 0 \<notin> set (sk_rd k)"
  obtains r msg s' k' where "do_recv v s k = Done (r, msg, s', k')" "same_out k' k" "sv_txbuf s' = sv_txbuf s"
    "msg = None \<Longrightarrow> r \<noteq> 0" "\<And>m. msg = Some m \<Longrightarrow> r = 0 \<and> 8 \<le> length m \<and> (uint (ld8 m 0) = v \<or> any_version (ld8 m 1))"
  using assms
proof (induction v s k arbitrary: thesis rule: do_recv.induct)
  case (1 v s k)
  obtain r msg s1 k1 where rc: "stream_recv s k = ((r, msg, s1), k1)" by (metis surj_pair)
  note res = stream_recv_result [OF rc]
  note un = do_recv.simps [of v s k]
  show ?case
  proof (cases msg)
    case None
    then have "do_recv v s k = Done (r, None, s1, k1)" "r \<noteq> 0" using un rc res "1.prems"(2) by auto
    then show ?thesis using "1.prems"(1) res by blast
  next
    case (Some m)
    then have m: "r = 0" "8 \<le> length m" using stream_recv_conserves rc by blast+
    show ?thesis
    proof (cases "uint (ld8 m 0) = v \<or> any_version (ld8 m 1)")
      case True
      then have "do_recv v s k = Done (0, Some m, s1, k1)" using un rc Some m by auto
      then show ?thesis using "1.prems"(1) res True m by blast
    next
      case other: False
      show ?thesis
      proof (cases "v < 0 \<and> (ld8 m 1 = OFPT_PACKET_IN \<or> ld8 m 1 = OFPT_FLOW_REMOVED \<or> ld8 m 1 = OFPT_PORT_STATUS)")
        case True
        then have eq: "do_recv v s k = do_recv v s1 k1" using un rc Some m other by auto
        have k1: "Failed 0 \<notin> set (sk_rd k1)" using res "1.prems"(2) by (auto simp: same_out_def)
        obtain r' msg' s' k' where d: "do_recv v s1 k1 = Done (r', msg', s', k')" "same_out k' k1" "sv_txbuf s' = sv_txbuf s1"
          "msg' = None \<Longrightarrow> r' \<noteq> 0" "\<And>m. msg' = Some m \<Longrightarrow> r' = 0 \<and> 8 \<le> length m \<and> (uint (ld8 m 0) = v \<or> any_version (ld8 m 1))"
          by (rule "1.IH" [OF rc [symmetric] refl refl])
            (use m Some other True k1 in auto)
        show ?thesis by (rule "1.prems"(1) [of r' msg' s' k']) (use d eq res same_out_simps(2) in auto)
      next
        case False
        then have "do_recv v s k = Done (EPROTO, None, s1, k1)" using un rc Some m other by auto
        then show ?thesis using "1.prems"(1) [of EPROTO None s1 k1] res by auto
      qed
    qed
  qed
qed

lemma do_recv_total:
  assumes "Failed 0 \<notin> set (sk_rd k)"
  shows "\<exists>r msg s' k'. do_recv v s k = Done (r, msg, s', k') \<and> same_out k' k \<and> sv_txbuf s' = sv_txbuf s \<and> (msg = None \<longrightarrow> r \<noteq> 0)
    \<and> (\<forall>m. msg = Some m \<longrightarrow> r = 0 \<and> 8 \<le> length m \<and> (uint (ld8 m 0) = v \<or> any_version (ld8 m 1)))"
  by (rule do_recv_result [OF assms, of v s]) blast

lemma framed_hello: "make_openflow_xid 8 OFPT_HELLO xid = Some (hello xid)" "length (hello xid) = 8" "ld16 (hello xid) 2 = htons 8"
  by (simp_all add: make_openflow_xid_def hello_def ofp_header_bytes_def le16_def le32_def ld16_def ld8_def mem_simps)

lemma hello_failed_message:
  "\<exists>b. make_openflow_xid 12 OFPT_ERROR xid = Some b
     \<and> update_openflow_length (stn b 8 (le16 (htons OFPET_HELLO_FAILED) @ le16 (htons OFPHFC_INCOMPATIBLE)) @ version_text mv v)
         = Some (hello_failed xid mv v)"
proof -
  have z: "htons 0 = 0" "replicate 4 (0 :: u8) = [0, 0, 0, 0]" by code_simp+
  show ?thesis
    by (simp add: make_openflow_xid_def hello_failed_def ofp_header_bytes_def le16_def le32_def update_openflow_length_def z Let_def
        st16_def st8_def add.commute)
qed

lemma length_hello_failed: "length (hello_failed xid mv v) = 12 + length (version_text mv v)"
  by (simp add: hello_failed_def ofp_header_bytes_def le16_def le32_def Let_def)

lemma hello_failed_length_field: "ld16 (hello_failed xid mv v) 2 = htons (of_nat (length (hello_failed xid mv v)))"
  by (simp add: length_hello_failed) (simp add: hello_failed_def ofp_header_bytes_def le16_def le32_def Let_def ld16_def ld8_def mem_simps)

section \<open>The protocol is kept\<close>

lemma do_send_framed:
  assumes "steady k" "framed m" "stream_send m s k = ((r, s'), k')"
  shows "do_send m s k = Done (r, s', k')"
proof -
  have "ntohs (ld16 m 2) = of_nat (length m)" using assms(2) by (auto simp: framed_def msg_length_def dest: arg_cong [of _ _ "of_nat :: nat \<Rightarrow> u16"])
  then have "ld16 m 2 = htons (of_nat (length m))" by (metis htons_htons)
  then show ?thesis using assms by (simp add: do_send_def framed_def)
qed

lemma stream_send_frame: "stream_send m s k = ((r, s'), k') \<Longrightarrow> sk_rd k' = sk_rd k \<and> sk_in k' = sk_in k \<and> sv_rxbuf s' = sv_rxbuf s"
  by (auto simp: stream_send_def sock_write_def Let_def split: option.splits io_result.splits list.splits sock_event.splits if_splits)

text \<open>What a step of a connection with a well-behaved net gives.\<close>

lemma protocol_connecting:
  assumes "protocol [] vconn w" "net_ok w" "vc_state vconn = VCS_CONNECTING"
  shows "\<exists>vconn' w'. vcs_step vconn w = Done (vconn', w') \<and> protocol [] vconn' w' \<and> net_ok w'"
proof (cases "nt_connect w")
  case Nil
  then show ?thesis using assms by (simp add: vcs_step_def vcs_connecting_def stream_connect_def)
next
  case (Cons r rs)
  then show ?thesis using assms
    by (auto simp: vcs_step_def vcs_connecting_def stream_connect_def protocol_def net_ok_def)
qed

lemma net_ok_xid [simp]: "net_ok (snd (alloc_xid w)) = net_ok w" "nt_sock (snd (alloc_xid w)) = nt_sock w"
  by (auto simp: alloc_xid_def net_ok_def split: list.split)

lemma send_in_step:
  assumes "net_ok w" "8 \<le> length m" "ld16 m 2 = htons (of_nat (length m))"
  obtains r s' k' where "do_send m (vc_stream vconn) (nt_sock w) = Done (r, s', k')" "net_ok (w\<lparr>nt_sock := k'\<rparr>)"
    "sk_out k' @ tx_of s' = output_of vconn w @ (if r = 0 then m else [])"
proof -
  obtain r s' k' where s: "stream_send m (vc_stream vconn) (nt_sock w) = ((r, s'), k')" by (metis surj_pair)
  have "do_send m (vc_stream vconn) (nt_sock w) = Done (r, s', k')" using assms s by (simp add: do_send_def)
  moreover have "net_ok (w\<lparr>nt_sock := k'\<rparr>)" "sk_out k' @ tx_of s' = output_of vconn w @ (if r = 0 then m else [])"
    using assms(1) stream_send_out [OF _ s] stream_send_frame [OF s] by (auto simp: net_ok_def)
  ultimately show thesis using that by blast
qed

lemma protocol_send_hello:
  assumes "protocol [] vconn w" "net_ok w" "vc_state vconn = VCS_SEND_HELLO"
  shows "\<exists>vconn' w'. vcs_step vconn w = Done (vconn', w') \<and> protocol [] vconn' w' \<and> net_ok w'"
proof -
  obtain xid w1 where x: "alloc_xid w = (xid, w1)" by (metis surj_pair)
  have w1: "net_ok w1" "nt_sock w1 = nt_sock w" using net_ok_xid [of w] assms(2) x by simp_all
  obtain r s' k' where d: "do_send (hello xid) (vc_stream vconn) (nt_sock w1) = Done (r, s', k')" "net_ok (w1\<lparr>nt_sock := k'\<rparr>)"
    "sk_out k' @ tx_of s' = output_of vconn w1 @ (if r = 0 then hello xid else [])"
    by (rule send_in_step [OF w1(1), of "hello xid" vconn]) (simp_all add: framed_hello)
  then show ?thesis using assms x w1
    by (auto simp: vcs_step_def vcs_send_hello_def make_openflow_def framed_hello protocol_def Let_def)
qed

lemma protocol_recv_hello:
  assumes "protocol [] vconn w" "net_ok w" "vc_state vconn = VCS_RECV_HELLO"
  shows "\<exists>vconn' w'. vcs_step vconn w = Done (vconn', w') \<and> protocol [] vconn' w' \<and> net_ok w'"
proof -
  obtain r msg s' k' where d: "do_recv (vc_version vconn) (vc_stream vconn) (nt_sock w) = Done (r, msg, s', k')"
    "same_out k' (nt_sock w)" "sv_txbuf s' = sv_txbuf (vc_stream vconn)" "msg = None \<Longrightarrow> r \<noteq> 0"
    using assms(2) do_recv_total [of "nt_sock w" "vc_version vconn" "vc_stream vconn"] unfolding net_ok_def by blast
  have n: "net_ok (w\<lparr>nt_sock := k'\<rparr>)" using assms(2) d(2) by (auto simp: net_ok_def same_out_def steady_def)
  have o: "sk_out k' @ tx_of s' = output_of vconn w" using d(2,3) by (simp add: same_out_def)
  show ?thesis
  proof (cases msg)
    case None
    then show ?thesis using assms d n o by (auto simp: vcs_step_def vcs_recv_hello_def protocol_def Let_def)
  next
    case (Some b)
    then show ?thesis using assms d(1) n o by (auto simp: vcs_step_def vcs_recv_hello_def protocol_def Let_def)
  qed
qed

lemma protocol_send_error:
  assumes "protocol [] vconn w" "net_ok w" "vc_state vconn = VCS_SEND_ERROR"
  shows "\<exists>vconn' w'. vcs_step vconn w = Done (vconn', w') \<and> protocol [] vconn' w' \<and> net_ok w'"
proof -
  obtain xid w1 where x: "alloc_xid w = (xid, w1)" by (metis surj_pair)
  have w1: "net_ok w1" "nt_sock w1 = nt_sock w" using net_ok_xid [of w] assms(2) x by simp_all
  let ?m = "hello_failed xid (vc_min_version vconn) (vc_version vconn)"
  obtain b where b: "make_openflow_xid 12 OFPT_ERROR xid = Some b"
     "update_openflow_length (stn b 8 (le16 (htons OFPET_HELLO_FAILED) @ le16 (htons OFPHFC_INCOMPATIBLE))
        @ version_text (vc_min_version vconn) (vc_version vconn)) = Some ?m"
    using hello_failed_message by blast
  obtain r s' k' where d: "do_send ?m (vc_stream vconn) (nt_sock w1) = Done (r, s', k')" "net_ok (w1\<lparr>nt_sock := k'\<rparr>)"
    "sk_out k' @ tx_of s' = output_of vconn w1 @ (if r = 0 then ?m else [])"
    by (rule send_in_step [OF w1(1), of ?m vconn]) (simp_all only: hello_failed_length_field, simp add: length_hello_failed)
  have step: "vcs_step vconn w = (let vc = (if r \<noteq> 0 then vconn\<lparr>vc_stream := s', vc_sent := (vc_sent vconn)\<lparr>ofps_total := ofps_total (vc_sent vconn) + 1,
                                          ofps_error := ofps_error (vc_sent vconn) + 1, ofps_hello_fail := ofps_hello_fail (vc_sent vconn) + 1,
                                          ofps_hf_incompat := ofps_hf_incompat (vc_sent vconn) + 1\<rparr>\<rparr> else vconn\<lparr>vc_stream := s'\<rparr>)
     in if r \<noteq> EAGAIN then Done (vc\<lparr>vc_state := VCS_DISCONNECTED, vc_error := (if r \<noteq> 0 then r else EPROTO)\<rparr>, w1\<lparr>nt_sock := k'\<rparr>)
        else Done (vc, w1\<lparr>nt_sock := k'\<rparr>))"
    using assms(3) x b d(1) by (simp add: vcs_step_def vcs_send_error_def make_openflow_def Let_def)
  obtain xid0 where o: "output_of vconn w = hello xid0" using assms by (auto simp: protocol_def)
  consider "r = EAGAIN" | "r = 0" | "r \<noteq> 0" "r \<noteq> EAGAIN" by auto
  then show ?thesis
  proof cases
    case 1
    then show ?thesis using step d(2,3) w1(2) assms(1,3) by (simp add: protocol_def)
  next
    case 2
    have "protocol [] (vconn\<lparr>vc_stream := s', vc_state := VCS_DISCONNECTED, vc_error := EPROTO\<rparr>) (w1\<lparr>nt_sock := k'\<rparr>)"
      using d(3) 2 w1(2) assms(1,3) o by (auto simp: protocol_def)
    then show ?thesis using step d(2) 2 by simp
  next
    case 3
    then show ?thesis using step d(2,3) w1(2) assms(1,3) by (auto simp: protocol_def)
  qed
qed

lemma protocol_step:
  assumes "protocol [] vconn w" "net_ok w"
  shows "\<exists>vconn' w'. vcs_step vconn w = Done (vconn', w') \<and> protocol [] vconn' w' \<and> net_ok w'"
  using assms protocol_connecting protocol_send_hello protocol_recv_hello protocol_send_error
  by (cases "vc_state vconn") (simp_all add: vcs_step_def)

lemma protocol_connect_loop:
  "protocol [] vconn w \<Longrightarrow> net_ok w \<Longrightarrow> \<exists>r vconn' w'. vconn_connect_loop vconn w = Done (r, vconn', w')
     \<and> protocol [] vconn' w' \<and> net_ok w' \<and> (r = 0 \<longleftrightarrow> vc_state vconn' = VCS_CONNECTED)"
proof (induction vconn w rule: vconn_connect_loop.induct)
  case (1 vconn w)
  note un = vconn_connect_loop.simps [of vconn w]
  obtain vconn1 w1 where st: "vcs_step vconn w = Done (vconn1, w1)" "protocol [] vconn1 w1" "net_ok w1"
    using protocol_step [OF "1.prems"] by blast
  consider (connected) "vc_state vconn = VCS_CONNECTED" | (disconnected) "vc_state vconn = VCS_DISCONNECTED"
    | (on) "vc_state vconn \<noteq> VCS_CONNECTED" "vc_state vconn \<noteq> VCS_DISCONNECTED" by blast
  then show ?case
  proof cases
    case connected
    then show ?thesis using un "1.prems" by simp
  next
    case disconnected
    then show ?thesis using un "1.prems" by (simp add: protocol_def)
  next
    case on
    show ?thesis
    proof (cases "vc_state vconn1 = vc_state vconn")
      case True
      then show ?thesis using un on st by simp
    next
      case False
      then show ?thesis using "1.IH" [OF on st(1) refl False st(2,3)] un on st(1) by simp
    qed
  qed
qed

lemma protocol_connect:
  assumes "protocol ss vconn w" "net_ok w"
  shows "\<exists>r vconn' w'. vconn_connect vconn w = Done (r, vconn', w') \<and> protocol ss vconn' w' \<and> net_ok w'
    \<and> (r = 0 \<longleftrightarrow> vc_state vconn' = VCS_CONNECTED)
    \<and> (vc_state vconn = VCS_CONNECTED \<longrightarrow> vconn' = vconn \<and> w' = w)"
proof -
  have mv: "vconn_connect vconn w = vconn_connect_loop vconn w" using assms(1) by (simp add: vconn_connect_def protocol_def)
  show ?thesis
  proof (cases "vc_state vconn = VCS_CONNECTED")
    case True
    then show ?thesis using mv assms vconn_connect_loop.simps [of vconn w] by simp
  next
    case False
    then have "ss = []" using assms(1) by (auto simp: protocol_def split: vconn_state.splits)
    then show ?thesis using protocol_connect_loop assms mv False by auto
  qed
qed

lemma protocol_recv:
  assumes "protocol ss vconn w" "net_ok w"
  shows "\<exists>r msg vconn' w'. vconn_recv vconn w = Done (r, msg, vconn', w') \<and> protocol ss vconn' w' \<and> net_ok w'
    \<and> (vc_state vconn = VCS_CONNECTED \<longrightarrow> vc_state vconn' = VCS_CONNECTED \<and> vc_version vconn' = vc_version vconn)
    \<and> (\<forall>m. msg = Some m \<longrightarrow> vc_state vconn' = VCS_CONNECTED \<and> 8 \<le> length m
           \<and> (uint (ld8 m 0) = vc_version vconn' \<or> any_version (ld8 m 1)))"
proof -
  obtain r vconn1 w1 where c: "vconn_connect vconn w = Done (r, vconn1, w1)" "protocol ss vconn1 w1" "net_ok w1"
    "r = 0 \<longleftrightarrow> vc_state vconn1 = VCS_CONNECTED" "vc_state vconn = VCS_CONNECTED \<Longrightarrow> vconn1 = vconn \<and> w1 = w"
    using protocol_connect [OF assms] by blast
  show ?thesis
  proof (cases "r = 0")
    case False
    then show ?thesis using c by (auto simp: vconn_recv_def)
  next
    case True
    have f: "Failed 0 \<notin> set (sk_rd (nt_sock w1))" using c(3) by (simp add: net_ok_def)
    obtain r' msg s' k' where d: "do_recv (vc_version vconn1) (vc_stream vconn1) (nt_sock w1) = Done (r', msg, s', k')"
      "same_out k' (nt_sock w1)" "sv_txbuf s' = sv_txbuf (vc_stream vconn1)"
      "msg = None \<Longrightarrow> r' \<noteq> 0"
      "\<And>m. msg = Some m \<Longrightarrow> r' = 0 \<and> 8 \<le> length m \<and> (uint (ld8 m 0) = vc_version vconn1 \<or> any_version (ld8 m 1))"
      using do_recv_total [OF f, of "vc_version vconn1" "vc_stream vconn1"] by blast
    have st: "vc_state vconn1 = VCS_CONNECTED" using c(4) True by simp
    have "protocol ss (vconn1\<lparr>vc_stream := s'\<rparr>) (w1\<lparr>nt_sock := k'\<rparr>)" "net_ok (w1\<lparr>nt_sock := k'\<rparr>)"
      using c(2,3) st d(2,3) by (auto simp: protocol_def net_ok_def same_out_def steady_def)
    then show ?thesis using c(1,5) True d(1,5) st by (auto simp: vconn_recv_def)
  qed
qed

lemma protocol_send:
  assumes "protocol ss vconn w" "net_ok w" "framed m"
  shows "\<exists>r vconn' w'. vconn_send m vconn w = Done (r, vconn', w') \<and> protocol (ss @ (if r = 0 then [m] else [])) vconn' w' \<and> net_ok w'
    \<and> (vc_state vconn = VCS_CONNECTED \<longrightarrow> vc_state vconn' = VCS_CONNECTED \<and> vc_version vconn' = vc_version vconn)"
proof -
  obtain r vconn1 w1 where c: "vconn_connect vconn w = Done (r, vconn1, w1)" "protocol ss vconn1 w1" "net_ok w1"
    "r = 0 \<longleftrightarrow> vc_state vconn1 = VCS_CONNECTED" "vc_state vconn = VCS_CONNECTED \<Longrightarrow> vconn1 = vconn \<and> w1 = w"
    using protocol_connect [OF assms(1,2)] by blast
  show ?thesis
  proof (cases "r = 0")
    case False
    then show ?thesis using c by (auto simp: vconn_send_def)
  next
    case True
    have st: "vc_state vconn1 = VCS_CONNECTED" using c(4) True by simp
    obtain r' s' k' where s: "stream_send m (vc_stream vconn1) (nt_sock w1) = ((r', s'), k')" by (metis surj_pair)
    have d: "do_send m (vc_stream vconn1) (nt_sock w1) = Done (r', s', k')"
      using do_send_framed [OF _ assms(3) s] c(3) by (simp add: net_ok_def)
    have "net_ok (w1\<lparr>nt_sock := k'\<rparr>)" and o: "sk_out k' @ tx_of s' = output_of vconn1 w1 @ (if r' = 0 then m else [])"
      using c(3) stream_send_out [OF _ s] stream_send_frame [OF s] by (auto simp: net_ok_def)
    moreover have "protocol (ss @ (if r' = 0 then [m] else [])) (vconn1\<lparr>vc_stream := s'\<rparr>) (w1\<lparr>nt_sock := k'\<rparr>)"
      using c(2) st o by (auto simp: protocol_def)
    ultimately show ?thesis using c(1,5) True d st by (auto simp: vconn_send_def)
  qed
qed

lemma protocol_calls:
  assumes "protocol ss vconn w" "net_ok w" "\<forall>m. Send_msg m \<in> set cs \<longrightarrow> framed m"
  shows "\<exists>rs ss' vconn' w'. vconn_calls cs vconn w = Done (rs, ss', vconn', w') \<and> protocol (ss @ ss') vconn' w'
    \<and> (vc_state vconn = VCS_CONNECTED \<longrightarrow> vc_state vconn' = VCS_CONNECTED \<and> vc_version vconn' = vc_version vconn)
    \<and> (\<forall>m\<in>set rs. vc_state vconn' = VCS_CONNECTED \<and> 8 \<le> length m \<and> (uint (ld8 m 0) = vc_version vconn' \<or> any_version (ld8 m 1)))"
  using assms
proof (induction cs arbitrary: ss vconn w)
  case Nil
  then show ?case by simp
next
  case (Cons c cs)
  have fr: "\<forall>m. Send_msg m \<in> set cs \<longrightarrow> framed m" using Cons.prems(3) by simp
  show ?case
  proof (cases c)
    case Recv_msg
    obtain r msg vconn1 w1 where d: "vconn_recv vconn w = Done (r, msg, vconn1, w1)" "protocol ss vconn1 w1" "net_ok w1"
      "vc_state vconn = VCS_CONNECTED \<Longrightarrow> vc_state vconn1 = VCS_CONNECTED \<and> vc_version vconn1 = vc_version vconn"
      "\<And>m. msg = Some m \<Longrightarrow> vc_state vconn1 = VCS_CONNECTED \<and> 8 \<le> length m \<and> (uint (ld8 m 0) = vc_version vconn1 \<or> any_version (ld8 m 1))"
      using protocol_recv [OF Cons.prems(1,2)] by blast
    from Cons.IH [OF d(2,3) fr] show ?thesis using Recv_msg d(1,4,5) by (auto split: option.splits)
  next
    case (Send_msg m)
    have "framed m" using Send_msg Cons.prems(3) by simp
    from protocol_send [OF Cons.prems(1,2) this] obtain r vconn1 w1 where d: "vconn_send m vconn w = Done (r, vconn1, w1)"
      "protocol (ss @ (if r = 0 then [m] else [])) vconn1 w1" "net_ok w1"
      "vc_state vconn = VCS_CONNECTED \<Longrightarrow> vc_state vconn1 = VCS_CONNECTED \<and> vc_version vconn1 = vc_version vconn" by blast
    from Cons.IH [OF d(2,3) fr] show ?thesis using Send_msg d(1,4) by (cases "r = 0") auto
  next
    case Flush
    show ?thesis
    proof (cases "sv_txbuf (vc_stream vconn) = None")
      case True
      then show ?thesis using Cons.IH [OF Cons.prems(1,2) fr] Flush by simp
    next
      case False
      obtain s k where d: "stream_do_tx (vc_stream vconn) (nt_sock w) = Done (s, k)" "steady k"
        "sk_out k @ tx_of s = output_of vconn w"
        using stream_do_tx_out [OF _ False, of "nt_sock w"] Cons.prems(2) by (auto simp: net_ok_def)
      have "sk_rd k = sk_rd (nt_sock w)" using d(1)
        by (auto simp: stream_do_tx_def sock_write_def Let_def split: option.splits io_result.splits list.splits sock_event.splits if_splits)
      then have n: "net_ok (w\<lparr>nt_sock := k\<rparr>)" using d(2) Cons.prems(2) by (simp add: net_ok_def)
      have p: "protocol ss (vconn\<lparr>vc_stream := s\<rparr>) (w\<lparr>nt_sock := k\<rparr>)" using Cons.prems(1) d(3) by (cases "vc_state vconn") (simp_all add: protocol_def)
      show ?thesis using Cons.IH [OF p n fr] Flush False d(1) by auto
    qed
  qed
qed

text \<open>
  C20. Whatever calls a client makes on a new connection, in any order and however the net splits the bytes, no assertion fails and the connection follows the
  protocol: the peer gets nothing before the connection is established, then a hello message first, and the client's messages only after
  the versions were settled, in the order in which they were accepted, on a version between the least one allowed and 1; a peer that is too old gets an error message and then nothing.
  The client gets messages only on an established connection, each in the agreed version or of a type that is allowed in any.
\<close>

theorem vconn_follows_protocol:
  assumes "0 \<le> min_version" "net_ok w" "sk_out (nt_sock w) = []" "\<forall>m. Send_msg m \<in> set cs \<longrightarrow> framed m"
  shows "\<exists>rs ss vconn w'. vconn_calls cs ((vconn_init status)\<lparr>vc_min_version := min_version\<rparr>) w = Done (rs, ss, vconn, w')
    \<and> protocol ss vconn w'
    \<and> (\<forall>m\<in>set rs. vc_state vconn = VCS_CONNECTED \<and> (uint (ld8 m 0) = vc_version vconn \<or> any_version (ld8 m 1)))"
proof -
  have "protocol [] ((vconn_init status)\<lparr>vc_min_version := min_version\<rparr>) w"
    using assms by (simp add: protocol_def vconn_init_def)
  from protocol_calls [OF this assms(2,4)] show ?thesis by fastforce
qed

text \<open>A client that connects to a peer of version 1, sends a message before the hello of the peer is there and one after it.\<close>

theorem vconn_follows_protocol_witness:
  "let w = \<lparr>nt_sock = \<lparr>sk_in = [1, 0, 0, 8, 0, 0, 0, 5, 1, 3, 0, 8, 0, 0, 0, 6], sk_rd = [Failed EAGAIN, Transfer 99, Transfer 99],
                        sk_out = [], sk_wr = [Transfer 99, Transfer 99]\<rparr>, nt_connect = [0], nt_xid = [7]\<rparr>;
       m = [1, 2, 0, 8, 0, 0, 0, 9]
   in \<exists>vconn w'. vconn_calls [Send_msg m, Send_msg m, Recv_msg] ((vconn_init EAGAIN)\<lparr>vc_min_version := 1\<rparr>) w = Done ([[1, 3, 0, 8, 0, 0, 0, 6]], [m], vconn, w')
     \<and> protocol [m] vconn w' \<and> vc_state vconn = VCS_CONNECTED \<and> vc_version vconn = 1 \<and> sk_out (nt_sock w') = hello 7 @ m"
proof -
  let ?w = "\<lparr>nt_sock = \<lparr>sk_in = [1, 0, 0, 8, 0, 0, 0, 5, 1, 3, 0, 8, 0, 0, 0, 6], sk_rd = [Failed EAGAIN, Transfer 99, Transfer 99],
                        sk_out = [], sk_wr = [Transfer 99, Transfer 99]\<rparr>, nt_connect = [0], nt_xid = [7]\<rparr>"
  let ?m = "[1, 2, 0, 8, 0, 0, 0, 9] :: u8 list"
  let ?v = "(vconn_init EAGAIN)\<lparr>vc_min_version := 1\<rparr>"
  let ?cs = "[Send_msg ?m, Send_msg ?m, Recv_msg]"
  have f: "framed ?m" by code_simp
  have run: "(case vconn_calls ?cs ?v ?w of Fault \<Rightarrow> False | Done (rs, ss, vconn, w') \<Rightarrow> rs = [[1, 3, 0, 8, 0, 0, 0, 6]] \<and> ss = [?m]
      \<and> vc_state vconn = VCS_CONNECTED \<and> vc_version vconn = 1 \<and> sk_out (nt_sock w') = hello 7 @ ?m)" by code_simp
  have "0 \<le> (1 :: int)" "net_ok ?w" "sk_out (nt_sock ?w) = []" "\<forall>m. Send_msg m \<in> set ?cs \<longrightarrow> framed m"
    using f by (simp_all add: net_ok_def steady_def)
  from vconn_follows_protocol [OF this, of EAGAIN] obtain rs ss vconn w' where
    "vconn_calls ?cs ?v ?w = Done (rs, ss, vconn, w')" "protocol ss vconn w'" by blast
  then show ?thesis using run unfolding Let_def by auto
qed

section \<open>Negotiation ends\<close>

text \<open>The loop of \<^verbatim>\<open>vconn_open_block\<close> around \<open>vconn_connect\<close>, with a bound on its rounds.\<close>

fun connect_block :: "nat \<Rightarrow> vconn \<Rightarrow> net \<Rightarrow> (int \<times> vconn \<times> net) run" where
  "connect_block 0 vconn w = Done (EAGAIN, vconn, w)"
| "connect_block (Suc n) vconn w =
     (case vconn_connect vconn w of
        Fault \<Rightarrow> Fault
      | Done (error, vconn, w) \<Rightarrow> if error = EAGAIN then connect_block n vconn w else Done (error, vconn, w))"

lemma ready_recv_waits:
  assumes "rx @ sk_in k = m @ rest" "length rx \<le> length m" "framed m" "ready k" "stream_recv_loop rx k = ((r, None, b), k')"
  shows "r = EAGAIN"
  using assms
proof (induction rx k arbitrary: r b k' rule: stream_recv_loop.induct)
  case (1 rx k)
  have p: "prefix rx m" using prefix_of_stream [OF "1.prems"(1,2)] by blast
  have m8: "8 \<le> length m" using "1.prems"(3) by (simp add: framed_def)
  have ml: "8 \<le> length rx \<Longrightarrow> msg_length rx = length m" using prefix_msg_length [OF p "1.prems"(3)] .
  have w: "want_bytes rx = (if length rx < 8 then 8 - length rx else length m - length rx)" using wanted_bytes [OF p "1.prems"(3)] .
  note un = stream_recv_loop.simps [of rx k]
  have n0: "want_bytes rx \<noteq> 0 \<or> length rx < 8" using un "1.prems"(5) ml m8 by (auto split: if_splits)
  then have w0: "0 < want_bytes rx" using w by (auto split: if_splits)
  then have lt: "length rx < length m" using w m8 by (auto split: if_splits)
  then have ne: "sk_in k \<noteq> []" using "1.prems"(1) by auto
  obtain bs k1 where rd: "sock_read (want_bytes rx) k = (Ok bs, k1)" "bs \<noteq> []" "ready k1" "sk_in k = bs @ sk_in k1"
    using ready_read [OF "1.prems"(4) ne w0] by blast
  have c: "\<not> (8 \<le> length rx \<and> msg_length rx < 8)" "\<not> (8 \<le> length rx \<and> want_bytes rx = 0)" using ml m8 w0 by auto
  show ?case
  proof (cases "length bs = want_bytes rx \<and> \<not> length (rx @ bs) > 8")
    case True
    have "length bs \<le> length m - length rx" using True w m8 by (auto split: if_splits)
    then show ?thesis
      using "1.IH" [OF c rd(1) [symmetric] refl rd(2), of r b k'] True un c rd "1.prems"(1,3,5) lt by auto
  next
    case False
    then show ?thesis using un c rd "1.prems"(5) by (auto split: if_splits)
  qed
qed

text \<open>The hello message is the next that arrives; while it has not come whole, the connection waits.\<close>

definition awaits :: "u8 list \<Rightarrow> u8 list \<Rightarrow> vconn \<Rightarrow> net \<Rightarrow> bool" where
  "awaits m rest vconn w \<longleftrightarrow>
     vc_state vconn = VCS_RECV_HELLO \<and> vc_version vconn = - 1 \<and> 0 \<le> vc_min_version vconn
     \<and> rx_of (vc_stream vconn) @ sk_in (nt_sock w) = m @ rest \<and> length (rx_of (vc_stream vconn)) < length m
     \<and> ready (nt_sock w) \<and> framed m \<and> ld8 m 1 = OFPT_HELLO"

definition settled :: "int \<Rightarrow> vconn \<Rightarrow> bool" where
  "settled v vconn \<longleftrightarrow> vc_version vconn = v \<and> vc_state vconn = (if v < vc_min_version vconn then VCS_SEND_ERROR else VCS_CONNECTED)"

lemma recv_hello_step:
  assumes "awaits m rest vconn w"
  obtains (waiting) vconn' w' where "vcs_step vconn w = Done (vconn', w')" "awaits m rest vconn' w'"
      "length (sk_in (nt_sock w')) < length (sk_in (nt_sock w))" "vc_min_version vconn' = vc_min_version vconn"
      "sk_out (nt_sock w') = sk_out (nt_sock w)" "sv_txbuf (vc_stream vconn') = sv_txbuf (vc_stream vconn)"
  | (hello) vconn' w' where "vcs_step vconn w = Done (vconn', w')" "settled (min 1 (uint (ld8 m 0))) vconn'"
      "vc_min_version vconn' = vc_min_version vconn" "rx_of (vc_stream vconn') @ sk_in (nt_sock w') = rest"
      "sk_out (nt_sock w') = sk_out (nt_sock w)" "sv_txbuf (vc_stream vconn') = sv_txbuf (vc_stream vconn)"
proof -
  let ?s = "vc_stream vconn" and ?k = "nt_sock w"
  obtain r msg s' k' where rc: "stream_recv ?s ?k = ((r, msg, s'), k')" by (metis surj_pair)
  then obtain b where l: "stream_recv_loop (rx_of ?s) ?k = ((r, msg, b), k')" and s': "s' = ?s\<lparr>sv_rxbuf := b\<rparr>"
    by (auto simp: stream_recv_def Let_def split: prod.splits)
  have a: "rx_of ?s @ sk_in ?k = m @ rest" "length (rx_of ?s) < length m" "ready ?k" "framed m" "ld8 m 1 = OFPT_HELLO"
    and st: "vc_state vconn = VCS_RECV_HELLO" "vc_version vconn = - 1"
    using assms by (auto simp: awaits_def)
  have ne: "sk_in ?k \<noteq> []" using a(1,2) by auto
  have "prefix (rx_of ?s) m" using prefix_of_stream [OF a(1)] a(2) by simp
  then have hd: "8 \<le> length (rx_of ?s) \<longrightarrow> length (rx_of ?s) < msg_length (rx_of ?s) \<and> 8 \<le> msg_length (rx_of ?s)"
    using prefix_msg_length [of "rx_of ?s" m] a(2,4) by (auto simp: framed_def)
  have k': "ready k'" "length (sk_in k') < length (sk_in ?k)" using ready_recv_loop [OF a(3) l] ne hd by auto
  have so: "sk_out k' = sk_out ?k" "sv_txbuf s' = sv_txbuf ?s" using stream_recv_result [OF rc] by (auto simp: same_out_def)
  from recv_loop_frame [OF _ _ a(4) l, of "[]" rest] a(1,2)
  consider (taken) "msg = Some m" "b = None" "r = 0" "sk_in k' = rest"
    | (waits) rx' where "msg = None" "b = Some rx'" "rx' @ sk_in k' = m @ rest" "length rx' < length m" by auto
  then show thesis
  proof cases
    case taken
    then have "do_recv (- 1) ?s ?k = Done (0, Some m, s', k')"
      using do_recv.simps [of "- 1" ?s ?k] rc a(4,5) by (simp add: framed_def any_version_def)
    then show thesis using hello st so s' taken a(5) by (simp add: vcs_step_def vcs_recv_hello_def settled_def Let_def)
  next
    case waits
    then have r: "r = EAGAIN" using ready_recv_waits [OF a(1) _ a(4,3)] l a(2) by simp
    then have "do_recv (- 1) ?s ?k = Done (EAGAIN, None, s', k')" using do_recv.simps [of "- 1" ?s ?k] rc by simp
    then show thesis using waiting st so s' waits k' a(4,5) assms
      by (simp add: vcs_step_def vcs_recv_hello_def awaits_def Let_def)
  qed
qed

lemma settled_connect:
  assumes "settled v vconn" "vc_min_version vconn \<le> v" "0 \<le> vc_min_version vconn"
  shows "vconn_connect vconn w = Done (0, vconn, w)"
  using assms vconn_connect_loop.simps [of vconn w] by (simp add: settled_def vconn_connect_def)

lemma awaits_connect:
  assumes "awaits m rest vconn w" "vc_min_version vconn \<le> min 1 (uint (ld8 m 0))"
  obtains (waiting) vconn' w' where "vconn_connect vconn w = Done (EAGAIN, vconn', w')" "awaits m rest vconn' w'"
      "length (sk_in (nt_sock w')) < length (sk_in (nt_sock w))" "vc_min_version vconn' = vc_min_version vconn"
      "output_of vconn' w' = output_of vconn w"
  | (hello) vconn' w' where "vconn_connect vconn w = Done (0, vconn', w')" "settled (min 1 (uint (ld8 m 0))) vconn'"
      "vc_min_version vconn' = vc_min_version vconn" "rx_of (vc_stream vconn') @ sk_in (nt_sock w') = rest"
      "output_of vconn' w' = output_of vconn w"
proof -
  have c: "vconn_connect vconn w = vconn_connect_loop vconn w" "vc_state vconn = VCS_RECV_HELLO"
    using assms by (simp_all add: vconn_connect_def awaits_def)
  note un = vconn_connect_loop.simps [of vconn w]
  show thesis
    using assms(1)
  proof (cases rule: recv_hello_step)
    case (waiting vconn' w')
    then show thesis using that(1) c un by (simp add: awaits_def)
  next
    case (hello vconn' w')
    then have "vconn_connect_loop vconn' w' = Done (0, vconn', w')"
      using assms(2) vconn_connect_loop.simps [of vconn' w'] by (simp add: settled_def)
    moreover have "vc_state vconn' = VCS_CONNECTED" using hello(2,3) assms(2) by (simp add: settled_def)
    ultimately show thesis using that(2) hello c un by simp
  qed
qed

lemma awaits_block:
  assumes "awaits m rest vconn w" "vc_min_version vconn \<le> min 1 (uint (ld8 m 0))" "length (sk_in (nt_sock w)) \<le> n"
  shows "\<exists>vconn' w'. connect_block n vconn w = Done (0, vconn', w') \<and> settled (min 1 (uint (ld8 m 0))) vconn'
    \<and> vc_min_version vconn' = vc_min_version vconn \<and> rx_of (vc_stream vconn') @ sk_in (nt_sock w') = rest
    \<and> output_of vconn' w' = output_of vconn w"
  using assms
proof (induction n arbitrary: vconn w)
  case 0
  then show ?case by (auto simp: awaits_def)
next
  case (Suc n)
  show ?case
    using Suc.prems(1,2)
  proof (cases rule: awaits_connect)
    case (waiting vconn' w')
    have "length (sk_in (nt_sock w')) \<le> n" using waiting(3) Suc.prems(3) by simp
    then show ?thesis using Suc.IH [OF waiting(2)] waiting Suc.prems(2) by simp
  next
    case (hello vconn' w')
    then show ?thesis by simp
  qed
qed



section \<open>Other versions and statistics\<close>

text \<open>
  C24. A connection of version 1 hands on messages of the types that are allowed in any version whatever version they name, and the switch, which
  asserts that each message has version 1, stops at the first that has another: a peer that sends such a message when a connection is established
  stops the switch.
\<close>

theorem other_version_stops_switch:
  assumes "protocol ss vconn w" "vc_state vconn = VCS_CONNECTED" "vc_stream vconn = \<lparr>sv_rxbuf = None, sv_txbuf = tx\<rparr>"
    and "sk_in (nt_sock w) = m @ rest" "framed m" "any_version (ld8 m 1)" "ld8 m 0 \<noteq> OFP_VERSION"
    and "sk_rd (nt_sock w) = Transfer c # Transfer d # es" "8 \<le> c" "length m \<le> d"
  shows "\<exists>vconn' w'. vconn_recv vconn w = Done (0, Some m, vconn', w') \<and> fwd_control_input ce sender m ad dp = Some Fault"
proof -
  let ?k = "nt_sock w"
  have m8: "8 \<le> length m" and ml: "msg_length m = length m" using assms(5) by (auto simp: framed_def)
  define k1 where "k1 = ?k\<lparr>sk_rd := Transfer d # es, sk_in := drop 8 (m @ rest)\<rparr>"
  have rd: "sock_read 8 ?k = (Ok (take 8 m), k1)" "length (take 8 m) = 8"
    using assms(4,8,9) m8 by (auto simp: sock_read_def Let_def k1_def min_def)
  have hl: "msg_length (take 8 m) = length m"
    using prefix_msg_length [of "take 8 m" m] assms(5) m8 take_is_prefix [of 8 m] by simp
  have "\<exists>k'. stream_recv_loop [] ?k = ((0, Some m, None), k')"
  proof -
    have a: "stream_recv_loop [] ?k = stream_recv_loop (take 8 m) k1"
      using rd by (subst stream_recv_loop.simps) (auto simp: want_bytes_def)
    note un = stream_recv_loop.simps [of "take 8 m" k1]
    have w: "want_bytes (take 8 m) = length m - 8" using want_bytes_body [of "take 8 m"] rd(2) hl m8 by simp
    show ?thesis
    proof (cases "length m = 8")
      case True
      then show ?thesis using a un w rd(2) hl by simp
    next
      case False
      have "sock_read (length m - 8) k1 = (Ok (drop 8 m), k1\<lparr>sk_rd := es, sk_in := rest\<rparr>)"
        using assms(10) False m8 by (auto simp: sock_read_def Let_def k1_def)
      then show ?thesis using a un w rd(2) hl False m8 by simp
    qed
  qed
  then obtain k' where "stream_recv (vc_stream vconn) ?k = ((0, Some m, (vc_stream vconn)\<lparr>sv_rxbuf := None\<rparr>), k')"
    using assms(3) by (auto simp: stream_recv_def)
  then have "do_recv (vc_version vconn) (vc_stream vconn) ?k = Done (0, Some m, (vc_stream vconn)\<lparr>sv_rxbuf := None\<rparr>, k')"
    using do_recv.simps [of "vc_version vconn" "vc_stream vconn" ?k] m8 assms(6) by simp
  moreover have "vconn_connect vconn w = Done (0, vconn, w)"
    using assms(1,2) vconn_connect_loop.simps [of vconn w] by (simp add: vconn_connect_def protocol_def)
  moreover have "fwd_control_input ce sender m ad dp = Some Fault"
    using assms(7) ml by (simp add: fwd_control_input_def ofp_header_of_def Let_def msg_length_def)
  ultimately show ?thesis by (auto simp: vconn_recv_def)
qed

text \<open>An echo request of version 4 on a connection that was set up in version 1.\<close>

theorem other_version_stops_switch_witness:
  "let m = [4, 2, 0, 8, 0, 0, 0, 9];
       vconn = (vconn_init 0)\<lparr>vc_min_version := 1, vc_state := VCS_CONNECTED, vc_version := 1\<rparr>;
       w = \<lparr>nt_sock = \<lparr>sk_in = m, sk_rd = [Transfer 99, Transfer 99], sk_out = hello 7, sk_wr = []\<rparr>, nt_connect = [], nt_xid = []\<rparr>
   in \<exists>vconn' w'. vconn_recv vconn w = Done (0, Some m, vconn', w')
     \<and> (\<forall>ce sender (ad :: agent \<times> unit) dp. fwd_control_input ce sender m ad dp = Some Fault)"
proof -
  let ?m = "[4, 2, 0, 8, 0, 0, 0, 9] :: u8 list"
  let ?v = "(vconn_init 0)\<lparr>vc_min_version := 1, vc_state := VCS_CONNECTED, vc_version := 1\<rparr>"
  let ?w = "\<lparr>nt_sock = \<lparr>sk_in = ?m, sk_rd = [Transfer 99, Transfer 99], sk_out = hello 7, sk_wr = []\<rparr>, nt_connect = [], nt_xid = []\<rparr>"
  have f: "framed ?m" by code_simp
  have p: "protocol [] ?v ?w" by (auto simp: protocol_def vconn_init_def)
  have h: "any_version (ld8 ?m 1)" "ld8 ?m 0 \<noteq> OFP_VERSION" by (simp_all add: any_version_def ld8_def)
  have all: "\<exists>vconn' w'. vconn_recv ?v ?w = Done (0, Some ?m, vconn', w') \<and> fwd_control_input ce sender ?m ad dp = Some Fault"
    for ce sender and ad :: "agent \<times> unit" and dp
    by (rule other_version_stops_switch [OF p _ _ _ f h, where c = 99 and d = 99 and es = "[]" and rest = "[]"]) (simp_all add: vconn_init_def)
  then show ?thesis unfolding Let_def by blast
qed

text \<open>An error message that was sent is not counted, one that was not is.\<close>

lemma send_error_counts_failures:
  assumes "vcs_send_error vconn w = Done (vconn', w')"
  shows "vc_state vconn' = VCS_DISCONNECTED \<and> vc_error vconn' = EPROTO \<and> vc_sent vconn' = vc_sent vconn
       \<or> ofps_error (vc_sent vconn') = ofps_error (vc_sent vconn) + 1"
  using assms
  by (auto simp: vcs_send_error_def Let_def split: prod.splits option.splits run.splits if_splits)

section \<open>Received messages are whole\<close>

text \<open>A receive buffer holds at most the message that its header announces.\<close>

definition rx_fits :: "u8 list \<Rightarrow> bool" where
  "rx_fits rx \<longleftrightarrow> (8 \<le> length rx \<and> 8 \<le> msg_length rx \<longrightarrow> length rx \<le> msg_length rx)"

lemma recv_loop_fits:
  "stream_recv_loop rx k = ((r, msg, b), k') \<Longrightarrow> rx_fits rx
     \<Longrightarrow> (\<forall>m. msg = Some m \<longrightarrow> framed m) \<and> (\<forall>rx'. b = Some rx' \<longrightarrow> rx_fits rx')"
proof (induction rx k arbitrary: r msg b k' rule: stream_recv_loop.induct)
  case (1 rx k)
  note un = stream_recv_loop.simps [of rx k]
  show ?case
  proof (cases "8 \<le> length rx \<and> (msg_length rx < 8 \<or> want_bytes rx = 0)")
    case True
    then have "framed rx" if "\<not> msg_length rx < 8"
      using that "1.prems"(2) want_bytes_body [of rx] by (auto simp: rx_fits_def framed_def)
    then show ?thesis using True un "1.prems" by (auto split: if_splits)
  next
    case False
    then have c1: "\<not> (8 \<le> length rx \<and> msg_length rx < 8)" and c2: "\<not> (8 \<le> length rx \<and> want_bytes rx = 0)" by auto
    obtain res k1 where rd: "sock_read (want_bytes rx) k = (res, k1)" by (metis surj_pair)
    show ?thesis
    proof (cases res)
      case (Errno e)
      then show ?thesis using un c1 c2 rd "1.prems" by auto
    next
      case (Ok bs)
      have le: "length bs \<le> want_bytes rx" using sock_read_Ok rd Ok by blast
      have w: "8 \<le> length rx \<Longrightarrow> want_bytes rx = msg_length rx - length rx \<and> length rx \<le> msg_length rx"
        using want_bytes_body [of rx] "1.prems"(2) c1 by (auto simp: rx_fits_def)
      have ml: "8 \<le> length rx \<Longrightarrow> msg_length (rx @ bs) = msg_length rx" using msg_length_append [of rx bs] by simp
      have short: "length rx < 8 \<Longrightarrow> length (rx @ bs) \<le> 8" using le want_bytes_header [of rx] by simp
      have fits: "rx_fits (rx @ bs)"
      proof (cases "8 \<le> length rx")
        case True
        then show ?thesis using w ml le by (auto simp: rx_fits_def)
      next
        case False
        then show ?thesis using short by (simp add: rx_fits_def)
      qed
      consider (end_of_stream) "bs = []" | (part) "bs \<noteq> []" "length bs \<noteq> want_bytes rx"
        | (whole) "bs \<noteq> []" "length bs = want_bytes rx" "8 < length (rx @ bs)"
        | (header) "bs \<noteq> []" "length bs = want_bytes rx" "\<not> 8 < length (rx @ bs)" by blast
      then show ?thesis
      proof cases
        case end_of_stream
        then show ?thesis using un c1 c2 rd Ok "1.prems" by auto
      next
        case part
        then show ?thesis using un c1 c2 rd Ok "1.prems"(1) fits by auto
      next
        case whole
        then have l8: "8 \<le> length rx" using short by linarith
        have "length (rx @ bs) = msg_length (rx @ bs)" using whole(2) w [OF l8] ml [OF l8] by simp
        then have "framed (rx @ bs)" using whole(3) by (simp add: framed_def)
        then show ?thesis using un c1 c2 rd Ok "1.prems"(1) whole by auto
      next
        case header
        then have "stream_recv_loop (rx @ bs) k1 = ((r, msg, b), k')" using un c1 c2 rd Ok "1.prems"(1) by auto
        from "1.IH" [OF c1 c2 rd [symmetric] Ok header this fits] show ?thesis .
      qed
    qed
  qed
qed

lemma stream_recv_fits:
  assumes "stream_recv s k = ((r, msg, s'), k')" "rx_fits (rx_of s)"
  shows "(\<forall>m. msg = Some m \<longrightarrow> framed m) \<and> rx_fits (rx_of s')"
proof -
  obtain b where l: "stream_recv_loop (rx_of s) k = ((r, msg, b), k')" "s' = s\<lparr>sv_rxbuf := b\<rparr>"
    using assms(1) by (auto simp: stream_recv_def Let_def split: prod.splits)
  have "rx_fits []" by (simp add: rx_fits_def)
  then show ?thesis using recv_loop_fits [OF l(1) assms(2)] l(2) by (auto split: option.split)
qed

lemma do_recv_fits:
  "do_recv v s k = Done (r, msg, s', k') \<Longrightarrow> rx_fits (rx_of s) \<Longrightarrow> (\<forall>m. msg = Some m \<longrightarrow> framed m) \<and> rx_fits (rx_of s')"
proof (induction v s k rule: do_recv.induct)
  case (1 v s k)
  obtain r1 msg1 s1 k1 where rc: "stream_recv s k = ((r1, msg1, s1), k1)" by (metis surj_pair)
  note fits = stream_recv_fits [OF rc "1.prems"(2)]
  note un = do_recv.simps [of v s k]
  show ?case
  proof (cases "r1 = 0 \<and> msg1 \<noteq> None \<and> \<not> length (the msg1) < 8 \<and> uint (ld8 (the msg1) 0) \<noteq> v \<and> \<not> any_version (ld8 (the msg1) 1)
      \<and> v < 0 \<and> (ld8 (the msg1) 1 = OFPT_PACKET_IN \<or> ld8 (the msg1) 1 = OFPT_FLOW_REMOVED \<or> ld8 (the msg1) 1 = OFPT_PORT_STATUS)")
    case True
    then obtain m where m: "msg1 = Some m" by auto
    then have "do_recv v s1 k1 = Done (r, msg, s', k')" using True un rc "1.prems"(1) by auto
    from "1.IH" [OF rc [symmetric] refl refl _ m _ _ _ this] True m fits show ?thesis by auto
  next
    case False
    then show ?thesis using un rc "1.prems"(1) fits by (auto split: option.splits if_splits)
  qed
qed

lemma do_send_fits: "do_send m s k = Done (r, s', k') \<Longrightarrow> sv_rxbuf s' = sv_rxbuf s"
proof -
  assume a: "do_send m s k = Done (r, s', k')"
  obtain r1 s1 k1 where s: "stream_send m s k = ((r1, s1), k1)" by (metis surj_pair)
  then have "s1 = s'" using a by (simp add: do_send_def split: if_splits)
  then show ?thesis using stream_send_frame [OF s] by simp
qed

lemma vcs_step_fits:
  assumes "vcs_step vconn w = Done (vconn', w')" "rx_fits (rx_of (vc_stream vconn))"
  shows "rx_fits (rx_of (vc_stream vconn'))"
proof (cases "vc_state vconn")
  case VCS_CONNECTING
  then show ?thesis using assms by (auto simp: vcs_step_def vcs_connecting_def Let_def split: prod.splits if_splits)
next
  case VCS_SEND_HELLO
  then show ?thesis using assms
    by (auto simp: vcs_step_def vcs_send_hello_def Let_def dest!: do_send_fits split: prod.splits option.splits run.splits if_splits)
next
  case VCS_RECV_HELLO
  obtain r msg s k where d: "do_recv (vc_version vconn) (vc_stream vconn) (nt_sock w) = Done (r, msg, s, k)"
    using assms(1) VCS_RECV_HELLO by (auto simp: vcs_step_def vcs_recv_hello_def split: run.splits)
  have "vc_stream vconn' = s" using assms(1) VCS_RECV_HELLO d
    by (auto simp: vcs_step_def vcs_recv_hello_def Let_def split: option.splits if_splits)
  then show ?thesis using do_recv_fits [OF d assms(2)] by simp
next
  case VCS_SEND_ERROR
  then show ?thesis using assms
    by (auto simp: vcs_step_def vcs_send_error_def Let_def dest!: do_send_fits split: prod.splits option.splits run.splits if_splits)
qed (use assms in \<open>auto simp: vcs_step_def\<close>)

lemma vconn_connect_loop_fits:
  "vconn_connect_loop vconn w = Done (r, vconn', w') \<Longrightarrow> rx_fits (rx_of (vc_stream vconn)) \<Longrightarrow> rx_fits (rx_of (vc_stream vconn'))"
proof (induction vconn w rule: vconn_connect_loop.induct)
  case (1 vconn w)
  note un = vconn_connect_loop.simps [of vconn w]
  show ?case
  proof (cases "vc_state vconn = VCS_CONNECTED \<or> vc_state vconn = VCS_DISCONNECTED")
    case True
    then show ?thesis using un "1.prems" by (auto split: if_splits)
  next
    case False
    then obtain vconn1 w1 where st: "vcs_step vconn w = Done (vconn1, w1)" using un "1.prems"(1) by (auto split: run.splits)
    have f: "rx_fits (rx_of (vc_stream vconn1))" using vcs_step_fits [OF st "1.prems"(2)] .
    show ?thesis
    proof (cases "vc_state vconn1 = vc_state vconn")
      case True
      then show ?thesis using un "1.prems"(1) False st f by auto
    next
      case ne: False
      show ?thesis using "1.IH" [OF _ _ st refl ne _ f] un "1.prems"(1) False st ne by auto
    qed
  qed
qed

lemma vconn_connect_fits:
  "vconn_connect vconn w = Done (r, vconn', w') \<Longrightarrow> rx_fits (rx_of (vc_stream vconn)) \<Longrightarrow> rx_fits (rx_of (vc_stream vconn'))"
  using vconn_connect_loop_fits by (simp add: vconn_connect_def split: if_splits)

lemma vconn_send_fits:
  assumes "vconn_send m vconn w = Done (r, vconn', w')" "rx_fits (rx_of (vc_stream vconn))"
  shows "rx_fits (rx_of (vc_stream vconn'))"
proof -
  obtain r1 vconn1 w1 where c: "vconn_connect vconn w = Done (r1, vconn1, w1)"
    using assms(1) by (auto simp: vconn_send_def split: run.splits)
  from vconn_connect_fits [OF this assms(2)] show ?thesis
    using assms(1) c by (auto simp: vconn_send_def dest!: do_send_fits split: run.splits if_splits)
qed

lemma vconn_recv_fits:
  assumes "vconn_recv vconn w = Done (r, msg, vconn', w')" "rx_fits (rx_of (vc_stream vconn))"
  shows "(\<forall>m. msg = Some m \<longrightarrow> framed m) \<and> rx_fits (rx_of (vc_stream vconn'))"
proof -
  obtain r1 vconn1 w1 where c: "vconn_connect vconn w = Done (r1, vconn1, w1)"
    using assms(1) by (auto simp: vconn_recv_def split: run.splits)
  note f = vconn_connect_fits [OF this assms(2)]
  show ?thesis
  proof (cases "r1 = 0")
    case True
    then obtain r2 s k where d: "do_recv (vc_version vconn1) (vc_stream vconn1) (nt_sock w1) = Done (r2, msg, s, k)" "vc_stream vconn' = s"
      using assms(1) c by (auto simp: vconn_recv_def split: run.splits)
    then show ?thesis using do_recv_fits [OF d(1) f] by simp
  next
    case False
    then show ?thesis using assms(1) c f by (auto simp: vconn_recv_def)
  qed
qed
end
