(* ===== verification/Sat_Math.thy ===== *)
theory Sat_Math
  imports OF_Prelude
begin

text \<open>
  Saturating arithmetic on unsigned integers, \<^verbatim>\<open>src/openflow/lib/sat-math.h\<close>, with which timers are computed.
\<close>

abbreviation UINT_MAX :: u32 where "UINT_MAX \<equiv> 0xffffffff"

definition sat_add :: "u32 \<Rightarrow> u32 \<Rightarrow> u32" where
  "sat_add x y = (if x + y \<ge> x then x + y else UINT_MAX)"

definition sat_sub :: "u32 \<Rightarrow> u32 \<Rightarrow> u32" where
  "sat_sub x y = (if x \<ge> y then x - y else 0)"

definition sat_mul :: "u32 \<Rightarrow> u32 \<Rightarrow> u32" where
  "sat_mul x y = (if y = 0 then 0 else if x \<le> UINT_MAX div y then x * y else UINT_MAX)"

text \<open>The operations are those of the integers, up to the bounds.\<close>

lemma unat_sat_add: "unat (sat_add x y) = min (unat x + unat y) (2 ^ 32 - 1)"
proof (cases "unat x + unat y < 2 ^ 32")
  case True
  then have "unat (x + y) = unat x + unat y" by (simp add: unat_plus_if')
  then show ?thesis using True by (simp add: sat_add_def word_le_nat_alt)
next
  case False
  then have "unat (x + y) = unat x + unat y - 2 ^ 32" by (simp add: unat_plus_if')
  then show ?thesis using False unat_u32_bound [of y] by (simp add: sat_add_def word_le_nat_alt)
qed

lemma unat_sat_sub: "unat (sat_sub x y) = unat x - unat y"
  by (simp add: sat_sub_def unat_sub_if' word_le_nat_alt)

lemma unat_sat_mul: "unat (sat_mul x y) = min (unat x * unat y) (2 ^ 32 - 1)"
proof (cases "y = 0")
  case False
  then have y: "0 < unat y" by (simp add: unat_gt_0)
  have "x \<le> UINT_MAX div y \<longleftrightarrow> unat x \<le> (2 ^ 32 - 1) div unat y" by (simp add: word_le_nat_alt unat_div)
  also have "\<dots> \<longleftrightarrow> unat x * unat y \<le> 2 ^ 32 - 1" using y by (simp add: less_eq_div_iff_mult_less_eq)
  finally have c: "x \<le> UINT_MAX div y \<longleftrightarrow> unat x * unat y \<le> 2 ^ 32 - 1" .
  show ?thesis
  proof (cases "unat x * unat y \<le> 2 ^ 32 - 1")
    case True
    then have "unat x * unat y < 2 ^ 32" by simp
    then have "unat (x * y) = unat x * unat y" by (simp add: unat_mult_lem [THEN iffD1])
    then show ?thesis using c True False by (simp add: sat_mul_def)
  next
    case f: False
    then show ?thesis using c False by (simp add: sat_mul_def)
  qed
qed (simp add: sat_mul_def)

lemma sat_add_later:
  assumes "0 \<le> t" "t < 2 ^ 32 - 1" "0 < d" "d < 2 ^ 32"
  shows "t < uint (sat_add (of_int t) (of_int d))"
proof -
  have u: "uint (of_int t :: u32) = t" "uint (of_int d :: u32) = d" using assms by (simp_all add: uint_word_of_int)
  show ?thesis
  proof (cases "t + d < 2 ^ 32")
    case True
    then have "uint (of_int t + of_int d :: u32) = t + d" using assms u by (simp add: uint_plus_if')
    then show ?thesis using assms u by (simp add: sat_add_def word_le_def)
  next
    case False
    then have "uint (of_int t + of_int d :: u32) = t + d - 2 ^ 32" using assms u by (simp add: uint_plus_if')
    then show ?thesis using assms u by (simp add: sat_add_def word_le_def)
  qed
qed

end
