(* ===== verification/Rconn.thy ===== *)
theory Rconn
  imports Vconn Sat_Math
begin

text \<open>
  Reliable connections, \<^verbatim>\<open>src/openflow/lib/rconn.c\<close>: a state machine over an OpenFlow connection that opens it again with growing pauses, probes a silent peer,
  and queues the messages of its client. A connection holds the pair of its \<open>vconn\<close> and its net; \<open>rc_n_queued\<close> is the client's counter to
  which the messages that are counted point. The time is a parameter of every operation, the seconds that \<^verbatim>\<open>time_now\<close> gives during the call; \<open>op\<close> says what
  comes of opening a name at the n-th attempt, and \<open>xid\<close> is the random number that a probe gets. The statistics by type of message
  (\<^verbatim>\<open>ofpstat.c\<close>) are left out.
\<close>

section \<open>State\<close>

datatype rc_state = S_VOID | S_BACKOFF | S_CONNECTING | S_ACTIVE | S_IDLE

record rconn =
  rc_state :: rc_state
  rc_state_entered :: int
  rc_vconn :: "(vconn \<times> net) option"
  rc_name :: string
  rc_reliable :: bool
  rc_txq :: "(u8 list \<times> bool) list"
  rc_n_queued :: int
  rc_backoff :: int
  rc_max_backoff :: int
  rc_backoff_deadline :: int
  rc_last_received :: int
  rc_last_connected :: int
  rc_packets_sent :: u32
  rc_seqno :: u32
  rc_probably_admitted :: bool
  rc_last_admitted :: int
  rc_packets_received :: u32
  rc_n_attempted :: u32
  rc_n_successful :: u32
  rc_creation_time :: int
  rc_total_time_connected :: u64
  rc_questionable :: bool
  rc_last_questioned :: int
  rc_probe_interval :: int
  rc_monitors :: "(vconn \<times> net) list"
  rc_idle_echo_xid :: u32

abbreviation EAFNOSUPPORT :: int where "EAFNOSUPPORT \<equiv> 97"
abbreviation TIME_MIN :: int where "TIME_MIN \<equiv> - 9223372036854775808"
abbreviation TIME_MAX :: int where "TIME_MAX \<equiv> 9223372036854775807"

definition rconn_create :: "int \<Rightarrow> int \<Rightarrow> int \<Rightarrow> rconn" where
  "rconn_create now probe_interval max_backoff =
     \<lparr>rc_state = S_VOID, rc_state_entered = now, rc_vconn = None, rc_name = ''void'', rc_reliable = False, rc_txq = [], rc_n_queued = 0,
      rc_backoff = 0, rc_max_backoff = (if max_backoff \<noteq> 0 then max_backoff else 60), rc_backoff_deadline = TIME_MIN,
      rc_last_received = now, rc_last_connected = now, rc_packets_sent = 0, rc_seqno = 0, rc_probably_admitted = False, rc_last_admitted = now,
      rc_packets_received = 0, rc_n_attempted = 0, rc_n_successful = 0, rc_creation_time = now, rc_total_time_connected = 0,
      rc_questionable = False, rc_last_questioned = now, rc_probe_interval = (if probe_interval \<noteq> 0 then max 1 probe_interval else 0),
      rc_monitors = [], rc_idle_echo_xid = 0\<rparr>"

definition is_connected_state :: "rc_state \<Rightarrow> bool" where
  "is_connected_state st \<longleftrightarrow> st = S_ACTIVE \<or> st = S_IDLE"

definition rconn_is_alive :: "rconn \<Rightarrow> bool" where
  "rconn_is_alive rc \<longleftrightarrow> rc_state rc \<noteq> S_VOID"

definition rconn_is_connected :: "rconn \<Rightarrow> bool" where
  "rconn_is_connected rc \<longleftrightarrow> is_connected_state (rc_state rc)"

section \<open>Time\<close>

definition elapsed_in_this_state :: "int \<Rightarrow> rconn \<Rightarrow> u32" where
  "elapsed_in_this_state now rc = of_int (now - rc_state_entered rc)"

definition rconn_timeout :: "rconn \<Rightarrow> u32" where
  "rconn_timeout rc =
     (case rc_state rc of
        S_VOID \<Rightarrow> UINT_MAX
      | S_BACKOFF \<Rightarrow> of_int (rc_backoff rc)
      | S_CONNECTING \<Rightarrow> of_int (max 1 (rc_backoff rc))
      | S_ACTIVE \<Rightarrow>
          (if rc_probe_interval rc \<noteq> 0 then
             (let base = (of_int (max (rc_last_received rc) (rc_state_entered rc)) :: u32)
              in base + of_int (rc_probe_interval rc) - of_int (rc_state_entered rc))
           else UINT_MAX)
      | S_IDLE \<Rightarrow> of_int (rc_probe_interval rc))"

definition timed_out :: "int \<Rightarrow> rconn \<Rightarrow> bool" where
  "timed_out now rc \<longleftrightarrow> now \<ge> uint (sat_add (of_int (rc_state_entered rc)) (rconn_timeout rc))"

definition rc_transition :: "int \<Rightarrow> rc_state \<Rightarrow> rconn \<Rightarrow> rconn" where
  "rc_transition now st rc =
     (let rc = (if (rc_state rc = S_ACTIVE) \<noteq> (st = S_ACTIVE) then rc\<lparr>rc_seqno := rc_seqno rc + 1\<rparr> else rc);
          rc = (if is_connected_state st \<and> \<not> is_connected_state (rc_state rc) then rc\<lparr>rc_probably_admitted := False\<rparr> else rc);
          rc = (if rconn_is_connected rc
                then rc\<lparr>rc_total_time_connected := rc_total_time_connected rc + ucast (elapsed_in_this_state now rc)\<rparr> else rc)
      in rc\<lparr>rc_state := st, rc_state_entered := now\<rparr>)"

definition question_connectivity :: "int \<Rightarrow> rconn \<Rightarrow> rconn" where
  "question_connectivity now rc =
     (if now - rc_last_questioned rc > 60 then rc\<lparr>rc_questionable := True, rc_last_questioned := now\<rparr> else rc)"

section \<open>Disconnecting\<close>

text \<open>Each message that is dropped and counted lowers the counter.\<close>

definition flush_queue :: "rconn \<Rightarrow> rconn" where
  "flush_queue rc = rc\<lparr>rc_txq := [], rc_n_queued := rc_n_queued rc - int (length (filter snd (rc_txq rc)))\<rparr>"

definition rconn_disconnect :: "int \<Rightarrow> rconn \<Rightarrow> rconn" where
  "rconn_disconnect now rc =
     (if rc_state rc \<noteq> S_VOID then
        rc_transition now S_VOID
          (rc\<lparr>rc_vconn := None, rc_name := ''void'', rc_reliable := False, rc_backoff := 0, rc_backoff_deadline := TIME_MIN\<rparr>)
      else rc)"

definition rc_disconnect :: "int \<Rightarrow> rconn \<Rightarrow> rconn" where
  "rc_disconnect now rc =
     (if rc_reliable rc then
        (let rc = (if rc_state rc = S_CONNECTING \<or> rc_state rc = S_ACTIVE \<or> rc_state rc = S_IDLE
                   then flush_queue (rc\<lparr>rc_vconn := None\<rparr>) else rc);
             rc = (if now \<ge> rc_backoff_deadline rc then rc\<lparr>rc_backoff := 1\<rparr>
                   else rc\<lparr>rc_backoff := min (rc_max_backoff rc) (max 1 (2 * rc_backoff rc))\<rparr>);
             rc = rc\<lparr>rc_backoff_deadline := now + rc_backoff rc\<rparr>;
             rc = rc_transition now S_BACKOFF rc
         in if now - rc_last_connected rc > 60 then question_connectivity now rc else rc)
      else rconn_disconnect now rc)"

section \<open>Connecting\<close>

text \<open>
  What comes of opening: an error, or a connection with the status of \<^verbatim>\<open>connect\<close>, whether its name can be opened again, and the net behind it. The classes
  are those of a build without netlink and OpenSSL.
\<close>

datatype opened = Open_failed int | Opened int bool net

definition vconn_classes :: "string list" where
  "vconn_classes = [''tcp'', ''unix'']"

definition vconn_open :: "(string \<Rightarrow> u32 \<Rightarrow> opened) \<Rightarrow> string \<Rightarrow> int \<Rightarrow> u32 \<Rightarrow> int \<times> ((vconn \<times> net) \<times> bool) option" where
  "vconn_open op name min_version n =
     (let prefix = takeWhile (\<lambda>c. c \<noteq> CHR '':'') name
      in if prefix = name then (EAFNOSUPPORT, None)
         else if prefix \<in> set vconn_classes then
           (case op name n of
              Open_failed e \<Rightarrow> (e, None)
            | Opened status reconnectable w \<Rightarrow> (0, Some (((vconn_init status)\<lparr>vc_min_version := min_version\<rparr>, w), reconnectable)))
         else (EAFNOSUPPORT, None))"

definition reconnect :: "int \<Rightarrow> (string \<Rightarrow> u32 \<Rightarrow> opened) \<Rightarrow> rconn \<Rightarrow> int \<times> rconn" where
  "reconnect now op rc =
     (let rc = rc\<lparr>rc_n_attempted := rc_n_attempted rc + 1\<rparr>
      in (case vconn_open op (rc_name rc) 1 (rc_n_attempted rc) of
            (retval, Some (vw, reconnectable)) \<Rightarrow>
              (let rc = rc\<lparr>rc_vconn := Some vw\<rparr>;
                   rc = (if reconnectable then rc else rc\<lparr>rc_reliable := False\<rparr>)
               in (retval, rc_transition now S_CONNECTING (rc\<lparr>rc_backoff_deadline := now + rc_backoff rc\<rparr>)))
          | (retval, None) \<Rightarrow> (retval, rc_disconnect now (rc\<lparr>rc_vconn := None, rc_backoff_deadline := TIME_MAX\<rparr>))))"

definition rconn_connect :: "int \<Rightarrow> (string \<Rightarrow> u32 \<Rightarrow> opened) \<Rightarrow> string \<Rightarrow> rconn \<Rightarrow> int \<times> rconn" where
  "rconn_connect now op name rc = reconnect now op ((rconn_disconnect now rc)\<lparr>rc_name := name, rc_reliable := True\<rparr>)"

definition rconn_connect_unreliably :: "int \<Rightarrow> string \<Rightarrow> vconn \<times> net \<Rightarrow> rconn \<Rightarrow> rconn" where
  "rconn_connect_unreliably now name vw rc =
     rc_transition now S_ACTIVE
       ((rconn_disconnect now rc)\<lparr>rc_name := name, rc_reliable := False, rc_vconn := Some vw, rc_last_connected := now\<rparr>)"

definition rconn_new_from_vconn :: "int \<Rightarrow> string \<Rightarrow> vconn \<times> net \<Rightarrow> rconn" where
  "rconn_new_from_vconn now name vw = rconn_connect_unreliably now name vw (rconn_create now 60 0)"

section \<open>Monitors\<close>

text \<open>A monitor that fails gives its place to the last.\<close>

definition remove_monitor :: "nat \<Rightarrow> 'a list \<Rightarrow> 'a list" where
  "remove_monitor i ms = butlast (ms[i := last ms])"

function copy_to_monitors :: "u8 list \<Rightarrow> nat \<Rightarrow> (vconn \<times> net) list \<Rightarrow> (vconn \<times> net) list run" where
  "copy_to_monitors b i ms =
     (if i < length ms then
        (case vconn_send b (fst (ms ! i)) (snd (ms ! i)) of
           Fault \<Rightarrow> Fault
         | Done (retval, vw) \<Rightarrow>
             (if retval \<noteq> 0 \<and> retval \<noteq> EAGAIN then copy_to_monitors b i (remove_monitor i ms)
              else copy_to_monitors b (i + 1) (ms[i := vw])))
      else Done ms)"
  by pat_completeness auto
termination by (relation "measure (\<lambda>(_, i, ms). length ms - i)") (auto simp: remove_monitor_def)

declare copy_to_monitors.simps [simp del]

definition copy_to_monitor :: "u8 list \<Rightarrow> rconn \<Rightarrow> rconn run" where
  "copy_to_monitor b rc =
     (case copy_to_monitors b 0 (rc_monitors rc) of Fault \<Rightarrow> Fault | Done ms \<Rightarrow> Done (rc\<lparr>rc_monitors := ms\<rparr>))"

definition rconn_add_monitor :: "vconn \<times> net \<Rightarrow> rconn \<Rightarrow> rconn" where
  "rconn_add_monitor vw rc = (if length (rc_monitors rc) < 8 then rc\<lparr>rc_monitors := rc_monitors rc @ [vw]\<rparr> else rc)"

section \<open>Sending\<close>

definition try_send :: "int \<Rightarrow> rconn \<Rightarrow> (int \<times> rconn) run" where
  "try_send now rc =
     (case (rc_txq rc, rc_vconn rc) of
        ((b, counted) # txq, Some (vconn, w)) \<Rightarrow>
          (case vconn_send b vconn w of
             Fault \<Rightarrow> Fault
           | Done (retval, vw) \<Rightarrow>
               (let rc = rc\<lparr>rc_vconn := Some vw, rc_idle_echo_xid := ld32 b 4\<rparr>
                in if retval \<noteq> 0 then
                     (let rc = rc\<lparr>rc_idle_echo_xid := 0\<rparr>
                      in Done (retval, if retval \<noteq> EAGAIN then rc_disconnect now rc else rc))
                   else
                     Done (0, rc\<lparr>rc_packets_sent := rc_packets_sent rc + 1,
                                 rc_n_queued := (if counted then rc_n_queued rc - 1 else rc_n_queued rc), rc_txq := txq\<rparr>)))
      | _ \<Rightarrow> Fault)"

lemma try_send_sent: "try_send now rc = Done (0, rc') \<Longrightarrow> rc_txq rc = hd (rc_txq rc) # rc_txq rc'"
  by (auto simp: try_send_def Let_def split: list.splits option.splits run.splits prod.splits if_splits)

function do_tx_work :: "int \<Rightarrow> rconn \<Rightarrow> rconn run" where
  "do_tx_work now rc =
     (if rc_txq rc = [] then Done rc
      else (case try_send now rc of
              Fault \<Rightarrow> Fault
            | Done (error, rc') \<Rightarrow> if error \<noteq> 0 then Done rc' else do_tx_work now rc'))"
  by pat_completeness auto
termination
proof (relation "measure (\<lambda>(_, rc). length (rc_txq rc))")
  fix now rc x error rc' assume "try_send now rc = Done x" "(error, rc') = x" "\<not> error \<noteq> 0"
  then have "rc_txq rc = hd (rc_txq rc) # rc_txq rc'" by (auto intro: try_send_sent)
  then show "((now, rc'), (now, rc)) \<in> measure (\<lambda>(_, rc). length (rc_txq rc))" by (metis case_prod_conv in_measure length_Cons lessI)
qed simp

declare do_tx_work.simps [simp del]

definition rconn_send :: "int \<Rightarrow> u8 list \<Rightarrow> bool \<Rightarrow> rconn \<Rightarrow> (int \<times> rconn) run" where
  "rconn_send now b counted rc =
     (if rconn_is_connected rc then
        (case copy_to_monitor b rc of
           Fault \<Rightarrow> Fault
         | Done rc \<Rightarrow>
             (let rc = rc\<lparr>rc_n_queued := (if counted then rc_n_queued rc + 1 else rc_n_queued rc), rc_txq := rc_txq rc @ [(b, counted)]\<rparr>
              in if length (rc_txq rc) = 1 then
                   (case try_send now rc of Fault \<Rightarrow> Fault | Done (_, rc) \<Rightarrow> Done (0, rc))
                 else Done (0, rc)))
      else Done (ENOTCONN, rc))"

definition rc_send_with_limit :: "int \<Rightarrow> u8 list \<Rightarrow> int \<Rightarrow> rconn \<Rightarrow> (int \<times> rconn) run" where
  "rc_send_with_limit now b queue_limit rc =
     (if rc_n_queued rc \<ge> queue_limit then Done (EAGAIN, rc) else rconn_send now b True rc)"

section \<open>Running\<close>

definition make_echo_request :: "u32 \<Rightarrow> u8 list" where
  "make_echo_request xid = ofp_header_bytes \<lparr>oh_version = 1, oh_type = OFPT_ECHO_REQUEST, oh_length = htons 8, oh_xid = xid\<rparr>"

definition run_BACKOFF :: "int \<Rightarrow> (string \<Rightarrow> u32 \<Rightarrow> opened) \<Rightarrow> rconn \<Rightarrow> rconn run" where
  "run_BACKOFF now op rc = Done (if timed_out now rc then snd (reconnect now op rc) else rc)"

definition run_CONNECTING :: "int \<Rightarrow> rconn \<Rightarrow> rconn run" where
  "run_CONNECTING now rc =
     (case rc_vconn rc of
        None \<Rightarrow> Fault
      | Some (vconn, w) \<Rightarrow>
          (case vconn_connect vconn w of
             Fault \<Rightarrow> Fault
           | Done (retval, vw) \<Rightarrow>
               (let rc = rc\<lparr>rc_vconn := Some vw\<rparr>
                in if retval = 0 then
                     (let rc = rc_transition now S_ACTIVE (rc\<lparr>rc_n_successful := rc_n_successful rc + 1\<rparr>)
                      in Done (rc\<lparr>rc_last_connected := rc_state_entered rc\<rparr>))
                   else if retval \<noteq> EAGAIN then Done (rc_disconnect now rc)
                   else if timed_out now rc then Done (rc_disconnect now (rc\<lparr>rc_backoff_deadline := TIME_MAX\<rparr>))
                   else Done rc)))"

definition run_ACTIVE :: "int \<Rightarrow> u32 \<Rightarrow> rconn \<Rightarrow> rconn run" where
  "run_ACTIVE now xid rc =
     (if timed_out now rc then
        (case rconn_send now (make_echo_request xid) False (rc_transition now S_IDLE rc) of Fault \<Rightarrow> Fault | Done (_, rc) \<Rightarrow> Done rc)
      else do_tx_work now rc)"

definition run_IDLE :: "int \<Rightarrow> rconn \<Rightarrow> rconn run" where
  "run_IDLE now rc = (if timed_out now rc then Done (rc_disconnect now (question_connectivity now rc)) else do_tx_work now rc)"

definition run_state :: "int \<Rightarrow> (string \<Rightarrow> u32 \<Rightarrow> opened) \<Rightarrow> u32 \<Rightarrow> rconn \<Rightarrow> rconn run" where
  "run_state now op xid rc =
     (case rc_state rc of
        S_VOID \<Rightarrow> Done rc
      | S_BACKOFF \<Rightarrow> run_BACKOFF now op rc
      | S_CONNECTING \<Rightarrow> run_CONNECTING now rc
      | S_ACTIVE \<Rightarrow> run_ACTIVE now xid rc
      | S_IDLE \<Rightarrow> run_IDLE now rc)"

text \<open>\<open>None\<close>: the loop never ends.\<close>

partial_function (option) rconn_run :: "int \<Rightarrow> (string \<Rightarrow> u32 \<Rightarrow> opened) \<Rightarrow> u32 \<Rightarrow> rconn \<Rightarrow> rconn run option" where
  "rconn_run now op xid rc =
     (case run_state now op xid rc of
        Fault \<Rightarrow> Some Fault
      | Done rc' \<Rightarrow> if rc_state rc' \<noteq> rc_state rc then rconn_run now op xid rc' else Some (Done rc'))"

declare rconn_run.simps [code]

section \<open>Receiving\<close>

definition is_admitted_msg :: "u8 list \<Rightarrow> bool" where
  "is_admitted_msg b =
     (let type = ld8 b 1
      in \<not> (type < 32 \<and> (push_bit (unat type) 1 :: u32) AND
              (push_bit 0 1 OR push_bit 1 1 OR push_bit 2 1 OR push_bit 3 1 OR push_bit 4 1 OR push_bit 5 1 OR push_bit 6 1
               OR push_bit 7 1 OR push_bit 8 1 OR push_bit 9 1) \<noteq> 0))"

definition note_received :: "int \<Rightarrow> u8 list \<Rightarrow> rconn \<Rightarrow> rconn" where
  "note_received now b rc =
     (let rc = (if is_admitted_msg b \<or> now - rc_last_connected rc \<ge> 30
                then rc\<lparr>rc_probably_admitted := True, rc_last_admitted := now\<rparr> else rc);
          rc = rc\<lparr>rc_last_received := now, rc_packets_received := rc_packets_received rc + 1\<rparr>
      in if rc_state rc = S_IDLE then
           (if ld8 b 1 = OFPT_ECHO_REPLY then
              (if rc_idle_echo_xid rc = 0 then rc_transition now S_ACTIVE rc
               else (let rc' = (if rc_idle_echo_xid rc = ld32 b 4 then rc_transition now S_ACTIVE rc else rc)
                     in rc'\<lparr>rc_idle_echo_xid := 0\<rparr>))
            else rc_transition now S_ACTIVE rc)
         else rc)"

definition rconn_recv :: "int \<Rightarrow> rconn \<Rightarrow> (u8 list option \<times> rconn) run" where
  "rconn_recv now rc =
     (if is_connected_state (rc_state rc) then
        (case rc_vconn rc of
           None \<Rightarrow> Fault
         | Some (vconn, w) \<Rightarrow>
             (case vconn_recv vconn w of
                Fault \<Rightarrow> Fault
              | Done (error, msg, vw) \<Rightarrow>
                  (let rc = rc\<lparr>rc_vconn := Some vw\<rparr>
                   in (case msg of
                         Some buffer \<Rightarrow>
                           (case copy_to_monitor buffer rc of
                              Fault \<Rightarrow> Fault
                            | Done rc \<Rightarrow> Done (Some buffer, note_received now buffer rc))
                       | None \<Rightarrow> Done (None, if error \<noteq> EAGAIN then rc_disconnect now rc else rc)))))
      else Done (None, rc))"

section \<open>The invariant\<close>

definition vnet_ok :: "vconn \<times> net \<Rightarrow> bool" where
  "vnet_ok vw \<longleftrightarrow> (\<exists>ss. protocol ss (fst vw) (snd vw)) \<and> net_ok (snd vw) \<and> rx_fits (rx_of (vc_stream (fst vw)))"

definition has_vconn :: "rc_state \<Rightarrow> bool" where
  "has_vconn st \<longleftrightarrow> st = S_CONNECTING \<or> st = S_ACTIVE \<or> st = S_IDLE"

text \<open>
  There is a connection exactly in the states that need one; the client's counter is the number of its messages in the queue; the pauses stay between
  1 second and the greatest that is allowed; no time lies in the future.
\<close>

definition rconn_ok :: "int \<Rightarrow> rconn \<Rightarrow> bool" where
  "rconn_ok now rc \<longleftrightarrow>
     (rc_vconn rc \<noteq> None \<longleftrightarrow> has_vconn (rc_state rc)) \<and> (\<forall>vw. rc_vconn rc = Some vw \<longrightarrow> vnet_ok vw)
     \<and> length (rc_monitors rc) \<le> 8 \<and> (\<forall>vw\<in>set (rc_monitors rc). vnet_ok vw)
     \<and> (\<forall>b c. (b, c) \<in> set (rc_txq rc) \<longrightarrow> framed b) \<and> rc_n_queued rc = int (length (filter snd (rc_txq rc)))
     \<and> 0 \<le> rc_backoff rc \<and> rc_backoff rc \<le> rc_max_backoff rc \<and> 1 \<le> rc_max_backoff rc \<and> rc_max_backoff rc \<le> 2 ^ 30
     \<and> (rc_state rc = S_BACKOFF \<longrightarrow> 1 \<le> rc_backoff rc \<and> rc_reliable rc)
     \<and> 0 \<le> rc_state_entered rc \<and> rc_state_entered rc \<le> now \<and> rc_last_received rc \<le> now \<and> 0 \<le> rc_probe_interval rc"

definition opens_ok :: "(string \<Rightarrow> u32 \<Rightarrow> opened) \<Rightarrow> bool" where
  "opens_ok op \<longleftrightarrow> (\<forall>name n status r w. op name n = Opened status r w \<longrightarrow> net_ok w \<and> sk_out (nt_sock w) = [])"

lemma rc_transition_simps [simp]:
  "rc_state (rc_transition now st rc) = st" "rc_state_entered (rc_transition now st rc) = now"
  "rc_vconn (rc_transition now st rc) = rc_vconn rc" "rc_monitors (rc_transition now st rc) = rc_monitors rc"
  "rc_txq (rc_transition now st rc) = rc_txq rc" "rc_n_queued (rc_transition now st rc) = rc_n_queued rc"
  "rc_backoff (rc_transition now st rc) = rc_backoff rc" "rc_max_backoff (rc_transition now st rc) = rc_max_backoff rc"
  "rc_reliable (rc_transition now st rc) = rc_reliable rc" "rc_last_received (rc_transition now st rc) = rc_last_received rc"
  "rc_probe_interval (rc_transition now st rc) = rc_probe_interval rc" "rc_name (rc_transition now st rc) = rc_name rc"
  "rc_backoff_deadline (rc_transition now st rc) = rc_backoff_deadline rc" "rc_n_attempted (rc_transition now st rc) = rc_n_attempted rc"
  "rc_idle_echo_xid (rc_transition now st rc) = rc_idle_echo_xid rc" "rc_last_connected (rc_transition now st rc) = rc_last_connected rc"
  by (simp_all add: rc_transition_def Let_def)

lemma question_simps [simp]:
  "rc_state (question_connectivity now rc) = rc_state rc" "rc_state_entered (question_connectivity now rc) = rc_state_entered rc"
  "rc_vconn (question_connectivity now rc) = rc_vconn rc" "rc_monitors (question_connectivity now rc) = rc_monitors rc"
  "rc_txq (question_connectivity now rc) = rc_txq rc" "rc_n_queued (question_connectivity now rc) = rc_n_queued rc"
  "rc_backoff (question_connectivity now rc) = rc_backoff rc" "rc_max_backoff (question_connectivity now rc) = rc_max_backoff rc"
  "rc_reliable (question_connectivity now rc) = rc_reliable rc" "rc_last_received (question_connectivity now rc) = rc_last_received rc"
  "rc_probe_interval (question_connectivity now rc) = rc_probe_interval rc" "rc_name (question_connectivity now rc) = rc_name rc"
  "rc_backoff_deadline (question_connectivity now rc) = rc_backoff_deadline rc" "rc_n_attempted (question_connectivity now rc) = rc_n_attempted rc"
  by (simp_all add: question_connectivity_def)

lemma backoff_waits:
  assumes "rconn_ok now rc" "now < 2 ^ 32 - 1" "rc_state rc = S_BACKOFF" "rc_state_entered rc = now"
  shows "\<not> timed_out now rc"
  using assms sat_add_later [of now "rc_backoff rc"] by (simp add: rconn_ok_def timed_out_def rconn_timeout_def)

lemma rconn_disconnect_ok: "rconn_ok t rc \<Longrightarrow> t \<le> now \<Longrightarrow> rconn_ok now (rconn_disconnect now rc)"
  by (auto simp: rconn_ok_def rconn_disconnect_def has_vconn_def)

lemma rconn_disconnect_state [simp]: "rc_state (rconn_disconnect now rc) = S_VOID"
  by (simp add: rconn_disconnect_def)

text \<open>What \<open>disconnect\<close> leaves, whether the connection was there or not.\<close>

lemma rc_disconnect_ok:
  assumes "rconn_ok now rc"
  shows "rconn_ok now (rc_disconnect now rc)
    \<and> (if rc_reliable rc then rc_state (rc_disconnect now rc) = S_BACKOFF \<and> rc_state_entered (rc_disconnect now rc) = now
       else rc_state (rc_disconnect now rc) = S_VOID)"
proof (cases "rc_reliable rc")
  case False
  then show ?thesis using rconn_disconnect_ok [OF assms] by (simp add: rc_disconnect_def)
next
  case True
  define r1 where "r1 = (if rc_state rc = S_CONNECTING \<or> rc_state rc = S_ACTIVE \<or> rc_state rc = S_IDLE
                   then flush_queue (rc\<lparr>rc_vconn := None\<rparr>) else rc)"
  define b where "b = (if now \<ge> rc_backoff_deadline r1 then 1 else min (rc_max_backoff r1) (max 1 (2 * rc_backoff r1)))"
  define r2 where "r2 = rc_transition now S_BACKOFF (r1\<lparr>rc_backoff := b, rc_backoff_deadline := now + b\<rparr>)"
  have eq: "rc_disconnect now rc = (if now - rc_last_connected r2 > 60 then question_connectivity now r2 else r2)"
    using True unfolding rc_disconnect_def Let_def r1_def [symmetric] r2_def b_def by simp
  have r1: "rc_vconn r1 = None" "rc_monitors r1 = rc_monitors rc" "\<forall>b c. (b, c) \<in> set (rc_txq r1) \<longrightarrow> framed b"
    "rc_n_queued r1 = int (length (filter snd (rc_txq r1)))" "rc_reliable r1" "rc_max_backoff r1 = rc_max_backoff rc"
    "rc_last_received r1 = rc_last_received rc" "rc_probe_interval r1 = rc_probe_interval rc" "rc_backoff r1 = rc_backoff rc"
    using assms True by (auto simp: r1_def flush_queue_def rconn_ok_def has_vconn_def)
  have "1 \<le> b" "b \<le> rc_max_backoff rc" using assms r1 by (auto simp: b_def rconn_ok_def)
  then have r2: "rconn_ok now r2" "rc_state r2 = S_BACKOFF" "rc_state_entered r2 = now"
    using r1 assms by (auto simp: r2_def rconn_ok_def has_vconn_def)
  then have "rconn_ok now (question_connectivity now r2)" by (simp add: rconn_ok_def)
  then show ?thesis using r2 True by (simp add: eq)
qed

section \<open>The operations keep it\<close>

lemma vnet_send:
  assumes "vnet_ok vw" "framed m"
  shows "\<exists>r vw'. vconn_send m (fst vw) (snd vw) = Done (r, vw') \<and> vnet_ok vw'"
proof -
  obtain ss where p: "protocol ss (fst vw) (snd vw)" and n: "net_ok (snd vw)" and f: "rx_fits (rx_of (vc_stream (fst vw)))"
    using assms(1) by (auto simp: vnet_ok_def)
  from protocol_send [OF p n assms(2)] obtain r v' w' ss' where
    s: "vconn_send m (fst vw) (snd vw) = Done (r, v', w')" "protocol ss' v' w'" "net_ok w'" by blast
  then have "vnet_ok (v', w')" using vconn_send_fits [OF s(1) f] by (auto simp: vnet_ok_def)
  then show ?thesis using s(1) by blast
qed

lemma vnet_recv:
  assumes "vnet_ok vw"
  shows "\<exists>r msg vw'. vconn_recv (fst vw) (snd vw) = Done (r, msg, vw') \<and> vnet_ok vw' \<and> (\<forall>m. msg = Some m \<longrightarrow> framed m)"
proof -
  obtain ss where p: "protocol ss (fst vw) (snd vw)" and n: "net_ok (snd vw)" and f: "rx_fits (rx_of (vc_stream (fst vw)))"
    using assms(1) by (auto simp: vnet_ok_def)
  from protocol_recv [OF p n] obtain r msg v' w' where
    s: "vconn_recv (fst vw) (snd vw) = Done (r, msg, v', w')" "protocol ss v' w'" "net_ok w'" by blast
  have "vnet_ok (v', w') \<and> (\<forall>m. msg = Some m \<longrightarrow> framed m)" using s vconn_recv_fits [OF s(1) f] by (auto simp: vnet_ok_def)
  then show ?thesis using s(1) by blast
qed

lemma vnet_connect:
  assumes "vnet_ok vw"
  shows "\<exists>r vw'. vconn_connect (fst vw) (snd vw) = Done (r, vw') \<and> vnet_ok vw'"
proof -
  obtain ss where p: "protocol ss (fst vw) (snd vw)" and n: "net_ok (snd vw)" and f: "rx_fits (rx_of (vc_stream (fst vw)))"
    using assms(1) by (auto simp: vnet_ok_def)
  from protocol_connect [OF p n] obtain r v' w' where
    s: "vconn_connect (fst vw) (snd vw) = Done (r, v', w')" "protocol ss v' w'" "net_ok w'" by blast
  then have "vnet_ok (v', w')" using vconn_connect_fits [OF s(1) f] by (auto simp: vnet_ok_def)
  then show ?thesis using s(1) by blast
qed

lemma set_remove_monitor: "i < length ms \<Longrightarrow> set (remove_monitor i ms) \<subseteq> set ms"
proof -
  assume "i < length ms"
  then have "set (ms[i := last ms]) \<subseteq> set ms" by (metis insert_absorb2 insert_subset last_in_set length_0_conv not_less_zero set_update_subset_insert insert_absorb)
  then show ?thesis unfolding remove_monitor_def by (meson in_set_butlastD subset_iff)
qed

lemma copy_to_monitors_ok:
  assumes "framed b" "\<forall>vw\<in>set ms. vnet_ok vw"
  shows "\<exists>ms'. copy_to_monitors b i ms = Done ms' \<and> (\<forall>vw\<in>set ms'. vnet_ok vw) \<and> length ms' \<le> length ms"
  using assms
proof (induction b i ms rule: copy_to_monitors.induct)
  case (1 b i ms)
  note un = copy_to_monitors.simps [of b i ms]
  show ?case
  proof (cases "i < length ms")
    case False
    then show ?thesis using un "1.prems" by simp
  next
    case True
    then have "vnet_ok (ms ! i)" using "1.prems"(2) by simp
    from vnet_send [OF this "1.prems"(1)] obtain r vw where
      s: "vconn_send b (fst (ms ! i)) (snd (ms ! i)) = Done (r, vw)" "vnet_ok vw" by blast
    show ?thesis
    proof (cases "r \<noteq> 0 \<and> r \<noteq> EAGAIN")
      case failed: True
      have "\<forall>vw\<in>set (remove_monitor i ms). vnet_ok vw" using set_remove_monitor [OF True] "1.prems"(2) by auto
      from "1.IH"(1) [OF True s(1) refl failed "1.prems"(1) this]
      obtain ms' where "copy_to_monitors b i (remove_monitor i ms) = Done ms'" "\<forall>vw\<in>set ms'. vnet_ok vw"
        "length ms' \<le> length (remove_monitor i ms)" by blast
      then show ?thesis using un True s(1) failed by (auto simp: remove_monitor_def)
    next
      case False
      have "\<forall>vw'\<in>set (ms[i := vw]). vnet_ok vw'" using "1.prems"(2) s(2) set_update_subset_insert [of ms i vw] by auto
      from "1.IH"(2) [OF True s(1) refl False "1.prems"(1) this]
      obtain ms' where "copy_to_monitors b (i + 1) (ms[i := vw]) = Done ms'" "\<forall>vw\<in>set ms'. vnet_ok vw" "length ms' \<le> length ms" by auto
      then show ?thesis using un True s(1) False by auto
    qed
  qed
qed

lemma copy_to_monitor_ok:
  assumes "rconn_ok now rc" "framed b"
  shows "\<exists>ms. copy_to_monitor b rc = Done (rc\<lparr>rc_monitors := ms\<rparr>) \<and> rconn_ok now (rc\<lparr>rc_monitors := ms\<rparr>)"
proof -
  have "\<forall>vw\<in>set (rc_monitors rc). vnet_ok vw" "length (rc_monitors rc) \<le> 8" using assms(1) by (auto simp: rconn_ok_def)
  moreover from copy_to_monitors_ok [OF assms(2) this(1), of 0] obtain ms where "copy_to_monitors b 0 (rc_monitors rc) = Done ms"
    "\<forall>vw\<in>set ms. vnet_ok vw" "length ms \<le> length (rc_monitors rc)" by blast
  ultimately have "copy_to_monitor b rc = Done (rc\<lparr>rc_monitors := ms\<rparr>)" "rconn_ok now (rc\<lparr>rc_monitors := ms\<rparr>)"
    using assms(1) by (simp_all add: copy_to_monitor_def rconn_ok_def)
  then show ?thesis by blast
qed

text \<open>Where a failed operation can leave a connection: as it was, or disconnected now.\<close>

definition dropped_or :: "int \<Rightarrow> rc_state \<Rightarrow> rconn \<Rightarrow> bool" where
  "dropped_or now st rc \<longleftrightarrow> rc_state rc = st \<or> rc_state rc = S_VOID \<or> rc_state rc = S_BACKOFF \<and> rc_state_entered rc = now"

lemma rc_disconnect_dropped:
  "rconn_ok now rc \<Longrightarrow> rconn_ok now (rc_disconnect now rc) \<and> dropped_or now st (rc_disconnect now rc)"
  using rc_disconnect_ok [of now rc] by (auto simp: dropped_or_def split: if_splits)

lemma try_send_ok:
  assumes "rconn_ok now rc" "is_connected_state (rc_state rc)" "rc_txq rc \<noteq> []"
  shows "\<exists>e rc'. try_send now rc = Done (e, rc') \<and> rconn_ok now rc' \<and> dropped_or now (rc_state rc) rc' \<and> (e = 0 \<longrightarrow> rc_state rc' = rc_state rc)"
proof -
  obtain b c txq where q: "rc_txq rc = (b, c) # txq" using assms(3) by (metis list.exhaust surj_pair)
  have "rc_vconn rc \<noteq> None" using assms(1,2) by (auto simp: rconn_ok_def has_vconn_def is_connected_state_def)
  then obtain v w where v: "rc_vconn rc = Some (v, w)" by auto
  have ok: "vnet_ok (v, w)" "framed b" using assms(1) v q by (auto simp: rconn_ok_def)
  from vnet_send [OF ok] obtain r vw where s: "vconn_send b v w = Done (r, vw)" "vnet_ok vw" by auto
  show ?thesis
  proof (cases "r = 0")
    case True
    let ?rc = "rc\<lparr>rc_vconn := Some vw, rc_idle_echo_xid := ld32 b 4, rc_packets_sent := rc_packets_sent rc + 1,
       rc_n_queued := (if c then rc_n_queued rc - 1 else rc_n_queued rc), rc_txq := txq\<rparr>"
    have "try_send now rc = Done (0, ?rc)" using True q v s by (simp add: try_send_def Let_def)
    moreover have "rconn_ok now ?rc" using assms(1) s(2) q v by (auto simp: rconn_ok_def)
    ultimately show ?thesis by (auto simp: dropped_or_def)
  next
    case False
    let ?rc = "rc\<lparr>rc_vconn := Some vw, rc_idle_echo_xid := 0\<rparr>"
    have "try_send now rc = Done (r, if r \<noteq> EAGAIN then rc_disconnect now ?rc else ?rc)"
      using False q v s by (simp add: try_send_def Let_def)
    moreover have "rconn_ok now ?rc" using assms(1) s(2) v by (auto simp: rconn_ok_def)
    ultimately show ?thesis using False rc_disconnect_dropped [of now ?rc "rc_state rc"] by (auto simp: dropped_or_def)
  qed
qed

lemma do_tx_work_ok:
  "rconn_ok now rc \<Longrightarrow> is_connected_state (rc_state rc)
     \<Longrightarrow> \<exists>rc'. do_tx_work now rc = Done rc' \<and> rconn_ok now rc' \<and> dropped_or now (rc_state rc) rc'"
proof (induction now rc rule: do_tx_work.induct)
  case (1 now rc)
  note un = do_tx_work.simps [of now rc]
  show ?case
  proof (cases "rc_txq rc = []")
    case True
    then show ?thesis using un "1.prems" by (simp add: dropped_or_def)
  next
    case False
    from try_send_ok [OF "1.prems" False] obtain e rc' where
      t: "try_send now rc = Done (e, rc')" "rconn_ok now rc'" "dropped_or now (rc_state rc) rc'" "e = 0 \<longrightarrow> rc_state rc' = rc_state rc" by blast
    show ?thesis
    proof (cases "e = 0")
      case True
      then have st: "rc_state rc' = rc_state rc" using t(4) by simp
      from "1.IH" [OF False t(1) refl _ t(2)] st "1.prems"(2) True obtain rc'' where
        "do_tx_work now rc' = Done rc''" "rconn_ok now rc''" "dropped_or now (rc_state rc) rc''" by auto
      then show ?thesis using un False t(1) True by simp
    next
      case ne: False
      then show ?thesis using un False t by simp
    qed
  qed
qed

lemma rconn_send_ok:
  assumes "rconn_ok now rc" "framed b"
  shows "\<exists>e rc'. rconn_send now b c rc = Done (e, rc') \<and> rconn_ok now rc' \<and> dropped_or now (rc_state rc) rc'"
proof (cases "rconn_is_connected rc")
  case False
  then show ?thesis using assms(1) by (simp add: rconn_send_def dropped_or_def)
next
  case True
  from copy_to_monitor_ok [OF assms] obtain ms where
    m: "copy_to_monitor b rc = Done (rc\<lparr>rc_monitors := ms\<rparr>)" "rconn_ok now (rc\<lparr>rc_monitors := ms\<rparr>)" by blast
  let ?rc = "rc\<lparr>rc_monitors := ms, rc_n_queued := (if c then rc_n_queued rc + 1 else rc_n_queued rc), rc_txq := rc_txq rc @ [(b, c)]\<rparr>"
  have ok: "rconn_ok now ?rc" using m(2) assms(2) by (auto simp: rconn_ok_def)
  have con: "is_connected_state (rc_state ?rc)" using True by (simp add: rconn_is_connected_def)
  from try_send_ok [OF ok con] obtain e rc' where
    t: "try_send now ?rc = Done (e, rc')" "rconn_ok now rc'" "dropped_or now (rc_state rc) rc'" by auto
  show ?thesis
  proof (cases "rc_txq rc = []")
    case True
    then have "rconn_send now b c rc = Done (0, rc')" using \<open>rconn_is_connected rc\<close> m t(1)
      by (cases c) (simp_all add: rconn_send_def Let_def)
    then show ?thesis using t by simp
  next
    case False
    then have "rconn_send now b c rc = Done (0, ?rc)" using \<open>rconn_is_connected rc\<close> m by (simp add: rconn_send_def Let_def)
    then show ?thesis using ok by (simp add: dropped_or_def)
  qed
qed

lemma rconn_ok_later: "rconn_ok t rc \<Longrightarrow> t \<le> now \<Longrightarrow> rconn_ok now rc"
  by (auto simp: rconn_ok_def)

lemma vnet_opened:
  assumes "opens_ok op" "vconn_open op name 1 n = (e, Some (vw, r))" shows "e = 0 \<and> vnet_ok vw"
proof -
  obtain status w where o: "op name n = Opened status r w" "vw = ((vconn_init status)\<lparr>vc_min_version := 1\<rparr>, w)" "e = 0"
    using assms(2) by (auto simp: vconn_open_def Let_def split: if_splits opened.splits)
  have "net_ok w" "sk_out (nt_sock w) = []" using assms(1) o(1) by (auto simp: opens_ok_def)
  then have "protocol [] (fst vw) (snd vw)" using o(2) by (simp add: protocol_def vconn_init_def)
  moreover have "rx_fits (rx_of (vc_stream (fst vw)))" using o(2) by (simp add: vconn_init_def rx_fits_def)
  ultimately show ?thesis using o \<open>net_ok w\<close> by (auto simp: vnet_ok_def)
qed

lemma reconnect_ok:
  assumes "rconn_ok now rc" "rc_vconn rc = None" "rc_state rc = S_VOID \<or> rc_state rc = S_BACKOFF" "opens_ok op" "rc_reliable rc"
  shows "rconn_ok now (snd (reconnect now op rc)) \<and>
    (rc_state (snd (reconnect now op rc)) = S_CONNECTING
     \<or> rc_state (snd (reconnect now op rc)) = S_BACKOFF \<and> rc_state_entered (snd (reconnect now op rc)) = now)"
proof -
  let ?r1 = "rc\<lparr>rc_n_attempted := rc_n_attempted rc + 1\<rparr>"
  obtain e o' where v: "vconn_open op (rc_name rc) 1 (rc_n_attempted rc + 1) = (e, o')" by (metis surj_pair)
  show ?thesis
  proof (cases o')
    case None
    let ?r2 = "?r1\<lparr>rc_vconn := None, rc_backoff_deadline := TIME_MAX\<rparr>"
    have "rconn_ok now ?r2" using assms(1,2) by (simp add: rconn_ok_def)
    from rc_disconnect_ok [OF this] show ?thesis using assms(5) v None by (simp add: reconnect_def Let_def)
  next
    case (Some vr)
    obtain vw r where vr: "vr = (vw, r)" by (metis surj_pair)
    have ok: "vnet_ok vw" using vnet_opened [OF assms(4)] v Some vr by auto
    let ?r2 = "(if r then ?r1\<lparr>rc_vconn := Some vw\<rparr> else ?r1\<lparr>rc_vconn := Some vw, rc_reliable := False\<rparr>)\<lparr>rc_backoff_deadline := now + rc_backoff rc\<rparr>"
    have eq: "snd (reconnect now op rc) = rc_transition now S_CONNECTING ?r2"
      using v Some vr by (simp add: reconnect_def Let_def)
    have "0 \<le> now" using assms(1) by (auto simp: rconn_ok_def)
    then have "rconn_ok now (rc_transition now S_CONNECTING ?r2)"
      using assms(1) ok by (cases r) (auto simp: rconn_ok_def has_vconn_def)
    then show ?thesis using eq by simp
  qed
qed

lemma run_CONNECTING_ok:
  assumes "rconn_ok now rc" "rc_state rc = S_CONNECTING"
  shows "\<exists>rc'. run_CONNECTING now rc = Done rc' \<and> rconn_ok now rc' \<and> (dropped_or now S_CONNECTING rc' \<or> rc_state rc' = S_ACTIVE)"
proof -
  have "rc_vconn rc \<noteq> None" using assms by (auto simp: rconn_ok_def has_vconn_def)
  then obtain v w where v: "rc_vconn rc = Some (v, w)" by auto
  have "vnet_ok (v, w)" using assms(1) v by (auto simp: rconn_ok_def)
  from vnet_connect [OF this] obtain r vw where c: "vconn_connect v w = Done (r, vw)" "vnet_ok vw" by auto
  let ?rc = "rc\<lparr>rc_vconn := Some vw\<rparr>"
  have ok: "rconn_ok now ?rc" "rconn_ok now (?rc\<lparr>rc_backoff_deadline := d\<rparr>)" for d using assms(1) c(2) v by (auto simp: rconn_ok_def)
  consider (connected) "r = 0" | (failed) "r \<noteq> 0" "r \<noteq> EAGAIN" | (late) "r = EAGAIN" "timed_out now ?rc" | (waits) "r = EAGAIN" "\<not> timed_out now ?rc" by auto
  then show ?thesis
  proof cases
    case connected
    have "run_CONNECTING now rc = Done ((rc_transition now S_ACTIVE (?rc\<lparr>rc_n_successful := rc_n_successful rc + 1\<rparr>))\<lparr>rc_last_connected := now\<rparr>)"
      using v c(1) connected by (simp add: run_CONNECTING_def Let_def)
    moreover have "rconn_ok now ((rc_transition now S_ACTIVE (?rc\<lparr>rc_n_successful := rc_n_successful rc + 1\<rparr>))\<lparr>rc_last_connected := now\<rparr>)"
      using ok(1) assms by (auto simp: rconn_ok_def has_vconn_def)
    ultimately show ?thesis by simp
  next
    case failed
    then have "run_CONNECTING now rc = Done (rc_disconnect now ?rc)" using v c(1) by (simp add: run_CONNECTING_def Let_def)
    then show ?thesis using rc_disconnect_dropped [OF ok(1)] by blast
  next
    case late
    then have "run_CONNECTING now rc = Done (rc_disconnect now (?rc\<lparr>rc_backoff_deadline := TIME_MAX\<rparr>))"
      using v c(1) by (simp add: run_CONNECTING_def Let_def)
    then show ?thesis using rc_disconnect_dropped [OF ok(2)] by blast
  next
    case waits
    then have "run_CONNECTING now rc = Done ?rc" using v c(1) by (simp add: run_CONNECTING_def Let_def)
    then show ?thesis using ok(1) assms(2) by (simp add: dropped_or_def)
  qed
qed

lemma framed_echo_request: "framed (make_echo_request xid)"
  by (simp add: framed_def make_echo_request_def msg_length_def ofp_header_bytes_def le16_def le32_def ld16_def ld8_def mem_simps)

lemma run_ACTIVE_ok:
  assumes "rconn_ok now rc" "rc_state rc = S_ACTIVE"
  shows "\<exists>rc'. run_ACTIVE now xid rc = Done rc' \<and> rconn_ok now rc' \<and> (dropped_or now S_ACTIVE rc' \<or> rc_state rc' = S_IDLE)"
proof (cases "timed_out now rc")
  case True
  have "rconn_ok now (rc_transition now S_IDLE rc)" using assms by (auto simp: rconn_ok_def has_vconn_def)
  from rconn_send_ok [OF this framed_echo_request, of xid False] True show ?thesis by (auto simp: run_ACTIVE_def dropped_or_def)
next
  case False
  then show ?thesis using do_tx_work_ok [OF assms(1)] assms(2) by (auto simp: run_ACTIVE_def is_connected_state_def)
qed

lemma run_IDLE_ok:
  assumes "rconn_ok now rc" "rc_state rc = S_IDLE"
  shows "\<exists>rc'. run_IDLE now rc = Done rc' \<and> rconn_ok now rc' \<and> dropped_or now S_IDLE rc'"
proof (cases "timed_out now rc")
  case True
  have "rconn_ok now (question_connectivity now rc)" using assms(1) by (simp add: rconn_ok_def)
  from rc_disconnect_dropped [OF this] show ?thesis using True by (simp add: run_IDLE_def)
next
  case False
  then show ?thesis using do_tx_work_ok [OF assms(1)] assms(2) by (auto simp: run_IDLE_def is_connected_state_def)
qed

section \<open>The loop ends\<close>

definition rc_rank :: "int \<Rightarrow> rconn \<Rightarrow> nat" where
  "rc_rank now rc =
     (case rc_state rc of S_VOID \<Rightarrow> 0 | S_BACKOFF \<Rightarrow> (if timed_out now rc then 4 else 0) | S_CONNECTING \<Rightarrow> 3 | S_ACTIVE \<Rightarrow> 2 | S_IDLE \<Rightarrow> 1)"

lemma dropped_rank:
  "dropped_or now st rc \<Longrightarrow> rconn_ok now rc \<Longrightarrow> now < 2 ^ 32 - 1 \<Longrightarrow> rc_state rc = st \<or> rc_rank now rc = 0"
  using backoff_waits by (auto simp: dropped_or_def rc_rank_def)

lemma run_state_ok:
  assumes "rconn_ok now rc" "opens_ok op" "now < 2 ^ 32 - 1"
  shows "\<exists>rc'. run_state now op xid rc = Done rc' \<and> rconn_ok now rc' \<and> (rc_state rc' = rc_state rc \<or> rc_rank now rc' < rc_rank now rc)"
proof (cases "rc_state rc")
  case S_VOID
  then show ?thesis using assms(1) by (simp add: run_state_def)
next
  case S_BACKOFF
  show ?thesis
  proof (cases "timed_out now rc")
    case True
    have "rc_vconn rc = None" "rc_reliable rc" using assms(1) S_BACKOFF by (cases "rc_vconn rc"; auto simp: rconn_ok_def has_vconn_def)+
    from reconnect_ok [OF assms(1) this(1) _ assms(2) this(2)] S_BACKOFF True show ?thesis
      by (auto simp: run_state_def run_BACKOFF_def rc_rank_def)
  next
    case False
    then show ?thesis using assms(1) S_BACKOFF by (simp add: run_state_def run_BACKOFF_def)
  qed
next
  case S_CONNECTING
  from run_CONNECTING_ok [OF assms(1) this] obtain rc' where
    r: "run_CONNECTING now rc = Done rc'" "rconn_ok now rc'" "dropped_or now S_CONNECTING rc' \<or> rc_state rc' = S_ACTIVE" by blast
  show ?thesis using r dropped_rank [OF _ r(2) assms(3)] S_CONNECTING by (fastforce simp: run_state_def rc_rank_def)
next
  case S_ACTIVE
  from run_ACTIVE_ok [OF assms(1) this, of xid] obtain rc' where
    r: "run_ACTIVE now xid rc = Done rc'" "rconn_ok now rc'" "dropped_or now S_ACTIVE rc' \<or> rc_state rc' = S_IDLE" by blast
  show ?thesis using r dropped_rank [OF _ r(2) assms(3)] S_ACTIVE by (fastforce simp: run_state_def rc_rank_def)
next
  case S_IDLE
  from run_IDLE_ok [OF assms(1) this] obtain rc' where
    r: "run_IDLE now rc = Done rc'" "rconn_ok now rc'" "dropped_or now S_IDLE rc'" by blast
  show ?thesis using r dropped_rank [OF _ r(2) assms(3)] S_IDLE by (fastforce simp: run_state_def rc_rank_def)
qed

lemma rconn_run_ok:
  assumes "rconn_ok now rc" "opens_ok op" "now < 2 ^ 32 - 1"
  shows "\<exists>rc'. rconn_run now op xid rc = Some (Done rc') \<and> rconn_ok now rc'"
  using assms(1)
proof (induction "rc_rank now rc" arbitrary: rc rule: less_induct)
  case less
  from run_state_ok [OF less.prems assms(2,3), of xid] obtain rc1 where
    r: "run_state now op xid rc = Done rc1" "rconn_ok now rc1" "rc_state rc1 = rc_state rc \<or> rc_rank now rc1 < rc_rank now rc" by blast
  show ?case
  proof (cases "rc_state rc1 = rc_state rc")
    case True
    then show ?thesis using r by (subst rconn_run.simps) simp
  next
    case False
    then have "rc_rank now rc1 < rc_rank now rc" using r(3) by simp
    from less.hyps [OF this r(2)] show ?thesis using r(1) False by (subst rconn_run.simps) simp
  qed
qed

section \<open>Calls\<close>

text \<open>The calls of a client, each at its time.\<close>

datatype rconn_call =
    Rc_connect string
  | Rc_connect_unreliably string "vconn \<times> net"
  | Rc_disconnect
  | Rc_run u32
  | Rc_recv
  | Rc_send "u8 list" bool
  | Rc_send_limit "u8 list" int
  | Rc_add_monitor "vconn \<times> net"

fun exec_call :: "(string \<Rightarrow> u32 \<Rightarrow> opened) \<Rightarrow> int \<Rightarrow> rconn_call \<Rightarrow> rconn \<Rightarrow> rconn run option" where
  "exec_call op now (Rc_connect name) rc = Some (Done (snd (rconn_connect now op name rc)))"
| "exec_call op now (Rc_connect_unreliably name vw) rc = Some (Done (rconn_connect_unreliably now name vw rc))"
| "exec_call op now Rc_disconnect rc = Some (Done (rconn_disconnect now rc))"
| "exec_call op now (Rc_run xid) rc = rconn_run now op xid rc"
| "exec_call op now Rc_recv rc = (case rconn_recv now rc of Fault \<Rightarrow> Some Fault | Done (_, rc) \<Rightarrow> Some (Done rc))"
| "exec_call op now (Rc_send b c) rc = (case rconn_send now b c rc of Fault \<Rightarrow> Some Fault | Done (_, rc) \<Rightarrow> Some (Done rc))"
| "exec_call op now (Rc_send_limit b l) rc = (case rc_send_with_limit now b l rc of Fault \<Rightarrow> Some Fault | Done (_, rc) \<Rightarrow> Some (Done rc))"
| "exec_call op now (Rc_add_monitor vw) rc = Some (Done (rconn_add_monitor vw rc))"

fun rconn_calls :: "(string \<Rightarrow> u32 \<Rightarrow> opened) \<Rightarrow> (int \<times> rconn_call) list \<Rightarrow> rconn \<Rightarrow> rconn run option" where
  "rconn_calls op [] rc = Some (Done rc)"
| "rconn_calls op ((now, c) # cs) rc = bind_run (exec_call op now c rc) (rconn_calls op cs)"

text \<open>What a client owes: whole messages, and connections that follow the protocol.\<close>

fun call_ok :: "rconn_call \<Rightarrow> bool" where
  "call_ok (Rc_send b c) = framed b"
| "call_ok (Rc_send_limit b l) = framed b"
| "call_ok (Rc_connect_unreliably name vw) = vnet_ok vw"
| "call_ok (Rc_add_monitor vw) = vnet_ok vw"
| "call_ok _ = True"

lemma note_received_ok: "rconn_ok now rc \<Longrightarrow> is_connected_state (rc_state rc) \<Longrightarrow> rconn_ok now (note_received now b rc)"
  by (auto simp: rconn_ok_def note_received_def Let_def has_vconn_def is_connected_state_def)


lemma rconn_recv_ok:
  assumes "rconn_ok now rc"
  shows "\<exists>msg rc'. rconn_recv now rc = Done (msg, rc') \<and> rconn_ok now rc'"
proof (cases "is_connected_state (rc_state rc)")
  case False
  then show ?thesis using assms by (simp add: rconn_recv_def)
next
  case True
  then have "rc_vconn rc \<noteq> None" using assms by (auto simp: rconn_ok_def has_vconn_def is_connected_state_def)
  then obtain v w where v: "rc_vconn rc = Some (v, w)" by auto
  have "vnet_ok (v, w)" using assms v by (auto simp: rconn_ok_def)
  from vnet_recv [OF this] obtain e msg vw where
    r: "vconn_recv v w = Done (e, msg, vw)" "vnet_ok vw" "\<forall>m. msg = Some m \<longrightarrow> framed m" by auto
  have ok: "rconn_ok now (rc\<lparr>rc_vconn := Some vw\<rparr>)" using assms r(2) v by (auto simp: rconn_ok_def)
  show ?thesis
  proof (cases msg)
    case None
    then show ?thesis using True v r(1) ok rc_disconnect_dropped [OF ok] by (cases "e = EAGAIN") (auto simp: rconn_recv_def Let_def)
  next
    case (Some m)
    then have "framed m" using r(3) by simp
    from copy_to_monitor_ok [OF ok this] obtain ms where
      c: "copy_to_monitor m (rc\<lparr>rc_vconn := Some vw\<rparr>) = Done (rc\<lparr>rc_vconn := Some vw, rc_monitors := ms\<rparr>)"
         "rconn_ok now (rc\<lparr>rc_vconn := Some vw, rc_monitors := ms\<rparr>)" by blast
    have "rconn_ok now (note_received now m (rc\<lparr>rc_vconn := Some vw, rc_monitors := ms\<rparr>))"
      by (rule note_received_ok [OF c(2)]) (use True in simp)
    then show ?thesis using True v r(1) Some c(1) by (simp add: rconn_recv_def Let_def)
  qed
qed

lemma exec_call_ok:
  assumes "rconn_ok t rc" "t \<le> now" "now < 2 ^ 32 - 1" "opens_ok op" "call_ok c"
  shows "\<exists>rc'. exec_call op now c rc = Some (Done rc') \<and> rconn_ok now rc'"
proof -
  have ok: "rconn_ok now rc" using rconn_ok_later assms(1,2) .
  have dis: "rconn_ok now (rconn_disconnect now rc)" using rconn_disconnect_ok [OF ok] by simp
  have vc: "rc_vconn (rconn_disconnect now rc) = None"
    using dis by (cases "rc_vconn (rconn_disconnect now rc)") (auto simp: rconn_ok_def has_vconn_def)
  have now: "0 \<le> now" using ok by (auto simp: rconn_ok_def)
  show ?thesis
  proof (cases c)
    case (Rc_connect name)
    have "rconn_ok now ((rconn_disconnect now rc)\<lparr>rc_name := name, rc_reliable := True\<rparr>)" using dis by (simp add: rconn_ok_def)
    from reconnect_ok [OF this _ _ assms(4)] Rc_connect vc show ?thesis by (simp add: rconn_connect_def)
  next
    case (Rc_connect_unreliably name vw)
    then have "vnet_ok vw" using assms(5) by simp
    then show ?thesis using Rc_connect_unreliably dis now
      by (auto simp: rconn_connect_unreliably_def rconn_ok_def has_vconn_def)
  next
    case Rc_disconnect
    then show ?thesis using dis by simp
  next
    case (Rc_run xid)
    then show ?thesis using rconn_run_ok [OF ok assms(4,3)] by simp
  next
    case Rc_recv
    then show ?thesis using rconn_recv_ok [OF ok] by auto
  next
    case (Rc_send b cnt)
    then show ?thesis using rconn_send_ok [OF ok, of b cnt] assms(5) by auto
  next
    case (Rc_send_limit b l)
    then show ?thesis using rconn_send_ok [OF ok, of b True] assms(5) ok by (auto simp: rc_send_with_limit_def)
  next
    case (Rc_add_monitor vw)
    then show ?thesis using ok assms(5) by (auto simp: rconn_add_monitor_def rconn_ok_def)
  qed
qed

fun increasing :: "int \<Rightarrow> (int \<times> 'c) list \<Rightarrow> bool" where
  "increasing t [] \<longleftrightarrow> True"
| "increasing t ((now, _) # cs) \<longleftrightarrow> t \<le> now \<and> increasing now cs"

lemma rconn_calls_ok:
  assumes "rconn_ok t rc" "increasing t cs" "\<forall>(now, c)\<in>set cs. now < 2 ^ 32 - 1 \<and> call_ok c" "opens_ok op"
  shows "\<exists>now rc'. rconn_calls op cs rc = Some (Done rc') \<and> rconn_ok now rc'"
  using assms(1-3)
proof (induction cs arbitrary: t rc)
  case Nil
  then show ?case by auto
next
  case (Cons x cs)
  obtain now c where x: "x = (now, c)" by (metis surj_pair)
  from exec_call_ok [OF Cons.prems(1) _ _ assms(4), of now c] Cons.prems(2,3) x
  obtain rc1 where r: "exec_call op now c rc = Some (Done rc1)" "rconn_ok now rc1" by auto
  from Cons.IH [OF r(2)] Cons.prems(2,3) x r(1) show ?case by simp
qed

text \<open>
  C19. Whatever calls a client makes on a connection, in any order and while the time does not run back, with opened connections that behave as POSIX says and
  fail, break or answer as they like: each call returns, none fails an assertion or follows a null pointer, there is a connection exactly in the states
  that need one, the counter of the client is the number of its messages in the queue, and the pause before the next attempt lies between 1 second and the greatest allowed.
\<close>

theorem rconn_calls_safe:
  assumes "0 \<le> t" "increasing t cs" "\<forall>(now, c)\<in>set cs. now < 2 ^ 32 - 1 \<and> call_ok c" "opens_ok op"
    and "0 \<le> max_backoff" "max_backoff \<le> 2 ^ 30"
  shows "\<exists>now rc. rconn_calls op cs (rconn_create t probe max_backoff) = Some (Done rc) \<and> rconn_ok now rc"
proof -
  have "rconn_ok t (rconn_create t probe max_backoff)" using assms(1,5,6) by (simp add: rconn_create_def rconn_ok_def has_vconn_def le_max_iff_disj)
  from rconn_calls_ok [OF this assms(2-4)] show ?thesis .
qed

section \<open>Pauses\<close>

text \<open>The connection is run whenever its pause is over.\<close>

fun attempts :: "nat \<Rightarrow> (string \<Rightarrow> u32 \<Rightarrow> opened) \<Rightarrow> u32 \<Rightarrow> rconn \<Rightarrow> rconn run option" where
  "attempts 0 op xid rc = Some (Done rc)"
| "attempts (Suc k) op xid rc = bind_run (rconn_run (rc_state_entered rc + rc_backoff rc) op xid rc) (attempts k op xid)"

definition paused :: "int \<Rightarrow> nat \<Rightarrow> rconn \<Rightarrow> bool" where
  "paused m k rc \<longleftrightarrow> rc_state rc = S_BACKOFF \<and> rc_reliable rc \<and> rc_max_backoff rc = m \<and> rc_backoff rc = min m (2 ^ k)
     \<and> rc_n_attempted rc = of_nat (k + 1) \<and> 0 \<le> rc_state_entered rc"

definition never_opens :: "(string \<Rightarrow> u32 \<Rightarrow> opened) \<Rightarrow> bool" where
  "never_opens op \<longleftrightarrow> (\<forall>name n. \<exists>e. op name n = Open_failed e)"

lemma open_fails: assumes "never_opens op" shows "\<exists>e. vconn_open op name v n = (e, None)"
proof -
  obtain e where "op name n = Open_failed e" using assms by (auto simp: never_opens_def)
  then show ?thesis by (simp add: vconn_open_def Let_def)
qed

lemma next_pause: "1 \<le> m \<Longrightarrow> 1 \<le> x \<Longrightarrow> min m (max 1 (2 * min m x)) = min m (2 * x)" for m x :: int
  by (simp add: min_def max_def)

lemma drop_while_down:
  assumes "rc_state rc = S_VOID \<or> rc_state rc = S_BACKOFF" "rc_reliable rc" "now < rc_backoff_deadline rc"
  shows "rc_state (rc_disconnect now rc) = S_BACKOFF" "rc_reliable (rc_disconnect now rc)"
    "rc_max_backoff (rc_disconnect now rc) = rc_max_backoff rc" "rc_state_entered (rc_disconnect now rc) = now"
    "rc_backoff (rc_disconnect now rc) = min (rc_max_backoff rc) (max 1 (2 * rc_backoff rc))"
    "rc_n_attempted (rc_disconnect now rc) = rc_n_attempted rc"
proof -
  define r where "r = rc_transition now S_BACKOFF (rc\<lparr>rc_backoff := min (rc_max_backoff rc) (max 1 (2 * rc_backoff rc)),
    rc_backoff_deadline := now + min (rc_max_backoff rc) (max 1 (2 * rc_backoff rc))\<rparr>)"
  have st: "\<not> (rc_state rc = S_CONNECTING \<or> rc_state rc = S_ACTIVE \<or> rc_state rc = S_IDLE)" using assms(1) by auto
  have "rc_disconnect now rc = (if now - rc_last_connected r > 60 then question_connectivity now r else r)"
    unfolding rc_disconnect_def if_not_P [OF st] Let_def if_P [OF assms(2)] using assms(3) by (simp add: r_def)
  then show "rc_state (rc_disconnect now rc) = S_BACKOFF" "rc_reliable (rc_disconnect now rc)"
    "rc_max_backoff (rc_disconnect now rc) = rc_max_backoff rc" "rc_state_entered (rc_disconnect now rc) = now"
    "rc_backoff (rc_disconnect now rc) = min (rc_max_backoff rc) (max 1 (2 * rc_backoff rc))"
    "rc_n_attempted (rc_disconnect now rc) = rc_n_attempted rc"
    using assms(2) by (simp_all add: r_def)
qed

lemma failing_reconnect:
  assumes "never_opens op" "rc_state rc = S_VOID \<or> rc_state rc = S_BACKOFF" "rc_reliable rc" "now < TIME_MAX"
  shows "let rc' = snd (reconnect now op rc)
    in rc_state rc' = S_BACKOFF \<and> rc_reliable rc' \<and> rc_max_backoff rc' = rc_max_backoff rc \<and> rc_state_entered rc' = now
     \<and> rc_backoff rc' = min (rc_max_backoff rc) (max 1 (2 * rc_backoff rc)) \<and> rc_n_attempted rc' = rc_n_attempted rc + 1"
proof -
  let ?rc = "rc\<lparr>rc_n_attempted := rc_n_attempted rc + 1, rc_vconn := None, rc_backoff_deadline := TIME_MAX\<rparr>"
  obtain e where "vconn_open op (rc_name rc) 1 (rc_n_attempted rc + 1) = (e, None)" using open_fails [OF assms(1)] by blast
  then have "snd (reconnect now op rc) = rc_disconnect now ?rc" by (simp add: reconnect_def Let_def)
  moreover have "rc_state ?rc = S_VOID \<or> rc_state ?rc = S_BACKOFF" "rc_reliable ?rc" "now < rc_backoff_deadline ?rc"
    using assms(2-4) by simp_all
  ultimately show ?thesis using drop_while_down [of ?rc now] by (simp add: Let_def)
qed

lemma paused_timed_out:
  assumes "paused m k rc" "1 \<le> m" "m \<le> 2 ^ 30" "rc_state_entered rc + m < 2 ^ 32 - 1"
  shows "timed_out now rc \<longleftrightarrow> rc_state_entered rc + rc_backoff rc \<le> now"
proof -
  let ?t = "rc_state_entered rc" and ?b = "rc_backoff rc"
  have b: "1 \<le> ?b" "?b \<le> m" "0 \<le> ?t" using assms(1,2) by (auto simp: paused_def)
  have u: "uint (of_int ?t :: u32) = ?t" "uint (of_int ?b :: u32) = ?b" using b assms(3,4) by (simp_all add: uint_word_of_int)
  have "uint (of_int ?t + of_int ?b :: u32) = ?t + ?b" using u b assms(4) by (simp add: uint_plus_if')
  then have "uint (sat_add (of_int ?t) (of_int ?b)) = ?t + ?b" using u b by (simp add: sat_add_def word_le_def)
  then show ?thesis using assms(1) by (simp add: timed_out_def rconn_timeout_def paused_def)
qed

lemma run_waiting:
  assumes "rc_state rc = S_BACKOFF" "\<not> timed_out now rc" shows "rconn_run now op xid rc = Some (Done rc)"
  using assms by (subst rconn_run.simps) (simp add: run_state_def run_BACKOFF_def)

lemma paused_run:
  assumes "paused m k rc" "never_opens op" "1 \<le> m" "m \<le> 2 ^ 30" "rc_state_entered rc + 2 * m < 2 ^ 32 - 1"
  shows "\<exists>rc'. rconn_run (rc_state_entered rc + rc_backoff rc) op xid rc = Some (Done rc') \<and> paused m (Suc k) rc'
    \<and> rc_state_entered rc' = rc_state_entered rc + rc_backoff rc"
proof -
  let ?now = "rc_state_entered rc + rc_backoff rc"
  let ?rc' = "snd (reconnect ?now op rc)"
  have p: "rc_state rc = S_BACKOFF" "rc_reliable rc" "rc_max_backoff rc = m" "rc_backoff rc = min m (2 ^ k)" "rc_n_attempted rc = of_nat (k + 1)"
    "0 \<le> rc_state_entered rc" using assms(1) by (auto simp: paused_def)
  have b: "rc_backoff rc \<le> m" "0 \<le> rc_backoff rc" using p assms(3) by auto
  have to: "timed_out ?now rc" using paused_timed_out [OF assms(1,3,4)] assms(3,5) by simp
  have now: "?now < TIME_MAX" using b assms(5) p(6) by simp
  have r: "rc_state ?rc' = S_BACKOFF" "rc_reliable ?rc'" "rc_max_backoff ?rc' = m" "rc_state_entered ?rc' = ?now"
     "rc_backoff ?rc' = min m (max 1 (2 * rc_backoff rc))" "rc_n_attempted ?rc' = rc_n_attempted rc + 1"
    using failing_reconnect [OF assms(2) _ p(2) now] p(1,3) by (simp_all add: Let_def)
  have "(1 :: int) \<le> 2 ^ k" by simp
  then have "min m (max 1 (2 * min m (2 ^ k))) = min m (2 ^ Suc k)" using next_pause [of m "2 ^ k"] assms(3) by simp
  then have "paused m (Suc k) ?rc'" using r p b by (simp add: paused_def)
  moreover have "rconn_run ?now op xid rc = Some (Done ?rc')"
    using p(1) to r(1) by (subst rconn_run.simps) (simp add: run_state_def run_BACKOFF_def)
  ultimately show ?thesis using r(4) by blast
qed

lemma paused_attempts:
  assumes "paused m j rc" "never_opens op" "1 \<le> m" "m \<le> 2 ^ 30" "rc_state_entered rc + (int k + 2) * m < 2 ^ 32 - 1"
  shows "\<exists>rc'. attempts k op xid rc = Some (Done rc') \<and> paused m (j + k) rc' \<and> rc_state_entered rc' + m < 2 ^ 32 - 1"
  using assms(1,5)
proof (induction k arbitrary: j rc)
  case 0
  then show ?case using assms(3) by auto
next
  case (Suc k)
  have "0 \<le> (int k + 1) * m" using assms(3) by simp
  then have "rc_state_entered rc + 2 * m < 2 ^ 32 - 1" using Suc.prems(2) by (simp add: algebra_simps)
  from paused_run [OF Suc.prems(1) assms(2-4) this, of xid] obtain rc1 where
    r: "rconn_run (rc_state_entered rc + rc_backoff rc) op xid rc = Some (Done rc1)" "paused m (Suc j) rc1"
       "rc_state_entered rc1 = rc_state_entered rc + rc_backoff rc" by blast
  have "rc_backoff rc \<le> m" using Suc.prems(1) by (auto simp: paused_def)
  then have "rc_state_entered rc1 + (int k + 2) * m < 2 ^ 32 - 1" using r(3) Suc.prems(2) by (simp add: algebra_simps)
  from Suc.IH [OF r(2) this] r(1) show ?case by auto
qed

text \<open>
  While a peer cannot be reached, the pauses double: after the first attempt and \<open>k\<close> more, each made when its pause is over, the pause is \<open>2 ^ k\<close> seconds, but at
  most \<open>max_backoff\<close>; before it is over the connection does nothing, then it makes one more attempt.
\<close>

theorem backoff_doubles:
  assumes "never_opens op" "0 \<le> t" "1 \<le> m" "m \<le> 2 ^ 30" "t + (int k + 2) * m < 2 ^ 32 - 1"
  shows "\<exists>rc. attempts k op xid (snd (rconn_connect t op name (rconn_create t probe m))) = Some (Done rc)
    \<and> rc_state rc = S_BACKOFF \<and> rc_backoff rc = min m (2 ^ k) \<and> rc_n_attempted rc = of_nat (k + 1)
    \<and> (\<forall>now. now < rc_state_entered rc + rc_backoff rc \<longrightarrow> rconn_run now op xid rc = Some (Done rc))"
proof -
  define rc0 where "rc0 = (rconn_create t probe m)\<lparr>rc_name := name, rc_reliable := True\<rparr>"
  let ?rc = "snd (rconn_connect t op name (rconn_create t probe m))"
  have f: "rc_state rc0 = S_VOID" "rc_reliable rc0" "rc_max_backoff rc0 = m" "rc_backoff rc0 = 0" "rc_n_attempted rc0 = 0"
    using assms(3) by (simp_all add: rc0_def rconn_create_def)
  have c: "?rc = snd (reconnect t op rc0)" by (simp add: rconn_connect_def rconn_disconnect_def rconn_create_def rc0_def)
  have "0 \<le> (int k + 2) * m" using assms(3) by simp
  then have "t < 2 ^ 32 - 1" using assms(5) by linarith
  then have "t < TIME_MAX" by simp
  from failing_reconnect [OF assms(1) _ f(2) this] f assms(2,3) have p: "paused m 0 ?rc" "rc_state_entered ?rc = t"
    unfolding c by (auto simp: paused_def Let_def)
  from paused_attempts [where k = k and xid = xid, OF p(1) assms(1,3,4)] p(2) assms(5) obtain rc where
    a: "attempts k op xid ?rc = Some (Done rc)" "paused m k rc" "rc_state_entered rc + m < 2 ^ 32 - 1" by auto
  have "rconn_run now op xid rc = Some (Done rc)" if "now < rc_state_entered rc + rc_backoff rc" for now
    using run_waiting paused_timed_out [OF a(2) assms(3,4) a(3), of now] that a(2) by (simp add: paused_def)
  then show ?thesis using a by (simp add: paused_def)
qed

text \<open>Five attempts after the first, with pauses of at most 20 seconds.\<close>

theorem backoff_doubles_witness:
  "\<exists>rc. attempts 5 (\<lambda>_ _. Open_failed 111) 7 (snd (rconn_connect 1000 (\<lambda>_ _. Open_failed 111) ''tcp:10.0.0.1'' (rconn_create 1000 15 20))) = Some (Done rc)
    \<and> rc_state rc = S_BACKOFF \<and> rc_backoff rc = 20 \<and> rc_n_attempted rc = 6
    \<and> (\<forall>now. now < rc_state_entered rc + rc_backoff rc \<longrightarrow> rconn_run now (\<lambda>_ _. Open_failed 111) 7 rc = Some (Done rc))"
  using backoff_doubles [of "\<lambda>_ _. Open_failed 111" 1000 20 5 7 "''tcp:10.0.0.1''" 15] by (simp add: never_opens_def)

text \<open>
  A client connects, sends a message before the hello of the peer is there, runs the connection, sends and receives; the peer closes the connection and
  cannot be reached any more.
\<close>

abbreviation demo_net :: net where
  "demo_net \<equiv> \<lparr>nt_sock = \<lparr>sk_in = [1, 0, 0, 8, 0, 0, 0, 5, 1, 2, 0, 8, 0, 0, 0, 6], sk_rd = [Transfer 99, Transfer 99, Closed],
      sk_out = [], sk_wr = [Transfer 99, Transfer 3]\<rparr>, nt_connect = [], nt_xid = [7]\<rparr>"

theorem rconn_calls_safe_witness:
  "let op = (\<lambda>name n. if n = 1 then Opened 0 True demo_net else Open_failed 111);
       m = [1, 10, 0, 8, 0, 0, 0, 9];
       cs = [(10, Rc_connect ''tcp:10.0.0.1''), (10, Rc_send m True), (11, Rc_run 1), (12, Rc_send_limit m 1), (12, Rc_send m True), (13, Rc_recv),
             (14, Rc_recv), (15, Rc_run 2), (20, Rc_run 3)]
   in \<exists>now rc. rconn_calls op cs (rconn_create 5 15 8) = Some (Done rc) \<and> rconn_ok now rc \<and> rc_state rc = S_BACKOFF \<and> rc_backoff rc = 4"
proof -
  let ?op = "\<lambda>(name :: string) (n :: u32). if n = 1 then Opened 0 True demo_net else Open_failed 111"
  let ?m = "[1, 10, 0, 8, 0, 0, 0, 9] :: u8 list"
  let ?cs = "[(10 :: int, Rc_connect ''tcp:10.0.0.1''), (10, Rc_send ?m True), (11, Rc_run 1), (12, Rc_send_limit ?m 1), (12, Rc_send ?m True), (13, Rc_recv),
             (14, Rc_recv), (15, Rc_run 2), (20, Rc_run 3)]"
  have f: "framed ?m" by code_simp
  have o: "opens_ok ?op" by (auto simp: opens_ok_def net_ok_def steady_def)
  have i: "increasing 5 ?cs" by simp
  have c: "\<forall>(now, c)\<in>set ?cs. now < 2 ^ 32 - 1 \<and> call_ok c" using f by simp
  have run: "(case rconn_calls ?op ?cs (rconn_create 5 15 8) of None \<Rightarrow> False | Some Fault \<Rightarrow> False
     | Some (Done rc) \<Rightarrow> rc_state rc = S_BACKOFF \<and> rc_backoff rc = 4)" by code_simp
  obtain now rc where r: "rconn_calls ?op ?cs (rconn_create 5 15 8) = Some (Done rc)" "rconn_ok now rc"
    using rconn_calls_safe [OF _ i c o, where probe = 15 and max_backoff = 8] by auto
  then have "rc_state rc = S_BACKOFF \<and> rc_backoff rc = 4" using run by simp
  then show ?thesis using r unfolding Let_def by blast
qed

section \<open>Silent peers\<close>

lemma active_times_out:
  assumes "rc_state rc = S_ACTIVE" "0 < rc_probe_interval rc" "0 \<le> rc_state_entered rc" "now < 2 ^ 32 - 1"
    and "max (rc_last_received rc) (rc_state_entered rc) + rc_probe_interval rc \<le> now"
  shows "timed_out now rc"
proof -
  let ?e = "rc_state_entered rc" and ?p = "rc_probe_interval rc"
  define d where "d = max (rc_last_received rc) ?e + ?p - ?e"
  have d: "0 < d" "?e + d \<le> now" using assms(2,5) by (auto simp: d_def)
  have to: "rconn_timeout rc = of_int d" using assms(1,2) by (simp add: rconn_timeout_def Let_def d_def)
  have u: "uint (of_int ?e :: u32) = ?e" "uint (of_int d :: u32) = d" using d assms(3,4) by (simp_all add: uint_word_of_int)
  have s: "uint (of_int ?e + of_int d :: u32) = ?e + d" using u d assms(4) by (simp add: uint_plus_if')
  then have "uint (sat_add (of_int ?e) (of_int d)) = ?e + d" using u d by (simp add: sat_add_def word_le_def)
  then show ?thesis using d(2) by (simp add: timed_out_def to)
qed

lemma idle_times_out:
  assumes "rc_state rc = S_IDLE" "0 < rc_probe_interval rc" "0 \<le> rc_state_entered rc" "now < 2 ^ 32 - 1"
    and "rc_state_entered rc + rc_probe_interval rc \<le> now"
  shows "timed_out now rc"
proof -
  let ?e = "rc_state_entered rc" and ?p = "rc_probe_interval rc"
  have u: "uint (of_int ?e :: u32) = ?e" "uint (of_int ?p :: u32) = ?p" using assms by (simp_all add: uint_word_of_int)
  have s: "uint (of_int ?e + of_int ?p :: u32) = ?e + ?p" using u assms by (simp add: uint_plus_if')
  then have "uint (sat_add (of_int ?e) (of_int ?p)) = ?e + ?p" using u assms(2) by (simp add: sat_add_def word_le_def)
  then show ?thesis using assms(1,5) by (simp add: timed_out_def rconn_timeout_def)
qed

lemma idle_waits:
  assumes "rconn_ok now rc" "rc_state rc = S_IDLE" "rc_state_entered rc = now" "now < 2 ^ 32 - 1" "0 < rc_probe_interval rc" "rc_probe_interval rc < 2 ^ 32"
  shows "\<not> timed_out now rc"
  using assms sat_add_later [of now "rc_probe_interval rc"] by (auto simp: timed_out_def rconn_timeout_def rconn_ok_def)

text \<open>The interval and the time of entry stay while a connection does not change its state.\<close>

lemma try_send_stays:
  assumes "try_send now rc = Done (e, rc')" "rc_state rc = st" "rc_state rc' = st" "is_connected_state st"
  shows "rc_probe_interval rc' = rc_probe_interval rc \<and> rc_state_entered rc' = rc_state_entered rc
    \<and> rc_n_queued rc' = (if e = 0 \<and> snd (hd (rc_txq rc)) then rc_n_queued rc - 1 else rc_n_queued rc)"
proof -
  obtain b c txq v w where q: "rc_txq rc = (b, c) # txq" "rc_vconn rc = Some (v, w)"
    using assms(1) by (auto simp: try_send_def split: list.splits option.splits)
  obtain r vw where s: "vconn_send b v w = Done (r, vw)" using assms(1) q by (auto simp: try_send_def split: run.splits)
  have nd: "rc_state (rc_disconnect now x) \<noteq> st" for x
    using assms(4) by (auto simp: rc_disconnect_def is_connected_state_def Let_def)
  show ?thesis using assms(1,3) q s nd by (auto simp: try_send_def Let_def split: if_splits)
qed

lemma do_tx_work_stays:
  "do_tx_work now rc = Done rc' \<Longrightarrow> rc_state rc = st \<Longrightarrow> rc_state rc' = st \<Longrightarrow> is_connected_state st \<Longrightarrow> rconn_ok now rc
     \<Longrightarrow> rc_probe_interval rc' = rc_probe_interval rc \<and> rc_state_entered rc' = rc_state_entered rc"
proof (induction now rc rule: do_tx_work.induct)
  case (1 now rc)
  note un = do_tx_work.simps [of now rc]
  show ?case
  proof (cases "rc_txq rc = []")
    case True
    then show ?thesis using un "1.prems"(1) by simp
  next
    case False
    from try_send_ok [OF "1.prems"(5) _ False] "1.prems"(2,4) obtain e rc1 where
      t: "try_send now rc = Done (e, rc1)" "rconn_ok now rc1" "e = 0 \<longrightarrow> rc_state rc1 = rc_state rc" by auto
    show ?thesis
    proof (cases "e = 0")
      case True
      then have st: "rc_state rc1 = st" using t(3) "1.prems"(2) by simp
      have "do_tx_work now rc1 = Done rc'" using un False t(1) True "1.prems"(1) by simp
      from "1.IH" [OF False t(1) refl _ this st "1.prems"(3,4) t(2)] True
        try_send_stays [OF t(1) "1.prems"(2) st "1.prems"(4)] show ?thesis by simp
    next
      case ne: False
      then have "rc' = rc1" using un False t(1) "1.prems"(1) by simp
      then show ?thesis using try_send_stays [OF t(1) "1.prems"(2) _ "1.prems"(4)] "1.prems"(3) by simp
    qed
  qed
qed

lemma rconn_send_stays:
  assumes "rconn_send now b c rc = Done (e, rc')" "rc_state rc = st" "rc_state rc' = st" "is_connected_state st"
  shows "rc_probe_interval rc' = rc_probe_interval rc \<and> rc_state_entered rc' = rc_state_entered rc"
proof -
  have con: "rconn_is_connected rc" using assms(2,4) by (simp add: rconn_is_connected_def)
  obtain ms where m: "copy_to_monitor b rc = Done (rc\<lparr>rc_monitors := ms\<rparr>)"
    using assms(1) con by (auto simp: rconn_send_def copy_to_monitor_def split: run.splits)
  let ?rc = "rc\<lparr>rc_monitors := ms, rc_n_queued := (if c then rc_n_queued rc + 1 else rc_n_queued rc), rc_txq := rc_txq rc @ [(b, c)]\<rparr>"
  show ?thesis
  proof (cases "rc_txq rc = []")
    case True
    then have "length (rc_txq ?rc) = 1" by simp
    then obtain e1 where "try_send now ?rc = Done (e1, rc')"
      using assms(1) con m by (cases c) (auto simp: rconn_send_def Let_def split: run.splits)
    from try_send_stays [OF this _ assms(3,4)] assms(2) show ?thesis by simp
  next
    case False
    then have "rc' = ?rc" using assms(1) con m by (cases c) (auto simp: rconn_send_def Let_def)
    then show ?thesis by simp
  qed
qed

lemma run_dropped:
  assumes "rconn_ok now rc" "now < 2 ^ 32 - 1" "dropped_or now S_VOID rc"
  shows "rconn_run now op xid rc = Some (Done rc)"
proof -
  have "rc_state rc = S_VOID \<or> rc_state rc = S_BACKOFF \<and> \<not> timed_out now rc"
    using assms(3) backoff_waits [OF assms(1,2)] by (auto simp: dropped_or_def)
  then show ?thesis by (subst rconn_run.simps) (auto simp: run_state_def run_BACKOFF_def)
qed

lemma run_into:
  assumes "run_state now op xid rc = Done rc1" "rc_state rc1 \<noteq> rc_state rc"
  shows "rconn_run now op xid rc = rconn_run now op xid rc1"
  using assms by (subst rconn_run.simps) simp



section \<open>The bounded queue\<close>

text \<open>
  The transmit queue that the datapath assumes of a connection: sending with a limit returns what \<^const>\<open>rconn_send_with_limit\<close> returns, and while the
  connection stands the counter moves as there, the message counted or already gone.
\<close>

theorem queue_limit_refines:
  assumes "rconn_ok now rc" "framed b" "rm_connected r = rconn_is_connected rc" "int (rm_n_txq r) = rc_n_queued rc"
  shows "\<exists>e rc'. rc_send_with_limit now b (int TXQ_LIMIT) rc = Done (e, rc') \<and> rconn_ok now rc'
    \<and> fst (rconn_send_with_limit env b r) = e
    \<and> (rc_state rc' = rc_state rc \<longrightarrow>
         (\<exists>tx. let r' = snd (rconn_send_with_limit (env\<lparr>ev_tx := tx\<rparr>) b r)
               in rm_connected r' = rconn_is_connected rc' \<and> int (rm_n_txq r') = rc_n_queued rc'))"
proof -
  have full: "TXQ_LIMIT \<le> rm_n_txq r \<longleftrightarrow> int TXQ_LIMIT \<le> rc_n_queued rc" using assms(4) by linarith
  consider (full) "int TXQ_LIMIT \<le> rc_n_queued rc" | (off) "\<not> int TXQ_LIMIT \<le> rc_n_queued rc" "\<not> rconn_is_connected rc"
    | (on) "\<not> int TXQ_LIMIT \<le> rc_n_queued rc" "rconn_is_connected rc" by blast
  then show ?thesis
  proof cases
    case full
    then show ?thesis using assms \<open>TXQ_LIMIT \<le> rm_n_txq r \<longleftrightarrow> int TXQ_LIMIT \<le> rc_n_queued rc\<close>
      by (simp add: rc_send_with_limit_def rconn_send_with_limit_def)
  next
    case off
    then show ?thesis using assms full by (simp add: rc_send_with_limit_def rconn_send_with_limit_def rconn_send_def)
  next
    case on
    from copy_to_monitor_ok [OF assms(1,2)] obtain ms where
      m: "copy_to_monitor b rc = Done (rc\<lparr>rc_monitors := ms\<rparr>)" "rconn_ok now (rc\<lparr>rc_monitors := ms\<rparr>)" by blast
    let ?rc = "rc\<lparr>rc_monitors := ms, rc_n_queued := rc_n_queued rc + 1, rc_txq := rc_txq rc @ [(b, True)]\<rparr>"
    have ok: "rconn_ok now ?rc" using m(2) assms(2) by (auto simp: rconn_ok_def)
    have e: "fst (rconn_send_with_limit env b r) = 0" using on full assms(3) by (simp add: rconn_send_with_limit_def)
    have abs: "rm_connected (snd (rconn_send_with_limit (env\<lparr>ev_tx := \<lambda>_. tx\<rparr>) b r))"
      "rm_n_txq (snd (rconn_send_with_limit (env\<lparr>ev_tx := \<lambda>_. tx\<rparr>) b r)) = rm_n_txq r + (if tx then 0 else 1)" for tx
      using on full assms(3) by (simp_all add: rconn_send_with_limit_def)
    show ?thesis
    proof (cases "rc_txq rc = []")
      case False
      then have s: "rc_send_with_limit now b (int TXQ_LIMIT) rc = Done (0, ?rc)"
        using on m(1) by (simp add: rc_send_with_limit_def rconn_send_def Let_def)
      have "rconn_is_connected ?rc" using on by (simp add: rconn_is_connected_def)
      then have "let r' = snd (rconn_send_with_limit (env\<lparr>ev_tx := \<lambda>_. False\<rparr>) b r)
         in rm_connected r' = rconn_is_connected ?rc \<and> int (rm_n_txq r') = rc_n_queued ?rc"
        using abs [of False] assms(4) by (simp add: Let_def)
      then show ?thesis using s ok e by blast
    next
      case True
      have con: "is_connected_state (rc_state ?rc)" using on by (simp add: rconn_is_connected_def)
      from try_send_ok [OF ok con] obtain e1 rc' where t: "try_send now ?rc = Done (e1, rc')" "rconn_ok now rc'" by auto
      have s: "rc_send_with_limit now b (int TXQ_LIMIT) rc = Done (0, rc')"
        using on m(1) True t(1) by (simp add: rc_send_with_limit_def rconn_send_def Let_def)
      have "let r' = snd (rconn_send_with_limit (env\<lparr>ev_tx := \<lambda>_. e1 = 0\<rparr>) b r)
         in rm_connected r' = rconn_is_connected rc' \<and> int (rm_n_txq r') = rc_n_queued rc'" if st: "rc_state rc' = rc_state rc"
      proof -
        have "rc_n_queued rc' = rc_n_queued rc + (if e1 = 0 then 0 else 1)"
          using try_send_stays [OF t(1), of "rc_state rc"] st con True by (cases "e1 = 0") simp_all
        then show ?thesis using abs [of "e1 = 0"] assms(4) st on(2) by (simp add: Let_def rconn_is_connected_def)
      qed
      then show ?thesis using s t(2) e by blast
    qed
  qed
qed

text \<open>The first message on a connection whose queue is empty.\<close>

theorem queue_limit_refines_witness:
  "let rc = rconn_connect_unreliably 11 ''passive'' ((vconn_init 0)\<lparr>vc_min_version := 1\<rparr>, demo_net) (rconn_create 5 60 0);
       b = [1, 10, 0, 8, 0, 0, 0, 9];
       r = \<lparr>rm_connected = True, rm_n_txq = 0, rm_txq = [], rm_cb_dump = None\<rparr>
   in \<forall>env. \<exists>e rc'. rc_send_with_limit 11 b (int TXQ_LIMIT) rc = Done (e, rc') \<and> rconn_ok 11 rc'
    \<and> fst (rconn_send_with_limit env b r) = e
    \<and> (rc_state rc' = rc_state rc \<longrightarrow>
         (\<exists>tx. let r' = snd (rconn_send_with_limit (env\<lparr>ev_tx := tx\<rparr>) b r)
               in rm_connected r' = rconn_is_connected rc' \<and> int (rm_n_txq r') = rc_n_queued rc'))"
proof -
  let ?vw = "((vconn_init 0)\<lparr>vc_min_version := 1\<rparr>, demo_net)"
  let ?rc = "rconn_connect_unreliably 11 ''passive'' ?vw (rconn_create 5 60 0)"
  let ?b = "[1, 10, 0, 8, 0, 0, 0, 9] :: u8 list"
  have p: "protocol [] (fst ?vw) (snd ?vw)" by (simp add: protocol_def vconn_init_def)
  then have v: "vnet_ok ?vw" by (auto simp: vnet_ok_def net_ok_def steady_def rx_fits_def vconn_init_def)
  have ok: "rconn_ok 11 ?rc" "rconn_is_connected ?rc" "rc_n_queued ?rc = 0"
    using v by (auto simp: rconn_connect_unreliably_def rconn_disconnect_def rconn_create_def rconn_ok_def has_vconn_def
        rconn_is_connected_def is_connected_state_def)
  have f: "framed ?b" by code_simp
  show ?thesis unfolding Let_def [of ?rc] Let_def [of ?b] Let_def [of "\<lparr>rm_connected = _, rm_n_txq = _, rm_txq = _, rm_cb_dump = _\<rparr>"]
    by (intro allI, rule queue_limit_refines [OF ok(1) f]) (simp_all add: ok)
qed

section \<open>What is lost\<close>

text \<open>
  An unreliable connection that breaks keeps its queue and the counter of its client, which no connection will send. A probe that was answered is overlooked when another
  message was sent after it, since each message that is sent replaces the transaction id that is waited for.
\<close>

lemma broken_unreliable_keeps_queue:
  "\<not> rc_reliable rc \<Longrightarrow> rc_txq (rc_disconnect now rc) = rc_txq rc \<and> rc_n_queued (rc_disconnect now rc) = rc_n_queued rc"
  by (simp add: rc_disconnect_def rconn_disconnect_def)

lemma sent_replaces_probe_xid:
  "try_send now rc = Done (0, rc') \<Longrightarrow> rc_idle_echo_xid rc' = ld32 (fst (hd (rc_txq rc))) 4"
  by (auto simp: try_send_def Let_def split: list.splits option.splits run.splits prod.splits if_splits)

lemma answered_probe_overlooked:
  assumes "rc_state rc = S_IDLE" "ld8 b 1 = OFPT_ECHO_REPLY" "rc_idle_echo_xid rc \<noteq> 0" "rc_idle_echo_xid rc \<noteq> ld32 b 4"
  shows "rc_state (note_received now b rc) = S_IDLE \<and> rc_state_entered (note_received now b rc) = rc_state_entered rc"
  using assms by (auto simp: note_received_def Let_def)
end
