(* ===== verification/Dp_Run.thy ===== *)
theory Dp_Run
  imports Dp_Control
begin

text \<open>
  One round of the switch, \<^verbatim>\<open>dp_run\<close> of \<^verbatim>\<open>src/openflow/udatapath/datapath.c\<close>: flows are timed out, each port may give a packet, each
  connection is served, and listeners may accept new connections. What the outside gives in a round is a record \<open>poll\<close>; the listeners are numbers.
\<close>

section \<open>The round\<close>

text \<open>What \<open>rconn_run\<close> leaves of a connection, the messages that it receives, and whether it is alive afterwards.\<close>

record remote_poll =
  rp_connected :: bool
  rp_n_txq :: nat
  rp_msgs :: "u8 list list"
  rp_alive :: bool

text \<open>
  What \<^verbatim>\<open>netdev_recv\<close> makes of the buffer and returns; for a port without a network device, what the variable \<^verbatim>\<open>error\<close>, which is not
  initialised, holds. \<^verbatim>\<open>pvconn_accept\<close> returns \<open>po_accept\<close>.
\<close>

record poll =
  po_error :: "u16 \<Rightarrow> int"
  po_packet :: "u16 \<Rightarrow> ofpbuf \<Rightarrow> ofpbuf"
  po_remote :: "nat \<Rightarrow> remote_poll"
  po_accept :: "nat \<Rightarrow> int"

definition rx_buffer :: "dp_env \<Rightarrow> ofpbuf" where
  "rx_buffer env = (ofpbuf_new (ev_junk env) (130 + 18 + 1024))\<lparr>ob_data := 130\<rparr>"

fun run_ports :: "nat \<Rightarrow> dp_env \<Rightarrow> poll \<Rightarrow> u16 list \<Rightarrow> ofpbuf option \<Rightarrow> datapath \<Rightarrow> datapath run option" where
  "run_ports n env po [] buffer dp = Some (Done dp)"
| "run_ports n env po (p # ps) buffer dp =
     (let b = (case buffer of None \<Rightarrow> rx_buffer env | Some b \<Rightarrow> b);
          b = (if pt_netdev (port_at dp p) \<noteq> None then po_packet po p b else b)
      in if po_error po p = 0 then
           bind_run (fwd_port_input n env b (Some p)
               (port_upd p (\<lambda>port. port\<lparr>pt_rx_packets := pt_rx_packets port + 1, pt_rx_bytes := pt_rx_bytes port + of_nat (ob_size b)\<rparr>) dp))
             (run_ports n env po ps None)
         else run_ports n env po ps (Some b) dp)"

definition rconn_ran :: "nat \<Rightarrow> remote_poll \<Rightarrow> datapath \<Rightarrow> datapath" where
  "rconn_ran i rp dp =
     (let r = dp_remotes dp ! i
      in dp\<lparr>dp_remotes := (dp_remotes dp)[i := r\<lparr>rm_connected := rp_connected rp, rm_n_txq := min (rp_n_txq rp) (rm_n_txq r)\<rparr>]\<rparr>)"

text \<open>The connections in their order, by the numbers that they have at the start; one that is removed leaves its place to the next.\<close>

fun run_remotes :: "'d control_env \<Rightarrow> (nat \<Rightarrow> remote_poll) \<Rightarrow> nat list \<Rightarrow> nat \<Rightarrow> agent \<times> 'd \<Rightarrow> datapath \<Rightarrow> ((agent \<times> 'd) \<times> datapath) run option" where
  "run_remotes ce rp [] i ad dp = Some (Done (ad, dp))"
| "run_remotes ce rp (k # ks) i ad dp =
     bind_run (remote_run ce i (rp_alive (rp k)) (rp_msgs (rp k)) ad (rconn_ran i (rp k) dp))
       (\<lambda>(msgs, ad, dp). run_remotes ce rp ks (if rp_alive (rp k) then i + 1 else i) ad dp)"

text \<open>A listener that fails gives its place to the last.\<close>

function run_listeners :: "poll \<Rightarrow> nat \<Rightarrow> nat list \<Rightarrow> datapath \<Rightarrow> nat list \<times> datapath" where
  "run_listeners po i ls dp =
     (if i < length ls then
        (let retval = po_accept po (ls ! i)
         in if retval = 0 then run_listeners po (i + 1) ls (remote_create True dp)
            else if retval \<noteq> EAGAIN then run_listeners po i (butlast (ls[i := last ls])) dp
            else run_listeners po (i + 1) ls dp)
      else (ls, dp))"
  by pat_completeness auto
termination by (relation "measure (\<lambda>(_, i, ls, _). length ls - i)") auto

declare run_listeners.simps [simp del]

definition dp_run :: "'d control_env \<Rightarrow> poll \<Rightarrow> agent \<times> 'd \<Rightarrow> nat list \<Rightarrow> datapath
    \<Rightarrow> ((agent \<times> 'd) \<times> nat list \<times> datapath) run option" where
  "dp_run ce po ad ls dp =
     bind_run (dp_run_timeout (ce_env ce) dp)
       (\<lambda>dp. bind_run (run_ports (ce_depth ce) (ce_env ce) po (dp_port_list dp) None dp)
         (\<lambda>dp. bind_run (run_remotes ce (po_remote po) [0..<length (dp_remotes dp)] 0 ad dp)
           (\<lambda>(ad, dp). let (ls, dp) = run_listeners po 0 ls dp in Some (Done (ad, ls, dp)))))"

text \<open>Rounds one after the other, each with its time and what the outside gives.\<close>

fun dp_rounds :: "('d control_env \<times> poll) list \<Rightarrow> agent \<times> 'd \<Rightarrow> nat list \<Rightarrow> datapath
    \<Rightarrow> ((agent \<times> 'd) \<times> nat list \<times> datapath) run option" where
  "dp_rounds [] ad ls dp = Some (Done (ad, ls, dp))"
| "dp_rounds ((ce, po) # rs) ad ls dp = bind_run (dp_run ce po ad ls dp) (\<lambda>(ad, ls, dp). dp_rounds rs ad ls dp)"

section \<open>What the rounds keep\<close>

text \<open>The state is well formed, and its rules are among the given ones.\<close>

definition rules_within :: "(sw_flow_key \<times> u8 list) set \<Rightarrow> datapath \<Rightarrow> bool" where
  "rules_within R dp \<longleftrightarrow> dp_inv dp \<and> chain_rules (dp_chain dp) \<subseteq> R"

definition no_output_to_tables :: "(sw_flow_key \<times> u8 list) set \<Rightarrow> bool" where
  "no_output_to_tables R \<longleftrightarrow> (\<forall>(k, acts)\<in>R. \<forall>a\<in>set (split_acts acts). is_output a \<longrightarrow> act_port a \<noteq> OFPP_TABLE)"

lemma rules_within_no_table: "rules_within R dp \<Longrightarrow> no_output_to_tables R \<Longrightarrow> no_table_output (dp_chain dp)"
  by (auto simp: rules_within_def no_output_to_tables_def no_table_output_def)

lemma within_same_chain: "rules_within R dp \<Longrightarrow> dp_inv dp' \<Longrightarrow> dp_chain dp' = dp_chain dp \<Longrightarrow> rules_within R dp'"
  by (simp add: rules_within_def)

lemma within_remotes [simp]: "rules_within R (dp\<lparr>dp_remotes := rs\<rparr>) = rules_within R dp"
  by (simp add: rules_within_def)

lemma within_send: "send_msg env m s dp = Done dp' \<Longrightarrow> rules_within R dp \<Longrightarrow> rules_within R dp'"
  using send_msg_frame [of env m s dp dp'] by auto

lemma within_timeout:
  assumes "rules_within R dp"
  shows "\<exists>r. dp_run_timeout env dp = Some r \<and> (\<forall>dp'. r = Done dp' \<longrightarrow> rules_within R dp')"
proof (cases "ev_now env = dp_last_timeout dp")
  case True
  then show ?thesis using assms by (simp add: dp_run_timeout_def)
next
  case False
  have inv: "dp_inv dp" "chain_inv (dp_chain dp)" using assms by (auto simp: rules_within_def dp_inv_def)
  obtain chain deleted where c: "chain_timeout (ev_msec env) (dp_chain dp) [] = (chain, deleted)" "chain_inv chain"
    "chain_entries chain = filter (\<lambda>f. \<not> fst (flow_timeout (ev_msec env) f)) (chain_entries (dp_chain dp))"
    using conjunct2 [OF chain_removal_accounts [OF inv(2), of undefined undefined undefined undefined]] by blast
  have "rules_within R (dp\<lparr>dp_chain := chain\<rparr>)"
    using assms c(2,3) by (auto simp: rules_within_def dp_inv_def chain_rules_def rules_def ports_inv_def port_valid_def port_at_def)
  moreover have "\<exists>r. Some (dp_send_flow_end env f (sf_reason f) dp) = Some r \<and> (\<forall>dp'. r = Done dp' \<longrightarrow> rules_within R dp')"
    if "rules_within R dp" for f dp
    using that within_send by (auto simp: dp_send_flow_end_def)
  ultimately obtain r where r: "each_run (\<lambda>f dp. Some (dp_send_flow_end env f (sf_reason f) dp)) deleted (dp\<lparr>dp_chain := chain\<rparr>) = Some r"
    "\<forall>dp'. r = Done dp' \<longrightarrow> rules_within R dp'"
    using each_run_returns [of deleted "rules_within R" "\<lambda>f dp. Some (dp_send_flow_end env f (sf_reason f) dp)"] by blast
  have t: "rules_within R (dp'\<lparr>dp_last_timeout := x\<rparr>) = rules_within R dp'" for dp' x
    by (simp add: rules_within_def dp_inv_def ports_inv_def port_valid_def port_at_def)
  show ?thesis using False c(1) r t by (cases r) (simp_all add: dp_run_timeout_def)
qed

text \<open>No output changes which ports there are.\<close>

definition keeps_ports :: "('x \<Rightarrow> datapath \<Rightarrow> datapath run option) \<Rightarrow> bool" where
  "keeps_ports f \<longleftrightarrow> (\<forall>x dp dp'. f x dp = Some (Done dp') \<longrightarrow> dp_port_list dp' = dp_port_list dp)"

lemma each_keeps_ports: "keeps_ports f \<Longrightarrow> each_run f xs dp = Some (Done dp') \<Longrightarrow> dp_port_list dp' = dp_port_list dp"
proof (induction xs arbitrary: dp)
  case (Cons x xs)
  then show ?case by (auto simp: keeps_ports_def bind_run_def split: option.splits run.splits)
qed simp

lemma output_control_ports: "dp_output_control env b in_port n r dp = Done dp' \<Longrightarrow> dp_port_list dp' = dp_port_list dp"
  unfolding dp_output_control_def Let_def
  by (auto split: prod.splits option.splits dest!: send_msg_frame)

lemma output_packet_ports: "dp_port_list (output_packet env b p q dp) = dp_port_list dp"
  by (simp add: output_packet_def Let_def port_upd_def split: option.split)

lemma run_flow_ports:
  assumes "\<And>b i p q. keeps_ports (\<lambda>_ :: unit. output b i p q)" "run_flow_with env output b p dp = Some (Done (e, b', dp'))"
  shows "dp_port_list dp' = dp_port_list dp"
proof -
  have c: "keeps_ports (do_dp_call env output)"
    using assms(1) output_control_ports unfolding keeps_ports_def do_dp_call_def by (auto split: dp_call.splits)
  show ?thesis using assms(2) unfolding run_flow_with_def Let_def dp_execute_actions_def
    by (auto simp: bind_run_def split: prod.splits if_splits option.splits run.splits dest!: each_keeps_ports [OF c])
qed

lemma output_keeps_ports: "keeps_ports (\<lambda>_ :: unit. dp_output_port n env b i p q)"
proof (induction n arbitrary: b i p q)
  case (Suc n)
  have e: "keeps_ports (\<lambda>(b, p). dp_output_port n env b i p 0)" for i using Suc by (auto simp: keeps_ports_def)
  have t: "dp_port_list dp' = dp_port_list dp" if "run_flow_with env (dp_output_port n env) b x dp = Some (Done (e, b', dp'))" for x dp e b' dp'
    using run_flow_ports [OF Suc that] .
  show ?case unfolding keeps_ports_def
    using t output_packet_ports by (auto simp: bind_run_def dest!: output_control_ports each_keeps_ports [OF e]
      split: if_splits option.splits run.splits)
qed (simp add: keeps_ports_def)

lemma port_input_ports: "fwd_port_input n env b p dp = Some (Done dp') \<Longrightarrow> dp_port_list dp' = dp_port_list dp"
  unfolding fwd_port_input_def run_flow_through_tables_def
  by (auto simp: bind_run_def split: option.splits run.splits if_splits dest!: run_flow_ports [OF output_keeps_ports] output_control_ports)

lemma run_ports_within:
  assumes "rules_within R dp" "no_output_to_tables R" "set ps \<subseteq> set (dp_port_list dp)"
  shows "\<exists>r. run_ports (Suc (Suc n)) env po ps buffer dp = Some r \<and> (\<forall>dp'. r = Done dp' \<longrightarrow> rules_within R dp')"
  using assms
proof (induction ps arbitrary: dp buffer)
  case (Cons p ps)
  let ?b = "let b = (case buffer of None \<Rightarrow> rx_buffer env | Some b \<Rightarrow> b) in if pt_netdev (port_at dp p) \<noteq> None then po_packet po p b else b"
  show ?case
  proof (cases "po_error po p = 0")
    case False
    then show ?thesis using Cons.IH [OF Cons.prems(1,2), of "Some ?b"] Cons.prems(3) by (simp add: Let_def)
  next
    case True
    let ?dp = "port_upd p (\<lambda>port. port\<lparr>pt_rx_packets := pt_rx_packets port + 1, pt_rx_bytes := pt_rx_bytes port + of_nat (ob_size ?b)\<rparr>) dp"
    have v: "port_valid dp p" using Cons.prems(1,3) by (auto simp: rules_within_def dp_inv_def ports_inv_def)
    have w: "rules_within R ?dp"
      using Cons.prems(1) v by (simp add: rules_within_def port_upd_inv)
    obtain r where r: "fwd_port_input (Suc (Suc n)) env ?b (Some p) ?dp = Some r"
        "\<forall>dp'. r = Done dp' \<longrightarrow> dp_inv dp' \<and> chain_rules (dp_chain dp') = chain_rules (dp_chain ?dp)"
      using fwd_port_input_returns [OF _ rules_within_no_table [OF w Cons.prems(2)]] w unfolding rules_within_def by blast
    show ?thesis
    proof (cases r)
      case (Done dp')
      have w': "rules_within R dp'" using r(2) Done w by (auto simp: rules_within_def)
      have "dp_port_list dp' = dp_port_list dp" using port_input_ports r(1) Done by (fastforce simp: port_upd_def)
      then have "set ps \<subseteq> set (dp_port_list dp')" using Cons.prems(3) by simp
      from Cons.IH [OF w' Cons.prems(2) this, of None] show ?thesis using r(1) True Done by (simp add: Let_def)
    qed (use r(1) True in \<open>simp add: Let_def\<close>)
  qed
qed simp


section \<open>Messages that leave the tables\<close>

text \<open>A handler leaves the flow tables as they are, unless it stops the datapath.\<close>

definition keeps_tables :: "datapath \<Rightarrow> handled \<Rightarrow> bool" where
  "keeps_tables dp r \<longleftrightarrow> (\<forall>e dp'. r = Done (e, dp') \<longrightarrow> dp_chain dp' = dp_chain dp)"

lemma keeps_tables_simps [simp]: "keeps_tables dp Fault" "keeps_tables dp (Done (e, dp')) = (dp_chain dp' = dp_chain dp)"
  by (simp_all add: keeps_tables_def)

lemma tables_then_zero: "(\<And>dp'. r = Done dp' \<Longrightarrow> dp_chain dp' = dp_chain dp) \<Longrightarrow> keeps_tables dp (then_zero r)"
  by (cases r) (simp_all add: then_zero_def)

lemma send_msg_tables: "send_msg env m s dp = Done dp' \<Longrightarrow> dp_chain dp' = dp_chain dp"
  by (auto dest!: send_msg_frame)

lemma send_reply_tables: "keeps_tables dp (send_reply env sender m dp)"
  using send_openflow_buffer_frame unfolding keeps_tables_def send_reply_def
  by (fastforce split: option.splits)

lemma port_upd_tables [simp]: "dp_chain (port_upd p f dp) = dp_chain dp"
  by (simp add: port_upd_def)

lemma ports_desc_tables: "dp_chain (snd (ports_desc env ps dp)) = dp_chain dp"
  by (induction ps arbitrary: dp) (simp_all add: case_prod_beta Let_def)

lemma queue_error_tables: "queue_error env sender code msg dp = Done dp' \<Longrightarrow> dp_chain dp' = dp_chain dp"
  unfolding queue_error_def dp_send_error_msg_def using send_msg_tables by blast

lemma handlers_keep_tables:
  "keeps_tables dp (recv_port_mod msg dp)" "keeps_tables dp (recv_set_config msg dp)" "keeps_tables dp (recv_features_request env sender dp)"
  "keeps_tables dp (recv_queue_get_config_request env sender msg dp)" "keeps_tables dp (recv_stats_request sender msg dp)"
proof -
  show "keeps_tables dp (recv_port_mod msg dp)"
    unfolding recv_port_mod_def by (rule tables_then_zero) (auto simp: update_port_flags_def Let_def split: if_splits option.splits)
  show "keeps_tables dp (recv_set_config msg dp)" by (simp add: recv_set_config_def Let_def)
  show "keeps_tables dp (recv_features_request env sender dp)"
    unfolding recv_features_request_def dp_send_features_reply_def Let_def using ports_desc_tables
    by (intro tables_then_zero) (auto simp: case_prod_beta split: option.splits dest!: send_msg_tables)
  show "keeps_tables dp (recv_queue_get_config_request env sender msg dp)"
    unfolding recv_queue_get_config_request_def Let_def
    by (auto intro!: tables_then_zero dest: queue_error_tables send_msg_tables split: if_splits option.splits)
  have "keeps_tables dp (then_zero (remote_start_dump i cb dp))" for i cb
    by (rule tables_then_zero) (auto simp: remote_start_dump_def split: if_splits)
  then show "keeps_tables dp (recv_stats_request sender msg dp)"
    by (simp add: recv_stats_request_def case_prod_beta Let_def split: option.split)
qed

text \<open>Messages other than modifications of flows and messages of vendors.\<close>

definition quiet :: "u8 list \<Rightarrow> bool" where
  "quiet msg \<longleftrightarrow> oh_type (ofp_header_of msg) \<noteq> OFPT_FLOW_MOD \<and> oh_type (ofp_header_of msg) \<noteq> OFPT_VENDOR"

lemma control_handler_within:
  assumes w: "rules_within R dp" and h: "control_handler ce type = Some (m, handler)" and t: "type \<noteq> OFPT_VENDOR"
  shows "\<exists>r. handler sender msg dp = Some r \<and> (\<forall>e dp'. r = Done (e, dp') \<longrightarrow> rules_within R dp')"
proof -
  have inv: "dp_inv dp" using w by (simp add: rules_within_def)
  have P: "\<exists>r. Some x = Some r \<and> (\<forall>e dp'. r = Done (e, dp') \<longrightarrow> rules_within R dp')" if "keeps_inv x" "keeps_tables dp x" for x
    using that w unfolding keeps_inv_def keeps_tables_def rules_within_def by auto
  note k = recv_features_request_keeps [OF inv] recv_port_mod_keeps [OF inv] recv_stats_request_keeps [OF inv]
    recv_queue_get_config_keeps [OF inv] send_reply_keeps [OF inv]
  have "keeps_inv (recv_set_config msg dp)"
    using inv by (auto simp: recv_set_config_def Let_def dp_inv_def ports_inv_def port_valid_def port_at_def split: if_splits)
  then show ?thesis using h t k handlers_keep_tables [of dp] send_reply_tables [of dp] inv unfolding control_handler_def Let_def
    by (auto simp: recv_echo_reply_def recv_packet_out_def recv_barrier_request_def recv_echo_request_def recv_get_config_request_def
      intro!: P split: if_split_asm)
qed


lemma control_input_within:
  assumes w: "rules_within R dp" and q: "quiet msg"
  shows "\<exists>r. fwd_control_input ce sender msg ad dp = Some r \<and> (\<forall>e ad' dp'. r = Done (e, ad', dp') \<longrightarrow> rules_within R dp')"
proof -
  let ?P = "\<lambda>x. \<exists>r. x = Some r \<and> (\<forall>e ad' dp'. r = Done (e, ad', dp') \<longrightarrow> rules_within R dp')"
  have bad: "?P (bind_run (Some (dp_send_error_msg (ce_env ce) s type code data dp)) (\<lambda>dp. Some (Done (e, ad, dp))))" for s type code data and e :: int
  proof (cases "dp_send_error_msg (ce_env ce) s type code data dp")
    case (Done dp')
    then show ?thesis using within_send [of "ce_env ce" _ s dp dp'] w unfolding dp_send_error_msg_def by simp
  qed simp
  have other: "?P (case control_handler ce type of
      None \<Rightarrow> bind_run (Some (dp_send_error_msg (ce_env ce) (Some sender) OFPET_BAD_REQUEST OFPBRC_BAD_TYPE msg dp))
        (\<lambda>dp. Some (Done (- EINVAL, ad, dp)))
    | Some (min_size, handler) \<Rightarrow> if length msg < min_size then Some (Done (- EFAULT, ad, dp))
        else bind_run (handler sender msg dp) (\<lambda>(error, dp). Some (Done (error, ad, dp))))" if "type \<noteq> OFPT_VENDOR" for type
  proof (cases "control_handler ce type")
    case None
    then show ?thesis using bad by simp
  next
    case (Some mh)
    obtain m handler where mh: "mh = (m, handler)" by fastforce
    obtain r where r: "handler sender msg dp = Some r" "\<forall>e dp'. r = Done (e, dp') \<longrightarrow> rules_within R dp'"
      using control_handler_within [OF w, of ce type m handler sender msg] Some mh \<open>type \<noteq> OFPT_VENDOR\<close> by blast
    show ?thesis using Some mh r w by (cases r) (auto simp: bind_run_def)
  qed
  show ?thesis unfolding fwd_control_input_def Let_def using w q other by (simp add: quiet_def)
qed

lemma remote_loop_within:
  assumes "rules_within R dp" "\<forall>m\<in>set msgs. quiet m"
  shows "\<exists>r. remote_loop n ce i msgs ad dp = Some r \<and> (\<forall>ms ad' dp'. r = Done (ms, ad', dp') \<longrightarrow> rules_within R dp')"
  using assms
proof (induction n arbitrary: msgs ad dp)
  case (Suc n)
  have set_cb: "rules_within R (set_cb_dump i cb dp') = rules_within R dp'" for cb dp' by (simp add: set_cb_dump_def)
  show ?case
  proof (cases "rm_cb_dump (dp_remotes dp ! i)")
    case (Some cb)
    show ?thesis
    proof (cases "stats_dump (ce_env ce) (ce_desc ce) i cb dp")
      case (Done x)
      obtain e cb' dp' where x: "x = (e, cb', dp')" by (cases x)
      have "rules_within R dp'" using stats_dump_keeps [of dp "ce_env ce" "ce_desc ce" i cb e cb' dp'] Done x Suc.prems(1)
        by (simp add: rules_within_def)
      then have "rules_within R (set_cb_dump i (if e \<le> 0 then None else Some cb') dp')" by (simp only: set_cb)
      from Suc.IH [OF this Suc.prems(2), of ad] show ?thesis using Some Done x Suc.prems(1) by simp
    qed (use Some Suc.prems(1) in simp)
  next
    case None
    show ?thesis
    proof (cases msgs)
      case (Cons m ms)
      let ?s = "\<lparr>sd_remote = i, sd_xid = oh_xid (ofp_header_of m)\<rparr>"
      have q: "quiet m" "\<forall>m\<in>set ms. quiet m" using Suc.prems(2) Cons by simp_all
      obtain r where r: "fwd_control_input ce ?s m ad dp = Some r"
          "\<forall>e ad' dp'. r = Done (e, ad', dp') \<longrightarrow> rules_within R dp'"
        using control_input_within [OF Suc.prems(1) q(1), of ce ?s ad] by blast
      show ?thesis
      proof (cases r)
        case (Done x)
        obtain e ad' dp' where x: "x = (e, ad', dp')" by (cases x)
        have w': "rules_within R dp'" using r(2) Done x by simp
        show ?thesis using Suc.IH [OF w' q(2), of ad'] Suc.IH [OF Suc.prems(1) q(2), of ad] None Cons r(1) Done x by simp
      qed (use Suc.IH [OF Suc.prems(1) q(2), of ad] None Cons r(1) in simp)
    qed (use None Suc.prems(1) in simp)
  qed
qed simp

lemma remote_run_within:
  assumes "rules_within R dp" "\<forall>m\<in>set msgs. quiet m"
  shows "\<exists>r. remote_run ce i alive msgs ad dp = Some r \<and> (\<forall>ms ad' dp'. r = Done (ms, ad', dp') \<longrightarrow> rules_within R dp')"
proof -
  obtain r where r: "remote_loop 50 ce i msgs ad dp = Some r" "\<forall>ms ad' dp'. r = Done (ms, ad', dp') \<longrightarrow> rules_within R dp'"
    using remote_loop_within [OF assms, of 50 ce i ad] by blast
  show ?thesis unfolding remote_run_def r(1) using r(2) by (cases r) (auto simp: remote_destroy_def)
qed

lemma run_remotes_within:
  assumes "rules_within R dp" "\<forall>k. \<forall>m\<in>set (rp_msgs (rp k)). quiet m"
  shows "\<exists>r. run_remotes ce rp ks i ad dp = Some r \<and> (\<forall>ad' dp'. r = Done (ad', dp') \<longrightarrow> rules_within R dp')"
  using assms(1)
proof (induction ks arbitrary: i ad dp)
  case (Cons k ks)
  have w: "rules_within R (rconn_ran i (rp k) dp)" using Cons.prems by (simp add: rconn_ran_def Let_def)
  have q: "\<forall>m\<in>set (rp_msgs (rp k)). quiet m" using assms(2) by simp
  obtain r where r: "remote_run ce i (rp_alive (rp k)) (rp_msgs (rp k)) ad (rconn_ran i (rp k) dp) = Some r"
      "\<forall>ms ad' dp'. r = Done (ms, ad', dp') \<longrightarrow> rules_within R dp'"
    using remote_run_within [OF w q, of ce i "rp_alive (rp k)" ad] by blast
  show ?case
  proof (cases r)
    case (Done x)
    obtain ms ad' dp' where x: "x = (ms, ad', dp')" by (cases x)
    have "rules_within R dp'" using r(2) Done x by simp
    from Cons.IH [OF this] show ?thesis using r(1) Done x by simp
  qed (use r(1) in simp)
qed simp

lemma run_listeners_within: "rules_within R dp \<Longrightarrow> rules_within R (snd (run_listeners po i ls dp))"
proof (induction po i ls dp rule: run_listeners.induct)
  case (1 po i ls dp)
  have c: "rules_within R (remote_create True dp)" using "1.prems" by (simp add: remote_create_def)
  show ?case using "1.IH" "1.prems" c
    by (subst run_listeners.simps) (simp add: Let_def)
qed

lemma dp_run_within:
  assumes "rules_within R dp" "no_output_to_tables R" "ce_depth ce = Suc (Suc n)" "\<forall>k. \<forall>m\<in>set (rp_msgs (po_remote po k)). quiet m"
  shows "\<exists>r. dp_run ce po ad ls dp = Some r \<and> (\<forall>ad' ls' dp'. r = Done (ad', ls', dp') \<longrightarrow> rules_within R dp')"
proof -
  obtain r1 where r1: "dp_run_timeout (ce_env ce) dp = Some r1" "\<forall>dp'. r1 = Done dp' \<longrightarrow> rules_within R dp'"
    using within_timeout [OF assms(1), of "ce_env ce"] by blast
  show ?thesis
  proof (cases r1)
    case (Done dp1)
    have w1: "rules_within R dp1" using r1(2) Done by simp
    obtain r2 where r2: "run_ports (ce_depth ce) (ce_env ce) po (dp_port_list dp1) None dp1 = Some r2"
        "\<forall>dp'. r2 = Done dp' \<longrightarrow> rules_within R dp'"
      using run_ports_within [OF w1 assms(2), of "dp_port_list dp1" n "ce_env ce" po None] assms(3) by auto
    show ?thesis
    proof (cases r2)
      case d2: (Done dp2)
      have w2: "rules_within R dp2" using r2(2) d2 by simp
      obtain r3 where r3: "run_remotes ce (po_remote po) [0..<length (dp_remotes dp2)] 0 ad dp2 = Some r3"
          "\<forall>ad' dp'. r3 = Done (ad', dp') \<longrightarrow> rules_within R dp'"
        using run_remotes_within [OF w2 assms(4)] by blast
      show ?thesis
      proof (cases r3)
        case d3: (Done x)
        obtain ad' dp' where x: "x = (ad', dp')" by (cases x)
        have "rules_within R (snd (run_listeners po 0 ls dp'))" using run_listeners_within r3(2) d3 x by blast
        then show ?thesis using r1(1) Done r2(1) d2 r3(1) d3 x by (auto simp: dp_run_def case_prod_beta Let_def)
      qed (use r1(1) Done r2(1) d2 r3(1) in \<open>simp add: dp_run_def\<close>)
    qed (use r1(1) Done r2(1) in \<open>simp add: dp_run_def\<close>)
  qed (use r1(1) in \<open>simp add: dp_run_def\<close>)
qed



section \<open>Witnesses\<close>

text \<open>A packet for every port, an echo request and one that is too short on the connection, and one new connection.\<close>

definition sample_poll :: poll where
  "sample_poll = \<lparr>po_error = (\<lambda>_. 0), po_packet = (\<lambda>_ b. b\<lparr>ob_size := 60\<rparr>),
     po_remote = (\<lambda>_. \<lparr>rp_connected = True, rp_n_txq = 0, rp_msgs = [[1, 2, 0, 8, 0, 0, 0, 7], [1, 2]], rp_alive = True\<rparr>),
     po_accept = (\<lambda>i. if i = 0 then 0 else EAGAIN)\<rparr>"


end
