(* ===== verification/Hash_Tag.thy ===== *)
theory Hash_Tag
  imports OF_Prelude
begin

text \<open>
  Hashes of bytes and words (\<^verbatim>\<open>src/openflow/lib/hash.c\<close>) and the tags made from them (\<^verbatim>\<open>src/openflow/lib/tag.c\<close>, \<^verbatim>\<open>tag.h\<close>). A
  tag has two bits; a set of tags keeps four superimposed codes and may report tags that were not added, but never misses one.
\<close>

section \<open>Hashes\<close>

definition rot :: "u32 \<Rightarrow> nat \<Rightarrow> u32" where
  "rot x k = push_bit k x OR drop_bit (32 - k) x"

text \<open>The macros \<^verbatim>\<open>mix\<close> and \<^verbatim>\<open>final\<close>, statement by statement.\<close>

definition hash_mix :: "u32 \<times> u32 \<times> u32 \<Rightarrow> u32 \<times> u32 \<times> u32" where
  "hash_mix s =
     (let (a, b, c) = s;
          a = (a - c) XOR rot c 4; c = c + b;
          b = (b - a) XOR rot a 6; a = a + c;
          c = (c - b) XOR rot b 8; b = b + a;
          a = (a - c) XOR rot c 16; c = c + b;
          b = (b - a) XOR rot a 19; a = a + c;
          c = (c - b) XOR rot b 4; b = b + a
      in (a, b, c))"

definition hash_final :: "u32 \<times> u32 \<times> u32 \<Rightarrow> u32 \<times> u32 \<times> u32" where
  "hash_final s =
     (let (a, b, c) = s;
          c = (c XOR b) - rot b 14;
          a = (a XOR c) - rot c 11;
          b = (b XOR a) - rot a 25;
          c = (c XOR b) - rot b 16;
          a = (a XOR c) - rot c 4;
          b = (b XOR a) - rot a 14;
          c = (c XOR b) - rot b 24
      in (a, b, c))"

fun hash_words_loop :: "u32 list \<Rightarrow> u32 \<times> u32 \<times> u32 \<Rightarrow> u32" where
  "hash_words_loop [] (a, b, c) = c"
| "hash_words_loop [p0] (a, b, c) = snd (snd (hash_final (a + p0, b, c)))"
| "hash_words_loop [p0, p1] (a, b, c) = snd (snd (hash_final (a + p0, b + p1, c)))"
| "hash_words_loop [p0, p1, p2] (a, b, c) = snd (snd (hash_final (a + p0, b + p1, c + p2)))"
| "hash_words_loop (p0 # p1 # p2 # p) (a, b, c) = hash_words_loop p (hash_mix (a + p0, b + p1, c + p2))"

definition hash_words :: "u32 list \<Rightarrow> u32 \<Rightarrow> u32" where
  "hash_words p basis =
     (let a = 0xdeadbeef + push_bit 2 (of_nat (length p)) + basis in hash_words_loop p (a, a, a))"

function hash_bytes_loop :: "u8 list \<Rightarrow> u32 \<times> u32 \<times> u32 \<Rightarrow> u32" where
  "hash_bytes_loop p (a, b, c) =
     (if length p \<ge> 12 then hash_bytes_loop (drop 12 p) (hash_mix (a + ld32 p 0, b + ld32 p 4, c + ld32 p 8))
      else if p \<noteq> [] then
        (let tmp = p @ replicate (12 - length p) 0
         in snd (snd (hash_final (a + ld32 tmp 0, b + ld32 tmp 4, c + ld32 tmp 8))))
      else c)"
  by pat_completeness auto
termination by (relation "measure (length \<circ> fst)") auto

declare hash_bytes_loop.simps [simp del]

definition hash_bytes :: "u8 list \<Rightarrow> u32 \<Rightarrow> u32" where
  "hash_bytes p basis = (let a = 0xdeadbeef + of_nat (length p) + basis in hash_bytes_loop p (a, a, a))"

section \<open>Tags\<close>

text \<open>The loop of \<^verbatim>\<open>tag_create_random\<close> over the values \<open>rs\<close> of \<^verbatim>\<open>random_uint16\<close>.\<close>

fun tag_create_random :: "u16 list \<Rightarrow> u32 option" where
  "tag_create_random [] = None"
| "tag_create_random (r # rs) =
     (let x = unat (r AND 31); y = unat (drop_bit 11 r)
      in if x = y then tag_create_random rs else Some (push_bit x 1 OR push_bit y 1))"

definition tag_create_deterministic :: "u32 \<Rightarrow> u32" where
  "tag_create_deterministic seed =
     (let x = unat (seed AND 31); y = unat (drop_bit 5 seed) mod 31; y = (if y \<ge> x then y + 1 else y)
      in push_bit x 1 OR push_bit y 1)"

definition tag_intersects :: "u32 \<Rightarrow> u32 \<Rightarrow> bool" where
  "tag_intersects a b = (let x = a AND b in x AND (x - 1) \<noteq> 0)"

definition tag_is_valid :: "u32 \<Rightarrow> bool" where
  "tag_is_valid tag = (let x = tag AND (tag - 1); y = x AND (x - 1) in x \<noteq> 0 \<and> y = 0)"

record tag_set =
  ts_total :: u32
  ts_tags :: "u32 list"
  ts_n :: u32

definition tag_set_init :: tag_set where
  "tag_set_init = \<lparr>ts_total = 0, ts_tags = replicate 4 0, ts_n = 0\<rparr>"

definition tag_set_is_empty :: "tag_set \<Rightarrow> bool" where
  "tag_set_is_empty s \<longleftrightarrow> ts_n s = 0"

definition tag_set_intersects :: "tag_set \<Rightarrow> u32 \<Rightarrow> bool" where
  "tag_set_intersects s tags \<longleftrightarrow> tag_intersects (ts_total s) tags
     \<and> (tag_intersects (ts_tags s ! 0) tags \<or> tag_intersects (ts_tags s ! 1) tags
        \<or> tag_intersects (ts_tags s ! 2) tags \<or> tag_intersects (ts_tags s ! 3) tags)"

definition tag_set_add :: "u32 \<Rightarrow> tag_set \<Rightarrow> tag_set" where
  "tag_set_add tag s =
     (if tag \<noteq> 0 \<and> (\<not> tag_is_valid tag \<or> \<not> tag_set_intersects s tag) then
        (let i = unat (ts_n s) mod 4;
             t = ts_tags s ! i OR tag;
             tags = (ts_tags s)[i := t];
             tags = (if t = - 1 then tags[0 := t] else tags)
         in \<lparr>ts_total = ts_total s OR tag, ts_tags = tags, ts_n = ts_n s + 1\<rparr>)
      else s)"

section \<open>Bits of a tag\<close>

definition two_bits :: "u32 \<Rightarrow> bool" where
  "two_bits x \<longleftrightarrow> (\<exists>i j. i < j \<and> bit x i \<and> bit x j)"

lemma bit_minus_1:
  fixes x :: u32
  assumes i: "bit x i" and low: "\<And>j. j < i \<Longrightarrow> \<not> bit x j"
  shows "bit (x - 1) j \<longleftrightarrow> (if j < i then True else j \<noteq> i \<and> bit x j)"
proof -
  have l: "i < 32" using bit_imp_le_length [OF i] by simp
  let ?z = "x AND NOT (mask (Suc i))"
  have above: "i < n" if "bit x n" "n \<noteq> i" for n using that low by (metis linorder_neqE_nat)
  have x: "x = ?z OR push_bit i 1"
    by (rule bit_word_eqI) (use i above in \<open>auto simp: bit_simps not_less Suc_le_eq\<close>)
  have "?z AND push_bit i 1 = 0" by (rule bit_word_eqI) (auto simp: bit_simps)
  then have "?z OR push_bit i 1 = ?z + push_bit i 1" by (simp add: disjunctive_add_eq_or)
  then have s: "x = ?z + push_bit i 1" using x by metis
  have "?z AND mask i = 0" by (rule bit_word_eqI) (auto simp: bit_simps)
  then have "?z + mask i = ?z OR mask i" by (simp add: disjunctive_add_eq_or)
  moreover have "x - 1 = ?z + mask i"
  proof -
    have "(push_bit i 1 :: u32) = mask i + 1" by (simp add: mask_eq_exp_minus_1 push_bit_eq_mult)
    then have "x = ?z + (mask i + 1)" using s by metis
    then show ?thesis by (metis add.assoc add_diff_cancel_right')
  qed
  ultimately have e: "x - 1 = ?z OR mask i" by simp
  show ?thesis unfolding e using l assms(2) bit_imp_le_length [of x j] by (auto simp: bit_simps not_less)
qed

lemma clear_lowest:
  fixes x :: u32
  assumes i: "bit x i" and low: "\<And>j. j < i \<Longrightarrow> \<not> bit x j"
  shows "bit (x AND (x - 1)) j \<longleftrightarrow> bit x j \<and> j \<noteq> i"
  using bit_minus_1 [OF assms, of j] low [of j] by (auto simp: bit_and_iff)

lemma lowest_bit:
  fixes x :: u32
  assumes "x \<noteq> 0" shows "\<exists>i. bit x i \<and> (\<forall>j<i. \<not> bit x j)"
proof -
  obtain n where "bit x n" using assms bit_eq_iff [of x 0] by auto
  then show ?thesis using exists_least_iff [of "bit x"] by blast
qed

lemma two_bits_iff: "x AND (x - 1) \<noteq> 0 \<longleftrightarrow> two_bits x"
proof (cases "x = 0")
  case False
  obtain i where i: "bit x i" "\<And>j. j < i \<Longrightarrow> \<not> bit x j" using lowest_bit [OF False] by blast
  have "x AND (x - 1) \<noteq> 0 \<longleftrightarrow> (\<exists>j. bit (x AND (x - 1)) j)" using bit_eq_iff [of "x AND (x - 1)" 0] by auto
  also have "\<dots> \<longleftrightarrow> (\<exists>j. bit x j \<and> j \<noteq> i)" using clear_lowest [of x i] i by blast
  also have "\<dots> \<longleftrightarrow> two_bits x" using i unfolding two_bits_def by (metis linorder_neqE_nat)
  finally show ?thesis .
qed (simp add: two_bits_def)

lemma tag_intersects_iff: "tag_intersects a b \<longleftrightarrow> two_bits (a AND b)"
  by (simp add: tag_intersects_def Let_def two_bits_iff)

text \<open>A valid tag has two bits and no more.\<close>

lemma tag_is_valid_iff: "tag_is_valid t \<longleftrightarrow> (\<exists>i j. i < j \<and> (\<forall>k. bit t k \<longleftrightarrow> k = i \<or> k = j))"
proof
  assume v: "tag_is_valid t"
  then have "t AND (t - 1) \<noteq> 0" by (simp add: tag_is_valid_def Let_def)
  then have "t \<noteq> 0" by auto
  from lowest_bit [OF this] obtain i where i: "bit t i" "\<And>j. j < i \<Longrightarrow> \<not> bit t j" by blast
  let ?x = "t AND (t - 1)"
  have x: "bit ?x j \<longleftrightarrow> bit t j \<and> j \<noteq> i" for j using clear_lowest [of t i j] i by blast
  obtain j where j: "bit ?x j" "\<And>k. k < j \<Longrightarrow> \<not> bit ?x k" using lowest_bit [OF \<open>?x \<noteq> 0\<close>] by blast
  have "?x AND (?x - 1) = 0" using v by (simp add: tag_is_valid_def Let_def)
  then have "\<not> (bit ?x k \<and> k \<noteq> j)" for k using clear_lowest [of ?x j k] j by simp
  then have "\<forall>k. bit t k \<longleftrightarrow> k = i \<or> k = j" using x i(1) j(1) by blast
  moreover have "i < j" using x j(1) i(2) by (metis linorder_neqE_nat)
  ultimately show "\<exists>i j. i < j \<and> (\<forall>k. bit t k \<longleftrightarrow> k = i \<or> k = j)" by blast
next
  assume "\<exists>i j. i < j \<and> (\<forall>k. bit t k \<longleftrightarrow> k = i \<or> k = j)"
  then obtain i j where b: "i < j" "\<forall>k. bit t k \<longleftrightarrow> k = i \<or> k = j" by blast
  have x: "bit (t AND (t - 1)) k \<longleftrightarrow> k = j" for k using clear_lowest [of t i k] b by auto
  then have "\<not> two_bits (t AND (t - 1))" unfolding two_bits_def by simp
  moreover have "t AND (t - 1) \<noteq> 0" using x [of j] by auto
  ultimately show "tag_is_valid t" using two_bits_iff [of "t AND (t - 1)"] by (simp add: tag_is_valid_def Let_def)
qed

lemma two_bit_tag_valid:
  assumes "x < 32" "y < 32" "x \<noteq> y" shows "tag_is_valid (push_bit x 1 OR push_bit y 1)"
proof -
  have b: "bit (push_bit x 1 OR push_bit y 1 :: u32) k \<longleftrightarrow> k = x \<or> k = y" for k using assms by (auto simp: bit_simps)
  have "\<exists>i j. i < j \<and> (\<forall>k. bit (push_bit x 1 OR push_bit y 1 :: u32) k \<longleftrightarrow> k = i \<or> k = j)"
    unfolding b using assms(3) by (cases x y rule: linorder_cases) blast+
  then show ?thesis by (simp only: tag_is_valid_iff)
qed

lemma low5: "unat (w AND 31 :: 'a::len word) < 32"
proof -
  have "(31 :: 'a word) = mask 5" by (simp add: mask_eq_exp_minus_1)
  then have "w AND 31 = take_bit 5 w" by (simp add: take_bit_eq_mask)
  then show ?thesis using take_bit_nat_less_exp [of 5 "unat w"] by (simp add: unsigned_take_bit_eq)
qed

text \<open>Every tag that is made is valid; the one made from random numbers as soon as one of them will do.\<close>

lemma tag_create_deterministic_valid: "tag_is_valid (tag_create_deterministic seed)"
  unfolding tag_create_deterministic_def Let_def using low5 [of seed]
  by (intro two_bit_tag_valid) (auto intro: less_trans [OF mod_less_divisor])

lemma tag_create_random_valid: "tag_create_random rs = Some t \<Longrightarrow> tag_is_valid t"
proof (induction rs)
  case (Cons r rs)
  have "unat (drop_bit 11 r) < 32"
    using unat_u16_bound [of r] by (simp add: drop_bit_eq_div unat_div)
  then show ?case using Cons low5 [of r] by (auto simp: Let_def simp del: push_bit_of_1 intro: two_bit_tag_valid split: if_splits)
qed simp


section \<open>Sets of tags\<close>

definition tag_set_wf :: "tag_set \<Rightarrow> bool" where
  "tag_set_wf s \<longleftrightarrow> length (ts_tags s) = 4"

text \<open>One of the four codes, and the total, have every bit of the tag.\<close>

definition covers :: "tag_set \<Rightarrow> u32 \<Rightarrow> bool" where
  "covers s t \<longleftrightarrow> t AND NOT (ts_total s) = 0 \<and> (\<exists>i<4. t AND NOT (ts_tags s ! i) = 0)"

lemma sub_bits: "t AND NOT w = 0 \<longleftrightarrow> (\<forall>k. bit t k \<longrightarrow> bit (w :: u32) k)"
  using bit_imp_le_length [of t] by (auto simp: bit_eq_iff bit_simps)

lemma intersects_sub:
  assumes "t AND NOT w = 0" "tag_intersects t u" shows "tag_intersects w u"
  using assms unfolding tag_intersects_iff two_bits_def sub_bits by (auto simp: bit_and_iff)

lemma less_4: "i < 4 \<Longrightarrow> i = 0 \<or> i = 1 \<or> i = 2 \<or> i = (3 :: nat)"
  by arith

lemma covers_intersects: "covers s t \<Longrightarrow> tag_intersects t u \<Longrightarrow> tag_set_intersects s u"
  unfolding covers_def tag_set_intersects_def using intersects_sub less_4 by blast

lemma valid_intersects_sub:
  assumes "tag_is_valid t" "tag_intersects w t" shows "t AND NOT w = 0"
proof -
  obtain i j where t: "\<forall>k. bit t k \<longleftrightarrow> k = i \<or> k = j" using assms(1) unfolding tag_is_valid_iff by blast
  have "bit w i \<and> bit w j" using assms(2) t unfolding tag_intersects_iff two_bits_def by (auto simp: bit_and_iff)
  then show ?thesis using t by (auto simp: sub_bits)
qed

lemma tag_set_add_wf: "tag_set_wf s \<Longrightarrow> tag_set_wf (tag_set_add t s)"
  by (simp add: tag_set_wf_def tag_set_add_def Let_def)

lemma tag_set_add_keeps:
  assumes "tag_set_wf s" "covers s u" shows "covers (tag_set_add t s) u"
proof -
  obtain i where i: "i < 4" "\<forall>k. bit u k \<longrightarrow> bit (ts_tags s ! i) k" using assms(2) by (auto simp: covers_def sub_bits)
  have tot: "\<forall>k. bit u k \<longrightarrow> bit (ts_total s) k" using assms(2) by (auto simp: covers_def sub_bits)
  let ?j = "unat (ts_n s) mod 4"
  have l: "length (ts_tags s) = 4" "?j < 4" using assms(1) by (simp_all add: tag_set_wf_def)
  let ?t = "ts_tags s ! ?j OR t" let ?tags = "(ts_tags s)[?j := ?t]"
  have "\<forall>k. bit u k \<longrightarrow> bit ((if ?t = - 1 then ?tags[0 := ?t] else ?tags) ! i) k"
    using i l by (auto simp: nth_list_update bit_simps dest: bit_imp_le_length)
  then show ?thesis using i(1) tot unfolding covers_def sub_bits tag_set_add_def Let_def
    by (cases "t \<noteq> 0 \<and> (\<not> tag_is_valid t \<or> \<not> tag_set_intersects s t)") (use assms(2) in \<open>auto simp: bit_or_iff covers_def sub_bits\<close>)
qed

lemma tag_set_add_covers:
  assumes "tag_set_wf s" shows "covers (tag_set_add t s) t"
proof (cases "t \<noteq> 0 \<and> (\<not> tag_is_valid t \<or> \<not> tag_set_intersects s t)")
  case True
  let ?j = "unat (ts_n s) mod 4"
  have l: "length (ts_tags s) = 4" "?j < 4" using assms by (simp_all add: tag_set_wf_def)
  let ?t = "ts_tags s ! ?j OR t" let ?tags = "(ts_tags s)[?j := ?t]"
  have "\<forall>k. bit t k \<longrightarrow> bit ((if ?t = - 1 then ?tags[0 := ?t] else ?tags) ! ?j) k"
    using l bit_imp_le_length [of t] by (auto simp: nth_list_update bit_simps)
  then show ?thesis using True l(2) unfolding covers_def sub_bits tag_set_add_def Let_def
    by (auto simp: bit_or_iff intro!: exI [of _ ?j])
next
  case False
  show ?thesis
  proof (cases "t = 0")
    case True
    then show ?thesis by (auto simp: covers_def intro: exI [of _ 0])
  next
    case t: False
    then have v: "tag_is_valid t" "tag_set_intersects s t" using False by auto
    then have "t AND NOT (ts_total s) = 0" "\<exists>i<4. t AND NOT (ts_tags s ! i) = 0"
      using valid_intersects_sub [OF v(1)] unfolding tag_set_intersects_def by force+
    then show ?thesis using False by (auto simp: covers_def tag_set_add_def)
  qed
qed

text \<open>
  A set of tags never misses: whatever tags or combinations of tags were added, in any order, everything that has a tag in common
  with one of them intersects the set.
\<close>

theorem tag_set_never_misses:
  assumes "t \<in> set ts" "tag_intersects t u"
  shows "tag_set_intersects (fold tag_set_add ts tag_set_init) u"
proof -
  have "tag_set_wf s \<Longrightarrow> covers s t \<or> t \<in> set ts \<Longrightarrow> covers (fold tag_set_add ts s) t" for s
  proof (induction ts arbitrary: s)
    case (Cons x ts)
    show ?case using Cons.IH [OF tag_set_add_wf [OF Cons.prems(1)], of x] Cons.prems
        tag_set_add_keeps [OF Cons.prems(1)] tag_set_add_covers [OF Cons.prems(1)] by auto
  qed simp
  from this [of tag_set_init] have "covers (fold tag_set_add ts tag_set_init) t"
    using assms(1) by (simp add: tag_set_init_def tag_set_wf_def)
  then show ?thesis using assms(2) by (rule covers_intersects)
qed

theorem tag_set_never_misses_witness:
  "tag_set_intersects (fold tag_set_add [3, 0x30, 0x300, 0x3000, 0x30000, 0x81] tag_set_init) (0x30000 OR 0x4)"
proof (rule tag_set_never_misses [of "0x30000"])
  show "(0x30000 :: u32) \<in> set [3, 0x30, 0x300, 0x3000, 0x30000, 0x81]" by simp
  show "tag_intersects 0x30000 (0x30000 OR 0x4)" by code_simp
qed

end
