(* ===== verification/Mac_Learning.thy ===== *)
theory Mac_Learning
  imports OF_Msg Hash_Tag
begin

text \<open>
  The table of learned addresses, \<^verbatim>\<open>src/openflow/lib/mac-learning.c\<close>. The entries are an array; the lists \<open>ml_free\<close>, \<open>ml_lrus\<close> and those
  of the hash table hold indices into it. The table implements a list of stations in the order in which they were last heard.
\<close>

section \<open>State\<close>

abbreviation MAC_HASH_BITS :: u32 where "MAC_HASH_BITS \<equiv> 10"
abbreviation MAC_HASH_SIZE :: nat where "MAC_HASH_SIZE \<equiv> 1024"
abbreviation MAC_MAX :: nat where "MAC_MAX \<equiv> 1024"
abbreviation MAC_FLOOD :: u16 where "MAC_FLOOD \<equiv> 0xfffb"

record mac_entry =
  me_expires :: int
  me_mac :: eth_addr
  me_vlan :: u16
  me_port :: int
  me_tag :: u32

record mac_learning =
  ml_free :: "nat list"
  ml_lrus :: "nat list"
  ml_table :: "nat list list"
  ml_entries :: "mac_entry list"
  ml_secret :: u32

definition eth_addr_is_multicast :: "eth_addr \<Rightarrow> bool" where
  "eth_addr_is_multicast ea \<longleftrightarrow> flag_set (eth_bytes ea ! 0) 1"

section \<open>Operations\<close>

definition mac_table_hash :: "eth_addr \<Rightarrow> u16 \<Rightarrow> u32" where
  "mac_table_hash mac vlan = hash_bytes (eth_bytes mac) (ucast vlan)"

definition make_unknown_mac_tag :: "u32 \<Rightarrow> eth_addr \<Rightarrow> u16 \<Rightarrow> u32" where
  "make_unknown_mac_tag secret mac vlan = tag_create_deterministic (hash_bytes (le32 secret) (mac_table_hash mac vlan))"

text \<open>The code masks the hash by the number of bits, not by the mask \<^verbatim>\<open>MAC_HASH_MASK\<close> that it defines.\<close>

definition mac_table_bucket :: "eth_addr \<Rightarrow> u16 \<Rightarrow> nat" where
  "mac_table_bucket mac vlan = unat (mac_table_hash mac vlan AND MAC_HASH_BITS)"

definition search_bucket :: "mac_learning \<Rightarrow> nat \<Rightarrow> eth_addr \<Rightarrow> u16 \<Rightarrow> nat option" where
  "search_bucket ml bucket mac vlan =
     find (\<lambda>e. me_mac (ml_entries ml ! e) = mac \<and> me_vlan (ml_entries ml ! e) = vlan) (ml_table ml ! bucket)"

definition get_lru :: "mac_learning \<Rightarrow> nat option" where
  "get_lru ml = (case ml_lrus ml of [] \<Rightarrow> None | e # _ \<Rightarrow> Some e)"

definition free_mac_entry :: "nat \<Rightarrow> mac_learning \<Rightarrow> mac_learning" where
  "free_mac_entry e ml =
     ml\<lparr>ml_table := map (remove1 e) (ml_table ml), ml_lrus := remove1 e (ml_lrus ml), ml_free := e # ml_free ml\<rparr>"

text \<open>The memory of the entries is not initialised, and the secret is random.\<close>

definition mac_learning_create :: "(nat \<Rightarrow> mac_entry) \<Rightarrow> u32 \<Rightarrow> mac_learning" where
  "mac_learning_create uninit secret =
     \<lparr>ml_free = fold (#) [0..<MAC_MAX] [], ml_lrus = [], ml_table = replicate MAC_HASH_SIZE [],
      ml_entries = map uninit [0..<MAC_MAX], ml_secret = secret\<rparr>"

text \<open>The entry for a station that has none.\<close>

definition mac_entry_claim :: "nat \<Rightarrow> eth_addr \<Rightarrow> u16 \<Rightarrow> mac_learning \<Rightarrow> nat \<times> mac_learning" where
  "mac_entry_claim bucket mac vlan ml =
     (let (e, ml) =
            (case ml_free ml of
               e # _ \<Rightarrow> (e, ml)
             | [] \<Rightarrow> let e = hd (ml_lrus ml) in (e, ml\<lparr>ml_table := map (remove1 e) (ml_table ml)\<rparr>));
          entry = (ml_entries ml ! e)\<lparr>me_mac := mac, me_port := - 1, me_vlan := vlan,
                    me_tag := make_unknown_mac_tag (ml_secret ml) mac vlan\<rparr>
      in (e, ml\<lparr>ml_table := (ml_table ml)[bucket := e # ml_table ml ! bucket], ml_entries := (ml_entries ml)[e := entry]\<rparr>))"

text \<open>
  The tag of the flows to look at again, and the table; \<open>rs\<close> are the random numbers for \<^verbatim>\<open>tag_create_random\<close>, whose loop ends when one of them
  will do.
\<close>

definition mac_learning_learn :: "u16 list \<Rightarrow> int \<Rightarrow> eth_addr \<Rightarrow> u16 \<Rightarrow> u16 \<Rightarrow> mac_learning \<Rightarrow> (u32 \<times> mac_learning) option" where
  "mac_learning_learn rs now src_mac vlan src_port ml =
     (if eth_addr_is_multicast src_mac then Some (0, ml)
      else
        (let bucket = mac_table_bucket src_mac vlan;
             (e, ml) = (case search_bucket ml bucket src_mac vlan of
                          Some e \<Rightarrow> (e, ml)
                        | None \<Rightarrow> mac_entry_claim bucket src_mac vlan ml);
             entry = (ml_entries ml ! e)\<lparr>me_expires := now + 60\<rparr>;
             ml = ml\<lparr>ml_free := remove1 e (ml_free ml), ml_lrus := remove1 e (ml_lrus ml) @ [e],
                     ml_entries := (ml_entries ml)[e := entry]\<rparr>
         in if me_port entry \<noteq> uint src_port then
              (case tag_create_random rs of
                 None \<Rightarrow> None
               | Some tag \<Rightarrow> Some (me_tag entry,
                   ml\<lparr>ml_entries := (ml_entries ml)[e := entry\<lparr>me_port := uint src_port, me_tag := tag\<rparr>]\<rparr>))
            else Some (0, ml)))"

definition mac_learning_lookup_tag :: "mac_learning \<Rightarrow> eth_addr \<Rightarrow> u16 \<Rightarrow> u32 \<Rightarrow> u16 \<times> u32" where
  "mac_learning_lookup_tag ml dst vlan tag =
     (if eth_addr_is_multicast dst then (MAC_FLOOD, tag)
      else
        (case search_bucket ml (mac_table_bucket dst vlan) dst vlan of
           Some e \<Rightarrow> (word_of_int (me_port (ml_entries ml ! e)), tag OR me_tag (ml_entries ml ! e))
         | None \<Rightarrow> (MAC_FLOOD, tag OR make_unknown_mac_tag (ml_secret ml) dst vlan)))"

definition mac_learning_lookup :: "mac_learning \<Rightarrow> eth_addr \<Rightarrow> u16 \<Rightarrow> u16" where
  "mac_learning_lookup ml dst vlan = fst (mac_learning_lookup_tag ml dst vlan 0)"

function mac_learning_flush :: "mac_learning \<Rightarrow> mac_learning" where
  "mac_learning_flush ml = (case get_lru ml of None \<Rightarrow> ml | Some e \<Rightarrow> mac_learning_flush (free_mac_entry e ml))"
  by pat_completeness auto
termination by (relation "measure (length \<circ> ml_lrus)") (auto simp: get_lru_def free_mac_entry_def split: list.splits)

declare mac_learning_flush.simps [simp del]

function mac_learning_run :: "int \<Rightarrow> tag_set option \<Rightarrow> mac_learning \<Rightarrow> tag_set option \<times> mac_learning" where
  "mac_learning_run now tags ml =
     (case get_lru ml of
        None \<Rightarrow> (tags, ml)
      | Some e \<Rightarrow>
          (if now \<ge> me_expires (ml_entries ml ! e)
           then mac_learning_run now (map_option (tag_set_add (me_tag (ml_entries ml ! e))) tags) (free_mac_entry e ml)
           else (tags, ml)))"
  by pat_completeness auto
termination by (relation "measure (\<lambda>(_, _, ml). length (ml_lrus ml))") (auto simp: get_lru_def free_mac_entry_def split: list.splits)

declare mac_learning_run.simps [simp del]

text \<open>The time until the first entry expires, for the timer; \<open>None\<close> without an entry.\<close>

definition mac_learning_wait :: "int \<Rightarrow> mac_learning \<Rightarrow> int option" where
  "mac_learning_wait now ml = map_option (\<lambda>e. (me_expires (ml_entries ml ! e) - now) * 1000) (get_lru ml)"

section \<open>The list of stations\<close>

text \<open>What the table stands for: the stations in use, the one heard last at the end.\<close>

definition stations :: "mac_learning \<Rightarrow> mac_entry list" where
  "stations ml = map ((!) (ml_entries ml)) (ml_lrus ml)"

definition station :: "mac_entry \<Rightarrow> eth_addr \<times> u16" where
  "station e = (me_mac e, me_vlan e)"

definition find_station :: "eth_addr \<times> u16 \<Rightarrow> mac_entry list \<Rightarrow> mac_entry option" where
  "find_station k = find (\<lambda>e. station e = k)"

text \<open>A station that is heard moves to the end; a new one takes the place of the one heard first when there are 1024.\<close>

definition hear :: "mac_entry \<Rightarrow> mac_entry list \<Rightarrow> mac_entry list" where
  "hear new es =
     (let known = find_station (station new) es \<noteq> None
      in filter (\<lambda>e. station e \<noteq> station new) (if known \<or> length es < MAC_MAX then es else tl es) @ [new])"

definition mac_inv :: "mac_learning \<Rightarrow> bool" where
  "mac_inv ml \<longleftrightarrow> length (ml_table ml) = MAC_HASH_SIZE \<and> length (ml_entries ml) = MAC_MAX
     \<and> distinct (ml_free ml @ ml_lrus ml) \<and> set (ml_free ml @ ml_lrus ml) = {..<MAC_MAX}
     \<and> (\<forall>b<MAC_HASH_SIZE. distinct (ml_table ml ! b)
          \<and> set (ml_table ml ! b) = {e \<in> set (ml_lrus ml). case_prod mac_table_bucket (station (ml_entries ml ! e)) = b})
     \<and> distinct (map station (stations ml))
     \<and> (\<forall>s\<in>set (stations ml). 0 \<le> me_port s \<and> me_port s < 65536 \<and> \<not> eth_addr_is_multicast (me_mac s))"

text \<open>The hash selects one of four buckets out of 1024.\<close>

lemma bucket_values: "mac_table_bucket mac vlan \<in> {0, 2, 8, 10}"
proof -
  have "h AND 10 \<in> {0, 2, 8, 10}" for h :: u32
  proof -
    have b: "bit (h AND 10) n = bit (if bit h 1 then if bit h 3 then 10 else 2 else if bit h 3 then 8 else 0 :: u32) n" for n
    proof -
      have "bit (10 :: u32) n \<longleftrightarrow> n = 1 \<or> n = 3" "bit (2 :: u32) n \<longleftrightarrow> n = 1" "bit (8 :: u32) n \<longleftrightarrow> n = 3"
        by (auto simp: bit_simps bit_numeral_rec nat_less_le less_Suc_eq numeral_eq_Suc split: nat.split)
      then show ?thesis by (auto simp: bit_and_iff)
    qed
    then have "h AND 10 = (if bit h 1 then if bit h 3 then 10 else 2 else if bit h 3 then 8 else 0)" by (simp add: bit_eq_iff)
    then show ?thesis by simp
  qed
  from this [of "mac_table_hash mac vlan"] show ?thesis unfolding mac_table_bucket_def by auto
qed

lemma bucket_bound: "mac_table_bucket mac vlan < MAC_HASH_SIZE"
  using bucket_values [of mac vlan] by auto


definition bucket_of :: "mac_entry \<Rightarrow> nat" where
  "bucket_of e = mac_table_bucket (me_mac e) (me_vlan e)"

lemma bucket_of_bound: "bucket_of e < MAC_HASH_SIZE"
  using bucket_bound by (simp add: bucket_of_def)

definition entry_valid :: "mac_entry \<Rightarrow> bool" where
  "entry_valid s \<longleftrightarrow> 0 \<le> me_port s \<and> me_port s < 65536 \<and> \<not> eth_addr_is_multicast (me_mac s)"

lemma mac_inv_iff: "mac_inv ml \<longleftrightarrow> length (ml_table ml) = MAC_HASH_SIZE \<and> length (ml_entries ml) = MAC_MAX
     \<and> distinct (ml_free ml @ ml_lrus ml) \<and> set (ml_free ml @ ml_lrus ml) = {..<MAC_MAX}
     \<and> (\<forall>b<MAC_HASH_SIZE. distinct (ml_table ml ! b) \<and> set (ml_table ml ! b) = {e \<in> set (ml_lrus ml). bucket_of (ml_entries ml ! e) = b})
     \<and> distinct (map (\<lambda>e. station (ml_entries ml ! e)) (ml_lrus ml))
     \<and> (\<forall>e\<in>set (ml_lrus ml). entry_valid (ml_entries ml ! e))"
  by (simp add: mac_inv_def bucket_of_def station_def entry_valid_def stations_def comp_def)

lemma fold_Cons: "fold (#) xs ys = rev xs @ ys"
  by (induction xs arbitrary: ys) simp_all

lemma create_inv: "mac_inv (mac_learning_create uninit secret)"
  by (auto simp: mac_inv_iff mac_learning_create_def fold_Cons)

lemma create_stations: "stations (mac_learning_create uninit secret) = []"
  by (simp add: stations_def mac_learning_create_def)

text \<open>Searching a bucket is searching the stations.\<close>

lemma search_bucket_iff:
  assumes "mac_inv ml"
  shows "search_bucket ml (mac_table_bucket mac vlan) mac vlan = Some e
    \<longleftrightarrow> e \<in> set (ml_lrus ml) \<and> station (ml_entries ml ! e) = (mac, vlan)"
proof -
  let ?b = "mac_table_bucket mac vlan" let ?P = "\<lambda>e. station (ml_entries ml ! e) = (mac, vlan)"
  have t: "set (ml_table ml ! ?b) = {e \<in> set (ml_lrus ml). bucket_of (ml_entries ml ! e) = ?b}"
    using assms bucket_bound unfolding mac_inv_iff by blast
  have P: "search_bucket ml ?b mac vlan = find ?P (ml_table ml ! ?b)" by (simp add: search_bucket_def station_def)
  have bo: "?P e \<Longrightarrow> bucket_of (ml_entries ml ! e) = ?b" for e by (simp add: station_def bucket_of_def)
  have inj: "inj_on (\<lambda>e. station (ml_entries ml ! e)) (set (ml_lrus ml))" using assms by (simp add: mac_inv_iff distinct_map)
  show ?thesis
  proof
    assume "search_bucket ml ?b mac vlan = Some e"
    then have "e \<in> set (ml_table ml ! ?b) \<and> ?P e" unfolding P by (auto simp: find_Some_iff)
    then show "e \<in> set (ml_lrus ml) \<and> ?P e" using t by simp
  next
    assume e: "e \<in> set (ml_lrus ml) \<and> ?P e"
    then have "e \<in> set (ml_table ml ! ?b)" using t bo by simp
    then obtain e' where f: "find ?P (ml_table ml ! ?b) = Some e'"
      using e by (cases "find ?P (ml_table ml ! ?b)") (auto simp: find_None_iff)
    then have "e' \<in> set (ml_table ml ! ?b) \<and> ?P e'" by (auto simp: find_Some_iff)
    then have "e' = e" using e t inj unfolding inj_on_def by simp
    then show "search_bucket ml ?b mac vlan = Some e" using f P by simp
  qed
qed

lemma find_map: "find P (map f xs) = map_option f (find (P \<circ> f) xs)"
  by (induction xs) simp_all

lemma find_station_search:
  assumes "mac_inv ml"
  shows "find_station (mac, vlan) (stations ml)
    = map_option ((!) (ml_entries ml)) (search_bucket ml (mac_table_bucket mac vlan) mac vlan)"
proof -
  let ?P = "\<lambda>e. station (ml_entries ml ! e) = (mac, vlan)"
  have "find ?P (ml_lrus ml) = search_bucket ml (mac_table_bucket mac vlan) mac vlan"
  proof (cases "find ?P (ml_lrus ml)")
    case None
    then have "\<nexists>e. e \<in> set (ml_lrus ml) \<and> ?P e" by (auto simp: find_None_iff)
    then show ?thesis using search_bucket_iff [OF assms] None by (metis option.exhaust)
  next
    case (Some e)
    then have "e \<in> set (ml_lrus ml) \<and> ?P e" by (auto simp: find_Some_iff)
    then show ?thesis using search_bucket_iff [OF assms] Some by metis
  qed
  then show ?thesis by (simp add: find_station_def stations_def find_map comp_def)
qed

text \<open>An entry that is written and moved to the end of the list of used entries.\<close>

lemma touch_inv:
  assumes inv: "mac_inv ml" and e: "e < MAC_MAX" and t: "length table = MAC_HASH_SIZE"
    "\<And>b. b < MAC_HASH_SIZE \<Longrightarrow> distinct (table ! b)"
    "\<And>b. b < MAC_HASH_SIZE \<Longrightarrow> set (table ! b) = {x \<in> set (ml_lrus ml) - {e}. bucket_of (ml_entries ml ! x) = b} \<union> (if bucket_of new = b then {e} else {})"
    and k: "\<And>x. x \<in> set (ml_lrus ml) \<Longrightarrow> x \<noteq> e \<Longrightarrow> station (ml_entries ml ! x) \<noteq> station new" and v: "entry_valid new"
  shows "mac_inv \<lparr>ml_free = remove1 e (ml_free ml), ml_lrus = remove1 e (ml_lrus ml) @ [e], ml_table = table,
      ml_entries = (ml_entries ml)[e := new], ml_secret = s\<rparr>"
proof -
  have d: "distinct (ml_free ml)" "distinct (ml_lrus ml)" "set (ml_free ml) \<inter> set (ml_lrus ml) = {}"
    "set (ml_free ml) \<union> set (ml_lrus ml) = {..<MAC_MAX}" "length (ml_entries ml) = MAC_MAX"
    "distinct (map (\<lambda>e. station (ml_entries ml ! e)) (ml_lrus ml))" "\<forall>e\<in>set (ml_lrus ml). entry_valid (ml_entries ml ! e)"
    using inv unfolding mac_inv_iff by auto
  have r: "set (remove1 e (ml_lrus ml)) = set (ml_lrus ml) - {e}" "set (remove1 e (ml_free ml)) = set (ml_free ml) - {e}" using d by simp_all
  have n: "(ml_entries ml)[e := new] ! x = (if x = e then new else ml_entries ml ! x)" if "x < MAC_MAX" for x
    using that e d(5) by (auto simp: nth_list_update)
  have lt: "x < MAC_MAX" if "x \<in> set (ml_lrus ml)" for x using that d(4) by auto
  have inj: "inj_on (\<lambda>x. station (ml_entries ml ! x)) (set (ml_lrus ml))" using d(6) by (simp add: distinct_map)
  have "inj_on (\<lambda>x. station ((ml_entries ml)[e := new] ! x)) (insert e (set (ml_lrus ml) - {e}))"
    unfolding inj_on_def using inj [unfolded inj_on_def] k n lt e by (metis DiffD1 DiffD2 insertE singletonI)
  then have st: "distinct (map (\<lambda>x. station ((ml_entries ml)[e := new] ! x)) (remove1 e (ml_lrus ml) @ [e]))"
    using d(1,2) r by (subst distinct_map) simp
  have bk: "set (table ! b) = {x \<in> insert e (set (ml_lrus ml) - {e}). bucket_of ((ml_entries ml)[e := new] ! x) = b}" if b: "b < MAC_HASH_SIZE" for b
    unfolding t(3) [OF b] using n lt e by auto
  have va: "entry_valid ((ml_entries ml)[e := new] ! x)" if "x \<in> insert e (set (ml_lrus ml))" for x
    using that n [of x] lt [of x] e v d(7) by (cases "x = e") auto
  have "insert e (set (ml_free ml) - {e} \<union> (set (ml_lrus ml) - {e})) = {..<MAC_MAX}" using d(4) e by auto
  then show ?thesis using d r st bk t(1,2) va unfolding mac_inv_iff by auto
qed


text \<open>The list of stations after it.\<close>

lemma touch_stations:
  assumes inv: "mac_inv ml" and e: "e < MAC_MAX"
  shows "map ((!) ((ml_entries ml)[e := new])) (remove1 e (ml_lrus ml) @ [e])
    = map ((!) (ml_entries ml)) (remove1 e (ml_lrus ml)) @ [new]"
proof -
  have "distinct (ml_lrus ml)" "length (ml_entries ml) = MAC_MAX" using inv by (auto simp: mac_inv_iff)
  then show ?thesis using e by (auto simp: nth_list_update)
qed

lemma inj_stations: "mac_inv ml \<Longrightarrow> inj_on (\<lambda>x. station (ml_entries ml ! x)) (set (ml_lrus ml))"
  by (simp add: mac_inv_iff distinct_map)

lemma other_stations:
  assumes inv: "mac_inv ml" and e: "e \<in> set (ml_lrus ml)" "station (ml_entries ml ! e) = k"
  shows "filter (\<lambda>s. station s \<noteq> k) (stations ml) = map ((!) (ml_entries ml)) (remove1 e (ml_lrus ml))"
proof -
  have d: "distinct (ml_lrus ml)" using inv by (simp add: mac_inv_iff)
  have "filter (\<lambda>x. station (ml_entries ml ! x) \<noteq> k) (ml_lrus ml) = filter (\<lambda>x. x \<noteq> e) (ml_lrus ml)"
    by (rule filter_cong) (use inj_stations [OF inv] e in \<open>auto simp: inj_on_def\<close>)
  then show ?thesis using d by (simp add: stations_def filter_map comp_def distinct_remove1_removeAll removeAll_filter_not_eq) (metis)
qed

section \<open>Learning\<close>

definition heard :: "u32 \<Rightarrow> u16 list \<Rightarrow> int \<Rightarrow> eth_addr \<Rightarrow> u16 \<Rightarrow> u16 \<Rightarrow> mac_entry list \<Rightarrow> (u32 \<times> mac_entry list) option" where
  "heard secret rs now mac vlan port es =
     (if eth_addr_is_multicast mac then Some (0, es)
      else
        (let (old_port, old_tag) = (case find_station (mac, vlan) es of
               Some s \<Rightarrow> (me_port s, me_tag s)
             | None \<Rightarrow> (- 1, make_unknown_mac_tag secret mac vlan));
             new = \<lparr>me_expires = now + 60, me_mac = mac, me_vlan = vlan, me_port = uint port, me_tag = old_tag\<rparr>
         in if old_port \<noteq> uint port then map_option (\<lambda>tag. (old_tag, hear (new\<lparr>me_tag := tag\<rparr>) es)) (tag_create_random rs)
            else Some (0, hear new es)))"

lemma entry_valid_port: "\<not> eth_addr_is_multicast mac \<Longrightarrow> me_mac s = mac \<Longrightarrow> me_port s = uint (port :: u16) \<Longrightarrow> entry_valid s"
  using uint_lt2p [of port] by (simp add: entry_valid_def)

text \<open>The entry that the search or the claim gives, and what is left to do for every way to get it.\<close>

lemma claim_result:
  assumes inv: "mac_inv ml" and n: "find_station (mac, vlan) (stations ml) = None"
  defines "b \<equiv> mac_table_bucket mac vlan"
  obtains e table where "mac_entry_claim b mac vlan ml = (e, ml\<lparr>ml_table := table,
        ml_entries := (ml_entries ml)[e := (ml_entries ml ! e)\<lparr>me_mac := mac, me_port := - 1, me_vlan := vlan,
          me_tag := make_unknown_mac_tag (ml_secret ml) mac vlan\<rparr>]\<rparr>)"
    "e < MAC_MAX" "length table = MAC_HASH_SIZE" "\<And>b. b < MAC_HASH_SIZE \<Longrightarrow> distinct (table ! b)"
    "\<And>b'. b' < MAC_HASH_SIZE \<Longrightarrow> set (table ! b') = {x \<in> set (ml_lrus ml) - {e}. bucket_of (ml_entries ml ! x) = b'} \<union> (if b = b' then {e} else {})"
    "map ((!) (ml_entries ml)) (remove1 e (ml_lrus ml)) = (if length (stations ml) < MAC_MAX then stations ml else tl (stations ml))"
proof -
  have d: "distinct (ml_free ml)" "distinct (ml_lrus ml)" "set (ml_free ml) \<inter> set (ml_lrus ml) = {}" "length (ml_table ml) = MAC_HASH_SIZE"
    "set (ml_free ml) \<union> set (ml_lrus ml) = {..<MAC_MAX}" "length (ml_entries ml) = MAC_MAX"
    using inv unfolding mac_inv_iff by auto
  have t: "distinct (ml_table ml ! b)" "set (ml_table ml ! b) = {e \<in> set (ml_lrus ml). bucket_of (ml_entries ml ! e) = b}" if "b < MAC_HASH_SIZE" for b
    using inv that unfolding mac_inv_iff by auto
  have b: "b < MAC_HASH_SIZE" unfolding b_def by (rule bucket_bound)
  have card: "length (ml_free ml) + length (ml_lrus ml) = MAC_MAX"
    using d(1-3,5) card_Un_disjoint [of "set (ml_free ml)" "set (ml_lrus ml)"] by (simp add: distinct_card)
  show thesis
  proof (cases "ml_free ml")
    case (Cons e es)
    let ?table = "(ml_table ml)[b := e # ml_table ml ! b]"
    have e: "e < MAC_MAX" "e \<notin> set (ml_lrus ml)" using Cons d(3,5) by auto
    have dist: "distinct (?table ! b')" if "b' < MAC_HASH_SIZE" for b'
      using that b d(4) t e(2) by (auto simp: nth_list_update)
    have sets: "set (?table ! b') = {x \<in> set (ml_lrus ml) - {e}. bucket_of (ml_entries ml ! x) = b'} \<union> (if b = b' then {e} else {})"
      if "b' < MAC_HASH_SIZE" for b' using that b d(4) t e(2) by (auto simp: nth_list_update)
    have "length (stations ml) < MAC_MAX" using card Cons by (simp add: stations_def)
    then have st: "map ((!) (ml_entries ml)) (remove1 e (ml_lrus ml)) = (if length (stations ml) < MAC_MAX then stations ml else tl (stations ml))"
      using e(2) by (simp add: stations_def remove1_idem)
    show thesis by (rule that [OF _ e(1) _ dist sets st]) (simp_all add: mac_entry_claim_def Cons d(4))
  next
    case Nil
    then have l: "length (ml_lrus ml) = MAC_MAX" using card by simp
    then obtain e es where es: "ml_lrus ml = e # es" by (cases "ml_lrus ml") auto
    let ?table = "(map (remove1 e) (ml_table ml))[b := e # map (remove1 e) (ml_table ml) ! b]"
    have e: "e < MAC_MAX" using es d(5) by auto
    have dist: "distinct (?table ! b')" if "b' < MAC_HASH_SIZE" for b'
      using that b d(4) t by (auto simp: nth_list_update)
    have sets: "set (?table ! b') = {x \<in> set (ml_lrus ml) - {e}. bucket_of (ml_entries ml ! x) = b'} \<union> (if b = b' then {e} else {})"
      if "b' < MAC_HASH_SIZE" for b' using that b d(4) t by (auto simp: nth_list_update)
    have st: "map ((!) (ml_entries ml)) (remove1 e (ml_lrus ml)) = (if length (stations ml) < MAC_MAX then stations ml else tl (stations ml))"
      using l es by (simp add: stations_def)
    show thesis by (rule that [OF _ e _ dist sets st]) (simp_all add: mac_entry_claim_def Nil es d(4))
  qed
qed


lemma hear_eq:
  "hear new es = filter (\<lambda>s. station s \<noteq> station new)
     (if find_station (station new) es \<noteq> None \<or> length es < MAC_MAX then es else tl es) @ [new]"
  by (simp add: hear_def Let_def)

lemma find_station_None: "find_station k es = None \<longleftrightarrow> (\<forall>s\<in>set es. station s \<noteq> k)"
  by (auto simp: find_station_def find_None_iff)

lemma hear_known:
  assumes inv: "mac_inv ml" and e: "e \<in> set (ml_lrus ml)" "station (ml_entries ml ! e) = station new"
  shows "hear new (stations ml) = map ((!) (ml_entries ml)) (remove1 e (ml_lrus ml)) @ [new]"
proof -
  have "\<exists>s\<in>set (stations ml). station s = station new" using e by (auto simp: stations_def)
  then have "find_station (station new) (stations ml) \<noteq> None" by (auto simp: find_station_None)
  then show ?thesis using other_stations [OF inv e] by (simp add: hear_eq)
qed

lemma hear_new:
  assumes "find_station (station new) es = None"
  shows "hear new es = (if length es < MAC_MAX then es else tl es) @ [new]"
proof -
  have a: "\<forall>s\<in>set es. station s \<noteq> station new" using assms by (simp add: find_station_None)
  have "set (tl es) \<subseteq> set es" by (cases es) auto
  then have "filter (\<lambda>s. station s \<noteq> station new) es = es" "filter (\<lambda>s. station s \<noteq> station new) (tl es) = tl es"
    using a by (auto simp: filter_id_conv)
  then show ?thesis using assms by (simp add: hear_eq)
qed

text \<open>What the steps after the search have in common.\<close>

lemma learn_known:
  assumes inv: "mac_inv ml" and m: "\<not> eth_addr_is_multicast mac" and e: "e \<in> set (ml_lrus ml)" "station (ml_entries ml ! e) = (mac, vlan)"
    and port: "me_port new = uint (port :: u16)" and st: "station new = (mac, vlan)"
  defines "ml' \<equiv> ml\<lparr>ml_free := remove1 e (ml_free ml), ml_lrus := remove1 e (ml_lrus ml) @ [e], ml_entries := (ml_entries ml)[e := new]\<rparr>"
  shows "mac_inv ml' \<and> stations ml' = hear new (stations ml)"
proof -
  have d: "length (ml_table ml) = MAC_HASH_SIZE" "\<And>b. b < MAC_HASH_SIZE \<Longrightarrow> distinct (ml_table ml ! b)"
    "\<And>b. b < MAC_HASH_SIZE \<Longrightarrow> set (ml_table ml ! b) = {x \<in> set (ml_lrus ml). bucket_of (ml_entries ml ! x) = b}"
    "e < MAC_MAX" using inv e(1) unfolding mac_inv_iff by auto
  have b: "bucket_of (ml_entries ml ! e) = bucket_of new" using e(2) st by (simp add: station_def bucket_of_def)
  have t: "set (ml_table ml ! b) = {x \<in> set (ml_lrus ml) - {e}. bucket_of (ml_entries ml ! x) = b} \<union> (if bucket_of new = b then {e} else {})"
    if "b < MAC_HASH_SIZE" for b using d(3) [OF that] e(1) b by auto
  have k: "station (ml_entries ml ! x) \<noteq> station new" if "x \<in> set (ml_lrus ml)" "x \<noteq> e" for x
    using inj_stations [OF inv] that e st unfolding inj_on_def by metis
  have v: "entry_valid new" using entry_valid_port [OF m _ port] st by (simp add: station_def)
  have "ml' = \<lparr>ml_free = remove1 e (ml_free ml), ml_lrus = remove1 e (ml_lrus ml) @ [e], ml_table = ml_table ml,
      ml_entries = (ml_entries ml)[e := new], ml_secret = ml_secret ml\<rparr>" by (simp add: ml'_def)
  then have "mac_inv ml'" using touch_inv [OF inv d(4,1,2) t k v] by simp
  moreover have "stations ml' = hear new (stations ml)"
    unfolding hear_known [OF inv e(1) e(2) [folded st]] using touch_stations [OF inv d(4)] by (simp add: stations_def ml'_def)
  ultimately show ?thesis by blast
qed

lemma learn_new:
  assumes inv: "mac_inv ml" and m: "\<not> eth_addr_is_multicast mac" and e: "e < MAC_MAX" "length table = MAC_HASH_SIZE"
    "\<And>b. b < MAC_HASH_SIZE \<Longrightarrow> distinct (table ! b)"
    "\<And>b. b < MAC_HASH_SIZE \<Longrightarrow> set (table ! b) = {x \<in> set (ml_lrus ml) - {e}. bucket_of (ml_entries ml ! x) = b}
        \<union> (if mac_table_bucket mac vlan = b then {e} else {})"
    "map ((!) (ml_entries ml)) (remove1 e (ml_lrus ml)) = (if length (stations ml) < MAC_MAX then stations ml else tl (stations ml))"
    and n: "find_station (mac, vlan) (stations ml) = None"
    and port: "me_port new = uint (port :: u16)" and st: "station new = (mac, vlan)"
  defines "ml' \<equiv> ml\<lparr>ml_table := table, ml_free := remove1 e (ml_free ml), ml_lrus := remove1 e (ml_lrus ml) @ [e], ml_entries := (ml_entries ml)[e := new]\<rparr>"
  shows "mac_inv ml' \<and> stations ml' = hear new (stations ml)"
proof -
  have b: "bucket_of new = mac_table_bucket mac vlan" using st by (simp add: station_def bucket_of_def)
  have k: "station (ml_entries ml ! x) \<noteq> station new" if "x \<in> set (ml_lrus ml)" for x
    using n that st by (auto simp: find_station_None stations_def)
  have v: "entry_valid new" using entry_valid_port [OF m _ port] st by (simp add: station_def)
  have "ml' = \<lparr>ml_free = remove1 e (ml_free ml), ml_lrus = remove1 e (ml_lrus ml) @ [e], ml_table = table,
      ml_entries = (ml_entries ml)[e := new], ml_secret = ml_secret ml\<rparr>" by (simp add: ml'_def)
  then have "mac_inv ml'" using touch_inv [OF inv e(1-3) e(4) [folded b] k v] by simp
  moreover have "stations ml' = hear new (stations ml)"
    unfolding hear_new [OF n [folded st]] using touch_stations [OF inv e(1), of new] e(5) by (simp add: stations_def ml'_def)
  ultimately show ?thesis by blast
qed

lemma learn_refines:
  assumes inv: "mac_inv ml"
  shows "case mac_learning_learn rs now mac vlan port ml of
      None \<Rightarrow> heard (ml_secret ml) rs now mac vlan port (stations ml) = None
    | Some (tag, ml') \<Rightarrow> mac_inv ml' \<and> ml_secret ml' = ml_secret ml
        \<and> heard (ml_secret ml) rs now mac vlan port (stations ml) = Some (tag, stations ml')"
proof (cases "eth_addr_is_multicast mac")
  case m: False
  let ?b = "mac_table_bucket mac vlan"
  show ?thesis
  proof (cases "search_bucket ml ?b mac vlan")
    case (Some e)
    then have e: "e \<in> set (ml_lrus ml)" "station (ml_entries ml ! e) = (mac, vlan)" using search_bucket_iff [OF inv] by auto
    then have l: "e < length (ml_entries ml)" using inv by (auto simp: mac_inv_iff)
    have f: "find_station (mac, vlan) (stations ml) = Some (ml_entries ml ! e)" using find_station_search [OF inv] Some by simp
    let ?new = "\<lambda>tag. \<lparr>me_expires = now + 60, me_mac = mac, me_vlan = vlan, me_port = uint port, me_tag = tag\<rparr>"
    let ?old = "(ml_entries ml ! e)\<lparr>me_expires := now + 60\<rparr>"
    have old: "?old\<lparr>me_port := uint port, me_tag := t\<rparr> = ?new t" for t using e(2) by (cases "ml_entries ml ! e") (simp add: station_def)
    have same: "?old = ?new (me_tag (ml_entries ml ! e))" if "me_port (ml_entries ml ! e) = uint port"
      using e(2) that by (cases "ml_entries ml ! e") (simp add: station_def)
    note k = learn_known [OF inv m e, of "?new t" port for t]
    show ?thesis
    proof (cases "me_port (ml_entries ml ! e) = uint port")
      case True
      then show ?thesis using k [of "me_tag (ml_entries ml ! e)"] m Some f same l
        by (simp add: mac_learning_learn_def heard_def Let_def station_def)
    next
      case False
      then show ?thesis using k m Some f old l
        by (cases "tag_create_random rs") (simp_all add: mac_learning_learn_def heard_def Let_def station_def)
    qed
  next
    case None
    have f: "find_station (mac, vlan) (stations ml) = None" using find_station_search [OF inv] None by simp
    let ?u = "make_unknown_mac_tag (ml_secret ml) mac vlan"
    obtain e table where c: "mac_entry_claim ?b mac vlan ml = (e, ml\<lparr>ml_table := table,
        ml_entries := (ml_entries ml)[e := (ml_entries ml ! e)\<lparr>me_mac := mac, me_port := - 1, me_vlan := vlan, me_tag := ?u\<rparr>]\<rparr>)"
      and e: "e < MAC_MAX" "length table = MAC_HASH_SIZE" "\<And>b. b < MAC_HASH_SIZE \<Longrightarrow> distinct (table ! b)"
      "\<And>b. b < MAC_HASH_SIZE \<Longrightarrow> set (table ! b) = {x \<in> set (ml_lrus ml) - {e}. bucket_of (ml_entries ml ! x) = b} \<union> (if ?b = b then {e} else {})"
      "map ((!) (ml_entries ml)) (remove1 e (ml_lrus ml)) = (if length (stations ml) < MAC_MAX then stations ml else tl (stations ml))"
      by (rule claim_result [OF inv f]) (rule that)
    have l: "e < length (ml_entries ml)" using inv e(1) by (simp add: mac_inv_iff)
    let ?new = "\<lambda>tag. \<lparr>me_expires = now + 60, me_mac = mac, me_vlan = vlan, me_port = uint port, me_tag = tag\<rparr>"
    note k = learn_new [OF inv m e f, of "?new t" port for t]
    have p: "- 1 \<noteq> uint port" using uint_ge_0 [of port] by linarith
    let ?e = "(ml_entries ml ! e)\<lparr>me_mac := mac, me_port := - 1, me_vlan := vlan, me_tag := ?u\<rparr>"
    have new: "?e\<lparr>me_expires := now + 60\<rparr>\<lparr>me_port := uint port, me_tag := t\<rparr> = ?new t" for t by (cases "ml_entries ml ! e") simp
    have r: "mac_learning_learn rs now mac vlan port ml = (case tag_create_random rs of None \<Rightarrow> None
      | Some t \<Rightarrow> Some (?u, ml\<lparr>ml_table := table, ml_free := remove1 e (ml_free ml), ml_lrus := remove1 e (ml_lrus ml) @ [e],
          ml_entries := (ml_entries ml)[e := ?new t]\<rparr>))"
      unfolding new [symmetric] using m None c l p by (simp add: mac_learning_learn_def Let_def split: option.split)
    have h: "heard (ml_secret ml) rs now mac vlan port (stations ml)
      = (case tag_create_random rs of None \<Rightarrow> None | Some t \<Rightarrow> Some (?u, hear (?new t) (stations ml)))"
      using m f p by (simp add: heard_def Let_def split: option.split)
    show ?thesis unfolding r h using k by (cases "tag_create_random rs") (simp_all add: station_def)
  qed
qed (use inv in \<open>simp add: mac_learning_learn_def heard_def\<close>)


section \<open>Expiry and lookup\<close>

text \<open>The entry heard first is freed.\<close>

lemma free_refines:
  assumes inv: "mac_inv ml" and l: "ml_lrus ml = e # es"
  shows "mac_inv (free_mac_entry e ml) \<and> stations (free_mac_entry e ml) = tl (stations ml) \<and> ml_secret (free_mac_entry e ml) = ml_secret ml"
proof -
  have d: "distinct (ml_free ml @ e # es)" "length (ml_table ml) = MAC_HASH_SIZE"
    "\<And>b. b < MAC_HASH_SIZE \<Longrightarrow> distinct (ml_table ml ! b) \<and> set (ml_table ml ! b) = {x \<in> set (e # es). bucket_of (ml_entries ml ! x) = b}"
    using inv l unfolding mac_inv_iff by auto
  have t: "distinct (remove1 e (ml_table ml ! b)) \<and> set (remove1 e (ml_table ml ! b)) = {x \<in> set es. bucket_of (ml_entries ml ! x) = b}"
    if "b < MAC_HASH_SIZE" for b using d(3) [OF that] d(1) by auto
  have "mac_inv (free_mac_entry e ml)" using inv l t d(1,2) unfolding mac_inv_iff by (auto simp: free_mac_entry_def)
  then show ?thesis using l by (simp add: free_mac_entry_def stations_def)
qed

lemma flush_refines:
  "mac_inv ml \<Longrightarrow> mac_inv (mac_learning_flush ml) \<and> stations (mac_learning_flush ml) = [] \<and> ml_secret (mac_learning_flush ml) = ml_secret ml"
proof (induction ml rule: mac_learning_flush.induct)
  case (1 ml)
  show ?case
  proof (cases "ml_lrus ml")
    case Nil
    then have "mac_learning_flush ml = ml" by (simp add: mac_learning_flush.simps [of ml] get_lru_def)
    then show ?thesis using "1.prems" Nil by (simp add: stations_def)
  next
    case (Cons e es)
    then have g: "get_lru ml = Some e" by (simp add: get_lru_def)
    have "mac_learning_flush ml = mac_learning_flush (free_mac_entry e ml)" using g by (simp add: mac_learning_flush.simps [of ml])
    then show ?thesis using "1.IH" [OF g] free_refines [OF "1.prems" Cons] by simp
  qed
qed

lemma run_refines:
  "mac_inv ml \<Longrightarrow> mac_learning_run now tags ml = (tags', ml') \<Longrightarrow>
     mac_inv ml' \<and> ml_secret ml' = ml_secret ml
     \<and> stations ml' = dropWhile (\<lambda>s. me_expires s \<le> now) (stations ml)
     \<and> tags' = map_option (fold tag_set_add (map me_tag (takeWhile (\<lambda>s. me_expires s \<le> now) (stations ml)))) tags"
proof (induction now tags ml arbitrary: tags' ml' rule: mac_learning_run.induct)
  case (1 now tags ml)
  show ?case
  proof (cases "ml_lrus ml")
    case Nil
    then show ?thesis using "1.prems" by (subst (asm) mac_learning_run.simps) (cases tags, auto simp: get_lru_def stations_def)
  next
    case (Cons e es)
    then have g: "get_lru ml = Some e" by (simp add: get_lru_def)
    have s: "stations ml = ml_entries ml ! e # map ((!) (ml_entries ml)) es" using Cons by (simp add: stations_def)
    show ?thesis
    proof (cases "me_expires (ml_entries ml ! e) \<le> now")
      case True
      have "mac_learning_run now tags ml = mac_learning_run now (map_option (tag_set_add (me_tag (ml_entries ml ! e))) tags) (free_mac_entry e ml)"
        using g True by (simp add: mac_learning_run.simps [of now tags ml])
      then have "mac_learning_run now (map_option (tag_set_add (me_tag (ml_entries ml ! e))) tags) (free_mac_entry e ml) = (tags', ml')"
        using "1.prems"(2) by simp
      from "1.IH" [OF g _ _ this] free_refines [OF "1.prems"(1) Cons] True
      show ?thesis by (simp add: s option.map_comp comp_def)
    next
      case False
      then show ?thesis using "1.prems" g s by (subst (asm) mac_learning_run.simps) (cases tags, auto)
    qed
  qed
qed

text \<open>What a lookup says about a list of stations: port and tag.\<close>

definition lookup_stations :: "u32 \<Rightarrow> mac_entry list \<Rightarrow> eth_addr \<Rightarrow> u16 \<Rightarrow> u32 \<Rightarrow> u16 \<times> u32" where
  "lookup_stations secret es dst vlan tag =
     (if eth_addr_is_multicast dst then (MAC_FLOOD, tag)
      else case find_station (dst, vlan) es of
        None \<Rightarrow> (MAC_FLOOD, tag OR make_unknown_mac_tag secret dst vlan)
      | Some s \<Rightarrow> (word_of_int (me_port s), tag OR me_tag s))"

lemma lookup_refines:
  "mac_inv ml \<Longrightarrow> mac_learning_lookup_tag ml dst vlan tag = lookup_stations (ml_secret ml) (stations ml) dst vlan tag"
  using find_station_search [of ml dst vlan]
  by (simp add: mac_learning_lookup_tag_def lookup_stations_def split: option.split)

section \<open>Sequences of operations\<close>

datatype mac_op = Mac_learn "u16 list" int eth_addr u16 u16 | Mac_run int | Mac_flush

fun mac_step :: "mac_op \<Rightarrow> mac_learning \<Rightarrow> mac_learning option" where
  "mac_step (Mac_learn rs now mac vlan port) ml = map_option snd (mac_learning_learn rs now mac vlan port ml)"
| "mac_step (Mac_run now) ml = Some (snd (mac_learning_run now None ml))"
| "mac_step Mac_flush ml = Some (mac_learning_flush ml)"

fun mac_steps :: "mac_op list \<Rightarrow> mac_learning \<Rightarrow> mac_learning option" where
  "mac_steps [] ml = Some ml"
| "mac_steps (op # ops) ml = (case mac_step op ml of None \<Rightarrow> None | Some ml \<Rightarrow> mac_steps ops ml)"

fun station_step :: "u32 \<Rightarrow> mac_op \<Rightarrow> mac_entry list \<Rightarrow> mac_entry list option" where
  "station_step secret (Mac_learn rs now mac vlan port) es = map_option snd (heard secret rs now mac vlan port es)"
| "station_step secret (Mac_run now) es = Some (dropWhile (\<lambda>s. me_expires s \<le> now) es)"
| "station_step secret Mac_flush es = Some []"

fun station_steps :: "u32 \<Rightarrow> mac_op list \<Rightarrow> mac_entry list \<Rightarrow> mac_entry list option" where
  "station_steps secret [] es = Some es"
| "station_steps secret (op # ops) es = (case station_step secret op es of None \<Rightarrow> None | Some es \<Rightarrow> station_steps secret ops es)"

lemma step_refines:
  assumes "mac_inv ml"
  shows "case mac_step op ml of None \<Rightarrow> station_step (ml_secret ml) op (stations ml) = None
    | Some ml' \<Rightarrow> mac_inv ml' \<and> ml_secret ml' = ml_secret ml \<and> station_step (ml_secret ml) op (stations ml) = Some (stations ml')"
proof (cases op)
  case (Mac_learn rs now mac vlan port)
  then show ?thesis using learn_refines [OF assms, of rs now mac vlan port]
    by (auto split: option.splits)
next
  case (Mac_run now)
  then show ?thesis using run_refines [OF assms, of now None] by (cases "mac_learning_run now None ml") simp
qed (use flush_refines [OF assms] in simp)

lemma steps_refine:
  assumes "mac_inv ml"
  shows "case mac_steps ops ml of None \<Rightarrow> station_steps (ml_secret ml) ops (stations ml) = None
    | Some ml' \<Rightarrow> mac_inv ml' \<and> ml_secret ml' = ml_secret ml \<and> station_steps (ml_secret ml) ops (stations ml) = Some (stations ml')"
  using assms
proof (induction ops arbitrary: ml)
  case (Cons op ops)
  show ?case
  proof (cases "mac_step op ml")
    case None
    then show ?thesis using step_refines [OF Cons.prems, of op] by simp
  next
    case (Some ml1)
    then have s: "mac_inv ml1" "ml_secret ml1 = ml_secret ml" "station_step (ml_secret ml) op (stations ml) = Some (stations ml1)"
      using step_refines [OF Cons.prems, of op] by simp_all
    show ?thesis using Cons.IH [OF s(1)] s Some by (cases "mac_steps ops ml1") simp_all
  qed
qed simp

text \<open>
  C28. The table with its array, free list and hash chains implements the list of stations: after any operations it stands for the
  list that the same operations make of the empty one, is well formed, and every lookup gives the port and the tag of that list.
\<close>

theorem mac_table_refines_stations:
  "case mac_steps ops (mac_learning_create uninit secret) of
     None \<Rightarrow> station_steps secret ops [] = None
   | Some ml \<Rightarrow> mac_inv ml \<and> station_steps secret ops [] = Some (stations ml)
       \<and> (\<forall>dst vlan tag. mac_learning_lookup_tag ml dst vlan tag = lookup_stations secret (stations ml) dst vlan tag)"
proof -
  have s: "ml_secret (mac_learning_create uninit secret) = secret" by (simp add: mac_learning_create_def)
  show ?thesis using steps_refine [OF create_inv [of uninit secret], of ops] lookup_refines
    by (auto simp: create_stations s split: option.split)
qed


section \<open>A station that was heard is found\<close>

text \<open>The operations that leave the entry of station \<open>k\<close> until time \<open>t\<close>, and the other stations that they hear.\<close>

fun spares :: "eth_addr \<times> u16 \<Rightarrow> int \<Rightarrow> mac_op \<Rightarrow> bool" where
  "spares k t (Mac_learn rs now mac vlan port) \<longleftrightarrow> (mac, vlan) \<noteq> k \<and> tag_create_random rs \<noteq> None"
| "spares k t (Mac_run now) \<longleftrightarrow> now < t"
| "spares k t Mac_flush \<longleftrightarrow> False"

fun hears :: "mac_op \<Rightarrow> (eth_addr \<times> u16) set" where
  "hears (Mac_learn rs now mac vlan port) = {(mac, vlan)}"
| "hears _ = {}"

definition keeps_station :: "mac_entry \<Rightarrow> (eth_addr \<times> u16) set \<Rightarrow> mac_entry list \<Rightarrow> bool" where
  "keeps_station s L es \<longleftrightarrow> (\<exists>pre post. es = pre @ s # post \<and> distinct (map station es) \<and> station ` set post \<subseteq> L \<and> length es \<le> MAC_MAX)"

lemma keeps_found: "keeps_station s L es \<Longrightarrow> find_station (station s) es = Some s"
proof -
  assume "keeps_station s L es"
  then obtain pre post where es: "es = pre @ s # post" "distinct (map station es)" unfolding keeps_station_def by blast
  then have "\<forall>x\<in>set pre. station x \<noteq> station s" by (auto simp: image_iff)
  then have "find (\<lambda>e. station e = station s) (pre @ s # post) = Some s" by (induction pre) auto
  then show ?thesis using es by (simp add: find_station_def)
qed

lemma keeps_hear:
  assumes k: "keeps_station s L es" and n: "station new \<noteq> station s" and L: "finite L" "card (insert (station new) L) < MAC_MAX"
  shows "keeps_station s (insert (station new) L) (hear new es)"
proof -
  obtain pre post where es: "es = pre @ s # post" and d: "distinct (map station es)" "station ` set post \<subseteq> L" "length es \<le> MAC_MAX"
    using k unfolding keeps_station_def by blast
  let ?f = "filter (\<lambda>e. station e \<noteq> station new)"
  have post: "station ` set (?f post @ [new]) \<subseteq> insert (station new) L" using d(2) by auto
  have dist: "distinct (map station (?f xs @ [new]))" if "distinct (map station xs)" for xs
    using distinct_map_filter [OF that] by auto
  show ?thesis
  proof (cases "find_station (station new) es \<noteq> None \<or> length es < MAC_MAX")
    case True
    have h: "hear new es = ?f pre @ s # (?f post @ [new])" using True n by (simp add: hear_eq es)
    have "distinct (map station (hear new es))" using dist [OF d(1)] True by (simp add: hear_eq)
    moreover have "length (hear new es) \<le> MAC_MAX"
    proof (cases "length es < MAC_MAX")
      case True
      then have "length (?f es) < MAC_MAX" using length_filter_le [of "\<lambda>e. station e \<noteq> station new" es] by linarith
      then show ?thesis using True by (simp add: hear_eq)
    next
      case False
      then have "\<exists>x\<in>set es. station x = station new" using True by (auto simp: find_station_None)
      then have "length (?f es) < length es" by (auto intro: length_filter_less)
      then show ?thesis using True d(3) by (simp add: hear_eq)
    qed
    ultimately show ?thesis unfolding keeps_station_def using h post by blast
  next
    case False
    then have full: "find_station (station new) es = None" "length es = MAC_MAX" using d(3) by auto
    have h: "hear new es = tl es @ [new]" using hear_new [OF full(1)] full(2) by simp
    have no: "\<forall>x\<in>set es. station x \<noteq> station new" using full(1) by (simp add: find_station_None)
    obtain p pre' where pre: "pre = p # pre'"
    proof (cases pre)
      case Nil
      have "station new \<notin> station ` set post" using no es by auto
      then have "card (insert (station new) (station ` set post)) = Suc (length post)"
        using d(1) es by (simp add: distinct_map card_image distinct_card)
      moreover have "card (insert (station new) (station ` set post)) \<le> card (insert (station new) L)"
        using d(2) L(1) by (intro card_mono) auto
      ultimately have False using L(2) full(2) es Nil by simp
      then show thesis ..
    qed (use that in blast)
    have "hear new es = pre' @ s # (post @ [new])" using h es pre by simp
    moreover have "distinct (map station (hear new es))" unfolding h using d(1) no by (auto simp: es pre)
    moreover have "length (hear new es) \<le> MAC_MAX" using h full(2) by simp
    moreover have "station ` set (post @ [new]) \<subseteq> insert (station new) L" using d(2) by auto
    ultimately show ?thesis unfolding keeps_station_def by blast
  qed
qed

lemma keeps_run:
  assumes "keeps_station s L es" "now < me_expires s"
  shows "keeps_station s L (dropWhile (\<lambda>e. me_expires e \<le> now) es)"
proof -
  obtain pre post where es: "es = pre @ s # post" "distinct (map station es)" "station ` set post \<subseteq> L" "length es \<le> MAC_MAX"
    using assms(1) unfolding keeps_station_def by blast
  let ?d = "dropWhile (\<lambda>e. me_expires e \<le> now)"
  have "?d es = ?d pre @ s # post" unfolding es(1) using assms(2) by (induction pre) auto
  moreover have "distinct (map station (?d es))" using es(2) by (simp add: distinct_map distinct_dropWhile) (meson inj_on_subset set_dropWhileD subsetI)
  moreover have "length (?d es) \<le> MAC_MAX" using es(4) length_dropWhile_le [of "\<lambda>e. me_expires e \<le> now" es] by linarith
  ultimately show ?thesis using es(3) unfolding keeps_station_def by blast
qed

lemma keeps_mono: "keeps_station s L es \<Longrightarrow> L \<subseteq> L' \<Longrightarrow> keeps_station s L' es"
  unfolding keeps_station_def by blast

lemma keeps_step:
  assumes "keeps_station s L es" "spares (station s) (me_expires s) op" "finite L" "card (hears op \<union> L) < MAC_MAX"
  shows "\<exists>es'. station_step secret op es = Some es' \<and> keeps_station s (hears op \<union> L) es'"
proof (cases op)
  case (Mac_learn rs now mac vlan port)
  have n: "keeps_station s (insert (mac, vlan) L) (hear new es)" if "station new = (mac, vlan)" for new
    using keeps_hear [OF assms(1), of new] assms(2-4) Mac_learn that by simp
  obtain tag where t: "tag_create_random rs = Some tag" using assms(2) Mac_learn by auto
  show ?thesis using n keeps_mono [OF assms(1), of "insert (mac, vlan) L"] t
    by (auto simp: Mac_learn heard_def Let_def station_def split: option.split)
qed (use assms keeps_run in auto)

lemma finite_hears: "finite (hears op)"
  by (cases op) simp_all

lemma keeps_steps:
  assumes "keeps_station s L es" "\<forall>op\<in>set ops. spares (station s) (me_expires s) op" "finite L" "card (\<Union> (hears ` set ops) \<union> L) < MAC_MAX"
  shows "\<exists>es'. station_steps secret ops es = Some es' \<and> find_station (station s) es' = Some s"
  using assms
proof (induction ops arbitrary: es L)
  case Nil
  then show ?case using keeps_found by simp
next
  case (Cons op ops)
  have "card (hears op \<union> L) \<le> card (\<Union> (hears ` set (op # ops)) \<union> L)"
    using Cons.prems(3) finite_hears by (intro card_mono) auto
  then obtain es1 where e: "station_step secret op es = Some es1" "keeps_station s (hears op \<union> L) es1"
    using keeps_step [OF Cons.prems(1) _ Cons.prems(3), of op secret] Cons.prems(2,4) by auto
  have "\<Union> (hears ` set ops) \<union> (hears op \<union> L) = \<Union> (hears ` set (op # ops)) \<union> L" by auto
  then show ?case using Cons.IH [OF e(2)] Cons.prems finite_hears e(1) by simp
qed

lemma heard_hears:
  assumes "heard secret rs now mac vlan port es = Some (tag, es')" "\<not> eth_addr_is_multicast mac"
  shows "\<exists>s. es' = hear s es \<and> station s = (mac, vlan) \<and> me_port s = uint port \<and> me_expires s = now + 60"
proof -
  have "\<exists>t. es' = hear \<lparr>me_expires = now + 60, me_mac = mac, me_vlan = vlan, me_port = uint port, me_tag = t\<rparr> es"
    using assms by (auto simp: heard_def Let_def split: if_splits option.splits)
  then show ?thesis by (auto simp: station_def)
qed

lemma learned_keeps:
  assumes "mac_inv ml" "\<not> eth_addr_is_multicast mac" "mac_learning_learn rs now mac vlan port ml = Some (tag, ml1)"
  shows "\<exists>s. keeps_station s {} (stations ml1) \<and> station s = (mac, vlan) \<and> me_port s = uint port \<and> me_expires s = now + 60
    \<and> mac_inv ml1 \<and> ml_secret ml1 = ml_secret ml"
proof -
  have l: "mac_inv ml1" "ml_secret ml1 = ml_secret ml" "heard (ml_secret ml) rs now mac vlan port (stations ml) = Some (tag, stations ml1)"
    using learn_refines [OF assms(1), of rs now mac vlan port] assms(3) by simp_all
  then obtain s where s: "stations ml1 = hear s (stations ml)" "station s = (mac, vlan)" "me_port s = uint port" "me_expires s = now + 60"
    using heard_hears [OF l(3) assms(2)] by blast
  have d: "distinct (map station (stations ml1))" using l(1) by (simp add: mac_inv_def)
  have "length (ml_lrus ml1) \<le> MAC_MAX"
    using l(1) card_mono [of "{..<MAC_MAX}" "set (ml_lrus ml1)"] unfolding mac_inv_iff by (auto simp: distinct_card)
  then have "length (stations ml1) \<le> MAC_MAX" by (simp add: stations_def)
  moreover have "\<exists>pre. stations ml1 = pre @ s # []" using s(1) by (simp add: hear_eq)
  ultimately have "keeps_station s {} (stations ml1)" using d unfolding keeps_station_def by force
  then show ?thesis using s l by blast
qed

lemma found_lookup:
  "mac_inv ml \<Longrightarrow> \<not> eth_addr_is_multicast mac \<Longrightarrow> find_station (mac, vlan) (stations ml) = Some s \<Longrightarrow> me_port s = uint port
     \<Longrightarrow> mac_learning_lookup ml mac vlan = port"
  by (simp add: mac_learning_lookup_def lookup_refines lookup_stations_def)

text \<open>Hearing a station returns if a tag is made, and the station is found at once.\<close>

lemma learned_lookup:
  assumes "mac_inv ml" "tag_create_random rs \<noteq> None"
  shows "\<exists>tag ml1. mac_learning_learn rs now mac vlan port ml = Some (tag, ml1) \<and> mac_inv ml1
    \<and> (\<not> eth_addr_is_multicast mac \<longrightarrow> mac_learning_lookup ml1 mac vlan = port)"
proof -
  have "heard (ml_secret ml) rs now mac vlan port (stations ml) \<noteq> None"
    using assms(2) by (auto simp: heard_def Let_def split: option.splits)
  then obtain tag ml1 where l: "mac_learning_learn rs now mac vlan port ml = Some (tag, ml1)"
    using learn_refines [OF assms(1), of rs now mac vlan port] by (cases "mac_learning_learn rs now mac vlan port ml") auto
  moreover have "mac_inv ml1" using learn_refines [OF assms(1), of rs now mac vlan port] l by simp
  moreover have "mac_learning_lookup ml1 mac vlan = port" if "\<not> eth_addr_is_multicast mac"
    using learned_keeps [OF assms(1) that l] keeps_found found_lookup [OF _ that] by metis
  ultimately show ?thesis by blast
qed

text \<open>
  C29. A station that was heard on a port is found there, whatever the table held before and for as long as less than 1024 stations are heard after
  it: no operation but a flush, an expiry after its minute or hearing it again makes the table forget or move it.
\<close>

theorem heard_station_is_found:
  assumes "mac_inv ml" "\<not> eth_addr_is_multicast mac" "mac_learning_learn rs now mac vlan port ml = Some (tag, ml1)"
    "\<forall>op\<in>set ops. spares (mac, vlan) (now + 60) op" "card (\<Union> (hears ` set ops)) < MAC_MAX"
  shows "\<exists>ml2. mac_steps ops ml1 = Some ml2 \<and> mac_inv ml2 \<and> mac_learning_lookup ml2 mac vlan = port"
proof -
  obtain s where s: "keeps_station s {} (stations ml1)" "station s = (mac, vlan)" "me_port s = uint port" "me_expires s = now + 60" "mac_inv ml1"
    using learned_keeps [OF assms(1-3)] by blast
  obtain es where es: "station_steps (ml_secret ml1) ops (stations ml1) = Some es" "find_station (mac, vlan) es = Some s"
    using keeps_steps [OF s(1), of ops] assms(4,5) s(2,4) by auto
  then obtain ml2 where ml2: "mac_steps ops ml1 = Some ml2" "mac_inv ml2" "stations ml2 = es"
    using steps_refine [OF s(5), of ops] by (cases "mac_steps ops ml1") auto
  then show ?thesis using found_lookup [OF ml2(2) assms(2)] es(2) s(3) by blast
qed

section \<open>Witnesses\<close>

text \<open>A station heard on port 3, another heard on port 4 and an expiry before the minute is over.\<close>

theorem heard_station_is_found_witness:
  "\<exists>tag ml1 ml2. mac_learning_learn [1] 100 0x0a0000000001 0 3 (mac_learning_create (\<lambda>_. undefined) 7) = Some (tag, ml1)
     \<and> mac_steps [Mac_learn [1] 110 0x0a0000000002 0 4, Mac_run 159] ml1 = Some ml2
     \<and> mac_learning_lookup ml2 0x0a0000000001 0 = 3"
proof -
  let ?ml = "mac_learning_create (\<lambda>_. undefined) 7 :: mac_learning"
  have m: "\<not> eth_addr_is_multicast 0x0a0000000001" and t: "tag_create_random [1] \<noteq> None" by code_simp+
  have "heard (ml_secret ?ml) [1] 100 0x0a0000000001 0 3 (stations ?ml) \<noteq> None"
    using m t by (auto simp: heard_def create_stations find_station_def)
  then obtain tag ml1 where l: "mac_learning_learn [1] 100 0x0a0000000001 0 3 ?ml = Some (tag, ml1)"
    using learn_refines [OF create_inv [of "\<lambda>_. undefined" 7], of "[1]" 100 "0x0a0000000001" 0 3]
    by (cases "mac_learning_learn [1] 100 0x0a0000000001 0 3 ?ml") auto
  have "\<forall>op\<in>set [Mac_learn [1] 110 0x0a0000000002 0 4, Mac_run 159]. spares (0x0a0000000001, 0) (100 + 60) op" using t by auto
  from heard_station_is_found [OF create_inv m l this] show ?thesis using l by auto
qed

end
