(* ===== verification/Msg_Build.thy ===== *)
theory Msg_Build
  imports Dp_Control
begin

text \<open>
  The messages that \<^verbatim>\<open>src/openflow/lib/vconn.c\<close> builds for controllers, and its checks and readers for messages that arrive there. A built
  message is the list of its bytes; a reader follows offsets into the message and stops with \<open>Fault\<close> when it reads outside.
\<close>

section \<open>Flow modifications and outputs of packets\<close>

abbreviation OFP_FLOW_PERMANENT :: u16 where "OFP_FLOW_PERMANENT \<equiv> 0"

text \<open>The fields are copied from the flow, but \<^verbatim>\<open>nw_tos\<close> stays 0.\<close>

definition flow_mod_match :: "flow \<Rightarrow> ofp_match" where
  "flow_mod_match flow =
     \<lparr>om_wildcards = htonl 0, om_in_port = fl_in_port flow, om_dl_src = fl_dl_src flow, om_dl_dst = fl_dl_dst flow,
      om_dl_vlan = fl_dl_vlan flow, om_dl_vlan_pcp = fl_dl_vlan_pcp flow, om_pad1 = 0, om_dl_type = fl_dl_type flow,
      om_nw_tos = 0, om_nw_proto = fl_nw_proto flow, om_pad2 = 0, om_nw_src = fl_nw_src flow, om_nw_dst = fl_nw_dst flow,
      om_tp_src = fl_tp_src flow, om_tp_dst = fl_tp_dst flow\<rparr>"

definition make_flow_mod :: "u16 \<Rightarrow> flow \<Rightarrow> nat \<Rightarrow> u8 list" where
  "make_flow_mod command flow actions_len =
     ofp_header_bytes \<lparr>oh_version = OFP_VERSION, oh_type = OFPT_FLOW_MOD, oh_length = htons (of_nat (72 + actions_len)), oh_xid = 0\<rparr>
     @ ofp_match_bytes (flow_mod_match flow) @ replicate 8 0 @ le16 (htons command) @ replicate 14 0"

definition make_add_flow :: "flow \<Rightarrow> u32 \<Rightarrow> u16 \<Rightarrow> nat \<Rightarrow> u8 list" where
  "make_add_flow flow buffer_id idle_timeout actions_len =
     (let out = make_flow_mod OFPFC_ADD flow actions_len;
          out = st16 out 58 (htons idle_timeout);
          out = st16 out 60 (htons OFP_FLOW_PERMANENT)
      in st32 out 64 (htonl buffer_id))"

definition make_del_flow :: "flow \<Rightarrow> u8 list" where
  "make_del_flow flow = st16 (make_flow_mod OFPFC_DELETE_STRICT flow 0) 68 (htons OFPP_NONE)"

definition output_action :: "u16 \<Rightarrow> u16 \<Rightarrow> u8 list" where
  "output_action port max_len = le16 (htons OFPAT_OUTPUT) @ le16 (htons 8) @ le16 (htons port) @ le16 (htons max_len)"

definition make_add_simple_flow :: "flow \<Rightarrow> u32 \<Rightarrow> u16 \<Rightarrow> u16 \<Rightarrow> u8 list" where
  "make_add_simple_flow flow buffer_id out_port idle_timeout =
     make_add_flow flow buffer_id idle_timeout 8
     @ output_action out_port (if htons out_port = htons OFPP_CONTROLLER then 0xffff else 0)"

text \<open>The header, the fields of \<^verbatim>\<open>struct ofp_packet_out\<close> and the action.\<close>

definition packet_out_msg :: "u16 \<Rightarrow> u32 \<Rightarrow> u16 \<Rightarrow> u16 \<Rightarrow> u8 list" where
  "packet_out_msg len buffer_id in_port out_port =
     ofp_header_bytes \<lparr>oh_version = OFP_VERSION, oh_type = OFPT_PACKET_OUT, oh_length = htons len, oh_xid = 0\<rparr>
     @ le32 (htonl buffer_id) @ le16 (htons in_port) @ le16 (htons 8) @ output_action out_port 0"

definition make_unbuffered_packet_out :: "u8 list \<Rightarrow> u16 \<Rightarrow> u16 \<Rightarrow> u8 list option" where
  "make_unbuffered_packet_out packet in_port out_port =
     update_openflow_length (packet_out_msg 0 0xffffffff in_port out_port @ packet)"

definition make_buffered_packet_out :: "u32 \<Rightarrow> u16 \<Rightarrow> u16 \<Rightarrow> u8 list" where
  "make_buffered_packet_out buffer_id in_port out_port = packet_out_msg 24 buffer_id in_port out_port"

section \<open>Checks\<close>

definition check_ofp_message :: "u8 list \<Rightarrow> u8 \<Rightarrow> nat \<Rightarrow> int" where
  "check_ofp_message msg type n =
     (if oh_type (ofp_header_of msg) \<noteq> type then EINVAL
      else if msg_length msg \<noteq> n then EINVAL else 0)"

text \<open>The error and the number of elements, which is only stored without an error; \<open>None\<close>: the assertion fails.\<close>

definition check_ofp_message_array :: "u8 list \<Rightarrow> u8 \<Rightarrow> nat \<Rightarrow> nat \<Rightarrow> (int \<times> nat option) option" where
  "check_ofp_message_array msg type min_size elt =
     (if elt = 0 then None
      else if oh_type (ofp_header_of msg) \<noteq> type then Some (EINVAL, None)
      else if msg_length msg < min_size then Some (EINVAL, None)
      else if (msg_length msg - min_size) mod elt \<noteq> 0 then Some (EINVAL, None)
      else Some (0, Some ((msg_length msg - min_size) div elt)))"

section \<open>Flow statistics\<close>

text \<open>\<^verbatim>\<open>struct ofp_flow_stats\<close> at an offset of a message.\<close>

record ofp_flow_stats =
  fs_length :: nat
  fs_table_id :: u8
  fs_match :: ofp_match
  fs_duration_sec :: u32
  fs_duration_nsec :: u32
  fs_priority :: u16
  fs_idle_timeout :: u16
  fs_hard_timeout :: u16
  fs_cookie :: u64
  fs_packet_count :: u64
  fs_byte_count :: u64
  fs_actions :: "u8 list"

definition ofp_flow_stats_at :: "u8 list \<Rightarrow> nat \<Rightarrow> ofp_flow_stats" where
  "ofp_flow_stats_at m i =
     (let n = unat (ntohs (ld16 m i))
      in \<lparr>fs_length = n, fs_table_id = ld8 m (i + 2), fs_match = ofp_match_at m (i + 4),
          fs_duration_sec = ntohl (ld32 m (i + 44)), fs_duration_nsec = ntohl (ld32 m (i + 48)),
          fs_priority = ntohs (ld16 m (i + 52)), fs_idle_timeout = ntohs (ld16 m (i + 54)), fs_hard_timeout = ntohs (ld16 m (i + 56)),
          fs_cookie = ntohll (ld64 m (i + 64)), fs_packet_count = ntohll (ld64 m (i + 72)), fs_byte_count = ntohll (ld64 m (i + 80)),
          fs_actions = take (n - 88) (drop (i + 88) m)\<rparr>)"

text \<open>
  \<^verbatim>\<open>struct flow_stats_iterator\<close>: the offsets of \<^verbatim>\<open>pos\<close> and \<^verbatim>\<open>end\<close>; the difference is a signed integer, which the code compares with an
  unsigned one.
\<close>

record flow_stats_iterator =
  fi_pos :: nat
  fi_end :: int

definition flow_stats_next :: "u8 list \<Rightarrow> flow_stats_iterator \<Rightarrow> (nat option \<times> flow_stats_iterator) run" where
  "flow_stats_next m iter =
     (let bytes_left = fi_end iter - int (fi_pos iter); fs = fi_pos iter
      in if 0 \<le> bytes_left \<and> bytes_left < 88 then Done (None, iter)
         else if fs + 2 > length m then Fault
         else
           (let n = unat (ntohs (ld16 m fs))
            in if n < 88 then Done (None, iter)
               else if 0 \<le> bytes_left \<and> int n > bytes_left then Done (None, iter)
               else if (n - 88) mod 8 \<noteq> 0 then Done (None, iter)
               else Done (Some fs, iter\<lparr>fi_pos := fs + n\<rparr>)))"

definition flow_stats_first :: "u8 list \<Rightarrow> (nat option \<times> flow_stats_iterator) run" where
  "flow_stats_first m = flow_stats_next m \<lparr>fi_pos = 12, fi_end = 12 + (int (msg_length m) - 12)\<rparr>"

text \<open>The loop of the callers: the offsets of the entries, until there is none.\<close>

function flow_stats_rest :: "u8 list \<Rightarrow> flow_stats_iterator \<Rightarrow> nat list run" where
  "flow_stats_rest m iter =
     (case flow_stats_next m iter of
        Fault \<Rightarrow> Fault
      | Done (None, iter) \<Rightarrow> Done []
      | Done (Some fs, iter) \<Rightarrow> (case flow_stats_rest m iter of Fault \<Rightarrow> Fault | Done xs \<Rightarrow> Done (fs # xs)))"
  by pat_completeness auto
termination
  by (relation "measure (\<lambda>(m, iter). length m + 1 - fi_pos iter)")
    (auto simp: flow_stats_next_def Let_def split: if_splits)

declare flow_stats_rest.simps [simp del]

definition flow_stats_all :: "u8 list \<Rightarrow> nat list run" where
  "flow_stats_all m = flow_stats_rest m \<lparr>fi_pos = 12, fi_end = 12 + (int (msg_length m) - 12)\<rparr>"

section \<open>Flow modifications\<close>

text \<open>The bytes of a flow modification.\<close>

definition flow_mod_bytes :: "u16 \<Rightarrow> u16 \<Rightarrow> flow \<Rightarrow> u16 \<Rightarrow> u16 \<Rightarrow> u32 \<Rightarrow> u16 \<Rightarrow> u8 list" where
  "flow_mod_bytes n command flow idle hard buffer_id out_port =
     ofp_header_bytes \<lparr>oh_version = OFP_VERSION, oh_type = OFPT_FLOW_MOD, oh_length = htons n, oh_xid = 0\<rparr>
     @ ofp_match_bytes (flow_mod_match flow) @ le64 0 @ le16 (htons command) @ le16 (htons idle) @ le16 (htons hard) @ le16 0
     @ le32 (htonl buffer_id) @ le16 (htons out_port) @ le16 0"

lemma length_flow_mod_bytes [simp]: "length (flow_mod_bytes n c f i h b p) = 72"
  by (simp add: flow_mod_bytes_def)

lemma make_flow_mod_bytes: "make_flow_mod command flow actions_len = flow_mod_bytes (of_nat (72 + actions_len)) command flow 0 0 0 0"
  by (simp add: make_flow_mod_def flow_mod_bytes_def le_zero eval_nat_numeral)

lemma make_add_flow_bytes:
  "make_add_flow flow buffer_id idle actions_len = flow_mod_bytes (of_nat (72 + actions_len)) OFPFC_ADD flow idle 0 buffer_id 0"
proof -
  let ?h = "ofp_header_bytes \<lparr>oh_version = OFP_VERSION, oh_type = OFPT_FLOW_MOD, oh_length = htons (of_nat (72 + actions_len)), oh_xid = 0\<rparr>
     @ ofp_match_bytes (flow_mod_match flow) @ le64 0 @ le16 (htons OFPFC_ADD)"
  have h: "length ?h = 58" by simp
  have "make_flow_mod OFPFC_ADD flow actions_len = ?h @ 0 # 0 # replicate 12 0"
    unfolding make_flow_mod_bytes by (simp add: flow_mod_bytes_def le_zero eval_nat_numeral)
  then have a: "st16 (make_flow_mod OFPFC_ADD flow actions_len) 58 (htons idle) = (?h @ le16 (htons idle)) @ 0 # 0 # replicate 10 0"
    using st16_at [of 58 ?h 0 0 "replicate 12 0" "htons idle"] h by (simp add: eval_nat_numeral)
  have b: "st16 ((?h @ le16 (htons idle)) @ 0 # 0 # replicate 10 0) 60 (htons 0)
      = (?h @ le16 (htons idle) @ le16 (htons 0) @ le16 0) @ 0 # 0 # 0 # 0 # replicate 4 0"
    using st16_at [of 60 "?h @ le16 (htons idle)" 0 0 "replicate 10 0" "htons 0"] h by (simp add: eval_nat_numeral le_zero)
  have c: "st32 ((?h @ le16 (htons idle) @ le16 (htons 0) @ le16 0) @ 0 # 0 # 0 # 0 # replicate 4 0) 64 (htonl buffer_id)
      = (?h @ le16 (htons idle) @ le16 (htons 0) @ le16 0) @ le32 (htonl buffer_id) @ replicate 4 0"
    by (rule st32_at) (use h in simp)
  show ?thesis unfolding make_add_flow_def Let_def a b c by (simp add: flow_mod_bytes_def le_zero eval_nat_numeral)
qed

text \<open>The switch reads back what a flow modification says.\<close>

lemma flow_mod_read:
  assumes "72 + length acts < 65536"
  shows "ofp_flow_mod_of (flow_mod_bytes (of_nat (72 + length acts)) command flow idle hard buffer_id out_port @ acts)
    = Some \<lparr>ofm_length = 72 + length acts, ofm_match = flow_mod_match flow, ofm_cookie = 0, ofm_command = htons command,
        ofm_idle_timeout = htons idle, ofm_hard_timeout = htons hard, ofm_priority = 0, ofm_buffer_id = htonl buffer_id,
        ofm_out_port = htons out_port, ofm_flags = 0, ofm_actions = acts\<rparr>"
proof -
  let ?m = "flow_mod_bytes (of_nat (72 + length acts)) command flow idle hard buffer_id out_port @ acts"
  have "unat (of_nat (72 + length acts) :: u16) = 72 + length acts" using assms by (simp add: unsigned_of_nat take_bit_nat_eq_self del: of_nat_add)
  then have l: "msg_length ?m = 72 + length acts"
    by (simp add: flow_mod_bytes_def msg_length_def header_fields del: of_nat_add)
  show ?thesis using l by (simp add: ofp_flow_mod_of_def flow_mod_bytes_def ld_right match_right match_first ld_first)
qed


section \<open>Flow statistics are read back\<close>

text \<open>What the reader sees of an entry, and what the entry is.\<close>

definition stats_view :: "ofp_flow_stats \<Rightarrow> u8 \<times> sw_flow_key \<times> u16 \<times> u16 \<times> u16 \<times> u64 \<times> u64 \<times> u64 \<times> u8 list" where
  "stats_view s = (fs_table_id s, flow_extract_match (fs_match s), fs_priority s, fs_idle_timeout s, fs_hard_timeout s,
     fs_cookie s, fs_packet_count s, fs_byte_count s, fs_actions s)"

definition entry_view :: "nat \<times> sw_flow \<Rightarrow> u8 \<times> sw_flow_key \<times> u16 \<times> u16 \<times> u16 \<times> u64 \<times> u64 \<times> u64 \<times> u8 list" where
  "entry_view x = (case x of (i, f) \<Rightarrow> (of_nat i, sf_key f, sf_priority f, sf_idle_timeout f, sf_hard_timeout f,
     sf_cookie f, sf_packet_count f, sf_byte_count f, sf_acts f))"

text \<open>The entry can be reported: its key comes from a match, and its actions are whole blocks of eight bytes.\<close>

definition reportable :: "sw_flow \<Rightarrow> bool" where
  "reportable f \<longleftrightarrow> (\<exists>m. sf_key f = flow_extract_match m) \<and> 8 dvd length (sf_acts f)"

definition stats_chunk :: "dp_env \<Rightarrow> nat \<Rightarrow> sw_flow \<Rightarrow> nat \<Rightarrow> u8 list" where
  "stats_chunk env n f i = drop n (fill_flow_stats env (replicate n 0) f i)"

lemma fill_chunk: "fill_flow_stats env b f i = b @ stats_chunk env (length b) f i"
  by (simp add: stats_chunk_def fill_flow_stats_def Let_def)

lemma length_chunk [simp]: "length (stats_chunk env n f i) = 88 + length (sf_acts f)"
  by (simp add: stats_chunk_def length_fill_flow_stats)

fun stats_chunks :: "dp_env \<Rightarrow> nat \<Rightarrow> (nat \<times> sw_flow) list \<Rightarrow> u8 list" where
  "stats_chunks env n [] = []"
| "stats_chunks env n ((i, f) # xs) = stats_chunk env n f i @ stats_chunks env (n + 88 + length (sf_acts f)) xs"

lemma put_chunks: "put_flow_stats env b xs = b @ stats_chunks env (length b) xs"
proof (induction xs arbitrary: b)
  case (Cons x xs)
  obtain i f where x: "x = (i, f)" by fastforce
  have "put_flow_stats env b (x # xs) = put_flow_stats env (fill_flow_stats env b f i) xs" by (simp add: put_flow_stats_def x)
  then show ?case using Cons.IH [of "fill_flow_stats env b f i"] by (simp add: x fill_chunk add.assoc)
qed (simp add: put_flow_stats_def)

lemma chunk_read:
  assumes r: "reportable f" and l: "88 + length (sf_acts f) < 65536"
  shows "fs_length (ofp_flow_stats_at (pre @ stats_chunk env n f i @ rest) (length pre)) = 88 + length (sf_acts f)
    \<and> stats_view (ofp_flow_stats_at (pre @ stats_chunk env n f i @ rest) (length pre)) = entry_view (i, f)"
proof -
  let ?fl = "k_flow (sf_key f)" let ?junk = "\<lambda>i. ev_junk env (n + i)"
  define to where "to = \<lparr>om_wildcards = 0, om_in_port = 0, om_dl_src = 0, om_dl_dst = 0, om_dl_vlan = 0, om_dl_vlan_pcp = 0, om_pad1 = ?junk 25,
     om_dl_type = 0, om_nw_tos = 0, om_nw_proto = 0, om_pad2 = ucast (?junk 30) OR push_bit 8 (ucast (?junk 31)), om_nw_src = 0,
     om_nw_dst = 0, om_tp_src = 0, om_tp_dst = 0\<rparr>"
  let ?match = "flow_fill_match to ?fl (k_wildcards (sf_key f))"
  obtain m where m: "sf_key f = flow_extract_match m" using r by (auto simp: reportable_def)
  have key: "flow_extract_match ?match = sf_key f" unfolding m by (rule extract_fill_flow)
  have u: "unat (of_nat (88 + length (sf_acts f)) :: u16) = 88 + length (sf_acts f)"
    using l by (simp add: unsigned_of_nat take_bit_nat_eq_self del: of_nat_add)
  define two where "two = [of_nat i, 0 :: u8]"
  have two: "length two = 2" "ld8 (two @ ys) 0 = of_nat i" for ys by (simp_all add: two_def ld8_def)
  have c: "stats_chunk env n f i = le16 (htons (of_nat (88 + length (sf_acts f)))) @ two @ ofp_match_bytes ?match
         @ le32 (htonl (duration_sec (ev_msec env) (sf_created f)))
         @ le32 (htonl (duration_nsec (ev_msec env) (sf_created f)))
         @ le16 (htons (sf_priority f)) @ le16 (htons (sf_idle_timeout f)) @ le16 (htons (sf_hard_timeout f))
         @ replicate 6 0 @ le64 (htonll (sf_cookie f)) @ le64 (htonll (sf_packet_count f))
         @ le64 (htonll (sf_byte_count f)) @ sf_acts f"
    by (simp add: stats_chunk_def fill_flow_stats_def Let_def flow_fill_match_def to_def two_def del: of_nat_add)
  have n: "unat (ntohs (ld16 (pre @ stats_chunk env n f i @ rest) (length pre))) = 88 + length (sf_acts f)"
    using u by (simp add: ld16_right c ld_first del: of_nat_add)
  have v: "ld8 (pre @ stats_chunk env n f i @ rest) (length pre + 2) = of_nat i"
    "ofp_match_at (pre @ stats_chunk env n f i @ rest) (length pre + 4) = ?match"
    "ntohs (ld16 (pre @ stats_chunk env n f i @ rest) (length pre + 52)) = sf_priority f"
    "ntohs (ld16 (pre @ stats_chunk env n f i @ rest) (length pre + 54)) = sf_idle_timeout f"
    "ntohs (ld16 (pre @ stats_chunk env n f i @ rest) (length pre + 56)) = sf_hard_timeout f"
    "ntohll (ld64 (pre @ stats_chunk env n f i @ rest) (length pre + 64)) = sf_cookie f"
    "ntohll (ld64 (pre @ stats_chunk env n f i @ rest) (length pre + 72)) = sf_packet_count f"
    "ntohll (ld64 (pre @ stats_chunk env n f i @ rest) (length pre + 80)) = sf_byte_count f"
    by (simp_all add: c ld_right match_right match_first ld_first two del: of_nat_add)
  have a: "take (length (sf_acts f)) (drop (length pre + 88) (pre @ stats_chunk env n f i @ rest)) = sf_acts f"
    by (simp add: c two)
  show ?thesis using n v a key by (simp add: ofp_flow_stats_at_def Let_def stats_view_def entry_view_def)
qed


lemma next_chunk:
  assumes r: "reportable f" and l: "88 + length (sf_acts f) < 65536" and e: "fi_end it = int (length (pre @ stats_chunk env n f i @ rest))"
    and p: "fi_pos it = length pre"
  shows "flow_stats_next (pre @ stats_chunk env n f i @ rest) it
    = Done (Some (length pre), it\<lparr>fi_pos := length pre + (88 + length (sf_acts f))\<rparr>)"
proof -
  have n: "unat (ntohs (ld16 (pre @ stats_chunk env n f i @ rest) (length pre))) = 88 + length (sf_acts f)"
    using chunk_read [OF r l, of pre env n i rest] by (simp add: ofp_flow_stats_at_def Let_def)
  have "8 dvd length (sf_acts f)" using r by (simp add: reportable_def)
  then show ?thesis unfolding flow_stats_next_def Let_def e p n by simp
qed

lemma rest_chunks:
  assumes "\<forall>(i, f)\<in>set xs. reportable f" "length (pre @ stats_chunks env n xs) < 65536"
    "fi_end it = int (length (pre @ stats_chunks env n xs))" "fi_pos it = length pre"
  shows "\<exists>ps. flow_stats_rest (pre @ stats_chunks env n xs) it = Done ps
    \<and> map (\<lambda>p. stats_view (ofp_flow_stats_at (pre @ stats_chunks env n xs) p)) ps = map entry_view xs"
  using assms
proof (induction xs arbitrary: pre n it)
  case Nil
  then show ?case by (subst flow_stats_rest.simps) (simp add: flow_stats_next_def)
next
  case (Cons x xs)
  obtain i f where x: "x = (i, f)" by fastforce
  let ?c = "stats_chunk env n f i" let ?n = "n + 88 + length (sf_acts f)" let ?rest = "stats_chunks env ?n xs"
  let ?m = "pre @ ?c @ ?rest" let ?it = "it\<lparr>fi_pos := length pre + (88 + length (sf_acts f))\<rparr>"
  have r: "reportable f" "88 + length (sf_acts f) < 65536" using Cons.prems(1,2) x by auto
  have nx: "flow_stats_next ?m it = Done (Some (length pre), ?it)"
    by (rule next_chunk) (use r Cons.prems(3,4) x in simp_all)
  obtain ps where ps: "flow_stats_rest ((pre @ ?c) @ ?rest) ?it = Done ps"
    "map (\<lambda>p. stats_view (ofp_flow_stats_at ((pre @ ?c) @ ?rest) p)) ps = map entry_view xs"
    using Cons.IH [of "pre @ ?c" ?n ?it] Cons.prems x by auto
  have "flow_stats_rest ?m it = Done (length pre # ps)"
    by (subst flow_stats_rest.simps) (use nx ps(1) in simp)
  then show ?case using ps(2) chunk_read [OF r, of pre env n i ?rest] x by (intro exI [of _ "length pre # ps"]) simp
qed

lemma flow_stats_reply_read:
  assumes "\<forall>(i, f)\<in>set part. reportable f" "length (flow_stats_reply env xid flag part) < 65536"
  shows "\<exists>ps. flow_stats_all (flow_stats_reply env xid flag part) = Done ps
    \<and> map (\<lambda>p. stats_view (ofp_flow_stats_at (flow_stats_reply env xid flag part) p)) ps = map entry_view part"
proof -
  let ?m = "flow_stats_reply env xid flag part"
  let ?b = "put_flow_stats env (flow_stats_header xid) part"
  have b: "?b = flow_stats_header xid @ stats_chunks env 12 part" by (simp add: put_chunks length_flow_stats_header)
  have st: "st16 (xs @ ys) i v = st16 xs i v @ ys" if "i + 1 < length xs" for xs ys :: "u8 list" and i v
    using that by (simp add: st16_def st8_def list_update_append)
  obtain h where m: "?m = h @ stats_chunks env 12 part" "length h = 12" "msg_length ?m = length ?m mod 65536"
  proof -
    let ?h = "if flag then st16 (flow_stats_header xid) 10 (ntohs OFPSF_REPLY_MORE) else flow_stats_header xid"
    let ?h2 = "st16 ?h 2 (htons (of_nat (length (?h @ stats_chunks env 12 part))))"
    have m: "?m = ?h2 @ stats_chunks env 12 part"
      unfolding flow_stats_reply_def Let_def b by (simp add: st length_flow_stats_header)
    have l: "length ?h2 = 12" by (simp add: length_flow_stats_header)
    have "ld16 ?m 2 = htons (of_nat (length ?m))"
      unfolding flow_stats_reply_def Let_def by (subst ld16_st16_same) (simp_all add: b length_flow_stats_header)
    then have "msg_length ?m = length ?m mod 65536"
      by (simp add: msg_length_def unsigned_of_nat take_bit_eq_mod)
    with m l show thesis by (rule that)
  qed
  have e: "12 + (int (msg_length ?m) - 12) = int (length ?m)" using m(3) assms(2) by simp
  show ?thesis
    unfolding flow_stats_all_def e using rest_chunks [of part h env 12 "\<lparr>fi_pos = 12, fi_end = int (length ?m)\<rparr>"] assms m(1,2) by simp
qed


text \<open>
  C30. What the switch sends of its flows, the reader of the controllers reads: from a reply that fits into the length field of a
  message it gets the reported entries in order, each with the number of its table, its key, priority, timeouts, cookie, counters and actions.
\<close>

theorem flow_stats_read_back:
  assumes "\<forall>(i, f)\<in>set part. reportable f" "length (flow_stats_reply env xid flag part) < 65536"
  shows "\<exists>ps. flow_stats_all (flow_stats_reply env xid flag part) = Done ps
    \<and> map (\<lambda>p. stats_view (ofp_flow_stats_at (flow_stats_reply env xid flag part) p)) ps = map entry_view part"
  using flow_stats_reply_read [OF assms] .

section \<open>The flow that a controller sets up\<close>

lemma make_nw_mask_0: "make_nw_mask 0 = - 1"
  by code_simp

text \<open>The key of the flow: that of the packet without its type of service.\<close>

lemma flow_mod_key:
  assumes "flow_normal flow"
  shows "flow_extract_match (flow_mod_match flow)
    = \<lparr>k_flow = flow\<lparr>fl_nw_tos := 0\<rparr>, k_wildcards = 0, k_nw_src_mask = - 1, k_nw_dst_mask = - 1\<rparr>"
  using assms by (cases flow) (auto simp: flow_extract_match_def flow_mod_match_def Let_def make_nw_mask_0 flow_normal_def has_ports_def)

lemma simple_flow_read:
  "ofp_flow_mod_of (make_add_simple_flow flow buffer_id out_port idle)
    = Some \<lparr>ofm_length = 80, ofm_match = flow_mod_match flow, ofm_cookie = 0, ofm_command = htons OFPFC_ADD,
        ofm_idle_timeout = htons idle, ofm_hard_timeout = 0, ofm_priority = 0, ofm_buffer_id = htonl buffer_id,
        ofm_out_port = 0, ofm_flags = 0,
        ofm_actions = output_action out_port (if htons out_port = htons OFPP_CONTROLLER then 0xffff else 0)\<rparr>"
  using flow_mod_read [of "output_action out_port (if htons out_port = htons OFPP_CONTROLLER then 0xffff else 0)" OFPFC_ADD flow idle 0 buffer_id 0]
  by (simp add: make_add_simple_flow_def make_add_flow_bytes output_action_def)

lemma xor_zero: "x XOR y = 0 \<longleftrightarrow> x = y" for x y :: u32
  by (auto simp: bit_eq_iff bit_xor_iff)

lemma exact_match:
  assumes "flow_normal flow" "flow_normal (k_flow a)"
  shows "flow_matches_1wild a (flow_extract_match (flow_mod_match flow)) \<longleftrightarrow> k_flow a = flow\<lparr>fl_nw_tos := 0\<rparr>"
proof -
  have m: "flow_matches_1wild a (flow_extract_match (flow_mod_match flow)) \<longleftrightarrow>
     fl_in_port (k_flow a) = fl_in_port flow \<and> fl_dl_vlan (k_flow a) = fl_dl_vlan flow \<and> fl_dl_vlan_pcp (k_flow a) = fl_dl_vlan_pcp flow
     \<and> fl_dl_src (k_flow a) = fl_dl_src flow \<and> fl_dl_dst (k_flow a) = fl_dl_dst flow \<and> fl_dl_type (k_flow a) = fl_dl_type flow
     \<and> fl_nw_tos (k_flow a) = 0 \<and> fl_nw_proto (k_flow a) = fl_nw_proto flow \<and> fl_nw_src (k_flow a) = fl_nw_src flow
     \<and> fl_nw_dst (k_flow a) = fl_nw_dst flow \<and> fl_tp_src (k_flow a) = fl_tp_src flow \<and> fl_tp_dst (k_flow a) = fl_tp_dst flow"
    unfolding flow_mod_key [OF assms(1)] by (simp add: flow_matches_1wild_def flow_fields_match_def xor_zero)
  have pad: "fl_pad (k_flow a) = 0" "fl_pad flow = 0" using assms by (simp_all add: flow_normal_def)
  show ?thesis
  proof
    assume "flow_matches_1wild a (flow_extract_match (flow_mod_match flow))"
    then show "k_flow a = flow\<lparr>fl_nw_tos := 0\<rparr>" using pad unfolding m by (intro flow.equality) simp_all
  qed (simp add: m)
qed

text \<open>
  The flow that \<^verbatim>\<open>make_add_simple_flow\<close> asks for: the switch reads an addition whose only action is the output, and which applies to exactly
  the packets with the header fields of the given one and type of service 0. So a packet with another type of service does not match the flow that was set up for it.
\<close>

theorem simple_flow_catches:
  assumes "flow_normal flow" "out_port \<noteq> OFPP_CONTROLLER"
  shows "\<exists>ofm. ofp_flow_mod_of (make_add_simple_flow flow buffer_id out_port idle) = Some ofm
    \<and> ntohs (ofm_command ofm) = OFPFC_ADD \<and> ntohl (ofm_buffer_id ofm) = buffer_id \<and> ntohs (ofm_idle_timeout ofm) = idle
    \<and> ofm_actions ofm = output_action out_port 0
    \<and> (\<forall>a. flow_normal (k_flow a) \<longrightarrow>
         (flow_matches_1wild a (flow_extract_match (ofm_match ofm)) \<longleftrightarrow> k_flow a = flow\<lparr>fl_nw_tos := 0\<rparr>))"
  using exact_match [OF assms(1)] assms(2) by (simp add: simple_flow_read)


section \<open>Witnesses\<close>

theorem simple_flow_catches_witness:
  "\<exists>ofm. ofp_flow_mod_of (make_add_simple_flow sample_flow 7 2 60) = Some ofm \<and> ofm_actions ofm = output_action 2 0
     \<and> flow_matches_1wild \<lparr>k_flow = sample_flow, k_wildcards = 0, k_nw_src_mask = 0, k_nw_dst_mask = 0\<rparr> (flow_extract_match (ofm_match ofm))
     \<and> \<not> flow_matches_1wild \<lparr>k_flow = sample_flow\<lparr>fl_nw_tos := 8\<rparr>, k_wildcards = 0, k_nw_src_mask = 0, k_nw_dst_mask = 0\<rparr>
          (flow_extract_match (ofm_match ofm))"
proof -
  have n: "flow_normal (sample_flow\<lparr>fl_nw_tos := 8\<rparr>)" by (simp add: flow_normal_def sample_flow_def has_ports_def)
  have c: "(2 :: u16) \<noteq> OFPP_CONTROLLER" by simp
  show ?thesis using simple_flow_catches [OF sample_flow_normal c, of 7 60] sample_flow_normal n by (auto simp: sample_flow_def)
qed

theorem flow_stats_read_back_witness:
  "\<exists>ps. flow_stats_all (flow_stats_reply sample_env 7 False [(0, sample_entry), (1, sample_entry)]) = Done ps \<and> length ps = 2"
proof -
  have s: "length (sf_acts sample_entry) = 8" "sf_key sample_entry = flow_extract_match sample_match" by (simp_all add: sample_entry_def)
  have "\<forall>(i, f)\<in>set [(0 :: nat, sample_entry), (1, sample_entry)]. reportable f" by (auto simp: reportable_def s)
  moreover have "length (flow_stats_reply sample_env 7 False [(0, sample_entry), (1, sample_entry)]) < 65536"
    by (simp add: flow_stats_reply_def Let_def put_chunks length_flow_stats_header sample_entry_def)
  ultimately obtain ps where "flow_stats_all (flow_stats_reply sample_env 7 False [(0, sample_entry), (1, sample_entry)]) = Done ps"
    "map (\<lambda>p. stats_view (ofp_flow_stats_at (flow_stats_reply sample_env 7 False [(0, sample_entry), (1, sample_entry)]) p)) ps
       = map entry_view [(0, sample_entry), (1, sample_entry)]" using flow_stats_read_back by blast
  then show ?thesis using arg_cong [of _ _ length] by fastforce
qed

end
