(* ===== verification/Learning_Switch.thy ===== *)
theory Learning_Switch
  imports Msg_Build Mac_Learning
begin

text \<open>
  The learning switch of \<^verbatim>\<open>src/openflow/lib/learning-switch.c\<close>, which the test controller runs for each datapath. It learns the ports of
  stations from packet-in messages and answers with flow modifications and outputs of packets; when the switch runs a spanning tree, it
  asks for the flows and deletes those that the states of the ports forbid.
\<close>

section \<open>State\<close>

abbreviation P_DISABLED :: u32 where "P_DISABLED \<equiv> 1"
abbreviation P_LISTENING :: u32 where "P_LISTENING \<equiv> 2"
abbreviation P_LEARNING :: u32 where "P_LEARNING \<equiv> 4"
abbreviation P_FORWARDING :: u32 where "P_FORWARDING \<equiv> 8"
abbreviation P_BLOCKING :: u32 where "P_BLOCKING \<equiv> 16"
abbreviation SW_MAX_PORTS :: nat where "SW_MAX_PORTS \<equiv> 255"
abbreviation OFPC_STP :: u32 where "OFPC_STP \<equiv> 8"
abbreviation OFPPC_NO_STP :: u32 where "OFPPC_NO_STP \<equiv> 2"
abbreviation OFPPS_STP_LISTEN :: u32 where "OFPPS_STP_LISTEN \<equiv> 0"
abbreviation OFPPS_STP_LEARN :: u32 where "OFPPS_STP_LEARN \<equiv> 0x100"
abbreviation OFPPS_STP_FORWARD :: u32 where "OFPPS_STP_FORWARD \<equiv> 0x200"
abbreviation OFPPS_STP_BLOCK :: u32 where "OFPPS_STP_BLOCK \<equiv> 0x300"
abbreviation OFPPS_STP_MASK :: u32 where "OFPPS_STP_MASK \<equiv> 0x300"
abbreviation OFP_DEFAULT_MISS_SEND_LEN :: u16 where "OFP_DEFAULT_MISS_SEND_LEN \<equiv> 128"
abbreviation NO_BUFFER_ID :: u32 where "NO_BUFFER_ID \<equiv> 0xffffffff"

text \<open>Times in milliseconds, but \<open>lw_last_features_request\<close> in seconds; \<open>None\<close> stands for \<^verbatim>\<open>LLONG_MIN\<close>.\<close>

record lswitch =
  lw_max_idle :: int
  lw_datapath_id :: u64
  lw_capabilities :: u32
  lw_last_features_request :: int
  lw_ml :: "mac_learning option"
  lw_n_queued :: nat
  lw_next_query :: "int option"
  lw_last_query :: "int option"
  lw_last_reply :: "int option"
  lw_port_states :: "u32 list"
  lw_query_xid :: u32
  lw_n_flows :: u32
  lw_n_no_recv :: u32
  lw_n_no_send :: u32

text \<open>The connection: whether it is connected, and the messages that it has accepted.\<close>

record lconn =
  lc_connected :: bool
  lc_sent :: "u8 list list"

text \<open>
  What the outside gives: the seconds and milliseconds of the clock, the transaction identifiers and the random numbers, whether a message
  that is accepted is transmitted at once, by the number of messages before it, and the memory of a new table of addresses.
\<close>

record lw_env =
  le_now :: int
  le_msec :: int
  le_xid :: "nat \<Rightarrow> u32"
  le_random :: "u16 list"
  le_random32 :: u32
  le_tx :: "nat \<Rightarrow> bool"
  le_uninit :: "nat \<Rightarrow> mac_entry"

type_synonym lw = "lswitch \<times> lconn"

section \<open>Sending\<close>

text \<open>\<^verbatim>\<open>rconn_send\<close> without a counter, and \<^verbatim>\<open>rconn_send_with_limit\<close> with the limit 10 in \<^verbatim>\<open>queue_tx\<close>, which only logs errors.\<close>

definition lc_send :: "u8 list \<Rightarrow> lconn \<Rightarrow> int \<times> lconn" where
  "lc_send b c = (if lc_connected c then (0, c\<lparr>lc_sent := lc_sent c @ [b]\<rparr>) else (ENOTCONN, c))"

definition queue_tx :: "lw_env \<Rightarrow> u8 list \<Rightarrow> lw \<Rightarrow> lw" where
  "queue_tx env b w =
     (let (sw, c) = w
      in if lw_n_queued sw \<ge> 10 \<or> \<not> lc_connected c then (sw, c)
         else (sw\<lparr>lw_n_queued := (if le_tx env (length (lc_sent c)) then lw_n_queued sw else lw_n_queued sw + 1)\<rparr>,
               c\<lparr>lc_sent := lc_sent c @ [b]\<rparr>))"

definition make_openflow_msg :: "lw_env \<Rightarrow> nat \<Rightarrow> u8 \<Rightarrow> lconn \<Rightarrow> u8 list" where
  "make_openflow_msg env n type c =
     (case make_openflow_xid n type (le_xid env (length (lc_sent c))) of Some b \<Rightarrow> b | None \<Rightarrow> [])"

definition send_features_request :: "lw_env \<Rightarrow> lw \<Rightarrow> lw" where
  "send_features_request env w =
     (if le_now env \<ge> lw_last_features_request (fst w) + 1 then
        (let w = queue_tx env (make_openflow_msg env 8 OFPT_FEATURES_REQUEST (snd w)) w;
             osc = st16 (st16 (make_openflow_msg env 12 OFPT_SET_CONFIG (snd w)) 8 0) 10 (htons OFP_DEFAULT_MISS_SEND_LEN);
             (sw, c) = queue_tx env osc w
         in (sw\<lparr>lw_last_features_request := le_now env\<rparr>, c))
      else w)"

definition schedule_query :: "lw_env \<Rightarrow> int \<Rightarrow> lswitch \<Rightarrow> lswitch" where
  "schedule_query env delay sw =
     (case lw_next_query sw of
        None \<Rightarrow> sw\<lparr>lw_next_query := Some (le_msec env + delay)\<rparr>
      | Some next \<Rightarrow> if next > le_msec env + delay then sw\<lparr>lw_next_query := Some (le_msec env + delay)\<rparr> else sw)"

definition lswitch_create :: "lw_env \<Rightarrow> bool \<Rightarrow> int \<Rightarrow> lconn \<Rightarrow> lw" where
  "lswitch_create env learn_macs max_idle c =
     send_features_request env
       (\<lparr>lw_max_idle = max_idle, lw_datapath_id = 0, lw_capabilities = 0, lw_last_features_request = le_now env - 1,
         lw_ml = (if learn_macs then Some (mac_learning_create (le_uninit env) (le_random32 env)) else None),
         lw_n_queued = 0, lw_next_query = None, lw_last_query = None, lw_last_reply = None,
         lw_port_states = replicate SW_MAX_PORTS P_DISABLED, lw_query_xid = 0, lw_n_flows = 0, lw_n_no_recv = 0, lw_n_no_send = 0\<rparr>, c)"

section \<open>States of ports\<close>

definition get_port_state :: "lswitch \<Rightarrow> u16 \<Rightarrow> u32" where
  "get_port_state sw port_no =
     (if unat port_no \<ge> SW_MAX_PORTS \<or> \<not> flag_set (lw_capabilities sw) OFPC_STP then P_FORWARDING
      else lw_port_states sw ! unat port_no)"

definition may_learn :: "lswitch \<Rightarrow> u16 \<Rightarrow> bool" where
  "may_learn sw port_no \<longleftrightarrow> flag_set (get_port_state sw port_no) (P_LEARNING OR P_FORWARDING)"

definition may_recv :: "lswitch \<Rightarrow> u16 \<Rightarrow> bool \<Rightarrow> bool" where
  "may_recv sw port_no any_actions \<longleftrightarrow>
     (let state = get_port_state sw port_no
      in \<not> (if any_actions then flag_set state (P_DISABLED OR P_LISTENING OR P_BLOCKING)
            else flag_set state (P_DISABLED OR P_LISTENING OR P_BLOCKING OR P_LEARNING)))"

definition may_send :: "lswitch \<Rightarrow> u16 \<Rightarrow> bool" where
  "may_send sw port_no \<longleftrightarrow> flag_set (get_port_state sw port_no) P_FORWARDING"

text \<open>\<^verbatim>\<open>struct ofp_phy_port\<close> at an offset: the number at 0, the configuration at 24 and the state at 28.\<close>

definition process_phy_port :: "lw_env \<Rightarrow> u8 list \<Rightarrow> nat \<Rightarrow> lswitch \<Rightarrow> lswitch" where
  "process_phy_port env m opp sw =
     (let port_no = ntohs (ld16 m opp)
      in if flag_set (lw_capabilities sw) OFPC_STP \<and> unat port_no < SW_MAX_PORTS then
           (let config = ntohl (ld32 m (opp + 24)); state = ntohl (ld32 m (opp + 28));
                new_port_state =
                  (if \<not> flag_set config (OFPPC_NO_STP OR OFPPC_PORT_DOWN) \<and> \<not> flag_set state OFPPS_LINK_DOWN then
                     (let s = state AND OFPPS_STP_MASK
                      in if s = OFPPS_STP_LISTEN then P_LISTENING
                         else if s = OFPPS_STP_LEARN then P_LEARNING
                         else if s = OFPPS_STP_FORWARD then P_FORWARDING
                         else if s = OFPPS_STP_BLOCK then P_BLOCKING
                         else P_DISABLED)
                   else P_FORWARDING)
            in if lw_port_states sw ! unat port_no \<noteq> new_port_state then
                 schedule_query env 1000 (sw\<lparr>lw_port_states := (lw_port_states sw)[unat port_no := new_port_state]\<rparr>)
               else sw)
         else sw)"

section \<open>Handlers\<close>

text \<open>\<open>Fault\<close>: the handler reads outside the message, which happens only when the length field of the message exceeds its size.\<close>

definition process_switch_features :: "lw_env \<Rightarrow> u8 list \<Rightarrow> lw \<Rightarrow> lw run" where
  "process_switch_features env m w =
     (let n_ports = (msg_length m - 32) div 48
      in if msg_length m < 32 \<or> 32 + 48 * n_ports > length m then Fault
         else
           (let (sw, c) = w;
                sw = sw\<lparr>lw_datapath_id := ntohll (ld64 m 8), lw_capabilities := ntohl (ld32 m 24)\<rparr>;
                sw = fold (\<lambda>i. process_phy_port env m (32 + 48 * i)) [0..<n_ports] sw
            in Done (if flag_set (lw_capabilities sw) OFPC_STP then schedule_query env 1000 sw else sw, c)))"

definition eth_addr_is_reserved :: "eth_addr \<Rightarrow> bool" where
  "eth_addr_is_reserved ea \<longleftrightarrow>
     (let b = eth_bytes ea in b ! 0 = 0x01 \<and> b ! 1 = 0x80 \<and> b ! 2 = 0xc2 \<and> b ! 3 = 0 \<and> b ! 4 = 0 \<and> b ! 5 AND 0xf0 = 0)"

text \<open>The packet in a packet-in message and its header fields.\<close>

definition packet_in_data :: "u8 list \<Rightarrow> u8 list" where
  "packet_in_data m = take (msg_length m - 18) (drop 18 m)"

definition packet_in_flow :: "u8 list \<Rightarrow> flow" where
  "packet_in_flow m = (let pkt = packet_in_data m
     in snd (snd (flow_extract ((ofpbuf_use pkt)\<lparr>ob_size := length pkt\<rparr>) (ntohs (ld16 m 14)))))"

text \<open>The switch sends the packet, or sets up a flow; \<open>None\<close> after the label \<^verbatim>\<open>drop_it\<close>.\<close>

definition forward_packet :: "lw_env \<Rightarrow> u8 list \<Rightarrow> u16 option \<Rightarrow> lw \<Rightarrow> lw run" where
  "forward_packet env m out w =
     (let sw = fst w; in_port = ntohs (ld16 m 14); buffer_id = ntohl (ld32 m 8); flow = packet_in_flow m;
          idle = word_of_int (lw_max_idle sw);
          unbuffered = (\<lambda>out_port w. case make_unbuffered_packet_out (packet_in_data m) in_port out_port of
                          None \<Rightarrow> Fault | Some b \<Rightarrow> Done (queue_tx env b w))
      in case out of
           None \<Rightarrow> Done (if lw_max_idle sw \<ge> 0 then queue_tx env (make_add_flow flow buffer_id idle 0) w else w)
         | Some out_port \<Rightarrow>
             (if lw_max_idle sw \<ge> 0 \<and> (lw_ml sw = None \<or> out_port \<noteq> OFPP_FLOOD) then
                (let w = queue_tx env (make_add_simple_flow flow buffer_id out_port idle) w
                 in if buffer_id = NO_BUFFER_ID then unbuffered out_port w else Done w)
              else if buffer_id = NO_BUFFER_ID then unbuffered out_port w
              else Done (queue_tx env (make_buffered_packet_out buffer_id in_port out_port) w)))"

definition learn_source :: "lw_env \<Rightarrow> u8 list \<Rightarrow> lswitch \<Rightarrow> lswitch option" where
  "learn_source env m sw =
     (let in_port = ntohs (ld16 m 14)
      in case lw_ml sw of
           Some ml \<Rightarrow>
             (if may_learn sw in_port then
                map_option (\<lambda>(_, ml). sw\<lparr>lw_ml := Some ml\<rparr>)
                  (mac_learning_learn (le_random env) (le_now env) (fl_dl_src (packet_in_flow m)) 0 in_port ml)
              else Some sw)
         | None \<Rightarrow> Some sw)"

text \<open>The port to send the packet to, if it is not dropped.\<close>

definition choose_port :: "u8 list \<Rightarrow> lswitch \<Rightarrow> u16 option" where
  "choose_port m sw =
     (let in_port = ntohs (ld16 m 14); flow = packet_in_flow m
      in if eth_addr_is_reserved (fl_dl_src flow) then None
         else if \<not> may_recv sw in_port False then None
         else
           (let out_port =
                  (case lw_ml sw of
                     None \<Rightarrow> OFPP_FLOOD
                   | Some ml \<Rightarrow>
                       (let learned_port = mac_learning_lookup ml (fl_dl_dst flow) 0
                        in if may_send sw learned_port then learned_port else OFPP_FLOOD))
            in if in_port = out_port then None else Some out_port))"

definition process_packet_in :: "lw_env \<Rightarrow> u8 list \<Rightarrow> lw \<Rightarrow> lw run option" where
  "process_packet_in env m w =
     (if msg_length m < 18 \<or> msg_length m > length m then Some Fault
      else
        (case learn_source env m (fst w) of
           None \<Rightarrow> None
         | Some sw \<Rightarrow> Some (forward_packet env m (choose_port m sw) (sw, snd w))))"

definition process_echo_request :: "lw_env \<Rightarrow> u8 list \<Rightarrow> lw \<Rightarrow> lw run" where
  "process_echo_request env m w =
     (if msg_length m < 2 \<or> msg_length m > length m then Fault else Done (queue_tx env (make_echo_reply m) w))"

definition process_port_status :: "lw_env \<Rightarrow> u8 list \<Rightarrow> lw \<Rightarrow> lw run" where
  "process_port_status env m w = Done (process_phy_port env m 16 (fst w), snd w)"

text \<open>
  The loop over the actions of a flow, from \<open>p\<close> to its end: whether the flow outputs to a port that may not send. It does not end at an action
  of length 0.
\<close>

partial_function (option) forbidden_output :: "lswitch \<Rightarrow> u8 list \<Rightarrow> bool option" where
  "forbidden_output sw p =
     (if p = [] then Some False
      else if ah_len p > length p then Some False
      else if ah_len p mod 8 \<noteq> 0 then Some False
      else if ah_type p = htons OFPAT_OUTPUT \<and> \<not> may_send sw (ntohs (oa_port p)) then Some True
      else forbidden_output sw (drop (ah_len p) p))"

text \<open>The message is sent with the command in host byte order.\<close>

definition delete_flow_msg :: "lw_env \<Rightarrow> ofp_match \<Rightarrow> lconn \<Rightarrow> u8 list" where
  "delete_flow_msg env match c = st16 (stn (make_openflow_msg env 72 OFPT_FLOW_MOD c) 8 (ofp_match_bytes match)) 56 OFPFC_DELETE_STRICT"

definition process_flow_stats :: "lw_env \<Rightarrow> ofp_flow_stats \<Rightarrow> lw \<Rightarrow> lw option" where
  "process_flow_stats env ofs w =
     (let (sw, c) = w;
          no_recv = \<not> flag_set (om_wildcards (fs_match ofs)) (htonl OFPFW_IN_PORT)
            \<and> \<not> may_recv sw (ntohs (om_in_port (fs_match ofs))) (fs_actions ofs \<noteq> []);
          sw = (if no_recv then sw\<lparr>lw_n_no_recv := lw_n_no_recv sw + 1\<rparr> else sw);
          forbidden = (if no_recv then Some False else forbidden_output sw (fs_actions ofs))
      in case forbidden of
           None \<Rightarrow> None
         | Some no_send \<Rightarrow>
             (let sw = (if no_send then sw\<lparr>lw_n_no_send := lw_n_no_send sw + 1\<rparr> else sw)
              in Some (sw, if no_recv \<or> no_send then snd (lc_send (delete_flow_msg env (fs_match ofs) c) c) else c)))"

fun process_all_stats :: "lw_env \<Rightarrow> u8 list \<Rightarrow> nat list \<Rightarrow> lw \<Rightarrow> lw option" where
  "process_all_stats env m [] w = Some w"
| "process_all_stats env m (fs # rest) w =
     (case process_flow_stats env (ofp_flow_stats_at m fs) ((fst w)\<lparr>lw_n_flows := lw_n_flows (fst w) + 1\<rparr>, snd w) of
        None \<Rightarrow> None
      | Some w \<Rightarrow> process_all_stats env m rest w)"

text \<open>The entries of the reply do not depend on the handling of those before.\<close>

definition process_stats_reply :: "lw_env \<Rightarrow> u8 list \<Rightarrow> lw \<Rightarrow> lw run option" where
  "process_stats_reply env m w =
     (if lw_last_query (fst w) = None \<or> ld16 m 8 \<noteq> htons OFPST_FLOW \<or> ld32 m 4 \<noteq> lw_query_xid (fst w) then Some (Done w)
      else
        (case flow_stats_all m of
           Fault \<Rightarrow> Some Fault
         | Done fss \<Rightarrow>
             (case process_all_stats env m fss w of
                None \<Rightarrow> None
              | Some (sw, c) \<Rightarrow>
                  Some (Done (if \<not> flag_set (ld16 m 10) (htons OFPSF_REPLY_MORE) then sw\<lparr>lw_last_query := None, lw_last_reply := None\<rparr>
                              else sw\<lparr>lw_last_reply := Some (le_msec env)\<rparr>, c)))))"

section \<open>Messages and time\<close>

definition lswitch_process_packet :: "lw_env \<Rightarrow> u8 list \<Rightarrow> lw \<Rightarrow> lw run option" where
  "lswitch_process_packet env m w =
     (let type = oh_type (ofp_header_of m)
      in if lw_datapath_id (fst w) = 0 \<and> type \<noteq> OFPT_ECHO_REQUEST \<and> type \<noteq> OFPT_FEATURES_REPLY then
           Some (Done (send_features_request env w))
         else if type = OFPT_ECHO_REQUEST then Some (if length m < 8 then Done w else process_echo_request env m w)
         else if type = OFPT_FEATURES_REPLY then Some (if length m < 32 then Done w else process_switch_features env m w)
         else if type = OFPT_PACKET_IN then (if length m < 18 then Some (Done w) else process_packet_in env m w)
         else if type = OFPT_PORT_STATUS then Some (if length m < 64 then Done w else process_port_status env m w)
         else if type = OFPT_STATS_REPLY then (if length m < 12 then Some (Done w) else process_stats_reply env m w)
         else Some (Done w))"

text \<open>\<^verbatim>\<open>struct ofp_flow_stats_request\<close> after the header of the request: the match at 12, the table at 52 and the port at 54.\<close>

definition flow_query :: "u32 \<Rightarrow> u8 list" where
  "flow_query xid =
     (let b = (case make_openflow_xid 56 OFPT_STATS_REQUEST xid of Some b \<Rightarrow> b | None \<Rightarrow> []);
          b = st16 b 8 (htons OFPST_FLOW);
          b = st16 b 10 (htons 0);
          b = st32 b 12 (htonl OFPFW_ALL);
          b = st8 b 52 0xff
      in st16 b 54 (htons OFPP_NONE))"

definition send_query :: "lw_env \<Rightarrow> lw \<Rightarrow> lw" where
  "send_query env w =
     (let (sw, c) = w
      in case lw_next_query sw of
           None \<Rightarrow> w
         | Some next \<Rightarrow>
             (if le_msec env \<ge> next then
                (let sw = sw\<lparr>lw_next_query := None\<rparr>
                 in if \<not> lc_connected c then (schedule_query env 1000 sw, c)
                    else
                      (let sw = sw\<lparr>lw_last_query := Some (le_msec env), lw_query_xid := le_random32 env,
                                   lw_n_flows := 0, lw_n_no_recv := 0, lw_n_no_send := 0\<rparr>;
                           (error, c) = lc_send (flow_query (lw_query_xid sw)) c
                       in (if error \<noteq> 0 then schedule_query env 1000 sw else sw, c)))
              else w))"

definition lswitch_run :: "lw_env \<Rightarrow> lw \<Rightarrow> lw" where
  "lswitch_run env w =
     (let (sw, c) = w; now = le_msec env;
          sw = sw\<lparr>lw_ml := map_option (\<lambda>ml. snd (mac_learning_run (le_now env) None ml)) (lw_ml sw)\<rparr>
      in case lw_last_reply sw of
           Some t \<Rightarrow>
             (if now - t > 10000 then
                send_query env (schedule_query env 0 (sw\<lparr>lw_last_reply := None, lw_last_query := None\<rparr>), c)
              else (sw, c))
         | None \<Rightarrow>
             (case lw_last_query sw of
                Some t \<Rightarrow>
                  (if now - t > 10000 then send_query env (schedule_query env 0 (sw\<lparr>lw_last_query := None\<rparr>), c) else (sw, c))
              | None \<Rightarrow> send_query env (sw, c)))"

text \<open>The time that \<^verbatim>\<open>lswitch_wait\<close> sets a timer to, besides that of the table of addresses; 0 wakes at once.\<close>

definition lswitch_wait :: "lw_env \<Rightarrow> lswitch \<Rightarrow> int option" where
  "lswitch_wait env sw =
     map_option (\<lambda>started. let timeout = 10000 - (le_msec env - started) in max timeout 0)
       (case lw_last_reply sw of Some t \<Rightarrow> Some t | None \<Rightarrow> lw_last_query sw)"


section \<open>What the messages of the controller output\<close>

text \<open>The ports to which a flow modification or an output of a packet sends.\<close>

definition msg_outputs :: "u8 list \<Rightarrow> u16 list" where
  "msg_outputs b =
     (let acts = (if ld8 b 1 = OFPT_FLOW_MOD then (case ofp_flow_mod_of b of None \<Rightarrow> [] | Some ofm \<Rightarrow> ofm_actions ofm)
                  else if ld8 b 1 = OFPT_PACKET_OUT then take (unat (ntohs (ld16 b 14))) (drop 16 b)
                  else [])
      in map act_port (filter is_output (split_acts acts)))"

lemma output_action_parts:
  "ah_len (output_action q n @ ys) = 8" "ah_type (output_action q n @ ys) = htons OFPAT_OUTPUT" "oa_port (output_action q n @ ys) = htons q"
proof -
  have "unat (ntohs (htons 8 :: u16)) = 8" by simp
  then show "ah_len (output_action q n @ ys) = 8" by (simp add: ah_len_def output_action_def ld16_right ld_first)
  show "ah_type (output_action q n @ ys) = htons OFPAT_OUTPUT" by (simp add: ah_type_def output_action_def ld_first)
  show "oa_port (output_action q n @ ys) = htons q" by (simp add: oa_port_def output_action_def ld16_right ld_first)
qed

lemma length_output_action [simp]: "length (output_action q n) = 8"
  by (simp add: output_action_def)

lemma output_action_ports: "map act_port (filter is_output (split_acts (output_action q n))) = [q]"
proof -
  note p = output_action_parts [of q n "[]", simplified]
  have "output_action q n \<noteq> []" using length_output_action [of q n] by force
  then have "split_acts (output_action q n) = [output_action q n]" using p by (simp add: split_acts.simps [of "output_action q n"])
  then show ?thesis using p by (simp add: is_output_def act_port_def oa_port_def)
qed

lemma wf_output_action: "wf_acts (output_action q n)"
  using output_action_parts [of q n "[]"] length_output_action [of q n] by (simp add: wf_acts.simps [of "output_action q n"])

lemma simple_flow_outputs: "msg_outputs (make_add_simple_flow flow buffer_id q idle) = [q]"
proof -
  have "ld8 (make_add_simple_flow flow buffer_id q idle) 1 = OFPT_FLOW_MOD"
    using header_fields(2) by (simp add: make_add_simple_flow_def make_add_flow_bytes flow_mod_bytes_def)
  then show ?thesis by (simp add: msg_outputs_def simple_flow_read output_action_ports)
qed

lemma drop_flow_outputs: "msg_outputs (make_add_flow flow buffer_id idle 0) = []"
proof -
  have "ld8 (make_add_flow flow buffer_id idle 0) 1 = OFPT_FLOW_MOD"
    using header_fields(2) by (simp add: make_add_flow_bytes flow_mod_bytes_def)
  moreover have "ofp_flow_mod_of (make_add_flow flow buffer_id idle 0) \<noteq> None"
    "ofm_actions (the (ofp_flow_mod_of (make_add_flow flow buffer_id idle 0))) = []"
    using flow_mod_read [of "[]" OFPFC_ADD flow idle 0 buffer_id 0] by (simp_all add: make_add_flow_bytes)
  ultimately show ?thesis by (auto simp: msg_outputs_def)
qed

lemma packet_out_outputs:
  "msg_outputs (packet_out_msg n buffer_id in_port q @ packet) = [q]"
proof -
  let ?b = "packet_out_msg n buffer_id in_port q @ packet"
  have "ld8 ?b 1 = OFPT_PACKET_OUT" using header_fields(2) by (simp add: packet_out_msg_def)
  moreover have "ld16 ?b 14 = htons 8" "drop 16 ?b = output_action q 0 @ packet"
    by (simp_all add: packet_out_msg_def ld16_right ld_first)
  moreover have "take 8 (output_action q 0 @ packet) = output_action q 0" by simp
  ultimately show ?thesis by (simp add: msg_outputs_def output_action_ports)
qed

lemma unbuffered_outputs: "make_unbuffered_packet_out packet in_port q = Some b \<Longrightarrow> msg_outputs b = [q]"
proof -
  assume b: "make_unbuffered_packet_out packet in_port q = Some b"
  let ?m = "packet_out_msg 0 0xffffffff in_port q @ packet"
  have s: "st16 (ofp_header_bytes \<lparr>oh_version = v, oh_type = t, oh_length = l, oh_xid = x\<rparr> @ ys) 2 n
      = ofp_header_bytes \<lparr>oh_version = v, oh_type = t, oh_length = n, oh_xid = x\<rparr> @ ys" for v t l x n ys
    using st16_at [of 2 "[v, t]" _ _ "le32 x @ ys" n] by (simp add: ofp_header_bytes_def le16_def)
  have "b = packet_out_msg (of_nat (length ?m)) 0xffffffff in_port q @ packet"
    using b s by (simp add: make_unbuffered_packet_out_def update_openflow_length_def packet_out_msg_def split: if_splits)
  then show ?thesis by (simp add: packet_out_outputs)
qed

lemma unbuffered_returns: "make_unbuffered_packet_out packet in_port q \<noteq> None"
  by (simp add: make_unbuffered_packet_out_def update_openflow_length_def packet_out_msg_def)

lemma buffered_outputs: "msg_outputs (make_buffered_packet_out buffer_id in_port q) = [q]"
  using packet_out_outputs [of 24 buffer_id in_port q "[]"] by (simp add: make_buffered_packet_out_def)


section \<open>Packets\<close>

definition lw_inv :: "lswitch \<Rightarrow> bool" where
  "lw_inv sw \<longleftrightarrow> length (lw_port_states sw) = SW_MAX_PORTS \<and> (\<forall>ml. lw_ml sw = Some ml \<longrightarrow> mac_inv ml)"

lemma queue_tx_result:
  "\<exists>n. queue_tx env b w = ((fst w)\<lparr>lw_n_queued := n\<rparr>, (snd w)\<lparr>lc_sent := lc_sent (snd w) @ (if lw_n_queued (fst w) < 10 \<and> lc_connected (snd w) then [b] else [])\<rparr>)"
  by (cases w) (auto simp: queue_tx_def split: if_splits intro: exI [of _ "lw_n_queued (fst w)"])

text \<open>What a state keeps when messages are queued.\<close>

definition queued :: "(u8 list \<Rightarrow> bool) \<Rightarrow> lw \<Rightarrow> lw \<Rightarrow> bool" where
  "queued P w w' \<longleftrightarrow> (\<exists>n. fst w' = (fst w)\<lparr>lw_n_queued := n\<rparr>)
     \<and> (\<exists>new. lc_sent (snd w') = lc_sent (snd w) @ new \<and> (\<forall>b\<in>set new. P b))"

lemma queued_refl: "queued P w w"
  unfolding queued_def by (intro conjI exI [of _ "lw_n_queued (fst w)"] exI [of _ "[]"]) simp_all

lemma queued_tx: "P b \<Longrightarrow> queued P w w' \<Longrightarrow> queued P w (queue_tx env b w')"
  using queue_tx_result [of env b w'] unfolding queued_def by fastforce

text \<open>What may be sent because of a packet-in message.\<close>

definition good_output :: "u8 list \<Rightarrow> lswitch \<Rightarrow> u16 \<Rightarrow> bool" where
  "good_output m sw q \<longleftrightarrow> q \<noteq> ntohs (ld16 m 14) \<and> may_recv sw (ntohs (ld16 m 14)) False
     \<and> \<not> eth_addr_is_reserved (fl_dl_src (packet_in_flow m))
     \<and> (q = OFPP_FLOOD \<or> may_send sw q
          \<and> (\<exists>ml. lw_ml sw = Some ml \<and> mac_learning_lookup ml (fl_dl_dst (packet_in_flow m)) 0 = q))"

lemma choose_port_good: "choose_port m sw = Some q \<Longrightarrow> good_output m sw q"
  unfolding choose_port_def good_output_def Let_def by (auto split: if_splits option.splits)

lemma forward_packet_result:
  assumes "\<And>q. out = Some q \<Longrightarrow> Q q"
  shows "\<exists>w'. forward_packet env m out w = Done w' \<and> queued (\<lambda>b. \<forall>q\<in>set (msg_outputs b). Q q) w w'"
proof (cases out)
  case None
  then show ?thesis by (auto simp: forward_packet_def Let_def drop_flow_outputs intro: queued_tx queued_refl)
next
  case (Some q)
  have q: "Q q" using assms Some by simp
  let ?P = "\<lambda>b. \<forall>q\<in>set (msg_outputs b). Q q"
  obtain b where b: "make_unbuffered_packet_out (packet_in_data m) (ntohs (ld16 m 14)) q = Some b" using unbuffered_returns by fastforce
  have p: "?P b" "?P (make_buffered_packet_out i p q)" "?P (make_add_simple_flow f i q t)" for i p f t
    using q unbuffered_outputs [OF b] buffered_outputs simple_flow_outputs by simp_all
  show ?thesis unfolding forward_packet_def Let_def Some using p b
    by (auto simp del: split_paired_Ex intro!: queued_tx queued_refl)
qed

lemma queued_fields:
  assumes "queued P (sw, c) w'"
  shows "lw_ml (fst w') = lw_ml sw" "lw_inv (fst w') = lw_inv sw" "good_output m (fst w') q = good_output m sw q"
  using assms by (auto simp: queued_def lw_inv_def good_output_def may_send_def may_recv_def get_port_state_def)

lemma learn_source_result:
  assumes "lw_inv sw" "tag_create_random (le_random env) \<noteq> None"
  shows "\<exists>sw'. learn_source env m sw = Some sw' \<and> lw_inv sw' \<and> (\<exists>ml. sw' = sw\<lparr>lw_ml := ml\<rparr> \<and> (ml = None \<longleftrightarrow> lw_ml sw = None))
    \<and> (may_learn sw (ntohs (ld16 m 14)) \<and> \<not> eth_addr_is_multicast (fl_dl_src (packet_in_flow m)) \<longrightarrow>
        (\<forall>ml. lw_ml sw' = Some ml \<longrightarrow> mac_learning_lookup ml (fl_dl_src (packet_in_flow m)) 0 = ntohs (ld16 m 14)))"
proof (cases "lw_ml sw")
  case None
  then show ?thesis using assms(1) by (auto simp: learn_source_def intro!: exI [of _ None] lswitch.equality)
next
  case (Some ml)
  let ?src = "fl_dl_src (packet_in_flow m)" let ?p = "ntohs (ld16 m 14)"
  have inv: "mac_inv ml" "length (lw_port_states sw) = SW_MAX_PORTS" using assms(1) Some by (simp_all add: lw_inv_def)
  obtain tag ml1 where l: "mac_learning_learn (le_random env) (le_now env) ?src 0 ?p ml = Some (tag, ml1)" "mac_inv ml1"
    "\<not> eth_addr_is_multicast ?src \<longrightarrow> mac_learning_lookup ml1 ?src 0 = ?p"
    using learned_lookup [OF inv(1) assms(2), of "le_now env" ?src 0 ?p] by blast
  show ?thesis
  proof (cases "may_learn sw ?p")
    case True
    then show ?thesis using l Some inv(2)
      by (intro exI [of _ "sw\<lparr>lw_ml := Some ml1\<rparr>"]) (auto simp: learn_source_def lw_inv_def intro!: exI [of _ "Some ml1"])
  next
    case False
    then show ?thesis using assms(1) Some
      by (intro exI [of _ sw]) (auto simp: learn_source_def intro!: exI [of _ "Some ml"] lswitch.equality)
  qed
qed



section \<open>With the switch\<close>

text \<open>The addition of a flow without conditions.\<close>

lemma add_flow_plain:
  assumes "al_flow al" "al_sfa al" "ntohl (ofm_buffer_id ofm) = NO_BUFFER" "ofm_flags ofm = 0"
    "validate_actions (flow_extract_match (ofm_match ofm)) (ofm_actions ofm) = ACT_VALIDATION_OK"
    "chain_insert (dp_chain dp) (new_entry (ev_msec env) (al_addr al) ofm) False = Some (0, chain)"
  shows "add_flow n env al sender msg ofm dp = Some (Done (0, dp\<lparr>dp_chain := chain\<rparr>))"
proof -
  obtain flow where fl: "flow_alloc (al_flow al) (al_sfa al) (al_addr al) (length (ofm_actions ofm)) = Some flow"
    "fill_flow (ev_msec env) ofm (flow\<lparr>sf_key := flow_extract_match (ofm_match ofm),
        sf_priority := (if k_wildcards (flow_extract_match (ofm_match ofm)) \<noteq> 0 then ntohs (ofm_priority ofm) else - 1)\<rparr>)
      = Some (new_entry (ev_msec env) (al_addr al) ofm)"
    using alloc_new [OF assms(1,2)] by blast
  show ?thesis using fl assms(3-6)
    by (simp add: add_flow_def Let_def flow_mod_buffer_def split del: if_split cong: if_cong option.case_cong)
qed

lemma output_action_valid:
  assumes "q \<noteq> OFPP_NONE" "htons q \<noteq> fl_in_port (k_flow key)"
  shows "validate_actions key (output_action q 0) = ACT_VALIDATION_OK"
proof -
  note p = output_action_parts [of q 0 "[]", simplified]
  have "output_action q 0 \<noteq> []" using length_output_action [of q 0] by force
  then have "split_acts (output_action q 0) = [output_action q 0]" using p length_output_action [of q 0] by (simp add: split_acts.simps [of "output_action q 0"])
  moreover have "acceptable_act key (output_action q 0)"
    using assms p by (simp add: acceptable_act_def oa_port_def)
  ultimately show ?thesis using wf_output_action by (simp add: validated)
qed

lemma packet_in_flow_normal: "flow_normal (packet_in_flow m)"
  by (simp add: packet_in_flow_def Let_def flow_extract_is_normal)

lemma packet_in_flow_port: "fl_in_port (packet_in_flow m) = htons (ntohs (ld16 m 14))"
proof -
  have v: "fl_in_port (fst (fe_vlan f b)) = fl_in_port f" for f b
    by (auto simp: fe_vlan_def Let_def split: prod.split option.split)
  have t: "fl_in_port (fst (fe_transport f b)) = fl_in_port f" for f b
    by (auto simp: fe_transport_def Let_def split: prod.split option.split)
  have i: "fl_in_port (fst (snd (fe_ip f b))) = fl_in_port f" for f b
    by (auto simp: fe_ip_def Let_def t case_prod_beta split: option.split)
  have a: "fl_in_port (fe_arp f b) = fl_in_port f" for f b
    by (auto simp: fe_arp_def Let_def split: option.split prod.split)
  have "fl_in_port (snd (snd (flow_extract b p))) = htons p" for b p
    by (auto simp: flow_extract_def Let_def case_prod_beta v i a split: option.split)
  then show ?thesis by (simp add: packet_in_flow_def Let_def)
qed

lemma hash_first_insert:
  assumes "hash2_inv t" "k_wildcards (sf_key f) = 0" "k_flow (sf_key f) = flow" "ch_tables chain = Hash2 t # ts"
    "bucket (t2_subtable0 t) \<lparr>k_flow = flow, k_wildcards = 0, k_nw_src_mask = 0, k_nw_dst_mask = 0\<rparr> = None"
  shows "\<exists>chain'. chain_insert chain f False = Some (0, chain')
    \<and> (\<forall>key. k_wildcards key = 0 \<and> k_flow key = flow \<longrightarrow> (\<exists>chain''. chain_lookup chain' key False = Some (Some f, chain'')))"
proof -
  have "bucket (t2_subtable0 t) (sf_key f) = None"
    using assms(5) find_bucket_flow [of "sf_key f" "\<lparr>k_flow = flow, k_wildcards = 0, k_nw_src_mask = 0, k_nw_dst_mask = 0\<rparr>"] assms(3)
    by (simp add: bucket_def)
  then have "fst (table_hash2_insert t f)" using hash2_insert_fails_iff [of t f] assms(2) by (simp add: bucket_accepts_def)
  then obtain t' where t': "table_hash2_insert t f = (True, t')" by (metis prod.collapse)
  have l: "table_hash2_lookup t' key = Some f" if "k_flow key = flow" for key
    using hash2_lookup_insert [OF assms(1) t', of key] that assms(3) by simp
  have i: "table_insert (Hash2 t) f = (True, Hash2 t')"
    using t' table_insert_sel(3,4) [of t f] by (simp add: prod_eq_iff)
  have "chain_insert chain f False = Some (0, chain\<lparr>ch_tables := Hash2 t' # ts\<rparr>)"
    using i by (simp add: chain_insert_def assms(4))
  moreover have "\<exists>c. chain_lookup (chain\<lparr>ch_tables := Hash2 t' # ts\<rparr>) key False = Some (Some f, c)"
    if "k_wildcards key = 0" "k_flow key = flow" for key
    using that l by (simp add: chain_lookup_def)
  ultimately show ?thesis by blast
qed



section \<open>Deleting flows for the spanning tree\<close>

text \<open>
  A loop over actions that each have a length ends, and finds the outputs that are forbidden; an action of length 0 that comes first makes
  it run for ever, unless it is such an output itself.
\<close>

lemma forbidden_output_result:
  assumes "wf_acts p" "\<forall>a\<in>set (split_acts p). 8 dvd length a"
  shows "forbidden_output sw p = Some (\<exists>a\<in>set (split_acts p). ah_type a = htons OFPAT_OUTPUT \<and> \<not> may_send sw (ntohs (oa_port a)))"
  using assms
proof (induction p rule: wf_acts_induct)
  case Nil
  then show ?case by (simp add: forbidden_output.simps)
next
  case (act p)
  note w = wf_acts_step [OF act.hyps(1,2)] and sp = split_acts_step [OF act.hyps(1,2)]
  have d: "ah_len p mod 8 = 0" using act.prems w by (simp add: sp)
  have "\<not> ah_len p > length p" using w(3) by simp
  then show ?case using act d w by (subst forbidden_output.simps) (auto simp: sp)
qed

lemma zero_length_action_loops:
  assumes "p \<noteq> []" "ah_len p = 0" "ah_type p = htons OFPAT_OUTPUT \<longrightarrow> may_send sw (ntohs (oa_port p))"
  shows "forbidden_output sw p = None"
proof -
  have "forbidden_output sw p \<noteq> Some b" for b
  proof
    assume "forbidden_output sw p = Some b"
    then show False using assms
    proof (induction rule: forbidden_output.raw_induct [rotated, consumes 1])
      case (1 f sw p b)
      then show ?case by (auto split: if_splits)
    qed
  qed
  then show ?thesis by (cases "forbidden_output sw p") auto
qed


lemma stn_at: "i = length xs \<Longrightarrow> length vs \<le> length ys \<Longrightarrow> stn (xs @ ys) i vs = xs @ vs @ drop (length vs) ys"
proof (induction vs arbitrary: xs ys i)
  case (Cons v vs)
  obtain y ys' where ys: "ys = y # ys'" using Cons.prems(2) by (cases ys) auto
  have "stn (xs @ ys) i (v # vs) = stn ((xs @ [v]) @ ys') (i + 1) vs" using Cons.prems(1) by (simp add: ys st8_def list_update_append)
  then show ?case using Cons.IH [of "i + 1" "xs @ [v]" ys'] Cons.prems ys by simp
qed simp

lemma delete_flow_bytes:
  "\<exists>xid. delete_flow_msg env match c =
     ofp_header_bytes \<lparr>oh_version = OFP_VERSION, oh_type = OFPT_FLOW_MOD, oh_length = htons 72, oh_xid = xid\<rparr>
     @ ofp_match_bytes match @ le64 0 @ le16 OFPFC_DELETE_STRICT @ le16 0 @ le16 0 @ le16 0 @ le32 0 @ le16 0 @ le16 0"
proof -
  let ?xid = "le_xid env (length (lc_sent c))"
  let ?h = "ofp_header_bytes \<lparr>oh_version = OFP_VERSION, oh_type = OFPT_FLOW_MOD, oh_length = htons 72, oh_xid = ?xid\<rparr>"
  have m: "make_openflow_msg env 72 OFPT_FLOW_MOD c = ?h @ replicate 64 0" by (simp add: make_openflow_msg_def make_openflow_xid_def)
  have "stn (?h @ replicate 64 0) 8 (ofp_match_bytes match) = ?h @ ofp_match_bytes match @ replicate 24 0"
    by (subst stn_at) simp_all
  also have "\<dots> = (?h @ ofp_match_bytes match @ le64 0) @ 0 # 0 # replicate 14 0" by (simp add: le_zero eval_nat_numeral)
  finally have "delete_flow_msg env match c = (?h @ ofp_match_bytes match @ le64 0) @ le16 OFPFC_DELETE_STRICT @ replicate 14 0"
    unfolding delete_flow_msg_def m by (simp only:) (rule st16_at, simp)
  then show ?thesis by (intro exI [of _ ?xid]) (simp add: le_zero eval_nat_numeral)
qed

text \<open>The fields of the flow modification: the match, no priority and the command 0x0400.\<close>

lemma delete_flow_read:
  "ofp_flow_mod_of (delete_flow_msg env match c) = Some \<lparr>ofm_length = 72, ofm_match = match, ofm_cookie = 0, ofm_command = OFPFC_DELETE_STRICT,
     ofm_idle_timeout = 0, ofm_hard_timeout = 0, ofm_priority = 0, ofm_buffer_id = 0, ofm_out_port = 0, ofm_flags = 0, ofm_actions = []\<rparr>"
  "ofp_match_at (delete_flow_msg env match c) 8 = match"
proof -
  obtain xid where b: "delete_flow_msg env match c =
     ofp_header_bytes \<lparr>oh_version = OFP_VERSION, oh_type = OFPT_FLOW_MOD, oh_length = htons 72, oh_xid = xid\<rparr>
     @ ofp_match_bytes match @ le64 0 @ le16 OFPFC_DELETE_STRICT @ le16 0 @ le16 0 @ le16 0 @ le32 0 @ le16 0 @ le16 0"
    using delete_flow_bytes by blast
  have l: "msg_length (delete_flow_msg env match c) = 72" by (simp add: b msg_length_def header_fields)
  show "ofp_match_at (delete_flow_msg env match c) 8 = match" by (simp add: b match_right match_first)
  then show "ofp_flow_mod_of (delete_flow_msg env match c) = Some \<lparr>ofm_length = 72, ofm_match = match, ofm_cookie = 0, ofm_command = OFPFC_DELETE_STRICT,
     ofm_idle_timeout = 0, ofm_hard_timeout = 0, ofm_priority = 0, ofm_buffer_id = 0, ofm_out_port = 0, ofm_flags = 0, ofm_actions = []\<rparr>"
    using l by (simp add: ofp_flow_mod_of_def) (simp add: b ld_right ld_first)
qed

text \<open>
  The switch does not delete a flow when the learning switch asks it to: the command was sent in host byte order, and the switch refuses it as unknown,
  whatever the match, and keeps its tables.
\<close>

theorem stp_delete_is_refused:
  assumes "\<And>ofm. handle ofm (fst ad) (snd ad) = Some (Done ad')"
  shows "recv_flow n dpenv al handle sender (delete_flow_msg env match c) ad dp = Some (Done (- ENODEV, ad', dp))"
proof -
  have "ntohs OFPFC_DELETE_STRICT = 0x400" by code_simp
  then show ?thesis using assms by (simp add: recv_flow_def delete_flow_read(1))
qed


section \<open>Replies to the query for flows\<close>

text \<open>The flows that the states of the ports forbid: those for a port that may not receive them, and those with an output to a port that may not send.\<close>

definition forbidden_flow :: "lswitch \<Rightarrow> nat \<times> sw_flow \<Rightarrow> bool" where
  "forbidden_flow sw x \<longleftrightarrow> (case x of (i, f) \<Rightarrow>
     \<not> flag_set (k_wildcards (sf_key f)) OFPFW_IN_PORT \<and> \<not> may_recv sw (ntohs (fl_in_port (k_flow (sf_key f)))) (sf_acts f \<noteq> [])
     \<or> (\<exists>a\<in>set (split_acts (sf_acts f)). ah_type a = htons OFPAT_OUTPUT \<and> \<not> may_send sw (ntohs (oa_port a))))"

lemma extract_in_port:
  "flag_set (k_wildcards (flow_extract_match m)) OFPFW_IN_PORT \<longleftrightarrow> flag_set (om_wildcards m) (htonl OFPFW_IN_PORT)"
  "fl_in_port (k_flow (flow_extract_match m)) = om_in_port m"
proof -
  have "om_wildcards m AND htonl OFPFW_IN_PORT = htonl (htonl (om_wildcards m) AND OFPFW_IN_PORT)" by (simp add: htonl_and)
  then have h: "flag_set (om_wildcards m) (htonl OFPFW_IN_PORT) \<longleftrightarrow> flag_set (htonl (om_wildcards m)) OFPFW_IN_PORT"
    by (simp add: htonl_eq_0_iff)
  show "flag_set (k_wildcards (flow_extract_match m)) OFPFW_IN_PORT \<longleftrightarrow> flag_set (om_wildcards m) (htonl OFPFW_IN_PORT)"
    unfolding h by (simp add: flow_extract_match_def Let_def wild_and_and wild_or_and)
  show "fl_in_port (k_flow (flow_extract_match m)) = om_in_port m" by (simp add: flow_extract_match_def Let_def)
qed

definition acts_fit :: "sw_flow \<Rightarrow> bool" where
  "acts_fit f \<longleftrightarrow> wf_acts (sf_acts f) \<and> (\<forall>a\<in>set (split_acts (sf_acts f)). 8 dvd length a)"

text \<open>The counters and times are not what the decisions depend on.\<close>

definition same_ports_sw :: "lswitch \<Rightarrow> lswitch \<Rightarrow> bool" where
  "same_ports_sw sw sw' \<longleftrightarrow> lw_port_states sw' = lw_port_states sw \<and> lw_capabilities sw' = lw_capabilities sw \<and> lw_ml sw' = lw_ml sw"

lemma same_ports_sw_refl: "same_ports_sw sw sw"
  by (simp add: same_ports_sw_def)

lemma same_ports_may: "same_ports_sw sw sw' \<Longrightarrow> may_recv sw' = may_recv sw \<and> may_send sw' = may_send sw"
  by (intro conjI ext) (simp_all add: same_ports_sw_def may_recv_def may_send_def get_port_state_def)

lemma same_ports_forbidden: "same_ports_sw sw sw' \<Longrightarrow> forbidden_flow sw' x = forbidden_flow sw x"
  using same_ports_may [of sw sw'] by (simp add: forbidden_flow_def)

lemma flow_stats_result:
  assumes v: "stats_view ofs = entry_view x" and a: "acts_fit (snd x)" and c: "lc_connected (snd w)"
  shows "\<exists>w' new. process_flow_stats env ofs w = Some w' \<and> same_ports_sw (fst w) (fst w') \<and> lc_connected (snd w')
    \<and> lw_query_xid (fst w') = lw_query_xid (fst w)
    \<and> lc_sent (snd w') = lc_sent (snd w) @ new
    \<and> map (\<lambda>b. flow_extract_match (ofp_match_at b 8)) new = (if forbidden_flow (fst w) x then [sf_key (snd x)] else [])"
proof -
  obtain i f where x: "x = (i, f)" by fastforce
  obtain sw c' where w: "w = (sw, c')" by fastforce
  have key: "flow_extract_match (fs_match ofs) = sf_key f" "fs_actions ofs = sf_acts f" using v by (simp_all add: stats_view_def entry_view_def x)
  let ?nr = "\<not> flag_set (om_wildcards (fs_match ofs)) (htonl OFPFW_IN_PORT) \<and> \<not> may_recv sw (ntohs (om_in_port (fs_match ofs))) (fs_actions ofs \<noteq> [])"
  let ?ns = "\<exists>a\<in>set (split_acts (sf_acts f)). ah_type a = htons OFPAT_OUTPUT \<and> \<not> may_send sw (ntohs (oa_port a))"
  have fb: "forbidden_flow sw x \<longleftrightarrow> ?nr \<or> ?ns"
    unfolding forbidden_flow_def x prod.case key(1) [symmetric] key(2) [symmetric] extract_in_port by (rule refl)
  have fo: "forbidden_output sw' (fs_actions ofs) = Some ?ns" if "same_ports_sw sw sw'" for sw'
    using forbidden_output_result [of "sf_acts f" sw'] a key(2) same_ports_may [OF that] by (simp add: x acts_fit_def)
  have s: "same_ports_sw sw (sw\<lparr>lw_n_no_recv := n\<rparr>)" "same_ports_sw sw (sw\<lparr>lw_n_no_send := n\<rparr>)" for n by (simp_all add: same_ports_sw_def)
  have d: "flow_extract_match (ofp_match_at (delete_flow_msg env (fs_match ofs) c') 8) = sf_key f" using key by (simp add: delete_flow_read(2))
  show ?thesis
  proof (cases ?nr)
    case True
    then show ?thesis using fb d c s(1) by (simp add: process_flow_stats_def w x Let_def lc_send_def del: de_Morgan_conj)
  next
    case False
    then show ?thesis using fb d c s(2) fo [OF same_ports_sw_refl] same_ports_sw_refl
      by (cases ?ns) (simp_all add: process_flow_stats_def w x Let_def lc_send_def del: de_Morgan_conj bex_simps)
  qed
qed


lemma all_stats_result:
  assumes "map (\<lambda>p. stats_view (ofp_flow_stats_at m p)) ps = map entry_view part" "\<forall>x\<in>set part. acts_fit (snd x)"
    "lc_connected (snd w)"
  shows "\<exists>w' new. process_all_stats env m ps w = Some w' \<and> same_ports_sw (fst w) (fst w') \<and> lc_sent (snd w') = lc_sent (snd w) @ new
    \<and> map (\<lambda>b. flow_extract_match (ofp_match_at b 8)) new = map (sf_key \<circ> snd) (filter (forbidden_flow (fst w)) part)"
  using assms
proof (induction ps arbitrary: part w)
  case Nil
  then show ?case using same_ports_sw_refl by simp
next
  case (Cons p ps)
  then obtain x xs where part: "part = x # xs" by (cases part) auto
  let ?w = "((fst w)\<lparr>lw_n_flows := lw_n_flows (fst w) + 1\<rparr>, snd w)"
  have s: "same_ports_sw (fst w) (fst ?w)" by (simp add: same_ports_sw_def)
  have v: "stats_view (ofp_flow_stats_at m p) = entry_view x" "map (\<lambda>p. stats_view (ofp_flow_stats_at m p)) ps = map entry_view xs"
    using Cons.prems(1) part by simp_all
  obtain w1 new1 where w1: "process_flow_stats env (ofp_flow_stats_at m p) ?w = Some w1" "same_ports_sw (fst ?w) (fst w1)" "lc_connected (snd w1)"
    "lc_sent (snd w1) = lc_sent (snd ?w) @ new1"
    "map (\<lambda>b. flow_extract_match (ofp_match_at b 8)) new1 = (if forbidden_flow (fst ?w) x then [sf_key (snd x)] else [])"
    using flow_stats_result [OF v(1), of ?w env] Cons.prems(2,3) part by auto
  obtain w' new2 where w': "process_all_stats env m ps w1 = Some w'" "same_ports_sw (fst w1) (fst w')" "lc_sent (snd w') = lc_sent (snd w1) @ new2"
    "map (\<lambda>b. flow_extract_match (ofp_match_at b 8)) new2 = map (sf_key \<circ> snd) (filter (forbidden_flow (fst w1)) xs)"
    using Cons.IH [OF v(2) _ w1(3)] Cons.prems(2) part by auto
  have t: "same_ports_sw (fst w) (fst w1)" "same_ports_sw (fst w) (fst w')" using s w1(2) w'(2) by (simp_all add: same_ports_sw_def)
  have "forbidden_flow (fst ?w) = forbidden_flow (fst w)" "forbidden_flow (fst w1) = forbidden_flow (fst w)"
    using same_ports_forbidden [OF s] same_ports_forbidden [OF t(1)] by auto
  then have "map (\<lambda>b. flow_extract_match (ofp_match_at b 8)) (new1 @ new2) = map (sf_key \<circ> snd) (filter (forbidden_flow (fst w)) part)"
    using w1(5) w'(4) part by simp
  then show ?case using w1(1,4) w'(1,3) t(2) by (intro exI [of _ w'] exI [of _ "new1 @ new2"]) simp
qed

lemma reply_fields:
  "ld16 (flow_stats_reply env xid flag part) 8 = htons OFPST_FLOW" "ld32 (flow_stats_reply env xid flag part) 4 = xid"
  "flag_set (ld16 (flow_stats_reply env xid flag part) 10) (htons OFPSF_REPLY_MORE) \<longleftrightarrow> flag"
proof -
  let ?h = "ofp_header_bytes \<lparr>oh_version = 1, oh_type = OFPT_STATS_REPLY, oh_length = htons 12, oh_xid = xid\<rparr>"
  have "st16 (?h @ 0 # 0 # [0, 0]) 8 (htons OFPST_FLOW) = ?h @ le16 (htons OFPST_FLOW) @ [0, 0]" by (rule st16_at) simp
  then have "flow_stats_header xid = st16 ((?h @ le16 (htons OFPST_FLOW)) @ 0 # 0 # []) 10 0"
    by (simp add: flow_stats_header_def eval_nat_numeral)
  also have "\<dots> = (?h @ le16 (htons OFPST_FLOW)) @ le16 0 @ []" by (rule st16_at) simp
  finally have h: "flow_stats_header xid = ?h @ le16 (htons OFPST_FLOW) @ le16 0" by simp
  let ?b = "put_flow_stats env (flow_stats_header xid) part"
  let ?c = "if flag then st16 ?b 10 (ntohs OFPSF_REPLY_MORE) else ?b"
  have b: "?b = ?h @ le16 (htons OFPST_FLOW) @ le16 0 @ stats_chunks env 12 part" by (simp add: put_chunks length_flow_stats_header) (simp add: h)
  have l: "12 \<le> length ?b" by (simp add: b)
  have r: "flow_stats_reply env xid flag part = st16 ?c 2 (htons (of_nat (length ?c)))" by (simp add: flow_stats_reply_def Let_def)
  have f: "ld16 ?b 8 = htons OFPST_FLOW" "ld32 ?b 4 = xid" "ld16 ?b 10 = 0" by (simp_all add: b ld_right ld_first header_fields)
  have c: "12 \<le> length ?c" using l by simp
  show "ld16 (flow_stats_reply env xid flag part) 8 = htons OFPST_FLOW" unfolding r using c f l by (simp add: mem_simps)
  show "ld32 (flow_stats_reply env xid flag part) 4 = xid"
    unfolding r ld32_def using c f(2) [unfolded ld32_def] l by (simp add: mem_simps)
  have one: "htons 1 AND htons 1 \<noteq> (0 :: u16)" by code_simp
  show "flag_set (ld16 (flow_stats_reply env xid flag part) 10) (htons OFPSF_REPLY_MORE) \<longleftrightarrow> flag" unfolding r using c f(3) l one by (simp add: mem_simps)
qed



section \<open>Witnesses\<close>


text \<open>
  A station sends a frame from port 3 to station 0a:00:00:00:00:01; the first byte of its own address is the argument.
\<close>

definition sample_packet_in :: "u8 \<Rightarrow> u8 list" where
  "sample_packet_in source = [1, 10, 0, 32, 0, 0, 0, 5] @ [255, 255, 255, 255, 0, 14, 0, 3, 0, 0]
     @ [0x0a, 0, 0, 0, 0, 1] @ [source, 0, 0, 0, 0, 2] @ [0x88, 0xb5]"

definition sample_lw_env :: lw_env where
  "sample_lw_env = \<lparr>le_now = 100, le_msec = 100000, le_xid = (\<lambda>n. word_of_nat n), le_random = [1], le_random32 = 7,
     le_tx = (\<lambda>_. True), le_uninit = (\<lambda>_. undefined)\<rparr>"

definition sample_lswitch :: "mac_learning \<Rightarrow> lswitch" where
  "sample_lswitch ml = \<lparr>lw_max_idle = 60, lw_datapath_id = 1, lw_capabilities = 0, lw_last_features_request = 0, lw_ml = Some ml,
     lw_n_queued = 0, lw_next_query = None, lw_last_query = None, lw_last_reply = None,
     lw_port_states = replicate SW_MAX_PORTS P_DISABLED, lw_query_xid = 0, lw_n_flows = 0, lw_n_no_recv = 0, lw_n_no_send = 0\<rparr>"

definition sample_lconn :: lconn where
  "sample_lconn = \<lparr>lc_connected = True, lc_sent = []\<rparr>"

lemma sample_packet:
  "18 \<le> msg_length (sample_packet_in s)" "msg_length (sample_packet_in s) = length (sample_packet_in s)"
  "ntohs (ld16 (sample_packet_in s) 14) = 3" "ntohl (ld32 (sample_packet_in s) 8) = NO_BUFFER_ID"
  by code_simp+

lemma sample_flows:
  "fl_dl_dst (packet_in_flow (sample_packet_in 0x0a)) = 0x0a0000000001" "fl_dl_src (packet_in_flow (sample_packet_in 0x0a)) = 0x0a0000000002"
  "fl_dl_dst (packet_in_flow (sample_packet_in 0x01)) = 0x0a0000000001" "fl_dl_src (packet_in_flow (sample_packet_in 0x01)) = 0x010000000002"
  "fl_nw_tos (packet_in_flow (sample_packet_in 0x01)) = 0"
  by code_simp+

lemma sample_random: "tag_create_random [1] \<noteq> None"
  by code_simp

lemma sample_inv: "mac_inv ml \<Longrightarrow> lw_inv (sample_lswitch ml)"
  by (simp add: lw_inv_def sample_lswitch_def)

lemma sample_states: "get_port_state (sample_lswitch ml) p = P_FORWARDING"
  by (simp add: get_port_state_def sample_lswitch_def)



text \<open>The destination was heard on port 2, the tables of the switch are new: the flow to port 2 is set up.\<close>

lemma sample_choice:
  assumes "mac_learning_lookup ml 0x0a0000000001 0 = 2"
  shows "learn_source sample_lw_env (sample_packet_in 0x01) (sample_lswitch ml) = Some (sample_lswitch ml)"
    "choose_port (sample_packet_in 0x01) (sample_lswitch ml) = Some 2"
proof -
  have m: "eth_addr_is_multicast 0x010000000002" "\<not> eth_addr_is_reserved 0x010000000002" by code_simp+
  have ml: "lw_ml (sample_lswitch ml) = Some ml" "(sample_lswitch ml)\<lparr>lw_ml := Some ml\<rparr> = sample_lswitch ml" by (simp_all add: sample_lswitch_def)
  show "learn_source sample_lw_env (sample_packet_in 0x01) (sample_lswitch ml) = Some (sample_lswitch ml)"
    by (simp add: learn_source_def may_learn_def sample_states ml sample_packet sample_flows mac_learning_learn_def m)
  show "choose_port (sample_packet_in 0x01) (sample_lswitch ml) = Some 2"
    by (simp add: choose_port_def may_recv_def may_send_def sample_states ml sample_packet sample_flows m assms)
qed


text \<open>Any match.\<close>

theorem stp_delete_is_refused_witness:
  "recv_flow 1 sample_env sample_alloc (\<lambda>_ a d. Some (Done (a, d))) \<lparr>sd_remote = 0, sd_xid = 7\<rparr> (delete_flow_msg sample_lw_env sample_match sample_lconn)
     (sample_agent, ()) (sample_dp new_chain) = Some (Done (- ENODEV, (sample_agent, ()), sample_dp new_chain))"
  by (rule stp_delete_is_refused) simp


end
