(* ===== verification/Dhcp_Msg.thy ===== *)
theory Dhcp_Msg
  imports OF_Msg "HOL-Library.Monad_Syntax"
begin

text \<open>
  DHCP messages, \<^verbatim>\<open>src/openflow/lib/dhcp.c\<close> and \<^verbatim>\<open>dhcp.h\<close>: the options of a message live in one growing block of memory, to which
  they point; messages are parsed from and assembled into buffers. The size of a pointer, on which \<^verbatim>\<open>dhcp_parse\<close> depends by mistake, is a
  parameter. Calls that fail an assertion or read freed memory are \<open>None\<close>.
\<close>

section \<open>Types of options\<close>

datatype dhcp_arg_type = DHCP_ARG_FIXED | DHCP_ARG_IP | DHCP_ARG_SECS | DHCP_ARG_STRING | DHCP_ARG_UINT8 | DHCP_ARG_UINT16
  | DHCP_ARG_UINT32 | DHCP_ARG_BOOLEAN

fun arg_size :: "dhcp_arg_type \<Rightarrow> nat" where
  "arg_size DHCP_ARG_FIXED = 0"
| "arg_size DHCP_ARG_IP = 4"
| "arg_size DHCP_ARG_SECS = 4"
| "arg_size DHCP_ARG_STRING = 1"
| "arg_size DHCP_ARG_UINT8 = 1"
| "arg_size DHCP_ARG_UINT16 = 2"
| "arg_size DHCP_ARG_UINT32 = 4"
| "arg_size DHCP_ARG_BOOLEAN = 1"

abbreviation DHCP_N_OPTIONS :: nat where "DHCP_N_OPTIONS \<equiv> 512"
abbreviation DHCP_VENDOR_OFS :: nat where "DHCP_VENDOR_OFS \<equiv> 256"
abbreviation DHCP_CODE_PAD :: nat where "DHCP_CODE_PAD \<equiv> 0"
abbreviation DHCP_CODE_END :: nat where "DHCP_CODE_END \<equiv> 255"
abbreviation DHCP_CODE_SUBNET_MASK :: nat where "DHCP_CODE_SUBNET_MASK \<equiv> 1"
abbreviation DHCP_CODE_ROUTER :: nat where "DHCP_CODE_ROUTER \<equiv> 3"
abbreviation DHCP_CODE_VENDOR_SPECIFIC :: nat where "DHCP_CODE_VENDOR_SPECIFIC \<equiv> 43"
abbreviation DHCP_CODE_REQUESTED_IP :: nat where "DHCP_CODE_REQUESTED_IP \<equiv> 50"
abbreviation DHCP_CODE_LEASE_TIME :: nat where "DHCP_CODE_LEASE_TIME \<equiv> 51"
abbreviation DHCP_CODE_OPTION_OVERLOAD :: nat where "DHCP_CODE_OPTION_OVERLOAD \<equiv> 52"
abbreviation DHCP_CODE_DHCP_MSG_TYPE :: nat where "DHCP_CODE_DHCP_MSG_TYPE \<equiv> 53"
abbreviation DHCP_CODE_SERVER_IDENTIFIER :: nat where "DHCP_CODE_SERVER_IDENTIFIER \<equiv> 54"
abbreviation DHCP_CODE_T1 :: nat where "DHCP_CODE_T1 \<equiv> 58"
abbreviation DHCP_CODE_T2 :: nat where "DHCP_CODE_T2 \<equiv> 59"
abbreviation DHCP_CODE_VENDOR_CLASS :: nat where "DHCP_CODE_VENDOR_CLASS \<equiv> 60"
abbreviation DHCP_BOOTREQUEST :: u8 where "DHCP_BOOTREQUEST \<equiv> 1"
abbreviation DHCP_BOOTREPLY :: u8 where "DHCP_BOOTREPLY \<equiv> 2"
abbreviation DHCP_OPTS_COOKIE :: u32 where "DHCP_OPTS_COOKIE \<equiv> 0x63825363"
abbreviation DHCP_EPROTO :: int where "DHCP_EPROTO \<equiv> 71"

text \<open>The options with their types and numbers of arguments, in the order of \<^verbatim>\<open>DHCP_OPTS\<close>; \<open>None\<close> stands for \<^verbatim>\<open>SIZE_MAX\<close>.\<close>

definition dhcp_opts :: "(nat \<times> dhcp_arg_type \<times> nat \<times> nat option) list" where
  "dhcp_opts =
    [(0, DHCP_ARG_FIXED, 0, Some 0), (255, DHCP_ARG_FIXED, 0, Some 0), (1, DHCP_ARG_IP, 1, Some 1), (2, DHCP_ARG_SECS, 1, Some 1),
     (3, DHCP_ARG_IP, 1, None), (6, DHCP_ARG_IP, 1, None), (9, DHCP_ARG_IP, 1, None), (12, DHCP_ARG_STRING, 1, None),
     (13, DHCP_ARG_UINT16, 1, Some 1), (15, DHCP_ARG_STRING, 1, None), (17, DHCP_ARG_STRING, 1, None), (18, DHCP_ARG_STRING, 1, None),
     (19, DHCP_ARG_BOOLEAN, 1, Some 1), (20, DHCP_ARG_BOOLEAN, 1, Some 1), (21, DHCP_ARG_IP, 2, None), (22, DHCP_ARG_UINT16, 1, Some 1),
     (23, DHCP_ARG_UINT8, 1, Some 1), (24, DHCP_ARG_SECS, 1, Some 1), (25, DHCP_ARG_UINT16, 2, None), (26, DHCP_ARG_UINT16, 1, Some 1),
     (27, DHCP_ARG_BOOLEAN, 1, Some 1), (28, DHCP_ARG_IP, 1, Some 1), (29, DHCP_ARG_BOOLEAN, 1, Some 1), (30, DHCP_ARG_BOOLEAN, 1, Some 1),
     (31, DHCP_ARG_BOOLEAN, 1, Some 1), (32, DHCP_ARG_IP, 1, Some 1), (33, DHCP_ARG_IP, 2, None), (35, DHCP_ARG_SECS, 1, Some 1),
     (36, DHCP_ARG_BOOLEAN, 1, Some 1), (37, DHCP_ARG_UINT8, 1, Some 1), (38, DHCP_ARG_SECS, 1, Some 1), (39, DHCP_ARG_BOOLEAN, 1, Some 1),
     (40, DHCP_ARG_STRING, 1, None), (41, DHCP_ARG_IP, 1, None), (42, DHCP_ARG_IP, 1, None), (43, DHCP_ARG_UINT8, 1, None),
     (44, DHCP_ARG_IP, 1, None), (45, DHCP_ARG_IP, 1, None), (46, DHCP_ARG_UINT8, 1, Some 1), (47, DHCP_ARG_STRING, 1, None),
     (48, DHCP_ARG_IP, 1, None), (49, DHCP_ARG_IP, 1, None), (64, DHCP_ARG_STRING, 1, None), (65, DHCP_ARG_IP, 1, None),
     (68, DHCP_ARG_IP, 0, None), (69, DHCP_ARG_IP, 1, None), (70, DHCP_ARG_IP, 1, None), (71, DHCP_ARG_IP, 1, None),
     (72, DHCP_ARG_IP, 1, None), (73, DHCP_ARG_IP, 1, None), (74, DHCP_ARG_IP, 1, None), (50, DHCP_ARG_IP, 1, Some 1),
     (51, DHCP_ARG_SECS, 1, Some 1), (52, DHCP_ARG_UINT8, 1, Some 1), (66, DHCP_ARG_STRING, 1, None), (67, DHCP_ARG_STRING, 1, None),
     (53, DHCP_ARG_UINT8, 1, Some 1), (54, DHCP_ARG_IP, 1, Some 1), (55, DHCP_ARG_UINT8, 1, None), (56, DHCP_ARG_STRING, 1, None),
     (57, DHCP_ARG_UINT16, 1, Some 1), (58, DHCP_ARG_SECS, 1, Some 1), (59, DHCP_ARG_SECS, 1, Some 1), (60, DHCP_ARG_STRING, 1, None),
     (61, DHCP_ARG_UINT8, 2, None), (257, DHCP_ARG_STRING, 1, None), (258, DHCP_ARG_STRING, 1, None)]"

definition get_option_class :: "nat \<Rightarrow> dhcp_arg_type \<times> nat \<times> nat option" where
  "get_option_class code = (case map_of dhcp_opts code of Some c \<Rightarrow> c | None \<Rightarrow> (DHCP_ARG_UINT8, 0, None))"

section \<open>Messages\<close>

text \<open>The pointer \<^verbatim>\<open>data\<close> of an option is an offset in the block of the message, whose used bytes are \<open>dm_data\<close>; \<open>dm_null\<close>: there is no block.\<close>

record dhcp_option =
  do_n :: nat
  do_data :: "nat option"

record dhcp_msg =
  dm_op :: u8
  dm_xid :: u32
  dm_secs :: u16
  dm_flags :: u16
  dm_ciaddr :: u32
  dm_yiaddr :: u32
  dm_siaddr :: u32
  dm_giaddr :: u32
  dm_chaddr :: eth_addr
  dm_type :: u8
  dm_options :: "dhcp_option list"
  dm_data :: "u8 list"
  dm_null :: bool
  dm_allocated :: nat

definition dhcp_msg_init :: dhcp_msg where
  "dhcp_msg_init = \<lparr>dm_op = 0, dm_xid = 0, dm_secs = 0, dm_flags = 0, dm_ciaddr = 0, dm_yiaddr = 0, dm_siaddr = 0, dm_giaddr = 0,
     dm_chaddr = 0, dm_type = 0, dm_options = replicate DHCP_N_OPTIONS \<lparr>do_n = 0, do_data = None\<rparr>,
     dm_data = [], dm_null = True, dm_allocated = 0\<rparr>"

definition append_data :: "u8 list \<Rightarrow> dhcp_msg \<Rightarrow> (nat option \<times> dhcp_msg) option" where
  "append_data data msg =
     (if length (dm_data msg) + length data > dm_allocated msg then None
      else Some (if dm_null msg then None else Some (length (dm_data msg)), msg\<lparr>dm_data := dm_data msg @ data\<rparr>))"

definition set_option :: "nat \<Rightarrow> dhcp_option \<Rightarrow> dhcp_msg \<Rightarrow> dhcp_msg" where
  "set_option code opt msg = msg\<lparr>dm_options := (dm_options msg)[code := opt]\<rparr>"

text \<open>The bytes of an option in the block \<open>old\<close>; reading behind its end is an error.\<close>

definition opt_read :: "dhcp_option \<Rightarrow> u8 list \<Rightarrow> u8 list option" where
  "opt_read opt old =
     (case do_data opt of None \<Rightarrow> None
      | Some p \<Rightarrow> if p + do_n opt \<le> length old then Some (take (do_n opt) (drop p old)) else None)"

fun copy_options :: "u8 list \<Rightarrow> nat list \<Rightarrow> dhcp_msg \<Rightarrow> dhcp_msg option" where
  "copy_options old [] msg = Some msg"
| "copy_options old (code # codes) msg =
     (let opt = dm_options msg ! code
      in if do_data opt = None then copy_options old codes msg
         else do {
           data \<leftarrow> opt_read opt old;
           (p, msg) \<leftarrow> append_data data msg;
           copy_options old codes (set_option code (opt\<lparr>do_data := p\<rparr>) msg) })"

definition all_codes :: "nat list" where
  "all_codes = [0..<DHCP_N_OPTIONS]"

definition copy_data :: "u8 list \<Rightarrow> dhcp_msg \<Rightarrow> dhcp_msg option" where
  "copy_data old msg = copy_options old all_codes (msg\<lparr>dm_data := []\<rparr>)"

definition dhcp_msg_copy :: "dhcp_msg \<Rightarrow> dhcp_msg option" where
  "dhcp_msg_copy src = copy_data (dm_data src) (src\<lparr>dm_allocated := length (dm_data src), dm_null := False\<rparr>)"

definition reallocates :: "nat \<Rightarrow> dhcp_msg \<Rightarrow> bool" where
  "reallocates n msg \<longleftrightarrow> length (dm_data msg) + n > dm_allocated msg"

definition prealloc_data :: "nat \<Rightarrow> dhcp_msg \<Rightarrow> dhcp_msg option" where
  "prealloc_data n msg =
     (if reallocates n msg then
        (let new = msg\<lparr>dm_allocated := max ((length (dm_data msg) + n) * 2) 64, dm_null := False\<rparr>
         in if dm_null msg then Some new else copy_data (dm_data msg) new)
      else Some msg)"

definition dhcp_msg_put :: "nat \<Rightarrow> u8 list \<Rightarrow> dhcp_msg \<Rightarrow> dhcp_msg option" where
  "dhcp_msg_put code data msg =
     (if code = DHCP_CODE_PAD \<or> code = DHCP_CODE_END then Some msg
      else do {
        msg \<leftarrow> prealloc_data (length data + do_n (dm_options msg ! code)) msg;
        let opt = dm_options msg ! code;
        if do_n opt \<noteq> 0 then do {
          (p, msg) \<leftarrow> (if do_data opt = Some (length (dm_data msg) - do_n opt) then Some (do_data opt, msg)
                       else do { old \<leftarrow> opt_read opt (dm_data msg); append_data old msg });
          (q, msg) \<leftarrow> append_data data msg;
          Some (set_option code \<lparr>do_n = do_n opt + length data, do_data = p\<rparr> msg) }
        else do {
          (p, msg) \<leftarrow> append_data data msg;
          Some (set_option code \<lparr>do_n = do_n opt + length data, do_data = p\<rparr> msg) } })"

definition dhcp_msg_put_bool :: "nat \<Rightarrow> bool \<Rightarrow> dhcp_msg \<Rightarrow> dhcp_msg option" where
  "dhcp_msg_put_bool code b = dhcp_msg_put code [if b then 1 else 0]"

definition dhcp_msg_put_secs :: "nat \<Rightarrow> u32 \<Rightarrow> dhcp_msg \<Rightarrow> dhcp_msg option" where
  "dhcp_msg_put_secs code secs = dhcp_msg_put code (le32 (htonl secs))"

definition dhcp_msg_put_ip :: "nat \<Rightarrow> u32 \<Rightarrow> dhcp_msg \<Rightarrow> dhcp_msg option" where
  "dhcp_msg_put_ip code ip = dhcp_msg_put code (le32 ip)"

definition dhcp_msg_put_string :: "nat \<Rightarrow> u8 list \<Rightarrow> dhcp_msg \<Rightarrow> dhcp_msg option" where
  "dhcp_msg_put_string code s = dhcp_msg_put code (takeWhile (\<lambda>c. c \<noteq> 0) s)"

definition dhcp_msg_put_uint8 :: "nat \<Rightarrow> u8 \<Rightarrow> dhcp_msg \<Rightarrow> dhcp_msg option" where
  "dhcp_msg_put_uint8 code x = dhcp_msg_put code [x]"

definition dhcp_msg_put_uint8_array :: "nat \<Rightarrow> u8 list \<Rightarrow> dhcp_msg \<Rightarrow> dhcp_msg option" where
  "dhcp_msg_put_uint8_array code data = dhcp_msg_put code data"

definition dhcp_msg_put_uint16 :: "nat \<Rightarrow> u16 \<Rightarrow> dhcp_msg \<Rightarrow> dhcp_msg option" where
  "dhcp_msg_put_uint16 code x = dhcp_msg_put code (le16 (htons x))"

fun dhcp_msg_put_uint16_array :: "nat \<Rightarrow> u16 list \<Rightarrow> dhcp_msg \<Rightarrow> dhcp_msg option" where
  "dhcp_msg_put_uint16_array code [] msg = Some msg"
| "dhcp_msg_put_uint16_array code (x # xs) msg = do { msg \<leftarrow> dhcp_msg_put_uint16 code x msg; dhcp_msg_put_uint16_array code xs msg }"

definition dhcp_msg_get :: "nat \<Rightarrow> nat \<Rightarrow> nat \<Rightarrow> dhcp_msg \<Rightarrow> u8 list option" where
  "dhcp_msg_get code offset n msg =
     (let opt = dm_options msg ! code
      in if offset + n \<le> do_n opt
         then map_option (\<lambda>p. take n (drop (p + offset) (dm_data msg))) (do_data opt) else None)"

definition dhcp_msg_get_bool :: "nat \<Rightarrow> nat \<Rightarrow> dhcp_msg \<Rightarrow> bool option" where
  "dhcp_msg_get_bool code offset msg = map_option (\<lambda>b. ld8 b 0 \<noteq> 0) (dhcp_msg_get code offset 1 msg)"

definition dhcp_msg_get_secs :: "nat \<Rightarrow> nat \<Rightarrow> dhcp_msg \<Rightarrow> u32 option" where
  "dhcp_msg_get_secs code offset msg = map_option (\<lambda>b. ntohl (ld32 b 0)) (dhcp_msg_get code (offset * 4) 4 msg)"

definition dhcp_msg_get_ip :: "nat \<Rightarrow> nat \<Rightarrow> dhcp_msg \<Rightarrow> u32 option" where
  "dhcp_msg_get_ip code offset msg = map_option (\<lambda>b. ld32 b 0) (dhcp_msg_get code (offset * 4) 4 msg)"

definition dhcp_msg_get_uint8 :: "nat \<Rightarrow> nat \<Rightarrow> dhcp_msg \<Rightarrow> u8 option" where
  "dhcp_msg_get_uint8 code offset msg = map_option (\<lambda>b. ld8 b 0) (dhcp_msg_get code offset 1 msg)"

definition dhcp_msg_get_uint16 :: "nat \<Rightarrow> nat \<Rightarrow> dhcp_msg \<Rightarrow> u16 option" where
  "dhcp_msg_get_uint16 code offset msg = map_option (\<lambda>b. ntohs (ld16 b 0)) (dhcp_msg_get code (offset * 2) 2 msg)"

text \<open>The content of an option, if it is present; as a string it ends at the first byte 0.\<close>

definition dhcp_opt :: "dhcp_msg \<Rightarrow> nat \<Rightarrow> u8 list option" where
  "dhcp_opt msg code =
     map_option (\<lambda>p. take (do_n (dm_options msg ! code)) (drop p (dm_data msg))) (do_data (dm_options msg ! code))"

definition dhcp_msg_get_string :: "dhcp_msg \<Rightarrow> nat \<Rightarrow> u8 list option" where
  "dhcp_msg_get_string msg code = map_option (takeWhile (\<lambda>c. c \<noteq> 0)) (dhcp_opt msg code)"

definition dhcp_option_equals :: "dhcp_msg \<Rightarrow> nat \<Rightarrow> dhcp_msg \<Rightarrow> nat \<Rightarrow> bool" where
  "dhcp_option_equals a code b code' \<longleftrightarrow>
     (do_data (dm_options a ! code) \<noteq> None) = (do_data (dm_options b ! code') \<noteq> None)
     \<and> do_n (dm_options a ! code) = do_n (dm_options b ! code') \<and> dhcp_opt a code = dhcp_opt b code'"

section \<open>Parsing\<close>

text \<open>
  The loop over the bytes of \<open>name\<close>. \<open>own\<close>: the bytes lie in the block of the message itself, and reading them after the block was moved
  is an error.
\<close>

function parse_options :: "bool \<Rightarrow> nat \<Rightarrow> u8 list \<Rightarrow> dhcp_msg \<Rightarrow> dhcp_msg option" where
  "parse_options own option_offset bs msg =
     (case bs of
        [] \<Rightarrow> Some msg
      | code # bs \<Rightarrow>
          if unat code = DHCP_CODE_END then Some msg
          else if unat code = DHCP_CODE_PAD then parse_options own option_offset bs msg
          else
            (case bs of
               [] \<Rightarrow> Some msg
             | len # bs \<Rightarrow>
                 if unat len > length bs then Some msg
                 else
                   (let payload = take (unat len) bs; rest = drop (unat len) bs; code = unat code + option_offset;
                        moved = own \<and> reallocates (length payload + do_n (dm_options msg ! code)) msg
                    in if moved \<and> (payload \<noteq> [] \<or> rest \<noteq> []) then None
                       else do { msg \<leftarrow> dhcp_msg_put code payload msg; parse_options own option_offset rest msg })))"
  by pat_completeness auto
termination by (relation "measure (\<lambda>(_, _, bs, _). length bs)") auto

declare parse_options.simps [simp del]

text \<open>A remainder or a wrong number of arguments removes the option. A division by the size 0 is an error.\<close>

definition validate_option :: "nat \<Rightarrow> dhcp_msg \<Rightarrow> dhcp_msg option" where
  "validate_option code msg =
     (let opt = dm_options msg ! code; (type, min_args, max_args) = get_option_class code
      in if do_data opt = None then Some msg
         else if arg_size type = 0 then None
         else
           (let n_elems = do_n opt div arg_size type; remainder = do_n opt mod arg_size type
            in if remainder \<noteq> 0 \<or> n_elems < min_args \<or> (case max_args of None \<Rightarrow> False | Some m \<Rightarrow> n_elems > m)
               then Some (set_option code \<lparr>do_n = 0, do_data = None\<rparr> msg) else Some msg))"

fun validate_codes :: "nat list \<Rightarrow> dhcp_msg \<Rightarrow> dhcp_msg option" where
  "validate_codes [] msg = Some msg"
| "validate_codes (code # codes) msg = do { msg \<leftarrow> validate_option code msg; validate_codes codes msg }"

definition validate_options :: "dhcp_msg \<Rightarrow> dhcp_msg option" where
  "validate_options = validate_codes all_codes"

definition is_openflow :: "u8 list \<Rightarrow> bool" where
  "is_openflow s \<longleftrightarrow> s = [79, 112, 101, 110, 70, 108, 111, 119]"

text \<open>
  \<^verbatim>\<open>ofpbuf_try_pull (&b, sizeof cookie)\<close> pulls as many bytes as a pointer has, \<open>ptr\<close>, of which it reads four as the cookie. The
  result is the error \<open>DHCP_EPROTO\<close> or the message.
\<close>

definition dhcp_parse :: "nat \<Rightarrow> u8 list \<Rightarrow> (int + dhcp_msg) option" where
  "dhcp_parse ptr b =
     (if length b < 236 then Some (Inl DHCP_EPROTO)
      else if ld8 b 0 \<noteq> DHCP_BOOTREPLY \<and> ld8 b 0 \<noteq> DHCP_BOOTREQUEST then Some (Inl DHCP_EPROTO)
      else if ld8 b 1 \<noteq> 1 then Some (Inl DHCP_EPROTO)
      else if ld8 b 2 \<noteq> 6 then Some (Inl DHCP_EPROTO)
      else do {
        let msg = dhcp_msg_init\<lparr>dm_op := ld8 b 0, dm_xid := ntohl (ld32 b 4), dm_secs := ntohs (ld16 b 8), dm_flags := ntohs (ld16 b 10),
          dm_ciaddr := ld32 b 12, dm_yiaddr := ld32 b 16, dm_siaddr := ld32 b 20, dm_giaddr := ld32 b 24, dm_chaddr := ld_eth b 28\<rparr>;
        msg \<leftarrow> (if length b - 236 \<ge> ptr \<and> ntohl (ld32 b 236) = DHCP_OPTS_COOKIE then do {
            msg \<leftarrow> parse_options False 0 (drop (236 + ptr) b) msg;
            (case dhcp_msg_get_uint8 DHCP_CODE_OPTION_OVERLOAD 0 msg of
               None \<Rightarrow> Some msg
             | Some overload \<Rightarrow> do {
                 msg \<leftarrow> (if flag_set overload 1 then parse_options False 0 (ldn b 108 128) msg else Some msg);
                 (if flag_set overload 2 then parse_options False 0 (ldn b 44 64) msg else Some msg) }) }
          else Some msg);
        msg \<leftarrow> (case dhcp_msg_get_string msg DHCP_CODE_VENDOR_CLASS of
            Some s \<Rightarrow> if is_openflow s
              then parse_options True DHCP_VENDOR_OFS (case dhcp_opt msg DHCP_CODE_VENDOR_SPECIFIC of Some bs \<Rightarrow> bs | None \<Rightarrow> []) msg
              else Some msg
          | None \<Rightarrow> Some msg);
        msg \<leftarrow> validate_options msg;
        Some (case dhcp_msg_get_uint8 DHCP_CODE_DHCP_MSG_TYPE 0 msg of
                None \<Rightarrow> Inl DHCP_EPROTO
              | Some type \<Rightarrow> Inr (msg\<lparr>dm_type := type\<rparr>)) })"

section \<open>Assembling\<close>

definition put_option_chunk :: "junk \<Rightarrow> u8 \<Rightarrow> u8 list \<Rightarrow> ofpbuf \<Rightarrow> ofpbuf option" where
  "put_option_chunk m code data b =
     (if length data \<ge> 256 then None
      else Some (snd (ofpbuf_put m (snd (ofpbuf_put m b [code, of_nat (length data)])) data)))"

function put_chunks :: "junk \<Rightarrow> u8 \<Rightarrow> u8 list \<Rightarrow> ofpbuf \<Rightarrow> ofpbuf option" where
  "put_chunks m code data b =
     (if data = [] then Some b
      else (let chunk = if length data > 255 then 248 else length data
            in do { b \<leftarrow> put_option_chunk m code (take chunk data) b; put_chunks m code (drop chunk data) b }))"
  by pat_completeness auto
termination by (relation "measure (\<lambda>(_, _, data, _). length data)") auto

declare put_chunks.simps [simp del]

definition put_option :: "junk \<Rightarrow> u8 \<Rightarrow> u8 list option \<Rightarrow> ofpbuf \<Rightarrow> ofpbuf option" where
  "put_option m code data b =
     (case data of
        None \<Rightarrow> Some b
      | Some data \<Rightarrow> if data \<noteq> [] then put_chunks m code data b else put_option_chunk m code [] b)"

fun put_all :: "junk \<Rightarrow> (nat \<Rightarrow> u8 list option) \<Rightarrow> nat \<Rightarrow> nat list \<Rightarrow> ofpbuf \<Rightarrow> ofpbuf option" where
  "put_all m opts ofs [] b = Some b"
| "put_all m opts ofs (i # is) b = do { b \<leftarrow> put_option m (of_nat (i - ofs)) (opts i) b; put_all m opts ofs is b }"

definition dhcp_header_bytes :: "dhcp_msg \<Rightarrow> u8 list" where
  "dhcp_header_bytes msg =
     [dm_op msg, 1, 6, 0] @ le32 (htonl (dm_xid msg)) @ le16 (htons (dm_secs msg)) @ le16 (htons (dm_flags msg))
     @ le32 (dm_ciaddr msg) @ le32 (dm_yiaddr msg) @ le32 (dm_siaddr msg) @ le32 (dm_giaddr msg)
     @ eth_bytes (dm_chaddr msg) @ replicate 10 0 @ replicate 64 0 @ replicate 128 0"

definition dhcp_assemble :: "junk \<Rightarrow> dhcp_msg \<Rightarrow> ofpbuf \<Rightarrow> ofpbuf option" where
  "dhcp_assemble m msg b = do {
     let b = snd (ofpbuf_put m b (dhcp_header_bytes msg));
     let b = snd (ofpbuf_put m b (le32 (htonl DHCP_OPTS_COOKIE)));
     b \<leftarrow> (if dm_type msg \<noteq> 0 then put_option m (of_nat DHCP_CODE_DHCP_MSG_TYPE) (Some [dm_type msg]) b else Some b);
     b \<leftarrow> put_all m (dhcp_opt msg) 0 [0..<DHCP_VENDOR_OFS] b;
     vnd_data \<leftarrow> put_all m (dhcp_opt msg) DHCP_VENDOR_OFS [DHCP_VENDOR_OFS..<DHCP_N_OPTIONS] (ofpbuf_init m 0);
     b \<leftarrow> (if ob_size vnd_data \<noteq> 0 then put_option m (of_nat DHCP_CODE_VENDOR_SPECIFIC) (Some (contents vnd_data)) b else Some b);
     Some (snd (ofpbuf_put m b [of_nat DHCP_CODE_END])) }"


section \<open>The block of a message\<close>

definition opt_ok :: "dhcp_option \<Rightarrow> u8 list \<Rightarrow> bool" where
  "opt_ok opt data \<longleftrightarrow> (case do_data opt of None \<Rightarrow> do_n opt = 0 | Some p \<Rightarrow> p + do_n opt \<le> length data)"

definition total_n :: "dhcp_option list \<Rightarrow> nat list \<Rightarrow> nat" where
  "total_n opts codes = sum_list (map (\<lambda>c. do_n (opts ! c)) codes)"

definition dhcp_inv :: "dhcp_msg \<Rightarrow> bool" where
  "dhcp_inv msg \<longleftrightarrow> length (dm_options msg) = DHCP_N_OPTIONS
     \<and> (\<forall>c<DHCP_N_OPTIONS. opt_ok (dm_options msg ! c) (dm_data msg))
     \<and> total_n (dm_options msg) all_codes \<le> length (dm_data msg) \<and> length (dm_data msg) \<le> dm_allocated msg
     \<and> (dm_null msg \<longrightarrow> dm_allocated msg = 0 \<and> (\<forall>c<DHCP_N_OPTIONS. do_data (dm_options msg ! c) = None))
     \<and> do_data (dm_options msg ! DHCP_CODE_PAD) = None \<and> do_data (dm_options msg ! DHCP_CODE_END) = None"

text \<open>The fields that operations on options leave alone.\<close>

definition dm_head :: "dhcp_msg \<Rightarrow> (u8 \<times> u32 \<times> u16 \<times> u16) \<times> (u32 \<times> u32 \<times> u32 \<times> u32) \<times> eth_addr \<times> u8" where
  "dm_head msg = ((dm_op msg, dm_xid msg, dm_secs msg, dm_flags msg),
     (dm_ciaddr msg, dm_yiaddr msg, dm_siaddr msg, dm_giaddr msg), dm_chaddr msg, dm_type msg)"

lemma set_all_codes [simp]: "set all_codes = {..<DHCP_N_OPTIONS}"
  by (auto simp: all_codes_def)

lemma distinct_all_codes [simp]: "distinct all_codes"
  by (simp add: all_codes_def)

lemma opt_ok_append: "opt_ok opt xs \<Longrightarrow> opt_ok opt (xs @ ys)"
  by (auto simp: opt_ok_def split: option.splits)

lemma total_update:
  assumes "distinct codes" "length opts > c" "\<forall>d\<in>set codes. d < length opts"
  shows "total_n (opts[c := opt]) codes + (if c \<in> set codes then do_n (opts ! c) else 0) = total_n opts codes + (if c \<in> set codes then do_n opt else 0)"
  using assms by (induction codes) (auto simp: total_n_def nth_list_update)

lemma set_option_fields [simp]:
  "dm_head (set_option c opt msg) = dm_head msg" "dm_data (set_option c opt msg) = dm_data msg"
  "dm_null (set_option c opt msg) = dm_null msg" "dm_allocated (set_option c opt msg) = dm_allocated msg"
  "dm_options (set_option c opt msg) = (dm_options msg)[c := opt]"
  by (simp_all add: set_option_def dm_head_def)

text \<open>Copying options into a new block keeps their contents.\<close>

definition opt_copied :: "u8 list \<Rightarrow> dhcp_option \<Rightarrow> u8 list \<Rightarrow> dhcp_option \<Rightarrow> bool" where
  "opt_copied old opt data opt' \<longleftrightarrow> do_n opt' = do_n opt
     \<and> (case do_data opt of None \<Rightarrow> do_data opt' = None
        | Some p \<Rightarrow> \<exists>q. do_data opt' = Some q \<and> q + do_n opt \<le> length data \<and> take (do_n opt) (drop q data) = take (do_n opt) (drop p old))"

definition copied :: "u8 list \<Rightarrow> nat list \<Rightarrow> dhcp_msg \<Rightarrow> dhcp_msg \<Rightarrow> bool" where
  "copied old codes msg msg' \<longleftrightarrow> dm_head msg' = dm_head msg \<and> \<not> dm_null msg' \<and> dm_allocated msg' = dm_allocated msg
     \<and> length (dm_options msg') = length (dm_options msg)
     \<and> (\<exists>new. dm_data msg' = dm_data msg @ new \<and> length new = total_n (dm_options msg) codes)
     \<and> (\<forall>c. if c \<in> set codes then opt_copied old (dm_options msg ! c) (dm_data msg') (dm_options msg' ! c)
           else dm_options msg' ! c = dm_options msg ! c)"

lemma copy_options_result:
  assumes "distinct codes" "\<forall>c\<in>set codes. c < length (dm_options msg) \<and> opt_ok (dm_options msg ! c) old"
    "length (dm_data msg) + total_n (dm_options msg) codes \<le> dm_allocated msg" "\<not> dm_null msg"
  shows "\<exists>msg'. copy_options old codes msg = Some msg' \<and> copied old codes msg msg'"
  using assms
proof (induction codes arbitrary: msg)
  case Nil
  then show ?case by (simp add: total_n_def copied_def)
next
  case (Cons c cs)
  let ?opt = "dm_options msg ! c"
  have c: "c < length (dm_options msg)" "opt_ok ?opt old" "c \<notin> set cs" "distinct cs" using Cons.prems by simp_all
  have t: "total_n (dm_options msg) (c # cs) = do_n ?opt + total_n (dm_options msg) cs" by (simp add: total_n_def)
  show ?case
  proof (cases "do_data ?opt")
    case None
    then have n: "do_n ?opt = 0" using c(2) by (simp add: opt_ok_def)
    obtain msg' where m': "copy_options old cs msg = Some msg'" "copied old cs msg msg'"
      using Cons.IH [of msg] Cons.prems n c(4) t by auto
    have "dm_options msg' ! c = ?opt" using m'(2) c(3) unfolding copied_def by (metis (full_types))
    then have oc: "opt_copied old ?opt (dm_data msg') (dm_options msg' ! c)" using None by (simp add: opt_copied_def)
    have "if d \<in> set (c # cs) then opt_copied old (dm_options msg ! d) (dm_data msg') (dm_options msg' ! d)
        else dm_options msg' ! d = dm_options msg ! d" for d
      using m'(2) oc unfolding copied_def by (cases "d = c") (auto split: if_splits)
    moreover have "total_n (dm_options msg) (c # cs) = total_n (dm_options msg) cs" using t n by simp
    ultimately have "copied old (c # cs) msg msg'" using m'(2) unfolding copied_def by metis
    then show ?thesis using m'(1) None by simp
  next
    case (Some p)
    let ?x = "take (do_n ?opt) (drop p old)" let ?q = "length (dm_data msg)"
    have p: "p + do_n ?opt \<le> length old" using c(2) Some by (simp add: opt_ok_def)
    then have x: "length ?x = do_n ?opt" "opt_read ?opt old = Some ?x" using Some by (simp_all add: opt_read_def)
    define m where "m = set_option c (?opt\<lparr>do_data := Some ?q\<rparr>) (msg\<lparr>dm_data := dm_data msg @ ?x\<rparr>)"
    have m: "dm_head m = dm_head msg" "dm_allocated m = dm_allocated msg" "dm_null m = dm_null msg" "dm_data m = dm_data msg @ ?x"
      "dm_options m ! c = ?opt\<lparr>do_data := Some ?q\<rparr>" "length (dm_options m) = length (dm_options msg)"
      using c(1) by (simp_all add: m_def) (simp add: dm_head_def)
    have same: "dm_options m ! d = dm_options msg ! d" if "d \<noteq> c" for d using that by (simp add: m_def)
    have "map (\<lambda>d. do_n (dm_options m ! d)) cs = map (\<lambda>d. do_n (dm_options msg ! d)) cs"
      using same c(3) by (intro map_cong refl) metis
    then have tm: "total_n (dm_options m) cs = total_n (dm_options msg) cs" unfolding total_n_def by (rule arg_cong)
    have step: "copy_options old (c # cs) msg = copy_options old cs m"
      using Some x Cons.prems(3,4) t by (simp add: append_data_def m_def Let_def)
    have pre: "\<forall>d\<in>set cs. d < length (dm_options m) \<and> opt_ok (dm_options m ! d) old"
      using Cons.prems(2) m(6) same c(3) by (metis list.set_intros(2))
    obtain msg' where m': "copy_options old cs m = Some msg'" "copied old cs m msg'"
      using Cons.IH [OF c(4) pre] Cons.prems(3,4) tm m(2-4) x(1) t by auto
    obtain new where new: "dm_data msg' = dm_data m @ new" "length new = total_n (dm_options m) cs" using m'(2) by (auto simp: copied_def)
    have o: "dm_options msg' ! c = ?opt\<lparr>do_data := Some ?q\<rparr>" using m'(2) c(3) m(5) unfolding copied_def by (metis (full_types))
    have rest: "if d \<in> set cs then opt_copied old (dm_options m ! d) (dm_data msg') (dm_options msg' ! d)
        else dm_options msg' ! d = dm_options m ! d" for d using m'(2) unfolding copied_def by blast
    have oc: "opt_copied old ?opt (dm_data msg') (dm_options msg' ! c)" using Some o new(1) m(4) x(1) by (simp add: opt_copied_def)
    have all: "if d \<in> set (c # cs) then opt_copied old (dm_options msg ! d) (dm_data msg') (dm_options msg' ! d)
        else dm_options msg' ! d = dm_options msg ! d" for d
      using rest [of d] oc same [of d] by (cases "d = c") (simp_all split: if_splits)
    have d: "dm_data msg' = dm_data msg @ (?x @ new)" "length (?x @ new) = total_n (dm_options msg) (c # cs)"
      using new m(4) tm t x(1) by simp_all
    have h: "dm_head msg' = dm_head msg" "\<not> dm_null msg'" "dm_allocated msg' = dm_allocated msg" "length (dm_options msg') = length (dm_options msg)"
      using m'(2) m(1-3,6) by (simp_all add: copied_def)
    have "copied old (c # cs) msg msg'" unfolding copied_def by (intro conjI allI exI [of _ "?x @ new"]; (rule h d all))
    then show ?thesis using step m'(1) by simp
  qed
qed

text \<open>The abstract view of a message: whether it has no block, and its options.\<close>

definition dm_abs :: "dhcp_msg \<Rightarrow> bool \<times> (nat \<Rightarrow> u8 list option)" where
  "dm_abs msg = (dm_null msg, \<lambda>c. if c < DHCP_N_OPTIONS then dhcp_opt msg c else None)"

lemma dhcp_opt_le: "opt_ok (dm_options msg ! c) (dm_data msg) \<Longrightarrow> dhcp_opt msg c = opt_read (dm_options msg ! c) (dm_data msg)"
  by (auto simp: dhcp_opt_def opt_read_def opt_ok_def split: option.splits)

lemma opt_copied_ok: "opt_copied old opt data opt' \<Longrightarrow> opt_ok opt old \<Longrightarrow> opt_ok opt' data \<and> opt_read opt' data = opt_read opt old \<and> (do_data opt' = None \<longleftrightarrow> do_data opt = None)"
  by (auto simp: opt_copied_def opt_ok_def opt_read_def split: option.splits)

lemma copy_data_result:
  assumes "dhcp_inv msg" "length (dm_data msg) \<le> n"
  shows "\<exists>msg'. copy_data (dm_data msg) (msg\<lparr>dm_allocated := n, dm_null := False\<rparr>) = Some msg' \<and> dhcp_inv msg' \<and> dm_head msg' = dm_head msg
    \<and> dm_abs msg' = (False, snd (dm_abs msg)) \<and> dm_allocated msg' = n \<and> length (dm_data msg') \<le> length (dm_data msg)
    \<and> (\<forall>c<DHCP_N_OPTIONS. do_n (dm_options msg' ! c) = do_n (dm_options msg ! c))"
proof -
  let ?m = "msg\<lparr>dm_allocated := n, dm_null := False, dm_data := []\<rparr>"
  have i: "length (dm_options msg) = DHCP_N_OPTIONS" "\<forall>c<DHCP_N_OPTIONS. opt_ok (dm_options msg ! c) (dm_data msg)"
    "total_n (dm_options msg) all_codes \<le> length (dm_data msg)" "do_data (dm_options msg ! DHCP_CODE_PAD) = None" "do_data (dm_options msg ! DHCP_CODE_END) = None"
    using assms(1) by (simp_all add: dhcp_inv_def)
  obtain msg' where c: "copy_options (dm_data msg) all_codes ?m = Some msg'" "copied (dm_data msg) all_codes ?m msg'"
    using copy_options_result [of all_codes ?m "dm_data msg"] i assms(2) by auto
  have l: "length (dm_options msg') = DHCP_N_OPTIONS" "length (dm_data msg') = total_n (dm_options msg) all_codes" "dm_allocated msg' = n" "\<not> dm_null msg'"
    "dm_head msg' = dm_head msg" using c(2) i(1) by (auto simp: copied_def) (simp add: dm_head_def)
  have o: "opt_copied (dm_data msg) (dm_options msg ! d) (dm_data msg') (dm_options msg' ! d)" if "d < DHCP_N_OPTIONS" for d
    using c(2) that by (auto simp: copied_def dest: spec [of _ d])
  note ok = opt_copied_ok [OF o]
  have n: "do_n (dm_options msg' ! d) = do_n (dm_options msg ! d)" if "d < DHCP_N_OPTIONS" for d using o [OF that] by (simp add: opt_copied_def)
  then have "total_n (dm_options msg') all_codes = total_n (dm_options msg) all_codes"
    unfolding total_n_def by (intro arg_cong [of _ _ sum_list] map_cong) simp_all
  then have inv: "dhcp_inv msg'" using l i assms(2) ok by (auto simp: dhcp_inv_def)
  have "dhcp_opt msg' d = dhcp_opt msg d" if "d < DHCP_N_OPTIONS" for d
    using ok [OF that] i(2) that by (simp add: dhcp_opt_le)
  then have "dm_abs msg' = (False, snd (dm_abs msg))" using l(4) by (auto simp: dm_abs_def)
  then show ?thesis using c(1) inv l i(3) n by (intro exI [of _ msg']) (simp add: copy_data_def)
qed

lemma prealloc_result:
  assumes "dhcp_inv msg"
  shows "\<exists>msg'. prealloc_data n msg = Some msg' \<and> dhcp_inv msg' \<and> dm_head msg' = dm_head msg \<and> snd (dm_abs msg') = snd (dm_abs msg)
    \<and> dm_null msg' = (dm_null msg \<and> n = 0) \<and> length (dm_data msg') + n \<le> dm_allocated msg'
    \<and> (\<forall>c<DHCP_N_OPTIONS. do_n (dm_options msg' ! c) = do_n (dm_options msg ! c))"
proof (cases "reallocates n msg")
  case False
  then show ?thesis using assms by (auto simp: prealloc_data_def reallocates_def dhcp_inv_def)
next
  case True
  let ?n = "max ((length (dm_data msg) + n) * 2) 64"
  show ?thesis
  proof (cases "dm_null msg")
    case n: True
    then have "dm_data msg = []" "n \<noteq> 0" using assms True by (auto simp: dhcp_inv_def reallocates_def)
    then show ?thesis using True n assms by (auto simp: prealloc_data_def dhcp_inv_def dm_abs_def dhcp_opt_def dm_head_def)
  next
    case n: False
    have le: "length (dm_data msg) \<le> ?n" by simp
    obtain msg' where "copy_data (dm_data msg) (msg\<lparr>dm_allocated := ?n, dm_null := False\<rparr>) = Some msg'" "dhcp_inv msg'" "dm_head msg' = dm_head msg"
      "dm_abs msg' = (False, snd (dm_abs msg))" "dm_allocated msg' = ?n" "length (dm_data msg') \<le> length (dm_data msg)"
      "\<forall>c<DHCP_N_OPTIONS. do_n (dm_options msg' ! c) = do_n (dm_options msg ! c)"
      using copy_data_result [OF assms, of ?n] le by blast
    then show ?thesis using True n by (simp add: prealloc_data_def Let_def) (simp add: dm_abs_def)
  qed
qed

text \<open>Appending to an option, seen from outside: nothing happens to the options 0 and 255, nor when there is neither a block nor data.\<close>

definition aput :: "nat \<Rightarrow> u8 list \<Rightarrow> bool \<times> (nat \<Rightarrow> u8 list option) \<Rightarrow> bool \<times> (nat \<Rightarrow> u8 list option)" where
  "aput code data s =
     (if code = DHCP_CODE_PAD \<or> code = DHCP_CODE_END \<or> fst s \<and> data = [] then s
      else (False, (snd s)(code := Some ((case snd s code of None \<Rightarrow> [] | Some old \<Rightarrow> old) @ data))))"

lemma total_n_ge: "c \<in> set codes \<Longrightarrow> do_n (opts ! c) \<le> total_n opts codes"
  by (simp add: total_n_def member_le_sum_list)

lemma append_inv:
  assumes inv: "dhcp_inv msg" and c: "code < DHCP_N_OPTIONS" "code \<noteq> DHCP_CODE_PAD" "code \<noteq> DHCP_CODE_END"
    and room: "length (dm_data msg) + length data \<le> dm_allocated msg" and nn: "\<not> dm_null msg"
    and p: "p + n \<le> length (dm_data msg) + length data" "n \<le> do_n (dm_options msg ! code) + length data"
  shows "dhcp_inv (set_option code \<lparr>do_n = n, do_data = Some p\<rparr> (msg\<lparr>dm_data := dm_data msg @ data\<rparr>))"
proof -
  let ?m = "set_option code \<lparr>do_n = n, do_data = Some p\<rparr> (msg\<lparr>dm_data := dm_data msg @ data\<rparr>)"
  have i: "length (dm_options msg) = DHCP_N_OPTIONS" "\<forall>c<DHCP_N_OPTIONS. opt_ok (dm_options msg ! c) (dm_data msg)"
    "total_n (dm_options msg) all_codes \<le> length (dm_data msg)" "do_data (dm_options msg ! DHCP_CODE_PAD) = None" "do_data (dm_options msg ! DHCP_CODE_END) = None"
    using inv by (simp_all add: dhcp_inv_def)
  have o: "opt_ok (dm_options ?m ! d) (dm_data ?m)" if "d < DHCP_N_OPTIONS" for d
    using i(1,2) c(1) that p(1) opt_ok_append by (cases "d = code") (simp_all add: opt_ok_def [of "\<lparr>do_n = n, do_data = Some p\<rparr>"])
  have "total_n (dm_options ?m) all_codes + do_n (dm_options msg ! code) = total_n (dm_options msg) all_codes + n"
    using total_update [of all_codes code "dm_options msg" "\<lparr>do_n = n, do_data = Some p\<rparr>"] i(1) c(1) by simp
  then have "total_n (dm_options ?m) all_codes \<le> length (dm_data ?m)" using i(3) p(2) by simp
  then show ?thesis using i o room nn c by (auto simp: dhcp_inv_def)
qed

lemma append_opts:
  assumes inv: "dhcp_inv msg" and c: "code < DHCP_N_OPTIONS" and nn: "\<not> dm_null msg"
    and b: "take n (drop p (dm_data msg @ data)) = bs"
  shows "snd (dm_abs (set_option code \<lparr>do_n = n, do_data = Some p\<rparr> (msg\<lparr>dm_data := dm_data msg @ data\<rparr>))) = (snd (dm_abs msg))(code := Some bs)"
proof
  fix d
  have i: "length (dm_options msg) = DHCP_N_OPTIONS" "\<forall>c<DHCP_N_OPTIONS. opt_ok (dm_options msg ! c) (dm_data msg)" using inv by (simp_all add: dhcp_inv_def)
  show "snd (dm_abs (set_option code \<lparr>do_n = n, do_data = Some p\<rparr> (msg\<lparr>dm_data := dm_data msg @ data\<rparr>))) d = ((snd (dm_abs msg))(code := Some bs)) d"
  proof (cases "d = code \<or> d \<ge> DHCP_N_OPTIONS")
    case True
    then show ?thesis using c i(1) b by (auto simp: dm_abs_def dhcp_opt_def)
  next
    case False
    then have "opt_ok (dm_options msg ! d) (dm_data msg)" using i(2) by simp
    then show ?thesis using False by (auto simp: dm_abs_def dhcp_opt_def opt_ok_def split: option.splits)
  qed
qed

text \<open>
  Appending to an option of a message: the block may move, options may be copied behind the others, and in the end exactly the content of that
  option has grown. No assertion fails, no byte is read or written outside the block.
\<close>

lemma dhcp_msg_put_result:
  assumes inv: "dhcp_inv msg" and c: "code < DHCP_N_OPTIONS"
  shows "\<exists>msg'. dhcp_msg_put code data msg = Some msg' \<and> dhcp_inv msg' \<and> dm_abs msg' = aput code data (dm_abs msg) \<and> dm_head msg' = dm_head msg"
proof (cases "code = DHCP_CODE_PAD \<or> code = DHCP_CODE_END")
  case True
  then show ?thesis using inv by (auto simp: dhcp_msg_put_def aput_def)
next
  case False
  let ?n0 = "do_n (dm_options msg ! code)"
  obtain m where m: "prealloc_data (length data + ?n0) msg = Some m" "dhcp_inv m" "dm_head m = dm_head msg" "snd (dm_abs m) = snd (dm_abs msg)"
    "dm_null m = (dm_null msg \<and> length data + ?n0 = 0)" "length (dm_data m) + (length data + ?n0) \<le> dm_allocated m"
    "do_n (dm_options m ! code) = ?n0"
    using prealloc_result [OF inv, of "length data + ?n0"] c by auto
  let ?opt = "dm_options m ! code"
  have ok: "opt_ok ?opt (dm_data m)" "opt_ok (dm_options msg ! code) (dm_data msg)" "do_n ?opt \<le> length (dm_data m)" "code < length (dm_options m)"
    using m(2) inv c total_n_ge [of code all_codes "dm_options m"] by (auto simp: dhcp_inv_def)
  have abs: "dhcp_opt m code = snd (dm_abs msg) code" using m(4) [THEN fun_cong, of code] c by (simp add: dm_abs_def)
  have f: "fst (dm_abs msg) = dm_null msg" by (simp add: dm_abs_def)
  have head: "dm_head (set_option code x (m\<lparr>dm_data := y\<rparr>)) = dm_head msg" for x y using m(3) by (simp add: dm_head_def set_option_def)
  have put: "dhcp_msg_put code data msg = do {
        let opt = ?opt;
        if do_n opt \<noteq> 0 then do {
          (p, msg) \<leftarrow> (if do_data opt = Some (length (dm_data m) - do_n opt) then Some (do_data opt, m)
                       else do { old \<leftarrow> opt_read opt (dm_data m); append_data old m });
          (q, msg) \<leftarrow> append_data data msg;
          Some (set_option code \<lparr>do_n = do_n opt + length data, do_data = p\<rparr> msg) }
        else do {
          (p, msg) \<leftarrow> append_data data m;
          Some (set_option code \<lparr>do_n = do_n opt + length data, do_data = p\<rparr> msg) } }"
    using False m(1) by (simp add: dhcp_msg_put_def)
  show ?thesis
  proof (cases "dm_null m")
    case True
    then have e: "dm_null msg" "data = []" "?n0 = 0" "do_data ?opt = None" using m(2,5) c by (auto simp: dhcp_inv_def)
    have "(dm_options m)[code := \<lparr>do_n = do_n ?opt, do_data = None\<rparr>] = dm_options m" using e(4) ok(4) by (intro list_update_same_conv [THEN iffD2]) simp_all
    then have "dhcp_msg_put code data msg = Some m" unfolding put using e m(6,7) True by (simp add: append_data_def set_option_def)
    moreover have "dm_abs m = aput code data (dm_abs msg)" using e m(4) True f by (simp add: aput_def prod_eq_iff) (simp add: dm_abs_def)
    ultimately show ?thesis using m(2,3) by simp
  next
    case nn: False
    have na: "\<not> (fst (dm_abs msg) \<and> data = [])" using nn m(5) inv c by (auto simp: f dhcp_inv_def opt_ok_def split: option.splits)
    let ?old = "case snd (dm_abs msg) code of None \<Rightarrow> [] | Some old \<Rightarrow> old"
    have goal: "dm_abs m' = aput code data (dm_abs msg)" if "snd (dm_abs m') = (snd (dm_abs m))(code := Some (?old @ data))" "\<not> dm_null m'" for m'
      using that False na m(4) by (simp add: aput_def prod_eq_iff) (simp add: dm_abs_def)
    have fin: ?thesis if "dhcp_msg_put code data msg = Some (set_option code \<lparr>do_n = k, do_data = Some p\<rparr> (m\<lparr>dm_data := dm_data m @ ys\<rparr>))"
        "length ys \<le> length data + ?n0" "p + k \<le> length (dm_data m) + length ys" "k \<le> ?n0 + length ys"
        "take k (drop p (dm_data m @ ys)) = ?old @ data" for k p ys
    proof -
      let ?m' = "set_option code \<lparr>do_n = k, do_data = Some p\<rparr> (m\<lparr>dm_data := dm_data m @ ys\<rparr>)"
      have "dhcp_inv ?m'" using append_inv [OF m(2) c _ _ _ nn that(3)] that(2,4) m(6,7) False by simp
      moreover have "dm_abs ?m' = aput code data (dm_abs msg)" using append_opts [OF m(2) c nn that(5)] nn by (intro goal) simp_all
      ultimately show ?thesis using that(1) head by blast
    qed
    show ?thesis
    proof (cases "?n0 = 0")
      case True
      have "?old = []" unfolding abs [symmetric] using True m(7) by (simp add: dhcp_opt_def split: option.splits)
      moreover have "dhcp_msg_put code data msg = Some (set_option code \<lparr>do_n = length data, do_data = Some (length (dm_data m))\<rparr> (m\<lparr>dm_data := dm_data m @ data\<rparr>))"
        unfolding put using True m(6,7) nn by (simp add: append_data_def)
      ultimately show ?thesis by (intro fin [of "length data" "length (dm_data m)" data]) simp_all
    next
      case n0: False
      then obtain p where p: "do_data ?opt = Some p" "p + ?n0 \<le> length (dm_data m)" using ok(1) m(7) by (auto simp: opt_ok_def split: option.splits)
      let ?x = "take ?n0 (drop p (dm_data m))"
      have x: "?old = ?x" "length ?x = ?n0" unfolding abs [symmetric] using p m(7) by (simp_all add: dhcp_opt_def)
      show ?thesis
      proof (cases "p = length (dm_data m) - ?n0")
        case True
        then have "dhcp_msg_put code data msg = Some (set_option code \<lparr>do_n = ?n0 + length data, do_data = Some p\<rparr> (m\<lparr>dm_data := dm_data m @ data\<rparr>))"
          unfolding put using n0 m(6,7) nn p by (simp add: append_data_def)
        then show ?thesis using x p True by (intro fin [of "?n0 + length data" p data]) simp_all
      next
        case last: False
        then have "dhcp_msg_put code data msg = Some (set_option code \<lparr>do_n = ?n0 + length data, do_data = Some (length (dm_data m))\<rparr> (m\<lparr>dm_data := dm_data m @ (?x @ data)\<rparr>))"
          unfolding put using n0 m(6,7) nn p x(2) by (simp add: append_data_def opt_read_def)
        then show ?thesis using x by (intro fin [of "?n0 + length data" "length (dm_data m)" "?x @ data"]) simp_all
      qed
    qed
  qed
qed


section \<open>Parsing, seen from outside\<close>

function aparse :: "nat \<Rightarrow> u8 list \<Rightarrow> bool \<times> (nat \<Rightarrow> u8 list option) \<Rightarrow> bool \<times> (nat \<Rightarrow> u8 list option)" where
  "aparse ofs bs s =
     (case bs of
        [] \<Rightarrow> s
      | code # bs \<Rightarrow>
          if unat code = DHCP_CODE_END then s
          else if unat code = DHCP_CODE_PAD then aparse ofs bs s
          else
            (case bs of
               [] \<Rightarrow> s
             | len # bs \<Rightarrow>
                 if unat len > length bs then s
                 else aparse ofs (drop (unat len) bs) (aput (unat code + ofs) (take (unat len) bs) s)))"
  by pat_completeness auto
termination by (relation "measure (\<lambda>(_, bs, _). length bs)") auto

declare aparse.simps [simp del]

lemma parse_options_result:
  assumes "dhcp_inv msg" "ofs \<le> DHCP_VENDOR_OFS"
  shows "\<exists>msg'. parse_options False ofs bs msg = Some msg' \<and> dhcp_inv msg' \<and> dm_abs msg' = aparse ofs bs (dm_abs msg) \<and> dm_head msg' = dm_head msg"
  using assms(1)
proof (induction "length bs" arbitrary: bs msg rule: less_induct)
  case less
  show ?case
  proof (cases bs)
    case Nil
    then show ?thesis using less.prems by (simp add: parse_options.simps aparse.simps)
  next
    case (Cons code bs1)
    show ?thesis
    proof (cases "unat code = DHCP_CODE_END \<or> unat code = DHCP_CODE_PAD")
      case True
      then show ?thesis using less.hyps [of bs1 msg] less.prems Cons
        by (auto simp: parse_options.simps [of False ofs "code # xs" for xs] aparse.simps [of ofs "code # xs" for xs])
    next
      case c: False
      show ?thesis
      proof (cases bs1)
        case Nil
        then show ?thesis using less.prems Cons c by (simp add: parse_options.simps [of False ofs "code # xs" for xs] aparse.simps [of ofs "code # xs" for xs])
      next
        case (Cons len bs2)
        show ?thesis
        proof (cases "unat len > length bs2")
          case True
          then show ?thesis using less.prems Cons \<open>bs = code # bs1\<close> c by (simp add: parse_options.simps [of False ofs "code # xs" for xs] aparse.simps [of ofs "code # xs" for xs])
        next
          case False
          have "unat code + ofs < DHCP_N_OPTIONS" using unat_u8_bound [of code] assms(2) c by linarith
          from dhcp_msg_put_result [OF less.prems this, of "take (unat len) bs2"] obtain m where
            m: "dhcp_msg_put (unat code + ofs) (take (unat len) bs2) msg = Some m" "dhcp_inv m"
              "dm_abs m = aput (unat code + ofs) (take (unat len) bs2) (dm_abs msg)" "dm_head m = dm_head msg" by blast
          then show ?thesis using less.hyps [of "drop (unat len) bs2" m] Cons \<open>bs = code # bs1\<close> c False
            by (simp add: parse_options.simps [of False ofs "code # xs" for xs] aparse.simps [of ofs "code # xs" for xs] Let_def)
        qed
      qed
    qed
  qed
qed

text \<open>A chunk that was put is parsed, and padding has no effect.\<close>

lemma aparse_chunk:
  assumes "length data < 256" "code \<noteq> 0" "code \<noteq> 255"
  shows "aparse ofs (code # of_nat (length data) # data @ rest) s = aparse ofs rest (aput (unat code + ofs) data s)"
proof -
  have "unat code \<noteq> DHCP_CODE_END" "unat code \<noteq> DHCP_CODE_PAD" using assms(2,3) word_unat_eq_iff [of code 255] by (simp_all add: unat_eq_0)
  moreover have "unat (of_nat (length data) :: u8) = length data" using assms(1) by (simp add: unsigned_of_nat take_bit_nat_eq_self)
  ultimately show ?thesis by (subst aparse.simps) simp
qed

lemma aparse_pad: "aparse ofs (replicate n 0) s = s"
  by (induction n) (simp_all add: aparse.simps [of ofs "[]"] aparse.simps [of ofs "0 # xs" for xs])

lemma aparse_end: "aparse ofs (255 # rest) s = s"
  by (simp add: aparse.simps)

lemma aput_aput: "data \<noteq> [] \<Longrightarrow> aput code data' (aput code data s) = aput code (data @ data') s"
  by (auto simp: aput_def split: option.splits)


section \<open>Assembling, seen from outside\<close>

function chunks :: "u8 \<Rightarrow> u8 list \<Rightarrow> u8 list" where
  "chunks code data =
     (if data = [] then []
      else (let chunk = if length data > 255 then 248 else length data
            in code # of_nat chunk # take chunk data @ chunks code (drop chunk data)))"
  by pat_completeness auto
termination by (relation "measure (\<lambda>(_, data). length data)") auto

declare chunks.simps [simp del]

definition opt_bytes :: "u8 \<Rightarrow> u8 list option \<Rightarrow> u8 list" where
  "opt_bytes code data = (case data of None \<Rightarrow> [] | Some data \<Rightarrow> if data \<noteq> [] then chunks code data else [code, 0])"

definition grown :: "ofpbuf option \<Rightarrow> ofpbuf \<Rightarrow> u8 list \<Rightarrow> bool" where
  "grown r b bs \<longleftrightarrow> (\<exists>b'. r = Some b' \<and> ofpbuf_wf b' \<and> contents b' = contents b @ bs \<and> ob_data b' = ob_data b)"

lemma put_data: "ob_data (snd (ofpbuf_put m b p)) = ob_data b"
  by (simp add: ofpbuf_put_def ofpbuf_put_uninit_def ofpbuf_prealloc_tailroom_def Let_def)

lemma put_grown: "ofpbuf_wf b \<Longrightarrow> grown (Some (snd (ofpbuf_put m b p))) b p"
  by (simp add: grown_def put_contents put_data)

lemma put_chunk_grown: "ofpbuf_wf b \<Longrightarrow> length data < 256 \<Longrightarrow> grown (put_option_chunk m code data b) b (code # of_nat (length data) # data)"
  using put_contents [of b m "[code, of_nat (length data)]"] by (simp add: put_option_chunk_def grown_def put_contents put_data)

lemma put_chunks_grown: "ofpbuf_wf b \<Longrightarrow> grown (put_chunks m code data b) b (chunks code data)"
proof (induction "length data" arbitrary: data b rule: less_induct)
  case less
  show ?case
  proof (cases "data = []")
    case True
    then show ?thesis using less.prems by (simp add: put_chunks.simps chunks.simps grown_def)
  next
    case False
    define k where "k = (if length data > 255 then 248 else length data)"
    have k: "k < 256" "0 < k" "k \<le> length data" using False by (auto simp: k_def)
    obtain b1 where b1: "put_option_chunk m code (take k data) b = Some b1" "ofpbuf_wf b1" "contents b1 = contents b @ code # of_nat k # take k data" "ob_data b1 = ob_data b"
      using put_chunk_grown [OF less.prems, of "take k data" m code] k by (auto simp: grown_def min_absorb2)
    have "grown (put_chunks m code (drop k data) b1) b1 (chunks code (drop k data))" using less.hyps [of "drop k data" b1] k b1(2) by simp
    moreover have "put_chunks m code data b = put_chunks m code (drop k data) b1"
      using False b1(1) by (subst put_chunks.simps) (simp add: k_def [symmetric] Let_def)
    moreover have "chunks code data = code # of_nat k # take k data @ chunks code (drop k data)"
      using False by (subst chunks.simps) (simp add: k_def [symmetric] Let_def)
    ultimately show ?thesis using b1(3,4) by (simp add: grown_def)
  qed
qed

lemma put_option_grown: "ofpbuf_wf b \<Longrightarrow> grown (put_option m code data b) b (opt_bytes code data)"
  using put_chunks_grown [of b m code] put_chunk_grown [of b "[]" m code]
  by (auto simp: put_option_def opt_bytes_def grown_def split: option.split)

lemma put_all_grown: "ofpbuf_wf b \<Longrightarrow> grown (put_all m opts ofs is b) b (concat (map (\<lambda>i. opt_bytes (of_nat (i - ofs)) (opts i)) is))"
proof (induction "is" arbitrary: b)
  case (Cons i "is")
  obtain b1 where "put_option m (of_nat (i - ofs)) (opts i) b = Some b1" "ofpbuf_wf b1" "contents b1 = contents b @ opt_bytes (of_nat (i - ofs)) (opts i)" "ob_data b1 = ob_data b"
    using put_option_grown [OF Cons.prems, of m "of_nat (i - ofs)" "opts i"] by (auto simp: grown_def)
  then show ?case using Cons.IH [of b1] by (simp add: grown_def)
qed (simp add: grown_def)

lemma aparse_chunks:
  "data \<noteq> [] \<Longrightarrow> code \<noteq> 0 \<Longrightarrow> code \<noteq> 255 \<Longrightarrow> aparse ofs (chunks code data @ rest) s = aparse ofs rest (aput (unat code + ofs) data s)"
proof (induction "length data" arbitrary: data s rule: less_induct)
  case less
  define k where "k = (if length data > 255 then 248 else length data)"
  have k: "k < 256" "0 < k" "k \<le> length data" using less.prems by (auto simp: k_def)
  have "chunks code data = code # of_nat k # take k data @ chunks code (drop k data)"
    using less.prems by (subst chunks.simps) (simp add: k_def [symmetric] Let_def)
  then have a: "aparse ofs (chunks code data @ rest) s = aparse ofs (chunks code (drop k data) @ rest) (aput (unat code + ofs) (take k data) s)"
    using aparse_chunk [of "take k data" code ofs "chunks code (drop k data) @ rest" s] k less.prems by (simp add: min_absorb2)
  show ?case
  proof (cases "drop k data = []")
    case True
    then show ?thesis using a by (simp add: chunks.simps)
  next
    case False
    have "take k data \<noteq> []" using k by auto
    then show ?thesis using a less.hyps [of "drop k data"] False k less.prems by (simp add: aput_aput)
  qed
qed

lemma aparse_option:
  assumes "code < 256" "code \<noteq> 0" "code \<noteq> 255"
  shows "aparse ofs (opt_bytes (of_nat code) (Some data) @ rest) s = aparse ofs rest (aput (code + ofs) data s)"
proof -
  have u: "unat (of_nat code :: u8) = code" using assms(1) by (simp add: unsigned_of_nat take_bit_nat_eq_self)
  then have c: "(of_nat code :: u8) \<noteq> 0" "(of_nat code :: u8) \<noteq> 255" using assms(2,3) by auto
  show ?thesis using aparse_chunks [of data "of_nat code" ofs rest s] aparse_chunk [of "[]" "of_nat code" ofs rest s] c u
    by (cases "data = []") (simp_all add: opt_bytes_def)
qed

lemma aparse_all:
  assumes "distinct codes" "\<forall>c\<in>set codes. c < 256 \<and> snd s c = None" "\<not> fst s" "opts 0 = None" "opts 255 = None"
  shows "aparse 0 (concat (map (\<lambda>i. opt_bytes (of_nat i) (opts i)) codes) @ rest) s
    = aparse 0 rest (False, \<lambda>c. if c \<in> set codes \<and> opts c \<noteq> None then opts c else snd s c)"
  using assms(1-3)
proof (induction codes arbitrary: s)
  case Nil
  then show ?case by (cases s) simp
next
  case (Cons c cs)
  show ?case
  proof (cases "opts c")
    case None
    then show ?thesis using Cons by (auto simp: opt_bytes_def intro!: arg_cong [of _ _ "aparse 0 rest"])
  next
    case (Some data)
    have c: "c < 256" using Cons.prems(2) by simp
    have c: "c < 256" "c \<noteq> 0" "c \<noteq> 255" using c Some assms(4,5) by (auto intro: ccontr)
    let ?s = "aput c data s"
    have s: "?s = (False, (snd s)(c := Some data))" using Cons.prems c by (simp add: aput_def)
    have "aparse 0 (concat (map (\<lambda>i. opt_bytes (of_nat i) (opts i)) (c # cs)) @ rest) s
      = aparse 0 (concat (map (\<lambda>i. opt_bytes (of_nat i) (opts i)) cs) @ rest) ?s"
      using aparse_option [OF c, of 0 data] Some by simp
    also have "\<dots> = aparse 0 rest (False, \<lambda>d. if d \<in> set cs \<and> opts d \<noteq> None then opts d else snd ?s d)"
      by (rule Cons.IH) (use Cons.prems s in auto)
    also have "(\<lambda>d. if d \<in> set cs \<and> opts d \<noteq> None then opts d else snd ?s d) = (\<lambda>d. if d \<in> set (c # cs) \<and> opts d \<noteq> None then opts d else snd s d)"
      using Some s by auto
    finally show ?thesis .
  qed
qed


section \<open>What is assembled is parsed\<close>

definition option_ok :: "nat \<Rightarrow> u8 list \<Rightarrow> bool" where
  "option_ok code data \<longleftrightarrow> (case get_option_class code of (type, min_args, max_args) \<Rightarrow>
     arg_size type \<noteq> 0 \<and> length data mod arg_size type = 0 \<and> min_args \<le> length data div arg_size type
     \<and> (case max_args of None \<Rightarrow> True | Some m \<Rightarrow> length data div arg_size type \<le> m))"

lemma dhcp_opt_length: "dhcp_inv msg \<Longrightarrow> c < DHCP_N_OPTIONS \<Longrightarrow> dhcp_opt msg c = Some data \<Longrightarrow> length data = do_n (dm_options msg ! c)"
  by (auto simp: dhcp_inv_def dhcp_opt_def opt_ok_def split: option.splits)

lemma dhcp_msg_get_opt:
  assumes "dhcp_inv msg" "c < DHCP_N_OPTIONS" "0 < n"
  shows "dhcp_msg_get c offset n msg = (case dhcp_opt msg c of None \<Rightarrow> None
    | Some data \<Rightarrow> if offset + n \<le> length data then Some (take n (drop offset data)) else None)"
proof (cases "do_data (dm_options msg ! c)")
  case None
  then show ?thesis using assms by (simp add: dhcp_msg_get_def dhcp_opt_def Let_def)
next
  case (Some p)
  then have "opt_ok (dm_options msg ! c) (dm_data msg)" using assms(1,2) by (simp add: dhcp_inv_def)
  then have "p + do_n (dm_options msg ! c) \<le> length (dm_data msg)" using Some by (simp add: opt_ok_def)
  then show ?thesis using Some by (simp add: dhcp_msg_get_def dhcp_opt_def min_absorb2 drop_take add.commute Let_def)
qed

lemma validate_all:
  assumes "dhcp_inv msg" "\<forall>c\<in>set codes. c < DHCP_N_OPTIONS \<and> (\<forall>data. dhcp_opt msg c = Some data \<longrightarrow> option_ok c data)"
  shows "validate_codes codes msg = Some msg"
  using assms(2)
proof (induction codes)
  case (Cons c cs)
  have "validate_option c msg = Some msg"
  proof (cases "do_data (dm_options msg ! c)")
    case None
    then show ?thesis by (simp add: validate_option_def case_prod_beta Let_def)
  next
    case (Some p)
    then obtain data where d: "dhcp_opt msg c = Some data" by (simp add: dhcp_opt_def)
    then have "option_ok c data" "length data = do_n (dm_options msg ! c)" using Cons.prems dhcp_opt_length [OF assms(1) _ d] by auto
    then show ?thesis by (auto simp: validate_option_def option_ok_def Let_def split: option.splits prod.splits)
  qed
  then show ?case using Cons by simp
qed simp

lemma ldn_plus: "i = length xs \<Longrightarrow> n \<le> length ys \<Longrightarrow> ldn (xs @ ys) i n = take n ys"
  by (auto simp: ldn_def ld8_def intro!: nth_equalityI)

lemma init_inv: "dhcp_inv dhcp_msg_init" "dm_abs dhcp_msg_init = (True, \<lambda>_. None)"
proof -
  have "total_n (replicate 512 \<lparr>do_n = 0, do_data = None\<rparr>) all_codes = 0"
    by (simp add: total_n_def sum_list_eq_0_iff)
  then show "dhcp_inv dhcp_msg_init" by (simp add: dhcp_inv_def dhcp_msg_init_def opt_ok_def)
  show "dm_abs dhcp_msg_init = (True, \<lambda>_. None)" by (auto simp: dm_abs_def dhcp_msg_init_def dhcp_opt_def)
qed

text \<open>The bytes that a message without vendor options is assembled to.\<close>

text \<open>The bytes of a message: the options of the vendor are encapsulated in option 43.\<close>

definition vendor_bytes :: "dhcp_msg \<Rightarrow> u8 list" where
  "vendor_bytes msg = concat (map (\<lambda>i. opt_bytes (of_nat (i - DHCP_VENDOR_OFS)) (dhcp_opt msg i)) [DHCP_VENDOR_OFS..<DHCP_N_OPTIONS])"

definition assembled_bytes :: "dhcp_msg \<Rightarrow> u8 list" where
  "assembled_bytes msg = dhcp_header_bytes msg @ le32 (htonl DHCP_OPTS_COOKIE) @ (if dm_type msg \<noteq> 0 then [53, 1, dm_type msg] else [])
     @ concat (map (\<lambda>i. opt_bytes (of_nat i) (dhcp_opt msg i)) [0..<DHCP_VENDOR_OFS])
     @ (if vendor_bytes msg \<noteq> [] then chunks 43 (vendor_bytes msg) else []) @ [255]"

lemma grown_if: "(P \<Longrightarrow> grown r b xs) \<Longrightarrow> ofpbuf_wf b \<Longrightarrow> grown (if P then r else Some b) b (if P then xs else [])"
  by (simp add: grown_def)

lemma grown_obtain:
  assumes "grown r b bs"
  obtains b' where "r = Some b'" "ofpbuf_wf b'" "contents b' = contents b @ bs" "ob_data b' = ob_data b"
  using assms by (auto simp: grown_def)

lemma assemble_grown:
  assumes "ofpbuf_wf b"
  shows "grown (dhcp_assemble m msg b) b (assembled_bytes msg)"
proof -
  define b1 where "b1 = snd (ofpbuf_put m b (dhcp_header_bytes msg))"
  define b2 where "b2 = snd (ofpbuf_put m b1 (le32 (htonl DHCP_OPTS_COOKIE)))"
  have b2: "ofpbuf_wf b2" "contents b2 = contents b @ dhcp_header_bytes msg @ le32 (htonl DHCP_OPTS_COOKIE)" "ob_data b2 = ob_data b"
    using put_contents [OF assms, of m] put_contents [of b1 m] by (simp_all add: b1_def b2_def put_data)
  have one: "opt_bytes (of_nat DHCP_CODE_DHCP_MSG_TYPE) (Some [dm_type msg]) = [53, 1, dm_type msg]" by (simp add: opt_bytes_def chunks.simps)
  obtain b3 where b3: "(if dm_type msg \<noteq> 0 then put_option m (of_nat DHCP_CODE_DHCP_MSG_TYPE) (Some [dm_type msg]) b2 else Some b2) = Some b3"
    "ofpbuf_wf b3" "contents b3 = contents b2 @ (if dm_type msg \<noteq> 0 then [53, 1, dm_type msg] else [])" "ob_data b3 = ob_data b2"
    by (rule grown_obtain [OF grown_if [OF put_option_grown [OF b2(1), of m "of_nat DHCP_CODE_DHCP_MSG_TYPE" "Some [dm_type msg]", unfolded one] b2(1)]])
  obtain b4 where b4: "put_all m (dhcp_opt msg) 0 [0..<DHCP_VENDOR_OFS] b3 = Some b4" "ofpbuf_wf b4"
    "contents b4 = contents b3 @ concat (map (\<lambda>i. opt_bytes (of_nat i) (dhcp_opt msg i)) [0..<DHCP_VENDOR_OFS])" "ob_data b4 = ob_data b3"
    using put_all_grown [OF b3(2), of m "dhcp_opt msg" 0 "[0..<DHCP_VENDOR_OFS]"] by (auto simp: grown_def)
  obtain v where v: "put_all m (dhcp_opt msg) DHCP_VENDOR_OFS [DHCP_VENDOR_OFS..<DHCP_N_OPTIONS] (ofpbuf_init m 0) = Some v" "ofpbuf_wf v"
    "contents v = vendor_bytes msg"
    using put_all_grown [OF init_wf(1) [of m 0], of m "dhcp_opt msg" DHCP_VENDOR_OFS "[DHCP_VENDOR_OFS..<DHCP_N_OPTIONS]"]
    by (auto simp: grown_def vendor_bytes_def init_wf(2))
  have vs: "ob_size v \<noteq> 0 \<longleftrightarrow> vendor_bytes msg \<noteq> []" by (metis length_contents [OF v(2)] v(3) length_0_conv)
  have ch: "put_option m (of_nat DHCP_CODE_VENDOR_SPECIFIC) (Some (vendor_bytes msg)) b4 = put_chunks m 43 (vendor_bytes msg) b4"
    if "vendor_bytes msg \<noteq> []" using that by (simp add: put_option_def)
  obtain b5 where b5: "(if vendor_bytes msg \<noteq> [] then put_chunks m 43 (vendor_bytes msg) b4 else Some b4) = Some b5"
    "ofpbuf_wf b5" "contents b5 = contents b4 @ (if vendor_bytes msg \<noteq> [] then chunks 43 (vendor_bytes msg) else [])" "ob_data b5 = ob_data b4"
    by (rule grown_obtain [OF grown_if [OF put_chunks_grown [OF b4(2), of m 43 "vendor_bytes msg"] b4(2)]])
  have o5: "(if ob_size v \<noteq> 0 then put_option m (of_nat DHCP_CODE_VENDOR_SPECIFIC) (Some (contents v)) b4 else Some b4) = Some b5"
    using vs v(3) b5(1) ch by (cases "vendor_bytes msg = []") simp_all
  have "dhcp_assemble m msg b = Some (snd (ofpbuf_put m b5 [of_nat DHCP_CODE_END]))"
    by (simp only: dhcp_assemble_def Let_def b1_def [symmetric] b2_def [symmetric] b3(1) b4(1) v(1) o5 bind.bind_lunit)
  then show ?thesis using b2 b3 b4 b5 put_contents [OF b5(2), of m "[255]"] by (simp add: grown_def assembled_bytes_def put_data)
qed

lemma assembled:
  assumes "ofpbuf_wf b" "dm_type msg \<noteq> 0" "\<forall>c. DHCP_VENDOR_OFS \<le> c \<and> c < DHCP_N_OPTIONS \<longrightarrow> dhcp_opt msg c = None"
  shows "\<exists>b'. dhcp_assemble m msg b = Some b' \<and> ofpbuf_wf b'
    \<and> contents b' = contents b @ dhcp_header_bytes msg @ le32 (htonl DHCP_OPTS_COOKIE) @ [53, 1, dm_type msg]
        @ concat (map (\<lambda>i. opt_bytes (of_nat i) (dhcp_opt msg i)) [0..<DHCP_VENDOR_OFS]) @ [255]"
proof -
  have "vendor_bytes msg = []" using assms(3) by (auto simp: vendor_bytes_def opt_bytes_def)
  then show ?thesis using assemble_grown [OF assms(1), of m msg] assms(2) by (auto simp: grown_def assembled_bytes_def)
qed

lemma length_dhcp_header [simp]: "length (dhcp_header_bytes msg) = 236"
  by (simp add: dhcp_header_bytes_def)

lemma header_read:
  "ld8 (dhcp_header_bytes msg @ ys) 0 = dm_op msg" "ld8 (dhcp_header_bytes msg @ ys) 1 = 1" "ld8 (dhcp_header_bytes msg @ ys) 2 = 6"
  "ld32 (dhcp_header_bytes msg @ ys) 4 = htonl (dm_xid msg)" "ld16 (dhcp_header_bytes msg @ ys) 8 = htons (dm_secs msg)"
  "ld16 (dhcp_header_bytes msg @ ys) 10 = htons (dm_flags msg)" "ld32 (dhcp_header_bytes msg @ ys) 12 = dm_ciaddr msg"
  "ld32 (dhcp_header_bytes msg @ ys) 16 = dm_yiaddr msg" "ld32 (dhcp_header_bytes msg @ ys) 20 = dm_siaddr msg"
  "ld32 (dhcp_header_bytes msg @ ys) 24 = dm_giaddr msg" "ld_eth (dhcp_header_bytes msg @ ys) 28 = dm_chaddr msg"
  "ldn (dhcp_header_bytes msg @ ys) 108 128 = replicate 128 0" "ldn (dhcp_header_bytes msg @ ys) 44 64 = replicate 64 0"
proof -
  let ?a = "[dm_op msg, 1, 6, 0] @ le32 (htonl (dm_xid msg)) @ le16 (htons (dm_secs msg)) @ le16 (htons (dm_flags msg))
     @ le32 (dm_ciaddr msg) @ le32 (dm_yiaddr msg) @ le32 (dm_siaddr msg) @ le32 (dm_giaddr msg)"
  have h: "dhcp_header_bytes msg @ ys = [dm_op msg, 1, 6, 0] @ le32 (htonl (dm_xid msg)) @ le16 (htons (dm_secs msg)) @ le16 (htons (dm_flags msg))
     @ le32 (dm_ciaddr msg) @ le32 (dm_yiaddr msg) @ le32 (dm_siaddr msg) @ le32 (dm_giaddr msg)
     @ eth_bytes (dm_chaddr msg) @ replicate 10 0 @ replicate 64 0 @ replicate 128 0 @ ys" by (simp add: dhcp_header_bytes_def)
  show "ld8 (dhcp_header_bytes msg @ ys) 0 = dm_op msg" "ld8 (dhcp_header_bytes msg @ ys) 1 = 1" "ld8 (dhcp_header_bytes msg @ ys) 2 = 6"
    by (simp_all add: dhcp_header_bytes_def ld8_def)
  show "ld32 (dhcp_header_bytes msg @ ys) 4 = htonl (dm_xid msg)" "ld16 (dhcp_header_bytes msg @ ys) 8 = htons (dm_secs msg)"
    "ld16 (dhcp_header_bytes msg @ ys) 10 = htons (dm_flags msg)" "ld32 (dhcp_header_bytes msg @ ys) 12 = dm_ciaddr msg"
    "ld32 (dhcp_header_bytes msg @ ys) 16 = dm_yiaddr msg" "ld32 (dhcp_header_bytes msg @ ys) 20 = dm_siaddr msg"
    "ld32 (dhcp_header_bytes msg @ ys) 24 = dm_giaddr msg"
    unfolding h by (simp_all add: ld_right ld_first del: append_Cons append_Nil)
  show "ld_eth (dhcp_header_bytes msg @ ys) 28 = dm_chaddr msg"
    using ld_eth_bytes [of 28 ?a "dm_chaddr msg" "replicate 10 0 @ replicate 64 0 @ replicate 128 0 @ ys"] by (simp add: h)
  show "ldn (dhcp_header_bytes msg @ ys) 44 64 = replicate 64 0"
    using ldn_plus [of 44 "?a @ eth_bytes (dm_chaddr msg) @ replicate 10 0" 64 "replicate 64 0 @ replicate 128 0 @ ys"] by (simp add: h)
  show "ldn (dhcp_header_bytes msg @ ys) 108 128 = replicate 128 0"
    using ldn_plus [of 108 "?a @ eth_bytes (dm_chaddr msg) @ replicate 10 0 @ replicate 64 0" 128 "replicate 128 0 @ ys"] by (simp add: h)
qed

lemma concat_map_filter: "\<forall>x\<in>set xs. \<not> P x \<longrightarrow> f x = [] \<Longrightarrow> concat (map f xs) = concat (map f (filter P xs))"
  by (induction xs) auto

lemma parse_pad: "parse_options own ofs (replicate n 0) msg = Some msg"
  by (induction n) (simp_all add: parse_options.simps [of own ofs "[]"] parse_options.simps [of own ofs "0 # xs" for xs])

lemma ld32_cookie: "ld32 (dhcp_header_bytes msg @ le32 w @ ys) 236 = w"
  by (simp add: ld_right ld_first)

text \<open>The options that the parser finds in an assembled message.\<close>

lemma aparse_assembled:
  assumes "dhcp_inv msg" "dhcp_opt msg DHCP_CODE_DHCP_MSG_TYPE = None" "\<forall>c. DHCP_VENDOR_OFS \<le> c \<and> c < DHCP_N_OPTIONS \<longrightarrow> dhcp_opt msg c = None"
  shows "aparse 0 ([53, 1, type] @ concat (map (\<lambda>i. opt_bytes (of_nat i) (dhcp_opt msg i)) [0..<DHCP_VENDOR_OFS]) @ [255]) (True, \<lambda>_. None)
    = (False, \<lambda>c. if c < DHCP_N_OPTIONS then if c = DHCP_CODE_DHCP_MSG_TYPE then Some [type] else dhcp_opt msg c else None)" (is "?l = ?r")
proof -
  let ?f = "\<lambda>i. opt_bytes (of_nat i) (dhcp_opt msg i)" let ?s = "(False, (\<lambda>_. None)(DHCP_CODE_DHCP_MSG_TYPE := Some [type]))"
  define codes where "codes = filter (\<lambda>i. i \<noteq> DHCP_CODE_DHCP_MSG_TYPE) [0..<DHCP_VENDOR_OFS]"
  have codes: "distinct codes" "set codes = {c. c < DHCP_VENDOR_OFS \<and> c \<noteq> DHCP_CODE_DHCP_MSG_TYPE}" by (auto simp: codes_def)
  have pad: "dhcp_opt msg 0 = None" "dhcp_opt msg 255 = None" using assms(1) by (simp_all add: dhcp_inv_def dhcp_opt_def)
  have cc: "concat (map ?f [0..<DHCP_VENDOR_OFS]) = concat (map ?f codes)"
    unfolding codes_def by (rule concat_map_filter) (use assms(2) in \<open>simp add: opt_bytes_def\<close>)
  have "?l = aparse 0 (concat (map ?f [0..<DHCP_VENDOR_OFS]) @ [255]) ?s"
    using aparse_chunk [of "[type]" 53 0 "concat (map ?f [0..<DHCP_VENDOR_OFS]) @ [255]"] by (simp add: aput_def)
  also have "\<dots> = aparse 0 (concat (map ?f codes) @ [255]) ?s" unfolding cc ..
  also have "aparse 0 (concat (map ?f codes) @ [255]) ?s
      = aparse 0 [255] (False, \<lambda>c. if c \<in> set codes \<and> dhcp_opt msg c \<noteq> None then dhcp_opt msg c else snd ?s c)"
    by (rule aparse_all) (use codes pad in auto)
  also have "\<dots> = (False, \<lambda>c. if c \<in> set codes \<and> dhcp_opt msg c \<noteq> None then dhcp_opt msg c else snd ?s c)" by (rule aparse_end)
  also have "(\<lambda>c. if c \<in> set codes \<and> dhcp_opt msg c \<noteq> None then dhcp_opt msg c else snd ?s c)
      = (\<lambda>c. if c < DHCP_N_OPTIONS then if c = DHCP_CODE_DHCP_MSG_TYPE then Some [type] else dhcp_opt msg c else None)"
    using assms(3) by (auto simp: codes(2) not_less)
  finally show ?thesis .
qed

lemma assemble_parse:
  assumes msg: "dhcp_inv msg" "dm_op msg = DHCP_BOOTREQUEST \<or> dm_op msg = DHCP_BOOTREPLY" "dm_type msg \<noteq> 0"
    and opts: "dhcp_opt msg DHCP_CODE_DHCP_MSG_TYPE = None" "\<forall>c<DHCP_VENDOR_OFS. \<forall>data. dhcp_opt msg c = Some data \<longrightarrow> option_ok c data"
      "\<forall>c. DHCP_VENDOR_OFS \<le> c \<and> c < DHCP_N_OPTIONS \<longrightarrow> dhcp_opt msg c = None" "dhcp_opt msg DHCP_CODE_VENDOR_SPECIFIC = None"
    and b: "ofpbuf_wf b" "ob_size b = 0"
  shows "\<exists>b' msg'. dhcp_assemble m msg b = Some b' \<and> ofpbuf_wf b' \<and> dhcp_parse 4 (contents b') = Some (Inr msg') \<and> dhcp_inv msg'
    \<and> dm_head msg' = dm_head msg \<and> (\<forall>c<DHCP_N_OPTIONS. dhcp_opt msg' c = (if c = DHCP_CODE_DHCP_MSG_TYPE then Some [dm_type msg] else dhcp_opt msg c))"
proof -
  let ?H = "dhcp_header_bytes msg"
  define rest where "rest = [53, 1, dm_type msg] @ concat (map (\<lambda>i. opt_bytes (of_nat i) (dhcp_opt msg i)) [0..<DHCP_VENDOR_OFS]) @ [255]"
  define bs where "bs = ?H @ le32 (htonl DHCP_OPTS_COOKIE) @ rest"
  have "contents b = []" using b by (simp add: contents_def)
  then obtain b' where b': "dhcp_assemble m msg b = Some b'" "ofpbuf_wf b'" "contents b' = bs"
    using assembled [OF b(1) msg(3) opts(3), of m] by (auto simp: rest_def bs_def)
  define m0 where "m0 = dhcp_msg_init\<lparr>dm_op := dm_op msg, dm_xid := dm_xid msg, dm_secs := dm_secs msg, dm_flags := dm_flags msg,
    dm_ciaddr := dm_ciaddr msg, dm_yiaddr := dm_yiaddr msg, dm_siaddr := dm_siaddr msg, dm_giaddr := dm_giaddr msg, dm_chaddr := dm_chaddr msg\<rparr>"
  have "dhcp_inv m0 = dhcp_inv dhcp_msg_init" "dm_abs m0 = dm_abs dhcp_msg_init" by (simp_all add: m0_def dhcp_inv_def dm_abs_def dhcp_opt_def cong: if_cong)
  then have m0: "dhcp_inv m0" "dm_abs m0 = (True, \<lambda>_. None)" using init_inv by simp_all
  obtain m1 where m1: "parse_options False 0 rest m0 = Some m1" "dhcp_inv m1" "dm_abs m1 = aparse 0 rest (True, \<lambda>_. None)" "dm_head m1 = dm_head m0"
    using parse_options_result [OF m0(1), of 0 rest] m0(2) by auto
  have o1: "dhcp_opt m1 c = (if c = DHCP_CODE_DHCP_MSG_TYPE then Some [dm_type msg] else dhcp_opt msg c)" if "c < DHCP_N_OPTIONS" for c
  proof -
    have "snd (dm_abs m1) c = dhcp_opt m1 c" using that by (simp add: dm_abs_def)
    moreover have "snd (dm_abs m1) c = (if c = DHCP_CODE_DHCP_MSG_TYPE then Some [dm_type msg] else dhcp_opt msg c)"
      unfolding m1(3) rest_def aparse_assembled [OF msg(1) opts(1,3)] using that by simp
    ultimately show ?thesis by simp
  qed
  have type: "option_ok DHCP_CODE_DHCP_MSG_TYPE [dm_type msg]" by (simp add: option_ok_def get_option_class_def dhcp_opts_def)
  have ok: "option_ok c data" if "c < DHCP_N_OPTIONS" "dhcp_opt msg c = Some data" for c data
    using opts(2,3) that by (cases "c < DHCP_VENDOR_OFS") (auto simp: not_less)
  have v: "validate_options m1 = Some m1"
    unfolding validate_options_def using o1 ok type by (intro validate_all m1(2)) (auto split: if_splits)
  have t: "dhcp_msg_get_uint8 DHCP_CODE_DHCP_MSG_TYPE 0 m1 = Some (dm_type msg)"
    using o1 by (simp add: dhcp_msg_get_uint8_def dhcp_msg_get_opt [OF m1(2)] ld8_def)
  have r: "ld8 bs 0 = dm_op msg" "ld8 bs 1 = 1" "ld8 bs 2 = 6" "ld32 bs 4 = htonl (dm_xid msg)" "ld16 bs 8 = htons (dm_secs msg)" "ld16 bs 10 = htons (dm_flags msg)"
    "ld32 bs 12 = dm_ciaddr msg" "ld32 bs 16 = dm_yiaddr msg" "ld32 bs 20 = dm_siaddr msg" "ld32 bs 24 = dm_giaddr msg" "ld_eth bs 28 = dm_chaddr msg"
    "ldn bs 108 128 = replicate 128 0" "ldn bs 44 64 = replicate 64 0" "ld32 bs 236 = htonl DHCP_OPTS_COOKIE" "length bs = 240 + length rest" "drop 240 bs = rest"
    unfolding bs_def by (simp_all only: header_read ld32_cookie) simp_all
  have overload: "(case dhcp_msg_get_uint8 DHCP_CODE_OPTION_OVERLOAD 0 m1 of None \<Rightarrow> Some m1
      | Some overload \<Rightarrow> do { msg \<leftarrow> (if flag_set overload 1 then parse_options False 0 (replicate 128 0) m1 else Some m1);
           (if flag_set overload 2 then parse_options False 0 (replicate 64 0) msg else Some msg) }) = Some m1"
    by (simp add: parse_pad split: option.split)
  have vendor: "(case dhcp_msg_get_string m1 DHCP_CODE_VENDOR_CLASS of
        Some s \<Rightarrow> if is_openflow s
          then parse_options True DHCP_VENDOR_OFS (case dhcp_opt m1 DHCP_CODE_VENDOR_SPECIFIC of Some bs \<Rightarrow> bs | None \<Rightarrow> []) m1
          else Some m1
      | None \<Rightarrow> Some m1) = Some m1"
    using o1 [of DHCP_CODE_VENDOR_SPECIFIC] opts(4) by (simp add: parse_options.simps [of _ _ "[]"] split: option.split)
  have op: "dm_op msg = DHCP_BOOTREPLY \<or> dm_op msg = DHCP_BOOTREQUEST" using msg(2) by blast
  have "dhcp_parse 4 bs = Some (Inr (m1\<lparr>dm_type := dm_type msg\<rparr>))"
    unfolding dhcp_parse_def r using op m1(1) overload vendor v t by (simp add: m0_def [symmetric] r(16))
  moreover have "dhcp_inv (m1\<lparr>dm_type := dm_type msg\<rparr>)" using m1(2) by (simp add: dhcp_inv_def)
  moreover have "dm_head (m1\<lparr>dm_type := dm_type msg\<rparr>) = dm_head msg" using m1(4) by (simp add: dm_head_def m0_def)
  moreover have "dhcp_opt (m1\<lparr>dm_type := dm_type msg\<rparr>) c = dhcp_opt m1 c" for c by (simp add: dhcp_opt_def)
  ultimately show ?thesis using b' o1 by (intro exI [of _ b'] exI [of _ "m1\<lparr>dm_type := dm_type msg\<rparr>"]) simp
qed

text \<open>
  C33. What is assembled is parsed back, where pointers have four bytes: the header, the type and every option that is valid. The options may be of
  any length, in chunks of the bytes of the message; only options of the vendor are excluded, whose parsing may read freed memory.
\<close>

theorem dhcp_roundtrip:
  assumes msg: "dhcp_inv msg" "dm_op msg = DHCP_BOOTREQUEST \<or> dm_op msg = DHCP_BOOTREPLY" "dm_type msg \<noteq> 0"
    and opts: "dhcp_opt msg DHCP_CODE_DHCP_MSG_TYPE = None" "\<forall>c<DHCP_VENDOR_OFS. \<forall>data. dhcp_opt msg c = Some data \<longrightarrow> option_ok c data"
      "\<forall>c. DHCP_VENDOR_OFS \<le> c \<and> c < DHCP_N_OPTIONS \<longrightarrow> dhcp_opt msg c = None" "dhcp_opt msg DHCP_CODE_VENDOR_SPECIFIC = None"
    and b: "ofpbuf_wf b" "ob_size b = 0"
  shows "\<exists>b' msg'. dhcp_assemble m msg b = Some b' \<and> ofpbuf_wf b' \<and> dhcp_parse 4 (contents b') = Some (Inr msg') \<and> dhcp_inv msg'
    \<and> dm_head msg' = dm_head msg \<and> (\<forall>c<DHCP_N_OPTIONS. dhcp_opt msg' c = (if c = DHCP_CODE_DHCP_MSG_TYPE then Some [dm_type msg] else dhcp_opt msg c))"
  by (rule assemble_parse [OF assms])

text \<open>What is parsed is a message whose options lie in its block, also if it had options of the vendor, which are parsed from that block.\<close>

lemma parse_own: "parse_options True ofs bs msg = Some msg' \<Longrightarrow> parse_options False ofs bs msg = Some msg'"
proof (induction "length bs" arbitrary: bs msg rule: less_induct)
  case less
  note nil = parse_options.simps [of _ ofs "[]"] and cons = parse_options.simps [of _ ofs "x # xs" for x xs]
  show ?case
  proof (cases bs)
    case Nil
    then show ?thesis using less.prems by (simp add: nil)
  next
    case (Cons code bs1)
    note 1 = this
    show ?thesis
    proof (cases "unat code = DHCP_CODE_END \<or> unat code = DHCP_CODE_PAD \<or> bs1 = []")
      case True
      then show ?thesis using less.prems less.hyps [of bs1 msg] 1 by (auto simp: cons)
    next
      case False
      then obtain len bs2 where 2: "bs1 = len # bs2" by (cases bs1) auto
      show ?thesis
      proof (cases "unat len > length bs2")
        case True
        then show ?thesis using less.prems False 1 2 by (simp add: cons)
      next
        case fits: False
        then obtain m where m: "dhcp_msg_put (unat code + ofs) (take (unat len) bs2) msg = Some m" "parse_options True ofs (drop (unat len) bs2) m = Some msg'"
          using less.prems False 1 2 by (auto simp: cons Let_def split: if_splits bind_splits)
        then show ?thesis using less.hyps [of "drop (unat len) bs2" m] False fits 1 2 by (simp add: cons Let_def)
      qed
    qed
  qed
qed

lemma parse_options_inv: "parse_options own ofs bs msg = Some msg' \<Longrightarrow> dhcp_inv msg \<Longrightarrow> ofs \<le> DHCP_VENDOR_OFS \<Longrightarrow> dhcp_inv msg'"
  using parse_options_result [of msg ofs bs] parse_own [of ofs bs msg msg'] by (cases own) auto

lemma removed_inv:
  assumes "dhcp_inv msg" "c < DHCP_N_OPTIONS"
  shows "dhcp_inv (set_option c \<lparr>do_n = 0, do_data = None\<rparr> msg)"
proof -
  have "total_n ((dm_options msg)[c := \<lparr>do_n = 0, do_data = None\<rparr>]) all_codes \<le> total_n (dm_options msg) all_codes"
    using total_update [of all_codes c "dm_options msg" "\<lparr>do_n = 0, do_data = None\<rparr>"] assms by (simp add: dhcp_inv_def)
  then show ?thesis using assms by (auto simp: dhcp_inv_def nth_list_update opt_ok_def)
qed

lemma validate_inv: "validate_codes codes msg = Some msg' \<Longrightarrow> dhcp_inv msg \<Longrightarrow> \<forall>c\<in>set codes. c < DHCP_N_OPTIONS \<Longrightarrow> dhcp_inv msg'"
proof (induction codes arbitrary: msg)
  case (Cons c cs)
  obtain m where m: "validate_option c msg = Some m" "validate_codes cs m = Some msg'" using Cons.prems(1) by (auto split: bind_splits)
  have "m = msg \<or> m = set_option c \<lparr>do_n = 0, do_data = None\<rparr> msg"
    using m(1) by (auto simp: validate_option_def Let_def split: if_splits prod.splits)
  then have "dhcp_inv m" using Cons.prems(2,3) removed_inv by auto
  then show ?case using Cons.IH [OF m(2)] Cons.prems(3) by simp
qed simp

lemma dhcp_parse_inv:
  assumes "dhcp_parse ptr b = Some (Inr msg)"
  shows "dhcp_inv msg"
proof -
  define m0 where "m0 = dhcp_msg_init\<lparr>dm_op := ld8 b 0, dm_xid := ntohl (ld32 b 4), dm_secs := ntohs (ld16 b 8), dm_flags := ntohs (ld16 b 10),
    dm_ciaddr := ld32 b 12, dm_yiaddr := ld32 b 16, dm_siaddr := ld32 b 20, dm_giaddr := ld32 b 24, dm_chaddr := ld_eth b 28\<rparr>"
  have "dhcp_inv m0 = dhcp_inv dhcp_msg_init" by (simp add: m0_def dhcp_inv_def)
  then have m0: "dhcp_inv m0" using init_inv(1) by simp
  note p = assms [unfolded dhcp_parse_def m0_def [symmetric] Let_def]
  let ?A = "if length b - 236 \<ge> ptr \<and> ntohl (ld32 b 236) = DHCP_OPTS_COOKIE then do {
            msg \<leftarrow> parse_options False 0 (drop (236 + ptr) b) m0;
            (case dhcp_msg_get_uint8 DHCP_CODE_OPTION_OVERLOAD 0 msg of
               None \<Rightarrow> Some msg
             | Some overload \<Rightarrow> do {
                 msg \<leftarrow> (if flag_set overload 1 then parse_options False 0 (ldn b 108 128) msg else Some msg);
                 (if flag_set overload 2 then parse_options False 0 (ldn b 44 64) msg else Some msg) }) }
          else Some m0"
  let ?B = "\<lambda>m1. case dhcp_msg_get_string m1 DHCP_CODE_VENDOR_CLASS of
            Some s \<Rightarrow> if is_openflow s
              then parse_options True DHCP_VENDOR_OFS (case dhcp_opt m1 DHCP_CODE_VENDOR_SPECIFIC of Some bs \<Rightarrow> bs | None \<Rightarrow> []) m1
              else Some m1
          | None \<Rightarrow> Some m1"
  let ?C = "\<lambda>m3. case dhcp_msg_get_uint8 DHCP_CODE_DHCP_MSG_TYPE 0 m3 of None \<Rightarrow> Inl DHCP_EPROTO | Some type \<Rightarrow> Inr (m3\<lparr>dm_type := type\<rparr>)"
  have "?A \<bind> (\<lambda>m1. ?B m1 \<bind> (\<lambda>m2. validate_options m2 \<bind> (\<lambda>m3. Some (?C m3)))) = Some (Inr msg)"
    using p by (simp only: split: if_splits) simp_all
  then obtain m1 m2 m3 where 1: "?A = Some m1" and 2: "?B m1 = Some m2" and 3: "validate_options m2 = Some m3" and "?C m3 = Inr msg"
    unfolding Option.bind_eq_Some_conv by blast
  then have 4: "\<exists>type. msg = m3\<lparr>dm_type := type\<rparr>" by (auto split: option.splits)
  have "dhcp_inv m1" using 1 m0 by (auto split: if_splits bind_splits option.splits dest: parse_options_inv)
  then have "dhcp_inv m2" using 2 by (auto split: if_splits option.splits dest: parse_options_inv)
  then have "dhcp_inv m3" using 3 validate_inv [of all_codes m2 m3] by (simp add: validate_options_def)
  then show ?thesis using 4 by (auto simp: dhcp_inv_def)
qed

text \<open>
  Where pointers have eight bytes the parser skips the first four bytes of the options, among them the type: the client does not understand
  a message that has no other options.
\<close>

theorem dhcp_parse_loses_type:
  assumes "dhcp_inv msg" "dm_type msg \<noteq> 0" "\<forall>c<DHCP_N_OPTIONS. dhcp_opt msg c = None" "ofpbuf_wf b" "ob_size b = 0"
  shows "\<exists>b'. dhcp_assemble m msg b = Some b' \<and> dhcp_parse 8 (contents b') = Some (Inl DHCP_EPROTO)"
proof -
  let ?bs = "dhcp_header_bytes msg @ le32 (htonl DHCP_OPTS_COOKIE) @ [53, 1, dm_type msg, 255]"
  have "contents b = []" using assms(5) by (simp add: contents_def)
  moreover have "concat (map (\<lambda>i. opt_bytes (of_nat i) (dhcp_opt msg i)) [0..<DHCP_VENDOR_OFS]) = []" using assms(3) by (simp add: opt_bytes_def)
  ultimately obtain b' where b': "dhcp_assemble m msg b = Some b'" "contents b' = ?bs"
    using assembled [OF assms(4,2), of m] assms(3) by auto
  have l: "length ?bs = 244" "drop 244 ?bs = []" by simp_all
  define m0 where "m0 = dhcp_msg_init\<lparr>dm_op := ld8 ?bs 0, dm_xid := ntohl (ld32 ?bs 4), dm_secs := ntohs (ld16 ?bs 8), dm_flags := ntohs (ld16 ?bs 10),
    dm_ciaddr := ld32 ?bs 12, dm_yiaddr := ld32 ?bs 16, dm_siaddr := ld32 ?bs 20, dm_giaddr := ld32 ?bs 24, dm_chaddr := ld_eth ?bs 28\<rparr>"
  have o: "dm_options m0 = replicate DHCP_N_OPTIONS \<lparr>do_n = 0, do_data = None\<rparr>" by (simp add: m0_def dhcp_msg_init_def)
  have "validate_codes codes m0 = Some m0" if "set codes \<subseteq> {..<DHCP_N_OPTIONS}" for codes
    using that by (induction codes) (simp_all add: validate_option_def o Let_def case_prod_beta)
  then have v: "validate_options m0 = Some m0" by (simp add: validate_options_def)
  have g: "dhcp_msg_get_uint8 c 0 m0 = None" "dhcp_msg_get_string m0 c = None" if "c < DHCP_N_OPTIONS" for c
    using that by (simp_all add: dhcp_msg_get_uint8_def dhcp_msg_get_string_def dhcp_msg_get_def dhcp_opt_def o)
  have "dhcp_parse 8 ?bs = Some (Inl DHCP_EPROTO)"
    unfolding dhcp_parse_def l m0_def [symmetric] using v g [of DHCP_CODE_OPTION_OVERLOAD] g [of DHCP_CODE_VENDOR_CLASS] g [of DHCP_CODE_DHCP_MSG_TYPE]
    by (simp add: parse_options.simps [of _ _ "[]"])
  then show ?thesis using b' by simp
qed


section \<open>A message as a map of options\<close>

fun put_seq :: "(nat \<times> u8 list) list \<Rightarrow> dhcp_msg \<Rightarrow> dhcp_msg option" where
  "put_seq [] msg = Some msg"
| "put_seq ((code, data) # puts) msg = do { msg \<leftarrow> dhcp_msg_put code data msg; put_seq puts msg }"

lemma put_seq_result:
  assumes "dhcp_inv msg" "\<forall>(code, data)\<in>set puts. code < DHCP_N_OPTIONS"
  shows "\<exists>msg'. put_seq puts msg = Some msg' \<and> dhcp_inv msg' \<and> dm_abs msg' = fold (\<lambda>(code, data). aput code data) puts (dm_abs msg) \<and> dm_head msg' = dm_head msg"
  using assms
proof (induction puts arbitrary: msg)
  case (Cons x puts)
  obtain code data where x: "x = (code, data)" by fastforce
  then obtain m where m: "dhcp_msg_put code data msg = Some m" "dhcp_inv m" "dm_abs m = aput code data (dm_abs msg)" "dm_head m = dm_head msg"
    using dhcp_msg_put_result [OF Cons.prems(1), of code data] Cons.prems(2) by auto
  then show ?case using Cons.IH [OF m(2)] Cons.prems(2) x by simp
qed simp



section \<open>Witnesses\<close>


text \<open>A request with a wish for an address, and one without any option.\<close>

definition sample_request :: dhcp_msg where
  "sample_request = dhcp_msg_init\<lparr>dm_op := DHCP_BOOTREQUEST, dm_xid := 0x12345678, dm_chaddr := 0x0a0000000001, dm_type := 1\<rparr>"

lemma sample_request_inv: "dhcp_inv sample_request" "dhcp_opt sample_request c = dhcp_opt dhcp_msg_init c"
  using init_inv(1) by (simp_all add: sample_request_def dhcp_inv_def dhcp_opt_def)

lemma init_opt: "c < DHCP_N_OPTIONS \<Longrightarrow> dhcp_opt dhcp_msg_init c = None"
  by (simp add: dhcp_msg_init_def dhcp_opt_def)

theorem dhcp_roundtrip_witness:
  "\<exists>msg b' msg'. dhcp_msg_put_ip DHCP_CODE_REQUESTED_IP 0x0100000a sample_request = Some msg
    \<and> dhcp_assemble (\<lambda>_. 0) msg (ofpbuf_init (\<lambda>_. 0) 0) = Some b' \<and> dhcp_parse 4 (contents b') = Some (Inr msg')
    \<and> dm_xid msg' = 0x12345678 \<and> dhcp_opt msg' DHCP_CODE_REQUESTED_IP = Some (le32 0x0100000a)"
proof -
  obtain msg where m: "dhcp_msg_put_ip DHCP_CODE_REQUESTED_IP 0x0100000a sample_request = Some msg" "dhcp_inv msg"
    "dm_abs msg = aput DHCP_CODE_REQUESTED_IP (le32 0x0100000a) (dm_abs sample_request)" "dm_head msg = dm_head sample_request"
    using dhcp_msg_put_result [OF sample_request_inv(1), of DHCP_CODE_REQUESTED_IP "le32 0x0100000a"] by (auto simp: dhcp_msg_put_ip_def)
  have o: "dhcp_opt msg c = (if c = DHCP_CODE_REQUESTED_IP then Some (le32 0x0100000a) else None)" if "c < DHCP_N_OPTIONS" for c
    using m(3) [THEN arg_cong, of "\<lambda>a. snd a c"] that init_opt by (auto simp: dm_abs_def aput_def sample_request_inv(2) le32_def le16_def split: if_splits)
  have ok: "option_ok DHCP_CODE_REQUESTED_IP (le32 w)" for w by (simp add: option_ok_def get_option_class_def dhcp_opts_def)
  have f: "dm_op msg = 1" "dm_type msg = 1" "dm_xid msg = 0x12345678" using m(4) by (simp_all add: dm_head_def sample_request_def)
  have p: "dm_op msg = DHCP_BOOTREQUEST \<or> dm_op msg = DHCP_BOOTREPLY" "dm_type msg \<noteq> 0" "dhcp_opt msg DHCP_CODE_DHCP_MSG_TYPE = None"
    "\<forall>c<DHCP_VENDOR_OFS. \<forall>data. dhcp_opt msg c = Some data \<longrightarrow> option_ok c data"
    "\<forall>c. DHCP_VENDOR_OFS \<le> c \<and> c < DHCP_N_OPTIONS \<longrightarrow> dhcp_opt msg c = None" "dhcp_opt msg DHCP_CODE_VENDOR_SPECIFIC = None"
    using f o ok by simp_all
  have b: "ofpbuf_wf (ofpbuf_init (\<lambda>_. 0) 0)" "ob_size (ofpbuf_init (\<lambda>_. 0) 0) = 0" by (simp_all add: ofpbuf_init_def ofpbuf_use_def ofpbuf_wf_def)
  from dhcp_roundtrip [OF m(2) p b, of "\<lambda>_. 0"] obtain b' msg' where
    "dhcp_assemble (\<lambda>_. 0) msg (ofpbuf_init (\<lambda>_. 0) 0) = Some b'" "dhcp_parse 4 (contents b') = Some (Inr msg')" "dm_head msg' = dm_head msg"
    "\<forall>c<DHCP_N_OPTIONS. dhcp_opt msg' c = (if c = DHCP_CODE_DHCP_MSG_TYPE then Some [dm_type msg] else dhcp_opt msg c)" by blast
  then show ?thesis using m(1) o f(3) by (intro exI [of _ msg] exI [of _ b'] exI [of _ msg']) (simp add: dm_head_def)
qed

theorem dhcp_parse_loses_type_witness:
  "\<exists>b'. dhcp_assemble (\<lambda>_. 0) sample_request (ofpbuf_init (\<lambda>_. 0) 0) = Some b' \<and> dhcp_parse 8 (contents b') = Some (Inl DHCP_EPROTO)"
  by (rule dhcp_parse_loses_type [OF sample_request_inv(1)])
    (simp_all add: sample_request_inv(2) init_opt, simp_all add: sample_request_def ofpbuf_init_def ofpbuf_use_def ofpbuf_wf_def)

text \<open>
  The options of the vendor, which are read from the block of the message: for an address of a controller with 26 bytes there is room, for one more
  the block moves while its bytes are read.
\<close>

definition vendor_options :: "u8 list \<Rightarrow> u8 list" where
  "vendor_options s = [53, 1, 5] @ [60, 8, 79, 112, 101, 110, 70, 108, 111, 119] @ [43, of_nat (length s + 2), 1, of_nat (length s)] @ s @ [255]"

lemma vendor_address_read:
  "map_option (\<lambda>msg. dhcp_opt msg 257)
     (do { msg \<leftarrow> parse_options False 0 (vendor_options (replicate 26 97)) dhcp_msg_init;
           parse_options True DHCP_VENDOR_OFS (the (dhcp_opt msg DHCP_CODE_VENDOR_SPECIFIC)) msg }) = Some (Some (replicate 26 97))"
  by code_simp

lemma vendor_address_use_after_free:
  "dhcp_parse 4 (dhcp_header_bytes sample_request @ le32 (htonl DHCP_OPTS_COOKIE) @ vendor_options (replicate 27 97)) = None"
  by code_simp

end
