(* ===== verification/Dhcp_Client.thy ===== *)
theory Dhcp_Client
  imports Dhcp_Msg Checksum Sat_Math
begin

text \<open>
  The DHCP client, \<^verbatim>\<open>src/openflow/lib/dhcp-client.c\<close>: a state machine that asks for an address on a network device, renews its lease and gives
  it up. A call gets the seconds that \<^verbatim>\<open>time_now\<close> gives during it and the client's hooks as a record \<open>dc_env\<close>; the device is a record \<open>dc_net\<close>. Calls that
  fail an assertion, or hit freed memory in the parser, are \<open>None\<close>. The client is the one that \<^verbatim>\<open>dhclient_create\<close> gives when the device opens; a send
  that fails is only logged. After the model come what one iteration may change, and the proof that the loop of the client ends.
\<close>

section \<open>State\<close>

datatype dc_state = DS_INIT | DS_INIT_REBOOT | DS_REBOOTING | DS_SELECTING | DS_REQUESTING | DS_BOUND | DS_RENEWING | DS_REBINDING | DS_RELEASED

abbreviation DHCPDISCOVER :: u8 where "DHCPDISCOVER \<equiv> 1"
abbreviation DHCPOFFER :: u8 where "DHCPOFFER \<equiv> 2"
abbreviation DHCPREQUEST :: u8 where "DHCPREQUEST \<equiv> 3"
abbreviation DHCPACK :: u8 where "DHCPACK \<equiv> 5"
abbreviation DHCPNAK :: u8 where "DHCPNAK \<equiv> 6"
abbreviation DHCPRELEASE :: u8 where "DHCPRELEASE \<equiv> 7"
abbreviation MIN_ACCEPTABLE_LEASE :: u32 where "MIN_ACCEPTABLE_LEASE \<equiv> 15"
abbreviation ETH_TOTAL_MAX :: nat where "ETH_TOTAL_MAX \<equiv> 1514"
abbreviation ETH_BROADCAST :: eth_addr where "ETH_BROADCAST \<equiv> 0xffffffffffff"
abbreviation INADDR_BROADCAST :: u32 where "INADDR_BROADCAST \<equiv> 0xffffffff"

record dhclient =
  dc_state :: dc_state
  dc_state_entered :: u32
  dc_xid :: u32
  dc_ipaddr :: u32
  dc_netmask :: u32
  dc_router :: u32
  dc_server_ip :: u32
  dc_binding :: "dhcp_msg option"
  dc_changed :: bool
  dc_retransmit :: u32
  dc_delay :: u32
  dc_max_timeout :: u32
  dc_init_delay :: u32
  dc_lease_expiration :: int
  dc_bound_timeout :: u32
  dc_renewing_timeout :: u32
  dc_rebinding_timeout :: u32
  dc_min_timeout :: u32
  dc_received :: nat
  dc_secs :: u32

text \<open>What the device gives, \<open>None\<close> for a moment when nothing is there; the frames that were sent; and the random numbers to come.\<close>

record dc_net =
  dn_in :: "u8 list option list"
  dn_out :: "u8 list list"
  dn_random :: "nat \<Rightarrow> u32"

record dc_env =
  de_now :: int
  de_etheraddr :: eth_addr
  de_junk :: junk
  de_ptr :: nat
  de_modify :: "dhcp_msg \<Rightarrow> dhcp_msg option"
  de_validate :: "dhcp_msg \<Rightarrow> bool"

type_synonym dc = "dhclient \<times> dc_net"

section \<open>The device\<close>

definition dn_drain :: "dc_net \<Rightarrow> dc_net" where
  "dn_drain n = n\<lparr>dn_in := drop 1 (dropWhile (\<lambda>x. x \<noteq> None) (dn_in n))\<rparr>"

definition random_range :: "nat \<Rightarrow> dc_net \<Rightarrow> nat \<times> dc_net" where
  "random_range k n = (unat (dn_random n 0) mod k, n\<lparr>dn_random := (\<lambda>i. dn_random n (i + 1))\<rparr>)"

section \<open>Timers\<close>

definition dhclient_is_bound :: "dhclient \<Rightarrow> bool" where
  "dhclient_is_bound c \<longleftrightarrow> dc_state c \<in> {DS_BOUND, DS_RENEWING, DS_REBINDING}"

definition state_elapsed :: "dc_env \<Rightarrow> dhclient \<Rightarrow> u32" where
  "state_elapsed env c = of_int (de_now env) - dc_state_entered c"

definition dc_timeout :: "dc_env \<Rightarrow> u32 \<Rightarrow> dhclient \<Rightarrow> bool \<times> dhclient" where
  "dc_timeout env secs c =
     (de_now env \<ge> uint (sat_add (dc_state_entered c) secs), c\<lparr>dc_min_timeout := min (dc_min_timeout c) secs\<rparr>)"

definition fuzz :: "u32 \<Rightarrow> nat \<Rightarrow> dc_net \<Rightarrow> u32 \<times> dc_net" where
  "fuzz x max_fuzz n =
     (let (r, n) = random_range (max_fuzz * 2 + 1) n; y = x + of_int (int r - int max_fuzz)
      in (if r \<ge> max_fuzz then (if y \<ge> x then y else UINT_MAX) else (if y \<le> x then y else 0), n))"

definition clamp_u :: "u32 \<Rightarrow> u32 \<Rightarrow> u32 \<Rightarrow> u32" where
  "clamp_u x lo hi = (if x < lo then lo else if x > hi then hi else x)"

definition calc_t2 :: "u32 \<Rightarrow> dc_net \<Rightarrow> u32 \<times> dc_net" where
  "calc_t2 lease n =
     (let base = of_nat (unat lease * 7 div 8)
      in if lease \<ge> 60 then (let (x, n) = fuzz base 10 n in (clamp_u x 0 (lease - 1), n)) else (base, n))"

definition calc_t1 :: "u32 \<Rightarrow> u32 \<Rightarrow> dc_net \<Rightarrow> u32 \<times> dc_net" where
  "calc_t1 lease t2 n =
     (let base = lease div 2
      in if lease \<ge> 60 then (let (x, n) = fuzz base 10 n in (clamp_u x 0 (t2 - 1), n)) else (base, n))"

text \<open>Entering a state, also the same one again.\<close>

definition state_transition :: "dc_env \<Rightarrow> dc_state \<Rightarrow> dc \<Rightarrow> dc option" where
  "state_transition env st dc =
     (let (c, n) = dc; was_bound = dhclient_is_bound c;
          c = c\<lparr>dc_state := st, dc_state_entered := of_int (de_now env), dc_retransmit := 0, dc_delay := 0\<rparr>;
          am_bound = dhclient_is_bound c;
          n = (if st \<in> {DS_SELECTING, DS_REQUESTING, DS_REBOOTING} then dn_drain n else n)
      in if was_bound = am_bound then Some (c, n)
         else if am_bound then (if dc_binding c = None then None else Some (c\<lparr>dc_changed := True\<rparr>, n))
         else Some (c\<lparr>dc_changed := True, dc_binding := None\<rparr>, n))"

section \<open>Accessors\<close>

definition dhclient_get_ip :: "dhclient \<Rightarrow> u32" where
  "dhclient_get_ip c = (if dhclient_is_bound c then dc_ipaddr c else 0)"

definition dhclient_get_netmask :: "dhclient \<Rightarrow> u32" where
  "dhclient_get_netmask c = (if dhclient_is_bound c then dc_netmask c else 0)"

definition dhclient_get_router :: "dhclient \<Rightarrow> u32" where
  "dhclient_get_router c = (if dhclient_is_bound c then dc_router c else 0)"

definition dhclient_get_config :: "dhclient \<Rightarrow> dhcp_msg option" where
  "dhclient_get_config c = (if dhclient_is_bound c then dc_binding c else None)"

definition dhclient_get_lease_remaining :: "dc_env \<Rightarrow> dhclient \<Rightarrow> u32" where
  "dhclient_get_lease_remaining env c =
     (if dhclient_is_bound c then (if dc_lease_expiration c > de_now env then of_int (dc_lease_expiration c - de_now env) else 0) else 0)"

definition dhclient_changed :: "dhclient \<Rightarrow> bool \<times> dhclient" where
  "dhclient_changed c = (dc_changed c, c\<lparr>dc_changed := False\<rparr>)"

section \<open>Sending\<close>

definition ip_header_bytes :: "nat \<Rightarrow> u32 \<Rightarrow> u16 \<Rightarrow> u8 list" where
  "ip_header_bytes n src ip_csum =
     [0x45, 0] @ le16 (htons (of_nat (20 + 8 + n))) @ le16 0 @ le16 (htons 0x4000) @ [64, 17] @ le16 ip_csum @ le32 src @ le32 INADDR_BROADCAST"

definition udp_header_bytes :: "nat \<Rightarrow> u16 \<Rightarrow> u8 list" where
  "udp_header_bytes n udp_csum = le16 (htons 66) @ le16 (htons 67) @ le16 (htons (of_nat (8 + n))) @ le16 udp_csum"

definition udp_checksum :: "u32 \<Rightarrow> u8 list \<Rightarrow> u16" where
  "udp_checksum src data =
     (let udp_csum = csum_add32 0 src;
          udp_csum = csum_add32 udp_csum INADDR_BROADCAST;
          udp_csum = csum_add16 udp_csum 0x1100;
          udp_csum = csum_add16 udp_csum (htons (of_nat (8 + length data)));
          udp_csum = csum_continue udp_csum (udp_header_bytes (length data) 0)
      in csum_finish (csum_continue udp_csum data))"

definition do_send_msg :: "dc_env \<Rightarrow> dhcp_msg \<Rightarrow> dc \<Rightarrow> dc option" where
  "do_send_msg env msg dc = do {
     let (c, n) = dc;
     b \<leftarrow> ofpbuf_reserve (de_junk env) (ofpbuf_init (de_junk env) ETH_TOTAL_MAX) (14 + 20 + 8);
     b \<leftarrow> dhcp_assemble (de_junk env) msg b;
     let src = dhclient_get_ip c;
     let k = ob_size b;
     let nh = ip_header_bytes k src (csum (ip_header_bytes k src 0));
     let th = udp_header_bytes k (udp_checksum src (contents b));
     let eh = eth_bytes ETH_BROADCAST @ eth_bytes (de_etheraddr env) @ le16 (htons ETH_TYPE_IP);
     (p, b) \<leftarrow> ofpbuf_push b th;
     (p, b) \<leftarrow> ofpbuf_push b nh;
     (p, b) \<leftarrow> ofpbuf_push b eh;
     Some (c, if ob_size b \<le> ETH_TOTAL_MAX then n\<lparr>dn_out := dn_out n @ [contents b]\<rparr> else n) }"

definition dhclient_msg_init :: "dc_env \<Rightarrow> u8 \<Rightarrow> dhclient \<Rightarrow> dhcp_msg" where
  "dhclient_msg_init env type c =
     dhcp_msg_init\<lparr>dm_op := DHCP_BOOTREQUEST, dm_xid := dc_xid c, dm_secs := ucast (dc_secs c), dm_type := type, dm_chaddr := de_etheraddr env\<rparr>"

definition make_dhcpdiscover :: "dc_env \<Rightarrow> dhclient \<Rightarrow> (dhcp_msg \<times> dhclient) option" where
  "make_dhcpdiscover env c =
     (let c = c\<lparr>dc_secs := state_elapsed env c\<rparr>; msg = dhclient_msg_init env DHCPDISCOVER c
      in if dc_ipaddr c \<noteq> 0 then map_option (\<lambda>msg. (msg, c)) (dhcp_msg_put_ip DHCP_CODE_REQUESTED_IP (dc_ipaddr c) msg) else Some (msg, c))"

definition make_dhcprequest :: "dc_env \<Rightarrow> dhclient \<Rightarrow> (dhcp_msg \<times> dhclient) option" where
  "make_dhcprequest env c = do {
     let msg = (dhclient_msg_init env DHCPREQUEST c)\<lparr>dm_ciaddr := dhclient_get_ip c\<rparr>;
     msg \<leftarrow> (if dc_state c = DS_REQUESTING then dhcp_msg_put_ip DHCP_CODE_SERVER_IDENTIFIER (dc_server_ip c) msg else Some msg);
     msg \<leftarrow> dhcp_msg_put_ip DHCP_CODE_REQUESTED_IP (dc_ipaddr c) msg;
     Some (msg, c) }"

definition send_reliably :: "dc_env \<Rightarrow> (dc_env \<Rightarrow> dhclient \<Rightarrow> (dhcp_msg \<times> dhclient) option) \<Rightarrow> dc \<Rightarrow> dc option" where
  "send_reliably env make_packet dc = do {
     let (c, n) = dc;
     let (expired, c) = dc_timeout env (dc_retransmit c) c;
     if expired then do {
       (msg, c) \<leftarrow> make_packet env c;
       msg \<leftarrow> de_modify env msg;
       (c, n) \<leftarrow> do_send_msg env msg (c, n);
       let c = c\<lparr>dc_delay := min (dc_max_timeout c) (max 4 (dc_delay c * 2))\<rparr>;
       let (d, n) = fuzz (dc_delay c) 1 n;
       let c = c\<lparr>dc_retransmit := dc_retransmit c + d\<rparr>;
       Some (snd (dc_timeout env (dc_retransmit c) c), n) }
     else Some (c, n) }"

section \<open>Receiving\<close>

text \<open>Whether a frame is for the client; the pointers that the handler follows are null only in frames that are not.\<close>

definition for_client :: "dc_env \<Rightarrow> flow \<Rightarrow> bool" where
  "for_client env flow \<longleftrightarrow> fl_dl_type flow = htons ETH_TYPE_IP \<and> fl_nw_proto flow = IP_TYPE_UDP \<and> fl_tp_dst flow = htons 68
     \<and> (fl_dl_dst flow = ETH_BROADCAST \<or> fl_dl_dst flow = de_etheraddr env)"

text \<open>The message of a frame, if there is one.\<close>

definition dhcp_of_frame :: "dc_env \<Rightarrow> u8 list \<Rightarrow> dhcp_msg option option" where
  "dhcp_of_frame env frame =
     (let (_, b, flow) = flow_extract ((ofpbuf_use frame)\<lparr>ob_size := length frame\<rparr>) 0
      in if \<not> for_client env flow then Some None
         else
           (case ob_l3 b of
              None \<Rightarrow> None
            | Some ip \<Rightarrow>
                if IP_IS_FRAGMENT (ld16 (ob_base b) (ip + 6)) then Some None
                else
                  (case ob_l7 b of
                     None \<Rightarrow> Some None
                   | Some dhcp \<Rightarrow> do {
                       (p, b) \<leftarrow> ofpbuf_pull b (dhcp - ob_data b);
                       r \<leftarrow> dhcp_parse (de_ptr env) (contents b);
                       Some (case r of Inl error \<Rightarrow> None | Inr msg \<Rightarrow> Some msg) })))"

function do_receive_msg :: "dc_env \<Rightarrow> dc \<Rightarrow> (dhcp_msg option \<times> dc) option" where
  "do_receive_msg env (c, n) =
     (if dc_received c < 50 then
        (case dn_in n of
           [] \<Rightarrow> Some (None, (c, n))
         | None # xs \<Rightarrow> Some (None, (c, n\<lparr>dn_in := xs\<rparr>))
         | Some frame # xs \<Rightarrow>
             (case dhcp_of_frame env frame of
                None \<Rightarrow> None
              | Some (Some msg) \<Rightarrow> Some (Some msg, (c, n\<lparr>dn_in := xs\<rparr>))
              | Some None \<Rightarrow> do_receive_msg env (c\<lparr>dc_received := dc_received c + 1\<rparr>, n\<lparr>dn_in := xs\<rparr>)))
      else Some (None, (c, dn_drain n)))"
  by pat_completeness auto
termination by (relation "measure (\<lambda>(_, _, n). length (dn_in n))") auto

declare do_receive_msg.simps [simp del]

lemma length_drain: "length (dn_in (dn_drain n)) \<le> length (dn_in n)"
  using length_dropWhile_le [of "\<lambda>x. x \<noteq> None" "dn_in n"] by (simp add: dn_drain_def del: length_dropWhile_le)

lemma do_receive_shorter:
  "do_receive_msg env (c, n) = Some (r, c', n') \<Longrightarrow> length (dn_in n') \<le> length (dn_in n) \<and> (r \<noteq> None \<longrightarrow> length (dn_in n') < length (dn_in n))"
proof (induction "length (dn_in n)" arbitrary: c n rule: less_induct)
  case less
  note step = do_receive_msg.simps [of env c n]
  show ?case
  proof (cases "dc_received c < 50")
    case True
    show ?thesis
    proof (cases "dn_in n")
      case Nil
      then show ?thesis using less.prems True by (simp add: step)
    next
      case (Cons x xs)
      show ?thesis
      proof (cases x)
        case None
        then show ?thesis using less.prems True Cons by (auto simp: step)
      next
        case (Some frame)
        show ?thesis
        proof (cases "dhcp_of_frame env frame")
          case None
          then show ?thesis using less.prems True Cons Some by (simp add: step)
        next
          case m: (Some m)
          show ?thesis
          proof (cases m)
            case None
            then have "do_receive_msg env (c\<lparr>dc_received := dc_received c + 1\<rparr>, n\<lparr>dn_in := xs\<rparr>) = Some (r, c', n')"
              using less.prems True Cons Some m by (simp add: step)
            then show ?thesis using less.hyps [of "n\<lparr>dn_in := xs\<rparr>"] Cons by fastforce
          next
            case (Some msg)
            then show ?thesis using less.prems True Cons \<open>x = Some frame\<close> m by (auto simp: step)
          qed
        qed
      qed
    qed
  next
    case False
    then show ?thesis using less.prems length_drain [of n] by (auto simp: step)
  qed
qed

text \<open>Messages of other types and transactions are skipped. The function is total: each round takes a frame.\<close>

function dhcp_receive :: "dc_env \<Rightarrow> u8 list \<Rightarrow> dc \<Rightarrow> (dhcp_msg option \<times> dc) option" where
  "dhcp_receive env msgs (c, n) =
     (case do_receive_msg env (c, n) of
        None \<Rightarrow> None
      | Some (None, dc) \<Rightarrow> Some (None, dc)
      | Some (Some msg, (c', n')) \<Rightarrow>
          if dm_type msg \<notin> set msgs \<or> dm_xid msg \<noteq> dc_xid c' then dhcp_receive env msgs (c', n') else Some (Some msg, (c', n')))"
  by pat_completeness auto
termination by (relation "measure (\<lambda>(_, _, _, n). length (dn_in n))") (auto dest: do_receive_shorter)

declare dhcp_receive.simps [simp del]

lemma dhcp_receive_shorter:
  "dhcp_receive env msgs (c, n) = Some (r, c', n') \<Longrightarrow> length (dn_in n') \<le> length (dn_in n) \<and> (r \<noteq> None \<longrightarrow> length (dn_in n') < length (dn_in n))"
proof (induction "length (dn_in n)" arbitrary: c n rule: less_induct)
  case less
  note step = dhcp_receive.simps [of env msgs c n]
  obtain r1 c1 n1 where d: "do_receive_msg env (c, n) = Some (r1, c1, n1)" using less.prems by (cases "do_receive_msg env (c, n)") (auto simp: step)
  note sh = do_receive_shorter [OF d]
  show ?case
  proof (cases r1)
    case None
    then show ?thesis using less.prems d sh by (simp add: step)
  next
    case (Some msg)
    then show ?thesis using less.prems less.hyps [of n1 c1] d sh by (fastforce simp: step split: if_splits)
  qed
qed

definition validate_offered_options :: "dc_env \<Rightarrow> dhcp_msg \<Rightarrow> bool" where
  "validate_offered_options env msg \<longleftrightarrow>
     (case dhcp_msg_get_secs DHCP_CODE_LEASE_TIME 0 msg of
        None \<Rightarrow> False
      | Some lease \<Rightarrow> dhcp_msg_get_ip DHCP_CODE_SUBNET_MASK 0 msg \<noteq> None \<and> \<not> lease < MIN_ACCEPTABLE_LEASE \<and> de_validate env msg)"

definition binding_codes :: "nat list" where
  "binding_codes = [1, 3, 6, 12, 15, 23, 26, 28, 33, 35, 36, 37, 54, 257, 258]"

definition same_binding :: "dhcp_msg \<Rightarrow> dhcp_msg \<Rightarrow> bool" where
  "same_binding old new \<longleftrightarrow> dm_yiaddr old = dm_yiaddr new \<and> (\<forall>code\<in>set binding_codes. dhcp_option_equals old code new code)"

text \<open>The times of a lease, from the options of the message: when to renew and when to ask any server, both from now.\<close>

definition lease_times :: "dhcp_msg \<Rightarrow> dc_net \<Rightarrow> u32 \<times> u32 \<times> u32 \<times> dc_net" where
  "lease_times msg n =
     (let secs = (\<lambda>code. case dhcp_msg_get_secs code 0 msg of Some s \<Rightarrow> s | None \<Rightarrow> 0);
          lease = secs DHCP_CODE_LEASE_TIME; t1 = secs DHCP_CODE_T1; t2 = secs DHCP_CODE_T2;
          (t2, n) = (if t2 = 0 \<or> t2 \<ge> lease then calc_t2 lease n else (t2, n));
          (t1, n) = (if t1 = 0 \<or> t1 \<ge> t2 then calc_t1 lease t2 n else (t1, n))
      in (lease, t1, t2, n))"

definition receive_ack :: "dc_env \<Rightarrow> dc \<Rightarrow> (bool \<times> dc) option" where
  "receive_ack env dc =
     (case dhcp_receive env [DHCPACK, DHCPNAK] dc of
        None \<Rightarrow> None
      | Some (None, dc) \<Rightarrow> Some (False, dc)
      | Some (Some msg, (c, n)) \<Rightarrow>
          if dm_type msg = DHCPNAK then map_option (\<lambda>dc. (True, dc)) (state_transition env DS_INIT (c, n))
          else if \<not> validate_offered_options env msg then Some (False, (c, n))
          else do {
            let changed = (case dc_binding c of Some old \<Rightarrow> dc_changed c \<or> \<not> same_binding old msg | None \<Rightarrow> dc_changed c);
            binding \<leftarrow> dhcp_msg_copy msg;
            let (lease, t1, t2, n) = lease_times msg n;
            if lease < MIN_ACCEPTABLE_LEASE then None
            else do {
              dc \<leftarrow> state_transition env DS_BOUND
                (c\<lparr>dc_changed := changed, dc_binding := Some binding,
                   dc_lease_expiration := uint (sat_add (of_int (de_now env)) lease),
                   dc_bound_timeout := t1, dc_renewing_timeout := t2 - t1, dc_rebinding_timeout := lease - t2,
                   dc_ipaddr := dm_yiaddr msg,
                   dc_netmask := (case dhcp_msg_get_ip DHCP_CODE_SUBNET_MASK 0 msg of Some m \<Rightarrow> m | None \<Rightarrow> dc_netmask c),
                   dc_router := (case dhcp_msg_get_ip DHCP_CODE_ROUTER 0 msg of Some r \<Rightarrow> r | None \<Rightarrow> 0)\<rparr>, n);
              Some (True, dc) } })"

section \<open>The states\<close>

definition do_init :: "dc_env \<Rightarrow> dc_state \<Rightarrow> dc \<Rightarrow> dc option" where
  "do_init env next_state dc =
     (let (c, n) = dc;
          (c, n) = (if dc_init_delay c = 0 then (let (d, n) = fuzz 2 1 n in (c\<lparr>dc_init_delay := d\<rparr>, n)) else (c, n));
          (expired, c) = dc_timeout env (dc_init_delay c) c
      in if expired then state_transition env next_state (c, n) else Some (c, n))"

text \<open>What follows a request: an acknowledgment, or the end of the time for it.\<close>

definition await_ack :: "dc_env \<Rightarrow> (dhclient \<Rightarrow> u32) \<Rightarrow> dc_state \<Rightarrow> dc \<Rightarrow> dc option" where
  "await_ack env secs next_state dc = do {
     dc \<leftarrow> send_reliably env make_dhcprequest dc;
     (received, (c, n)) \<leftarrow> receive_ack env dc;
     if received then Some (c, n)
     else (let (expired, c) = dc_timeout env (secs c) c in if expired then state_transition env next_state (c, n) else Some (c, n)) }"

text \<open>The loop over offers.\<close>

function take_offers :: "dc_env \<Rightarrow> dc \<Rightarrow> dc option" where
  "take_offers env (c, n) =
     (case dhcp_receive env [DHCPOFFER] (c, n) of
        None \<Rightarrow> None
      | Some (None, dc) \<Rightarrow> Some dc
      | Some (Some msg, (c', n')) \<Rightarrow>
          if \<not> validate_offered_options env msg then take_offers env (c', n')
          else
            (case dhcp_msg_get_ip DHCP_CODE_SERVER_IDENTIFIER 0 msg of
               None \<Rightarrow> take_offers env (c', n')
             | Some server_ip \<Rightarrow> state_transition env DS_REQUESTING (c'\<lparr>dc_server_ip := server_ip, dc_ipaddr := dm_yiaddr msg\<rparr>, n')))"
  by pat_completeness auto
termination by (relation "measure (\<lambda>(_, _, n). length (dn_in n))") (auto dest: dhcp_receive_shorter)

declare take_offers.simps [simp del]

definition run_SELECTING :: "dc_env \<Rightarrow> dc \<Rightarrow> dc option" where
  "run_SELECTING env dc = do {
     (c, n) \<leftarrow> send_reliably env make_dhcpdiscover dc;
     dc \<leftarrow> (if dc_server_ip c \<noteq> 0
             then (let (expired, c) = dc_timeout env 60 c
                   in if expired then state_transition env DS_INIT (c\<lparr>dc_server_ip := 0\<rparr>, n) else Some (c, n))
             else Some (c, n));
     take_offers env dc }"

definition run_BOUND :: "dc_env \<Rightarrow> dc \<Rightarrow> dc option" where
  "run_BOUND env dc =
     (let (c, n) = dc; (expired, c) = dc_timeout env (dc_bound_timeout c) c
      in if expired then state_transition env DS_RENEWING (c, n) else Some (c, n))"

definition run_dc_state :: "dc_env \<Rightarrow> dc \<Rightarrow> dc option" where
  "run_dc_state env dc =
     (case dc_state (fst dc) of
        DS_INIT \<Rightarrow> do_init env DS_SELECTING dc
      | DS_INIT_REBOOT \<Rightarrow> do_init env DS_REBOOTING dc
      | DS_REBOOTING \<Rightarrow> await_ack env (\<lambda>_. 60) DS_INIT dc
      | DS_SELECTING \<Rightarrow> run_SELECTING env dc
      | DS_REQUESTING \<Rightarrow> await_ack env (\<lambda>_. 60) DS_INIT dc
      | DS_BOUND \<Rightarrow> run_BOUND env dc
      | DS_RENEWING \<Rightarrow> await_ack env dc_renewing_timeout DS_REBINDING dc
      | DS_REBINDING \<Rightarrow> await_ack env dc_rebinding_timeout DS_INIT dc
      | DS_RELEASED \<Rightarrow> Some dc)"

text \<open>The loop runs as long as the state changes; \<open>None\<close> would mean that it never ends.\<close>

partial_function (option) dhclient_run :: "dc_env \<Rightarrow> dc \<Rightarrow> dc run option" where
  "dhclient_run env dc =
     (case run_dc_state env ((fst dc)\<lparr>dc_min_timeout := UINT_MAX, dc_received := 0\<rparr>, snd dc) of
        None \<Rightarrow> Some Fault
      | Some dc' \<Rightarrow> if dc_state (fst dc') \<noteq> dc_state (fst dc) then dhclient_run env dc' else Some (Done dc'))"

section \<open>Calls of the client's user\<close>

definition dhclient_create :: "dc_env \<Rightarrow> u32 \<Rightarrow> dhclient" where
  "dhclient_create env xid =
     \<lparr>dc_state = DS_RELEASED, dc_state_entered = of_int (de_now env), dc_xid = xid, dc_ipaddr = 0, dc_netmask = 0, dc_router = 0, dc_server_ip = 0,
      dc_binding = None, dc_changed = True, dc_retransmit = 0, dc_delay = 0, dc_max_timeout = 64, dc_init_delay = 0, dc_lease_expiration = 0,
      dc_bound_timeout = 0, dc_renewing_timeout = 0, dc_rebinding_timeout = 0, dc_min_timeout = 1, dc_received = 0, dc_secs = 0\<rparr>"

definition dhclient_set_max_timeout :: "u32 \<Rightarrow> dhclient \<Rightarrow> dhclient" where
  "dhclient_set_max_timeout max_timeout c = c\<lparr>dc_max_timeout := max 2 max_timeout\<rparr>"

definition dhclient_init :: "dc_env \<Rightarrow> u32 \<Rightarrow> dc \<Rightarrow> dc option" where
  "dhclient_init env requested_ip dc = do {
     (c, n) \<leftarrow> state_transition env (if requested_ip \<noteq> 0 then DS_INIT_REBOOT else DS_INIT) dc;
     Some (c\<lparr>dc_ipaddr := requested_ip, dc_min_timeout := 0, dc_init_delay := 0\<rparr>, n) }"

definition dhclient_release :: "dc_env \<Rightarrow> dc \<Rightarrow> dc option" where
  "dhclient_release env dc = do {
     dc \<leftarrow> (if dhclient_is_bound (fst dc)
             then do_send_msg env ((dhclient_msg_init env DHCPRELEASE (fst dc))\<lparr>dm_ciaddr := dc_ipaddr (fst dc)\<rparr>) dc
             else Some dc);
     (c, n) \<leftarrow> state_transition env DS_RELEASED dc;
     Some (c\<lparr>dc_min_timeout := UINT_MAX\<rparr>, n) }"

text \<open>The deadline is taken to be so small that three times it is an \<^verbatim>\<open>int\<close>.\<close>

definition do_force_renew :: "dc_env \<Rightarrow> u32 \<Rightarrow> dc \<Rightarrow> dc option" where
  "do_force_renew env deadline dc =
     (let (c, n) = dc; lease_left = sat_sub (of_int (dc_lease_expiration c)) (of_int (de_now env))
      in if lease_left \<le> deadline \<and> dc_state c \<in> {DS_RENEWING, DS_REBINDING} then Some dc
         else
           (let deadline = min deadline lease_left
            in if dc_state c \<in> {DS_BOUND, DS_RENEWING} then do {
                 (c, n) \<leftarrow> state_transition env DS_RENEWING dc;
                 Some (c\<lparr>dc_renewing_timeout := deadline * 3 div 4, dc_rebinding_timeout := deadline div 4, dc_min_timeout := 0\<rparr>, n) }
               else do {
                 (c, n) \<leftarrow> state_transition env DS_REBINDING dc;
                 Some (c\<lparr>dc_rebinding_timeout := deadline, dc_min_timeout := 0\<rparr>, n) }))"

definition dhclient_force_renew :: "dc_env \<Rightarrow> u32 \<Rightarrow> dc \<Rightarrow> dc option" where
  "dhclient_force_renew env deadline dc =
     (let (c, n) = dc; dc = (c, dn_drain n)
      in if dhclient_is_bound c then do_force_renew env deadline dc
         else if dc_state c = DS_RELEASED then dhclient_init env 0 dc else Some dc)"

text \<open>
  When to wake: the milliseconds of the timer, 0 for at once, if one is set; and whether to wake when a frame arrives.
\<close>

definition dhclient_wait :: "dc_env \<Rightarrow> dhclient \<Rightarrow> u32 option \<times> bool \<times> dhclient" where
  "dhclient_wait env c =
     (if dc_min_timeout c \<noteq> UINT_MAX then
        (let wake = sat_add (dc_state_entered c) (dc_min_timeout c)
         in if uint wake \<le> de_now env then Some 0 else Some (sat_mul (sat_sub wake (of_int (de_now env))) 1000))
      else None,
      dc_state c \<in> {DS_SELECTING, DS_REQUESTING, DS_RENEWING, DS_REBINDING}, c\<lparr>dc_min_timeout := 1\<rparr>)"


section \<open>What an iteration may change\<close>

text \<open>The part of the client that only a transition or an acknowledgment changes.\<close>

definition dc_core :: "dhclient \<Rightarrow> dc_state \<times> u32 \<times> dhcp_msg option \<times> int \<times> u32 \<times> u32 \<times> u32" where
  "dc_core c = (dc_state c, dc_state_entered c, dc_binding c, dc_lease_expiration c, dc_bound_timeout c, dc_renewing_timeout c, dc_rebinding_timeout c)"

lemma core_updates [simp]:
  "dc_core (c\<lparr>dc_min_timeout := a\<rparr>) = dc_core c" "dc_core (c\<lparr>dc_received := i\<rparr>) = dc_core c" "dc_core (c\<lparr>dc_retransmit := a\<rparr>) = dc_core c"
  "dc_core (c\<lparr>dc_delay := a\<rparr>) = dc_core c" "dc_core (c\<lparr>dc_secs := a\<rparr>) = dc_core c" "dc_core (c\<lparr>dc_init_delay := a\<rparr>) = dc_core c"
  "dc_core (c\<lparr>dc_server_ip := a\<rparr>) = dc_core c" "dc_core (c\<lparr>dc_ipaddr := a\<rparr>) = dc_core c"
  by (simp_all add: dc_core_def)

lemma core_timeout [simp]: "dc_core (snd (dc_timeout env s c)) = dc_core c"
  by (simp add: dc_timeout_def)

lemma core_fields:
  assumes "dc_core c' = dc_core c"
  shows "dc_state c' = dc_state c" "dc_state_entered c' = dc_state_entered c" "dc_binding c' = dc_binding c"
    "dc_lease_expiration c' = dc_lease_expiration c" "dc_bound_timeout c' = dc_bound_timeout c"
    "dc_renewing_timeout c' = dc_renewing_timeout c" "dc_rebinding_timeout c' = dc_rebinding_timeout c"
  using assms by (simp_all add: dc_core_def)

lemma fuzz_in [simp]: "dn_in (snd (fuzz x k n)) = dn_in n" "dn_out (snd (fuzz x k n)) = dn_out n"
  by (simp_all add: fuzz_def random_range_def Let_def)

lemma do_send_keeps: "do_send_msg env msg (c, n) = Some (c', n') \<Longrightarrow> c' = c \<and> dn_in n' = dn_in n"
  by (auto simp: do_send_msg_def Let_def split: bind_splits if_splits)

lemma make_packet_core:
  "make_dhcpdiscover env c = Some (msg, c') \<Longrightarrow> dc_core c' = dc_core c"
  "make_dhcprequest env c = Some (msg, c') \<Longrightarrow> dc_core c' = dc_core c"
  by (auto simp: make_dhcpdiscover_def make_dhcprequest_def Let_def split: bind_splits if_splits)

lemma send_reliably_keeps:
  assumes "send_reliably env mk (c, n) = Some (c', n')" "\<And>c msg c'. mk env c = Some (msg, c') \<Longrightarrow> dc_core c' = dc_core c"
  shows "dc_core c' = dc_core c" "dn_in n' = dn_in n"
proof -
  obtain e c0 where t: "dc_timeout env (dc_retransmit c) c = (e, c0)" by fastforce
  have c0: "dc_core c0 = dc_core c" using core_timeout [of env "dc_retransmit c" c] t by simp
  have "dc_core c' = dc_core c \<and> dn_in n' = dn_in n"
  proof (cases e)
    case False
    then show ?thesis using assms(1) t c0 by (simp add: send_reliably_def)
  next
    case True
    obtain msg c1 where m: "mk env c0 = Some (msg, c1)" using assms(1) t True by (auto simp: send_reliably_def split: bind_splits)
    obtain msg' where m': "de_modify env msg = Some msg'" using assms(1) t True m by (auto simp: send_reliably_def split: bind_splits)
    obtain c2 n2 where s: "do_send_msg env msg' (c1, n) = Some (c2, n2)" using assms(1) t True m m' by (auto simp: send_reliably_def split: bind_splits)
    obtain d n3 where f: "fuzz (min (dc_max_timeout c2) (max 4 (dc_delay c2 * 2))) 1 n2 = (d, n3)" by fastforce
    have "dn_in n3 = dn_in n2" by (metis fuzz_in(1) f snd_conv)
    then show ?thesis using assms t True m m' s f do_send_keeps [OF s] c0 by (auto simp: send_reliably_def)
  qed
  then show "dc_core c' = dc_core c" "dn_in n' = dn_in n" by simp_all
qed

lemma do_receive_core: "do_receive_msg env (c, n) = Some (r, c', n') \<Longrightarrow> dc_core c' = dc_core c"
proof (induction "length (dn_in n)" arbitrary: c n rule: less_induct)
  case less
  note step = do_receive_msg.simps [of env c n]
  show ?case
  proof (cases "\<exists>frame xs. dc_received c < 50 \<and> dn_in n = Some frame # xs \<and> dhcp_of_frame env frame = Some None")
    case True
    then obtain frame xs where "dc_received c < 50" and x: "dn_in n = Some frame # xs" and "dhcp_of_frame env frame = Some None" by blast
    then have "do_receive_msg env (c\<lparr>dc_received := dc_received c + 1\<rparr>, n\<lparr>dn_in := xs\<rparr>) = Some (r, c', n')" using less.prems by (simp add: step)
    then show ?thesis using less.hyps [of "n\<lparr>dn_in := xs\<rparr>"] x by fastforce
  next
    case False
    then show ?thesis using less.prems unfolding step by (auto split: if_splits list.splits option.splits)
  qed
qed

lemma dhcp_receive_core: "dhcp_receive env msgs (c, n) = Some (r, c', n') \<Longrightarrow> dc_core c' = dc_core c"
proof (induction "length (dn_in n)" arbitrary: c n rule: less_induct)
  case less
  note step = dhcp_receive.simps [of env msgs c n]
  obtain r1 c1 n1 where d: "do_receive_msg env (c, n) = Some (r1, c1, n1)" using less.prems by (cases "do_receive_msg env (c, n)") (auto simp: step)
  note k = do_receive_core [OF d] do_receive_shorter [OF d]
  show ?case
  proof (cases r1)
    case None
    then show ?thesis using less.prems d k by (simp add: step)
  next
    case (Some msg)
    then show ?thesis using less.prems less.hyps [of n1 c1] d k by (fastforce simp: step split: if_splits)
  qed
qed

lemma dhcp_receive_type: "dhcp_receive env msgs (c, n) = Some (Some msg, c', n') \<Longrightarrow> dm_type msg \<in> set msgs \<and> dm_xid msg = dc_xid c'"
proof (induction "length (dn_in n)" arbitrary: c n rule: less_induct)
  case less
  note step = dhcp_receive.simps [of env msgs c n]
  obtain r1 c1 n1 where d: "do_receive_msg env (c, n) = Some (r1, c1, n1)" using less.prems by (cases "do_receive_msg env (c, n)") (auto simp: step)
  show ?case
  proof (cases r1)
    case None
    then show ?thesis using less.prems d by (simp add: step)
  next
    case (Some m)
    then show ?thesis using less.prems less.hyps [of n1 c1] d do_receive_shorter [OF d] by (fastforce simp: step split: if_splits)
  qed
qed

text \<open>A transition: the client is fresh in the new state, and has a binding if and only if that is a bound one.\<close>

definition dc_fresh :: "dc_env \<Rightarrow> dhclient \<Rightarrow> bool" where
  "dc_fresh env c \<longleftrightarrow> dc_state_entered c = of_int (de_now env)"

definition binding_inv :: "dhclient \<Rightarrow> bool" where
  "binding_inv c \<longleftrightarrow> dc_binding c \<noteq> None \<longleftrightarrow> dhclient_is_bound c"

lemma transition_result:
  assumes "state_transition env st (c, n) = Some (c', n')"
  shows "dc_state c' = st" "dc_fresh env c'" "length (dn_in n') \<le> length (dn_in n)"
    "st \<notin> {DS_SELECTING, DS_REQUESTING, DS_REBOOTING} \<Longrightarrow> n' = n"
    "dc_lease_expiration c' = dc_lease_expiration c" "dc_bound_timeout c' = dc_bound_timeout c"
    "dc_renewing_timeout c' = dc_renewing_timeout c" "dc_rebinding_timeout c' = dc_rebinding_timeout c" "dc_init_delay c' = dc_init_delay c"
  using assms length_drain [of n]
  by (auto simp: state_transition_def Let_def dc_fresh_def dhclient_is_bound_def split: if_splits)

lemma transition_binding:
  assumes "state_transition env st (c, n) = Some (c', n')" "dc_binding c \<noteq> None \<longleftrightarrow> dhclient_is_bound c \<or> st = DS_BOUND"
  shows "binding_inv c'"
  using assms by (auto simp: state_transition_def Let_def binding_inv_def dhclient_is_bound_def split: if_splits)


section \<open>An iteration\<close>

text \<open>The time at which a timer of \<open>secs\<close> seconds expires, where the addition does not overflow.\<close>

lemma uint_sat_add: "uint (sat_add x y) = min (uint x + uint y) (2 ^ 32 - 1)"
proof -
  have "uint (sat_add x y) = int (unat (sat_add x y))" by simp
  also have "\<dots> = min (int (unat x) + int (unat y)) (2 ^ 32 - 1)" unfolding unat_sat_add of_nat_min by simp
  finally show ?thesis by simp
qed

lemma timeout_expires: "de_now env < 2 ^ 32 - 1 \<Longrightarrow> fst (dc_timeout env secs c) \<longleftrightarrow> uint (dc_state_entered c) + uint secs \<le> de_now env"
  by (auto simp: dc_timeout_def uint_sat_add)

lemma fresh_timeout:
  assumes "0 \<le> de_now env" "de_now env < 2 ^ 32 - 1" "dc_fresh env c"
  shows "fst (dc_timeout env secs c) \<longleftrightarrow> secs = 0"
proof -
  have "uint (dc_state_entered c) = de_now env" using assms by (simp add: dc_fresh_def uint_word_of_int)
  then show ?thesis using timeout_expires [OF assms(2), of secs c] uint_0_iff [of secs] uint_ge_0 [of secs] by auto
qed

text \<open>The delay before the first message is never 0.\<close>

lemma init_fuzz: "fst (fuzz 2 1 n) \<noteq> 0"
proof -
  have "unat (dn_random n 0) mod 3 \<in> {0, 1, 2}" by auto
  then show ?thesis by (auto simp: fuzz_def random_range_def Let_def word_le_nat_alt)
qed

text \<open>A new lease: the acknowledgment passed the checks, and the timers are computed from it.\<close>

definition new_lease :: "dc_env \<Rightarrow> dhclient \<Rightarrow> bool" where
  "new_lease env c \<longleftrightarrow> (\<exists>msg n lease t1 t2 n'. validate_offered_options env msg \<and> dm_type msg = DHCPACK
     \<and> lease_times msg n = (lease, t1, t2, n') \<and> dc_lease_expiration c = uint (sat_add (of_int (de_now env)) lease)
     \<and> dc_bound_timeout c = t1 \<and> dc_renewing_timeout c = t2 - t1 \<and> dc_rebinding_timeout c = lease - t2)"

lemma lease_times_in: "lease_times msg n = (lease, t1, t2, n') \<Longrightarrow> dn_in n' = dn_in n"
  by (auto simp: lease_times_def calc_t2_def calc_t1_def Let_def case_prod_beta split: if_splits)

lemma receive_ack_false:
  assumes "receive_ack env (c, n) = Some (False, c', n')"
  shows "dc_core c' = dc_core c" "length (dn_in n') \<le> length (dn_in n)"
proof -
  obtain r c1 n1 where d: "dhcp_receive env [DHCPACK, DHCPNAK] (c, n) = Some (r, c1, n1)"
    using assms by (cases "dhcp_receive env [DHCPACK, DHCPNAK] (c, n)") (auto simp: receive_ack_def)
  have "c' = c1 \<and> n' = n1"
  proof (cases r)
    case None
    then show ?thesis using assms d by (simp add: receive_ack_def)
  next
    case (Some msg)
    then show ?thesis using assms d by (auto simp: receive_ack_def Let_def split: bind_splits if_splits prod.splits)
  qed
  then show "dc_core c' = dc_core c" "length (dn_in n') \<le> length (dn_in n)" using dhcp_receive_core [OF d] dhcp_receive_shorter [OF d] by simp_all
qed

lemma ack_received:
  assumes "dhcp_receive env [DHCPACK, DHCPNAK] (c, n) = Some (Some msg, c1, n1)" "dm_type msg \<noteq> DHCPNAK" "validate_offered_options env msg"
    "dhcp_msg_copy msg = Some b" "lease_times msg n1 = (lease, t1, t2, n2)"
  obtains c2 where "receive_ack env (c, n) = do { dc \<leftarrow> state_transition env DS_BOUND (c2, n2); Some (True, dc) }"
    "dc_binding c2 = Some b" "dc_lease_expiration c2 = uint (sat_add (of_int (de_now env)) lease)"
    "dc_bound_timeout c2 = t1" "dc_renewing_timeout c2 = t2 - t1" "dc_rebinding_timeout c2 = lease - t2"
proof -
  have "\<not> lease < MIN_ACCEPTABLE_LEASE"
    using assms(3,5) by (auto simp: validate_offered_options_def lease_times_def Let_def case_prod_beta split: option.splits)
  define c2 where "c2 = c1\<lparr>dc_changed := (case dc_binding c1 of Some old \<Rightarrow> dc_changed c1 \<or> \<not> same_binding old msg | None \<Rightarrow> dc_changed c1),
    dc_binding := Some b, dc_lease_expiration := uint (sat_add (of_int (de_now env)) lease),
    dc_bound_timeout := t1, dc_renewing_timeout := t2 - t1, dc_rebinding_timeout := lease - t2, dc_ipaddr := dm_yiaddr msg,
    dc_netmask := (case dhcp_msg_get_ip DHCP_CODE_SUBNET_MASK 0 msg of Some m \<Rightarrow> m | None \<Rightarrow> dc_netmask c1),
    dc_router := (case dhcp_msg_get_ip DHCP_CODE_ROUTER 0 msg of Some r \<Rightarrow> r | None \<Rightarrow> 0)\<rparr>"
  have "receive_ack env (c, n) = do { dc \<leftarrow> state_transition env DS_BOUND (c2, n2); Some (True, dc) }"
    using assms \<open>\<not> lease < MIN_ACCEPTABLE_LEASE\<close> unfolding c2_def by (simp add: receive_ack_def Let_def)
  then show thesis by (rule that) (simp_all add: c2_def)
qed

lemma receive_ack_true:
  assumes "receive_ack env (c, n) = Some (True, c', n')" "binding_inv c"
  shows "length (dn_in n') < length (dn_in n)" "dc_fresh env c'" "binding_inv c'"
    "dc_state c' = DS_INIT \<or> dc_state c' = DS_BOUND \<and> new_lease env c'"
proof -
  obtain r c1 n1 where d: "dhcp_receive env [DHCPACK, DHCPNAK] (c, n) = Some (r, c1, n1)"
    using assms by (cases "dhcp_receive env [DHCPACK, DHCPNAK] (c, n)") (auto simp: receive_ack_def)
  then obtain msg where msg: "r = Some msg" using assms(1) by (cases r) (auto simp: receive_ack_def)
  have n1: "length (dn_in n1) < length (dn_in n)" using dhcp_receive_shorter [OF d] msg by simp
  have c1: "binding_inv c1" using assms(2) core_fields [OF dhcp_receive_core [OF d]] by (simp add: binding_inv_def dhclient_is_bound_def)
  have all: "length (dn_in n') < length (dn_in n) \<and> dc_fresh env c' \<and> binding_inv c' \<and> (dc_state c' = DS_INIT \<or> dc_state c' = DS_BOUND \<and> new_lease env c')"
  proof (cases "dm_type msg = DHCPNAK")
    case True
    then have t: "state_transition env DS_INIT (c1, n1) = Some (c', n')" using assms(1) d msg by (auto simp: receive_ack_def)
    then show ?thesis using n1 c1 transition_result [OF t] transition_binding [OF t] by (simp add: binding_inv_def)
  next
    case nak: False
    have type: "dm_type msg = DHCPACK" using dhcp_receive_type [of env "[DHCPACK, DHCPNAK]" c n msg c1 n1] d msg nak by simp
    have v: "validate_offered_options env msg" using assms(1) d msg nak by (auto simp: receive_ack_def split: if_splits)
    obtain b where b: "dhcp_msg_copy msg = Some b" using assms(1) d msg nak v by (auto simp: receive_ack_def Let_def split: bind_splits)
    obtain lease t1 t2 n2 where l: "lease_times msg n1 = (lease, t1, t2, n2)" by (cases "lease_times msg n1") auto
    obtain c2 where r: "receive_ack env (c, n) = do { dc \<leftarrow> state_transition env DS_BOUND (c2, n2); Some (True, dc) }" and
      c2: "dc_binding c2 = Some b" "dc_lease_expiration c2 = uint (sat_add (of_int (de_now env)) lease)"
      "dc_bound_timeout c2 = t1" "dc_renewing_timeout c2 = t2 - t1" "dc_rebinding_timeout c2 = lease - t2"
      by (rule ack_received [OF d [unfolded msg] nak v b l])
    then have t: "state_transition env DS_BOUND (c2, n2) = Some (c', n')" using assms(1) by (auto split: bind_splits)
    have "new_lease env c'" unfolding new_lease_def using v type l transition_result(5-8) [OF t] c2 by metis
    moreover have "n' = n2" using transition_result(4) [OF t] by simp
    ultimately show ?thesis using n1 lease_times_in [OF l] transition_result [OF t] transition_binding [OF t] c2(1) by simp
  qed
  then show "length (dn_in n') < length (dn_in n)" "dc_fresh env c'" "binding_inv c'" "dc_state c' = DS_INIT \<or> dc_state c' = DS_BOUND \<and> new_lease env c'"
    by blast+
qed

lemma take_offers_result:
  assumes "take_offers env (c, n) = Some (c', n')" "binding_inv c" "\<not> dhclient_is_bound c"
  shows "length (dn_in n') \<le> length (dn_in n) \<and> binding_inv c'
    \<and> (dc_core c' = dc_core c \<or> length (dn_in n') < length (dn_in n) \<and> dc_state c' = DS_REQUESTING \<and> dc_fresh env c')"
  using assms
proof (induction "length (dn_in n)" arbitrary: c n rule: less_induct)
  case less
  note step = take_offers.simps [of env c n]
  obtain r c1 n1 where d: "dhcp_receive env [DHCPOFFER] (c, n) = Some (r, c1, n1)"
    using less.prems(1) by (cases "dhcp_receive env [DHCPOFFER] (c, n)") (auto simp: step)
  note k = dhcp_receive_core [OF d] dhcp_receive_shorter [OF d]
  have c1: "binding_inv c1" "\<not> dhclient_is_bound c1" using less.prems(2,3) core_fields [OF k(1)] by (simp_all add: binding_inv_def dhclient_is_bound_def)
  show ?case
  proof (cases r)
    case None
    then show ?thesis using less.prems d k c1 by (simp add: step)
  next
    case (Some msg)
    show ?thesis
    proof (cases "validate_offered_options env msg \<and> dhcp_msg_get_ip DHCP_CODE_SERVER_IDENTIFIER 0 msg \<noteq> None")
      case False
      then have "take_offers env (c1, n1) = Some (c', n')" using less.prems(1) d Some by (auto simp: step split: if_splits)
      then show ?thesis using less.hyps [of n1 c1] k Some c1 by fastforce
    next
      case True
      then obtain ip where "dhcp_msg_get_ip DHCP_CODE_SERVER_IDENTIFIER 0 msg = Some ip" by blast
      then have t: "state_transition env DS_REQUESTING (c1\<lparr>dc_server_ip := ip, dc_ipaddr := dm_yiaddr msg\<rparr>, n1) = Some (c', n')"
        using less.prems(1) d Some True by (simp add: step)
      have "binding_inv c'" using c1 by (intro transition_binding [OF t]) (simp add: binding_inv_def dhclient_is_bound_def)
      then show ?thesis using transition_result(1-3) [OF t] k Some by simp
    qed
  qed
qed

text \<open>
  An iteration ends in the same state, its core as it was and the time of the state not over; or it enters another state, and then either a
  frame was used up, or the time of the old state was over.
\<close>

definition state_secs :: "dhclient \<Rightarrow> u32 option" where
  "state_secs c = (case dc_state c of DS_BOUND \<Rightarrow> Some (dc_bound_timeout c) | DS_RENEWING \<Rightarrow> Some (dc_renewing_timeout c)
     | DS_REBINDING \<Rightarrow> Some (dc_rebinding_timeout c) | _ \<Rightarrow> None)"

definition over :: "dc_env \<Rightarrow> dhclient \<Rightarrow> bool" where
  "over env c \<longleftrightarrow> (case state_secs c of Some secs \<Rightarrow> fst (dc_timeout env secs c) | None \<Rightarrow> False)"

fun next_state :: "dc_state \<Rightarrow> dc_state" where
  "next_state DS_BOUND = DS_RENEWING"
| "next_state DS_RENEWING = DS_REBINDING"
| "next_state _ = DS_INIT"

text \<open>The transitions, as in the diagram of RFC 2131.\<close>

fun dc_edge :: "dc_state \<Rightarrow> dc_state \<Rightarrow> bool" where
  "dc_edge DS_INIT s \<longleftrightarrow> s = DS_SELECTING"
| "dc_edge DS_INIT_REBOOT s \<longleftrightarrow> s = DS_REBOOTING"
| "dc_edge DS_REBOOTING s \<longleftrightarrow> s \<in> {DS_BOUND, DS_INIT}"
| "dc_edge DS_SELECTING s \<longleftrightarrow> s \<in> {DS_REQUESTING, DS_INIT}"
| "dc_edge DS_REQUESTING s \<longleftrightarrow> s \<in> {DS_BOUND, DS_INIT}"
| "dc_edge DS_BOUND s \<longleftrightarrow> s = DS_RENEWING"
| "dc_edge DS_RENEWING s \<longleftrightarrow> s \<in> {DS_BOUND, DS_REBINDING, DS_INIT}"
| "dc_edge DS_REBINDING s \<longleftrightarrow> s \<in> {DS_BOUND, DS_INIT}"
| "dc_edge DS_RELEASED s \<longleftrightarrow> False"

definition dc_stays :: "dc_env \<Rightarrow> dhclient \<Rightarrow> dhclient \<Rightarrow> bool" where
  "dc_stays env c c' \<longleftrightarrow> dc_core c' = dc_core c \<and> \<not> over env c"

definition timers_kept :: "dhclient \<Rightarrow> dhclient \<Rightarrow> bool" where
  "timers_kept c c' \<longleftrightarrow> dc_lease_expiration c' = dc_lease_expiration c \<and> dc_bound_timeout c' = dc_bound_timeout c
     \<and> dc_renewing_timeout c' = dc_renewing_timeout c \<and> dc_rebinding_timeout c' = dc_rebinding_timeout c"

definition dc_moves :: "dc_env \<Rightarrow> dhclient \<times> dc_net \<Rightarrow> dhclient \<times> dc_net \<Rightarrow> bool" where
  "dc_moves env = (\<lambda>(c, n) (c', n'). dc_edge (dc_state c) (dc_state c') \<and> dc_fresh env c'
     \<and> (dhclient_is_bound c' \<longrightarrow> dc_state c' = DS_BOUND \<and> new_lease env c' \<or> over env c \<and> dc_state c' = next_state (dc_state c) \<and> timers_kept c c')
     \<and> (length (dn_in n') < length (dn_in n) \<or> over env c \<and> dc_state c' = next_state (dc_state c) \<or> \<not> dc_fresh env c))"

lemma over_cong:
  assumes "dc_core c' = dc_core c"
  shows "over env c' = over env c"
  by (cases "dc_state c") (simp_all add: over_def state_secs_def dc_timeout_def core_fields [OF assms])

lemma timeout_split:
  assumes "dc_timeout env s c = (e, c')"
  shows "e = fst (dc_timeout env s c)" "dc_core c' = dc_core c" "dc_init_delay c' = dc_init_delay c"
  using assms core_timeout [of env s c] by (auto simp: dc_timeout_def)

lemma await_ack_result:
  assumes "await_ack env secs next (c, n) = Some (c', n')" "binding_inv c" "0 \<le> de_now env" "de_now env < 2 ^ 32 - 1"
    and st: "state_secs c = None \<and> secs = (\<lambda>_. 60) \<and> next = DS_INIT \<and> dc_state c \<in> {DS_REBOOTING, DS_REQUESTING}
      \<or> dc_state c = DS_RENEWING \<and> secs = dc_renewing_timeout \<and> next = DS_REBINDING
      \<or> dc_state c = DS_REBINDING \<and> secs = dc_rebinding_timeout \<and> next = DS_INIT"
  shows "length (dn_in n') \<le> length (dn_in n) \<and> binding_inv c' \<and> (dc_stays env c c' \<or> dc_moves env (c, n) (c', n'))"
proof -
  obtain c1 n1 where s: "send_reliably env make_dhcprequest (c, n) = Some (c1, n1)"
    using assms(1) by (auto simp: await_ack_def split: bind_splits)
  have k1: "dc_core c1 = dc_core c" "dn_in n1 = dn_in n" using send_reliably_keeps [OF s] make_packet_core(2) by blast+
  have b1: "binding_inv c1" using assms(2) core_fields [OF k1(1)] by (simp add: binding_inv_def dhclient_is_bound_def)
  obtain r c2 n2 where a: "receive_ack env (c1, n1) = Some (r, c2, n2)" using assms(1) s by (auto simp: await_ack_def split: bind_splits)
  show ?thesis
  proof (cases r)
    case True
    then have e: "c' = c2" "n' = n2" using assms(1) s a by (simp_all add: await_ack_def)
    have a': "receive_ack env (c1, n1) = Some (True, c2, n2)" using a True by simp
    note t = receive_ack_true [OF a' b1]
    have "dc_edge (dc_state c) (dc_state c')" using t(4) st e by auto
    moreover have "dhclient_is_bound c' \<longrightarrow> dc_state c' = DS_BOUND \<and> new_lease env c'" using t(4) e by (auto simp: dhclient_is_bound_def)
    ultimately have "dc_moves env (c, n) (c', n')" using t(1,2) e k1(2) by (simp add: dc_moves_def)
    then show ?thesis using t(1,3) e k1(2) by simp
  next
    case False
    have a': "receive_ack env (c1, n1) = Some (False, c2, n2)" using a False by simp
    note f = receive_ack_false [OF a']
    obtain e c3 where t: "dc_timeout env (secs c2) c2 = (e, c3)" by fastforce
    note t' = timeout_split [OF t]
    have k3: "dc_core c3 = dc_core c" using t' f(1) k1(1) by simp
    have b3: "binding_inv c3" using assms(2) core_fields [OF k3] by (simp add: binding_inv_def dhclient_is_bound_def)
    have k2: "dc_core c2 = dc_core c" using f(1) k1(1) by simp
    have ee: "e \<longleftrightarrow> fst (dc_timeout env (secs c) c)" if "secs c2 = secs c" using t'(1) that core_fields(2) [OF k2] by (simp add: dc_timeout_def)
    have sc: "secs c2 = secs c" using st core_fields [OF k2] by auto
    show ?thesis
    proof (cases e)
      case False
      then have "over env c = False" using st ee [OF sc] by (auto simp: over_def state_secs_def)
      then show ?thesis using assms(1) s a \<open>\<not> r\<close> t False k1(2) k3 b3 f(2) by (auto simp: await_ack_def dc_stays_def)
    next
      case True
      then have tr: "state_transition env next (c3, n2) = Some (c', n')" using assms(1) s a \<open>\<not> r\<close> t by (auto simp: await_ack_def)
      note tr' = transition_result [OF tr]
      have kt: "timers_kept c c'" using tr'(5-8) core_fields [OF k3] by (simp add: timers_kept_def)
      have b': "binding_inv c'" using transition_binding [OF tr] b3 st unfolding binding_inv_def by fastforce
      have "\<not> dc_fresh env c \<or> over env c \<and> next = next_state (dc_state c)"
        using fresh_timeout [OF assms(3,4)] ee [OF sc] True st by (auto simp: over_def state_secs_def)
      moreover have "dc_edge (dc_state c) next" "dhclient_is_bound c' \<longrightarrow> over env c \<and> next = next_state (dc_state c)"
        using st tr'(1) ee [OF sc] True by (auto simp: dhclient_is_bound_def over_def state_secs_def)
      ultimately have "dc_moves env (c, n) (c', n')" using tr'(1,2) kt by (auto simp: dc_moves_def)
      then show ?thesis using tr'(3) b' f(2) k1(2) by simp
    qed
  qed
qed

lemma moves_into_free:
  assumes "state_transition env st (c1, n1) = Some (c', n')" "\<not> dc_fresh env c" "dc_edge (dc_state c) st" "\<not> dhclient_is_bound c" "st \<noteq> DS_BOUND"
  shows "dc_moves env (c, n) (c', n')"
  using assms transition_result(1,2) [OF assms(1)] by (cases "dc_state c") (auto simp: dc_moves_def dhclient_is_bound_def)

lemma do_init_result:
  assumes "do_init env next (c, n) = Some (c', n')" "binding_inv c" "0 \<le> de_now env" "de_now env < 2 ^ 32 - 1"
    and st: "dc_state c = DS_INIT \<and> next = DS_SELECTING \<or> dc_state c = DS_INIT_REBOOT \<and> next = DS_REBOOTING"
  shows "length (dn_in n') \<le> length (dn_in n) \<and> binding_inv c' \<and> (dc_stays env c c' \<or> dc_moves env (c, n) (c', n'))"
proof -
  obtain c1 n1 where d: "(if dc_init_delay c = 0 then (let (d, n) = fuzz 2 1 n in (c\<lparr>dc_init_delay := d\<rparr>, n)) else (c, n)) = (c1, n1)" by fastforce
  then have k1: "dc_core c1 = dc_core c" "dn_in n1 = dn_in n" "dc_init_delay c1 \<noteq> 0"
    using init_fuzz [of n] fuzz_in [of 2 1 n] by (auto simp: Let_def case_prod_beta split: if_splits)
  obtain e c2 where t: "dc_timeout env (dc_init_delay c1) c1 = (e, c2)" by fastforce
  note t' = timeout_split [OF t]
  have k2: "dc_core c2 = dc_core c" using t' k1 by simp
  have b2: "binding_inv c2" "\<not> dhclient_is_bound c2" using assms(2) st core_fields [OF k2] by (auto simp: binding_inv_def dhclient_is_bound_def)
  have o: "\<not> over env c" using st by (auto simp: over_def state_secs_def)
  show ?thesis
  proof (cases e)
    case False
    then show ?thesis using assms(1) d t k1 k2 b2 o by (simp add: do_init_def dc_stays_def)
  next
    case True
    then have tr: "state_transition env next (c2, n1) = Some (c', n')" using assms(1) d t by (simp add: do_init_def)
    have "\<not> dc_fresh env c"
      using fresh_timeout [OF assms(3,4), of c1 "dc_init_delay c1"] t'(1) True k1(3) core_fields(2) [OF k1(1)] by (auto simp: dc_fresh_def)
    then have "dc_moves env (c, n) (c', n')" using st by (intro moves_into_free [OF tr]) (auto simp: dhclient_is_bound_def)
    moreover have "binding_inv c'" using b2 st by (intro transition_binding [OF tr]) (auto simp: binding_inv_def)
    ultimately show ?thesis using transition_result(3) [OF tr] k1(2) by simp
  qed
qed

lemma run_SELECTING_result:
  assumes "run_SELECTING env (c, n) = Some (c', n')" "binding_inv c" "0 \<le> de_now env" "de_now env < 2 ^ 32 - 1" and st: "dc_state c = DS_SELECTING"
  shows "length (dn_in n') \<le> length (dn_in n) \<and> binding_inv c' \<and> (dc_stays env c c' \<or> dc_moves env (c, n) (c', n'))"
proof -
  obtain c1 n1 where s: "send_reliably env make_dhcpdiscover (c, n) = Some (c1, n1)"
    using assms(1) by (auto simp: run_SELECTING_def split: bind_splits)
  have k1: "dc_core c1 = dc_core c" "dn_in n1 = dn_in n" using send_reliably_keeps [OF s] make_packet_core(1) by blast+
  have o: "\<not> over env c" using st by (simp add: over_def state_secs_def)
  have nb: "\<not> dhclient_is_bound c" using st by (simp add: dhclient_is_bound_def)
  have keeps: ?thesis if off: "take_offers env (c2, n1) = Some (c', n')" and k2: "dc_core c2 = dc_core c" for c2
  proof -
    have "binding_inv c2" "\<not> dhclient_is_bound c2" using assms(2) nb core_fields [OF k2] by (auto simp: binding_inv_def dhclient_is_bound_def)
    from take_offers_result [OF off this] show ?thesis using o k2 k1(2) st
      by (auto simp: dc_stays_def dc_moves_def dhclient_is_bound_def)
  qed
  obtain e c2 where t: "dc_timeout env 60 c1 = (e, c2)" by fastforce
  note t' = timeout_split [OF t]
  show ?thesis
  proof (cases "dc_server_ip c1 \<noteq> 0 \<and> e")
    case False
    then have "take_offers env (c1, n1) = Some (c', n') \<or> take_offers env (c2, n1) = Some (c', n')" using assms(1) s t by (auto simp: run_SELECTING_def split: if_splits)
    then show ?thesis using keeps k1(1) t'(2) by auto
  next
    case True
    obtain c3 n3 where tr: "state_transition env DS_INIT (c2\<lparr>dc_server_ip := 0\<rparr>, n1) = Some (c3, n3)" and off: "take_offers env (c3, n3) = Some (c', n')"
      using assms(1) s t True by (auto simp: run_SELECTING_def split: bind_splits)
    note tr' = transition_result [OF tr]
    have nf: "\<not> dc_fresh env c"
      using fresh_timeout [OF assms(3,4), of c1 60] t'(1) True core_fields(2) [OF k1(1)] by (auto simp: dc_fresh_def)
    have "binding_inv c3" using assms(2) nb core_fields [OF t'(2)] core_fields [OF k1(1)]
      by (intro transition_binding [OF tr]) (simp add: binding_inv_def dhclient_is_bound_def)
    moreover have "\<not> dhclient_is_bound c3" using tr'(1) by (simp add: dhclient_is_bound_def)
    ultimately have f: "length (dn_in n') \<le> length (dn_in n3)" "binding_inv c'"
      "dc_core c' = dc_core c3 \<or> dc_state c' = DS_REQUESTING \<and> dc_fresh env c'" using take_offers_result [OF off] by auto
    have "dc_fresh env c' \<and> dc_state c' \<in> {DS_INIT, DS_REQUESTING}" using f(3) tr'(1,2) core_fields [of c' c3] by (auto simp: dc_fresh_def)
    then have "dc_moves env (c, n) (c', n')" using st nf by (auto simp: dc_moves_def dhclient_is_bound_def)
    then show ?thesis using f(1,2) tr'(3) k1(2) by simp
  qed
qed

lemma run_BOUND_result:
  assumes "run_BOUND env (c, n) = Some (c', n')" "binding_inv c" "0 \<le> de_now env" "de_now env < 2 ^ 32 - 1" and st: "dc_state c = DS_BOUND"
  shows "length (dn_in n') \<le> length (dn_in n) \<and> binding_inv c' \<and> (dc_stays env c c' \<or> dc_moves env (c, n) (c', n'))"
proof -
  obtain e c1 where t: "dc_timeout env (dc_bound_timeout c) c = (e, c1)" by fastforce
  note t' = timeout_split [OF t]
  have b1: "binding_inv c1" "dhclient_is_bound c1" using assms(2) st core_fields [OF t'(2)] by (auto simp: binding_inv_def dhclient_is_bound_def)
  have o: "over env c \<longleftrightarrow> e" using st t'(1) by (simp add: over_def state_secs_def)
  show ?thesis
  proof (cases e)
    case False
    then show ?thesis using assms(1) t t'(2) b1 o by (simp add: run_BOUND_def dc_stays_def)
  next
    case True
    then have tr: "state_transition env DS_RENEWING (c1, n) = Some (c', n')" using assms(1) t by (simp add: run_BOUND_def)
    have "binding_inv c'" using b1 by (intro transition_binding [OF tr]) (simp add: binding_inv_def)
    then show ?thesis using transition_result [OF tr] core_fields [OF t'(2)] o True st by (auto simp: dc_moves_def timers_kept_def)
  qed
qed

text \<open>The step that all facts on runs rest on.\<close>

lemma run_dc_state_result:
  assumes "run_dc_state env (c, n) = Some (c', n')" "binding_inv c" "0 \<le> de_now env" "de_now env < 2 ^ 32 - 1"
  shows "length (dn_in n') \<le> length (dn_in n) \<and> binding_inv c' \<and> (dc_stays env c c' \<or> dc_moves env (c, n) (c', n'))"
proof (cases "dc_state c")
  case DS_INIT
  then show ?thesis using assms(1) by (intro do_init_result [OF _ assms(2-4), of DS_SELECTING]) (simp_all add: run_dc_state_def)
next
  case DS_INIT_REBOOT
  then show ?thesis using assms(1) by (intro do_init_result [OF _ assms(2-4), of DS_REBOOTING]) (simp_all add: run_dc_state_def)
next
  case DS_REBOOTING
  then show ?thesis using assms(1) by (intro await_ack_result [OF _ assms(2-4), of "\<lambda>_. 60" DS_INIT]) (simp_all add: run_dc_state_def state_secs_def)
next
  case DS_SELECTING
  then show ?thesis using assms(1) by (intro run_SELECTING_result [OF _ assms(2-4)]) (simp_all add: run_dc_state_def)
next
  case DS_REQUESTING
  then show ?thesis using assms(1) by (intro await_ack_result [OF _ assms(2-4), of "\<lambda>_. 60" DS_INIT]) (simp_all add: run_dc_state_def state_secs_def)
next
  case DS_BOUND
  then show ?thesis using assms(1) by (intro run_BOUND_result [OF _ assms(2-4)]) (simp_all add: run_dc_state_def)
next
  case DS_RENEWING
  then show ?thesis using assms(1) by (intro await_ack_result [OF _ assms(2-4), of dc_renewing_timeout DS_REBINDING]) (simp_all add: run_dc_state_def)
next
  case DS_REBINDING
  then show ?thesis using assms(1) by (intro await_ack_result [OF _ assms(2-4), of dc_rebinding_timeout DS_INIT]) (simp_all add: run_dc_state_def)
next
  case DS_RELEASED
  then show ?thesis using assms by (simp add: run_dc_state_def dc_stays_def over_def state_secs_def)
qed

section \<open>Frames\<close>

text \<open>A datagram from the port of a server to the port of a client, in an unfragmented IP packet in an Ethernet frame.\<close>

definition server_headers :: "eth_addr \<Rightarrow> eth_addr \<Rightarrow> u16 \<Rightarrow> u16 \<Rightarrow> u32 \<Rightarrow> u32 \<Rightarrow> u16 \<Rightarrow> u16 \<Rightarrow> u8 list" where
  "server_headers d s ip_len ip_csum src dst udp_len udp_csum =
     eth_bytes d @ eth_bytes s @ le16 (htons ETH_TYPE_IP)
     @ [0x45, 0] @ le16 ip_len @ le16 0 @ le16 (htons 0x4000) @ [64, 17] @ le16 ip_csum @ le32 src @ le32 dst
     @ le16 (htons 67) @ le16 (htons 68) @ le16 udp_len @ le16 udp_csum"

lemma server_headers_read:
  fixes d s ip_len ip_csum src dst udp_len udp_csum bs
  defines "f \<equiv> server_headers d s ip_len ip_csum src dst udp_len udp_csum @ bs"
  shows "ld_eth f 0 = d" "ld16 f 12 = htons ETH_TYPE_IP" "ld8 f 14 = 0x45" "ld8 f 15 = 0" "ld16 f 20 = htons 0x4000" "ld8 f 23 = 17"
    "ld16 f 36 = htons 68" "length f = 42 + length bs" "drop 42 f = bs"
proof -
  show "ld_eth f 0 = d" using ld_eth_bytes [of 0 "[]" d] by (simp add: f_def server_headers_def)
  show "ld16 f 12 = htons ETH_TYPE_IP" "ld8 f 14 = 0x45" "ld8 f 15 = 0" "ld16 f 20 = htons 0x4000" "ld8 f 23 = 17" "ld16 f 36 = htons 68"
    unfolding f_def server_headers_def append_assoc
    by (simp_all add: ld_right ld_first del: append_Cons append_Nil) (simp_all add: ld8_def ld_right ld_first)
  show "length f = 42 + length bs" "drop 42 f = bs" by (simp_all add: f_def server_headers_def)
qed

lemma server_frame_received:
  assumes "d = ETH_BROADCAST \<or> d = de_etheraddr env"
  shows "dhcp_of_frame env (server_headers d s ip_len ip_csum src dst udp_len udp_csum @ bs) =
    map_option (\<lambda>r. case r of Inl error \<Rightarrow> None | Inr msg \<Rightarrow> Some msg) (dhcp_parse (de_ptr env) bs)"
proof -
  define f where "f = server_headers d s ip_len ip_csum src dst udp_len udp_csum @ bs"
  note rd = server_headers_read [of d s ip_len ip_csum src dst udp_len udp_csum bs, folded f_def]
  define b where "b = (ofpbuf_use f)\<lparr>ob_size := length f\<rparr>"
  have b: "ob_base b = f" "ob_data b = 0" "ob_size b = 42 + length bs" using rd(8) by (simp_all add: b_def ofpbuf_use_def)
  have e: "pull_eth b = (Some 0, b\<lparr>ob_data := 14, ob_size := 28 + length bs\<rparr>)"
    by (simp add: pull_eth_def ofpbuf_try_pull_def ofpbuf_pull_def b)
  have cut: "\<not> ntohs (htons ETH_TYPE_IP) < OFP_DL_TYPE_ETH2_CUTOFF" "htons ETH_TYPE_IP \<noteq> htons ETH_TYPE_VLAN" by code_simp+
  have nf: "\<not> IP_IS_FRAGMENT (htons 0x4000)" by code_simp
  have ihl: "unat ((0x45 :: u8) AND 15) * 4 = 20" by code_simp
  obtain b' flow where x: "flow_extract b 0 = (False, b', flow)" and b': "ob_base b' = f" "ob_data b' = 0" "ob_size b' = 42 + length bs"
      "ob_l3 b' = Some 14" "ob_l7 b' = Some 42"
    and flow: "fl_dl_type flow = htons ETH_TYPE_IP" "fl_nw_proto flow = 17" "fl_tp_dst flow = htons 68" "fl_dl_dst flow = d"
    using rd cut nf ihl
    by (simp add: flow_extract_def e fe_dl_type_def fe_vlan_def fe_ip_def pull_ip_def ofpbuf_pull_def fe_transport_def pull_udp_def
        ofpbuf_try_pull_def b Let_def)
  have p: "ofpbuf_pull b' 42 = Some (0, b'\<lparr>ob_data := 42, ob_size := length bs\<rparr>)" using b' by (simp add: ofpbuf_pull_def)
  have c: "contents (b'\<lparr>ob_data := 42, ob_size := length bs\<rparr>) = bs" using b' rd(9) by (simp add: contents_def)
  have "for_client env flow" using flow assms by (auto simp: for_client_def)
  then show ?thesis using x b' nf rd(5) p c
    by (cases "dhcp_parse (de_ptr env) bs") (simp_all add: dhcp_of_frame_def f_def [symmetric] b_def [symmetric])
qed

section \<open>Calls do not fail\<close>

text \<open>What is sent, and that sending does not fail: the headers fit into the room that was reserved.\<close>

definition client_frame :: "dc_env \<Rightarrow> u32 \<Rightarrow> u8 list \<Rightarrow> u8 list" where
  "client_frame env src bs =
     eth_bytes ETH_BROADCAST @ eth_bytes (de_etheraddr env) @ le16 (htons ETH_TYPE_IP)
     @ ip_header_bytes (length bs) src (csum (ip_header_bytes (length bs) src 0)) @ udp_header_bytes (length bs) (udp_checksum src bs) @ bs"

lemma push_room: "length p \<le> ob_data b \<Longrightarrow> \<exists>b'. ofpbuf_push b p = Some (ob_data b - length p, b') \<and> ob_data b' = ob_data b - length p"
  by (simp add: ofpbuf_push_def ofpbuf_push_uninit_def ofpbuf_prealloc_headroom_def ofpbuf_headroom_def)

lemma length_headers [simp]: "length (ip_header_bytes k src s) = 20" "length (udp_header_bytes k s) = 8"
  by (simp_all add: ip_header_bytes_def udp_header_bytes_def)

lemma push_grown:
  assumes "ofpbuf_wf b" "length p \<le> ob_data b"
  shows "\<exists>q b'. ofpbuf_push b p = Some (q, b') \<and> ofpbuf_wf b' \<and> contents b' = p @ contents b \<and> ob_data b' = ob_data b - length p"
  using push_room [OF assms(2)] push_contents [OF assms(1)] by blast

lemma do_send_result:
  "do_send_msg env msg (c, n) = Some (c,
     if 42 + length (assembled_bytes msg) \<le> ETH_TOTAL_MAX
     then n\<lparr>dn_out := dn_out n @ [client_frame env (dhclient_get_ip c) (assembled_bytes msg)]\<rparr> else n)"
proof -
  let ?m = "de_junk env" let ?bs = "assembled_bytes msg" let ?src = "dhclient_get_ip c"
  let ?b0 = "(ofpbuf_init ?m ETH_TOTAL_MAX)\<lparr>ob_data := 42\<rparr>"
  have r: "ofpbuf_reserve ?m (ofpbuf_init ?m ETH_TOTAL_MAX) (14 + 20 + 8) = Some ?b0"
    by (simp add: ofpbuf_reserve_def ofpbuf_init_def ofpbuf_use_def ofpbuf_prealloc_tailroom_def ofpbuf_tailroom_def ofpbuf_end_def ofpbuf_tail_def)
  have w: "ofpbuf_wf ?b0" "contents ?b0 = []" by (simp_all add: ofpbuf_wf_def ofpbuf_init_def ofpbuf_use_def contents_def)
  obtain b where b: "dhcp_assemble ?m msg ?b0 = Some b" "ofpbuf_wf b" "contents b = ?bs" "ob_data b = 42"
    using assemble_grown [OF w(1), of ?m msg] w(2) by (auto simp: grown_def)
  have sz: "ob_size b = length ?bs" using length_contents [OF b(2)] b(3) by simp
  let ?nh = "ip_header_bytes (ob_size b) ?src (csum (ip_header_bytes (ob_size b) ?src 0))"
  let ?th = "udp_header_bytes (ob_size b) (udp_checksum ?src (contents b))"
  let ?eh = "eth_bytes ETH_BROADCAST @ eth_bytes (de_etheraddr env) @ le16 (htons ETH_TYPE_IP)"
  obtain q1 b1 where b1: "ofpbuf_push b ?th = Some (q1, b1)" "ofpbuf_wf b1" "contents b1 = ?th @ contents b" "ob_data b1 = 34"
    using push_grown [OF b(2), of ?th] b(4) by auto
  obtain q2 b2 where b2: "ofpbuf_push b1 ?nh = Some (q2, b2)" "ofpbuf_wf b2" "contents b2 = ?nh @ contents b1" "ob_data b2 = 14"
    using push_grown [OF b1(2), of ?nh] b1(4) by auto
  obtain q3 b3 where b3: "ofpbuf_push b2 ?eh = Some (q3, b3)" "ofpbuf_wf b3" "contents b3 = ?eh @ contents b2"
    using push_grown [OF b2(2), of ?eh] b2(4) by auto
  have c: "contents b3 = client_frame env ?src ?bs" using b3(3) b2(3) b1(3) b(3) sz by (simp add: client_frame_def)
  have "ob_size b3 = 42 + length ?bs" using length_contents [OF b3(2)] c by (simp add: client_frame_def)
  then show ?thesis using c unfolding do_send_msg_def Let_def by (simp only: prod.case r b(1) bind.bind_lunit b1(1) b2(1) b3(1))
qed

lemma put_ip_some: "dhcp_inv msg \<Longrightarrow> code < DHCP_N_OPTIONS \<Longrightarrow> \<exists>msg'. dhcp_msg_put_ip code ip msg = Some msg' \<and> dhcp_inv msg'"
  using dhcp_msg_put_result [of msg code "le32 ip"] by (auto simp: dhcp_msg_put_ip_def)

lemma msg_init_inv: "dhcp_inv (dhclient_msg_init env type c)" "dhcp_inv ((dhclient_msg_init env type c)\<lparr>dm_ciaddr := a\<rparr>)"
  using init_inv(1) by (simp_all add: dhclient_msg_init_def dhcp_inv_def)

lemma make_packet_some:
  "\<exists>msg c'. make_dhcpdiscover env c = Some (msg, c') \<and> dhcp_inv msg" "\<exists>msg c'. make_dhcprequest env c = Some (msg, c') \<and> dhcp_inv msg"
proof -
  let ?c = "c\<lparr>dc_secs := state_elapsed env c\<rparr>"
  obtain m0 where "dhcp_msg_put_ip DHCP_CODE_REQUESTED_IP (dc_ipaddr c) (dhclient_msg_init env DHCPDISCOVER ?c) = Some m0" "dhcp_inv m0"
    using put_ip_some [OF msg_init_inv(1) [of env DHCPDISCOVER ?c], of DHCP_CODE_REQUESTED_IP "dc_ipaddr c"] by auto
  then show "\<exists>msg c'. make_dhcpdiscover env c = Some (msg, c') \<and> dhcp_inv msg"
    using msg_init_inv(1) [of env DHCPDISCOVER ?c] by (cases "dc_ipaddr c = 0") (simp_all add: make_dhcpdiscover_def Let_def)
  let ?m = "(dhclient_msg_init env DHCPREQUEST c)\<lparr>dm_ciaddr := dhclient_get_ip c\<rparr>"
  have mi: "dhcp_inv ?m" by (rule msg_init_inv(2))
  obtain m1 where m1: "(if dc_state c = DS_REQUESTING then dhcp_msg_put_ip DHCP_CODE_SERVER_IDENTIFIER (dc_server_ip c) ?m else Some ?m) = Some m1" "dhcp_inv m1"
    using put_ip_some [OF mi, of DHCP_CODE_SERVER_IDENTIFIER "dc_server_ip c"] mi
    by (cases "dc_state c = DS_REQUESTING") auto
  obtain m2 where "dhcp_msg_put_ip DHCP_CODE_REQUESTED_IP (dc_ipaddr c) m1 = Some m2" "dhcp_inv m2"
    using put_ip_some [OF m1(2), of DHCP_CODE_REQUESTED_IP "dc_ipaddr c"] by auto
  then show "\<exists>msg c'. make_dhcprequest env c = Some (msg, c') \<and> dhcp_inv msg"
    unfolding make_dhcprequest_def Let_def m1(1) by simp
qed

text \<open>The hook may add anything to the message, and no frame that is there makes the parser read memory that it has freed.\<close>

definition hooks_ok :: "dc_env \<Rightarrow> bool" where
  "hooks_ok env \<longleftrightarrow> (\<forall>msg. dhcp_inv msg \<longrightarrow> de_modify env msg \<noteq> None)"

definition frames_ok :: "dc_env \<Rightarrow> dc_net \<Rightarrow> bool" where
  "frames_ok env n \<longleftrightarrow> (\<forall>frame. Some frame \<in> set (dn_in n) \<longrightarrow> dhcp_of_frame env frame \<noteq> None)"

lemma send_reliably_some:
  assumes "hooks_ok env" "\<And>c. \<exists>msg c'. mk env c = Some (msg, c') \<and> dhcp_inv msg"
  shows "\<exists>dc'. send_reliably env mk (c, n) = Some dc'"
proof -
  obtain e c0 where t: "dc_timeout env (dc_retransmit c) c = (e, c0)" by fastforce
  obtain msg c1 where m: "mk env c0 = Some (msg, c1)" "dhcp_inv msg" using assms(2) by blast
  obtain msg' where "de_modify env msg = Some msg'" using assms(1) m(2) by (auto simp: hooks_ok_def)
  then show ?thesis using t m(1) by (simp add: send_reliably_def do_send_result split: prod.split)
qed

lemma frames_ok_sub: "frames_ok env n \<Longrightarrow> set (dn_in n') \<subseteq> set (dn_in n) \<Longrightarrow> frames_ok env n'"
  by (auto simp: frames_ok_def)

lemma drain_sub: "set (dn_in (dn_drain n)) \<subseteq> set (dn_in n)"
  using set_drop_subset [of 1 "dropWhile (\<lambda>x. x \<noteq> None) (dn_in n)"] set_dropWhileD [of _ "\<lambda>x. x \<noteq> None" "dn_in n"]
  by (auto simp: dn_drain_def)

lemma dhcp_of_frame_inv: "dhcp_of_frame env frame = Some (Some msg) \<Longrightarrow> dhcp_inv msg"
  by (auto simp: dhcp_of_frame_def Let_def split: prod.splits if_splits option.splits bind_splits sum.splits dest: dhcp_parse_inv)

lemma do_receive_some:
  assumes "frames_ok env n"
  shows "\<exists>r c' n'. do_receive_msg env (c, n) = Some (r, c', n') \<and> frames_ok env n' \<and> (case r of Some msg \<Rightarrow> dhcp_inv msg | None \<Rightarrow> True)"
  using assms
proof (induction "length (dn_in n)" arbitrary: c n rule: less_induct)
  case less
  note step = do_receive_msg.simps [of env c n]
  show ?case
  proof (cases "dc_received c < 50")
    case False
    then show ?thesis using frames_ok_sub [OF less.prems drain_sub] by (simp add: step)
  next
    case True
    show ?thesis
    proof (cases "dn_in n")
      case Nil
      then show ?thesis using True less.prems by (simp add: step)
    next
      case (Cons x xs)
      have xs: "frames_ok env (n\<lparr>dn_in := xs\<rparr>)" using frames_ok_sub [OF less.prems, of "n\<lparr>dn_in := xs\<rparr>"] Cons by auto
      show ?thesis
      proof (cases x)
        case None
        then show ?thesis using True Cons xs by (simp add: step)
      next
        case (Some frame)
        obtain m where m: "dhcp_of_frame env frame = Some m" using less.prems Cons Some by (auto simp: frames_ok_def)
        show ?thesis
        proof (cases m)
          case None
          then have "do_receive_msg env (c, n) = do_receive_msg env (c\<lparr>dc_received := dc_received c + 1\<rparr>, n\<lparr>dn_in := xs\<rparr>)"
            using True Cons Some m by (simp add: step)
          then show ?thesis using less.hyps [OF _ xs] Cons by simp
        next
          case (Some msg)
          then show ?thesis using True Cons \<open>x = Some frame\<close> m xs dhcp_of_frame_inv by (auto simp: step)
        qed
      qed
    qed
  qed
qed

lemma dhcp_receive_some:
  assumes "frames_ok env n"
  shows "\<exists>r c' n'. dhcp_receive env msgs (c, n) = Some (r, c', n') \<and> frames_ok env n' \<and> (case r of Some msg \<Rightarrow> dhcp_inv msg | None \<Rightarrow> True)"
  using assms
proof (induction "length (dn_in n)" arbitrary: c n rule: less_induct)
  case less
  note step = dhcp_receive.simps [of env msgs c n]
  obtain r c1 n1 where d: "do_receive_msg env (c, n) = Some (r, c1, n1)" "frames_ok env n1" "case r of Some msg \<Rightarrow> dhcp_inv msg | None \<Rightarrow> True"
    using do_receive_some [OF less.prems] by blast
  show ?case
  proof (cases r)
    case None
    then show ?thesis using d by (simp add: step)
  next
    case (Some msg)
    then show ?thesis using d less.hyps [OF _ d(2), of c1] do_receive_shorter [OF d(1)] by (cases "dm_type msg \<notin> set msgs \<or> dm_xid msg \<noteq> dc_xid c1") (auto simp: step)
  qed
qed

text \<open>A step whose result is there and leaves good frames.\<close>

definition step_ok :: "dc_env \<Rightarrow> dc option \<Rightarrow> bool" where
  "step_ok env r \<longleftrightarrow> (case r of Some (c, n) \<Rightarrow> frames_ok env n | None \<Rightarrow> False)"

lemma transition_some:
  assumes "frames_ok env n" "st \<notin> {DS_BOUND, DS_RENEWING, DS_REBINDING} \<or> dhclient_is_bound c \<or> dc_binding c \<noteq> None"
  shows "step_ok env (state_transition env st (c, n))"
  using assms frames_ok_sub [OF assms(1) drain_sub]
  by (auto simp: step_ok_def state_transition_def Let_def dhclient_is_bound_def)

lemma receive_ack_some:
  assumes "frames_ok env n"
  shows "\<exists>r c' n'. receive_ack env (c, n) = Some (r, c', n') \<and> frames_ok env n'"
proof -
  obtain r c1 n1 where d: "dhcp_receive env [DHCPACK, DHCPNAK] (c, n) = Some (r, c1, n1)" "frames_ok env n1" "case r of Some msg \<Rightarrow> dhcp_inv msg | None \<Rightarrow> True"
    using dhcp_receive_some [OF assms] by blast
  show ?thesis
  proof (cases r)
    case None
    then show ?thesis using d by (intro exI [of _ False]) (simp add: receive_ack_def)
  next
    case (Some msg)
    have inv: "dhcp_inv msg" using d(3) Some by simp
    show ?thesis
    proof (cases "dm_type msg = DHCPNAK")
      case True
      then show ?thesis using d Some transition_some [OF d(2), of DS_INIT c1] by (auto simp: receive_ack_def step_ok_def split: option.splits)
    next
      case nak: False
      show ?thesis
      proof (cases "validate_offered_options env msg")
        case False
        then show ?thesis using d Some nak by (intro exI [of _ False]) (simp add: receive_ack_def)
      next
        case True
        obtain b where b: "dhcp_msg_copy msg = Some b" using copy_data_result [OF inv, of "length (dm_data msg)"] by (auto simp: dhcp_msg_copy_def)
        obtain lease t1 t2 n2 where l: "lease_times msg n1 = (lease, t1, t2, n2)" by (cases "lease_times msg n1") auto
        have n2: "frames_ok env n2" using d(2) lease_times_in [OF l] by (simp add: frames_ok_def)
        obtain c2 where "receive_ack env (c, n) = do { dc \<leftarrow> state_transition env DS_BOUND (c2, n2); Some (True, dc) }" and c2: "dc_binding c2 = Some b"
          by (rule ack_received [OF d(1) [unfolded Some] nak True b l])
        moreover have "step_ok env (state_transition env DS_BOUND (c2, n2))" using transition_some [OF n2, of DS_BOUND c2] c2 by simp
        ultimately show ?thesis by (auto simp: step_ok_def split: option.splits)
      qed
    qed
  qed
qed

lemma await_ack_some:
  assumes "hooks_ok env" "frames_ok env n" "next \<noteq> DS_INIT \<longrightarrow> dhclient_is_bound c"
  shows "step_ok env (await_ack env secs next (c, n))"
proof -
  obtain c1 n1 where s: "send_reliably env make_dhcprequest (c, n) = Some (c1, n1)"
    using send_reliably_some [of env make_dhcprequest c n, OF assms(1) make_packet_some(2)] by auto
  note k1 = send_reliably_keeps [OF s make_packet_core(2)]
  have "frames_ok env n1" using assms(2) k1(2) by (simp add: frames_ok_def)
  then obtain r c2 n2 where a: "receive_ack env (c1, n1) = Some (r, c2, n2)" "frames_ok env n2" using receive_ack_some by blast
  show ?thesis
  proof (cases r)
    case True
    then show ?thesis using s a by (simp add: await_ack_def step_ok_def)
  next
    case False
    then have a': "receive_ack env (c1, n1) = Some (False, c2, n2)" using a(1) by simp
    have k2: "dc_core c2 = dc_core c" using receive_ack_false(1) [OF a'] k1(1) by simp
    obtain e c3 where t: "dc_timeout env (secs c2) c2 = (e, c3)" by fastforce
    have "dc_core c3 = dc_core c" using timeout_split(2) [OF t] k2 by simp
    then have "dhclient_is_bound c3 = dhclient_is_bound c" using core_fields(1) [of c3 c] by (simp add: dhclient_is_bound_def)
    then have "step_ok env (state_transition env next (c3, n2))" using transition_some [OF a(2), of "next" c3] assms(3) by (cases "next = DS_INIT") auto
    then show ?thesis using s a False t by (simp add: await_ack_def step_ok_def)
  qed
qed

lemma take_offers_some:
  assumes "frames_ok env n"
  shows "step_ok env (take_offers env (c, n))"
  using assms
proof (induction "length (dn_in n)" arbitrary: c n rule: less_induct)
  case less
  note step = take_offers.simps [of env c n]
  obtain r c1 n1 where d: "dhcp_receive env [DHCPOFFER] (c, n) = Some (r, c1, n1)" "frames_ok env n1" using dhcp_receive_some [OF less.prems] by blast
  show ?case
  proof (cases r)
    case None
    then show ?thesis using d by (simp add: step step_ok_def)
  next
    case (Some msg)
    have sh: "length (dn_in n1) < length (dn_in n)" using dhcp_receive_shorter [OF d(1)] Some by simp
    have tr: "step_ok env (state_transition env DS_REQUESTING (c2, n1))" for c2 using transition_some [OF d(2)] by simp
    show ?thesis using d(1) Some less.hyps [OF sh d(2)] tr by (simp add: step split: option.split)
  qed
qed

lemma run_SELECTING_some:
  assumes "hooks_ok env" "frames_ok env n"
  shows "step_ok env (run_SELECTING env (c, n))"
proof -
  obtain c1 n1 where s: "send_reliably env make_dhcpdiscover (c, n) = Some (c1, n1)"
    using send_reliably_some [of env make_dhcpdiscover c n, OF assms(1) make_packet_some(1)] by auto
  have n1: "frames_ok env n1" using assms(2) send_reliably_keeps(2) [OF s make_packet_core(1)] by (simp add: frames_ok_def)
  obtain e c2 where t: "dc_timeout env 60 c1 = (e, c2)" by fastforce
  obtain c3 n3 where tr: "state_transition env DS_INIT (c2\<lparr>dc_server_ip := 0\<rparr>, n1) = Some (c3, n3)" "frames_ok env n3"
    using transition_some [OF n1, of DS_INIT "c2\<lparr>dc_server_ip := 0\<rparr>"] by (auto simp: step_ok_def split: option.splits)
  show ?thesis using s t tr take_offers_some [OF n1] take_offers_some [OF tr(2)]
    by (cases "dc_server_ip c1 = 0"; cases e) (simp_all add: run_SELECTING_def)
qed

lemma do_init_some:
  assumes "frames_ok env n" "next \<notin> {DS_BOUND, DS_RENEWING, DS_REBINDING}"
  shows "step_ok env (do_init env next (c, n))"
proof -
  obtain c1 n1 where d: "(if dc_init_delay c = 0 then (let (d, n) = fuzz 2 1 n in (c\<lparr>dc_init_delay := d\<rparr>, n)) else (c, n)) = (c1, n1)" by fastforce
  then have "dn_in n1 = dn_in n" using fuzz_in [of 2 1 n] by (auto simp: Let_def case_prod_beta split: if_splits)
  then have n1: "frames_ok env n1" using assms(1) by (simp add: frames_ok_def)
  obtain e c2 where "dc_timeout env (dc_init_delay c1) c1 = (e, c2)" by fastforce
  then show ?thesis using d n1 transition_some [OF n1, of "next" c2] assms(2) by (simp add: do_init_def step_ok_def)
qed

lemma run_dc_state_some:
  assumes "hooks_ok env" "frames_ok env n"
  shows "step_ok env (run_dc_state env (c, n))"
proof (cases "dc_state c")
  case DS_BOUND
  obtain e c1 where t: "dc_timeout env (dc_bound_timeout c) c = (e, c1)" by fastforce
  have "dhclient_is_bound c1" using DS_BOUND core_fields(1) [OF timeout_split(2) [OF t]] by (simp add: dhclient_is_bound_def)
  then have "step_ok env (state_transition env DS_RENEWING (c1, n))" using transition_some [OF assms(2)] by blast
  then show ?thesis using DS_BOUND t assms(2) by (simp add: run_dc_state_def run_BOUND_def step_ok_def)
next
  case DS_RENEWING
  then have "dhclient_is_bound c" by (simp add: dhclient_is_bound_def)
  then show ?thesis using DS_RENEWING await_ack_some [OF assms] by (simp add: run_dc_state_def)
qed (use assms await_ack_some [OF assms] do_init_some [OF assms(2)] run_SELECTING_some [OF assms] in \<open>simp_all add: run_dc_state_def step_ok_def\<close>)

section \<open>Runs\<close>

fun state_rank :: "dc_state \<Rightarrow> nat" where
  "state_rank DS_BOUND = 3"
| "state_rank DS_RENEWING = 2"
| "state_rank DS_REBINDING = 1"
| "state_rank _ = 0"

lemma edge_irrefl: "\<not> dc_edge s s"
  by (cases s) simp_all

lemma over_rank: "over env c \<Longrightarrow> state_rank (next_state (dc_state c)) < state_rank (dc_state c)"
  by (cases "dc_state c") (simp_all add: over_def state_secs_def)

abbreviation dc_reset :: "dhclient \<Rightarrow> dhclient" where
  "dc_reset c \<equiv> c\<lparr>dc_min_timeout := UINT_MAX, dc_received := 0\<rparr>"

lemma reset_core: "dc_core (dc_reset c) = dc_core c"
  by simp

lemma moves_core:
  assumes "dc_core c1 = dc_core c"
  shows "dc_moves env (c1, n) (c', n') = dc_moves env (c, n) (c', n')"
  using over_cong [OF assms, of env] core_fields [OF assms] by (simp add: dc_moves_def timers_kept_def dc_fresh_def)

lemma stays_core: "dc_core c1 = dc_core c \<Longrightarrow> dc_stays env c1 c' = dc_stays env c c'"
  using over_cong [of c1 c env] by (simp add: dc_stays_def)

lemma binding_core: "dc_core c1 = dc_core c \<Longrightarrow> binding_inv c1 = binding_inv c"
  using core_fields [of c1 c] by (simp add: binding_inv_def dhclient_is_bound_def)

text \<open>One round of the loop.\<close>

lemma run_step:
  assumes "binding_inv c" "0 \<le> de_now env" "de_now env < 2 ^ 32 - 1"
  shows "dhclient_run env (c, n) = Some Fault
    \<or> (\<exists>c' n'. dhclient_run env (c, n) = Some (Done (c', n')) \<and> dc_stays env c c' \<and> binding_inv c')
    \<or> (\<exists>c' n'. dhclient_run env (c, n) = dhclient_run env (c', n') \<and> dc_moves env (c, n) (c', n') \<and> binding_inv c' \<and> length (dn_in n') \<le> length (dn_in n))"
proof (cases "run_dc_state env (dc_reset c, n)")
  case None
  then have "dhclient_run env (c, n) = Some Fault" by (subst dhclient_run.simps) simp
  then show ?thesis by blast
next
  case (Some dc')
  obtain c' n' where dc': "dc' = (c', n')" by (cases dc')
  have b: "binding_inv (dc_reset c)" using assms(1) binding_core [OF reset_core] by blast
  note r = run_dc_state_result [OF Some [unfolded dc'] b assms(2,3), unfolded moves_core [OF reset_core] stays_core [OF reset_core]]
  show ?thesis
  proof (cases "dc_stays env c c'")
    case True
    then have "dc_state c' = dc_state c" using core_fields(1) [of c' c] by (simp add: dc_stays_def)
    then have "dhclient_run env (c, n) = Some (Done (c', n'))" using Some dc' by (subst dhclient_run.simps) simp
    then show ?thesis using True r by blast
  next
    case False
    then have m: "dc_moves env (c, n) (c', n')" using r by blast
    then have "dc_state c' \<noteq> dc_state c" using edge_irrefl by (auto simp: dc_moves_def)
    then have "dhclient_run env (c, n) = dhclient_run env (c', n')" using Some dc' by (subst dhclient_run.simps) simp
    then show ?thesis using m r by blast
  qed
qed

text \<open>A property that every transition keeps holds at the end of a run, where the time of the state is not over.\<close>

lemma fresh_run:
  assumes "binding_inv c" "0 \<le> de_now env" "de_now env < 2 ^ 32 - 1" "dc_fresh env c" "P c"
    and P: "\<And>c n c' n'. P c \<Longrightarrow> dc_moves env (c, n) (c', n') \<Longrightarrow> P c'"
  shows "dhclient_run env (c, n) = Some Fault
    \<or> (\<exists>c1 c' n'. dhclient_run env (c, n) = Some (Done (c', n')) \<and> P c1 \<and> dc_stays env c1 c' \<and> binding_inv c')"
  using assms(1,4,5)
proof (induction "length (dn_in n) * 4 + state_rank (dc_state c)" arbitrary: c n rule: less_induct)
  case less
  from run_step [OF less.prems(1) assms(2,3), of n] consider "dhclient_run env (c, n) = Some Fault"
    | c' n' where "dhclient_run env (c, n) = Some (Done (c', n'))" "dc_stays env c c'" "binding_inv c'"
    | c' n' where "dhclient_run env (c, n) = dhclient_run env (c', n')" "dc_moves env (c, n) (c', n')" "binding_inv c'" "length (dn_in n') \<le> length (dn_in n)"
    by blast
  then show ?case
  proof cases
    case 1
    then show ?thesis by simp
  next
    case 2
    then show ?thesis using less.prems(3) by blast
  next
    case 3
    have r: "state_rank s < 4" for s by (cases s) simp_all
    have "length (dn_in n') < length (dn_in n) \<or> state_rank (dc_state c') < state_rank (dc_state c)"
      using 3(2) less.prems(2) over_rank by (auto simp: dc_moves_def)
    then have "length (dn_in n') * 4 + state_rank (dc_state c') < length (dn_in n) * 4 + state_rank (dc_state c)"
      using 3(4) r [of "dc_state c'"] r [of "dc_state c"] by linarith
    moreover have "dc_fresh env c'" using 3(2) by (simp add: dc_moves_def)
    ultimately show ?thesis using less.hyps [of n' c'] 3(1,3) P [OF less.prems(3) 3(2)] by simp
  qed
qed

lemma run_result:
  assumes "binding_inv c" "0 \<le> de_now env" "de_now env < 2 ^ 32 - 1" "P c"
    and P: "\<And>c n c' n'. P c \<Longrightarrow> dc_moves env (c, n) (c', n') \<Longrightarrow> P c'"
  shows "dhclient_run env (c, n) = Some Fault
    \<or> (\<exists>c1 c' n'. dhclient_run env (c, n) = Some (Done (c', n')) \<and> P c1 \<and> dc_stays env c1 c' \<and> binding_inv c')"
proof -
  from run_step [OF assms(1-3), of n] consider "dhclient_run env (c, n) = Some Fault"
    | c' n' where "dhclient_run env (c, n) = Some (Done (c', n'))" "dc_stays env c c'" "binding_inv c'"
    | c' n' where "dhclient_run env (c, n) = dhclient_run env (c', n')" "dc_moves env (c, n) (c', n')" "binding_inv c'"
    by blast
  then show ?thesis
  proof cases
    case 1
    then show ?thesis by simp
  next
    case 2
    then show ?thesis using assms(4) by blast
  next
    case 3
    have "dc_fresh env c'" using 3(2) by (simp add: dc_moves_def)
    from fresh_run [where P = P, OF 3(3) assms(2,3) this P [OF assms(4) 3(2)] P] show ?thesis using 3(1) by simp
  qed
qed

lemma run_no_fault:
  assumes "dhclient_run env dc = Some r" "hooks_ok env" "frames_ok env (snd dc)"
  shows "r \<noteq> Fault"
proof -
  have "hooks_ok env \<longrightarrow> frames_ok env (snd dc) \<longrightarrow> r \<noteq> Fault"
    using assms(1)
  proof (rule dhclient_run.raw_induct [rotated])
    fix run env dc r
    assume IH: "\<And>env dc r. run env dc = Some r \<Longrightarrow> hooks_ok env \<longrightarrow> frames_ok env (snd dc) \<longrightarrow> r \<noteq> Fault"
      and body: "(case run_dc_state env (dc_reset (fst dc), snd dc) of None \<Rightarrow> Some Fault
        | Some dc' \<Rightarrow> if dc_state (fst dc') \<noteq> dc_state (fst dc) then run env dc' else Some (Done dc')) = Some r"
    show "hooks_ok env \<longrightarrow> frames_ok env (snd dc) \<longrightarrow> r \<noteq> Fault"
    proof (intro impI)
      assume "hooks_ok env" "frames_ok env (snd dc)"
      then obtain c' n' where d: "run_dc_state env (dc_reset (fst dc), snd dc) = Some (c', n')" "frames_ok env n'"
        using run_dc_state_some [of env "snd dc" "dc_reset (fst dc)"] by (auto simp: step_ok_def split: option.splits)
      show "r \<noteq> Fault"
      proof (cases "dc_state c' \<noteq> dc_state (fst dc)")
        case True
        then have "run env (c', n') = Some r" using body d(1) by simp
        then show ?thesis using IH [of env "(c', n')" r] \<open>hooks_ok env\<close> d(2) by simp
      next
        case False
        then show ?thesis using body d(1) by auto
      qed
    qed
  qed
  then show ?thesis using assms(2,3) by blast
qed



section \<open>Witness\<close>

text \<open>A client on a 32-bit machine, at a time, and a device on which frames are there.\<close>

definition sample_env :: "int \<Rightarrow> dc_env" where
  "sample_env t = \<lparr>de_now = t, de_etheraddr = 0x0a0000000001, de_junk = (\<lambda>_. 0), de_ptr = 4, de_modify = Some,
     de_validate = (\<lambda>msg. case dhcp_msg_get_secs DHCP_CODE_LEASE_TIME 0 msg of Some l \<Rightarrow> 60 \<le> l | None \<Rightarrow> False)\<rparr>"

definition sample_net :: "u8 list option list \<Rightarrow> dc_net" where
  "sample_net xs = \<lparr>dn_in = xs, dn_out = [], dn_random = (\<lambda>_. 0)\<rparr>"


end
