(* ===== verification/Dhcp_Lease.thy ===== *)
theory Dhcp_Lease
  imports Dhcp_Client
begin

text \<open>
  Leases of the DHCP client of \<^verbatim>\<open>src/openflow/lib/dhcp-client.c\<close>: the timers that it computes from an acknowledgment, what a client can
  be after any calls (\<open>dc_reach\<close>), and that it does not hold an address longer than its lease.
\<close>

section \<open>Leases\<close>

lemma fuzz_pos: "10 < unat x \<Longrightarrow> fst (fuzz x 10 n) \<noteq> 0"
proof -
  assume x: "10 < unat x"
  define r where "r = unat (dn_random n 0) mod 21"
  have f: "fst (fuzz x 10 n) = (let y = x + of_int (int r - 10) in if r \<ge> 10 then (if y \<ge> x then y else UINT_MAX) else (if y \<le> x then y else 0))"
    by (simp add: fuzz_def random_range_def Let_def r_def)
  show ?thesis
  proof (cases "r \<ge> 10")
    case True
    have "x \<noteq> 0" using x by auto
    then show ?thesis using True f by (auto simp: Let_def)
  next
    case False
    define k :: u32 where "k = of_nat (10 - r)"
    have k: "unat k = 10 - r" by (simp add: k_def unsigned_of_nat take_bit_nat_eq_self)
    have "of_int (int r - 10) = - k" using False by (simp add: k_def of_nat_diff)
    then have y: "x + of_int (int r - 10) = x - k" by simp
    have "k \<le> x" using k x by (simp add: word_le_nat_alt)
    then have u: "unat (x - k) = unat x - (10 - r)" using k by (simp add: unat_sub)
    then have "x - k \<le> x" "x - k \<noteq> 0" using x by (auto simp: word_le_nat_alt)
    then show ?thesis using False unfolding f y Let_def by simp
  qed
qed

lemma clamp_u_range: "clamp_u x 0 hi \<le> hi" "x \<noteq> 0 \<Longrightarrow> hi \<noteq> 0 \<Longrightarrow> clamp_u x 0 hi \<noteq> 0"
  by (auto simp: clamp_u_def)

lemma word_pred_less: "(x :: u32) \<noteq> 0 \<Longrightarrow> y \<le> x - 1 \<Longrightarrow> y < x"
  using unat_gt_0 [of x] by (simp add: word_less_nat_alt word_le_nat_alt unat_minus_one)

text \<open>The timers of a lease of at least a minute follow each other: renew, then ask any server, then give up.\<close>

lemma lease_times_order:
  assumes "lease_times msg n = (lease, t1, t2, n')" "60 \<le> lease"
  shows "t1 \<le> t2" "t2 \<le> lease"
proof -
  let ?s2 = "case dhcp_msg_get_secs DHCP_CODE_T2 0 msg of Some s \<Rightarrow> s | None \<Rightarrow> 0"
  let ?s1 = "case dhcp_msg_get_secs DHCP_CODE_T1 0 msg of Some s \<Rightarrow> s | None \<Rightarrow> 0"
  obtain n1 where t2: "(if ?s2 = 0 \<or> ?s2 \<ge> lease then calc_t2 lease n else (?s2, n)) = (t2, n1)"
    and t1: "(if ?s1 = 0 \<or> ?s1 \<ge> t2 then calc_t1 lease t2 n1 else (?s1, n1)) = (t1, n')"
    using assms(1) by (auto simp: lease_times_def Let_def case_prod_beta prod_eq_iff)
  have l: "60 \<le> unat lease" "lease - 1 \<noteq> 0" "lease \<noteq> 0" using assms(2) by (auto simp: word_le_nat_alt)
  have b: "10 < unat (of_nat (unat lease * 7 div 8) :: u32)"
    using l(1) unat_u32_bound [of lease] by (simp add: unsigned_of_nat take_bit_nat_eq_self)
  have "t2 < lease \<and> t2 \<noteq> 0"
  proof (cases "?s2 = 0 \<or> ?s2 \<ge> lease")
    case True
    then have "t2 = clamp_u (fst (fuzz (of_nat (unat lease * 7 div 8)) 10 n)) 0 (lease - 1)"
      using t2 assms(2) by (simp add: calc_t2_def Let_def case_prod_beta)
    then show ?thesis using clamp_u_range fuzz_pos [OF b] l(2) word_pred_less [OF l(3)] by metis
  next
    case False
    then show ?thesis using t2 by auto
  qed
  moreover have "t1 \<le> t2"
  proof (cases "?s1 = 0 \<or> ?s1 \<ge> t2")
    case True
    then have "t1 = clamp_u (fst (fuzz (lease div 2) 10 n1)) 0 (t2 - 1)"
      using t1 assms(2) by (simp add: calc_t1_def Let_def case_prod_beta)
    then have "t1 < t2" using clamp_u_range(1) word_pred_less calculation by metis
    then show ?thesis by simp
  next
    case False
    then show ?thesis using t1 by auto
  qed
  ultimately show "t1 \<le> t2" "t2 \<le> lease" by (simp_all add: less_imp_le)
qed

text \<open>For a short lease the server can choose timers that do not: the difference wraps, and the client stays in its state for 136 years.\<close>

lemma short_lease_wraps:
  assumes "dhcp_msg_get_secs DHCP_CODE_LEASE_TIME 0 msg = Some 40" "dhcp_msg_get_secs DHCP_CODE_T1 0 msg = None"
    "dhcp_msg_get_secs DHCP_CODE_T2 0 msg = Some 10"
  shows "lease_times msg n = (40, 20, 10, n)" "(10 :: u32) - 20 = UINT_MAX - 9"
  using assms by (simp_all add: lease_times_def calc_t1_def)

text \<open>The seconds until the time of the state is over, until the lease is given up, and how many timers expired since it was given.\<close>

definition cur_secs :: "dhclient \<Rightarrow> int" where
  "cur_secs c = (case state_secs c of Some s \<Rightarrow> uint s | None \<Rightarrow> 0)"

definition left_secs :: "dhclient \<Rightarrow> int" where
  "left_secs c = (case dc_state c of
       DS_BOUND \<Rightarrow> uint (dc_bound_timeout c) + uint (dc_renewing_timeout c) + uint (dc_rebinding_timeout c)
     | DS_RENEWING \<Rightarrow> uint (dc_renewing_timeout c) + uint (dc_rebinding_timeout c)
     | DS_REBINDING \<Rightarrow> uint (dc_rebinding_timeout c) | _ \<Rightarrow> 0)"

definition late_calls :: "dhclient \<Rightarrow> int" where
  "late_calls c = (case dc_state c of DS_RENEWING \<Rightarrow> 1 | DS_REBINDING \<Rightarrow> 2 | _ \<Rightarrow> 0)"

text \<open>The timers end within the lease, but for a delay of each; at \<open>t\<close> the time of the state is over since \<open>delay\<close> at most.\<close>

definition lease_inv :: "int \<Rightarrow> int \<Rightarrow> int \<Rightarrow> dhclient \<Rightarrow> bool" where
  "lease_inv gap delay t c \<longleftrightarrow> dhclient_is_bound c \<longrightarrow> dc_lease_expiration c = 2 ^ 32 - 1
     \<or> 0 \<le> dc_lease_expiration c \<and> dc_lease_expiration c < 2 ^ 32
       \<and> uint (dc_state_entered c) + left_secs c \<le> dc_lease_expiration c + late_calls c * gap
       \<and> t \<le> uint (dc_state_entered c) + cur_secs c + delay"

text \<open>The times of calls, and a hook that refuses short leases.\<close>

definition lease_env :: "dc_env \<Rightarrow> bool" where
  "lease_env env \<longleftrightarrow> 0 \<le> de_now env \<and> de_now env < 2 ^ 32 - 1
     \<and> (\<forall>msg lease. de_validate env msg \<longrightarrow> dhcp_msg_get_secs DHCP_CODE_LEASE_TIME 0 msg = Some lease \<longrightarrow> 60 \<le> lease)"

lemma new_lease_inv:
  assumes "new_lease env c" "dc_fresh env c" "dc_state c = DS_BOUND" "lease_env env" "0 \<le> gap"
  shows "lease_inv gap gap (de_now env) c"
proof -
  obtain msg n lease t1 t2 n' where l: "validate_offered_options env msg" "lease_times msg n = (lease, t1, t2, n')"
    "dc_lease_expiration c = uint (sat_add (of_int (de_now env)) lease)"
    "dc_bound_timeout c = t1" "dc_renewing_timeout c = t2 - t1" "dc_rebinding_timeout c = lease - t2"
    using assms(1) unfolding new_lease_def by blast
  have t: "uint (of_int (de_now env) :: u32) = de_now env" using assms(4) by (simp add: lease_env_def uint_word_of_int)
  obtain l' where l': "dhcp_msg_get_secs DHCP_CODE_LEASE_TIME 0 msg = Some l'" "de_validate env msg"
    using l(1) by (auto simp: validate_offered_options_def split: option.splits)
  moreover have "lease = l'" using l(2) l' by (auto simp: lease_times_def Let_def case_prod_beta)
  ultimately have "60 \<le> lease" using assms(4) unfolding lease_env_def by blast
  note o = lease_times_order [OF l(2) this]
  have "uint (t2 - t1) = uint t2 - uint t1" "uint (lease - t2) = uint lease - uint t2" using o by (simp_all add: uint_sub_if' word_le_def)
  then have "left_secs c = uint lease" using assms(3) l by (simp add: left_secs_def)
  then show ?thesis using assms(2-5) l(3) t uint_ge_0 [of t1] uint_ge_0 [of lease] l(4)
    by (auto simp: lease_inv_def lease_env_def uint_sat_add dc_fresh_def late_calls_def cur_secs_def state_secs_def min_def)
qed

lemma moved_lease_inv:
  assumes "lease_inv gap gap (de_now env) c" "over env c" "dc_state c' = next_state (dc_state c)" "timers_kept c c'" "dc_fresh env c'"
    "0 \<le> de_now env" "de_now env < 2 ^ 32 - 1" "0 \<le> gap"
  shows "lease_inv gap gap (de_now env) c'"
proof -
  have t: "uint (dc_state_entered c') = de_now env" using assms(5-7) by (simp add: dc_fresh_def uint_word_of_int)
  have k: "dc_lease_expiration c' = dc_lease_expiration c" "dc_bound_timeout c' = dc_bound_timeout c" "dc_renewing_timeout c' = dc_renewing_timeout c"
    "dc_rebinding_timeout c' = dc_rebinding_timeout c" using assms(4) by (simp_all add: timers_kept_def)
  show ?thesis
  proof (cases "dc_state c")
    case DS_BOUND
    then have "uint (dc_state_entered c) + uint (dc_bound_timeout c) \<le> de_now env" using assms(2) timeout_expires [OF assms(7)] by (simp add: over_def state_secs_def)
    then show ?thesis using assms(1,3,8) DS_BOUND t k by (auto simp: lease_inv_def dhclient_is_bound_def left_secs_def late_calls_def cur_secs_def state_secs_def)
  next
    case DS_RENEWING
    then have "uint (dc_state_entered c) + uint (dc_renewing_timeout c) \<le> de_now env" using assms(2) timeout_expires [OF assms(7)] by (simp add: over_def state_secs_def)
    then show ?thesis using assms(1,3,8) DS_RENEWING t k by (auto simp: lease_inv_def dhclient_is_bound_def left_secs_def late_calls_def cur_secs_def state_secs_def)
  qed (use assms(2,3) in \<open>auto simp: over_def state_secs_def lease_inv_def dhclient_is_bound_def\<close>)
qed

lemma moves_lease_inv:
  assumes "lease_inv gap gap (de_now env) c" "dc_moves env (c, n) (c', n')" "lease_env env" "0 \<le> gap"
  shows "lease_inv gap gap (de_now env) c'"
proof (cases "dhclient_is_bound c'")
  case True
  then consider "dc_state c' = DS_BOUND" "new_lease env c'" | "over env c" "dc_state c' = next_state (dc_state c)" "timers_kept c c'"
    using assms(2) by (auto simp: dc_moves_def)
  moreover have "dc_fresh env c'" using assms(2) by (simp add: dc_moves_def)
  ultimately show ?thesis using new_lease_inv moved_lease_inv assms by (metis lease_env_def)
qed (simp add: lease_inv_def)

lemma stays_lease_inv:
  assumes "lease_inv gap gap (de_now env) c" "dc_stays env c c'" "de_now env < 2 ^ 32 - 1"
  shows "lease_inv gap 0 (de_now env) c'"
proof -
  note k = core_fields [of c' c]
  have c: "dc_core c' = dc_core c" "\<not> over env c" using assms(2) by (simp_all add: dc_stays_def)
  have "lease_inv gap 0 (de_now env) c"
    using assms(1) c(2) timeout_expires [OF assms(3)]
    by (cases "dc_state c") (auto simp: lease_inv_def dhclient_is_bound_def over_def state_secs_def cur_secs_def)
  then show ?thesis using k [OF c(1)]
    by (cases "dc_state c") (simp_all add: lease_inv_def dhclient_is_bound_def left_secs_def late_calls_def cur_secs_def state_secs_def)
qed

text \<open>
  What a client can be after any calls, on any traffic: \<open>t\<close> is the time of its creation or of the last \<^verbatim>\<open>dhclient_run\<close>, which is called at
  least every \<open>gap\<close> seconds while the client is bound. Between calls any frames may arrive.
\<close>

inductive dc_reach :: "int \<Rightarrow> int \<Rightarrow> dhclient \<Rightarrow> dc_net \<Rightarrow> bool" for gap :: int where
  create: "dc_reach gap (de_now env) (dhclient_create env xid) n"
| traffic: "dc_reach gap t c n \<Longrightarrow> dc_reach gap t c (n\<lparr>dn_in := xs, dn_random := rs\<rparr>)"
| run: "dc_reach gap t c n \<Longrightarrow> lease_env env \<Longrightarrow> dhclient_is_bound c \<longrightarrow> t \<le> de_now env \<and> de_now env \<le> t + gap
    \<Longrightarrow> dhclient_run env (c, n) = Some (Done (c', n')) \<Longrightarrow> dc_reach gap (de_now env) c' n'"
| init: "dc_reach gap t c n \<Longrightarrow> dhclient_init env ip (c, n) = Some (c', n') \<Longrightarrow> dc_reach gap t c' n'"
| release: "dc_reach gap t c n \<Longrightarrow> dhclient_release env (c, n) = Some (c', n') \<Longrightarrow> dc_reach gap t c' n'"
| force_renew: "dc_reach gap t c n \<Longrightarrow> lease_env env \<Longrightarrow> t \<le> de_now env \<Longrightarrow> de_now env \<le> t + gap \<Longrightarrow> deadline < 2 ^ 29
    \<Longrightarrow> dhclient_force_renew env deadline (c, n) = Some (c', n') \<Longrightarrow> dc_reach gap t c' n'"
| set_max_timeout: "dc_reach gap t c n \<Longrightarrow> dc_reach gap t (dhclient_set_max_timeout secs c) n"
| changed: "dc_reach gap t c n \<Longrightarrow> dc_reach gap t (snd (dhclient_changed c)) n"
| wait: "dc_reach gap t c n \<Longrightarrow> dc_reach gap t (snd (snd (dhclient_wait env c))) n"

lemma lease_inv_core:
  assumes "dc_core c' = dc_core c"
  shows "lease_inv gap d t c' = lease_inv gap d t c"
  using core_fields [OF assms]
  by (cases "dc_state c") (simp_all add: lease_inv_def dhclient_is_bound_def left_secs_def late_calls_def cur_secs_def state_secs_def)

lemma init_result:
  assumes "dhclient_init env ip (c, n) = Some (c', n')" "binding_inv c"
  shows "binding_inv c'" "\<not> dhclient_is_bound c'"
proof -
  obtain st c1 where tr: "state_transition env st (c, n) = Some (c1, n')" and st: "st = (if ip \<noteq> 0 then DS_INIT_REBOOT else DS_INIT)"
    and c': "c' = c1\<lparr>dc_ipaddr := ip, dc_min_timeout := 0, dc_init_delay := 0\<rparr>"
    using assms(1) by (auto simp: dhclient_init_def split: bind_splits)
  have k: "dc_core c' = dc_core c1" using c' by simp
  have "binding_inv c1" using assms(2) st by (intro transition_binding [OF tr]) (auto simp: binding_inv_def)
  then show "binding_inv c'" using binding_core [OF k] by simp
  show "\<not> dhclient_is_bound c'" using transition_result(1) [OF tr] core_fields(1) [OF k] st by (simp add: dhclient_is_bound_def)
qed

lemma release_result:
  assumes "dhclient_release env (c, n) = Some (c', n')" "binding_inv c"
  shows "binding_inv c'" "\<not> dhclient_is_bound c'"
proof -
  obtain c1 n1 c2 where s: "(if dhclient_is_bound c then do_send_msg env ((dhclient_msg_init env DHCPRELEASE c)\<lparr>dm_ciaddr := dc_ipaddr c\<rparr>) (c, n)
      else Some (c, n)) = Some (c1, n1)" and tr: "state_transition env DS_RELEASED (c1, n1) = Some (c2, n')" and c': "c' = c2\<lparr>dc_min_timeout := UINT_MAX\<rparr>"
    using assms(1) unfolding dhclient_release_def fst_conv by (auto split: bind_splits)
  have "c1 = c" using s do_send_keeps by (auto split: if_splits)
  then have "binding_inv c2" using assms(2) by (intro transition_binding [OF tr]) (auto simp: binding_inv_def)
  moreover have k: "dc_core c' = dc_core c2" using c' by simp
  ultimately show "binding_inv c'" using binding_core [OF k] by simp
  show "\<not> dhclient_is_bound c'" using transition_result(1) [OF tr] core_fields(1) [OF k] by (simp add: dhclient_is_bound_def)
qed

lemma sat_sub_left:
  assumes "0 \<le> a" "a < 2 ^ 32" "0 \<le> b" "b < 2 ^ 32"
  shows "uint (sat_sub (of_int a) (of_int b)) = max 0 (a - b)"
proof -
  have "unat (of_int a :: u32) = nat a" "unat (of_int b :: u32) = nat b" using assms by (simp_all add: unat_eq_nat_uint uint_word_of_int)
  then have "int (unat (sat_sub (of_int a) (of_int b) :: u32)) = int (nat a - nat b)" by (simp only: unat_sat_sub)
  also have "\<dots> = max 0 (a - b)" using assms by (cases "b \<le> a") (simp_all add: of_nat_diff)
  finally show ?thesis by simp
qed

lemma deadline_split:
  assumes "d < 2 ^ 29"
  shows "uint (d * 3 div 4) + uint (d div 4) \<le> uint (d :: u32)"
proof -
  have "unat d < 2 ^ 29" using assms by (simp add: word_less_nat_alt)
  then have "unat d * unat (3 :: u32) < 2 ^ LENGTH(32)" by simp
  then have "unat (d * 3) = unat d * unat (3 :: u32)" using unat_mult_lem [of d 3] by blast
  then have "unat (d * 3 div 4) + unat (d div 4) = unat d * 3 div 4 + unat d div 4" by (simp add: unat_div)
  also have "\<dots> \<le> unat d" by linarith
  finally have "int (unat (d * 3 div 4)) + int (unat (d div 4)) \<le> int (unat d)" by linarith
  then show ?thesis by simp
qed

lemma transition_bound:
  assumes "state_transition env st (c, n) = Some (c', n')" "binding_inv c" "dhclient_is_bound c" "st \<in> {DS_RENEWING, DS_REBINDING}"
    "0 \<le> de_now env" "de_now env < 2 ^ 32 - 1"
  shows "binding_inv c'" "dc_state c' = st" "dc_lease_expiration c' = dc_lease_expiration c" "uint (dc_state_entered c') = de_now env"
proof -
  show "binding_inv c'" using assms(2-4) by (intro transition_binding [OF assms(1)]) (auto simp: binding_inv_def)
  show "dc_state c' = st" "dc_lease_expiration c' = dc_lease_expiration c" "uint (dc_state_entered c') = de_now env"
    using transition_result [OF assms(1)] assms(5,6) by (simp_all add: dc_fresh_def uint_word_of_int)
qed

lemma cur_le_left: "cur_secs c \<le> left_secs c"
proof -
  have "0 \<le> uint (dc_renewing_timeout c)" "0 \<le> uint (dc_rebinding_timeout c)" by simp_all
  then show ?thesis by (cases "dc_state c") (simp_all add: cur_secs_def left_secs_def state_secs_def)
qed

lemma expired_bound:
  assumes "lease_inv gap 0 t c" "t \<le> now" "now \<le> t + gap" "dc_lease_expiration c \<noteq> 2 ^ 32 - 1" "dhclient_is_bound c" "0 \<le> gap"
  shows "0 \<le> dc_lease_expiration c" "dc_lease_expiration c < 2 ^ 32" "dc_state c = DS_BOUND \<Longrightarrow> now \<le> dc_lease_expiration c + gap"
  using assms cur_le_left [of c] by (auto simp: lease_inv_def late_calls_def)

lemma do_force_renew_result:
  assumes "do_force_renew env deadline (c, n) = Some (c', n')" "binding_inv c" "lease_inv gap 0 t c" "dhclient_is_bound c" "lease_env env"
    "t \<le> de_now env" "de_now env \<le> t + gap" "deadline < 2 ^ 29" "0 \<le> gap"
  shows "binding_inv c' \<and> lease_inv gap 0 t c'"
proof -
  let ?exp = "dc_lease_expiration c" let ?now = "de_now env"
  define left where "left = sat_sub (of_int ?exp) (of_int ?now :: u32)"
  have now: "0 \<le> ?now" "?now < 2 ^ 32 - 1" "?now < 2 ^ 32" using assms(5) by (simp_all add: lease_env_def)
  have grows: "t \<le> ?now + uint w" for w :: u32 using assms(6) by (simp add: add_increasing2)
  note e = expired_bound [OF assms(3,6,7) _ assms(4,9)]
  have left: "uint left = max 0 (?exp - ?now)" if "?exp \<noteq> 2 ^ 32 - 1" using sat_sub_left [OF e(1,2) now(1,3)] that by (simp add: left_def)
  have st: "dc_state c \<in> {DS_BOUND, DS_RENEWING, DS_REBINDING}" using assms(4) by (simp add: dhclient_is_bound_def)
  show ?thesis
  proof (cases "left \<le> deadline \<and> dc_state c \<in> {DS_RENEWING, DS_REBINDING}")
    case True
    then show ?thesis using assms(1-3) by (simp add: do_force_renew_def left_def [symmetric] Let_def)
  next
    case False
    let ?d = "min deadline left"
    have d: "?d < 2 ^ 29" using assms(8) by (auto simp: min_def not_le intro: less_trans)
    have dl: "uint ?d \<le> max 0 (?exp - ?now)" if "?exp \<noteq> 2 ^ 32 - 1" using left [OF that] by (simp add: min_def word_le_def)
    have later: "?now + uint ?d \<le> ?exp + gap" if "?exp \<noteq> 2 ^ 32 - 1"
    proof (cases "dc_state c = DS_BOUND")
      case True
      then show ?thesis using dl [OF that] e(3) [OF that True] assms(9) by (auto simp: max_def split: if_splits)
    next
      case b: False
      then have "deadline < left" using False st by (auto simp: not_le)
      then have "uint left \<noteq> 0" using word_not_simps(1) [of deadline] by (auto simp: uint_0_iff)
      then show ?thesis using dl [OF that] left [OF that] assms(9) by (auto simp: max_def split: if_splits)
    qed
    show ?thesis
    proof (cases "dc_state c \<in> {DS_BOUND, DS_RENEWING}")
      case True
      obtain c1 where tr: "state_transition env DS_RENEWING (c, n) = Some (c1, n')"
        and c': "c' = c1\<lparr>dc_renewing_timeout := ?d * 3 div 4, dc_rebinding_timeout := ?d div 4, dc_min_timeout := 0\<rparr>"
        using assms(1) False True by (auto simp: do_force_renew_def left_def [symmetric] Let_def split: bind_splits)
      have "DS_RENEWING \<in> {DS_RENEWING, DS_REBINDING}" by simp
      note k = transition_bound [OF tr assms(2,4) this now(1,2)]
      have f: "dc_state c' = DS_RENEWING" "dc_state_entered c' = dc_state_entered c1" "dc_lease_expiration c' = ?exp" "dc_renewing_timeout c' = ?d * 3 div 4"
        "dc_rebinding_timeout c' = ?d div 4" "dc_binding c' = dc_binding c1" using c' k by simp_all
      have "binding_inv c'" using k(1,2) f by (simp add: binding_inv_def dhclient_is_bound_def)
      moreover have "lease_inv gap 0 t c'" using f k(4) later e(1,2) deadline_split [OF d] grows
        by (auto simp: lease_inv_def left_secs_def late_calls_def cur_secs_def state_secs_def)
      ultimately show ?thesis by simp
    next
      case b: False
      then have l: "deadline < left" "?d = deadline" using False st by (auto simp: not_le min_def)
      obtain c1 where tr: "state_transition env DS_REBINDING (c, n) = Some (c1, n')"
        and c': "c' = c1\<lparr>dc_rebinding_timeout := ?d, dc_min_timeout := 0\<rparr>"
        using assms(1) False b by (auto simp: do_force_renew_def left_def [symmetric] Let_def split: bind_splits)
      have "DS_REBINDING \<in> {DS_RENEWING, DS_REBINDING}" by simp
      note k = transition_bound [OF tr assms(2,4) this now(1,2)]
      have f: "dc_state c' = DS_REBINDING" "dc_state_entered c' = dc_state_entered c1" "dc_lease_expiration c' = ?exp"
        "dc_rebinding_timeout c' = ?d" "dc_binding c' = dc_binding c1" using c' k by simp_all
      have "binding_inv c'" using k(1,2) f by (simp add: binding_inv_def dhclient_is_bound_def)
      moreover have "lease_inv gap 0 t c'" using f k(4) later e(1,2) assms(9) grows
        by (auto simp: lease_inv_def left_secs_def late_calls_def cur_secs_def state_secs_def)
      ultimately show ?thesis by simp
    qed
  qed
qed

lemma later_lease_inv:
  assumes "lease_inv gap 0 t c" "dhclient_is_bound c \<longrightarrow> t \<le> now \<and> now \<le> t + gap"
  shows "lease_inv gap gap now c"
  using assms by (auto simp: lease_inv_def)

lemma run_lease_inv:
  assumes "dhclient_run env (c, n) = Some (Done (c', n'))" "binding_inv c" "lease_inv gap gap (de_now env) c" "lease_env env" "0 \<le> gap"
  shows "binding_inv c' \<and> lease_inv gap 0 (de_now env) c'"
proof -
  let ?P = "lease_inv gap gap (de_now env)"
  have env: "0 \<le> de_now env" "de_now env < 2 ^ 32 - 1" using assms(4) by (simp_all add: lease_env_def)
  have "dhclient_run env (c, n) = Some Fault
    \<or> (\<exists>c1 c' n'. dhclient_run env (c, n) = Some (Done (c', n')) \<and> ?P c1 \<and> dc_stays env c1 c' \<and> binding_inv c')"
    by (rule run_result [where P = ?P, OF assms(2) env assms(3)]) (rule moves_lease_inv [OF _ _ assms(4,5)])
  then obtain c1 where "?P c1" "dc_stays env c1 c'" "binding_inv c'" using assms(1) by auto
  then show ?thesis using stays_lease_inv env(2) by blast
qed

lemma reach_inv:
  assumes "dc_reach gap t c n" "0 \<le> gap"
  shows "binding_inv c \<and> lease_inv gap 0 t c"
  using assms
proof (induction rule: dc_reach.induct)
  case (create env xid n)
  then show ?case by (simp add: dhclient_create_def binding_inv_def lease_inv_def dhclient_is_bound_def)
next
  case (traffic t c n xs rs)
  then show ?case by simp
next
  case (run t c n env c' n')
  have i: "binding_inv c" "lease_inv gap 0 t c" using run.IH run.prems by simp_all
  show ?case by (rule run_lease_inv [OF run.hyps(4) i(1) later_lease_inv [OF i(2) run.hyps(3)] run.hyps(2) run.prems])
next
  case (init t c n env ip c' n')
  then show ?case using init_result [OF init.hyps(2)] by (simp add: lease_inv_def)
next
  case (release t c n env c' n')
  then show ?case using release_result [OF release.hyps(2)] by (simp add: lease_inv_def)
next
  case (force_renew t c n env deadline c' n')
  have i: "binding_inv c" "lease_inv gap 0 t c" using force_renew.IH force_renew.prems by simp_all
  note r = force_renew.hyps(6) [unfolded dhclient_force_renew_def Let_def split_beta fst_conv snd_conv]
  show ?case
  proof (cases "dhclient_is_bound c")
    case True
    then have "do_force_renew env deadline (c, dn_drain n) = Some (c', n')" using r by simp
    from do_force_renew_result [OF this i True force_renew.hyps(2-5) force_renew.prems] show ?thesis .
  next
    case False
    show ?thesis
    proof (cases "dc_state c = DS_RELEASED")
      case True
      then have "dhclient_init env 0 (c, dn_drain n) = Some (c', n')" using r False by simp
      from init_result [OF this i(1)] show ?thesis by (simp add: lease_inv_def)
    next
      case s: False
      then show ?thesis using r False i by simp
    qed
  qed
next
  case (set_max_timeout t c n secs)
  have "dc_core (dhclient_set_max_timeout secs c) = dc_core c" by (simp add: dhclient_set_max_timeout_def dc_core_def)
  then show ?case using set_max_timeout binding_core lease_inv_core by blast
next
  case (changed t c n)
  have "dc_core (snd (dhclient_changed c)) = dc_core c" by (simp add: dhclient_changed_def dc_core_def)
  then show ?case using changed binding_core lease_inv_core by blast
next
  case (wait t c n env)
  have "dc_core (snd (snd (dhclient_wait env c))) = dc_core c" by (simp add: dhclient_wait_def)
  then show ?case using wait binding_core lease_inv_core by blast
qed



section \<open>Witnesses\<close>

text \<open>
  A client that asks for the address it had, and the server that gives it for an hour. The client is created at 0 and first run at 3; the
  acknowledgment arrives after the queue was drained.
\<close>

definition sample_reply :: dhcp_msg where
  "sample_reply = dhcp_msg_init\<lparr>dm_op := DHCP_BOOTREPLY, dm_xid := 7, dm_yiaddr := 0x0100000a, dm_type := DHCPACK\<rparr>"

lemma sample_lease_env: "0 \<le> t \<Longrightarrow> t < 2 ^ 32 - 1 \<Longrightarrow> lease_env (sample_env t)"
  by (simp add: lease_env_def sample_env_def split: option.split)

lemma sample_ack:
  obtains bs msg where "dhcp_parse 4 bs = Some (Inr msg)" "dhcp_inv msg" "dm_type msg = DHCPACK" "dm_xid msg = 7" "dm_yiaddr msg = 0x0100000a"
    "dhcp_msg_get_secs DHCP_CODE_LEASE_TIME 0 msg = Some 3600" "dhcp_msg_get_ip DHCP_CODE_SUBNET_MASK 0 msg = Some 0x00ffffff"
    "dhcp_msg_get_secs DHCP_CODE_T1 0 msg = None" "dhcp_msg_get_secs DHCP_CODE_T2 0 msg = None"
proof -
  have inv: "dhcp_inv sample_reply" "dhcp_opt sample_reply c = dhcp_opt dhcp_msg_init c" for c
    using init_inv(1) by (simp_all add: sample_reply_def dhcp_inv_def dhcp_opt_def)
  let ?puts = "[(1, [255, 255, 255, 0]), (51, [0, 0, 14, 16])]"
  have "\<forall>(code, data)\<in>set ?puts. code < DHCP_N_OPTIONS" by simp
  from put_seq_result [OF inv(1) this] obtain m where m: "dhcp_inv m" "dm_head m = dm_head sample_reply"
    "dm_abs m = fold (\<lambda>(code, data). aput code data) ?puts (dm_abs sample_reply)" by blast
  have o: "dhcp_opt m c = (if c = 1 then Some [255, 255, 255, 0] else if c = 51 then Some [0, 0, 14, 16] else None)" if "c < DHCP_N_OPTIONS" for c
    using m(3) [THEN arg_cong, of "\<lambda>a. snd a c"] that init_opt by (auto simp: dm_abs_def aput_def inv(2) split: if_splits)
  have ok: "option_ok 1 [255, 255, 255, 0]" "option_ok 51 [0, 0, 14, 16]" by (simp_all add: option_ok_def get_option_class_def dhcp_opts_def)
  have f: "dm_op m = DHCP_BOOTREPLY" "dm_type m = DHCPACK" "dm_xid m = 7" "dm_yiaddr m = 0x0100000a"
    using m(2) by (simp_all add: dm_head_def sample_reply_def)
  have p: "dm_op m = DHCP_BOOTREQUEST \<or> dm_op m = DHCP_BOOTREPLY" "dm_type m \<noteq> 0" "dhcp_opt m DHCP_CODE_DHCP_MSG_TYPE = None"
    "\<forall>c<DHCP_VENDOR_OFS. \<forall>data. dhcp_opt m c = Some data \<longrightarrow> option_ok c data"
    "\<forall>c. DHCP_VENDOR_OFS \<le> c \<and> c < DHCP_N_OPTIONS \<longrightarrow> dhcp_opt m c = None" "dhcp_opt m DHCP_CODE_VENDOR_SPECIFIC = None"
    using f o ok by simp_all
  have b: "ofpbuf_wf (ofpbuf_init (\<lambda>_. 0) 0)" "ob_size (ofpbuf_init (\<lambda>_. 0) 0) = 0" by (simp_all add: ofpbuf_init_def ofpbuf_use_def ofpbuf_wf_def)
  from assemble_parse [OF m(1) p b, of "\<lambda>_. 0"] obtain b' msg where
    msg: "dhcp_parse 4 (contents b') = Some (Inr msg)" "dhcp_inv msg" "dm_head msg = dm_head m"
    "\<forall>c<DHCP_N_OPTIONS. dhcp_opt msg c = (if c = DHCP_CODE_DHCP_MSG_TYPE then Some [dm_type m] else dhcp_opt m c)" by blast
  have secs: "ntohl (ld32 [0, 0, 14, 16] 0) = 3600" "ld32 [255, 255, 255, 0] 0 = 0x00ffffff" by code_simp+
  have g: "dhcp_msg_get_secs 51 0 msg = Some 3600" "dhcp_msg_get_ip 1 0 msg = Some 0x00ffffff" "dhcp_msg_get_secs 58 0 msg = None" "dhcp_msg_get_secs 59 0 msg = None"
    using msg(4) o by (simp_all add: dhcp_msg_get_secs_def dhcp_msg_get_ip_def dhcp_msg_get_opt [OF msg(2)] secs)
  have h: "dm_type msg = DHCPACK" "dm_xid msg = 7" "dm_yiaddr msg = 0x0100000a" using msg(3) f by (simp_all add: dm_head_def)
  show thesis by (rule that [OF msg(1,2) h g])
qed

text \<open>The state before the run, and the steps of the run.\<close>

definition sample_start :: dhclient where
  "sample_start = (dhclient_create (sample_env 0) 7)\<lparr>dc_state := DS_INIT_REBOOT, dc_ipaddr := 0x0100000a, dc_min_timeout := 0\<rparr>"

lemma sample_init: "dhclient_init (sample_env 0) 0x0100000a (dhclient_create (sample_env 0) 7, n) = Some (sample_start, n)"
  by (simp add: dhclient_init_def state_transition_def dhclient_create_def dhclient_is_bound_def sample_start_def sample_env_def Let_def)

lemma one_round:
  assumes "run_dc_state env (dc_reset c, n) = Some (c', n')"
  shows "dc_state c' \<noteq> dc_state c \<Longrightarrow> dhclient_run env (c, n) = dhclient_run env (c', n')"
    "dc_state c' = dc_state c \<Longrightarrow> dhclient_run env (c, n) = Some (Done (c', n'))"
  using assms by (subst dhclient_run.simps, simp)+

lemma send_sample:
  assumes "dc_state c \<noteq> DS_REQUESTING" "dc_retransmit c = 0" "dc_state_entered c = 3"
  obtains c' n' where "send_reliably (sample_env 3) make_dhcprequest (c, n) = Some (c', n')" "dc_core c' = dc_core c" "dn_in n' = dn_in n"
    "dc_xid c' = dc_xid c" "dc_received c' = dc_received c" "dn_random n' = (\<lambda>i. dn_random n (i + 1))"
proof -
  let ?c = "c\<lparr>dc_min_timeout := min (dc_min_timeout c) 0\<rparr>"
  have t: "dc_timeout (sample_env 3) (dc_retransmit c) c = (True, ?c)" using assms by (simp add: dc_timeout_def sample_env_def sat_add_def)
  have mi: "dhcp_inv ((dhclient_msg_init (sample_env 3) DHCPREQUEST ?c)\<lparr>dm_ciaddr := dhclient_get_ip ?c\<rparr>)" by (rule msg_init_inv(2))
  obtain msg where msg: "make_dhcprequest (sample_env 3) ?c = Some (msg, ?c)"
    using put_ip_some [OF mi, of DHCP_CODE_REQUESTED_IP "dc_ipaddr c"] assms(1)
    by (auto simp: make_dhcprequest_def Let_def)
  have "\<exists>c' n'. send_reliably (sample_env 3) make_dhcprequest (c, n) = Some (c', n') \<and> dc_core c' = dc_core c \<and> dn_in n' = dn_in n
    \<and> dc_xid c' = dc_xid c \<and> dc_received c' = dc_received c \<and> dn_random n' = (\<lambda>i. dn_random n (i + 1))"
    using t msg by (simp add: send_reliably_def do_send_result sample_env_def [of 3] fuzz_def random_range_def dc_timeout_def Let_def dc_core_def)
  then show thesis using that by blast
qed

lemma sample_bound:
  obtains frame c n where "dhclient_run (sample_env 3) (sample_start, sample_net [None, Some frame]) = Some (Done (c, n))"
    "dc_state c = DS_BOUND" "dc_lease_expiration c = 3603"
proof -
  obtain bs msg where bs: "dhcp_parse 4 bs = Some (Inr msg)" and msg: "dhcp_inv msg" "dm_type msg = DHCPACK" "dm_xid msg = 7"
    "dhcp_msg_get_secs DHCP_CODE_LEASE_TIME 0 msg = Some 3600" "dhcp_msg_get_ip DHCP_CODE_SUBNET_MASK 0 msg = Some 0x00ffffff"
    "dhcp_msg_get_secs DHCP_CODE_T1 0 msg = None" "dhcp_msg_get_secs DHCP_CODE_T2 0 msg = None" by (rule sample_ack)
  define frame where "frame = server_headers ETH_BROADCAST 0x0a0000000002 0 0 0 0 0 0 @ bs"
  let ?env = "sample_env 3"
  have f: "dhcp_of_frame ?env frame = Some (Some msg)"
    unfolding frame_def using bs by (subst server_frame_received) (simp_all add: sample_env_def)
  obtain c1 n1 where r1: "run_dc_state ?env (dc_reset sample_start, sample_net [None, Some frame]) = Some (c1, n1)"
    and c1: "dc_state c1 = DS_REBOOTING" "dc_retransmit c1 = 0" "dc_state_entered c1 = 3" "dc_binding c1 = None" "dc_xid c1 = 7"
      "dn_in n1 = [Some frame]" "dn_random n1 = (\<lambda>_. 0)"
    by (simp add: run_dc_state_def sample_start_def dhclient_create_def do_init_def fuzz_def random_range_def sample_net_def dc_timeout_def
        sat_add_def sample_env_def state_transition_def dhclient_is_bound_def dn_drain_def Let_def)
  obtain c2 n2 where s: "send_reliably ?env make_dhcprequest (dc_reset c1, n1) = Some (c2, n2)" and c2: "dc_core c2 = dc_core c1"
      "dn_in n2 = [Some frame]" "dc_xid c2 = 7" "dc_received c2 = 0" "dn_random n2 = (\<lambda>_. 0)"
    by (rule send_sample [of "dc_reset c1" n1]) (use c1 in simp_all)
  have d: "dhcp_receive ?env [DHCPACK, DHCPNAK] (c2, n2) = Some (Some msg, c2, n2\<lparr>dn_in := []\<rparr>)"
    using c2 f msg(2,3) by (simp add: dhcp_receive.simps [of ?env _ c2 n2] do_receive_msg.simps [of ?env c2 n2])
  have v: "validate_offered_options ?env msg" using msg(4,5) by (simp add: validate_offered_options_def sample_env_def)
  obtain b where b: "dhcp_msg_copy msg = Some b" using copy_data_result [OF msg(1), of "length (dm_data msg)"] by (auto simp: dhcp_msg_copy_def)
  obtain n3 where l: "lease_times msg (n2\<lparr>dn_in := []\<rparr>) = (3600, 1790, 3140, n3)"
    using msg(4,6,7) c2(5) by (simp add: lease_times_def calc_t1_def calc_t2_def fuzz_def random_range_def clamp_u_def Let_def)
  have nak: "dm_type msg \<noteq> DHCPNAK" using msg(2) by simp
  obtain c3 where r: "receive_ack ?env (c2, n2) = do { dc \<leftarrow> state_transition ?env DS_BOUND (c3, n3); Some (True, dc) }"
    and c3: "dc_binding c3 = Some b" "dc_lease_expiration c3 = uint (sat_add (of_int (de_now ?env)) 3600)"
      "dc_bound_timeout c3 = 1790"
    by (rule ack_received [OF d nak v b l])
  obtain c4 n4 where t: "state_transition ?env DS_BOUND (c3, n3) = Some (c4, n4)"
    using c3(1) by (cases "dhclient_is_bound c3") (auto simp: state_transition_def dhclient_is_bound_def Let_def)
  note c4 = transition_result [OF t]
  have r2: "run_dc_state ?env (dc_reset c1, n1) = Some (c4, n4)" using s r t c1(1) by (simp add: run_dc_state_def await_ack_def)
  obtain e c5 where to: "dc_timeout ?env 1790 (dc_reset c4) = (e, c5)" by fastforce
  have "\<not> e" using fresh_timeout [of ?env "dc_reset c4" 1790] to c4(2) by (simp add: sample_env_def dc_fresh_def)
  then have r3: "run_dc_state ?env (dc_reset c4, n4) = Some (c5, n4)" using c4(1,6) c3(3) to by (simp add: run_dc_state_def run_BOUND_def)
  have c5: "dc_core c5 = dc_core c4" using timeout_split(2) [OF to] by simp
  have "dhclient_run ?env (sample_start, sample_net [None, Some frame]) = Some (Done (c5, n4))"
    using one_round(1) [OF r1] one_round(1) [OF r2] one_round(2) [OF r3] c1(1) c4(1) core_fields(1) [OF c5]
    by (simp add: sample_start_def)
  then show thesis using that core_fields(1,4) [OF c5] c4(1,5) c3(2) by (simp add: sample_env_def sat_add_def)
qed


end
